(* ===== verification/Prelude.thy ===== *)
theory Prelude
  imports Main "HOL-Library.Word"
begin

text \<open>
  Shared vocabulary of the development: the outcome of a kernel routine, C's unsigned 32-bit
  arithmetic written on \<open>nat\<close>, blocks of bytes, the little-endian fields of the on-disk
  structures, and the generic lemmas that the component theories use.

  A routine returns \<open>Inr\<close> of its result, or \<open>Inl\<close> of the way it fails to return:
  \<open>Panic\<close> is a call of \<open>panic()\<close> (\<open>src/console.c\<close>) with its message, \<open>Sleeps\<close> is a
  process that goes to sleep on a condition which no step of its own can make true,
  \<open>Diverges\<close> is a loop that never ends, and \<open>Undef\<close> is an access outside the C object it indexes
  or an operation with no result (a division by zero, a negative shift).
\<close>

unbundle bit_operations_syntax

named_theorems res_simps \<open>rules that evaluate the outcome type\<close>
named_theorems le_simps \<open>rules for little-endian fields of a block\<close>

section \<open>Outcomes\<close>

datatype fault = Panic string | Sleeps string | Diverges string | Undef string

type_synonym 'a res = "fault + 'a"

definition rbind :: "'a res \<Rightarrow> ('a \<Rightarrow> 'b res) \<Rightarrow> 'b res" where
  "rbind m f = (case m of Inl e \<Rightarrow> Inl e | Inr x \<Rightarrow> f x)"

lemma rbind_Inl [simp, res_simps]: "rbind (Inl e) f = Inl e"
  by (simp add: rbind_def)

lemma rbind_Inr [simp, res_simps]: "rbind (Inr x) f = f x"
  by (simp add: rbind_def)

lemma rbind_Inr_right [simp, res_simps]: "rbind m Inr = m"
  by (cases m) simp_all

lemma rbind_eq_Inr [res_simps]: "rbind m f = Inr y \<longleftrightarrow> (\<exists>x. m = Inr x \<and> f x = Inr y)"
  by (cases m) auto

lemma rbind_assoc: "rbind (rbind m f) g = rbind m (\<lambda>x. rbind (f x) g)"
  by (cases m) auto

lemma rbind_cong [fundef_cong]:
  "m = m' \<Longrightarrow> (\<And>x. m' = Inr x \<Longrightarrow> f x = g x) \<Longrightarrow> rbind m f = rbind m' g"
  by (cases m') auto

text \<open>A counted loop: \<open>for (i = lo; i < hi; i++) s = body(i, s)\<close>, stopping at the first fault.\<close>

fun rfor :: "nat list \<Rightarrow> (nat \<Rightarrow> 's \<Rightarrow> 's res) \<Rightarrow> 's \<Rightarrow> 's res" where
  "rfor [] body s = Inr s"
| "rfor (i # is) body s = rbind (body i s) (rfor is body)"

lemma rfor_append: "rfor (xs @ ys) body s = rbind (rfor xs body s) (rfor ys body)"
proof (induction xs arbitrary: s)
  case (Cons a xs)
  then have "rfor (xs @ ys) body = (\<lambda>t. rbind (rfor xs body t) (rfor ys body))" by auto
  then show ?case by (simp add: rbind_assoc)
qed simp

lemma rfor_invariant:
  assumes "rfor xs body s = Inr s'" and "P s"
    and "\<And>i t t'. i \<in> set xs \<Longrightarrow> P t \<Longrightarrow> body i t = Inr t' \<Longrightarrow> P t'"
  shows "P s'"
  using assms by (induction xs arbitrary: s) (auto simp: rbind_eq_Inr)

text \<open>
  Total correctness of a counted loop: an invariant indexed by the iterations done, whose
  every step returns.
\<close>

lemma rfor_total:
  assumes "P 0 s"
    and "\<And>i t. i < n \<Longrightarrow> P i t \<Longrightarrow> \<exists>t'. body i t = Inr t' \<and> P (Suc i) t'"
  shows "\<exists>s'. rfor [0..<n] body s = Inr s' \<and> P n s'"
  using assms(2)
proof (induction n)
  case 0
  then show ?case using assms(1) by simp
next
  case (Suc n)
  then obtain t where t: "rfor [0..<n] body s = Inr t" "P n t"
    by (metis less_SucI)
  then obtain t' where "body n t = Inr t'" "P (Suc n) t'"
    using Suc.prems by blast
  with t show ?case by (simp add: rfor_append)
qed

section \<open>Unsigned 32-bit arithmetic\<close>

text \<open>
  A C \<open>uint\<close> is a natural number below \<open>2^32\<close>; the three operations that can leave the range
  wrap around.
\<close>

definition uadd :: "nat \<Rightarrow> nat \<Rightarrow> nat" where
  "uadd a b = (a + b) mod 2 ^ 32"

definition usub :: "nat \<Rightarrow> nat \<Rightarrow> nat" where
  "usub a b = (a + 2 ^ 32 - b mod 2 ^ 32) mod 2 ^ 32"

definition umul :: "nat \<Rightarrow> nat \<Rightarrow> nat" where
  "umul a b = (a * b) mod 2 ^ 32"

lemma uadd_small: "a + b < 2 ^ 32 \<Longrightarrow> uadd a b = a + b"
  by (simp add: uadd_def)

lemma uadd_lt [simp]: "uadd a b < 4294967296"
  by (simp add: uadd_def)

lemma usub_lt [simp]: "usub a b < 4294967296"
  by (simp add: usub_def)

lemma usub_small:
  assumes "b \<le> a" and "a < 2 ^ 32"
  shows "usub a b = a - b"
proof -
  have "b < 2 ^ 32" using assms by (rule le_less_trans)
  then have "b mod 2 ^ 32 = b" by (rule mod_less)
  moreover have "a + 2 ^ 32 - b = (a - b) + 2 ^ 32" using assms(1) by linarith
  moreover have "a - b < 2 ^ 32" using assms(2) by linarith
  ultimately show ?thesis unfolding usub_def by (simp only: mod_add_self2 mod_less)
qed

lemma umul_small: "a * b < 2 ^ 32 \<Longrightarrow> umul a b = a * b"
  by (simp add: umul_def)

text \<open>The signed reading of a 32-bit and of a 16-bit pattern (C \<open>int\<close> and \<open>short\<close>).\<close>

definition sint32 :: "nat \<Rightarrow> int" where
  "sint32 v = (if v < 2 ^ 31 then int v else int v - 2 ^ 32)"

definition sint16 :: "nat \<Rightarrow> int" where
  "sint16 v = (if v < 2 ^ 15 then int v else int v - 2 ^ 16)"

definition pat32 :: "int \<Rightarrow> nat" where
  "pat32 x = nat (x mod 2 ^ 32)"

definition pat16 :: "int \<Rightarrow> nat" where
  "pat16 x = nat (x mod 2 ^ 16)"

lemma sint32_pat32:
  assumes "- (2 ^ 31) \<le> x" and "x < 2 ^ 31"
  shows "sint32 (pat32 x) = x"
proof (cases "0 \<le> x")
  case True
  with assms have "x mod 2 ^ 32 = x" by simp
  with True assms show ?thesis by (simp add: sint32_def pat32_def nat_less_iff)
next
  case False
  have "x mod 2 ^ 32 = (x + 2 ^ 32) mod 2 ^ 32" by simp
  also have "\<dots> = x + 2 ^ 32" using False assms by (intro mod_pos_pos_trivial) auto
  finally show ?thesis using False assms by (simp add: sint32_def pat32_def nat_less_iff)
qed

lemma sint16_pat16:
  assumes "- (2 ^ 15) \<le> x" and "x < 2 ^ 15"
  shows "sint16 (pat16 x) = x"
proof (cases "0 \<le> x")
  case True
  with assms have "x mod 2 ^ 16 = x" by simp
  with True assms show ?thesis by (simp add: sint16_def pat16_def nat_less_iff)
next
  case False
  have "x mod 2 ^ 16 = (x + 2 ^ 16) mod 2 ^ 16" by simp
  also have "\<dots> = x + 2 ^ 16" using False assms by (intro mod_pos_pos_trivial) auto
  finally show ?thesis using False assms by (simp add: sint16_def pat16_def nat_less_iff)
qed

lemma pat32_lt [simp]: "pat32 x < 4294967296"
  by (simp add: pat32_def nat_less_iff)

lemma pat16_lt [simp]: "pat16 x < 65536"
  by (simp add: pat16_def nat_less_iff)

section \<open>Blocks of bytes\<close>

type_synonym byte = "8 word"
type_synonym block = "nat \<Rightarrow> byte"

definition zero_block :: block where
  "zero_block = (\<lambda>_. 0)"

lemma zero_block_apply [simp]: "zero_block i = 0"
  by (simp add: zero_block_def)

text \<open>\<open>memmove(d + off, src, n)\<close> into a block that the source does not overlap.\<close>

definition put_bytes :: "block \<Rightarrow> nat \<Rightarrow> (nat \<Rightarrow> byte) \<Rightarrow> nat \<Rightarrow> block" where
  "put_bytes d off src n = (\<lambda>i. if off \<le> i \<and> i < off + n then src (i - off) else d i)"

lemma put_bytes_in: "i < n \<Longrightarrow> put_bytes d off src n (off + i) = src i"
  by (simp add: put_bytes_def)

lemma put_bytes_out: "i < off \<or> off + n \<le> i \<Longrightarrow> put_bytes d off src n i = d i"
  by (auto simp: put_bytes_def)

lemma put_bytes_0 [simp]: "put_bytes d off src 0 = d"
  by (rule ext) (auto simp: put_bytes_def)

section \<open>Little-endian fields\<close>

definition get16 :: "block \<Rightarrow> nat \<Rightarrow> nat" where
  "get16 d off = unat (d off) + 256 * unat (d (off + 1))"

definition get32 :: "block \<Rightarrow> nat \<Rightarrow> nat" where
  "get32 d off = unat (d off) + 256 * unat (d (off + 1)) + 65536 * unat (d (off + 2))
    + 16777216 * unat (d (off + 3))"

definition put16 :: "block \<Rightarrow> nat \<Rightarrow> nat \<Rightarrow> block" where
  "put16 d off v = d(off := word_of_nat v, off + 1 := word_of_nat (v div 256))"

definition put32 :: "block \<Rightarrow> nat \<Rightarrow> nat \<Rightarrow> block" where
  "put32 d off v = d(off := word_of_nat v, off + 1 := word_of_nat (v div 256),
     off + 2 := word_of_nat (v div 65536), off + 3 := word_of_nat (v div 16777216))"

lemma unat_byte_lt [simp]: "unat (x :: byte) < 256"
  using unsigned_less [of x, where 'a = nat] by simp

lemma unat_of_nat_byte: "unat (word_of_nat v :: byte) = v mod 256"
  by (simp add: unat_of_nat take_bit_eq_mod)

lemma get16_lt [simp]: "get16 d off < 65536"
  using unat_byte_lt [of "d off"] unat_byte_lt [of "d (off + 1)"]
  unfolding get16_def by linarith

lemma get32_lt [simp]: "get32 d off < 4294967296"
  using unat_byte_lt [of "d off"] unat_byte_lt [of "d (off + 1)"]
    unat_byte_lt [of "d (off + 2)"] unat_byte_lt [of "d (off + 3)"]
  unfolding get32_def by linarith

lemma le_digits32:
  fixes v :: nat
  shows "v mod 256 + 256 * (v div 256 mod 256) + 65536 * (v div 65536 mod 256)
    + 16777216 * (v div 16777216 mod 256) = v mod 4294967296"
proof -
  have a: "v div 65536 = v div 256 div 256" "v div 16777216 = v div 256 div 256 div 256"
    using div_mult2_eq [of v 256 256] div_mult2_eq [of v 65536 256] by simp_all
  have "v mod 4294967296 = v mod 256 + 256 * (v div 256 mod 16777216)"
    using mod_mult2_eq [of v 256 16777216] by simp
  also have "v div 256 mod 16777216 = v div 256 mod 256 + 256 * (v div 256 div 256 mod 65536)"
    using mod_mult2_eq [of "v div 256" 256 65536] by simp
  also have "v div 256 div 256 mod 65536
      = v div 256 div 256 mod 256 + 256 * (v div 256 div 256 div 256 mod 256)"
    using mod_mult2_eq [of "v div 256 div 256" 256 256] by simp
  finally show ?thesis using a by simp
qed

lemma get32_put32 [simp, le_simps]: "v < 4294967296 \<Longrightarrow> get32 (put32 d off v) off = v"
  using le_digits32 [of v] by (simp add: get32_def put32_def unat_of_nat_byte)

lemma get16_put16 [simp, le_simps]: "v < 65536 \<Longrightarrow> get16 (put16 d off v) off = v"
  using mod_mult2_eq [of v 256 256]
  by (simp add: get16_def put16_def unat_of_nat_byte)

lemma put32_out: "i < off \<or> off + 4 \<le> i \<Longrightarrow> put32 d off v i = d i"
  by (auto simp: put32_def)

lemma put16_out: "i < off \<or> off + 2 \<le> i \<Longrightarrow> put16 d off v i = d i"
  by (auto simp: put16_def)

lemma get32_put32_other [le_simps]:
  "off' + 4 \<le> off \<or> off + 4 \<le> off' \<Longrightarrow> get32 (put32 d off v) off' = get32 d off'"
  by (auto simp: get32_def put32_out)

lemma get32_put16_other [le_simps]:
  "off' + 4 \<le> off \<or> off + 2 \<le> off' \<Longrightarrow> get32 (put16 d off v) off' = get32 d off'"
  by (auto simp: get32_def put16_out)

lemma get16_put32_other [le_simps]:
  "off' + 2 \<le> off \<or> off + 4 \<le> off' \<Longrightarrow> get16 (put32 d off v) off' = get16 d off'"
  by (auto simp: get16_def put32_out)

lemma get16_put16_other [le_simps]:
  "off' + 2 \<le> off \<or> off + 2 \<le> off' \<Longrightarrow> get16 (put16 d off v) off' = get16 d off'"
  by (auto simp: get16_def put16_out)

lemma get32_zero_block [simp]: "get32 zero_block off = 0"
  by (simp add: get32_def)

lemma get16_zero_block [simp]: "get16 zero_block off = 0"
  by (simp add: get16_def)

section \<open>Searching a list\<close>

lemma find_Some_mem: "find P xs = Some x \<Longrightarrow> x \<in> set xs \<and> P x"
  by (induction xs) (auto split: if_splits)

lemma find_None_iff_all: "find P xs = None \<longleftrightarrow> (\<forall>x \<in> set xs. \<not> P x)"
  by (induction xs) auto

lemma find_cong_on: "(\<And>x. x \<in> set xs \<Longrightarrow> P x = Q x) \<Longrightarrow> find P xs = find Q xs"
  by (induction xs) auto

lemma find_unique:
  assumes "x \<in> set xs" and "P x" and "\<And>y. y \<in> set xs \<Longrightarrow> P y \<Longrightarrow> y = x"
  shows "find P xs = Some x"
proof (cases "find P xs")
  case None
  then show ?thesis using assms(1,2) by (auto simp: find_None_iff_all)
next
  case (Some y)
  then show ?thesis using assms(3) find_Some_mem [OF Some] by simp
qed

lemma find_append_case:
  "find P (xs @ ys) = (case find P xs of None \<Rightarrow> find P ys | Some x \<Rightarrow> Some x)"
  by (induction xs) auto

lemma find_upt_Some:
  "find P [0..<n] = Some i \<longleftrightarrow> i < n \<and> P i \<and> (\<forall>j < i. \<not> P j)"
  (is "?L \<longleftrightarrow> ?R")
proof
  assume ?L
  then show ?R by (auto simp: find_Some_iff)
next
  assume ?R
  then show ?L by (auto simp: find_Some_iff intro!: exI [of _ i])
qed

lemma find_upt_None: "find P [0..<n] = None \<longleftrightarrow> (\<forall>j < n. \<not> P j)"
  by (auto simp: find_None_iff_all)

section \<open>Search loops\<close>

text \<open>
  A loop that returns from its body: \<open>for (i in is) if (body(i)) return v\<close>. The body answers
  \<open>None\<close> to go on with the next index, \<open>Some v\<close> to return \<open>v\<close>.
\<close>

fun rfirst :: "('i \<Rightarrow> 's \<Rightarrow> ('a option \<times> 's) res) \<Rightarrow> 'i list \<Rightarrow> 's \<Rightarrow> ('a option \<times> 's) res" where
  "rfirst body [] s = Inr (None, s)"
| "rfirst body (i # is) s =
     rbind (body i s) (\<lambda>(r, t). case r of None \<Rightarrow> rfirst body is t | Some v \<Rightarrow> Inr (Some v, t))"

section \<open>Bitmaps\<close>

text \<open>Bit \<open>i\<close> of a bitmap is bit \<open>i % 8\<close> of byte \<open>i / 8\<close>.\<close>

definition bm_mask :: "nat \<Rightarrow> byte" where
  "bm_mask i = push_bit (i mod 8) 1"

definition bm_test :: "block \<Rightarrow> nat \<Rightarrow> bool" where
  "bm_test d i \<longleftrightarrow> d (i div 8) AND bm_mask i \<noteq> 0"

definition bm_set :: "block \<Rightarrow> nat \<Rightarrow> block" where
  "bm_set d i = d(i div 8 := d (i div 8) OR bm_mask i)"

definition bm_clear :: "block \<Rightarrow> nat \<Rightarrow> block" where
  "bm_clear d i = d(i div 8 := d (i div 8) AND NOT (bm_mask i))"

lemma bm_test_bit: "bm_test d i \<longleftrightarrow> bit (d (i div 8)) (i mod 8)"
proof -
  have "i mod 8 < LENGTH(8)" by simp
  then show ?thesis
    by (auto simp: bm_test_def bm_mask_def and_exp_eq_0_iff_not_bit push_bit_of_1)
qed

lemma bit_bm_mask: "bit (bm_mask i) k \<longleftrightarrow> k = i mod 8"
proof -
  have "i mod 8 < 8" by simp
  then show ?thesis by (auto simp: bm_mask_def bit_simps push_bit_of_1)
qed

lemma same_bit: "i div 8 = j div (8 :: nat) \<and> j mod 8 = i mod 8 \<longleftrightarrow> i = j"
  by (metis div_mult_mod_eq)

lemma bm_test_set [simp]: "bm_test (bm_set d i) j \<longleftrightarrow> i = j \<or> bm_test d j"
proof (cases "j div 8 = i div 8")
  case True
  then show ?thesis
    unfolding bm_test_bit bm_set_def same_bit [of i j, symmetric]
    by (simp add: bit_or_iff bit_bm_mask) blast
next
  case False
  then have "i \<noteq> j" by auto
  then show ?thesis using False by (simp add: bm_test_bit bm_set_def)
qed

lemma bm_test_clear [simp]: "bm_test (bm_clear d i) j \<longleftrightarrow> i \<noteq> j \<and> bm_test d j"
proof (cases "j div 8 = i div 8")
  case True
  have "j mod 8 < LENGTH(8)" by simp
  then show ?thesis
    unfolding bm_test_bit bm_clear_def same_bit [of i j, symmetric]
    using True by (simp add: bit_and_iff bit_not_iff bit_bm_mask) blast
next
  case False
  then have "i \<noteq> j" by auto
  then show ?thesis using False by (simp add: bm_test_bit bm_clear_def)
qed

section \<open>Paths through pointers\<close>

text \<open>\<open>ptr_path nx a xs z\<close>: following \<open>nx\<close> from \<open>a\<close> visits \<open>xs\<close> and then \<open>z\<close>.\<close>

fun ptr_path :: "(nat \<Rightarrow> nat) \<Rightarrow> nat \<Rightarrow> nat list \<Rightarrow> nat \<Rightarrow> bool" where
  "ptr_path nx a [] z \<longleftrightarrow> nx a = z"
| "ptr_path nx a (x # xs) z \<longleftrightarrow> nx a = x \<and> ptr_path nx x xs z"

lemma path_append: "ptr_path nx a (xs @ y # ys) z \<longleftrightarrow> ptr_path nx a xs y \<and> ptr_path nx y ys z"
  by (induction xs arbitrary: a) auto

lemma path_first: "ptr_path nx a xs z \<Longrightarrow> nx a = hd (xs @ [z])"
  by (cases xs) auto

lemma path_other: "b \<notin> set (a # xs) \<Longrightarrow> ptr_path (nx(b := v)) a xs z \<longleftrightarrow> ptr_path nx a xs z"
  by (induction xs arbitrary: a) auto

lemma path_redirect:
  "ptr_path nx a xs z \<Longrightarrow> distinct (a # xs) \<Longrightarrow> ptr_path (nx(last (a # xs) := c)) a xs c"
  by (induction xs arbitrary: a) auto

lemma path_start: "ptr_path nx a xs z \<Longrightarrow> nx' b = nx a \<Longrightarrow> (\<forall>x \<in> set xs. nx' x = nx x) \<Longrightarrow> ptr_path nx' b xs z"
proof (induction xs arbitrary: a b)
  case (Cons x xs)
  then show ?case using Cons.IH [of x x] by simp
qed simp

lemma path_splice:
  "ptr_path nx a xs z \<Longrightarrow> ptr_path nx y ys w \<Longrightarrow> distinct (a # xs) \<Longrightarrow> last (a # xs) \<notin> set ys \<Longrightarrow>
   ptr_path (nx(last (a # xs) := nx y)) a (xs @ ys) w"
proof (induction xs arbitrary: a)
  case Nil
  then show ?case by (auto intro: path_start [of nx y ys w])
next
  case (Cons x xs)
  then show ?case using Cons.IH [of x] by auto
qed

lemma path_cong: "(\<And>x. x \<in> set (a # xs) \<Longrightarrow> nx x = nx' x) \<Longrightarrow> ptr_path nx a xs z \<longleftrightarrow> ptr_path nx' a xs z"
  by (induction xs arbitrary: a) auto

lemma path_range: "ptr_path nx a xs z \<Longrightarrow> x \<in> set (a # xs) \<Longrightarrow> nx x \<in> set xs \<union> {z}"
  by (induction xs arbitrary: a) auto

lemma path_inj:
  "ptr_path nx a xs z \<Longrightarrow> distinct (xs @ [z]) \<Longrightarrow> x \<in> set (a # xs) \<Longrightarrow> y \<in> set (a # xs) \<Longrightarrow>
   nx x = nx y \<Longrightarrow> x = y"
proof (induction xs arbitrary: a)
  case (Cons b xs)
  have p: "nx a = b" "ptr_path nx b xs z" and d: "b \<notin> set xs \<union> {z}" "distinct (xs @ [z])"
    using Cons.prems(1,2) by auto
  have tail: "nx c \<noteq> b" if "c \<in> set (b # xs)" for c using path_range [OF p(2) that] d(1) by metis
  consider "x = a" "y = a" | "x = a" "y \<in> set (b # xs)" | "y = a" "x \<in> set (b # xs)"
    | "x \<in> set (b # xs)" "y \<in> set (b # xs)"
    using Cons.prems(3,4) by auto
  then show ?case
  proof cases
    case 2
    then show ?thesis using tail [of y] p(1) Cons.prems(5) by simp
  next
    case 3
    then show ?thesis using tail [of x] p(1) Cons.prems(5) by simp
  next
    case 4
    then show ?thesis using Cons.IH [OF p(2) d(2)] Cons.prems(5) by simp
  qed simp
qed simp

lemma path_last: "ptr_path nx a (us @ vs) z \<Longrightarrow> nx (last (a # us)) = hd (vs @ [z])"
  by (induction us arbitrary: a) (auto dest: path_first)

text \<open>A circular list can be entered at any of its nodes.\<close>

lemma path_rotate:
  assumes "ptr_path nx a xs a" "distinct (a # xs)" "f \<in> set (a # xs)"
  obtains ys where "ptr_path nx f ys f" "distinct (f # ys)" "set (f # ys) = set (a # xs)"
proof (cases "f = a")
  case True
  then show ?thesis using that [of xs] assms by simp
next
  case False
  then obtain us vs where x: "xs = us @ f # vs" using assms(3) split_list by fastforce
  then have "ptr_path nx f (vs @ a # us) f" using assms(1) by (simp add: path_append)
  moreover have "distinct (f # vs @ a # us)" "set (f # vs @ a # us) = set (a # xs)" using assms(2) x by auto
  ultimately show ?thesis by (rule that)
qed

end
