(* ===== verification/Ide.thy ===== *)
theory Ide
  imports Prelude
begin

text \<open>
  The disk driver: \<open>src/ide.c\<close> (two IDE buses, a queue of buffers, an interrupt handler), the
  buffer structure of \<open>src/buf.h\<close>, the sleep-lock operations of \<open>src/sleeplock.c\<close> as one
  process sees them, and the memory disk \<open>src/memide.c\<close> that can replace the driver.

  The hardware is the array \<open>disk\<close> (drive, first sector, two sectors of bytes), the registers of
  each bus and the status byte a drive shows once it is ready. \<open>dtrace\<close> records the blocks
  written to the drives in order, so that a crash between two writes can be talked about.
  A spin-lock critical section runs as one step. A process that sleeps for the disk is woken by
  the interrupt of the request at the head of the queue, which the model delivers.
\<close>

section \<open>Constants, locks and buffers\<close>

definition BSIZE :: nat where "BSIZE = 1024"
definition SECTOR_SIZE :: nat where "SECTOR_SIZE = 512"
definition ROOTDEV :: nat where "ROOTDEV = 1"
definition EXT2DEV :: nat where "EXT2DEV = 2"
definition FSSIZE :: nat where "FSSIZE = 1000"
definition EXT2FSSIZE :: nat where "EXT2FSSIZE = 20000"

lemmas ide_consts = BSIZE_def SECTOR_SIZE_def ROOTDEV_def EXT2DEV_def FSSIZE_def EXT2FSSIZE_def

record sleeplock =
  sl_locked :: bool
  sl_pid :: nat

record buf =
  b_valid :: bool
  b_dirty :: bool
  b_dev :: nat
  b_blockno :: nat
  b_lock :: sleeplock
  b_refcnt :: nat
  b_data :: block

text \<open>The task-file registers of one IDE bus.\<close>

record ata_regs =
  ata_nsect :: nat
  ata_lba0 :: byte
  ata_lba1 :: byte
  ata_lba2 :: byte
  ata_devhead :: byte
  ata_command :: byte

record io =
  mypid :: nat
  disk :: "nat \<Rightarrow> nat \<Rightarrow> block"
  dtrace :: "(nat \<times> nat \<times> block) list"
  ata :: "nat \<Rightarrow> ata_regs"
  ata_status :: "nat \<Rightarrow> byte"
  havedisk1 :: bool
  havedisk2 :: bool
  idequeue :: "nat list"
  bufs :: "nat \<Rightarrow> buf"

definition set_buf :: "nat \<Rightarrow> (buf \<Rightarrow> buf) \<Rightarrow> 'z io_scheme \<Rightarrow> 'z io_scheme" where
  "set_buf b f s = s\<lparr>bufs := (bufs s)(b := f (bufs s b))\<rparr>"

lemma set_buf_simps [simp]:
  "mypid (set_buf b f s) = mypid s" "disk (set_buf b f s) = disk s"
  "dtrace (set_buf b f s) = dtrace s" "ata (set_buf b f s) = ata s"
  "ata_status (set_buf b f s) = ata_status s" "havedisk1 (set_buf b f s) = havedisk1 s"
  "havedisk2 (set_buf b f s) = havedisk2 s" "idequeue (set_buf b f s) = idequeue s"
  "io.more (set_buf b f s) = io.more s"
  "bufs (set_buf b f s) = (bufs s)(b := f (bufs s b))"
  by (simp_all add: set_buf_def)

section \<open>Sleep locks\<close>

definition acquiresleep :: "nat \<Rightarrow> sleeplock \<Rightarrow> sleeplock res" where
  "acquiresleep pid lk =
     (if sl_locked lk then Inl (Sleeps ''acquiresleep'')
      else Inr \<lparr>sl_locked = True, sl_pid = pid\<rparr>)"

definition releasesleep :: "sleeplock \<Rightarrow> sleeplock" where
  "releasesleep lk = \<lparr>sl_locked = False, sl_pid = 0\<rparr>"

definition holdingsleep :: "nat \<Rightarrow> sleeplock \<Rightarrow> bool" where
  "holdingsleep pid lk \<longleftrightarrow> sl_locked lk \<and> sl_pid lk = pid"

lemma acquiresleep_holding: "acquiresleep pid lk = Inr lk' \<Longrightarrow> holdingsleep pid lk'"
  by (auto simp: acquiresleep_def holdingsleep_def split: if_splits)

lemma releasesleep_not_holding [simp]: "\<not> holdingsleep pid (releasesleep lk)"
  by (simp add: releasesleep_def holdingsleep_def)

section \<open>The IDE driver\<close>

definition ide_port :: "nat \<Rightarrow> nat" where
  "ide_port dev = (if dev \<le> 1 then 0x1f0 else 0x170)"

text \<open>\<open>idewait\<close> polls the status port until the drive is ready, then looks at the error bits.\<close>

definition idewait :: "bool \<Rightarrow> nat \<Rightarrow> 'z io_scheme \<Rightarrow> int" where
  "idewait checkerr portno s =
     (if checkerr \<and> ata_status s portno AND (0x20 OR 0x01) \<noteq> 0 then -1 else 0)"

definition ideinit :: "(nat \<Rightarrow> byte) \<Rightarrow> (nat \<Rightarrow> byte) \<Rightarrow> 'z io_scheme \<Rightarrow> 'z io_scheme" where
  "ideinit probe1 probe2 s =
     s\<lparr>havedisk1 := (havedisk1 s \<or> list_ex (\<lambda>i. probe1 i \<noteq> 0) [0..<1000]),
       havedisk2 := (havedisk2 s \<or> list_ex (\<lambda>i. probe2 i \<noteq> 0) [0..<1000])\<rparr>"

definition ide_regs :: "nat \<Rightarrow> nat \<Rightarrow> bool \<Rightarrow> ata_regs" where
  "ide_regs dev blockno dirty =
     (let sector_per_block = BSIZE div SECTOR_SIZE;
          sector = umul blockno sector_per_block;
          read_cmd = (if sector_per_block = 1 then 0x20 else 0xc4);
          write_cmd = (if sector_per_block = 1 then 0x30 else 0xc5)
      in \<lparr>ata_nsect = sector_per_block,
          ata_lba0 = word_of_nat sector,
          ata_lba1 = word_of_nat (sector div 2 ^ 8),
          ata_lba2 = word_of_nat (sector div 2 ^ 16),
          ata_devhead = 0xe0 OR push_bit 4 (word_of_nat dev AND 1)
            OR (word_of_nat (sector div 2 ^ 24) AND 0x0f),
          ata_command = (if dirty then write_cmd else read_cmd)\<rparr>)"

text \<open>
  What the registers of a bus address: the drive (two per bus, chosen by bit 4 of the
  device/head register) and the 28-bit sector number.
\<close>

definition ata_drive :: "nat \<Rightarrow> ata_regs \<Rightarrow> nat" where
  "ata_drive portno r =
     (if portno = 0x1f0 then 0 else 2) + (if ata_devhead r AND 0x10 \<noteq> 0 then 1 else 0)"

definition ata_lba :: "ata_regs \<Rightarrow> nat" where
  "ata_lba r = unat (ata_lba0 r) + 2 ^ 8 * unat (ata_lba1 r) + 2 ^ 16 * unat (ata_lba2 r)
     + 2 ^ 24 * unat (ata_devhead r AND 0x0f)"

definition insl :: "nat \<Rightarrow> 'z io_scheme \<Rightarrow> block" where
  "insl portno s = disk s (ata_drive portno (ata s portno)) (ata_lba (ata s portno))"

definition outsl :: "nat \<Rightarrow> block \<Rightarrow> 'z io_scheme \<Rightarrow> 'z io_scheme" where
  "outsl portno d s =
     (let dr = ata_drive portno (ata s portno); l = ata_lba (ata s portno)
      in s\<lparr>disk := (disk s)(dr := (disk s dr)(l := d)), dtrace := dtrace s @ [(dr, l, d)]\<rparr>)"

definition idestart :: "nat option \<Rightarrow> 'z io_scheme \<Rightarrow> 'z io_scheme res" where
  "idestart p s =
     (case p of None \<Rightarrow> Inl (Panic ''idestart'')
      | Some b \<Rightarrow>
        let dev = b_dev (bufs s b); blockno = b_blockno (bufs s b); portno = ide_port dev in
        if dev = ROOTDEV \<and> blockno \<ge> FSSIZE then Inl (Panic ''incorrect xv6 blockno'')
        else if dev = EXT2DEV \<and> blockno \<ge> EXT2FSSIZE then Inl (Panic ''incorrect ext2 blockno'')
        else if BSIZE div SECTOR_SIZE > 7 then Inl (Panic ''idestart'')
        else
          let s1 = s\<lparr>ata := (ata s)(portno := ide_regs dev blockno (b_dirty (bufs s b)))\<rparr> in
          if b_dirty (bufs s b) then Inr (outsl portno (b_data (bufs s b)) s1) else Inr s1)"

definition ideintr :: "nat \<Rightarrow> 'z io_scheme \<Rightarrow> 'z io_scheme res" where
  "ideintr flag s =
     (let portno = (if flag = 0 then 0x1f0 else 0x170) in
      case idequeue s of [] \<Rightarrow> Inr s
      | b # q \<Rightarrow>
        let s1 = s\<lparr>idequeue := q\<rparr>;
            s2 = (if \<not> b_dirty (bufs s1 b) \<and> idewait True portno s1 \<ge> 0
                  then set_buf b (\<lambda>bf. bf\<lparr>b_data := insl portno s1\<rparr>) s1 else s1);
            s3 = set_buf b (\<lambda>bf. bf\<lparr>b_valid := True, b_dirty := False\<rparr>) s2
        in if q \<noteq> [] then idestart (Some (hd q)) s3 else Inr s3)"

text \<open>
  The loop \<open>while((b->flags & (B_VALID|B_DIRTY)) != B_VALID) sleep(b, &idelock)\<close>: each
  turn is one interrupt from the drive that serves the head of the queue. One turn per queued
  request is enough.
\<close>

fun ide_sleep :: "nat \<Rightarrow> nat \<Rightarrow> 'z io_scheme \<Rightarrow> 'z io_scheme res" where
  "ide_sleep fuel b s =
     (if b_valid (bufs s b) \<and> \<not> b_dirty (bufs s b) then Inr s
      else case (fuel, idequeue s) of
        (Suc fuel', a # q) \<Rightarrow>
          rbind (ideintr (if b_dev (bufs s a) \<le> 1 then 0 else 1) s) (ide_sleep fuel' b)
      | _ \<Rightarrow> Inl (Sleeps ''iderw''))"

declare ide_sleep.simps [simp del]

definition iderw :: "nat \<Rightarrow> 'z io_scheme \<Rightarrow> 'z io_scheme res" where
  "iderw b s =
     (if \<not> holdingsleep (mypid s) (b_lock (bufs s b)) then Inl (Panic ''iderw: buf not locked'')
      else if b_valid (bufs s b) \<and> \<not> b_dirty (bufs s b) then Inl (Panic ''iderw: nothing to do'')
      else if b_dev (bufs s b) \<noteq> 0 \<and> \<not> havedisk1 s
        then Inl (Panic ''iderw: ide disk 1 not present'')
      else if b_dev (bufs s b) \<noteq> 0 \<and> \<not> havedisk2 s
        then Inl (Panic ''iderw: ide disk 2 not present'')
      else
        let s1 = s\<lparr>idequeue := idequeue s @ [b]\<rparr> in
        rbind (if hd (idequeue s1) = b then idestart (Some b) s1 else Inr s1)
          (\<lambda>s2. ide_sleep (length (idequeue s2)) b s2))"

section \<open>The memory disk\<close>

text \<open>
  \<open>src/memide.c\<close>: the same interface over an image in memory. \<open>memdisk\<close> is the image of drive 1,
  so a write is visible in \<open>disk\<close> and recorded in \<open>dtrace\<close>, like a write of the driver.
\<close>

definition memide_iderw :: "nat \<Rightarrow> nat \<Rightarrow> 'z io_scheme \<Rightarrow> 'z io_scheme res" where
  "memide_iderw disksize b s =
     (let bf = bufs s b; l = 2 * b_blockno bf in
      if \<not> holdingsleep (mypid s) (b_lock bf) then Inl (Panic ''iderw: buf not locked'')
      else if b_valid bf \<and> \<not> b_dirty bf then Inl (Panic ''iderw: nothing to do'')
      else if b_dev bf \<noteq> 1 then Inl (Panic ''iderw: request not for disk 1'')
      else if b_blockno bf \<ge> disksize then Inl (Panic ''iderw: block out of range'')
      else if b_dirty bf then
        Inr (set_buf b (\<lambda>bf. bf\<lparr>b_dirty := False, b_valid := True\<rparr>)
          (s\<lparr>disk := (disk s)(1 := (disk s 1)(l := b_data bf)),
             dtrace := dtrace s @ [(1, l, b_data bf)]\<rparr>))
      else Inr (set_buf b (\<lambda>bf. bf\<lparr>b_data := disk s 1 l, b_valid := True\<rparr>) s))"

section \<open>The registers address the requested block\<close>

text \<open>The blocks the driver accepts: in range of their disk.\<close>

definition blk_ok :: "nat \<Rightarrow> nat \<Rightarrow> bool" where
  "blk_ok dev blockno \<longleftrightarrow>
     (dev = ROOTDEV \<and> blockno < FSSIZE) \<or> (dev = EXT2DEV \<and> blockno < EXT2FSSIZE)"

lemma blk_ok_dev: "blk_ok dev blockno \<Longrightarrow> dev = 1 \<or> dev = 2"
  by (auto simp: blk_ok_def ide_consts)

lemma ide_regs_target:
  assumes "blk_ok dev blockno"
  shows "ata_drive (ide_port dev) (ide_regs dev blockno dirty) = dev"
    and "ata_lba (ide_regs dev blockno dirty) = 2 * blockno"
proof -
  define sec where "sec = umul blockno 2"
  from assms have small: "blockno < 20000" by (auto simp: blk_ok_def ide_consts)
  then have sec: "sec = 2 * blockno" by (simp add: sec_def umul_small)
  with small have hi: "sec div 2 ^ 16 = 0" "sec div 2 ^ 24 = 0" "sec div 2 ^ 8 < 256" by simp_all
  have regs: "ide_regs dev blockno dirty =
      \<lparr>ata_nsect = 2, ata_lba0 = word_of_nat sec, ata_lba1 = word_of_nat (sec div 2 ^ 8),
       ata_lba2 = 0, ata_devhead = 0xe0 OR push_bit 4 (word_of_nat dev AND 1),
       ata_command = (if dirty then 0xc5 else 0xc4)\<rparr>"
    using hi(1,2) by (simp add: ide_regs_def Let_def ide_consts sec_def [symmetric])
  from assms have dev: "dev = 1 \<or> dev = 2" by (rule blk_ok_dev)
  then show "ata_drive (ide_port dev) (ide_regs dev blockno dirty) = dev"
    by (auto simp: ata_drive_def ide_port_def regs)
  have dh: "(0xe0 OR push_bit 4 (word_of_nat dev AND 1)) AND 0x0f = (0 :: byte)"
    using dev by auto
  have "ata_lba (ide_regs dev blockno dirty)
      = unat (word_of_nat sec :: byte) + 2 ^ 8 * unat (word_of_nat (sec div 2 ^ 8) :: byte)"
    unfolding ata_lba_def regs ata_regs.simps dh by simp
  also have "\<dots> = sec mod 256 + 2 ^ 8 * (sec div 2 ^ 8)"
    using hi(3) by (simp only: unat_of_nat_byte mod_less)
  also have "\<dots> = sec" by simp
  finally show "ata_lba (ide_regs dev blockno dirty) = 2 * blockno" by (simp only: sec)
qed

section \<open>What a request does\<close>

text \<open>
  The contract of \<open>iderw\<close>: the buffer and the disk agree afterwards, a dirty buffer having been
  written and a stale one having been read. \<open>idle\<close> is the state in which a lone process starts a
  request: the queue is empty, both probed disks are present and no drive reports an error.
\<close>

definition idle :: "'z io_scheme \<Rightarrow> bool" where
  "idle s \<longleftrightarrow> idequeue s = [] \<and> havedisk1 s \<and> havedisk2 s \<and>
     ata_status s 0x1f0 AND 0x21 = 0 \<and> ata_status s 0x170 AND 0x21 = 0"

definition sync_buf :: "nat \<Rightarrow> 'z io_scheme \<Rightarrow> 'z io_scheme" where
  "sync_buf b s =
     (let bf = bufs s b; dev = b_dev bf; l = 2 * b_blockno bf in
      if b_dirty bf then
        set_buf b (\<lambda>bf. bf\<lparr>b_valid := True, b_dirty := False\<rparr>)
          (s\<lparr>disk := (disk s)(dev := (disk s dev)(l := b_data bf)),
             dtrace := dtrace s @ [(dev, l, b_data bf)]\<rparr>)
      else set_buf b (\<lambda>bf. bf\<lparr>b_data := disk s dev l, b_valid := True, b_dirty := False\<rparr>) s)"

definition ide_program :: "nat \<Rightarrow> 'z io_scheme \<Rightarrow> 'z io_scheme" where
  "ide_program b s =
     s\<lparr>ata := (ata s)(ide_port (b_dev (bufs s b)) :=
         ide_regs (b_dev (bufs s b)) (b_blockno (bufs s b)) (b_dirty (bufs s b)))\<rparr>"

lemma ideintr_head:
  assumes "idequeue t = [b]" and "idewait True (ide_port dev) t = 0"
  shows "ideintr (if dev \<le> 1 then 0 else 1) t =
    Inr (set_buf b (\<lambda>bf. (if b_dirty bf then bf else bf\<lparr>b_data := insl (ide_port dev) t\<rparr>)
      \<lparr>b_valid := True, b_dirty := False\<rparr>) (t\<lparr>idequeue := []\<rparr>))"
proof -
  have p: "(if (if dev \<le> 1 then 0 else 1) = (0 :: nat) then 0x1f0 else 0x170) = ide_port dev"
    by (simp add: ide_port_def)
  have w: "idewait True (ide_port dev) (t\<lparr>idequeue := q\<rparr>) = 0" for q
    using assms(2) by (simp add: idewait_def)
  have i: "insl (ide_port dev) (t\<lparr>idequeue := q\<rparr>) = insl (ide_port dev) t" for q
    by (simp add: insl_def)
  show ?thesis
    unfolding ideintr_def p Let_def using assms(1)
    by (simp add: w i set_buf_def)
qed

lemma iderw_sync:
  assumes "idle s" and "blk_ok (b_dev (bufs s b)) (b_blockno (bufs s b))"
    and "holdingsleep (mypid s) (b_lock (bufs s b))"
    and "\<not> (b_valid (bufs s b) \<and> \<not> b_dirty (bufs s b))"
  shows "iderw b s = Inr (sync_buf b (ide_program b s))"
proof -
  let ?dev = "b_dev (bufs s b)" and ?bn = "b_blockno (bufs s b)"
  note tgt = ide_regs_target [OF assms(2)]
  from assms(2) have dev: "?dev = 1 \<or> ?dev = 2" by (rule blk_ok_dev)
  have start: "idestart (Some b) (s\<lparr>idequeue := [b]\<rparr>) =
      Inr (if b_dirty (bufs s b)
           then outsl (ide_port ?dev) (b_data (bufs s b)) (ide_program b (s\<lparr>idequeue := [b]\<rparr>))
           else ide_program b (s\<lparr>idequeue := [b]\<rparr>))"
    using assms(2) by (auto simp: idestart_def Let_def ide_program_def blk_ok_def ide_consts)
  have wait: "idewait True (ide_port ?dev) t = 0" if "ata_status t = ata_status s" for t :: "'a io_scheme"
    using assms(1) that by (simp add: idewait_def idle_def ide_port_def)
  let ?t = "if b_dirty (bufs s b)
    then outsl (ide_port ?dev) (b_data (bufs s b)) (ide_program b (s\<lparr>idequeue := [b]\<rparr>))
    else ide_program b (s\<lparr>idequeue := [b]\<rparr>)"
  have "iderw b s = ide_sleep (length (idequeue ?t)) b ?t"
    using assms start by (auto simp: iderw_def idle_def Let_def)
  also have "\<dots> = ide_sleep 1 b ?t"
    by (simp add: outsl_def Let_def ide_program_def)
  also have "\<dots> = rbind (ideintr (if ?dev \<le> 1 then 0 else 1) ?t) (ide_sleep 0 b)"
    using assms(4) by (subst ide_sleep.simps) (auto simp: outsl_def Let_def ide_program_def)
  also have "ideintr (if ?dev \<le> 1 then 0 else 1) ?t = Inr (sync_buf b (ide_program b s))"
  proof (subst ideintr_head [of _ b])
    show "idequeue ?t = [b]" by (simp add: outsl_def Let_def ide_program_def)
    show "idewait True (ide_port ?dev) ?t = 0"
      by (rule wait) (simp add: outsl_def Let_def ide_program_def)
    show "Inr (set_buf b (\<lambda>bf. (if b_dirty bf then bf else bf\<lparr>b_data := insl (ide_port ?dev) ?t\<rparr>)
        \<lparr>b_valid := True, b_dirty := False\<rparr>) (?t\<lparr>idequeue := []\<rparr>))
      = Inr (sync_buf b (ide_program b s))"
      using tgt assms(1)
      by (simp add: outsl_def Let_def ide_program_def sync_buf_def insl_def set_buf_def idle_def)
  qed
  also have "rbind (Inr (sync_buf b (ide_program b s))) (ide_sleep 0 b)
      = Inr (sync_buf b (ide_program b s))"
    by (simp add: ide_sleep.simps sync_buf_def Let_def ide_program_def)
  finally show ?thesis .
qed

text \<open>The driver leaves the layers above untouched, whatever the state.\<close>

lemma idestart_more: "idestart p s = Inr t \<Longrightarrow> io.more t = io.more s"
  by (auto simp: idestart_def outsl_def Let_def split: option.splits if_splits)

lemma ideintr_more: "ideintr flag s = Inr t \<Longrightarrow> io.more t = io.more s"
  by (auto simp: ideintr_def Let_def split: list.splits if_splits dest!: idestart_more)

lemma ide_sleep_more: "ide_sleep fuel b s = Inr t \<Longrightarrow> io.more t = io.more s"
proof (induction fuel arbitrary: s)
  case 0
  then show ?case by (auto simp: ide_sleep.simps split: if_splits)
next
  case (Suc fuel)
  from Suc.prems show ?case
    by (subst (asm) ide_sleep.simps)
      (auto simp: rbind_eq_Inr split: if_splits list.splits dest!: Suc.IH ideintr_more)
qed

lemma iderw_more: "iderw b s = Inr t \<Longrightarrow> io.more t = io.more s"
  by (auto simp: iderw_def Let_def rbind_eq_Inr split: if_splits dest!: idestart_more ide_sleep_more)

end
