(* ===== verification/Bio.thy ===== *)
theory Bio
  imports Ide
begin

text \<open>
  The buffer cache, \<open>src/bio.c\<close>: \<open>NBUF\<close> buffers on a list ordered by use, most recently used
  first. \<open>lru\<close> is the list the pointers \<open>prev\<close>/\<open>next\<close> form; the theory \<open>Lru\<close> shows that
  the pointer assignments of \<open>binit\<close> and \<open>brelse\<close> implement the operations on it. \<open>view\<close> is what
  the kernel sees of a block (its cached copy, or the disk), \<open>coherent\<close> says that a clean
  buffer agrees with the disk, and \<open>bc_ok\<close> collects the invariant that every operation keeps.
\<close>

section \<open>State and operations\<close>

definition NBUF :: nat where "NBUF = 30"

record bio = io +
  lru :: "nat list"

definition binit :: "'z bio_scheme \<Rightarrow> 'z bio_scheme" where
  "binit s =
     s\<lparr>lru := fold (\<lambda>b l. b # l) [0..<NBUF] [],
       bufs := (\<lambda>b. if b < NBUF then (bufs s b)\<lparr>b_lock := \<lparr>sl_locked = False, sl_pid = 0\<rparr>\<rparr>
                    else bufs s b)\<rparr>"

definition lock_buf :: "nat \<Rightarrow> 'z bio_scheme \<Rightarrow> (nat \<times> 'z bio_scheme) res" where
  "lock_buf b s =
     rbind (acquiresleep (mypid s) (b_lock (bufs s b)))
       (\<lambda>lk. Inr (b, set_buf b (\<lambda>bf. bf\<lparr>b_lock := lk\<rparr>) s))"

definition bget :: "nat \<Rightarrow> nat \<Rightarrow> 'z bio_scheme \<Rightarrow> (nat \<times> 'z bio_scheme) res" where
  "bget dev blockno s =
     (case find (\<lambda>b. b_dev (bufs s b) = dev \<and> b_blockno (bufs s b) = blockno) (lru s) of
        Some b \<Rightarrow> lock_buf b (set_buf b (\<lambda>bf. bf\<lparr>b_refcnt := b_refcnt bf + 1\<rparr>) s)
      | None \<Rightarrow>
        (case find (\<lambda>b. b_refcnt (bufs s b) = 0 \<and> \<not> b_dirty (bufs s b)) (rev (lru s)) of
           Some b \<Rightarrow> lock_buf b (set_buf b (\<lambda>bf. bf\<lparr>b_dev := dev, b_blockno := blockno,
             b_valid := False, b_dirty := False, b_refcnt := 1\<rparr>) s)
         | None \<Rightarrow> Inl (Panic ''bget: no buffers'')))"

definition bread :: "nat \<Rightarrow> nat \<Rightarrow> 'z bio_scheme \<Rightarrow> (nat \<times> 'z bio_scheme) res" where
  "bread dev blockno s =
     rbind (bget dev blockno s) (\<lambda>(b, s1).
       if \<not> b_valid (bufs s1 b) then rbind (iderw b s1) (\<lambda>s2. Inr (b, s2)) else Inr (b, s1))"

definition bwrite :: "nat \<Rightarrow> 'z bio_scheme \<Rightarrow> 'z bio_scheme res" where
  "bwrite b s =
     (if \<not> holdingsleep (mypid s) (b_lock (bufs s b)) then Inl (Panic ''bwrite'')
      else iderw b (set_buf b (\<lambda>bf. bf\<lparr>b_dirty := True\<rparr>) s))"

definition brelse :: "nat \<Rightarrow> 'z bio_scheme \<Rightarrow> 'z bio_scheme res" where
  "brelse b s =
     (if \<not> holdingsleep (mypid s) (b_lock (bufs s b)) then Inl (Panic ''brelse'')
      else
        let s1 = set_buf b (\<lambda>bf. bf\<lparr>b_lock := releasesleep (b_lock bf)\<rparr>) s;
            s2 = set_buf b (\<lambda>bf. bf\<lparr>b_refcnt := b_refcnt bf - 1\<rparr>) s1
        in if b_refcnt (bufs s2 b) = 0 then Inr (s2\<lparr>lru := b # remove1 b (lru s2)\<rparr>) else Inr s2)"

text \<open>Stores to \<open>b->data\<close> by the holder of a buffer.\<close>

definition set_data :: "nat \<Rightarrow> block \<Rightarrow> 'z io_scheme \<Rightarrow> 'z io_scheme" where
  "set_data b d s = set_buf b (\<lambda>bf. bf\<lparr>b_data := d\<rparr>) s"

section \<open>Abstraction and invariant\<close>

abbreviation bkey :: "'z io_scheme \<Rightarrow> nat \<Rightarrow> nat \<times> nat" where
  "bkey s b \<equiv> (b_dev (bufs s b), b_blockno (bufs s b))"

abbreviation blocked :: "'z io_scheme \<Rightarrow> nat \<Rightarrow> bool" where
  "blocked s b \<equiv> sl_locked (b_lock (bufs s b))"

definition dblk :: "'z io_scheme \<Rightarrow> nat \<Rightarrow> nat \<Rightarrow> block" where
  "dblk s dev blockno = disk s dev (2 * blockno)"

definition view :: "'z io_scheme \<Rightarrow> nat \<Rightarrow> nat \<Rightarrow> block" where
  "view s dev blockno =
     (case find (\<lambda>b. bkey s b = (dev, blockno) \<and> b_valid (bufs s b)) [0..<NBUF] of
        Some b \<Rightarrow> b_data (bufs s b) | None \<Rightarrow> dblk s dev blockno)"

text \<open>
  \<open>bc_ok H s\<close>: between two calls of one process that holds the buffers \<open>H\<close>. No two buffers
  are for the same block (the initial buffers all carry device 0), a held buffer has one
  reference, a clean buffer that nobody holds agrees with the disk.
\<close>

definition bufs_wf :: "'z io_scheme \<Rightarrow> bool" where
  "bufs_wf s \<longleftrightarrow>
     (\<forall>b < NBUF. \<forall>c < NBUF. b \<noteq> c \<longrightarrow> b_dev (bufs s b) \<noteq> 0 \<longrightarrow> bkey s b \<noteq> bkey s c) \<and>
     (\<forall>b < NBUF. b_dirty (bufs s b) \<longrightarrow> b_valid (bufs s b)) \<and>
     (\<forall>b < NBUF. b_valid (bufs s b) \<longrightarrow> blk_ok (b_dev (bufs s b)) (b_blockno (bufs s b)))"

definition coherent :: "nat set \<Rightarrow> 'z io_scheme \<Rightarrow> bool" where
  "coherent H s \<longleftrightarrow> (\<forall>b < NBUF. b \<notin> H \<longrightarrow> b_valid (bufs s b) \<longrightarrow> \<not> b_dirty (bufs s b) \<longrightarrow>
     b_data (bufs s b) = dblk s (b_dev (bufs s b)) (b_blockno (bufs s b)))"

definition holds :: "nat set \<Rightarrow> 'z io_scheme \<Rightarrow> bool" where
  "holds H s \<longleftrightarrow> H \<subseteq> {..<NBUF} \<and> (\<forall>b < NBUF.
     b_refcnt (bufs s b) = (if b \<in> H then 1 else 0) \<and>
     (if b \<in> H then holdingsleep (mypid s) (b_lock (bufs s b)) \<and> b_valid (bufs s b)
      else \<not> blocked s b))"

definition bc_ok :: "nat set \<Rightarrow> 'z bio_scheme \<Rightarrow> bool" where
  "bc_ok H s \<longleftrightarrow> distinct (lru s) \<and> set (lru s) = {..<NBUF} \<and>
     bufs_wf s \<and> coherent H s \<and> holds H s \<and> idle s"

definition dirty_bufs :: "'z io_scheme \<Rightarrow> nat set" where
  "dirty_bufs s = {b. b < NBUF \<and> b_dirty (bufs s b)}"

definition cached :: "'z io_scheme \<Rightarrow> nat \<Rightarrow> nat \<Rightarrow> bool" where
  "cached s dev blockno \<longleftrightarrow> (\<exists>b < NBUF. bkey s b = (dev, blockno))"

text \<open>The frame of an operation: every buffer but those of a set, and everything above the cache.\<close>

definition frame :: "nat set \<Rightarrow> 'z bio_scheme \<Rightarrow> 'z bio_scheme \<Rightarrow> bool" where
  "frame B s t \<longleftrightarrow> (\<forall>b. b \<notin> B \<longrightarrow> bufs t b = bufs s b) \<and> mypid t = mypid s \<and> bio.more t = bio.more s"

lemma frame_refl [simp]: "frame B s s"
  by (simp add: frame_def)

lemma frame_trans: "frame B s t \<Longrightarrow> frame C t u \<Longrightarrow> frame (B \<union> C) s u"
  by (auto simp: frame_def)

lemma frame_mono: "frame B s t \<Longrightarrow> B \<subseteq> C \<Longrightarrow> frame C s t"
  by (auto simp: frame_def)

lemma finite_dirty_bufs [simp]: "finite (dirty_bufs s)"
  by (simp add: dirty_bufs_def)

lemma bufs_wf_key:
  "bufs_wf s \<Longrightarrow> b < NBUF \<Longrightarrow> c < NBUF \<Longrightarrow> b_dev (bufs s b) \<noteq> 0 \<Longrightarrow>
   b_dev (bufs s b) = b_dev (bufs s c) \<Longrightarrow> b_blockno (bufs s b) = b_blockno (bufs s c) \<Longrightarrow> b = c"
  unfolding bufs_wf_def by blast

lemma bufs_wf_dirty: "bufs_wf s \<Longrightarrow> b < NBUF \<Longrightarrow> b_dirty (bufs s b) \<Longrightarrow> b_valid (bufs s b)"
  unfolding bufs_wf_def by blast

lemma bufs_wf_valid:
  "bufs_wf s \<Longrightarrow> b < NBUF \<Longrightarrow> b_valid (bufs s b) \<Longrightarrow>
   blk_ok (b_dev (bufs s b)) (b_blockno (bufs s b))"
  unfolding bufs_wf_def by blast

lemma blk_ok_dev0: "blk_ok dev blockno \<Longrightarrow> dev \<noteq> 0"
  by (auto dest: blk_ok_dev)

lemma view_cached:
  assumes "bufs_wf s" and "b < NBUF" and "b_valid (bufs s b)"
    and "b_dev (bufs s b) = dev" and "b_blockno (bufs s b) = blockno"
  shows "view s dev blockno = b_data (bufs s b)"
proof -
  have "dev \<noteq> 0" using bufs_wf_valid [OF assms(1-3)] assms(4) by (auto dest: blk_ok_dev0)
  then have "find (\<lambda>b. bkey s b = (dev, blockno) \<and> b_valid (bufs s b)) [0..<NBUF] = Some b"
    using assms by (intro find_unique) (auto intro: bufs_wf_key [OF assms(1)])
  then show ?thesis by (simp add: view_def)
qed

lemma view_uncached:
  assumes "\<And>b. b < NBUF \<Longrightarrow> b_valid (bufs s b) \<Longrightarrow> bkey s b \<noteq> (dev, blockno)"
  shows "view s dev blockno = dblk s dev blockno"
proof -
  have "find (\<lambda>b. bkey s b = (dev, blockno) \<and> b_valid (bufs s b)) [0..<NBUF] = None"
    using assms by (auto simp: find_upt_None)
  then show ?thesis by (simp add: view_def)
qed

section \<open>What bget returns\<close>

abbreviation mylock :: "'z io_scheme \<Rightarrow> sleeplock" where
  "mylock s \<equiv> \<lparr>sl_locked = True, sl_pid = mypid s\<rparr>"

lemma bget_hit:
  assumes ok: "bc_ok H s" and "b < NBUF" "b \<notin> H" and key: "bkey s b = (dev, blockno)" "dev \<noteq> 0"
  shows "bget dev blockno s =
    Inr (b, set_buf b (\<lambda>bf. bf\<lparr>b_refcnt := b_refcnt bf + 1, b_lock := mylock s\<rparr>) s)"
proof -
  have "find (\<lambda>b. b_dev (bufs s b) = dev \<and> b_blockno (bufs s b) = blockno) (lru s) = Some b"
    using assms by (intro find_unique) (auto simp: bc_ok_def intro: bufs_wf_key)
  moreover have "\<not> blocked s b" using assms by (auto simp: bc_ok_def holds_def)
  ultimately show ?thesis by (simp add: bget_def lock_buf_def acquiresleep_def set_buf_def)
qed

lemma bget_miss:
  assumes ok: "bc_ok H s" and room: "card H + card (dirty_bufs s) < NBUF"
    and miss: "\<And>b. b < NBUF \<Longrightarrow> bkey s b \<noteq> (dev, blockno)"
  obtains b where "b < NBUF" "b \<notin> H" "\<not> b_dirty (bufs s b)"
    "bget dev blockno s = Inr (b, set_buf b (\<lambda>bf. bf\<lparr>b_dev := dev, b_blockno := blockno,
       b_valid := False, b_dirty := False, b_refcnt := 1, b_lock := mylock s\<rparr>) s)"
proof -
  have none: "find (\<lambda>b. b_dev (bufs s b) = dev \<and> b_blockno (bufs s b) = blockno) (lru s) = None"
    using ok miss by (auto simp: find_None_iff_all bc_ok_def)
  have H: "finite H" "H \<subseteq> {..<NBUF}"
    using ok finite_subset by (auto simp: bc_ok_def holds_def)
  have "card (H \<union> dirty_bufs s) < card {..<NBUF}"
    using room card_Un_le [of H "dirty_bufs s"] by simp
  then have "\<not> {..<NBUF} \<subseteq> H \<union> dirty_bufs s"
    using H(1) by (meson card_mono finite_UnI finite_dirty_bufs leD)
  then obtain c where c: "c < NBUF" "c \<notin> H" "\<not> b_dirty (bufs s c)"
    by (auto simp: dirty_bufs_def)
  let ?P = "\<lambda>b. b_refcnt (bufs s b) = 0 \<and> \<not> b_dirty (bufs s b)"
  have "c \<in> set (rev (lru s))" "?P c" using ok c by (auto simp: bc_ok_def holds_def)
  then obtain b where b: "find ?P (rev (lru s)) = Some b"
    by (cases "find ?P (rev (lru s))") (auto simp: find_None_iff_all)
  then have "b < NBUF" "?P b"
    using find_Some_mem [OF b] ok by (auto simp: bc_ok_def)
  moreover from this have "b \<notin> H" "\<not> blocked s b"
    using ok by (auto simp: bc_ok_def holds_def split: if_splits)
  ultimately show ?thesis
    using none b by (intro that) (auto simp: bget_def lock_buf_def acquiresleep_def set_buf_def)
qed

section \<open>The contract of bread, bwrite and brelse\<close>

text \<open>
  The buffer that \<open>bread\<close> returns holds the block's contents; nothing the kernel can see
  has changed. In both cases (hit or recycled buffer) the new buffer is the old one with these
  fields.
\<close>

definition read_buf :: "nat \<Rightarrow> nat \<Rightarrow> nat \<Rightarrow> 'z io_scheme \<Rightarrow> buf" where
  "read_buf dev blockno b s =
     \<lparr>b_valid = True, b_dirty = b_dirty (bufs s b), b_dev = dev, b_blockno = blockno,
      b_lock = mylock s, b_refcnt = 1, b_data = view s dev blockno\<rparr>"

lemma read_buf_simps [simp]:
  "b_valid (read_buf dev blockno b s)" "b_dirty (read_buf dev blockno b s) = b_dirty (bufs s b)"
  "b_dev (read_buf dev blockno b s) = dev" "b_blockno (read_buf dev blockno b s) = blockno"
  "b_lock (read_buf dev blockno b s) = mylock s" "b_refcnt (read_buf dev blockno b s) = 1"
  "b_data (read_buf dev blockno b s) = view s dev blockno"
  by (simp_all add: read_buf_def)

lemma bread_shape:
  assumes ok: "bc_ok H s" and bo: "blk_ok dev blockno"
    and nh: "\<And>b. b \<in> H \<Longrightarrow> bkey s b \<noteq> (dev, blockno)"
    and room: "cached s dev blockno \<or> card H + card (dirty_bufs s) < NBUF"
  obtains b r where "b < NBUF" "b \<notin> H"
    "bkey s b = (dev, blockno) \<or> (\<forall>c < NBUF. bkey s c \<noteq> (dev, blockno)) \<and> \<not> b_dirty (bufs s b)"
    "bread dev blockno s =
      Inr (b, s\<lparr>ata := r, bufs := (bufs s)(b := read_buf dev blockno b s)\<rparr>)"
proof -
  have wf: "bufs_wf s" "idle s" "holds H s" using ok by (simp_all add: bc_ok_def)
  have sync: "iderw b (set_buf b f s) = Inr (set_buf b (\<lambda>bf. (f bf)\<lparr>b_data := dblk s dev blockno,
      b_valid := True, b_dirty := False\<rparr>) s\<lparr>ata := (ata s)(ide_port dev := ide_regs dev blockno False)\<rparr>)"
    if "b_dev (f (bufs s b)) = dev" "b_blockno (f (bufs s b)) = blockno"
      "b_lock (f (bufs s b)) = mylock s" "\<not> b_valid (f (bufs s b))" "\<not> b_dirty (f (bufs s b))"
    for b f
  proof -
    have "iderw b (set_buf b f s) = Inr (sync_buf b (ide_program b (set_buf b f s)))"
      using wf bo that by (intro iderw_sync) (auto simp: idle_def holdingsleep_def)
    then show ?thesis using that
      by (simp add: sync_buf_def ide_program_def set_buf_def dblk_def Let_def)
  qed
  show thesis
  proof (cases "\<exists>b < NBUF. bkey s b = (dev, blockno)")
    case True
    then obtain b where b: "b < NBUF" "bkey s b = (dev, blockno)" by blast
    with nh have "b \<notin> H" by blast
    note hit = bget_hit [OF ok b(1) this b(2) blk_ok_dev0 [OF bo]]
    have ref: "b_refcnt (bufs s b) = 0" using wf(3) b(1) \<open>b \<notin> H\<close> by (simp add: holds_def)
    show thesis
    proof (cases "b_valid (bufs s b)")
      case True
      have v: "view s dev blockno = b_data (bufs s b)"
        using view_cached [OF wf(1) b(1) True] b(2) by simp
      have "(bufs s b)\<lparr>b_refcnt := b_refcnt (bufs s b) + 1, b_lock := mylock s\<rparr> = read_buf dev blockno b s"
        using True b(2) ref by (intro buf.equality) (simp_all add: read_buf_def v)
      then have e: "bread dev blockno s =
          Inr (b, s\<lparr>ata := ata s, bufs := (bufs s)(b := read_buf dev blockno b s)\<rparr>)"
        using hit True by (simp add: bread_def set_buf_def)
      show thesis by (rule that [OF b(1) \<open>b \<notin> H\<close> _ e]) (simp add: b(2))
    next
      case False
      then have nd: "\<not> b_dirty (bufs s b)" using bufs_wf_dirty [OF wf(1) b(1)] by blast
      have v: "view s dev blockno = dblk s dev blockno"
      proof (rule view_uncached)
        fix c assume c: "c < NBUF" "b_valid (bufs s c)"
        show "bkey s c \<noteq> (dev, blockno)"
        proof
          assume "bkey s c = (dev, blockno)"
          with b blk_ok_dev0 [OF bo] have "b = c"
            by (intro bufs_wf_key [OF wf(1) b(1) c(1)]) simp_all
          with c False show False by simp
        qed
      qed
      have "(bufs s b)\<lparr>b_refcnt := b_refcnt (bufs s b) + 1, b_lock := mylock s,
          b_data := dblk s dev blockno, b_valid := True, b_dirty := False\<rparr> = read_buf dev blockno b s"
        using nd b(2) ref by (intro buf.equality) (simp_all add: read_buf_def v)
      then have e: "bread dev blockno s =
          Inr (b, s\<lparr>ata := (ata s)(ide_port dev := ide_regs dev blockno False),
            bufs := (bufs s)(b := read_buf dev blockno b s)\<rparr>)"
        using hit False nd b(2)
          sync [where b = b and f = "\<lambda>bf. bf\<lparr>b_refcnt := b_refcnt bf + 1, b_lock := mylock s\<rparr>"]
        by (simp add: bread_def set_buf_def)
      show thesis by (rule that [OF b(1) \<open>b \<notin> H\<close> _ e]) (simp add: b(2))
    qed
  next
    case False
    then have miss: "\<And>b. b < NBUF \<Longrightarrow> bkey s b \<noteq> (dev, blockno)" by blast
    have free: "card H + card (dirty_bufs s) < NBUF" using room False by (auto simp: cached_def)
    obtain b where b: "b < NBUF" "b \<notin> H" "\<not> b_dirty (bufs s b)"
      and g: "bget dev blockno s = Inr (b, set_buf b (\<lambda>bf. bf\<lparr>b_dev := dev, b_blockno := blockno,
         b_valid := False, b_dirty := False, b_refcnt := 1, b_lock := mylock s\<rparr>) s)"
      using bget_miss [OF ok free miss] by blast
    have v: "view s dev blockno = dblk s dev blockno"
      using miss by (intro view_uncached) auto
    have "(bufs s b)\<lparr>b_dev := dev, b_blockno := blockno, b_valid := False, b_dirty := False,
        b_refcnt := 1, b_lock := mylock s, b_data := dblk s dev blockno, b_valid := True,
        b_dirty := False\<rparr> = read_buf dev blockno b s"
      using b(3) by (intro buf.equality) (simp_all add: read_buf_def v)
    then have e: "bread dev blockno s =
        Inr (b, s\<lparr>ata := (ata s)(ide_port dev := ide_regs dev blockno False),
          bufs := (bufs s)(b := read_buf dev blockno b s)\<rparr>)"
      using g sync [where b = b and f = "\<lambda>bf. bf\<lparr>b_dev := dev, b_blockno := blockno,
         b_valid := False, b_dirty := False, b_refcnt := 1, b_lock := mylock s\<rparr>"]
      by (simp add: bread_def set_buf_def)
    show thesis by (rule that [OF b(1,2) _ e]) (use miss b(3) in blast)
  qed
qed

text \<open>
  \<open>view\<close> depends on the valid buffers and the disk only; a buffer that is valid before and
  after with the same block and data, or one whose block the disk holds, does not change it.
\<close>

lemma view_upd_same:
  assumes wf: "bufs_wf s" "bufs_wf t" and b: "b < NBUF"
    and other: "\<And>c. c \<noteq> b \<Longrightarrow> bufs t c = bufs s c" and dsk: "disk t = disk s"
    and new: "b_valid (bufs t b)" "b_data (bufs t b) = view s (b_dev (bufs t b)) (b_blockno (bufs t b))"
    and old: "b_valid (bufs s b) \<Longrightarrow> bkey t b \<noteq> bkey s b \<Longrightarrow>
      b_data (bufs s b) = dblk s (b_dev (bufs s b)) (b_blockno (bufs s b))"
  shows "view t = view s"
proof (rule ext, rule ext)
  fix dev blockno
  have d: "dblk t = dblk s" using dsk by (auto simp: dblk_def fun_eq_iff)
  show "view t dev blockno = view s dev blockno"
  proof (cases "\<exists>c < NBUF. c \<noteq> b \<and> bkey s c = (dev, blockno) \<and> b_valid (bufs s c)")
    case True
    then obtain c where c: "c < NBUF" "c \<noteq> b" "bkey s c = (dev, blockno)" "b_valid (bufs s c)"
      by blast
    then have "view t dev blockno = b_data (bufs t c)"
      using other [OF c(2)] by (intro view_cached [OF wf(2)]) auto
    moreover have "view s dev blockno = b_data (bufs s c)"
      using c by (intro view_cached [OF wf(1)]) auto
    ultimately show ?thesis using other [OF c(2)] by simp
  next
    case False
    show ?thesis
    proof (cases "bkey t b = (dev, blockno)")
      case True
      then have "view t dev blockno = b_data (bufs t b)"
        using new b by (intro view_cached [OF wf(2)]) auto
      then show ?thesis using new True by simp
    next
      case nk: False
      then have t: "view t dev blockno = dblk s dev blockno"
        using False other d by (subst view_uncached) (metis, simp)
      show ?thesis
      proof (cases "b_valid (bufs s b) \<and> bkey s b = (dev, blockno)")
        case True
        then have "view s dev blockno = b_data (bufs s b)"
          using b by (intro view_cached [OF wf(1)]) auto
        also have "\<dots> = dblk s dev blockno" using old True nk by auto
        finally show ?thesis using t by simp
      next
        case k: False
        then have "view s dev blockno = dblk s dev blockno"
          using False by (intro view_uncached) blast
        then show ?thesis using t by simp
      qed
    qed
  qed
qed

lemma bread_ok:
  assumes ok: "bc_ok H s" and bo: "blk_ok dev blockno"
    and nh: "\<And>b. b \<in> H \<Longrightarrow> bkey s b \<noteq> (dev, blockno)"
    and room: "cached s dev blockno \<or> card H + card (dirty_bufs s) < NBUF"
  obtains b t where "bread dev blockno s = Inr (b, t)"
    "bc_ok (insert b H) t" "b < NBUF" "b \<notin> H" "frame {b} s t"
    "bkey t b = (dev, blockno)" "b_valid (bufs t b)" "b_data (bufs t b) = view s dev blockno"
    "view t = view s" "disk t = disk s" "dtrace t = dtrace s" "dirty_bufs t = dirty_bufs s"
    "b \<in> dirty_bufs s \<Longrightarrow> bkey s b = (dev, blockno)"
    "b \<notin> dirty_bufs s \<Longrightarrow> b_data (bufs t b) = dblk s dev blockno"
proof -
  obtain b r where b: "b < NBUF" "b \<notin> H"
    and kc: "bkey s b = (dev, blockno) \<or> (\<forall>c < NBUF. bkey s c \<noteq> (dev, blockno)) \<and> \<not> b_dirty (bufs s b)"
    and e: "bread dev blockno s =
      Inr (b, s\<lparr>ata := r, bufs := (bufs s)(b := read_buf dev blockno b s)\<rparr>)"
    using bread_shape [OF assms] by blast
  let ?t = "s\<lparr>ata := r, bufs := (bufs s)(b := read_buf dev blockno b s)\<rparr>"
  have wf: "bufs_wf s" "idle s" "holds H s" "coherent H s" using ok by (simp_all add: bc_ok_def)
  have k: "bkey s c \<noteq> (dev, blockno)" if "c < NBUF" "c \<noteq> b" for c
    using kc that bufs_wf_key [OF wf(1) b(1) that(1)] blk_ok_dev0 [OF bo] by auto
  have wft: "bufs_wf ?t"
    unfolding bufs_wf_def
  proof (intro conjI allI impI)
    fix i j assume ij: "i < NBUF" "j < NBUF" "i \<noteq> j" "b_dev (bufs ?t i) \<noteq> 0"
    show "bkey ?t i \<noteq> bkey ?t j"
      using k ij bufs_wf_key [OF wf(1) ij(1,2)] by (auto split: if_splits)
  next
    fix i assume "i < NBUF" "b_dirty (bufs ?t i)"
    then show "b_valid (bufs ?t i)" using bufs_wf_dirty [OF wf(1)] by auto
  next
    fix i assume "i < NBUF" "b_valid (bufs ?t i)"
    then show "blk_ok (b_dev (bufs ?t i)) (b_blockno (bufs ?t i))"
      using bufs_wf_valid [OF wf(1)] bo by auto
  qed
  have clean: "b_data (bufs s b) = dblk s (b_dev (bufs s b)) (b_blockno (bufs s b))"
    if "b_valid (bufs s b)" "\<not> b_dirty (bufs s b)"
    using wf(4) b that by (simp add: coherent_def)
  have v: "view ?t = view s"
    using wf(1) wft b(1) kc clean by (intro view_upd_same) auto
  have coh: "coherent (insert b H) ?t"
    using wf(4) by (auto simp: coherent_def dblk_def)
  have hol: "holds (insert b H) ?t"
    using wf(3) b by (auto simp: holds_def holdingsleep_def)
  have "bc_ok (insert b H) ?t"
    using ok wft coh hol by (auto simp: bc_ok_def idle_def)
  moreover have "view s dev blockno = dblk s dev blockno" if "b \<notin> dirty_bufs s"
  proof (cases "b_valid (bufs s b) \<and> bkey s b = (dev, blockno)")
    case True
    then show ?thesis using that b clean view_cached [OF wf(1) b(1)] by (auto simp: dirty_bufs_def)
  next
    case False
    then show ?thesis using k by (intro view_uncached) blast
  qed
  ultimately show thesis
    using b kc v by (intro that [OF e]) (auto simp: frame_def dirty_bufs_def)
qed

lemma view_same_bufs:
  assumes same: "\<And>c. c < NBUF \<Longrightarrow> bkey t c = bkey s c \<and> b_valid (bufs t c) = b_valid (bufs s c) \<and>
      b_data (bufs t c) = b_data (bufs s c)"
    and dsk: "\<And>d n. (\<And>c. c < NBUF \<Longrightarrow> b_valid (bufs s c) \<Longrightarrow> bkey s c \<noteq> (d, n)) \<Longrightarrow>
      dblk t d n = dblk s d n"
  shows "view t = view s"
proof (rule ext, rule ext)
  fix d n
  have f: "find (\<lambda>c. bkey t c = (d, n) \<and> b_valid (bufs t c)) [0..<NBUF] =
      find (\<lambda>c. bkey s c = (d, n) \<and> b_valid (bufs s c)) [0..<NBUF]"
    using same by (intro find_cong_on) auto
  show "view t d n = view s d n"
  proof (cases "find (\<lambda>c. bkey s c = (d, n) \<and> b_valid (bufs s c)) [0..<NBUF]")
    case None
    then have "dblk t d n = dblk s d n" by (intro dsk) (auto simp: find_upt_None)
    then show ?thesis unfolding view_def f None by simp
  next
    case (Some c)
    then have "c < NBUF" by (simp add: find_upt_Some)
    then show ?thesis unfolding view_def f Some by (simp add: same)
  qed
qed

lemma holds_D:
  assumes "bc_ok H s" and "b \<in> H"
  shows "b < NBUF" "holdingsleep (mypid s) (b_lock (bufs s b))" "b_refcnt (bufs s b) = 1"
    "b_valid (bufs s b)"
  using assms by (auto simp: bc_ok_def holds_def)

lemma set_data_ok:
  assumes ok: "bc_ok H s" and bH: "b \<in> H"
  shows "bc_ok H (set_data b d s)" "frame {b} s (set_data b d s)"
    "view (set_data b d s) = (view s)(b_dev (bufs s b) :=
       (view s (b_dev (bufs s b)))(b_blockno (bufs s b) := d))"
proof -
  let ?t = "set_data b d s"
  have bN: "b < NBUF" and wf: "bufs_wf s" and b: "b \<in> H" "b_valid (bufs s b)"
    using holds_D [OF ok bH] ok bH by (auto simp: bc_ok_def)
  have f: "b_dev (bufs ?t c) = b_dev (bufs s c)" "b_blockno (bufs ?t c) = b_blockno (bufs s c)"
    "b_valid (bufs ?t c) = b_valid (bufs s c)" "b_dirty (bufs ?t c) = b_dirty (bufs s c)"
    "b_lock (bufs ?t c) = b_lock (bufs s c)" "b_refcnt (bufs ?t c) = b_refcnt (bufs s c)" for c
    by (simp_all add: set_data_def)
  have wft: "bufs_wf ?t" using wf by (simp add: bufs_wf_def f)
  show "bc_ok H ?t"
    using ok wft b by (simp add: bc_ok_def coherent_def holds_def idle_def f) (simp add: set_data_def dblk_def set_buf_def)
  show "frame {b} s ?t" by (simp add: frame_def set_data_def set_buf_def)
  show "view ?t = (view s)(b_dev (bufs s b) := (view s (b_dev (bufs s b)))(b_blockno (bufs s b) := d))"
  proof (rule ext, rule ext)
    fix dev blockno
    show "view ?t dev blockno = ((view s)(b_dev (bufs s b) :=
        (view s (b_dev (bufs s b)))(b_blockno (bufs s b) := d))) dev blockno"
    proof (cases "bkey s b = (dev, blockno)")
      case True
      then have "view ?t dev blockno = b_data (bufs ?t b)"
        using b bN by (intro view_cached [OF wft]) (simp_all add: f)
      then show ?thesis using True by (simp add: set_data_def)
    next
      case False
      have "view ?t dev blockno = view s dev blockno"
      proof (cases "\<exists>c < NBUF. b_valid (bufs s c) \<and> bkey s c = (dev, blockno)")
        case True
        then obtain c where c: "c < NBUF" "b_valid (bufs s c)" "bkey s c = (dev, blockno)" by blast
        with False have "bufs ?t c = bufs s c" by (auto simp: set_data_def)
        with c show ?thesis
          using view_cached [OF wft, of c] view_cached [OF wf, of c] by simp
      next
        case n: False
        have "view ?t dev blockno = dblk ?t dev blockno"
          using n by (intro view_uncached) (auto simp: f)
        moreover have "view s dev blockno = dblk s dev blockno"
          using n by (intro view_uncached) auto
        ultimately show ?thesis by (simp add: set_data_def dblk_def)
      qed
      with False show ?thesis by auto
    qed
  qed
qed

lemma bwrite_ok:
  assumes ok: "bc_ok H s" and bH: "b \<in> H" and k: "bkey s b = (dev, blockno)"
  obtains t where "bwrite b s = Inr t" "bc_ok H t" "frame {b} s t"
    "bufs t b = (bufs s b)\<lparr>b_dirty := False\<rparr>" "view t = view s"
    "disk t = (disk s)(dev := (disk s dev)(2 * blockno := b_data (bufs s b)))"
    "dtrace t = dtrace s @ [(dev, 2 * blockno, b_data (bufs s b))]"
    "dirty_bufs t = dirty_bufs s - {b}"
proof -
  let ?s = "set_buf b (\<lambda>bf. bf\<lparr>b_dirty := True\<rparr>) s"
  let ?t = "sync_buf b (ide_program b ?s)"
  note hD = holds_D [OF ok bH]
  note b = bH hD(4)
  have wf: "bufs_wf s" "idle s" using ok by (simp_all add: bc_ok_def)
  have bo: "blk_ok dev blockno" using bufs_wf_valid [OF wf(1) hD(1) b(2)] k by simp
  have "iderw b ?s = Inr ?t"
    using wf hD bo k by (intro iderw_sync) (auto simp: idle_def)
  then have e: "bwrite b s = Inr ?t" using hD(2) by (simp add: bwrite_def)
  have "(bufs s b)\<lparr>b_valid := True, b_dirty := False\<rparr> = (bufs s b)\<lparr>b_dirty := False\<rparr>"
    using b(2) by (intro buf.equality) simp_all
  then have bt: "bufs ?t = (bufs s)(b := (bufs s b)\<lparr>b_dirty := False\<rparr>)"
    by (simp add: sync_buf_def ide_program_def set_buf_def Let_def)
  have dt: "disk ?t = (disk s)(dev := (disk s dev)(2 * blockno := b_data (bufs s b)))"
    "dtrace ?t = dtrace s @ [(dev, 2 * blockno, b_data (bufs s b))]"
    using k by (simp_all add: sync_buf_def ide_program_def set_buf_def Let_def)
  have rest: "lru ?t = lru s" "mypid ?t = mypid s" "bio.more ?t = bio.more s" "idle ?t = idle s"
    by (simp_all add: sync_buf_def ide_program_def set_buf_def Let_def idle_def)
  have wft: "bufs_wf ?t" using wf(1) b(2) unfolding bufs_wf_def bt by (auto split: if_splits)
  have coh: "coherent H ?t"
    unfolding coherent_def
  proof (intro allI impI)
    fix c assume c: "c < NBUF" "c \<notin> H" "b_valid (bufs ?t c)" "\<not> b_dirty (bufs ?t c)"
    then have cb: "c \<noteq> b" "bufs ?t c = bufs s c" using b(1) by (auto simp: bt)
    have "bkey s c \<noteq> (dev, blockno)"
      using bufs_wf_key [OF wf(1) hD(1) c(1)] k cb(1) blk_ok_dev0 [OF bo] by auto
    then show "b_data (bufs ?t c) = dblk ?t (b_dev (bufs ?t c)) (b_blockno (bufs ?t c))"
      using ok c cb by (auto simp: bc_ok_def coherent_def dblk_def dt)
  qed
  have "holds H ?t" using ok by (auto simp: bc_ok_def holds_def bt rest)
  then have okt: "bc_ok H ?t" using ok wft coh by (simp add: bc_ok_def rest)
  have "view ?t = view s"
  proof (rule view_same_bufs)
    fix d n assume "\<And>c. c < NBUF \<Longrightarrow> b_valid (bufs s c) \<Longrightarrow> bkey s c \<noteq> (d, n)"
    then have "(d, n) \<noteq> (dev, blockno)" using k b(2) hD(1) by metis
    then show "dblk ?t d n = dblk s d n" by (auto simp: dblk_def dt)
  qed (simp add: bt)
  then show thesis
    using okt by (intro that [OF e]) (auto simp: frame_def bt dt rest dirty_bufs_def)
qed

lemma brelse_ok:
  assumes ok: "bc_ok H s" and b: "b \<in> H"
    and clean: "\<not> b_dirty (bufs s b) \<Longrightarrow>
      b_data (bufs s b) = dblk s (b_dev (bufs s b)) (b_blockno (bufs s b))"
  obtains t where "brelse b s = Inr t" "bc_ok (H - {b}) t" "frame {b} s t"
    "bkey t b = bkey s b" "b_data (bufs t b) = b_data (bufs s b)"
    "view t = view s" "disk t = disk s" "dtrace t = dtrace s" "dirty_bufs t = dirty_bufs s"
proof -
  note hD = holds_D [OF ok b(1)]
  let ?f = "\<lambda>bf. bf\<lparr>b_lock := releasesleep (b_lock bf), b_refcnt := b_refcnt bf - 1\<rparr>"
  let ?t = "(set_buf b ?f s)\<lparr>lru := b # remove1 b (lru s)\<rparr>"
  have l: "lru (set_buf c g s) = lru s" for c g by (simp add: set_buf_def)
  have e: "brelse b s = Inr ?t"
    using hD by (simp add: brelse_def Let_def set_buf_def)
  have bt: "bufs ?t = (bufs s)(b := ?f (bufs s b))" by simp
  have wft: "bufs_wf ?t" using ok unfolding bc_ok_def bufs_wf_def bt by (auto split: if_splits)
  have coh: "coherent (H - {b}) ?t"
    using ok clean by (auto simp: bc_ok_def coherent_def dblk_def)
  have hol: "holds (H - {b}) ?t"
    using ok hD b by (auto simp: bc_ok_def holds_def releasesleep_def)
  have "distinct (lru ?t)" "set (lru ?t) = {..<NBUF}"
    using ok hD(1) by (auto simp: bc_ok_def set_remove1_eq)
  then have okt: "bc_ok (H - {b}) ?t"
    using ok wft coh hol by (auto simp: bc_ok_def idle_def)
  have "view ?t = view s"
    by (rule view_same_bufs) (simp_all add: bt dblk_def)
  then show thesis
    using okt by (intro that [OF e]) (auto simp: frame_def dirty_bufs_def set_buf_def)
qed

text \<open>Setting \<open>B_DIRTY\<close> on a held buffer pins it in the cache (\<open>log_write\<close> does so).\<close>

definition set_dirty :: "nat \<Rightarrow> 'z io_scheme \<Rightarrow> 'z io_scheme" where
  "set_dirty b s = set_buf b (\<lambda>bf. bf\<lparr>b_dirty := True\<rparr>) s"

lemma set_dirty_ok:
  assumes ok: "bc_ok H s" and b: "b \<in> H"
  shows "bc_ok H (set_dirty b s)" "frame {b} s (set_dirty b s)" "view (set_dirty b s) = view s"
    "dirty_bufs (set_dirty b s) = insert b (dirty_bufs s)"
proof -
  let ?t = "set_dirty b s"
  note hD = holds_D [OF ok b]
  have bt: "bufs ?t = (bufs s)(b := (bufs s b)\<lparr>b_dirty := True\<rparr>)" by (simp add: set_dirty_def)
  have "lru ?t = lru s" "bio.more ?t = bio.more s" by (simp_all add: set_dirty_def set_buf_def)
  moreover have "bufs_wf ?t"
    using ok hD unfolding bc_ok_def bufs_wf_def bt by (auto split: if_splits)
  ultimately show "bc_ok H ?t" "frame {b} s ?t"
    using ok b unfolding bc_ok_def coherent_def holds_def frame_def bt
    by (auto simp: set_dirty_def dblk_def idle_def)
  show "view ?t = view s" by (rule view_same_bufs) (simp_all add: bt dblk_def set_dirty_def)
  show "dirty_bufs ?t = insert b (dirty_bufs s)" using hD by (auto simp: dirty_bufs_def bt)
qed

text \<open>The blocks that are pinned, one dirty buffer each.\<close>

definition pins :: "'z io_scheme \<Rightarrow> (nat \<times> nat) set" where
  "pins s = bkey s ` dirty_bufs s"

lemma dirty_inj:
  assumes "bc_ok H s"
  shows "inj_on (bkey s) (dirty_bufs s)"
proof (rule inj_onI)
  fix x y assume xy: "x \<in> dirty_bufs s" "y \<in> dirty_bufs s" "bkey s x = bkey s y"
  then have v: "x < NBUF" "y < NBUF" "b_valid (bufs s x)"
    using assms by (auto simp: dirty_bufs_def bc_ok_def intro: bufs_wf_dirty)
  then have "b_dev (bufs s x) \<noteq> 0"
    using assms by (auto simp: bc_ok_def dest!: bufs_wf_valid blk_ok_dev0)
  with v show "x = y" using assms xy(3) by (auto simp: bc_ok_def intro: bufs_wf_key)
qed

lemma card_pins: "bc_ok H s \<Longrightarrow> card (pins s) = card (dirty_bufs s)"
  by (simp add: pins_def card_image dirty_inj)

lemma pins_key:
  assumes "bc_ok H s" and "b < NBUF" and "b_dev (bufs s b) \<noteq> 0"
  shows "bkey s b \<in> pins s \<longleftrightarrow> b \<in> dirty_bufs s"
proof
  assume "bkey s b \<in> pins s"
  then obtain c where c: "c \<in> dirty_bufs s" "bkey s c = bkey s b" by (force simp: pins_def)
  have "b = c"
    using assms c by (intro bufs_wf_key [of s b c]) (simp_all add: bc_ok_def dirty_bufs_def)
  with c show "b \<in> dirty_bufs s" by simp
qed (simp add: pins_def)

lemma pins_frame:
  assumes "frame {b} s t" and "b \<in> dirty_bufs s \<Longrightarrow> bkey t b = bkey s b" and "dirty_bufs t = dirty_bufs s"
  shows "pins t = pins s"
  unfolding pins_def assms(3)
proof (rule image_cong [OF refl])
  fix x assume x: "x \<in> dirty_bufs s"
  show "bkey t x = bkey s x"
    using x assms(1,2) by (cases "x = b") (auto simp: frame_def)
qed

lemma view_unpinned:
  assumes "bc_ok H s" and "\<And>b. b \<in> H \<Longrightarrow> bkey s b \<noteq> (d, n)" and "(d, n) \<notin> pins s"
  shows "view s d n = dblk s d n"
proof (cases "\<exists>c < NBUF. b_valid (bufs s c) \<and> bkey s c = (d, n)")
  case True
  then obtain c where c: "c < NBUF" "b_valid (bufs s c)" "bkey s c = (d, n)" by blast
  then have "\<not> b_dirty (bufs s c)" "c \<notin> H" using assms(2,3) by (force simp: pins_def dirty_bufs_def)+
  then show ?thesis
    using assms(1) c view_cached [of s c d n] by (auto simp: bc_ok_def coherent_def)
next
  case False
  then show ?thesis by (intro view_uncached) blast
qed

text \<open>
  The layers above extend the record; two states with the same disk, driver and cache are
  indistinguishable here.
\<close>

definition same_io :: "'y bio_scheme \<Rightarrow> 'z bio_scheme \<Rightarrow> bool" where
  "same_io s t \<longleftrightarrow> bio.truncate t = bio.truncate s"

lemma same_io_fields:
  assumes "same_io s t"
  shows "bufs t = bufs s" "disk t = disk s" "dtrace t = dtrace s" "mypid t = mypid s" "lru t = lru s"
    "idequeue t = idequeue s" "havedisk1 t = havedisk1 s" "havedisk2 t = havedisk2 s"
    "ata_status t = ata_status s"
  using assms by (simp_all add: same_io_def bio.truncate_def)

lemma same_io_obs:
  assumes "same_io s t"
  shows "dblk t = dblk s" "view t = view s" "pins t = pins s" "dtrace t = dtrace s"
    "cached t d n = cached s d n" "bc_ok H t = bc_ok H s"
proof -
  note f = same_io_fields [OF assms]
  show d: "dblk t = dblk s" by (auto simp: dblk_def f fun_eq_iff)
  show "view t = view s" by (rule view_same_bufs) (simp_all add: f d)
  show "pins t = pins s" "dtrace t = dtrace s" "cached t d n = cached s d n"
    by (simp_all add: pins_def dirty_bufs_def cached_def f)
  show "bc_ok H t = bc_ok H s"
    by (simp add: bc_ok_def bufs_wf_def coherent_def holds_def idle_def f d)
qed

text \<open>Whatever the state, the cache leaves the layers above it untouched.\<close>

lemma io_more_bio: "io.more t = io.more s \<Longrightarrow> bio.more t = bio.more s"
  by (cases s; cases t) simp

lemma set_buf_more [simp]: "bio.more (set_buf b f s) = bio.more s"
  by (rule io_more_bio) simp

lemma bget_more: "bget d n s = Inr (b, t) \<Longrightarrow> bio.more t = bio.more s"
  by (auto simp: bget_def lock_buf_def rbind_eq_Inr split: option.splits)

lemma bread_more: "bread d n s = Inr (b, t) \<Longrightarrow> bio.more t = bio.more s"
  by (auto simp: bread_def rbind_eq_Inr split: if_splits dest!: bget_more iderw_more io_more_bio)

lemma bwrite_more: "bwrite b s = Inr t \<Longrightarrow> bio.more t = bio.more s"
  by (auto simp: bwrite_def split: if_splits dest!: iderw_more io_more_bio)

lemma brelse_more: "brelse b s = Inr t \<Longrightarrow> bio.more t = bio.more s"
  by (auto simp: brelse_def Let_def split: if_splits)

lemma set_data_more [simp]: "bio.more (set_data b x s) = bio.more s"
  by (simp add: set_data_def)

section \<open>The cache at boot\<close>

lemma fold_Cons: "fold (\<lambda>b l. b # l) xs ys = rev xs @ ys"
  by (induction xs arbitrary: ys) auto

lemma binit_ok:
  assumes "idle s" and "\<And>b. b < NBUF \<Longrightarrow> \<not> b_valid (bufs s b) \<and> \<not> b_dirty (bufs s b) \<and>
    b_dev (bufs s b) = 0 \<and> b_refcnt (bufs s b) = 0"
  shows "bc_ok {} (binit s)" "pins (binit s) = {}" "dblk (binit s) = dblk s"
proof -
  have i: "idle (binit s)" using assms(1) by (simp add: idle_def binit_def)
  have l: "lru (binit s) = rev [0..<NBUF]" by (simp add: binit_def fold_Cons)
  show "bc_ok {} (binit s)"
    using assms(2) unfolding bc_ok_def l
    by (auto simp: i bufs_wf_def coherent_def holds_def) (simp_all add: binit_def)
  show "pins (binit s) = {}" using assms(2) by (auto simp: pins_def dirty_bufs_def binit_def)
  show "dblk (binit s) = dblk s" by (simp add: fun_eq_iff dblk_def binit_def)
qed

definition boot_bio :: "(nat \<Rightarrow> nat \<Rightarrow> block) \<Rightarrow> bio" where
  "boot_bio D = binit \<lparr>mypid = 1, disk = D, dtrace = [],
     ata = (\<lambda>_. \<lparr>ata_nsect = 0, ata_lba0 = 0, ata_lba1 = 0, ata_lba2 = 0, ata_devhead = 0, ata_command = 0\<rparr>),
     ata_status = (\<lambda>_. 0x40), havedisk1 = True, havedisk2 = True, idequeue = [],
     bufs = (\<lambda>_. \<lparr>b_valid = False, b_dirty = False, b_dev = 0, b_blockno = 0,
       b_lock = \<lparr>sl_locked = False, sl_pid = 0\<rparr>, b_refcnt = 0, b_data = zero_block\<rparr>),
     lru = []\<rparr>"

lemma boot_bio_ok:
  "bc_ok {} (boot_bio D)" "pins (boot_bio D) = {}" "dblk (boot_bio D) d n = D d (2 * n)"
proof -
  show "bc_ok {} (boot_bio D)" "pins (boot_bio D) = {}"
    unfolding boot_bio_def by (rule binit_ok; simp add: idle_def)+
  show "dblk (boot_bio D) d n = D d (2 * n)" by (simp add: dblk_def boot_bio_def binit_def)
qed

lemma boot_bio_disk [simp]: "disk (boot_bio D) = D" "dtrace (boot_bio D) = []"
  by (simp_all add: boot_bio_def binit_def)

lemma boot_bio_view: "view (boot_bio D) d n = D d (2 * n)"
  using view_unpinned [OF boot_bio_ok(1)] boot_bio_ok(2,3) by auto

section \<open>The interface of the cache\<close>

text \<open>
  What the callers of \<open>src/bio.c\<close> rely on. \<open>look\<close> is the contents the kernel sees, \<open>stored\<close>
  the contents on the disk, \<open>trace\<close> the block writes so far, \<open>pins\<close> the blocks with a dirty
  buffer and \<open>keeps B\<close> says that only the buffers in \<open>B\<close> differ.
\<close>

locale block_cache =
  fixes bread :: "nat \<Rightarrow> nat \<Rightarrow> 's \<Rightarrow> (nat \<times> 's) res"
    and bwrite :: "nat \<Rightarrow> 's \<Rightarrow> 's res"
    and brelse :: "nat \<Rightarrow> 's \<Rightarrow> 's res"
    and put :: "nat \<Rightarrow> block \<Rightarrow> 's \<Rightarrow> 's"
    and data :: "'s \<Rightarrow> nat \<Rightarrow> block"
    and key :: "'s \<Rightarrow> nat \<Rightarrow> nat \<times> nat"
    and inv :: "nat set \<Rightarrow> 's \<Rightarrow> bool"
    and look :: "'s \<Rightarrow> nat \<Rightarrow> nat \<Rightarrow> block"
    and stored :: "'s \<Rightarrow> nat \<Rightarrow> nat \<Rightarrow> block"
    and trace :: "'s \<Rightarrow> (nat \<times> nat \<times> block) list"
    and pins :: "'s \<Rightarrow> (nat \<times> nat) set"
    and keeps :: "nat set \<Rightarrow> 's \<Rightarrow> 's \<Rightarrow> bool"
    and cached :: "'s \<Rightarrow> nat \<Rightarrow> nat \<Rightarrow> bool"
    and ok :: "nat \<Rightarrow> nat \<Rightarrow> bool"
    and cap :: nat
  assumes bread_law: "inv H s \<Longrightarrow> ok d n \<Longrightarrow> (\<And>b. b \<in> H \<Longrightarrow> key s b \<noteq> (d, n)) \<Longrightarrow>
      cached s d n \<or> card H + card (pins s) < cap \<Longrightarrow>
      \<exists>b t. bread d n s = Inr (b, t) \<and> inv (insert b H) t \<and> b \<notin> H \<and> keeps {b} s t \<and>
        key t b = (d, n) \<and> data t b = look s d n \<and> look t = look s \<and> stored t = stored s \<and>
        trace t = trace s \<and> pins t = pins s"
    and put_law: "inv H s \<Longrightarrow> b \<in> H \<Longrightarrow> key s b = (d, n) \<Longrightarrow>
      inv H (put b x s) \<and> keeps {b} s (put b x s) \<and> key (put b x s) b = (d, n) \<and>
      data (put b x s) b = x \<and> look (put b x s) = (look s)(d := (look s d)(n := x)) \<and>
      stored (put b x s) = stored s \<and> trace (put b x s) = trace s \<and> pins (put b x s) = pins s"
    and bwrite_law: "inv H s \<Longrightarrow> b \<in> H \<Longrightarrow> key s b = (d, n) \<Longrightarrow>
      \<exists>t. bwrite b s = Inr t \<and> inv H t \<and> keeps {b} s t \<and> key t b = (d, n) \<and>
        data t b = data s b \<and> look t = look s \<and>
        stored t = (stored s)(d := (stored s d)(n := data s b)) \<and>
        trace t = trace s @ [(d, 2 * n, data s b)] \<and> pins t = pins s - {(d, n)}"
    and brelse_law: "inv H s \<Longrightarrow> b \<in> H \<Longrightarrow> key s b = (d, n) \<Longrightarrow>
      (d, n) \<in> pins s \<or> data s b = stored s d n \<Longrightarrow>
      \<exists>t. brelse b s = Inr t \<and> inv (H - {b}) t \<and> keeps {b} s t \<and> key t b = (d, n) \<and>
        look t = look s \<and> stored t = stored s \<and> trace t = trace s \<and> pins t = pins s"
    and keeps_other: "keeps B s t \<Longrightarrow> b \<notin> B \<Longrightarrow> key t b = key s b \<and> data t b = data s b"
    and keeps_trans: "keeps B s t \<Longrightarrow> keeps C t u \<Longrightarrow> keeps (B \<union> C) s u"
    and pins_cached: "(d, n) \<in> pins s \<Longrightarrow> cached s d n"
    and pins_finite: "finite (pins s)"
    and unpinned: "inv H s \<Longrightarrow> (\<And>b. b \<in> H \<Longrightarrow> key s b \<noteq> (d, n)) \<Longrightarrow> (d, n) \<notin> pins s \<Longrightarrow>
      look s d n = stored s d n"
begin

text \<open>Reading a block and releasing it.\<close>

lemma read_block:
  assumes "inv H s" and "ok d n" and "\<And>b. b \<in> H \<Longrightarrow> key s b \<noteq> (d, n)"
    and "cached s d n \<or> card H + card (pins s) < cap"
  obtains b t where "keeps {b} s t" "b \<notin> H" "inv H t" "look t = look s" "stored t = stored s"
    "trace t = trace s" "pins t = pins s"
    "\<And>k. rbind (bread d n s) (\<lambda>(b, s1). rbind (brelse b s1) (k (data s1 b))) = k (look s d n) t"
proof -
  obtain b t where b: "bread d n s = Inr (b, t)" "inv (insert b H) t" "b \<notin> H" "keeps {b} s t"
      "key t b = (d, n)" "data t b = look s d n" "look t = look s" "stored t = stored s"
      "trace t = trace s" "pins t = pins s"
    using bread_law [OF assms] by blast
  then obtain u where u: "brelse b t = Inr u" "inv (insert b H - {b}) u" "keeps {b} t u"
      "look u = look t" "stored u = stored t" "trace u = trace t" "pins u = pins t"
    using brelse_law [OF b(2) _ b(5)] unpinned [OF assms(1,3)] by auto
  have "insert b H - {b} = H" using b(3) by simp
  then show ?thesis
    using b u keeps_trans [OF b(4) u(3)] by (intro that [of b u]) auto
qed

text \<open>Writing a new contents to a held buffer, through to the disk.\<close>

lemma put_bwrite:
  assumes "inv H s" and "b \<in> H" and "key s b = (d, n)"
  obtains t where "bwrite b (put b x s) = Inr t" "inv H t" "keeps {b} s t" "key t b = (d, n)"
    "data t b = x" "look t = (look s)(d := (look s d)(n := x))"
    "stored t = (stored s)(d := (stored s d)(n := x))"
    "trace t = trace s @ [(d, 2 * n, x)]" "pins t = pins s - {(d, n)}"
proof -
  note p = put_law [OF assms, of x]
  obtain t where "bwrite b (put b x s) = Inr t" "inv H t" "keeps {b} (put b x s) t" "key t b = (d, n)"
    "data t b = x" "look t = look (put b x s)" "stored t = (stored s)(d := (stored s d)(n := x))"
    "trace t = trace s @ [(d, 2 * n, x)]" "pins t = pins s - {(d, n)}"
    using bwrite_law [of H "put b x s" b d n] p assms(2) by auto
  with p keeps_trans [of "{b}" s "put b x s" "{b}" t] show ?thesis by (intro that [of t]) auto
qed

text \<open>Reading a block, changing it in place, writing it through and releasing it.\<close>

lemma write_block:
  assumes "inv H s" and "ok d n" and "\<And>b. b \<in> H \<Longrightarrow> key s b \<noteq> (d, n)"
    and "cached s d n \<or> card H + card (pins s) < cap"
  obtains b t where "keeps {b} s t" "b \<notin> H" "inv H t"
    "look t = (look s)(d := (look s d)(n := f (look s d n)))"
    "stored t = (stored s)(d := (stored s d)(n := f (look s d n)))"
    "trace t = trace s @ [(d, 2 * n, f (look s d n))]" "pins t = pins s - {(d, n)}"
    "\<And>k. rbind (bread d n s) (\<lambda>(b, s1). rbind (bwrite b (put b (f (data s1 b)) s1))
       (\<lambda>s2. rbind (brelse b s2) k)) = k t"
proof -
  obtain b t where b: "bread d n s = Inr (b, t)" "inv (insert b H) t" "b \<notin> H" "keeps {b} s t"
      "key t b = (d, n)" "data t b = look s d n" "look t = look s" "stored t = stored s"
      "trace t = trace s" "pins t = pins s"
    using bread_law [OF assms] by blast
  obtain t2 where t2: "bwrite b (put b (f (look s d n)) t) = Inr t2" "inv (insert b H) t2"
      "keeps {b} t t2" "key t2 b = (d, n)" "data t2 b = f (look s d n)"
      "look t2 = (look s)(d := (look s d)(n := f (look s d n)))"
      "stored t2 = (stored s)(d := (stored s d)(n := f (look s d n)))"
      "trace t2 = trace s @ [(d, 2 * n, f (look s d n))]" "pins t2 = pins s - {(d, n)}"
    using put_bwrite [OF b(2) _ b(5), of "f (look s d n)"] b by auto
  then obtain u where u: "brelse b t2 = Inr u" "inv (insert b H - {b}) u" "keeps {b} t2 u"
      "look u = look t2" "stored u = stored t2" "trace u = trace t2" "pins u = pins t2"
    using brelse_law [OF t2(2) _ t2(4)] by auto
  have "insert b H - {b} = H" using b(3) by simp
  moreover have "keeps {b} s u"
    using keeps_trans [OF keeps_trans [OF b(4) t2(3)] u(3)] by simp
  ultimately show ?thesis
    using b t2 u by (intro that [of b u]) auto
qed

text \<open>
  Copying one block over another with both buffers held: into the buffer read first (as
  \<open>write_log\<close> does) or into the one read second (as \<open>install_trans\<close> does).
\<close>

lemma bread_two:
  assumes inv: "inv {} s" and ok: "ok d m" "ok d n" "m \<noteq> n"
    and room: "card (pins s) < cap" and dn: "(d, n) \<in> pins s \<or> 1 + card (pins s) < cap"
  obtains x s1 y s2 where "bread d m s = Inr (x, s1)" "bread d n s1 = Inr (y, s2)" "x \<noteq> y"
    "inv {x, y} s2" "keeps {x, y} s s2" "key s2 x = (d, m)" "key s2 y = (d, n)"
    "data s2 x = look s d m" "data s2 y = look s d n" "look s2 = look s" "stored s2 = stored s"
    "trace s2 = trace s" "pins s2 = pins s"
proof -
  have "cached s d m \<or> card ({} :: nat set) + card (pins s) < cap" using room by simp
  then obtain x s1 where x: "bread d m s = Inr (x, s1)" "inv {x} s1" "keeps {x} s s1"
      "key s1 x = (d, m)" "data s1 x = look s d m" "look s1 = look s" "stored s1 = stored s"
      "trace s1 = trace s" "pins s1 = pins s"
    using bread_law [OF inv ok(1)] by auto
  have "cached s1 d n \<or> card {x} + card (pins s1) < cap"
    using dn pins_cached [of d n s1] x(9) by auto
  then obtain y s2 where y: "bread d n s1 = Inr (y, s2)" "inv {y, x} s2" "y \<noteq> x" "keeps {y} s1 s2"
      "key s2 y = (d, n)" "data s2 y = look s d n" "look s2 = look s" "stored s2 = stored s"
      "trace s2 = trace s" "pins s2 = pins s"
    using bread_law [OF x(2) ok(2)] x ok(3) by auto
  have "{y, x} = {x, y}" by auto
  then show thesis
    using x y keeps_other [OF y(4), of x] keeps_trans [OF x(3) y(4)]
    by (intro that [OF x(1) y(1)]) auto
qed

lemma brelse_two:
  assumes inv: "inv {x, y} s" and k: "x \<noteq> y" "key s x = (d, m)" "key s y = (d, n)"
    and c: "(d, m) \<in> pins s \<or> data s x = stored s d m" "(d, n) \<in> pins s \<or> data s y = stored s d n"
  obtains t where "rbind (brelse x s) (brelse y) = Inr t" "inv {} t" "keeps {x, y} s t"
    "look t = look s" "stored t = stored s" "trace t = trace s" "pins t = pins s"
proof -
  obtain s1 where s1: "brelse x s = Inr s1" "inv ({x, y} - {x}) s1" "keeps {x} s s1"
      "look s1 = look s" "stored s1 = stored s" "trace s1 = trace s" "pins s1 = pins s"
    using brelse_law [OF inv _ k(2) c(1)] by auto
  have y: "key s1 y = (d, n)" "data s1 y = data s y" using keeps_other [OF s1(3), of y] k by auto
  have "(d, n) \<in> pins s1 \<or> data s1 y = stored s1 d n" using c(2) y s1 by simp
  then obtain t where t: "brelse y s1 = Inr t" "inv ({x, y} - {x} - {y}) t" "keeps {y} s1 t"
      "look t = look s1" "stored t = stored s1" "trace t = trace s1" "pins t = pins s1"
    using brelse_law [OF s1(2) _ y(1)] k(1) by auto
  have "{x, y} - {x} - {y} = {}" by auto
  then have "inv {} t" using t(2) by metis
  moreover have "keeps {x, y} s t"
    using keeps_trans [OF s1(3) t(3)] by (simp add: insert_commute)
  ultimately show thesis using s1 t by (intro that [of t]) auto
qed

lemma copy_to_first:
  assumes inv: "inv {} s" and ok: "ok d m" "ok d n" "m \<noteq> n"
    and room: "card (pins s) < cap" and dn: "(d, n) \<in> pins s \<or> 1 + card (pins s) < cap"
  obtains B t where "inv {} t" "keeps B s t" "pins t = pins s - {(d, m)}"
    "look t = (look s)(d := (look s d)(m := look s d n))"
    "stored t = (stored s)(d := (stored s d)(m := look s d n))"
    "trace t = trace s @ [(d, 2 * m, look s d n)]"
    "rbind (bread d m s) (\<lambda>(x, s1). rbind (bread d n s1) (\<lambda>(y, s2).
       rbind (bwrite x (put x (data s2 y) s2)) (\<lambda>s3. rbind (brelse y s3) (brelse x)))) = Inr t"
proof -
  obtain x s1 y s2 where r: "bread d m s = Inr (x, s1)" "bread d n s1 = Inr (y, s2)" "x \<noteq> y"
    "inv {x, y} s2" "keeps {x, y} s s2" "key s2 x = (d, m)" "key s2 y = (d, n)"
    "data s2 x = look s d m" "data s2 y = look s d n" "look s2 = look s" "stored s2 = stored s"
    "trace s2 = trace s" "pins s2 = pins s"
    using bread_two [OF assms] by blast
  obtain s3 where w: "bwrite x (put x (data s2 y) s2) = Inr s3" "inv {x, y} s3" "keeps {x} s2 s3"
    "key s3 x = (d, m)" "data s3 x = data s2 y" "look s3 = (look s2)(d := (look s2 d)(m := data s2 y))"
    "stored s3 = (stored s2)(d := (stored s2 d)(m := data s2 y))"
    "trace s3 = trace s2 @ [(d, 2 * m, data s2 y)]" "pins s3 = pins s2 - {(d, m)}"
    using put_bwrite [OF r(4) _ r(6)] by blast
  have y: "key s3 y = (d, n)" "data s3 y = data s2 y" using keeps_other [OF w(3), of y] r(3,7) by auto
  have inv': "inv {y, x} s3" using w(2) by (simp add: insert_commute)
  have c: "(d, n) \<in> pins s3 \<or> data s3 y = stored s3 d n" "(d, m) \<in> pins s3 \<or> data s3 x = stored s3 d m"
    using unpinned [OF inv] ok(3) y r w by auto
  obtain t where t: "rbind (brelse y s3) (brelse x) = Inr t" "inv {} t" "keeps {y, x} s3 t"
    "look t = look s3" "stored t = stored s3" "trace t = trace s3" "pins t = pins s3"
    using brelse_two [OF inv' _ y(1) w(4) c] r(3) by blast
  show thesis
    using r w t keeps_trans [OF r(5) keeps_trans [OF w(3) t(3)]]
    by (intro that [of t "{x, y} \<union> ({x} \<union> {y, x})"]) auto
qed

lemma copy_to_second:
  assumes inv: "inv {} s" and ok: "ok d m" "ok d n" "m \<noteq> n"
    and room: "card (pins s) < cap" and dn: "(d, n) \<in> pins s \<or> 1 + card (pins s) < cap"
  obtains B t where "inv {} t" "keeps B s t" "pins t = pins s - {(d, n)}"
    "look t = (look s)(d := (look s d)(n := look s d m))"
    "stored t = (stored s)(d := (stored s d)(n := look s d m))"
    "trace t = trace s @ [(d, 2 * n, look s d m)]"
    "rbind (bread d m s) (\<lambda>(x, s1). rbind (bread d n s1) (\<lambda>(y, s2).
       rbind (bwrite y (put y (data s2 x) s2)) (\<lambda>s3. rbind (brelse x s3) (brelse y)))) = Inr t"
proof -
  obtain x s1 y s2 where r: "bread d m s = Inr (x, s1)" "bread d n s1 = Inr (y, s2)" "x \<noteq> y"
    "inv {x, y} s2" "keeps {x, y} s s2" "key s2 x = (d, m)" "key s2 y = (d, n)"
    "data s2 x = look s d m" "data s2 y = look s d n" "look s2 = look s" "stored s2 = stored s"
    "trace s2 = trace s" "pins s2 = pins s"
    using bread_two [OF assms] by blast
  obtain s3 where w: "bwrite y (put y (data s2 x) s2) = Inr s3" "inv {x, y} s3" "keeps {y} s2 s3"
    "key s3 y = (d, n)" "data s3 y = data s2 x" "look s3 = (look s2)(d := (look s2 d)(n := data s2 x))"
    "stored s3 = (stored s2)(d := (stored s2 d)(n := data s2 x))"
    "trace s3 = trace s2 @ [(d, 2 * n, data s2 x)]" "pins s3 = pins s2 - {(d, n)}"
    using put_bwrite [OF r(4) _ r(7)] by blast
  have x: "key s3 x = (d, m)" "data s3 x = data s2 x" using keeps_other [OF w(3), of x] r(3,6) by auto
  have c: "(d, m) \<in> pins s3 \<or> data s3 x = stored s3 d m" "(d, n) \<in> pins s3 \<or> data s3 y = stored s3 d n"
    using unpinned [OF inv] ok(3) x r w by auto
  obtain t where t: "rbind (brelse x s3) (brelse y) = Inr t" "inv {} t" "keeps {x, y} s3 t"
    "look t = look s3" "stored t = stored s3" "trace t = trace s3" "pins t = pins s3"
    using brelse_two [OF w(2) r(3) x(1) w(4) c] by blast
  show thesis
    using r w t keeps_trans [OF r(5) keeps_trans [OF w(3) t(3)]]
    by (intro that [of t "{x, y} \<union> ({y} \<union> {x, y})"]) auto
qed

end

interpretation bc: block_cache bread bwrite brelse set_data "\<lambda>s b. b_data (bufs s b)" bkey bc_ok
  view dblk dtrace pins frame cached blk_ok NBUF
proof
  fix H d n and s :: "'a bio_scheme"
  assume a: "bc_ok H s" "blk_ok d n" "\<And>b. b \<in> H \<Longrightarrow> bkey s b \<noteq> (d, n)"
    "cached s d n \<or> card H + card (pins s) < NBUF"
  then have "cached s d n \<or> card H + card (dirty_bufs s) < NBUF" by (simp add: card_pins)
  with a(1-3) obtain b t where "bread d n s = Inr (b, t)" "bc_ok (insert b H) t" "b \<notin> H" "frame {b} s t"
    "bkey t b = (d, n)" "b_data (bufs t b) = view s d n" "view t = view s" "disk t = disk s"
    "dtrace t = dtrace s" "dirty_bufs t = dirty_bufs s" "b \<in> dirty_bufs s \<Longrightarrow> bkey s b = (d, n)"
    by (rule bread_ok) blast+
  moreover from this have "pins t = pins s" by (intro pins_frame) auto
  ultimately show "\<exists>b t. bread d n s = Inr (b, t) \<and> bc_ok (insert b H) t \<and> b \<notin> H \<and> frame {b} s t \<and>
      bkey t b = (d, n) \<and> b_data (bufs t b) = view s d n \<and> view t = view s \<and> dblk t = dblk s \<and>
      dtrace t = dtrace s \<and> pins t = pins s"
    by (intro exI [of _ b] exI [of _ t]) (auto simp: dblk_def fun_eq_iff)
next
  fix H b d n x and s :: "'a bio_scheme"
  assume a: "bc_ok H s" "b \<in> H" "bkey s b = (d, n)"
  have "pins (set_data b x s) = pins s"
    using set_data_ok(2) [OF a(1,2)] by (intro pins_frame) (auto simp: set_data_def dirty_bufs_def)
  then show "bc_ok H (set_data b x s) \<and> frame {b} s (set_data b x s) \<and> bkey (set_data b x s) b = (d, n) \<and>
      b_data (bufs (set_data b x s) b) = x \<and> view (set_data b x s) = (view s)(d := (view s d)(n := x)) \<and>
      dblk (set_data b x s) = dblk s \<and> dtrace (set_data b x s) = dtrace s \<and>
      pins (set_data b x s) = pins s"
    using set_data_ok [OF a(1,2)] a(3) by (auto simp: set_data_def dblk_def fun_eq_iff)
next
  fix H b d n and s :: "'a bio_scheme"
  assume a: "bc_ok H s" "b \<in> H" "bkey s b = (d, n)"
  then obtain t where t: "bwrite b s = Inr t" "bc_ok H t" "frame {b} s t"
    "bufs t b = (bufs s b)\<lparr>b_dirty := False\<rparr>" "view t = view s"
    "disk t = (disk s)(d := (disk s d)(2 * n := b_data (bufs s b)))"
    "dtrace t = dtrace s @ [(d, 2 * n, b_data (bufs s b))]" "dirty_bufs t = dirty_bufs s - {b}"
    by (rule bwrite_ok)
  have "pins t = bkey s ` (dirty_bufs s - {b})"
    unfolding pins_def t(8) using t(3) by (intro image_cong) (auto simp: frame_def)
  also have "\<dots> = pins s - {(d, n)}"
  proof -
    have bd: "b < NBUF" "b_dev (bufs s b) \<noteq> 0"
      using holds_D [OF a(1,2)] a(1) by (auto simp: bc_ok_def dest!: bufs_wf_valid blk_ok_dev0)
    then have "(d, n) \<in> pins s \<longleftrightarrow> b \<in> dirty_bufs s" using pins_key [OF a(1)] a(3) by metis
    then show ?thesis
      using dirty_inj [OF a(1)] a(3) unfolding pins_def inj_on_def by (cases "b \<in> dirty_bufs s") auto
  qed
  finally show "\<exists>t. bwrite b s = Inr t \<and> bc_ok H t \<and> frame {b} s t \<and> bkey t b = (d, n) \<and>
      b_data (bufs t b) = b_data (bufs s b) \<and> view t = view s \<and>
      dblk t = (dblk s)(d := (dblk s d)(n := b_data (bufs s b))) \<and>
      dtrace t = dtrace s @ [(d, 2 * n, b_data (bufs s b))] \<and> pins t = pins s - {(d, n)}"
    using t a(3) by (intro exI [of _ t]) (auto simp: dblk_def fun_eq_iff)
next
  fix H b d n and s :: "'a bio_scheme"
  assume a: "bc_ok H s" "b \<in> H" "bkey s b = (d, n)" "(d, n) \<in> pins s \<or> b_data (bufs s b) = dblk s d n"
  have bd: "b < NBUF" "b_dev (bufs s b) \<noteq> 0"
    using holds_D [OF a(1,2)] a(1) by (auto simp: bc_ok_def dest!: bufs_wf_valid blk_ok_dev0)
  have "b_data (bufs s b) = dblk s (b_dev (bufs s b)) (b_blockno (bufs s b))" if "\<not> b_dirty (bufs s b)"
    using a(3,4) that pins_key [OF a(1) bd] by (auto simp: dirty_bufs_def)
  with a(1,2) obtain t where "brelse b s = Inr t" "bc_ok (H - {b}) t" "frame {b} s t"
    "bkey t b = bkey s b" "view t = view s" "disk t = disk s" "dtrace t = dtrace s"
    "dirty_bufs t = dirty_bufs s"
    by (rule brelse_ok) blast+
  moreover from this have "pins t = pins s" by (intro pins_frame) auto
  ultimately show "\<exists>t. brelse b s = Inr t \<and> bc_ok (H - {b}) t \<and> frame {b} s t \<and> bkey t b = (d, n) \<and>
      view t = view s \<and> dblk t = dblk s \<and> dtrace t = dtrace s \<and> pins t = pins s"
    using a(3) by (intro exI [of _ t]) (auto simp: dblk_def fun_eq_iff)
next
  fix H B C d n b and s t u :: "'a bio_scheme"
  show "frame B s t \<Longrightarrow> b \<notin> B \<Longrightarrow> bkey t b = bkey s b \<and> b_data (bufs t b) = b_data (bufs s b)"
    by (simp add: frame_def)
  show "frame B s t \<Longrightarrow> frame C t u \<Longrightarrow> frame (B \<union> C) s u" by (rule frame_trans)
  show "(d, n) \<in> pins s \<Longrightarrow> cached s d n" by (auto simp: cached_def pins_def dirty_bufs_def)
  show "finite (pins s)" by (simp add: pins_def)
  show "bc_ok H s \<Longrightarrow> (\<And>b. b \<in> H \<Longrightarrow> bkey s b \<noteq> (d, n)) \<Longrightarrow> (d, n) \<notin> pins s \<Longrightarrow> view s d n = dblk s d n"
    by (rule view_unpinned)
qed

end
