(* ===== verification/Lru.thy ===== *)
theory Lru
  imports Bio
begin

text \<open>
  The list of buffers of \<open>src/bio.c\<close> at the level of its pointers. In \<open>Bio\<close> the order of the buffers is a
  list; here it is the circular doubly-linked list through \<open>prev\<close> and \<open>next\<close> with its head node, and
  \<open>binit\<close>, the two loops of \<open>bget\<close> and the end of \<open>brelse\<close> are written with the assignments of the code. The
  theorem shows that they implement the operations on the list.
\<close>

section \<open>Pointers\<close>

text \<open>A buffer is its index in \<open>bcache.buf\<close>; \<open>HEAD\<close> is \<open>&bcache.head\<close>.\<close>

definition HEAD :: nat where "HEAD = NBUF"

record links =
  l_prev :: "nat \<Rightarrow> nat"
  l_next :: "nat \<Rightarrow> nat"

definition push_front :: "nat \<Rightarrow> links \<Rightarrow> links" where
  "push_front b l =
     (let l1 = l\<lparr>l_next := (l_next l)(b := l_next l HEAD)\<rparr>;
          l2 = l1\<lparr>l_prev := (l_prev l1)(b := HEAD)\<rparr>;
          l3 = l2\<lparr>l_prev := (l_prev l2)(l_next l2 HEAD := b)\<rparr>
      in l3\<lparr>l_next := (l_next l3)(HEAD := b)\<rparr>)"

definition binit_links :: "links \<Rightarrow> links" where
  "binit_links l =
     (let l1 = l\<lparr>l_prev := (l_prev l)(HEAD := HEAD)\<rparr>;
          l2 = l1\<lparr>l_next := (l_next l1)(HEAD := HEAD)\<rparr>
      in fold push_front [0..<NBUF] l2)"

definition unlink_buf :: "nat \<Rightarrow> links \<Rightarrow> links" where
  "unlink_buf b l =
     (let l1 = l\<lparr>l_prev := (l_prev l)(l_next l b := l_prev l b)\<rparr>
      in l1\<lparr>l_next := (l_next l1)(l_prev l1 b := l_next l1 b)\<rparr>)"

definition brelse_links :: "nat \<Rightarrow> links \<Rightarrow> 'z bio_scheme \<Rightarrow> (links \<times> 'z bio_scheme) res" where
  "brelse_links b l s =
     (if \<not> holdingsleep (mypid s) (b_lock (bufs s b)) then Inl (Panic ''brelse'')
      else
        let s1 = set_buf b (\<lambda>bf. bf\<lparr>b_lock := releasesleep (b_lock bf)\<rparr>) s;
            s2 = set_buf b (\<lambda>bf. bf\<lparr>b_refcnt := b_refcnt bf - 1\<rparr>) s1
        in if b_refcnt (bufs s2 b) = 0 then Inr (push_front b (unlink_buf b l), s2) else Inr (l, s2))"

text \<open>A loop \<open>for(b = \<dots>; b != &bcache.head; b = nx b)\<close> that stops at the first buffer with \<open>P\<close>.\<close>

partial_function (option) scan :: "(nat \<Rightarrow> nat) \<Rightarrow> (nat \<Rightarrow> bool) \<Rightarrow> nat \<Rightarrow> nat option option" where
  [code]: "scan nx P b = (if b = HEAD then Some None else if P b then Some (Some b) else scan nx P (nx b))"

definition bget_links :: "links \<Rightarrow> nat \<Rightarrow> nat \<Rightarrow> 'z bio_scheme \<Rightarrow> (nat \<times> 'z bio_scheme) res" where
  "bget_links l dev blockno s =
     (case scan (l_next l) (\<lambda>b. b_dev (bufs s b) = dev \<and> b_blockno (bufs s b) = blockno) (l_next l HEAD) of
        None \<Rightarrow> Inl (Diverges ''bget'')
      | Some (Some b) \<Rightarrow> lock_buf b (set_buf b (\<lambda>bf. bf\<lparr>b_refcnt := b_refcnt bf + 1\<rparr>) s)
      | Some None \<Rightarrow>
        (case scan (l_prev l) (\<lambda>b. b_refcnt (bufs s b) = 0 \<and> \<not> b_dirty (bufs s b)) (l_prev l HEAD) of
           None \<Rightarrow> Inl (Diverges ''bget'')
         | Some (Some b) \<Rightarrow> lock_buf b (set_buf b (\<lambda>bf. bf\<lparr>b_dev := dev, b_blockno := blockno,
             b_valid := False, b_dirty := False, b_refcnt := 1\<rparr>) s)
         | Some None \<Rightarrow> Inl (Panic ''bget: no buffers'')))"

section \<open>Searches\<close>

lemma scan_path:
  "ptr_path nx a xs HEAD \<Longrightarrow> HEAD \<notin> set xs \<Longrightarrow> scan nx P (nx a) = Some (find P xs)"
proof (induction xs arbitrary: a)
  case Nil
  then show ?case by (simp add: scan.simps)
next
  case (Cons x xs)
  then show ?case using Cons.IH [of x] by (auto simp: scan.simps [of _ _ x])
qed

section \<open>The pointers implement the list\<close>

definition dll :: "nat list \<Rightarrow> links \<Rightarrow> bool" where
  "dll xs l \<longleftrightarrow> distinct (HEAD # xs) \<and> ptr_path (l_next l) HEAD xs HEAD \<and> ptr_path (l_prev l) HEAD (rev xs) HEAD"

lemma last_rev_hd: "last (a # rev xs) = hd (xs @ [a])"
  by (cases xs) auto

lemma push_front_dll:
  assumes "dll xs l" "b \<notin> set (HEAD # xs)"
  shows "dll (b # xs) (push_front b l)"
proof -
  have d: "distinct (HEAD # xs)" and n: "ptr_path (l_next l) HEAD xs HEAD"
    and p: "ptr_path (l_prev l) HEAD (rev xs) HEAD"
    using assms(1) by (auto simp: dll_def)
  have bh: "b \<noteq> HEAD" "b \<notin> set xs" using assms(2) by auto
  have f: "l_next l HEAD = last (HEAD # rev xs)" using path_first [OF n] last_rev_hd [of HEAD xs] by metis
  have ne: "last (HEAD # rev xs) \<noteq> b"
    using bh last_in_set [of "HEAD # rev xs"] by (auto simp del: last.simps)
  have "ptr_path ((l_next l)(b := l_next l HEAD, HEAD := b)) HEAD (b # xs) HEAD"
    using bh d by (auto intro: path_start [OF n])
  moreover have "ptr_path ((l_prev l)(b := HEAD, last (HEAD # rev xs) := b)) HEAD (rev xs @ [b]) HEAD"
  proof -
    have "ptr_path ((l_prev l)(b := HEAD)) HEAD (rev xs) HEAD" using p bh by (simp add: path_other)
    from path_redirect [OF this, of b] d
    have "ptr_path ((l_prev l)(b := HEAD, last (HEAD # rev xs) := b)) HEAD (rev xs) b" by simp
    then show ?thesis using ne by (simp add: path_append del: last.simps)
  qed
  ultimately show ?thesis using d bh
    by (simp add: dll_def push_front_def Let_def f [symmetric] del: last.simps ptr_path.simps)
qed

lemma unlink_buf_dll:
  assumes "dll (us @ b # vs) l"
  shows "dll (us @ vs) (unlink_buf b l)"
proof -
  have d: "distinct (HEAD # us @ b # vs)"
    and n: "ptr_path (l_next l) HEAD us b" "ptr_path (l_next l) b vs HEAD"
    and p: "ptr_path (l_prev l) HEAD (rev vs) b" "ptr_path (l_prev l) b (rev us) HEAD"
    using assms by (auto simp: dll_def path_append)
  have nb: "l_next l b = last (HEAD # rev vs)" using path_first [OF n(2)] last_rev_hd [of HEAD vs] by metis
  have pb: "l_prev l b = last (HEAD # us)"
    using path_first [OF p(2)] last_rev_hd [of HEAD "rev us"] by simp
  have ne: "last (HEAD # us) \<noteq> b" "last (HEAD # rev vs) \<noteq> b"
    using d last_in_set [of "HEAD # us"] last_in_set [of "HEAD # rev vs"] by (auto simp del: last.simps)
  have off: "last (HEAD # us) \<notin> set vs" "last (HEAD # rev vs) \<notin> set (rev us)"
    using d last_in_set [of "HEAD # us"] last_in_set [of "HEAD # rev vs"] by (auto simp del: last.simps)
  have "ptr_path ((l_next l)(last (HEAD # us) := l_next l b)) HEAD (us @ vs) HEAD"
    using path_splice [OF n] d off by simp
  moreover have "ptr_path ((l_prev l)(last (HEAD # rev vs) := l_prev l b)) HEAD (rev vs @ rev us) HEAD"
    using path_splice [OF p] d off by simp
  ultimately show ?thesis using d ne
    by (simp add: dll_def unlink_buf_def Let_def nb [symmetric] pb [symmetric] del: last.simps ptr_path.simps)
qed

lemma move_front_dll:
  assumes "dll xs l" "b \<in> set xs"
  shows "dll (b # remove1 b xs) (push_front b (unlink_buf b l))"
proof -
  obtain us vs where x: "xs = us @ b # vs" "b \<notin> set us"
    using split_list_first [OF assms(2)] by blast
  have "dll (us @ vs) (unlink_buf b l)" using assms(1) x unlink_buf_dll by simp
  moreover have "b \<notin> set (HEAD # us @ vs)" using assms(1) x by (auto simp: dll_def)
  ultimately show ?thesis using x push_front_dll by (simp add: remove1_append)
qed

lemma binit_links_dll: "dll (lru (binit s)) (binit_links l)"
proof -
  have "dll (fold (#) [0..<n] []) (fold push_front [0..<n]
      (l\<lparr>l_prev := (l_prev l)(HEAD := HEAD), l_next := (l_next l)(HEAD := HEAD)\<rparr>))" if "n \<le> NBUF" for n
    using that
  proof (induction n)
    case 0
    show ?case by (simp add: dll_def)
  next
    case (Suc n)
    then have "n \<notin> set (HEAD # fold (#) [0..<n] [])" by (simp add: HEAD_def fold_Cons)
    with Suc show ?case by (simp add: push_front_dll)
  qed
  then show ?thesis by (simp add: binit_def binit_links_def Let_def)
qed

lemma bget_links_eq: "dll (lru s) l \<Longrightarrow> bget_links l dev bn s = bget dev bn s"
  by (auto simp: dll_def bget_links_def bget_def scan_path split: option.splits)

text \<open>
  C20: The pointers of the buffer list implement the list that orders the buffers by use: \<open>binit\<close> builds
  the list, both searches of \<open>bget\<close> end and find what a search of the list finds, and \<open>brelse\<close>
  with its six assignments leaves pointers that represent the list with the buffer moved to
  the front, and does to the buffers what the operation on the list does.
\<close>

theorem lru_links:
  fixes s :: "'z bio_scheme"
  assumes "dll (lru s) l" "b \<in> set (lru s)"
  shows "dll (lru (binit s')) (binit_links l') \<and>
    bget_links l dev bn s = bget dev bn s \<and>
    (case brelse b s of
       Inl e \<Rightarrow> brelse_links b l s = Inl e
     | Inr t \<Rightarrow> \<exists>l1. brelse_links b l s = Inr (l1, t\<lparr>lru := lru s\<rparr>) \<and> dll (lru t) l1)"
proof (intro conjI)
  show "dll (lru (binit s')) (binit_links l')" by (rule binit_links_dll)
  show "bget_links l dev bn s = bget dev bn s" using assms(1) by (rule bget_links_eq)
  show "case brelse b s of
       Inl e \<Rightarrow> brelse_links b l s = Inl e
     | Inr t \<Rightarrow> \<exists>l1. brelse_links b l s = Inr (l1, t\<lparr>lru := lru s\<rparr>) \<and> dll (lru t) l1"
    using assms by (simp add: brelse_def brelse_links_def Let_def set_buf_def move_front_dll)
qed

lemma lru_links_witness:
  "\<exists>l1 t. brelse_links 5 (binit_links \<lparr>l_prev = id, l_next = id\<rparr>)
       (set_buf 5 (\<lambda>bf. bf\<lparr>b_lock := \<lparr>sl_locked = True, sl_pid = 1\<rparr>, b_refcnt := 1\<rparr>) (boot_bio (\<lambda>_ _. zero_block))) =
     Inr (l1, t) \<and> dll (5 # remove1 5 (rev [0..<NBUF])) l1"
proof -
  let ?s = "set_buf 5 (\<lambda>bf. bf\<lparr>b_lock := \<lparr>sl_locked = True, sl_pid = 1\<rparr>, b_refcnt := 1\<rparr>)
    (boot_bio (\<lambda>_ _. zero_block))"
  let ?l = "binit_links \<lparr>l_prev = id, l_next = id\<rparr>"
  have r: "lru ?s = rev [0..<NBUF]"
    by (simp add: set_buf_def boot_bio_def binit_def fold_Cons)
  have "dll (lru ?s) ?l"
    using binit_links_dll [of _ "\<lparr>l_prev = id, l_next = id\<rparr>"] by (simp add: set_buf_def boot_bio_def)
  moreover have "5 \<in> set (lru ?s)" unfolding r by (simp add: NBUF_def)
  ultimately have c: "case brelse 5 ?s of
       Inl e \<Rightarrow> brelse_links 5 ?l ?s = Inl e
     | Inr t \<Rightarrow> \<exists>l1. brelse_links 5 ?l ?s = Inr (l1, t\<lparr>lru := lru ?s\<rparr>) \<and> dll (lru t) l1"
    using lru_links [of ?s ?l 5] by blast
  have "holdingsleep (mypid ?s) (b_lock (bufs ?s 5))" "b_refcnt (bufs ?s 5) = 1"
    by (simp_all add: set_buf_def holdingsleep_def boot_bio_def binit_def)
  then obtain t where "brelse 5 ?s = Inr t" "lru t = 5 # remove1 5 (lru ?s)"
    by (simp add: brelse_def Let_def set_buf_def)
  with c r show ?thesis by auto
qed

end
