(* ===== verification/Fs_Layout.thy ===== *)
theory Fs_Layout
  imports Bio
begin

text \<open>
  The on-disk format of the xv6 file system, \<open>src/fs.h\<close>: the super block, the disk inode and the
  directory entry at their byte offsets, with the round trips between a structure and its bytes;
  and \<open>xv6fs_readsb\<close> of \<open>src/fs.c\<close>, which both the log and the file system use.
\<close>

section \<open>Constants\<close>

definition ROOTINO :: nat where "ROOTINO = 1"
definition EXT2INO :: nat where "EXT2INO = 2"
definition NDIRECT :: nat where "NDIRECT = 12"
definition NINDIRECT :: nat where "NINDIRECT = BSIZE div 4"
definition MAXFILE :: nat where "MAXFILE = NDIRECT + NINDIRECT"
definition IPB :: nat where "IPB = BSIZE div 64"
definition BPB :: nat where "BPB = BSIZE * 8"
definition DIRSIZ :: nat where "DIRSIZ = 14"
definition T_DIR :: int where "T_DIR = 1"
definition T_FILE :: int where "T_FILE = 2"
definition T_DEV :: int where "T_DEV = 3"

lemmas fs_consts = ide_consts ROOTINO_def EXT2INO_def NDIRECT_def NINDIRECT_def MAXFILE_def IPB_def
  BPB_def DIRSIZ_def T_DIR_def T_FILE_def T_DEV_def

section \<open>The super block\<close>

record superblock =
  sb_size :: nat
  sb_nblocks :: nat
  sb_ninodes :: nat
  sb_nlog :: nat
  sb_logstart :: nat
  sb_inodestart :: nat
  sb_bmapstart :: nat

definition sb_of :: "block \<Rightarrow> superblock" where
  "sb_of d = \<lparr>sb_size = get32 d 0, sb_nblocks = get32 d 4, sb_ninodes = get32 d 8,
     sb_nlog = get32 d 12, sb_logstart = get32 d 16, sb_inodestart = get32 d 20,
     sb_bmapstart = get32 d 24\<rparr>"

definition xv6fs_readsb :: "nat \<Rightarrow> 'z bio_scheme \<Rightarrow> (superblock \<times> 'z bio_scheme) res" where
  "xv6fs_readsb dev s =
     rbind (bread dev 1 s) (\<lambda>(bp, s1).
       rbind (brelse bp s1) (\<lambda>s2. Inr (sb_of (b_data (bufs s1 bp)), s2)))"

definition IBLOCK :: "nat \<Rightarrow> superblock \<Rightarrow> nat" where
  "IBLOCK i sb = uadd (i div IPB) (sb_inodestart sb)"

definition BBLOCK :: "nat \<Rightarrow> superblock \<Rightarrow> nat" where
  "BBLOCK b sb = uadd (b div BPB) (sb_bmapstart sb)"

section \<open>Disk inodes\<close>

record dinode =
  d_type :: int
  d_major :: int
  d_minor :: int
  d_nlink :: int
  d_size :: nat
  d_addrs :: "nat \<Rightarrow> nat"

definition dinode_of :: "block \<Rightarrow> nat \<Rightarrow> dinode" where
  "dinode_of d off =
     \<lparr>d_type = sint16 (get16 d off), d_major = sint16 (get16 d (off + 2)),
      d_minor = sint16 (get16 d (off + 4)), d_nlink = sint16 (get16 d (off + 6)),
      d_size = get32 d (off + 8), d_addrs = (\<lambda>i. get32 d (off + 12 + 4 * i))\<rparr>"

definition put_addrs :: "block \<Rightarrow> nat \<Rightarrow> (nat \<Rightarrow> nat) \<Rightarrow> nat \<Rightarrow> block" where
  "put_addrs d off a n = fold (\<lambda>i d. put32 d (off + 4 * i) (a i)) [0..<n] d"

definition put_dinode :: "block \<Rightarrow> nat \<Rightarrow> dinode \<Rightarrow> block" where
  "put_dinode d off di =
     put_addrs
       (put32 (put16 (put16 (put16 (put16 d off (pat16 (d_type di)))
          (off + 2) (pat16 (d_major di))) (off + 4) (pat16 (d_minor di)))
          (off + 6) (pat16 (d_nlink di))) (off + 8) (d_size di))
       (off + 12) (d_addrs di) (NDIRECT + 1)"

lemma get32_put_addrs:
  assumes "\<And>i. i < n \<Longrightarrow> a i < 2 ^ 32" and "i < n"
  shows "get32 (put_addrs d off a n) (off + 4 * i) = a i"
  using assms
proof (induction n)
  case (Suc n)
  have e: "put_addrs d off a (Suc n) = put32 (put_addrs d off a n) (off + 4 * n) (a n)"
    by (simp add: put_addrs_def)
  show ?case
  proof (cases "i = n")
    case True
    then show ?thesis using Suc.prems(1) [of n] unfolding e by simp
  next
    case False
    then have "i < n" using Suc.prems(2) by simp
    then show ?thesis using Suc unfolding e by (subst get32_put32_other) auto
  qed
qed simp

lemma put_addrs_out: "i < off \<or> off + 4 * n \<le> i \<Longrightarrow> put_addrs d off a n i = d i"
proof (induction n)
  case (Suc n)
  have "put_addrs d off a (Suc n) = put32 (put_addrs d off a n) (off + 4 * n) (a n)"
    by (simp add: put_addrs_def)
  then show ?case using Suc by (auto simp: put32_out)
qed (simp add: put_addrs_def)

lemma get32_put_addrs_other:
  "off' + 4 \<le> off \<or> off + 4 * n \<le> off' \<Longrightarrow> get32 (put_addrs d off a n) off' = get32 d off'"
  by (auto simp: get32_def put_addrs_out)

lemma get16_put_addrs_other:
  "off' + 2 \<le> off \<or> off + 4 * n \<le> off' \<Longrightarrow> get16 (put_addrs d off a n) off' = get16 d off'"
  by (auto simp: get16_def put_addrs_out)

text \<open>The values a \<open>struct dinode\<close> can hold.\<close>

definition dinode_wf :: "dinode \<Rightarrow> bool" where
  "dinode_wf di \<longleftrightarrow> (\<forall>x \<in> {d_type di, d_major di, d_minor di, d_nlink di}. - (2 ^ 15) \<le> x \<and> x < 2 ^ 15) \<and>
     d_size di < 2 ^ 32 \<and> (\<forall>i < NDIRECT + 1. d_addrs di i < 2 ^ 32)"

definition dinode_eq :: "dinode \<Rightarrow> dinode \<Rightarrow> bool" where
  "dinode_eq x y \<longleftrightarrow> d_type x = d_type y \<and> d_major x = d_major y \<and> d_minor x = d_minor y \<and>
     d_nlink x = d_nlink y \<and> d_size x = d_size y \<and> (\<forall>i < NDIRECT + 1. d_addrs x i = d_addrs y i)"

lemma dinode_roundtrip: "dinode_wf di \<Longrightarrow> dinode_eq (dinode_of (put_dinode d off di) off) di"
  by (auto simp: dinode_eq_def dinode_of_def put_dinode_def dinode_wf_def get32_put_addrs
      get32_put_addrs_other get16_put_addrs_other le_simps sint16_pat16)

lemma put_dinode_out: "i < off \<or> off + 64 \<le> i \<Longrightarrow> put_dinode d off di i = d i"
  by (auto simp: put_dinode_def put_addrs_out put32_out put16_out fs_consts)

lemma dinode_of_put_other:
  assumes "off + 64 \<le> off' \<or> off' + 64 \<le> off"
  shows "dinode_eq (dinode_of (put_dinode d off di) off') (dinode_of d off')"
  using assms
  by (auto simp: dinode_eq_def dinode_of_def get16_def get32_def put_dinode_out fs_consts)

section \<open>Directory entries\<close>

record dirent =
  de_inum :: nat
  de_name :: "nat \<Rightarrow> byte"

definition dirent_of :: "(nat \<Rightarrow> byte) \<Rightarrow> dirent" where
  "dirent_of d = \<lparr>de_inum = get16 d 0, de_name = (\<lambda>i. d (2 + i))\<rparr>"

definition put_dirent :: "dirent \<Rightarrow> (nat \<Rightarrow> byte)" where
  "put_dirent de = put_bytes (put16 zero_block 0 (de_inum de)) 2 (de_name de) DIRSIZ"

lemma dirent_roundtrip:
  assumes "de_inum de < 65536"
  shows "de_inum (dirent_of (put_dirent de)) = de_inum de"
    and "i < DIRSIZ \<Longrightarrow> de_name (dirent_of (put_dirent de)) i = de_name de i"
proof -
  have "get16 (put_dirent de) 0 = get16 (put16 zero_block 0 (de_inum de)) 0"
    by (simp add: put_dirent_def get16_def put_bytes_def)
  then show "de_inum (dirent_of (put_dirent de)) = de_inum de"
    using assms by (simp add: dirent_of_def)
  show "i < DIRSIZ \<Longrightarrow> de_name (dirent_of (put_dirent de)) i = de_name de i"
    by (simp add: dirent_of_def put_dirent_def put_bytes_def)
qed

end
