(* ===== verification/Log.thy ===== *)
theory Log
  imports Fs_Layout
begin

text \<open>
  The write-ahead log, \<open>src/log.c\<close>: a transaction pins the blocks it changes in the cache and
  records their numbers; \<open>commit\<close> copies them to the log, writes the header (the commit point),
  installs them at their homes and erases the header. The state extends the cache with
  \<open>struct log\<close>. The main result is that a crash after any number of the block writes of
  \<open>commit\<close> leaves a disk from which \<open>initlog\<close> recovers either the old contents or the new.
\<close>

section \<open>State and operations\<close>

definition MAXOPBLOCKS :: nat where "MAXOPBLOCKS = 10"
definition LOGSIZE :: nat where "LOGSIZE = MAXOPBLOCKS * 3"

lemmas log_consts = fs_consts MAXOPBLOCKS_def LOGSIZE_def NBUF_def

record logst = bio +
  log_start :: nat
  log_size :: nat
  log_outstanding :: int
  log_committing :: bool
  log_dev :: nat
  lh_n :: int
  lh_block :: "nat \<Rightarrow> nat"

definition install_one :: "nat \<Rightarrow> 'z logst_scheme \<Rightarrow> 'z logst_scheme res" where
  "install_one tail s =
     rbind (bread (log_dev s) (log_start s + tail + 1) s) (\<lambda>(lbuf, s1).
     rbind (bread (log_dev s) (lh_block s tail) s1) (\<lambda>(dbuf, s2).
     rbind (bwrite dbuf (set_data dbuf (b_data (bufs s2 lbuf)) s2)) (\<lambda>s3.
     rbind (brelse lbuf s3) (brelse dbuf))))"

definition install_trans :: "'z logst_scheme \<Rightarrow> 'z logst_scheme res" where
  "install_trans s = rfor [0..<nat (lh_n s)] install_one s"

definition read_head :: "'z logst_scheme \<Rightarrow> 'z logst_scheme res" where
  "read_head s =
     rbind (bread (log_dev s) (log_start s) s) (\<lambda>(buf, s1).
       let lh = b_data (bufs s1 buf); n = sint32 (get32 lh 0) in
       if n > int LOGSIZE then Inl (Undef ''log.lh.block'')
       else brelse buf (s1\<lparr>lh_n := n,
              lh_block := (\<lambda>i. if i < nat n then get32 lh (4 + 4 * i) else lh_block s1 i)\<rparr>))"

definition head_bytes :: "int \<Rightarrow> (nat \<Rightarrow> nat) \<Rightarrow> block \<Rightarrow> block" where
  "head_bytes n blocks d = put_addrs (put32 d 0 (pat32 n)) 4 blocks (nat n)"

definition write_head :: "'z logst_scheme \<Rightarrow> 'z logst_scheme res" where
  "write_head s =
     rbind (bread (log_dev s) (log_start s) s) (\<lambda>(buf, s1).
     rbind (bwrite buf (set_data buf (head_bytes (lh_n s) (lh_block s) (b_data (bufs s1 buf))) s1))
       (\<lambda>s2. rbind (brelse buf s2) Inr))"

definition recover_from_log :: "'z logst_scheme \<Rightarrow> 'z logst_scheme res" where
  "recover_from_log s =
     rbind (read_head s) (\<lambda>s1. rbind (install_trans s1) (\<lambda>s2. write_head (s2\<lparr>lh_n := 0\<rparr>)))"

definition initlog :: "nat \<Rightarrow> 'z logst_scheme \<Rightarrow> 'z logst_scheme res" where
  "initlog dev s =
     (if 4 + 4 * LOGSIZE \<ge> BSIZE then Inl (Panic ''initlog: too big logheader'')
      else rbind (xv6fs_readsb dev s) (\<lambda>(sb, s1).
        recover_from_log (s1\<lparr>log_start := sb_logstart sb, log_size := sb_nlog sb, log_dev := dev\<rparr>)))"

definition begin_op :: "'z logst_scheme \<Rightarrow> 'z logst_scheme res" where
  "begin_op s =
     (if log_committing s then Inl (Sleeps ''log'')
      else if lh_n s + (log_outstanding s + 1) * int MAXOPBLOCKS > int LOGSIZE then Inl (Sleeps ''log'')
      else Inr (s\<lparr>log_outstanding := log_outstanding s + 1\<rparr>))"

definition write_log_one :: "nat \<Rightarrow> 'z logst_scheme \<Rightarrow> 'z logst_scheme res" where
  "write_log_one tail s =
     rbind (bread (log_dev s) (log_start s + tail + 1) s) (\<lambda>(to, s1).
     rbind (bread (log_dev s) (lh_block s tail) s1) (\<lambda>(from, s2).
     rbind (bwrite to (set_data to (b_data (bufs s2 from)) s2)) (\<lambda>s3.
     rbind (brelse from s3) (brelse to))))"

definition write_log :: "'z logst_scheme \<Rightarrow> 'z logst_scheme res" where
  "write_log s = rfor [0..<nat (lh_n s)] write_log_one s"

definition commit :: "'z logst_scheme \<Rightarrow> 'z logst_scheme res" where
  "commit s =
     (if lh_n s > 0 then
        rbind (write_log s) (\<lambda>s1. rbind (write_head s1) (\<lambda>s2. rbind (install_trans s2) (\<lambda>s3.
          write_head (s3\<lparr>lh_n := 0\<rparr>))))
      else Inr s)"

definition end_op :: "'z logst_scheme \<Rightarrow> 'z logst_scheme res" where
  "end_op s =
     (let s1 = s\<lparr>log_outstanding := log_outstanding s - 1\<rparr> in
      if log_committing s1 then Inl (Panic ''log.committing'')
      else if log_outstanding s1 = 0 then
        rbind (commit (s1\<lparr>log_committing := True\<rparr>)) (\<lambda>s2. Inr (s2\<lparr>log_committing := False\<rparr>))
      else Inr s1)"

definition log_slot :: "nat \<Rightarrow> 'z logst_scheme \<Rightarrow> nat" where
  "log_slot blockno s =
     (case find (\<lambda>i. lh_block s i = blockno) [0..<nat (lh_n s)] of Some i \<Rightarrow> i | None \<Rightarrow> nat (lh_n s))"

definition log_write :: "nat \<Rightarrow> 'z logst_scheme \<Rightarrow> 'z logst_scheme res" where
  "log_write b s =
     (if lh_n s \<ge> int LOGSIZE \<or> lh_n s \<ge> int (log_size s) - 1
        then Inl (Panic ''too big a transaction'')
      else if log_outstanding s < 1 then Inl (Panic ''log_write outside of trans'')
      else
        let i = log_slot (b_blockno (bufs s b)) s;
            s1 = s\<lparr>lh_block := (lh_block s)(i := b_blockno (bufs s b)),
                   lh_n := (if int i = lh_n s then lh_n s + 1 else lh_n s)\<rparr>
        in Inr (set_dirty b s1))"

section \<open>Log fields and the cache\<close>

lemma frame_log:
  assumes "frame B s t"
  shows "log_start t = log_start s" "log_size t = log_size s" "log_outstanding t = log_outstanding s"
    "log_committing t = log_committing s" "log_dev t = log_dev s" "lh_n t = lh_n s"
    "lh_block t = lh_block s" "logst.more t = logst.more s"
  using assms by (cases s; cases t; simp add: frame_def)+

lemma same_io_log:
  "same_io s (s\<lparr>lh_n := n\<rparr>)" "same_io s (s\<lparr>lh_n := n, lh_block := f\<rparr>)"
  "same_io s (s\<lparr>lh_block := f, lh_n := n\<rparr>)"
  "same_io s (s\<lparr>log_outstanding := m\<rparr>)" "same_io s (s\<lparr>log_committing := c\<rparr>)"
  "same_io s (s\<lparr>log_start := p, log_size := q, log_dev := r\<rparr>)"
  by (simp_all add: same_io_def bio.truncate_def)

lemma frame_lh_n: "frame B s t \<Longrightarrow> frame B (s\<lparr>lh_n := n\<rparr>) (t\<lparr>lh_n := n\<rparr>)"
  by (cases s; cases t) (simp add: frame_def)

section \<open>Sequences of block writes\<close>

definition replay :: "(nat \<Rightarrow> nat \<Rightarrow> block) \<Rightarrow> (nat \<times> nat \<times> block) list \<Rightarrow> (nat \<Rightarrow> nat \<Rightarrow> block)" where
  "replay D ws = fold (\<lambda>(d, n, x) D. D(d := (D d)(n := x))) ws D"

definition sectors :: "nat \<times> nat \<times> block \<Rightarrow> nat \<times> nat \<times> block" where
  "sectors w = (fst w, 2 * fst (snd w), snd (snd w))"

lemma replay_Nil [simp]: "replay D [] = D"
  by (simp add: replay_def)

lemma replay_snoc: "replay D (ws @ [(d, n, x)]) =
    (replay D ws)(d := (replay D ws d)(n := x))"
  by (simp add: replay_def)

lemma replay_append: "replay D (ws @ vs) = replay (replay D ws) vs"
  by (simp add: replay_def)

lemma replay_other:
  assumes "\<And>d' n' x. (d', n', x) \<in> set ws \<Longrightarrow> (d', n') \<noteq> (d, n)"
  shows "replay D ws d n = D d n"
  using assms
proof (induction ws rule: rev_induct)
  case (snoc w ws)
  obtain d' n' x where w: "w = (d', n', x)" by (cases w) auto
  have "(d', n') \<noteq> (d, n)" using snoc.prems w by auto
  moreover have "replay D ws d n = D d n" using snoc by auto
  ultimately show ?case by (auto simp: w replay_snoc)
qed simp

lemma replay_value:
  assumes "\<And>x'. (d, n, x') \<in> set ws \<Longrightarrow> x' = x" and "(d, n, x) \<in> set ws"
  shows "replay D ws d n = x"
  using assms
proof (induction ws rule: rev_induct)
  case (snoc w ws)
  obtain d' n' x' where w: "w = (d', n', x')" by (cases w) auto
  show ?case
  proof (cases "(d', n') = (d, n)")
    case True
    then have "x' = x" by (intro snoc.prems(1)) (simp add: w)
    with True show ?thesis by (simp add: w replay_snoc)
  next
    case False
    have "replay D ws d n = x"
    proof (rule snoc.IH)
      show "x' = x" if "(d, n, x') \<in> set ws" for x'
        by (rule snoc.prems(1)) (simp add: that)
      show "(d, n, x) \<in> set ws" using snoc.prems(2) False by (auto simp: w)
    qed
    moreover have "replay D (ws @ [w]) d n = replay D ws d n"
      using False by (auto simp: w replay_snoc)
    ultimately show ?thesis by simp
  qed
qed simp

lemma replay_sectors:
  "replay D (map sectors ws) d (2 * n) = replay (\<lambda>d n. D d (2 * n)) ws d n"
proof (induction ws arbitrary: d n rule: rev_induct)
  case (snoc w ws)
  then show ?case by (cases w) (auto simp: sectors_def replay_snoc)
qed simp

section \<open>Well-formed transactions\<close>

text \<open>
  \<open>log_wf\<close>: the log region lies on the root disk, its size is at most \<open>LOGSIZE\<close> (as \<open>mkfs\<close>
  makes it), and the recorded blocks are distinct home blocks outside the region. \<open>log_inv H\<close>:
  exactly the recorded blocks are pinned in the cache and the header on the disk is empty, while
  the process holds the buffers \<open>H\<close>; \<open>txn\<close> is the state in which \<open>end_op\<close> commits.
\<close>

definition log_region :: "'z logst_scheme \<Rightarrow> nat set" where
  "log_region s = {log_start s..<log_start s + log_size s}"

definition log_wf :: "'z logst_scheme \<Rightarrow> bool" where
  "log_wf s \<longleftrightarrow> log_dev s = ROOTDEV \<and> 1 < log_start s \<and> log_size s \<le> LOGSIZE \<and>
     log_start s + log_size s \<le> FSSIZE \<and> 0 \<le> lh_n s \<and> lh_n s < int (log_size s) \<and>
     inj_on (lh_block s) {..<nat (lh_n s)} \<and>
     (\<forall>i < nat (lh_n s). lh_block s i < FSSIZE \<and> lh_block s i \<notin> log_region s)"

definition logged :: "'z logst_scheme \<Rightarrow> (nat \<times> nat) set" where
  "logged s = (\<lambda>i. (ROOTDEV, lh_block s i)) ` {..<nat (lh_n s)}"

definition log_inv :: "nat set \<Rightarrow> 'z logst_scheme \<Rightarrow> bool" where
  "log_inv H s \<longleftrightarrow> bc_ok H s \<and> log_wf s \<and> pins s = logged s \<and>
     get32 (dblk s ROOTDEV (log_start s)) 0 = 0"

abbreviation txn :: "'z logst_scheme \<Rightarrow> bool" where
  "txn s \<equiv> log_inv {} s"

lemma log_wf_ok:
  assumes "log_wf s" and "i < nat (lh_n s)"
  shows "blk_ok (log_dev s) (log_start s + i + 1)" "blk_ok (log_dev s) (lh_block s i)"
    "log_start s + i + 1 \<noteq> lh_block s i" "log_start s + i + 1 \<in> log_region s"
    "lh_block s i \<notin> log_region s"
proof -
  from assms have "int i < lh_n s" "lh_n s < int (log_size s)" by (auto simp: log_wf_def)
  then have i: "log_start s + i + 1 < log_start s + log_size s" by linarith
  then show r: "log_start s + i + 1 \<in> log_region s" by (simp add: log_region_def)
  show b: "lh_block s i \<notin> log_region s" using assms by (simp add: log_wf_def)
  with r show "log_start s + i + 1 \<noteq> lh_block s i" by metis
  show "blk_ok (log_dev s) (log_start s + i + 1)" "blk_ok (log_dev s) (lh_block s i)"
    using assms i by (auto simp: log_wf_def blk_ok_def)
qed

lemma log_wf_cong:
  assumes "log_start t = log_start s" "log_size t = log_size s" "log_dev t = log_dev s"
    "lh_n t = lh_n s" "lh_block t = lh_block s"
  shows "log_wf t = log_wf s" "log_region t = log_region s" "logged t = logged s"
  using assms by (simp_all add: log_wf_def log_region_def logged_def)

lemma log_wf_header: "log_wf s \<Longrightarrow> blk_ok (log_dev s) (log_start s)"
  by (auto simp: log_wf_def blk_ok_def)

lemma log_wf_room: "log_wf s \<Longrightarrow> nat (lh_n s) < NBUF"
  by (auto simp: log_wf_def log_consts nat_less_iff)

lemma card_logged: "log_wf s \<Longrightarrow> card (logged s) = nat (lh_n s)"
  unfolding logged_def
  by (subst card_image) (auto simp: log_wf_def inj_on_def)

definition log_writes :: "'z logst_scheme \<Rightarrow> (nat \<times> nat \<times> block) list" where
  "log_writes s = map (\<lambda>i. (ROOTDEV, log_start s + i + 1, view s ROOTDEV (lh_block s i)))
     [0..<nat (lh_n s)]"

definition home_writes :: "'z logst_scheme \<Rightarrow> (nat \<times> nat \<times> block) list" where
  "home_writes s = map (\<lambda>i. (ROOTDEV, lh_block s i, view s ROOTDEV (log_start s + i + 1)))
     [0..<nat (lh_n s)]"

lemma take_log_writes: "i \<le> nat (lh_n s) \<Longrightarrow> take i (log_writes s) =
    map (\<lambda>i. (ROOTDEV, log_start s + i + 1, view s ROOTDEV (lh_block s i))) [0..<i]"
  by (simp add: log_writes_def take_map)

lemma take_home_writes: "i \<le> nat (lh_n s) \<Longrightarrow> take i (home_writes s) =
    map (\<lambda>i. (ROOTDEV, lh_block s i, view s ROOTDEV (log_start s + i + 1))) [0..<i]"
  by (simp add: home_writes_def take_map)

section \<open>The phases of a commit\<close>

definition after_writes :: "'z logst_scheme \<Rightarrow> (nat \<times> nat \<times> block) list \<Rightarrow> 'z logst_scheme \<Rightarrow> bool" where
  "after_writes s ws t \<longleftrightarrow> bc_ok {} t \<and> (\<exists>B. frame B s t) \<and> view t = replay (view s) ws \<and>
     dblk t = replay (dblk s) ws \<and> dtrace t = dtrace s @ map sectors ws"

lemma after_writes_refl: "bc_ok {} s \<Longrightarrow> after_writes s [] s"
  by (auto simp: after_writes_def intro: frame_refl)

lemma after_writes_step:
  assumes "after_writes s ws t" and "bc_ok {} u" and "frame B t u"
    and "view u = (view t)(d := (view t d)(n := x))" and "dblk u = (dblk t)(d := (dblk t d)(n := x))"
    and "dtrace u = dtrace t @ [(d, 2 * n, x)]"
  shows "after_writes s (ws @ [(d, n, x)]) u"
proof -
  have "\<exists>B. frame B s u"
    using assms(1,3) frame_trans unfolding after_writes_def by blast
  then show ?thesis
    using assms by (simp add: after_writes_def replay_snoc sectors_def)
qed

lemma after_writes_log:
  assumes "after_writes s ws t"
  shows "log_start t = log_start s" "log_size t = log_size s" "log_dev t = log_dev s"
    "lh_n t = lh_n s" "lh_block t = lh_block s" "log_wf t = log_wf s" "logged t = logged s"
    "log_region t = log_region s"
proof -
  obtain B where "frame B s t" using assms by (auto simp: after_writes_def)
  note f = frame_log [OF this]
  show "log_start t = log_start s" "log_size t = log_size s" "log_dev t = log_dev s"
    "lh_n t = lh_n s" "lh_block t = lh_block s" "log_wf t = log_wf s" "logged t = logged s"
    "log_region t = log_region s"
    using log_wf_cong [of t s] f by simp_all
qed

lemma write_log_ok:
  assumes ok: "bc_ok {} s" and wf: "log_wf s" and pins: "pins s = logged s"
  obtains t where "write_log s = Inr t" "after_writes s (log_writes s) t" "pins t = pins s"
proof -
  let ?n = "nat (lh_n s)"
  let ?P = "\<lambda>i t. after_writes s (take i (log_writes s)) t \<and> pins t = pins s"
  have "\<exists>t. rfor [0..<?n] write_log_one s = Inr t \<and> ?P ?n t"
  proof (rule rfor_total)
    show "?P 0 s" using ok by (simp add: after_writes_refl)
  next
    fix i t assume i: "i < ?n" and P: "?P i t"
    note f = after_writes_log [OF conjunct1 [OF P]]
    note w = log_wf_ok [OF wf i]
    have dev: "log_dev s = ROOTDEV" using wf by (simp add: log_wf_def)
    have okt: "bc_ok {} t" using P by (simp add: after_writes_def)
    have card: "card (pins t) < NBUF"
      using P card_logged [OF wf] log_wf_room [OF wf] by (simp add: pins)
    have pin: "(ROOTDEV, lh_block s i) \<in> pins t" using P i by (auto simp: pins logged_def)
    have v: "view t ROOTDEV (lh_block s i) = view s ROOTDEV (lh_block s i)"
      using P i w(5) log_wf_ok(4) [OF wf]
      by (auto simp: after_writes_def take_log_writes intro!: replay_other)
    from w(1,2) have w': "blk_ok ROOTDEV (log_start s + i + 1)" "blk_ok ROOTDEV (lh_block s i)"
      by (simp_all add: dev)
    obtain B u where u: "bc_ok {} u" "frame B t u" "pins u = pins t - {(ROOTDEV, log_start s + i + 1)}"
      "view u = (view t)(ROOTDEV := (view t ROOTDEV)(log_start s + i + 1 := view t ROOTDEV (lh_block s i)))"
      "dblk u = (dblk t)(ROOTDEV := (dblk t ROOTDEV)(log_start s + i + 1 := view t ROOTDEV (lh_block s i)))"
      "dtrace u = dtrace t @ [(ROOTDEV, 2 * (log_start s + i + 1), view t ROOTDEV (lh_block s i))]"
      "write_log_one i t = Inr u"
      by (rule bc.copy_to_first [OF okt w' w(3) card disjI1 [OF pin]])
        (simp add: write_log_one_def f dev)
    have np: "(ROOTDEV, log_start s + i + 1) \<notin> pins t"
      using P log_wf_ok(5) [OF wf] w(4) by (auto simp: pins logged_def)
    have "after_writes s (take i (log_writes s) @
        [(ROOTDEV, log_start s + i + 1, view s ROOTDEV (lh_block s i))]) u"
      using after_writes_step [OF conjunct1 [OF P] u(1,2,4,5,6)] v by simp
    moreover have "take (Suc i) (log_writes s) = take i (log_writes s) @
        [(ROOTDEV, log_start s + i + 1, view s ROOTDEV (lh_block s i))]"
      using i by (simp add: take_log_writes)
    ultimately show "\<exists>u. write_log_one i t = Inr u \<and> ?P (Suc i) u"
      using u np P by (intro exI [of _ u]) simp
  qed
  moreover have "take ?n (log_writes s) = log_writes s" by (simp add: log_writes_def)
  ultimately show thesis using that by (auto simp: write_log_def)
qed

lemma install_trans_ok:
  assumes ok: "bc_ok {} s" and wf: "log_wf s" and room: "card (pins s) < NBUF"
    and pins: "logged s \<subseteq> pins s \<or> 1 + card (pins s) < NBUF"
  obtains t where "install_trans s = Inr t" "after_writes s (home_writes s) t"
    "pins t = pins s - logged s"
proof -
  let ?n = "nat (lh_n s)" and ?k = "\<lambda>i. (ROOTDEV, lh_block s i)"
  let ?P = "\<lambda>i t. after_writes s (take i (home_writes s)) t \<and> pins t = pins s - ?k ` {..<i}"
  have "\<exists>t. rfor [0..<?n] install_one s = Inr t \<and> ?P ?n t"
  proof (rule rfor_total)
    show "?P 0 s" using ok by (simp add: after_writes_refl)
  next
    fix i t assume i: "i < ?n" and P: "?P i t"
    note f = after_writes_log [OF conjunct1 [OF P]]
    note w = log_wf_ok [OF wf i]
    have dev: "log_dev s = ROOTDEV" using wf by (simp add: log_wf_def)
    have okt: "bc_ok {} t" using P by (simp add: after_writes_def)
    have le: "card (pins t) \<le> card (pins s)"
      using P by (simp add: bc.pins_finite card_mono)
    have pin: "?k i \<in> pins t \<or> 1 + card (pins t) < NBUF"
    proof (cases "logged s \<subseteq> pins s")
      case True
      have inj: "inj_on (lh_block s) {..<?n}" using wf by (simp add: log_wf_def)
      have "lh_block s i \<noteq> lh_block s j" if "j < i" for j
        using inj_onD [OF inj, of i j] i that by auto
      then have "?k i \<notin> ?k ` {..<i}" by auto
      moreover have "?k i \<in> pins s" using True i by (auto simp: logged_def)
      ultimately show ?thesis using P by simp
    qed (use pins le in simp)
    have v: "view t ROOTDEV (log_start s + i + 1) = view s ROOTDEV (log_start s + i + 1)"
      using P i w(4) log_wf_ok(5) [OF wf]
      by (auto simp: after_writes_def take_home_writes intro!: replay_other)
    from w(1,2) have w': "blk_ok ROOTDEV (log_start s + i + 1)" "blk_ok ROOTDEV (lh_block s i)"
      by (simp_all add: dev)
    obtain B u where u: "bc_ok {} u" "frame B t u" "pins u = pins t - {(ROOTDEV, lh_block s i)}"
      "view u = (view t)(ROOTDEV := (view t ROOTDEV)(lh_block s i := view t ROOTDEV (log_start s + i + 1)))"
      "dblk u = (dblk t)(ROOTDEV := (dblk t ROOTDEV)(lh_block s i := view t ROOTDEV (log_start s + i + 1)))"
      "dtrace u = dtrace t @ [(ROOTDEV, 2 * lh_block s i, view t ROOTDEV (log_start s + i + 1))]"
      "install_one i t = Inr u"
      by (rule bc.copy_to_second [OF okt w' w(3) order.strict_trans1 [OF le room] pin])
        (simp add: install_one_def f dev)
    have "after_writes s (take i (home_writes s) @
        [(ROOTDEV, lh_block s i, view s ROOTDEV (log_start s + i + 1))]) u"
      using after_writes_step [OF conjunct1 [OF P] u(1,2,4,5,6)] v by simp
    moreover have "take (Suc i) (home_writes s) = take i (home_writes s) @
        [(ROOTDEV, lh_block s i, view s ROOTDEV (log_start s + i + 1))]"
      using i by (simp add: take_home_writes)
    moreover have "pins u = pins s - ?k ` {..<Suc i}"
      using u(3) P by (auto simp: lessThan_Suc)
    ultimately show "\<exists>u. install_one i t = Inr u \<and> ?P (Suc i) u"
      using u by (intro exI [of _ u]) simp
  qed
  moreover have "take ?n (home_writes s) = home_writes s" by (simp add: home_writes_def)
  ultimately show thesis using that by (auto simp: install_trans_def logged_def)
qed

definition head_of :: "'z logst_scheme \<Rightarrow> (nat \<times> nat \<times> block)" where
  "head_of s = (ROOTDEV, log_start s,
     head_bytes (lh_n s) (lh_block s) (view s ROOTDEV (log_start s)))"

lemma write_head_ok:
  assumes ok: "bc_ok {} s" and dev: "log_dev s = ROOTDEV" and blk: "blk_ok ROOTDEV (log_start s)"
    and room: "card (pins s) < NBUF"
  obtains t where "write_head s = Inr t" "after_writes s [head_of s] t"
    "pins t = pins s - {(ROOTDEV, log_start s)}"
proof -
  have c: "cached s ROOTDEV (log_start s) \<or> card ({} :: nat set) + card (pins s) < NBUF"
    using room by simp
  obtain b t where t: "frame {b} s t" "bc_ok {} t"
    "view t = (view s)(ROOTDEV := (view s ROOTDEV)(log_start s :=
       head_bytes (lh_n s) (lh_block s) (view s ROOTDEV (log_start s))))"
    "dblk t = (dblk s)(ROOTDEV := (dblk s ROOTDEV)(log_start s :=
       head_bytes (lh_n s) (lh_block s) (view s ROOTDEV (log_start s))))"
    "dtrace t = dtrace s @ [(ROOTDEV, 2 * log_start s,
       head_bytes (lh_n s) (lh_block s) (view s ROOTDEV (log_start s)))]"
    "pins t = pins s - {(ROOTDEV, log_start s)}"
    "\<And>k. rbind (bread ROOTDEV (log_start s) s) (\<lambda>(b, s1). rbind (bwrite b (set_data b
       (head_bytes (lh_n s) (lh_block s) (b_data (bufs s1 b))) s1)) (\<lambda>s2. rbind (brelse b s2) k)) =
       (k t :: 'a logst_scheme res)"
    by (rule bc.write_block [OF ok blk _ c, where f = "head_bytes (lh_n s) (lh_block s)"])
      (simp, rule that)
  have "write_head s = Inr t" unfolding write_head_def dev by (rule t(7))
  moreover have "after_writes s [head_of s] t"
    using after_writes_step [OF after_writes_refl [OF ok] t(2,1,3,4,5)] by (simp add: head_of_def)
  ultimately show thesis using that t(6) by blast
qed

text \<open>The header block decodes to the transaction that was written.\<close>

lemma head_bytes_n: "0 \<le> n \<Longrightarrow> n \<le> int LOGSIZE \<Longrightarrow> sint32 (get32 (head_bytes n f d) 0) = n"
  by (simp add: head_bytes_def get32_put_addrs_other get32_put32 pat32_lt sint32_pat32 log_consts)

lemma head_bytes_0: "get32 (head_bytes 0 f d) 0 = 0"
  by (simp add: head_bytes_def get32_put_addrs_other get32_put32 pat32_def)

lemma head_bytes_block:
  assumes "\<And>i. i < nat n \<Longrightarrow> f i < 2 ^ 32" and "i < nat n"
  shows "get32 (head_bytes n f d) (4 + 4 * i) = f i"
  unfolding head_bytes_def using assms by (intro get32_put_addrs) auto

lemma after_writes_same_io:
  assumes "after_writes s ws t" and "same_io t u"
  shows "bc_ok {} u" "view u = replay (view s) ws" "dblk u = replay (dblk s) ws"
    "dtrace u = dtrace s @ map sectors ws" "pins u = pins t"
  using assms same_io_obs [OF assms(2)] by (simp_all add: after_writes_def)

section \<open>Commit\<close>

definition commit_writes :: "'z logst_scheme \<Rightarrow> (nat \<times> nat \<times> block) list" where
  "commit_writes s =
     (let h = head_bytes (lh_n s) (lh_block s) (dblk s ROOTDEV (log_start s))
      in log_writes s @ [(ROOTDEV, log_start s, h)] @
         map (\<lambda>i. (ROOTDEV, lh_block s i, view s ROOTDEV (lh_block s i))) [0..<nat (lh_n s)] @
         [(ROOTDEV, log_start s, head_bytes 0 (lh_block s) h)])"

lemma log_write_at:
  assumes "log_wf s" and "i < nat (lh_n s)"
  shows "replay D (log_writes s) ROOTDEV (log_start s + i + 1) = view s ROOTDEV (lh_block s i)"
  using assms(2) by (intro replay_value) (auto simp: log_writes_def)

lemma log_writes_outside:
  assumes "log_wf s" and "n \<notin> log_region s \<or> n = log_start s"
  shows "replay D (take k (log_writes s)) ROOTDEV n = D ROOTDEV n"
proof (rule replay_other)
  fix d' n' x assume "(d', n', x) \<in> set (take k (log_writes s))"
  then have "(d', n', x) \<in> set (log_writes s)" by (rule in_set_takeD)
  then obtain i where "i < nat (lh_n s)" "n' = log_start s + i + 1" by (auto simp: log_writes_def)
  then show "(d', n') \<noteq> (ROOTDEV, n)" using log_wf_ok(4) [OF assms(1)] assms(2) by auto
qed

lemma after_writes_trans:
  assumes "after_writes s ws t" and "after_writes t vs u"
  shows "after_writes s (ws @ vs) u"
proof -
  have "\<exists>B. frame B s u" using assms frame_trans unfolding after_writes_def by blast
  then show ?thesis using assms by (simp add: after_writes_def replay_append)
qed

lemma homes_keep_region:
  assumes "log_wf s" and "set xs \<subseteq> {..<nat (lh_n s)}" and "m \<in> log_region s"
  shows "replay D (map (\<lambda>i. (ROOTDEV, lh_block s i, g i)) xs) ROOTDEV m = D ROOTDEV m"
proof (rule replay_other)
  fix d' n' x assume "(d', n', x) \<in> set (map (\<lambda>i. (ROOTDEV, lh_block s i, g i)) xs)"
  then obtain i where "i < nat (lh_n s)" "n' = lh_block s i" using assms(2) by auto
  then show "(d', n') \<noteq> (ROOTDEV, m)" using log_wf_ok(5) [OF assms(1)] assms(3) by auto
qed

lemma header_in_region: "log_wf s \<Longrightarrow> log_start s \<in> log_region s"
  by (auto simp: log_wf_def log_region_def)

lemma header_not_logged: "log_wf s \<Longrightarrow> (ROOTDEV, log_start s) \<notin> logged s"
  using header_in_region [of s] log_wf_ok(5) [of s] by (auto simp: logged_def)

lemma txn_header: "txn s \<Longrightarrow> view s ROOTDEV (log_start s) = dblk s ROOTDEV (log_start s)"
  by (rule view_unpinned [of "{}"]) (auto simp: log_inv_def header_not_logged)

lemma write_log_head:
  assumes "txn s"
  obtains s1 s2 where "write_log s = Inr s1" "write_head s1 = Inr s2" "pins s2 = logged s"
    "after_writes s (log_writes s @ [(ROOTDEV, log_start s,
       head_bytes (lh_n s) (lh_block s) (dblk s ROOTDEV (log_start s)))]) s2"
proof -
  have a: "bc_ok {} s" "log_wf s" "pins s = logged s" using assms by (simp_all add: log_inv_def)
  obtain s1 where s1: "write_log s = Inr s1" "after_writes s (log_writes s) s1" "pins s1 = pins s"
    by (rule write_log_ok [OF a])
  note f = after_writes_log [OF s1(2)]
  have dev: "log_dev s = ROOTDEV" using a(2) by (simp add: log_wf_def)
  have "card (pins s1) < NBUF" using s1(3) a(3) card_logged log_wf_room a(2) by metis
  then obtain s2 where s2: "write_head s1 = Inr s2" "after_writes s1 [head_of s1] s2"
    "pins s2 = pins s1 - {(ROOTDEV, log_start s1)}"
    by (rule write_head_ok [rotated 3])
      (use s1(2) log_wf_header [OF a(2)] in \<open>simp_all add: after_writes_def f dev\<close>)
  have "view s1 ROOTDEV (log_start s) = dblk s ROOTDEV (log_start s)"
    using s1(2) log_writes_outside [OF a(2), of "log_start s" "view s" "length (log_writes s)"]
      txn_header [OF assms] by (simp add: after_writes_def)
  then have h: "head_of s1 = (ROOTDEV, log_start s,
      head_bytes (lh_n s) (lh_block s) (dblk s ROOTDEV (log_start s)))"
    by (simp add: head_of_def f)
  have "pins s2 = logged s"
    using s2(3) s1(3) a(3) header_not_logged [OF a(2)] by (simp add: f)
  then show thesis
    using that s1(1) s2(1) after_writes_trans [OF s1(2) s2(2)] h by simp
qed

lemma commit_ok:
  assumes txn: "txn s" and pos: "0 < lh_n s"
  obtains t where "commit s = Inr t" "after_writes (s\<lparr>lh_n := 0\<rparr>) (commit_writes s) t" "pins t = {}"
proof -
  let ?h = "head_bytes (lh_n s) (lh_block s) (dblk s ROOTDEV (log_start s))"
  let ?lw = "log_writes s @ [(ROOTDEV, log_start s, ?h)]"
  have wf: "log_wf s" using txn by (simp add: log_inv_def)
  have dev: "log_dev s = ROOTDEV" using wf by (simp add: log_wf_def)
  obtain s1 s2 where s2: "write_log s = Inr s1" "write_head s1 = Inr s2" "pins s2 = logged s"
    "after_writes s ?lw s2" by (rule write_log_head [OF txn])
  note f = after_writes_log [OF s2(4)]
  have ok2: "bc_ok {} s2" "log_wf s2" "logged s2 \<subseteq> pins s2 \<or> 1 + card (pins s2) < NBUF"
    "card (pins s2) < NBUF"
    using s2(3,4) wf card_logged [OF wf] log_wf_room [OF wf] f by (simp_all add: after_writes_def)
  obtain s3 where s3: "install_trans s2 = Inr s3" "after_writes s2 (home_writes s2) s3"
    "pins s3 = pins s2 - logged s2" by (rule install_trans_ok [OF ok2(1,2,4,3)])
  note g = after_writes_log [OF s3(2)]
  have v2: "view s2 ROOTDEV (log_start s + i + 1) = view s ROOTDEV (lh_block s i)"
    if "i < nat (lh_n s)" for i
    using s2(4) log_write_at [OF wf that, of "view s"] by (simp add: after_writes_def replay_snoc)
  define hw where "hw = map (\<lambda>i. (ROOTDEV, lh_block s i, view s ROOTDEV (lh_block s i))) [0..<nat (lh_n s)]"
  have hw: "home_writes s2 = hw" using v2 by (auto simp: home_writes_def f hw_def)
  have s23: "after_writes s (?lw @ hw) s3" using after_writes_trans [OF s2(4) s3(2)] hw by simp
  let ?s3 = "s3\<lparr>lh_n := 0\<rparr>"
  note o3 = after_writes_same_io [OF s23 same_io_log(1) [of s3 0]]
  have p3: "pins ?s3 = {}" using o3(5) s3(3) s2(3) f by simp
  obtain t where t: "write_head ?s3 = Inr t" "after_writes ?s3 [head_of ?s3] t"
    "pins t = pins ?s3 - {(ROOTDEV, log_start ?s3)}"
    by (rule write_head_ok [of ?s3])
      (use o3(1) log_wf_header [OF wf] p3 in \<open>simp_all add: f g dev NBUF_def\<close>)
  have "view ?s3 ROOTDEV (log_start s) = ?h"
    unfolding o3(2) hw_def replay_append [of _ ?lw]
    by (subst homes_keep_region [OF wf _ header_in_region [OF wf]]) (auto simp: replay_snoc)
  then have h: "head_of ?s3 = (ROOTDEV, log_start s, head_bytes 0 (lh_block s) ?h)"
    by (simp add: head_of_def f g)
  have "after_writes (s\<lparr>lh_n := 0\<rparr>) (?lw @ hw) ?s3"
    using o3 s23
    by (auto simp: after_writes_def same_io_obs [OF same_io_log(1)] intro: frame_lh_n)
  from after_writes_trans [OF this t(2)] h
  have "after_writes (s\<lparr>lh_n := 0\<rparr>) (commit_writes s) t"
    by (simp add: commit_writes_def Let_def hw_def)
  moreover have "commit s = Inr t" using pos s2 s3 t by (simp add: commit_def)
  ultimately show thesis using that t(3) p3 by simp
qed

section \<open>Recovery\<close>

definition head_blocks :: "block \<Rightarrow> (nat \<Rightarrow> nat) \<Rightarrow> nat \<Rightarrow> nat" where
  "head_blocks h f i = (if i < nat (sint32 (get32 h 0)) then get32 h (4 + 4 * i) else f i)"

lemma read_head_ok:
  assumes ok: "bc_ok {} s" and dev: "log_dev s = ROOTDEV" and blk: "blk_ok ROOTDEV (log_start s)"
    and room: "card (pins s) < NBUF"
    and h: "h = view s ROOTDEV (log_start s)" and n: "sint32 (get32 h 0) \<le> int LOGSIZE"
  obtains t where "read_head s = Inr t" "bc_ok {} t" "view t = view s" "dblk t = dblk s"
    "pins t = pins s" "dtrace t = dtrace s" "log_start t = log_start s" "log_size t = log_size s"
    "log_dev t = log_dev s" "lh_n t = sint32 (get32 h 0)" "lh_block t = head_blocks h (lh_block s)"
proof -
  have c: "cached s ROOTDEV (log_start s) \<or> card ({} :: nat set) + card (pins s) < NBUF"
    using room by simp
  from bc.bread_law [OF ok blk _ c] obtain b s1 where
    b: "bread ROOTDEV (log_start s) s = Inr (b, s1)" "bc_ok {b} s1" "frame {b} s s1"
    "bkey s1 b = (ROOTDEV, log_start s)" "b_data (bufs s1 b) = h" "view s1 = view s"
    "dblk s1 = dblk s" "dtrace s1 = dtrace s" "pins s1 = pins s" using h by auto
  define s2 where "s2 = s1\<lparr>lh_n := sint32 (get32 h 0), lh_block := head_blocks h (lh_block s)\<rparr>"
  note f = frame_log [OF b(3)]
  have io: "same_io s1 s2" by (simp add: s2_def same_io_log)
  note o = same_io_obs [OF io] and g = same_io_fields [OF io]
  have "(ROOTDEV, log_start s) \<in> pins s2 \<or> b_data (bufs s2 b) = dblk s2 ROOTDEV (log_start s)"
    using view_unpinned [OF ok, of ROOTDEV "log_start s"] by (auto simp: o g b h)
  with bc.brelse_law [of "{b}" s2 b ROOTDEV "log_start s"] b(2,4) obtain t where
    t: "brelse b s2 = Inr t" "bc_ok {} t" "frame {b} s2 t" "view t = view s2" "dblk t = dblk s2"
      "dtrace t = dtrace s2" "pins t = pins s2"
    by (auto simp: o g)
  note k = frame_log [OF t(3)]
  have "read_head s = brelse b s2"
    unfolding read_head_def dev b(1)
    using n by (simp add: Let_def b(5) s2_def head_blocks_def [abs_def] f cong: if_cong)
  moreover have "log_start s2 = log_start s" "log_size s2 = log_size s" "log_dev s2 = log_dev s"
    "lh_n s2 = sint32 (get32 h 0)" "lh_block s2 = head_blocks h (lh_block s)"
    by (simp_all add: s2_def f)
  ultimately show thesis using t k b o by (intro that [of t]) simp_all
qed

lemma recover_ok:
  assumes ok: "bc_ok {} s" and clean: "pins s = {}" and h: "h = dblk s ROOTDEV (log_start s)"
    and wf: "log_wf (s\<lparr>lh_n := sint32 (get32 h 0), lh_block := head_blocks h (lh_block s)\<rparr>)"
  obtains t where "recover_from_log s = Inr t" "bc_ok {} t" "pins t = {}" "lh_n t = 0"
    "log_start t = log_start s" "log_size t = log_size s" "log_dev t = log_dev s"
    "dblk t = replay (dblk s) (map (\<lambda>i. (ROOTDEV, get32 h (4 + 4 * i),
       dblk s ROOTDEV (log_start s + i + 1))) [0..<nat (sint32 (get32 h 0))] @
       [(ROOTDEV, log_start s, head_bytes 0 (head_blocks h (lh_block s)) h)])"
proof -
  let ?n = "sint32 (get32 h 0)"
  let ?s = "s\<lparr>lh_n := ?n, lh_block := head_blocks h (lh_block s)\<rparr>"
  have view: "view s = dblk s"
    using view_unpinned [OF ok] clean by (auto simp: fun_eq_iff)
  have n: "?n \<le> int LOGSIZE" "0 \<le> ?n" using wf by (auto simp: log_wf_def)
  have dev: "log_dev s = ROOTDEV" and blk: "blk_ok ROOTDEV (log_start s)"
    using wf log_wf_header [OF wf] by (auto simp: log_wf_def)
  obtain s1 where s1: "read_head s = Inr s1" "bc_ok {} s1" "view s1 = view s" "dblk s1 = dblk s"
    "pins s1 = pins s" "dtrace s1 = dtrace s" "log_start s1 = log_start s" "log_size s1 = log_size s"
    "log_dev s1 = log_dev s" "lh_n s1 = ?n" "lh_block s1 = head_blocks h (lh_block s)"
    by (rule read_head_ok [OF ok dev blk _ _ n(1)])
      (use clean h in \<open>simp_all add: NBUF_def view\<close>)
  have wf1: "log_wf s1" using wf log_wf_cong(1) [of s1 ?s] s1 by simp
  obtain s2 where s2: "install_trans s1 = Inr s2" "after_writes s1 (home_writes s1) s2"
    "pins s2 = pins s1 - logged s1"
    by (rule install_trans_ok [OF s1(2) wf1]) (use s1(5) clean in \<open>simp_all add: NBUF_def\<close>)
  note f = after_writes_log [OF s2(2)]
  let ?s2 = "s2\<lparr>lh_n := 0\<rparr>"
  note o2 = after_writes_same_io [OF s2(2) same_io_log(1) [of s2 0]]
  have p2: "pins ?s2 = {}" using o2(5) s2(3) s1(5) clean by simp
  obtain t where t: "write_head ?s2 = Inr t" "after_writes ?s2 [head_of ?s2] t"
    "pins t = pins ?s2 - {(ROOTDEV, log_start ?s2)}"
    by (rule write_head_ok [of ?s2]) (use o2(1) blk p2 in \<open>simp_all add: f s1 dev NBUF_def\<close>)
  note g = after_writes_log [OF t(2)]
  have hw: "home_writes s1 = map (\<lambda>i. (ROOTDEV, get32 h (4 + 4 * i),
      dblk s ROOTDEV (log_start s + i + 1))) [0..<nat ?n]"
    by (auto simp: home_writes_def s1 view head_blocks_def)
  have "view ?s2 ROOTDEV (log_start s) = h"
    unfolding o2(2) home_writes_def
    using homes_keep_region [OF wf1 _ header_in_region [OF wf1], of "[0..<nat (lh_n s1)]"]
    by (simp add: s1 view h atLeast0LessThan)
  then have "head_of ?s2 = (ROOTDEV, log_start s, head_bytes 0 (head_blocks h (lh_block s)) h)"
    by (simp add: head_of_def f s1)
  then have "dblk t = replay (dblk s) (home_writes s1 @
      [(ROOTDEV, log_start s, head_bytes 0 (head_blocks h (lh_block s)) h)])"
    using t(2) o2(3) by (simp add: after_writes_def replay_append s1)
  moreover have "recover_from_log s = Inr t" by (simp add: recover_from_log_def s1 s2 t)
  ultimately show thesis
    using t g p2 hw by (intro that [of t]) (simp_all add: after_writes_def f s1)
qed

text \<open>What \<open>initlog\<close> does to a disk, seen from outside the header block.\<close>

definition recovered :: "nat \<Rightarrow> (nat \<Rightarrow> nat \<Rightarrow> block) \<Rightarrow> nat \<Rightarrow> nat \<Rightarrow> block" where
  "recovered start D =
     (let h = D ROOTDEV start
      in replay D (map (\<lambda>i. (ROOTDEV, get32 h (4 + 4 * i), D ROOTDEV (start + i + 1)))
           [0..<nat (sint32 (get32 h 0))]))"

definition head_wf :: "nat \<Rightarrow> nat \<Rightarrow> int \<Rightarrow> (nat \<Rightarrow> nat) \<Rightarrow> bool" where
  "head_wf start len n f \<longleftrightarrow> 0 \<le> n \<and> n < int len \<and> inj_on f {..<nat n} \<and>
     (\<forall>i < nat n. f i < FSSIZE \<and> f i \<notin> {start..<start + len})"

lemma log_wf_head: "log_wf s \<longleftrightarrow> log_dev s = ROOTDEV \<and> 1 < log_start s \<and> log_size s \<le> LOGSIZE \<and>
    log_start s + log_size s \<le> FSSIZE \<and> head_wf (log_start s) (log_size s) (lh_n s) (lh_block s)"
  unfolding log_wf_def head_wf_def log_region_def by blast

lemma head_wf_cong: "(\<And>i. i < nat n \<Longrightarrow> f i = g i) \<Longrightarrow> head_wf start len n f = head_wf start len n g"
  unfolding head_wf_def by (auto simp: inj_on_def)

lemma initlog_ok:
  assumes ok: "bc_ok {} s" and clean: "pins s = {}" and one: "blk_ok ROOTDEV 1"
    and sb: "sb_logstart (sb_of (dblk s ROOTDEV 1)) = start" "sb_nlog (sb_of (dblk s ROOTDEV 1)) = len"
    and geo: "1 < start" "len \<le> LOGSIZE" "start + len \<le> FSSIZE"
    and h: "h = dblk s ROOTDEV start"
    and wf: "head_wf start len (sint32 (get32 h 0)) (\<lambda>i. get32 h (4 + 4 * i))"
  obtains t where "initlog ROOTDEV s = Inr t" "bc_ok {} t" "pins t = {}" "lh_n t = 0"
    "log_start t = start" "log_size t = len" "log_dev t = ROOTDEV" "get32 (dblk t ROOTDEV start) 0 = 0"
    "\<And>d m. (d, m) \<noteq> (ROOTDEV, start) \<Longrightarrow> dblk t d m = recovered start (dblk s) d m"
proof -
  have view: "view s = dblk s"
    using view_unpinned [OF ok] clean by (auto simp: fun_eq_iff)
  have c: "cached s ROOTDEV 1 \<or> card ({} :: nat set) + card (pins s) < NBUF"
    using clean by (simp add: NBUF_def)
  obtain b s1 where s1: "frame {b} s s1" "bc_ok {} s1" "view s1 = view s" "dblk s1 = dblk s"
    "dtrace s1 = dtrace s" "pins s1 = pins s"
    "\<And>k. rbind (bread ROOTDEV 1 s) (\<lambda>(b, s1). rbind (brelse b s1) (k (b_data (bufs s1 b)))) =
       (k (view s ROOTDEV 1) s1 :: (superblock \<times> 'a logst_scheme) res)"
    by (rule bc.read_block [OF ok one _ c]) (simp, rule that)
  have rs: "xv6fs_readsb ROOTDEV s = Inr (sb_of (view s ROOTDEV 1), s1)"
    unfolding xv6fs_readsb_def using s1(7) [of "\<lambda>x t. Inr (sb_of x, t)"] by simp
  let ?s1 = "s1\<lparr>log_start := start, log_size := len, log_dev := ROOTDEV\<rparr>"
  note o = same_io_obs [OF same_io_log(6) [where s = s1 and p = start and q = len and r = ROOTDEV]]
  have wf1: "log_wf (?s1\<lparr>lh_n := sint32 (get32 h 0), lh_block := head_blocks h (lh_block ?s1)\<rparr>)"
    using geo wf head_wf_cong [of "sint32 (get32 h 0)" "head_blocks h (lh_block s1)" "\<lambda>i. get32 h (4 + 4 * i)"]
    by (simp add: log_wf_head head_blocks_def)
  obtain t where t: "recover_from_log ?s1 = Inr t" "bc_ok {} t" "pins t = {}" "lh_n t = 0"
    "log_start t = log_start ?s1" "log_size t = log_size ?s1" "log_dev t = log_dev ?s1"
    "dblk t = replay (dblk ?s1) (map (\<lambda>i. (ROOTDEV, get32 h (4 + 4 * i),
       dblk ?s1 ROOTDEV (log_start ?s1 + i + 1))) [0..<nat (sint32 (get32 h 0))] @
       [(ROOTDEV, log_start ?s1, head_bytes 0 (head_blocks h (lh_block ?s1)) h)])"
    by (rule recover_ok [OF _ _ _ wf1]) (use s1 clean h o in simp_all)
  have "initlog ROOTDEV s = Inr t"
    unfolding initlog_def rs using t(1) sb by (simp add: view LOGSIZE_def MAXOPBLOCKS_def BSIZE_def)
  moreover have "dblk t d m = recovered start (dblk s) d m" if "(d, m) \<noteq> (ROOTDEV, start)" for d m
    using that t(8) by (auto simp: replay_snoc recovered_def o s1 h Let_def)
  moreover have "get32 (dblk t ROOTDEV start) 0 = 0"
    unfolding t(8) by (simp add: replay_snoc head_bytes_0)
  ultimately show thesis using t by (intro that [of t]) simp_all
qed

text \<open>
  The three stages at which a crash can cut the writes of a commit: before the header is
  written, between the two header writes, and after the second one.
\<close>

lemma head_wf_zero: "log_wf s \<Longrightarrow> head_wf (log_start s) (log_size s) 0 f"
  by (auto simp: log_wf_def head_wf_def)

lemma recovered_empty: "sint32 (get32 (D ROOTDEV start) 0) = 0 \<Longrightarrow> recovered start D = D"
  by (simp add: recovered_def)

definition home_copy :: "'z logst_scheme \<Rightarrow> nat \<Rightarrow> (nat \<times> nat \<times> block) list" where
  "home_copy s j = map (\<lambda>i. (ROOTDEV, lh_block s i, view s ROOTDEV (lh_block s i))) [0..<j]"

lemma home_copy_at:
  assumes "i < j"
  shows "replay D (home_copy s j) ROOTDEV (lh_block s i) = view s ROOTDEV (lh_block s i)"
  by (rule replay_value) (use assms in \<open>auto simp: home_copy_def\<close>)

lemma home_copy_other:
  assumes "\<And>i. i < j \<Longrightarrow> m \<noteq> lh_block s i"
  shows "replay D (home_copy s j) ROOTDEV m = D ROOTDEV m"
proof (rule replay_other)
  fix d' n' x assume "(d', n', x) \<in> set (home_copy s j)"
  then obtain i where "i < j" "n' = lh_block s i" by (auto simp: home_copy_def)
  then show "(d', n') \<noteq> (ROOTDEV, m)" using assms [of i] by simp
qed

lemma home_copy_region:
  assumes "log_wf s" and "j \<le> nat (lh_n s)" and "m \<in> log_region s"
  shows "replay D (home_copy s j) ROOTDEV m = D ROOTDEV m"
proof (rule home_copy_other)
  fix i assume "i < j"
  then show "m \<noteq> lh_block s i" using assms log_wf_ok(5) [OF assms(1), of i] by auto
qed

lemma txn_unlogged:
  assumes "txn s" and "\<And>i. i < nat (lh_n s) \<Longrightarrow> m \<noteq> lh_block s i"
  shows "view s ROOTDEV m = dblk s ROOTDEV m"
  using assms by (intro view_unpinned [of "{}"]) (auto simp: log_inv_def logged_def)

lemma commit_writes_take:
  "take k (commit_writes s) =
    (let n = nat (lh_n s); h = head_bytes (lh_n s) (lh_block s) (dblk s ROOTDEV (log_start s)) in
     if k \<le> n then take k (log_writes s)
     else if k \<le> 2 * n + 1 then log_writes s @ [(ROOTDEV, log_start s, h)] @ home_copy s (k - n - 1)
     else log_writes s @ [(ROOTDEV, log_start s, h)] @ home_copy s n @
       [(ROOTDEV, log_start s, head_bytes 0 (lh_block s) h)])"
proof -
  let ?n = "nat (lh_n s)"
  have len: "length (log_writes s) = ?n" by (simp add: log_writes_def)
  consider "k \<le> ?n" | "?n < k" "k \<le> 2 * ?n + 1" | "2 * ?n + 1 < k" by linarith
  then show ?thesis
  proof cases
    case 1
    then show ?thesis by (simp add: commit_writes_def Let_def len)
  next
    case 2
    define j where "j = k - ?n - 1"
    have k: "k = ?n + Suc j" "j \<le> ?n" using 2 by (auto simp: j_def)
    show ?thesis
      using k by (simp add: commit_writes_def Let_def len home_copy_def take_map)
  next
    case 3
    define j where "j = k - 2 * ?n - 2"
    have k: "k = ?n + Suc (?n + Suc j)" using 3 by (auto simp: j_def)
    show ?thesis
      using k by (simp add: commit_writes_def Let_def len home_copy_def)
  qed
qed

definition crash_ok :: "'z logst_scheme \<Rightarrow> (nat \<Rightarrow> nat \<Rightarrow> block) \<Rightarrow> (nat \<Rightarrow> block) \<Rightarrow> bool" where
  "crash_ok s D target \<longleftrightarrow>
     (let h = D ROOTDEV (log_start s)
      in head_wf (log_start s) (log_size s) (sint32 (get32 h 0)) (\<lambda>i. get32 h (4 + 4 * i))) \<and>
     (\<forall>m. m \<notin> log_region s \<longrightarrow> recovered (log_start s) D ROOTDEV m = target m)"

lemma sint32_0 [simp]: "sint32 0 = 0"
  by (simp add: sint32_def)

lemma crash_before:
  assumes txn: "txn s"
  shows "crash_ok s (replay (dblk s) (take k (log_writes s))) (dblk s ROOTDEV)"
proof -
  let ?D = "replay (dblk s) (take k (log_writes s))"
  have wf: "log_wf s" and z: "get32 (dblk s ROOTDEV (log_start s)) 0 = 0"
    using txn by (auto simp: log_inv_def)
  have h: "?D ROOTDEV (log_start s) = dblk s ROOTDEV (log_start s)"
    by (rule log_writes_outside [OF wf]) simp
  have "recovered (log_start s) ?D = ?D" by (rule recovered_empty) (simp add: h z)
  then show ?thesis
    using log_writes_outside [OF wf] head_wf_zero [OF wf]
    by (simp add: crash_ok_def h z)
qed

lemma crash_mid:
  assumes txn: "txn s" and j: "j \<le> nat (lh_n s)"
  shows "crash_ok s (replay (dblk s) (log_writes s @ [(ROOTDEV, log_start s,
    head_bytes (lh_n s) (lh_block s) (dblk s ROOTDEV (log_start s)))] @ home_copy s j)) (view s ROOTDEV)"
proof -
  let ?n = "nat (lh_n s)"
  let ?h = "head_bytes (lh_n s) (lh_block s) (dblk s ROOTDEV (log_start s))"
  let ?E = "replay (dblk s) (log_writes s @ [(ROOTDEV, log_start s, ?h)])"
  let ?D = "replay ?E (home_copy s j)"
  have wf: "log_wf s" using txn by (auto simp: log_inv_def)
  have b32: "lh_block s i < 2 ^ 32" if "i < ?n" for i
    using wf that by (auto simp: log_wf_def FSSIZE_def)
  have n: "0 \<le> lh_n s" "lh_n s \<le> int LOGSIZE" using wf by (auto simp: log_wf_def)
  have hD: "?D ROOTDEV (log_start s) = ?h"
    by (simp add: home_copy_region [OF wf j header_in_region [OF wf]] replay_snoc)
  have nh: "sint32 (get32 ?h 0) = lh_n s" by (rule head_bytes_n [OF n])
  have bh: "get32 ?h (4 + 4 * i) = lh_block s i" if "i < ?n" for i
    by (rule head_bytes_block) (use b32 that in auto)
  have slot: "?D ROOTDEV (log_start s + i + 1) = view s ROOTDEV (lh_block s i)" if "i < ?n" for i
    using home_copy_region [OF wf j log_wf_ok(4) [OF wf that]] log_write_at [OF wf that]
    by (simp add: replay_snoc)
  have hw: "head_wf (log_start s) (log_size s) (lh_n s) (\<lambda>i. get32 ?h (4 + 4 * i))"
    using head_wf_cong [of "lh_n s" "\<lambda>i. get32 ?h (4 + 4 * i)" "lh_block s"] bh wf
    by (simp add: log_wf_head)
  have "map (\<lambda>i. (ROOTDEV, get32 ?h (4 + 4 * i), ?D ROOTDEV (log_start s + i + 1))) [0..<?n] =
      home_copy s ?n"
    using bh slot by (auto simp: home_copy_def)
  then have r: "recovered (log_start s) ?D = replay ?D (home_copy s ?n)"
    unfolding recovered_def Let_def hD nh by simp
  have "recovered (log_start s) ?D ROOTDEV m = view s ROOTDEV m" if m: "m \<notin> log_region s" for m
  proof (cases "\<exists>i < ?n. m = lh_block s i")
    case True
    then show ?thesis using home_copy_at r by auto
  next
    case False
    then have o: "m \<noteq> lh_block s i" if "i < ?n" for i using that by blast
    have "?D ROOTDEV m = ?E ROOTDEV m" by (rule home_copy_other) (use o j in auto)
    also have "\<dots> = dblk s ROOTDEV m"
      using log_writes_outside [OF wf, of m "dblk s" "?n"] m header_in_region [OF wf]
      by (auto simp: replay_snoc log_writes_def)
    finally show ?thesis
      using r home_copy_other [of ?n m s] o txn_unlogged [OF txn o] by simp
  qed
  then show ?thesis
    unfolding crash_ok_def append_assoc [symmetric] replay_append [of _ "log_writes s @ [_]"] Let_def hD nh
    using hw by simp
qed

lemma crash_done:
  assumes txn: "txn s" and h: "0 \<le> sint32 (get32 h 0)"
  shows "crash_ok s (replay (dblk s) (log_writes s @ [(ROOTDEV, log_start s, h)] @
    home_copy s (nat (lh_n s)) @ [(ROOTDEV, log_start s, head_bytes 0 f h)])) (view s ROOTDEV)"
proof -
  let ?n = "nat (lh_n s)" and ?lw = "log_writes s @ [(ROOTDEV, log_start s, h)]"
  let ?E = "replay (dblk s) ?lw"
  let ?D = "replay (replay ?E (home_copy s ?n)) [(ROOTDEV, log_start s, head_bytes 0 f h)]"
  have wf: "log_wf s" using txn by (auto simp: log_inv_def)
  have z: "sint32 (get32 (head_bytes 0 f h) 0) = 0" by (rule head_bytes_n) simp_all
  have hD: "?D ROOTDEV (log_start s) = head_bytes 0 f h" by (simp add: replay_def)
  have "?D ROOTDEV m = view s ROOTDEV m" if m: "m \<notin> log_region s" for m
  proof -
    have ms: "m \<noteq> log_start s" using m header_in_region [OF wf] by auto
    then have D: "?D ROOTDEV m = replay ?E (home_copy s ?n) ROOTDEV m"
      by (intro replay_other) auto
    show ?thesis
    proof (cases "\<exists>i < ?n. m = lh_block s i")
      case True
      then show ?thesis using home_copy_at D by auto
    next
      case False
      then have o: "m \<noteq> lh_block s i" if "i < ?n" for i using that by blast
      have "?E ROOTDEV m = dblk s ROOTDEV m"
        using log_writes_outside [OF wf, of m "dblk s" "?n"] m ms
        by (auto simp: replay_snoc log_writes_def)
      then show ?thesis
        using D home_copy_other [of ?n m s] o txn_unlogged [OF txn o] by simp
    qed
  qed
  moreover have "recovered (log_start s) ?D = ?D" by (rule recovered_empty) (simp only: hD z)
  ultimately have "crash_ok s ?D (view s ROOTDEV)"
    using head_wf_zero [OF wf] by (simp only: crash_ok_def Let_def hD z) simp
  then show ?thesis by (simp only: append_assoc [symmetric] replay_append)
qed

lemma crash_any:
  assumes txn: "txn s"
  shows "crash_ok s (replay (dblk s) (take k (commit_writes s)))
    (if k \<le> nat (lh_n s) then dblk s ROOTDEV else view s ROOTDEV)"
proof -
  have n: "0 \<le> lh_n s" "lh_n s \<le> int LOGSIZE" using txn by (auto simp: log_inv_def log_wf_def)
  show ?thesis
    using crash_before [OF txn, of k] crash_mid [OF txn, of "k - nat (lh_n s) - 1"]
      crash_done [OF txn, of "head_bytes (lh_n s) (lh_block s) (dblk s ROOTDEV (log_start s))" "lh_block s"]
    by (auto simp: commit_writes_take Let_def head_bytes_n [OF n] n)
qed

lemma commit_writes_keep:
  assumes "log_wf s" and "m \<notin> log_region s" and "\<And>i. i < nat (lh_n s) \<Longrightarrow> m \<noteq> lh_block s i"
  shows "replay D (take k (commit_writes s)) ROOTDEV m = D ROOTDEV m"
proof (rule replay_other)
  fix d' n' x assume "(d', n', x) \<in> set (take k (commit_writes s))"
  then have "(d', n', x) \<in> set (commit_writes s)" by (rule in_set_takeD)
  then have "n' = log_start s \<or> (\<exists>i < nat (lh_n s). n' = log_start s + i + 1 \<or> n' = lh_block s i)"
    by (auto simp: commit_writes_def Let_def log_writes_def)
  then show "(d', n') \<noteq> (ROOTDEV, m)"
    using assms header_in_region [OF assms(1)] log_wf_ok(4) [OF assms(1)] by auto
qed

section \<open>Recording a block\<close>

lemma log_slot_cases:
  "(ROOTDEV, n) \<in> logged s \<Longrightarrow> log_slot n s < nat (lh_n s) \<and> lh_block s (log_slot n s) = n"
  "(ROOTDEV, n) \<notin> logged s \<Longrightarrow> log_slot n s = nat (lh_n s)"
proof -
  assume "(ROOTDEV, n) \<in> logged s"
  then obtain i where i: "find (\<lambda>i. lh_block s i = n) [0..<nat (lh_n s)] = Some i"
    by (cases "find (\<lambda>i. lh_block s i = n) [0..<nat (lh_n s)]")
      (auto simp: find_upt_None logged_def)
  then have "i < nat (lh_n s) \<and> lh_block s i = n" by (simp add: find_upt_Some)
  then show "log_slot n s < nat (lh_n s) \<and> lh_block s (log_slot n s) = n"
    by (simp add: log_slot_def i)
next
  assume "(ROOTDEV, n) \<notin> logged s"
  then have "find (\<lambda>i. lh_block s i = n) [0..<nat (lh_n s)] = None"
    by (auto simp: find_upt_None logged_def)
  then show "log_slot n s = nat (lh_n s)" by (simp add: log_slot_def)
qed

text \<open>Everything but the buffers of a set, and the recorded blocks, is as before.\<close>

definition log_frame :: "nat set \<Rightarrow> 'z logst_scheme \<Rightarrow> 'z logst_scheme \<Rightarrow> bool" where
  "log_frame B s t \<longleftrightarrow> (\<forall>b. b \<notin> B \<longrightarrow> bufs t b = bufs s b) \<and> mypid t = mypid s \<and>
     log_start t = log_start s \<and> log_size t = log_size s \<and> log_outstanding t = log_outstanding s \<and>
     log_committing t = log_committing s \<and> log_dev t = log_dev s \<and> logst.more t = logst.more s"

lemma log_frame_refl [simp]: "log_frame B s s"
  by (simp add: log_frame_def)

lemma log_frame_trans: "log_frame B s t \<Longrightarrow> log_frame C t u \<Longrightarrow> log_frame (B \<union> C) s u"
  by (auto simp: log_frame_def)

lemma frame_log_frame: "frame B s t \<Longrightarrow> log_frame B s t"
  using frame_log [of B s t] by (auto simp: log_frame_def frame_def)

definition record_block :: "nat \<Rightarrow> 'z logst_scheme \<Rightarrow> 'z logst_scheme" where
  "record_block n s =
     s\<lparr>lh_block := (lh_block s)(log_slot n s := n),
       lh_n := (if int (log_slot n s) = lh_n s then lh_n s + 1 else lh_n s)\<rparr>"

lemma record_block_logged:
  assumes wf: "log_wf s" and n: "n < FSSIZE" "n \<notin> log_region s" and room: "lh_n s < int (log_size s) - 1"
  shows "log_wf (record_block n s)" "logged (record_block n s) = insert (ROOTDEV, n) (logged s)"
    "lh_n (record_block n s) = (if (ROOTDEV, n) \<in> logged s then lh_n s else lh_n s + 1)"
proof -
  have nn: "0 \<le> lh_n s" using wf by (simp add: log_wf_def)
  have r: "log_region (record_block n s) = log_region s" by (simp add: record_block_def log_region_def)
  have "log_wf (record_block n s) \<and> logged (record_block n s) = insert (ROOTDEV, n) (logged s) \<and>
    lh_n (record_block n s) = (if (ROOTDEV, n) \<in> logged s then lh_n s else lh_n s + 1)"
  proof (cases "(ROOTDEV, n) \<in> logged s")
    case True
    note sl = log_slot_cases(1) [OF True]
    have "lh_block (record_block n s) = lh_block s" "lh_n (record_block n s) = lh_n s"
      using sl by (auto simp: record_block_def)
    then have "log_wf (record_block n s) = log_wf s" "logged (record_block n s) = logged s"
      using log_wf_cong [of "record_block n s" s] by (simp_all add: record_block_def)
    then show ?thesis using True wf sl by (auto simp: record_block_def)
  next
    case False
    note sl = log_slot_cases(2) [OF False]
    have e: "lh_block (record_block n s) = (lh_block s)(nat (lh_n s) := n)"
      "lh_n (record_block n s) = lh_n s + 1" using sl nn by (auto simp: record_block_def)
    have N: "{..<nat (lh_n s + 1)} = insert (nat (lh_n s)) {..<nat (lh_n s)}"
      using nn by (auto simp: nat_add_distrib)
    have inj: "inj_on ((lh_block s)(nat (lh_n s) := n)) {..<nat (lh_n s + 1)}"
      unfolding N using wf False by (auto simp: log_wf_def inj_on_def logged_def)
    have "log_wf (record_block n s)"
      unfolding log_wf_def e r using inj wf room n nn
      by (auto simp: log_wf_def record_block_def log_consts less_Suc_eq nat_add_distrib)
    moreover have "logged (record_block n s) = insert (ROOTDEV, n) (logged s)"
      unfolding logged_def e N by auto
    ultimately show ?thesis using False e by simp
  qed
  then show "log_wf (record_block n s)" "logged (record_block n s) = insert (ROOTDEV, n) (logged s)"
    "lh_n (record_block n s) = (if (ROOTDEV, n) \<in> logged s then lh_n s else lh_n s + 1)" by auto
qed

lemma pins_set_dirty:
  assumes "bc_ok H s" and "b \<in> H"
  shows "pins (set_dirty b s) = insert (bkey s b) (pins s)"
  using set_dirty_ok(4) [OF assms] by (auto simp: pins_def set_dirty_def)

lemma log_write_ok:
  assumes inv: "log_inv H s" and b: "b \<in> H" "bkey s b = (ROOTDEV, n)" and n: "n \<notin> log_region s"
    and room: "lh_n s < int (log_size s) - 1" and op: "0 < log_outstanding s"
  obtains t where "log_write b s = Inr t" "log_inv H t" "log_frame {b} s t" "view t = view s"
    "dblk t = dblk s" "dtrace t = dtrace s" "b_data (bufs t b) = b_data (bufs s b)"
    "bkey t b = (ROOTDEV, n)" "logged t = insert (ROOTDEV, n) (logged s)"
    "lh_n t = (if (ROOTDEV, n) \<in> logged s then lh_n s else lh_n s + 1)"
proof -
  have ok: "bc_ok H s" and wf: "log_wf s" and pins: "pins s = logged s"
    and z: "get32 (dblk s ROOTDEV (log_start s)) 0 = 0" using inv by (auto simp: log_inv_def)
  have "blk_ok ROOTDEV n"
    using holds_D [OF ok b(1)] b(2) ok by (auto simp: bc_ok_def dest: bufs_wf_valid)
  then have nF: "n < FSSIZE" by (auto simp: blk_ok_def ide_consts)
  let ?r = "record_block n s" and ?t = "set_dirty b (record_block n s)"
  note rec = record_block_logged [OF wf nF n room]
  have io: "same_io s ?r" by (simp add: record_block_def same_io_log)
  note o = same_io_obs [OF io] and f = same_io_fields [OF io]
  have okr: "bc_ok H ?r" using ok o by simp
  note d = set_dirty_ok [OF okr b(1)]
  have e: "log_write b s = Inr ?t"
    using room op wf b(2) unfolding log_write_def record_block_def
    by (auto simp: log_wf_def Let_def)
  have lf: "log_start ?t = log_start ?r" "log_size ?t = log_size ?r" "log_dev ?t = log_dev ?r"
    "lh_n ?t = lh_n ?r" "lh_block ?t = lh_block ?r" using frame_log [OF d(2)] by auto
  have dk: "dblk ?t = dblk s" using o by (simp add: dblk_def fun_eq_iff set_dirty_def f)
  have "log_inv H ?t"
    using d(1) rec pins z o log_wf_cong [of ?t ?r, OF lf] pins_set_dirty [OF okr b(1)] b(2) f
    by (simp add: log_inv_def dk lf) (simp add: record_block_def)
  moreover have "log_frame {b} s ?t"
    using log_frame_trans [OF _ frame_log_frame [OF d(2)], of "{}" s]
    by (simp add: log_frame_def record_block_def)
  ultimately show thesis
    using e d dk o f rec b(2) log_wf_cong [of ?t ?r, OF lf] lf
    by (intro that [OF e]) (auto simp: set_dirty_def)
qed

section \<open>The interface of the log\<close>

text \<open>
  What a file-system operation between \<open>begin_op\<close> and \<open>end_op\<close> relies on: it reads a block into
  a held buffer, changes it and records it, and releases it. \<open>recd\<close> is the set of blocks
  recorded so far, \<open>cap\<close> how many \<open>log_write\<close> accepts, \<open>home\<close> the blocks it may record.
\<close>

locale journal =
  fixes bread :: "nat \<Rightarrow> nat \<Rightarrow> 's \<Rightarrow> (nat \<times> 's) res"
    and logw :: "nat \<Rightarrow> 's \<Rightarrow> 's res"
    and brelse :: "nat \<Rightarrow> 's \<Rightarrow> 's res"
    and put :: "nat \<Rightarrow> 'd \<Rightarrow> 's \<Rightarrow> 's"
    and data :: "'s \<Rightarrow> nat \<Rightarrow> 'd"
    and key :: "'s \<Rightarrow> nat \<Rightarrow> nat \<times> nat"
    and inv :: "nat set \<Rightarrow> 's \<Rightarrow> bool"
    and look :: "'s \<Rightarrow> nat \<Rightarrow> nat \<Rightarrow> 'd"
    and recd :: "'s \<Rightarrow> (nat \<times> nat) set"
    and cap :: "'s \<Rightarrow> nat"
    and keeps :: "nat set \<Rightarrow> 's \<Rightarrow> 's \<Rightarrow> bool"
    and ok :: "nat \<Rightarrow> nat \<Rightarrow> bool"
    and home :: "'s \<Rightarrow> nat \<Rightarrow> nat \<Rightarrow> bool"
  assumes bread_law: "inv H s \<Longrightarrow> ok d n \<Longrightarrow> (\<And>b. b \<in> H \<Longrightarrow> key s b \<noteq> (d, n)) \<Longrightarrow>
      card H + card (recd s) \<le> cap s \<Longrightarrow>
      \<exists>b t. bread d n s = Inr (b, t) \<and> inv (insert b H) t \<and> b \<notin> H \<and> keeps {b} s t \<and>
        key t b = (d, n) \<and> data t b = look s d n \<and> look t = look s \<and> recd t = recd s"
    and logw_law: "inv H s \<Longrightarrow> b \<in> H \<Longrightarrow> key s b = (d, n) \<Longrightarrow> home s d n \<Longrightarrow> card (recd s) < cap s \<Longrightarrow>
      \<exists>t. logw b (put b x s) = Inr t \<and> inv H t \<and> keeps {b} s t \<and> key t b = (d, n) \<and>
        data t b = x \<and> look t = (look s)(d := (look s d)(n := x)) \<and> recd t = insert (d, n) (recd s)"
    and brelse_law: "inv H s \<Longrightarrow> b \<in> H \<Longrightarrow>
      \<exists>t. brelse b s = Inr t \<and> inv (H - {b}) t \<and> keeps {b} s t \<and> look t = look s \<and> recd t = recd s"
    and keeps_other: "keeps B s t \<Longrightarrow> b \<notin> B \<Longrightarrow> key t b = key s b \<and> data t b = data s b"
    and keeps_trans: "keeps B s t \<Longrightarrow> keeps C t u \<Longrightarrow> keeps (B \<union> C) s u"
    and keeps_home: "keeps B s t \<Longrightarrow> home t = home s \<and> cap t = cap s"
    and home_ok: "home s d n \<Longrightarrow> ok d n"
    and recd_finite: "finite (recd s)"
begin

lemma get_block:
  assumes "inv H s" and "ok d n" and "\<And>b. b \<in> H \<Longrightarrow> key s b \<noteq> (d, n)" and "card H + card (recd s) \<le> cap s"
  obtains b t where "keeps {b} s t" "b \<notin> H" "inv H t" "look t = look s" "recd t = recd s"
    "\<And>k. rbind (bread d n s) (\<lambda>(b, s1). rbind (brelse b s1) (k (data s1 b))) = k (look s d n) t"
proof -
  obtain b t where b: "bread d n s = Inr (b, t)" "inv (insert b H) t" "b \<notin> H" "keeps {b} s t"
      "data t b = look s d n" "look t = look s" "recd t = recd s"
    using bread_law [OF assms] by blast
  then obtain u where u: "brelse b t = Inr u" "inv (insert b H - {b}) u" "keeps {b} t u"
      "look u = look t" "recd u = recd t"
    using brelse_law [OF b(2) insertI1] by blast
  have "insert b H - {b} = H" using b(3) by simp
  then show ?thesis
    using b u keeps_trans [OF b(4) u(3)] by (intro that [of b u]) auto
qed

lemma logw_brelse:
  assumes "inv (insert b H) s" and "b \<notin> H" and "key s b = (d, n)" and "home s d n" and "card (recd s) < cap s"
  obtains s1 t where "logw b (put b x s) = Inr s1" "brelse b s1 = Inr t" "keeps {b} s t" "inv H t"
    "look t = (look s)(d := (look s d)(n := x))" "recd t = insert (d, n) (recd s)"
proof -
  obtain t where t: "logw b (put b x s) = Inr t" "inv (insert b H) t" "keeps {b} s t"
      "look t = (look s)(d := (look s d)(n := x))" "recd t = insert (d, n) (recd s)"
    using logw_law [OF assms(1) _ assms(3-5)] by blast
  then obtain u where u: "brelse b t = Inr u" "inv (insert b H - {b}) u" "keeps {b} t u"
      "look u = look t" "recd u = recd t"
    using brelse_law [OF t(2) insertI1] by blast
  have "insert b H - {b} = H" using assms(2) by simp
  then show ?thesis
    using t u keeps_trans [OF t(3) u(3)] by (intro that [OF t(1) u(1)]) auto
qed

lemma update_block:
  assumes "inv H s" and "home s d n" and "\<And>b. b \<in> H \<Longrightarrow> key s b \<noteq> (d, n)"
    and "card H + card (recd s) \<le> cap s" and "card (recd s) < cap s"
  obtains b t where "keeps {b} s t" "b \<notin> H" "inv H t"
    "look t = (look s)(d := (look s d)(n := f (look s d n)))" "recd t = insert (d, n) (recd s)"
    "\<And>k. rbind (bread d n s) (\<lambda>(b, s1). rbind (logw b (put b (f (data s1 b)) s1))
       (\<lambda>s2. rbind (brelse b s2) k)) = k t"
proof -
  obtain b t where b: "bread d n s = Inr (b, t)" "inv (insert b H) t" "b \<notin> H" "keeps {b} s t"
      "key t b = (d, n)" "data t b = look s d n" "look t = look s" "recd t = recd s"
    using bread_law [OF assms(1) home_ok [OF assms(2)] assms(3,4)] by blast
  have "home t d n" "card (recd t) < cap t" using keeps_home [OF b(4)] b(8) assms(2,5) by auto
  from logw_brelse [OF b(2,3,5) this] obtain s1 u where
    u: "logw b (put b (f (look s d n)) t) = Inr s1" "brelse b s1 = Inr u" "keeps {b} t u" "inv H u"
    "look u = (look t)(d := (look t d)(n := f (look s d n)))" "recd u = insert (d, n) (recd t)"
    by blast
  show ?thesis
    using b u keeps_trans [OF b(4) u(3)] by (intro that [of b u]) auto
qed

end

text \<open>The log of the model provides it.\<close>

definition tx_inv :: "nat set \<Rightarrow> 'z logst_scheme \<Rightarrow> bool" where
  "tx_inv H s \<longleftrightarrow> log_inv H s \<and> 0 < log_outstanding s \<and>
     (\<forall>b \<in> H. bkey s b \<in> logged s \<or> b_data (bufs s b) = dblk s (b_dev (bufs s b)) (b_blockno (bufs s b)))"

definition log_cap :: "'z logst_scheme \<Rightarrow> nat" where
  "log_cap s = log_size s - 1"

definition log_home :: "'z logst_scheme \<Rightarrow> nat \<Rightarrow> nat \<Rightarrow> bool" where
  "log_home s d n \<longleftrightarrow> d = ROOTDEV \<and> n < FSSIZE \<and> n \<notin> log_region s"

lemma log_inv_frame:
  assumes "log_inv H s" and "bc_ok K t" and "frame B s t" and "dblk t = dblk s" and "pins t = pins s"
  shows "log_inv K t" "logged t = logged s" "log_outstanding t = log_outstanding s"
proof -
  note f = frame_log [OF assms(3)]
  show "log_inv K t" "logged t = logged s" "log_outstanding t = log_outstanding s"
    using assms log_wf_cong [of t s] f by (simp_all add: log_inv_def)
qed

lemma tx_bread:
  assumes inv: "tx_inv H s" and ok: "blk_ok d n" and k: "\<And>b. b \<in> H \<Longrightarrow> bkey s b \<noteq> (d, n)"
    and room: "card H + card (logged s) \<le> log_cap s"
  shows "\<exists>b t. bread d n s = Inr (b, t) \<and> tx_inv (insert b H) t \<and> b \<notin> H \<and> log_frame {b} s t \<and>
    bkey t b = (d, n) \<and> b_data (bufs t b) = view s d n \<and> view t = view s \<and> logged t = logged s"
proof -
  have li: "log_inv H s" and okb: "bc_ok H s" and wf: "log_wf s" and p: "pins s = logged s"
    using inv by (auto simp: tx_inv_def log_inv_def)
  have "card H + card (pins s) < NBUF"
    using room wf by (auto simp: p log_cap_def log_wf_def log_consts)
  then obtain b t where b: "bread d n s = Inr (b, t)" "bc_ok (insert b H) t" "b \<notin> H" "frame {b} s t"
      "bkey t b = (d, n)" "b_data (bufs t b) = view s d n" "view t = view s" "dblk t = dblk s"
      "pins t = pins s"
    using bc.bread_law [OF okb ok k] by blast
  note l = log_inv_frame [OF li b(2,4,8,9)]
  have "(d, n) \<in> logged t \<or> b_data (bufs t b) = dblk t d n"
    using view_unpinned [OF okb k] b(6,8) l(2) p by auto
  moreover have "bufs t c = bufs s c" if "c \<in> H" for c
    using b(3,4) that by (auto simp: frame_def)
  ultimately have "tx_inv (insert b H) t"
    using inv b(5,8) l by (auto simp: tx_inv_def)
  then show ?thesis using b l frame_log_frame by blast
qed

lemma tx_log_write:
  assumes inv: "tx_inv H s" and b: "b \<in> H" "bkey s b = (d, n)" and h: "log_home s d n"
    and room: "card (logged s) < log_cap s"
  shows "\<exists>t. log_write b (set_data b x s) = Inr t \<and> tx_inv H t \<and> log_frame {b} s t \<and> bkey t b = (d, n) \<and>
    b_data (bufs t b) = x \<and> view t = (view s)(d := (view s d)(n := x)) \<and> logged t = insert (d, n) (logged s)"
proof -
  have li: "log_inv H s" and okb: "bc_ok H s" and wf: "log_wf s"
    using inv by (auto simp: tx_inv_def log_inv_def)
  let ?s = "set_data b x s"
  note sd = bc.put_law [OF okb b, of x]
  have l: "log_inv H ?s" "logged ?s = logged s" "log_outstanding ?s = log_outstanding s"
    using log_inv_frame [OF li, of H ?s "{b}"] sd by auto
  note f = frame_log [of "{b}" s ?s]
  have "lh_n s < int (log_size s) - 1"
    using room wf by (simp add: card_logged [OF wf] log_cap_def log_wf_def)
  then have pre: "bkey ?s b = (ROOTDEV, n)" "n \<notin> log_region ?s" "lh_n ?s < int (log_size ?s) - 1"
      "0 < log_outstanding ?s"
    using h sd inv f by (auto simp: log_home_def tx_inv_def log_region_def)
  obtain t where t: "log_write b ?s = Inr t" "log_inv H t" "log_frame {b} ?s t" "view t = view ?s"
    "dblk t = dblk ?s" "b_data (bufs t b) = b_data (bufs ?s b)"
    "bkey t b = (ROOTDEV, n)" "logged t = insert (ROOTDEV, n) (logged ?s)"
    by (rule log_write_ok [OF l(1) b(1) pre])
  have lf: "log_frame {b} s t"
    using log_frame_trans [OF frame_log_frame t(3), of "{b}" s] sd by auto
  have "tx_inv H t"
    using inv t(2,5,7,8) l(2) sd lf by (auto simp: tx_inv_def log_frame_def) metis+
  moreover have "d = ROOTDEV" using h by (simp add: log_home_def)
  ultimately show ?thesis using t sd lf l(2) by (intro exI [of _ t]) auto
qed

lemma tx_brelse:
  assumes inv: "tx_inv H s" and b: "b \<in> H"
  shows "\<exists>t. brelse b s = Inr t \<and> tx_inv (H - {b}) t \<and> log_frame {b} s t \<and> view t = view s \<and>
    logged t = logged s"
proof -
  have li: "log_inv H s" and okb: "bc_ok H s" and p: "pins s = logged s"
    using inv by (auto simp: tx_inv_def log_inv_def)
  obtain d n where k: "bkey s b = (d, n)" by simp
  have "(d, n) \<in> pins s \<or> b_data (bufs s b) = dblk s d n"
    using inv b k p by (auto simp: tx_inv_def)
  from bc.brelse_law [OF okb b k this] obtain t where t: "brelse b s = Inr t" "bc_ok (H - {b}) t"
    "frame {b} s t" "view t = view s" "dblk t = dblk s" "pins t = pins s" by blast
  note l = log_inv_frame [OF li t(2,3,5,6)]
  have "tx_inv (H - {b}) t"
    using inv t(3,5) l by (auto simp: tx_inv_def frame_def)
  then show ?thesis using t l frame_log_frame by blast
qed

interpretation tx: journal bread log_write brelse set_data "\<lambda>s b. b_data (bufs s b)" bkey tx_inv
  view logged log_cap log_frame blk_ok log_home
proof
  fix B b C d n and s t u :: "'a logst_scheme"
  show "log_frame B s t \<Longrightarrow> b \<notin> B \<Longrightarrow> bkey t b = bkey s b \<and> b_data (bufs t b) = b_data (bufs s b)"
    by (simp add: log_frame_def)
  show "log_frame B s t \<Longrightarrow> log_frame C t u \<Longrightarrow> log_frame (B \<union> C) s u" by (rule log_frame_trans)
  show "log_frame B s t \<Longrightarrow> log_home t = log_home s \<and> log_cap t = log_cap s"
    by (simp add: log_frame_def log_home_def log_region_def log_cap_def fun_eq_iff)
  show "log_home s d n \<Longrightarrow> blk_ok d n" by (simp add: log_home_def blk_ok_def)
  show "finite (logged s)" by (simp add: logged_def)
qed (fact tx_bread tx_log_write tx_brelse)+

section \<open>The reservation of log space\<close>

text \<open>
  Operations of several processes interleave: each one calls \<open>begin_op\<close>, records at most
  \<open>MAXOPBLOCKS\<close> blocks and calls \<open>end_op\<close>. \<open>log_run us s\<close>: the log is in state \<open>s\<close> with one
  operation in progress for each entry of \<open>us\<close>, the number of blocks it has recorded.
\<close>

inductive log_run :: "nat list \<Rightarrow> 'z logst_scheme \<Rightarrow> bool" where
  run_start: "log_outstanding s = 0 \<Longrightarrow> lh_n s = 0 \<Longrightarrow> log_run [] s"
| run_begin: "log_run us s \<Longrightarrow> begin_op s = Inr t \<Longrightarrow> log_run (0 # us) t"
| run_write: "log_run us s \<Longrightarrow> i < length us \<Longrightarrow> us ! i < MAXOPBLOCKS \<Longrightarrow> log_write b s = Inr t \<Longrightarrow>
    log_run (us[i := Suc (us ! i)]) t"
| run_end: "log_run us s \<Longrightarrow> i < length us \<Longrightarrow> end_op s = Inr t \<Longrightarrow>
    log_run (take i us @ drop (Suc i) us) t"

lemma bio_more_log:
  assumes "bio.more t = bio.more s"
  shows "lh_n t = lh_n s \<and> log_outstanding t = log_outstanding s \<and>
    log_committing t = log_committing s \<and> log_size t = log_size s \<and> log_start t = log_start s \<and>
    lh_block t = lh_block s"
  using assms by (cases s; cases t) simp

lemma rfor_more:
  assumes "rfor xs body s = Inr t" and "\<And>i s t. body i s = Inr t \<Longrightarrow> bio.more t = bio.more s"
  shows "bio.more t = bio.more s"
  using assms(1)
  by (rule rfor_invariant [where P = "\<lambda>t. bio.more t = bio.more s"]) (auto dest: assms(2))

lemma commit_phases_more:
  "write_log s = Inr t \<Longrightarrow> bio.more t = bio.more s"
  "install_trans s = Inr t \<Longrightarrow> bio.more t = bio.more s"
  "write_head s = Inr t \<Longrightarrow> bio.more t = bio.more s"
proof -
  have "bio.more t = bio.more s" if "write_log_one i s = Inr t" for i and s t :: "'a logst_scheme"
    using that
    by (auto simp: write_log_one_def rbind_eq_Inr dest!: bread_more bwrite_more brelse_more)
  then show "write_log s = Inr t \<Longrightarrow> bio.more t = bio.more s"
    unfolding write_log_def using rfor_more by blast
  have "bio.more t = bio.more s" if "install_one i s = Inr t" for i and s t :: "'a logst_scheme"
    using that
    by (auto simp: install_one_def rbind_eq_Inr dest!: bread_more bwrite_more brelse_more)
  then show "install_trans s = Inr t \<Longrightarrow> bio.more t = bio.more s"
    unfolding install_trans_def using rfor_more by blast
  show "write_head s = Inr t \<Longrightarrow> bio.more t = bio.more s"
    by (auto simp: write_head_def rbind_eq_Inr dest!: bread_more bwrite_more brelse_more)
qed

lemma commit_log:
  assumes "commit s = Inr t"
  shows "log_outstanding t = log_outstanding s \<and> (0 \<le> lh_n s \<longrightarrow> lh_n t = 0)"
  using assms
  by (auto simp: commit_def rbind_eq_Inr split: if_splits dest!: commit_phases_more bio_more_log)

lemma log_write_log:
  assumes "log_write b s = Inr t" and "0 \<le> lh_n s"
  shows "log_outstanding t = log_outstanding s" "lh_n t \<le> lh_n s + 1" "lh_n s \<le> lh_n t"
    "lh_n s < int LOGSIZE" "lh_n s < int (log_size s) - 1"
  using assms by (auto simp: log_write_def Let_def split: if_splits)
    (auto simp: set_dirty_def set_buf_def)

lemma end_op_log:
  assumes "end_op s = Inr t" and "0 \<le> lh_n s"
  shows "log_outstanding t = log_outstanding s - 1" "0 \<le> lh_n t" "lh_n t \<le> lh_n s"
  using assms
  by (auto simp: end_op_def Let_def rbind_eq_Inr split: if_splits dest!: commit_log)

definition unused :: "nat list \<Rightarrow> nat" where
  "unused us = (\<Sum>u\<leftarrow>us. MAXOPBLOCKS - u)"

lemma unused_le: "unused us \<le> length us * MAXOPBLOCKS"
  by (induction us) (auto simp: unused_def MAXOPBLOCKS_def)

lemma unused_pos: "0 < unused us \<Longrightarrow> \<exists>i < length us. us ! i < MAXOPBLOCKS"
proof (rule ccontr)
  assume a: "0 < unused us" "\<not> (\<exists>i < length us. us ! i < MAXOPBLOCKS)"
  then have "\<forall>i < length us. MAXOPBLOCKS - us ! i = 0" by (meson diff_is_0_eq not_le_imp_less)
  then have "\<forall>u \<in> set us. MAXOPBLOCKS - u = 0" by (metis in_set_conv_nth)
  then have "unused us = 0" by (simp add: unused_def)
  with a show False by simp
qed

lemma unused_split: "i < length us \<Longrightarrow>
    unused us = unused (take i us @ drop (Suc i) us) + (MAXOPBLOCKS - us ! i)"
  by (subst id_take_nth_drop [of i us]) (simp_all add: unused_def)

lemma unused_update:
  assumes "i < length us" and "us ! i < MAXOPBLOCKS"
  shows "Suc (unused (us[i := Suc (us ! i)])) = unused us"
proof -
  have "unused (us[i := Suc (us ! i)]) = unused (take i us @ drop (Suc i) us) + (MAXOPBLOCKS - Suc (us ! i))"
    using assms(1) by (simp add: upd_conv_take_nth_drop unused_def)
  then show ?thesis using unused_split [OF assms(1)] assms(2) by simp
qed

text \<open>
  The same runs with the set of block numbers that each operation in progress has recorded: an operation may
  record a block as often as it likes, but no more than \<open>MAXOPBLOCKS\<close> different ones.
\<close>

inductive block_run :: "nat set list \<Rightarrow> 'z logst_scheme \<Rightarrow> bool" where
  block_start: "log_outstanding s = 0 \<Longrightarrow> lh_n s = 0 \<Longrightarrow> block_run [] s"
| block_begin: "block_run us s \<Longrightarrow> begin_op s = Inr t \<Longrightarrow> block_run ({} # us) t"
| block_write: "block_run us s \<Longrightarrow> i < length us \<Longrightarrow> card (insert (b_blockno (bufs s b)) (us ! i)) \<le> MAXOPBLOCKS \<Longrightarrow>
    log_write b s = Inr t \<Longrightarrow> block_run (us[i := insert (b_blockno (bufs s b)) (us ! i)]) t"
| block_end: "block_run us s \<Longrightarrow> i < length us \<Longrightarrow> end_op s = Inr t \<Longrightarrow>
    block_run (take i us @ drop (Suc i) us) t"

definition log_blocks :: "'z logst_scheme \<Rightarrow> nat set" where
  "log_blocks s = lh_block s ` {..<nat (lh_n s)}"

lemma log_write_blocks:
  assumes "log_write b s = Inr t" and "0 \<le> lh_n s"
  shows "lh_n t = (if b_blockno (bufs s b) \<in> log_blocks s then lh_n s else lh_n s + 1)"
    and "log_blocks t = insert (b_blockno (bufs s b)) (log_blocks s)"
proof -
  let ?x = "b_blockno (bufs s b)"
  define i where "i = log_slot ?x s"
  have t: "lh_n t = (if int i = lh_n s then lh_n s + 1 else lh_n s)" "lh_block t = (lh_block s)(i := ?x)"
    using assms(1) by (auto simp: log_write_def Let_def i_def set_dirty_def set_buf_def split: if_splits)
  have "lh_n t = (if ?x \<in> log_blocks s then lh_n s else lh_n s + 1) \<and> log_blocks t = insert ?x (log_blocks s)"
  proof (cases "find (\<lambda>i. lh_block s i = ?x) [0..<nat (lh_n s)]")
    case None
    then have "i = nat (lh_n s)" by (simp add: i_def log_slot_def)
    moreover have "?x \<notin> log_blocks s" using None by (auto simp: log_blocks_def find_upt_None)
    moreover have "log_blocks t = insert ?x (log_blocks s)"
    proof -
      have n: "nat (lh_n s + 1) = Suc (nat (lh_n s))" using assms(2) by simp
      have "{..<Suc (nat (lh_n s))} = insert (nat (lh_n s)) {..<nat (lh_n s)}" by auto
      then show ?thesis using \<open>i = nat (lh_n s)\<close> assms(2) t by (auto simp: log_blocks_def n)
    qed
    ultimately show ?thesis using t(1) assms(2) by simp
  next
    case (Some k)
    then have k: "i = k" "k < nat (lh_n s)" "lh_block s k = ?x"
      using find_Some_mem [OF Some] by (simp_all add: i_def log_slot_def)
    then have "?x \<in> log_blocks s" by (force simp: log_blocks_def)
    moreover have "lh_block t = lh_block s" using t(2) k by auto
    moreover have "lh_n t = lh_n s" using t(1) k by auto
    ultimately show ?thesis by (simp add: log_blocks_def insert_absorb)
  qed
  then show "lh_n t = (if ?x \<in> log_blocks s then lh_n s else lh_n s + 1)" "log_blocks t = insert ?x (log_blocks s)"
    by simp_all
qed

lemma end_op_running:
  assumes "end_op s = Inr t" and "log_outstanding s \<noteq> 1"
  shows "lh_n t = lh_n s" "lh_block t = lh_block s"
  using assms by (auto simp: end_op_def Let_def split: if_splits)

lemma block_run_inv:
  assumes "block_run us s"
  shows "log_outstanding s = int (length us) \<and> 0 \<le> lh_n s \<and> (\<forall>X \<in> set us. finite X \<and> X \<subseteq> log_blocks s) \<and>
    lh_n s + int (unused (map card us)) \<le> int LOGSIZE"
  using assms
proof induction
  case (block_start s)
  then show ?case by (simp add: unused_def)
next
  case (block_begin us s t)
  have "unused (0 # map card us) \<le> length (0 # map card us) * MAXOPBLOCKS" by (rule unused_le)
  moreover have "log_blocks t = log_blocks s" using block_begin(2) by (auto simp: begin_op_def log_blocks_def split: if_splits)
  ultimately show ?case
    using block_begin by (auto simp: begin_op_def MAXOPBLOCKS_def split: if_splits)
next
  case (block_write us s i b t)
  let ?x = "b_blockno (bufs s b)"
  note w = log_write_log(1) [OF block_write(4)] log_write_blocks [OF block_write(4)]
  have X: "finite (us ! i)" "us ! i \<subseteq> log_blocks s" using block_write(2,5) by auto
  have sub: "set (us[i := insert ?x (us ! i)]) \<subseteq> insert (insert ?x (us ! i)) (set us)" by (rule set_update_subset_insert)
  have u: "lh_n t + int (unused (map card (us[i := insert ?x (us ! i)]))) \<le> lh_n s + int (unused (map card us))"
  proof (cases "?x \<in> us ! i")
    case True
    then have "us[i := insert ?x (us ! i)] = us" by (simp add: insert_absorb)
    then show ?thesis using w(2) X(2) True block_write(5) by auto
  next
    case False
    then have c: "card (insert ?x (us ! i)) = Suc (card (us ! i))" using X(1) by simp
    then have "Suc (unused ((map card us)[i := Suc (map card us ! i)])) = unused (map card us)"
      using block_write(2,3) by (intro unused_update) simp_all
    then have "Suc (unused (map card (us[i := insert ?x (us ! i)]))) = unused (map card us)"
      using c block_write(2) by (simp add: map_update)
    then show ?thesis using w(2) block_write(5) by (auto split: if_splits)
  qed
  have "finite Y \<and> Y \<subseteq> log_blocks t" if "Y \<in> set (us[i := insert ?x (us ! i)])" for Y
  proof -
    have "Y = insert ?x (us ! i) \<or> Y \<in> set us" using that sub by blast
    then show ?thesis using X w(3) block_write(5) by blast
  qed
  then show ?case using u w(1,2) block_write(5) by auto
next
  case (block_end us s i t)
  have sub: "set (take i us @ drop (Suc i) us) \<subseteq> set us" by (auto dest: in_set_takeD in_set_dropD)
  have "unused (map card us) = unused (take i (map card us) @ drop (Suc i) (map card us)) + (MAXOPBLOCKS - map card us ! i)"
    by (rule unused_split) (simp add: block_end(2))
  then have u: "unused (map card (take i us @ drop (Suc i) us)) \<le> unused (map card us)"
    by (simp add: take_map drop_map)
  have "Y \<subseteq> log_blocks t" if Y: "Y \<in> set (take i us @ drop (Suc i) us)" for Y
  proof -
    have "take i us @ drop (Suc i) us \<noteq> []" using Y by (metis empty_iff list.set(1))
    then have "length us \<noteq> 1" using block_end(2) by auto
    then have "log_blocks t = log_blocks s"
      using end_op_running [OF block_end(3)] block_end(4) by (simp add: log_blocks_def)
    then show ?thesis using Y sub block_end(4) by auto
  qed
  then show ?case
    using end_op_log [OF block_end(3)] block_end(2,4) u sub by auto
qed

section \<open>Properties\<close>

text \<open>
  Concrete states: a booted machine over a disk \<open>D\<close>, and one with a transaction of one block in
  progress on an otherwise empty disk whose super block places the log as \<open>mkfs\<close> does.
\<close>

definition boot_log :: "(nat \<Rightarrow> nat \<Rightarrow> block) \<Rightarrow> logst" where
  "boot_log D = bio.extend (boot_bio D) (logst.fields 0 0 0 False 0 0 (\<lambda>_. 0))"

definition demo_disk :: "nat \<Rightarrow> nat \<Rightarrow> block" where
  "demo_disk d l = (if d = 1 \<and> l = 2 then put32 (put32 zero_block 12 30) 16 2 else zero_block)"

definition demo_txn :: logst where
  "demo_txn = (boot_log demo_disk)\<lparr>log_start := 2, log_size := 30, log_outstanding := 1, log_dev := 1,
     lh_n := 1, lh_block := (\<lambda>_. 40),
     bufs := (bufs (boot_log demo_disk))(0 := \<lparr>b_valid = True, b_dirty = True, b_dev = 1, b_blockno = 40,
       b_lock = \<lparr>sl_locked = False, sl_pid = 0\<rparr>, b_refcnt = 0, b_data = (\<lambda>_. 7)\<rparr>)\<rparr>"

lemma boot_log_ok:
  "bc_ok {} (boot_log D)" "pins (boot_log D) = {}" "disk (boot_log D) = D" "dtrace (boot_log D) = []"
proof -
  have io: "same_io (boot_bio D) (boot_log D)"
    by (simp add: same_io_def boot_log_def bio.truncate_def bio.extend_def)
  note o = same_io_obs [OF io] and f = same_io_fields [OF io]
  show "bc_ok {} (boot_log D)" "pins (boot_log D) = {}" "disk (boot_log D) = D" "dtrace (boot_log D) = []"
    by (simp_all add: o f boot_bio_ok)
qed

lemmas demo_defs = demo_txn_def boot_log_def boot_bio_def binit_def bio.extend_def logst.fields_def

lemma demo_bufs: "bufs demo_txn b = \<lparr>b_valid = (b = 0), b_dirty = (b = 0), b_dev = (if b = 0 then 1 else 0),
    b_blockno = (if b = 0 then 40 else 0), b_lock = \<lparr>sl_locked = False, sl_pid = 0\<rparr>, b_refcnt = 0,
    b_data = (if b = 0 then (\<lambda>_. 7) else zero_block)\<rparr>"
  by (simp add: demo_defs)

lemma demo_fields: "log_start demo_txn = 2" "log_size demo_txn = 30" "log_dev demo_txn = 1"
    "lh_n demo_txn = 1" "lh_block demo_txn = (\<lambda>_. 40)" "disk demo_txn = demo_disk" "dtrace demo_txn = []"
    "lru demo_txn = rev [0..<NBUF]" "idle demo_txn" "log_outstanding demo_txn = 1"
  by (simp_all add: demo_defs fold_Cons idle_def)

lemma demo_txn_ok: "txn demo_txn"
proof -
  have "dirty_bufs demo_txn = {0}" by (auto simp: dirty_bufs_def demo_bufs NBUF_def)
  then have "pins demo_txn = {(1, 40)}" by (simp add: pins_def demo_bufs)
  moreover have "logged demo_txn = {(1, 40)}" by (auto simp: logged_def demo_fields ROOTDEV_def)
  moreover have "bc_ok {} demo_txn"
    by (auto simp: bc_ok_def bufs_wf_def coherent_def holds_def demo_bufs demo_fields blk_ok_def ide_consts)
  moreover have "log_wf demo_txn"
    by (auto simp: log_wf_def log_region_def demo_fields log_consts inj_on_def)
  ultimately show ?thesis
    by (simp add: log_inv_def demo_fields dblk_def demo_disk_def get32_def zero_block_def)
qed

lemma demo_view: "view demo_txn 1 40 = (\<lambda>_. 7)" "dblk demo_txn 1 40 = zero_block"
proof -
  show "dblk demo_txn 1 40 = zero_block" by (simp add: dblk_def demo_fields demo_disk_def)
  show "view demo_txn 1 40 = (\<lambda>_. 7)"
    using demo_txn_ok view_cached [of demo_txn 0 1 40] by (simp add: demo_bufs log_inv_def bc_ok_def NBUF_def)
qed

lemma demo_sb: "sb_logstart (sb_of (dblk demo_txn 1 1)) = 2" "sb_nlog (sb_of (dblk demo_txn 1 1)) = 30"
  by (simp_all add: sb_of_def dblk_def demo_fields demo_disk_def le_simps)

lemma empty_txn:
  assumes "bc_ok {} t" and "pins t = {}" and "lh_n t = 0" and "log_dev t = ROOTDEV"
    and "1 < log_start t" and "0 < log_size t" and "log_size t \<le> LOGSIZE"
    and "log_start t + log_size t \<le> FSSIZE" and "get32 (dblk t ROOTDEV (log_start t)) 0 = 0"
  shows "txn t"
  using assms by (simp add: log_inv_def log_wf_def logged_def)

lemma commit_disk:
  assumes txn: "txn s" and pos: "0 < lh_n s" and c: "commit s = Inr t"
  shows "dtrace t = dtrace s @ map sectors (commit_writes s)" "txn t" "lh_n t = 0"
    "dblk t = replay (dblk s) (commit_writes s)" "view t = dblk t"
    "get32 (dblk t ROOTDEV (log_start s)) 0 = 0"
proof -
  obtain t' where t': "commit s = Inr t'" "after_writes (s\<lparr>lh_n := 0\<rparr>) (commit_writes s) t'" "pins t' = {}"
    by (rule commit_ok [OF txn pos])
  have a: "after_writes (s\<lparr>lh_n := 0\<rparr>) (commit_writes s) t" "pins t = {}" using c t' by auto
  note o = same_io_obs [OF same_io_log(1) [of s 0]]
  note f = after_writes_log [OF a(1)]
  have wf: "log_wf s" using txn by (simp add: log_inv_def)
  show "dtrace t = dtrace s @ map sectors (commit_writes s)"
    using a(1) o by (simp add: after_writes_def)
  show n: "lh_n t = 0" using f by simp
  show d: "dblk t = replay (dblk s) (commit_writes s)" using a(1) o by (simp add: after_writes_def)
  have ok: "bc_ok {} t" using a(1) by (simp add: after_writes_def)
  show "view t = dblk t" using view_unpinned [OF ok] a(2) by (simp add: fun_eq_iff)
  show "get32 (dblk t ROOTDEV (log_start s)) 0 = 0"
    unfolding d commit_writes_def Let_def append_assoc [symmetric] replay_snoc
    by (simp add: head_bytes_0)
  with ok a(2) n wf f show "txn t"
    by (intro empty_txn) (auto simp: log_wf_def)
qed

lemma replay_disk: "disk b = replay (disk s) (map sectors ws) \<Longrightarrow> dblk b = replay (dblk s) ws"
  by (simp add: fun_eq_iff dblk_def replay_sectors [of "disk s", symmetric])
    (simp add: replay_sectors dblk_def [abs_def])

text \<open>
  C1: a commit is atomic under a crash. Cut the block writes of \<open>commit\<close> after any number \<open>k\<close> of
  them and boot from the disk they leave: \<open>initlog\<close> returns, with an empty log, and every block
  outside the log region has either its contents from before the transaction (when the header
  was not written yet) or the contents the transaction gave it.
\<close>

theorem commit_crash_atomic:
  assumes txn: "txn s" and pos: "0 < lh_n s" and c: "commit s = Inr t"
    and sb: "sb_logstart (sb_of (dblk s ROOTDEV 1)) = log_start s" "sb_nlog (sb_of (dblk s ROOTDEV 1)) = log_size s"
    and one: "\<forall>i < nat (lh_n s). lh_block s i \<noteq> 1"
    and b: "bc_ok {} b" "pins b = {}"
    and crash: "disk b = replay (disk s) (take k (drop (length (dtrace s)) (dtrace t)))"
  shows "\<exists>r. initlog ROOTDEV b = Inr r \<and> txn r \<and> lh_n r = 0 \<and>
    (\<forall>m. m \<notin> log_region s \<longrightarrow> view r ROOTDEV m =
       (if k \<le> nat (lh_n s) then dblk s ROOTDEV m else view s ROOTDEV m))"
proof -
  have wf: "log_wf s" using txn by (simp add: log_inv_def)
  have "disk b = replay (disk s) (map sectors (take k (commit_writes s)))"
    using crash commit_disk(1) [OF txn pos c] by (simp add: take_map)
  note D = replay_disk [OF this]
  have "dblk b ROOTDEV 1 = dblk s ROOTDEV 1"
    unfolding D using wf one by (intro commit_writes_keep) (auto simp: log_wf_def log_region_def)
  then have sb': "sb_logstart (sb_of (dblk b ROOTDEV 1)) = log_start s"
      "sb_nlog (sb_of (dblk b ROOTDEV 1)) = log_size s" using sb by simp_all
  note ca = crash_any [OF txn, of k, folded D, unfolded crash_ok_def Let_def]
  have geo: "blk_ok ROOTDEV 1" "1 < log_start s" "log_size s \<le> LOGSIZE"
      "log_start s + log_size s \<le> FSSIZE" "0 < log_size s"
    using wf by (auto simp: log_wf_def blk_ok_def FSSIZE_def)
  obtain r where r: "initlog ROOTDEV b = Inr r" "bc_ok {} r" "pins r = {}" "lh_n r = 0"
    "log_start r = log_start s" "log_size r = log_size s" "log_dev r = ROOTDEV"
    "get32 (dblk r ROOTDEV (log_start s)) 0 = 0"
    "\<And>d m. (d, m) \<noteq> (ROOTDEV, log_start s) \<Longrightarrow> dblk r d m = recovered (log_start s) (dblk b) d m"
    by (rule initlog_ok [OF b geo(1) sb' geo(2-4) refl conjunct1 [OF ca]]) (rule that)
  have "view r ROOTDEV m = (if k \<le> nat (lh_n s) then dblk s ROOTDEV m else view s ROOTDEV m)"
    if m: "m \<notin> log_region s" for m
  proof -
    have "m \<noteq> log_start s" using m header_in_region [OF wf] by auto
    then show ?thesis
      using view_unpinned [OF r(2)] r(3,9) ca m by (auto split: if_splits)
  qed
  moreover have "txn r" using r geo by (intro empty_txn) simp_all
  ultimately show ?thesis using r by blast
qed

lemma commit_crash_atomic_witness:
  "\<exists>t r1 r2. commit demo_txn = Inr t \<and>
    initlog ROOTDEV (boot_log (replay demo_disk (take 1 (dtrace t)))) = Inr r1 \<and>
    view r1 ROOTDEV 40 = zero_block \<and>
    initlog ROOTDEV (boot_log (replay demo_disk (take 2 (dtrace t)))) = Inr r2 \<and>
    view r2 ROOTDEV 40 = (\<lambda>_. 7)"
proof -
  have n: "0 < lh_n demo_txn" by (simp add: demo_fields)
  obtain t where t: "commit demo_txn = Inr t" by (rule commit_ok [OF demo_txn_ok n])
  have r: "\<exists>r. initlog ROOTDEV (boot_log (replay demo_disk (take k (dtrace t)))) = Inr r \<and>
      view r ROOTDEV 40 = (if k \<le> 1 then zero_block else (\<lambda>_. 7))" for k
    using commit_crash_atomic [OF demo_txn_ok n t, of "boot_log (replay demo_disk (take k (dtrace t)))" k]
      demo_sb demo_view
    by (auto simp: boot_log_ok demo_fields log_region_def ROOTDEV_def)
  show ?thesis using r [of 1] r [of 2] t by auto
qed

text \<open>
  C2: committing a transaction makes it durable and keeps what the kernel sees. \<open>commit\<close> returns,
  the log is empty again, and outside the log region every block on the disk is the block the
  kernel saw before.
\<close>

theorem commit_durable:
  assumes "txn s" and "0 < lh_n s"
  shows "\<exists>t. commit s = Inr t \<and> txn t \<and> lh_n t = 0 \<and>
    (\<forall>m. m \<notin> log_region s \<longrightarrow> view t ROOTDEV m = view s ROOTDEV m \<and> dblk t ROOTDEV m = view s ROOTDEV m)"
proof -
  obtain t where t: "commit s = Inr t" by (rule commit_ok [OF assms])
  note d = commit_disk [OF assms t]
  let ?k = "2 * nat (lh_n s) + 2"
  have all: "take ?k (commit_writes s) = commit_writes s"
    by (simp add: commit_writes_def Let_def log_writes_def)
  have wf: "log_wf s" using assms by (simp add: log_inv_def)
  have "recovered (log_start s) (dblk t) = dblk t"
    by (rule recovered_empty) (simp add: d(6))
  then show ?thesis
    using crash_any [OF assms(1), of ?k] all d t by (auto simp: crash_ok_def)
qed

lemma commit_durable_witness:
  "\<exists>t. commit demo_txn = Inr t \<and> lh_n t = 0 \<and> dblk demo_txn ROOTDEV 40 = zero_block \<and>
    dblk t ROOTDEV 40 = (\<lambda>_. 7)"
  using commit_durable [OF demo_txn_ok] demo_view
  by (auto simp: demo_fields log_region_def ROOTDEV_def)

text \<open>
  \<open>log_write\<close> records the block of a held buffer once. It keeps the invariant of the log, does
  not change what the kernel sees nor the disk, pins the block, and a block that is already
  recorded does not take another slot.
\<close>

theorem log_write_absorbs:
  assumes "log_inv H s" and "b \<in> H" and "bkey s b = (ROOTDEV, n)" and "n \<notin> log_region s"
    and "lh_n s < int (log_size s) - 1" and "0 < log_outstanding s"
  shows "\<exists>t. log_write b s = Inr t \<and> log_inv H t \<and> view t = view s \<and> disk t = disk s \<and>
    logged t = insert (ROOTDEV, n) (logged s) \<and>
    lh_n t = (if (ROOTDEV, n) \<in> logged s then lh_n s else lh_n s + 1)"
proof -
  obtain t where t: "log_write b s = Inr t" "log_inv H t" "view t = view s"
    "logged t = insert (ROOTDEV, n) (logged s)"
    "lh_n t = (if (ROOTDEV, n) \<in> logged s then lh_n s else lh_n s + 1)"
    by (rule log_write_ok [OF assms])
  have "disk t = disk s"
    using t(1) by (auto simp: log_write_def Let_def set_dirty_def split: if_splits)
  then show ?thesis using t by blast
qed

lemma log_write_absorbs_witness:
  "\<exists>b s t. bread ROOTDEV 40 demo_txn = Inr (b, s) \<and> lh_n s = 1 \<and> log_write b s = Inr t \<and> lh_n t = 1"
proof -
  have inv: "tx_inv {} demo_txn" using demo_txn_ok by (simp add: tx_inv_def demo_fields)
  have "\<exists>b t. bread ROOTDEV 40 demo_txn = Inr (b, t) \<and> tx_inv {b} t \<and> b \<notin> {} \<and> log_frame {b} demo_txn t \<and>
    bkey t b = (ROOTDEV, 40) \<and> b_data (bufs t b) = view demo_txn ROOTDEV 40 \<and> view t = view demo_txn \<and>
    logged t = logged demo_txn"
    by (rule tx_bread [OF inv]) (simp_all add: blk_ok_def ide_consts card_logged log_cap_def demo_fields
      demo_txn_ok [unfolded log_inv_def])
  then obtain b s where b: "bread ROOTDEV 40 demo_txn = Inr (b, s)" "tx_inv {b} s" "bkey s b = (ROOTDEV, 40)"
    by blast
  note f = bio_more_log [OF bread_more [OF b(1)]]
  have "(ROOTDEV, 40) \<in> logged s" by (auto simp: logged_def f demo_fields)
  then show ?thesis
    using log_write_absorbs [of "{b}" s b 40] b
    by (auto simp: tx_inv_def f demo_fields log_region_def)
qed

text \<open>
  C3: The reservation of \<open>begin_op\<close>. However \<open>begin_op\<close>, \<open>log_write\<close> and \<open>end_op\<close> interleave, if no operation
  records more than \<open>MAXOPBLOCKS\<close> different blocks then the log holds every block that an operation in progress has
  recorded, and the blocks in the log and those that the operations in progress may still record are together at most
  \<open>LOGSIZE\<close>. So if the log region has more than \<open>LOGSIZE\<close> blocks, the header included, an operation that has
  recorded fewer than \<open>MAXOPBLOCKS\<close> blocks can record one more: \<open>log_write\<close> does not panic.
\<close>

theorem log_reservation:
  assumes "block_run us s"
  shows "lh_n s + (\<Sum>X\<leftarrow>us. int (MAXOPBLOCKS - card X)) \<le> int LOGSIZE \<and>
    (\<forall>X \<in> set us. X \<subseteq> log_blocks s) \<and>
    (LOGSIZE < log_size s \<longrightarrow> (\<forall>X \<in> set us. card X < MAXOPBLOCKS \<longrightarrow> (\<exists>t. log_write b s = Inr t)))"
proof -
  note inv = block_run_inv [OF assms]
  have u: "int (unused (map card us)) = (\<Sum>X\<leftarrow>us. int (MAXOPBLOCKS - card X))"
    unfolding unused_def by (induction us) simp_all
  have "\<exists>t. log_write b s = Inr t" if l: "LOGSIZE < log_size s" and X: "X \<in> set us" "card X < MAXOPBLOCKS" for X
  proof -
    obtain i where i: "i < length us" "us ! i = X" using X(1) by (auto simp: in_set_conv_nth)
    then have "0 < unused (map card us)" using unused_split [of i "map card us"] X(2) by simp
    moreover have "0 < length us" using X(1) by auto
    ultimately show ?thesis using inv l by (simp add: log_write_def Let_def)
  qed
  then show ?thesis using inv u by auto
qed

definition demo_log :: "nat \<Rightarrow> logst" where
  "demo_log n = (boot_log demo_disk)\<lparr>log_size := n,
     bufs := (\<lambda>b. (bufs (boot_log demo_disk) b)\<lparr>b_blockno := 100 + b\<rparr>)\<rparr>"

lemma demo_log_fields:
  "log_size (demo_log n) = n" "lh_n (demo_log n) = 0" "log_outstanding (demo_log n) = 0"
  "log_committing (demo_log n) = False" "b_blockno (bufs (demo_log n) b) = 100 + b"
  by (simp_all add: demo_log_def boot_log_def bio.extend_def logst.fields_def boot_bio_def binit_def)

lemma log_reservation_witness:
  "\<exists>s t. begin_op (demo_log 31) = Inr s \<and> log_write 0 s = Inr t \<and> lh_n s + 10 \<le> int LOGSIZE"
proof -
  obtain s where s: "begin_op (demo_log 31) = Inr s" "log_size s = 31"
    by (simp add: begin_op_def demo_log_fields log_consts)
  have "block_run [{}] s"
    by (rule block_begin [OF block_start s(1)]) (simp_all add: demo_log_fields)
  then show ?thesis using log_reservation [of "[{}]" s 0] s by (auto simp: log_consts)
qed

lemma fill_log:
  assumes "k \<le> 29"
  shows "\<exists>us s. log_run us (s :: logst) \<and> log_size s = LOGSIZE \<and> lh_n s = int k \<and>
    log_outstanding s = 3 \<and> unused us = 30 - k \<and> (\<forall>i < k. lh_block s i = 100 + i) \<and>
    (\<forall>b. b_blockno (bufs s b) = 100 + b)"
  using assms
proof (induction k)
  case 0
  let ?s = "demo_log LOGSIZE"
  let ?t = "\<lambda>i. ?s\<lparr>log_outstanding := i\<rparr>"
  note f = demo_log_fields log_consts
  have r0: "log_run [] ?s" by (rule run_start) (simp_all add: f)
  have r1: "log_run [0] (?t 1)" by (rule run_begin [OF r0]) (simp add: begin_op_def f)
  have r2: "log_run [0, 0] (?t 2)" by (rule run_begin [OF r1]) (simp add: begin_op_def f)
  have r3: "log_run [0, 0, 0] (?t 3)" by (rule run_begin [OF r2]) (simp add: begin_op_def f)
  have "unused [0, 0, 0] = 30" by (simp add: unused_def MAXOPBLOCKS_def)
  then show ?case
    using r3 by (intro exI [of _ "[0, 0, 0]"] exI [of _ "?t 3"]) (simp add: f)
next
  case (Suc k)
  then obtain us and s :: logst where s: "log_run us s" "log_size s = LOGSIZE" "lh_n s = int k"
    "log_outstanding s = 3" "unused us = 30 - k" "\<And>i. i < k \<Longrightarrow> lh_block s i = 100 + i"
    "\<And>b. b_blockno (bufs s b) = 100 + b" by (meson Suc_leD)
  then obtain i where i: "i < length us" "us ! i < MAXOPBLOCKS"
    using unused_pos [of us] Suc.prems by auto
  have "find (\<lambda>i. lh_block s i = 100 + k) [0..<k] = None"
    using s(6) by (auto simp: find_upt_None)
  then have slot: "log_slot (100 + k) s = k" by (simp add: log_slot_def s(3))
  obtain t where t: "log_write k s = Inr t" "t = set_dirty k (s\<lparr>lh_block := (lh_block s)(k := 100 + k), lh_n := int k + 1\<rparr>)"
    using Suc.prems by (simp add: log_write_def s slot log_consts Let_def)
  have "log_run (us[i := Suc (us ! i)]) t" by (rule run_write [OF s(1) i t(1)])
  moreover have "unused (us[i := Suc (us ! i)]) = 30 - Suc k"
    using unused_update [OF i] s(5) by simp
  ultimately show ?case
    using s t(2)
    by (intro exI [of _ "us[i := Suc (us ! i)]"] exI [of _ t]) (auto simp: set_dirty_def set_buf_def)
qed

text \<open>
  C4: with the log region \<open>mkfs\<close> makes (\<open>nlog = LOGSIZE\<close>, the header included) the reservation is
  one block short. Three operations run, and one that is still within its \<open>MAXOPBLOCKS\<close> blocks
  brings the kernel down with \<open>too big a transaction\<close>.
\<close>

theorem log_reservation_short:
  "\<exists>us i b s. log_run us (s :: logst) \<and> log_size s = LOGSIZE \<and> i < length us \<and> us ! i < MAXOPBLOCKS \<and>
    log_write b s = Inl (Panic ''too big a transaction'')"
proof -
  obtain us and s :: logst where s: "log_run us s" "log_size s = LOGSIZE" "lh_n s = 29" "unused us = 1"
    using fill_log [of 29] by auto
  have "\<exists>i < length us. us ! i < MAXOPBLOCKS" by (rule unused_pos) (simp add: s)
  moreover have "log_write 0 s = Inl (Panic ''too big a transaction'')"
    by (simp add: log_write_def s log_consts)
  ultimately show ?thesis using s by blast
qed

end
