(* ===== verification/CString.thy ===== *)
theory CString
  imports Prelude
begin

text \<open>
  The memory and string routines of the kernel (\<open>src/string.c\<close>) and of the user library
  (\<open>src/ulib.c\<close>). Memory is a function from addresses to bytes. A routine that only reads takes
  the bytes from its pointer on, \<open>p 0, p 1, \<dots>\<close>; a loop with no bound of its own is a partial
  function, \<open>None\<close> when it does not stop. The theorems give each routine's effect in closed form:
  the word fill of \<open>memset\<close> is the byte fill, \<open>memmove\<close> copies as if through a temporary whatever
  the overlap, the bounded string routines read and write only within their bound.
\<close>

type_synonym mem = "nat \<Rightarrow> byte"

text \<open>The memory at a pointer to the bytes \<open>bs\<close> and a terminator.\<close>

definition bytes_at :: "byte list \<Rightarrow> mem" where
  "bytes_at bs i = (if i < length bs then bs ! i else 0)"

section \<open>Kernel routines\<close>

fun stosb :: "mem \<Rightarrow> nat \<Rightarrow> byte \<Rightarrow> nat \<Rightarrow> mem" where
  "stosb m a c 0 = m"
| "stosb m a c (Suc n) = stosb (m(a := c)) (Suc a) c n"

fun stosl :: "mem \<Rightarrow> nat \<Rightarrow> 32 word \<Rightarrow> nat \<Rightarrow> mem" where
  "stosl m a w 0 = m"
| "stosl m a w (Suc n) =
     stosl (m(a := ucast w, a + 1 := ucast (drop_bit 8 w), a + 2 := ucast (drop_bit 16 w),
       a + 3 := ucast (drop_bit 24 w))) (a + 4) w n"

definition memset :: "mem \<Rightarrow> nat \<Rightarrow> 32 word \<Rightarrow> nat \<Rightarrow> mem" where
  "memset m dst c n =
     (if dst mod 4 = 0 \<and> n mod 4 = 0 then
        let c = c AND 0xFF
        in stosl m dst (push_bit 24 c OR push_bit 16 c OR push_bit 8 c OR c) (n div 4)
      else stosb m dst (ucast c) n)"

fun memcmp :: "mem \<Rightarrow> mem \<Rightarrow> nat \<Rightarrow> int" where
  "memcmp s1 s2 0 = 0"
| "memcmp s1 s2 (Suc n) =
     (if s1 0 \<noteq> s2 0 then uint (s1 0) - uint (s2 0)
      else memcmp (\<lambda>i. s1 (Suc i)) (\<lambda>i. s2 (Suc i)) n)"

fun copy_up :: "mem \<Rightarrow> nat \<Rightarrow> nat \<Rightarrow> nat \<Rightarrow> mem" where
  "copy_up m d s 0 = m"
| "copy_up m d s (Suc n) = copy_up (m(d := m s)) (Suc d) (Suc s) n"

fun copy_down :: "mem \<Rightarrow> nat \<Rightarrow> nat \<Rightarrow> nat \<Rightarrow> mem" where
  "copy_down m d s 0 = m"
| "copy_down m d s (Suc n) = copy_down (m(d - 1 := m (s - 1))) (d - 1) (s - 1) n"

definition memmove :: "mem \<Rightarrow> nat \<Rightarrow> nat \<Rightarrow> nat \<Rightarrow> mem" where
  "memmove m dst src n =
     (if src < dst \<and> src + n > dst then copy_down m (dst + n) (src + n) n else copy_up m dst src n)"

definition memcpy :: "mem \<Rightarrow> nat \<Rightarrow> nat \<Rightarrow> nat \<Rightarrow> mem" where
  "memcpy m dst src n = memmove m dst src n"

fun strncmp :: "mem \<Rightarrow> mem \<Rightarrow> nat \<Rightarrow> int" where
  "strncmp p q 0 = 0"
| "strncmp p q (Suc n) =
     (if p 0 \<noteq> 0 \<and> p 0 = q 0 then strncmp (\<lambda>i. p (Suc i)) (\<lambda>i. q (Suc i)) n
      else uint (p 0) - uint (q 0))"

text \<open>
  \<open>strncpy(s, t, n)\<close> and \<open>safestrcpy(s, t, n)\<close> on objects that do not overlap: \<open>i\<close> is how far both
  pointers have moved.
\<close>

fun strncpy_from :: "mem \<Rightarrow> mem \<Rightarrow> nat \<Rightarrow> nat \<Rightarrow> mem" where
  "strncpy_from s t i 0 = s"
| "strncpy_from s t i (Suc n) =
     (if t i \<noteq> 0 then strncpy_from (s(i := t i)) t (Suc i) n
      else stosb (s(i := t i)) (Suc i) 0 n)"

definition strncpy :: "mem \<Rightarrow> mem \<Rightarrow> int \<Rightarrow> mem" where
  "strncpy s t n = strncpy_from s t 0 (nat n)"

fun safestrcpy_from :: "mem \<Rightarrow> mem \<Rightarrow> nat \<Rightarrow> nat \<Rightarrow> mem" where
  "safestrcpy_from s t i 0 = s(i := 0)"
| "safestrcpy_from s t i (Suc n) =
     (if t i \<noteq> 0 then safestrcpy_from (s(i := t i)) t (Suc i) n
      else s(i := t i, Suc i := 0))"

definition safestrcpy :: "mem \<Rightarrow> mem \<Rightarrow> int \<Rightarrow> mem" where
  "safestrcpy s t n = (if n \<le> 0 then s else safestrcpy_from s t 0 (nat (n - 1)))"

partial_function (option) strlen_from :: "mem \<Rightarrow> nat \<Rightarrow> nat option" where
  "strlen_from s n = (if s n \<noteq> 0 then strlen_from s (Suc n) else Some n)"

definition strlen :: "mem \<Rightarrow> nat option" where
  "strlen s = strlen_from s 0"

section \<open>User library\<close>

partial_function (option) strcpy_from :: "mem \<Rightarrow> mem \<Rightarrow> nat \<Rightarrow> mem option" where
  "strcpy_from s t i = (if t i \<noteq> 0 then strcpy_from (s(i := t i)) t (Suc i) else Some (s(i := t i)))"

definition strcpy :: "mem \<Rightarrow> mem \<Rightarrow> mem option" where
  "strcpy s t = strcpy_from s t 0"

partial_function (option) strcmp_from :: "mem \<Rightarrow> mem \<Rightarrow> nat \<Rightarrow> int option" where
  "strcmp_from p q i =
     (if p i \<noteq> 0 \<and> p i = q i then strcmp_from p q (Suc i) else Some (uint (p i) - uint (q i)))"

definition strcmp :: "mem \<Rightarrow> mem \<Rightarrow> int option" where
  "strcmp p q = strcmp_from p q 0"

text \<open>The result of \<open>strchr\<close>: the index of the first \<open>c\<close>, or the null pointer.\<close>

partial_function (option) strchr_from :: "mem \<Rightarrow> byte \<Rightarrow> nat \<Rightarrow> nat option option" where
  "strchr_from s c i =
     (if s i = 0 then Some None else if s i = c then Some (Some i) else strchr_from s c (Suc i))"

definition strchr :: "mem \<Rightarrow> byte \<Rightarrow> nat option option" where
  "strchr s c = strchr_from s c 0"

text \<open>\<open>n = n*10 + *s++ - '0'\<close> on 32-bit integers; an overflow, undefined in C, wraps around.\<close>

partial_function (option) atoi_from :: "mem \<Rightarrow> nat \<Rightarrow> 32 word \<Rightarrow> 32 word option" where
  "atoi_from s i n =
     (if 48 \<le> uint (s i) \<and> uint (s i) \<le> 57
      then atoi_from s (Suc i) (n * 10 + word_of_int (uint (s i)) - 48) else Some n)"

definition atoi :: "mem \<Rightarrow> 32 word option" where
  "atoi s = atoi_from s 0 0"

definition umemmove :: "mem \<Rightarrow> nat \<Rightarrow> nat \<Rightarrow> int \<Rightarrow> mem" where
  "umemmove m dst src n = copy_up m dst src (nat n)"

text \<open>
  \<open>gets(buf, max)\<close>: \<open>input\<close> is the sequence of results of \<open>read(0, &c, 1)\<close>, \<open>None\<close> for a result
  below 1. The result is the buffer and the rest of the input.
\<close>

fun gets_from :: "mem \<Rightarrow> int \<Rightarrow> byte option list \<Rightarrow> nat \<Rightarrow> mem \<times> byte option list" where
  "gets_from buf mx [] i = (buf(i := 0), [])"
| "gets_from buf mx (x # xs) i =
     (if int i + 1 < mx then
        case x of None \<Rightarrow> (buf(i := 0), xs)
        | Some c \<Rightarrow>
          if c = 10 \<or> c = 13 then (buf(i := c, Suc i := 0), xs)
          else gets_from (buf(i := c)) mx xs (Suc i)
      else (buf(i := 0), x # xs))"

definition gets :: "mem \<Rightarrow> int \<Rightarrow> byte option list \<Rightarrow> mem \<times> byte option list" where
  "gets buf mx input = gets_from buf mx input 0"

section \<open>Fills and copies\<close>

lemma stosb_fill: "stosb m a c n = (\<lambda>x. if a \<le> x \<and> x < a + n then c else m x)"
  by (induction n arbitrary: m a) (auto simp: fun_eq_iff)

lemma stosl_fill:
  assumes "ucast w = c" "ucast (drop_bit 8 w) = c" "ucast (drop_bit 16 w) = c" "ucast (drop_bit 24 w) = c"
  shows "stosl m a w n = (\<lambda>x. if a \<le> x \<and> x < a + 4 * n then c else m x)"
proof (induction n arbitrary: m a)
  case (Suc n)
  have "x = a \<or> x = a + 1 \<or> x = a + 2 \<or> x = a + 3" if "a \<le> x" "\<not> a + 4 \<le> x" for x
    using that by arith
  then show ?case using Suc assms by (auto simp: fun_eq_iff)
qed (auto simp: fun_eq_iff)

lemma copy_up_eq:
  "\<not> (s < d \<and> s + n > d) \<Longrightarrow>
    copy_up m d s n = (\<lambda>x. if d \<le> x \<and> x < d + n then m (s + (x - d)) else m x)"
proof (induction n arbitrary: m d s)
  case (Suc n)
  then have "copy_up (m(d := m s)) (Suc d) (Suc s) n =
      (\<lambda>x. if Suc d \<le> x \<and> x < Suc d + n then (m(d := m s)) (Suc s + (x - Suc d)) else (m(d := m s)) x)"
    by (intro Suc.IH) auto
  moreover have "Suc s + (x - Suc d) \<noteq> d" if "Suc d \<le> x" "x < Suc d + n" for x
    using that Suc.prems by auto
  ultimately show ?case by (auto simp: fun_eq_iff Suc_diff_Suc le_less)
qed (auto simp: fun_eq_iff)

lemma copy_down_eq:
  "s < d \<Longrightarrow> copy_down m (d + n) (s + n) n = (\<lambda>x. if d \<le> x \<and> x < d + n then m (s + (x - d)) else m x)"
proof (induction n arbitrary: m)
  case (Suc n)
  then have "copy_down (m(d + n := m (s + n))) (d + n) (s + n) n =
      (\<lambda>x. if d \<le> x \<and> x < d + n then (m(d + n := m (s + n))) (s + (x - d)) else (m(d + n := m (s + n))) x)"
    by blast
  then show ?case using Suc.prems by (auto simp: fun_eq_iff less_Suc_eq)
qed (auto simp: fun_eq_iff)

text \<open>The four bytes of the word that \<open>memset\<close> stores.\<close>

lemma fill_word:
  fixes c :: "32 word"
  defines "w \<equiv> push_bit 24 (c AND 0xFF) OR push_bit 16 (c AND 0xFF) OR push_bit 8 (c AND 0xFF) OR (c AND 0xFF)"
  shows "(ucast w :: byte) = ucast c" "(ucast (drop_bit 8 w) :: byte) = ucast c"
    "(ucast (drop_bit 16 w) :: byte) = ucast c" "(ucast (drop_bit 24 w) :: byte) = ucast c"
proof -
  have ff: "(0xFF :: 32 word) = mask 8" by (simp add: mask_eq_exp_minus_1)
  show "(ucast w :: byte) = ucast c" "(ucast (drop_bit 8 w) :: byte) = ucast c"
    "(ucast (drop_bit 16 w) :: byte) = ucast c" "(ucast (drop_bit 24 w) :: byte) = ucast c"
    by (rule bit_word_eqI; auto simp: w_def ff bit_simps)+
qed

lemma memset_eq:
  "memset m dst c n = (\<lambda>a. if dst \<le> a \<and> a < dst + n then ucast c else m a)"
proof (cases "dst mod 4 = 0 \<and> n mod 4 = 0")
  case True
  then have n: "4 * (n div 4) = n" by auto
  show ?thesis
    unfolding memset_def Let_def if_P [OF True] stosl_fill [OF fill_word] n ..
next
  case False
  show ?thesis unfolding memset_def if_not_P [OF False] stosb_fill ..
qed

lemma memmove_eq:
  "memmove m dst src n = (\<lambda>a. if dst \<le> a \<and> a < dst + n then m (src + (a - dst)) else m a)"
  by (auto simp: memmove_def copy_up_eq copy_down_eq)

section \<open>Strings\<close>

text \<open>The string of at most \<open>n\<close> characters that starts at a pointer.\<close>

definition cstr :: "nat \<Rightarrow> mem \<Rightarrow> byte list" where
  "cstr n p = takeWhile (\<lambda>c. c \<noteq> 0) (map p [0..<n])"

definition has_str :: "mem \<Rightarrow> byte list \<Rightarrow> bool" where
  "has_str p cs \<longleftrightarrow> (\<forall>i < length cs. p i = cs ! i \<and> cs ! i \<noteq> 0) \<and> p (length cs) = 0"

lemma cstr_Suc: "cstr (Suc n) p = (if p 0 = 0 then [] else p 0 # cstr n (\<lambda>i. p (Suc i)))"
proof -
  have "map p [0..<Suc n] = p 0 # map (\<lambda>i. p (Suc i)) [0..<n]"
    by (simp add: upt_conv_Cons map_Suc_upt [symmetric] del: upt_Suc)
  then show ?thesis by (simp add: cstr_def del: upt_Suc)
qed

lemma cstr_0 [simp]: "cstr 0 p = []"
  by (simp add: cstr_def)

lemma length_cstr: "length (cstr n p) \<le> n"
  using length_takeWhile_le [of _ "map p [0..<n]"] by (simp add: cstr_def)

lemma strncmp_zero: "strncmp p q n = 0 \<longleftrightarrow> cstr n p = cstr n q"
  by (induction p q n rule: strncmp.induct) (auto simp: cstr_Suc unsigned_eq_0_iff dest: unsigned_word_eqI)

lemma strncpy_from_eq:
  "strncpy_from s t i n =
    (\<lambda>a. if i \<le> a \<and> a < i + n then (if \<exists>j. i \<le> j \<and> j \<le> a \<and> t j = 0 then 0 else t a) else s a)"
proof (induction n arbitrary: s i)
  case 0
  show ?case by (rule ext) auto
next
  case (Suc n)
  show ?case
  proof (cases "t i = 0")
    case True
    have "\<exists>j. i \<le> j \<and> j \<le> a \<and> t j = 0" if "i \<le> a" for a using True that by blast
    then show ?thesis using True by (auto simp: stosb_fill fun_eq_iff)
  next
    case False
    have e: "(\<exists>j. Suc i \<le> j \<and> j \<le> a \<and> t j = 0) \<longleftrightarrow> (\<exists>j. i \<le> j \<and> j \<le> a \<and> t j = 0)" for a
      using False by (metis Suc_leD le_antisym not_less_eq_eq)
    show ?thesis
      using False by (auto simp: Suc.IH e fun_eq_iff)
  qed
qed

lemma strncpy_eq:
  "strncpy s t n = (\<lambda>a. if int a < n then (if \<exists>j \<le> a. t j = 0 then 0 else t a) else s a)"
  by (auto simp: strncpy_def strncpy_from_eq fun_eq_iff zless_nat_eq_int_zless)

lemma safestrcpy_from_end:
  "\<exists>j. i \<le> j \<and> j \<le> i + n \<and> safestrcpy_from s t i n j = 0 \<and>
    (\<forall>k. i \<le> k \<and> k < j \<longrightarrow> safestrcpy_from s t i n k = t k \<and> t k \<noteq> 0)"
  "\<And>a. a < i \<or> i + n < a \<Longrightarrow> safestrcpy_from s t i n a = s a"
proof (induction n arbitrary: s i)
  case 0
  {
    case 1
    show ?case by auto
  next
    case (2 a)
    then show ?case by auto
  }
next
  case (Suc n)
  {
    case 1
    show ?case
    proof (cases "t i = 0")
      case True
      then show ?thesis by (intro exI [of _ i]) auto
    next
      case False
      obtain j where j: "Suc i \<le> j" "j \<le> Suc i + n" "safestrcpy_from (s(i := t i)) t (Suc i) n j = 0"
        "\<forall>k. Suc i \<le> k \<and> k < j \<longrightarrow> safestrcpy_from (s(i := t i)) t (Suc i) n k = t k \<and> t k \<noteq> 0"
        using Suc.IH(1) by blast
      have "safestrcpy_from (s(i := t i)) t (Suc i) n i = t i" using Suc.IH(2) by simp
      then have "safestrcpy_from (s(i := t i)) t (Suc i) n k = t k \<and> t k \<noteq> 0" if "i \<le> k" "k < j" for k
        using j(4) False that by (cases "k = i") auto
      then show ?thesis using j(1-3) False by (intro exI [of _ j]) auto
    qed
  next
    case (2 a)
    then show ?case using Suc.IH(2) [of a "Suc i"] by auto
  }
qed

lemma safestrcpy_str:
  assumes "0 < n"
  shows "\<exists>j. int j < n \<and> safestrcpy s t n j = 0 \<and> (\<forall>k < j. safestrcpy s t n k = t k \<and> t k \<noteq> 0) \<and>
    (\<forall>a. n \<le> int a \<longrightarrow> safestrcpy s t n a = s a)"
proof -
  obtain m where n: "n = int (Suc m)" using assms by (metis zero_less_imp_eq_int gr0_implies_Suc)
  have e: "safestrcpy s t n = safestrcpy_from s t 0 m" by (simp add: safestrcpy_def n)
  obtain j where "j \<le> m" "safestrcpy_from s t 0 m j = 0"
    "\<forall>k < j. safestrcpy_from s t 0 m k = t k \<and> t k \<noteq> 0"
    using safestrcpy_from_end(1) [where i = 0 and n = m and s = s and t = t] by auto
  then show ?thesis
    using safestrcpy_from_end(2) [where i = 0 and n = m and s = s and t = t]
    unfolding e by (intro exI [of _ j]) (auto simp: n)
qed

lemma strlen_from_str:
  "has_str p cs \<Longrightarrow> i \<le> length cs \<Longrightarrow> strlen_from p i = Some (length cs)"
proof (induction "length cs - i" arbitrary: i)
  case 0
  then show ?case by (subst strlen_from.simps) (simp add: has_str_def)
next
  case (Suc k)
  then have "strlen_from p (Suc i) = Some (length cs)" by auto
  then show ?case using Suc by (subst strlen_from.simps) (auto simp: has_str_def)
qed

lemma strlen_str: "has_str p cs \<Longrightarrow> strlen p = Some (length cs)"
  by (simp add: strlen_def strlen_from_str)

end
