(* ===== verification/Inode.thy ===== *)
theory Inode
  imports Log CString
begin

text \<open>
  The inode cache that both file systems share: \<open>struct inode\<close> of \<open>src/file.h\<close>, \<open>struct icache\<close> of
  \<open>src/icache.h\<close>, the tables of block addresses, and \<open>iget\<close> and \<open>idup\<close> of \<open>src/fs.c\<close>. A pointer
  to a cached inode is its index in \<open>icache.inode\<close>; \<open>ip->addrs\<close> points into the table of the file
  system the inode belongs to. \<open>fsys\<close> is the state of the file-system code.
\<close>

section \<open>State\<close>

definition NINODE :: nat where "NINODE = 50"
definition NDEV :: int where "NDEV = 10"

datatype iops = Xv6fs_inode_ops | Ext2fs_inode_ops

datatype addrs_ptr = Null_addrs | Xv6fs_slot nat | Ext2fs_slot nat

record inode =
  i_dev :: nat
  i_inum :: nat
  i_ref :: int
  i_lock :: sleeplock
  i_valid :: bool
  i_iops :: "iops option"
  i_type :: int
  i_major :: int
  i_minor :: int
  i_nlink :: int
  i_size :: nat
  i_addrs :: addrs_ptr

record addrs =
  ad_busy :: nat
  ad_addrs :: "nat \<Rightarrow> nat"

text \<open>The fields of \<open>struct ext2_super_block\<close> that the code uses.\<close>

record ext2_super_block =
  s_inodes_count :: nat
  s_blocks_count :: nat
  s_log_block_size :: nat
  s_blocks_per_group :: nat
  s_inodes_per_group :: nat
  s_magic :: nat
  s_inode_size :: nat

record fsys = logst +
  sb :: superblock
  ext2_sb :: ext2_super_block
  icache :: "nat \<Rightarrow> inode"
  xv6fs_addrs :: "nat \<Rightarrow> addrs"
  ext2fs_addrs :: "nat \<Rightarrow> addrs"
  cwd :: nat

definition set_inode :: "nat \<Rightarrow> (inode \<Rightarrow> inode) \<Rightarrow> 'z fsys_scheme \<Rightarrow> 'z fsys_scheme" where
  "set_inode ip f s = s\<lparr>icache := (icache s)(ip := f (icache s ip))\<rparr>"

definition set_xaddrs :: "nat \<Rightarrow> (addrs \<Rightarrow> addrs) \<Rightarrow> 'z fsys_scheme \<Rightarrow> 'z fsys_scheme" where
  "set_xaddrs k f s = s\<lparr>xv6fs_addrs := (xv6fs_addrs s)(k := f (xv6fs_addrs s k))\<rparr>"

definition set_eaddrs :: "nat \<Rightarrow> (addrs \<Rightarrow> addrs) \<Rightarrow> 'z fsys_scheme \<Rightarrow> 'z fsys_scheme" where
  "set_eaddrs k f s = s\<lparr>ext2fs_addrs := (ext2fs_addrs s)(k := f (ext2fs_addrs s k))\<rparr>"

section \<open>Operations\<close>

text \<open>
  \<open>iget\<close>. The index of the second search loop is \<open>j\<close>, the entry it tests is \<open>ext2fs_addrs[i]\<close>.
\<close>

definition iget :: "nat \<Rightarrow> nat \<Rightarrow> 'z fsys_scheme \<Rightarrow> (nat \<times> 'z fsys_scheme) res" where
  "iget dev inum s =
     (case find (\<lambda>p. i_ref (icache s p) > 0 \<and> i_dev (icache s p) = dev \<and> i_inum (icache s p) = inum) [0..<NINODE] of
        Some ip \<Rightarrow> Inr (ip, set_inode ip (\<lambda>x. x\<lparr>i_ref := i_ref x + 1\<rparr>) s)
      | None \<Rightarrow>
        let empty = find (\<lambda>p. i_ref (icache s p) = 0) [0..<NINODE];
            i = (case find (\<lambda>i. ad_busy (xv6fs_addrs s i) = 0) [0..<NINODE] of Some i \<Rightarrow> i | None \<Rightarrow> NINODE)
        in if i \<ge> NINODE then Inl (Undef ''ext2fs_addrs'')
        else
          let j = (case find (\<lambda>j. ad_busy (ext2fs_addrs s i) = 0) [0..<NINODE] of Some j \<Rightarrow> j | None \<Rightarrow> NINODE)
          in case empty of None \<Rightarrow> Inl (Panic ''iget: no inodes'')
          | Some ip \<Rightarrow>
            let s1 = set_inode ip (\<lambda>x. x\<lparr>i_dev := dev, i_inum := inum, i_ref := 1, i_valid := False\<rparr>) s
            in if dev = ROOTDEV then
                 Inr (ip, set_xaddrs i (\<lambda>a. a\<lparr>ad_busy := 1\<rparr>)
                   (set_inode ip (\<lambda>x. x\<lparr>i_iops := Some Xv6fs_inode_ops, i_addrs := Xv6fs_slot i\<rparr>) s1))
               else if j \<ge> NINODE then Inl (Undef ''ext2fs_addrs'')
               else
                 Inr (ip, set_eaddrs j (\<lambda>a. a\<lparr>ad_busy := 1\<rparr>)
                   (set_inode ip (\<lambda>x. x\<lparr>i_iops := Some Ext2fs_inode_ops, i_addrs := Ext2fs_slot j\<rparr>) s1)))"

definition idup :: "nat \<Rightarrow> 'z fsys_scheme \<Rightarrow> nat \<times> 'z fsys_scheme" where
  "idup ip s = (ip, set_inode ip (\<lambda>x. x\<lparr>i_ref := i_ref x + 1\<rparr>) s)"

section \<open>The log below\<close>

text \<open>Changes of the inode cache and of the tables are invisible to the log and the cache.\<close>

definition same_log :: "'y logst_scheme \<Rightarrow> 'z logst_scheme \<Rightarrow> bool" where
  "same_log s t \<longleftrightarrow> logst.truncate t = logst.truncate s"

lemma same_log_fields:
  assumes "same_log s t"
  shows "same_io s t" "bufs t = bufs s" "mypid t = mypid s" "log_start t = log_start s"
    "log_size t = log_size s" "log_dev t = log_dev s" "lh_n t = lh_n s" "lh_block t = lh_block s"
    "log_outstanding t = log_outstanding s" "log_committing t = log_committing s"
  using assms by (simp_all add: same_log_def logst.truncate_def same_io_def bio.truncate_def)

lemma same_log_obs:
  assumes "same_log s t"
  shows "view t = view s" "logged t = logged s" "log_cap t = log_cap s" "log_home t = log_home s"
    "tx_inv H t = tx_inv H s" "bufs t = bufs s" "mypid t = mypid s" "log_start t = log_start s"
    "log_size t = log_size s" "dblk t = dblk s" "txn t = txn s" "log_outstanding t = log_outstanding s"
proof -
  note f = same_log_fields [OF assms] and o = same_io_obs [OF same_log_fields(1) [OF assms]]
  have wf: "log_wf t = log_wf s" "log_region t = log_region s" "logged t = logged s"
    by (simp_all add: f log_wf_def log_region_def logged_def)
  show "view t = view s" "logged t = logged s" "log_cap t = log_cap s" "log_home t = log_home s"
    "bufs t = bufs s" "mypid t = mypid s" "log_start t = log_start s" "log_size t = log_size s"
    "dblk t = dblk s" "log_outstanding t = log_outstanding s"
    by (simp_all add: o f wf log_cap_def log_home_def fun_eq_iff)
  have "log_inv K t = log_inv K s" for K by (simp add: log_inv_def wf o f)
  then show "tx_inv H t = tx_inv H s" "txn t = txn s" by (simp_all add: tx_inv_def wf o f)
qed

lemma same_log_set [simp]:
  "same_log s (set_inode ip g s)" "same_log s (set_xaddrs k h s)" "same_log s (set_eaddrs k h s)"
  "same_log s (s\<lparr>sb := x\<rparr>)" "same_log s (s\<lparr>icache := c\<rparr>)"
  by (simp_all add: same_log_def logst.truncate_def set_inode_def set_xaddrs_def set_eaddrs_def)

lemma set_inode_fields [simp]:
  "icache (set_inode ip g s) = (icache s)(ip := g (icache s ip))" "sb (set_inode ip g s) = sb s"
  "xv6fs_addrs (set_inode ip g s) = xv6fs_addrs s" "ext2fs_addrs (set_inode ip g s) = ext2fs_addrs s"
  "ext2_sb (set_inode ip g s) = ext2_sb s" "cwd (set_inode ip g s) = cwd s"
  by (simp_all add: set_inode_def)

lemma set_xaddrs_fields [simp]:
  "icache (set_xaddrs k h s) = icache s" "sb (set_xaddrs k h s) = sb s"
  "xv6fs_addrs (set_xaddrs k h s) = (xv6fs_addrs s)(k := h (xv6fs_addrs s k))"
  "ext2fs_addrs (set_xaddrs k h s) = ext2fs_addrs s"
  "ext2_sb (set_xaddrs k h s) = ext2_sb s" "cwd (set_xaddrs k h s) = cwd s"
  by (simp_all add: set_xaddrs_def)

lemma set_eaddrs_fields [simp]:
  "icache (set_eaddrs k h s) = icache s" "sb (set_eaddrs k h s) = sb s"
  "ext2fs_addrs (set_eaddrs k h s) = (ext2fs_addrs s)(k := h (ext2fs_addrs s k))"
  "xv6fs_addrs (set_eaddrs k h s) = xv6fs_addrs s"
  "ext2_sb (set_eaddrs k h s) = ext2_sb s" "cwd (set_eaddrs k h s) = cwd s"
  by (simp_all add: set_eaddrs_def)

lemmas set_obs [simp] =
  same_log_obs [OF same_log_set(1)] same_log_obs [OF same_log_set(2)] same_log_obs [OF same_log_set(3)]

end
