(* ===== verification/Fs.thy ===== *)
theory Fs
  imports Inode
begin

text \<open>
  The xv6 file system, \<open>src/fs.c\<close>: the block allocator, inodes, file contents and directories.
  Every change to a block goes through \<open>log_write\<close>. Inside these functions \<open>ip->iops\<close> is
  \<open>xv6fs_inode_ops\<close> (set by \<open>iget\<close> and \<open>ilock\<close>), so a call through it is a call of the
  function here. \<open>devsw\<close>, the table of device functions, is a parameter of the functions that
  reach it.
\<close>

section \<open>Blocks\<close>

definition xv6fs_bzero :: "nat \<Rightarrow> nat \<Rightarrow> 'z logst_scheme \<Rightarrow> 'z logst_scheme res" where
  "xv6fs_bzero dev bno s =
     rbind (bread dev bno s) (\<lambda>(bp, s1).
     rbind (log_write bp (set_data bp zero_block s1)) (\<lambda>s2. brelse bp s2))"

definition balloc_group :: "nat \<Rightarrow> nat \<Rightarrow> 'z fsys_scheme \<Rightarrow> (nat option \<times> 'z fsys_scheme) res" where
  "balloc_group dev b s =
     rbind (bread dev (BBLOCK b (sb s)) s) (\<lambda>(bp, s1).
       case find (\<lambda>bi. \<not> bm_test (b_data (bufs s1 bp)) bi) [0..<min BPB (sb_size (sb s1) - b)] of
         Some bi \<Rightarrow>
           rbind (log_write bp (set_data bp (bm_set (b_data (bufs s1 bp)) bi) s1)) (\<lambda>s2.
           rbind (brelse bp s2) (\<lambda>s3.
           rbind (xv6fs_bzero dev (b + bi) s3) (\<lambda>s4. Inr (Some (b + bi), s4))))
       | None \<Rightarrow> rbind (brelse bp s1) (\<lambda>s2. Inr (None, s2)))"

definition xv6fs_balloc :: "nat \<Rightarrow> 'z fsys_scheme \<Rightarrow> (nat \<times> 'z fsys_scheme) res" where
  "xv6fs_balloc dev s =
     rbind (rfirst (balloc_group dev) (map (\<lambda>g. g * BPB) [0..<(sb_size (sb s) + BPB - 1) div BPB]) s)
       (\<lambda>(r, s1). case r of None \<Rightarrow> Inl (Panic ''balloc: out of blocks'') | Some b \<Rightarrow> Inr (b, s1))"

definition xv6fs_bfree :: "nat \<Rightarrow> nat \<Rightarrow> 'z fsys_scheme \<Rightarrow> 'z fsys_scheme res" where
  "xv6fs_bfree dev b s =
     rbind (bread dev (BBLOCK b (sb s)) s) (\<lambda>(bp, s1).
       let bi = b mod BPB in
       if \<not> bm_test (b_data (bufs s1 bp)) bi then Inl (Panic ''freeing free block'')
       else rbind (log_write bp (set_data bp (bm_clear (b_data (bufs s1 bp)) bi) s1)) (brelse bp))"

section \<open>Inodes\<close>

definition xv6fs_iinit :: "nat \<Rightarrow> 'z fsys_scheme \<Rightarrow> 'z fsys_scheme res" where
  "xv6fs_iinit dev s =
     (let s1 = s\<lparr>icache := (\<lambda>i. if i < NINODE then (icache s i)\<lparr>i_lock := \<lparr>sl_locked = False, sl_pid = 0\<rparr>\<rparr>
                               else icache s i)\<rparr>
      in rbind (xv6fs_readsb dev s1) (\<lambda>(x, s2). Inr (s2\<lparr>sb := x\<rparr>)))"

definition dinode_off :: "nat \<Rightarrow> nat" where
  "dinode_off inum = 64 * (inum mod IPB)"

definition ialloc_try :: "nat \<Rightarrow> int \<Rightarrow> nat \<Rightarrow> 'z fsys_scheme \<Rightarrow> (nat option \<times> 'z fsys_scheme) res" where
  "ialloc_try dev type inum s =
     rbind (bread dev (IBLOCK inum (sb s)) s) (\<lambda>(bp, s1).
       let d = b_data (bufs s1 bp); off = dinode_off inum in
       if sint16 (get16 d off) = 0 then
         rbind (log_write bp (set_data bp (put16 (put_bytes d off (\<lambda>_. 0) 64) off (pat16 type)) s1)) (\<lambda>s2.
         rbind (brelse bp s2) (\<lambda>s3. rbind (iget dev inum s3) (\<lambda>(ip, s4). Inr (Some ip, s4))))
       else rbind (brelse bp s1) (\<lambda>s2. Inr (None, s2)))"

definition xv6fs_ialloc :: "nat \<Rightarrow> int \<Rightarrow> 'z fsys_scheme \<Rightarrow> (nat \<times> 'z fsys_scheme) res" where
  "xv6fs_ialloc dev type s =
     rbind (rfirst (ialloc_try dev type) [1..<sb_ninodes (sb s)] s)
       (\<lambda>(r, s1). case r of None \<Rightarrow> Inl (Panic ''ialloc: no inodes'') | Some ip \<Rightarrow> Inr (ip, s1))"

text \<open>The table entry that \<open>ip->addrs\<close> points to.\<close>

definition xv6fs_ad :: "nat \<Rightarrow> 'z fsys_scheme \<Rightarrow> nat res" where
  "xv6fs_ad ip s =
     (case i_addrs (icache s ip) of Xv6fs_slot k \<Rightarrow> Inr k | _ \<Rightarrow> Inl (Undef ''ip->addrs''))"

definition xv6fs_iupdate :: "nat \<Rightarrow> 'z fsys_scheme \<Rightarrow> 'z fsys_scheme res" where
  "xv6fs_iupdate ip s =
     (let x = icache s ip in
      rbind (xv6fs_ad ip s) (\<lambda>k.
      rbind (bread (i_dev x) (IBLOCK (i_inum x) (sb s)) s) (\<lambda>(bp, s1).
      rbind (log_write bp (set_data bp (put_dinode (b_data (bufs s1 bp)) (dinode_off (i_inum x))
          \<lparr>d_type = i_type x, d_major = i_major x, d_minor = i_minor x, d_nlink = i_nlink x,
           d_size = i_size x, d_addrs = ad_addrs (xv6fs_addrs s1 k)\<rparr>) s1)) (brelse bp))))"

definition xv6fs_ilock :: "nat \<Rightarrow> 'z fsys_scheme \<Rightarrow> 'z fsys_scheme res" where
  "xv6fs_ilock ip s =
     (if i_ref (icache s ip) < 1 then Inl (Panic ''ilock'')
      else rbind (acquiresleep (mypid s) (i_lock (icache s ip))) (\<lambda>lk.
        let s1 = set_inode ip (\<lambda>x. x\<lparr>i_lock := lk\<rparr>) s; x = icache s1 ip in
        if \<not> i_valid x then
          rbind (bread (i_dev x) (IBLOCK (i_inum x) (sb s1)) s1) (\<lambda>(bp, s2).
            let di = dinode_of (b_data (bufs s2 bp)) (dinode_off (i_inum x)) in
            rbind (xv6fs_ad ip s2) (\<lambda>k.
            rbind (brelse bp (set_xaddrs k (\<lambda>a. a\<lparr>ad_addrs := (\<lambda>i. if i < NDIRECT + 1 then d_addrs di i else ad_addrs a i)\<rparr>)
              (set_inode ip (\<lambda>x. x\<lparr>i_type := d_type di, i_major := d_major di, i_minor := d_minor di,
                 i_nlink := d_nlink di, i_size := d_size di, i_iops := Some Xv6fs_inode_ops\<rparr>) s2))) (\<lambda>s3.
            let s4 = set_inode ip (\<lambda>x. x\<lparr>i_valid := True\<rparr>) s3 in
            if i_type (icache s4 ip) = 0 then Inl (Panic ''ilock: no type'') else Inr s4)))
        else Inr s1))"

definition xv6fs_iunlock :: "nat \<Rightarrow> 'z fsys_scheme \<Rightarrow> 'z fsys_scheme res" where
  "xv6fs_iunlock ip s =
     (if \<not> holdingsleep (mypid s) (i_lock (icache s ip)) \<or> i_ref (icache s ip) < 1
      then Inl (Panic ''iunlock'')
      else Inr (set_inode ip (\<lambda>x. x\<lparr>i_lock := releasesleep (i_lock x)\<rparr>) s))"

section \<open>Inode contents\<close>

text \<open>\<open>if((addr = ad->addrs[j]) == 0) ad->addrs[j] = addr = xv6fs_balloc(dev)\<close>\<close>

definition bmap_slot :: "nat \<Rightarrow> nat \<Rightarrow> nat \<Rightarrow> 'z fsys_scheme \<Rightarrow> (nat \<times> 'z fsys_scheme) res" where
  "bmap_slot dev k j s =
     (if ad_addrs (xv6fs_addrs s k) j = 0
      then rbind (xv6fs_balloc dev s) (\<lambda>(addr, s1).
        Inr (addr, set_xaddrs k (\<lambda>a. a\<lparr>ad_addrs := (ad_addrs a)(j := addr)\<rparr>) s1))
      else Inr (ad_addrs (xv6fs_addrs s k) j, s))"

text \<open>The part of \<open>bmap\<close> that reads the indirect block \<open>addr\<close>, from \<open>bread\<close> to \<open>return\<close>.\<close>

definition bmap_entry :: "nat \<Rightarrow> nat \<Rightarrow> nat \<Rightarrow> 'z fsys_scheme \<Rightarrow> (nat \<times> 'z fsys_scheme) res" where
  "bmap_entry dev addr bn s =
     rbind (bread dev addr s) (\<lambda>(bp, s1).
       let addr = get32 (b_data (bufs s1 bp)) (4 * bn) in
       if addr = 0 then
         rbind (xv6fs_balloc dev s1) (\<lambda>(addr, s2).
         rbind (log_write bp (set_data bp (put32 (b_data (bufs s2 bp)) (4 * bn) addr) s2)) (\<lambda>s3.
         rbind (brelse bp s3) (\<lambda>s4. Inr (addr, s4))))
       else rbind (brelse bp s1) (\<lambda>s2. Inr (addr, s2)))"

definition xv6fs_bmap :: "nat \<Rightarrow> nat \<Rightarrow> 'z fsys_scheme \<Rightarrow> (nat \<times> 'z fsys_scheme) res" where
  "xv6fs_bmap ip bn s =
     rbind (xv6fs_ad ip s) (\<lambda>k.
       let dev = i_dev (icache s ip) in
       if bn < NDIRECT then bmap_slot dev k bn s
       else let bn = bn - NDIRECT in
         if bn < NINDIRECT then
           rbind (bmap_slot dev k NDIRECT s) (\<lambda>(addr, s1). bmap_entry dev addr bn s1)
         else Inl (Panic ''bmap: out of range''))"

definition xv6fs_itrunc :: "nat \<Rightarrow> 'z fsys_scheme \<Rightarrow> 'z fsys_scheme res" where
  "xv6fs_itrunc ip s =
     rbind (xv6fs_ad ip s) (\<lambda>k.
       let dev = i_dev (icache s ip);
           clear = (\<lambda>j. set_xaddrs k (\<lambda>a. a\<lparr>ad_addrs := (ad_addrs a)(j := 0)\<rparr>))
       in rbind (rfor [0..<NDIRECT] (\<lambda>i s.
            if ad_addrs (xv6fs_addrs s k) i \<noteq> 0
            then rbind (xv6fs_bfree dev (ad_addrs (xv6fs_addrs s k) i) s) (\<lambda>s1. Inr (clear i s1))
            else Inr s) s) (\<lambda>s1.
          rbind (if ad_addrs (xv6fs_addrs s1 k) NDIRECT \<noteq> 0 then
              rbind (bread dev (ad_addrs (xv6fs_addrs s1 k) NDIRECT) s1) (\<lambda>(bp, s2).
              rbind (rfor [0..<NINDIRECT] (\<lambda>j s.
                let a = get32 (b_data (bufs s bp)) (4 * j) in
                if a \<noteq> 0 then xv6fs_bfree dev a s else Inr s) s2) (\<lambda>s3.
              rbind (brelse bp s3) (\<lambda>s4.
              rbind (xv6fs_bfree dev (ad_addrs (xv6fs_addrs s4 k) NDIRECT) s4) (\<lambda>s5.
              Inr (clear NDIRECT s5)))))
            else Inr s1) (\<lambda>s2.
          xv6fs_iupdate ip (set_inode ip (\<lambda>x. x\<lparr>i_size := 0\<rparr>) s2))))"

definition xv6fs_iput :: "nat \<Rightarrow> 'z fsys_scheme \<Rightarrow> 'z fsys_scheme res" where
  "xv6fs_iput ip s =
     rbind (acquiresleep (mypid s) (i_lock (icache s ip))) (\<lambda>lk.
       let s1 = set_inode ip (\<lambda>x. x\<lparr>i_lock := lk\<rparr>) s; ad = i_addrs (icache s1 ip) in
       rbind (if i_valid (icache s1 ip) \<and> i_nlink (icache s1 ip) = 0 \<and> i_ref (icache s1 ip) = 1 then
           rbind (xv6fs_itrunc ip s1) (\<lambda>s2.
           rbind (xv6fs_iupdate ip (set_inode ip (\<lambda>x. x\<lparr>i_type := 0\<rparr>) s2)) (\<lambda>s3.
           Inr (set_inode ip (\<lambda>x. x\<lparr>i_valid := False, i_iops := None, i_addrs := Null_addrs\<rparr>) s3)))
         else Inr s1) (\<lambda>s2.
       let s3 = set_inode ip (\<lambda>x. x\<lparr>i_lock := releasesleep (i_lock x), i_ref := i_ref x - 1\<rparr>) s2 in
       if i_ref (icache s3 ip) = 0 then
         (case ad of Xv6fs_slot k \<Rightarrow>
            Inr (set_inode ip (\<lambda>x. x\<lparr>i_addrs := Null_addrs\<rparr>) (set_xaddrs k (\<lambda>a. a\<lparr>ad_busy := 0\<rparr>) s3))
          | _ \<Rightarrow> Inl (Undef ''ip->addrs''))
       else Inr s3))"

definition xv6fs_iunlockput :: "nat \<Rightarrow> 'z fsys_scheme \<Rightarrow> 'z fsys_scheme res" where
  "xv6fs_iunlockput ip s = rbind (xv6fs_iunlock ip s) (xv6fs_iput ip)"

record stat =
  st_type :: int
  st_dev :: nat
  st_ino :: nat
  st_nlink :: int
  st_size :: nat

definition xv6fs_stati :: "nat \<Rightarrow> 'z fsys_scheme \<Rightarrow> stat" where
  "xv6fs_stati ip s =
     (let x = icache s ip in
      \<lparr>st_type = i_type x, st_dev = i_dev x, st_ino = i_inum x, st_nlink = i_nlink x, st_size = i_size x\<rparr>)"

text \<open>
  \<open>devsw[major].read(ip, dst, n)\<close> and \<open>devsw[major].write(ip, src, n)\<close>; \<open>None\<close> is a null pointer.
  What a read stores at \<open>dst\<close> is returned as a list of bytes.
\<close>

record 's devsw =
  dev_read :: "int \<Rightarrow> (nat \<Rightarrow> nat \<Rightarrow> 's \<Rightarrow> ((int \<times> byte list) \<times> 's) res) option"
  dev_write :: "int \<Rightarrow> (nat \<Rightarrow> (nat \<Rightarrow> byte) \<Rightarrow> nat \<Rightarrow> 's \<Rightarrow> (int \<times> 's) res) option"

text \<open>
  The copy loops of \<open>readi\<close> and \<open>writei\<close>. The callers check \<open>off + n\<close> for overflow, so \<open>off\<close> and
  \<open>tot\<close> do not wrap around here.
\<close>

function xv6fs_readi_loop :: "nat \<Rightarrow> nat \<Rightarrow> nat \<Rightarrow> nat \<Rightarrow> byte list \<Rightarrow> 'z fsys_scheme \<Rightarrow>
    (byte list \<times> 'z fsys_scheme) res" where
  "xv6fs_readi_loop ip off n tot dst s =
     (if tot < n then
        rbind (xv6fs_bmap ip (off div BSIZE) s) (\<lambda>(addr, s1).
        rbind (bread (i_dev (icache s1 ip)) addr s1) (\<lambda>(bp, s2).
          let m = min (n - tot) (BSIZE - off mod BSIZE);
              dst = dst @ map (b_data (bufs s2 bp)) [off mod BSIZE..<off mod BSIZE + m]
          in rbind (brelse bp s2) (xv6fs_readi_loop ip (off + m) n (tot + m) dst)))
      else Inr (dst, s))"
  by pat_completeness auto
termination
  by (relation "measure (\<lambda>(ip, off, n, tot, dst, s). n - tot)") (auto simp: BSIZE_def)

definition xv6fs_readi :: "'z fsys_scheme devsw \<Rightarrow> nat \<Rightarrow> nat \<Rightarrow> nat \<Rightarrow> 'z fsys_scheme \<Rightarrow>
    ((int \<times> byte list) \<times> 'z fsys_scheme) res" where
  "xv6fs_readi devsw ip off n s =
     (let x = icache s ip in
      if i_type x = T_DEV then
        (if i_major x < 0 \<or> i_major x \<ge> NDEV then Inr ((-1, []), s)
         else case dev_read devsw (i_major x) of None \<Rightarrow> Inr ((-1, []), s) | Some f \<Rightarrow> f ip n s)
      else if off > i_size x \<or> uadd off n < off then Inr ((-1, []), s)
      else
        let n = (if uadd off n > i_size x then i_size x - off else n) in
        rbind (xv6fs_readi_loop ip off n 0 [] s) (\<lambda>(dst, s1). Inr ((sint32 n, dst), s1)))"

function xv6fs_writei_loop :: "nat \<Rightarrow> (nat \<Rightarrow> byte) \<Rightarrow> nat \<Rightarrow> nat \<Rightarrow> nat \<Rightarrow> 'z fsys_scheme \<Rightarrow>
    'z fsys_scheme res" where
  "xv6fs_writei_loop ip src off n tot s =
     (if tot < n then
        rbind (xv6fs_bmap ip (off div BSIZE) s) (\<lambda>(addr, s1).
        rbind (bread (i_dev (icache s1 ip)) addr s1) (\<lambda>(bp, s2).
          let m = min (n - tot) (BSIZE - off mod BSIZE);
              d = put_bytes (b_data (bufs s2 bp)) (off mod BSIZE) (\<lambda>i. src (tot + i)) m
          in rbind (log_write bp (set_data bp d s2)) (\<lambda>s3.
             rbind (brelse bp s3) (xv6fs_writei_loop ip src (off + m) n (tot + m)))))
      else Inr s)"
  by pat_completeness auto
termination
  by (relation "measure (\<lambda>(ip, src, off, n, tot, s). n - tot)") (auto simp: BSIZE_def)

declare xv6fs_readi_loop.simps [simp del] xv6fs_writei_loop.simps [simp del]

definition xv6fs_writei :: "'z fsys_scheme devsw \<Rightarrow> nat \<Rightarrow> (nat \<Rightarrow> byte) \<Rightarrow> nat \<Rightarrow> nat \<Rightarrow> 'z fsys_scheme \<Rightarrow>
    (int \<times> 'z fsys_scheme) res" where
  "xv6fs_writei devsw ip src off n s =
     (let x = icache s ip in
      if i_type x = T_DEV then
        (if i_major x < 0 \<or> i_major x \<ge> NDEV then Inr (-1, s)
         else case dev_write devsw (i_major x) of None \<Rightarrow> Inr (-1, s) | Some f \<Rightarrow> f ip src n s)
      else if off > i_size x \<or> uadd off n < off then Inr (-1, s)
      else if uadd off n > MAXFILE * BSIZE then Inr (-1, s)
      else
        rbind (xv6fs_writei_loop ip src off n 0 s) (\<lambda>s1.
        rbind (if n > 0 \<and> off + n > i_size (icache s1 ip)
               then xv6fs_iupdate ip (set_inode ip (\<lambda>x. x\<lparr>i_size := off + n\<rparr>) s1) else Inr s1) (\<lambda>s2.
        Inr (sint32 n, s2))))"

section \<open>Directories\<close>

definition namecmp :: "(nat \<Rightarrow> byte) \<Rightarrow> (nat \<Rightarrow> byte) \<Rightarrow> int" where
  "namecmp s t = strncmp s t DIRSIZ"

definition dirent_offs :: "nat \<Rightarrow> nat list" where
  "dirent_offs len = map (\<lambda>k. 16 * k) [0..<(len + 15) div 16]"

definition dirlookup_at :: "'z fsys_scheme devsw \<Rightarrow> nat \<Rightarrow> (nat \<Rightarrow> byte) \<Rightarrow> nat \<Rightarrow> 'z fsys_scheme \<Rightarrow>
    ((nat \<times> nat) option \<times> 'z fsys_scheme) res" where
  "dirlookup_at devsw dp name off s =
     rbind (xv6fs_readi devsw dp off 16 s) (\<lambda>((r, bs), s1).
       if r \<noteq> 16 then Inl (Panic ''dirlookup read'')
       else
         let de = dirent_of (bytes_at bs) in
         if de_inum de = 0 then Inr (None, s1)
         else if namecmp name (de_name de) = 0 then
           rbind (iget (i_dev (icache s1 dp)) (de_inum de) s1) (\<lambda>(ip, s2). Inr (Some (ip, off), s2))
         else Inr (None, s1))"

definition xv6fs_dirlookup :: "'z fsys_scheme devsw \<Rightarrow> nat \<Rightarrow> (nat \<Rightarrow> byte) \<Rightarrow> 'z fsys_scheme \<Rightarrow>
    ((nat \<times> nat) option \<times> 'z fsys_scheme) res" where
  "xv6fs_dirlookup devsw dp name s =
     (if i_type (icache s dp) \<noteq> T_DIR then Inl (Panic ''dirlookup not DIR'')
      else rfirst (dirlookup_at devsw dp name) (dirent_offs (i_size (icache s dp))) s)"

definition dirlink_at :: "'z fsys_scheme devsw \<Rightarrow> nat \<Rightarrow> nat \<Rightarrow> 'z fsys_scheme \<Rightarrow>
    (nat option \<times> 'z fsys_scheme) res" where
  "dirlink_at devsw dp off s =
     rbind (xv6fs_readi devsw dp off 16 s) (\<lambda>((r, bs), s1).
       if r \<noteq> 16 then Inl (Panic ''dirlink read'')
       else if de_inum (dirent_of (bytes_at bs)) = 0 then Inr (Some off, s1) else Inr (None, s1))"

definition xv6fs_dirlink :: "'z fsys_scheme devsw \<Rightarrow> nat \<Rightarrow> (nat \<Rightarrow> byte) \<Rightarrow> nat \<Rightarrow> 'z fsys_scheme \<Rightarrow>
    (int \<times> 'z fsys_scheme) res" where
  "xv6fs_dirlink devsw dp name inum s =
     rbind (xv6fs_dirlookup devsw dp name s) (\<lambda>(r, s1).
       case r of Some (ip, _) \<Rightarrow> rbind (xv6fs_iput ip s1) (\<lambda>s2. Inr (-1, s2))
       | None \<Rightarrow>
         let offs = dirent_offs (i_size (icache s1 dp)) in
         rbind (rfirst (dirlink_at devsw dp) offs s1) (\<lambda>(r, s2).
           let off = (case r of Some off \<Rightarrow> off | None \<Rightarrow> 16 * length offs);
               de = put_dirent \<lparr>de_inum = inum mod 2 ^ 16, de_name = strncpy (\<lambda>_. 0) name (int DIRSIZ)\<rparr>
           in rbind (xv6fs_writei devsw dp de off 16 s2) (\<lambda>(w, s3).
                if w \<noteq> 16 then Inl (Panic ''dirlink'') else Inr (0, s3))))"

end
