(* ===== verification/Fs_Blocks.thy ===== *)
theory Fs_Blocks
  imports Fs
begin

text \<open>
  The block allocator of \<open>src/fs.c\<close> against the free map: \<open>balloc\<close> takes the first free block, zeroes
  it and marks it, \<open>bfree\<close> gives it back, and neither touches any other block. The proofs use
  the log only through the interface \<open>journal\<close>.
\<close>

section \<open>Layout and frames\<close>

definition fs_layout :: "'z fsys_scheme \<Rightarrow> bool" where
  "fs_layout s \<longleftrightarrow>
     sb_size (sb s) \<le> FSSIZE \<and> log_start s + log_size s \<le> sb_inodestart (sb s) \<and>
     sb_inodestart (sb s) + sb_ninodes (sb s) div IPB < sb_bmapstart (sb s) \<and>
     sb_bmapstart (sb s) < sb_size (sb s)"

definition bmap_blk :: "'z fsys_scheme \<Rightarrow> nat" where
  "bmap_blk s = sb_bmapstart (sb s)"

definition used :: "'z fsys_scheme \<Rightarrow> nat \<Rightarrow> bool" where
  "used s b \<longleftrightarrow> bm_test (view s ROOTDEV (bmap_blk s)) b"

definition free_blocks :: "'z fsys_scheme \<Rightarrow> nat set" where
  "free_blocks s = {b. b < sb_size (sb s) \<and> \<not> used s b}"

text \<open>
  \<open>fs_inv H\<close>: inside a transaction, with the super block describing the disk and every block that
  the free map calls free in the data area.
\<close>

definition fs_inv :: "nat set \<Rightarrow> 'z fsys_scheme \<Rightarrow> bool" where
  "fs_inv H s \<longleftrightarrow> tx_inv H s \<and> fs_layout s \<and> (\<forall>b \<in> free_blocks s. bmap_blk s < b)"

text \<open>\<open>quiet H s t\<close>: the buffers in \<open>H\<close> and everything above the log are the same.\<close>

definition quiet :: "nat set \<Rightarrow> 'z logst_scheme \<Rightarrow> 'z logst_scheme \<Rightarrow> bool" where
  "quiet H s t \<longleftrightarrow> (\<exists>B. B \<inter> H = {} \<and> log_frame B s t)"

lemma quietI: "log_frame {b} s t \<Longrightarrow> b \<notin> H \<Longrightarrow> quiet H s t"
  by (auto simp: quiet_def)

lemma quiet_refl [simp]: "quiet H s s"
  unfolding quiet_def by (rule exI [of _ "{}"]) simp

lemma quiet_trans: "quiet H s t \<Longrightarrow> quiet H t u \<Longrightarrow> quiet H s u"
  unfolding quiet_def using log_frame_trans by (metis Int_Un_distrib2 Un_empty)

lemma quiet_mono: "quiet H s t \<Longrightarrow> K \<subseteq> H \<Longrightarrow> quiet K s t"
  unfolding quiet_def by blast

lemma log_frame_fsys:
  assumes "log_frame B s t"
  shows "sb t = sb s" "icache t = icache s" "xv6fs_addrs t = xv6fs_addrs s"
    "ext2fs_addrs t = ext2fs_addrs s" "ext2_sb t = ext2_sb s" "cwd t = cwd s"
  using assms by (cases s; cases t; simp add: log_frame_def)+

lemma quiet_fsys:
  assumes "quiet H s t"
  shows "sb t = sb s" "icache t = icache s" "xv6fs_addrs t = xv6fs_addrs s"
    "ext2fs_addrs t = ext2fs_addrs s" "ext2_sb t = ext2_sb s" "cwd t = cwd s" "mypid t = mypid s"
    "log_cap t = log_cap s" "log_home t = log_home s" "log_start t = log_start s"
    "log_size t = log_size s" "\<And>b. b \<in> H \<Longrightarrow> bufs t b = bufs s b"
proof -
  obtain B where B: "B \<inter> H = {}" "log_frame B s t" using assms by (auto simp: quiet_def)
  show "sb t = sb s" "icache t = icache s" "xv6fs_addrs t = xv6fs_addrs s"
    "ext2fs_addrs t = ext2fs_addrs s" "ext2_sb t = ext2_sb s" "cwd t = cwd s"
    using log_frame_fsys [OF B(2)] by simp_all
  show "log_cap t = log_cap s" "log_home t = log_home s" using tx.keeps_home [OF B(2)] by simp_all
  show "mypid t = mypid s" "log_start t = log_start s" "log_size t = log_size s"
    using B(2) by (simp_all add: log_frame_def)
  show "bufs t b = bufs s b" if "b \<in> H" for b using B that by (auto simp: log_frame_def)
qed

lemma quiet_layout: "quiet H s t \<Longrightarrow> fs_layout t = fs_layout s" "quiet H s t \<Longrightarrow> bmap_blk t = bmap_blk s"
  by (simp_all add: fs_layout_def bmap_blk_def quiet_fsys)

lemma data_home:
  assumes "fs_layout s" and "bmap_blk s \<le> b" and "b < sb_size (sb s)"
  shows "log_home s ROOTDEV b"
  using assms by (auto simp: fs_layout_def bmap_blk_def log_home_def log_region_def)

lemma BBLOCK_bmap: "fs_layout s \<Longrightarrow> b < sb_size (sb s) \<Longrightarrow> BBLOCK b (sb s) = bmap_blk s"
  by (simp add: BBLOCK_def fs_layout_def bmap_blk_def fs_consts uadd_small)

lemma fs_inv_bitmap_used:
  assumes "fs_inv H s" and "b \<le> bmap_blk s"
  shows "used s b"
proof (rule ccontr)
  assume "\<not> used s b"
  then have "b \<in> free_blocks s" using assms by (auto simp: fs_inv_def free_blocks_def fs_layout_def bmap_blk_def)
  then show False using assms by (auto simp: fs_inv_def)
qed

section \<open>Allocation\<close>

lemma bzero_ok:
  assumes inv: "tx_inv H s" and h: "log_home s ROOTDEV b" and k: "\<And>x. x \<in> H \<Longrightarrow> bkey s x \<noteq> (ROOTDEV, b)"
    and room: "card H + card (logged s) \<le> log_cap s" "card (logged s) < log_cap s"
  obtains t where "xv6fs_bzero ROOTDEV b s = Inr t" "tx_inv H t" "quiet H s t"
    "view t = (view s)(ROOTDEV := (view s ROOTDEV)(b := zero_block))"
    "logged t = insert (ROOTDEV, b) (logged s)"
proof -
  obtain x t where t: "log_frame {x} s t" "x \<notin> H" "tx_inv H t"
    "view t = (view s)(ROOTDEV := (view s ROOTDEV)(b := zero_block))"
    "logged t = insert (ROOTDEV, b) (logged s)"
    "\<And>k. rbind (bread ROOTDEV b s) (\<lambda>(b, s1). rbind (log_write b (set_data b zero_block s1))
       (\<lambda>s2. rbind (brelse b s2) k)) = (k t :: 'a logst_scheme res)"
    by (rule tx.update_block [OF inv h k room, where f = "\<lambda>_. zero_block"]) (assumption, rule that)
  have "xv6fs_bzero ROOTDEV b s = Inr t"
    using t(6) [of Inr] by (simp add: xv6fs_bzero_def rbind_Inr_right)
  then show thesis using that t quietI by blast
qed

lemma one_group:
  assumes "fs_layout s"
  shows "map (\<lambda>g. g * BPB) [0..<(sb_size (sb s) + BPB - 1) div BPB] = [0]"
    "min BPB (sb_size (sb s)) = sb_size (sb s)"
proof -
  have l: "0 < sb_size (sb s)" "sb_size (sb s) \<le> 1000" using assms by (auto simp: fs_layout_def fs_consts)
  then have "(sb_size (sb s) + BPB - 1) div BPB = 1" by (simp add: fs_consts div_nat_eqI)
  then show "map (\<lambda>g. g * BPB) [0..<(sb_size (sb s) + BPB - 1) div BPB] = [0]" by simp
  show "min BPB (sb_size (sb s)) = sb_size (sb s)" using l by (simp add: fs_consts)
qed

lemma find_free:
  assumes "free_blocks s \<noteq> {}"
  obtains b where "find (\<lambda>bi. \<not> used s bi) [0..<sb_size (sb s)] = Some b" "b \<in> free_blocks s"
    "\<forall>c \<in> free_blocks s. b \<le> c"
proof (cases "find (\<lambda>bi. \<not> used s bi) [0..<sb_size (sb s)]")
  case None
  then show ?thesis using assms by (auto simp: find_upt_None free_blocks_def)
next
  case (Some b)
  then show ?thesis
    using that [OF Some] by (auto simp: find_upt_Some free_blocks_def not_less [symmetric])
qed

text \<open>What the kernel sees after block \<open>b\<close> was taken from the free map.\<close>

definition alloc_view :: "'z fsys_scheme \<Rightarrow> nat \<Rightarrow> nat \<Rightarrow> nat \<Rightarrow> block" where
  "alloc_view s b = (view s)(ROOTDEV := (view s ROOTDEV)
     (bmap_blk s := bm_set (view s ROOTDEV (bmap_blk s)) b, b := zero_block))"

lemma balloc_ok:
  assumes inv: "fs_inv H s" and free: "free_blocks s \<noteq> {}"
    and k: "\<And>x. x \<in> H \<Longrightarrow> bkey s x \<noteq> (ROOTDEV, bmap_blk s)"
    and held: "\<And>x n. x \<in> H \<Longrightarrow> bkey s x = (ROOTDEV, n) \<Longrightarrow> used s n"
    and room: "card H + card (logged s) < log_cap s" "card (logged s) + 2 \<le> log_cap s"
  obtains b t where "xv6fs_balloc ROOTDEV s = Inr (b, t)" "b \<in> free_blocks s" "\<forall>c \<in> free_blocks s. b \<le> c"
    "tx_inv H t" "quiet H s t" "view t = alloc_view s b"
    "logged t = {(ROOTDEV, bmap_blk s), (ROOTDEV, b)} \<union> logged s"
proof -
  have tx: "tx_inv H s" and lay: "fs_layout s" using inv by (auto simp: fs_inv_def)
  have bl: "BBLOCK 0 (sb s) = bmap_blk s" using lay by (intro BBLOCK_bmap) (auto simp: fs_layout_def)
  have bh: "log_home s ROOTDEV (bmap_blk s)"
    using lay by (intro data_home) (auto simp: fs_layout_def bmap_blk_def)
  obtain b where b: "find (\<lambda>bi. \<not> used s bi) [0..<sb_size (sb s)] = Some b" "b \<in> free_blocks s"
    "\<forall>c \<in> free_blocks s. b \<le> c" by (rule find_free [OF free])
  have bm: "bmap_blk s < b" "b < sb_size (sb s)" "\<not> used s b"
    using b(2) inv by (auto simp: fs_inv_def free_blocks_def)
  have "\<exists>x t. bread ROOTDEV (bmap_blk s) s = Inr (x, t) \<and> tx_inv (insert x H) t \<and> x \<notin> H \<and> log_frame {x} s t \<and>
      bkey t x = (ROOTDEV, bmap_blk s) \<and> b_data (bufs t x) = view s ROOTDEV (bmap_blk s) \<and> view t = view s \<and>
      logged t = logged s"
    by (rule tx.bread_law [OF tx tx.home_ok [OF bh] k]) (use room in auto)
  then obtain x s1 where s1: "bread ROOTDEV (bmap_blk s) s = Inr (x, s1)" "tx_inv (insert x H) s1" "x \<notin> H"
    "log_frame {x} s s1" "bkey s1 x = (ROOTDEV, bmap_blk s)"
    "b_data (bufs s1 x) = view s ROOTDEV (bmap_blk s)" "view s1 = view s" "logged s1 = logged s" by blast
  note q1 = quietI [OF s1(4,3)]
  note f1 = quiet_fsys [OF q1]
  have "log_home s1 ROOTDEV (bmap_blk s)" "card (logged s1) < log_cap s1" using bh f1 s1(8) room by auto
  then obtain s2 s3 where s3: "log_write x (set_data x (bm_set (view s ROOTDEV (bmap_blk s)) b) s1) = Inr s2"
    "brelse x s2 = Inr s3" "log_frame {x} s1 s3" "tx_inv H s3"
    "view s3 = (view s1)(ROOTDEV := (view s1 ROOTDEV)(bmap_blk s := bm_set (view s ROOTDEV (bmap_blk s)) b))"
    "logged s3 = insert (ROOTDEV, bmap_blk s) (logged s1)"
    using tx.logw_brelse [OF s1(2,3,5)] by metis
  note q3 = quiet_trans [OF q1 quietI [OF s3(3) s1(3)]]
  note f3 = quiet_fsys [OF q3]
  have c3: "card (logged s3) \<le> Suc (card (logged s))"
    using s3(6) s1(8) by (simp add: card_insert_le_m1 card_insert_if tx.recd_finite)
  have "log_home s3 ROOTDEV b" using data_home [OF lay] bm f3 by simp
  moreover have "bkey s3 y \<noteq> (ROOTDEV, b)" if "y \<in> H" for y
    using held [OF that, of b] bm(3) f3(12) [OF that] by auto
  moreover have "card H + card (logged s3) \<le> log_cap s3" "card (logged s3) < log_cap s3"
    using c3 room f3 by auto
  ultimately obtain t where t: "xv6fs_bzero ROOTDEV b s3 = Inr t" "tx_inv H t" "quiet H s3 t"
    "view t = (view s3)(ROOTDEV := (view s3 ROOTDEV)(b := zero_block))"
    "logged t = insert (ROOTDEV, b) (logged s3)" using bzero_ok [OF s3(4)] by metis
  have "find (\<lambda>bi. \<not> bm_test (view s ROOTDEV (bmap_blk s)) bi) [0..<sb_size (sb s)] = Some b"
    using b(1) by (simp add: used_def)
  then have "balloc_group ROOTDEV 0 s = Inr (Some b, t)"
    using s1 s3 t f1 one_group(2) [OF lay] by (simp add: balloc_group_def bl)
  then have "xv6fs_balloc ROOTDEV s = Inr (b, t)"
    using one_group(1) [OF lay] by (simp add: xv6fs_balloc_def)
  moreover have "view t = alloc_view s b"
    using t(4) s3(5) s1(7) by (simp add: alloc_view_def)
  ultimately show thesis
    using that b t(2) quiet_trans [OF q3 t(3)] t(5) s3(6) s1(8) by (auto simp: insert_commute)
qed

lemma balloc_full:
  assumes inv: "fs_inv {} s" and full: "free_blocks s = {}" and room: "card (logged s) \<le> log_cap s"
  shows "xv6fs_balloc ROOTDEV s = Inl (Panic ''balloc: out of blocks'')"
proof -
  have tx: "tx_inv {} s" and lay: "fs_layout s" using inv by (auto simp: fs_inv_def)
  have bl: "BBLOCK 0 (sb s) = bmap_blk s" using lay by (intro BBLOCK_bmap) (auto simp: fs_layout_def)
  have bh: "log_home s ROOTDEV (bmap_blk s)"
    using lay by (intro data_home) (auto simp: fs_layout_def bmap_blk_def)
  from tx.bread_law [OF tx tx.home_ok [OF bh]] room obtain x s1 where
    s1: "bread ROOTDEV (bmap_blk s) s = Inr (x, s1)" "tx_inv {x} s1" "log_frame {x} s s1"
    "b_data (bufs s1 x) = view s ROOTDEV (bmap_blk s)" by auto
  obtain t where t: "brelse x s1 = Inr t" using tx.brelse_law [OF s1(2)] by blast
  have "sb s1 = sb s" using log_frame_fsys [OF s1(3)] by simp
  moreover have "find (\<lambda>bi. \<not> bm_test (view s ROOTDEV (bmap_blk s)) bi) [0..<sb_size (sb s)] = None"
    using full by (auto simp: find_upt_None free_blocks_def used_def)
  ultimately have "balloc_group ROOTDEV 0 s = Inr (None, t)"
    using s1 t one_group(2) [OF lay] by (simp add: balloc_group_def bl)
  then show ?thesis using one_group(1) [OF lay] by (simp add: xv6fs_balloc_def)
qed

lemma alloc_used:
  assumes "view t = alloc_view s b" and "quiet H s t" and "bmap_blk s < b"
  shows "used t c \<longleftrightarrow> c = b \<or> used s c" "free_blocks t = free_blocks s - {b}"
    "\<And>n. n \<noteq> b \<Longrightarrow> n \<noteq> bmap_blk s \<Longrightarrow> view t ROOTDEV n = view s ROOTDEV n" "view t ROOTDEV b = zero_block"
proof -
  have u: "used t c \<longleftrightarrow> c = b \<or> used s c" for c
    using assms by (auto simp: used_def alloc_view_def quiet_layout(2) [OF assms(2)])
  show "used t c \<longleftrightarrow> c = b \<or> used s c" by (rule u)
  show "free_blocks t = free_blocks s - {b}"
    using assms(2) by (auto simp: free_blocks_def u quiet_fsys)
  show "n \<noteq> b \<Longrightarrow> n \<noteq> bmap_blk s \<Longrightarrow> view t ROOTDEV n = view s ROOTDEV n" for n
    using assms(1) by (simp add: alloc_view_def)
  show "view t ROOTDEV b = zero_block" using assms(1) by (simp add: alloc_view_def)
qed

lemma alloc_inv:
  assumes "fs_inv H s" and "tx_inv H t" and "quiet H s t" and "view t = alloc_view s b" and "bmap_blk s < b"
  shows "fs_inv H t"
  using assms alloc_used(2) [OF assms(4,3,5)]
  by (auto simp: fs_inv_def quiet_layout [OF assms(3)])

section \<open>Freeing\<close>

definition free_view :: "'z fsys_scheme \<Rightarrow> nat \<Rightarrow> nat \<Rightarrow> nat \<Rightarrow> block" where
  "free_view s b = (view s)(ROOTDEV := (view s ROOTDEV)
     (bmap_blk s := bm_clear (view s ROOTDEV (bmap_blk s)) b))"

lemma bfree_bit: "fs_layout s \<Longrightarrow> b < sb_size (sb s) \<Longrightarrow> b mod BPB = b"
  by (simp add: fs_layout_def fs_consts)

lemma bfree_ok:
  assumes inv: "fs_inv H s" and b: "used s b" "bmap_blk s < b" "b < sb_size (sb s)"
    and k: "\<And>x. x \<in> H \<Longrightarrow> bkey s x \<noteq> (ROOTDEV, bmap_blk s)"
    and room: "card H + card (logged s) \<le> log_cap s" "card (logged s) < log_cap s"
  obtains t where "xv6fs_bfree ROOTDEV b s = Inr t" "fs_inv H t" "quiet H s t" "view t = free_view s b"
    "logged t = insert (ROOTDEV, bmap_blk s) (logged s)"
    "free_blocks t = insert b (free_blocks s)" "\<And>c. used t c \<longleftrightarrow> c \<noteq> b \<and> used s c"
proof -
  have tx: "tx_inv H s" and lay: "fs_layout s" using inv by (auto simp: fs_inv_def)
  have bl: "BBLOCK b (sb s) = bmap_blk s" by (rule BBLOCK_bmap [OF lay b(3)])
  have bh: "log_home s ROOTDEV (bmap_blk s)"
    using lay by (intro data_home) (auto simp: fs_layout_def bmap_blk_def)
  have "\<exists>x t. bread ROOTDEV (bmap_blk s) s = Inr (x, t) \<and> tx_inv (insert x H) t \<and> x \<notin> H \<and> log_frame {x} s t \<and>
      bkey t x = (ROOTDEV, bmap_blk s) \<and> b_data (bufs t x) = view s ROOTDEV (bmap_blk s) \<and> view t = view s \<and>
      logged t = logged s"
    by (rule tx.bread_law [OF tx tx.home_ok [OF bh] k]) (use room in auto)
  then obtain x s1 where s1: "bread ROOTDEV (bmap_blk s) s = Inr (x, s1)" "tx_inv (insert x H) s1" "x \<notin> H"
    "log_frame {x} s s1" "bkey s1 x = (ROOTDEV, bmap_blk s)"
    "b_data (bufs s1 x) = view s ROOTDEV (bmap_blk s)" "view s1 = view s" "logged s1 = logged s" by blast
  note q1 = quietI [OF s1(4,3)]
  note f1 = quiet_fsys [OF q1]
  have "log_home s1 ROOTDEV (bmap_blk s)" "card (logged s1) < log_cap s1" using bh f1 s1(8) room by auto
  then obtain s2 t where t: "log_write x (set_data x (bm_clear (view s ROOTDEV (bmap_blk s)) b) s1) = Inr s2"
    "brelse x s2 = Inr t" "log_frame {x} s1 t" "tx_inv H t"
    "view t = (view s1)(ROOTDEV := (view s1 ROOTDEV)(bmap_blk s := bm_clear (view s ROOTDEV (bmap_blk s)) b))"
    "logged t = insert (ROOTDEV, bmap_blk s) (logged s1)"
    using tx.logw_brelse [OF s1(2,3,5)] by metis
  note q = quiet_trans [OF q1 quietI [OF t(3) s1(3)]]
  have e: "xv6fs_bfree ROOTDEV b s = Inr t"
    using s1 t b(1) by (simp add: xv6fs_bfree_def bl bfree_bit [OF lay b(3)] Let_def used_def)
  have v: "view t = free_view s b" using t(5) s1(7) by (simp add: free_view_def)
  have u: "used t c \<longleftrightarrow> c \<noteq> b \<and> used s c" for c
    using v by (auto simp: used_def quiet_layout [OF q] free_view_def)
  have fr: "free_blocks t = insert b (free_blocks s)"
    using b(3) by (auto simp: free_blocks_def u quiet_fsys [OF q])
  have "fs_inv H t"
    using inv t(4) b(2) fr by (auto simp: fs_inv_def quiet_layout [OF q])
  then show thesis using that e q v t(6) s1(8) fr u by simp
qed

text \<open>Freeing a block that is already free is caught.\<close>

lemma bfree_free:
  assumes inv: "fs_inv {} s" and b: "b \<in> free_blocks s" and room: "card (logged s) \<le> log_cap s"
  shows "xv6fs_bfree ROOTDEV b s = Inl (Panic ''freeing free block'')"
proof -
  have tx: "tx_inv {} s" and lay: "fs_layout s" using inv by (auto simp: fs_inv_def)
  have b': "b < sb_size (sb s)" "\<not> used s b" using b by (auto simp: free_blocks_def)
  have bl: "BBLOCK b (sb s) = bmap_blk s" by (rule BBLOCK_bmap [OF lay b'(1)])
  have bh: "log_home s ROOTDEV (bmap_blk s)"
    using lay by (intro data_home) (auto simp: fs_layout_def bmap_blk_def)
  from tx.bread_law [OF tx tx.home_ok [OF bh]] room obtain x s1 where
    s1: "bread ROOTDEV (bmap_blk s) s = Inr (x, s1)" "b_data (bufs s1 x) = view s ROOTDEV (bmap_blk s)" by auto
  then show ?thesis
    using b'(2) by (simp add: xv6fs_bfree_def bl bfree_bit [OF lay b'(1)] Let_def used_def)
qed

end
