(* ===== verification/Fs_Map.thy ===== *)
theory Fs_Map
  imports Fs_Layout
begin

text \<open>
  The block map of an inode as a function of the root disk \<open>V\<close> and the address table \<open>a\<close>: which
  block holds block \<open>bn\<close> of the file (\<open>baddr\<close>), what byte is at an offset (\<open>fbyte\<close>), and when a map is
  well formed (\<open>file_ok\<close>: every block in the data area, marked used, and used once). Each change
  that \<open>bmap\<close> and \<open>writei\<close> make is a lemma about these functions.
\<close>

definition baddr :: "(nat \<Rightarrow> block) \<Rightarrow> (nat \<Rightarrow> nat) \<Rightarrow> nat \<Rightarrow> nat" where
  "baddr V a bn =
     (if bn < NDIRECT then a bn
      else if a NDIRECT = 0 then 0 else get32 (V (a NDIRECT)) (4 * (bn - NDIRECT)))"

text \<open>All blocks of a file; the index \<open>MAXFILE\<close> stands for the indirect block.\<close>

definition pblk :: "(nat \<Rightarrow> block) \<Rightarrow> (nat \<Rightarrow> nat) \<Rightarrow> nat \<Rightarrow> nat" where
  "pblk V a i = (if i = MAXFILE then a NDIRECT else baddr V a i)"

definition fbyte :: "(nat \<Rightarrow> block) \<Rightarrow> (nat \<Rightarrow> nat) \<Rightarrow> nat \<Rightarrow> byte" where
  "fbyte V a off =
     (let p = baddr V a (off div BSIZE) in if p = 0 then 0 else V p (off mod BSIZE))"

definition file_ok :: "nat \<Rightarrow> nat \<Rightarrow> nat set \<Rightarrow> (nat \<Rightarrow> block) \<Rightarrow> (nat \<Rightarrow> nat) \<Rightarrow> bool" where
  "file_ok lo hi U V a \<longleftrightarrow>
     (\<forall>i \<le> MAXFILE. pblk V a i \<noteq> 0 \<longrightarrow> lo < pblk V a i \<and> pblk V a i < hi \<and> pblk V a i \<in> U) \<and>
     (\<forall>i \<le> MAXFILE. \<forall>j \<le> MAXFILE. i \<noteq> j \<longrightarrow> pblk V a i \<noteq> 0 \<longrightarrow> pblk V a i \<noteq> pblk V a j)"

lemma file_okD:
  assumes "file_ok lo hi U V a" and "i \<le> MAXFILE" and "pblk V a i \<noteq> 0"
  shows "lo < pblk V a i" "pblk V a i < hi" "pblk V a i \<in> U"
    "\<And>j. j \<le> MAXFILE \<Longrightarrow> pblk V a j = pblk V a i \<Longrightarrow> j = i"
  using assms unfolding file_ok_def by (blast, blast, blast, metis)

lemma pblk_data: "bn < MAXFILE \<Longrightarrow> pblk V a bn = baddr V a bn"
  by (simp add: pblk_def)

lemma pblk_ind: "pblk V a MAXFILE = a NDIRECT"
  by (simp add: pblk_def)

lemma file_ok_baddr:
  assumes "file_ok lo hi U V a" and "bn < MAXFILE" and "baddr V a bn \<noteq> 0"
  shows "lo < baddr V a bn" "baddr V a bn < hi" "baddr V a bn \<in> U" "baddr V a bn \<noteq> a NDIRECT"
    "\<And>j. j < MAXFILE \<Longrightarrow> baddr V a j = baddr V a bn \<Longrightarrow> j = bn"
proof -
  have p: "pblk V a bn \<noteq> 0" "bn \<le> MAXFILE" using assms by (simp_all add: pblk_data)
  note d = file_okD [OF assms(1) p(2) p(1), unfolded pblk_data [OF assms(2)]]
  show "lo < baddr V a bn" "baddr V a bn < hi" "baddr V a bn \<in> U" by (rule d)+
  show "baddr V a bn \<noteq> a NDIRECT" using d(4) [of MAXFILE] assms(2) by (auto simp: pblk_ind)
  show "j = bn" if "j < MAXFILE" "baddr V a j = baddr V a bn" for j
    using d(4) [of j] that by (simp add: pblk_data)
qed

lemma file_ok_ind:
  assumes "file_ok lo hi U V a" and "a NDIRECT \<noteq> 0"
  shows "lo < a NDIRECT" "a NDIRECT < hi" "a NDIRECT \<in> U"
  using file_okD [OF assms(1), of MAXFILE] assms(2) by (simp_all add: pblk_ind)

text \<open>Blocks that the file does not use may change.\<close>

lemma baddr_cong:
  assumes "a NDIRECT \<noteq> 0 \<Longrightarrow> V' (a NDIRECT) = V (a NDIRECT)"
  shows "baddr V' a bn = baddr V a bn"
  using assms by (auto simp: baddr_def)

lemma file_same:
  assumes ok: "file_ok lo hi U V a" and same: "\<forall>n \<in> U. lo < n \<longrightarrow> V' n = V n" and U: "U \<subseteq> U'"
  shows "file_ok lo hi U' V' a" "baddr V' a = baddr V a"
    "\<And>off. off < MAXFILE * BSIZE \<Longrightarrow> fbyte V' a off = fbyte V a off"
proof -
  have b: "baddr V' a bn = baddr V a bn" for bn
    using file_ok_ind [OF ok] same by (intro baddr_cong) auto
  then show bb: "baddr V' a = baddr V a" by (simp add: fun_eq_iff)
  then have "pblk V' a = pblk V a" by (simp add: fun_eq_iff pblk_def)
  then show "file_ok lo hi U' V' a" using ok U unfolding file_ok_def by auto
  fix off assume "off < MAXFILE * BSIZE"
  then have o: "off div BSIZE < MAXFILE" by (simp add: less_mult_imp_div_less)
  show "fbyte V' a off = fbyte V a off"
    using file_ok_baddr [OF ok o] same by (auto simp: fbyte_def Let_def b)
qed

section \<open>A new block\<close>

lemma file_ok_add:
  assumes ok: "file_ok lo hi U V a" and b: "b \<notin> U" "lo < b" "b < hi"
    and pb: "\<And>i. i \<le> MAXFILE \<Longrightarrow> pblk V' a' i = (if i = i0 then b else pblk V a i)"
  shows "file_ok lo hi (insert b U) V' a'"
proof -
  have ne: "pblk V a i \<noteq> b" if "i \<le> MAXFILE" for i
    using file_okD(3) [OF ok that] b by (cases "pblk V a i = 0") auto
  show ?thesis
    unfolding file_ok_def
  proof (intro conjI allI impI)
    fix i assume i: "i \<le> MAXFILE" "pblk V' a' i \<noteq> 0"
    then show "lo < pblk V' a' i" "pblk V' a' i < hi" "pblk V' a' i \<in> insert b U"
      using file_okD(1-3) [OF ok i(1)] b by (auto simp: pb split: if_splits)
  next
    fix i j' assume i: "i \<le> MAXFILE" "j' \<le> MAXFILE" "i \<noteq> j'" "pblk V' a' i \<noteq> 0"
    then show "pblk V' a' i \<noteq> pblk V' a' j'"
      using ne [OF i(1)] ne [OF i(2)] file_okD(4) [OF ok i(1) _ i(2)] by (auto simp: pb split: if_splits)
  qed
qed

lemma fbyte_add:
  assumes ok: "file_ok lo hi U V a" and off: "off < MAXFILE * BSIZE"
    and V': "\<forall>n \<in> U. lo < n \<longrightarrow> n \<noteq> a NDIRECT \<longrightarrow> V' n = V n"
    and bd: "baddr V' a' (off div BSIZE) = baddr V a (off div BSIZE) \<or>
      baddr V a (off div BSIZE) = 0 \<and> V' (baddr V' a' (off div BSIZE)) = zero_block"
  shows "fbyte V' a' off = fbyte V a off"
proof -
  have o: "off div BSIZE < MAXFILE" using off by (simp add: less_mult_imp_div_less)
  show ?thesis
    using bd
  proof
    assume "baddr V' a' (off div BSIZE) = baddr V a (off div BSIZE)"
    then show ?thesis using file_ok_baddr [OF ok o] V' by (auto simp: fbyte_def Let_def)
  qed (simp add: fbyte_def Let_def)
qed

text \<open>A block put into the address table: a direct block, or the indirect block.\<close>

lemma map_alloc_slot:
  assumes ok: "file_ok lo hi U V a" and j: "j \<le> NDIRECT" "a j = 0"
    and b: "b \<notin> U" "lo < b" "b < hi"
    and V': "V' b = zero_block" "\<forall>n \<in> U. lo < n \<longrightarrow> V' n = V n"
  shows "file_ok lo hi (insert b U) V' (a(j := b))"
    "\<And>bn. bn < MAXFILE \<Longrightarrow> baddr V' (a(j := b)) bn = (if bn = j \<and> j < NDIRECT then b else baddr V a bn)"
    "\<And>off. off < MAXFILE * BSIZE \<Longrightarrow> fbyte V' (a(j := b)) off = fbyte V a off"
proof -
  have bd: "baddr V' (a(j := b)) bn = (if bn = j \<and> j < NDIRECT then b else baddr V a bn)" for bn
  proof (cases "j = NDIRECT")
    case True
    then show ?thesis using j(2) V'(1) b(2) by (simp add: baddr_def)
  next
    case False
    have "V' (a NDIRECT) = V (a NDIRECT)" if "a NDIRECT \<noteq> 0"
      using file_ok_ind [OF ok that] V'(2) by simp
    then show ?thesis using False j(1) by (auto simp: baddr_def)
  qed
  then show "\<And>bn. bn < MAXFILE \<Longrightarrow> baddr V' (a(j := b)) bn = (if bn = j \<and> j < NDIRECT then b else baddr V a bn)"
    by blast
  define i0 where "i0 = (if j < NDIRECT then j else MAXFILE)"
  have jm: "j < MAXFILE" using j(1) by (simp add: fs_consts)
  have "pblk V' (a(j := b)) i = (if i = i0 then b else pblk V a i)" for i
  proof (cases "i = MAXFILE")
    case True
    then show ?thesis using j(1) jm by (auto simp: pblk_def i0_def)
  next
    case False
    then show ?thesis using bd [of i] j(1) False by (auto simp: pblk_def i0_def)
  qed
  then show "file_ok lo hi (insert b U) V' (a(j := b))" by (rule file_ok_add [OF ok b])
  fix off assume off: "off < MAXFILE * BSIZE"
  show "fbyte V' (a(j := b)) off = fbyte V a off"
  proof (rule fbyte_add [OF ok off])
    show "\<forall>n \<in> U. lo < n \<longrightarrow> n \<noteq> a NDIRECT \<longrightarrow> V' n = V n" using V'(2) by blast
    show "baddr V' (a(j := b)) (off div BSIZE) = baddr V a (off div BSIZE) \<or>
        baddr V a (off div BSIZE) = 0 \<and> V' (baddr V' (a(j := b)) (off div BSIZE)) = zero_block"
      using bd [of "off div BSIZE"] j(2) V'(1) by (auto simp: baddr_def)
  qed
qed

text \<open>A block put into the indirect block.\<close>

lemma map_alloc_entry:
  assumes ok: "file_ok lo hi U V a" and q: "a NDIRECT \<noteq> 0" and e: "e < NINDIRECT"
    and zero: "get32 (V (a NDIRECT)) (4 * e) = 0" and b: "b \<notin> U" "lo < b" "b < hi" "b < 2 ^ 32"
    and V': "V' b = zero_block" "V' (a NDIRECT) = put32 (V (a NDIRECT)) (4 * e) b"
      "\<forall>n \<in> U. lo < n \<longrightarrow> n \<noteq> a NDIRECT \<longrightarrow> V' n = V n"
  shows "file_ok lo hi (insert b U) V' a"
    "\<And>bn. baddr V' a bn = (if bn = NDIRECT + e then b else baddr V a bn)"
    "\<And>off. off < MAXFILE * BSIZE \<Longrightarrow> fbyte V' a off = fbyte V a off"
proof -
  have get: "get32 (V' (a NDIRECT)) (4 * i) = (if i = e then b else get32 (V (a NDIRECT)) (4 * i))" for i
  proof (cases "i = e")
    case True
    then show ?thesis using b(4) by (simp add: V'(2))
  next
    case False
    then show ?thesis unfolding V'(2) by (subst get32_put32_other) auto
  qed
  have bd: "baddr V' a bn = (if bn = NDIRECT + e then b else baddr V a bn)" for bn
    using q by (auto simp: baddr_def get)
  then show "\<And>bn. baddr V' a bn = (if bn = NDIRECT + e then b else baddr V a bn)" .
  have "NDIRECT + e \<noteq> MAXFILE" using e by (simp add: fs_consts)
  then have "pblk V' a i = (if i = NDIRECT + e then b else pblk V a i)" for i
    using bd [of i] by (auto simp: pblk_def)
  then show "file_ok lo hi (insert b U) V' a" by (rule file_ok_add [OF ok b(1-3)])
  fix off assume off: "off < MAXFILE * BSIZE"
  show "fbyte V' a off = fbyte V a off"
  proof (rule fbyte_add [OF ok off V'(3)])
    show "baddr V' a (off div BSIZE) = baddr V a (off div BSIZE) \<or>
        baddr V a (off div BSIZE) = 0 \<and> V' (baddr V' a (off div BSIZE)) = zero_block"
      using bd [of "off div BSIZE"] zero V'(1) by (auto simp: baddr_def)
  qed
qed

section \<open>A change of contents\<close>

lemma map_write_block:
  assumes ok: "file_ok lo hi U V a" and bn: "bn < MAXFILE" and p: "baddr V a bn \<noteq> 0"
    and V': "V' = V(baddr V a bn := x)"
  shows "file_ok lo hi U V' a" "baddr V' a = baddr V a"
    "\<And>off. off < MAXFILE * BSIZE \<Longrightarrow> fbyte V' a off = (if off div BSIZE = bn then x (off mod BSIZE) else fbyte V a off)"
proof -
  note d = file_ok_baddr [OF ok bn p]
  have b: "baddr V' a n = baddr V a n" for n
    using d(4) by (intro baddr_cong) (auto simp: V')
  then show bb: "baddr V' a = baddr V a" by (simp add: fun_eq_iff)
  then have "pblk V' a = pblk V a" by (simp add: fun_eq_iff pblk_def)
  then show "file_ok lo hi U V' a" using ok unfolding file_ok_def by auto
  fix off assume "off < MAXFILE * BSIZE"
  then have o: "off div BSIZE < MAXFILE" by (simp add: less_mult_imp_div_less)
  show "fbyte V' a off = (if off div BSIZE = bn then x (off mod BSIZE) else fbyte V a off)"
  proof (cases "off div BSIZE = bn")
    case True
    then show ?thesis unfolding fbyte_def Let_def b using p by (simp add: V')
  next
    case False
    then have "baddr V a (off div BSIZE) \<noteq> baddr V a bn" using d(5) [OF o] by auto
    then show ?thesis unfolding fbyte_def Let_def b using False by (simp add: V')
  qed
qed

section \<open>Ranges of bytes\<close>

lemma block_offset:
  assumes "i < BSIZE - off mod BSIZE"
  shows "(off + i) div BSIZE = off div BSIZE" "(off + i) mod BSIZE = off mod BSIZE + i"
proof -
  have "off + i = off div BSIZE * BSIZE + (off mod BSIZE + i)" by simp
  moreover have "off mod BSIZE + i < BSIZE" using assms by (simp add: BSIZE_def)
  ultimately show "(off + i) div BSIZE = off div BSIZE" "(off + i) mod BSIZE = off mod BSIZE + i"
    by (metis div_mult_self3 div_less add_0_right BSIZE_def zero_neq_numeral, metis mod_mult_self3 mod_less)
qed

lemma fbyte_range:
  assumes "baddr V a (off div BSIZE) \<noteq> 0" and "m \<le> BSIZE - off mod BSIZE"
  shows "map (V (baddr V a (off div BSIZE))) [off mod BSIZE..<off mod BSIZE + m] = map (fbyte V a) [off..<off + m]"
proof (rule nth_equalityI)
  fix i assume "i < length (map (V (baddr V a (off div BSIZE))) [off mod BSIZE..<off mod BSIZE + m])"
  then have i: "i < m" by simp
  then have "i < BSIZE - off mod BSIZE" using assms(2) by simp
  note o = block_offset [OF this]
  show "map (V (baddr V a (off div BSIZE))) [off mod BSIZE..<off mod BSIZE + m] ! i = map (fbyte V a) [off..<off + m] ! i"
    using i assms(1) o by (simp add: fbyte_def Let_def)
qed simp

text \<open>The number of blocks that the bytes from \<open>off\<close> to \<open>off + r\<close> lie in.\<close>

definition nblk :: "nat \<Rightarrow> nat \<Rightarrow> nat" where
  "nblk off r = (if r = 0 then 0 else (off + r - 1) div BSIZE - off div BSIZE + 1)"

lemma next_block:
  assumes "m = min r (BSIZE - off mod BSIZE)" and "m < r"
  shows "(off + m) div BSIZE = off div BSIZE + 1"
proof -
  have "m = BSIZE - off mod BSIZE" using assms by (simp add: min_def split: if_splits)
  moreover have "off mod BSIZE < BSIZE" by (simp add: BSIZE_def)
  moreover have "off div BSIZE * BSIZE + off mod BSIZE = off" by simp
  moreover have "(off div BSIZE + 1) * BSIZE = off div BSIZE * BSIZE + BSIZE" by simp
  ultimately have "off + m = (off div BSIZE + 1) * BSIZE" by linarith
  then show ?thesis by (simp add: BSIZE_def)
qed

lemma nblk_step:
  assumes "0 < r" and m: "m = min r (BSIZE - off mod BSIZE)"
  shows "nblk off r = Suc (nblk (off + m) (r - m))"
proof (cases "m < r")
  case False
  then have mr: "m = r" using m by simp
  then have "r - 1 < BSIZE - off mod BSIZE" using m assms(1) by linarith
  then have "(off + (r - 1)) div BSIZE = off div BSIZE" by (rule block_offset)
  then show ?thesis using assms(1) mr by (simp add: nblk_def)
next
  case True
  note n = next_block [OF m True]
  have "off + m \<le> off + r - 1" using True by simp
  then have "off div BSIZE + 1 \<le> (off + r - 1) div BSIZE" using div_le_mono [of _ _ BSIZE] n by metis
  then show ?thesis using True n by (simp add: nblk_def)
qed

lemma last_block:
  assumes "0 < r" and m: "m = min r (BSIZE - off mod BSIZE)"
    and "off div BSIZE \<le> bn" and "bn \<le> (off + r - 1) div BSIZE"
  shows "bn = off div BSIZE \<or> m < r \<and> (off + m) div BSIZE \<le> bn \<and> bn \<le> (off + m + (r - m) - 1) div BSIZE"
proof (cases "m < r")
  case False
  then have "r - 1 < BSIZE - off mod BSIZE" using m assms(1) by linarith
  then have "(off + (r - 1)) div BSIZE = off div BSIZE" by (rule block_offset)
  then show ?thesis using assms by simp
next
  case True
  then show ?thesis using next_block [OF m True] assms by (cases "bn = off div BSIZE") auto
qed

lemma nblk_one:
  assumes "0 < r" and m: "m = min r (BSIZE - off mod BSIZE)"
  shows "nblk off m = 1" "(off + m - 1) div BSIZE = off div BSIZE"
proof -
  have "0 < BSIZE - off mod BSIZE" by (simp add: BSIZE_def)
  then have m0: "0 < m" "m - 1 < BSIZE - off mod BSIZE" using m assms(1) by auto
  then have "(off + (m - 1)) div BSIZE = off div BSIZE" by (intro block_offset)
  then show "(off + m - 1) div BSIZE = off div BSIZE" using m0 by simp
  then show "nblk off m = 1" using m0 by (simp add: nblk_def)
qed

text \<open>Storing within one block, seen as a change of the file.\<close>

lemma put_in_block:
  assumes m: "m = min r (BSIZE - off mod BSIZE)" and p: "baddr V a (off div BSIZE) \<noteq> 0"
  shows "(if x div BSIZE = off div BSIZE
      then put_bytes (V (baddr V a (off div BSIZE))) (off mod BSIZE) src m (x mod BSIZE) else fbyte V a x) =
    (if off \<le> x \<and> x < off + m then src (x - off) else fbyte V a x)"
proof (cases "off \<le> x \<and> x < off + m")
  case True
  define i where "i = x - off"
  have i: "x = off + i" "i < m" using True by (auto simp: i_def)
  then have "i < BSIZE - off mod BSIZE" using m by simp
  note o = block_offset [OF this]
  show ?thesis using True i o by (simp add: put_bytes_def)
next
  case False
  have "put_bytes (V (baddr V a (off div BSIZE))) (off mod BSIZE) src m (x mod BSIZE) = fbyte V a x"
    if d: "x div BSIZE = off div BSIZE"
  proof -
    have "x = off div BSIZE * BSIZE + x mod BSIZE" "off = off div BSIZE * BSIZE + off mod BSIZE"
      using d by (metis div_mult_mod_eq, simp)
    then have "\<not> (off mod BSIZE \<le> x mod BSIZE \<and> x mod BSIZE < off mod BSIZE + m)" using False by linarith
    then show ?thesis using d p by (auto simp: put_bytes_def fbyte_def Let_def)
  qed
  then show ?thesis using False by auto
qed

end
