(* ===== verification/Fs_File.thy ===== *)
theory Fs_File
  imports Fs_Blocks Fs_Map
begin

text \<open>
  File contents of the xv6 file system: \<open>bmap\<close> keeps the block map well formed, allocates only free
  blocks and does not change what the file contains; \<open>writei\<close> changes exactly the bytes it is given,
  \<open>readi\<close> returns them; and a write records no more blocks in the log than its data blocks, the
  free map, the indirect block and the inode block.
\<close>

section \<open>The block map of a cached inode\<close>

abbreviation addrs_of :: "'z fsys_scheme \<Rightarrow> nat \<Rightarrow> nat \<Rightarrow> nat" where
  "addrs_of s k \<equiv> ad_addrs (xv6fs_addrs s k)"

abbreviation fs_baddr :: "'z fsys_scheme \<Rightarrow> nat \<Rightarrow> nat \<Rightarrow> nat" where
  "fs_baddr s k \<equiv> baddr (view s ROOTDEV) (addrs_of s k)"

abbreviation fs_fbyte :: "'z fsys_scheme \<Rightarrow> nat \<Rightarrow> nat \<Rightarrow> byte" where
  "fs_fbyte s k \<equiv> fbyte (view s ROOTDEV) (addrs_of s k)"

abbreviation fs_file_ok :: "'z fsys_scheme \<Rightarrow> nat \<Rightarrow> bool" where
  "fs_file_ok s k \<equiv> file_ok (bmap_blk s) (sb_size (sb s)) (Collect (used s)) (view s ROOTDEV) (addrs_of s k)"

definition file_blocks :: "'z fsys_scheme \<Rightarrow> nat \<Rightarrow> nat set" where
  "file_blocks s k = pblk (view s ROOTDEV) (addrs_of s k) ` {..MAXFILE} - {0}"

text \<open>
  \<open>grows k s t\<close>: the file of table entry \<open>k\<close> may have got new blocks and new contents; nothing
  else changed. Blocks it had stay where they are, and every block that was in use and is not
  one of its own is untouched.
\<close>

definition grows :: "nat \<Rightarrow> 'z fsys_scheme \<Rightarrow> 'z fsys_scheme \<Rightarrow> bool" where
  "grows k s t \<longleftrightarrow>
     icache t = icache s \<and> sb t = sb s \<and> log_cap t = log_cap s \<and> mypid t = mypid s \<and>
     log_start t = log_start s \<and> log_size t = log_size s \<and>
     (\<forall>k'. k' \<noteq> k \<longrightarrow> xv6fs_addrs t k' = xv6fs_addrs s k') \<and>
     ad_busy (xv6fs_addrs t k) = ad_busy (xv6fs_addrs s k) \<and>
     (\<forall>i \<le> MAXFILE. pblk (view s ROOTDEV) (addrs_of s k) i \<noteq> 0 \<longrightarrow>
        pblk (view t ROOTDEV) (addrs_of t k) i = pblk (view s ROOTDEV) (addrs_of s k) i) \<and>
     (\<forall>n. used s n \<longrightarrow> used t n) \<and>
     (\<forall>n \<in> file_blocks t k. n \<in> file_blocks s k \<or> \<not> used s n) \<and>
     (\<forall>n. used s n \<longrightarrow> n \<noteq> bmap_blk s \<longrightarrow> n \<notin> file_blocks t k \<longrightarrow> view t ROOTDEV n = view s ROOTDEV n)"

lemma grows_fields:
  assumes "grows k s t"
  shows "icache t = icache s" "sb t = sb s" "log_cap t = log_cap s" "mypid t = mypid s"
    "bmap_blk t = bmap_blk s" "log_start t = log_start s" "log_size t = log_size s"
  using assms by (simp_all add: grows_def bmap_blk_def)

lemma grows_refl [simp]: "grows k s s"
  by (simp add: grows_def)

lemma grows_blocks: "grows k s t \<Longrightarrow> file_blocks s k \<subseteq> file_blocks t k"
proof
  fix n assume g: "grows k s t" and n: "n \<in> file_blocks s k"
  then obtain i where i: "i \<le> MAXFILE" "n = pblk (view s ROOTDEV) (addrs_of s k) i" "n \<noteq> 0"
    by (auto simp: file_blocks_def)
  then have "n = pblk (view t ROOTDEV) (addrs_of t k) i" using g by (auto simp: grows_def)
  then show "n \<in> file_blocks t k" using i by (auto simp: file_blocks_def)
qed

lemma grows_trans:
  assumes g: "grows k s t" "grows k t u"
  shows "grows k s u"
proof -
  have "pblk (view u ROOTDEV) (addrs_of u k) i = pblk (view s ROOTDEV) (addrs_of s k) i"
    if "i \<le> MAXFILE" "pblk (view s ROOTDEV) (addrs_of s k) i \<noteq> 0" for i
  proof -
    have e: "pblk (view t ROOTDEV) (addrs_of t k) i = pblk (view s ROOTDEV) (addrs_of s k) i"
      using g(1) that by (simp add: grows_def)
    moreover have "pblk (view u ROOTDEV) (addrs_of u k) i = pblk (view t ROOTDEV) (addrs_of t k) i"
      using g(2) that e by (simp add: grows_def)
    ultimately show ?thesis by simp
  qed
  moreover have "view u ROOTDEV n = view s ROOTDEV n"
    if "used s n" "n \<noteq> bmap_blk s" "n \<notin> file_blocks u k" for n
  proof -
    have "n \<notin> file_blocks t k" using grows_blocks [OF g(2)] that(3) by blast
    then have "view t ROOTDEV n = view s ROOTDEV n" using g(1) that by (simp add: grows_def)
    moreover have "view u ROOTDEV n = view t ROOTDEV n"
      using g that grows_fields(5) [OF g(1)] by (simp add: grows_def)
    ultimately show ?thesis by simp
  qed
  moreover have "n \<in> file_blocks s k \<or> \<not> used s n" if "n \<in> file_blocks u k" for n
    using g that unfolding grows_def by blast
  ultimately show ?thesis using g unfolding grows_def by auto
qed

text \<open>A file that shares no block with one that grows stays as it is, and they still share no block.\<close>

lemma grows_other:
  assumes g: "grows k s t" and j: "j \<noteq> k" "fs_file_ok s j" "file_blocks s j \<inter> file_blocks s k = {}"
  shows "fs_file_ok t j" "file_blocks t j \<inter> file_blocks t k = {}"
    "\<And>off. off < MAXFILE * BSIZE \<Longrightarrow> fs_fbyte t j off = fs_fbyte s j off"
proof -
  have a: "addrs_of t j = addrs_of s j" using g j(1) by (simp add: grows_def)
  have out: "n \<notin> file_blocks t k" "view t ROOTDEV n = view s ROOTDEV n" if n: "n \<in> file_blocks s j" for n
  proof -
    have u: "used s n" "n \<noteq> bmap_blk s" using n j(2) by (auto simp: file_blocks_def file_ok_def)
    show "n \<notin> file_blocks t k" using g u(1) n j(3) by (auto simp: grows_def)
    then show "view t ROOTDEV n = view s ROOTDEV n" using g u by (simp add: grows_def)
  qed
  have ind: "view t ROOTDEV (addrs_of s j NDIRECT) = view s ROOTDEV (addrs_of s j NDIRECT)" if "addrs_of s j NDIRECT \<noteq> 0"
    by (rule out(2)) (use that in \<open>auto simp: file_blocks_def pblk_def intro!: image_eqI [of _ _ MAXFILE]\<close>)
  have bd: "fs_baddr t j bn = fs_baddr s j bn" for bn using ind by (simp add: baddr_def a)
  then have pb: "pblk (view t ROOTDEV) (addrs_of t j) i = pblk (view s ROOTDEV) (addrs_of s j) i" for i
    by (simp add: pblk_def a)
  then have fb: "file_blocks t j = file_blocks s j" by (simp add: file_blocks_def)
  show "fs_file_ok t j"
    using j(2) g unfolding file_ok_def pb by (auto simp: grows_def bmap_blk_def)
  show "file_blocks t j \<inter> file_blocks t k = {}" using out(1) fb by blast
  fix off :: nat assume "off < MAXFILE * BSIZE"
  then have m: "off div BSIZE < MAXFILE" by (simp add: less_mult_imp_div_less)
  have "view t ROOTDEV (fs_baddr s j (off div BSIZE)) = view s ROOTDEV (fs_baddr s j (off div BSIZE))"
    if "fs_baddr s j (off div BSIZE) \<noteq> 0"
    by (rule out(2)) (use that m in \<open>auto simp: file_blocks_def pblk_def intro!: image_eqI [of _ _ "off div BSIZE"]\<close>)
  then show "fs_fbyte t j off = fs_fbyte s j off" by (simp add: fbyte_def bd Let_def)
qed

definition same_bytes :: "nat \<Rightarrow> 'z fsys_scheme \<Rightarrow> 'z fsys_scheme \<Rightarrow> bool" where
  "same_bytes k s t \<longleftrightarrow> (\<forall>off < MAXFILE * BSIZE. fs_fbyte t k off = fs_fbyte s k off)"

section \<open>bmap\<close>

lemma fs_inv_set [simp]:
  "fs_inv H (set_xaddrs k h s) = fs_inv H s" "fs_inv H (set_inode ip g s) = fs_inv H s"
  by (simp_all add: fs_inv_def fs_layout_def free_blocks_def used_def bmap_blk_def)

lemma used_set [simp]:
  "used (set_xaddrs k h s) = used s" "used (set_inode ip g s) = used s"
  "bmap_blk (set_xaddrs k h s) = bmap_blk s" "bmap_blk (set_inode ip g s) = bmap_blk s"
  "free_blocks (set_xaddrs k h s) = free_blocks s" "free_blocks (set_inode ip g s) = free_blocks s"
  by (simp_all add: used_def bmap_blk_def fun_eq_iff free_blocks_def)

lemma free_block_D:
  assumes "fs_inv H s" and "b \<in> free_blocks s"
  shows "bmap_blk s < b" "b < sb_size (sb s)" "\<not> used s b" "b < FSSIZE" "b \<noteq> 0" "b < 2 ^ 32"
  using assms by (auto simp: fs_inv_def free_blocks_def fs_layout_def fs_consts)

lemma quiet_used_D:
  assumes "view t = alloc_view s b" and "quiet H s t" and "bmap_blk s < b"
  shows "Collect (used t) = insert b (Collect (used s))"
  using alloc_used(1) [OF assms] by auto

lemma bmap_slot_ok:
  assumes inv: "fs_inv {} s" and ok: "fs_file_ok s k" and j: "j \<le> NDIRECT"
    and free: "addrs_of s k j = 0 \<Longrightarrow> free_blocks s \<noteq> {}" and room: "card (logged s) + 2 \<le> log_cap s"
  obtains addr t where "bmap_slot ROOTDEV k j s = Inr (addr, t)" "fs_inv {} t" "fs_file_ok t k"
    "addr = addrs_of t k j" "addr \<noteq> 0" "grows k s t" "same_bytes k s t"
    "logged t \<subseteq> logged s \<union> {(ROOTDEV, bmap_blk s), (ROOTDEV, addr)}"
    "free_blocks s \<subseteq> insert addr (free_blocks t)"
    "addrs_of s k j \<noteq> 0 \<Longrightarrow> t = s"
proof (cases "addrs_of s k j = 0")
  case False
  then show ?thesis
    using inv ok by (intro that [of "addrs_of s k j" s]) (auto simp: bmap_slot_def same_bytes_def)
next
  case True
  obtain b t where t: "xv6fs_balloc ROOTDEV s = Inr (b, t)" "b \<in> free_blocks s" "tx_inv {} t" "quiet {} s t"
    "view t = alloc_view s b" "logged t = {(ROOTDEV, bmap_blk s), (ROOTDEV, b)} \<union> logged s"
    by (rule balloc_ok [OF inv free [OF True]]) (use room in auto)
  note bD = free_block_D [OF inv t(2)]
  let ?t = "set_xaddrs k (\<lambda>a. a\<lparr>ad_addrs := (ad_addrs a)(j := b)\<rparr>) t"
  note q = quiet_fsys [OF t(4)] quiet_layout(2) [OF t(4)]
  note al = alloc_used [OF t(5,4) bD(1)] and U = quiet_used_D [OF t(5,4) bD(1)]
  have invt: "fs_inv {} t" by (rule alloc_inv [OF inv t(3,4,5) bD(1)])
  have a: "addrs_of ?t k = (addrs_of s k)(j := b)" by (simp add: q)
  have "view t ROOTDEV n = view s ROOTDEV n" if "n \<in> Collect (used s)" "bmap_blk s < n" for n
    using al(3) [of n] that bD(3) by (cases "n = b") auto
  then have V: "\<forall>n \<in> Collect (used s). bmap_blk s < n \<longrightarrow> view t ROOTDEV n = view s ROOTDEV n" by blast
  have bU: "b \<notin> Collect (used s)" using bD(3) by simp
  note m = map_alloc_slot [OF ok j True bU bD(1,2) al(4) V]
  have ok': "fs_file_ok ?t k" using m(1) by (simp add: a U q)
  have pb: "pblk (view t ROOTDEV) ((addrs_of s k)(j := b)) i = pblk (view s ROOTDEV) (addrs_of s k) i"
    if "i \<le> MAXFILE" "pblk (view s ROOTDEV) (addrs_of s k) i \<noteq> 0" for i
  proof (cases "i = MAXFILE")
    case T: True
    then show ?thesis using that True by (auto simp: pblk_def)
  next
    case F: False
    then have im: "i < MAXFILE" using that by simp
    have "baddr (view s ROOTDEV) (addrs_of s k) j = 0" if "j < NDIRECT" using True that by (simp add: baddr_def)
    then show ?thesis using m(2) [OF im] F im that by (auto simp: pblk_def)
  qed
  have vn: "view t ROOTDEV n = view s ROOTDEV n" if "used s n" "n \<noteq> bmap_blk s" for n
    using al(3) [of n] that bD(3) by (cases "n = b") auto
  have new: "pblk (view t ROOTDEV) ((addrs_of s k)(j := b)) i \<in> {b, pblk (view s ROOTDEV) (addrs_of s k) i}" if "i \<le> MAXFILE" for i
    using m(2) [of i] that by (cases "i = MAXFILE") (auto simp: pblk_def split: if_splits)
  have fb: "n \<in> file_blocks s k \<or> \<not> used s n" if "n \<in> file_blocks ?t k" for n
    using that new bD(3) unfolding file_blocks_def a by fastforce
  have g: "grows k s ?t"
    unfolding grows_def a using pb vn al(1) fb by (simp add: q)
  show ?thesis
  proof (rule that [of b ?t])
    show "bmap_slot ROOTDEV k j s = Inr (b, ?t)" using True t(1) by (simp add: bmap_slot_def)
    show "same_bytes k s ?t" unfolding same_bytes_def a using m(3) by simp
    show "logged ?t \<subseteq> logged s \<union> {(ROOTDEV, bmap_blk s), (ROOTDEV, b)}" using t(6) by auto
  qed (use invt ok' g bD al(2) True in \<open>auto simp: a\<close>)
qed

lemma bmap_entry_ok:
  assumes inv: "fs_inv {} s" and ok: "fs_file_ok s k" and q: "addrs_of s k NDIRECT = q" "q \<noteq> 0"
    and e: "e < NINDIRECT" and free: "fs_baddr s k (NDIRECT + e) = 0 \<Longrightarrow> free_blocks s \<noteq> {}"
    and room: "card (logged s) + 3 \<le> log_cap s"
  obtains addr t where "bmap_entry ROOTDEV q e s = Inr (addr, t)" "fs_inv {} t" "fs_file_ok t k"
    "addr = fs_baddr t k (NDIRECT + e)" "addr \<noteq> 0" "grows k s t" "same_bytes k s t"
    "logged t \<subseteq> logged s \<union> {(ROOTDEV, bmap_blk s), (ROOTDEV, q), (ROOTDEV, addr)}"
    "free_blocks s \<subseteq> insert addr (free_blocks t)"
    "fs_baddr s k (NDIRECT + e) \<noteq> 0 \<Longrightarrow> addr = fs_baddr s k (NDIRECT + e) \<and> view t = view s \<and> logged t = logged s"
proof -
  have tx: "tx_inv {} s" and lay: "fs_layout s" using inv by (auto simp: fs_inv_def)
  have ind: "bmap_blk s < q" "q < sb_size (sb s)" "used s q" using file_ok_ind [OF ok] q by auto
  have qh: "log_home s ROOTDEV q" using ind by (intro data_home [OF lay]) simp_all
  have bd: "fs_baddr s k (NDIRECT + e) = get32 (view s ROOTDEV q) (4 * e)" using q by (simp add: baddr_def)
  from tx.bread_law [OF tx tx.home_ok [OF qh]] room obtain x s1 where
    s1: "bread ROOTDEV q s = Inr (x, s1)" "tx_inv {x} s1" "log_frame {x} s s1" "bkey s1 x = (ROOTDEV, q)"
    "b_data (bufs s1 x) = view s ROOTDEV q" "view s1 = view s" "logged s1 = logged s" by auto
  have q1: "quiet {} s s1" using quietI [OF s1(3)] by simp
  note f1 = quiet_fsys [OF q1] quiet_layout [OF q1]
  have u1: "used s1 = used s" "free_blocks s1 = free_blocks s"
    by (simp_all add: used_def free_blocks_def fun_eq_iff s1(6) f1)
  show thesis
  proof (cases "fs_baddr s k (NDIRECT + e) = 0")
    case False
    obtain t where t: "brelse x s1 = Inr t" "tx_inv {} t" "log_frame {x} s1 t" "view t = view s1" "logged t = logged s1"
      using tx.brelse_law [OF s1(2), of x] by auto
    have qt: "quiet {} s t" using quiet_trans [OF q1 quietI [OF t(3)]] by simp
    note ft = quiet_fsys [OF qt] quiet_layout [OF qt]
    have ut: "used t = used s" "free_blocks t = free_blocks s" "view t = view s"
      by (simp_all add: used_def free_blocks_def fun_eq_iff s1(6) t(4) ft)
    have "bmap_entry ROOTDEV q e s = Inr (fs_baddr s k (NDIRECT + e), t)"
      using False s1 t(1) by (simp add: bmap_entry_def bd Let_def)
    moreover have "fs_inv {} t" using inv t(2) by (simp add: fs_inv_def ft ut)
    moreover have "grows k s t" by (simp add: grows_def ft ut file_blocks_def)
    ultimately show thesis
      using ok False s1 t(5)
      by (intro that [of "fs_baddr s k (NDIRECT + e)" t]) (auto simp: ft ut same_bytes_def)
  next
    case True
    have inv1: "fs_inv {x} s1" using inv s1(2) by (simp add: fs_inv_def f1 u1)
    have "free_blocks s1 \<noteq> {}" using free [OF True] u1 by simp
    then obtain b s2 where s2: "xv6fs_balloc ROOTDEV s1 = Inr (b, s2)" "b \<in> free_blocks s1" "tx_inv {x} s2"
      "quiet {x} s1 s2" "view s2 = alloc_view s1 b"
      "logged s2 = {(ROOTDEV, bmap_blk s1), (ROOTDEV, b)} \<union> logged s1"
      by (rule balloc_ok [OF inv1]) (use s1 ind room f1 u1 in auto)
    note bD = free_block_D [OF inv1 s2(2)]
    note f2 = quiet_fsys [OF s2(4)] quiet_layout [OF s2(4)]
    note al = alloc_used [OF s2(5,4) bD(1)] and U = quiet_used_D [OF s2(5,4) bD(1)]
    have dx: "bkey s2 x = (ROOTDEV, q)" "b_data (bufs s2 x) = view s ROOTDEV q" using s1 f2(12) [of x] by auto
    have "card (logged s2) \<le> card (logged s) + 2"
      using s2(6) s1(7) by (simp add: card_insert_if tx.recd_finite)
    then have "log_home s2 ROOTDEV q" "card (logged s2) < log_cap s2" using qh f1 f2 room by auto
    then obtain s3 t where t: "log_write x (set_data x (put32 (view s ROOTDEV q) (4 * e) b) s2) = Inr s3"
      "brelse x s3 = Inr t" "log_frame {x} s2 t" "tx_inv {} t"
      "view t = (view s2)(ROOTDEV := (view s2 ROOTDEV)(q := put32 (view s ROOTDEV q) (4 * e) b))"
      "logged t = insert (ROOTDEV, q) (logged s2)"
      using tx.logw_brelse [OF s2(3) _ dx(1)] by auto
    have qt: "quiet {} s t"
      using quiet_trans [OF quiet_trans [OF q1 quiet_mono [OF s2(4)]] quietI [OF t(3)]] by simp
    note ft = quiet_fsys [OF qt] quiet_layout [OF qt]
    have q2: "quiet {} s2 t" using quietI [OF t(3)] by simp
    note g2 = quiet_fsys [OF q2] quiet_layout [OF q2]
    have bq: "b \<noteq> q" "b \<noteq> bmap_blk s" "\<not> used s b" using bD ind u1 f1 by auto
    have Ut: "used t = used s2" "free_blocks t = free_blocks s2"
      using ind by (simp_all add: used_def free_blocks_def fun_eq_iff t(5) g2 f1 f2)
    have vn: "view t ROOTDEV n = view s ROOTDEV n" if "used s n" "n \<noteq> bmap_blk s" "n \<noteq> q" for n
      using al(3) [of n] that bq f1 s1(6) t(5) by (cases "n = b") auto
    have V: "view t ROOTDEV b = zero_block" "view t ROOTDEV q = put32 (view s ROOTDEV q) (4 * e) b"
      using al(4) bq t(5) by auto
    have V2: "\<forall>n \<in> Collect (used s). bmap_blk s < n \<longrightarrow> n \<noteq> addrs_of s k NDIRECT \<longrightarrow>
        view t ROOTDEV n = view s ROOTDEV n" using vn q by auto
    have pre: "addrs_of s k NDIRECT \<noteq> 0" "get32 (view s ROOTDEV (addrs_of s k NDIRECT)) (4 * e) = 0"
      "b \<notin> Collect (used s)" "bmap_blk s < b" "b < sb_size (sb s)"
      "view t ROOTDEV (addrs_of s k NDIRECT) = put32 (view s ROOTDEV (addrs_of s k NDIRECT)) (4 * e) b"
      using q True bd bq bD f1 V by auto
    note m = map_alloc_entry [OF ok pre(1) e pre(2-5) bD(6) V(1) pre(6) V2]
    have a: "addrs_of t k = addrs_of s k" by (simp add: ft)
    have U': "Collect (used t) = insert b (Collect (used s))" using U by (simp add: Ut u1)
    have invt: "fs_inv {} t"
      using alloc_inv [OF inv1 s2(3,4,5) bD(1)] t(4) by (simp add: fs_inv_def Ut g2)
    have ok': "fs_file_ok t k" using m(1) by (simp add: a U' ft)
    have bt: "fs_baddr t k (NDIRECT + e) = b" using m(2) by (simp add: a)
    have pb: "pblk (view t ROOTDEV) (addrs_of t k) i = pblk (view s ROOTDEV) (addrs_of s k) i"
      if "pblk (view s ROOTDEV) (addrs_of s k) i \<noteq> 0" for i
      using that m(2) [of i] True unfolding pblk_def a by auto
    have qf: "q \<in> file_blocks t k"
      unfolding file_blocks_def a using q by (auto simp: pblk_def intro!: image_eqI [of _ _ MAXFILE])
    have new: "pblk (view t ROOTDEV) (addrs_of t k) i \<in> {b, pblk (view s ROOTDEV) (addrs_of s k) i}" for i
      using m(2) [of i] unfolding pblk_def a by auto
    have fb: "n \<in> file_blocks s k \<or> \<not> used s n" if "n \<in> file_blocks t k" for n
      using that new bq(3) unfolding file_blocks_def by fastforce
    have g: "grows k s t"
      unfolding grows_def using pb vn qf al(1) fb by (auto simp: ft Ut u1 a)
    have "bmap_entry ROOTDEV q e s = Inr (b, t)"
      using True s1 s2(1) t(1,2) dx(2) by (simp add: bmap_entry_def bd Let_def)
    then show thesis
    proof (rule that)
      show "same_bytes k s t" unfolding same_bytes_def a using m(3) by simp
      show "logged t \<subseteq> logged s \<union> {(ROOTDEV, bmap_blk s), (ROOTDEV, q), (ROOTDEV, b)}"
        using t(6) s2(6) s1(7) f1 by auto
      show "free_blocks s \<subseteq> insert b (free_blocks t)" using al(2) by (auto simp: Ut u1)
    qed (use invt ok' bt bD g True in auto)
  qed
qed

lemma finite_free_blocks [simp]: "finite (free_blocks s)"
  by (simp add: free_blocks_def)

lemma same_bytes_trans: "same_bytes k s t \<Longrightarrow> same_bytes k t u \<Longrightarrow> same_bytes k s u"
  by (simp add: same_bytes_def)

lemma card_free_step:
  assumes "free_blocks s \<subseteq> insert b (free_blocks t)"
  shows "card (free_blocks s) \<le> Suc (card (free_blocks t))"
proof -
  have "card (free_blocks s) \<le> card (insert b (free_blocks t))" by (rule card_mono [OF _ assms]) simp
  also have "\<dots> \<le> Suc (card (free_blocks t))" by (simp add: card_insert_if)
  finally show ?thesis .
qed

text \<open>What \<open>bmap\<close> may record: the free map, the block it returns, and the indirect block.\<close>

definition bmap_log :: "'z fsys_scheme \<Rightarrow> nat \<Rightarrow> nat \<Rightarrow> (nat \<times> nat) set" where
  "bmap_log t k bn = {(ROOTDEV, bmap_blk t), (ROOTDEV, fs_baddr t k bn)} \<union>
     (if bn < NDIRECT then {} else {(ROOTDEV, addrs_of t k NDIRECT)})"

lemma bmap_ok:
  assumes inv: "fs_inv {} s" and ok: "fs_file_ok s k"
    and ip: "i_addrs (icache s ip) = Xv6fs_slot k" "i_dev (icache s ip) = ROOTDEV" and bn: "bn < MAXFILE"
    and free: "fs_baddr s k bn = 0 \<Longrightarrow> 2 \<le> card (free_blocks s)"
    and room: "card (logged s) + 5 \<le> log_cap s"
  obtains addr t where "xv6fs_bmap ip bn s = Inr (addr, t)" "fs_inv {} t" "fs_file_ok t k"
    "addr = fs_baddr t k bn" "addr \<noteq> 0" "grows k s t" "same_bytes k s t"
    "logged t \<subseteq> logged s \<union> bmap_log t k bn" "card (free_blocks s) \<le> card (free_blocks t) + 2"
proof (cases "bn < NDIRECT")
  case True
  have bd: "fs_baddr s k bn = addrs_of s k bn" using True by (simp add: baddr_def)
  have fr: "addrs_of s k bn = 0 \<Longrightarrow> free_blocks s \<noteq> {}" using free bd by auto
  obtain addr t where t: "bmap_slot ROOTDEV k bn s = Inr (addr, t)" "fs_inv {} t" "fs_file_ok t k"
    "addr = addrs_of t k bn" "addr \<noteq> 0" "grows k s t" "same_bytes k s t"
    "logged t \<subseteq> logged s \<union> {(ROOTDEV, bmap_blk s), (ROOTDEV, addr)}"
    "free_blocks s \<subseteq> insert addr (free_blocks t)"
    by (rule bmap_slot_ok [OF inv ok less_imp_le [OF True] fr]) (use room in \<open>auto intro: that\<close>)
  have "xv6fs_bmap ip bn s = Inr (addr, t)"
    using t(1) ip True by (simp add: xv6fs_bmap_def xv6fs_ad_def)
  moreover have bt: "addr = fs_baddr t k bn" using t(4) True by (simp add: baddr_def)
  moreover have "logged t \<subseteq> logged s \<union> bmap_log t k bn"
    using t(8) bt True by (auto simp: bmap_log_def grows_fields [OF t(6)])
  ultimately show thesis using that t(2-7) card_free_step [OF t(9)] by auto
next
  case False
  define e where "e = bn - NDIRECT"
  have e: "bn = NDIRECT + e" "e < NINDIRECT" using False bn by (auto simp: e_def fs_consts)
  have "fs_baddr s k bn = 0" if "addrs_of s k NDIRECT = 0" using that False by (simp add: baddr_def)
  then have fr: "addrs_of s k NDIRECT = 0 \<Longrightarrow> 2 \<le> card (free_blocks s)" using free by auto
  then have fr1: "addrs_of s k NDIRECT = 0 \<Longrightarrow> free_blocks s \<noteq> {}" by auto
  obtain q s1 where s1: "bmap_slot ROOTDEV k NDIRECT s = Inr (q, s1)" "fs_inv {} s1" "fs_file_ok s1 k"
    "q = addrs_of s1 k NDIRECT" "q \<noteq> 0" "grows k s s1" "same_bytes k s s1"
    "logged s1 \<subseteq> logged s \<union> {(ROOTDEV, bmap_blk s), (ROOTDEV, q)}"
    "free_blocks s \<subseteq> insert q (free_blocks s1)" "addrs_of s k NDIRECT \<noteq> 0 \<Longrightarrow> s1 = s"
    by (rule bmap_slot_ok [OF inv ok order_refl fr1]) (use room in \<open>auto intro: that\<close>)
  note g1 = grows_fields [OF s1(6)]
  have "card (logged s1) \<le> card (logged s \<union> {(ROOTDEV, bmap_blk s), (ROOTDEV, q)})"
    by (rule card_mono [OF _ s1(8)]) (simp add: tx.recd_finite)
  also have "\<dots> \<le> card (logged s) + 2"
    by (rule order_trans [OF card_Un_le]) (simp add: card_insert_if)
  finally have room1: "card (logged s1) + 3 \<le> log_cap s1" using room g1 by simp
  have fr2: "fs_baddr s1 k (NDIRECT + e) = 0 \<Longrightarrow> free_blocks s1 \<noteq> {}"
    using fr free card_free_step [OF s1(9)] s1(10) e(1)
    by (cases "addrs_of s k NDIRECT = 0") auto
  obtain addr t where t: "bmap_entry ROOTDEV q e s1 = Inr (addr, t)" "fs_inv {} t" "fs_file_ok t k"
    "addr = fs_baddr t k (NDIRECT + e)" "addr \<noteq> 0" "grows k s1 t" "same_bytes k s1 t"
    "logged t \<subseteq> logged s1 \<union> {(ROOTDEV, bmap_blk s1), (ROOTDEV, q), (ROOTDEV, addr)}"
    "free_blocks s1 \<subseteq> insert addr (free_blocks t)"
    by (rule bmap_entry_ok [OF s1(2,3) s1(4) [symmetric] s1(5) e(2) fr2 room1]) (auto intro: that)
  note gt = grows_fields [OF t(6)]
  have "xv6fs_bmap ip bn s = Inr (addr, t)"
    using t(1) s1(1) ip False e by (simp add: xv6fs_bmap_def xv6fs_ad_def)
  moreover have "addrs_of t k NDIRECT = q"
    using t(6) s1(4,5) by (auto simp: grows_def pblk_def dest!: spec [of _ MAXFILE])
  then have "logged t \<subseteq> logged s \<union> bmap_log t k bn"
    using t(4,8) s1(8) False e(1) by (auto simp: bmap_log_def g1 gt)
  moreover have "card (free_blocks s) \<le> card (free_blocks t) + 2"
    using card_free_step [OF s1(9)] card_free_step [OF t(9)] by simp
  ultimately show thesis
    using that t e(1) grows_trans [OF s1(6) t(6)] same_bytes_trans [OF s1(7) t(7)] by auto
qed

end
