(* ===== verification/Fs_Read.thy ===== *)
theory Fs_Read
  imports Fs_File
begin

text \<open>
  Reading. \<open>readi\<close> runs outside a transaction, so it is verified over the interface of the buffer
  cache alone: of a file without holes it returns exactly the bytes of the file, cut at its size,
  and changes nothing but the cache.
\<close>

section \<open>Steps that only read\<close>

definition reads :: "'z bio_scheme \<Rightarrow> 'z bio_scheme \<Rightarrow> bool" where
  "reads s t \<longleftrightarrow> bc_ok {} t \<and> view t = view s \<and> dblk t = dblk s \<and> dtrace t = dtrace s \<and>
     pins t = pins s \<and> bio.more t = bio.more s"

lemma reads_refl: "bc_ok {} s \<Longrightarrow> reads s s"
  by (simp add: reads_def)

lemma reads_trans: "reads s t \<Longrightarrow> reads t u \<Longrightarrow> reads s u"
  by (simp add: reads_def)

lemma bio_more_fsys:
  assumes "bio.more t = bio.more s"
  shows "icache t = icache s" "sb t = sb s" "xv6fs_addrs t = xv6fs_addrs s" "ext2_sb t = ext2_sb s"
    "ext2fs_addrs t = ext2fs_addrs s"
  using assms by (cases s; cases t; simp)+

lemma bread_brelse:
  assumes "bc_ok {} s" and "blk_ok d n" and "card (pins s) < NBUF"
  obtains b s1 t where "bread d n s = Inr (b, s1)" "b_data (bufs s1 b) = view s d n" "brelse b s1 = Inr t"
    "reads s t" "bio.more s1 = bio.more s"
proof -
  have c: "cached s d n \<or> card ({} :: nat set) + card (pins s) < NBUF" using assms(3) by simp
  obtain b s1 where b: "bread d n s = Inr (b, s1)" "bc_ok {b} s1" "frame {b} s s1" "bkey s1 b = (d, n)"
    "b_data (bufs s1 b) = view s d n" "view s1 = view s" "dblk s1 = dblk s" "dtrace s1 = dtrace s"
    "pins s1 = pins s"
    using bc.bread_law [OF assms(1,2) _ c] by auto
  have "(d, n) \<in> pins s1 \<or> b_data (bufs s1 b) = dblk s1 d n"
    using view_unpinned [OF assms(1), of d n] b(5,7,9) by auto
  then obtain t where t: "brelse b s1 = Inr t" "bc_ok ({b} - {b}) t" "frame {b} s1 t" "view t = view s1"
    "dblk t = dblk s1" "dtrace t = dtrace s1" "pins t = pins s1"
    using bc.brelse_law [OF b(2) _ b(4)] by blast
  have "reads s t" using b t by (simp add: reads_def frame_def)
  then show thesis using that b t(1) by (simp add: frame_def)
qed

section \<open>bmap of a block that exists\<close>

lemma bmap_existing:
  assumes ok: "bc_ok {} s" and room: "card (pins s) < NBUF"
    and ip: "i_addrs (icache s ip) = Xv6fs_slot k" "i_dev (icache s ip) = ROOTDEV" and bn: "bn < MAXFILE"
    and addr: "fs_baddr s k bn \<noteq> 0" and ind: "NDIRECT \<le> bn \<Longrightarrow> blk_ok ROOTDEV (addrs_of s k NDIRECT)"
  obtains t where "xv6fs_bmap ip bn s = Inr (fs_baddr s k bn, t)" "reads s t"
proof (cases "bn < NDIRECT")
  case True
  then show ?thesis
    using addr ip ok by (intro that [of s]) (simp_all add: xv6fs_bmap_def xv6fs_ad_def bmap_slot_def baddr_def reads_refl)
next
  case False
  have q: "addrs_of s k NDIRECT \<noteq> 0" "fs_baddr s k bn = get32 (view s ROOTDEV (addrs_of s k NDIRECT)) (4 * (bn - NDIRECT))"
    using addr False by (auto simp: baddr_def split: if_splits)
  have b: "blk_ok ROOTDEV (addrs_of s k NDIRECT)" using ind False by simp
  obtain x s1 t where t: "bread ROOTDEV (addrs_of s k NDIRECT) s = Inr (x, s1)"
    "b_data (bufs s1 x) = view s ROOTDEV (addrs_of s k NDIRECT)" "brelse x s1 = Inr t" "reads s t"
    by (rule bread_brelse [OF ok b room])
  have "bn - NDIRECT < NINDIRECT" using False bn by (simp add: fs_consts)
  then have "xv6fs_bmap ip bn s = Inr (fs_baddr s k bn, t)"
    using addr False ip q t by (simp add: xv6fs_bmap_def xv6fs_ad_def bmap_slot_def bmap_entry_def Let_def)
  then show ?thesis using that t(4) by blast
qed

section \<open>readi\<close>

text \<open>The blocks of the bytes below \<open>len\<close> are all there.\<close>

definition no_holes :: "'z fsys_scheme \<Rightarrow> nat \<Rightarrow> nat \<Rightarrow> bool" where
  "no_holes s k len \<longleftrightarrow> len \<le> MAXFILE * BSIZE \<and>
     (\<forall>bn. bn * BSIZE < len \<longrightarrow> fs_baddr s k bn \<noteq> 0 \<and> blk_ok ROOTDEV (fs_baddr s k bn) \<and>
        (NDIRECT \<le> bn \<longrightarrow> blk_ok ROOTDEV (addrs_of s k NDIRECT)))"

lemma no_holes_reads: "reads s t \<Longrightarrow> no_holes t k len = no_holes s k len"
  unfolding no_holes_def reads_def using bio_more_fsys [of t s] by simp

lemma no_holes_mono:
  assumes "no_holes s k len" and "len' \<le> len"
  shows "no_holes s k len'"
proof -
  have "bn * BSIZE < len" if "bn * BSIZE < len'" for bn using that assms(2) by simp
  then show ?thesis using assms unfolding no_holes_def by (meson le_trans)
qed

lemma readi_loop_ok:
  assumes "bc_ok {} s" and "card (pins s) < NBUF"
    and "i_addrs (icache s ip) = Xv6fs_slot k" "i_dev (icache s ip) = ROOTDEV"
    and "no_holes s k (off + (n - tot))"
  shows "\<exists>t. xv6fs_readi_loop ip off n tot dst s = Inr (dst @ map (fs_fbyte s k) [off..<off + (n - tot)], t) \<and> reads s t"
  using assms
proof (induction "n - tot" arbitrary: off tot dst s rule: less_induct)
  case less
  show ?case
  proof (cases "tot < n")
    case False
    then show ?thesis using less.prems(1) by (simp add: xv6fs_readi_loop.simps reads_refl)
  next
    case True
    define m where "m = min (n - tot) (BSIZE - off mod BSIZE)"
    have m: "0 < m" "m \<le> n - tot" "m \<le> BSIZE - off mod BSIZE" using True by (auto simp: m_def BSIZE_def)
    have o: "off div BSIZE * BSIZE < off + (n - tot)" 
      using True div_times_less_eq_dividend [of off BSIZE] by linarith
    have nh: "fs_baddr s k (off div BSIZE) \<noteq> 0" "blk_ok ROOTDEV (fs_baddr s k (off div BSIZE))"
      "NDIRECT \<le> off div BSIZE \<Longrightarrow> blk_ok ROOTDEV (addrs_of s k NDIRECT)"
      using less.prems(5) o by (auto simp: no_holes_def)
    have bn: "off div BSIZE < MAXFILE"
      using less.prems(5) o by (auto simp: no_holes_def dest: order.strict_trans2)
    obtain s1 where s1: "xv6fs_bmap ip (off div BSIZE) s = Inr (fs_baddr s k (off div BSIZE), s1)" "reads s s1"
      by (rule bmap_existing [OF less.prems(1-4) bn nh(1,3)])
    have r1: "bc_ok {} s1" "card (pins s1) < NBUF" "view s1 = view s" using s1(2) less.prems by (simp_all add: reads_def)
    obtain x s2 s3 where s3: "bread ROOTDEV (fs_baddr s k (off div BSIZE)) s1 = Inr (x, s2)"
      "b_data (bufs s2 x) = view s1 ROOTDEV (fs_baddr s k (off div BSIZE))" "brelse x s2 = Inr s3" "reads s1 s3"
      by (rule bread_brelse [OF r1(1) nh(2) r1(2)])
    have r3: "reads s s3" by (rule reads_trans [OF s1(2) s3(4)])
    note f1 = bio_more_fsys [of s1 s] and f3 = bio_more_fsys [of s3 s]
    have e: "xv6fs_readi_loop ip off n tot dst s =
        xv6fs_readi_loop ip (off + m) n (tot + m) (dst @ map (fs_fbyte s k) [off..<off + m]) s3"
      using True s1 s3 r1(3) less.prems(4) f1 fbyte_range [OF nh(1) m(3)]
      by (subst xv6fs_readi_loop.simps) (simp add: Let_def m_def reads_def)
    have "\<exists>t. xv6fs_readi_loop ip (off + m) n (tot + m) (dst @ map (fs_fbyte s k) [off..<off + m]) s3 =
        Inr ((dst @ map (fs_fbyte s k) [off..<off + m]) @
          map (fs_fbyte s3 k) [off + m..<off + m + (n - (tot + m))], t) \<and> reads s3 t"
    proof (rule less.hyps)
      show "n - (tot + m) < n - tot" using m True by simp
      show "no_holes s3 k (off + m + (n - (tot + m)))"
        using less.prems(5) no_holes_reads [OF r3] m by simp
    qed (use r3 less.prems f3 in \<open>simp_all add: reads_def\<close>)
    then obtain t where t: "xv6fs_readi_loop ip off n tot dst s = Inr ((dst @ map (fs_fbyte s k) [off..<off + m]) @
          map (fs_fbyte s3 k) [off + m..<off + m + (n - (tot + m))], t)" "reads s3 t" using e by metis
    have "fs_fbyte s3 k = fs_fbyte s k" using r3 f3 by (simp add: reads_def)
    moreover have "off + m + (n - (tot + m)) = off + (n - tot)" using m by simp
    moreover have "[off..<off + m] @ [off + m..<off + (n - tot)] = [off..<off + (n - tot)]"
      using m upt_add_eq_append [of off "off + m" "n - tot - m"] by simp
    ultimately show ?thesis using t reads_trans [OF r3 t(2)] by (metis append.assoc map_append)
  qed
qed

end
