(* ===== verification/Fs_Write.thy ===== *)
theory Fs_Write
  imports Fs_Read
begin

text \<open>
  Writing. The loop of \<open>writei\<close> changes exactly the bytes it is given and keeps the file system
  invariant, the block map and every block of other files; and it records in the log only its
  data blocks, the free map and the indirect block, however many times it touches them.
\<close>

section \<open>One block\<close>

lemma file_block_home:
  assumes "fs_inv H s" and "fs_file_ok s k" and "bn < MAXFILE" and "fs_baddr s k bn \<noteq> 0"
  shows "log_home s ROOTDEV (fs_baddr s k bn)" "fs_baddr s k bn \<in> file_blocks s k"
    "bmap_blk s < fs_baddr s k bn"
proof -
  note d = file_ok_baddr [OF assms(2-4)]
  show "bmap_blk s < fs_baddr s k bn" by (rule d(1))
  have lay: "fs_layout s" using assms(1) by (simp add: fs_inv_def)
  show "log_home s ROOTDEV (fs_baddr s k bn)" using d by (intro data_home [OF lay]) simp_all
  show "fs_baddr s k bn \<in> file_blocks s k"
    using assms(3,4) by (auto simp: file_blocks_def pblk_def intro!: image_eqI [of _ _ bn])
qed

lemma write_block_ok:
  assumes inv: "fs_inv {} s" and ok: "fs_file_ok s k" and bn: "bn < MAXFILE" and p: "fs_baddr s k bn \<noteq> 0"
    and room: "card (logged s) < log_cap s"
  obtains b s1 s2 t where "bread ROOTDEV (fs_baddr s k bn) s = Inr (b, s1)"
    "log_write b (set_data b (f (b_data (bufs s1 b))) s1) = Inr s2" "brelse b s2 = Inr t"
    "fs_inv {} t" "fs_file_ok t k" "grows k s t" "free_blocks t = free_blocks s"
    "addrs_of t k = addrs_of s k" "fs_baddr t k = fs_baddr s k"
    "logged t = insert (ROOTDEV, fs_baddr s k bn) (logged s)"
    "\<And>x. x < MAXFILE * BSIZE \<Longrightarrow> fs_fbyte t k x =
       (if x div BSIZE = bn then f (view s ROOTDEV (fs_baddr s k bn)) (x mod BSIZE) else fs_fbyte s k x)"
proof -
  let ?p = "fs_baddr s k bn" and ?x = "f (view s ROOTDEV (fs_baddr s k bn))"
  have tx: "tx_inv {} s" using inv by (simp add: fs_inv_def)
  note h = file_block_home [OF inv ok bn p]
  from tx.bread_law [OF tx tx.home_ok [OF h(1)]] room obtain b s1 where
    s1: "bread ROOTDEV ?p s = Inr (b, s1)" "tx_inv {b} s1" "log_frame {b} s s1" "bkey s1 b = (ROOTDEV, ?p)"
    "b_data (bufs s1 b) = view s ROOTDEV ?p" "view s1 = view s" "logged s1 = logged s" by auto
  have q1: "quiet {} s s1" using quietI [OF s1(3)] by simp
  have "log_home s1 ROOTDEV ?p" "card (logged s1) < log_cap s1"
    using h room s1(7) quiet_fsys [OF q1] by auto
  then obtain s2 t where t: "log_write b (set_data b ?x s1) = Inr s2" "brelse b s2 = Inr t"
    "log_frame {b} s1 t" "tx_inv {} t" "view t = (view s1)(ROOTDEV := (view s1 ROOTDEV)(?p := ?x))"
    "logged t = insert (ROOTDEV, ?p) (logged s1)"
    using tx.logw_brelse [OF s1(2) _ s1(4)] by auto
  have q: "quiet {} s t" using quiet_trans [OF q1 quietI [OF t(3)]] by simp
  note f = quiet_fsys [OF q] quiet_layout [OF q]
  have u: "used t = used s" "free_blocks t = free_blocks s"
    using h(3) by (simp_all add: used_def free_blocks_def fun_eq_iff f t(5) s1(6))
  have v: "view t ROOTDEV = (view s ROOTDEV)(?p := ?x)" using t(5) s1(6) by simp
  note m = map_write_block [OF ok bn p v]
  have a: "addrs_of t k = addrs_of s k" by (simp add: f)
  have "pblk (view t ROOTDEV) (addrs_of t k) = pblk (view s ROOTDEV) (addrs_of s k)"
    using m(2) by (simp add: pblk_def fun_eq_iff a)
  then have "file_blocks t k = file_blocks s k" "grows k s t"
    using h(2) by (auto simp: grows_def f u v file_blocks_def)
  moreover have "fs_inv {} t" using inv t(4) by (simp add: fs_inv_def f u)
  ultimately show thesis
    using that [OF s1(1)] t s1 u a m by (simp add: f)
qed

section \<open>Counting the blocks of the log\<close>

definition ind_log :: "'z fsys_scheme \<Rightarrow> nat \<Rightarrow> (nat \<times> nat) set" where
  "ind_log s k = (if addrs_of s k NDIRECT = 0 then {} else {(ROOTDEV, addrs_of s k NDIRECT)})"

definition meta_log :: "'z fsys_scheme \<Rightarrow> nat \<Rightarrow> (nat \<times> nat) set" where
  "meta_log s k = insert (ROOTDEV, bmap_blk s) (ind_log s k)"

text \<open>Blocks recorded so far, with the free map and the indirect block counted in advance.\<close>

definition log_base :: "'z fsys_scheme \<Rightarrow> nat \<Rightarrow> nat" where
  "log_base s k = card (logged s \<union> meta_log s k) + (if addrs_of s k NDIRECT = 0 then 1 else 0)"

lemma finite_meta_log [simp]: "finite (meta_log s k)" "finite (logged s)"
  by (simp_all add: meta_log_def ind_log_def tx.recd_finite)

lemma log_base_le: "log_base s k \<le> card (logged s) + 2"
proof -
  have "card (meta_log s k) \<le> (if addrs_of s k NDIRECT = 0 then 1 else 2)"
    by (simp add: meta_log_def ind_log_def card_insert_if)
  then show ?thesis
    using card_Un_le [of "logged s" "meta_log s k"] by (auto simp: log_base_def split: if_splits)
qed

lemma card_le_base: "card (logged s) \<le> log_base s k"
proof -
  have "card (logged s) \<le> card (logged s \<union> meta_log s k)" by (intro card_mono) auto
  then show ?thesis by (simp add: log_base_def)
qed

lemma log_base_step:
  assumes l: "logged t \<subseteq> logged s \<union> meta_log t k \<union> {x}" and b: "bmap_blk t = bmap_blk s"
    and a: "addrs_of s k NDIRECT \<noteq> 0 \<Longrightarrow> addrs_of t k NDIRECT = addrs_of s k NDIRECT"
  shows "log_base t k \<le> Suc (log_base s k)"
proof -
  have 1: "logged t \<union> meta_log t k \<subseteq> insert x (logged s \<union> meta_log s k \<union> ind_log t k)"
    using l b by (auto simp: meta_log_def)
  have "card (logged t \<union> meta_log t k) \<le> card (insert x (logged s \<union> meta_log s k \<union> ind_log t k))"
    by (rule card_mono [OF _ 1]) (simp add: ind_log_def)
  also have "\<dots> \<le> Suc (card (logged s \<union> meta_log s k \<union> ind_log t k))"
    by (simp add: card_insert_if ind_log_def)
  finally have 2: "card (logged t \<union> meta_log t k) \<le> Suc (card (logged s \<union> meta_log s k \<union> ind_log t k))" .
  show ?thesis
  proof (cases "addrs_of s k NDIRECT = 0")
    case False
    then have "ind_log t k \<subseteq> meta_log s k" using a by (simp add: meta_log_def ind_log_def)
    then have "logged s \<union> meta_log s k \<union> ind_log t k = logged s \<union> meta_log s k" by auto
    then show ?thesis using 2 False a by (simp add: log_base_def)
  next
    case True
    have "card (ind_log t k) = (if addrs_of t k NDIRECT = 0 then 0 else 1)" by (simp add: ind_log_def)
    then show ?thesis
      using 2 True card_Un_le [of "logged s \<union> meta_log s k" "ind_log t k"]
      by (auto simp: log_base_def ind_log_def split: if_splits)
  qed
qed

section \<open>The loop\<close>

text \<open>
  \<open>wrote k src off r s t\<close>: what the loop does to the file of table entry \<open>k\<close> when it stores the
  \<open>r\<close> bytes \<open>src\<close> at offset \<open>off\<close>.
\<close>

definition wrote :: "nat \<Rightarrow> (nat \<Rightarrow> byte) \<Rightarrow> nat \<Rightarrow> nat \<Rightarrow> 'z fsys_scheme \<Rightarrow> 'z fsys_scheme \<Rightarrow> bool" where
  "wrote k src off r s t \<longleftrightarrow> fs_inv {} t \<and> fs_file_ok t k \<and> grows k s t \<and>
     (\<forall>x < MAXFILE * BSIZE. fs_fbyte t k x = (if off \<le> x \<and> x < off + r then src (x - off) else fs_fbyte s k x)) \<and>
     (0 < r \<longrightarrow> (\<forall>bn. off div BSIZE \<le> bn \<and> bn \<le> (off + r - 1) div BSIZE \<longrightarrow> fs_baddr t k bn \<noteq> 0)) \<and>
     log_base t k \<le> log_base s k + nblk off r"

lemma grows_baddr:
  assumes "grows k s t" and "bn < MAXFILE" and "fs_baddr s k bn \<noteq> 0"
  shows "fs_baddr t k bn = fs_baddr s k bn"
  using assms by (auto simp: grows_def pblk_def dest!: spec [of _ bn])

lemma grows_ind:
  assumes "grows k s t" and "addrs_of s k NDIRECT \<noteq> 0"
  shows "addrs_of t k NDIRECT = addrs_of s k NDIRECT"
  using assms by (auto simp: grows_def pblk_def dest!: spec [of _ MAXFILE])

lemma bmap_log_meta:
  assumes "fs_baddr t k bn \<noteq> 0"
  shows "bmap_log t k bn \<subseteq> meta_log t k \<union> {(ROOTDEV, fs_baddr t k bn)}"
  using assms by (auto simp: bmap_log_def meta_log_def ind_log_def baddr_def split: if_splits)

text \<open>One turn: \<open>bmap\<close>, then the block itself.\<close>

lemma write_turn:
  assumes inv: "fs_inv {} s" and ok: "fs_file_ok s k"
    and ip: "i_addrs (icache s ip) = Xv6fs_slot k" "i_dev (icache s ip) = ROOTDEV" and bn: "off div BSIZE < MAXFILE"
    and free: "2 \<le> card (free_blocks s)" and room: "log_base s k + 5 \<le> log_cap s"
    and r: "0 < r" and m: "m = min r (BSIZE - off mod BSIZE)"
  obtains addr s1 b s2 s3 t where "xv6fs_bmap ip (off div BSIZE) s = Inr (addr, s1)"
    "i_dev (icache s1 ip) = ROOTDEV" "bread ROOTDEV addr s1 = Inr (b, s2)"
    "log_write b (set_data b (put_bytes (b_data (bufs s2 b)) (off mod BSIZE) src m) s2) = Inr s3"
    "brelse b s3 = Inr t" "wrote k src off m s t" "card (free_blocks s) \<le> card (free_blocks t) + 2"
    "log_base t k \<le> Suc (log_base s k)" "fs_baddr t k (off div BSIZE) \<noteq> 0"
proof -
  let ?bn = "off div BSIZE"
  have room0: "card (logged s) + 5 \<le> log_cap s" using room card_le_base [of s k] by simp
  obtain addr s1 where s1: "xv6fs_bmap ip ?bn s = Inr (addr, s1)" "fs_inv {} s1" "fs_file_ok s1 k"
    "addr = fs_baddr s1 k ?bn" "addr \<noteq> 0" "grows k s s1" "same_bytes k s s1"
    "logged s1 \<subseteq> logged s \<union> bmap_log s1 k ?bn" "card (free_blocks s) \<le> card (free_blocks s1) + 2"
    by (rule bmap_ok [OF inv ok ip bn _ room0]) (use free in auto)
  note g = grows_fields [OF s1(6)]
  have l1: "logged s1 \<subseteq> logged s \<union> meta_log s1 k \<union> {(ROOTDEV, addr)}"
    using s1(4,5,8) bmap_log_meta [of s1 k ?bn] by auto
  have b1: "log_base s1 k \<le> Suc (log_base s k)"
    using grows_ind [OF s1(6)] g by (intro log_base_step [OF l1]) auto
  have room1: "card (logged s1) < log_cap s1" using b1 room card_le_base [of s1 k] g by simp
  obtain b s2 s3 t where t: "bread ROOTDEV (fs_baddr s1 k ?bn) s1 = Inr (b, s2)"
    "log_write b (set_data b (put_bytes (b_data (bufs s2 b)) (off mod BSIZE) src m) s2) = Inr s3"
    "brelse b s3 = Inr t" "fs_inv {} t" "fs_file_ok t k" "grows k s1 t" "free_blocks t = free_blocks s1"
    "addrs_of t k = addrs_of s1 k" "fs_baddr t k = fs_baddr s1 k"
    "logged t = insert (ROOTDEV, fs_baddr s1 k ?bn) (logged s1)"
    "\<And>x. x < MAXFILE * BSIZE \<Longrightarrow> fs_fbyte t k x = (if x div BSIZE = ?bn
       then put_bytes (view s1 ROOTDEV (fs_baddr s1 k ?bn)) (off mod BSIZE) src m (x mod BSIZE) else fs_fbyte s1 k x)"
    by (rule write_block_ok [OF s1(2,3) bn _ room1, where f = "\<lambda>d. put_bytes d (off mod BSIZE) src m"])
      (use s1(4,5) in \<open>auto intro: that\<close>)
  have gt: "grows k s t" by (rule grows_trans [OF s1(6) t(6)])
  have "meta_log t k = meta_log s1 k" by (simp add: meta_log_def ind_log_def t(8) grows_fields(5) [OF t(6)])
  then have lt: "logged t \<subseteq> logged s \<union> meta_log t k \<union> {(ROOTDEV, addr)}" using l1 t(10) s1(4) by auto
  have bt: "log_base t k \<le> Suc (log_base s k)"
    using grows_ind [OF gt] grows_fields(5) [OF gt] by (intro log_base_step [OF lt]) auto
  have bytes: "fs_fbyte t k x = (if off \<le> x \<and> x < off + m then src (x - off) else fs_fbyte s k x)"
    if "x < MAXFILE * BSIZE" for x
    using t(11) [OF that] s1(7) that put_in_block [OF m, where V = "view s1 ROOTDEV" and a = "addrs_of s1 k" and src = src and x = x] s1(4,5)
    by (simp add: same_bytes_def)
  have nb: "nblk off m = 1" "(off + m - 1) div BSIZE = off div BSIZE"
    using nblk_one [OF r m] by auto
  have "wrote k src off m s t"
    unfolding wrote_def using t(4,5,9) gt bytes bt nb s1(4,5) by auto
  then show thesis
    using that [OF s1(1)] t s1 g ip bt by simp
qed

lemma wrote_trans:
  assumes r: "0 < r" and m: "m = min r (BSIZE - off mod BSIZE)" and lim: "off + r \<le> MAXFILE * BSIZE"
    and 1: "wrote k src off m s t" and 2: "wrote k (\<lambda>i. src (m + i)) (off + m) (r - m) t u"
    and b: "fs_baddr t k (off div BSIZE) \<noteq> 0"
  shows "wrote k src off r s u"
proof -
  have mr: "m \<le> r" using m by simp
  have gu: "grows k t u" and g: "grows k s u"
    using 1 2 grows_trans by (auto simp: wrote_def)
  have bn: "off div BSIZE < MAXFILE" using lim r by (simp add: less_mult_imp_div_less)
  have b1: "fs_baddr u k (off div BSIZE) \<noteq> 0" using grows_baddr [OF gu bn b] b by simp
  have bl: "fs_baddr u k bn \<noteq> 0" if "off div BSIZE \<le> bn" "bn \<le> (off + r - 1) div BSIZE" for bn
    using last_block [OF r m that] b1 2 by (auto simp: wrote_def)
  have "nblk off r = Suc (nblk (off + m) (r - m))" "nblk off m = 1"
    using nblk_step [OF r m] nblk_one [OF r m] by auto
  then have "log_base u k \<le> log_base s k + nblk off r"
    using 1 2 by (simp add: wrote_def)
  moreover have "fs_fbyte u k x = (if off \<le> x \<and> x < off + r then src (x - off) else fs_fbyte s k x)"
    if "x < MAXFILE * BSIZE" for x
    using 1 2 that mr by (auto simp: wrote_def)
  ultimately show ?thesis using 2 g bl unfolding wrote_def by simp
qed

lemma writei_loop_ok:
  assumes "fs_inv {} s" and "fs_file_ok s k"
    and "i_addrs (icache s ip) = Xv6fs_slot k" "i_dev (icache s ip) = ROOTDEV"
    and "off + (n - tot) \<le> MAXFILE * BSIZE" and "2 * nblk off (n - tot) \<le> card (free_blocks s)"
    and "log_base s k + nblk off (n - tot) + 4 \<le> log_cap s"
  shows "\<exists>t. xv6fs_writei_loop ip src off n tot s = Inr t \<and> wrote k (\<lambda>i. src (tot + i)) off (n - tot) s t"
  using assms
proof (induction "n - tot" arbitrary: off tot s rule: less_induct)
  case less
  show ?case
  proof (cases "tot < n")
    case False
    then show ?thesis
      using less.prems by (auto simp: xv6fs_writei_loop.simps wrote_def)
  next
    case True
    define m where "m = min (n - tot) (BSIZE - off mod BSIZE)"
    have m: "0 < m" "m \<le> n - tot" using True by (auto simp: m_def BSIZE_def)
    have r: "0 < n - tot" using True by simp
    have ns: "nblk off (n - tot) = Suc (nblk (off + m) (n - (tot + m)))"
      using nblk_step [OF r m_def] by simp
    have bn: "off div BSIZE < MAXFILE"
      using less.prems(5) r by (simp add: less_mult_imp_div_less)
    have fr: "2 \<le> card (free_blocks s)" and rm: "log_base s k + 5 \<le> log_cap s"
      using less.prems(6,7) ns by auto
    obtain addr s1 b s2 s3 t where t: "xv6fs_bmap ip (off div BSIZE) s = Inr (addr, s1)"
      "i_dev (icache s1 ip) = ROOTDEV" "bread ROOTDEV addr s1 = Inr (b, s2)"
      "log_write b (set_data b (put_bytes (b_data (bufs s2 b)) (off mod BSIZE) (\<lambda>i. src (tot + i)) m) s2) = Inr s3"
      "brelse b s3 = Inr t" "wrote k (\<lambda>i. src (tot + i)) off m s t" "card (free_blocks s) \<le> card (free_blocks t) + 2"
      "log_base t k \<le> Suc (log_base s k)" "fs_baddr t k (off div BSIZE) \<noteq> 0"
      by (rule write_turn [OF less.prems(1-4) bn fr rm r m_def, where src = "\<lambda>i. src (tot + i)"])
    have e: "xv6fs_writei_loop ip src off n tot s = xv6fs_writei_loop ip src (off + m) n (tot + m) t"
      using True t(1-5) by (subst xv6fs_writei_loop.simps) (simp add: Let_def m_def)
    note gt = grows_fields [of k s t]
    have g: "grows k s t" "fs_inv {} t" "fs_file_ok t k" using t(6) by (simp_all add: wrote_def)
    have "\<exists>u. xv6fs_writei_loop ip src (off + m) n (tot + m) t = Inr u \<and>
        wrote k (\<lambda>i. src (tot + m + i)) (off + m) (n - (tot + m)) t u"
    proof (rule less.hyps)
      show "n - (tot + m) < n - tot" using m True by simp
      show "off + m + (n - (tot + m)) \<le> MAXFILE * BSIZE" using less.prems(5) m by simp
      show "2 * nblk (off + m) (n - (tot + m)) \<le> card (free_blocks t)"
        using less.prems(6) t(7) ns by simp
      show "log_base t k + nblk (off + m) (n - (tot + m)) + 4 \<le> log_cap t"
        using less.prems(7) t(8) ns gt(3) [OF g(1)] by simp
    qed (use g gt less.prems in auto)
    then obtain u where u: "xv6fs_writei_loop ip src off n tot s = Inr u"
      "wrote k (\<lambda>i. src (tot + m + i)) (off + m) (n - (tot + m)) t u" using e by metis
    have "wrote k (\<lambda>i. src (tot + i)) off (n - tot) s u"
      by (rule wrote_trans [OF r m_def less.prems(5) t(6) _ t(9)]) (use u(2) in \<open>simp add: add.assoc\<close>)
    then show ?thesis using u(1) by blast
  qed
qed

section \<open>The inode block\<close>

definition inode_blk :: "'z fsys_scheme \<Rightarrow> nat \<Rightarrow> nat" where
  "inode_blk s inum = sb_inodestart (sb s) + inum div IPB"

lemma inode_blk_home:
  assumes "fs_layout s" and "inum < sb_ninodes (sb s)"
  shows "IBLOCK inum (sb s) = inode_blk s inum" "log_home s ROOTDEV (inode_blk s inum)"
    "inode_blk s inum < bmap_blk s"
proof -
  have "inum div IPB \<le> sb_ninodes (sb s) div IPB" using assms(2) by (simp add: div_le_mono)
  then have l: "inode_blk s inum < bmap_blk s" "bmap_blk s < FSSIZE" "log_start s + log_size s \<le> inode_blk s inum"
    using assms(1) by (auto simp: fs_layout_def inode_blk_def bmap_blk_def)
  then show "inode_blk s inum < bmap_blk s" "log_home s ROOTDEV (inode_blk s inum)"
    by (auto simp: log_home_def log_region_def)
  show "IBLOCK inum (sb s) = inode_blk s inum"
    using l by (simp add: IBLOCK_def inode_blk_def uadd_small FSSIZE_def add.commute)
qed

definition dinode_for :: "'z fsys_scheme \<Rightarrow> nat \<Rightarrow> nat \<Rightarrow> dinode" where
  "dinode_for s ip k =
     (let x = icache s ip in
      \<lparr>d_type = i_type x, d_major = i_major x, d_minor = i_minor x, d_nlink = i_nlink x,
       d_size = i_size x, d_addrs = addrs_of s k\<rparr>)"

lemma iupdate_ok:
  assumes inv: "fs_inv {} s" and ip: "i_addrs (icache s ip) = Xv6fs_slot k" "i_dev (icache s ip) = ROOTDEV"
    and inum: "i_inum (icache s ip) < sb_ninodes (sb s)" and room: "card (logged s) < log_cap s"
  obtains t where "xv6fs_iupdate ip s = Inr t" "fs_inv {} t" "quiet {} s t"
    "view t = (view s)(ROOTDEV := (view s ROOTDEV)(inode_blk s (i_inum (icache s ip)) :=
       put_dinode (view s ROOTDEV (inode_blk s (i_inum (icache s ip)))) (dinode_off (i_inum (icache s ip))) (dinode_for s ip k)))"
    "logged t = insert (ROOTDEV, inode_blk s (i_inum (icache s ip))) (logged s)"
    "used t = used s" "free_blocks t = free_blocks s"
proof -
  let ?i = "i_inum (icache s ip)"
  let ?f = "\<lambda>d. put_dinode d (dinode_off ?i) (dinode_for s ip k)"
  have tx: "tx_inv {} s" and lay: "fs_layout s" using inv by (auto simp: fs_inv_def)
  note h = inode_blk_home [OF lay inum]
  from tx.bread_law [OF tx tx.home_ok [OF h(2)]] room obtain b s1 where
    s1: "bread ROOTDEV (inode_blk s ?i) s = Inr (b, s1)" "tx_inv {b} s1" "log_frame {b} s s1"
    "bkey s1 b = (ROOTDEV, inode_blk s ?i)" "b_data (bufs s1 b) = view s ROOTDEV (inode_blk s ?i)"
    "view s1 = view s" "logged s1 = logged s" by auto
  have q1: "quiet {} s s1" using quietI [OF s1(3)] by simp
  note f1 = quiet_fsys [OF q1]
  have "log_home s1 ROOTDEV (inode_blk s ?i)" "card (logged s1) < log_cap s1"
    using h room s1(7) f1 by auto
  then obtain s2 t where t: "log_write b (set_data b (?f (view s ROOTDEV (inode_blk s ?i))) s1) = Inr s2"
    "brelse b s2 = Inr t" "log_frame {b} s1 t" "tx_inv {} t"
    "view t = (view s1)(ROOTDEV := (view s1 ROOTDEV)(inode_blk s ?i := ?f (view s ROOTDEV (inode_blk s ?i))))"
    "logged t = insert (ROOTDEV, inode_blk s ?i) (logged s1)"
    using tx.logw_brelse [OF s1(2) _ s1(4)] by auto
  have q: "quiet {} s t" using quiet_trans [OF q1 quietI [OF t(3)]] by simp
  note f = quiet_fsys [OF q] quiet_layout [OF q]
  have u: "used t = used s" "free_blocks t = free_blocks s"
    using h(3) by (simp_all add: used_def free_blocks_def fun_eq_iff f t(5) s1(6))
  have "xv6fs_iupdate ip s = Inr t"
    using s1 t ip h(1) by (simp add: xv6fs_iupdate_def xv6fs_ad_def dinode_for_def f1 Let_def)
  moreover have "fs_inv {} t" using inv t(4) by (simp add: fs_inv_def f u)
  ultimately show thesis using that q t s1 u by simp
qed

lemma iupdate_file:
  assumes lay: "fs_layout s" and inum: "inum < sb_ninodes (sb s)" and q: "quiet {} s t"
    and v: "view t = (view s)(ROOTDEV := (view s ROOTDEV)(inode_blk s inum := x))" and ok: "fs_file_ok s k"
    and u: "used t = used s"
  shows "fs_file_ok t k" "fs_baddr t k = fs_baddr s k" "\<And>y. y < MAXFILE * BSIZE \<Longrightarrow> fs_fbyte t k y = fs_fbyte s k y"
proof -
  note f = quiet_fsys [OF q] quiet_layout [OF q]
  have "\<forall>n \<in> Collect (used s). bmap_blk s < n \<longrightarrow> view t ROOTDEV n = view s ROOTDEV n"
    using inode_blk_home(3) [OF lay inum] by (auto simp: v)
  note m = file_same [OF ok this order_refl]
  show "fs_file_ok t k" "fs_baddr t k = fs_baddr s k" "\<And>y. y < MAXFILE * BSIZE \<Longrightarrow> fs_fbyte t k y = fs_fbyte s k y"
    using m by (simp_all add: f u)
qed

section \<open>writei\<close>

lemma MAXFILE_BSIZE: "MAXFILE * BSIZE = 274432"
  by (simp add: fs_consts)

lemma writei_ok:
  assumes inv: "fs_inv {} s" and ok: "fs_file_ok s k"
    and ip: "i_addrs (icache s ip) = Xv6fs_slot k" "i_dev (icache s ip) = ROOTDEV"
    and inum: "i_inum (icache s ip) < sb_ninodes (sb s)" and type: "i_type (icache s ip) \<noteq> T_DEV"
    and off: "off \<le> i_size (icache s ip)" "off + n \<le> MAXFILE * BSIZE"
    and free: "2 * nblk off n \<le> card (free_blocks s)" and room: "card (logged s) + nblk off n + 6 \<le> log_cap s"
  obtains t where "xv6fs_writei devsw ip src off n s = Inr (int n, t)" "fs_inv {} t" "fs_file_ok t k"
    "i_size (icache t ip) = max (i_size (icache s ip)) (off + n)"
    "(icache t ip)\<lparr>i_size := i_size (icache s ip)\<rparr> = icache s ip" "\<And>j. j \<noteq> ip \<Longrightarrow> icache t j = icache s j"
    "\<And>x. x < MAXFILE * BSIZE \<Longrightarrow> fs_fbyte t k x =
       (if off \<le> x \<and> x < off + n then src (x - off) else fs_fbyte s k x)"
    "\<And>bn. bn < MAXFILE \<Longrightarrow> fs_baddr s k bn \<noteq> 0 \<or> (0 < n \<and> off div BSIZE \<le> bn \<and> bn \<le> (off + n - 1) div BSIZE) \<Longrightarrow>
       fs_baddr t k bn \<noteq> 0"
    "card (logged t) \<le> card (logged s) + nblk off n + 3" "sb t = sb s" "log_cap t = log_cap s"
proof -
  have w: "uadd off n = off + n" "sint32 n = int n"
    using off(2) by (simp_all add: MAXFILE_BSIZE uadd_small sint32_def)
  have r1: "log_base s k + nblk off (n - 0) + 4 \<le> log_cap s" using room log_base_le [of s k] by simp
  obtain s1 where s1: "xv6fs_writei_loop ip src off n 0 s = Inr s1" "wrote k (\<lambda>i. src (0 + i)) off (n - 0) s s1"
    using writei_loop_ok [OF inv ok ip, of off n 0 src] off(2) free r1 by auto
  have wr: "fs_inv {} s1" "fs_file_ok s1 k" "grows k s s1" "log_base s1 k \<le> log_base s k + nblk off n"
    "\<And>x. x < MAXFILE * BSIZE \<Longrightarrow> fs_fbyte s1 k x = (if off \<le> x \<and> x < off + n then src (x - off) else fs_fbyte s k x)"
    "\<And>bn. 0 < n \<Longrightarrow> off div BSIZE \<le> bn \<Longrightarrow> bn \<le> (off + n - 1) div BSIZE \<Longrightarrow> fs_baddr s1 k bn \<noteq> 0"
    using s1(2) by (auto simp: wrote_def)
  note g = grows_fields [OF wr(3)]
  have bl: "fs_baddr s1 k bn \<noteq> 0" if "bn < MAXFILE"
    "fs_baddr s k bn \<noteq> 0 \<or> (0 < n \<and> off div BSIZE \<le> bn \<and> bn \<le> (off + n - 1) div BSIZE)" for bn
    using grows_baddr [OF wr(3) that(1)] wr(6) [of bn] that(2) by auto
  have c1: "card (logged s1) \<le> card (logged s) + nblk off n + 2"
    using card_le_base [of s1 k] wr(4) log_base_le [of s k] by simp
  have lay1: "fs_layout s1" using wr(1) by (simp add: fs_inv_def)
  show thesis
  proof (cases "n > 0 \<and> off + n > i_size (icache s ip)")
    case False
    then have "xv6fs_writei devsw ip src off n s = Inr (int n, s1)"
      using s1(1) type off w g by (auto simp: xv6fs_writei_def Let_def)
    moreover have "max (i_size (icache s ip)) (off + n) = i_size (icache s ip)" using False off(1) by auto
    ultimately show thesis using wr(1,2,5) bl c1 g by (intro that [of s1]) auto
  next
    case True
    let ?s = "set_inode ip (\<lambda>x. x\<lparr>i_size := off + n\<rparr>) s1"
    have inv': "fs_inv {} ?s" using wr(1) by simp
    have pre: "i_addrs (icache ?s ip) = Xv6fs_slot k" "i_dev (icache ?s ip) = ROOTDEV"
      "i_inum (icache ?s ip) < sb_ninodes (sb ?s)" "card (logged ?s) < log_cap ?s"
      using ip inum g c1 room by simp_all
    obtain t where t: "xv6fs_iupdate ip ?s = Inr t" "fs_inv {} t" "quiet {} ?s t"
      "view t = (view ?s)(ROOTDEV := (view ?s ROOTDEV)(inode_blk ?s (i_inum (icache ?s ip)) :=
         put_dinode (view ?s ROOTDEV (inode_blk ?s (i_inum (icache ?s ip)))) (dinode_off (i_inum (icache ?s ip))) (dinode_for ?s ip k)))"
      "logged t = insert (ROOTDEV, inode_blk ?s (i_inum (icache ?s ip))) (logged ?s)" "used t = used ?s"
      by (rule iupdate_ok [OF inv' pre])
    have lay': "fs_layout ?s" using inv' by (simp add: fs_inv_def)
    have ok': "fs_file_ok ?s k" using wr(2) by simp
    note m = iupdate_file [OF lay' pre(3) t(3,4) ok' t(6)]
    note f = quiet_fsys [OF t(3)]
    have "xv6fs_writei devsw ip src off n s = Inr (int n, t)"
      using s1(1) type off w g True t(1) by (simp add: xv6fs_writei_def Let_def)
    moreover have "i_size (icache t ip) = max (i_size (icache s ip)) (off + n)"
      using True by (simp add: f)
    moreover have "card (logged t) \<le> card (logged s) + nblk off n + 3"
      using c1 by (simp add: t(5) card_insert_if)
    ultimately show thesis
      using t(2) m wr(5) bl by (intro that [of t]) (auto simp: f g)
  qed
qed

end
