(* ===== verification/Fs_Props.thy ===== *)
theory Fs_Props
  imports Fs_Write
begin

text \<open>
  The properties of the xv6 file system, with a concrete file system on which they are
  instantiated: 60 blocks laid out as \<open>mkfs\<close> does, an empty file, and one transaction in progress.
\<close>

section \<open>A concrete file system\<close>

definition demo_bitmap :: block where
  "demo_bitmap i = (if i < 4 then 0xff else if i = 4 then 0x07 else 0)"

definition demo_fs_disk :: "nat \<Rightarrow> nat \<Rightarrow> block" where
  "demo_fs_disk d l = (if d = 1 \<and> l = 68 then demo_bitmap else zero_block)"

definition demo_inode :: inode where
  "demo_inode = \<lparr>i_dev = 1, i_inum = 5, i_ref = 1, i_lock = \<lparr>sl_locked = True, sl_pid = 1\<rparr>, i_valid = True,
     i_iops = Some Xv6fs_inode_ops, i_type = T_FILE, i_major = 0, i_minor = 0, i_nlink = 1, i_size = 0,
     i_addrs = Xv6fs_slot 0\<rparr>"

definition demo_fs :: fsys where
  "demo_fs = logst.extend ((boot_log demo_fs_disk)\<lparr>log_start := 2, log_size := 30, log_outstanding := 1, log_dev := 1\<rparr>)
     (fsys.fields \<lparr>sb_size = 60, sb_nblocks = 25, sb_ninodes = 16, sb_nlog = 30, sb_logstart = 2,
        sb_inodestart = 32, sb_bmapstart = 34\<rparr>
        \<lparr>s_inodes_count = 0, s_blocks_count = 0, s_log_block_size = 0, s_blocks_per_group = 1,
         s_inodes_per_group = 1, s_magic = 0, s_inode_size = 128\<rparr>
        (\<lambda>_. demo_inode) (\<lambda>_. \<lparr>ad_busy = 0, ad_addrs = (\<lambda>_. 0)\<rparr>) (\<lambda>_. \<lparr>ad_busy = 0, ad_addrs = (\<lambda>_. 0)\<rparr>) 0)"

lemma demo_fs_fields:
  "sb demo_fs = \<lparr>sb_size = 60, sb_nblocks = 25, sb_ninodes = 16, sb_nlog = 30, sb_logstart = 2,
     sb_inodestart = 32, sb_bmapstart = 34\<rparr>"
  "icache demo_fs ip = demo_inode" "xv6fs_addrs demo_fs k = \<lparr>ad_busy = 0, ad_addrs = (\<lambda>_. 0)\<rparr>"
  "log_start demo_fs = 2" "log_size demo_fs = 30" "log_outstanding demo_fs = 1" "log_dev demo_fs = 1"
  "lh_n demo_fs = 0"
  by (simp_all add: demo_fs_def logst.extend_def fsys.fields_def boot_log_def bio.extend_def logst.fields_def
      boot_bio_def binit_def)

lemma demo_fs_io: "same_io (boot_log demo_fs_disk) demo_fs"
  by (simp add: same_io_def demo_fs_def logst.extend_def fsys.fields_def bio.truncate_def)

lemma demo_fs_tx: "tx_inv {} demo_fs" "logged demo_fs = {}" "view demo_fs 1 34 = demo_bitmap"
proof -
  note o = same_io_obs [OF demo_fs_io]
  have d: "dblk demo_fs d n = demo_fs_disk d (2 * n)" for d n
    by (simp add: o dblk_def boot_log_ok)
  have p: "pins demo_fs = {}" "bc_ok {} demo_fs" by (simp_all add: o boot_log_ok)
  show "logged demo_fs = {}" by (simp add: logged_def demo_fs_fields)
  have "txn demo_fs"
    using p by (intro empty_txn) (simp_all add: demo_fs_fields log_consts d demo_fs_disk_def)
  then show "tx_inv {} demo_fs" by (simp add: tx_inv_def demo_fs_fields)
  show "view demo_fs 1 34 = demo_bitmap"
    using view_unpinned [OF p(2), of 1 34] p(1) by (simp add: d demo_fs_disk_def)
qed

lemma demo_used: "used demo_fs b \<longleftrightarrow> b < 35"
proof (cases "b div 8 < 5")
  case False
  then have "b \<ge> 35" by simp
  then show ?thesis
    using False demo_fs_tx(3) by (simp add: used_def bmap_blk_def demo_fs_fields ROOTDEV_def bm_test_def demo_bitmap_def)
next
  case True
  then have "b \<in> set [0..<40]" by simp
  moreover have "\<forall>b \<in> set [0..<40]. bm_test demo_bitmap b \<longleftrightarrow> b < 35" by code_simp
  ultimately show ?thesis
    using demo_fs_tx(3) by (simp add: used_def bmap_blk_def demo_fs_fields ROOTDEV_def del: set_upt)
qed

lemma demo_fs_ok: "fs_inv {} demo_fs" "fs_file_ok demo_fs 0" "free_blocks demo_fs = {35..<60}"
proof -
  show f: "free_blocks demo_fs = {35..<60}"
    by (auto simp: free_blocks_def demo_used demo_fs_fields)
  show "fs_inv {} demo_fs"
    using demo_fs_tx f by (auto simp: fs_inv_def fs_layout_def bmap_blk_def demo_fs_fields fs_consts)
  show "fs_file_ok demo_fs 0"
    by (simp add: file_ok_def pblk_def baddr_def demo_fs_fields)
qed

lemma demo_fs_room: "log_cap demo_fs = 29" "card (logged demo_fs) = 0"
  by (simp_all add: log_cap_def demo_fs_fields demo_fs_tx)

section \<open>Blocks\<close>

text \<open>
  C5: \<open>balloc\<close> returns the first free block of the disk, zeroed and marked in use, and changes
  no other block; the caller's view is exact, in a transaction with room for the two blocks
  it records.
\<close>

theorem balloc_first_free:
  assumes "fs_inv {} s" and "free_blocks s \<noteq> {}" and "card (logged s) + 2 \<le> log_cap s"
  shows "\<exists>b t. xv6fs_balloc ROOTDEV s = Inr (b, t) \<and> b \<in> free_blocks s \<and> (\<forall>c \<in> free_blocks s. b \<le> c) \<and>
    fs_inv {} t \<and> free_blocks t = free_blocks s - {b} \<and> view t ROOTDEV b = zero_block \<and>
    (\<forall>n. n \<noteq> b \<and> n \<noteq> bmap_blk s \<longrightarrow> view t ROOTDEV n = view s ROOTDEV n)"
proof -
  obtain b t where t: "xv6fs_balloc ROOTDEV s = Inr (b, t)" "b \<in> free_blocks s" "\<forall>c \<in> free_blocks s. b \<le> c"
    "tx_inv {} t" "quiet {} s t" "view t = alloc_view s b"
    by (rule balloc_ok [OF assms(1,2)]) (use assms(3) in auto)
  note b = free_block_D(1) [OF assms(1) t(2)]
  note al = alloc_used [OF t(6,5) b]
  have "fs_inv {} t" by (rule alloc_inv [OF assms(1) t(4-6) b])
  then show ?thesis using t(1-3) al(2-4) by auto
qed

lemma balloc_first_free_witness:
  "\<exists>t. xv6fs_balloc ROOTDEV demo_fs = Inr (35, t) \<and> view t ROOTDEV 35 = zero_block \<and> 35 \<notin> free_blocks t"
proof -
  obtain b t where t: "xv6fs_balloc ROOTDEV demo_fs = Inr (b, t)" "b \<in> free_blocks demo_fs"
    "\<forall>c \<in> free_blocks demo_fs. b \<le> c" "free_blocks t = free_blocks demo_fs - {b}" "view t ROOTDEV b = zero_block"
    using balloc_first_free [OF demo_fs_ok(1)] by (auto simp: demo_fs_ok demo_fs_room)
  have "35 \<le> b" "b \<le> 35" using t(2,3) by (auto simp: demo_fs_ok)
  then have "b = 35" by simp
  then show ?thesis using t by auto
qed

text \<open>
  C6: A block that \<open>bfree\<close> gives back is available again. \<open>bfree\<close> of any data block in use makes exactly that block
  free and changes no block but the free map; the next \<open>balloc\<close> takes the lowest of the free blocks with the
  freed one among them. If the freed block is the lowest, \<open>balloc\<close> returns it, and the free map is the
  one before the two calls.
\<close>

theorem bfree_balloc:
  assumes "fs_inv {} s" and "used s b" "bmap_blk s < b" "b < sb_size (sb s)" and "card (logged s) + 3 \<le> log_cap s"
  shows "\<exists>t c u. xv6fs_bfree ROOTDEV b s = Inr t \<and> fs_inv {} t \<and> free_blocks t = insert b (free_blocks s) \<and>
    (\<forall>n. n \<noteq> bmap_blk s \<longrightarrow> view t ROOTDEV n = view s ROOTDEV n) \<and>
    xv6fs_balloc ROOTDEV t = Inr (c, u) \<and> fs_inv {} u \<and> c \<in> insert b (free_blocks s) \<and>
    (\<forall>d \<in> insert b (free_blocks s). c \<le> d) \<and> free_blocks u = insert b (free_blocks s) - {c} \<and>
    ((\<forall>d \<in> free_blocks s. b < d) \<longrightarrow> c = b \<and> used u = used s)"
proof -
  have room: "card ({} :: nat set) + card (logged s) \<le> log_cap s" "card (logged s) < log_cap s" using assms(5) by auto
  obtain t where t: "xv6fs_bfree ROOTDEV b s = Inr t" "fs_inv {} t" "quiet {} s t" "view t = free_view s b"
    "logged t = insert (ROOTDEV, bmap_blk s) (logged s)"
    "free_blocks t = insert b (free_blocks s)" "\<And>c. used t c \<longleftrightarrow> c \<noteq> b \<and> used s c"
    by (rule bfree_ok [OF assms(1-4) _ room]) (auto intro: that)
  note f = quiet_fsys [OF t(3)] quiet_layout [OF t(3)]
  have "card (logged t) \<le> card (logged s) + 1" by (simp add: t(5) card_insert_if)
  then have r: "card (logged t) + 2 \<le> log_cap t" "free_blocks t \<noteq> {}" using assms(5) f t(6) by auto
  obtain c u where u: "xv6fs_balloc ROOTDEV t = Inr (c, u)" "c \<in> free_blocks t" "\<forall>d \<in> free_blocks t. c \<le> d"
    "tx_inv {} u" "quiet {} t u" "view u = alloc_view t c"
    by (rule balloc_ok [OF t(2) r(2)]) (use r(1) in auto)
  note b = free_block_D(1) [OF t(2) u(2)]
  note al = alloc_used [OF u(6,5) b]
  have "fs_inv {} u" by (rule alloc_inv [OF t(2) u(4-6) b])
  moreover have "view t ROOTDEV n = view s ROOTDEV n" if "n \<noteq> bmap_blk s" for n
    using t(4) that by (simp add: free_view_def)
  moreover have "c = b \<and> used u = used s" if l: "\<forall>d \<in> free_blocks s. b < d"
  proof -
    have "c = b" using l u(2,3) t(6) by (metis insert_iff leD)
    then show ?thesis using al(1) t(7) assms(2) by (auto simp: fun_eq_iff)
  qed
  ultimately show ?thesis using t(1,2,6) u(1-3) al(2) by (intro exI [of _ t] exI [of _ c] exI [of _ u]) auto
qed

lemma bfree_balloc_witness:
  "\<exists>t u. xv6fs_balloc ROOTDEV demo_fs = Inr (35, t) \<and>
     (\<exists>v w. xv6fs_bfree ROOTDEV 35 t = Inr v \<and> free_blocks v = {35..<60} \<and> xv6fs_balloc ROOTDEV v = Inr (35, w))"
proof -
  obtain b t where t: "xv6fs_balloc ROOTDEV demo_fs = Inr (b, t)" "b \<in> free_blocks demo_fs" "\<forall>c \<in> free_blocks demo_fs. b \<le> c"
    "tx_inv {} t" "quiet {} demo_fs t" "view t = alloc_view demo_fs b"
    "logged t = {(ROOTDEV, bmap_blk demo_fs), (ROOTDEV, b)} \<union> logged demo_fs"
    by (rule balloc_ok [OF demo_fs_ok(1)]) (auto simp: demo_fs_ok demo_fs_room)
  have "35 \<le> b" "b \<le> 35" using t(2,3) by (auto simp: demo_fs_ok)
  then have b: "b = 35" by simp
  note D = free_block_D [OF demo_fs_ok(1) t(2)]
  note al = alloc_used [OF t(6,5) D(1)] and f = quiet_fsys [OF t(5)] quiet_layout [OF t(5)]
  have inv: "fs_inv {} t" by (rule alloc_inv [OF demo_fs_ok(1) t(4-6) D(1)])
  have "card (logged t) \<le> 2" by (simp add: t(7) demo_fs_tx card_insert_if)
  moreover have "log_cap t = log_cap demo_fs" using f by simp
  ultimately have room: "card (logged t) + 3 \<le> log_cap t" using demo_fs_room by simp
  have sb: "sb t = sb demo_fs" using f by simp
  have pre: "used t 35" "bmap_blk t < 35" "35 < sb_size (sb t)"
  proof -
    show "used t 35" using al(1) b by blast
    show "bmap_blk t < 35" "35 < sb_size (sb t)" by (simp_all add: bmap_blk_def sb demo_fs_fields)
  qed
  have "{35..<60} - {35} = {36..<60 :: nat}" by auto
  then have fr: "free_blocks t = {36..<60}" using al(2) unfolding b demo_fs_ok(3) by simp
  have "\<exists>v c w. xv6fs_bfree ROOTDEV 35 t = Inr v \<and> fs_inv {} v \<and> free_blocks v = insert 35 (free_blocks t) \<and>
    (\<forall>n. n \<noteq> bmap_blk t \<longrightarrow> view v ROOTDEV n = view t ROOTDEV n) \<and>
    xv6fs_balloc ROOTDEV v = Inr (c, w) \<and> fs_inv {} w \<and> c \<in> insert 35 (free_blocks t) \<and>
    (\<forall>d \<in> insert 35 (free_blocks t). c \<le> d) \<and> free_blocks w = insert 35 (free_blocks t) - {c} \<and>
    ((\<forall>d \<in> free_blocks t. 35 < d) \<longrightarrow> c = 35 \<and> used w = used t)"
    by (rule bfree_balloc [OF inv pre room])
  moreover have "insert 35 (free_blocks t) = {35..<60}" "\<forall>d \<in> free_blocks t. 35 < d" by (auto simp: fr)
  ultimately show ?thesis using t(1) b by metis
qed

text \<open>
  C7: the two panics of the allocator are exact. \<open>balloc\<close> panics when no block is free, and \<open>bfree\<close>
  panics on a block that is already free.
\<close>

theorem alloc_panics:
  assumes "fs_inv {} s" and "card (logged s) \<le> log_cap s"
  shows "(free_blocks s = {} \<longrightarrow> xv6fs_balloc ROOTDEV s = Inl (Panic ''balloc: out of blocks'')) \<and>
    (\<forall>b \<in> free_blocks s. xv6fs_bfree ROOTDEV b s = Inl (Panic ''freeing free block''))"
  using balloc_full [OF assms(1) _ assms(2)] bfree_free [OF assms(1) _ assms(2)] by blast

lemma alloc_panics_witness:
  "xv6fs_bfree ROOTDEV 40 demo_fs = Inl (Panic ''freeing free block'')"
  using alloc_panics [OF demo_fs_ok(1)] by (auto simp: demo_fs_ok demo_fs_room)

section \<open>Files\<close>

text \<open>
  C8: \<open>bmap\<close> gives every block number of a file an address and keeps it, and no byte of any file changes. The block it
  returns is the one the map has afterwards; blocks the file already had keep their addresses, and a block it gains was
  free. Blocks that are in use and not of this file are untouched. The map stays well formed (no block used twice), and the
  contents of the file do not change, since a new block is zero; nor do those of any other file that shares no block
  with it, and they still share none.
\<close>

theorem bmap_keeps_contents:
  assumes "fs_inv {} s" and "fs_file_ok s k" and "i_addrs (icache s ip) = Xv6fs_slot k"
    and "i_dev (icache s ip) = ROOTDEV" and "bn < MAXFILE" and "2 \<le> card (free_blocks s)"
    and "card (logged s) + 5 \<le> log_cap s"
  shows "\<exists>addr t. xv6fs_bmap ip bn s = Inr (addr, t) \<and> addr \<noteq> 0 \<and> addr = fs_baddr t k bn \<and>
    fs_inv {} t \<and> fs_file_ok t k \<and>
    (\<forall>bn' < MAXFILE. fs_baddr s k bn' \<noteq> 0 \<longrightarrow> fs_baddr t k bn' = fs_baddr s k bn') \<and>
    (\<forall>off < MAXFILE * BSIZE. fs_fbyte t k off = fs_fbyte s k off) \<and>
    file_blocks s k \<subseteq> file_blocks t k \<and> (\<forall>n \<in> file_blocks t k - file_blocks s k. \<not> used s n) \<and>
    (\<forall>n. used s n \<and> n \<noteq> bmap_blk s \<and> n \<notin> file_blocks s k \<longrightarrow> used t n \<and> view t ROOTDEV n = view s ROOTDEV n) \<and>
    (\<forall>j. j \<noteq> k \<and> fs_file_ok s j \<and> file_blocks s j \<inter> file_blocks s k = {} \<longrightarrow>
      fs_file_ok t j \<and> file_blocks t j \<inter> file_blocks t k = {} \<and>
      (\<forall>off < MAXFILE * BSIZE. fs_fbyte t j off = fs_fbyte s j off))"
proof -
  obtain addr t where t: "xv6fs_bmap ip bn s = Inr (addr, t)" "fs_inv {} t" "fs_file_ok t k"
    "addr = fs_baddr t k bn" "addr \<noteq> 0" "grows k s t" "same_bytes k s t"
    by (rule bmap_ok [OF assms(1-5) _ assms(7)]) (use assms(6) in \<open>auto intro: that\<close>)
  have g: "\<And>n. n \<in> file_blocks t k - file_blocks s k \<Longrightarrow> \<not> used s n"
    "\<And>n. used s n \<Longrightarrow> n \<noteq> bmap_blk s \<Longrightarrow> n \<notin> file_blocks s k \<Longrightarrow> used t n \<and> view t ROOTDEV n = view s ROOTDEV n"
    using t(6) unfolding grows_def by blast+
  show ?thesis
    using t(1-5,7) g grows_baddr [OF t(6)] grows_blocks [OF t(6)] grows_other [OF t(6)]
    by (intro exI [of _ addr] exI [of _ t]) (simp add: same_bytes_def)
qed

lemma bmap_keeps_contents_witness:
  "\<exists>t. xv6fs_bmap 0 20 demo_fs = Inr (fs_baddr t 0 20, t) \<and> fs_baddr t 0 20 \<noteq> 0 \<and> fs_fbyte t 0 7 = 0"
proof -
  have pre: "i_addrs (icache demo_fs 0) = Xv6fs_slot 0" "i_dev (icache demo_fs 0) = ROOTDEV" "20 < MAXFILE"
    "2 \<le> card (free_blocks demo_fs)" "card (logged demo_fs) + 5 \<le> log_cap demo_fs"
    by (simp_all add: demo_fs_fields demo_inode_def demo_fs_ok demo_fs_room ROOTDEV_def fs_consts)
  obtain t where "xv6fs_bmap 0 20 demo_fs = Inr (fs_baddr t 0 20, t)" "fs_baddr t 0 20 \<noteq> 0"
    "\<forall>off < MAXFILE * BSIZE. fs_fbyte t 0 off = fs_fbyte demo_fs 0 off"
    using bmap_keeps_contents [OF demo_fs_ok(1,2) pre] by (elim exE conjE) simp
  moreover have "fs_fbyte demo_fs 0 7 = 0" by (simp add: fbyte_def baddr_def demo_fs_fields)
  ultimately show ?thesis by (auto simp: MAXFILE_BSIZE)
qed

lemma readi_bytes:
  assumes "bc_ok {} s" and "card (pins s) < NBUF"
    and "i_addrs (icache s ip) = Xv6fs_slot k" and "i_dev (icache s ip) = ROOTDEV"
    and "i_type (icache s ip) \<noteq> T_DEV" and "i_size (icache s ip) = len" and "no_holes s k len"
    and "off + n < 2 ^ 32" and o: "off \<le> len"
  obtains t where "xv6fs_readi devsw ip off n s =
      Inr ((int (min n (len - off)), map (fs_fbyte s k) [off..<off + min n (len - off)]), t)" "reads s t"
proof -
  let ?n = "min n (len - off)"
  have len: "len \<le> 274432" using assms(7) by (simp add: no_holes_def MAXFILE_BSIZE)
  have u: "uadd off n = off + n" using assms(8) by (simp add: uadd_small)
  have nh: "no_holes s k (off + (?n - 0))"
    using o by (intro no_holes_mono [OF assms(7)]) auto
  obtain t where t: "xv6fs_readi_loop ip off ?n 0 [] s = Inr ([] @ map (fs_fbyte s k) [off..<off + (?n - 0)], t)" "reads s t"
    using readi_loop_ok [OF assms(1-4) nh] by blast
  have n: "(if uadd off n > len then len - off else n) = ?n" using o u by auto
  have "sint32 ?n = int ?n" using len by (simp add: sint32_def)
  then have "xv6fs_readi devsw ip off n s = Inr ((int ?n, map (fs_fbyte s k) [off..<off + ?n]), t)"
    unfolding xv6fs_readi_def Let_def assms(6) n using t(1) assms(5) o u by simp
  then show thesis using that t(2) by blast
qed

lemma written_no_holes:
  assumes nh: "no_holes s k len" and lim: "off + n \<le> MAXFILE * BSIZE" and off: "off \<le> len"
    and inv: "fs_inv {} t" and ok: "fs_file_ok t k"
    and b: "\<And>bn. bn < MAXFILE \<Longrightarrow> fs_baddr s k bn \<noteq> 0 \<or>
      (0 < n \<and> off div BSIZE \<le> bn \<and> bn \<le> (off + n - 1) div BSIZE) \<Longrightarrow> fs_baddr t k bn \<noteq> 0"
  shows "no_holes t k (max len (off + n))"
  unfolding no_holes_def
proof (intro conjI allI impI)
  show mx: "max len (off + n) \<le> MAXFILE * BSIZE" using nh lim by (simp add: no_holes_def)
  fix bn assume bn: "bn * BSIZE < max len (off + n)"
  then have bm: "bn < MAXFILE" using mx by (metis mult_less_cancel2 order.strict_trans2)
  have "fs_baddr s k bn \<noteq> 0 \<or> (0 < n \<and> off div BSIZE \<le> bn \<and> bn \<le> (off + n - 1) div BSIZE)"
  proof (cases "bn * BSIZE < len")
    case True
    then show ?thesis using nh by (simp add: no_holes_def)
  next
    case False
    then have l: "off \<le> bn * BSIZE" "bn * BSIZE \<le> off + n - 1" "0 < n" using bn off by auto
    have "off div BSIZE \<le> bn * BSIZE div BSIZE" "bn * BSIZE div BSIZE \<le> (off + n - 1) div BSIZE"
      using l div_le_mono by blast+
    then show ?thesis using l(3) by (simp add: BSIZE_def)
  qed
  then show nz: "fs_baddr t k bn \<noteq> 0" by (rule b [OF bm])
  note d = file_ok_baddr [OF ok bm nz]
  have size: "sb_size (sb t) \<le> FSSIZE" using inv by (simp add: fs_inv_def fs_layout_def)
  show "blk_ok ROOTDEV (fs_baddr t k bn)" using d(2) size by (simp add: blk_ok_def)
  assume "NDIRECT \<le> bn"
  then have "addrs_of t k NDIRECT \<noteq> 0" using nz by (auto simp: baddr_def split: if_splits)
  from file_ok_ind(2) [OF ok this] show "blk_ok ROOTDEV (addrs_of t k NDIRECT)"
    using size by (simp add: blk_ok_def)
qed

text \<open>
  C9: \<open>readi\<close> returns the bytes of the file. Of a file without holes it delivers the \<open>n\<close> bytes
  at \<open>off\<close>, fewer at the end of the file, and nothing but the buffer cache changes; a start beyond
  the end is refused with -1.
\<close>

theorem readi_returns_bytes:
  assumes "bc_ok {} s" and "card (pins s) < NBUF"
    and "i_addrs (icache s ip) = Xv6fs_slot k" and "i_dev (icache s ip) = ROOTDEV"
    and "i_type (icache s ip) \<noteq> T_DEV" and "i_size (icache s ip) = len" and "no_holes s k len"
    and "off + n < 2 ^ 32"
  shows "(off \<le> len \<longrightarrow> (\<exists>t. xv6fs_readi devsw ip off n s =
      Inr ((int (min n (len - off)), map (fs_fbyte s k) [off..<off + min n (len - off)]), t) \<and>
      view t = view s \<and> dblk t = dblk s \<and> icache t = icache s)) \<and>
    (len < off \<longrightarrow> xv6fs_readi devsw ip off n s = Inr ((-1, []), s))"
proof (intro conjI impI)
  assume "len < off"
  then show "xv6fs_readi devsw ip off n s = Inr ((-1, []), s)"
    using assms(5,6) by (simp add: xv6fs_readi_def Let_def)
next
  assume o: "off \<le> len"
  obtain t where "xv6fs_readi devsw ip off n s =
      Inr ((int (min n (len - off)), map (fs_fbyte s k) [off..<off + min n (len - off)]), t)" "reads s t"
    by (rule readi_bytes [OF assms o])
  then show "\<exists>t. xv6fs_readi devsw ip off n s =
      Inr ((int (min n (len - off)), map (fs_fbyte s k) [off..<off + min n (len - off)]), t) \<and>
      view t = view s \<and> dblk t = dblk s \<and> icache t = icache s"
    using bio_more_fsys [of t s] by (auto simp: reads_def)
qed

text \<open>
  C10: \<open>writei\<close> stores its bytes and nothing else. Inside a transaction with enough free blocks and
  log space it writes all \<open>n\<close> bytes: afterwards the file has them at \<open>off\<close>, every other byte
  of the file is as before, the size is the larger of the old size and \<open>off + n\<close>, the other cached
  inodes are untouched and the file system invariant holds. It records at most one block of the log per
  data block, and three more (the free map, the indirect block, the inode block).
\<close>

theorem writei_stores_bytes:
  assumes "fs_inv {} s" and "fs_file_ok s k"
    and "i_addrs (icache s ip) = Xv6fs_slot k" and "i_dev (icache s ip) = ROOTDEV"
    and "i_inum (icache s ip) < sb_ninodes (sb s)" and "i_type (icache s ip) \<noteq> T_DEV"
    and "off \<le> i_size (icache s ip)" and "off + n \<le> MAXFILE * BSIZE"
    and "2 * nblk off n \<le> card (free_blocks s)" and "card (logged s) + nblk off n + 6 \<le> log_cap s"
  shows "\<exists>t. xv6fs_writei devsw ip src off n s = Inr (int n, t) \<and> fs_inv {} t \<and> fs_file_ok t k \<and>
    i_size (icache t ip) = max (i_size (icache s ip)) (off + n) \<and> (\<forall>j. j \<noteq> ip \<longrightarrow> icache t j = icache s j) \<and>
    (\<forall>x < MAXFILE * BSIZE. fs_fbyte t k x = (if off \<le> x \<and> x < off + n then src (x - off) else fs_fbyte s k x)) \<and>
    card (logged t) \<le> card (logged s) + nblk off n + 3"
proof -
  obtain t where "xv6fs_writei devsw ip src off n s = Inr (int n, t)" "fs_inv {} t" "fs_file_ok t k"
    "i_size (icache t ip) = max (i_size (icache s ip)) (off + n)" "\<And>j. j \<noteq> ip \<Longrightarrow> icache t j = icache s j"
    "\<And>x. x < MAXFILE * BSIZE \<Longrightarrow> fs_fbyte t k x = (if off \<le> x \<and> x < off + n then src (x - off) else fs_fbyte s k x)"
    "card (logged t) \<le> card (logged s) + nblk off n + 3"
    by (rule writei_ok [OF assms]) (rule that)
  then show ?thesis by blast
qed

lemma demo_write_pre:
  "i_addrs (icache demo_fs 0) = Xv6fs_slot 0" "i_dev (icache demo_fs 0) = ROOTDEV"
  "i_inum (icache demo_fs 0) < sb_ninodes (sb demo_fs)" "i_type (icache demo_fs 0) \<noteq> T_DEV"
  "0 \<le> i_size (icache demo_fs 0)" "0 + 3 \<le> MAXFILE * BSIZE" "2 * nblk 0 3 \<le> card (free_blocks demo_fs)"
  "card (logged demo_fs) + nblk 0 3 + 6 \<le> log_cap demo_fs"
  by (simp_all add: demo_fs_fields demo_inode_def fs_consts nblk_def demo_fs_ok demo_fs_room)

definition no_devsw :: "fsys devsw" where
  "no_devsw = \<lparr>dev_read = (\<lambda>_. None), dev_write = (\<lambda>_. None)\<rparr>"

lemma writei_stores_bytes_witness:
  "\<exists>t. xv6fs_writei no_devsw 0 (\<lambda>i. 97 + of_nat i) 0 3 demo_fs = Inr (3, t) \<and> i_size (icache t 0) = 3 \<and>
    fs_fbyte t 0 0 = 97 \<and> fs_fbyte t 0 2 = 99 \<and> fs_fbyte t 0 3 = 0 \<and> card (logged t) \<le> 4"
proof -
  have z: "fs_fbyte demo_fs 0 3 = 0" by (simp add: fbyte_def baddr_def demo_fs_fields)
  obtain t where t: "xv6fs_writei no_devsw 0 (\<lambda>i. 97 + of_nat i) 0 3 demo_fs = Inr (int 3, t)"
    "i_size (icache t 0) = max (i_size (icache demo_fs 0)) (0 + 3)"
    "\<forall>x < MAXFILE * BSIZE. fs_fbyte t 0 x = (if 0 \<le> x \<and> x < 0 + 3 then 97 + of_nat (x - 0) else fs_fbyte demo_fs 0 x)"
    "card (logged t) \<le> card (logged demo_fs) + nblk 0 3 + 3"
    using writei_stores_bytes [OF demo_fs_ok(1,2) demo_write_pre, of no_devsw "\<lambda>i. 97 + of_nat i"] by blast
  have "fs_fbyte t 0 0 = 97" "fs_fbyte t 0 2 = 99" "fs_fbyte t 0 3 = 0"
    using t(3) z by (simp_all add: MAXFILE_BSIZE)
  then show ?thesis
    using t(1,2,4) by (auto simp: demo_fs_fields demo_inode_def demo_fs_room nblk_def BSIZE_def)
qed

text \<open>
  C11: what was written is read back. After \<open>writei\<close> of \<open>n\<close> bytes to a file without holes, \<open>readi\<close>
  of the same range returns exactly these bytes.
\<close>

theorem write_read_back:
  assumes "fs_inv {} s" and "fs_file_ok s k"
    and "i_addrs (icache s ip) = Xv6fs_slot k" and "i_dev (icache s ip) = ROOTDEV"
    and "i_inum (icache s ip) < sb_ninodes (sb s)" and "i_type (icache s ip) \<noteq> T_DEV"
    and "off \<le> i_size (icache s ip)" and "off + n \<le> MAXFILE * BSIZE"
    and "2 * nblk off n \<le> card (free_blocks s)" and "card (logged s) + nblk off n + 6 \<le> log_cap s"
    and "no_holes s k (i_size (icache s ip))"
  shows "\<exists>t u. xv6fs_writei devsw ip src off n s = Inr (int n, t) \<and>
    xv6fs_readi devsw ip off n t = Inr ((int n, map src [0..<n]), u)"
proof -
  obtain t where t: "xv6fs_writei devsw ip src off n s = Inr (int n, t)" "fs_inv {} t" "fs_file_ok t k"
    "i_size (icache t ip) = max (i_size (icache s ip)) (off + n)"
    "(icache t ip)\<lparr>i_size := i_size (icache s ip)\<rparr> = icache s ip"
    "\<And>x. x < MAXFILE * BSIZE \<Longrightarrow> fs_fbyte t k x = (if off \<le> x \<and> x < off + n then src (x - off) else fs_fbyte s k x)"
    "\<And>bn. bn < MAXFILE \<Longrightarrow> fs_baddr s k bn \<noteq> 0 \<or> (0 < n \<and> off div BSIZE \<le> bn \<and> bn \<le> (off + n - 1) div BSIZE) \<Longrightarrow>
       fs_baddr t k bn \<noteq> 0" "card (logged t) \<le> card (logged s) + nblk off n + 3" "log_cap t = log_cap s"
    by (rule writei_ok [OF assms(1-10)]) (rule that)
  have ip: "i_addrs (icache t ip) = Xv6fs_slot k" "i_dev (icache t ip) = ROOTDEV" "i_type (icache t ip) \<noteq> T_DEV"
    using t(5) assms(3,4,6) by (cases "icache t ip"; cases "icache s ip"; simp)+
  have nh: "no_holes t k (max (i_size (icache s ip)) (off + n))"
    by (rule written_no_holes [OF assms(11,8,7) t(2,3)]) (use t(7) in blast)
  have tx: "tx_inv {} t" using t(2) by (simp add: fs_inv_def)
  have "card (pins t) = card (logged t)" using tx by (simp add: tx_inv_def log_inv_def)
  moreover have "log_cap t < NBUF" using tx by (auto simp: tx_inv_def log_inv_def log_wf_def log_cap_def log_consts)
  ultimately have p: "card (pins t) < NBUF" using t(8,9) assms(10) by simp
  have ok: "bc_ok {} t" using tx by (simp add: tx_inv_def log_inv_def)
  have lim: "off + n < 2 ^ 32" using assms(8) by (simp add: MAXFILE_BSIZE)
  have m: "min n (max (i_size (icache s ip)) (off + n) - off) = n" by simp
  have om: "off \<le> max (i_size (icache s ip)) (off + n)" by simp
  obtain u where u: "xv6fs_readi devsw ip off n t = Inr ((int n, map (fs_fbyte t k) [off..<off + n]), u)"
    by (rule readi_bytes [OF ok p ip(1,2,3) t(4) nh lim om, where devsw = devsw, unfolded m])
  have "map (fs_fbyte t k) [off..<off + n] = map src [0..<n]"
    by (rule nth_equalityI) (use t(6) assms(8) in simp_all)
  then show ?thesis using t(1) u by auto
qed

lemma write_read_back_witness:
  "\<exists>t u. xv6fs_writei no_devsw 0 (\<lambda>i. 97 + of_nat i) 0 3 demo_fs = Inr (3, t) \<and>
    xv6fs_readi no_devsw 0 0 3 t = Inr ((3, [97, 98, 99]), u)"
proof -
  have h: "no_holes demo_fs 0 (i_size (icache demo_fs 0))"
    by (simp add: no_holes_def demo_fs_fields demo_inode_def)
  have "\<exists>t u. xv6fs_writei no_devsw 0 (\<lambda>i. 97 + of_nat i) 0 3 demo_fs = Inr (int 3, t) \<and>
      xv6fs_readi no_devsw 0 0 3 t = Inr ((int 3, map (\<lambda>i. 97 + of_nat i) [0..<3]), u)"
    by (rule write_read_back [OF demo_fs_ok(1,2) demo_write_pre h])
  then show ?thesis by (simp add: upt_rec)
qed

definition demo_read :: fsys where
  "demo_read = set_inode 0 (\<lambda>x. x\<lparr>i_size := 3\<rparr>)
     (set_xaddrs 0 (\<lambda>a. a\<lparr>ad_addrs := (\<lambda>i. if i = 0 then 34 else 0)\<rparr>) demo_fs)"

lemma readi_returns_bytes_witness:
  "\<exists>t. xv6fs_readi no_devsw 0 1 9 demo_read = Inr ((2, [0xff, 0xff]), t)"
proof -
  have io: "same_io demo_fs demo_read"
    using same_log_fields(1) [of demo_fs demo_read]
    by (simp add: demo_read_def same_log_def logst.truncate_def set_inode_def set_xaddrs_def)
  note o = same_io_obs [OF io]
  have p: "bc_ok {} demo_read" "card (pins demo_read) < NBUF"
    using demo_fs_tx by (simp_all add: o tx_inv_def log_inv_def NBUF_def)
  have b: "fs_baddr demo_read 0 bn = (if bn = 0 then 34 else 0)" for bn
    by (simp add: baddr_def demo_read_def demo_fs_fields NDIRECT_def)
  have nh: "no_holes demo_read 0 3"
    unfolding no_holes_def b by (auto simp: blk_ok_def FSSIZE_def BSIZE_def NDIRECT_def NINDIRECT_def MAXFILE_def)
  have bytes: "fs_fbyte demo_read 0 x = demo_bitmap x" if "x < 1024" for x
    unfolding fbyte_def Let_def b using that demo_fs_tx(3) by (simp add: BSIZE_def o ROOTDEV_def)
  have ip: "i_addrs (icache demo_read 0) = Xv6fs_slot 0" "i_dev (icache demo_read 0) = ROOTDEV"
    "i_type (icache demo_read 0) \<noteq> T_DEV" "i_size (icache demo_read 0) = 3"
    by (simp_all add: demo_read_def demo_fs_fields demo_inode_def fs_consts)
  show ?thesis
    using readi_returns_bytes [OF p ip nh, of 1 9 no_devsw] by (auto simp: bytes upt_rec demo_bitmap_def)
qed

section \<open>The address tables of the inode cache\<close>

lemma iget_ext2:
  assumes "dev \<noteq> ROOTDEV" "\<forall>p < NINODE. i_ref (icache s p) > 0 \<longrightarrow> i_dev (icache s p) = dev \<longrightarrow> i_inum (icache s p) \<noteq> a"
    and "find (\<lambda>i. ad_busy (xv6fs_addrs s i) = 0) [0..<NINODE] = Some i"
    and "find (\<lambda>p. i_ref (icache s p) = 0) [0..<NINODE] = Some p"
  shows "iget dev a s = (if ad_busy (ext2fs_addrs s i) = 0
    then Inr (p, set_eaddrs 0 (\<lambda>a. a\<lparr>ad_busy := 1\<rparr>)
      (set_inode p (\<lambda>x. x\<lparr>i_iops := Some Ext2fs_inode_ops, i_addrs := Ext2fs_slot 0\<rparr>)
        (set_inode p (\<lambda>x. x\<lparr>i_dev := dev, i_inum := a, i_ref := 1, i_valid := False\<rparr>) s)))
    else Inl (Undef ''ext2fs_addrs''))"
proof -
  have "find (\<lambda>p. i_ref (icache s p) > 0 \<and> i_dev (icache s p) = dev \<and> i_inum (icache s p) = a) [0..<NINODE] = None"
    unfolding find_upt_None using assms(2) by blast
  moreover have "i < NINODE" using find_Some_mem [OF assms(3)] by simp
  moreover have "find (\<lambda>j. True) [0..<NINODE] = Some 0" "find (\<lambda>j. False) [0..<NINODE] = None"
    by (simp_all add: NINODE_def upt_conv_Cons)
  ultimately show ?thesis using assms(1,3,4) by (simp add: iget_def Let_def NINODE_def)
qed

text \<open>
  C19: \<open>iget\<close> gives two inodes of the ext2 file system that are in use at the same time one address table
  between them: its second search loop counts with \<open>j\<close> and tests the entry \<open>i\<close>. If the entry \<open>i\<close>, the first
  free one of the other table, is entry 0, the second inode gets an entry past the end of the table.
\<close>

theorem iget_shares_table:
  assumes dev: "dev \<noteq> ROOTDEV" and ab: "a \<noteq> b"
    and fresh: "\<forall>p < NINODE. i_ref (icache s p) > 0 \<longrightarrow> i_dev (icache s p) = dev \<longrightarrow> i_inum (icache s p) \<notin> {a, b}"
    and i: "find (\<lambda>i. ad_busy (xv6fs_addrs s i) = 0) [0..<NINODE] = Some i" "ad_busy (ext2fs_addrs s i) = 0"
    and free: "p < NINODE" "q < NINODE" "p \<noteq> q" "i_ref (icache s p) = 0" "i_ref (icache s q) = 0"
  shows "\<exists>x s1. iget dev a s = Inr (x, s1) \<and> i_addrs (icache s1 x) = Ext2fs_slot 0 \<and>
    (if i = 0 then iget dev b s1 = Inl (Undef ''ext2fs_addrs'')
     else \<exists>y s2. iget dev b s1 = Inr (y, s2) \<and> x \<noteq> y \<and> i_ref (icache s2 x) > 0 \<and> i_ref (icache s2 y) > 0 \<and>
       i_addrs (icache s2 x) = Ext2fs_slot 0 \<and> i_addrs (icache s2 y) = Ext2fs_slot 0)"
proof -
  obtain x where x: "find (\<lambda>p. i_ref (icache s p) = 0) [0..<NINODE] = Some x"
    using free(1,4) find_upt_None [of "\<lambda>p. i_ref (icache s p) = 0" NINODE] by (metis not_Some_eq)
  have xn: "x < NINODE" using find_Some_mem [OF x] by simp
  define s1 where "s1 = set_eaddrs 0 (\<lambda>a. a\<lparr>ad_busy := 1\<rparr>)
      (set_inode x (\<lambda>x. x\<lparr>i_iops := Some Ext2fs_inode_ops, i_addrs := Ext2fs_slot 0\<rparr>)
        (set_inode x (\<lambda>x. x\<lparr>i_dev := dev, i_inum := a, i_ref := 1, i_valid := False\<rparr>) s))"
  have g1: "iget dev a s = Inr (x, s1)"
    unfolding s1_def by (subst iget_ext2 [OF dev _ i(1) x]) (use fresh i(2) in auto)
  have c1: "icache s1 z = (if z = x then (icache s x)\<lparr>i_dev := dev, i_inum := a, i_ref := 1, i_valid := False,
      i_iops := Some Ext2fs_inode_ops, i_addrs := Ext2fs_slot 0\<rparr> else icache s z)" for z
    by (simp add: s1_def set_eaddrs_def set_inode_def)
  have t1: "xv6fs_addrs s1 = xv6fs_addrs s" "ad_busy (ext2fs_addrs s1 i) = (if i = 0 then 1 else 0)"
    using i(2) by (simp_all add: s1_def set_eaddrs_def set_inode_def)
  obtain y where y: "find (\<lambda>p. i_ref (icache s1 p) = 0) [0..<NINODE] = Some y"
  proof (cases "find (\<lambda>p. i_ref (icache s1 p) = 0) [0..<NINODE]")
    case None
    then have "i_ref (icache s1 p) \<noteq> 0" "i_ref (icache s1 q) \<noteq> 0" using free(1,2) by (simp_all add: find_upt_None)
    then show ?thesis using free(3-5) by (simp add: c1 split: if_splits)
  qed
  have yx: "x \<noteq> y" using find_Some_mem [OF y] by (auto simp: c1)
  have fr: "\<forall>p < NINODE. i_ref (icache s1 p) > 0 \<longrightarrow> i_dev (icache s1 p) = dev \<longrightarrow> i_inum (icache s1 p) \<noteq> b"
    using fresh ab by (auto simp: c1)
  have i1: "find (\<lambda>i. ad_busy (xv6fs_addrs s1 i) = 0) [0..<NINODE] = Some i" using i(1) by (simp add: t1)
  note g2 = iget_ext2 [OF dev fr i1 y]
  show ?thesis using g1 g2 yx c1 [of x] t1(2) by (auto simp: set_eaddrs_def set_inode_def)
qed

text \<open>One inode of the first file system is in use, and holds entry 0 of its table.\<close>

definition demo_cache :: fsys where
  "demo_cache = demo_fs\<lparr>icache := (\<lambda>p. if p = 0 then demo_inode else demo_inode\<lparr>i_ref := 0\<rparr>),
     xv6fs_addrs := (xv6fs_addrs demo_fs)(0 := \<lparr>ad_busy = 1, ad_addrs = (\<lambda>_. 0)\<rparr>),
     ext2fs_addrs := (\<lambda>_. \<lparr>ad_busy = 0, ad_addrs = (\<lambda>_. 0)\<rparr>)\<rparr>"

theorem iget_shares_table_witness:
  "\<exists>x s1. iget 2 12 demo_cache = Inr (x, s1) \<and> i_addrs (icache s1 x) = Ext2fs_slot 0 \<and>
    (\<exists>y s2. iget 2 13 s1 = Inr (y, s2) \<and> x \<noteq> y \<and> i_ref (icache s2 x) > 0 \<and> i_ref (icache s2 y) > 0 \<and>
       i_addrs (icache s2 x) = Ext2fs_slot 0 \<and> i_addrs (icache s2 y) = Ext2fs_slot 0)"
proof -
  have "[0..<NINODE] = 0 # 1 # [2..<NINODE]" by (simp add: NINODE_def upt_conv_Cons)
  then have f: "find (\<lambda>i. ad_busy (xv6fs_addrs demo_cache i) = 0) [0..<NINODE] = Some 1"
    by (simp add: demo_cache_def demo_fs_fields)
  show ?thesis
    using iget_shares_table [of 2 12 13 demo_cache 1 1 2] f
    by (simp add: demo_cache_def demo_inode_def ROOTDEV_def NINODE_def)
qed

end
