(* ===== verification/Ext2fs.thy ===== *)
theory Ext2fs
  imports Fs
begin

text \<open>
  The ext2 file system, \<open>src/ext2fs.c\<close> and \<open>src/ext2fs.h\<close>, mounted on the second disk: group
  descriptors, the two bitmaps, inodes, file contents through direct and indirect blocks, and
  directories of variable-length entries. Unlike the xv6 file system it writes its blocks with
  \<open>bwrite\<close>, outside the log. A structure on disk is read and written as its bytes; the field
  offsets below are those of the C structures.
\<close>

section \<open>Constants and structures\<close>

definition EXT2_BSIZE :: nat where "EXT2_BSIZE = 1024"
definition EXT2_NDIR_BLOCKS :: nat where "EXT2_NDIR_BLOCKS = 12"
definition EXT2_IND_BLOCK :: nat where "EXT2_IND_BLOCK = EXT2_NDIR_BLOCKS"
definition EXT2_DIND_BLOCK :: nat where "EXT2_DIND_BLOCK = EXT2_IND_BLOCK + 1"
definition EXT2_TIND_BLOCK :: nat where "EXT2_TIND_BLOCK = EXT2_DIND_BLOCK + 1"
definition EXT2_N_BLOCKS :: nat where "EXT2_N_BLOCKS = EXT2_TIND_BLOCK + 1"
definition EXT2_INDIRECT :: nat where "EXT2_INDIRECT = EXT2_BSIZE div 4"
definition EXT2_DINDIRECT :: nat where "EXT2_DINDIRECT = EXT2_BSIZE div 4 * EXT2_INDIRECT"
definition EXT2_TINDIRECT :: nat where "EXT2_TINDIRECT = EXT2_BSIZE div 4 * EXT2_DINDIRECT"
definition EXT2_MAXFILE :: nat where
  "EXT2_MAXFILE = EXT2_NDIR_BLOCKS + EXT2_INDIRECT + EXT2_DINDIRECT + EXT2_TINDIRECT"
definition EXT2_NAME_LEN :: nat where "EXT2_NAME_LEN = 255"
definition S_IFMT :: nat where "S_IFMT = 0xF000"
definition S_IFREG :: nat where "S_IFREG = 0x8000"
definition S_IFDIR :: nat where "S_IFDIR = 0x4000"

definition S_ISDIR :: "nat \<Rightarrow> bool" where
  "S_ISDIR m \<longleftrightarrow> m AND S_IFMT = S_IFDIR"

lemmas ext2_consts = EXT2_BSIZE_def EXT2_NDIR_BLOCKS_def EXT2_IND_BLOCK_def EXT2_DIND_BLOCK_def
  EXT2_TIND_BLOCK_def EXT2_N_BLOCKS_def EXT2_INDIRECT_def EXT2_DINDIRECT_def EXT2_TINDIRECT_def
  EXT2_MAXFILE_def EXT2_NAME_LEN_def S_IFMT_def S_IFREG_def S_IFDIR_def

text \<open>
  \<open>GET_GROUP_NO\<close> and \<open>GET_INODE_INDEX\<close> divide by \<open>s_inodes_per_group\<close>.
\<close>

definition GET_GROUP_NO :: "nat \<Rightarrow> ext2_super_block \<Rightarrow> nat res" where
  "GET_GROUP_NO inum esb =
     (if s_inodes_per_group esb = 0 then Inl (Undef ''GET_GROUP_NO'')
      else Inr (usub inum 1 div s_inodes_per_group esb))"

definition GET_INODE_INDEX :: "nat \<Rightarrow> ext2_super_block \<Rightarrow> nat res" where
  "GET_INODE_INDEX inum esb =
     (if s_inodes_per_group esb = 0 then Inl (Undef ''GET_INODE_INDEX'')
      else Inr (usub inum 1 mod s_inodes_per_group esb))"

definition ext2_sb_of :: "block \<Rightarrow> ext2_super_block" where
  "ext2_sb_of d =
     \<lparr>s_inodes_count = get32 d 0, s_blocks_count = get32 d 4, s_log_block_size = get32 d 24,
      s_blocks_per_group = get32 d 32, s_inodes_per_group = get32 d 40, s_magic = get16 d 56,
      s_inode_size = get16 d 88\<rparr>"

record ext2_group_desc =
  bg_block_bitmap :: nat
  bg_inode_bitmap :: nat
  bg_inode_table :: nat
  bg_free_blocks_count :: nat
  bg_free_inodes_count :: nat
  bg_used_dirs_count :: nat
  bg_pad :: nat

text \<open>
  \<open>memmove(&bgdesc, bp->data + gno * sizeof(bgdesc), sizeof(bgdesc))\<close>: descriptor \<open>gno\<close> of a block
  that holds 32 of them.
\<close>

definition bgdesc_at :: "block \<Rightarrow> nat \<Rightarrow> ext2_group_desc res" where
  "bgdesc_at d gno =
     (if 32 * gno + 32 > BSIZE then Inl (Undef ''bgdesc'')
      else Inr \<lparr>bg_block_bitmap = get32 d (32 * gno), bg_inode_bitmap = get32 d (32 * gno + 4),
        bg_inode_table = get32 d (32 * gno + 8), bg_free_blocks_count = get16 d (32 * gno + 12),
        bg_free_inodes_count = get16 d (32 * gno + 14), bg_used_dirs_count = get16 d (32 * gno + 16),
        bg_pad = get16 d (32 * gno + 18)\<rparr>)"

text \<open>\<open>bp = bread(dev, 2); memmove(&bgdesc, \<dots>); brelse(bp)\<close>\<close>

definition read_bgdesc :: "nat \<Rightarrow> nat \<Rightarrow> 'z bio_scheme \<Rightarrow> (ext2_group_desc \<times> 'z bio_scheme) res" where
  "read_bgdesc dev gno s =
     rbind (bread dev 2 s) (\<lambda>(bp, s1).
     rbind (bgdesc_at (b_data (bufs s1 bp)) gno) (\<lambda>bg.
     rbind (brelse bp s1) (\<lambda>s2. Inr (bg, s2))))"

text \<open>\<open>sizeof(struct ext2_inode)\<close>, with the padding of the last union.\<close>

definition ext2_inode_bytes :: nat where "ext2_inode_bytes = 132"

definition ext2_dir_entry_bytes :: nat where "ext2_dir_entry_bytes = 264"

section \<open>Blocks\<close>

definition ext2fs_readsb :: "nat \<Rightarrow> 'z bio_scheme \<Rightarrow> (ext2_super_block \<times> 'z bio_scheme) res" where
  "ext2fs_readsb dev s =
     rbind (bread dev 1 s) (\<lambda>(bp, s1).
       rbind (brelse bp s1) (\<lambda>s2. Inr (ext2_sb_of (b_data (bufs s1 bp)), s2)))"

definition ext2fs_bzero :: "nat \<Rightarrow> nat \<Rightarrow> 'z bio_scheme \<Rightarrow> 'z bio_scheme res" where
  "ext2fs_bzero dev bno s =
     rbind (bread dev bno s) (\<lambda>(bp, s1).
     rbind (bwrite bp (set_data bp zero_block s1)) (\<lambda>s2. brelse bp s2))"

text \<open>
  \<open>ext2fs_free_block\<close>: bit \<open>i * 8 + j\<close> is bit \<open>7 - j\<close> of byte \<open>i\<close>. The loop runs over
  \<open>s_blocks_per_group * 8\<close> bytes; a byte past the end of the block is outside the buffer. The
  result is \<open>None\<close> for \<open>-1\<close>.
\<close>

definition eb_mask :: "nat \<Rightarrow> byte" where
  "eb_mask k = push_bit (7 - k mod 8) 1"

definition eb_test :: "block \<Rightarrow> nat \<Rightarrow> bool" where
  "eb_test d k \<longleftrightarrow> d (k div 8) AND eb_mask k \<noteq> 0"

definition eb_set :: "block \<Rightarrow> nat \<Rightarrow> block" where
  "eb_set d k = d(k div 8 := d (k div 8) OR eb_mask k)"

definition ext2fs_free_block :: "ext2_super_block \<Rightarrow> block \<Rightarrow> (nat option \<times> block) res" where
  "ext2fs_free_block esb bitmap =
     (let bytes = umul (s_blocks_per_group esb) 8 in
      case find (\<lambda>k. \<not> eb_test bitmap k) [0..<8 * min bytes BSIZE] of
        Some k \<Rightarrow> Inr (Some k, eb_set bitmap k)
      | None \<Rightarrow> if bytes > BSIZE then Inl (Undef ''bitmap[i]'') else Inr (None, bitmap))"

definition ext2fs_balloc :: "nat \<Rightarrow> nat \<Rightarrow> 'z fsys_scheme \<Rightarrow> (nat \<times> 'z fsys_scheme) res" where
  "ext2fs_balloc dev inum s =
     rbind (GET_GROUP_NO inum (ext2_sb s)) (\<lambda>gno.
     rbind (read_bgdesc dev gno s) (\<lambda>(bgdesc, s1).
     rbind (bread dev (bg_block_bitmap bgdesc) s1) (\<lambda>(bp2, s2).
     rbind (ext2fs_free_block (ext2_sb s2) (b_data (bufs s2 bp2))) (\<lambda>(r, bitmap).
       case r of
         Some fbit \<Rightarrow>
           let zbno = uadd (bg_block_bitmap bgdesc) fbit in
           rbind (bwrite bp2 (set_data bp2 bitmap s2)) (\<lambda>s3.
           rbind (ext2fs_bzero dev zbno s3) (\<lambda>s4.
           rbind (brelse bp2 s4) (\<lambda>s5. Inr (zbno, s5))))
       | None \<Rightarrow> rbind (brelse bp2 s2) (\<lambda>_. Inl (Panic ''ext2_balloc: out of blocks''))))))"

text \<open>
  \<open>iindex -= bgdesc.bg_block_bitmap\<close> is unsigned arithmetic read back as an \<open>int\<close>; a negative
  \<open>iindex\<close> is a negative shift or an index before the bitmap.
\<close>

definition ext2fs_bfree :: "nat \<Rightarrow> nat \<Rightarrow> 'z fsys_scheme \<Rightarrow> 'z fsys_scheme res" where
  "ext2fs_bfree dev b s =
     rbind (GET_GROUP_NO b (ext2_sb s)) (\<lambda>gno.
     rbind (GET_INODE_INDEX b (ext2_sb s)) (\<lambda>iindex.
     rbind (bread dev 2 s) (\<lambda>(bp1, s1).
     rbind (bgdesc_at (b_data (bufs s1 bp1)) gno) (\<lambda>bgdesc.
     rbind (bread dev (bg_block_bitmap bgdesc) s1) (\<lambda>(bp2, s2).
       let iindex = sint32 (usub iindex (bg_block_bitmap bgdesc)) in
       if iindex < 0 \<or> iindex div 8 \<ge> int BSIZE then Inl (Undef ''bp2->data[iindex / 8]'')
       else if \<not> bm_test (b_data (bufs s2 bp2)) (nat iindex)
         then Inl (Panic ''ext2fs_bfree: block already free'')
       else
         rbind (bwrite bp2 (set_data bp2 (bm_clear (b_data (bufs s2 bp2)) (nat iindex)) s2)) (\<lambda>s3.
         rbind (brelse bp2 s3) (\<lambda>s4. brelse bp1 s4)))))))"

section \<open>Inodes\<close>

definition ext2fs_iinit :: "nat \<Rightarrow> 'z fsys_scheme \<Rightarrow> 'z fsys_scheme res" where
  "ext2fs_iinit dev s = rbind (ext2fs_readsb dev s) (\<lambda>(x, s1). Inr (s1\<lparr>ext2_sb := x\<rparr>))"

text \<open>One turn of the loop of \<open>ext2fs_ialloc\<close> over the block groups.\<close>

definition ext2_ialloc_group :: "nat \<Rightarrow> int \<Rightarrow> nat \<Rightarrow> 'z fsys_scheme \<Rightarrow>
    (nat option \<times> 'z fsys_scheme) res" where
  "ext2_ialloc_group dev type i s =
     rbind (read_bgdesc dev i s) (\<lambda>(bgdesc, s1).
     rbind (bread dev (bg_inode_bitmap bgdesc) s1) (\<lambda>(bp2, s2).
     rbind (ext2fs_free_block (ext2_sb s2) (b_data (bufs s2 bp2))) (\<lambda>(r, bitmap).
       case r of
         None \<Rightarrow> rbind (brelse bp2 s2) (\<lambda>s3. Inr (None, s3))
       | Some fbit \<Rightarrow>
         let s3 = set_data bp2 bitmap s2;
             per = EXT2_BSIZE div ext2_inode_bytes;
             bno = uadd (bg_inode_table bgdesc) (fbit div per);
             off = (fbit mod per) * ext2_inode_bytes
         in rbind (bread dev bno s3) (\<lambda>(bp3, s4).
            let d = put_bytes (b_data (bufs s4 bp3)) off (\<lambda>_. 0) ext2_inode_bytes;
                d' = (if type = T_DIR then put16 d off S_IFDIR
                      else if type = T_FILE then put16 d off S_IFREG else d)
            in rbind (bwrite bp3 (set_data bp3 d' s4)) (\<lambda>s5.
               rbind (bwrite bp2 s5) (\<lambda>s6.
               rbind (brelse bp3 s6) (\<lambda>s7.
               rbind (brelse bp2 s7) (\<lambda>s8.
               rbind (iget dev (uadd (uadd (umul i (s_inodes_per_group (ext2_sb s8))) fbit) 1) s8) (\<lambda>(ip, s9).
               Inr (Some ip, s9))))))))))"

definition ext2fs_ialloc :: "nat \<Rightarrow> int \<Rightarrow> 'z fsys_scheme \<Rightarrow> (nat \<times> 'z fsys_scheme) res" where
  "ext2fs_ialloc dev type s =
     (if s_blocks_per_group (ext2_sb s) = 0 then Inl (Undef ''bgcount'')
      else
        let bgcount = s_blocks_count (ext2_sb s) div s_blocks_per_group (ext2_sb s) in
        rbind (rfirst (ext2_ialloc_group dev type) [0..<bgcount + 1] s) (\<lambda>(r, s1).
          case r of None \<Rightarrow> Inl (Panic ''ext2_ialloc: no inodes'') | Some ip \<Rightarrow> Inr (ip, s1)))"

text \<open>
  Where the inode \<open>inum\<close> of a group lies: the block and the byte offset in it. The structure of
  \<open>sizeof(struct ext2_inode)\<close> bytes must lie within the buffer.
\<close>

definition ext2_inode_pos :: "ext2_super_block \<Rightarrow> ext2_group_desc \<Rightarrow> nat \<Rightarrow> (nat \<times> nat) res" where
  "ext2_inode_pos esb bgdesc ioff =
     (if s_inode_size esb = 0 \<or> EXT2_BSIZE div s_inode_size esb = 0 then Inl (Undef ''s_inode_size'')
      else
        let per = EXT2_BSIZE div s_inode_size esb; iindex = ioff mod per in
        Inr (uadd (bg_inode_table bgdesc) (ioff div per), iindex * s_inode_size esb))"

text \<open>
  The common part of \<open>ext2fs_iupdate\<close> and \<open>ext2fs_ilock\<close>: from the inode number to the locked
  buffer, the offset, and the local copy \<open>din\<close>.
\<close>

definition ext2_get_inode :: "nat \<Rightarrow> nat \<Rightarrow> 'z fsys_scheme \<Rightarrow> ((nat \<times> nat \<times> block) \<times> 'z fsys_scheme) res" where
  "ext2_get_inode dev inum s =
     rbind (GET_GROUP_NO inum (ext2_sb s)) (\<lambda>gno.
     rbind (GET_INODE_INDEX inum (ext2_sb s)) (\<lambda>ioff.
     rbind (read_bgdesc dev gno s) (\<lambda>(bgdesc, s1).
     rbind (ext2_inode_pos (ext2_sb s1) bgdesc ioff) (\<lambda>(bno, off).
     rbind (bread dev bno s1) (\<lambda>(bp1, s2).
       if off + ext2_inode_bytes > BSIZE then Inl (Undef ''bp1->data + iindex * s_inode_size'')
       else Inr ((bp1, off, \<lambda>i. b_data (bufs s2 bp1) (off + i)), s2))))))"

definition ext2fs_ad :: "nat \<Rightarrow> 'z fsys_scheme \<Rightarrow> nat res" where
  "ext2fs_ad ip s =
     (case i_addrs (icache s ip) of Ext2fs_slot k \<Rightarrow> Inr k | _ \<Rightarrow> Inl (Undef ''ip->addrs''))"

text \<open>The assignments to the fields of \<open>din\<close> in \<open>ext2fs_iupdate\<close>, in their order.\<close>

definition ext2_set_din :: "inode \<Rightarrow> (nat \<Rightarrow> nat) \<Rightarrow> block \<Rightarrow> block" where
  "ext2_set_din x a din =
     (let d1 = (if i_type x = T_DIR then put16 din 0 S_IFDIR else din);
          d2 = (if i_type x = T_FILE then put16 d1 0 S_IFREG else d1);
          d3 = put16 d2 26 (pat16 (i_nlink x));
          d4 = put32 d3 4 (i_size x);
          d5 = put32 d4 20 0;
          d6 = put32 d5 112 0;
          d7 = put32 d6 104 0;
          d8 = put32 d7 32 0;
          d9 = put32 d8 100 0;
          d10 = put16 d9 24 0;
          d11 = put32 d10 16 0;
          d12 = put16 d11 2 0;
          d13 = put32 d12 8 0
      in put_addrs d13 40 a EXT2_N_BLOCKS)"

definition ext2fs_iupdate :: "nat \<Rightarrow> 'z fsys_scheme \<Rightarrow> 'z fsys_scheme res" where
  "ext2fs_iupdate ip s =
     rbind (ext2_get_inode (i_dev (icache s ip)) (i_inum (icache s ip)) s) (\<lambda>((bp1, off, din), s1).
     rbind (ext2fs_ad ip s1) (\<lambda>k.
       let din' = ext2_set_din (icache s1 ip) (ad_addrs (ext2fs_addrs s1 k)) din in
       rbind (bwrite bp1 (set_data bp1 (put_bytes (b_data (bufs s1 bp1)) off din' ext2_inode_bytes) s1)) (\<lambda>s2.
       brelse bp1 s2)))"

definition ext2fs_ilock :: "nat \<Rightarrow> 'z fsys_scheme \<Rightarrow> 'z fsys_scheme res" where
  "ext2fs_ilock ip s =
     (if i_ref (icache s ip) < 1 then Inl (Panic ''ext2fs_ilock'')
      else rbind (acquiresleep (mypid s) (i_lock (icache s ip))) (\<lambda>lk.
        let s1 = set_inode ip (\<lambda>x. x\<lparr>i_lock := lk\<rparr>) s in
        if \<not> i_valid (icache s1 ip) then
          rbind (ext2_get_inode (i_dev (icache s1 ip)) (i_inum (icache s1 ip)) s1) (\<lambda>((bp1, off, din), s2).
          rbind (brelse bp1 s2) (\<lambda>s3.
            let mode = get16 din 0;
                s4 = set_inode ip (\<lambda>x. x\<lparr>i_type := (if S_ISDIR mode \<or> int mode = T_DIR then T_DIR else T_FILE),
                       i_major := 0, i_minor := 0, i_nlink := sint16 (get16 din 26),
                       i_size := get32 din 4, i_iops := Some Ext2fs_inode_ops\<rparr>) s3
            in rbind (ext2fs_ad ip s4) (\<lambda>k.
               let s5 = set_eaddrs k (\<lambda>a. a\<lparr>ad_addrs := (\<lambda>i. if i < EXT2_N_BLOCKS then get32 din (40 + 4 * i)
                                                             else ad_addrs a i)\<rparr>) s4;
                   s6 = set_inode ip (\<lambda>x. x\<lparr>i_valid := True\<rparr>) s5
               in if i_type (icache s6 ip) = 0 then Inl (Panic ''ext2fs_ilock: no type'') else Inr s6)))
        else Inr s1))"

definition ext2fs_iunlock :: "nat \<Rightarrow> 'z fsys_scheme \<Rightarrow> 'z fsys_scheme res" where
  "ext2fs_iunlock ip s =
     (if \<not> holdingsleep (mypid s) (i_lock (icache s ip)) \<or> i_ref (icache s ip) < 1
      then Inl (Panic ''ext2fs_iunlock'')
      else Inr (set_inode ip (\<lambda>x. x\<lparr>i_lock := releasesleep (i_lock x)\<rparr>) s))"

definition ext2fs_ifree :: "nat \<Rightarrow> 'z fsys_scheme \<Rightarrow> 'z fsys_scheme res" where
  "ext2fs_ifree ip s =
     (let dev = i_dev (icache s ip); inum = i_inum (icache s ip) in
      rbind (GET_GROUP_NO inum (ext2_sb s)) (\<lambda>gno.
      rbind (read_bgdesc dev gno s) (\<lambda>(bgdesc, s1).
      rbind (bread dev (bg_inode_bitmap bgdesc) s1) (\<lambda>(bp2, s2).
      rbind (GET_INODE_INDEX inum (ext2_sb s2)) (\<lambda>index.
        if index div 8 \<ge> BSIZE then Inl (Undef ''bp2->data[index / 8]'')
        else if \<not> bm_test (b_data (bufs s2 bp2)) index
          then Inl (Panic ''ext2fs_ifree: inode already free'')
        else
          rbind (bwrite bp2 (set_data bp2 (bm_clear (b_data (bufs s2 bp2)) index) s2)) (\<lambda>s3.
          brelse bp2 s3))))))"

text \<open>
  Truncation. An indirect block of level \<open>l\<close> lists indirect blocks of level \<open>l - 1\<close>, one of level 1
  lists data blocks; each entry is freed after what it lists, and cleared in the buffer.
\<close>

fun ext2_trunc :: "nat \<Rightarrow> nat \<Rightarrow> nat \<Rightarrow> 'z fsys_scheme \<Rightarrow> 'z fsys_scheme res" where
  "ext2_trunc 0 dev bno s = Inr s"
| "ext2_trunc (Suc l) dev bno s =
     rbind (bread dev bno s) (\<lambda>(bp, s1).
     rbind (rfor [0..<EXT2_INDIRECT] (\<lambda>i s.
         if get32 (b_data (bufs s bp)) (4 * i) \<noteq> 0 then
           rbind (ext2_trunc l dev (get32 (b_data (bufs s bp)) (4 * i)) s) (\<lambda>s2.
           rbind (ext2fs_bfree dev (get32 (b_data (bufs s2 bp)) (4 * i)) s2) (\<lambda>s3.
           Inr (set_data bp (put32 (b_data (bufs s3 bp)) (4 * i) 0) s3)))
         else Inr s) s1) (\<lambda>s4. brelse bp s4))"

definition ext2fs_itrunc :: "nat \<Rightarrow> 'z fsys_scheme \<Rightarrow> 'z fsys_scheme res" where
  "ext2fs_itrunc ip s =
     rbind (ext2fs_ad ip s) (\<lambda>k.
       let dev = i_dev (icache s ip);
           free = (\<lambda>l j s.
             if ad_addrs (ext2fs_addrs s k) j \<noteq> 0 then
               rbind (ext2_trunc l dev (ad_addrs (ext2fs_addrs s k) j) s) (\<lambda>s1.
               rbind (ext2fs_bfree dev (ad_addrs (ext2fs_addrs s1 k) j) s1) (\<lambda>s2.
               Inr (set_eaddrs k (\<lambda>a. a\<lparr>ad_addrs := (ad_addrs a)(j := 0)\<rparr>) s2)))
             else Inr s)
       in rbind (rfor [0..<EXT2_NDIR_BLOCKS] (free 0) s) (\<lambda>s1.
          rbind (free 1 EXT2_IND_BLOCK s1) (\<lambda>s2.
          rbind (free 2 EXT2_DIND_BLOCK s2) (\<lambda>s3.
          rbind (free 3 EXT2_TIND_BLOCK s3) (\<lambda>s4.
          ext2fs_iupdate ip (set_inode ip (\<lambda>x. x\<lparr>i_size := 0\<rparr>) s4))))))"

definition ext2fs_iput :: "nat \<Rightarrow> 'z fsys_scheme \<Rightarrow> 'z fsys_scheme res" where
  "ext2fs_iput ip s =
     rbind (acquiresleep (mypid s) (i_lock (icache s ip))) (\<lambda>lk.
       let s1 = set_inode ip (\<lambda>x. x\<lparr>i_lock := lk\<rparr>) s; ad = i_addrs (icache s1 ip) in
       rbind (if i_valid (icache s1 ip) \<and> i_nlink (icache s1 ip) = 0 \<and> i_ref (icache s1 ip) = 1 then
           rbind (ext2fs_ifree ip s1) (\<lambda>s2.
           rbind (ext2fs_itrunc ip s2) (\<lambda>s3.
           rbind (ext2fs_iupdate ip (set_inode ip (\<lambda>x. x\<lparr>i_type := 0\<rparr>) s3)) (\<lambda>s4.
           Inr (set_inode ip (\<lambda>x. x\<lparr>i_valid := False, i_iops := None, i_addrs := Null_addrs\<rparr>) s4))))
         else Inr s1) (\<lambda>s2.
       let s3 = set_inode ip (\<lambda>x. x\<lparr>i_lock := releasesleep (i_lock x), i_ref := i_ref x - 1\<rparr>) s2 in
       if i_ref (icache s3 ip) = 0 then
         (case ad of Ext2fs_slot k \<Rightarrow>
            Inr (set_inode ip (\<lambda>x. x\<lparr>i_addrs := Null_addrs\<rparr>) (set_eaddrs k (\<lambda>a. a\<lparr>ad_busy := 0\<rparr>) s3))
          | _ \<Rightarrow> Inl (Undef ''ip->addrs''))
       else Inr s3))"

definition ext2fs_iunlockput :: "nat \<Rightarrow> 'z fsys_scheme \<Rightarrow> 'z fsys_scheme res" where
  "ext2fs_iunlockput ip s = rbind (ext2fs_iunlock ip s) (ext2fs_iput ip)"

definition ext2fs_stati :: "nat \<Rightarrow> 'z fsys_scheme \<Rightarrow> stat" where
  "ext2fs_stati ip s =
     (let x = icache s ip in
      \<lparr>st_type = i_type x, st_dev = i_dev x, st_ino = i_inum x, st_nlink = i_nlink x, st_size = i_size x\<rparr>)"

section \<open>Inode contents\<close>

text \<open>\<open>if((addr = ad->addrs[j]) == 0) ad->addrs[j] = addr = ext2fs_balloc(ip->dev, ip->inum)\<close>\<close>

definition ext2_slot :: "nat \<Rightarrow> nat \<Rightarrow> nat \<Rightarrow> nat \<Rightarrow> 'z fsys_scheme \<Rightarrow> (nat \<times> 'z fsys_scheme) res" where
  "ext2_slot dev inum k j s =
     (if ad_addrs (ext2fs_addrs s k) j = 0
      then rbind (ext2fs_balloc dev inum s) (\<lambda>(addr, s1).
        Inr (addr, set_eaddrs k (\<lambda>a. a\<lparr>ad_addrs := (ad_addrs a)(j := addr)\<rparr>) s1))
      else Inr (ad_addrs (ext2fs_addrs s k) j, s))"

text \<open>
  \<open>bp = bread(dev, addr); a = (uint*)bp->data; if((addr = a[n]) == 0) a[n] = addr = balloc(\<dots>)\<close>: the
  buffer stays locked, and the new entry is not written to the disk.
\<close>

definition ext2_entry :: "nat \<Rightarrow> nat \<Rightarrow> nat \<Rightarrow> nat \<Rightarrow> 'z fsys_scheme \<Rightarrow>
    ((nat \<times> nat) \<times> 'z fsys_scheme) res" where
  "ext2_entry dev inum addr n s =
     rbind (bread dev addr s) (\<lambda>(bp, s1).
       if n \<ge> EXT2_INDIRECT then Inl (Undef ''a[bn / EXT2_INDIRECT]'')
       else
         let addr = get32 (b_data (bufs s1 bp)) (4 * n) in
         if addr = 0 then
           rbind (ext2fs_balloc dev inum s1) (\<lambda>(addr, s2).
           Inr ((bp, addr), set_data bp (put32 (b_data (bufs s2 bp)) (4 * n) addr) s2))
         else Inr ((bp, addr), s1))"

definition ext2fs_bmap :: "nat \<Rightarrow> nat \<Rightarrow> 'z fsys_scheme \<Rightarrow> (nat \<times> 'z fsys_scheme) res" where
  "ext2fs_bmap ip bn s =
     rbind (ext2fs_ad ip s) (\<lambda>k.
       let dev = i_dev (icache s ip); inum = i_inum (icache s ip) in
       if bn < EXT2_NDIR_BLOCKS then ext2_slot dev inum k bn s
       else let bn = bn - EXT2_NDIR_BLOCKS in
       if bn < EXT2_INDIRECT then
         rbind (ext2_slot dev inum k EXT2_IND_BLOCK s) (\<lambda>(addr, s1).
         rbind (ext2_entry dev inum addr bn s1) (\<lambda>((bp, addr), s2).
         rbind (brelse bp s2) (\<lambda>s3. Inr (addr, s3))))
       else let bn = bn - EXT2_INDIRECT in
       if bn < EXT2_DINDIRECT then
         rbind (ext2_slot dev inum k EXT2_DIND_BLOCK s) (\<lambda>(addr, s1).
         rbind (ext2_entry dev inum addr (bn div EXT2_INDIRECT) s1) (\<lambda>((bp, addr), s2).
         rbind (ext2_entry dev inum addr (bn div EXT2_INDIRECT) s2) (\<lambda>((bp1, addr), s3).
         rbind (brelse bp s3) (\<lambda>s4.
         rbind (brelse bp1 s4) (\<lambda>s5. Inr (addr, s5))))))
       else let bn = bn - EXT2_DINDIRECT in
       if bn < EXT2_TINDIRECT then
         rbind (ext2_slot dev inum k EXT2_TIND_BLOCK s) (\<lambda>(addr, s1).
         rbind (ext2_entry dev inum addr (bn div EXT2_INDIRECT) s1) (\<lambda>((bp, addr), s2).
         rbind (ext2_entry dev inum addr (bn div EXT2_INDIRECT) s2) (\<lambda>((bp1, addr), s3).
         rbind (ext2_entry dev inum addr (bn div EXT2_INDIRECT) s3) (\<lambda>((bp2, addr), s4).
         rbind (brelse bp s4) (\<lambda>s5.
         rbind (brelse bp1 s5) (\<lambda>s6.
         rbind (brelse bp2 s6) (\<lambda>s7. Inr (addr, s7))))))))
       else Inl (Panic ''ext2_bmap: block number out of range''))"

function ext2fs_readi_loop :: "nat \<Rightarrow> nat \<Rightarrow> nat \<Rightarrow> nat \<Rightarrow> byte list \<Rightarrow> 'z fsys_scheme \<Rightarrow>
    (byte list \<times> 'z fsys_scheme) res" where
  "ext2fs_readi_loop ip off n tot dst s =
     (if tot < n then
        rbind (ext2fs_bmap ip (off div EXT2_BSIZE) s) (\<lambda>(addr, s1).
        rbind (bread (i_dev (icache s1 ip)) addr s1) (\<lambda>(bp, s2).
          let m = min (n - tot) (EXT2_BSIZE - off mod EXT2_BSIZE);
              dst = dst @ map (b_data (bufs s2 bp)) [off mod EXT2_BSIZE..<off mod EXT2_BSIZE + m]
          in rbind (brelse bp s2) (ext2fs_readi_loop ip (off + m) n (tot + m) dst)))
      else Inr (dst, s))"
  by pat_completeness auto
termination
  by (relation "measure (\<lambda>(ip, off, n, tot, dst, s). n - tot)") (auto simp: EXT2_BSIZE_def)

definition ext2fs_readi :: "'z fsys_scheme devsw \<Rightarrow> nat \<Rightarrow> nat \<Rightarrow> nat \<Rightarrow> 'z fsys_scheme \<Rightarrow>
    ((int \<times> byte list) \<times> 'z fsys_scheme) res" where
  "ext2fs_readi devsw ip off n s =
     (let x = icache s ip in
      if i_type x = T_DEV then
        (if i_major x < 0 \<or> i_major x \<ge> NDEV then Inr ((-1, []), s)
         else case dev_read devsw (i_major x) of None \<Rightarrow> Inr ((-1, []), s) | Some f \<Rightarrow> f ip n s)
      else if off > i_size x \<or> uadd off n < off then Inr ((-1, []), s)
      else
        let n = (if uadd off n > i_size x then i_size x - off else n) in
        rbind (ext2fs_readi_loop ip off n 0 [] s) (\<lambda>(dst, s1). Inr ((sint32 n, dst), s1)))"

function ext2fs_writei_loop :: "nat \<Rightarrow> (nat \<Rightarrow> byte) \<Rightarrow> nat \<Rightarrow> nat \<Rightarrow> nat \<Rightarrow> 'z fsys_scheme \<Rightarrow>
    'z fsys_scheme res" where
  "ext2fs_writei_loop ip src off n tot s =
     (if tot < n then
        rbind (ext2fs_bmap ip (off div EXT2_BSIZE) s) (\<lambda>(addr, s1).
        rbind (bread (i_dev (icache s1 ip)) addr s1) (\<lambda>(bp, s2).
          let m = min (n - tot) (EXT2_BSIZE - off mod EXT2_BSIZE);
              d = put_bytes (b_data (bufs s2 bp)) (off mod EXT2_BSIZE) (\<lambda>i. src (tot + i)) m
          in rbind (bwrite bp (set_data bp d s2)) (\<lambda>s3.
             rbind (brelse bp s3) (ext2fs_writei_loop ip src (off + m) n (tot + m)))))
      else Inr s)"
  by pat_completeness auto
termination
  by (relation "measure (\<lambda>(ip, src, off, n, tot, s). n - tot)") (auto simp: EXT2_BSIZE_def)

declare ext2fs_readi_loop.simps [simp del] ext2fs_writei_loop.simps [simp del]

text \<open>\<open>EXT2_MAXFILE*EXT2_BSIZE\<close> is a product of unsigned 32-bit integers.\<close>

definition ext2fs_writei :: "'z fsys_scheme devsw \<Rightarrow> nat \<Rightarrow> (nat \<Rightarrow> byte) \<Rightarrow> nat \<Rightarrow> nat \<Rightarrow> 'z fsys_scheme \<Rightarrow>
    (int \<times> 'z fsys_scheme) res" where
  "ext2fs_writei devsw ip src off n s =
     (let x = icache s ip in
      if i_type x = T_DEV then
        (if i_major x < 0 \<or> i_major x \<ge> NDEV then Inr (-1, s)
         else case dev_write devsw (i_major x) of None \<Rightarrow> Inr (-1, s) | Some f \<Rightarrow> f ip src n s)
      else if off > i_size x \<or> uadd off n < off then Inr (-1, s)
      else if uadd off n > umul EXT2_MAXFILE EXT2_BSIZE then Inr (-1, s)
      else
        rbind (ext2fs_writei_loop ip src off n 0 s) (\<lambda>s1.
        rbind (if n > 0 \<and> off + n > i_size (icache s1 ip)
               then ext2fs_iupdate ip (set_inode ip (\<lambda>x. x\<lparr>i_size := off + n\<rparr>) s1) else Inr s1) (\<lambda>s2.
        Inr (sint32 n, s2))))"

section \<open>Directories\<close>

record ext2_dir_entry_2 =
  e2_inode :: nat
  e2_rec_len :: nat
  e2_name_len :: nat
  e2_file_type :: nat
  e2_name :: "nat \<Rightarrow> byte"

definition ext2_dirent_of :: "(nat \<Rightarrow> byte) \<Rightarrow> ext2_dir_entry_2" where
  "ext2_dirent_of d = \<lparr>e2_inode = get32 d 0, e2_rec_len = get16 d 4, e2_name_len = unat (d 6),
     e2_file_type = unat (d 7), e2_name = (\<lambda>i. d (8 + i))\<rparr>"

definition ext2fs_namecmp :: "(nat \<Rightarrow> byte) \<Rightarrow> (nat \<Rightarrow> byte) \<Rightarrow> int" where
  "ext2fs_namecmp s t = strncmp s t EXT2_NAME_LEN"

text \<open>
  The search loop of \<open>ext2fs_dirlookup\<close>. It steps by the \<open>rec_len\<close> it read, which can be zero.
  The offset is an unsigned 32-bit integer and what is read depends on it alone, so a loop of
  more than \<open>2^32\<close> turns repeats an offset and never ends.
\<close>

fun ext2_dirlookup_loop :: "'z fsys_scheme devsw \<Rightarrow> nat \<Rightarrow> (nat \<Rightarrow> byte) \<Rightarrow> nat \<Rightarrow> nat \<Rightarrow> 'z fsys_scheme \<Rightarrow>
    ((nat \<times> nat) option \<times> 'z fsys_scheme) res" where
  "ext2_dirlookup_loop devsw dp name fuel off s =
     (if off < i_size (icache s dp) then
        if fuel = 0 then Inl (Diverges ''ext2fs_dirlookup'')
        else rbind (ext2fs_readi devsw dp off ext2_dir_entry_bytes s) (\<lambda>((r, bs), s1).
          if r \<noteq> int ext2_dir_entry_bytes then Inl (Panic ''ext2fs_dirlookup: read error'')
          else
            let de = ext2_dirent_of (bytes_at bs);
                file_name = (strncpy (\<lambda>_. 0) (e2_name de) (int (e2_name_len de)))(e2_name_len de := 0)
            in if e2_inode de \<noteq> 0 \<and> ext2fs_namecmp name file_name = 0 then
                 rbind (iget (i_dev (icache s1 dp)) (e2_inode de) s1) (\<lambda>(ip, s2). Inr (Some (ip, off), s2))
               else ext2_dirlookup_loop devsw dp name (fuel - 1) (uadd off (e2_rec_len de)) s1)
      else Inr (None, s))"

declare ext2_dirlookup_loop.simps [simp del]

definition ext2fs_dirlookup :: "'z fsys_scheme devsw \<Rightarrow> nat \<Rightarrow> (nat \<Rightarrow> byte) \<Rightarrow> 'z fsys_scheme \<Rightarrow>
    ((nat \<times> nat) option \<times> 'z fsys_scheme) res" where
  "ext2fs_dirlookup devsw dp name s = ext2_dirlookup_loop devsw dp name (2 ^ 32) 0 s"

text \<open>
  \<open>ext2fs_dirlink\<close>. \<open>stk\<close> is the stack memory from \<open>&de\<close> on: the loop may read no entry, and
  the last call copies \<open>rec_len\<close> bytes from \<open>&de\<close>, more than the structure has. \<open>strlen(name)\<close>
  does not return on a name without a terminator.
\<close>

function ext2_dirlink_loop :: "'z fsys_scheme devsw \<Rightarrow> nat \<Rightarrow> nat \<Rightarrow> (nat \<Rightarrow> byte) \<Rightarrow> 'z fsys_scheme \<Rightarrow>
    ((nat \<times> (nat \<Rightarrow> byte)) \<times> 'z fsys_scheme) res" where
  "ext2_dirlink_loop devsw dp off de s =
     (if off < i_size (icache s dp) \<and> off < 2 ^ 31 then
        rbind (ext2fs_readi devsw dp off ext2_dir_entry_bytes s) (\<lambda>((r, bs), s1).
          if r \<noteq> int ext2_dir_entry_bytes then Inl (Panic ''ext2fs_dirlink read'')
          else
            let de' = put_bytes de 0 (bytes_at bs) ext2_dir_entry_bytes in
            if e2_inode (ext2_dirent_of de') = 0 then Inr ((off, de'), s1)
            else ext2_dirlink_loop devsw dp (off + ext2_dir_entry_bytes) de' s1)
      else if off < i_size (icache s dp) then Inl (Undef ''off'')
      else Inr ((off, de), s))"
  by pat_completeness auto
termination
  by (relation "measure (\<lambda>(devsw, dp, off, de, s). 2 ^ 32 - off)") (auto simp: ext2_dir_entry_bytes_def)

declare ext2_dirlink_loop.simps [simp del]

definition ext2fs_dirlink :: "'z fsys_scheme devsw \<Rightarrow> (nat \<Rightarrow> byte) \<Rightarrow> nat \<Rightarrow> (nat \<Rightarrow> byte) \<Rightarrow> nat \<Rightarrow>
    'z fsys_scheme \<Rightarrow> (int \<times> 'z fsys_scheme) res" where
  "ext2fs_dirlink devsw stk dp name inum s =
     rbind (ext2fs_dirlookup devsw dp name s) (\<lambda>(r, s1).
       case r of Some (ip, _) \<Rightarrow> rbind (ext2fs_iput ip s1) (\<lambda>s2. Inr (-1, s2))
       | None \<Rightarrow>
         rbind (ext2_dirlink_loop devsw dp 0 stk s1) (\<lambda>((off, de), s2).
         case strlen name of None \<Rightarrow> Inl (Diverges ''strlen'')
         | Some len \<Rightarrow>
           let name_len = unat (de 6);
               de1 = put_bytes de 8 (strncpy (\<lambda>i. de (8 + i)) name (int name_len)) EXT2_NAME_LEN;
               de2 = put32 de1 0 inum;
               de3 = put16 de2 4 EXT2_BSIZE;
               de4 = de3(6 := word_of_nat len);
               s3 = set_inode dp (\<lambda>x. x\<lparr>i_size := uadd off EXT2_BSIZE\<rparr>) s2
           in rbind (ext2fs_iupdate dp s3) (\<lambda>s4.
              rbind (ext2fs_writei devsw dp de4 off EXT2_BSIZE s4) (\<lambda>(_, s5). Inr (0, s5)))))"

end
