(* ===== verification/Namei.thy ===== *)
theory Namei
  imports Ext2fs
begin

text \<open>
  Path names, the last part of \<open>src/fs.c\<close>, and the calls through \<open>struct inode_operations\<close> of
  \<open>src/file.h\<close> that let one path walk cross from the xv6 file system into the ext2 file system
  mounted at \<open>/mnt\<close>. A path is the list of its bytes before the terminator; the buffer for a path
  element is memory of a given size, and a store past its end is \<open>Undef\<close>.
\<close>

section \<open>Calls through the operations table\<close>

definition vop :: "nat \<Rightarrow> 'z fsys_scheme \<Rightarrow> iops res" where
  "vop ip s = (case i_iops (icache s ip) of None \<Rightarrow> Inl (Undef ''ip->iops'') | Some v \<Rightarrow> Inr v)"

definition vop_ilock :: "nat \<Rightarrow> 'z fsys_scheme \<Rightarrow> 'z fsys_scheme res" where
  "vop_ilock ip s = rbind (vop ip s) (\<lambda>v. case v of
     Xv6fs_inode_ops \<Rightarrow> xv6fs_ilock ip s | Ext2fs_inode_ops \<Rightarrow> ext2fs_ilock ip s)"

definition vop_iunlock :: "nat \<Rightarrow> 'z fsys_scheme \<Rightarrow> 'z fsys_scheme res" where
  "vop_iunlock ip s = rbind (vop ip s) (\<lambda>v. case v of
     Xv6fs_inode_ops \<Rightarrow> xv6fs_iunlock ip s | Ext2fs_inode_ops \<Rightarrow> ext2fs_iunlock ip s)"

definition vop_iput :: "nat \<Rightarrow> 'z fsys_scheme \<Rightarrow> 'z fsys_scheme res" where
  "vop_iput ip s = rbind (vop ip s) (\<lambda>v. case v of
     Xv6fs_inode_ops \<Rightarrow> xv6fs_iput ip s | Ext2fs_inode_ops \<Rightarrow> ext2fs_iput ip s)"

definition vop_iunlockput :: "nat \<Rightarrow> 'z fsys_scheme \<Rightarrow> 'z fsys_scheme res" where
  "vop_iunlockput ip s = rbind (vop ip s) (\<lambda>v. case v of
     Xv6fs_inode_ops \<Rightarrow> xv6fs_iunlockput ip s | Ext2fs_inode_ops \<Rightarrow> ext2fs_iunlockput ip s)"

definition vop_iupdate :: "nat \<Rightarrow> 'z fsys_scheme \<Rightarrow> 'z fsys_scheme res" where
  "vop_iupdate ip s = rbind (vop ip s) (\<lambda>v. case v of
     Xv6fs_inode_ops \<Rightarrow> xv6fs_iupdate ip s | Ext2fs_inode_ops \<Rightarrow> ext2fs_iupdate ip s)"

definition vop_ialloc :: "nat \<Rightarrow> nat \<Rightarrow> int \<Rightarrow> 'z fsys_scheme \<Rightarrow> (nat \<times> 'z fsys_scheme) res" where
  "vop_ialloc dp dev type s = rbind (vop dp s) (\<lambda>v. case v of
     Xv6fs_inode_ops \<Rightarrow> xv6fs_ialloc dev type s | Ext2fs_inode_ops \<Rightarrow> ext2fs_ialloc dev type s)"

definition vop_stati :: "nat \<Rightarrow> 'z fsys_scheme \<Rightarrow> stat res" where
  "vop_stati ip s = rbind (vop ip s) (\<lambda>v. case v of
     Xv6fs_inode_ops \<Rightarrow> Inr (xv6fs_stati ip s) | Ext2fs_inode_ops \<Rightarrow> Inr (ext2fs_stati ip s))"

definition vop_readi :: "'z fsys_scheme devsw \<Rightarrow> nat \<Rightarrow> nat \<Rightarrow> nat \<Rightarrow> 'z fsys_scheme \<Rightarrow>
    ((int \<times> byte list) \<times> 'z fsys_scheme) res" where
  "vop_readi devsw ip off n s = rbind (vop ip s) (\<lambda>v. case v of
     Xv6fs_inode_ops \<Rightarrow> xv6fs_readi devsw ip off n s | Ext2fs_inode_ops \<Rightarrow> ext2fs_readi devsw ip off n s)"

definition vop_writei :: "'z fsys_scheme devsw \<Rightarrow> nat \<Rightarrow> (nat \<Rightarrow> byte) \<Rightarrow> nat \<Rightarrow> nat \<Rightarrow> 'z fsys_scheme \<Rightarrow>
    (int \<times> 'z fsys_scheme) res" where
  "vop_writei devsw ip src off n s = rbind (vop ip s) (\<lambda>v. case v of
     Xv6fs_inode_ops \<Rightarrow> xv6fs_writei devsw ip src off n s
   | Ext2fs_inode_ops \<Rightarrow> ext2fs_writei devsw ip src off n s)"

definition vop_dirlookup :: "'z fsys_scheme devsw \<Rightarrow> nat \<Rightarrow> (nat \<Rightarrow> byte) \<Rightarrow> 'z fsys_scheme \<Rightarrow>
    ((nat \<times> nat) option \<times> 'z fsys_scheme) res" where
  "vop_dirlookup devsw dp name s = rbind (vop dp s) (\<lambda>v. case v of
     Xv6fs_inode_ops \<Rightarrow> xv6fs_dirlookup devsw dp name s
   | Ext2fs_inode_ops \<Rightarrow> ext2fs_dirlookup devsw dp name s)"

definition vop_dirlink :: "'z fsys_scheme devsw \<Rightarrow> (nat \<Rightarrow> byte) \<Rightarrow> nat \<Rightarrow> (nat \<Rightarrow> byte) \<Rightarrow> nat \<Rightarrow>
    'z fsys_scheme \<Rightarrow> (int \<times> 'z fsys_scheme) res" where
  "vop_dirlink devsw stk dp name inum s = rbind (vop dp s) (\<lambda>v. case v of
     Xv6fs_inode_ops \<Rightarrow> xv6fs_dirlink devsw dp name inum s
   | Ext2fs_inode_ops \<Rightarrow> ext2fs_dirlink devsw stk dp name inum s)"

section \<open>Path elements\<close>

definition slash :: byte where "slash = 0x2F"

text \<open>
  \<open>skipelem(path, name, dev)\<close> with a buffer \<open>name\<close> of \<open>nsz\<close> bytes. The result is the rest of the
  path and the new contents of the buffer, or \<open>None\<close> for a null pointer.
\<close>

definition skipelem :: "nat \<Rightarrow> byte list \<Rightarrow> (nat \<Rightarrow> byte) \<Rightarrow> nat \<Rightarrow>
    (byte list \<times> (nat \<Rightarrow> byte)) option res" where
  "skipelem nsz path name dev =
     (let dirlen = (if dev = ROOTDEV then DIRSIZ else EXT2_NAME_LEN);
          s = dropWhile (\<lambda>c. c = slash) path;
          len = length (takeWhile (\<lambda>c. c \<noteq> slash) s);
          rest = dropWhile (\<lambda>c. c \<noteq> slash) s;
          written = (if len \<ge> dirlen then dirlen else len + 1)
      in if s = [] then Inr None
         else if written > nsz then Inl (Undef ''name'')
         else Inr (Some (dropWhile (\<lambda>c. c = slash) rest,
           if len \<ge> dirlen then put_bytes name 0 (bytes_at s) dirlen
           else (put_bytes name 0 (bytes_at s) len)(len := 0))))"

lemma skipelem_shorter:
  assumes "skipelem nsz path name dev = Inr (Some (path', name'))"
  shows "length path' < length path"
proof -
  let ?s = "dropWhile (\<lambda>c. c = slash) path"
  from assms have s: "?s \<noteq> []" and p: "path' = dropWhile (\<lambda>c. c = slash) (dropWhile (\<lambda>c. c \<noteq> slash) ?s)"
    by (auto simp: skipelem_def Let_def split: if_splits)
  obtain c t where ct: "?s = c # t" using s by (cases ?s) auto
  then have "c \<noteq> slash" using hd_dropWhile [OF s] by simp
  then have "length (dropWhile (\<lambda>c. c \<noteq> slash) ?s) \<le> length t"
    using ct length_dropWhile_le [of "\<lambda>c. c \<noteq> slash" t] by simp
  moreover have "length ?s \<le> length path" by (rule length_dropWhile_le)
  moreover have "length path' \<le> length (dropWhile (\<lambda>c. c \<noteq> slash) ?s)"
    unfolding p by (rule length_dropWhile_le)
  ultimately show ?thesis using ct by simp
qed

section \<open>Path lookup\<close>

text \<open>
  The loop of \<open>namex\<close>. The result is the inode, \<open>None\<close> for a null pointer, and the buffer.
\<close>

function namex_loop :: "'z fsys_scheme devsw \<Rightarrow> nat \<Rightarrow> bool \<Rightarrow> byte list \<Rightarrow> (nat \<Rightarrow> byte) \<Rightarrow> nat \<Rightarrow> 'z fsys_scheme \<Rightarrow>
    ((nat option \<times> (nat \<Rightarrow> byte)) \<times> 'z fsys_scheme) res" where
  "namex_loop devsw nsz par path name ip s =
     (case skipelem nsz path name (i_dev (icache s ip)) of
        Inl e \<Rightarrow> Inl e
      | Inr None \<Rightarrow>
          if par then rbind (vop_iput ip s) (\<lambda>s1. Inr ((None, name), s1)) else Inr ((Some ip, name), s)
      | Inr (Some (path', name')) \<Rightarrow>
          rbind (vop_ilock ip s) (\<lambda>s1.
            if i_type (icache s1 ip) \<noteq> T_DIR then
              rbind (vop_iunlockput ip s1) (\<lambda>s2. Inr ((None, name'), s2))
            else if par \<and> path' = [] then
              rbind (vop_iunlock ip s1) (\<lambda>s2. Inr ((Some ip, name'), s2))
            else
              rbind (vop_dirlookup devsw ip name' s1) (\<lambda>(r, s2).
                case r of
                  None \<Rightarrow> rbind (vop_iunlockput ip s2) (\<lambda>s3. Inr ((None, name'), s3))
                | Some (next, _) \<Rightarrow>
                    rbind (vop_iunlockput ip s2) (\<lambda>s3. namex_loop devsw nsz par path' name' next s3))))"
  by pat_completeness auto
termination
  by (relation "measure (\<lambda>(devsw, nsz, par, path, name, ip, s). length path)")
    (auto dest: skipelem_shorter)

declare namex_loop.simps [simp del]

definition mnt :: "byte list" where "mnt = [0x2F, 0x6D, 0x6E, 0x74]"

definition namex :: "'z fsys_scheme devsw \<Rightarrow> nat \<Rightarrow> byte list \<Rightarrow> bool \<Rightarrow> (nat \<Rightarrow> byte) \<Rightarrow> 'z fsys_scheme \<Rightarrow>
    ((nat option \<times> (nat \<Rightarrow> byte)) \<times> 'z fsys_scheme) res" where
  "namex devsw nsz path par name s =
     (if strncmp (bytes_at path) (bytes_at mnt) 4 = 0 then
        rbind (iget EXT2DEV EXT2INO s) (\<lambda>(ip, s1). namex_loop devsw nsz par (drop 4 path) name ip s1)
      else if path \<noteq> [] \<and> hd path = slash then
        rbind (iget ROOTDEV ROOTINO s) (\<lambda>(ip, s1). namex_loop devsw nsz par path name ip s1)
      else
        let (ip, s1) = idup (cwd s) s in namex_loop devsw nsz par path name ip s1)"

definition namei :: "'z fsys_scheme devsw \<Rightarrow> byte list \<Rightarrow> 'z fsys_scheme \<Rightarrow> (nat option \<times> 'z fsys_scheme) res" where
  "namei devsw path s =
     rbind (namex devsw EXT2_NAME_LEN path False (\<lambda>_. 0) s) (\<lambda>((r, _), s1). Inr (r, s1))"

definition nameiparent :: "'z fsys_scheme devsw \<Rightarrow> nat \<Rightarrow> byte list \<Rightarrow> (nat \<Rightarrow> byte) \<Rightarrow> 'z fsys_scheme \<Rightarrow>
    ((nat option \<times> (nat \<Rightarrow> byte)) \<times> 'z fsys_scheme) res" where
  "nameiparent devsw nsz path name s = namex devsw nsz path True name s"

section \<open>The state at boot\<close>

text \<open>
  The variables of the file systems before anything is read: an empty buffer cache and inode
  table over a disk, the super blocks zero.
\<close>

definition boot_inode :: inode where
  "boot_inode = \<lparr>i_dev = 0, i_inum = 0, i_ref = 0, i_lock = \<lparr>sl_locked = False, sl_pid = 0\<rparr>, i_valid = False,
     i_iops = None, i_type = 0, i_major = 0, i_minor = 0, i_nlink = 0, i_size = 0, i_addrs = Xv6fs_slot 0\<rparr>"

definition boot_fsys :: "(nat \<Rightarrow> nat \<Rightarrow> block) \<Rightarrow> fsys" where
  "boot_fsys d = logst.extend (boot_log d)
     (fsys.fields \<lparr>sb_size = 0, sb_nblocks = 0, sb_ninodes = 0, sb_nlog = 0, sb_logstart = 0,
        sb_inodestart = 0, sb_bmapstart = 0\<rparr>
        \<lparr>s_inodes_count = 0, s_blocks_count = 0, s_log_block_size = 0, s_blocks_per_group = 0,
         s_inodes_per_group = 0, s_magic = 0, s_inode_size = 0\<rparr>
        (\<lambda>_. boot_inode) (\<lambda>_. \<lparr>ad_busy = 0, ad_addrs = (\<lambda>_. 0)\<rparr>) (\<lambda>_. \<lparr>ad_busy = 0, ad_addrs = (\<lambda>_. 0)\<rparr>) 0)"

lemma boot_fsys_fields [simp]:
  "icache (boot_fsys d) ip = boot_inode" "cwd (boot_fsys d) = 0"
  "xv6fs_addrs (boot_fsys d) k = \<lparr>ad_busy = 0, ad_addrs = (\<lambda>_. 0)\<rparr>"
  "ext2fs_addrs (boot_fsys d) k = \<lparr>ad_busy = 0, ad_addrs = (\<lambda>_. 0)\<rparr>"
  by (simp_all add: boot_fsys_def logst.extend_def fsys.fields_def)

end
