(* ===== verification/Ring.thy ===== *)
theory Ring
  imports Prelude
begin

text \<open>
  Ring buffers with free-running counters, as the kernel uses them for pipes (\<open>src/pipe.c\<close>) and for
  console input (\<open>src/console.c\<close>): an array of \<open>N\<close> elements, a read counter and a write counter of
  32 bits that wrap around, and element \<open>c\<close> at index \<open>c % N\<close>. The locale collects the arithmetic
  that makes this a first-in first-out queue: it needs that \<open>N\<close> divides \<open>2^32\<close>.
\<close>

definition ring_list :: "nat \<Rightarrow> (nat \<Rightarrow> 'a) \<Rightarrow> 32 word \<Rightarrow> 32 word \<Rightarrow> 'a list" where
  "ring_list N d r w = map (\<lambda>k. d (unat (r + word_of_nat k) mod N)) [0..<unat (w - r)]"

lemma length_ring_list [simp]: "length (ring_list N d r w) = unat (w - r)"
  by (simp add: ring_list_def)

lemma ring_list_empty [simp]: "ring_list N d r r = []"
  by (simp add: ring_list_def)

lemma ring_list_Nil_iff: "ring_list N d r w = [] \<longleftrightarrow> r = w"
proof
  assume "ring_list N d r w = []"
  then have "unat (w - r) = 0" using length_ring_list by (metis list.size(3))
  then show "r = w" by (simp add: unat_eq_zero)
qed simp

lemma unat_succ_diff:
  fixes r w :: "32 word"
  assumes "unat (w - r) < 2 ^ 32 - 1"
  shows "unat (w + 1 - r) = Suc (unat (w - r))"
proof -
  have "w - r \<noteq> - 1"
  proof
    assume "w - r = - 1"
    then have "unat (w - r) = 2 ^ 32 - 1" by (simp add: unsigned_minus_1_eq_mask mask_eq_exp_minus_1)
    then show False using assms by simp
  qed
  then have "1 + (w - r) \<noteq> 0" by (metis add.commute add_eq_0_iff)
  then have "unat (1 + (w - r)) = Suc (unat (w - r))" by (rule unatSuc)
  then show ?thesis by (simp add: algebra_simps)
qed

lemma unat_pred_diff:
  fixes r w :: "32 word"
  assumes "r \<noteq> w"
  shows "unat (w - (r + 1)) = unat (w - r) - 1" "unat (w - 1 - r) = unat (w - r) - 1"
proof -
  have nz: "w - r \<noteq> 0" using assms by simp
  have "unat (w - r - 1) = unat (w - r) - 1" by (rule unat_minus_one [OF nz])
  then show "unat (w - (r + 1)) = unat (w - r) - 1" "unat (w - 1 - r) = unat (w - r) - 1"
    by (simp_all add: algebra_simps)
qed

lemma unat_sum_diff:
  fixes r w e :: "32 word"
  assumes "unat (w - r) + unat (e - w) < 2 ^ 32"
  shows "unat (e - r) = unat (w - r) + unat (e - w)"
proof -
  have "e - r = (w - r) + (e - w)" by simp
  then show ?thesis using assms unat_add_lem [of "w - r" "e - w"] by simp
qed

lemma ring_list_split:
  assumes "unat (w - r) + unat (e - w) < 2 ^ 32"
  shows "ring_list N d r e = ring_list N d r w @ ring_list N d w e"
proof (rule nth_equalityI)
  note sum = unat_sum_diff [OF assms]
  then show "length (ring_list N d r e) = length (ring_list N d r w @ ring_list N d w e)" by simp
  fix i assume "i < length (ring_list N d r e)"
  then have i: "i < unat (w - r) + unat (e - w)" using sum by simp
  have "r + word_of_nat i = w + word_of_nat (i - unat (w - r))" if "unat (w - r) \<le> i"
    using that by (simp add: of_nat_diff)
  then show "ring_list N d r e ! i = (ring_list N d r w @ ring_list N d w e) ! i"
    using i sum by (auto simp: ring_list_def nth_append add.commute)
qed

locale ring =
  fixes N :: nat
  assumes N_pos: "0 < N" and N_dvd: "N dvd 2 ^ 32" and N_lt: "N < 2 ^ 32"
begin

lemma index_add: "unat (r + word_of_nat k :: 32 word) mod N = (unat r + k) mod N"
proof -
  have "unat (r + word_of_nat k :: 32 word) = (unat r + k) mod 2 ^ 32"
    by (simp add: unat_word_ariths unat_of_nat take_bit_eq_mod mod_simps)
  then show ?thesis using N_dvd by (simp add: mod_mod_cancel)
qed

lemma shift_inj:
  assumes "j \<le> k" and "k < N" and "(a + j) mod N = (a + k) mod N"
  shows "j = k"
proof -
  have "N dvd (a + k) - (a + j)" using assms(1,3) by (metis add_le_cancel_left mod_eq_dvd_iff_nat)
  then have "N dvd k - j" by simp
  then show ?thesis using assms(1,2) by (metis diff_is_0_eq' dvd_imp_le le_antisym less_imp_diff_less not_le zero_less_diff)
qed

lemma index_distinct:
  assumes "j < N" and "k < N" and "unat (r + word_of_nat j :: 32 word) mod N = unat (r + word_of_nat k) mod N"
  shows "j = k"
proof -
  have e: "(unat r + j) mod N = (unat r + k) mod N" using assms(3) by (simp add: index_add)
  show ?thesis
  proof (cases "j \<le> k")
    case True
    then show ?thesis using shift_inj [OF True assms(2) e] by simp
  next
    case False
    then show ?thesis using shift_inj [of k j "unat r"] assms(1) e by simp
  qed
qed

text \<open>A store at the write counter appends, a load at the read counter removes the first element.\<close>

lemma push:
  assumes "unat (w - r) < N"
  shows "ring_list N (d(unat w mod N := x)) r (w + 1) = ring_list N d r w @ [x]"
proof -
  have w: "w = r + word_of_nat (unat (w - r))" by simp
  have n: "unat (w + 1 - r) = Suc (unat (w - r))"
    using assms N_lt by (intro unat_succ_diff) linarith
  have "(d(unat w mod N := x)) (unat (r + word_of_nat k) mod N) = d (unat (r + word_of_nat k) mod N)"
    if "k < unat (w - r)" for k
    using index_distinct [of k "unat (w - r)" r] that assms by (subst w) auto
  moreover have "unat (r + word_of_nat (unat (w - r))) mod N = unat w mod N" by simp
  ultimately show ?thesis by (simp add: ring_list_def n)
qed

lemma pop:
  assumes "r \<noteq> w"
  shows "ring_list N d r w = d (unat r mod N) # ring_list N d (r + 1) w"
proof -
  have "w - r \<noteq> 0" using assms by simp
  then obtain m where m: "unat (w - r) = Suc m" by (metis not0_implies_Suc unat_eq_zero)
  then have "unat (w - (r + 1)) = m" using unat_pred_diff(1) [OF assms] by simp
  then show ?thesis
    by (simp add: ring_list_def m upt_conv_Cons map_Suc_upt [symmetric] o_def add_ac del: upt_Suc)
qed

text \<open>Moving the write counter back removes the last element.\<close>

lemma unpush:
  assumes "r \<noteq> w"
  shows "ring_list N d r w = ring_list N d r (w - 1) @ [d (unat (w - 1) mod N)]"
proof -
  have "w - r \<noteq> 0" using assms by simp
  then obtain m where m: "unat (w - r) = Suc m" by (metis not0_implies_Suc unat_eq_zero)
  then have n: "unat (w - 1 - r) = m" using unat_pred_diff(2) [OF assms] by simp
  have "word_of_nat m = w - 1 - r" using n by (metis word_of_nat_eq_iff of_nat_unat ucast_id)
  then have "r + word_of_nat m = w - 1" by simp
  then show ?thesis using m n by (simp add: ring_list_def)
qed

lemma full_iff:
  fixes r w :: "32 word"
  assumes "unat (w - r) \<le> N"
  shows "w = r + word_of_nat N \<longleftrightarrow> unat (w - r) = N"
proof
  assume "w = r + word_of_nat N"
  then have "w - r = word_of_nat N" by simp
  then show "unat (w - r) = N" using N_lt by (simp add: unat_of_nat take_bit_eq_mod)
next
  assume "unat (w - r) = N"
  then have "w - r = word_of_nat N" by (metis of_nat_unat ucast_id)
  then show "w = r + word_of_nat N" by (simp add: algebra_simps)
qed

end

end
