(* ===== verification/Pipe.thy ===== *)
theory Pipe
  imports Ring
begin

text \<open>
  Pipes, \<open>src/pipe.c\<close>. \<open>pipewrite\<close> and \<open>piperead\<close> hold the lock of the pipe from one \<open>sleep\<close> to the
  next, so each such stretch is one step: it ends with a return value, or asleep on a channel at
  a point from which the call goes on when it is woken. The theorems show that the ring buffer
  with its two wrapping counters is a first-in first-out queue of at most \<open>PIPESIZE\<close> bytes under
  every interleaving of readers and writers, and that a sleeping writer and a sleeping reader
  never block each other.
\<close>

section \<open>State\<close>

definition PIPESIZE :: nat where "PIPESIZE = 512"

record pipe =
  p_data :: "nat \<Rightarrow> byte"
  p_nread :: "32 word"
  p_nwrite :: "32 word"
  p_readopen :: bool
  p_writeopen :: bool

text \<open>The channels processes sleep on: \<open>&p->nread\<close> and \<open>&p->nwrite\<close>.\<close>

datatype pipe_chan = Nread | Nwrite

text \<open>
  How a stretch ends: the call returns a value, or it sleeps on a channel. A sleeping \<open>pipewrite\<close>
  goes on at its loop index, a sleeping \<open>piperead\<close> starts again.
\<close>

datatype pipe_out = Returns int | Waits pipe_chan

section \<open>Operations\<close>

text \<open>The assignments of \<open>pipealloc\<close> to a new pipe; the page from \<open>kalloc\<close> holds any bytes.\<close>

definition pipe_init :: "(nat \<Rightarrow> byte) \<Rightarrow> pipe" where
  "pipe_init junk = \<lparr>p_data = junk, p_nread = 0, p_nwrite = 0, p_readopen = True, p_writeopen = True\<rparr>"

text \<open>The result: the pipe, whether its page is freed, and the channels woken up.\<close>

definition pipeclose :: "bool \<Rightarrow> pipe \<Rightarrow> pipe \<times> bool \<times> pipe_chan list" where
  "pipeclose writable p =
     (let p1 = (if writable then p\<lparr>p_writeopen := False\<rparr> else p\<lparr>p_readopen := False\<rparr>) in
      (p1, \<not> p_readopen p1 \<and> \<not> p_writeopen p1, [if writable then Nread else Nwrite]))"

text \<open>\<open>p->data[p->nwrite++ % PIPESIZE] = c\<close> and \<open>c = p->data[p->nread++ % PIPESIZE]\<close>\<close>

definition pipe_put :: "byte \<Rightarrow> pipe \<Rightarrow> pipe" where
  "pipe_put c p =
     p\<lparr>p_data := (p_data p)(unat (p_nwrite p) mod PIPESIZE := c), p_nwrite := p_nwrite p + 1\<rparr>"

definition pipe_get :: "pipe \<Rightarrow> byte \<times> pipe" where
  "pipe_get p = (p_data p (unat (p_nread p) mod PIPESIZE), p\<lparr>p_nread := p_nread p + 1\<rparr>)"

text \<open>The loop of \<open>pipewrite(p, addr, n)\<close> from index \<open>i\<close>, up to the next sleep or the return.\<close>

function pipewrite_from :: "bool \<Rightarrow> (nat \<Rightarrow> byte) \<Rightarrow> int \<Rightarrow> nat \<Rightarrow> pipe \<Rightarrow>
    pipe_out \<times> nat \<times> pipe \<times> pipe_chan list" where
  "pipewrite_from killed addr n i p =
     (if int i < n then
        if p_nwrite p = p_nread p + word_of_nat PIPESIZE then
          if \<not> p_readopen p \<or> killed then (Returns (-1), i, p, [])
          else (Waits Nwrite, i, p, [Nread])
        else pipewrite_from killed addr n (i + 1) (pipe_put (addr i) p)
      else (Returns n, i, p, [Nread]))"
  by pat_completeness auto
termination
  by (relation "measure (\<lambda>(killed, addr, n, i, p). nat (n - int i))") auto

declare pipewrite_from.simps [simp del]

definition pipewrite :: "bool \<Rightarrow> (nat \<Rightarrow> byte) \<Rightarrow> int \<Rightarrow> pipe \<Rightarrow> pipe_out \<times> nat \<times> pipe \<times> pipe_chan list" where
  "pipewrite killed addr n p = pipewrite_from killed addr n 0 p"

text \<open>The copy loop of \<open>piperead\<close>: the bytes stored at \<open>addr\<close> and the pipe.\<close>

function piperead_copy :: "int \<Rightarrow> nat \<Rightarrow> pipe \<Rightarrow> byte list \<times> pipe" where
  "piperead_copy n i p =
     (if int i < n then
        if p_nread p = p_nwrite p then ([], p)
        else let (c, p1) = pipe_get p; (cs, p2) = piperead_copy n (i + 1) p1 in (c # cs, p2)
      else ([], p))"
  by pat_completeness auto
termination
  by (relation "measure (\<lambda>(n, i, p). nat (n - int i))") auto

declare piperead_copy.simps [simp del]

definition piperead :: "bool \<Rightarrow> int \<Rightarrow> pipe \<Rightarrow> pipe_out \<times> byte list \<times> pipe \<times> pipe_chan list" where
  "piperead killed n p =
     (if p_nread p = p_nwrite p \<and> p_writeopen p then
        if killed then (Returns (-1), [], p, []) else (Waits Nread, [], p, [])
      else let (bs, p1) = piperead_copy n 0 p in (Returns (int (length bs)), bs, p1, [Nwrite]))"

text \<open>Reading and writing leave the ends open or closed as they are.\<close>

lemma pipewrite_ends:
  "pipewrite_from killed addr n i p = (out, j, p', wk) \<Longrightarrow> p_readopen p' = p_readopen p \<and> p_writeopen p' = p_writeopen p"
proof (induction killed addr n i p rule: pipewrite_from.induct)
  case (1 killed addr n i p)
  show ?case
    using "1.IH" "1.prems" by (auto simp: pipewrite_from.simps [of killed addr n i p] pipe_put_def split: if_splits)
qed

lemma piperead_copy_ends:
  "p_readopen (snd (piperead_copy n i p)) = p_readopen p \<and> p_writeopen (snd (piperead_copy n i p)) = p_writeopen p"
proof (induction n i p rule: piperead_copy.induct)
  case (1 n i p)
  show ?case
    using "1.IH" by (auto simp: piperead_copy.simps [of n i p] pipe_get_def case_prod_unfold Let_def)
qed

section \<open>A bounded queue\<close>

text \<open>
  The contract that the copy loops rely on: \<open>put\<close> appends while there is room, \<open>get\<close> removes the
  first element while there is one.
\<close>

locale bounded_fifo =
  fixes good :: "'q \<Rightarrow> bool" and contents :: "'q \<Rightarrow> 'a list" and room :: nat
    and put :: "'a \<Rightarrow> 'q \<Rightarrow> 'q" and get :: "'q \<Rightarrow> 'a \<times> 'q"
  assumes put_law: "good q \<Longrightarrow> length (contents q) < room \<Longrightarrow>
      good (put x q) \<and> contents (put x q) = contents q @ [x]"
    and get_law: "good q \<Longrightarrow> contents q \<noteq> [] \<Longrightarrow>
      good (snd (get q)) \<and> contents q = fst (get q) # contents (snd (get q))"
    and within: "good q \<Longrightarrow> length (contents q) \<le> room"
begin

lemma put_all:
  "good q \<Longrightarrow> length (contents q) + length xs \<le> room \<Longrightarrow>
    good (fold put xs q) \<and> contents (fold put xs q) = contents q @ xs"
proof (induction xs arbitrary: q)
  case (Cons x xs)
  then have "good (put x q)" "contents (put x q) = contents q @ [x]" using put_law by auto
  then show ?case using Cons.IH [of "put x q"] Cons.prems by simp
qed simp

lemma get_put: "good q \<Longrightarrow> contents q = [] \<Longrightarrow> 0 < room \<Longrightarrow> fst (get (put x q)) = x"
  using put_law [of q x] get_law [of "put x q"] by simp

end

definition pipe_bytes :: "pipe \<Rightarrow> byte list" where
  "pipe_bytes p = ring_list PIPESIZE (p_data p) (p_nread p) (p_nwrite p)"

definition pipe_ok :: "pipe \<Rightarrow> bool" where
  "pipe_ok p \<longleftrightarrow> unat (p_nwrite p - p_nread p) \<le> PIPESIZE"

interpretation pipe_ring: ring PIPESIZE
proof
  show "PIPESIZE dvd 2 ^ 32" unfolding PIPESIZE_def by (rule dvdI [of _ _ 8388608]) simp
qed (simp_all add: PIPESIZE_def)

lemma length_pipe_bytes: "length (pipe_bytes p) = unat (p_nwrite p - p_nread p)"
  by (simp add: pipe_bytes_def)

lemma pipe_put_ok:
  assumes "length (pipe_bytes p) < PIPESIZE"
  shows "pipe_ok (pipe_put x p)" "pipe_bytes (pipe_put x p) = pipe_bytes p @ [x]"
proof -
  have l: "unat (p_nwrite p - p_nread p) < PIPESIZE" using assms by (simp add: length_pipe_bytes)
  then show b: "pipe_bytes (pipe_put x p) = pipe_bytes p @ [x]"
    by (simp add: pipe_bytes_def pipe_put_def pipe_ring.push)
  show "pipe_ok (pipe_put x p)"
    unfolding pipe_ok_def using arg_cong [OF b, of length] assms by (simp add: length_pipe_bytes)
qed

lemma pipe_get_ok:
  assumes "pipe_ok p" and "pipe_bytes p \<noteq> []"
  shows "pipe_ok (snd (pipe_get p))" "pipe_bytes p = fst (pipe_get p) # pipe_bytes (snd (pipe_get p))"
proof -
  have "p_nread p \<noteq> p_nwrite p" using assms(2) by (auto simp: pipe_bytes_def)
  then show b: "pipe_bytes p = fst (pipe_get p) # pipe_bytes (snd (pipe_get p))"
    by (simp add: pipe_bytes_def pipe_get_def pipe_ring.pop)
  show "pipe_ok (snd (pipe_get p))"
    using arg_cong [OF b, of length] assms(1) by (simp add: length_pipe_bytes pipe_ok_def)
qed

lemma pipe_ok_le: "pipe_ok p \<Longrightarrow> length (pipe_bytes p) \<le> PIPESIZE"
  by (simp add: length_pipe_bytes pipe_ok_def)

interpretation pq: bounded_fifo pipe_ok pipe_bytes PIPESIZE pipe_put pipe_get
proof
  show "pipe_ok q \<Longrightarrow> pipe_bytes q \<noteq> [] \<Longrightarrow>
      pipe_ok (snd (pipe_get q)) \<and> pipe_bytes q = fst (pipe_get q) # pipe_bytes (snd (pipe_get q))" for q
    by (rule conjI [OF pipe_get_ok])
qed (simp_all add: pipe_put_ok pipe_ok_le)

lemma pipe_full_iff:
  "pipe_ok p \<Longrightarrow> p_nwrite p = p_nread p + word_of_nat PIPESIZE \<longleftrightarrow> length (pipe_bytes p) = PIPESIZE"
  using pipe_ring.full_iff [of "p_nwrite p" "p_nread p"] by (simp add: length_pipe_bytes pipe_ok_def)

lemma pipe_empty_iff: "p_nread p = p_nwrite p \<longleftrightarrow> pipe_bytes p = []"
  by (simp add: pipe_bytes_def ring_list_Nil_iff)

section \<open>The effect of the operations\<close>

lemma pipe_put_flags [simp]:
  "p_readopen (pipe_put c p) = p_readopen p" "p_writeopen (pipe_put c p) = p_writeopen p"
  "p_nread (pipe_put c p) = p_nread p"
  by (simp_all add: pipe_put_def)

lemma pipe_get_flags [simp]:
  "p_readopen (snd (pipe_get p)) = p_readopen p" "p_writeopen (snd (pipe_get p)) = p_writeopen p"
  by (simp_all add: pipe_get_def)

lemma pipewrite_from_ok:
  assumes "pipe_ok p" and "pipewrite_from killed addr n i p = (out, j, p', wk)"
  shows "i \<le> j \<and> pipe_ok p' \<and> pipe_bytes p' = pipe_bytes p @ map addr [i..<j] \<and>
    p_readopen p' = p_readopen p \<and> p_writeopen p' = p_writeopen p \<and>
    (out = Returns n \<and> wk = [Nread] \<and> int j = max n (int i) \<or>
     int j < n \<and> length (pipe_bytes p') = PIPESIZE \<and>
       (out = Returns (-1) \<and> (\<not> p_readopen p \<or> killed) \<or>
        out = Waits Nwrite \<and> wk = [Nread] \<and> p_readopen p \<and> \<not> killed))"
  using assms
proof (induction killed addr n i p rule: pipewrite_from.induct)
  case (1 killed addr n i p)
  consider (ret) "\<not> int i < n" | (full) "int i < n" "p_nwrite p = p_nread p + word_of_nat PIPESIZE"
    | (put) "int i < n" "p_nwrite p \<noteq> p_nread p + word_of_nat PIPESIZE" by blast
  then show ?case
  proof cases
    case ret
    then show ?thesis using "1.prems" by (auto simp: pipewrite_from.simps [of killed addr n i p])
  next
    case full
    then show ?thesis using "1.prems" pipe_full_iff [of p]
      by (auto simp: pipewrite_from.simps [of killed addr n i p] split: if_splits)
  next
    case put
    have l: "length (pipe_bytes p) < PIPESIZE"
      using put(2) pipe_full_iff [OF "1.prems"(1)] pipe_ok_le [OF "1.prems"(1)] by simp
    have e: "pipewrite_from killed addr n (i + 1) (pipe_put (addr i) p) = (out, j, p', wk)"
      using "1.prems"(2) put by (simp add: pipewrite_from.simps [of killed addr n i p])
    note ih = "1.IH" [OF put pipe_put_ok(1) [OF l] e]
    then have "[i..<j] = i # [i + 1..<j]" by (simp add: upt_conv_Cons)
    then show ?thesis using ih pipe_put_ok(2) [OF l] put(1) by auto
  qed
qed

lemma piperead_copy_ok:
  assumes "pipe_ok p"
  shows "pipe_ok (snd (piperead_copy n i p)) \<and> fst (piperead_copy n i p) = take (nat (n - int i)) (pipe_bytes p) \<and>
    pipe_bytes (snd (piperead_copy n i p)) = drop (nat (n - int i)) (pipe_bytes p) \<and>
    p_readopen (snd (piperead_copy n i p)) = p_readopen p \<and> p_writeopen (snd (piperead_copy n i p)) = p_writeopen p"
  using assms
proof (induction n i p rule: piperead_copy.induct)
  case (1 n i p)
  consider (stop) "\<not> int i < n" | (empty) "int i < n" "pipe_bytes p = []"
    | (get) "int i < n" "pipe_bytes p \<noteq> []" by blast
  then show ?case
  proof cases
    case stop
    then show ?thesis using "1.prems" by (simp add: piperead_copy.simps [of n i p])
  next
    case empty
    then show ?thesis using "1.prems" by (simp add: piperead_copy.simps [of n i p] pipe_empty_iff)
  next
    case get
    obtain c q where cq: "pipe_get p = (c, q)" by fastforce
    note g = pipe_get_ok [OF "1.prems" get(2), unfolded cq, simplified]
    have ne: "p_nread p \<noteq> p_nwrite p" using get(2) by (simp add: pipe_empty_iff)
    have k: "nat (n - int i) = Suc (nat (n - int (i + 1)))" using get(1) by simp
    have f: "p_readopen q = p_readopen p" "p_writeopen q = p_writeopen p"
      using pipe_get_flags [of p] cq by simp_all
    note ih = "1.IH" [OF get(1) ne cq [symmetric] refl g(1)]
    have "piperead_copy n i p = (c # fst (piperead_copy n (i + 1) q), snd (piperead_copy n (i + 1) q))"
      using get(1) ne cq by (simp add: piperead_copy.simps [of n i p] case_prod_unfold Let_def)
    then show ?thesis using ih f unfolding k g(2) by simp
  qed
qed

lemma piperead_returns:
  assumes "pipe_ok p" and "pipe_bytes p \<noteq> [] \<or> \<not> p_writeopen p"
  shows "\<exists>p'. piperead killed n p =
      (Returns (int (min (nat n) (length (pipe_bytes p)))), take (nat n) (pipe_bytes p), p', [Nwrite]) \<and>
    pipe_ok p' \<and> pipe_bytes p' = drop (nat n) (pipe_bytes p) \<and>
    p_readopen p' = p_readopen p \<and> p_writeopen p' = p_writeopen p"
proof -
  have "\<not> (p_nread p = p_nwrite p \<and> p_writeopen p)" using assms(2) by (auto simp: pipe_empty_iff)
  then show ?thesis using piperead_copy_ok [OF assms(1), of n 0]
    by (auto simp: piperead_def case_prod_unfold min.commute)
qed

lemma piperead_waits:
  assumes "pipe_bytes p = []" and "p_writeopen p"
  shows "piperead killed n p = (if killed then Returns (-1) else Waits Nread, [], p, [])"
  using assms by (simp add: piperead_def pipe_empty_iff)

lemma piperead_ok:
  assumes "pipe_ok p" and "piperead killed n p = (out, bs, p', wk)"
  shows "pipe_ok p' \<and> pipe_bytes p = bs @ pipe_bytes p'"
proof (cases "pipe_bytes p = [] \<and> p_writeopen p")
  case True
  then show ?thesis using assms piperead_waits by simp
next
  case False
  then show ?thesis using piperead_returns [OF assms(1), of killed n] assms(2)
    by (auto simp: append_take_drop_id)
qed

section \<open>Every interleaving\<close>

text \<open>
  The runs of any number of readers, writers and closers of one pipe: \<open>ws\<close> is what the writers
  have stored, \<open>rs\<close> what the readers have received, in order of time. A writer may be any call at
  any loop index, so a run contains every resumption of every sleeping call.
\<close>

inductive pipe_run :: "pipe \<Rightarrow> byte list \<Rightarrow> byte list \<Rightarrow> bool" where
  alloc: "pipe_run (pipe_init junk) [] []"
| writes: "pipe_run p ws rs \<Longrightarrow> pipewrite_from killed addr n i p = (out, j, p', wk) \<Longrightarrow>
    pipe_run p' (ws @ map addr [i..<j]) rs"
| reads: "pipe_run p ws rs \<Longrightarrow> piperead killed n p = (out, bs, p', wk) \<Longrightarrow> pipe_run p' ws (rs @ bs)"
| closes: "pipe_run p ws rs \<Longrightarrow> pipeclose writable p = (p', False, wk) \<Longrightarrow> pipe_run p' ws rs"

lemma pipeclose_bytes:
  assumes "pipeclose writable p = (p', freed, wk)"
  shows "pipe_bytes p' = pipe_bytes p \<and> pipe_ok p' = pipe_ok p"
  using assms by (auto simp: pipeclose_def Let_def pipe_bytes_def pipe_ok_def split: if_splits)

lemma pipe_run_ok: "pipe_run p ws rs \<Longrightarrow> pipe_ok p \<and> ws = rs @ pipe_bytes p"
proof (induction rule: pipe_run.induct)
  case (alloc junk)
  then show ?case by (simp add: pipe_ok_def pipe_bytes_def pipe_init_def)
next
  case (writes p ws rs killed addr n i out j p' wk)
  then show ?case using pipewrite_from_ok by fastforce
next
  case (reads p ws rs killed n out bs p' wk)
  then show ?case using piperead_ok by fastforce
next
  case (closes p ws rs writable p' wk)
  then show ?case using pipeclose_bytes by fastforce
qed

text \<open>
  C16: A pipe is a first-in first-out queue. Under every interleaving of reads, writes (including
  writes resumed after sleeping) and closes, what was written is what was read followed by what the
  ring buffer holds, which is never more than \<open>PIPESIZE\<close> bytes, although the counters wrap around.
\<close>

theorem pipe_fifo:
  assumes "pipe_run p ws rs"
  shows "ws = rs @ pipe_bytes p \<and> length (pipe_bytes p) \<le> PIPESIZE"
  using pipe_run_ok [OF assms] pipe_ok_le by blast

text \<open>
  \<open>piperead\<close> of a pipe with data, or whose write end is closed, returns without sleeping, with the
  first \<open>n\<close> bytes or all there are, leaves the rest, and wakes the writers.
\<close>

theorem piperead_takes:
  assumes "pipe_ok p" and "pipe_bytes p \<noteq> [] \<or> \<not> p_writeopen p"
  shows "\<exists>p'. piperead killed n p =
      (Returns (int (min (nat n) (length (pipe_bytes p)))), take (nat n) (pipe_bytes p), p', [Nwrite]) \<and>
    pipe_bytes p' = drop (nat n) (pipe_bytes p)"
  using piperead_returns [OF assms] by blast

lemma pipewrite_resumes:
  assumes "pipe_ok p" and "pipe_bytes p \<noteq> []" and "0 < m" and "int j < n"
  shows "\<exists>bs q. bs \<noteq> [] \<and> piperead killed' m p = (Returns (int (length bs)), bs, q, [Nwrite]) \<and>
    (\<exists>out j' q' wk'. pipewrite_from killed addr n j q = (out, j', q', wk') \<and> j < j')"
proof -
  let ?bs = "take (nat m) (pipe_bytes p)"
  obtain q where q: "piperead killed' m p = (Returns (int (length ?bs)), ?bs, q, [Nwrite])"
      "pipe_ok q" "pipe_bytes q = drop (nat m) (pipe_bytes p)"
    using piperead_returns [of p killed' m] assms(1,2) by (auto simp: min.commute)
  have l: "length (pipe_bytes q) < PIPESIZE"
    using q(3) assms(2,3) pipe_ok_le [OF assms(1)] by (cases "pipe_bytes p") auto
  then have nf: "p_nwrite q \<noteq> p_nread q + word_of_nat PIPESIZE" using pipe_full_iff [OF q(2)] by simp
  obtain out j' q' wk' where r: "pipewrite_from killed addr n (j + 1) (pipe_put (addr j) q) = (out, j', q', wk')"
    by (metis prod_cases4)
  have "pipewrite_from killed addr n j q = (out, j', q', wk')"
    using assms(4) nf r by (subst pipewrite_from.simps) auto
  moreover have "j < j'" using pipewrite_from_ok [OF pipe_put_ok(1) [OF l] r] by auto
  ultimately show ?thesis using assms(2,3) q(1) by (intro exI [of _ ?bs] exI [of _ q]) auto
qed

text \<open>
  C17: A sleeping writer and a sleeping reader never block each other. \<open>pipewrite\<close> sleeps only when
  the pipe is full, after waking the readers; every \<open>piperead\<close> of at least one byte then returns
  data and wakes the writer, whose call goes on and stores at least one more byte. \<open>piperead\<close>
  sleeps only when the pipe is empty, and a \<open>pipewrite\<close> of at least one byte then stores one and
  wakes the readers.
\<close>

theorem pipe_progress:
  assumes "pipe_ok p" and "p_readopen p" and "0 < n" and "0 < m"
  shows "(\<forall>j p' wk. pipewrite_from killed addr n i p = (Waits Nwrite, j, p', wk) \<longrightarrow>
      wk = [Nread] \<and> (\<exists>bs q. bs \<noteq> [] \<and> piperead killed' m p' = (Returns (int (length bs)), bs, q, [Nwrite]) \<and>
        (\<exists>out j' q' wk'. pipewrite_from killed addr n j q = (out, j', q', wk') \<and> j < j'))) \<and>
    (\<forall>bs p' wk. piperead killed' m p = (Waits Nread, bs, p', wk) \<longrightarrow>
      p' = p \<and> (\<exists>out j q. pipewrite False addr n p = (out, j, q, [Nread]) \<and> pipe_bytes q \<noteq> []))"
proof (intro conjI allI impI)
  fix j p' wk
  assume w: "pipewrite_from killed addr n i p = (Waits Nwrite, j, p', wk)"
  note wr = pipewrite_from_ok [OF assms(1) w]
  then show "wk = [Nread]" by auto
  have "pipe_ok p'" "pipe_bytes p' \<noteq> []" "int j < n" using wr by (auto simp: PIPESIZE_def)
  then show "\<exists>bs q. bs \<noteq> [] \<and> piperead killed' m p' = (Returns (int (length bs)), bs, q, [Nwrite]) \<and>
      (\<exists>out j' q' wk'. pipewrite_from killed addr n j q = (out, j', q', wk') \<and> j < j')"
    by (rule pipewrite_resumes [OF _ _ assms(4)])
next
  fix bs p' wk
  assume r: "piperead killed' m p = (Waits Nread, bs, p', wk)"
  have e: "pipe_bytes p = []"
    using piperead_returns [OF assms(1), of killed' m] r by auto
  show "p' = p" using r by (auto simp: piperead_def case_prod_unfold Let_def split: if_splits)
  obtain out j q wk' where w: "pipewrite_from False addr n 0 p = (out, j, q, wk')" by (metis prod_cases4)
  note wr = pipewrite_from_ok [OF assms(1) w]
  then have "wk' = [Nread]" "0 < j" using assms(2,3) e by (auto simp: PIPESIZE_def)
  moreover have "length (pipe_bytes q) = j" using wr e by simp
  ultimately show "\<exists>out j q. pipewrite False addr n p = (out, j, q, [Nread]) \<and> pipe_bytes q \<noteq> []"
    using w by (auto simp: pipewrite_def)
qed

section \<open>A run\<close>

definition demo_bytes :: "nat \<Rightarrow> byte" where
  "demo_bytes i = word_of_nat (i + 1)"

definition demo_pipe :: pipe where
  "demo_pipe = fst (snd (snd (pipewrite_from False demo_bytes 3 0 (pipe_init (\<lambda>_. 0)))))"

definition demo_pipe2 :: pipe where
  "demo_pipe2 = fst (snd (snd (piperead False 2 demo_pipe)))"

lemma demo_pipe_run: "pipe_run demo_pipe2 [1, 2, 3] [1, 2]"
proof -
  have a: "fst (snd (pipewrite_from False demo_bytes 3 0 (pipe_init (\<lambda>_. 0)))) = 3" by code_simp
  have w: "pipewrite_from False demo_bytes 3 0 (pipe_init (\<lambda>_. 0)) =
      (fst (pipewrite_from False demo_bytes 3 0 (pipe_init (\<lambda>_. 0))), 3, demo_pipe,
       snd (snd (snd (pipewrite_from False demo_bytes 3 0 (pipe_init (\<lambda>_. 0))))))"
    using a by (simp add: demo_pipe_def prod_eq_iff)
  have b: "fst (snd (piperead False 2 demo_pipe)) = [1, 2]" by code_simp
  have r: "piperead False 2 demo_pipe = (fst (piperead False 2 demo_pipe), [1, 2], demo_pipe2,
      snd (snd (snd (piperead False 2 demo_pipe))))"
    using b by (simp add: demo_pipe2_def prod_eq_iff)
  have "map demo_bytes [0..<3] = [1, 2, 3]" by code_simp
  then have "pipe_run demo_pipe [1, 2, 3] []"
    using pipe_run.writes [OF pipe_run.alloc w] by simp
  from pipe_run.reads [OF this r] show ?thesis by simp
qed

theorem pipe_fifo_witness:
  "[1, 2, 3] = [1, 2] @ pipe_bytes demo_pipe2 \<and> length (pipe_bytes demo_pipe2) \<le> PIPESIZE"
  by (rule pipe_fifo [OF demo_pipe_run])

theorem piperead_takes_witness:
  "\<exists>p'. piperead False 2 demo_pipe = (Returns 2, [1, 2], p', [Nwrite]) \<and> pipe_bytes p' = [3]"
proof -
  have "pipe_ok demo_pipe" and b: "pipe_bytes demo_pipe = [1, 2, 3]" by code_simp+
  then show ?thesis using piperead_takes [of demo_pipe False 2] by simp
qed

theorem pipe_progress_witness:
  "\<exists>out j q. pipewrite False demo_bytes 3 (pipe_init (\<lambda>_. 0)) = (out, j, q, [Nread]) \<and> pipe_bytes q \<noteq> []"
proof -
  have o: "pipe_ok (pipe_init (\<lambda>_. 0))" "p_readopen (pipe_init (\<lambda>_. 0))"
    by (simp_all add: pipe_ok_def pipe_init_def)
  have "piperead False 2 (pipe_init (\<lambda>_. 0)) = (Waits Nread, [], pipe_init (\<lambda>_. 0), [])"
    by (simp add: piperead_def pipe_init_def)
  then show ?thesis
    using pipe_progress [OF o, of 3 2 False demo_bytes 0 False] by simp
qed

end
