(* ===== verification/Kalloc.thy ===== *)
theory Kalloc
  imports CString
begin

text \<open>
  The physical page allocator, \<open>src/kalloc.c\<close>, with the address macros of \<open>src/memlayout.h\<close> and
  \<open>src/mmu.h\<close> that it uses. The free list is threaded through the free pages themselves: the first
  word of a free page holds the address of the next one. \<open>end\<close>, the first address after the kernel,
  comes from the linker and is a parameter. The theorems show that the list always is a chain of
  distinct pages, so that no page is handed out while it is in use.
\<close>

section \<open>Addresses\<close>

definition PGSIZE :: nat where "PGSIZE = 4096"
definition KERNBASE :: nat where "KERNBASE = 0x80000000"
definition PHYSTOP :: nat where "PHYSTOP = 0xE000000"

definition V2P :: "nat \<Rightarrow> nat" where
  "V2P a = usub a KERNBASE"

definition P2V :: "nat \<Rightarrow> nat" where
  "P2V a = uadd a KERNBASE"

definition PGROUNDUP :: "nat \<Rightarrow> nat" where
  "PGROUNDUP sz = uadd sz (PGSIZE - 1) div PGSIZE * PGSIZE"

definition PGROUNDDOWN :: "nat \<Rightarrow> nat" where
  "PGROUNDDOWN a = a div PGSIZE * PGSIZE"

lemmas page_consts = PGSIZE_def KERNBASE_def PHYSTOP_def

section \<open>The allocator\<close>

record kmem =
  k_mem :: mem
  k_use_lock :: bool
  k_freelist :: nat

definition kfree :: "nat \<Rightarrow> nat \<Rightarrow> 'z kmem_scheme \<Rightarrow> 'z kmem_scheme res" where
  "kfree kend v s =
     (if v mod PGSIZE \<noteq> 0 \<or> v < kend \<or> V2P v \<ge> PHYSTOP then Inl (Panic ''kfree'')
      else
        let m = memset (k_mem s) v 1 PGSIZE in
        Inr (s\<lparr>k_mem := put32 m v (k_freelist s), k_freelist := v\<rparr>))"

definition kalloc :: "'z kmem_scheme \<Rightarrow> nat \<times> 'z kmem_scheme" where
  "kalloc s =
     (let r = k_freelist s in
      if r \<noteq> 0 then (r, s\<lparr>k_freelist := get32 (k_mem s) r\<rparr>) else (r, s))"

function freerange_from :: "nat \<Rightarrow> nat \<Rightarrow> nat \<Rightarrow> 'z kmem_scheme \<Rightarrow> 'z kmem_scheme res" where
  "freerange_from kend p vend s =
     (if p + PGSIZE \<le> vend then rbind (kfree kend p s) (freerange_from kend (p + PGSIZE) vend) else Inr s)"
  by pat_completeness auto
termination
  by (relation "measure (\<lambda>(kend, p, vend, s). vend - p)") (auto simp: PGSIZE_def)

declare freerange_from.simps [simp del]

definition freerange :: "nat \<Rightarrow> nat \<Rightarrow> nat \<Rightarrow> 'z kmem_scheme \<Rightarrow> 'z kmem_scheme res" where
  "freerange kend vstart vend s = freerange_from kend (PGROUNDUP vstart) vend s"

definition kinit1 :: "nat \<Rightarrow> nat \<Rightarrow> nat \<Rightarrow> 'z kmem_scheme \<Rightarrow> 'z kmem_scheme res" where
  "kinit1 kend vstart vend s = freerange kend vstart vend (s\<lparr>k_use_lock := False\<rparr>)"

definition kinit2 :: "nat \<Rightarrow> nat \<Rightarrow> nat \<Rightarrow> 'z kmem_scheme \<Rightarrow> 'z kmem_scheme res" where
  "kinit2 kend vstart vend s = rbind (freerange kend vstart vend s) (\<lambda>s1. Inr (s1\<lparr>k_use_lock := True\<rparr>))"

section \<open>The free list\<close>

text \<open>The pages that \<open>kfree\<close> accepts.\<close>

definition page_ok :: "nat \<Rightarrow> nat \<Rightarrow> bool" where
  "page_ok kend v \<longleftrightarrow> v mod PGSIZE = 0 \<and> kend \<le> v \<and> V2P v < PHYSTOP \<and> 0 < v \<and> v < 2 ^ 32"

fun chain :: "mem \<Rightarrow> nat \<Rightarrow> nat list \<Rightarrow> bool" where
  "chain m p [] \<longleftrightarrow> p = 0"
| "chain m p (x # xs) \<longleftrightarrow> p = x \<and> chain m (get32 m x) xs"

definition free_pages :: "nat \<Rightarrow> 'z kmem_scheme \<Rightarrow> nat list \<Rightarrow> bool" where
  "free_pages kend s ps \<longleftrightarrow> chain (k_mem s) (k_freelist s) ps \<and> distinct ps \<and> (\<forall>v \<in> set ps. page_ok kend v)"

lemma chain_cong:
  assumes "\<And>x i. x \<in> set xs \<Longrightarrow> i < 4 \<Longrightarrow> m' (x + i) = m (x + i)"
  shows "chain m' p xs = chain m p xs"
  using assms
proof (induction xs arbitrary: p)
  case (Cons x xs)
  have "get32 m' x = get32 m x"
    using Cons.prems [of x 0] Cons.prems [of x 1] Cons.prems [of x 2] Cons.prems [of x 3]
    by (simp add: get32_def)
  then show ?case using Cons by simp
qed simp

lemma pages_apart:
  assumes "page_ok kend v" and "page_ok kend' x" and "x \<noteq> v" and "i < PGSIZE" and "j < PGSIZE"
  shows "x + i \<noteq> v + j"
proof
  assume e: "x + i = v + j"
  obtain a b where "x = a * PGSIZE" "v = b * PGSIZE"
    using assms(1,2) unfolding page_ok_def by (metis mod_0_imp_dvd dvd_def mult.commute)
  then have "a = (x + i) div PGSIZE" "b = (v + j) div PGSIZE" using assms(4,5) by simp_all
  then have "a = b" using e by simp
  then show False using assms(3) \<open>x = a * PGSIZE\<close> \<open>v = b * PGSIZE\<close> by simp
qed

lemma free_pages_unique: "free_pages kend s ps \<Longrightarrow> free_pages kend s qs \<Longrightarrow> ps = qs"
proof -
  have "chain m p ps \<Longrightarrow> chain m p qs \<Longrightarrow> \<forall>v \<in> set ps \<union> set qs. 0 < v \<Longrightarrow> ps = qs" for m p
  proof (induction ps arbitrary: p qs)
    case Nil
    then show ?case by (cases qs) auto
  next
    case (Cons x ps)
    then obtain y ys where "qs = y # ys" by (cases qs) auto
    then show ?case using Cons.IH [of "get32 m x" ys] Cons.prems by simp
  qed
  then show "free_pages kend s ps \<Longrightarrow> free_pages kend s qs \<Longrightarrow> ps = qs"
    by (auto simp: free_pages_def page_ok_def)
qed

lemma kfree_ok:
  assumes "free_pages kend s ps" and "page_ok kend v" and "v \<notin> set ps"
  shows "\<exists>s'. kfree kend v s = Inr s' \<and> free_pages kend s' (v # ps) \<and>
    (\<forall>a. a < v \<or> v + PGSIZE \<le> a \<longrightarrow> k_mem s' a = k_mem s a)"
proof -
  let ?m = "memset (k_mem s) v 1 PGSIZE"
  let ?s = "s\<lparr>k_mem := put32 ?m v (k_freelist s), k_freelist := v\<rparr>"
  have k: "kfree kend v s = Inr ?s" using assms(2) by (simp add: kfree_def page_ok_def Let_def)
  have out: "k_mem ?s a = k_mem s a" if "a < v \<or> v + PGSIZE \<le> a" for a
    using that by (auto simp: put32_out memset_eq PGSIZE_def)
  have "k_freelist s < 4294967296"
    using assms(1) by (cases ps) (auto simp: free_pages_def page_ok_def)
  then have "get32 (k_mem ?s) v = k_freelist s" by simp
  moreover have "chain (k_mem ?s) p ps = chain (k_mem s) p ps" for p
  proof (rule chain_cong)
    fix x i assume x: "x \<in> set ps" and i: "i < (4 :: nat)"
    have "page_ok kend x" "x \<noteq> v" using x assms(1,3) by (auto simp: free_pages_def)
    then have "x + i \<noteq> v + j" if "j < PGSIZE" for j
      using pages_apart [OF assms(2), of kend x i j] i that by (simp add: PGSIZE_def)
    from this [of "x + i - v"] have "x + i < v \<or> v + PGSIZE \<le> x + i" by linarith
    then show "k_mem ?s (x + i) = k_mem s (x + i)" by (rule out)
  qed
  ultimately have "free_pages kend ?s (v # ps)" using assms by (auto simp: free_pages_def)
  then show ?thesis using k out by blast
qed

lemma kalloc_ok:
  assumes "free_pages kend s ps"
  shows "ps = [] \<Longrightarrow> kalloc s = (0, s)"
    and "ps = v # qs \<Longrightarrow> \<exists>s'. kalloc s = (v, s') \<and> free_pages kend s' qs \<and> k_mem s' = k_mem s"
  using assms by (auto simp: free_pages_def kalloc_def page_ok_def)

lemma freerange_from_ok:
  assumes "free_pages kend s ps" and "p mod PGSIZE = 0" and "kend \<le> p" and "0 < p"
    and "KERNBASE \<le> p" and "vend \<le> KERNBASE + PHYSTOP"
    and "\<forall>v \<in> set ps. v < p \<or> vend < v + PGSIZE"
  shows "\<exists>s'. freerange_from kend p vend s = Inr s' \<and>
    free_pages kend s' (rev (map (\<lambda>k. p + k * PGSIZE) [0..<(vend - p) div PGSIZE]) @ ps)"
  using assms
proof (induction "(vend - p) div PGSIZE" arbitrary: p s ps)
  case 0
  then have "\<not> p + PGSIZE \<le> vend" by (auto simp: PGSIZE_def div_eq_0_iff)
  then show ?case using 0 by (subst freerange_from.simps) simp
next
  case (Suc n)
  have le: "p + PGSIZE \<le> vend" using Suc.hyps(2) by (auto simp: PGSIZE_def div_eq_0_iff not_less intro: ccontr)
  have pg: "page_ok kend p"
    using Suc.prems le by (auto simp: page_ok_def V2P_def usub_small page_consts)
  have "p \<notin> set ps" using Suc.prems(7) le by auto
  then obtain s1 where s1: "kfree kend p s = Inr s1" "free_pages kend s1 (p # ps)"
    using kfree_ok [OF Suc.prems(1) pg] by blast
  have n: "n = (vend - (p + PGSIZE)) div PGSIZE" using Suc.hyps(2) le
    by (simp add: PGSIZE_def le_div_geq)
  have m: "(p + PGSIZE) mod PGSIZE = 0" using Suc.prems(2) by simp
  have b: "\<forall>v \<in> set (p # ps). v < p + PGSIZE \<or> vend < v + PGSIZE"
    using Suc.prems(7) by (auto simp: PGSIZE_def)
  obtain s' where s': "freerange_from kend (p + PGSIZE) vend s1 = Inr s'"
    "free_pages kend s' (rev (map (\<lambda>k. p + PGSIZE + k * PGSIZE) [0..<(vend - (p + PGSIZE)) div PGSIZE]) @ p # ps)"
    using Suc.hyps(1) [OF n s1(2) m _ _ _ Suc.prems(6) b] Suc.prems by auto
  have "map (\<lambda>k. p + k * PGSIZE) [0..<(vend - p) div PGSIZE] = p # map (\<lambda>k. p + PGSIZE + k * PGSIZE) [0..<n]"
    unfolding Suc.hyps(2) [symmetric] by (simp add: upt_conv_Cons map_Suc_upt [symmetric] add.assoc del: upt_Suc)
  then have l: "rev (map (\<lambda>k. p + k * PGSIZE) [0..<(vend - p) div PGSIZE]) @ ps =
      rev (map (\<lambda>k. p + PGSIZE + k * PGSIZE) [0..<n]) @ p # ps" by simp
  have e: "freerange_from kend p vend s = freerange_from kend (p + PGSIZE) vend s1"
    by (subst freerange_from.simps) (simp add: le s1(1))
  show ?case unfolding l e using s' unfolding n [symmetric] by blast
qed

section \<open>A page allocator\<close>

text \<open>
  What the users of the allocator rely on: \<open>alloc\<close> hands out an available page and takes it away, or
  answers 0 when there is none, and \<open>free\<close> makes a legal page available again.
\<close>

locale page_allocator =
  fixes good :: "'s \<Rightarrow> bool" and avail :: "'s \<Rightarrow> nat set" and legal :: "nat \<Rightarrow> bool"
    and alloc :: "'s \<Rightarrow> nat \<times> 's" and free :: "nat \<Rightarrow> 's \<Rightarrow> 's res"
  assumes alloc_law: "good s \<Longrightarrow> avail s \<noteq> {} \<Longrightarrow>
      fst (alloc s) \<in> avail s \<and> good (snd (alloc s)) \<and> avail (snd (alloc s)) = avail s - {fst (alloc s)}"
    and alloc_none: "good s \<Longrightarrow> avail s = {} \<Longrightarrow> alloc s = (0, s)"
    and free_law: "good s \<Longrightarrow> legal v \<Longrightarrow> v \<notin> avail s \<Longrightarrow>
      \<exists>s'. free v s = Inr s' \<and> good s' \<and> avail s' = insert v (avail s)"
    and avail_legal: "good s \<Longrightarrow> v \<in> avail s \<Longrightarrow> legal v"
    and zero_illegal: "\<not> legal 0"
begin

lemma alloc_result:
  assumes "good s"
  shows "good (snd (alloc s)) \<and>
    (if fst (alloc s) = 0 then avail s = {} \<and> snd (alloc s) = s
     else fst (alloc s) \<in> avail s \<and> legal (fst (alloc s)) \<and> avail (snd (alloc s)) = avail s - {fst (alloc s)})"
  using alloc_law [OF assms] alloc_none [OF assms] avail_legal [OF assms] zero_illegal
  by (cases "avail s = {}") (auto simp: assms)

lemma alloc_then_free:
  assumes "good s" and "fst (alloc s) \<noteq> 0"
  shows "\<exists>s'. free (fst (alloc s)) (snd (alloc s)) = Inr s' \<and> good s' \<and> avail s' = avail s"
  using alloc_result [OF assms(1)] assms(2) free_law [of "snd (alloc s)" "fst (alloc s)"]
  by (auto simp: insert_absorb)

end

definition kmem_ok :: "nat \<Rightarrow> 'z kmem_scheme \<Rightarrow> bool" where
  "kmem_ok kend s \<longleftrightarrow> (\<exists>ps. free_pages kend s ps)"

definition free_set :: "nat \<Rightarrow> 'z kmem_scheme \<Rightarrow> nat set" where
  "free_set kend s = {v. \<exists>ps. free_pages kend s ps \<and> v \<in> set ps}"

lemma free_set_eq: "free_pages kend s ps \<Longrightarrow> free_set kend s = set ps"
  unfolding free_set_def using free_pages_unique by blast

interpretation pages: page_allocator "kmem_ok kend" "free_set kend" "page_ok kend" kalloc "kfree kend" for kend
proof
  fix s :: "'a kmem_scheme" assume "kmem_ok kend s" and ne: "free_set kend s \<noteq> {}"
  then obtain ps where ps: "free_pages kend s ps" by (auto simp: kmem_ok_def)
  then obtain v qs where v: "ps = v # qs" using ne by (cases ps) (auto simp: free_set_eq)
  obtain s' where "kalloc s = (v, s')" "free_pages kend s' qs" using kalloc_ok(2) [OF ps v] by blast
  then show "fst (kalloc s) \<in> free_set kend s \<and> kmem_ok kend (snd (kalloc s)) \<and>
      free_set kend (snd (kalloc s)) = free_set kend s - {fst (kalloc s)}"
    using free_set_eq [OF ps] free_set_eq [of kend s' qs] ps v by (auto simp: kmem_ok_def free_pages_def)
next
  fix s :: "'a kmem_scheme" assume "kmem_ok kend s" and e: "free_set kend s = {}"
  then obtain ps where ps: "free_pages kend s ps" by (auto simp: kmem_ok_def)
  then have "ps = []" using e by (simp add: free_set_eq)
  then show "kalloc s = (0, s)" by (rule kalloc_ok(1) [OF ps])
next
  fix s :: "'a kmem_scheme" and v assume "kmem_ok kend s" and v: "page_ok kend v" "v \<notin> free_set kend s"
  then obtain ps where ps: "free_pages kend s ps" by (auto simp: kmem_ok_def)
  then have "v \<notin> set ps" using v by (simp add: free_set_eq)
  then obtain s' where "kfree kend v s = Inr s'" "free_pages kend s' (v # ps)"
    using kfree_ok [OF ps v(1)] by blast
  then show "\<exists>s'. kfree kend v s = Inr s' \<and> kmem_ok kend s' \<and> free_set kend s' = insert v (free_set kend s)"
    using ps by (auto simp: free_set_eq kmem_ok_def)
qed (auto simp: free_set_def free_pages_def page_ok_def)

section \<open>Every sequence of allocations\<close>

text \<open>
  The runs of the allocator with clients that free only pages they hold, and write only into
  those; \<open>U\<close> is the set of pages free at the start, \<open>held\<close> what the clients hold.
\<close>

inductive kmem_run :: "nat \<Rightarrow> nat set \<Rightarrow> kmem \<Rightarrow> nat list \<Rightarrow> bool" for kend U where
  start: "free_pages kend s ps \<Longrightarrow> U = set ps \<Longrightarrow> kmem_run kend U s []"
| allocs: "kmem_run kend U s held \<Longrightarrow> kalloc s = (v, s') \<Longrightarrow> v \<noteq> 0 \<Longrightarrow> kmem_run kend U s' (v # held)"
| frees: "kmem_run kend U s held \<Longrightarrow> v \<in> set held \<Longrightarrow> kfree kend v s = Inr s' \<Longrightarrow>
    kmem_run kend U s' (remove1 v held)"
| uses: "kmem_run kend U s held \<Longrightarrow>
    (\<forall>a. m a = k_mem s a \<or> (\<exists>v \<in> set held. v \<le> a \<and> a < v + PGSIZE)) \<Longrightarrow>
    kmem_run kend U (s\<lparr>k_mem := m\<rparr>) held"

lemma free_pages_use:
  assumes "free_pages kend s ps" and "\<forall>v \<in> set held. page_ok kend v" and "set ps \<inter> set held = {}"
    and "\<forall>a. m a = k_mem s a \<or> (\<exists>v \<in> set held. v \<le> a \<and> a < v + PGSIZE)"
  shows "free_pages kend (s\<lparr>k_mem := m\<rparr>) ps"
proof -
  have "m (x + i) = k_mem s (x + i)" if x: "x \<in> set ps" and i: "i < 4" for x i
  proof (rule ccontr)
    assume "m (x + i) \<noteq> k_mem s (x + i)"
    then obtain v where v: "v \<in> set held" "v \<le> x + i" "x + i < v + PGSIZE" using assms(4) by blast
    have "x \<noteq> v" "page_ok kend x" using x v(1) assms(1,3) by (auto simp: free_pages_def)
    then show False
      using pages_apart [of kend v kend x i "x + i - v"] assms(2) v i by (simp add: PGSIZE_def less_diff_conv2)
  qed
  then have "chain m p ps = chain (k_mem s) p ps" for p by (rule chain_cong)
  then show ?thesis using assms(1) by (simp add: free_pages_def)
qed

lemma kmem_run_ok:
  "kmem_run kend U s held \<Longrightarrow> \<exists>ps. free_pages kend s ps \<and> distinct held \<and> set ps \<inter> set held = {} \<and>
    set ps \<union> set held = U \<and> (\<forall>v \<in> set held. page_ok kend v)"
proof (induction rule: kmem_run.induct)
  case (allocs s held v s')
  then obtain ps where ps: "free_pages kend s ps" "distinct held" "set ps \<inter> set held = {}"
    "set ps \<union> set held = U" "\<forall>v \<in> set held. page_ok kend v" by blast
  have "ps \<noteq> []" using kalloc_ok(1) [OF ps(1)] allocs.hyps(2,3) by auto
  then obtain w qs where w: "ps = w # qs" by (cases ps) auto
  then have "w = v" "free_pages kend s' qs" using kalloc_ok(2) [OF ps(1) w] allocs.hyps(2) by auto
  then show ?case using ps w by (intro exI [of _ qs]) (auto simp: free_pages_def)
next
  case (frees s held v s')
  then obtain ps where ps: "free_pages kend s ps" "distinct held" "set ps \<inter> set held = {}"
    "set ps \<union> set held = U" "\<forall>v \<in> set held. page_ok kend v" by blast
  then have "free_pages kend s' (v # ps)" using kfree_ok [OF ps(1), of v] frees.hyps(2,3) by auto
  then show ?case using ps frees.hyps(2) by (intro exI [of _ "v # ps"]) auto
next
  case (uses s held m)
  then obtain ps where "free_pages kend s ps" "distinct held" "set ps \<inter> set held = {}"
    "set ps \<union> set held = U" "\<forall>v \<in> set held. page_ok kend v" by blast
  then show ?case using free_pages_use [OF _ _ _ uses.hyps(2)] by (intro exI [of _ ps]) simp
next
  case (start s ps)
  then show ?case by (intro exI [of _ ps]) simp
qed

text \<open>
  C18: No page is handed out while it is in use. In every sequence of \<open>kalloc\<close> and \<open>kfree\<close> calls by
  clients that free only what they hold and write only into it, the pages held are distinct, none
  of them is on the free list, and held and free pages together are the pages of the start.
\<close>

theorem kalloc_exclusive:
  assumes "kmem_run kend U s held"
  shows "distinct held \<and> (\<exists>ps. free_pages kend s ps \<and> set ps \<inter> set held = {} \<and> set ps \<union> set held = U)"
  using kmem_run_ok [OF assms] by blast

text \<open>
  \<open>freerange\<close> puts exactly the whole pages between \<open>vstart\<close> and \<open>vend\<close> on the free list, the last
  one first.
\<close>

theorem freerange_pages:
  assumes "free_pages kend s []" and "kend \<le> vstart" and "KERNBASE \<le> vstart"
    and "vend \<le> KERNBASE + PHYSTOP" and "vstart \<le> vend"
  shows "\<exists>s'. freerange kend vstart vend s = Inr s' \<and>
    free_pages kend s' (rev (map (\<lambda>k. PGROUNDUP vstart + k * PGSIZE) [0..<(vend - PGROUNDUP vstart) div PGSIZE])) \<and>
    vstart \<le> PGROUNDUP vstart \<and> PGROUNDUP vstart < vstart + PGSIZE"
proof -
  have u: "uadd vstart (PGSIZE - 1) = vstart + (PGSIZE - 1)"
    using assms(3-5) by (intro uadd_small) (simp add: page_consts)
  have r: "vstart \<le> PGROUNDUP vstart" "PGROUNDUP vstart < vstart + PGSIZE"
    unfolding PGROUNDUP_def u by (simp_all add: PGSIZE_def)
  have m: "PGROUNDUP vstart mod PGSIZE = 0" by (simp add: PGROUNDUP_def)
  have b: "kend \<le> PGROUNDUP vstart" "KERNBASE \<le> PGROUNDUP vstart" using r(1) assms(2,3) by linarith+
  then have "0 < PGROUNDUP vstart" by (simp add: KERNBASE_def)
  from freerange_from_ok [OF assms(1) m b(1) this b(2) assms(4)]
  obtain s' where "freerange_from kend (PGROUNDUP vstart) vend s = Inr s'"
    "free_pages kend s' (rev (map (\<lambda>k. PGROUNDUP vstart + k * PGSIZE) [0..<(vend - PGROUNDUP vstart) div PGSIZE]))"
    by auto
  then show ?thesis unfolding freerange_def using r by blast
qed

text \<open>
  A page freed twice is handed out twice: after two \<open>kfree\<close> of the same page, two \<open>kalloc\<close> in a
  row return it. \<open>kfree\<close> does not detect the second call.
\<close>

theorem double_free:
  assumes "page_ok kend v" and "k_freelist s < 2 ^ 32"
  shows "\<exists>s1 s2. kfree kend v s = Inr s1 \<and> kfree kend v s1 = Inr s2 \<and>
    fst (kalloc s2) = v \<and> fst (kalloc (snd (kalloc s2))) = v"
  using assms by (auto simp: kfree_def kalloc_def page_ok_def Let_def)

section \<open>Examples\<close>

definition demo_kmem :: kmem where
  "demo_kmem = \<lparr>k_mem = (\<lambda>_. 0), k_use_lock = False, k_freelist = 0x80400000\<rparr>"

lemma demo_page_ok: "page_ok 0x80100000 0x80400000"
  by (simp add: page_ok_def V2P_def usub_def page_consts)

lemma demo_free_pages: "free_pages 0x80100000 demo_kmem [0x80400000]"
  using demo_page_ok by (simp add: free_pages_def demo_kmem_def get32_def)

theorem kalloc_exclusive_witness:
  "\<exists>s ps. kmem_run 0x80100000 {0x80400000} s [0x80400000] \<and> free_pages 0x80100000 s ps \<and>
    set ps \<union> {0x80400000} = {0x80400000}"
proof -
  have "kmem_run 0x80100000 {0x80400000} demo_kmem []"
    by (rule kmem_run.start [OF demo_free_pages]) simp
  then have r: "kmem_run 0x80100000 {0x80400000} (snd (kalloc demo_kmem)) [0x80400000]"
    by (rule kmem_run.allocs) (simp_all add: kalloc_def demo_kmem_def)
  from kalloc_exclusive [OF r] obtain ps where "free_pages 0x80100000 (snd (kalloc demo_kmem)) ps"
    "set ps \<union> {0x80400000} = {0x80400000}" by auto
  with r show ?thesis by blast
qed

theorem freerange_pages_witness:
  "\<exists>s'. freerange 0x80100000 0x80100001 0x80104000 (demo_kmem\<lparr>k_freelist := 0\<rparr>) = Inr s' \<and>
    free_pages 0x80100000 s' [0x80103000, 0x80102000, 0x80101000]"
proof -
  have "free_pages 0x80100000 (demo_kmem\<lparr>k_freelist := 0\<rparr>) []" by (simp add: free_pages_def)
  moreover have "PGROUNDUP 0x80100001 = 0x80101000" by (simp add: PGROUNDUP_def uadd_def PGSIZE_def)
  ultimately show ?thesis
    using freerange_pages [of "0x80100000" "demo_kmem\<lparr>k_freelist := 0\<rparr>" "0x80100001" "0x80104000"]
    by (auto simp: page_consts upt_rec)
qed

theorem double_free_witness:
  "\<exists>s1 s2. kfree 0x80100000 0x80400000 demo_kmem = Inr s1 \<and> kfree 0x80100000 0x80400000 s1 = Inr s2 \<and>
    fst (kalloc s2) = 0x80400000 \<and> fst (kalloc (snd (kalloc s2))) = 0x80400000"
  by (rule double_free [OF demo_page_ok]) (simp add: demo_kmem_def)

end
