(* ===== verification/File.thy ===== *)
theory File
  imports Namei Pipe Kalloc
begin

text \<open>
  Open files: \<open>src/file.c\<close>, and \<open>pipealloc\<close> of \<open>src/pipe.c\<close>.
  \<open>ksys\<close> is the state of the kernel as the running process sees it: the file
  systems, the page allocator, the table of open files, the pipes (each under the address of its
  page), and what the system calls use of the process: its descriptors, its size, its memory and
  its stack pointer. A call that would sleep on a pipe until another process acts is \<open>Sleeps\<close>.
\<close>

section \<open>State\<close>

definition NFILE :: nat where "NFILE = 100"
definition NOFILE :: nat where "NOFILE = 16"

datatype file_type = FD_NONE | FD_PIPE | FD_INODE

record filest =
  f_type :: file_type
  f_ref :: int
  f_readable :: bool
  f_writable :: bool
  f_pipe :: nat
  f_ip :: nat
  f_off :: nat

record ksys = fsys +
  kend :: nat
  km :: kmem
  ftable :: "nat \<Rightarrow> filest"
  pipes :: "nat \<Rightarrow> pipe"
  ofile :: "nat \<Rightarrow> nat option"
  killed :: bool
  usz :: nat
  uesp :: nat
  umem :: mem

definition set_file :: "nat \<Rightarrow> (filest \<Rightarrow> filest) \<Rightarrow> 'z ksys_scheme \<Rightarrow> 'z ksys_scheme" where
  "set_file f g s = s\<lparr>ftable := (ftable s)(f := g (ftable s f))\<rparr>"

definition set_pipe :: "nat \<Rightarrow> pipe \<Rightarrow> 'z ksys_scheme \<Rightarrow> 'z ksys_scheme" where
  "set_pipe p x s = s\<lparr>pipes := (pipes s)(p := x)\<rparr>"

lemma set_file_simps [simp]:
  "ftable (set_file f g s) = (ftable s)(f := g (ftable s f))" "ofile (set_file f g s) = ofile s"
  "pipes (set_file f g s) = pipes s" "km (set_file f g s) = km s" "kend (set_file f g s) = kend s"
  "ftable (set_pipe p x s) = ftable s" "ofile (set_pipe p x s) = ofile s"
  "pipes (set_pipe p x s) = (pipes s)(p := x)" "km (set_pipe p x s) = km s" "kend (set_pipe p x s) = kend s"
  by (simp_all add: set_file_def set_pipe_def)

section \<open>Operations\<close>

definition filealloc :: "'z ksys_scheme \<Rightarrow> nat option \<times> 'z ksys_scheme" where
  "filealloc s =
     (case find (\<lambda>f. f_ref (ftable s f) = 0) [0..<NFILE] of
        Some f \<Rightarrow> (Some f, set_file f (\<lambda>x. x\<lparr>f_ref := 1\<rparr>) s) | None \<Rightarrow> (None, s))"

definition filedup :: "nat \<Rightarrow> 'z ksys_scheme \<Rightarrow> (nat \<times> 'z ksys_scheme) res" where
  "filedup f s =
     (if f_ref (ftable s f) < 1 then Inl (Panic ''filedup'')
      else Inr (f, set_file f (\<lambda>x. x\<lparr>f_ref := f_ref x + 1\<rparr>) s))"

text \<open>\<open>pipeclose(p, writable)\<close> on the pipe at address \<open>p\<close>.\<close>

definition pipeclose_at :: "nat \<Rightarrow> bool \<Rightarrow> 'z ksys_scheme \<Rightarrow> 'z ksys_scheme res" where
  "pipeclose_at p writable s =
     (let (x, free, _) = pipeclose writable (pipes s p); s1 = set_pipe p x s in
      if free then rbind (kfree (kend s1) p (km s1)) (\<lambda>m. Inr (s1\<lparr>km := m\<rparr>)) else Inr s1)"

definition fileclose :: "nat \<Rightarrow> 'z ksys_scheme \<Rightarrow> 'z ksys_scheme res" where
  "fileclose f s =
     (if f_ref (ftable s f) < 1 then Inl (Panic ''fileclose'')
      else
        let s1 = set_file f (\<lambda>x. x\<lparr>f_ref := f_ref x - 1\<rparr>) s in
        if f_ref (ftable s1 f) > 0 then Inr s1
        else
          let ff = ftable s1 f; s2 = set_file f (\<lambda>x. x\<lparr>f_ref := 0, f_type := FD_NONE\<rparr>) s1 in
          case f_type ff of
            FD_PIPE \<Rightarrow> pipeclose_at (f_pipe ff) (f_writable ff) s2
          | FD_INODE \<Rightarrow>
              rbind (begin_op s2) (\<lambda>s3. rbind (vop_iput (f_ip ff) s3) (\<lambda>s4. end_op s4))
          | FD_NONE \<Rightarrow> Inr s2)"

definition filestat :: "nat \<Rightarrow> 'z ksys_scheme \<Rightarrow> (stat option \<times> 'z ksys_scheme) res" where
  "filestat f s =
     (if f_type (ftable s f) = FD_INODE then
        let ip = f_ip (ftable s f) in
        rbind (vop_ilock ip s) (\<lambda>s1.
        rbind (vop_stati ip s1) (\<lambda>st.
        rbind (vop_iunlock ip s1) (\<lambda>s2. Inr (Some st, s2))))
      else Inr (None, s))"

text \<open>The result of a read: the return value and the bytes stored at \<open>addr\<close>.\<close>

definition fileread :: "'z ksys_scheme devsw \<Rightarrow> nat \<Rightarrow> int \<Rightarrow> 'z ksys_scheme \<Rightarrow>
    ((int \<times> byte list) \<times> 'z ksys_scheme) res" where
  "fileread devsw f n s =
     (let x = ftable s f in
      if \<not> f_readable x then Inr ((-1, []), s)
      else case f_type x of
        FD_PIPE \<Rightarrow>
          (case piperead (killed s) n (pipes s (f_pipe x)) of
             (Returns r, bs, p, _) \<Rightarrow> Inr ((r, bs), set_pipe (f_pipe x) p s)
           | (Waits _, _, _, _) \<Rightarrow> Inl (Sleeps ''piperead''))
      | FD_INODE \<Rightarrow>
          rbind (vop_ilock (f_ip x) s) (\<lambda>s1.
          rbind (vop_readi devsw (f_ip x) (f_off (ftable s1 f)) (pat32 n) s1) (\<lambda>((r, bs), s2).
            let s3 = (if r > 0 then set_file f (\<lambda>y. y\<lparr>f_off := uadd (f_off y) (nat r)\<rparr>) s2 else s2) in
            rbind (vop_iunlock (f_ip x) s3) (\<lambda>s4. Inr ((r, bs), s4))))
      | FD_NONE \<Rightarrow> Inl (Panic ''fileread''))"

definition max_write :: int where "max_write = int ((MAXOPBLOCKS - 1 - 1 - 2) div 2 * 512)"

text \<open>The loop of \<open>filewrite\<close> over pieces that fit into one transaction; the result is the final \<open>i\<close>.\<close>

function filewrite_loop :: "'z ksys_scheme devsw \<Rightarrow> nat \<Rightarrow> (nat \<Rightarrow> byte) \<Rightarrow> int \<Rightarrow> int \<Rightarrow> 'z ksys_scheme \<Rightarrow>
    (int \<times> 'z ksys_scheme) res" where
  "filewrite_loop devsw f addr n i s =
     (if i < n then
        let n1 = (if n - i > max_write then max_write else n - i); ip = f_ip (ftable s f) in
        rbind (begin_op s) (\<lambda>s1.
        rbind (vop_ilock ip s1) (\<lambda>s2.
        rbind (vop_writei devsw ip (\<lambda>k. addr (nat i + k)) (f_off (ftable s2 f)) (nat n1) s2) (\<lambda>(r, s3).
          let s4 = (if r > 0 then set_file f (\<lambda>y. y\<lparr>f_off := uadd (f_off y) (nat r)\<rparr>) s3 else s3) in
          rbind (vop_iunlock ip s4) (\<lambda>s5.
          rbind (end_op s5) (\<lambda>s6.
            if r < 0 then Inr (i, s6)
            else if r \<noteq> n1 then Inl (Panic ''short filewrite'')
            else filewrite_loop devsw f addr n (i + n1) s6)))))
      else Inr (i, s))"
  by pat_completeness auto
termination
  by (relation "measure (\<lambda>(devsw, f, addr, n, i, s). nat (n - i))")
    (auto simp: max_write_def MAXOPBLOCKS_def)

declare filewrite_loop.simps [simp del]

definition filewrite :: "'z ksys_scheme devsw \<Rightarrow> nat \<Rightarrow> (nat \<Rightarrow> byte) \<Rightarrow> int \<Rightarrow> 'z ksys_scheme \<Rightarrow>
    (int \<times> 'z ksys_scheme) res" where
  "filewrite devsw f addr n s =
     (let x = ftable s f in
      if \<not> f_writable x then Inr (-1, s)
      else case f_type x of
        FD_PIPE \<Rightarrow>
          (case pipewrite (killed s) addr n (pipes s (f_pipe x)) of
             (Returns r, _, p, _) \<Rightarrow> Inr (r, set_pipe (f_pipe x) p s)
           | (Waits _, _, _, _) \<Rightarrow> Inl (Sleeps ''pipewrite''))
      | FD_INODE \<Rightarrow>
          rbind (filewrite_loop devsw f addr n 0 s) (\<lambda>(i, s1). Inr (if i = n then n else -1, s1))
      | FD_NONE \<Rightarrow> Inl (Panic ''filewrite''))"

text \<open>
  \<open>pipealloc\<close>; the bytes of the new pipe are those the page holds behind the lock. The result is the
  pair of files, \<open>None\<close> for \<open>-1\<close>.
\<close>

definition pipealloc :: "'z ksys_scheme \<Rightarrow> ((nat \<times> nat) option \<times> 'z ksys_scheme) res" where
  "pipealloc s =
     (let (f0, s1) = filealloc s;
          (f1, s2) = (if f0 = None then (None, s1) else filealloc s1);
          (p, m) = (if f0 = None \<or> f1 = None then (0, km s2) else kalloc (km s2));
          s3 = s2\<lparr>km := m\<rparr>
      in if p \<noteq> 0 then
           let s4 = set_pipe p (pipe_init (\<lambda>i. k_mem m (p + 52 + i))) s3;
               s5 = set_file (the f0) (\<lambda>x. x\<lparr>f_type := FD_PIPE, f_readable := True, f_writable := False, f_pipe := p\<rparr>) s4;
               s6 = set_file (the f1) (\<lambda>x. x\<lparr>f_type := FD_PIPE, f_readable := False, f_writable := True, f_pipe := p\<rparr>) s5
           in Inr (Some (the f0, the f1), s6)
         else
           rbind (case f0 of None \<Rightarrow> Inr s3 | Some f \<Rightarrow> fileclose f s3) (\<lambda>s4.
           rbind (case f1 of None \<Rightarrow> Inr s4 | Some f \<Rightarrow> fileclose f s4) (\<lambda>s5. Inr (None, s5))))"

section \<open>The state at boot\<close>

text \<open>A process with no open file, whose memory \<open>m\<close> has \<open>n\<close> bytes and whose stack pointer is \<open>sp\<close>.\<close>

definition boot_file :: filest where
  "boot_file = \<lparr>f_type = FD_NONE, f_ref = 0, f_readable = False, f_writable = False, f_pipe = 0, f_ip = 0, f_off = 0\<rparr>"

definition boot_kmem :: kmem where
  "boot_kmem = \<lparr>k_mem = (\<lambda>_. 0), k_use_lock = False, k_freelist = 0\<rparr>"

definition boot_ksys :: "nat \<Rightarrow> nat \<Rightarrow> mem \<Rightarrow> kmem \<Rightarrow> ksys" where
  "boot_ksys n sp m k = fsys.extend (boot_fsys (\<lambda>_ _. zero_block))
     (ksys.fields 0x80110000 k (\<lambda>_. boot_file) (\<lambda>_. pipe_init (\<lambda>_. 0)) (\<lambda>_. None) False n sp m)"

lemma boot_ksys_fields [simp]:
  "kend (boot_ksys n sp m k) = 0x80110000" "km (boot_ksys n sp m k) = k"
  "ftable (boot_ksys n sp m k) f = boot_file" "ofile (boot_ksys n sp m k) fd = None"
  "usz (boot_ksys n sp m k) = n" "uesp (boot_ksys n sp m k) = sp" "umem (boot_ksys n sp m k) = m"
  "killed (boot_ksys n sp m k) = False"
  by (simp_all add: boot_ksys_def fsys.extend_def ksys.fields_def)

end
