(* ===== verification/Syscall.thy ===== *)
theory Syscall
  imports File
begin

text \<open>
  The arguments of system calls: \<open>src/syscall.c\<close>. The memory of the process is \<open>umem\<close>, of which the
  addresses below \<open>usz\<close> belong to it; \<open>uesp\<close> is its saved stack pointer. The user's values are
  untrusted: the theorems show that whatever they are, a fetch that succeeds stays below \<open>usz\<close>.
\<close>

section \<open>Operations\<close>

definition fetchint :: "nat \<Rightarrow> 'z ksys_scheme \<Rightarrow> int option" where
  "fetchint addr s =
     (if addr \<ge> usz s \<or> uadd addr 4 > usz s then None else Some (sint32 (get32 (umem s) addr)))"

text \<open>The loop of \<open>fetchstr\<close> from \<open>p\<close>: the address of the terminating zero.\<close>

function fetchstr_from :: "nat \<Rightarrow> nat \<Rightarrow> mem \<Rightarrow> nat option" where
  "fetchstr_from p ep m = (if p < ep then if m p = 0 then Some p else fetchstr_from (p + 1) ep m else None)"
  by pat_completeness auto
termination by (relation "measure (\<lambda>(p, ep, m). ep - p)") auto

declare fetchstr_from.simps [simp del]

text \<open>The result is \<open>*pp\<close> and the returned length; \<open>None\<close> stands for \<open>-1\<close>.\<close>

definition fetchstr :: "nat \<Rightarrow> 'z ksys_scheme \<Rightarrow> (nat \<times> nat) option" where
  "fetchstr addr s =
     (if addr \<ge> usz s then None
      else case fetchstr_from addr (usz s) (umem s) of None \<Rightarrow> None | Some e \<Rightarrow> Some (addr, e - addr))"

definition argint :: "nat \<Rightarrow> 'z ksys_scheme \<Rightarrow> int option" where
  "argint n s = fetchint (uadd (uadd (uesp s) 4) (4 * n)) s"

definition argptr :: "nat \<Rightarrow> int \<Rightarrow> 'z ksys_scheme \<Rightarrow> nat option" where
  "argptr n sz s =
     (case argint n s of
        None \<Rightarrow> None
      | Some i \<Rightarrow>
          if sz < 0 \<or> pat32 i \<ge> usz s \<or> uadd (pat32 i) (pat32 sz) > usz s then None else Some (pat32 i))"

definition argstr :: "nat \<Rightarrow> 'z ksys_scheme \<Rightarrow> (nat \<times> nat) option" where
  "argstr n s = (case argint n s of None \<Rightarrow> None | Some addr \<Rightarrow> fetchstr (pat32 addr) s)"

text \<open>The string that a successful \<open>argstr\<close> leaves in \<open>*pp\<close>.\<close>

definition arg_path :: "nat \<Rightarrow> 'z ksys_scheme \<Rightarrow> byte list option" where
  "arg_path n s =
     (case argstr n s of None \<Rightarrow> None | Some (p, len) \<Rightarrow> Some (map (\<lambda>i. umem s (p + i)) [0..<len]))"

section \<open>Bounds\<close>

lemma fetchstr_from_Some:
  "fetchstr_from p ep m = Some e \<longleftrightarrow> p \<le> e \<and> e < ep \<and> m e = 0 \<and> (\<forall>a. p \<le> a \<and> a < e \<longrightarrow> m a \<noteq> 0)"
proof (induction p ep m rule: fetchstr_from.induct)
  case (1 p ep m)
  show ?case
  proof (cases "p < ep \<and> m p \<noteq> 0")
    case True
    then have *: "fetchstr_from p ep m = fetchstr_from (p + 1) ep m" by (subst fetchstr_from.simps) simp
    have "p \<noteq> e" if "m e = 0" using that True by auto
    then show ?thesis unfolding * 1 [OF conjunct1 [OF True] conjunct2 [OF True]]
      using True by (auto simp: Suc_le_eq) (metis le_neq_implies_less)
  next
    case False
    then consider "ep \<le> p" | "p < ep" "m p = 0" by fastforce
    then show ?thesis
    proof cases
      case 2
      then show ?thesis by (subst fetchstr_from.simps) (force simp: le_less)
    qed (subst fetchstr_from.simps, auto)
  qed
qed

lemma fetchstr_Some:
  "fetchstr addr s = Some (p, len) \<longleftrightarrow>
     p = addr \<and> p + len < usz s \<and> umem s (p + len) = 0 \<and> (\<forall>a < len. umem s (p + a) \<noteq> 0)"
proof -
  have "(\<forall>a. addr \<le> a \<and> a < addr + len \<longrightarrow> umem s a \<noteq> 0) \<longleftrightarrow> (\<forall>a < len. umem s (addr + a) \<noteq> 0)"
    by (auto simp: le_iff_add)
  moreover have "fetchstr addr s = Some (p, len) \<longleftrightarrow>
      p = addr \<and> fetchstr_from addr (usz s) (umem s) = Some (addr + len)"
  proof (cases "fetchstr_from addr (usz s) (umem s)")
    case (Some e)
    then have "addr \<le> e" "e < usz s" by (simp_all add: fetchstr_from_Some)
    with Some show ?thesis by (auto simp: fetchstr_def)
  qed (auto simp: fetchstr_def)
  ultimately show ?thesis by (auto simp: fetchstr_from_Some)
qed

lemma pat32_nonneg: "0 \<le> x \<Longrightarrow> x < 2 ^ 32 \<Longrightarrow> pat32 x = nat x"
  by (simp add: pat32_def)

text \<open>
  C33: System calls cannot be made to read or write outside the calling process. If the process
  ends below the kernel's half of the address space, a buffer that \<open>argptr\<close> accepts lies wholly
  inside the process, although its check \<open>(uint)i+size > sz\<close> is computed modulo \<open>2\<^sup>3\<^sup>2\<close>; an \<open>int\<close> that
  \<open>argint\<close> fetches lies inside it; and \<open>argstr\<close> accepts exactly the pointers to a
  string that ends inside it, and returns its length.
\<close>

theorem arguments_in_process:
  assumes "usz s \<le> KERNBASE" and "0 \<le> n" and "n < 2 ^ 31"
  shows "(argptr k n s = Some p \<longrightarrow> p < usz s \<and> p + nat n \<le> usz s) \<and>
    (argint k s = Some i \<longrightarrow> uadd (uadd (uesp s) 4) (4 * k) + 4 \<le> usz s) \<and>
    (argstr k s = Some (p, len) \<longleftrightarrow>
      (\<exists>j. argint k s = Some j \<and> p = pat32 j \<and> p + len < usz s \<and> umem s (p + len) = 0 \<and>
         (\<forall>a < len. umem s (p + a) \<noteq> 0)))"
proof (intro conjI impI)
  have small: "uadd a b = a + b" if "a < usz s" "b \<le> 2 ^ 31" for a b
    using that assms(1) by (simp add: uadd_small KERNBASE_def)
  show "p < usz s" "p + nat n \<le> usz s" if "argptr k n s = Some p"
    using that assms small [of p "nat n"]
    by (auto simp: argptr_def pat32_nonneg split: option.splits if_splits)
  show "uadd (uadd (uesp s) 4) (4 * k) + 4 \<le> usz s" if "argint k s = Some i"
    using that small [of "uadd (uadd (uesp s) 4) (4 * k)" 4]
    by (auto simp: argint_def fetchint_def split: if_splits)
  show "argstr k s = Some (p, len) \<longleftrightarrow>
      (\<exists>j. argint k s = Some j \<and> p = pat32 j \<and> p + len < usz s \<and> umem s (p + len) = 0 \<and>
         (\<forall>a < len. umem s (p + a) \<noteq> 0))"
    by (auto simp: argstr_def fetchstr_Some split: option.splits)
qed

text \<open>A process of 8192 bytes whose stack holds the arguments 4096 and 100, and zero elsewhere.\<close>

definition demo_stack :: mem where
  "demo_stack = put32 (put32 (\<lambda>_. 0) 8004 4096) 8008 100"

lemma demo_stack_args: "get32 demo_stack 8004 = 4096" "get32 demo_stack 8008 = 100" "demo_stack 4096 = 0"
  by (simp_all add: demo_stack_def le_simps put32_out)

lemma arguments_in_process_witness:
  "argptr 0 100 (boot_ksys 8192 8000 demo_stack boot_kmem) = Some 4096 \<and> 4096 + nat 100 \<le> (8192 :: nat) \<and>
   argstr 0 (boot_ksys 8192 8000 demo_stack boot_kmem) = Some (4096, 0)"
proof -
  let ?s = "boot_ksys 8192 8000 demo_stack boot_kmem"
  have u: "uadd (uadd 8000 4) 0 = 8004" "uadd 8004 4 = 8008" "uadd 4096 100 = 4196" by (simp_all add: uadd_def)
  have i: "argint 0 ?s = Some 4096"
    by (simp add: argint_def fetchint_def u demo_stack_args) (simp add: sint32_def)
  then have "argptr 0 100 ?s = Some 4096" by (simp add: argptr_def pat32_def u)
  then show ?thesis
    using arguments_in_process [of ?s 100 0 4096 4096 0] i
    by (simp add: KERNBASE_def pat32_def demo_stack_args)
qed

end
