(* ===== verification/Sysfile.thy ===== *)
theory Sysfile
  imports Syscall
begin

text \<open>
  The file system calls: \<open>src/sysfile.c\<close>. Each takes its arguments from the stack of the process
  and returns the value left in \<open>%eax\<close> with the new state. The buffers \<open>name[DIRSIZ]\<close> and the
  directory entries on the kernel stack are not initialised by the code: \<open>stk 0\<close> is what \<open>name\<close>
  holds on entry, and \<open>stk 1\<close>, \<open>stk 2\<close>, \<open>stk 3\<close> what lies on the stack at the calls of \<open>dirlink\<close>.
  \<open>devsw\<close> is the table of device functions.
\<close>

section \<open>Descriptors\<close>

definition O_RDONLY :: int where "O_RDONLY = 0x000"
definition O_WRONLY :: int where "O_WRONLY = 0x001"
definition O_RDWR :: int where "O_RDWR = 0x002"
definition O_CREATE :: int where "O_CREATE = 0x200"

definition argfd :: "nat \<Rightarrow> 'z ksys_scheme \<Rightarrow> (nat \<times> nat) option" where
  "argfd n s =
     (case argint n s of
        None \<Rightarrow> None
      | Some fd \<Rightarrow>
          if fd < 0 \<or> fd \<ge> int NOFILE then None
          else case ofile s (nat fd) of None \<Rightarrow> None | Some f \<Rightarrow> Some (nat fd, f))"

definition fdalloc :: "nat \<Rightarrow> 'z ksys_scheme \<Rightarrow> nat option \<times> 'z ksys_scheme" where
  "fdalloc f s =
     (case find (\<lambda>fd. ofile s fd = None) [0..<NOFILE] of
        Some fd \<Rightarrow> (Some fd, s\<lparr>ofile := (ofile s)(fd \<mapsto> f)\<rparr>) | None \<Rightarrow> (None, s))"

definition sys_dup :: "'z ksys_scheme \<Rightarrow> (int \<times> 'z ksys_scheme) res" where
  "sys_dup s =
     (case argfd 0 s of
        None \<Rightarrow> Inr (-1, s)
      | Some (_, f) \<Rightarrow>
          (case fdalloc f s of
             (None, s1) \<Rightarrow> Inr (-1, s1)
           | (Some fd, s1) \<Rightarrow> rbind (filedup f s1) (\<lambda>(_, s2). Inr (int fd, s2))))"

text \<open>The bytes that \<open>fileread\<close> delivers are stored in the buffer of the process.\<close>

definition sys_read :: "'z ksys_scheme devsw \<Rightarrow> 'z ksys_scheme \<Rightarrow> (int \<times> 'z ksys_scheme) res" where
  "sys_read devsw s =
     (case (argfd 0 s, argint 2 s) of
        (Some (_, f), Some n) \<Rightarrow>
          (case argptr 1 n s of
             None \<Rightarrow> Inr (-1, s)
           | Some p \<Rightarrow> rbind (fileread devsw f n s) (\<lambda>((r, bs), s1).
               Inr (r, s1\<lparr>umem := put_bytes (umem s1) p (\<lambda>i. bs ! i) (length bs)\<rparr>)))
      | _ \<Rightarrow> Inr (-1, s))"

definition sys_write :: "'z ksys_scheme devsw \<Rightarrow> 'z ksys_scheme \<Rightarrow> (int \<times> 'z ksys_scheme) res" where
  "sys_write devsw s =
     (case (argfd 0 s, argint 2 s) of
        (Some (_, f), Some n) \<Rightarrow>
          (case argptr 1 n s of
             None \<Rightarrow> Inr (-1, s)
           | Some p \<Rightarrow> filewrite devsw f (\<lambda>i. umem s (p + i)) n s)
      | _ \<Rightarrow> Inr (-1, s))"

definition sys_close :: "'z ksys_scheme \<Rightarrow> (int \<times> 'z ksys_scheme) res" where
  "sys_close s =
     (case argfd 0 s of
        None \<Rightarrow> Inr (-1, s)
      | Some (fd, f) \<Rightarrow> rbind (fileclose f (s\<lparr>ofile := (ofile s)(fd := None)\<rparr>)) (\<lambda>s1. Inr (0, s1)))"

definition put_stat :: "mem \<Rightarrow> nat \<Rightarrow> stat \<Rightarrow> mem" where
  "put_stat m p st =
     put32 (put16 (put32 (put32 (put16 m p (pat16 (st_type st))) (p + 4) (st_dev st)) (p + 8) (st_ino st))
       (p + 12) (pat16 (st_nlink st))) (p + 16) (st_size st)"

definition sys_fstat :: "'z ksys_scheme \<Rightarrow> (int \<times> 'z ksys_scheme) res" where
  "sys_fstat s =
     (case (argfd 0 s, argptr 1 20 s) of
        (Some (_, f), Some p) \<Rightarrow>
          rbind (filestat f s) (\<lambda>(r, s1).
            case r of None \<Rightarrow> Inr (-1, s1) | Some st \<Rightarrow> Inr (0, s1\<lparr>umem := put_stat (umem s1) p st\<rparr>))
      | _ \<Rightarrow> Inr (-1, s))"

section \<open>Names\<close>

definition add_nlink :: "int \<Rightarrow> inode \<Rightarrow> inode" where
  "add_nlink d x = x\<lparr>i_nlink := sint16 (pat16 (i_nlink x + d))\<rparr>"

text \<open>The label \<open>bad\<close> of \<open>sys_link\<close>.\<close>

definition link_bad :: "nat \<Rightarrow> 'z ksys_scheme \<Rightarrow> (int \<times> 'z ksys_scheme) res" where
  "link_bad ip s =
     rbind (vop_ilock ip s) (\<lambda>s1.
     rbind (vop_iupdate ip (set_inode ip (add_nlink (-1)) s1)) (\<lambda>s2.
     rbind (vop_iunlockput ip s2) (\<lambda>s3.
     rbind (end_op s3) (\<lambda>s4. Inr (-1, s4)))))"

definition sys_link :: "'z ksys_scheme devsw \<Rightarrow> (nat \<Rightarrow> nat \<Rightarrow> byte) \<Rightarrow> 'z ksys_scheme \<Rightarrow> (int \<times> 'z ksys_scheme) res" where
  "sys_link devsw stk s =
     (case (arg_path 0 s, arg_path 1 s) of
        (Some old, Some new) \<Rightarrow>
          rbind (begin_op s) (\<lambda>s1.
          rbind (namei devsw old s1) (\<lambda>(r, s2).
            case r of
              None \<Rightarrow> rbind (end_op s2) (\<lambda>s3. Inr (-1, s3))
            | Some ip \<Rightarrow>
                rbind (vop_ilock ip s2) (\<lambda>s3.
                if i_type (icache s3 ip) = T_DIR then
                  rbind (vop_iunlockput ip s3) (\<lambda>s4. rbind (end_op s4) (\<lambda>s5. Inr (-1, s5)))
                else
                  rbind (vop_iupdate ip (set_inode ip (add_nlink 1) s3)) (\<lambda>s4.
                  rbind (vop_iunlock ip s4) (\<lambda>s5.
                  rbind (nameiparent devsw DIRSIZ new (stk 0) s5) (\<lambda>((d, name), s6).
                    case d of
                      None \<Rightarrow> link_bad ip s6
                    | Some dp \<Rightarrow>
                        rbind (vop_ilock dp s6) (\<lambda>s7.
                        rbind (if i_dev (icache s7 dp) \<noteq> i_dev (icache s7 ip) then Inr (-1, s7)
                               else vop_dirlink devsw (stk 1) dp name (i_inum (icache s7 ip)) s7) (\<lambda>(l, s8).
                        rbind (vop_iunlockput dp s8) (\<lambda>s9.
                          if l < 0 then link_bad ip s9
                          else
                            rbind (vop_iput ip s9) (\<lambda>s10.
                            rbind (end_op s10) (\<lambda>s11. Inr (0, s11))))))))))))
      | _ \<Rightarrow> Inr (-1, s))"

text \<open>The loop of \<open>isdirempty\<close> from \<open>off\<close>, an \<open>int\<close> whose overflow is undefined.\<close>

function isdirempty_from :: "'z ksys_scheme devsw \<Rightarrow> nat \<Rightarrow> nat \<Rightarrow> 'z ksys_scheme \<Rightarrow> (bool \<times> 'z ksys_scheme) res" where
  "isdirempty_from devsw dp off s =
     (if off \<ge> 2 ^ 31 then Inl (Undef ''off'')
      else if off < i_size (icache s dp) then
        rbind (vop_readi devsw dp off 16 s) (\<lambda>((r, bs), s1).
          if r \<noteq> 16 then Inl (Panic ''isdirempty: readi'')
          else if get16 (bytes_at bs) 0 \<noteq> 0 then Inr (False, s1)
          else isdirempty_from devsw dp (off + 16) s1)
      else Inr (True, s))"
  by pat_completeness auto
termination by (relation "measure (\<lambda>(devsw, dp, off, s). 2 ^ 31 - off)") auto

declare isdirempty_from.simps [simp del]

definition isdirempty :: "'z ksys_scheme devsw \<Rightarrow> nat \<Rightarrow> 'z ksys_scheme \<Rightarrow> (bool \<times> 'z ksys_scheme) res" where
  "isdirempty devsw dp s = isdirempty_from devsw dp (2 * 16) s"

definition dot :: "byte list" where "dot = [0x2E]"

definition dotdot :: "byte list" where "dotdot = [0x2E, 0x2E]"

text \<open>The label \<open>bad\<close> of \<open>sys_unlink\<close>.\<close>

definition unlink_bad :: "nat \<Rightarrow> 'z ksys_scheme \<Rightarrow> (int \<times> 'z ksys_scheme) res" where
  "unlink_bad dp s = rbind (vop_iunlockput dp s) (\<lambda>s1. rbind (end_op s1) (\<lambda>s2. Inr (-1, s2)))"

definition sys_unlink :: "'z ksys_scheme devsw \<Rightarrow> (nat \<Rightarrow> nat \<Rightarrow> byte) \<Rightarrow> 'z ksys_scheme \<Rightarrow> (int \<times> 'z ksys_scheme) res" where
  "sys_unlink devsw stk s =
     (case arg_path 0 s of
        None \<Rightarrow> Inr (-1, s)
      | Some path \<Rightarrow>
          rbind (begin_op s) (\<lambda>s1.
          rbind (nameiparent devsw DIRSIZ path (stk 0) s1) (\<lambda>((d, name), s2).
            case d of
              None \<Rightarrow> rbind (end_op s2) (\<lambda>s3. Inr (-1, s3))
            | Some dp \<Rightarrow>
                rbind (vop_ilock dp s2) (\<lambda>s3.
                if namecmp name (bytes_at dot) = 0 \<or> namecmp name (bytes_at dotdot) = 0 then unlink_bad dp s3
                else
                  rbind (vop_dirlookup devsw dp name s3) (\<lambda>(r, s4).
                    case r of
                      None \<Rightarrow> unlink_bad dp s4
                    | Some (ip, off) \<Rightarrow>
                        rbind (vop_ilock ip s4) (\<lambda>s5.
                        if i_nlink (icache s5 ip) < 1 then Inl (Panic ''unlink: nlink < 1'')
                        else
                          rbind (if i_type (icache s5 ip) = T_DIR then isdirempty devsw ip s5 else Inr (True, s5)) (\<lambda>(e, s6).
                          if \<not> e then rbind (vop_iunlockput ip s6) (\<lambda>s7. unlink_bad dp s7)
                          else
                            rbind (vop_writei devsw dp (\<lambda>_. 0) off 16 s6) (\<lambda>(w, s7).
                            if w \<noteq> 16 then Inl (Panic ''unlink: writei'')
                            else
                              rbind (if i_type (icache s7 ip) = T_DIR
                                     then vop_iupdate dp (set_inode dp (add_nlink (-1)) s7) else Inr s7) (\<lambda>s8.
                              rbind (vop_iunlockput dp s8) (\<lambda>s9.
                              rbind (vop_iupdate ip (set_inode ip (add_nlink (-1)) s9)) (\<lambda>s10.
                              rbind (vop_iunlockput ip s10) (\<lambda>s11.
                              rbind (end_op s11) (\<lambda>s12. Inr (0, s12))))))))))))))"

text \<open>The result of \<open>create\<close> is the locked inode.\<close>

definition create :: "'z ksys_scheme devsw \<Rightarrow> (nat \<Rightarrow> nat \<Rightarrow> byte) \<Rightarrow> byte list \<Rightarrow> int \<Rightarrow> int \<Rightarrow> int \<Rightarrow> 'z ksys_scheme \<Rightarrow>
    (nat option \<times> 'z ksys_scheme) res" where
  "create devsw stk path type major minor s =
     rbind (nameiparent devsw DIRSIZ path (stk 0) s) (\<lambda>((d, name), s1).
       case d of
         None \<Rightarrow> Inr (None, s1)
       | Some dp \<Rightarrow>
           rbind (vop_ilock dp s1) (\<lambda>s2.
           rbind (vop_dirlookup devsw dp name s2) (\<lambda>(r, s3).
             case r of
               Some (ip, _) \<Rightarrow>
                 rbind (vop_iunlockput dp s3) (\<lambda>s4.
                 rbind (vop_ilock ip s4) (\<lambda>s5.
                   if type = T_FILE \<and> i_type (icache s5 ip) = T_FILE then Inr (Some ip, s5)
                   else rbind (vop_iunlockput ip s5) (\<lambda>s6. Inr (None, s6))))
             | None \<Rightarrow>
                 rbind (vop_ialloc dp (i_dev (icache s3 dp)) type s3) (\<lambda>(ip, s4).
                 rbind (vop_ilock ip s4) (\<lambda>s5.
                 rbind (vop_iupdate ip (set_inode ip (\<lambda>x. x\<lparr>i_major := sint16 (pat16 major), i_minor := sint16 (pat16 minor),
                          i_nlink := 1\<rparr>) s5)) (\<lambda>s6.
                 rbind (if type = T_DIR then
                          rbind (vop_iupdate dp (set_inode dp (add_nlink 1) s6)) (\<lambda>s7.
                          rbind (vop_dirlink devsw (stk 1) ip (bytes_at dot) (i_inum (icache s7 ip)) s7) (\<lambda>(l, s8).
                          if l < 0 then Inl (Panic ''create dots'')
                          else rbind (vop_dirlink devsw (stk 2) ip (bytes_at dotdot) (i_inum (icache s8 dp)) s8) (\<lambda>(l, s9).
                          if l < 0 then Inl (Panic ''create dots'') else Inr s9)))
                        else Inr s6) (\<lambda>s10.
                 rbind (vop_dirlink devsw (stk 3) dp name (i_inum (icache s10 ip)) s10) (\<lambda>(l, s11).
                 if l < 0 then Inl (Panic ''create: dirlink'')
                 else rbind (vop_iunlockput dp s11) (\<lambda>s12. Inr (Some ip, s12))))))))))"

text \<open>\<open>sys_open\<close> up to the locked inode, and from there to the descriptor.\<close>

definition open_inode :: "'z ksys_scheme devsw \<Rightarrow> (nat \<Rightarrow> nat \<Rightarrow> byte) \<Rightarrow> byte list \<Rightarrow> int \<Rightarrow> 'z ksys_scheme \<Rightarrow>
    (nat option \<times> 'z ksys_scheme) res" where
  "open_inode devsw stk path omode s =
     (if omode AND O_CREATE \<noteq> 0 then create devsw stk path T_FILE 0 0 s
      else
        rbind (namei devsw path s) (\<lambda>(r, s1).
          case r of
            None \<Rightarrow> Inr (None, s1)
          | Some ip \<Rightarrow>
              rbind (vop_ilock ip s1) (\<lambda>s2.
                if i_type (icache s2 ip) = T_DIR \<and> omode \<noteq> O_RDONLY
                then rbind (vop_iunlockput ip s2) (\<lambda>s3. Inr (None, s3))
                else Inr (Some ip, s2))))"

definition open_fd :: "nat \<Rightarrow> int \<Rightarrow> 'z ksys_scheme \<Rightarrow> (int \<times> 'z ksys_scheme) res" where
  "open_fd ip omode s =
     (let (f, s1) = filealloc s;
          (fd, s2) = (case f of None \<Rightarrow> (None, s1) | Some f \<Rightarrow> fdalloc f s1)
      in case fd of
           None \<Rightarrow>
             rbind (case f of None \<Rightarrow> Inr s2 | Some f \<Rightarrow> fileclose f s2) (\<lambda>s3.
             rbind (vop_iunlockput ip s3) (\<lambda>s4.
             rbind (end_op s4) (\<lambda>s5. Inr (-1, s5))))
         | Some fd \<Rightarrow>
             rbind (vop_iunlock ip s2) (\<lambda>s3.
             rbind (end_op s3) (\<lambda>s4.
               Inr (int fd, set_file (the f) (\<lambda>x. x\<lparr>f_type := FD_INODE, f_ip := ip, f_off := 0,
                 f_readable := omode AND O_WRONLY = 0,
                 f_writable := omode AND O_WRONLY \<noteq> 0 \<or> omode AND O_RDWR \<noteq> 0\<rparr>) s4))))"

definition sys_open :: "'z ksys_scheme devsw \<Rightarrow> (nat \<Rightarrow> nat \<Rightarrow> byte) \<Rightarrow> 'z ksys_scheme \<Rightarrow> (int \<times> 'z ksys_scheme) res" where
  "sys_open devsw stk s =
     (case (arg_path 0 s, argint 1 s) of
        (Some path, Some omode) \<Rightarrow>
          rbind (begin_op s) (\<lambda>s1.
          rbind (open_inode devsw stk path omode s1) (\<lambda>(r, s2).
            case r of
              None \<Rightarrow> rbind (end_op s2) (\<lambda>s3. Inr (-1, s3))
            | Some ip \<Rightarrow> open_fd ip omode s2))
      | _ \<Rightarrow> Inr (-1, s))"

definition sys_mkdir :: "'z ksys_scheme devsw \<Rightarrow> (nat \<Rightarrow> nat \<Rightarrow> byte) \<Rightarrow> 'z ksys_scheme \<Rightarrow> (int \<times> 'z ksys_scheme) res" where
  "sys_mkdir devsw stk s =
     rbind (begin_op s) (\<lambda>s1.
     rbind (case arg_path 0 s1 of None \<Rightarrow> Inr (None, s1) | Some path \<Rightarrow> create devsw stk path T_DIR 0 0 s1) (\<lambda>(r, s2).
       case r of
         None \<Rightarrow> rbind (end_op s2) (\<lambda>s3. Inr (-1, s3))
       | Some ip \<Rightarrow> rbind (vop_iunlockput ip s2) (\<lambda>s3. rbind (end_op s3) (\<lambda>s4. Inr (0, s4)))))"

definition sys_mknod :: "'z ksys_scheme devsw \<Rightarrow> (nat \<Rightarrow> nat \<Rightarrow> byte) \<Rightarrow> 'z ksys_scheme \<Rightarrow> (int \<times> 'z ksys_scheme) res" where
  "sys_mknod devsw stk s =
     rbind (begin_op s) (\<lambda>s1.
     rbind (case (arg_path 0 s1, argint 1 s1, argint 2 s1) of
              (Some path, Some major, Some minor) \<Rightarrow> create devsw stk path T_DEV major minor s1
            | _ \<Rightarrow> Inr (None, s1)) (\<lambda>(r, s2).
       case r of
         None \<Rightarrow> rbind (end_op s2) (\<lambda>s3. Inr (-1, s3))
       | Some ip \<Rightarrow> rbind (vop_iunlockput ip s2) (\<lambda>s3. rbind (end_op s3) (\<lambda>s4. Inr (0, s4)))))"

definition sys_chdir :: "'z ksys_scheme devsw \<Rightarrow> 'z ksys_scheme \<Rightarrow> (int \<times> 'z ksys_scheme) res" where
  "sys_chdir devsw s =
     rbind (begin_op s) (\<lambda>s1.
     rbind (case arg_path 0 s1 of None \<Rightarrow> Inr (None, s1) | Some path \<Rightarrow> namei devsw path s1) (\<lambda>(r, s2).
       case r of
         None \<Rightarrow> rbind (end_op s2) (\<lambda>s3. Inr (-1, s3))
       | Some ip \<Rightarrow>
           rbind (vop_ilock ip s2) (\<lambda>s3.
           if i_type (icache s3 ip) \<noteq> T_DIR then
             rbind (vop_iunlockput ip s3) (\<lambda>s4. rbind (end_op s4) (\<lambda>s5. Inr (-1, s5)))
           else
             rbind (vop_iunlock ip s3) (\<lambda>s4.
             rbind (vop_iput (cwd s4) s4) (\<lambda>s5.
             rbind (end_op s5) (\<lambda>s6. Inr (0, s6\<lparr>cwd := ip\<rparr>)))))))"

definition MAXARG :: nat where "MAXARG = 32"

text \<open>
  The loop of \<open>sys_exec\<close> from entry \<open>i\<close> of \<open>uargv\<close>: the pointers collected in \<open>argv\<close>, \<open>None\<close> for
  the return of \<open>-1\<close>.
\<close>

function exec_args :: "nat \<Rightarrow> nat \<Rightarrow> 'z ksys_scheme \<Rightarrow> nat list option" where
  "exec_args uargv i s =
     (if i \<ge> MAXARG then None
      else case fetchint (uadd uargv (4 * i)) s of
        None \<Rightarrow> None
      | Some uarg \<Rightarrow>
          if uarg = 0 then Some []
          else case fetchstr (pat32 uarg) s of
            None \<Rightarrow> None
          | Some (p, _) \<Rightarrow> (case exec_args uargv (i + 1) s of None \<Rightarrow> None | Some ps \<Rightarrow> Some (p # ps)))"
  by pat_completeness auto
termination by (relation "measure (\<lambda>(uargv, i, s). MAXARG - i)") auto

declare exec_args.simps [simp del]

definition sys_pipe :: "'z ksys_scheme \<Rightarrow> (int \<times> 'z ksys_scheme) res" where
  "sys_pipe s =
     (case argptr 0 8 s of
        None \<Rightarrow> Inr (-1, s)
      | Some p \<Rightarrow>
          rbind (pipealloc s) (\<lambda>(r, s1).
            case r of
              None \<Rightarrow> Inr (-1, s1)
            | Some (rfile, wfile) \<Rightarrow>
                let (fd0, s2) = fdalloc rfile s1;
                    (fd1, s3) = (if fd0 = None then (None, s2) else fdalloc wfile s2)
                in if fd0 = None \<or> fd1 = None then
                     let s4 = (case fd0 of None \<Rightarrow> s3 | Some fd \<Rightarrow> s3\<lparr>ofile := (ofile s3)(fd := None)\<rparr>) in
                     rbind (fileclose rfile s4) (\<lambda>s5.
                     rbind (fileclose wfile s5) (\<lambda>s6. Inr (-1, s6)))
                   else
                     Inr (0, s3\<lparr>umem := put32 (put32 (umem s3) p (the fd0)) (p + 4) (the fd1)\<rparr>)))"

end
