(* ===== verification/Vm.thy ===== *)
theory Vm
  imports Kalloc
begin

text \<open>
  Page tables: \<open>src/vm.c\<close>, with the macros of \<open>src/mmu.h\<close> and \<open>src/memlayout.h\<close>. A page table is
  a page of the kernel's memory with 1024 little-endian words; the memory is that of the page
  allocator, addressed by kernel virtual addresses. Pointers are numbers below \<open>2^32\<close>, and \<open>None\<close>
  stands for a null pointer. \<open>kend\<close> and \<open>kdata\<close> are the linker symbols \<open>end\<close> and \<open>data\<close>.
  The loops run over page addresses that increase modulo \<open>2^32\<close>: after \<open>2^20\<close> pages an address
  comes back, and a loop that has not ended by then never ends.
\<close>

section \<open>Entries\<close>

definition EXTMEM :: nat where "EXTMEM = 0x100000"
definition DEVSPACE :: nat where "DEVSPACE = 0xFE000000"
definition KERNLINK :: nat where "KERNLINK = KERNBASE + EXTMEM"

definition NPDENTRIES :: nat where "NPDENTRIES = 1024"

definition PTE_P :: nat where "PTE_P = 0x001"
definition PTE_W :: nat where "PTE_W = 0x002"
definition PTE_U :: nat where "PTE_U = 0x004"

definition PDX :: "nat \<Rightarrow> nat" where "PDX va = va div 2 ^ 22 mod 1024"
definition PTX :: "nat \<Rightarrow> nat" where "PTX va = va div 2 ^ 12 mod 1024"

definition PGADDR :: "nat \<Rightarrow> nat \<Rightarrow> nat \<Rightarrow> nat" where
  "PGADDR d t off = (d * 2 ^ 22 OR t * 2 ^ 12 OR off) mod 2 ^ 32"

definition PTE_ADDR :: "nat \<Rightarrow> nat" where "PTE_ADDR pte = pte div 4096 * 4096"
definition PTE_FLAGS :: "nat \<Rightarrow> nat" where "PTE_FLAGS pte = pte mod 4096"

definition set_word :: "nat \<Rightarrow> nat \<Rightarrow> 'z kmem_scheme \<Rightarrow> 'z kmem_scheme" where
  "set_word a v m = m\<lparr>k_mem := put32 (k_mem m) a v\<rparr>"

abbreviation word_at :: "'z kmem_scheme \<Rightarrow> nat \<Rightarrow> nat" where
  "word_at m a \<equiv> get32 (k_mem m) a"

definition zero_page :: "nat \<Rightarrow> 'z kmem_scheme \<Rightarrow> 'z kmem_scheme" where
  "zero_page p m = m\<lparr>k_mem := memset (k_mem m) p 0 PGSIZE\<rparr>"

section \<open>Mapping\<close>

definition walkpgdir :: "nat \<Rightarrow> nat \<Rightarrow> bool \<Rightarrow> 'z kmem_scheme \<Rightarrow> nat option \<times> 'z kmem_scheme" where
  "walkpgdir pgdir va alloc m =
     (let pde = pgdir + 4 * PDX va in
      if word_at m pde AND PTE_P \<noteq> 0 then (Some (P2V (PTE_ADDR (word_at m pde)) + 4 * PTX va), m)
      else if \<not> alloc then (None, m)
      else
        let (pgtab, m1) = kalloc m in
        if pgtab = 0 then (None, m1)
        else
          (Some (pgtab + 4 * PTX va),
           set_word pde (V2P pgtab OR PTE_P OR PTE_W OR PTE_U) (zero_page pgtab m1)))"

text \<open>The loop of \<open>mappages\<close>, which returns 0 or \<open>-1\<close>.\<close>

fun mappages_from :: "nat \<Rightarrow> nat \<Rightarrow> nat \<Rightarrow> nat \<Rightarrow> nat \<Rightarrow> nat \<Rightarrow> 'z kmem_scheme \<Rightarrow> (int \<times> 'z kmem_scheme) res" where
  "mappages_from fuel pgdir a lasta pa perm m =
     (case walkpgdir pgdir a True m of
        (None, m1) \<Rightarrow> Inr (-1, m1)
      | (Some pte, m1) \<Rightarrow>
          if word_at m1 pte AND PTE_P \<noteq> 0 then Inl (Panic ''remap'')
          else
            let m2 = set_word pte (pa OR perm OR PTE_P) m1 in
            if a = lasta then Inr (0, m2)
            else case fuel of
                0 \<Rightarrow> Inl (Diverges ''mappages'')
              | Suc fuel' \<Rightarrow> mappages_from fuel' pgdir (uadd a PGSIZE) lasta (uadd pa PGSIZE) perm m2)"

declare mappages_from.simps [simp del]

definition mappages :: "nat \<Rightarrow> nat \<Rightarrow> nat \<Rightarrow> nat \<Rightarrow> nat \<Rightarrow> 'z kmem_scheme \<Rightarrow> (int \<times> 'z kmem_scheme) res" where
  "mappages pgdir va sz pa perm m =
     mappages_from (2 ^ 20) pgdir (PGROUNDDOWN va) (PGROUNDDOWN (usub (uadd va sz) 1)) pa perm m"

text \<open>The loop of \<open>deallocuvm\<close>.\<close>

fun deallocuvm_from :: "nat \<Rightarrow> nat \<Rightarrow> nat \<Rightarrow> nat \<Rightarrow> nat \<Rightarrow> 'z kmem_scheme \<Rightarrow> 'z kmem_scheme res" where
  "deallocuvm_from kend fuel pgdir a oldsz m =
     (if a < oldsz then
        case fuel of
          0 \<Rightarrow> Inl (Diverges ''deallocuvm'')
        | Suc fuel' \<Rightarrow>
            (case walkpgdir pgdir a False m of
               (None, _) \<Rightarrow> deallocuvm_from kend fuel' pgdir (uadd (usub (PGADDR (PDX a + 1) 0 0) PGSIZE) PGSIZE) oldsz m
             | (Some pte, _) \<Rightarrow>
                 if word_at m pte AND PTE_P \<noteq> 0 then
                   let pa = PTE_ADDR (word_at m pte) in
                   if pa = 0 then Inl (Panic ''kfree'')
                   else rbind (kfree kend (P2V pa) m) (\<lambda>m1.
                     deallocuvm_from kend fuel' pgdir (uadd a PGSIZE) oldsz (set_word pte 0 m1))
                 else deallocuvm_from kend fuel' pgdir (uadd a PGSIZE) oldsz m)
      else Inr m)"

declare deallocuvm_from.simps [simp del]

definition deallocuvm :: "nat \<Rightarrow> nat \<Rightarrow> nat \<Rightarrow> nat \<Rightarrow> 'z kmem_scheme \<Rightarrow> (nat \<times> 'z kmem_scheme) res" where
  "deallocuvm kend pgdir oldsz newsz m =
     (if newsz \<ge> oldsz then Inr (oldsz, m)
      else rbind (deallocuvm_from kend (2 ^ 20) pgdir (PGROUNDUP newsz) oldsz m) (\<lambda>m1. Inr (newsz, m1)))"

definition freevm :: "nat \<Rightarrow> nat \<Rightarrow> 'z kmem_scheme \<Rightarrow> 'z kmem_scheme res" where
  "freevm kend pgdir m =
     (if pgdir = 0 then Inl (Panic ''freevm: no pgdir'')
      else
        rbind (deallocuvm kend pgdir KERNBASE 0 m) (\<lambda>(_, m1).
        rbind (rfor [0..<NPDENTRIES] (\<lambda>i m.
          if word_at m (pgdir + 4 * i) AND PTE_P \<noteq> 0
          then kfree kend (P2V (PTE_ADDR (word_at m (pgdir + 4 * i)))) m else Inr m) m1) (\<lambda>m2.
        kfree kend pgdir m2)))"

text \<open>The table \<open>kmap\<close>: virtual address, physical start and end, permissions.\<close>

definition kmap :: "nat \<Rightarrow> (nat \<times> nat \<times> nat \<times> nat) list" where
  "kmap kdata =
     [(KERNBASE, 0, EXTMEM, PTE_W), (KERNLINK, V2P KERNLINK, V2P kdata, 0),
      (kdata, V2P kdata, PHYSTOP, PTE_W), (DEVSPACE, DEVSPACE, 0, PTE_W)]"

fun map_kernel :: "nat \<Rightarrow> (nat \<times> nat \<times> nat \<times> nat) list \<Rightarrow> 'z kmem_scheme \<Rightarrow> (bool \<times> 'z kmem_scheme) res" where
  "map_kernel pgdir [] m = Inr (True, m)"
| "map_kernel pgdir ((virt, phys_start, phys_end, perm) # ks) m =
     rbind (mappages pgdir virt (usub phys_end phys_start) phys_start perm m) (\<lambda>(r, m1).
       if r < 0 then Inr (False, m1) else map_kernel pgdir ks m1)"

definition setupkvm :: "nat \<Rightarrow> nat \<Rightarrow> 'z kmem_scheme \<Rightarrow> (nat \<times> 'z kmem_scheme) res" where
  "setupkvm kend kdata m =
     (let (pgdir, m1) = kalloc m in
      if pgdir = 0 then Inr (0, m1)
      else if P2V PHYSTOP > DEVSPACE then Inl (Panic ''PHYSTOP too high'')
      else
        rbind (map_kernel pgdir (kmap kdata) (zero_page pgdir m1)) (\<lambda>(ok, m2).
          if ok then Inr (pgdir, m2) else rbind (freevm kend pgdir m2) (\<lambda>m3. Inr (0, m3))))"

section \<open>User memory\<close>

definition inituvm :: "nat \<Rightarrow> (nat \<Rightarrow> byte) \<Rightarrow> nat \<Rightarrow> 'z kmem_scheme \<Rightarrow> 'z kmem_scheme res" where
  "inituvm pgdir init sz m =
     (if sz \<ge> PGSIZE then Inl (Panic ''inituvm: more than a page'')
      else
        let (p, m1) = kalloc m in
        if p = 0 then Inl (Undef ''mem'')
        else
          rbind (mappages pgdir 0 PGSIZE (V2P p) (PTE_W OR PTE_U) (zero_page p m1)) (\<lambda>(_, m2).
          Inr (m2\<lparr>k_mem := put_bytes (k_mem m2) p init sz\<rparr>)))"

text \<open>The loop of \<open>allocuvm\<close>.\<close>

function allocuvm_from :: "nat \<Rightarrow> nat \<Rightarrow> nat \<Rightarrow> nat \<Rightarrow> nat \<Rightarrow> 'z kmem_scheme \<Rightarrow> (nat \<times> 'z kmem_scheme) res" where
  "allocuvm_from kend pgdir a oldsz newsz m =
     (if a < newsz then
        let (p, m1) = kalloc m in
        if p = 0 then rbind (deallocuvm kend pgdir newsz oldsz m1) (\<lambda>(_, m2). Inr (0, m2))
        else
          rbind (mappages pgdir a PGSIZE (V2P p) (PTE_W OR PTE_U) (zero_page p m1)) (\<lambda>(r, m2).
            if r < 0 then
              rbind (deallocuvm kend pgdir newsz oldsz m2) (\<lambda>(_, m3).
              rbind (kfree kend p m3) (\<lambda>m4. Inr (0, m4)))
            else allocuvm_from kend pgdir (a + PGSIZE) oldsz newsz m2)
      else Inr (newsz, m))"
  by pat_completeness auto
termination
  by (relation "measure (\<lambda>(kend, pgdir, a, oldsz, newsz, m). newsz - a)") (auto simp: PGSIZE_def)

declare allocuvm_from.simps [simp del]

text \<open>\<open>newsz\<close> is below \<open>KERNBASE\<close> when the loop runs, so that \<open>a\<close> does not wrap around.\<close>

definition allocuvm :: "nat \<Rightarrow> nat \<Rightarrow> nat \<Rightarrow> nat \<Rightarrow> 'z kmem_scheme \<Rightarrow> (nat \<times> 'z kmem_scheme) res" where
  "allocuvm kend pgdir oldsz newsz m =
     (if newsz \<ge> KERNBASE then Inr (0, m)
      else if newsz < oldsz then Inr (oldsz, m)
      else allocuvm_from kend pgdir (PGROUNDUP oldsz) oldsz newsz m)"

definition clearpteu :: "nat \<Rightarrow> nat \<Rightarrow> 'z kmem_scheme \<Rightarrow> 'z kmem_scheme res" where
  "clearpteu pgdir uva m =
     (case walkpgdir pgdir uva False m of
        (None, _) \<Rightarrow> Inl (Panic ''clearpteu'')
      | (Some pte, m1) \<Rightarrow> Inr (set_word pte (word_at m1 pte AND (2 ^ 32 - 1 - PTE_U)) m1))"

text \<open>The loop of \<open>copyuvm\<close>; \<open>False\<close> is the jump to \<open>bad\<close>.\<close>

function copyuvm_from :: "nat \<Rightarrow> nat \<Rightarrow> nat \<Rightarrow> nat \<Rightarrow> nat \<Rightarrow> 'z kmem_scheme \<Rightarrow> (bool \<times> 'z kmem_scheme) res" where
  "copyuvm_from kend pgdir d i sz m =
     (if i < sz then
        case walkpgdir pgdir i False m of
          (None, _) \<Rightarrow> Inl (Panic ''copyuvm: pte should exist'')
        | (Some pte, _) \<Rightarrow>
            if word_at m pte AND PTE_P = 0 then Inl (Panic ''copyuvm: page not present'')
            else
              let pa = PTE_ADDR (word_at m pte); flags = PTE_FLAGS (word_at m pte); (p, m1) = kalloc m in
              if p = 0 then Inr (False, m1)
              else
                rbind (mappages d i PGSIZE (V2P p) flags (m1\<lparr>k_mem := memmove (k_mem m1) p (P2V pa) PGSIZE\<rparr>)) (\<lambda>(r, m2).
                  if r < 0 then rbind (kfree kend p m2) (\<lambda>m3. Inr (False, m3))
                  else copyuvm_from kend pgdir d (i + PGSIZE) sz m2)
      else Inr (True, m))"
  by pat_completeness auto
termination
  by (relation "measure (\<lambda>(kend, pgdir, d, i, sz, m). sz - i)") (auto simp: PGSIZE_def)

declare copyuvm_from.simps [simp del]

definition copyuvm :: "nat \<Rightarrow> nat \<Rightarrow> nat \<Rightarrow> nat \<Rightarrow> 'z kmem_scheme \<Rightarrow> (nat \<times> 'z kmem_scheme) res" where
  "copyuvm kend kdata pgdir sz m =
     rbind (setupkvm kend kdata m) (\<lambda>(d, m1).
       if d = 0 then Inr (0, m1)
       else
         rbind (copyuvm_from kend pgdir d 0 sz m1) (\<lambda>(ok, m2).
           if ok then Inr (d, m2) else rbind (freevm kend d m2) (\<lambda>m3. Inr (0, m3))))"

text \<open>
  \<open>uva2ka\<close> reads \<open>*pte\<close> without testing that \<open>pte\<close> is not null; the result \<open>None\<close> is a null
  pointer.
\<close>

definition uva2ka :: "nat \<Rightarrow> nat \<Rightarrow> 'z kmem_scheme \<Rightarrow> nat option res" where
  "uva2ka pgdir uva m =
     (case walkpgdir pgdir uva False m of
        (None, _) \<Rightarrow> Inl (Undef ''*pte'')
      | (Some pte, _) \<Rightarrow>
          if word_at m pte AND PTE_P = 0 then Inr None
          else if word_at m pte AND PTE_U = 0 then Inr None
          else Inr (Some (P2V (PTE_ADDR (word_at m pte)))))"

text \<open>\<open>copyout(pgdir, va, p, len)\<close>, where \<open>buf\<close> is the memory from \<open>p\<close> on.\<close>

function copyout :: "nat \<Rightarrow> nat \<Rightarrow> (nat \<Rightarrow> byte) \<Rightarrow> nat \<Rightarrow> 'z kmem_scheme \<Rightarrow> (int \<times> 'z kmem_scheme) res" where
  "copyout pgdir va buf len m =
     (if len > 0 then
        let va0 = PGROUNDDOWN va in
        rbind (uva2ka pgdir va0 m) (\<lambda>r.
          case r of
            None \<Rightarrow> Inr (-1, m)
          | Some pa0 \<Rightarrow>
              let n = min (PGSIZE - (va - va0)) len in
              copyout pgdir (uadd va0 PGSIZE) (\<lambda>i. buf (n + i)) (len - n)
                (m\<lparr>k_mem := put_bytes (k_mem m) (pa0 + (va - va0)) buf n\<rparr>))
      else Inr (0, m))"
  by pat_completeness auto
termination
proof (relation "measure (\<lambda>(pgdir, va, buf, len, m). len)", goal_cases)
  case (2 pgdir va buf len m va0 r pa0 n)
  have "va < 4096 + va div 4096 * 4096" by (rule dividend_less_div_times) simp
  then have "n > 0" using 2 by (simp add: PGROUNDDOWN_def PGSIZE_def min_def)
  then show ?case using 2(1) by simp
qed simp

declare copyout.simps [simp del]

end
