(* ===== verification/Spinlock.thy ===== *)
theory Spinlock
  imports Prelude
begin

text \<open>
  Spin locks and interrupt nesting, \<open>src/spinlock.c\<close>, with \<open>struct cpu\<close> of \<open>src/proc.h\<close> and \<open>mycpu\<close> of
  \<open>src/proc.c\<close>. A CPU is its index in \<open>cpus\<close>; its interrupt flag is part of the state. \<open>acquire\<close> and
  \<open>release\<close> are split at their stores to shared memory, so that the step relation interleaves the
  CPUs between any two of them. The theorems show mutual exclusion, that a CPU inside a critical
  section has interrupts off, and that matched \<open>pushcli\<close> and \<open>popcli\<close> restore the interrupt flag.
\<close>

section \<open>State\<close>

record cpu =
  c_ncli :: int
  c_intena :: bool
  c_if :: bool

record spinlock =
  lk_locked :: bool
  lk_cpu :: "nat option"

record mach =
  cpus :: "nat \<Rightarrow> cpu"
  locks :: "nat \<Rightarrow> spinlock"

definition set_cpu :: "nat \<Rightarrow> (cpu \<Rightarrow> cpu) \<Rightarrow> mach \<Rightarrow> mach" where
  "set_cpu c f m = m\<lparr>cpus := (cpus m)(c := f (cpus m c))\<rparr>"

definition set_lock :: "nat \<Rightarrow> (spinlock \<Rightarrow> spinlock) \<Rightarrow> mach \<Rightarrow> mach" where
  "set_lock l f m = m\<lparr>locks := (locks m)(l := f (locks m l))\<rparr>"

lemma set_cpu_simps [simp]:
  "cpus (set_cpu c f m) = (cpus m)(c := f (cpus m c))" "locks (set_cpu c f m) = locks m"
  "cpus (set_lock l g m) = cpus m" "locks (set_lock l g m) = (locks m)(l := g (locks m l))"
  by (simp_all add: set_cpu_def set_lock_def)

section \<open>Operations\<close>

text \<open>
  \<open>mycpu\<close>: the index of the CPU whose local APIC has the identifier \<open>apicid\<close>; \<open>ids\<close> are the
  identifiers in \<open>cpus[0..ncpu-1]\<close>, \<open>fl_if\<close> is the interrupt flag.
\<close>

definition mycpu :: "bool \<Rightarrow> nat list \<Rightarrow> nat \<Rightarrow> nat res" where
  "mycpu fl_if ids apicid =
     (if fl_if then Inl (Panic ''mycpu called with interrupts enabled'')
      else case find (\<lambda>i. ids ! i = apicid) [0..<length ids] of
        Some i \<Rightarrow> Inr i | None \<Rightarrow> Inl (Panic ''unknown apicid''))"

definition initlock :: "nat \<Rightarrow> mach \<Rightarrow> mach" where
  "initlock l = set_lock l (\<lambda>_. \<lparr>lk_locked = False, lk_cpu = None\<rparr>)"

definition pushcli :: "nat \<Rightarrow> mach \<Rightarrow> mach" where
  "pushcli c m =
     set_cpu c (\<lambda>x. x\<lparr>c_if := False, c_intena := (if c_ncli x = 0 then c_if x else c_intena x),
       c_ncli := c_ncli x + 1\<rparr>) m"

definition popcli :: "nat \<Rightarrow> mach \<Rightarrow> mach res" where
  "popcli c m =
     (if c_if (cpus m c) then Inl (Panic ''popcli - interruptible'')
      else
        let m1 = set_cpu c (\<lambda>x. x\<lparr>c_ncli := c_ncli x - 1\<rparr>) m in
        if c_ncli (cpus m1 c) < 0 then Inl (Panic ''popcli'')
        else if c_ncli (cpus m1 c) = 0 \<and> c_intena (cpus m1 c)
          then Inr (set_cpu c (\<lambda>x. x\<lparr>c_if := True\<rparr>) m1)
        else Inr m1)"

definition holding :: "nat \<Rightarrow> nat \<Rightarrow> mach \<Rightarrow> (bool \<times> mach) res" where
  "holding c l m =
     (let m1 = pushcli c m; r = lk_locked (locks m1 l) \<and> lk_cpu (locks m1 l) = Some c in
      rbind (popcli c m1) (\<lambda>m2. Inr (r, m2)))"

text \<open>\<open>acquire\<close> up to its loop, one turn of the loop, and the assignment after it.\<close>

definition acquire_enter :: "nat \<Rightarrow> nat \<Rightarrow> mach \<Rightarrow> mach res" where
  "acquire_enter c l m =
     rbind (holding c l (pushcli c m)) (\<lambda>(r, m1). if r then Inl (Panic ''acquire'') else Inr m1)"

definition acquire_xchg :: "nat \<Rightarrow> mach \<Rightarrow> bool \<times> mach" where
  "acquire_xchg l m = (lk_locked (locks m l), set_lock l (\<lambda>k. k\<lparr>lk_locked := True\<rparr>) m)"

definition acquire_record :: "nat \<Rightarrow> nat \<Rightarrow> mach \<Rightarrow> mach" where
  "acquire_record c l = set_lock l (\<lambda>k. k\<lparr>lk_cpu := Some c\<rparr>)"

text \<open>\<open>acquire\<close> when no other CPU runs: it spins forever on a lock that is taken.\<close>

definition acquire :: "nat \<Rightarrow> nat \<Rightarrow> mach \<Rightarrow> mach res" where
  "acquire c l m =
     rbind (acquire_enter c l m) (\<lambda>m1.
       let (old, m2) = acquire_xchg l m1 in
       if old then Inl (Diverges ''acquire'') else Inr (acquire_record c l m2))"

text \<open>\<open>release\<close> up to the barrier, and the rest.\<close>

definition release_begin :: "nat \<Rightarrow> nat \<Rightarrow> mach \<Rightarrow> mach res" where
  "release_begin c l m =
     rbind (holding c l m) (\<lambda>(r, m1).
       if \<not> r then Inl (Panic ''release'') else Inr (set_lock l (\<lambda>k. k\<lparr>lk_cpu := None\<rparr>) m1))"

definition release_end :: "nat \<Rightarrow> nat \<Rightarrow> mach \<Rightarrow> mach res" where
  "release_end c l m = popcli c (set_lock l (\<lambda>k. k\<lparr>lk_locked := False\<rparr>) m)"

definition release :: "nat \<Rightarrow> nat \<Rightarrow> mach \<Rightarrow> mach res" where
  "release c l m = rbind (release_begin c l m) (release_end c l)"

section \<open>Interrupt nesting\<close>

definition cli_ok :: "cpu \<Rightarrow> bool" where
  "cli_ok x \<longleftrightarrow> 0 \<le> c_ncli x \<and> (0 < c_ncli x \<longrightarrow> \<not> c_if x)"

lemma pushcli_cpu:
  "cpus (pushcli c m) = (cpus m)(c := (cpus m c)\<lparr>c_if := False,
     c_intena := (if c_ncli (cpus m c) = 0 then c_if (cpus m c) else c_intena (cpus m c)),
     c_ncli := c_ncli (cpus m c) + 1\<rparr>)"
  "locks (pushcli c m) = locks m"
  by (simp_all add: pushcli_def)

text \<open>\<open>popcli\<close> undoes \<open>pushcli\<close>, up to the saved flag, which is dead at nesting depth 0.\<close>

lemma popcli_pushcli:
  assumes "cli_ok (cpus m c)"
  shows "\<exists>m'. popcli c (pushcli c m) = Inr m' \<and> locks m' = locks m \<and> c_ncli (cpus m' c) = c_ncli (cpus m c) \<and>
    c_if (cpus m' c) = c_if (cpus m c) \<and>
    (c_ncli (cpus m c) > 0 \<longrightarrow> c_intena (cpus m' c) = c_intena (cpus m c)) \<and>
    (\<forall>d. d \<noteq> c \<longrightarrow> cpus m' d = cpus m d)"
  using assms by (auto simp: popcli_def pushcli_cpu cli_ok_def Let_def)

lemma holding_result:
  assumes "cli_ok (cpus m c)"
  shows "\<exists>m'. holding c l m = Inr (lk_locked (locks m l) \<and> lk_cpu (locks m l) = Some c, m') \<and>
    locks m' = locks m \<and> c_ncli (cpus m' c) = c_ncli (cpus m c) \<and> c_if (cpus m' c) = c_if (cpus m c) \<and>
    (c_ncli (cpus m c) > 0 \<longrightarrow> c_intena (cpus m' c) = c_intena (cpus m c)) \<and>
    (\<forall>d. d \<noteq> c \<longrightarrow> cpus m' d = cpus m d)"
  using popcli_pushcli [OF assms] by (auto simp: holding_def pushcli_cpu Let_def)

primrec popclis :: "nat \<Rightarrow> nat \<Rightarrow> mach \<Rightarrow> mach res" where
  "popclis 0 c m = Inr m"
| "popclis (Suc n) c m = rbind (popcli c m) (popclis n c)"

lemma pushclis_state:
  assumes "cli_ok (cpus m c)" and "0 < n"
  shows "c_ncli (cpus ((pushcli c ^^ n) m) c) = c_ncli (cpus m c) + int n \<and>
    c_intena (cpus ((pushcli c ^^ n) m) c) =
      (if c_ncli (cpus m c) = 0 then c_if (cpus m c) else c_intena (cpus m c)) \<and>
    \<not> c_if (cpus ((pushcli c ^^ n) m) c)"
  using assms(2)
proof (induction n)
  case (Suc n)
  then show ?case using assms(1) by (cases n) (auto simp: pushcli_cpu cli_ok_def)
qed simp

lemma popclis_state:
  assumes "c_ncli (cpus m c) = k + int n" and "0 \<le> k" and "0 < n" and "\<not> c_if (cpus m c)"
  shows "\<exists>m'. popclis n c m = Inr m' \<and> c_ncli (cpus m' c) = k \<and>
    c_if (cpus m' c) = (k = 0 \<and> c_intena (cpus m c)) \<and> locks m' = locks m"
  using assms
proof (induction n arbitrary: m)
  case (Suc n)
  show ?case
  proof (cases "n = 0")
    case True
    then show ?thesis using Suc.prems by (auto simp: popcli_def Let_def)
  next
    case False
    let ?m = "set_cpu c (\<lambda>x. x\<lparr>c_ncli := c_ncli x - 1\<rparr>) m"
    have "popcli c m = Inr ?m" using Suc.prems False by (auto simp: popcli_def Let_def)
    moreover have "\<exists>m'. popclis n c ?m = Inr m' \<and> c_ncli (cpus m' c) = k \<and>
        c_if (cpus m' c) = (k = 0 \<and> c_intena (cpus ?m c)) \<and> locks m' = locks ?m"
      using Suc.prems False by (intro Suc.IH) auto
    ultimately show ?thesis by simp
  qed
qed simp

section \<open>Interleaved CPUs\<close>

text \<open>
  Where a CPU is: outside \<open>acquire\<close> and \<open>release\<close>, spinning for a lock, past the loop but before the
  assignment to \<open>lk->cpu\<close>, or between the two halves of \<open>release\<close>. \<open>h c\<close> is the set of locks whose
  \<open>acquire\<close> CPU \<open>c\<close> has left and whose \<open>release\<close> it has not begun: the critical sections it is in.
\<close>

datatype phase = Idle | Spin nat | Got nat | Rel nat

inductive lock_run :: "mach \<Rightarrow> (nat \<Rightarrow> phase) \<Rightarrow> (nat \<Rightarrow> nat set) \<Rightarrow> bool" where
  boot: "(\<forall>c. c_ncli (cpus m c) = 0) \<Longrightarrow> (\<forall>l. locks m l = \<lparr>lk_locked = False, lk_cpu = None\<rparr>) \<Longrightarrow>
    lock_run m (\<lambda>_. Idle) (\<lambda>_. {})"
| enters: "lock_run m pc h \<Longrightarrow> pc c = Idle \<Longrightarrow> acquire_enter c l m = Inr m' \<Longrightarrow>
    lock_run m' (pc(c := Spin l)) h"
| xchgs: "lock_run m pc h \<Longrightarrow> pc c = Spin l \<Longrightarrow> acquire_xchg l m = (old, m') \<Longrightarrow>
    lock_run m' (pc(c := if old then Spin l else Got l)) h"
| records: "lock_run m pc h \<Longrightarrow> pc c = Got l \<Longrightarrow>
    lock_run (acquire_record c l m) (pc(c := Idle)) (h(c := insert l (h c)))"
| begins: "lock_run m pc h \<Longrightarrow> pc c = Idle \<Longrightarrow> release_begin c l m = Inr m' \<Longrightarrow>
    lock_run m' (pc(c := Rel l)) (h(c := h c - {l}))"
| ends: "lock_run m pc h \<Longrightarrow> pc c = Rel l \<Longrightarrow> release_end c l m = Inr m' \<Longrightarrow>
    lock_run m' (pc(c := Idle)) h"

definition owns :: "(nat \<Rightarrow> phase) \<Rightarrow> (nat \<Rightarrow> nat set) \<Rightarrow> nat \<Rightarrow> nat \<Rightarrow> bool" where
  "owns pc h c l \<longleftrightarrow> l \<in> h c \<or> pc c = Got l \<or> pc c = Rel l"

definition depth_ok :: "mach \<Rightarrow> (nat \<Rightarrow> phase) \<Rightarrow> (nat \<Rightarrow> nat set) \<Rightarrow> nat \<Rightarrow> bool" where
  "depth_ok m pc h c \<longleftrightarrow> finite (h c) \<and> cli_ok (cpus m c) \<and>
     c_ncli (cpus m c) = int (card (h c)) + (if pc c = Idle then 0 else 1) \<and>
     (\<forall>l. pc c = Got l \<or> pc c = Rel l \<longrightarrow> l \<notin> h c)"

definition lock_ok :: "mach \<Rightarrow> (nat \<Rightarrow> phase) \<Rightarrow> (nat \<Rightarrow> nat set) \<Rightarrow> nat \<Rightarrow> bool" where
  "lock_ok m pc h l \<longleftrightarrow> (\<forall>c d. owns pc h c l \<longrightarrow> owns pc h d l \<longrightarrow> c = d) \<and>
     (lk_locked (locks m l) \<longleftrightarrow> (\<exists>c. owns pc h c l)) \<and>
     (\<forall>c. lk_cpu (locks m l) = Some c \<longleftrightarrow> l \<in> h c)"

definition lock_inv :: "mach \<Rightarrow> (nat \<Rightarrow> phase) \<Rightarrow> (nat \<Rightarrow> nat set) \<Rightarrow> bool" where
  "lock_inv m pc h \<longleftrightarrow> (\<forall>c. depth_ok m pc h c) \<and> (\<forall>l. lock_ok m pc h l)"

text \<open>A lock is described by itself and by who owns it; a CPU by itself and by what it holds.\<close>

lemma lock_ok_cong:
  assumes "locks m' l = locks m l" and "\<And>c. owns pc' h' c l = owns pc h c l" and "\<And>c. l \<in> h' c \<longleftrightarrow> l \<in> h c"
  shows "lock_ok m' pc' h' l = lock_ok m pc h l"
  using assms by (simp add: lock_ok_def)

lemma depth_ok_cong:
  assumes "cpus m' c = cpus m c" and "pc' c = pc c" and "h' c = h c"
  shows "depth_ok m' pc' h' c = depth_ok m pc h c"
  using assms by (simp add: depth_ok_def)

lemma lock_inv_holding:
  assumes "lock_inv m pc h"
  shows "\<exists>m'. holding c l m = Inr (l \<in> h c, m') \<and> locks m' = locks m \<and>
    c_ncli (cpus m' c) = c_ncli (cpus m c) \<and> c_if (cpus m' c) = c_if (cpus m c) \<and>
    (\<forall>d. d \<noteq> c \<longrightarrow> cpus m' d = cpus m d)"
proof -
  have "cli_ok (cpus m c)" and l: "lock_ok m pc h l" using assms by (auto simp: lock_inv_def depth_ok_def)
  moreover have "lk_locked (locks m l) \<and> lk_cpu (locks m l) = Some c \<longleftrightarrow> l \<in> h c"
    using l unfolding lock_ok_def owns_def by blast
  ultimately show ?thesis using holding_result [of m c l] by auto
qed

lemma enters_inv:
  assumes "lock_inv m pc h" and "pc c = Idle" and "acquire_enter c l m = Inr m'"
  shows "lock_inv m' (pc(c := Spin l)) h"
proof -
  let ?m = "pushcli c m"
  have d: "depth_ok m pc h c" using assms(1) by (simp add: lock_inv_def)
  then have "cli_ok (cpus ?m c)" by (simp add: depth_ok_def cli_ok_def pushcli_cpu)
  from holding_result [OF this, of l] assms(3)
  have m': "locks m' = locks m" "c_ncli (cpus m' c) = c_ncli (cpus m c) + 1" "\<not> c_if (cpus m' c)"
    "\<And>d. d \<noteq> c \<Longrightarrow> cpus m' d = cpus m d"
    by (auto simp: acquire_enter_def pushcli_cpu split: if_splits)
  have "depth_ok m' (pc(c := Spin l)) h e" for e
  proof (cases "e = c")
    case True
    then show ?thesis using d m' assms(2) by (simp add: depth_ok_def cli_ok_def)
  next
    case False
    then show ?thesis using assms(1) m'(4) depth_ok_cong [of m' e m "pc(c := Spin l)" pc h h]
      by (simp add: lock_inv_def)
  qed
  moreover have "lock_ok m' (pc(c := Spin l)) h k" for k
    using assms(1,2) m'(1) lock_ok_cong [of m' k m "pc(c := Spin l)" h pc h]
    by (simp add: lock_inv_def owns_def)
  ultimately show ?thesis by (simp add: lock_inv_def)
qed

lemma depth_ok_same_cpu:
  assumes "lock_inv m pc h" and "cpus m' = cpus m" and "\<And>d. d \<noteq> c \<Longrightarrow> pc' d = pc d \<and> h' d = h d"
    and "depth_ok m' pc' h' c"
  shows "depth_ok m' pc' h' d"
  using assms depth_ok_cong [of m' d m pc' pc h' h] by (cases "d = c") (auto simp: lock_inv_def)

lemma lock_ok_other:
  assumes "lock_inv m pc h" and "\<And>k. k \<noteq> l \<Longrightarrow> locks m' k = locks m k"
    and "\<And>c k. k \<noteq> l \<Longrightarrow> owns pc' h' c k = owns pc h c k \<and> (k \<in> h' c \<longleftrightarrow> k \<in> h c)"
    and "lock_ok m' pc' h' l"
  shows "lock_ok m' pc' h' k"
proof (cases "k = l")
  case False
  then show ?thesis using assms lock_ok_cong [of m' k m pc' h' pc h] by (simp add: lock_inv_def)
qed (simp add: assms(4))

lemma lock_ok_at:
  assumes "lock_inv m pc h" and "\<forall>k. k \<noteq> l \<longrightarrow> locks m' k = locks m k"
    and "lock_ok m' pc' h' l"
    and "\<forall>k c. k \<noteq> l \<longrightarrow> owns pc' h' c k = owns pc h c k \<and> (k \<in> h' c \<longleftrightarrow> k \<in> h c)"
  shows "lock_ok m' pc' h' k"
  using assms lock_ok_other [of m pc h l m' pc' h' k] by simp

lemma xchgs_inv:
  assumes "lock_inv m pc h" and "pc c = Spin l" and "acquire_xchg l m = (old, m')"
  shows "lock_inv m' (pc(c := if old then Spin l else Got l)) h"
proof -
  let ?pc = "pc(c := if old then Spin l else Got l)"
  have m': "cpus m' = cpus m" "old = lk_locked (locks m l)" "lk_locked (locks m' l)"
    "lk_cpu (locks m' l) = lk_cpu (locks m l)" "\<forall>k. k \<noteq> l \<longrightarrow> locks m' k = locks m k"
    using assms(3) by (auto simp: acquire_xchg_def)
  have dc: "depth_ok m pc h c" and lk: "lock_ok m pc h l" using assms(1) by (simp_all add: lock_inv_def)
  have "\<not> old \<Longrightarrow> l \<notin> h c" using lk m'(2) by (auto simp: lock_ok_def owns_def)
  then have "depth_ok m' ?pc h c" using dc assms(2) m'(1) by (auto simp: depth_ok_def)
  then have 1: "depth_ok m' ?pc h d" for d
    by (rule depth_ok_same_cpu [OF assms(1) m'(1), of c ?pc h, rotated]) auto
  have "lock_ok m' ?pc h l"
  proof (cases old)
    case True
    then have "owns ?pc h d l = owns pc h d l" for d using assms(2) by (simp add: owns_def)
    then show ?thesis using lk m' True by (simp add: lock_ok_def)
  next
    case False
    then have none: "\<not> owns pc h d l" for d using lk m'(2) by (auto simp: lock_ok_def)
    then have o: "owns ?pc h d l \<longleftrightarrow> d = c" for d using False by (auto simp: owns_def)
    have "\<forall>e. lk_cpu (locks m' l) = Some e \<longleftrightarrow> l \<in> h e" using lk m'(4) by (simp add: lock_ok_def)
    then show ?thesis unfolding lock_ok_def o using m'(3) by simp
  qed
  moreover have "\<forall>k e. k \<noteq> l \<longrightarrow> owns ?pc h e k = owns pc h e k \<and> (k \<in> h e \<longleftrightarrow> k \<in> h e)"
    using assms(2) by (auto simp: owns_def)
  ultimately have 2: "lock_ok m' ?pc h k" for k by (rule lock_ok_at [OF assms(1) m'(5)])
  show ?thesis using 1 2 by (simp add: lock_inv_def)
qed

lemma records_inv:
  assumes "lock_inv m pc h" and "pc c = Got l"
  shows "lock_inv (acquire_record c l m) (pc(c := Idle)) (h(c := insert l (h c)))"
proof -
  let ?m = "acquire_record c l m" and ?pc = "pc(c := Idle)" and ?h = "h(c := insert l (h c))"
  have m': "cpus ?m = cpus m" "\<forall>k. k \<noteq> l \<longrightarrow> locks ?m k = locks m k"
    "lk_locked (locks ?m l) = lk_locked (locks m l)" "lk_cpu (locks ?m l) = Some c"
    by (simp_all add: acquire_record_def)
  have dc: "depth_ok m pc h c" and lk: "lock_ok m pc h l" using assms(1) by (simp_all add: lock_inv_def)
  have "depth_ok ?m ?pc ?h c" using dc assms(2) m'(1) by (auto simp: depth_ok_def)
  then have 1: "depth_ok ?m ?pc ?h d" for d
    by (rule depth_ok_same_cpu [OF assms(1) m'(1), of c ?pc ?h, rotated]) auto
  have o: "owns ?pc ?h d l = owns pc h d l" for d using assms(2) by (auto simp: owns_def)
  have "owns pc h c l" using assms(2) by (simp add: owns_def)
  then have "l \<in> ?h d \<longleftrightarrow> d = c" for d using lk by (auto simp: lock_ok_def owns_def)
  then have "lock_ok ?m ?pc ?h l" using lk o m'(3,4) by (auto simp: lock_ok_def)
  moreover have "\<forall>k e. k \<noteq> l \<longrightarrow> owns ?pc ?h e k = owns pc h e k \<and> (k \<in> ?h e \<longleftrightarrow> k \<in> h e)"
    using assms(2) by (auto simp: owns_def)
  ultimately have 2: "lock_ok ?m ?pc ?h k" for k by (rule lock_ok_at [OF assms(1) m'(2)])
  show ?thesis using 1 2 by (simp add: lock_inv_def)
qed

lemma begins_inv:
  assumes "lock_inv m pc h" and "pc c = Idle" and "release_begin c l m = Inr m'"
  shows "lock_inv m' (pc(c := Rel l)) (h(c := h c - {l})) \<and> l \<in> h c"
proof -
  let ?pc = "pc(c := Rel l)" and ?h = "h(c := h c - {l})"
  obtain m1 where m1: "holding c l m = Inr (l \<in> h c, m1)" "locks m1 = locks m"
    "c_ncli (cpus m1 c) = c_ncli (cpus m c)" "c_if (cpus m1 c) = c_if (cpus m c)"
    "\<forall>d. d \<noteq> c \<longrightarrow> cpus m1 d = cpus m d"
    using lock_inv_holding [OF assms(1), of c l] by blast
  then have lh: "l \<in> h c" and m'e: "m' = set_lock l (\<lambda>k. k\<lparr>lk_cpu := None\<rparr>) m1"
    using assms(3) by (auto simp: release_begin_def split: if_splits)
  have m': "\<forall>k. k \<noteq> l \<longrightarrow> locks m' k = locks m k" "lk_locked (locks m' l) = lk_locked (locks m l)"
    "lk_cpu (locks m' l) = None" "cpus m' = cpus m1"
    by (simp_all add: m'e m1(2))
  have dc: "depth_ok m pc h c" and lk: "lock_ok m pc h l" using assms(1) by (simp_all add: lock_inv_def)
  have "int (card (h c)) = int (card (h c - {l})) + 1"
    using dc lh card.remove [of "h c" l] by (simp add: depth_ok_def)
  then have "depth_ok m' ?pc ?h c" using dc assms(2) m1 m'(4) by (auto simp: depth_ok_def cli_ok_def)
  moreover have "depth_ok m' ?pc ?h d" if "d \<noteq> c" for d
    using assms(1) m1(5) m'(4) that depth_ok_cong [of m' d m ?pc pc ?h h] by (simp add: lock_inv_def)
  ultimately have 1: "depth_ok m' ?pc ?h d" for d by (cases "d = c") auto
  have o: "owns ?pc ?h d l = owns pc h d l" for d using assms(2) lh by (auto simp: owns_def)
  have "l \<notin> ?h d" for d using lk lh by (auto simp: lock_ok_def owns_def)
  then have "lock_ok m' ?pc ?h l" using lk o m'(2,3) by (auto simp: lock_ok_def)
  moreover have "\<forall>k e. k \<noteq> l \<longrightarrow> owns ?pc ?h e k = owns pc h e k \<and> (k \<in> ?h e \<longleftrightarrow> k \<in> h e)"
    using assms(2) by (auto simp: owns_def)
  ultimately have 2: "lock_ok m' ?pc ?h k" for k by (rule lock_ok_at [OF assms(1) m'(1)])
  show ?thesis using 1 2 lh by (simp add: lock_inv_def)
qed

lemma ends_inv:
  assumes "lock_inv m pc h" and "pc c = Rel l" and "release_end c l m = Inr m'"
  shows "lock_inv m' (pc(c := Idle)) h"
proof -
  let ?pc = "pc(c := Idle)"
  have dc: "depth_ok m pc h c" and lk: "lock_ok m pc h l" using assms(1) by (simp_all add: lock_inv_def)
  have m': "\<forall>k. k \<noteq> l \<longrightarrow> locks m' k = locks m k" "\<not> lk_locked (locks m' l)"
    "lk_cpu (locks m' l) = lk_cpu (locks m l)" "\<And>d. d \<noteq> c \<Longrightarrow> cpus m' d = cpus m d"
    "c_ncli (cpus m' c) = c_ncli (cpus m c) - 1" "cli_ok (cpus m' c)"
    using assms(2,3) dc
    by (auto simp: release_end_def popcli_def Let_def depth_ok_def cli_ok_def split: if_splits)
  have "depth_ok m' ?pc h c" using dc assms(2) m'(5,6) by (auto simp: depth_ok_def)
  moreover have "depth_ok m' ?pc h d" if "d \<noteq> c" for d
    using assms(1) m'(4) that depth_ok_cong [of m' d m ?pc pc h h] by (simp add: lock_inv_def)
  ultimately have 1: "depth_ok m' ?pc h d" for d by (cases "d = c") auto
  have c: "owns pc h c l" using assms(2) by (simp add: owns_def)
  have nh: "l \<notin> h d" for d
    using lk c dc assms(2) unfolding lock_ok_def owns_def depth_ok_def by blast
  have no: "\<not> owns ?pc h d l" for d
    using lk c nh unfolding lock_ok_def by (cases "d = c") (auto simp: owns_def)
  then have "lock_ok m' ?pc h l" using lk m'(2,3) by (auto simp: lock_ok_def)
  moreover have "\<forall>k e. k \<noteq> l \<longrightarrow> owns ?pc h e k = owns pc h e k \<and> (k \<in> h e \<longleftrightarrow> k \<in> h e)"
    using assms(2) by (auto simp: owns_def)
  ultimately have 2: "lock_ok m' ?pc h k" for k by (rule lock_ok_at [OF assms(1) m'(1)])
  show ?thesis using 1 2 by (simp add: lock_inv_def)
qed

lemma lock_run_inv: "lock_run m pc h \<Longrightarrow> lock_inv m pc h"
proof (induction rule: lock_run.induct)
  case (boot m)
  then show ?case by (auto simp: lock_inv_def depth_ok_def lock_ok_def owns_def cli_ok_def)
qed (blast intro: enters_inv xchgs_inv records_inv ends_inv dest: begins_inv)+

text \<open>
  C21: Spin locks give mutual exclusion. Under every interleaving of the CPUs at the stores of \<open>acquire\<close>
  and \<open>release\<close>, no two CPUs are inside critical sections of the same lock, and a CPU inside one has
  interrupts disabled. Neither half of \<open>release\<close> panics: not the first in a CPU that holds the lock, and not the
  second, with its \<open>popcli\<close>, in a CPU that has done the first, after which the lock is free. \<open>acquire\<close> of a
  lock that the CPU does not hold does not panic.
\<close>

theorem mutual_exclusion:
  assumes "lock_run m pc h"
  shows "(\<forall>l c d. l \<in> h c \<and> l \<in> h d \<longrightarrow> c = d) \<and> (\<forall>c. h c \<noteq> {} \<longrightarrow> \<not> c_if (cpus m c)) \<and>
    (\<forall>c l. l \<in> h c \<longrightarrow> (\<exists>m'. release_begin c l m = Inr m')) \<and>
    (\<forall>c l. pc c = Rel l \<longrightarrow> (\<exists>m'. release_end c l m = Inr m' \<and> \<not> lk_locked (locks m' l))) \<and>
    (\<forall>c l. l \<notin> h c \<longrightarrow> (\<exists>m'. acquire_enter c l m = Inr m'))"
proof -
  note i = lock_run_inv [OF assms]
  have lk: "lock_ok m pc h l" and dp: "depth_ok m pc h c" for l c using i by (auto simp: lock_inv_def)
  have "c = d" if "l \<in> h c" "l \<in> h d" for l c d using lk [of l] that by (auto simp: lock_ok_def owns_def)
  moreover have "\<not> c_if (cpus m c)" if "h c \<noteq> {}" for c
  proof -
    have "0 < card (h c)" using that dp [of c] by (simp add: card_gt_0_iff depth_ok_def)
    then show ?thesis using dp [of c] by (auto simp: depth_ok_def cli_ok_def split: if_splits)
  qed
  moreover have "\<exists>m'. release_begin c l m = Inr m'" if "l \<in> h c" for c l
    using lock_inv_holding [OF i, of c l] that by (auto simp: release_begin_def)
  moreover have "\<exists>m'. release_end c l m = Inr m' \<and> \<not> lk_locked (locks m' l)" if "pc c = Rel l" for c l
    using dp [of c] that by (auto simp: release_end_def popcli_def Let_def depth_ok_def cli_ok_def)
  moreover have "\<exists>m'. acquire_enter c l m = Inr m'" if "l \<notin> h c" for c l
  proof -
    have "cli_ok (cpus (pushcli c m) c)" using dp [of c] by (simp add: depth_ok_def cli_ok_def pushcli_cpu)
    moreover have "\<not> (lk_locked (locks m l) \<and> lk_cpu (locks m l) = Some c)"
      using lk [of l] that by (auto simp: lock_ok_def)
    ultimately show ?thesis
      using holding_result [of "pushcli c m" c l] by (auto simp: acquire_enter_def pushcli_cpu)
  qed
  ultimately show ?thesis by blast
qed

text \<open>
  Matched calls restore the interrupt flag: \<open>n\<close> calls of \<open>pushcli\<close> turn interrupts off, \<open>n\<close> calls of
  \<open>popcli\<close> after them do not panic and give back the nesting depth and the flag of the start.
\<close>

theorem cli_nesting:
  assumes "cli_ok (cpus m c)" and "0 < n"
  shows "\<not> c_if (cpus ((pushcli c ^^ n) m) c) \<and> (\<exists>m'. popclis n c ((pushcli c ^^ n) m) = Inr m' \<and>
    c_ncli (cpus m' c) = c_ncli (cpus m c) \<and> c_if (cpus m' c) = c_if (cpus m c))"
proof -
  note p = pushclis_state [OF assms]
  have "0 \<le> c_ncli (cpus m c)" using assms(1) by (simp add: cli_ok_def)
  from popclis_state [OF conjunct1 [OF p] this assms(2) conjunct2 [OF conjunct2 [OF p]]] p
  show ?thesis using assms(1) by (auto simp: cli_ok_def)
qed

section \<open>Examples\<close>

definition demo_mach :: mach where
  "demo_mach = \<lparr>cpus = (\<lambda>_. \<lparr>c_ncli = 0, c_intena = False, c_if = True\<rparr>),
     locks = (\<lambda>_. \<lparr>lk_locked = False, lk_cpu = None\<rparr>)\<rparr>"

theorem mutual_exclusion_witness:
  "\<exists>m pc h. lock_run m pc h \<and> 7 \<in> h 0 \<and> 7 \<notin> h 1 \<and> \<not> c_if (cpus m 0) \<and> (\<exists>m'. release_begin 0 7 m = Inr m')"
proof -
  obtain m1 where m1: "acquire_enter 0 7 demo_mach = Inr m1"
    by (simp add: acquire_enter_def holding_def pushcli_def popcli_def demo_mach_def)
  have b: "lock_run demo_mach (\<lambda>_. Idle) (\<lambda>_. {})" by (rule lock_run.boot) (simp_all add: demo_mach_def)
  have "locks m1 7 = \<lparr>lk_locked = False, lk_cpu = None\<rparr>"
    using m1 by (auto simp: acquire_enter_def holding_def pushcli_def popcli_def demo_mach_def split: if_splits)
  then have x: "acquire_xchg 7 m1 = (False, set_lock 7 (\<lambda>k. k\<lparr>lk_locked := True\<rparr>) m1)"
    by (simp add: acquire_xchg_def)
  have "lock_run m1 ((\<lambda>_. Idle)(0 := Spin 7)) (\<lambda>_. {})" by (rule lock_run.enters [OF b _ m1]) simp
  from lock_run.xchgs [OF this _ x, of 0]
  have "lock_run (set_lock 7 (\<lambda>k. k\<lparr>lk_locked := True\<rparr>) m1) ((\<lambda>_. Idle)(0 := Got 7)) (\<lambda>_. {})" by simp
  from lock_run.records [OF this, of 0 7] obtain m pc where
    r: "lock_run m pc ((\<lambda>_. {})(0 := {7}))" by auto
  note p = mutual_exclusion [OF r]
  have "\<not> c_if (cpus m 0)" "\<exists>m'. release_begin 0 7 m = Inr m'" using p by (auto elim!: allE [of _ 0])
  then show ?thesis using r by (intro exI [of _ m] exI [of _ pc] exI) auto
qed

theorem cli_nesting_witness:
  "\<exists>m'. popclis 3 0 ((pushcli 0 ^^ 3) demo_mach) = Inr m' \<and> c_ncli (cpus m' 0) = 0 \<and> c_if (cpus m' 0)"
  using cli_nesting [of demo_mach 0 3] by (auto simp: demo_mach_def cli_ok_def)

end
