(* ===== verification/Proc.thy ===== *)
theory Proc
  imports Sysfile Vm Spinlock
begin

text \<open>
  Processes: \<open>src/proc.c\<close> and \<open>src/proc.h\<close>. A process is its index in \<open>ptable.proc\<close>, and the table is
  part of a state that extends that of the system calls, whose fields for the descriptors, size and
  memory of the running process are kept per process here. \<open>proc_of c\<close> is \<open>c->proc\<close> of CPU
  \<open>c\<close>, and \<open>kmach\<close> has the spin locks and the interrupt state of the CPUs.

  Where the code switches to the scheduler the operation ends, with the state that the scheduler
  finds, and what follows the switch is an operation of its own. The operations that
  end in a switch acquire and release locks as the code does, since \<open>sched\<close> inspects what the CPU
  holds. In \<open>allocproc\<close>, \<open>userinit\<close>, \<open>fork\<close>, \<open>wakeup\<close> and \<open>kill\<close>, which return with the locks they were
  called with, the \<open>acquire\<close> and \<open>release\<close> around the accesses to the table are left out.
  Every operation is one step: of \<open>fork\<close>, \<open>growproc\<close> and the first half of \<open>exit\<close>, which run without
  \<open>ptable.lock\<close>, the model has only the runs that no other CPU interrupts. \<open>kdata\<close>, \<open>trapret\<close> and \<open>forkret_addr\<close>
  are addresses that the linker fixes.
\<close>

section \<open>State\<close>

definition NPROC :: nat where "NPROC = 64"
definition KSTACKSIZE :: nat where "KSTACKSIZE = 4096"

datatype procstate = UNUSED | EMBRYO | SLEEPING | RUNNABLE | RUNNING | ZOMBIE

text \<open>Addresses that processes sleep on: null, \<open>&ptable.proc[p]\<close>, and those of other objects.\<close>

datatype channel = Null_chan | Proc_chan nat | Obj_chan nat

record proc =
  p_sz :: nat
  p_pgdir :: nat
  p_kstack :: nat
  p_state :: procstate
  p_pid :: int
  p_parent :: "nat option"
  p_tf :: nat
  p_context :: nat
  p_chan :: channel
  p_killed :: bool
  p_ofile :: "nat \<Rightarrow> nat option"
  p_cwd :: "nat option"
  p_name :: "nat \<Rightarrow> byte"

record psys = ksys +
  ptable :: "nat \<Rightarrow> proc"
  nextpid :: int
  initproc :: "nat option"
  proc_of :: "nat \<Rightarrow> nat option"
  kdata :: nat
  trapret :: nat
  forkret_addr :: nat
  kmach :: mach

definition set_proc :: "nat \<Rightarrow> (proc \<Rightarrow> proc) \<Rightarrow> 'z psys_scheme \<Rightarrow> 'z psys_scheme" where
  "set_proc p f s = s\<lparr>ptable := (ptable s)(p := f (ptable s p))\<rparr>"

text \<open>Offsets of the fields of \<open>struct trapframe\<close>, and the sizes of it and of \<open>struct context\<close>.\<close>

definition trapframe_bytes :: nat where "trapframe_bytes = 76"
definition tf_eax :: nat where "tf_eax = 28"
definition tf_es :: nat where "tf_es = 40"
definition tf_ds :: nat where "tf_ds = 44"
definition tf_eip :: nat where "tf_eip = 56"
definition tf_cs :: nat where "tf_cs = 60"
definition tf_eflags :: nat where "tf_eflags = 64"
definition tf_esp :: nat where "tf_esp = 68"
definition tf_ss :: nat where "tf_ss = 72"

definition context_bytes :: nat where "context_bytes = 20"
definition ctx_eip :: nat where "ctx_eip = 16"

definition SEG_UCODE :: nat where "SEG_UCODE = 3"
definition SEG_UDATA :: nat where "SEG_UDATA = 4"
definition DPL_USER :: nat where "DPL_USER = 3"
definition FL_IF :: nat where "FL_IF = 0x200"

text \<open>A store to the kernel's memory.\<close>

definition poke :: "(mem \<Rightarrow> mem) \<Rightarrow> 'z psys_scheme \<Rightarrow> 'z psys_scheme" where
  "poke f s = s\<lparr>km := (km s)\<lparr>k_mem := f (k_mem (km s))\<rparr>\<rparr>"

lemma set_proc_simps [simp]:
  "ptable (set_proc p f s) = (ptable s)(p := f (ptable s p))" "nextpid (set_proc p f s) = nextpid s"
  "initproc (set_proc p f s) = initproc s" "proc_of (set_proc p f s) = proc_of s" "kdata (set_proc p f s) = kdata s"
  "kmach (set_proc p f s) = kmach s"
  "km (set_proc p f s) = km s" "kend (set_proc p f s) = kend s" "ftable (set_proc p f s) = ftable s"
  "pipes (set_proc p f s) = pipes s" "icache (set_proc p f s) = icache s"
  by (simp_all add: set_proc_def)

lemma poke_simps [simp]:
  "ptable (poke g s) = ptable s" "nextpid (poke g s) = nextpid s" "initproc (poke g s) = initproc s"
  "proc_of (poke g s) = proc_of s" "kdata (poke g s) = kdata s" "kmach (poke g s) = kmach s" "kend (poke g s) = kend s" "ftable (poke g s) = ftable s"
  "pipes (poke g s) = pipes s" "icache (poke g s) = icache s"
  "k_mem (km (poke g s)) = g (k_mem (km s))" "k_freelist (km (poke g s)) = k_freelist (km s)"
  by (simp_all add: poke_def)

section \<open>Making processes\<close>

definition allocproc :: "'z psys_scheme \<Rightarrow> nat option \<times> 'z psys_scheme" where
  "allocproc s =
     (case find (\<lambda>p. p_state (ptable s p) = UNUSED) [0..<NPROC] of
        None \<Rightarrow> (None, s)
      | Some p \<Rightarrow>
          let s1 = set_proc p (\<lambda>x. x\<lparr>p_state := EMBRYO, p_pid := nextpid s\<rparr>) s;
              s2 = s1\<lparr>nextpid := sint32 (pat32 (nextpid s + 1))\<rparr>;
              (k, m) = kalloc (km s2);
              s3 = set_proc p (\<lambda>x. x\<lparr>p_kstack := k\<rparr>) (s2\<lparr>km := m\<rparr>)
          in if k = 0 then (None, set_proc p (\<lambda>x. x\<lparr>p_state := UNUSED\<rparr>) s3)
             else
               let tf = k + KSTACKSIZE - trapframe_bytes;
                   ctx = tf - 4 - context_bytes
               in (Some p, poke (\<lambda>d. put32 (memset (put32 d (tf - 4) (trapret s)) ctx 0 context_bytes) (ctx + ctx_eip) (forkret_addr s))
                     (set_proc p (\<lambda>x. x\<lparr>p_tf := tf, p_context := ctx\<rparr>) s3)))"

text \<open>
  \<open>userinit\<close>: \<open>init\<close> are the \<open>isz\<close> bytes of the first program. A null process from \<open>allocproc\<close> is
  dereferenced.
\<close>

definition userinit :: "'z psys_scheme devsw \<Rightarrow> (nat \<Rightarrow> byte) \<Rightarrow> nat \<Rightarrow> 'z psys_scheme \<Rightarrow> 'z psys_scheme res" where
  "userinit devsw init isz s =
     (case allocproc s of
        (None, _) \<Rightarrow> Inl (Undef ''p->pgdir'')
      | (Some p, s1) \<Rightarrow>
          rbind (setupkvm (kend s1) (kdata s1) (km s1)) (\<lambda>(d, m).
            if d = 0 then Inl (Panic ''userinit: out of memory?'')
            else
              rbind (inituvm d init isz m) (\<lambda>m1.
                let s2 = set_proc p (\<lambda>x. x\<lparr>p_pgdir := d, p_sz := PGSIZE\<rparr>) (s1\<lparr>initproc := Some p, km := m1\<rparr>);
                    tf = p_tf (ptable s2 p);
                    uds = SEG_UDATA * 8 + DPL_USER;
                    s3 = poke (\<lambda>m. memset m tf 0 trapframe_bytes) s2;
                    s4 = poke (\<lambda>m. put16 m (tf + tf_cs) (SEG_UCODE * 8 + DPL_USER)) s3;
                    s5 = poke (\<lambda>m. put16 (put16 (put16 m (tf + tf_ds) uds) (tf + tf_es) uds) (tf + tf_ss) uds) s4;
                    s6 = poke (\<lambda>m. put32 (put32 (put32 m (tf + tf_eflags) FL_IF) (tf + tf_esp) PGSIZE) (tf + tf_eip) 0) s5;
                    s7 = set_proc p (\<lambda>x. x\<lparr>p_name := safestrcpy (p_name x) (bytes_at [105, 110, 105, 116, 99, 111, 100, 101]) 16\<rparr>) s6
                in rbind (namei devsw [slash] s7) (\<lambda>(cwd, s8).
                   Inr (set_proc p (\<lambda>x. x\<lparr>p_cwd := cwd, p_state := RUNNABLE\<rparr>) s8)))))"

text \<open>\<open>switchuvm\<close>: its checks; the registers that it loads are not part of the state.\<close>

definition switchuvm :: "nat option \<Rightarrow> 'z psys_scheme \<Rightarrow> 'z psys_scheme res" where
  "switchuvm p s =
     (case p of
        None \<Rightarrow> Inl (Panic ''switchuvm: no process'')
      | Some q \<Rightarrow>
          if p_kstack (ptable s q) = 0 then Inl (Panic ''switchuvm: no kstack'')
          else if p_pgdir (ptable s q) = 0 then Inl (Panic ''switchuvm: no pgdir'')
          else Inr s)"

definition growproc :: "nat \<Rightarrow> int \<Rightarrow> 'z psys_scheme \<Rightarrow> (int \<times> 'z psys_scheme) res" where
  "growproc cur n s =
     (let sz = p_sz (ptable s cur); d = p_pgdir (ptable s cur);
          fin = (\<lambda>sz s1. rbind (switchuvm (Some cur) (set_proc cur (\<lambda>x. x\<lparr>p_sz := sz\<rparr>) s1)) (\<lambda>s2. Inr (0, s2)))
      in if n > 0 then
           rbind (allocuvm (kend s) d sz (uadd sz (pat32 n)) (km s)) (\<lambda>(sz', m).
             if sz' = 0 then Inr (-1, s\<lparr>km := m\<rparr>) else fin sz' (s\<lparr>km := m\<rparr>))
         else if n < 0 then
           rbind (deallocuvm (kend s) d sz (uadd sz (pat32 n)) (km s)) (\<lambda>(sz', m).
             if sz' = 0 then Inr (-1, s\<lparr>km := m\<rparr>) else fin sz' (s\<lparr>km := m\<rparr>))
         else fin sz s)"

text \<open>The loop of \<open>fork\<close> over the descriptors.\<close>

definition fork_files :: "nat \<Rightarrow> nat \<Rightarrow> 'z psys_scheme \<Rightarrow> 'z psys_scheme res" where
  "fork_files cur np =
     rfor [0..<NOFILE] (\<lambda>i s.
       case p_ofile (ptable s cur) i of
         None \<Rightarrow> Inr s
       | Some f \<Rightarrow> rbind (filedup f s) (\<lambda>(g, s1). Inr (set_proc np (\<lambda>x. x\<lparr>p_ofile := (p_ofile x)(i := Some g)\<rparr>) s1)))"

definition fork :: "nat \<Rightarrow> 'z psys_scheme \<Rightarrow> (int \<times> 'z psys_scheme) res" where
  "fork cur s =
     (case allocproc s of
        (None, s1) \<Rightarrow> Inr (-1, s1)
      | (Some np, s1) \<Rightarrow>
          rbind (copyuvm (kend s1) (kdata s1) (p_pgdir (ptable s1 cur)) (p_sz (ptable s1 cur)) (km s1)) (\<lambda>(d, m).
            let s2 = set_proc np (\<lambda>x. x\<lparr>p_pgdir := d\<rparr>) (s1\<lparr>km := m\<rparr>) in
            if d = 0 then
              rbind (kfree (kend s2) (p_kstack (ptable s2 np)) (km s2)) (\<lambda>m1.
              Inr (-1, set_proc np (\<lambda>x. x\<lparr>p_kstack := 0, p_state := UNUSED\<rparr>) (s2\<lparr>km := m1\<rparr>)))
            else
              let s3 = set_proc np (\<lambda>x. x\<lparr>p_sz := p_sz (ptable s2 cur), p_parent := Some cur\<rparr>) s2;
                  tf = p_tf (ptable s3 np);
                  s4 = poke (\<lambda>m. put32 (memmove m tf (p_tf (ptable s3 cur)) trapframe_bytes) (tf + tf_eax) 0) s3
              in rbind (fork_files cur np s4) (\<lambda>s5.
                 case p_cwd (ptable s5 cur) of
                   None \<Rightarrow> Inl (Undef ''curproc->cwd'')
                 | Some ip \<Rightarrow>
                     let (ip', s6) = idup ip s5;
                         s7 = set_proc np (\<lambda>x. x\<lparr>p_cwd := Some ip', p_name := safestrcpy (p_name x) (p_name (ptable s6 cur)) 16\<rparr>) s6;
                         pid = p_pid (ptable s7 np)
                     in Inr (pid, set_proc np (\<lambda>x. x\<lparr>p_state := RUNNABLE\<rparr>) s7))))"

section \<open>Sleeping and waking\<close>

definition wakeup1 :: "channel \<Rightarrow> 'z psys_scheme \<Rightarrow> 'z psys_scheme" where
  "wakeup1 chan s =
     s\<lparr>ptable := (\<lambda>p. if p < NPROC \<and> p_state (ptable s p) = SLEEPING \<and> p_chan (ptable s p) = chan
       then (ptable s p)\<lparr>p_state := RUNNABLE\<rparr> else ptable s p)\<rparr>"

definition wakeup :: "channel \<Rightarrow> 'z psys_scheme \<Rightarrow> 'z psys_scheme" where
  "wakeup chan s = wakeup1 chan s"

text \<open>Locks of the machine: \<open>ptable.lock\<close>, and how an operation on CPU \<open>c\<close> acquires and releases a lock.\<close>

definition ptable_lock :: nat where "ptable_lock = 0"

definition acq :: "nat \<Rightarrow> nat \<Rightarrow> 'z psys_scheme \<Rightarrow> 'z psys_scheme res" where
  "acq c l s = rbind (acquire c l (kmach s)) (\<lambda>m. Inr (s\<lparr>kmach := m\<rparr>))"

definition rel :: "nat \<Rightarrow> nat \<Rightarrow> 'z psys_scheme \<Rightarrow> 'z psys_scheme res" where
  "rel c l s = rbind (release c l (kmach s)) (\<lambda>m. Inr (s\<lparr>kmach := m\<rparr>))"

text \<open>
  \<open>sched\<close> of process \<open>p\<close> on CPU \<open>c\<close>, up to the switch; the panic in the middle is the one of \<open>mycpu\<close>.
  After the switch back, on the CPU \<open>c\<close> that resumes the process, \<open>intena\<close> is what \<open>mycpu()->intena\<close>
  was before it.
\<close>

definition sched :: "nat \<Rightarrow> nat \<Rightarrow> 'z psys_scheme \<Rightarrow> 'z psys_scheme res" where
  "sched c p s =
     rbind (holding c ptable_lock (kmach s)) (\<lambda>(h, m).
       if \<not> h then Inl (Panic ''sched ptable.lock'')
       else if c_if (cpus m c) then Inl (Panic ''mycpu called with interrupts enabled'')
       else if c_ncli (cpus m c) \<noteq> 1 then Inl (Panic ''sched locks'')
       else if p_state (ptable s p) = RUNNING then Inl (Panic ''sched running'')
       else if c_if (cpus m c) then Inl (Panic ''sched interruptible'')
       else Inr (s\<lparr>kmach := m\<rparr>))"

definition sched_end :: "nat \<Rightarrow> bool \<Rightarrow> 'z psys_scheme \<Rightarrow> 'z psys_scheme" where
  "sched_end c intena s = s\<lparr>kmach := set_cpu c (\<lambda>x. x\<lparr>c_intena := intena\<rparr>) (kmach s)\<rparr>"

definition yield :: "nat \<Rightarrow> nat \<Rightarrow> 'z psys_scheme \<Rightarrow> 'z psys_scheme res" where
  "yield c p s =
     rbind (acq c ptable_lock s) (\<lambda>s1. sched c p (set_proc p (\<lambda>x. x\<lparr>p_state := RUNNABLE\<rparr>) s1))"

definition yield_end :: "nat \<Rightarrow> bool \<Rightarrow> 'z psys_scheme \<Rightarrow> 'z psys_scheme res" where
  "yield_end c intena s = rel c ptable_lock (sched_end c intena s)"

text \<open>The first thing a new process runs; the initialisation of the file systems by the first one is not here.\<close>

definition forkret :: "nat \<Rightarrow> 'z psys_scheme \<Rightarrow> 'z psys_scheme res" where
  "forkret c s = rel c ptable_lock s"

text \<open>\<open>sleep\<close> up to the switch, and after it.\<close>

definition sleep_begin :: "nat \<Rightarrow> channel \<Rightarrow> nat option \<Rightarrow> nat option \<Rightarrow> 'z psys_scheme \<Rightarrow> 'z psys_scheme res" where
  "sleep_begin c chan lk p s =
     (case p of
        None \<Rightarrow> Inl (Panic ''sleep'')
      | Some q \<Rightarrow>
          (case lk of
             None \<Rightarrow> Inl (Panic ''sleep without lk'')
           | Some l \<Rightarrow>
               rbind (if l \<noteq> ptable_lock then rbind (acq c ptable_lock s) (rel c l) else Inr s) (\<lambda>s1.
               sched c q (set_proc q (\<lambda>x. x\<lparr>p_chan := chan, p_state := SLEEPING\<rparr>) s1))))"

definition sleep_end :: "nat \<Rightarrow> bool \<Rightarrow> nat \<Rightarrow> nat \<Rightarrow> 'z psys_scheme \<Rightarrow> 'z psys_scheme res" where
  "sleep_end c intena l p s =
     (let s1 = set_proc p (\<lambda>x. x\<lparr>p_chan := Null_chan\<rparr>) (sched_end c intena s) in
      if l \<noteq> ptable_lock then rbind (rel c ptable_lock s1) (acq c l) else Inr s1)"

definition kill :: "int \<Rightarrow> 'z psys_scheme \<Rightarrow> int \<times> 'z psys_scheme" where
  "kill pid s =
     (case find (\<lambda>p. p_pid (ptable s p) = pid) [0..<NPROC] of
        None \<Rightarrow> (-1, s)
      | Some p \<Rightarrow>
          (0, set_proc p (\<lambda>x. x\<lparr>p_killed := True, p_state := (if p_state x = SLEEPING then RUNNABLE else p_state x)\<rparr>) s))"

section \<open>Ending processes\<close>

definition exit_files :: "nat \<Rightarrow> 'z psys_scheme \<Rightarrow> 'z psys_scheme res" where
  "exit_files cur =
     rfor [0..<NOFILE] (\<lambda>fd s.
       case p_ofile (ptable s cur) fd of
         None \<Rightarrow> Inr s
       | Some f \<Rightarrow> rbind (fileclose f s) (\<lambda>s1. Inr (set_proc cur (\<lambda>x. x\<lparr>p_ofile := (p_ofile x)(fd := None)\<rparr>) s1)))"

definition parent_chan :: "nat option \<Rightarrow> channel" where
  "parent_chan p = (case p of None \<Rightarrow> Null_chan | Some q \<Rightarrow> Proc_chan q)"

text \<open>One turn of the loop that passes abandoned children to init.\<close>

definition reparent_one :: "nat \<Rightarrow> nat \<Rightarrow> 'z psys_scheme \<Rightarrow> 'z psys_scheme" where
  "reparent_one cur p s =
     (if p_parent (ptable s p) = Some cur then
        let s1 = set_proc p (\<lambda>x. x\<lparr>p_parent := initproc s\<rparr>) s in
        if p_state (ptable s1 p) = ZOMBIE then wakeup1 (parent_chan (initproc s1)) s1 else s1
      else s)"

definition exit :: "nat \<Rightarrow> nat \<Rightarrow> 'z psys_scheme \<Rightarrow> 'z psys_scheme res" where
  "exit c cur s =
     (if initproc s = Some cur then Inl (Panic ''init exiting'')
      else
        rbind (exit_files cur s) (\<lambda>s1.
        rbind (begin_op s1) (\<lambda>s2.
          case p_cwd (ptable s2 cur) of
            None \<Rightarrow> Inl (Undef ''curproc->cwd'')
          | Some ip \<Rightarrow>
              rbind (vop_iput ip s2) (\<lambda>s3.
              rbind (end_op s3) (\<lambda>s4.
              rbind (acq c ptable_lock (set_proc cur (\<lambda>x. x\<lparr>p_cwd := None\<rparr>) s4)) (\<lambda>s5.
                let s6 = wakeup1 (parent_chan (p_parent (ptable s5 cur))) s5;
                    s7 = fold (reparent_one cur) [0..<NPROC] s6
                in sched c cur (set_proc cur (\<lambda>x. x\<lparr>p_state := ZOMBIE\<rparr>) s7)))))))"

text \<open>
  One turn of the loop of \<open>wait\<close>, with \<open>ptable.lock\<close> held: the result is the returned value, or \<open>None\<close> when the
  process goes to sleep, to take the next turn after \<open>sleep_end\<close>.
\<close>

definition wait_turn :: "nat \<Rightarrow> nat \<Rightarrow> 'z psys_scheme \<Rightarrow> (int option \<times> 'z psys_scheme) res" where
  "wait_turn c cur s =
     (case find (\<lambda>p. p_parent (ptable s p) = Some cur \<and> p_state (ptable s p) = ZOMBIE) [0..<NPROC] of
        Some p \<Rightarrow>
          let pid = p_pid (ptable s p) in
          rbind (kfree (kend s) (p_kstack (ptable s p)) (km s)) (\<lambda>m1.
          rbind (freevm (kend s) (p_pgdir (ptable s p)) m1) (\<lambda>m2.
          rbind (rel c ptable_lock (set_proc p (\<lambda>x. x\<lparr>p_kstack := 0, p_pid := 0, p_parent := None, p_name := (p_name x)(0 := 0),
            p_killed := False, p_state := UNUSED\<rparr>) (s\<lparr>km := m2\<rparr>))) (\<lambda>s1.
          Inr (Some pid, s1))))
      | None \<Rightarrow>
          if \<not> (\<exists>p \<in> {0..<NPROC}. p_parent (ptable s p) = Some cur) \<or> p_killed (ptable s cur)
          then rbind (rel c ptable_lock s) (\<lambda>s1. Inr (Some (-1), s1))
          else rbind (sleep_begin c (Proc_chan cur) (Some ptable_lock) (Some cur) s) (\<lambda>s1. Inr (None, s1)))"

definition wait :: "nat \<Rightarrow> nat \<Rightarrow> 'z psys_scheme \<Rightarrow> (int option \<times> 'z psys_scheme) res" where
  "wait c cur s = rbind (acq c ptable_lock s) (wait_turn c cur)"

section \<open>The scheduler\<close>

text \<open>
  One turn of the endless loop of CPU \<open>c\<close>: interrupts on and \<open>ptable.lock\<close> acquired; the scan from index \<open>i\<close>
  on, up to the switch to the process it returns, or \<open>None\<close> with the lock released at the end
  of the table; and what it does when the process comes back, to go on with the scan.
\<close>

definition scheduler_start :: "nat \<Rightarrow> 'z psys_scheme \<Rightarrow> 'z psys_scheme res" where
  "scheduler_start c s = acq c ptable_lock (s\<lparr>kmach := set_cpu c (\<lambda>x. x\<lparr>c_if := True\<rparr>) (kmach s)\<rparr>)"

definition scheduler_scan :: "nat \<Rightarrow> nat \<Rightarrow> 'z psys_scheme \<Rightarrow> (nat option \<times> 'z psys_scheme) res" where
  "scheduler_scan c i s =
     (case find (\<lambda>p. p_state (ptable s p) = RUNNABLE) [i..<NPROC] of
        None \<Rightarrow> rbind (rel c ptable_lock s) (\<lambda>s1. Inr (None, s1))
      | Some p \<Rightarrow>
          rbind (switchuvm (Some p) (s\<lparr>proc_of := (proc_of s)(c := Some p)\<rparr>)) (\<lambda>s1.
          Inr (Some p, set_proc p (\<lambda>x. x\<lparr>p_state := RUNNING\<rparr>) s1)))"

definition scheduler_back :: "nat \<Rightarrow> 'z psys_scheme \<Rightarrow> 'z psys_scheme" where
  "scheduler_back c s = s\<lparr>proc_of := (proc_of s)(c := None)\<rparr>"

end
