(* ===== verification/Vm_Map.thy ===== *)
theory Vm_Map
  imports Vm
begin

text \<open>
  What a page table means. \<open>pte_of\<close> reads a two-level table as a function from virtual page numbers
  to entries, 0 where there is none; \<open>pt_wf\<close> says that the pages of the table are distinct pages
  of the allocator, none of them free. Walking, mapping and copying are then updates of functions.
\<close>

section \<open>Arithmetic\<close>

lemma or_low:
  assumes "a mod 4096 = (0 :: nat)" and "b < 4096"
  shows "a OR b = a + b"
proof -
  obtain k where a: "a = 4096 * k" using assms(1) by (auto simp: mod_eq_0_iff_dvd)
  have "\<not> bit a n \<or> \<not> bit b n" for n
  proof (cases "n < 12")
    case True
    then have "\<not> bit (push_bit 12 k) n" by (simp add: bit_push_bit_iff)
    then show ?thesis using a by (simp add: push_bit_eq_mult mult.commute)
  next
    case False
    have "b < 2 ^ n" using assms(2) False power_increasing [of 12 n "2 :: nat"] by simp
    then have "\<not> bit b n" by (simp add: bit_iff_odd)
    then show ?thesis by simp
  qed
  then show ?thesis by (simp add: disjunctive_add)
qed

lemma and_PTE_P: "e AND PTE_P \<noteq> 0 \<longleftrightarrow> odd e" "e AND PTE_P = 0 \<longleftrightarrow> even e"
  by (simp_all add: PTE_P_def and_one_eq mod2_eq_if)

lemma page_ok_range:
  assumes "page_ok kend p"
  shows "0x80000000 \<le> p" "p < 0x8E000000" "p mod 4096 = 0" "p + 4096 \<le> 0x8E000000"
proof -
  have p: "p < 2 ^ 32" "(p + 2 ^ 32 - 0x80000000) mod 2 ^ 32 < 0xE000000" "p mod 4096 = 0"
    using assms by (simp_all add: page_ok_def V2P_def usub_def page_consts)
  then show a: "0x80000000 \<le> p" by (cases "0x80000000 \<le> p") simp_all
  then show b: "p < 0x8E000000" using p by (simp add: mod_if split: if_splits)
  show "p mod 4096 = 0" by (rule p(3))
  then obtain k where "p = 4096 * k" by auto
  then show "p + 4096 \<le> 0x8E000000" using b by simp
qed

lemma V2P_page: "page_ok kend p \<Longrightarrow> V2P p = p - 0x80000000"
  using page_ok_range [of kend p] by (simp add: V2P_def usub_small KERNBASE_def)

lemma V2P_aligned:
  assumes "page_ok kend p"
  shows "V2P p mod 4096 = 0" "V2P p < 0xE000000"
proof -
  obtain k where k: "p = 4096 * k" using page_ok_range(3) [OF assms] by auto
  have "p - 0x80000000 = 4096 * (k - 0x80000)" using k by simp
  then show "V2P p mod 4096 = 0" by (simp add: V2P_page [OF assms])
  show "V2P p < 0xE000000" using page_ok_range(1,2) [OF assms] by (simp add: V2P_page [OF assms])
qed

lemma entry_fields:
  assumes "pa mod 4096 = (0 :: nat)" and "fl < 4096"
  shows "PTE_ADDR (pa OR fl) = pa" "PTE_FLAGS (pa OR fl) = fl" "odd (pa OR fl) = odd fl"
proof -
  obtain k where k: "pa = 4096 * k" using assms(1) by auto
  show "PTE_ADDR (pa OR fl) = pa" "PTE_FLAGS (pa OR fl) = fl"
    using assms(2) unfolding or_low [OF assms] PTE_ADDR_def PTE_FLAGS_def by (simp_all add: k)
  show "odd (pa OR fl) = odd fl" unfolding or_low [OF assms] by (simp add: k)
qed

lemma P2V_V2P: "page_ok kend p \<Longrightarrow> P2V (V2P p) = p"
  using page_ok_range [of kend p] by (simp add: V2P_page P2V_def uadd_small KERNBASE_def)

lemma new_pde:
  assumes "page_ok kend p"
  shows "P2V (PTE_ADDR (V2P p OR PTE_P OR PTE_W OR PTE_U)) = p" "odd (V2P p OR PTE_P OR PTE_W OR PTE_U)"
    "V2P p OR PTE_P OR PTE_W OR PTE_U < 4294967296"
proof -
  have f: "PTE_P OR PTE_W OR PTE_U = 7" by (simp add: PTE_P_def PTE_W_def PTE_U_def)
  note e = entry_fields [OF V2P_aligned(1) [OF assms], of 7]
  show "P2V (PTE_ADDR (V2P p OR PTE_P OR PTE_W OR PTE_U)) = p" unfolding f
    using e(1) P2V_V2P [OF assms] by simp
  show "odd (V2P p OR PTE_P OR PTE_W OR PTE_U)" unfolding f using e(3) by simp
  show "V2P p OR PTE_P OR PTE_W OR PTE_U < 4294967296"
    unfolding f using or_low [OF V2P_aligned(1) [OF assms], of 7] V2P_aligned(2) [OF assms] by simp
qed

section \<open>Tables\<close>

definition pde :: "'z kmem_scheme \<Rightarrow> nat \<Rightarrow> nat \<Rightarrow> nat" where
  "pde m pgdir i = word_at m (pgdir + 4 * i)"

definition pt_of :: "'z kmem_scheme \<Rightarrow> nat \<Rightarrow> nat \<Rightarrow> nat" where
  "pt_of m pgdir i = P2V (PTE_ADDR (pde m pgdir i))"

definition pte_of :: "'z kmem_scheme \<Rightarrow> nat \<Rightarrow> nat \<Rightarrow> nat" where
  "pte_of m pgdir v =
     (if v < 2 ^ 20 \<and> odd (pde m pgdir (v div 1024)) then word_at m (pt_of m pgdir (v div 1024) + 4 * (v mod 1024)) else 0)"

definition tables :: "'z kmem_scheme \<Rightarrow> nat \<Rightarrow> nat set" where
  "tables m pgdir = insert pgdir (pt_of m pgdir ` {i. i < 1024 \<and> odd (pde m pgdir i)})"

definition pt_wf :: "nat \<Rightarrow> 'z kmem_scheme \<Rightarrow> nat \<Rightarrow> nat list \<Rightarrow> bool" where
  "pt_wf kend m pgdir ps \<longleftrightarrow> free_pages kend m ps \<and> (\<forall>q \<in> tables m pgdir. page_ok kend q \<and> q \<notin> set ps) \<and>
     pgdir \<notin> pt_of m pgdir ` {i. i < 1024 \<and> odd (pde m pgdir i)} \<and>
     inj_on (pt_of m pgdir) {i. i < 1024 \<and> odd (pde m pgdir i)}"

text \<open>Bytes that belong to none of some pages.\<close>

definition off_pages :: "nat set \<Rightarrow> nat \<Rightarrow> bool" where
  "off_pages Q a \<longleftrightarrow> (\<forall>q \<in> Q. a < q \<or> q + 4096 \<le> a)"

definition same_off :: "nat set \<Rightarrow> 'z kmem_scheme \<Rightarrow> 'z kmem_scheme \<Rightarrow> bool" where
  "same_off Q m m' \<longleftrightarrow> (\<forall>a. off_pages Q a \<longrightarrow> k_mem m' a = k_mem m a)"

lemma same_off_refl [simp]: "same_off Q m m"
  by (simp add: same_off_def)

lemma same_off_mono: "same_off Q m m' \<Longrightarrow> Q \<subseteq> R \<Longrightarrow> same_off R m m'"
  by (auto simp: same_off_def off_pages_def)

lemma same_off_trans: "same_off Q m m' \<Longrightarrow> same_off Q m' m'' \<Longrightarrow> same_off Q m m''"
  by (simp add: same_off_def)

lemma off_page:
  assumes "page_ok kend p" and "page_ok kend' q" and "p \<noteq> q" and "i < 4096"
  shows "p + i < q \<or> q + 4096 \<le> p + i"
proof (rule ccontr)
  assume "\<not> ?thesis"
  then have "p + i = q + (p + i - q)" "p + i - q < PGSIZE" unfolding PGSIZE_def by linarith+
  then show False using pages_apart [OF assms(2,1,3), of i "p + i - q"] assms(4) by (simp add: PGSIZE_def)
qed

lemma word_cong: "(\<And>i. i < 4 \<Longrightarrow> k_mem m' (a + i) = k_mem m (a + i)) \<Longrightarrow> word_at m' a = word_at m a"
proof -
  assume "\<And>i. i < 4 \<Longrightarrow> k_mem m' (a + i) = k_mem m (a + i)"
  from this [of 0] this [of 1] this [of 2] this [of 3] show ?thesis by (simp add: get32_def)
qed

lemma same_off_word:
  assumes "same_off Q m m'" and "\<forall>q \<in> Q. page_ok kend q" and "page_ok kend p" and "p \<notin> Q" and "i < 1024"
  shows "word_at m' (p + 4 * i) = word_at m (p + 4 * i)"
proof (rule word_cong)
  fix j :: nat assume j: "j < 4"
  have "off_pages Q (p + (4 * i + j))"
    unfolding off_pages_def using assms(2-5) j by (intro ballI off_page [of kend _ kend]) auto
  then show "k_mem m' (p + 4 * i + j) = k_mem m (p + 4 * i + j)"
    using assms(1) by (simp add: same_off_def add.assoc)
qed

lemma same_off_chain:
  assumes "same_off Q m m'" and "\<forall>q \<in> Q. page_ok kend q" and "\<forall>p \<in> set ps. page_ok kend p \<and> p \<notin> Q"
  shows "chain (k_mem m') p ps = chain (k_mem m) p ps"
proof (rule chain_cong)
  fix x i assume x: "x \<in> set ps" and i: "i < (4 :: nat)"
  have "off_pages Q (x + i)"
    unfolding off_pages_def using assms(2,3) x i by (intro ballI off_page [of kend _ kend]) auto
  then show "k_mem m' (x + i) = k_mem m (x + i)" using assms(1) by (simp add: same_off_def)
qed

lemma vpn_index: "v < 2 ^ 20 \<Longrightarrow> v div 1024 < (1024 :: nat)"
  by (simp add: less_mult_imp_div_less)

lemma pt_wf_D:
  assumes "pt_wf kend m pgdir ps"
  shows "page_ok kend pgdir" "pgdir \<notin> set ps" "free_pages kend m ps"
    "\<And>i. i < 1024 \<Longrightarrow> odd (pde m pgdir i) \<Longrightarrow> page_ok kend (pt_of m pgdir i) \<and> pt_of m pgdir i \<notin> set ps \<and> pt_of m pgdir i \<noteq> pgdir"
    "\<And>i j. i < 1024 \<Longrightarrow> j < 1024 \<Longrightarrow> odd (pde m pgdir i) \<Longrightarrow> odd (pde m pgdir j) \<Longrightarrow> pt_of m pgdir i = pt_of m pgdir j \<Longrightarrow> i = j"
proof -
  have "pgdir \<notin> pt_of m pgdir ` {i. i < 1024 \<and> odd (pde m pgdir i)}" using assms by (simp add: pt_wf_def)
  then have "pt_of m pgdir i \<noteq> pgdir" if "i < 1024" "odd (pde m pgdir i)" for i using that by (auto simp: image_iff)
  with assms show "\<And>i. i < 1024 \<Longrightarrow> odd (pde m pgdir i) \<Longrightarrow>
      page_ok kend (pt_of m pgdir i) \<and> pt_of m pgdir i \<notin> set ps \<and> pt_of m pgdir i \<noteq> pgdir"
    by (simp add: pt_wf_def tables_def)
qed (use assms in \<open>auto simp: pt_wf_def tables_def inj_on_def\<close>)

text \<open>Memory that changes elsewhere leaves a table as it is.\<close>

lemma table_cong:
  assumes wf: "pt_wf kend m pgdir ps" and s: "same_off Q m m'" and Q: "\<forall>q \<in> Q. page_ok kend q"
    and dis: "Q \<inter> tables m pgdir = {}"
  shows "i < 1024 \<Longrightarrow> pde m' pgdir i = pde m pgdir i" "tables m' pgdir = tables m pgdir"
    "pte_of m' pgdir = pte_of m pgdir"
proof -
  note d = pt_wf_D [OF wf]
  have "pgdir \<notin> Q" using dis by (auto simp: tables_def)
  then have e: "pde m' pgdir i = pde m pgdir i" if "i < 1024" for i
    using same_off_word [OF s Q d(1)] that by (simp add: pde_def)
  then show "i < 1024 \<Longrightarrow> pde m' pgdir i = pde m pgdir i" .
  have p: "pt_of m' pgdir i = pt_of m pgdir i" if "i < 1024" for i using e [OF that] by (simp add: pt_of_def)
  have "{i. i < 1024 \<and> odd (pde m' pgdir i)} = {i. i < 1024 \<and> odd (pde m pgdir i)}" using e by auto
  moreover have "pt_of m' pgdir ` {i. i < 1024 \<and> odd (pde m pgdir i)} = pt_of m pgdir ` {i. i < 1024 \<and> odd (pde m pgdir i)}"
    using p by (intro image_cong) auto
  ultimately show "tables m' pgdir = tables m pgdir" by (simp add: tables_def)
  show "pte_of m' pgdir = pte_of m pgdir"
  proof
    fix v
    show "pte_of m' pgdir v = pte_of m pgdir v"
    proof (cases "v < 2 ^ 20 \<and> odd (pde m pgdir (v div 1024))")
      case True
      let ?q = "pt_of m pgdir (v div 1024)"
      have i: "v div 1024 < 1024" using True vpn_index by blast
      then have "page_ok kend ?q" "?q \<notin> Q" using d(4) True dis by (auto simp: tables_def)
      then have "word_at m' (?q + 4 * (v mod 1024)) = word_at m (?q + 4 * (v mod 1024))"
        by (intro same_off_word [OF s Q]) simp_all
      then show ?thesis using True i e p by (simp add: pte_of_def)
    next
      case False
      then show ?thesis using e vpn_index by (auto simp: pte_of_def)
    qed
  qed
qed

lemma set_word_off:
  assumes "i < 1024"
  shows "same_off {q} m (set_word (q + 4 * i) e m)"
  using assms by (auto simp: same_off_def off_pages_def set_word_def put32_out)

lemma word_set_word:
  assumes "e < 4294967296"
  shows "word_at (set_word (q + 4 * i) e m) (q + 4 * k) = (if k = i then e else word_at m (q + 4 * k))"
proof (cases "k = i")
  case False
  then have "4 * k + 4 \<le> 4 * i \<or> 4 * i + 4 \<le> 4 * k" by linarith
  then show ?thesis using False by (simp add: set_word_def get32_put32_other)
qed (use assms in \<open>simp add: set_word_def\<close>)

lemma zero_page_off: "same_off {p} m (zero_page p m)"
  by (auto simp: same_off_def off_pages_def zero_page_def memset_eq PGSIZE_def)

lemma zero_page_word: "i < 1024 \<Longrightarrow> word_at (zero_page p m) (p + 4 * i) = 0"
  by (simp add: zero_page_def memset_eq PGSIZE_def get32_def)

lemma free_pages_off:
  assumes "free_pages kend m ps" and "same_off Q m m'" and "\<forall>q \<in> Q. page_ok kend q" and "set ps \<inter> Q = {}"
    and "k_freelist m' = k_freelist m"
  shows "free_pages kend m' ps"
proof -
  have "\<forall>p \<in> set ps. page_ok kend p \<and> p \<notin> Q" using assms(1,4) by (auto simp: free_pages_def)
  then show ?thesis using assms(1,5) same_off_chain [OF assms(2,3)] by (simp add: free_pages_def)
qed

text \<open>Storing an entry in a table that is there.\<close>

lemma set_pte:
  assumes wf: "pt_wf kend m pgdir ps" and i: "i < 1024" "odd (pde m pgdir i)" and j: "j < 1024"
    and e: "e < 4294967296" and m': "m' = set_word (pt_of m pgdir i + 4 * j) e m"
  shows "pt_wf kend m' pgdir ps" "pte_of m' pgdir = (pte_of m pgdir)(i * 1024 + j := e)"
    "tables m' pgdir = tables m pgdir" "same_off (tables m pgdir) m m'"
proof -
  note d = pt_wf_D [OF wf]
  let ?q = "pt_of m pgdir i"
  have q: "page_ok kend ?q" "?q \<notin> set ps" "?q \<noteq> pgdir" using d(4) [OF i] by auto
  have off: "same_off {?q} m m'" unfolding m' by (rule set_word_off [OF j])
  have "?q \<in> tables m pgdir" using i by (auto simp: tables_def)
  then show o: "same_off (tables m pgdir) m m'" using same_off_mono [OF off] by simp
  have pd: "pde m' pgdir k = pde m pgdir k" if "k < 1024" for k
    using same_off_word [OF off _ d(1) _ that] q by (simp add: pde_def)
  then have pt: "pt_of m' pgdir k = pt_of m pgdir k" if "k < 1024" for k using that by (simp add: pt_of_def)
  have S: "{i. i < 1024 \<and> odd (pde m' pgdir i)} = {i. i < 1024 \<and> odd (pde m pgdir i)}" using pd by auto
  have I: "pt_of m' pgdir ` {i. i < 1024 \<and> odd (pde m pgdir i)} = pt_of m pgdir ` {i. i < 1024 \<and> odd (pde m pgdir i)}"
    using pt by (intro image_cong) auto
  show T: "tables m' pgdir = tables m pgdir" by (simp add: tables_def S I)
  have "inj_on (pt_of m' pgdir) {i. i < 1024 \<and> odd (pde m pgdir i)}"
    using wf pt by (auto simp: pt_wf_def inj_on_def)
  moreover have "free_pages kend m' ps"
    using free_pages_off [OF d(3) off] q by (simp add: m' set_word_def)
  ultimately show "pt_wf kend m' pgdir ps" using wf by (simp add: pt_wf_def T S I)
  show "pte_of m' pgdir = (pte_of m pgdir)(i * 1024 + j := e)"
  proof
    fix v
    show "pte_of m' pgdir v = ((pte_of m pgdir)(i * 1024 + j := e)) v"
    proof (cases "v < 2 ^ 20 \<and> odd (pde m pgdir (v div 1024))")
      case True
      let ?k = "v div 1024"
      have k: "?k < 1024" using True vpn_index by blast
      have "word_at m' (pt_of m pgdir ?k + 4 * (v mod 1024)) =
          (if v = i * 1024 + j then e else word_at m (pt_of m pgdir ?k + 4 * (v mod 1024)))"
      proof (cases "?k = i")
        case ki: True
        have "v = i * 1024 + v mod 1024" using ki by (metis div_mult_mod_eq)
        then have "v = i * 1024 + j \<longleftrightarrow> v mod 1024 = j" by linarith
        then show ?thesis using ki by (simp add: m' word_set_word [OF e])
      next
        case ki: False
        then have "pt_of m pgdir ?k \<noteq> ?q" using d(5) [of ?k i] k i True by blast
        moreover have "v \<noteq> i * 1024 + j" using ki j by auto
        ultimately show ?thesis
          using same_off_word [OF off, of kend "pt_of m pgdir ?k" "v mod 1024"] q(1) d(4) [OF k] True by simp
      qed
      then show ?thesis using True k pd pt by (simp add: pte_of_def)
    next
      case False
      have "v \<noteq> i * 1024 + j"
      proof
        assume v: "v = i * 1024 + j"
        then have "v div 1024 = i" "v < 2 ^ 20" using i j by simp_all
        then show False using False i by simp
      qed
      then show ?thesis using False pd vpn_index by (auto simp: pte_of_def)
    qed
  qed
qed

section \<open>Walking\<close>

lemma va_index:
  assumes "va < 4294967296"
  shows "PDX va = va div 4096 div 1024" "PTX va = va div 4096 mod 1024" "PDX va < 1024" "PTX va < 1024"
    "va div 4096 < 2 ^ 20" "PDX va * 1024 + PTX va = va div 4096"
proof -
  show v: "va div 4096 < 2 ^ 20" using assms by (simp add: less_mult_imp_div_less)
  then have "va div 4096 div 1024 < 1024" by (rule vpn_index)
  moreover have "va div 2 ^ 22 = va div 4096 div 1024" by (simp flip: div_mult2_eq)
  ultimately show "PDX va = va div 4096 div 1024" by (simp add: PDX_def)
  moreover show "PTX va = va div 4096 mod 1024" by (simp add: PTX_def)
  ultimately show "PDX va * 1024 + PTX va = va div 4096" by simp
qed (simp_all add: PDX_def PTX_def)

lemma walk_found:
  assumes "odd (pde m pgdir (PDX va))"
  shows "walkpgdir pgdir va alloc m = (Some (pt_of m pgdir (PDX va) + 4 * PTX va), m)"
  using assms by (simp add: walkpgdir_def and_PTE_P pde_def pt_of_def)

lemma walk_none: "even (pde m pgdir (PDX va)) \<Longrightarrow> walkpgdir pgdir va False m = (None, m)"
  by (simp add: walkpgdir_def and_PTE_P pde_def)

lemma walk_entry:
  assumes "va < 4294967296" and "odd (pde m pgdir (PDX va))"
  shows "word_at m (pt_of m pgdir (PDX va) + 4 * PTX va) = pte_of m pgdir (va div 4096)"
  using assms(2) va_index [OF assms(1)] by (simp add: pte_of_def)

lemma walk_full:
  assumes "pt_wf kend m pgdir []" and "even (pde m pgdir (PDX va))"
  shows "walkpgdir pgdir va True m = (None, m)"
  using assms kalloc_ok(1) [OF pt_wf_D(3) [OF assms(1)]] by (simp add: walkpgdir_def and_PTE_P pde_def)

lemma walk_new:
  assumes wf: "pt_wf kend m pgdir (p # qs)" and va: "va < 4294967296" and even: "even (pde m pgdir (PDX va))"
  shows "\<exists>m'. walkpgdir pgdir va True m = (Some (pt_of m' pgdir (PDX va) + 4 * PTX va), m') \<and>
    odd (pde m' pgdir (PDX va)) \<and> pt_wf kend m' pgdir qs \<and> pte_of m' pgdir = pte_of m pgdir \<and>
    tables m' pgdir = insert p (tables m pgdir) \<and> same_off (insert p (tables m pgdir)) m m'"
proof -
  note d = pt_wf_D [OF wf]
  let ?i = "PDX va" and ?E = "V2P p OR PTE_P OR PTE_W OR PTE_U"
  have i: "?i < 1024" by (rule va_index [OF va])
  obtain m1 where m1: "kalloc m = (p, m1)" "free_pages kend m1 qs" "k_mem m1 = k_mem m"
    using kalloc_ok(2) [OF d(3) refl] by blast
  have p: "page_ok kend p" "p \<notin> set qs" "p \<noteq> pgdir" "p \<noteq> 0" using d(2,3) by (auto simp: free_pages_def page_ok_def)
  let ?m2 = "zero_page p m1"
  define m' where "m' = set_word (pgdir + 4 * ?i) ?E ?m2"
  note E = new_pde [OF p(1)]
  have z: "same_off {p} m ?m2" using zero_page_off [of p m1] m1(3) by (simp add: same_off_def)
  have w: "same_off {pgdir} ?m2 m'" unfolding m'_def by (rule set_word_off [OF i])
  have off: "same_off {p, pgdir} m m'"
    using same_off_trans [of "{p, pgdir}"] same_off_mono [OF z] same_off_mono [OF w] by blast
  have pgs: "\<forall>q \<in> {p, pgdir}. page_ok kend q" using p(1) d(1) by simp
  have pd: "pde m' pgdir k = (if k = ?i then ?E else pde m pgdir k)" if "k < 1024" for k
  proof -
    have "word_at m' (pgdir + 4 * k) = (if k = ?i then ?E else word_at ?m2 (pgdir + 4 * k))"
      unfolding m'_def by (rule word_set_word [OF E(3)])
    moreover have "word_at ?m2 (pgdir + 4 * k) = word_at m (pgdir + 4 * k)"
      using same_off_word [OF z _ d(1) _ that] p by auto
    ultimately show ?thesis by (simp add: pde_def)
  qed
  have pt: "pt_of m' pgdir k = (if k = ?i then p else pt_of m pgdir k)" if "k < 1024" for k
    using pd [OF that] E(1) by (simp add: pt_of_def)
  have S: "{k. k < 1024 \<and> odd (pde m' pgdir k)} = insert ?i {k. k < 1024 \<and> odd (pde m pgdir k)}"
    using pd E(2) i by (auto split: if_splits)
  have I: "pt_of m' pgdir ` {k. k < 1024 \<and> odd (pde m pgdir k)} = pt_of m pgdir ` {k. k < 1024 \<and> odd (pde m pgdir k)}"
    using pt even by (intro image_cong) auto
  have T: "tables m' pgdir = insert p (tables m pgdir)"
    using pt [OF i] by (auto simp: tables_def S I)
  have new: "p \<notin> tables m pgdir" using wf by (auto simp: pt_wf_def)
  have fp: "free_pages kend m' qs"
  proof -
    have "free_pages kend ?m2 qs"
      using free_pages_off [OF m1(2) zero_page_off, of p] p by (simp add: zero_page_def)
    then show ?thesis using free_pages_off [OF _ w] d(1,2) by (simp add: m'_def set_word_def)
  qed
  have "inj_on (pt_of m' pgdir) (insert ?i {k. k < 1024 \<and> odd (pde m pgdir k)})"
  proof (rule inj_onI)
    fix a b
    assume ab: "a \<in> insert ?i {k. k < 1024 \<and> odd (pde m pgdir k)}" "b \<in> insert ?i {k. k < 1024 \<and> odd (pde m pgdir k)}"
      "pt_of m' pgdir a = pt_of m' pgdir b"
    have nt: "pt_of m pgdir k \<noteq> p" if "k < 1024" "odd (pde m pgdir k)" for k
      using new that by (auto simp: tables_def image_iff)
    have "a < 1024" "b < 1024" using ab i by auto
    then show "a = b" using ab pt nt d(5) by (auto split: if_splits)
  qed
  moreover have "pgdir \<notin> pt_of m' pgdir ` insert ?i {k. k < 1024 \<and> odd (pde m pgdir k)}"
    using wf p pt [OF i] by (auto simp: pt_wf_def I)
  moreover have "\<forall>q \<in> insert p (tables m pgdir). page_ok kend q \<and> q \<notin> set qs"
    using wf p by (auto simp: pt_wf_def)
  ultimately have wf': "pt_wf kend m' pgdir qs" using fp by (simp add: pt_wf_def T S)
  have "pte_of m' pgdir v = pte_of m pgdir v" for v
  proof (cases "v < 2 ^ 20 \<and> odd (pde m' pgdir (v div 1024))")
    case True
    let ?k = "v div 1024"
    have k: "?k < 1024" using True vpn_index by blast
    show ?thesis
    proof (cases "?k = ?i")
      case ki: True
      have "word_at m' (p + 4 * (v mod 1024)) = word_at ?m2 (p + 4 * (v mod 1024))"
        by (rule same_off_word [OF w, of kend]) (use p d(1) in auto)
      then have "word_at m' (p + 4 * (v mod 1024)) = 0" by (simp add: zero_page_word)
      then show ?thesis using True ki pt [OF i] even by (simp add: pte_of_def)
    next
      case ki: False
      then have o: "odd (pde m pgdir ?k)" using True pd [OF k] by simp
      then have "pt_of m pgdir ?k \<notin> {p, pgdir}" using d(4) [OF k] new k by (auto simp: tables_def image_iff)
      then have "word_at m' (pt_of m pgdir ?k + 4 * (v mod 1024)) = word_at m (pt_of m pgdir ?k + 4 * (v mod 1024))"
        using same_off_word [OF off pgs] d(4) [OF k o] by simp
      then show ?thesis using True ki o pt [OF k] by (simp add: pte_of_def)
    qed
  next
    case False
    then show ?thesis using pd E(2) vpn_index by (auto simp: pte_of_def split: if_splits)
  qed
  then have "pte_of m' pgdir = pte_of m pgdir" by blast
  moreover have "same_off (insert p (tables m pgdir)) m m'"
    by (rule same_off_mono [OF off]) (auto simp: tables_def)
  moreover have "walkpgdir pgdir va True m = (Some (pt_of m' pgdir ?i + 4 * PTX va), m')"
    using even m1(1) p(4) pt [OF i] by (simp add: walkpgdir_def and_PTE_P pde_def m'_def)
  ultimately show ?thesis using wf' T pd [OF i] E(2) by auto
qed

text \<open>The three cases in one: \<open>walkpgdir\<close> fails only when there is no page left for a table.\<close>

lemma walk_ok:
  assumes wf: "pt_wf kend m pgdir ps" and va: "va < 4294967296"
  obtains "walkpgdir pgdir va True m = (None, m)" "ps = []"
  | m' qs where "walkpgdir pgdir va True m = (Some (pt_of m' pgdir (PDX va) + 4 * PTX va), m')"
      "odd (pde m' pgdir (PDX va))" "pt_wf kend m' pgdir qs" "pte_of m' pgdir = pte_of m pgdir"
      "set ps = set qs \<union> (tables m' pgdir - tables m pgdir)" "tables m pgdir \<subseteq> tables m' pgdir"
      "same_off (tables m' pgdir) m m'"
proof (cases "odd (pde m pgdir (PDX va))")
  case True
  show ?thesis by (rule that(2) [OF walk_found [OF True] True wf]) simp_all
next
  case False
  show ?thesis
  proof (cases ps)
    case Nil
    then show ?thesis using that(1) walk_full wf False by blast
  next
    case (Cons p qs)
    obtain m' where m': "walkpgdir pgdir va True m = (Some (pt_of m' pgdir (PDX va) + 4 * PTX va), m')"
      "odd (pde m' pgdir (PDX va))" "pt_wf kend m' pgdir qs" "pte_of m' pgdir = pte_of m pgdir"
      "tables m' pgdir = insert p (tables m pgdir)" "same_off (insert p (tables m pgdir)) m m'"
      using walk_new [OF wf [unfolded Cons] va] False by blast
    have "p \<notin> tables m pgdir" using wf Cons by (auto simp: pt_wf_def)
    then show ?thesis using that(2) [OF m'(1-4)] m'(5,6) Cons by auto
  qed
qed

section \<open>Mapping\<close>

lemma or_lt_4096: "x < 4096 \<Longrightarrow> y < 4096 \<Longrightarrow> x OR y < (4096 :: nat)"
proof -
  assume "x < 4096" "y < 4096"
  then have "take_bit 12 x = x" "take_bit 12 y = y" by (simp_all add: take_bit_nat_eq_self_iff)
  then have "take_bit 12 (x OR y) = x OR y" by (simp add: take_bit_or)
  then show ?thesis unfolding take_bit_nat_eq_self_iff by simp
qed

lemma pte_entry:
  assumes "pa mod 4096 = (0 :: nat)" and "pa < 4294967296" and "perm < 4096"
  shows "pa OR perm OR PTE_P < 4294967296" "PTE_ADDR (pa OR perm OR PTE_P) = pa"
    "PTE_FLAGS (pa OR perm OR PTE_P) = perm OR PTE_P" "odd (pa OR perm OR PTE_P)"
proof -
  have fl: "perm OR PTE_P < 4096" using assms(3) by (intro or_lt_4096) (simp_all add: PTE_P_def)
  note e = entry_fields [OF assms(1) fl]
  show "PTE_ADDR (pa OR perm OR PTE_P) = pa" "PTE_FLAGS (pa OR perm OR PTE_P) = perm OR PTE_P"
    using e by (simp_all add: or.assoc)
  show "odd (pa OR perm OR PTE_P)" by (simp add: PTE_P_def even_or_iff)
  obtain k where "pa = 4096 * k" using assms(1) by auto
  then have "pa + (perm OR PTE_P) < 4294967296" using assms(2) fl by simp
  then show "pa OR perm OR PTE_P < 4294967296" using or_low [OF assms(1) fl] by (simp add: or.assoc)
qed

text \<open>The entries of \<open>n\<close> pages from page number \<open>x\<close> on, for physical addresses from \<open>pa\<close> on.\<close>

definition map_pages :: "(nat \<Rightarrow> nat) \<Rightarrow> nat \<Rightarrow> nat \<Rightarrow> nat \<Rightarrow> nat \<Rightarrow> nat \<Rightarrow> nat" where
  "map_pages f x n pa perm v =
     (if x \<le> v \<and> v < x + n then (pa + 4096 * (v - x)) mod 2 ^ 32 OR perm OR PTE_P else f v)"

lemma map_pages_Suc:
  assumes "pa < 4294967296"
  shows "map_pages (f(x := pa OR perm OR PTE_P)) (x + 1) n (uadd pa 4096) perm = map_pages f x (n + 1) pa perm"
proof
  fix v
  have "(uadd pa 4096 + 4096 * (v - (x + 1))) mod 2 ^ 32 = (pa + 4096 * (v - x)) mod 2 ^ 32" if "x + 1 \<le> v"
  proof -
    have "4096 + 4096 * (v - (x + 1)) = 4096 * (v - x)" using that by simp
    then show ?thesis by (simp add: uadd_def mod_simps add.assoc)
  qed
  then show "map_pages (f(x := pa OR perm OR PTE_P)) (x + 1) n (uadd pa 4096) perm v = map_pages f x (n + 1) pa perm v"
    using assms by (auto simp: map_pages_def)
qed

text \<open>One page: the entry is stored, or there is no page left for a table.\<close>

lemma map_one:
  fixes m :: "'z kmem_scheme"
  assumes wf: "pt_wf kend m pgdir ps" and x: "x < 2 ^ 20" and pa: "pa mod 4096 = 0" "pa < 4294967296" "perm < 4096"
    and free: "even (pte_of m pgdir x)"
  obtains "walkpgdir pgdir (4096 * x) True m = (None, m)" "ps = []"
  | pte m1 m2 qs where "walkpgdir pgdir (4096 * x) True m = (Some pte, m1)" "even (word_at m1 pte)"
      "m2 = set_word pte (pa OR perm OR PTE_P) m1" "pt_wf kend m2 pgdir qs"
      "pte_of m2 pgdir = (pte_of m pgdir)(x := pa OR perm OR PTE_P)"
      "set ps = set qs \<union> (tables m2 pgdir - tables m pgdir)" "tables m pgdir \<subseteq> tables m2 pgdir"
      "same_off (tables m2 pgdir) m m2"
proof -
  have va: "4096 * x < 4294967296" using x by simp
  have vx: "4096 * x div 4096 = x" by simp
  note ix = va_index [OF va, unfolded vx]
  show thesis
  proof (rule walk_ok [OF wf va])
    fix m1 :: "'z kmem_scheme" and qs
    let ?pte = "pt_of m1 pgdir (PDX (4096 * x)) + 4 * PTX (4096 * x)"
    assume w: "walkpgdir pgdir (4096 * x) True m = (Some ?pte, m1)"
      and o: "odd (pde m1 pgdir (PDX (4096 * x)))" and wf1: "pt_wf kend m1 pgdir qs"
      and p: "pte_of m1 pgdir = pte_of m pgdir" and t: "set ps = set qs \<union> (tables m1 pgdir - tables m pgdir)"
        "tables m pgdir \<subseteq> tables m1 pgdir" and s: "same_off (tables m1 pgdir) m m1"
    note sp = set_pte [OF wf1 ix(3) o ix(4) pte_entry(1) [OF pa] refl, unfolded ix(6)]
    have "even (word_at m1 ?pte)" using walk_entry [OF va o] p free by simp
    then show thesis
      using that(2) [OF w _ refl sp(1)] sp(2,3) p t same_off_trans [OF s sp(4)] by simp
  qed (use that(1) in blast)
qed

lemma mappages_from_ok:
  assumes "pt_wf kend m pgdir ps" and "x + k < 2 ^ 20" and "k \<le> fuel" and "pa mod 4096 = 0" and "pa < 4294967296"
    and perm: "perm < 4096" and "\<forall>v. x \<le> v \<and> v \<le> x + k \<longrightarrow> even (pte_of m pgdir v)"
  shows "\<exists>n m' qs. n \<le> k + 1 \<and>
    mappages_from fuel pgdir (4096 * x) (4096 * (x + k)) pa perm m = Inr (if n = k + 1 then 0 else -1, m') \<and>
    pte_of m' pgdir = map_pages (pte_of m pgdir) x n pa perm \<and> pt_wf kend m' pgdir qs \<and>
    set ps = set qs \<union> (tables m' pgdir - tables m pgdir) \<and> tables m pgdir \<subseteq> tables m' pgdir \<and>
    same_off (tables m' pgdir) m m' \<and> (n \<le> k \<longrightarrow> qs = [])"
  using assms(1-5,7)
proof (induction k arbitrary: m ps x fuel pa)
  case (0 m ps x fuel pa)
  have x: "x < 2 ^ 20" "even (pte_of m pgdir x)" using 0(2,6) by simp_all
  show ?case
  proof (rule map_one [OF 0(1) x(1) 0(4,5) perm x(2)])
    assume "walkpgdir pgdir (4096 * x) True m = (None, m)" "ps = []"
    then show ?thesis using 0(1)
      by (intro exI [of _ 0] exI [of _ m] exI [of _ "[]"]) (simp add: mappages_from.simps [of fuel] map_pages_def fun_eq_iff)
  next
    fix pte m1 m2 qs
    assume w: "walkpgdir pgdir (4096 * x) True m = (Some pte, m1)" "even (word_at m1 pte)"
        "m2 = set_word pte (pa OR perm OR PTE_P) m1" and wf: "pt_wf kend m2 pgdir qs"
      and p: "pte_of m2 pgdir = (pte_of m pgdir)(x := pa OR perm OR PTE_P)"
      and t: "set ps = set qs \<union> (tables m2 pgdir - tables m pgdir)" "tables m pgdir \<subseteq> tables m2 pgdir"
        "same_off (tables m2 pgdir) m m2"
    have "mappages_from fuel pgdir (4096 * x) (4096 * (x + 0)) pa perm m = Inr (0, m2)"
      by (subst mappages_from.simps) (simp add: w and_PTE_P)
    moreover have "pte_of m2 pgdir = map_pages (pte_of m pgdir) x 1 pa perm"
      using 0(5) by (auto simp: p map_pages_def fun_eq_iff)
    ultimately show ?thesis using wf t by (intro exI [of _ 1] exI [of _ m2] exI [of _ qs]) simp
  qed
next
  case (Suc k m ps x fuel pa)
  note prems = Suc.prems
  have x: "x < 2 ^ 20" "even (pte_of m pgdir x)" using prems(2,6) by simp_all
  show ?case
  proof (rule map_one [OF prems(1) x(1) prems(4,5) perm x(2)])
    assume "walkpgdir pgdir (4096 * x) True m = (None, m)" "ps = []"
    then show ?thesis using prems(1)
      by (intro exI [of _ 0] exI [of _ m] exI [of _ "[]"]) (simp add: mappages_from.simps [of fuel] map_pages_def fun_eq_iff)
  next
    fix pte m1 m2 qs
    assume w: "walkpgdir pgdir (4096 * x) True m = (Some pte, m1)" "even (word_at m1 pte)"
        "m2 = set_word pte (pa OR perm OR PTE_P) m1" and wf: "pt_wf kend m2 pgdir qs"
      and p: "pte_of m2 pgdir = (pte_of m pgdir)(x := pa OR perm OR PTE_P)"
      and t: "set ps = set qs \<union> (tables m2 pgdir - tables m pgdir)" "tables m pgdir \<subseteq> tables m2 pgdir"
        "same_off (tables m2 pgdir) m m2"
    obtain fuel' where f: "fuel = Suc fuel'" "k \<le> fuel'" using prems(3) by (cases fuel) auto
    have "uadd (4096 * x) 4096 = 4096 * (x + 1)" using prems(2) by (simp add: uadd_small)
    then have r: "mappages_from fuel pgdir (4096 * x) (4096 * (x + Suc k)) pa perm m =
        mappages_from fuel' pgdir (4096 * (x + 1)) (4096 * (x + 1 + k)) (uadd pa 4096) perm m2"
      by (subst mappages_from.simps) (simp add: w and_PTE_P f(1) PGSIZE_def)
    have "(pa + 4096) mod 2 ^ 32 mod 4096 = (pa + 4096) mod 4096" by (rule mod_mod_cancel) simp
    then have pa: "uadd pa 4096 mod 4096 = 0" using prems(4) by (simp add: uadd_def)
    have ev: "\<forall>v. x + 1 \<le> v \<and> v \<le> x + 1 + k \<longrightarrow> even (pte_of m2 pgdir v)" and xk: "x + 1 + k < 2 ^ 20"
      using prems(2,6) by (simp_all add: p)
    from Suc.IH [OF wf xk f(2) pa uadd_lt ev]
    obtain n m' rs where n: "n \<le> k + 1" "n \<le> k \<longrightarrow> rs = []"
      and m': "mappages_from fuel' pgdir (4096 * (x + 1)) (4096 * (x + 1 + k)) (uadd pa 4096) perm m2 =
          Inr (if n = k + 1 then 0 else -1, m')" "pt_wf kend m' pgdir rs"
        "pte_of m' pgdir = map_pages (pte_of m2 pgdir) (x + 1) n (uadd pa 4096) perm"
        "set qs = set rs \<union> (tables m' pgdir - tables m2 pgdir)" "tables m2 pgdir \<subseteq> tables m' pgdir"
        "same_off (tables m' pgdir) m2 m'" by blast
    have "pte_of m' pgdir = map_pages (pte_of m pgdir) x (n + 1) pa perm"
      unfolding m'(3) p by (rule map_pages_Suc [OF prems(5)])
    moreover have "same_off (tables m' pgdir) m m'"
      using same_off_trans [OF same_off_mono [OF t(3) m'(5)] m'(6)] .
    moreover have "set ps = set rs \<union> (tables m' pgdir - tables m pgdir)" "tables m pgdir \<subseteq> tables m' pgdir"
      using t m'(4,5) by auto
    ultimately show ?thesis
      using n m'(1,2) r by (intro exI [of _ "n + 1"] exI [of _ m'] exI [of _ rs]) auto
  qed
qed

text \<open>A whole range: as many pages are mapped as there is room for their tables.\<close>

definition npages :: "nat \<Rightarrow> nat \<Rightarrow> nat" where
  "npages va sz = (va + sz - 1) div 4096 - va div 4096 + 1"

lemma mappages_ok:
  assumes wf: "pt_wf kend m d ps" and sz: "0 < sz" "va + sz \<le> 2 ^ 32"
    and pa: "pa mod 4096 = 0" "pa < 4294967296" "perm < 4096"
    and free: "\<forall>v. va div 4096 \<le> v \<and> v < va div 4096 + npages va sz \<longrightarrow> even (pte_of m d v)"
  shows "\<exists>n m' qs. n \<le> npages va sz \<and> mappages d va sz pa perm m = Inr (if n = npages va sz then 0 else -1, m') \<and>
    pte_of m' d = map_pages (pte_of m d) (va div 4096) n pa perm \<and> pt_wf kend m' d qs \<and>
    set ps = set qs \<union> (tables m' d - tables m d) \<and> tables m d \<subseteq> tables m' d \<and> same_off (tables m' d) m m' \<and>
    (n < npages va sz \<longrightarrow> qs = [])"
proof -
  let ?x = "va div 4096" and ?k = "(va + sz - 1) div 4096 - va div 4096"
  have le: "?x \<le> (va + sz - 1) div 4096" using sz by (intro div_le_mono) simp
  then have xk: "?x + ?k = (va + sz - 1) div 4096" by simp
  have "(va + sz - 1) div 4096 < 2 ^ 20" using sz by (intro less_mult_imp_div_less) simp
  then have k: "?x + ?k < 2 ^ 20" "?k \<le> 2 ^ 20" using xk by simp_all
  have "usub (uadd va sz) 1 = va + sz - 1"
    using sz by (cases "va + sz = 2 ^ 32") (simp_all add: uadd_def usub_def mod_if)
  then have a: "PGROUNDDOWN va = 4096 * ?x" "PGROUNDDOWN (usub (uadd va sz) 1) = 4096 * (?x + ?k)"
    unfolding xk by (simp_all add: PGROUNDDOWN_def PGSIZE_def)
  have "\<forall>v. ?x \<le> v \<and> v \<le> ?x + ?k \<longrightarrow> even (pte_of m d v)" using free by (simp add: npages_def)
  from mappages_from_ok [OF wf k pa this] show ?thesis
    unfolding mappages_def a npages_def by (simp add: less_Suc_eq_le)
qed

end
