(* ===== verification/Vm_Own.thy ===== *)
theory Vm_Own
  imports Vm_Map
begin

text \<open>
  What an address space owns. \<open>vm_own\<close> adds to a well-formed table that the user pages are mapped to
  distinct pages which are neither tables nor free. Every operation moves pages between the free
  list and the address space, so that the two together stay the same set: nothing leaks and
  nothing is freed twice.
\<close>

section \<open>Ownership\<close>

definition frame_of :: "nat \<Rightarrow> nat" where
  "frame_of e = P2V (PTE_ADDR e)"

definition upages :: "'z kmem_scheme \<Rightarrow> nat \<Rightarrow> nat set" where
  "upages m d = {v. v < 0x80000 \<and> odd (pte_of m d v)}"

definition uframes :: "'z kmem_scheme \<Rightarrow> nat \<Rightarrow> nat set" where
  "uframes m d = (\<lambda>v. frame_of (pte_of m d v)) ` upages m d"

definition vm_own :: "nat \<Rightarrow> 'z kmem_scheme \<Rightarrow> nat \<Rightarrow> nat list \<Rightarrow> bool" where
  "vm_own kend m d ps \<longleftrightarrow> pt_wf kend m d ps \<and> inj_on (\<lambda>v. frame_of (pte_of m d v)) (upages m d) \<and>
     (\<forall>q \<in> uframes m d. page_ok kend q \<and> q \<notin> set ps \<and> q \<notin> tables m d)"

definition owned :: "'z kmem_scheme \<Rightarrow> nat \<Rightarrow> nat set" where
  "owned m d = tables m d \<union> uframes m d"

lemma vm_own_wf: "vm_own kend m d ps \<Longrightarrow> pt_wf kend m d ps"
  by (simp add: vm_own_def)

lemma owned_pages: "vm_own kend m d ps \<Longrightarrow> q \<in> owned m d \<Longrightarrow> page_ok kend q \<and> q \<notin> set ps"
  by (auto simp: vm_own_def owned_def pt_wf_def)

lemma uframes_cong: "pte_of m' d' = pte_of m d \<Longrightarrow> uframes m' d' = uframes m d"
  by (simp add: uframes_def upages_def)

text \<open>An address space does not see changes of pages that it does not own.\<close>

lemma pt_wf_cong:
  assumes wf: "pt_wf kend m d ps" and s: "same_off Q m m'" and Q: "\<forall>q \<in> Q. page_ok kend q"
    and dis: "Q \<inter> tables m d = {}" and fp: "free_pages kend m' qs" and qs: "set qs \<inter> tables m d = {}"
  shows "pt_wf kend m' d qs"
proof -
  note c = table_cong [OF wf s Q dis]
  have S: "{i. i < 1024 \<and> odd (pde m' d i)} = {i. i < 1024 \<and> odd (pde m d i)}" using c(1) by auto
  have I: "pt_of m' d i = pt_of m d i" if "i < 1024" for i using c(1) [OF that] by (simp add: pt_of_def)
  then have "pt_of m' d ` {i. i < 1024 \<and> odd (pde m d i)} = pt_of m d ` {i. i < 1024 \<and> odd (pde m d i)}"
    by (intro image_cong) auto
  moreover have "inj_on (pt_of m' d) {i. i < 1024 \<and> odd (pde m d i)}"
    using wf I by (auto simp: pt_wf_def inj_on_def)
  ultimately show ?thesis using wf fp qs by (auto simp: pt_wf_def c(2) S)
qed

lemma own_cong:
  assumes own: "vm_own kend m d ps" and s: "same_off Q m m'" and Q: "\<forall>q \<in> Q. page_ok kend q"
    and dis: "Q \<inter> tables m d = {}" and fp: "free_pages kend m' qs" and qs: "set qs \<inter> owned m d = {}"
  shows "vm_own kend m' d qs" "owned m' d = owned m d" "pte_of m' d = pte_of m d" "tables m' d = tables m d"
proof -
  note c = table_cong [OF vm_own_wf [OF own] s Q dis]
  show p: "pte_of m' d = pte_of m d" and t: "tables m' d = tables m d" by (rule c(3), rule c(2))
  note u = uframes_cong [OF p]
  show "owned m' d = owned m d" by (simp add: owned_def t u)
  have "set qs \<inter> tables m d = {}" using qs by (auto simp: owned_def)
  then have "pt_wf kend m' d qs" by (rule pt_wf_cong [OF vm_own_wf [OF own] s Q dis fp])
  then show "vm_own kend m' d qs"
    using own qs by (auto simp: vm_own_def u t p upages_def owned_def)
qed

lemma npages_one: "PGROUNDDOWN (4096 * x) = 4096 * x" "x < 2 ^ 20 \<Longrightarrow> PGROUNDDOWN (usub (uadd (4096 * x) PGSIZE) 1) = 4096 * x"
proof -
  show "PGROUNDDOWN (4096 * x) = 4096 * x" by (simp add: PGROUNDDOWN_def PGSIZE_def)
  assume x: "x < 2 ^ 20"
  have "usub (uadd (4096 * x) PGSIZE) 1 = 4096 * x + 4095"
    using x by (cases "4096 * x + 4096 < 2 ^ 32") (simp_all add: uadd_def usub_def PGSIZE_def mod_if)
  then show "PGROUNDDOWN (usub (uadd (4096 * x) PGSIZE) 1) = 4096 * x" by (simp add: PGROUNDDOWN_def PGSIZE_def)
qed

lemma new_frame:
  assumes "page_ok kend p" and "fl < 4096"
  shows "frame_of (V2P p OR fl OR PTE_P) = p" "odd (V2P p OR fl OR PTE_P)" "PTE_FLAGS (V2P p OR fl OR PTE_P) = fl OR PTE_P"
  using pte_entry [OF V2P_aligned(1) [OF assms(1)] _ assms(2)] V2P_aligned(2) [OF assms(1)] P2V_V2P [OF assms(1)]
  by (simp_all add: frame_of_def)

text \<open>Mapping a page that belongs to nobody hands it over, or fails for want of a page for a table.\<close>

lemma own_map:
  fixes m :: "'z kmem_scheme"
  assumes own: "vm_own kend m d ps" and p: "page_ok kend p" "p \<notin> set ps" "p \<notin> owned m d"
    and x: "x < 0x80000" "even (pte_of m d x)" and fl: "fl < 4096"
  obtains (mapped) m' qs where "mappages d (4096 * x) PGSIZE (V2P p) fl m = Inr (0, m')" "vm_own kend m' d qs"
      "pte_of m' d = (pte_of m d)(x := V2P p OR fl OR PTE_P)" "set qs \<union> owned m' d = insert p (set ps \<union> owned m d)"
      "p \<notin> tables m' d" "same_off (tables m' d) m m'" "set qs \<subseteq> set ps" "tables m' d \<subseteq> tables m d \<union> set ps"
      "tables m d \<subseteq> tables m' d"
  | (full) m' where "mappages d (4096 * x) PGSIZE (V2P p) fl m = Inr (-1, m')" "vm_own kend m' d []"
      "pte_of m' d = pte_of m d" "owned m' d = set ps \<union> owned m d" "p \<notin> tables m' d" "same_off (tables m' d) m m'"
      "tables m' d \<subseteq> tables m d \<union> set ps" "tables m d \<subseteq> tables m' d"
proof -
  have v: "V2P p mod 4096 = 0" "V2P p < 4294967296" using V2P_aligned [OF p(1)] by simp_all
  have "x + 0 < 2 ^ 20" using x(1) by simp
  moreover have "\<forall>v. x \<le> v \<and> v \<le> x + 0 \<longrightarrow> even (pte_of m d v)" using x(2) by (auto dest: antisym)
  ultimately obtain n m' qs where r: "n \<le> 0 + 1"
      "mappages_from (2 ^ 20) d (4096 * x) (4096 * (x + 0)) (V2P p) fl m = Inr (if n = 0 + 1 then 0 else -1, m')"
    and q: "pte_of m' d = map_pages (pte_of m d) x n (V2P p) fl" "pt_wf kend m' d qs"
      "set ps = set qs \<union> (tables m' d - tables m d)" "tables m d \<subseteq> tables m' d" "same_off (tables m' d) m m'"
      "n \<le> 0 \<longrightarrow> qs = []"
    using mappages_from_ok [OF vm_own_wf [OF own] _ _ v fl, of x 0 "2 ^ 20"] by blast
  have mp: "mappages d (4096 * x) PGSIZE (V2P p) fl m = Inr (if n = 1 then 0 else -1, m')"
    using r(2) npages_one(2) [of x] x(1) unfolding mappages_def npages_one(1) by simp
  have pt: "p \<notin> tables m' d" using q(3) p(2,3) by (auto simp: owned_def)
  have fr: "\<forall>q \<in> uframes m d. page_ok kend q \<and> q \<notin> set qs \<and> q \<notin> tables m' d"
    using own q(3) by (auto simp: vm_own_def)
  show thesis
  proof (cases "n = 1")
    case False
    then have "n = 0" "qs = []" using r(1) q(6) by auto
    then have pte: "pte_of m' d = pte_of m d" by (simp add: q(1) map_pages_def fun_eq_iff)
    note u = uframes_cong [OF this]
    have "vm_own kend m' d []"
      using own q(2) fr \<open>qs = []\<close> by (simp add: vm_own_def u pte upages_def)
    then show thesis
      using that(2) [OF _ _ pte _ pt q(5)] mp False q(3,4) \<open>qs = []\<close> by (auto simp: owned_def u)
  next
    case True
    let ?e = "V2P p OR fl OR PTE_P"
    note e = new_frame [OF p(1) fl]
    have pte: "pte_of m' d = (pte_of m d)(x := ?e)"
      using v(2) by (auto simp: q(1) True map_pages_def fun_eq_iff)
    have up: "upages m' d = insert x (upages m d)" using x e(2) by (auto simp: upages_def pte)
    have xn: "x \<notin> upages m d" using x(2) by (simp add: upages_def)
    then have uf: "uframes m' d = insert p (uframes m d)"
      using e(1) by (auto simp: uframes_def up pte image_iff)
    have "inj_on (\<lambda>v. frame_of (pte_of m' d v)) (insert x (upages m d))"
    proof (rule inj_onI)
      fix a b
      assume ab: "a \<in> insert x (upages m d)" "b \<in> insert x (upages m d)"
        "frame_of (pte_of m' d a) = frame_of (pte_of m' d b)"
      have np: "frame_of (pte_of m d v) \<noteq> p" if "v \<in> upages m d" for v
        using p(3) that by (auto simp: owned_def uframes_def)
      have "inj_on (\<lambda>v. frame_of (pte_of m d v)) (upages m d)" using own by (simp add: vm_own_def)
      then show "a = b" using ab np xn e(1) by (auto simp: pte inj_on_def split: if_splits)
    qed
    then have "vm_own kend m' d qs"
      using q(2,3) fr p pt by (auto simp: vm_own_def up uf)
    moreover have "set qs \<union> owned m' d = insert p (set ps \<union> owned m d)"
      using q(3,4) by (auto simp: owned_def uf)
    moreover have "mappages d (4096 * x) PGSIZE (V2P p) fl m = Inr (0, m')" using mp True by simp
    ultimately show thesis using that(1) pte pt q(3-5) by blast
  qed
qed

section \<open>Unmapping\<close>

lemma upage_walk:
  assumes "v \<in> upages m d"
  obtains pte where "walkpgdir d (4096 * v) al m = (Some pte, m)" "word_at m pte = pte_of m d v"
    "odd (pde m d (PDX (4096 * v)))" "pte = pt_of m d (PDX (4096 * v)) + 4 * PTX (4096 * v)"
proof -
  have v: "v < 0x80000" "odd (pte_of m d v)" using assms by (auto simp: upages_def)
  have va: "4096 * v < 4294967296" using v by simp
  have vx: "4096 * v div 4096 = v" by simp
  note ix = va_index [OF va, unfolded vx]
  have "odd (pde m d (v div 1024))" using v by (auto simp: pte_of_def split: if_splits)
  then have o: "odd (pde m d (PDX (4096 * v)))" using ix(1) by simp
  show thesis using that [OF walk_found [OF o] _ o refl] walk_entry [OF va o] by simp
qed

lemma own_unmap:
  assumes own: "vm_own kend m d ps" and x: "x \<in> upages m d" and k: "kend > KERNBASE"
  obtains pte m1 m2 where "walkpgdir d (4096 * x) False m = (Some pte, m)" "odd (word_at m pte)"
    "PTE_ADDR (word_at m pte) \<noteq> 0" "kfree kend (P2V (PTE_ADDR (word_at m pte))) m = Inr m1" "m2 = set_word pte 0 m1"
    "vm_own kend m2 d (frame_of (pte_of m d x) # ps)" "pte_of m2 d = (pte_of m d)(x := 0)"
    "owned m2 d = owned m d - {frame_of (pte_of m d x)}" "tables m2 d = tables m d"
    "same_off (insert (frame_of (pte_of m d x)) (tables m d)) m m2"
proof -
  obtain pte where w: "walkpgdir d (4096 * x) False m = (Some pte, m)" "word_at m pte = pte_of m d x"
    "odd (pde m d (PDX (4096 * x)))" "pte = pt_of m d (PDX (4096 * x)) + 4 * PTX (4096 * x)"
    using upage_walk [OF x] .
  let ?q = "frame_of (pte_of m d x)"
  have x': "x < 0x80000" "odd (pte_of m d x)" using x by (auto simp: upages_def)
  have va: "4096 * x < 4294967296" using x' by simp
  have vx: "4096 * x div 4096 = x" by simp
  note ix = va_index [OF va, unfolded vx]
  have q: "page_ok kend ?q" "?q \<notin> set ps" "?q \<notin> tables m d" "?q \<in> uframes m d"
    using own x by (auto simp: vm_own_def uframes_def)
  have nz: "PTE_ADDR (pte_of m d x) \<noteq> 0"
  proof
    assume "PTE_ADDR (pte_of m d x) = 0"
    then have "?q = KERNBASE" by (simp add: frame_of_def P2V_def uadd_def KERNBASE_def)
    then show False using q(1) k by (simp add: page_ok_def)
  qed
  obtain m1 where m1: "kfree kend ?q m = Inr m1" "free_pages kend m1 (?q # ps)"
    "\<forall>a. a < ?q \<or> ?q + PGSIZE \<le> a \<longrightarrow> k_mem m1 a = k_mem m a"
    using kfree_ok [OF pt_wf_D(3) [OF vm_own_wf [OF own]] q(1,2)] by blast
  have s: "same_off {?q} m m1" using m1(3) by (simp add: same_off_def off_pages_def PGSIZE_def)
  have dis: "{?q} \<inter> tables m d = {}" "\<forall>r \<in> {?q}. page_ok kend r" using q by auto
  note c = table_cong [OF vm_own_wf [OF own] s dis(2,1)]
  have "set (?q # ps) \<inter> tables m d = {}" using q(3) own by (auto simp: vm_own_def pt_wf_def)
  then have wf1: "pt_wf kend m1 d (?q # ps)" by (rule pt_wf_cong [OF vm_own_wf [OF own] s dis(2,1) m1(2)])
  have o1: "odd (pde m1 d (PDX (4096 * x)))" and pt1: "pt_of m1 d (PDX (4096 * x)) = pt_of m d (PDX (4096 * x))"
    using w(3) c(1) [OF ix(3)] by (simp_all add: pt_of_def)
  note sp = set_pte [OF wf1 ix(3) o1 ix(4) _ refl, of 0, unfolded ix(6) pt1, folded w(4)]
  let ?m2 = "set_word pte 0 m1"
  have pte: "pte_of ?m2 d = (pte_of m d)(x := 0)" using sp(2) c(3) by simp
  have up: "upages ?m2 d = upages m d - {x}" by (auto simp: upages_def pte)
  have inj: "inj_on (\<lambda>v. frame_of (pte_of m d v)) (upages m d)" using own by (simp add: vm_own_def)
  have uf: "uframes ?m2 d = uframes m d - {?q}"
  proof -
    have "(\<lambda>v. frame_of (pte_of ?m2 d v)) ` (upages m d - {x}) = (\<lambda>v. frame_of (pte_of m d v)) ` (upages m d - {x})"
      by (intro image_cong) (auto simp: pte)
    also have "\<dots> = uframes m d - {?q}"
      using inj_on_image_set_diff [OF inj, of "upages m d" "{x}"] x by (simp add: uframes_def)
    finally show ?thesis by (simp add: uframes_def up)
  qed
  have tb: "tables ?m2 d = tables m d" using sp(3) c(2) by simp
  have "inj_on (\<lambda>v. frame_of (pte_of ?m2 d v)) (upages m d - {x})"
    using inj by (auto simp: inj_on_def pte)
  then have own2: "vm_own kend ?m2 d (?q # ps)"
    using sp(1) own by (auto simp: vm_own_def up uf tb)
  have ow: "owned ?m2 d = owned m d - {?q}" using q(3) by (auto simp: owned_def uf tb)
  have a: "same_off (insert ?q (tables m d)) m m1" by (rule same_off_mono [OF s]) simp
  have b: "same_off (insert ?q (tables m d)) m1 ?m2" by (rule same_off_mono [OF sp(4)]) (simp_all add: c(2) subset_insertI)
  note off = same_off_trans [OF a b]
  show thesis
    using that [OF w(1) _ _ _ refl own2 pte ow tb off] w(2) x'(2) nz m1(1) by (simp add: frame_of_def)
qed

text \<open>Clearing the present entries of the pages from \<open>x\<close> up to \<open>y\<close>.\<close>

definition unmap_pages :: "(nat \<Rightarrow> nat) \<Rightarrow> nat \<Rightarrow> nat \<Rightarrow> nat \<Rightarrow> nat" where
  "unmap_pages f x y v = (if x \<le> v \<and> v < y \<and> odd (f v) then 0 else f v)"

lemma unmap_step:
  "x < y \<Longrightarrow> odd (f x) \<Longrightarrow> unmap_pages (f(x := 0)) (x + 1) y = unmap_pages f x y"
  "x \<le> x' \<Longrightarrow> \<forall>v. x \<le> v \<and> v < x' \<longrightarrow> even (f v) \<Longrightarrow> unmap_pages f x' y = unmap_pages f x y"
  "y \<le> x \<Longrightarrow> unmap_pages f x y = f"
  by (auto simp: unmap_pages_def fun_eq_iff not_less_eq_eq)

lemma page_count: "4096 * x < n \<longleftrightarrow> x < (n + 4095) div (4096 :: nat)"
proof -
  have "x < (n + 4095) div 4096 \<longleftrightarrow> Suc x * 4096 \<le> n + 4095"
    unfolding Suc_le_eq [symmetric] by (rule less_eq_div_iff_mult_less_eq) simp
  then show ?thesis by auto
qed

lemma next_table:
  assumes "x < 0x80000"
  shows "uadd (usub (PGADDR (PDX (4096 * x) + 1) 0 0) PGSIZE) PGSIZE = 4096 * ((x div 1024 + 1) * 1024)"
    "x < (x div 1024 + 1) * 1024"
proof -
  have x: "4096 * x < 4294967296" "4096 * x div 4096 = x" "x div 1024 < 512"
    using assms by (simp_all add: less_mult_imp_div_less)
  then have "PGADDR (PDX (4096 * x) + 1) 0 0 = (x div 1024 + 1) * 4194304"
    using va_index(1) [OF x(1)] by (simp add: PGADDR_def)
  then show "uadd (usub (PGADDR (PDX (4096 * x) + 1) 0 0) PGSIZE) PGSIZE = 4096 * ((x div 1024 + 1) * 1024)"
    using x(3) by (simp add: uadd_small usub_small PGSIZE_def)
  show "x < (x div 1024 + 1) * 1024" using dividend_less_div_times [of 1024 x] by simp
qed

lemma deallocuvm_from_ok:
  assumes k: "kend > KERNBASE" and oldsz: "oldsz \<le> 0x80000000" and y: "y = (oldsz + 4095) div 4096"
    and "vm_own kend m d ps" and "y \<le> x + fuel"
  shows "\<exists>m' qs. deallocuvm_from kend fuel d (4096 * x) oldsz m = Inr m' \<and> vm_own kend m' d qs \<and>
    pte_of m' d = unmap_pages (pte_of m d) x y \<and> set qs \<union> owned m' d = set ps \<union> owned m d \<and>
    tables m' d = tables m d \<and> owned m' d \<subseteq> owned m d \<and> same_off (owned m d - owned m' d \<union> tables m d) m m'"
  using assms(4,5)
proof (induction fuel arbitrary: x m ps)
  have le: "4096 * x < oldsz \<longleftrightarrow> x < y" for x unfolding y by (rule page_count)
  have stop: "deallocuvm_from kend fuel d (4096 * x) oldsz m = Inr m" if "y \<le> x" for fuel x and m :: "'a kmem_scheme"
    using that le by (subst deallocuvm_from.simps) simp
  {
    case 0
    then show ?case using stop unmap_step(3) [of y x] by (intro exI [of _ m] exI [of _ ps]) simp
  next
    case (Suc fuel)
    show ?case
    proof (cases "x < y")
      case False
      then show ?thesis using Suc.prems stop unmap_step(3) [of y x] by (intro exI [of _ m] exI [of _ ps]) simp
    next
      case xy: True
      have x: "x < 0x80000" using xy oldsz unfolding y by simp
      have va: "4096 * x < 4294967296" "4096 * x div 4096 = x" using x by simp_all
      note ix = va_index [OF va(1), unfolded va(2)]
      have a: "4096 * x < oldsz" using le xy by simp
      consider (table) "even (pde m d (PDX (4096 * x)))" | (absent) "odd (pde m d (PDX (4096 * x)))" "even (pte_of m d x)"
        | (present) "x \<in> upages m d" using x by (auto simp: upages_def)
      then show ?thesis
      proof cases
        case table
        let ?x = "(x div 1024 + 1) * 1024"
        note n = next_table [OF x]
        have "deallocuvm_from kend (Suc fuel) d (4096 * x) oldsz m = deallocuvm_from kend fuel d (4096 * ?x) oldsz m"
          by (subst deallocuvm_from.simps) (use a walk_none [OF table] n(1) in simp)
        moreover have "even (pte_of m d v)" if "x \<le> v \<and> v < ?x" for v
        proof -
          have "v div 1024 < x div 1024 + 1" using that by (intro less_mult_imp_div_less) simp
          moreover have "x div 1024 \<le> v div 1024" using that by (intro div_le_mono) simp
          ultimately have "v div 1024 = x div 1024" by simp
          then show ?thesis using table ix(1) by (simp add: pte_of_def)
        qed
        then have "unmap_pages (pte_of m d) ?x y = unmap_pages (pte_of m d) x y" using n(2) by (intro unmap_step(2)) auto
        moreover have "y \<le> ?x + fuel" using Suc.prems(2) n(2) by simp
        ultimately show ?thesis using Suc.IH [OF Suc.prems(1), of ?x] by simp
      next
        case absent
        have ua: "uadd (4096 * x) PGSIZE = 4096 * (x + 1)" using x by (simp add: uadd_small PGSIZE_def)
        have "deallocuvm_from kend (Suc fuel) d (4096 * x) oldsz m = deallocuvm_from kend fuel d (4096 * (x + 1)) oldsz m"
          by (subst deallocuvm_from.simps)
            (use a walk_found [OF absent(1)] walk_entry [OF va(1) absent(1)] absent(2) va(2) ua in \<open>simp add: and_PTE_P\<close>)
        moreover have "unmap_pages (pte_of m d) (x + 1) y = unmap_pages (pte_of m d) x y"
          using absent(2) by (intro unmap_step(2)) (auto dest: le_antisym)
        moreover have "y \<le> x + 1 + fuel" using Suc.prems(2) by simp
        ultimately show ?thesis using Suc.IH [OF Suc.prems(1), of "x + 1"] by simp
      next
        case present
        let ?q = "frame_of (pte_of m d x)"
        obtain pte m1 m2 where u: "walkpgdir d (4096 * x) False m = (Some pte, m)" "odd (word_at m pte)"
          "PTE_ADDR (word_at m pte) \<noteq> 0" "kfree kend (P2V (PTE_ADDR (word_at m pte))) m = Inr m1" "m2 = set_word pte 0 m1"
          and o: "vm_own kend m2 d (?q # ps)" "pte_of m2 d = (pte_of m d)(x := 0)" "owned m2 d = owned m d - {?q}"
            "tables m2 d = tables m d" "same_off (insert ?q (tables m d)) m m2"
          using own_unmap [OF Suc.prems(1) present k] .
        have ua: "uadd (4096 * x) PGSIZE = 4096 * (x + 1)" using x by (simp add: uadd_small PGSIZE_def)
        have r: "deallocuvm_from kend (Suc fuel) d (4096 * x) oldsz m = deallocuvm_from kend fuel d (4096 * (x + 1)) oldsz m2"
          by (subst deallocuvm_from.simps) (use a u ua in \<open>simp add: and_PTE_P\<close>)
        have "y \<le> x + 1 + fuel" using Suc.prems(2) by simp
        from Suc.IH [OF o(1) this] obtain m' qs where m': "deallocuvm_from kend fuel d (4096 * (x + 1)) oldsz m2 = Inr m'"
          "vm_own kend m' d qs" "pte_of m' d = unmap_pages (pte_of m2 d) (x + 1) y"
          "set qs \<union> owned m' d = set (?q # ps) \<union> owned m2 d" "tables m' d = tables m2 d"
          "owned m' d \<subseteq> owned m2 d" "same_off (owned m2 d - owned m' d \<union> tables m2 d) m2 m'" by blast
        have q: "?q \<in> owned m d" using present by (auto simp: owned_def uframes_def)
        have q': "?q \<notin> owned m' d" "owned m' d \<subseteq> owned m d" using m'(6) o(3) by auto
        have "same_off (owned m d - owned m' d \<union> tables m d) m m2"
          by (rule same_off_mono [OF o(5)]) (use q q'(1) in auto)
        moreover have "same_off (owned m d - owned m' d \<union> tables m d) m2 m'"
          by (rule same_off_mono [OF m'(7)]) (use o(3,4) in auto)
        ultimately have "same_off (owned m d - owned m' d \<union> tables m d) m m'" by (rule same_off_trans)
        moreover have "pte_of m' d = unmap_pages (pte_of m d) x y"
          unfolding m'(3) o(2) using xy present by (intro unmap_step(1)) (auto simp: upages_def)
        ultimately show ?thesis using r m'(1,2,4,5) o(3,4) q q'(2) by (intro exI [of _ m'] exI [of _ qs]) auto
      qed
    qed
  }
qed

lemma round_up: "n \<le> 0x80000000 \<Longrightarrow> PGROUNDUP n = 4096 * ((n + 4095) div 4096)"
  by (simp add: PGROUNDUP_def uadd_small PGSIZE_def)

lemma deallocuvm_ok:
  assumes "vm_own kend m d ps" and "kend > KERNBASE" and "newsz < oldsz" and "oldsz \<le> 0x80000000"
  shows "\<exists>m' qs. deallocuvm kend d oldsz newsz m = Inr (newsz, m') \<and> vm_own kend m' d qs \<and>
    pte_of m' d = unmap_pages (pte_of m d) ((newsz + 4095) div 4096) ((oldsz + 4095) div 4096) \<and>
    set qs \<union> owned m' d = set ps \<union> owned m d \<and> tables m' d = tables m d \<and>
    owned m' d \<subseteq> owned m d \<and> same_off (owned m d - owned m' d \<union> tables m d) m m'"
proof -
  have "(oldsz + 4095) div 4096 \<le> 0x80000" using assms(4) by simp
  then have f: "(oldsz + 4095) div 4096 \<le> (newsz + 4095) div 4096 + 2 ^ 20" by simp
  have "PGROUNDUP newsz = 4096 * ((newsz + 4095) div 4096)" using assms(3,4) by (intro round_up) simp
  then show ?thesis
    using deallocuvm_from_ok [OF assms(2,4) refl assms(1) f] assms(3) by (auto simp: deallocuvm_def)
qed

section \<open>Freeing\<close>

lemma kfree_off:
  assumes "free_pages kend m ps" and "page_ok kend q" and "q \<notin> set ps"
  obtains m' where "kfree kend q m = Inr m'" "free_pages kend m' (q # ps)" "same_off {q} m m'"
  using kfree_ok [OF assms] by (auto simp: same_off_def off_pages_def PGSIZE_def)

lemma free_tables:
  assumes wf: "pt_wf kend m d ps"
  shows "\<exists>m'. rfor [0..<1024] (\<lambda>i m. if word_at m (d + 4 * i) AND PTE_P \<noteq> 0
      then kfree kend (P2V (PTE_ADDR (word_at m (d + 4 * i)))) m else Inr m) m = Inr m' \<and>
    (\<exists>qs. free_pages kend m' qs \<and> set qs = set ps \<union> pt_of m d ` {j. j < 1024 \<and> odd (pde m d j)} \<and>
      same_off (pt_of m d ` {j. j < 1024 \<and> odd (pde m d j)}) m m')"
proof -
  note w = pt_wf_D [OF wf]
  define P where "P i m' \<longleftrightarrow> (\<exists>qs. free_pages kend m' qs \<and> set qs = set ps \<union> pt_of m d ` {j. j < i \<and> odd (pde m d j)} \<and>
    same_off (pt_of m d ` {j. j < i \<and> odd (pde m d j)}) m m')" for i m'
  let ?body = "\<lambda>i m. if word_at m (d + 4 * i) AND PTE_P \<noteq> 0 then kfree kend (P2V (PTE_ADDR (word_at m (d + 4 * i)))) m else Inr m"
  have "\<exists>m'. rfor [0..<1024] ?body m = Inr m' \<and> P 1024 m'"
  proof (rule rfor_total)
  show "P 0 m" using w(3) by (auto simp: P_def)
  fix i t
  assume i: "i < (1024 :: nat)" and "P i t"
  then obtain qs where qs: "free_pages kend t qs" "set qs = set ps \<union> pt_of m d ` {j. j < i \<and> odd (pde m d j)}"
    "same_off (pt_of m d ` {j. j < i \<and> odd (pde m d j)}) m t" unfolding P_def by blast
  have sub: "pt_of m d ` {j. j < i \<and> odd (pde m d j)} \<subseteq> pt_of m d ` {j. j < 1024 \<and> odd (pde m d j)}" using i by auto
  then have "d \<notin> pt_of m d ` {j. j < i \<and> odd (pde m d j)}" using wf unfolding pt_wf_def by blast
  moreover have "\<forall>q \<in> pt_of m d ` {j. j < i \<and> odd (pde m d j)}. page_ok kend q"
    using sub wf unfolding pt_wf_def tables_def by blast
  ultimately have "word_at t (d + 4 * i) = word_at m (d + 4 * i)" by (intro same_off_word [OF qs(3) _ w(1) _ i])
  then have e: "word_at t (d + 4 * i) = pde m d i" by (simp add: pde_def)
  show "\<exists>t'. ?body i t = Inr t' \<and> P (Suc i) t'"
  proof (cases "odd (pde m d i)")
    case False
    then have "{j. j < Suc i \<and> odd (pde m d j)} = {j. j < i \<and> odd (pde m d j)}" by (auto simp: less_Suc_eq)
    then have "P (Suc i) t" using qs by (auto simp: P_def)
    then show ?thesis using False by (simp add: e and_PTE_P)
  next
    case True
    have S: "{j. j < Suc i \<and> odd (pde m d j)} = insert i {j. j < i \<and> odd (pde m d j)}" using True by (auto simp: less_Suc_eq)
    let ?q = "pt_of m d i"
    have "pt_of m d j \<noteq> ?q" if "j < i" "odd (pde m d j)" for j using w(5) [of i j] i True that by fastforce
    then have "?q \<notin> set qs" using w(4) [OF i True] by (auto simp: qs(2)) metis
    then obtain t' where t': "kfree kend ?q t = Inr t'" "free_pages kend t' (?q # qs)" "same_off {?q} t t'"
      using kfree_off [OF qs(1)] w(4) [OF i True] by blast
    have "same_off (pt_of m d ` insert i {j. j < i \<and> odd (pde m d j)}) m t" by (rule same_off_mono [OF qs(3)]) auto
    moreover have "same_off (pt_of m d ` insert i {j. j < i \<and> odd (pde m d j)}) t t'" by (rule same_off_mono [OF t'(3)]) auto
    ultimately have "same_off (pt_of m d ` insert i {j. j < i \<and> odd (pde m d j)}) m t'" by (rule same_off_trans)
    then have "P (Suc i) t'" unfolding P_def S using t'(2) qs(2) by (intro exI [of _ "?q # qs"]) simp
    then show ?thesis using t'(1) True by (simp add: e and_PTE_P pt_of_def)
  qed
  qed
  then show ?thesis by (simp add: P_def)
qed

lemma freevm_ok:
  assumes own: "vm_own kend m d ps" and k: "kend > KERNBASE"
  shows "\<exists>m' qs. freevm kend d m = Inr m' \<and> free_pages kend m' qs \<and> set qs = set ps \<union> owned m d \<and>
    same_off (owned m d) m m'"
proof -
  obtain m1 qs where m1: "deallocuvm kend d KERNBASE 0 m = Inr (0, m1)" "vm_own kend m1 d qs"
    "pte_of m1 d = unmap_pages (pte_of m d) 0 0x80000" "set qs \<union> owned m1 d = set ps \<union> owned m d"
    "tables m1 d = tables m d" "same_off (owned m d - owned m1 d \<union> tables m d) m m1"
    using deallocuvm_ok [OF own k, of 0 KERNBASE] by (auto simp: KERNBASE_def)
  have off1: "same_off (owned m d) m m1" by (rule same_off_mono [OF m1(6)]) (auto simp: owned_def)
  have "upages m1 d = {}" by (auto simp: upages_def m1(3) unmap_pages_def)
  then have o1: "owned m1 d = tables m1 d" by (simp add: owned_def uframes_def)
  note w = pt_wf_D [OF vm_own_wf [OF m1(2)]]
  let ?T = "pt_of m1 d ` {j. j < 1024 \<and> odd (pde m1 d j)}"
  obtain m2 rs where m2: "rfor [0..<1024] (\<lambda>i m. if word_at m (d + 4 * i) AND PTE_P \<noteq> 0
      then kfree kend (P2V (PTE_ADDR (word_at m (d + 4 * i)))) m else Inr m) m1 = Inr m2"
    "free_pages kend m2 rs" "set rs = set qs \<union> ?T" "same_off ?T m1 m2"
    using free_tables [OF vm_own_wf [OF m1(2)]] by blast
  have "d \<notin> set rs" using w(2) m1(2) by (simp add: m2(3) vm_own_def pt_wf_def)
  then obtain m3 where m3: "kfree kend d m2 = Inr m3" "free_pages kend m3 (d # rs)" "same_off {d} m2 m3"
    using kfree_off [OF m2(2) w(1)] by blast
  have T: "insert d ?T = tables m d" using m1(5) by (simp add: tables_def)
  then have sub: "?T \<subseteq> owned m d" "{d} \<subseteq> owned m d" by (auto simp: owned_def)
  have "same_off (owned m d) m m3"
    by (rule same_off_trans [OF same_off_trans [OF off1 same_off_mono [OF m2(4) sub(1)]] same_off_mono [OF m3(3) sub(2)]])
  moreover have "set (d # rs) = set ps \<union> owned m d"
    using m1(4,5) T by (auto simp: m2(3) o1)
  moreover have "freevm kend d m = Inr m3"
    using m1(1) m2(1) m3(1) w(1) by (simp add: freevm_def NPDENTRIES_def page_ok_def)
  ultimately show ?thesis using m3(2) by blast
qed

section \<open>The kernel part\<close>

fun regions_ok :: "(nat \<Rightarrow> nat) \<Rightarrow> (nat \<times> nat \<times> nat \<times> nat) list \<Rightarrow> bool" where
  "regions_ok f [] \<longleftrightarrow> True"
| "regions_ok f ((virt, phys_start, phys_end, perm) # ks) \<longleftrightarrow>
     (let sz = usub phys_end phys_start in
      0 < sz \<and> virt + sz \<le> 2 ^ 32 \<and> 0x80000000 \<le> virt \<and> phys_start mod 4096 = 0 \<and> phys_start < 2 ^ 32 \<and> perm < 4096 \<and>
      (\<forall>v. virt div 4096 \<le> v \<and> v < virt div 4096 + npages virt sz \<longrightarrow> even (f v)) \<and>
      regions_ok (map_pages f (virt div 4096) (npages virt sz) phys_start perm) ks)"

fun regions_map :: "(nat \<Rightarrow> nat) \<Rightarrow> (nat \<times> nat \<times> nat \<times> nat) list \<Rightarrow> nat \<Rightarrow> nat" where
  "regions_map f [] = f"
| "regions_map f ((virt, phys_start, phys_end, perm) # ks) =
     regions_map (map_pages f (virt div 4096) (npages virt (usub phys_end phys_start)) phys_start perm) ks"

lemma regions_low:
  assumes "regions_ok f ks" and "v < 0x80000"
  shows "regions_map f ks v = f v"
  using assms
proof (induction f ks rule: regions_ok.induct)
  case (2 f virt phys_start phys_end perm ks)
  have "0x80000000 \<le> virt" using "2.prems" by (simp add: Let_def)
  from div_le_mono [OF this, of 4096] have "v < virt div 4096" using "2.prems"(2) by simp
  then have "map_pages f (virt div 4096) (npages virt (usub phys_end phys_start)) phys_start perm v = f v"
    by (simp add: map_pages_def)
  then show ?case using 2 by (simp add: Let_def)
qed simp

lemma map_kernel_ok:
  assumes "pt_wf kend m d ps" and "regions_ok (pte_of m d) ks"
  shows "\<exists>ok m' qs. map_kernel d ks m = Inr (ok, m') \<and> pt_wf kend m' d qs \<and>
    set ps = set qs \<union> (tables m' d - tables m d) \<and> tables m d \<subseteq> tables m' d \<and> same_off (tables m' d) m m' \<and>
    (\<forall>v < 0x80000. pte_of m' d v = pte_of m d v) \<and> (ok \<longrightarrow> pte_of m' d = regions_map (pte_of m d) ks) \<and>
    (\<not> ok \<longrightarrow> qs = [])"
  using assms
proof (induction ks arbitrary: m ps)
  case Nil
  then show ?case by (intro exI [of _ True] exI [of _ m] exI [of _ ps]) simp
next
  case (Cons r ks)
  obtain virt st en perm where r: "r = (virt, st, en, perm)" by (metis prod.exhaust)
  let ?sz = "usub en st" and ?x = "virt div 4096"
  have c: "0 < ?sz" "virt + ?sz \<le> 2 ^ 32" "0x80000000 \<le> virt" "st mod 4096 = 0" "st < 4294967296" "perm < 4096"
    "\<forall>v. ?x \<le> v \<and> v < ?x + npages virt ?sz \<longrightarrow> even (pte_of m d v)"
    "regions_ok (map_pages (pte_of m d) ?x (npages virt ?sz) st perm) ks"
    using Cons.prems(2) by (simp_all add: r Let_def)
  obtain n m1 qs where m1: "mappages d virt ?sz st perm m = Inr (if n = npages virt ?sz then 0 else -1, m1)"
    "pte_of m1 d = map_pages (pte_of m d) ?x n st perm" "pt_wf kend m1 d qs"
    "set ps = set qs \<union> (tables m1 d - tables m d)" "tables m d \<subseteq> tables m1 d" "same_off (tables m1 d) m m1"
    "n \<le> npages virt ?sz" "n < npages virt ?sz \<longrightarrow> qs = []"
    using mappages_ok [OF Cons.prems(1) c(1,2,4-7)] by blast
  have "?x \<ge> 0x80000" using div_le_mono [OF c(3), of 4096] by simp
  then have low: "pte_of m1 d v = pte_of m d v" if "v < 0x80000" for v using that by (simp add: m1(2) map_pages_def)
  show ?case
  proof (cases "n = npages virt ?sz")
    case False
    then show ?thesis using m1 low
      by (intro exI [of _ False] exI [of _ m1] exI [of _ qs]) (simp add: r)
  next
    case True
    then have "regions_ok (pte_of m1 d) ks" using c(8) m1(2) by simp
    from Cons.IH [OF m1(3) this] obtain ok m' rs where m': "map_kernel d ks m1 = Inr (ok, m')" "pt_wf kend m' d rs"
      "set qs = set rs \<union> (tables m' d - tables m1 d)" "tables m1 d \<subseteq> tables m' d" "same_off (tables m' d) m1 m'"
      "\<forall>v < 0x80000. pte_of m' d v = pte_of m1 d v" "ok \<longrightarrow> pte_of m' d = regions_map (pte_of m1 d) ks"
      "\<not> ok \<longrightarrow> rs = []" by blast
    have "same_off (tables m' d) m m'" by (rule same_off_trans [OF same_off_mono [OF m1(6) m'(4)] m'(5)])
    then show ?thesis using m' m1 low True
      by (intro exI [of _ ok] exI [of _ m'] exI [of _ rs]) (auto simp: r)
  qed
qed

end
