(* ===== verification/Vm_Fork.thy ===== *)
theory Vm_Fork
  imports Vm_Own
begin

text \<open>
  Address spaces as a whole: \<open>setupkvm\<close>, \<open>allocuvm\<close> and \<open>copyuvm\<close> of \<open>src/vm.c\<close>. They build or grow
  an address space out of free pages, or undo what they have done when the pages run out.
\<close>

section \<open>The kernel's mappings\<close>

lemma card_tables: "card (tables m d) \<le> 1025"
proof -
  have "card (pt_of m d ` {i. i < 1024 \<and> odd (pde m d i)}) \<le> card {..<1024 :: nat}"
    by (rule surj_card_le [where f = "pt_of m d"]) auto
  then show ?thesis unfolding tables_def using card_insert_le_m1 by fastforce
qed

lemma finite_tables: "finite (tables m d)"
  by (simp add: tables_def)

text \<open>A zeroed page is an empty directory.\<close>

lemma empty_dir:
  assumes fp: "free_pages kend m ps" and p: "page_ok kend p" "p \<notin> set ps"
  shows "vm_own kend (zero_page p m) p ps" "pte_of (zero_page p m) p = (\<lambda>_. 0)" "tables (zero_page p m) p = {p}"
proof -
  let ?m = "zero_page p m"
  have e: "pde ?m p i = 0" if "i < 1024" for i using zero_page_word [OF that] by (simp add: pde_def)
  then have none: "{i. i < 1024 \<and> odd (pde ?m p i)} = {}" by auto
  show t: "tables ?m p = {p}" by (simp add: tables_def none)
  show pte: "pte_of ?m p = (\<lambda>_. 0)" using e vpn_index by (auto simp: pte_of_def fun_eq_iff)
  have "free_pages kend ?m ps" by (rule free_pages_off [OF fp zero_page_off]) (use p in \<open>auto simp: zero_page_def\<close>)
  then show "vm_own kend ?m p ps"
    using p by (simp add: vm_own_def pt_wf_def t none uframes_def upages_def pte)
qed

lemma npages_aligned:
  assumes "va mod 4096 = 0" and "sz mod 4096 = 0" and "0 < sz"
  shows "npages va sz = sz div 4096"
proof -
  obtain a b where ab: "va = 4096 * a" "sz = 4096 * b" using assms(1,2) by (auto simp: mod_eq_0_iff_dvd dvd_def)
  then have "va + sz - 1 = 4096 * (a + b - 1) + 4095" using assms(3) by (cases b) simp_all
  then have "(va + sz - 1) div 4096 = a + b - 1" by simp
  then show ?thesis using ab assms(3) by (simp add: npages_def)
qed

text \<open>What the linker guarantees about \<open>data\<close>: page aligned, above the kernel's text and below \<open>PHYSTOP\<close>.\<close>

definition kdata_ok :: "nat \<Rightarrow> bool" where
  "kdata_ok kdata \<longleftrightarrow> kdata mod PGSIZE = 0 \<and> KERNLINK < kdata \<and> kdata < KERNBASE + PHYSTOP"

lemma kmap_regions:
  assumes "kdata_ok kdata"
  shows "regions_ok (\<lambda>_. 0) (kmap kdata)"
proof -
  obtain k where k: "kdata = 4096 * k" "0x80100 < k" "k < 0x8E000"
    using assms by (auto simp: kdata_ok_def KERNLINK_def EXTMEM_def page_consts mod_eq_0_iff_dvd dvd_def)
  have v: "V2P KERNLINK = 0x100000" "V2P kdata = 4096 * (k - 0x80000)" "V2P kdata < PHYSTOP"
    using k by (simp_all add: V2P_def usub_small KERNLINK_def EXTMEM_def page_consts)
  have u: "usub EXTMEM 0 = 4096 * 0x100" "usub 0 DEVSPACE = 4096 * 0x2000"
    by (simp_all add: usub_def EXTMEM_def DEVSPACE_def)
  have w: "usub (4096 * (k - 0x80000)) 0x100000 = 4096 * (k - 0x80100)"
    "usub PHYSTOP (4096 * (k - 0x80000)) = 4096 * (0x8E000 - k)"
    using k(2,3) by (auto simp: usub_small PHYSTOP_def)
  have n: "npages 0x80000000 0x100000 = 0x100" "npages 0xFE000000 0x2000000 = 0x2000"
    "npages 0x80100000 (4096 * (k - 0x80100)) = k - 0x80100" "npages (4096 * k) (4096 * (0x8E000 - k)) = 0x8E000 - k"
    using k(2,3) by (simp_all add: npages_aligned)
  have d: "KERNBASE = 4096 * 0x80000" "KERNLINK = 4096 * 0x80100" "DEVSPACE = 4096 * 0xFE000"
    by (simp_all add: KERNLINK_def EXTMEM_def DEVSPACE_def page_consts)
  show ?thesis
    unfolding kmap_def regions_ok.simps Let_def v(1,2) u w unfolding d k(1)
    using k(2,3) by (auto simp: n PTE_W_def map_pages_def)
qed

lemma setupkvm_ok:
  fixes m :: "'z kmem_scheme"
  assumes fp: "free_pages kend m ps" and k: "kend > KERNBASE" and kd: "kdata_ok kdata"
  obtains (built) d m' qs where "setupkvm kend kdata m = Inr (d, m')" "d \<noteq> 0" "vm_own kend m' d qs"
      "set qs \<union> owned m' d = set ps" "pte_of m' d = regions_map (\<lambda>_. 0) (kmap kdata)" "upages m' d = {}"
      "same_off (set ps) m m'"
  | (full) m' qs where "setupkvm kend kdata m = Inr (0, m')" "free_pages kend m' qs" "set qs = set ps"
      "same_off (set ps) m m'" "length ps \<le> 1025"
proof (cases ps)
  case Nil
  then show thesis using that(2) [of m "[]"] kalloc_ok(1) [OF fp] fp by (simp add: setupkvm_def)
next
  case (Cons p rs)
  obtain m1 where m1: "kalloc m = (p, m1)" "free_pages kend m1 rs" "k_mem m1 = k_mem m"
    using kalloc_ok(2) [OF fp Cons] by blast
  have p: "page_ok kend p" "p \<notin> set rs" "p \<noteq> 0" using fp Cons by (auto simp: free_pages_def page_ok_def)
  let ?m2 = "zero_page p m1"
  note e = empty_dir [OF m1(2) p(1,2)]
  have o2: "same_off (set ps) m ?m2"
    using same_off_mono [OF zero_page_off [of p m1], of "set ps"] m1(3) Cons by (simp add: same_off_def)
  have "regions_ok (pte_of ?m2 p) (kmap kdata)" using kmap_regions [OF kd] by (simp add: e(2))
  from map_kernel_ok [OF vm_own_wf [OF e(1)] this] obtain ok m3 qs where m3: "map_kernel p (kmap kdata) ?m2 = Inr (ok, m3)"
    "pt_wf kend m3 p qs" "set rs = set qs \<union> (tables m3 p - tables ?m2 p)" "tables ?m2 p \<subseteq> tables m3 p"
    "same_off (tables m3 p) ?m2 m3" "\<forall>v < 0x80000. pte_of m3 p v = pte_of ?m2 p v"
    "ok \<longrightarrow> pte_of m3 p = regions_map (pte_of ?m2 p) (kmap kdata)" "\<not> ok \<longrightarrow> qs = []" by blast
  have u: "upages m3 p = {}" using m3(6) by (auto simp: upages_def e(2))
  then have own: "vm_own kend m3 p qs" "owned m3 p = tables m3 p"
    using m3(2) by (simp_all add: vm_own_def owned_def uframes_def)
  have all: "set qs \<union> owned m3 p = set ps" using m3(3,4) e(3) Cons by (auto simp: own(2))
  then have "same_off (set ps) ?m2 m3" using m3(5) by (auto intro: same_off_mono simp: own(2))
  note o3 = same_off_trans [OF o2 this]
  have s: "setupkvm kend kdata m = (if ok then Inr (p, m3) else rbind (freevm kend p m3) (\<lambda>m3. Inr (0, m3)))"
    using m1(1) p(3) m3(1) by (simp add: setupkvm_def P2V_def PHYSTOP_def DEVSPACE_def KERNBASE_def uadd_small)
  show thesis
  proof (cases ok)
    case True
    then show thesis using that(1) [OF _ p(3) own(1) all _ u o3] s m3(7) e(2) by simp
  next
    case False
    obtain m4 rs where m4: "freevm kend p m3 = Inr m4" "free_pages kend m4 rs" "set rs = set qs \<union> owned m3 p"
      "same_off (owned m3 p) m3 m4" using freevm_ok [OF own(1) k] by blast
    have "same_off (set ps) m3 m4" using all by (auto intro: same_off_mono [OF m4(4)])
    note o4 = same_off_trans [OF o3 this]
    have "length ps = card (set ps)" using fp by (simp add: free_pages_def distinct_card)
    also have "set ps = tables m3 p" using all m3(8) False own(2) by simp
    finally have "length ps \<le> 1025" using card_tables by simp
    then show thesis using that(2) [OF _ m4(2) _ o4] s m4(1,3) False all by simp
  qed
qed

section \<open>A page for an address space\<close>

text \<open>A page from the free list, with new contents, that the address space does not have yet.\<close>

lemma own_kalloc:
  assumes own: "vm_own kend m d (p # ps)" and m1: "kalloc m = (p, m1)"
    and m2: "same_off {p} m1 m2" "k_freelist m2 = k_freelist m1"
  shows "page_ok kend p" "p \<noteq> 0" "p \<notin> set ps" "p \<notin> owned m2 d" "vm_own kend m2 d ps" "owned m2 d = owned m d"
    "pte_of m2 d = pte_of m d" "tables m2 d = tables m d" "same_off {p} m m2"
proof -
  have fp: "free_pages kend m (p # ps)" using own by (simp add: vm_own_def pt_wf_def)
  then show p: "page_ok kend p" "p \<noteq> 0" "p \<notin> set ps" by (auto simp: free_pages_def page_ok_def)
  have f1: "free_pages kend m1 ps" "k_mem m1 = k_mem m" using kalloc_ok(2) [OF fp refl] m1 by auto
  show s: "same_off {p} m m2" using m2(1) f1(2) by (simp add: same_off_def)
  have fp2: "free_pages kend m2 ps" by (rule free_pages_off [OF f1(1) m2(1) _ _ m2(2)]) (use p in auto)
  have po: "p \<notin> owned m d" "set ps \<inter> owned m d = {}" using owned_pages [OF own] by auto
  then have dis: "{p} \<inter> tables m d = {}" by (auto simp: owned_def)
  note c = own_cong [OF own s _ dis fp2 po(2)]
  show "vm_own kend m2 d ps" "owned m2 d = owned m d" "pte_of m2 d = pte_of m d" "tables m2 d = tables m d"
    using c p(1) by auto
  then show "p \<notin> owned m2 d" using po by simp
qed

lemma kalloc_free:
  assumes "vm_own kend m d ps"
  shows "ps = [] \<Longrightarrow> kalloc m = (0, m)"
    and "ps = p # qs \<Longrightarrow> \<exists>m1. kalloc m = (p, m1) \<and> free_pages kend m1 qs \<and> k_mem m1 = k_mem m"
  using kalloc_ok [OF pt_wf_D(3) [OF vm_own_wf [OF assms]]] by blast+

text \<open>Giving a page back that the address space does not have.\<close>

lemma own_kfree:
  assumes own: "vm_own kend m d ps" and p: "page_ok kend p" "p \<notin> set ps" "p \<notin> owned m d"
  obtains m' where "kfree kend p m = Inr m'" "vm_own kend m' d (p # ps)" "owned m' d = owned m d"
    "pte_of m' d = pte_of m d" "tables m' d = tables m d" "same_off {p} m m'"
proof -
  obtain m' where m': "kfree kend p m = Inr m'" "free_pages kend m' (p # ps)" "same_off {p} m m'"
    using kfree_off [OF pt_wf_D(3) [OF vm_own_wf [OF own]] p(1,2)] .
  have dis: "{p} \<inter> tables m d = {}" "set (p # ps) \<inter> owned m d = {}" using p(3) owned_pages [OF own] by (auto simp: owned_def)
  note c = own_cong [OF own m'(3) _ dis(1) m'(2) dis(2)]
  show thesis using that [OF m'(1) c(1-4) m'(3)] p(1) by simp
qed

definition same_page :: "'z kmem_scheme \<Rightarrow> nat \<Rightarrow> 'z kmem_scheme \<Rightarrow> nat \<Rightarrow> bool" where
  "same_page m p m' q \<longleftrightarrow> (\<forall>i < 4096. k_mem m' (q + i) = k_mem m (p + i))"

lemma same_off_page:
  assumes "same_off Q m m'" and "\<forall>q \<in> Q. page_ok kend q" and "page_ok kend p" and "p \<notin> Q"
  shows "same_page m p m' p"
  unfolding same_page_def
proof (intro allI impI)
  fix i :: nat assume "i < 4096"
  then have "off_pages Q (p + i)"
    unfolding off_pages_def using assms(2-4) by (intro ballI off_page [of kend _ kend]) auto
  then show "k_mem m' (p + i) = k_mem m (p + i)" using assms(1) by (simp add: same_off_def)
qed

lemma same_page_trans: "same_page m p m' q \<Longrightarrow> same_page m' q m'' r \<Longrightarrow> same_page m p m'' r"
  by (simp add: same_page_def)

section \<open>Copying\<close>

lemma odd_flags: "odd (PTE_FLAGS e) \<longleftrightarrow> odd e"
  by (simp add: PTE_FLAGS_def dvd_mod_iff)

text \<open>One page of the copy: from \<open>pgdir\<close> to \<open>d\<close>, both over the same free list.\<close>

lemma copy_page:
  fixes m :: "'z kmem_scheme"
  assumes par: "vm_own kend m pgdir (p # ps)" and own: "vm_own kend m d (p # ps)"
    and dis: "owned m pgdir \<inter> owned m d = {}" and x: "x \<in> upages m pgdir" "even (pte_of m d x)"
    and m1: "kalloc m = (p, m1)"
    and m2: "m2 = m1\<lparr>k_mem := memmove (k_mem m1) p (frame_of (pte_of m pgdir x)) PGSIZE\<rparr>"
  obtains (mapped) m' qs where "mappages d (4096 * x) PGSIZE (V2P p) (PTE_FLAGS (pte_of m pgdir x)) m2 = Inr (0, m')"
      "vm_own kend m' d qs" "pte_of m' d = (pte_of m d)(x := V2P p OR PTE_FLAGS (pte_of m pgdir x))"
      "frame_of (pte_of m' d x) = p" "PTE_FLAGS (pte_of m' d x) = PTE_FLAGS (pte_of m pgdir x)"
      "set qs \<union> owned m' d = insert p (set ps \<union> owned m d)"
      "same_page m (frame_of (pte_of m pgdir x)) m' p" "same_off (insert p (set ps \<union> tables m d)) m m'"
      "set qs \<subseteq> set ps" "tables m' d \<subseteq> tables m d \<union> set ps"
  | (full) m' m'' where "mappages d (4096 * x) PGSIZE (V2P p) (PTE_FLAGS (pte_of m pgdir x)) m2 = Inr (-1, m')"
      "kfree kend p m' = Inr m''" "vm_own kend m'' d [p]" "pte_of m'' d = pte_of m d"
      "owned m'' d = set ps \<union> owned m d" "same_off (insert p (set ps \<union> tables m d)) m m''"
proof -
  let ?e = "pte_of m pgdir x"
  let ?f = "frame_of ?e"
  have mem: "k_mem m1 = k_mem m" using kalloc_free(2) [OF own refl] m1 by auto
  have o2: "same_off {p} m1 m2" "k_freelist m2 = k_freelist m1"
    by (auto simp: m2 same_off_def off_pages_def memmove_eq PGSIZE_def)
  note a = own_kalloc [OF own m1 o2]
  have fl: "PTE_FLAGS ?e < 4096" "odd (PTE_FLAGS ?e)"
    using x(1) by (simp_all add: PTE_FLAGS_def upages_def dvd_mod_iff)
  then have fl1: "PTE_FLAGS ?e OR PTE_P = PTE_FLAGS ?e" by (simp add: PTE_P_def or_Suc_0_eq)
  have xs: "x < 0x80000" "even (pte_of m2 d x)" using x a(7) by (simp_all add: upages_def)
  note nf = new_frame [OF a(1) fl(1), unfolded or.assoc fl1]
  have cp: "same_page m ?f m2 p" by (simp add: same_page_def m2 memmove_eq PGSIZE_def mem)
  have sub: "{p} \<subseteq> insert p (set ps \<union> tables m d)" by simp
  note o = same_off_mono [OF a(9) sub]
  show thesis
  proof (cases rule: own_map [OF a(5) a(1,3,4) xs fl(1), case_names mapped full])
    case (mapped m' qs)
    have pg: "\<forall>q \<in> tables m' d. page_ok kend q" using mapped(2) by (auto simp: vm_own_def pt_wf_def)
    have sp: "same_page m ?f m' p" by (rule same_page_trans [OF cp same_off_page [OF mapped(6) pg a(1) mapped(5)]])
    have o': "same_off (insert p (set ps \<union> tables m d)) m m'"
      by (rule same_off_trans [OF o same_off_mono [OF mapped(6)]]) (use mapped(8) a(8) in auto)
    have pte: "pte_of m' d = (pte_of m d)(x := V2P p OR PTE_FLAGS ?e)" using mapped(3) a(7) by (simp add: or.assoc fl1)
    show thesis
      using that(1) [OF mapped(1,2) pte _ _ _ sp o' mapped(7)] nf mapped(4,8) a(6,8) by (simp add: pte)
  next
    case (full m')
    have p: "p \<notin> owned m' d" using full(4) a(3,4) by auto
    obtain m'' where m'': "kfree kend p m' = Inr m''" "vm_own kend m'' d [p]" "owned m'' d = owned m' d"
      "pte_of m'' d = pte_of m' d" "same_off {p} m' m''"
      by (rule own_kfree [OF full(2) a(1) _ p]) auto
    have "same_off (insert p (set ps \<union> tables m d)) m2 m'"
      by (rule same_off_mono [OF full(6)]) (use full(7) a(8) in auto)
    from same_off_trans [OF same_off_trans [OF o this] same_off_mono [OF m''(5) sub]]
    show thesis using that(2) [OF full(1) m''(1,2)] m''(3,4) full(3,4) a(6,7) by simp
  qed
qed

text \<open>Page \<open>v\<close> of \<open>d\<close> in \<open>m'\<close> is a copy of page \<open>v\<close> of \<open>pgdir\<close> in \<open>m\<close>.\<close>

definition page_copied :: "'z kmem_scheme \<Rightarrow> nat \<Rightarrow> 'z kmem_scheme \<Rightarrow> nat \<Rightarrow> nat \<Rightarrow> bool" where
  "page_copied m pgdir m' d v \<longleftrightarrow> PTE_FLAGS (pte_of m' d v) = PTE_FLAGS (pte_of m pgdir v) \<and>
     same_page m (frame_of (pte_of m pgdir v)) m' (frame_of (pte_of m' d v))"

text \<open>Two address spaces that have no page in common, over one free list.\<close>

definition two_spaces :: "nat \<Rightarrow> 'z kmem_scheme \<Rightarrow> nat \<Rightarrow> nat \<Rightarrow> nat list \<Rightarrow> bool" where
  "two_spaces kend m pgdir d ps \<longleftrightarrow> vm_own kend m pgdir ps \<and> vm_own kend m d ps \<and> owned m pgdir \<inter> owned m d = {}"

lemma other_space:
  assumes two: "two_spaces kend m pgdir d ps" and s: "same_off (set ps \<union> tables m d) m m'"
    and own: "vm_own kend m' d qs" "set qs \<union> owned m' d = set ps \<union> owned m d"
  shows "two_spaces kend m' pgdir d qs" "pte_of m' pgdir = pte_of m pgdir" "owned m' pgdir = owned m pgdir"
    "q \<in> uframes m pgdir \<Longrightarrow> same_page m q m' q" "q \<in> uframes m d \<Longrightarrow> same_page m q m' q"
proof -
  have par: "vm_own kend m pgdir ps" and chi: "vm_own kend m d ps" and dis: "owned m pgdir \<inter> owned m d = {}"
    using two by (simp_all add: two_spaces_def)
  have Q: "\<forall>q \<in> set ps \<union> tables m d. page_ok kend q"
    using vm_own_wf [OF chi] by (auto simp: pt_wf_def free_pages_def)
  have away: "(set ps \<union> tables m d) \<inter> owned m pgdir = {}" "set qs \<inter> owned m pgdir = {}" "owned m' d \<inter> owned m pgdir = {}"
    using owned_pages [OF par] dis own(2) by (auto simp: owned_def)
  then have "(set ps \<union> tables m d) \<inter> tables m pgdir = {}" by (auto simp: owned_def)
  note c = own_cong [OF par s Q this pt_wf_D(3) [OF vm_own_wf [OF own(1)]] away(2)]
  show "two_spaces kend m' pgdir d qs" using c(1,2) own(1) away(3) by (auto simp: two_spaces_def)
  show "pte_of m' pgdir = pte_of m pgdir" "owned m' pgdir = owned m pgdir" by (rule c)+
  show "same_page m q m' q" if "q \<in> uframes m pgdir"
    using that away(1) par by (intro same_off_page [OF s Q]) (auto simp: owned_def vm_own_def)
  show "same_page m q m' q" if "q \<in> uframes m d"
    using that chi by (intro same_off_page [OF s Q]) (auto simp: owned_def vm_own_def)
qed

lemma page_copied_later:
  assumes "page_copied m pgdir m' d v" and "pte_of m'' d v = pte_of m' d v"
    and "same_page m' (frame_of (pte_of m' d v)) m'' (frame_of (pte_of m' d v))"
  shows "page_copied m pgdir m'' d v"
  using assms same_page_trans by (fastforce simp: page_copied_def)

lemma page_copied_before:
  assumes "page_copied m' pgdir m'' d v" and "pte_of m' pgdir = pte_of m pgdir"
    and "same_page m (frame_of (pte_of m pgdir v)) m' (frame_of (pte_of m pgdir v))"
  shows "page_copied m pgdir m'' d v"
  using assms same_page_trans by (fastforce simp: page_copied_def)

text \<open>What the loop from page \<open>x\<close> on leaves behind; when it fails at most one page is free.\<close>

definition copied :: "nat \<Rightarrow> nat \<Rightarrow> nat \<Rightarrow> nat \<Rightarrow> nat \<Rightarrow> 'z kmem_scheme \<Rightarrow> nat list \<Rightarrow> bool \<Rightarrow> 'z kmem_scheme \<Rightarrow> nat list \<Rightarrow> bool" where
  "copied kend x y pgdir d m ps ok m' qs \<longleftrightarrow> vm_own kend m' d qs \<and> set qs \<union> owned m' d = set ps \<union> owned m d \<and>
     same_off (set ps \<union> tables m d) m m' \<and> (\<forall>v. v < x \<or> y \<le> v \<longrightarrow> pte_of m' d v = pte_of m d v) \<and>
     (ok \<longrightarrow> (\<forall>v. x \<le> v \<and> v < y \<longrightarrow> page_copied m pgdir m' d v)) \<and> (\<not> ok \<longrightarrow> length qs \<le> 1)"

lemma copy_step:
  assumes two: "two_spaces kend m pgdir d (p # ps)" and pres: "\<forall>v. x \<le> v \<and> v < y \<longrightarrow> v \<in> upages m pgdir" and xy: "x < y"
    and m2: "vm_own kend m2 d qs" "pte_of m2 d = (pte_of m d)(x := e)" "frame_of (pte_of m2 d x) = p"
      "PTE_FLAGS (pte_of m2 d x) = PTE_FLAGS (pte_of m pgdir x)" "set qs \<union> owned m2 d = insert p (set ps \<union> owned m d)"
      "same_page m (frame_of (pte_of m pgdir x)) m2 p" "same_off (insert p (set ps \<union> tables m d)) m m2"
      "set qs \<subseteq> set ps" "tables m2 d \<subseteq> tables m d \<union> set ps"
    and c: "copied kend (x + 1) y pgdir d m2 qs ok m' rs"
  shows "copied kend x y pgdir d m (p # ps) ok m' rs"
proof -
  have off: "same_off (set (p # ps) \<union> tables m d) m m2" and all: "set qs \<union> owned m2 d = set (p # ps) \<union> owned m d"
    using m2(5,7) by simp_all
  note o = other_space [OF two off m2(1) all]
  have m': "vm_own kend m' d rs" "set rs \<union> owned m' d = set qs \<union> owned m2 d" "same_off (set qs \<union> tables m2 d) m2 m'"
    "\<forall>v. v < x + 1 \<or> y \<le> v \<longrightarrow> pte_of m' d v = pte_of m2 d v"
    "ok \<longrightarrow> (\<forall>v. x + 1 \<le> v \<and> v < y \<longrightarrow> page_copied m2 pgdir m' d v)" "\<not> ok \<longrightarrow> length rs \<le> 1"
    using c by (simp_all add: copied_def)
  have "same_off (set (p # ps) \<union> tables m d) m2 m'" by (rule same_off_mono [OF m'(3)]) (use m2(8,9) in auto)
  note off' = same_off_trans [OF off this]
  have x: "x \<in> upages m pgdir" using pres xy by simp
  then have "x \<in> upages m2 d"
    using odd_flags [of "pte_of m2 d x"] odd_flags [of "pte_of m pgdir x"] m2(4) by (simp add: upages_def)
  then have "frame_of (pte_of m2 d x) \<in> uframes m2 d" by (simp add: uframes_def)
  then have s2: "same_page m2 (frame_of (pte_of m2 d x)) m' (frame_of (pte_of m2 d x))"
    by (rule other_space(5) [OF o(1) m'(3,1,2)])
  have c2: "page_copied m pgdir m2 d x" using m2(3,4,6) by (simp add: page_copied_def)
  have "pte_of m' d x = pte_of m2 d x" using m'(4) by simp
  note cx = page_copied_later [OF c2 this s2]
  have cv: "page_copied m pgdir m' d v" if "ok" "x + 1 \<le> v" "v < y" for v
  proof (rule page_copied_before [OF _ o(2)])
    show "page_copied m2 pgdir m' d v" using m'(5) that by blast
    have "v \<in> upages m pgdir" using pres that by simp
    then show "same_page m (frame_of (pte_of m pgdir v)) m2 (frame_of (pte_of m pgdir v))"
      by (intro o(4)) (simp add: uframes_def)
  qed
  have "\<forall>v. v < x \<or> y \<le> v \<longrightarrow> pte_of m' d v = pte_of m d v" using m'(4) xy by (auto simp: m2(2))
  moreover have "ok \<longrightarrow> (\<forall>v. x \<le> v \<and> v < y \<longrightarrow> page_copied m pgdir m' d v)"
    using cx cv by (metis Suc_eq_plus1 Suc_leI le_neq_implies_less)
  ultimately show ?thesis using m'(1,2,6) all off' by (simp add: copied_def)
qed

lemma copyuvm_from_ok:
  fixes m :: "'z kmem_scheme"
  assumes y: "y = (sz + 4095) div 4096"
    and "two_spaces kend m pgdir d ps" and "\<forall>v. x \<le> v \<and> v < y \<longrightarrow> v \<in> upages m pgdir"
    and "\<forall>v. x \<le> v \<and> v < y \<longrightarrow> even (pte_of m d v)"
  shows "\<exists>ok m' qs. copyuvm_from kend pgdir d (4096 * x) sz m = Inr (ok, m') \<and> copied kend x y pgdir d m ps ok m' qs"
  using assms(2-)
proof (induction "y - x" arbitrary: x m ps)
  case 0
  then have "\<not> 4096 * x < sz" using page_count [of x sz] y by simp
  then show ?case using 0
    by (intro exI [of _ True] exI [of _ m] exI [of _ ps]) (auto simp: copyuvm_from.simps two_spaces_def copied_def)
next
  case (Suc n)
  have xy: "x < y" using Suc.hyps(2) by simp
  then have lt: "4096 * x < sz" using page_count [of x sz] y by simp
  have xu: "x \<in> upages m pgdir" "even (pte_of m d x)" using Suc.prems(2,3) xy by auto
  have par: "vm_own kend m pgdir ps" and chi: "vm_own kend m d ps" and dis: "owned m pgdir \<inter> owned m d = {}"
    using Suc.prems(1) by (simp_all add: two_spaces_def)
  obtain pte where w: "walkpgdir pgdir (4096 * x) False m = (Some pte, m)" "word_at m pte = pte_of m pgdir x"
    using upage_walk [OF xu(1)] .
  have odd: "odd (pte_of m pgdir x)" using xu(1) by (simp add: upages_def)
  show ?case
  proof (cases ps)
    case Nil
    then have "copyuvm_from kend pgdir d (4096 * x) sz m = Inr (False, m)"
      using kalloc_free(1) [OF chi] lt w odd by (simp add: copyuvm_from.simps and_PTE_P)
    then show ?thesis using Nil chi by (intro exI [of _ False] exI [of _ m] exI [of _ "[]"]) (simp add: copied_def)
  next
    case (Cons p rs)
    obtain m1 where m1: "kalloc m = (p, m1)" using kalloc_free(2) [OF chi Cons] by blast
    have p0: "p \<noteq> 0" using chi Cons by (auto simp: vm_own_def pt_wf_def free_pages_def page_ok_def)
    note par' = par [unfolded Cons] and chi' = chi [unfolded Cons] and two = Suc.prems(1) [unfolded Cons]
    show ?thesis
    proof (cases rule: copy_page [OF par' chi' dis xu m1 refl, case_names mapped full])
      case (mapped m2 qs)
      have step: "copyuvm_from kend pgdir d (4096 * x) sz m = copyuvm_from kend pgdir d (4096 * (x + 1)) sz m2"
        by (subst copyuvm_from.simps)
          (use lt w odd m1 p0 mapped(1) in \<open>simp add: and_PTE_P frame_of_def PGSIZE_def add.commute\<close>)
      have off: "same_off (set (p # rs) \<union> tables m d) m m2" and all: "set qs \<union> owned m2 d = set (p # rs) \<union> owned m d"
        using mapped(6,8) by simp_all
      note o = other_space [OF two off mapped(2) all]
      have "upages m2 pgdir = upages m pgdir" by (simp add: upages_def o(2))
      then have "\<forall>v. x + 1 \<le> v \<and> v < y \<longrightarrow> v \<in> upages m2 pgdir" "\<forall>v. x + 1 \<le> v \<and> v < y \<longrightarrow> even (pte_of m2 d v)"
        using Suc.prems(2,3) by (simp_all add: mapped(3))
      moreover have "n = y - (x + 1)" using Suc.hyps(2) by simp
      ultimately obtain ok m' ts where m': "copyuvm_from kend pgdir d (4096 * (x + 1)) sz m2 = Inr (ok, m')"
        "copied kend (x + 1) y pgdir d m2 qs ok m' ts"
        using Suc.hyps(1) [OF _ o(1)] by blast
      have "copied kend x y pgdir d m (p # rs) ok m' ts"
        by (rule copy_step [OF two Suc.prems(2) xy mapped(2-10) m'(2)])
      then show ?thesis unfolding Cons using step m'(1) by auto
    next
      case (full m2 m')
      then have "copyuvm_from kend pgdir d (4096 * x) sz m = Inr (False, m')"
        by (subst copyuvm_from.simps) (use lt w odd m1 p0 in \<open>simp add: and_PTE_P frame_of_def\<close>)
      then show ?thesis using full
        by (intro exI [of _ False] exI [of _ m'] exI [of _ "[p]"]) (simp add: Cons copied_def)
    qed
  qed
qed

lemma space_bound:
  assumes "upages m d \<subseteq> {..<y}"
  shows "card (set rs \<union> owned m d) \<le> length rs + (1025 + y)"
proof -
  have "card (upages m d) \<le> y" using card_mono [OF _ assms] by simp
  then have "card (uframes m d) \<le> y" unfolding uframes_def
    using card_image_le [of "upages m d" "\<lambda>v. frame_of (pte_of m d v)"] by (simp add: upages_def)
  then show ?thesis
    using card_Un_le [of "set rs" "owned m d"] card_Un_le [of "tables m d" "uframes m d"] card_tables [of m d] card_length [of rs]
    unfolding owned_def by linarith
qed

lemma copyuvm_ok:
  fixes m :: "'z kmem_scheme"
  assumes k: "kend > KERNBASE" and kd: "kdata_ok kdata" and own: "vm_own kend m pgdir ps" and sz: "sz \<le> KERNBASE"
    and y: "y = (sz + 4095) div 4096" and pres: "\<forall>v < y. v \<in> upages m pgdir"
  obtains (copied) d m' qs where "copyuvm kend kdata pgdir sz m = Inr (d, m')" "d \<noteq> 0" "two_spaces kend m' pgdir d qs"
      "pte_of m' pgdir = pte_of m pgdir" "owned m' pgdir = owned m pgdir" "set qs \<union> owned m' d = set ps"
      "same_off (set ps) m m'" "\<forall>v < y. page_copied m pgdir m' d v"
      "\<forall>v \<ge> y. pte_of m' d v = regions_map (\<lambda>_. 0) (kmap kdata) v"
  | (full) m' qs where "copyuvm kend kdata pgdir sz m = Inr (0, m')" "vm_own kend m' pgdir qs"
      "pte_of m' pgdir = pte_of m pgdir" "set qs = set ps" "same_off (set ps) m m'" "length ps \<le> 1026 + y"
proof -
  have fp: "free_pages kend m ps" using own by (simp add: vm_own_def pt_wf_def)
  have Q: "\<forall>q \<in> set ps. page_ok kend q" "set ps \<inter> owned m pgdir = {}" "set ps \<inter> tables m pgdir = {}"
    using fp owned_pages [OF own] by (auto simp: free_pages_def owned_def)
  have y': "y \<le> 0x80000" using sz unfolding y by (simp add: KERNBASE_def)
  show thesis
  proof (cases rule: setupkvm_ok [OF fp k kd, case_names built full])
    case (full m' qs)
    note c = own_cong [OF own full(4) Q(1,3) full(2)]
    show thesis using that(2) [of m' qs] full c(1,3) Q(2) by (simp add: copyuvm_def)
  next
    case (built d m1 qs)
    have d: "pt_wf kend m1 d qs" "owned m1 d = tables m1 d" using built(3,6) by (simp_all add: vm_own_def owned_def uframes_def)
    note c = own_cong [OF own built(7) Q(1,3) pt_wf_D(3) [OF d(1)]]
    have qs: "set qs \<inter> owned m pgdir = {}" "owned m1 d \<inter> owned m pgdir = {}" using Q(2) built(4) by auto
    have two: "two_spaces kend m1 pgdir d qs" using c(1,2) [OF qs(1)] built(3) qs(2) by (auto simp: two_spaces_def)
    have pg: "pte_of m1 pgdir = pte_of m pgdir" by (rule c(3) [OF qs(1)])
    have up: "upages m1 pgdir = upages m pgdir" by (simp add: upages_def pg)
    have "\<forall>v. 0 \<le> v \<and> v < y \<longrightarrow> v \<in> upages m1 pgdir" "\<forall>v. 0 \<le> v \<and> v < y \<longrightarrow> even (pte_of m1 d v)"
      using pres y' built(6) by (auto simp: up) (auto simp: upages_def)
    from copyuvm_from_ok [OF y two this] obtain ok m2 rs where m2: "copyuvm_from kend pgdir d 0 sz m1 = Inr (ok, m2)"
      "vm_own kend m2 d rs" "set rs \<union> owned m2 d = set qs \<union> owned m1 d" "same_off (set qs \<union> tables m1 d) m1 m2"
      "\<forall>v \<ge> y. pte_of m2 d v = pte_of m1 d v"
      "ok \<longrightarrow> (\<forall>v < y. page_copied m1 pgdir m2 d v)" "\<not> ok \<longrightarrow> length rs \<le> 1" by (auto simp: copied_def)
    note o = other_space [OF two m2(4,2,3)]
    have "same_off (set ps) m1 m2" using m2(4) built(4) d(2) by simp
    note off = same_off_trans [OF built(7) this]
    show thesis
    proof (cases ok)
      case True
      have "page_copied m pgdir m2 d v" if "v < y" for v
      proof (rule page_copied_before [OF _ pg])
        show "page_copied m1 pgdir m2 d v" using m2(6) True that by blast
        have "frame_of (pte_of m pgdir v) \<in> uframes m pgdir" using pres that by (simp add: uframes_def)
        then show "same_page m (frame_of (pte_of m pgdir v)) m1 (frame_of (pte_of m pgdir v))"
          using own Q(2) by (intro same_off_page [OF built(7) Q(1)]) (auto simp: vm_own_def owned_def)
      qed
      then show thesis
        using that(1) [OF _ built(2) o(1) _ _ _ off] m2 True built o(2,3) pg c(2) [OF qs(1)] by (simp add: copyuvm_def)
    next
      case False
      obtain m3 ts where m3: "freevm kend d m2 = Inr m3" "free_pages kend m3 ts" "set ts = set rs \<union> owned m2 d"
        "same_off (owned m2 d) m2 m3" using freevm_ok [OF m2(2) k] by blast
      have ts: "set ts = set ps" using m3(3) m2(3) built(4) by simp
      have "same_off (set ps) m2 m3" by (rule same_off_mono [OF m3(4)]) (use ts m3(3) in auto)
      note off3 = same_off_trans [OF off this]
      note c3 = own_cong [OF own off3 Q(1,3) m3(2)]
      have "upages m2 d \<subseteq> {..<y}"
        using m2(5) built(6) by (auto simp: upages_def) (metis not_le)
      moreover have "length ps = card (set rs \<union> owned m2 d)"
        using distinct_card [of ps] fp ts m3(3) by (simp add: free_pages_def)
      ultimately have "length ps \<le> 1026 + y" using space_bound [of m2 d y rs] m2(7) False by simp
      then show thesis using that(2) [of m3 ts] m2(1) m3(1) False built(1,2) c3(1,3) ts off3 Q(2) by (simp add: copyuvm_def)
    qed
  qed
qed

section \<open>Growing\<close>

text \<open>Page \<open>v\<close> of \<open>d\<close> is a page of zeros that the process can write.\<close>

definition zeroed :: "'z kmem_scheme \<Rightarrow> nat \<Rightarrow> nat \<Rightarrow> bool" where
  "zeroed m d v \<longleftrightarrow> PTE_FLAGS (pte_of m d v) = PTE_P + PTE_W + PTE_U \<and> (\<forall>i < 4096. k_mem m (frame_of (pte_of m d v) + i) = 0)"

lemma zeroed_later:
  assumes "zeroed m d v" and "pte_of m' d v = pte_of m d v"
    and "same_page m (frame_of (pte_of m d v)) m' (frame_of (pte_of m d v))"
  shows "zeroed m' d v"
  using assms by (simp add: zeroed_def same_page_def)

text \<open>One page of the loop.\<close>

lemma grow_page:
  fixes m :: "'z kmem_scheme"
  assumes own: "vm_own kend m d (p # ps)" and x: "x < 0x80000" "pte_of m d x = 0" and m1: "kalloc m = (p, m1)"
  obtains (mapped) m' qs where "mappages d (4096 * x) PGSIZE (V2P p) (PTE_W OR PTE_U) (zero_page p m1) = Inr (0, m')"
      "vm_own kend m' d qs" "pte_of m' d = (pte_of m d)(x := V2P p OR 7)" "frame_of (V2P p OR 7) = p" "odd (V2P p OR 7)"
      "set qs \<union> owned m' d = insert p (set ps \<union> owned m d)" "zeroed m' d x"
      "same_off (insert p (set ps \<union> tables m d)) m m'" "set qs \<subseteq> set ps" "tables m' d \<subseteq> tables m d \<union> set ps"
      "tables m d \<subseteq> tables m' d"
  | (full) m' where "mappages d (4096 * x) PGSIZE (V2P p) (PTE_W OR PTE_U) (zero_page p m1) = Inr (-1, m')"
      "page_ok kend p" "p \<notin> set ps" "p \<notin> owned m' d" "vm_own kend m' d []" "pte_of m' d = pte_of m d"
      "owned m' d = set ps \<union> owned m d" "same_off (insert p (set ps \<union> tables m d)) m m'"
      "tables m' d \<subseteq> tables m d \<union> set ps" "tables m d \<subseteq> tables m' d"
proof -
  have o1: "k_freelist (zero_page p m1) = k_freelist m1" by (simp add: zero_page_def)
  note a = own_kalloc [OF own m1 zero_page_off o1]
  have fl: "PTE_W OR PTE_U < 4096" "(PTE_W OR PTE_U) OR PTE_P = 7" by (simp_all add: PTE_W_def PTE_U_def PTE_P_def)
  have x2: "even (pte_of (zero_page p m1) d x)" using x a(7) by simp
  note nf = new_frame [OF a(1) fl(1), unfolded or.assoc [of "V2P p"] fl(2)]
  have z: "\<forall>i < 4096. k_mem (zero_page p m1) (p + i) = 0" by (simp add: zero_page_def memset_eq PGSIZE_def)
  have sub: "{p} \<subseteq> insert p (set ps \<union> tables m d)" by simp
  note o = same_off_mono [OF a(9) sub]
  show thesis
  proof (cases rule: own_map [OF a(5) a(1,3,4) x(1) x2 fl(1), case_names mapped full])
    case (mapped m' qs)
    have pg: "\<forall>q \<in> tables m' d. page_ok kend q" using mapped(2) by (auto simp: vm_own_def pt_wf_def)
    have o': "same_off (insert p (set ps \<union> tables m d)) m m'"
      by (rule same_off_trans [OF o same_off_mono [OF mapped(6)]]) (use mapped(8) a(8) in auto)
    have pte: "pte_of m' d = (pte_of m d)(x := V2P p OR 7)" using mapped(3) a(7) by (simp add: or.assoc [of "V2P p"] fl(2))
    have "zeroed m' d x"
      using same_off_page [OF mapped(6) pg a(1) mapped(5)] z nf
      by (simp add: zeroed_def same_page_def pte PTE_P_def PTE_W_def PTE_U_def)
    then show thesis
      using that(1) [OF mapped(1,2) pte _ _ _ _ o' mapped(7)] nf mapped(4,8,9) a(6,8) by simp
  next
    case (full m')
    have "same_off (insert p (set ps \<union> tables m d)) m m'"
      by (rule same_off_trans [OF o same_off_mono [OF full(6)]]) (use full(7) a(8) in auto)
    then show thesis using that(2) [OF full(1) a(1,3) _ full(2)] full(3,4,7,8) a(3,4,6,7,8) by simp
  qed
qed

text \<open>Undoing the pages from \<open>z\<close> up to \<open>x\<close> restores the table, without a change to other pages.\<close>

lemma shrink_back:
  assumes own: "vm_own kend m' d qs" and k: "kend > KERNBASE" and sz: "oldsz < newsz" "newsz < KERNBASE"
    and z: "z = (oldsz + 4095) div 4096" "y = (newsz + 4095) div 4096"
    and f: "\<forall>v. z \<le> v \<and> v < y \<longrightarrow> f v = 0" "\<forall>v. v < z \<or> y \<le> v \<longrightarrow> pte_of m' d v = f v"
      "\<forall>v. z \<le> v \<and> v < y \<longrightarrow> pte_of m' d v = 0 \<or> odd (pte_of m' d v)"
  obtains m'' rs where "deallocuvm kend d newsz oldsz m' = Inr (oldsz, m'')" "vm_own kend m'' d rs" "pte_of m'' d = f"
    "set rs \<union> owned m'' d = set qs \<union> owned m' d" "tables m'' d = tables m' d" "owned m'' d \<subseteq> owned m' d"
    "same_off ((\<lambda>v. frame_of (pte_of m' d v)) ` {v. z \<le> v \<and> v < y \<and> odd (pte_of m' d v)} \<union> tables m' d) m' m''"
proof -
  have "newsz \<le> 0x80000000" using sz(2) by (simp add: KERNBASE_def)
  from deallocuvm_ok [OF own k sz(1) this] obtain m'' rs where
    m'': "deallocuvm kend d newsz oldsz m' = Inr (oldsz, m'')" "vm_own kend m'' d rs"
    "pte_of m'' d = unmap_pages (pte_of m' d) z y"
    "set rs \<union> owned m'' d = set qs \<union> owned m' d" "tables m'' d = tables m' d" "owned m'' d \<subseteq> owned m' d"
    "same_off (owned m' d - owned m'' d \<union> tables m' d) m' m''" unfolding z by blast
  have "pte_of m'' d v = f v" for v
    using f(1) [rule_format, of v] f(2) [rule_format, of v] f(3) [rule_format, of v]
    by (cases "z \<le> v \<and> v < y") (auto simp: m''(3) unmap_pages_def not_less)
  then have pte: "pte_of m'' d = f" ..
  let ?G = "(\<lambda>v. frame_of (pte_of m' d v)) ` {v. z \<le> v \<and> v < y \<and> odd (pte_of m' d v)}"
  have "owned m' d - owned m'' d \<subseteq> ?G"
  proof
    fix q assume q: "q \<in> owned m' d - owned m'' d"
    then obtain v where v: "v \<in> upages m' d" "q = frame_of (pte_of m' d v)" "q \<notin> uframes m'' d"
      using m''(5) by (auto simp: owned_def uframes_def)
    have "z \<le> v \<and> v < y"
    proof (rule ccontr)
      assume "\<not> ?thesis"
      then have "pte_of m'' d v = pte_of m' d v" using f(2) [rule_format, of v] by (auto simp: pte)
      moreover from this have "v \<in> upages m'' d" using v(1) by (simp add: upages_def)
      then have "frame_of (pte_of m'' d v) \<in> uframes m'' d" by (simp add: uframes_def)
      ultimately show False using v(2,3) by simp
    qed
    then show "q \<in> ?G" using v by (auto simp: upages_def)
  qed
  then have "same_off (?G \<union> tables m' d) m' m''" by (intro same_off_mono [OF m''(7)]) auto
  then show thesis using that [OF m''(1,2) pte m''(4-6)] by blast
qed

text \<open>
  The loop at page \<open>x\<close>: \<open>f\<close> is the table as it was, with no entries from page \<open>z\<close> up to page \<open>y\<close>, and
  the pages from \<open>z\<close> up to \<open>x\<close> have been added.
\<close>

definition growing :: "(nat \<Rightarrow> nat) \<Rightarrow> nat \<Rightarrow> nat \<Rightarrow> nat \<Rightarrow> 'z kmem_scheme \<Rightarrow> nat \<Rightarrow> bool" where
  "growing f z y x m d \<longleftrightarrow> z \<le> x \<and> x \<le> y \<and> (\<forall>v. z \<le> v \<and> v < y \<longrightarrow> f v = 0) \<and>
     (\<forall>v. v < z \<or> x \<le> v \<longrightarrow> pte_of m d v = f v) \<and> (\<forall>v. z \<le> v \<and> v < x \<longrightarrow> odd (pte_of m d v))"

text \<open>The outcomes: the pages from \<open>x\<close> on are added as well, or the table is what it was.\<close>

definition grown :: "nat \<Rightarrow> nat \<Rightarrow> 'z kmem_scheme \<Rightarrow> nat \<Rightarrow> nat list \<Rightarrow> 'z kmem_scheme \<Rightarrow> bool" where
  "grown x y m d ps m' \<longleftrightarrow> (\<forall>v. v < x \<or> y \<le> v \<longrightarrow> pte_of m' d v = pte_of m d v) \<and>
     (\<forall>v. x \<le> v \<and> v < y \<longrightarrow> zeroed m' d v) \<and> same_off (set ps \<union> tables m d) m m'"

definition undone :: "(nat \<Rightarrow> nat) \<Rightarrow> nat \<Rightarrow> nat \<Rightarrow> nat \<Rightarrow> 'z kmem_scheme \<Rightarrow> nat \<Rightarrow> nat list \<Rightarrow> 'z kmem_scheme \<Rightarrow> bool" where
  "undone f z y x m d ps m' \<longleftrightarrow> x < y \<and> pte_of m' d = f \<and> card (set ps - tables m' d) \<le> y - x \<and>
     same_off (set ps \<union> tables m d \<union> (\<lambda>v. frame_of (pte_of m d v)) ` {z..<x}) m m'"

definition conserved :: "nat \<Rightarrow> 'z kmem_scheme \<Rightarrow> nat \<Rightarrow> nat list \<Rightarrow> 'z kmem_scheme \<Rightarrow> nat list \<Rightarrow> bool" where
  "conserved kend m d ps m' qs \<longleftrightarrow> vm_own kend m' d qs \<and> set qs \<union> owned m' d = set ps \<union> owned m d \<and>
     tables m d \<subseteq> tables m' d"

lemma growing_undo:
  assumes g: "growing f z y x m d" and pte: "pte_of m' d = pte_of m d" and own: "vm_own kend m' d qs"
    and k: "kend > KERNBASE" and sz: "oldsz < newsz" "newsz < KERNBASE"
    and z: "z = (oldsz + 4095) div 4096" "y = (newsz + 4095) div 4096"
  obtains m'' rs where "deallocuvm kend d newsz oldsz m' = Inr (oldsz, m'')" "vm_own kend m'' d rs" "pte_of m'' d = f"
    "set rs \<union> owned m'' d = set qs \<union> owned m' d" "tables m'' d = tables m' d"
    "same_off ((\<lambda>v. frame_of (pte_of m d v)) ` {z..<x} \<union> tables m' d) m' m''"
proof -
  have "pte_of m d v = 0 \<and> x \<le> v \<or> odd (pte_of m d v) \<and> v < x" if "z \<le> v \<and> v < y" for v
    using that g by (cases "v < x") (simp_all add: growing_def)
  then have pres: "\<forall>v. z \<le> v \<and> v < y \<longrightarrow> pte_of m' d v = 0 \<or> odd (pte_of m' d v)"
    "{v. z \<le> v \<and> v < y \<and> odd (pte_of m' d v)} \<subseteq> {z..<x}" unfolding pte by fastforce+
  have f: "\<forall>v. z \<le> v \<and> v < y \<longrightarrow> f v = 0" "\<forall>v. v < z \<or> y \<le> v \<longrightarrow> pte_of m' d v = f v"
    using g unfolding pte by (simp_all add: growing_def)
  obtain m'' rs where m'': "deallocuvm kend d newsz oldsz m' = Inr (oldsz, m'')" "vm_own kend m'' d rs" "pte_of m'' d = f"
    "set rs \<union> owned m'' d = set qs \<union> owned m' d" "tables m'' d = tables m' d" "owned m'' d \<subseteq> owned m' d"
    "same_off ((\<lambda>v. frame_of (pte_of m' d v)) ` {v. z \<le> v \<and> v < y \<and> odd (pte_of m' d v)} \<union> tables m' d) m' m''"
    by (rule shrink_back [OF own k sz z f pres(1)])
  have "same_off ((\<lambda>v. frame_of (pte_of m d v)) ` {z..<x} \<union> tables m' d) m' m''"
    by (rule same_off_mono [OF m''(7)]) (use pres(2) in \<open>auto simp: pte\<close>)
  then show thesis by (rule that [OF m''(1-5)])
qed

lemma grow_full:
  assumes own: "vm_own kend m d (p # rs)" and g: "growing f z y x m d" and k: "kend > KERNBASE"
    and sz: "oldsz < newsz" "newsz < KERNBASE" and z: "z = (oldsz + 4095) div 4096" "y = (newsz + 4095) div 4096"
    and xy: "x < y" and p: "page_ok kend p" "p \<notin> owned m2 d" and own2: "vm_own kend m2 d []"
    and m2: "pte_of m2 d = pte_of m d" "owned m2 d = set rs \<union> owned m d"
      "same_off (insert p (set rs \<union> tables m d)) m m2" "tables m2 d \<subseteq> tables m d \<union> set rs" "tables m d \<subseteq> tables m2 d"
  obtains m3 m' qs where "deallocuvm kend d newsz oldsz m2 = Inr (oldsz, m3)" "kfree kend p m3 = Inr m'"
    "conserved kend m d (p # rs) m' qs" "undone f z y x m d (p # rs) m'"
proof -
  obtain m3 ts where m3: "deallocuvm kend d newsz oldsz m2 = Inr (oldsz, m3)" "vm_own kend m3 d ts" "pte_of m3 d = f"
    "set ts \<union> owned m3 d = set [] \<union> owned m2 d" "tables m3 d = tables m2 d"
    "same_off ((\<lambda>v. frame_of (pte_of m d v)) ` {z..<x} \<union> tables m2 d) m2 m3"
    by (rule growing_undo [OF g m2(1) own2 k sz z])
  have np: "p \<notin> set ts" "p \<notin> owned m3 d" using p(2) m3(4) by auto
  obtain m' where m': "kfree kend p m3 = Inr m'" "vm_own kend m' d (p # ts)" "owned m' d = owned m3 d"
    "pte_of m' d = pte_of m3 d" "tables m' d = tables m3 d" "same_off {p} m3 m'"
    by (rule own_kfree [OF m3(2) p(1) np])
  let ?Q = "set (p # rs) \<union> tables m d \<union> (\<lambda>v. frame_of (pte_of m d v)) ` {z..<x}"
  have "same_off ?Q m m2" by (rule same_off_mono [OF m2(3)]) auto
  moreover have "same_off ?Q m2 m3" by (rule same_off_mono [OF m3(6)]) (use m2(4) in auto)
  moreover have "same_off ?Q m3 m'" by (rule same_off_mono [OF m'(6)]) simp
  ultimately have off: "same_off ?Q m m'" by (blast intro: same_off_trans)
  have "uframes m2 d = uframes m d" by (rule uframes_cong [OF m2(1)])
  then have "set (p # rs) - tables m' d \<subseteq> {p}"
    using m2(2) owned_pages [OF own] by (auto simp: m'(5) m3(5) owned_def)
  then have "card (set (p # rs) - tables m' d) \<le> 1" using card_mono [of "{p}"] by simp
  then have "undone f z y x m d (p # rs) m'" using off xy m3(3) m'(4) by (simp add: undone_def)
  moreover have "conserved kend m d (p # rs) m' (p # ts)"
    using m3(4,5) m'(2,3,5) m2(2,5) by (auto simp: conserved_def)
  ultimately show thesis using that [OF m3(1) m'(1)] by blast
qed

lemma grow_step:
  assumes own: "vm_own kend m d (p # rs)" and own2: "vm_own kend m2 d qs"
    and m2: "pte_of m2 d = (pte_of m d)(x := e)" "frame_of e = p" "odd e"
      "set qs \<union> owned m2 d = insert p (set rs \<union> owned m d)" "zeroed m2 d x" "same_off (insert p (set rs \<union> tables m d)) m m2"
      "set qs \<subseteq> set rs" "tables m2 d \<subseteq> tables m d \<union> set rs" "tables m d \<subseteq> tables m2 d"
    and x: "z \<le> x" "x < y" "x < 0x80000" and c: "conserved kend m2 d qs m' ts"
  shows "conserved kend m d (p # rs) m' ts" "grown (x + 1) y m2 d qs m' \<Longrightarrow> grown x y m d (p # rs) m'"
    "undone f z y (x + 1) m2 d qs m' \<Longrightarrow> undone f z y x m d (p # rs) m'"
proof -
  show "conserved kend m d (p # rs) m' ts" using c m2(4,9) by (auto simp: conserved_def)
  have off: "same_off (set (p # rs) \<union> tables m d) m m2" using m2(6) by simp
  have Q: "\<forall>q \<in> set qs \<union> tables m2 d. page_ok kend q"
    using vm_own_wf [OF own2] by (auto simp: pt_wf_def free_pages_def)
  have "x \<in> upages m2 d" using m2(1,3) x(3) by (simp add: upages_def)
  then have "p \<in> uframes m2 d" using m2(1,2) by (force simp: uframes_def)
  then have p: "page_ok kend p" "p \<notin> set qs \<union> tables m2 d" using own2 by (auto simp: vm_own_def)
  show "grown x y m d (p # rs) m'" if g: "grown (x + 1) y m2 d qs m'"
  proof -
    have g': "\<forall>v. v < x + 1 \<or> y \<le> v \<longrightarrow> pte_of m' d v = pte_of m2 d v"
      "\<forall>v. x + 1 \<le> v \<and> v < y \<longrightarrow> zeroed m' d v" "same_off (set qs \<union> tables m2 d) m2 m'"
      using g by (simp_all add: grown_def)
    have "same_page m2 p m' p" by (rule same_off_page [OF g'(3) Q p])
    then have "zeroed m' d x" using zeroed_later [OF m2(5)] g'(1) m2(1,2) by simp
    then have z: "\<forall>v. x \<le> v \<and> v < y \<longrightarrow> zeroed m' d v" using g'(2) by (metis Suc_eq_plus1 Suc_leI le_neq_implies_less)
    have "same_off (set (p # rs) \<union> tables m d) m2 m'" by (rule same_off_mono [OF g'(3)]) (use m2(7,8) in auto)
    from same_off_trans [OF off this] show ?thesis using g'(1) z x(2) m2(1) by (simp add: grown_def)
  qed
  show "undone f z y x m d (p # rs) m'" if g: "undone f z y (x + 1) m2 d qs m'"
  proof -
    let ?Q = "set (p # rs) \<union> tables m d \<union> (\<lambda>v. frame_of (pte_of m d v)) ` {z..<x}"
    have g': "x + 1 < y" "pte_of m' d = f" "card (set qs - tables m' d) \<le> y - (x + 1)"
      "same_off (set qs \<union> tables m2 d \<union> (\<lambda>v. frame_of (pte_of m2 d v)) ` {z..<x + 1}) m2 m'"
      using g by (simp_all add: undone_def)
    have "(\<lambda>v. frame_of (pte_of m2 d v)) ` {z..<x + 1} \<subseteq> insert p ((\<lambda>v. frame_of (pte_of m d v)) ` {z..<x})"
      using m2(1,2) by (auto simp: less_Suc_eq)
    then have "same_off ?Q m2 m'" by (intro same_off_mono [OF g'(4)]) (use m2(7,8) in auto)
    moreover have "same_off ?Q m m2" by (rule same_off_mono [OF off]) auto
    ultimately have off': "same_off ?Q m m'" by (blast intro: same_off_trans)
    have "uframes m2 d \<subseteq> insert p (uframes m d)"
      using m2(1,2) by (auto simp: uframes_def upages_def image_iff split: if_splits)
    moreover have "tables m2 d \<subseteq> tables m' d" using c by (simp add: conserved_def)
    ultimately have "set (p # rs) - tables m' d \<subseteq> insert p (set qs - tables m' d)"
      using m2(4) owned_pages [OF own] by (fastforce simp: owned_def)
    then have "card (set (p # rs) - tables m' d) \<le> card (insert p (set qs - tables m' d))" by (rule card_mono [rotated]) simp
    also have "\<dots> \<le> Suc (card (set qs - tables m' d))" by (rule card_insert_le_m1) simp_all
    finally show ?thesis using g'(1-3) off' by (simp add: undone_def)
  qed
qed

lemma allocuvm_from_ok:
  fixes m :: "'z kmem_scheme"
  assumes k: "kend > KERNBASE" and sz: "newsz < KERNBASE"
    and z: "z = (oldsz + 4095) div 4096" "y = (newsz + 4095) div 4096"
    and "vm_own kend m d ps" and "growing f z y x m d"
  shows "\<exists>r m' qs. allocuvm_from kend d (4096 * x) oldsz newsz m = Inr (r, m') \<and> conserved kend m d ps m' qs \<and>
    (r = newsz \<and> grown x y m d ps m' \<or> r = 0 \<and> undone f z y x m d ps m')"
  using assms(5-)
proof (induction "y - x" arbitrary: x m ps)
  case 0
  then have "x = y" "\<not> 4096 * x < newsz" using page_count [of x newsz] z(2) by (simp_all add: growing_def)
  then show ?case using 0
    by (intro exI [of _ newsz] exI [of _ m] exI [of _ ps]) (auto simp: allocuvm_from.simps conserved_def grown_def)
next
  case (Suc n)
  have xy: "x < y" using Suc.hyps(2) by simp
  then have lt: "4096 * x < newsz" using page_count [of x newsz] z(2) by simp
  have zx: "z \<le> x" using Suc.prems(2) by (simp add: growing_def)
  then have sz': "oldsz < newsz" using lt page_count [of x oldsz] z(1) by (simp add: not_less [symmetric])
  have x: "x < 0x80000" "pte_of m d x = 0"
    using lt sz Suc.prems(2) xy by (auto simp: KERNBASE_def growing_def)
  show ?case
  proof (cases ps)
    case Nil
    obtain m' rs where m': "deallocuvm kend d newsz oldsz m = Inr (oldsz, m')" "vm_own kend m' d rs" "pte_of m' d = f"
      "set rs \<union> owned m' d = set ps \<union> owned m d" "tables m' d = tables m d"
      "same_off ((\<lambda>v. frame_of (pte_of m d v)) ` {z..<x} \<union> tables m d) m m'"
      by (rule growing_undo [OF Suc.prems(2) refl Suc.prems(1) k sz' sz z])
    have "allocuvm_from kend d (4096 * x) oldsz newsz m = Inr (0, m')"
      by (subst allocuvm_from.simps) (use lt kalloc_free(1) [OF Suc.prems(1) Nil] m'(1) in simp)
    then show ?thesis using m' xy Nil
      by (intro exI [of _ 0] exI [of _ m'] exI [of _ rs]) (simp add: conserved_def undone_def Un_commute)
  next
    case (Cons p rs)
    note own = Suc.prems(1) [unfolded Cons]
    obtain m1 where m1: "kalloc m = (p, m1)" using kalloc_free(2) [OF own refl] by blast
    have p: "p \<noteq> 0" using own by (auto simp: vm_own_def pt_wf_def free_pages_def page_ok_def)
    show ?thesis
    proof (cases rule: grow_page [OF own x m1, case_names mapped full])
      case (mapped m2 qs)
      have "allocuvm_from kend d (4096 * x) oldsz newsz m = allocuvm_from kend d (4096 * (x + 1)) oldsz newsz m2"
        by (subst allocuvm_from.simps) (use lt m1 p mapped(1) in \<open>simp add: PGSIZE_def add.commute\<close>)
      moreover have "growing f z y (x + 1) m2 d"
        using Suc.prems(2) xy mapped(3,5) by (auto simp: growing_def less_Suc_eq)
      moreover have "n = y - (x + 1)" using Suc.hyps(2) by simp
      ultimately obtain r m' ts where m': "allocuvm_from kend d (4096 * x) oldsz newsz m = Inr (r, m')"
        "conserved kend m2 d qs m' ts" "r = newsz \<and> grown (x + 1) y m2 d qs m' \<or> r = 0 \<and> undone f z y (x + 1) m2 d qs m'"
        using Suc.hyps(1) [OF _ mapped(2)] by metis
      note g = grow_step [OF own mapped(2-11) zx xy x(1) m'(2)]
      show ?thesis unfolding Cons using m'(1,3) g by blast
    next
      case (full m2)
      obtain m3 m' qs where m': "deallocuvm kend d newsz oldsz m2 = Inr (oldsz, m3)" "kfree kend p m3 = Inr m'"
        "conserved kend m d (p # rs) m' qs" "undone f z y x m d (p # rs) m'"
        by (rule grow_full [OF own Suc.prems(2) k sz' sz z xy full(2,4-10)])
      then have "allocuvm_from kend d (4096 * x) oldsz newsz m = Inr (0, m')"
        by (subst allocuvm_from.simps) (use lt m1 p full(1) in simp)
      then show ?thesis unfolding Cons using m'(3,4) by blast
    qed
  qed
qed

text \<open>Where the entries are what they were, the pages that the table took from the free list are page tables.\<close>

lemma kept_tables:
  assumes "vm_own kend m d ps" and "vm_own kend m' d qs" and "pte_of m' d = pte_of m d"
    and all: "set qs \<union> owned m' d = set ps \<union> owned m d"
  shows "set qs \<union> tables m' d = set ps \<union> tables m d"
proof -
  have u: "uframes m' d = uframes m d" using assms(3) by (simp add: uframes_def upages_def)
  have "uframes m d \<inter> (set ps \<union> tables m d) = {}" "uframes m d \<inter> (set qs \<union> tables m' d) = {}"
    using assms(1,2) u by (auto simp: vm_own_def)
  then show ?thesis using all u by (simp add: owned_def) blast
qed

lemma allocuvm_ok:
  assumes "kend > KERNBASE" and "vm_own kend m d ps" and "oldsz \<le> newsz" and "newsz < KERNBASE"
    and "\<forall>v. (oldsz + 4095) div 4096 \<le> v \<and> v < (newsz + 4095) div 4096 \<longrightarrow> pte_of m d v = 0"
  shows "\<exists>r m' qs. allocuvm kend d oldsz newsz m = Inr (r, m') \<and> vm_own kend m' d qs \<and>
    set qs \<union> owned m' d = set ps \<union> owned m d \<and> same_off (set ps \<union> tables m d) m m' \<and>
    (r = newsz \<and> (\<forall>v. v < (oldsz + 4095) div 4096 \<or> (newsz + 4095) div 4096 \<le> v \<longrightarrow> pte_of m' d v = pte_of m d v) \<and>
       (\<forall>v. (oldsz + 4095) div 4096 \<le> v \<and> v < (newsz + 4095) div 4096 \<longrightarrow> zeroed m' d v) \<or>
     r = 0 \<and> pte_of m' d = pte_of m d \<and> tables m d \<subseteq> tables m' d \<and> set qs \<union> tables m' d = set ps \<union> tables m d \<and>
       length ps \<le> 1025 + ((newsz + 4095) div 4096 - (oldsz + 4095) div 4096))"
proof -
  let ?z = "(oldsz + 4095) div 4096" and ?y = "(newsz + 4095) div 4096"
  have "?z \<le> ?y" using assms(3) by (intro div_le_mono) simp
  then have "growing (pte_of m d) ?z ?y ?z m d" using assms(5) by (auto simp: growing_def)
  from allocuvm_from_ok [OF assms(1,4) refl refl assms(2) this] obtain r m' qs where
    r: "allocuvm_from kend d (4096 * ?z) oldsz newsz m = Inr (r, m')" "conserved kend m d ps m' qs"
      "r = newsz \<and> grown ?z ?y m d ps m' \<or> r = 0 \<and> undone (pte_of m d) ?z ?y ?z m d ps m'" by blast
  have "PGROUNDUP oldsz = 4096 * ?z" using assms(3,4) by (intro round_up) (simp add: KERNBASE_def)
  then have run: "allocuvm kend d oldsz newsz m = Inr (r, m')" using r(1) assms(3,4) by (simp add: allocuvm_def)
  have "length ps = card (set ps)"
    using assms(2) by (simp add: vm_own_def pt_wf_def free_pages_def distinct_card)
  also have "\<dots> \<le> card (set ps - tables m' d) + card (tables m' d)"
    using card_mono [of "(set ps - tables m' d) \<union> tables m' d" "set ps"] card_Un_le [of "set ps - tables m' d" "tables m' d"]
    by (fastforce simp: finite_tables)
  finally have "length ps \<le> card (set ps - tables m' d) + 1025" using card_tables [of m' d] by linarith
  moreover have "set qs \<union> tables m' d = set ps \<union> tables m d" if "pte_of m' d = pte_of m d"
    by (rule kept_tables [OF assms(2) _ that]) (use r(2) in \<open>simp_all add: conserved_def\<close>)
  ultimately show ?thesis using run r(2,3)
    by (intro exI [of _ r] exI [of _ m'] exI [of _ qs]) (auto simp: conserved_def grown_def undone_def)
qed

end
