(* ===== verification/Proc_Mem.thy ===== *)
theory Proc_Mem
  imports Vm_Fork
begin

text \<open>
  Who owns which page. Every page that the allocator manages is on the free list, or it is the
  kernel stack, a page table or a user page of exactly one process, or it holds a pipe. The lemmas
  move pages between these owners for a family of address spaces; processes come later.
\<close>

section \<open>Owners\<close>

text \<open>
  An address space \<open>d\<close> of \<open>sz\<close> bytes: the pages below \<open>sz\<close> are present, and above there are no
  entries.
\<close>

definition sz_ok :: "'z kmem_scheme \<Rightarrow> nat \<Rightarrow> nat \<Rightarrow> bool" where
  "sz_ok m d sz \<longleftrightarrow> sz < KERNBASE \<and> (\<forall>v < (sz + 4095) div 4096. v \<in> upages m d) \<and>
     (\<forall>v. (sz + 4095) div 4096 \<le> v \<and> v < 0x80000 \<longrightarrow> pte_of m d v = 0)"

text \<open>\<open>I\<close> are the processes, \<open>X\<close> the pages of pipes, \<open>U\<close> all pages.\<close>

definition mem_ok :: "nat \<Rightarrow> 'z kmem_scheme \<Rightarrow> nat list \<Rightarrow> nat set \<Rightarrow> (nat \<Rightarrow> nat) \<Rightarrow> (nat \<Rightarrow> nat) \<Rightarrow> (nat \<Rightarrow> nat) \<Rightarrow>
    nat set \<Rightarrow> nat set \<Rightarrow> bool" where
  "mem_ok kend m ps I dir ks sz X U \<longleftrightarrow> free_pages kend m ps \<and>
     (\<forall>p \<in> I. vm_own kend m (dir p) ps \<and> page_ok kend (ks p) \<and> ks p \<notin> set ps \<and> ks p \<notin> owned m (dir p) \<and> sz_ok m (dir p) (sz p)) \<and>
     (\<forall>p \<in> I. \<forall>q \<in> I. p \<noteq> q \<longrightarrow> insert (ks p) (owned m (dir p)) \<inter> insert (ks q) (owned m (dir q)) = {}) \<and>
     (\<forall>x \<in> X. page_ok kend x \<and> x \<notin> set ps \<and> (\<forall>p \<in> I. x \<notin> insert (ks p) (owned m (dir p)))) \<and>
     U = set ps \<union> (\<Union>p \<in> I. insert (ks p) (owned m (dir p))) \<union> X"

lemma mem_ok_D:
  assumes "mem_ok kend m ps I dir ks sz X U"
  shows "free_pages kend m ps" "p \<in> I \<Longrightarrow> vm_own kend m (dir p) ps" "p \<in> I \<Longrightarrow> page_ok kend (ks p)"
    "p \<in> I \<Longrightarrow> ks p \<notin> set ps" "p \<in> I \<Longrightarrow> ks p \<notin> owned m (dir p)" "p \<in> I \<Longrightarrow> sz_ok m (dir p) (sz p)"
    "p \<in> I \<Longrightarrow> q \<in> I \<Longrightarrow> p \<noteq> q \<Longrightarrow> insert (ks p) (owned m (dir p)) \<inter> insert (ks q) (owned m (dir q)) = {}"
    "x \<in> X \<Longrightarrow> page_ok kend x" "x \<in> X \<Longrightarrow> x \<notin> set ps" "x \<in> X \<Longrightarrow> p \<in> I \<Longrightarrow> x \<noteq> ks p" "x \<in> X \<Longrightarrow> p \<in> I \<Longrightarrow> x \<notin> owned m (dir p)"
    "U = set ps \<union> (\<Union>p \<in> I. insert (ks p) (owned m (dir p))) \<union> X"
  using assms unfolding mem_ok_def by blast+

lemma mem_ok_eq:
  assumes "mem_ok kend m ps I dir ks sz X U" and "\<And>p. p \<in> I \<Longrightarrow> dir' p = dir p \<and> ks' p = ks p \<and> sz' p = sz p"
  shows "mem_ok kend m ps I dir' ks' sz' X U"
  using assms unfolding mem_ok_def by auto

section \<open>Changes elsewhere\<close>

text \<open>
  Memory and the free list change, but no table of a process does, and no page of an owner becomes
  free: the owners keep what they have.
\<close>

lemma mem_cong:
  assumes ok: "mem_ok kend m ps I dir ks sz X U" and s: "same_off Q m m'" and Q: "\<forall>q \<in> Q. page_ok kend q"
    and dis: "\<And>p. p \<in> I \<Longrightarrow> Q \<inter> tables m (dir p) = {}" and fp: "free_pages kend m' qs"
    and qs: "\<And>p. p \<in> I \<Longrightarrow> set qs \<inter> insert (ks p) (owned m (dir p)) = {}" "set qs \<inter> X = {}"
  shows "mem_ok kend m' qs I dir ks sz X (set qs \<union> (\<Union>p \<in> I. insert (ks p) (owned m (dir p))) \<union> X)"
    "\<And>p. p \<in> I \<Longrightarrow> owned m' (dir p) = owned m (dir p)" "\<And>p. p \<in> I \<Longrightarrow> pte_of m' (dir p) = pte_of m (dir p)"
proof -
  note D = mem_ok_D [OF ok]
  have c: "vm_own kend m' (dir p) qs" "owned m' (dir p) = owned m (dir p)" "pte_of m' (dir p) = pte_of m (dir p)"
    if "p \<in> I" for p
  proof -
    have "set qs \<inter> owned m (dir p) = {}" using qs(1) [OF that] by auto
    note c = own_cong [OF D(2) [OF that] s Q dis [OF that] fp this]
    show "vm_own kend m' (dir p) qs" "owned m' (dir p) = owned m (dir p)" "pte_of m' (dir p) = pte_of m (dir p)" by (rule c)+
  qed
  show "owned m' (dir p) = owned m (dir p)" "pte_of m' (dir p) = pte_of m (dir p)" if "p \<in> I" for p by (rule c(2,3) [OF that])+
  have z: "sz_ok m' (dir p) (sz p)" if "p \<in> I" for p
    using D(6) [OF that] c(3) [OF that] by (simp add: sz_ok_def upages_def)
  have k: "ks p \<notin> set qs" if "p \<in> I" for p using qs(1) [OF that] by auto
  have un: "(\<Union>p \<in> I. insert (ks p) (owned m' (dir p))) = (\<Union>p \<in> I. insert (ks p) (owned m (dir p)))" using c(2) by auto
  show "mem_ok kend m' qs I dir ks sz X (set qs \<union> (\<Union>p \<in> I. insert (ks p) (owned m (dir p))) \<union> X)"
    unfolding mem_ok_def un using fp c(1,2) z k D(3,5,7,8,10,11) qs(2) by (intro conjI ballI) (auto simp: c(2))
qed

text \<open>Removing and adding a process.\<close>

lemma mem_remove:
  assumes "mem_ok kend m ps I dir ks sz X U" and "p \<in> I"
  shows "mem_ok kend m ps (I - {p}) dir ks sz X (U - insert (ks p) (owned m (dir p)))"
proof -
  note D = mem_ok_D [OF assms(1)]
  let ?P = "\<lambda>p. insert (ks p) (owned m (dir p))"
  have "U - ?P p = set ps \<union> (\<Union>q \<in> I - {p}. ?P q) \<union> X"
  proof -
    have "?P p \<inter> set ps = {}" using D(4) [OF assms(2)] owned_pages [OF D(2) [OF assms(2)]] by auto
    moreover have "?P p \<inter> X = {}" using D(10,11) [OF _ assms(2)] by auto
    moreover have "?P p \<inter> (\<Union>q \<in> I - {p}. ?P q) = {}" using D(7) [OF assms(2)] by blast
    moreover have "U = ?P p \<union> (set ps \<union> (\<Union>q \<in> I - {p}. ?P q) \<union> X)" using D(12) assms(2) by blast
    ultimately show ?thesis by blast
  qed
  then show ?thesis using assms(1) unfolding mem_ok_def by simp
qed

lemma mem_insert:
  assumes ok: "mem_ok kend m ps I dir ks sz X U" and p: "p \<notin> I"
    and own: "vm_own kend m (dir p) ps" "page_ok kend (ks p)" "ks p \<notin> set ps" "ks p \<notin> owned m (dir p)" "sz_ok m (dir p) (sz p)"
    and new: "insert (ks p) (owned m (dir p)) \<inter> U = {}"
  shows "mem_ok kend m ps (insert p I) dir ks sz X (U \<union> insert (ks p) (owned m (dir p)))"
proof -
  note D = mem_ok_D [OF ok]
  let ?P = "\<lambda>p. insert (ks p) (owned m (dir p))"
  have a: "?P p \<inter> ?P q = {}" "?P q \<inter> ?P p = {}" if "q \<in> I" for q using new that unfolding D(12) by blast+
  have x: "x \<notin> ?P p" if "x \<in> X" for x using new that unfolding D(12) by blast
  have "U \<union> ?P p = set ps \<union> (\<Union>q \<in> insert p I. ?P q) \<union> X" unfolding D(12) by blast
  moreover have "\<forall>q \<in> insert p I. \<forall>r \<in> insert p I. q \<noteq> r \<longrightarrow> ?P q \<inter> ?P r = {}" using a D(7) by (metis insert_iff)
  moreover have "\<forall>x \<in> X. page_ok kend x \<and> x \<notin> set ps \<and> (\<forall>q \<in> insert p I. x \<notin> ?P q)" using x D(8-11) by blast
  moreover have "\<forall>q \<in> insert p I. vm_own kend m (dir q) ps \<and> page_ok kend (ks q) \<and> ks q \<notin> set ps \<and>
      ks q \<notin> owned m (dir q) \<and> sz_ok m (dir q) (sz q)" using own D(2-6) by blast
  ultimately show ?thesis unfolding mem_ok_def using D(1) by simp
qed

section \<open>Moves\<close>

text \<open>A page leaves the free list and belongs to nobody.\<close>

lemma mem_kalloc:
  assumes ok: "mem_ok kend m (x # ps) I dir ks sz X U"
  obtains m' where "kalloc m = (x, m')" "mem_ok kend m' ps I dir ks sz X (U - {x})" "page_ok kend x" "x \<noteq> 0" "x \<in> U"
    "k_mem m' = k_mem m" "\<And>p. p \<in> I \<Longrightarrow> owned m' (dir p) = owned m (dir p)" "\<And>p. p \<in> I \<Longrightarrow> pte_of m' (dir p) = pte_of m (dir p)"
proof -
  note D = mem_ok_D [OF ok]
  obtain m' where m': "kalloc m = (x, m')" "free_pages kend m' ps" "k_mem m' = k_mem m"
    using kalloc_ok(2) [OF D(1) refl] by blast
  have x: "page_ok kend x" "x \<notin> set ps" "x \<noteq> 0" using D(1) by (auto simp: free_pages_def page_ok_def)
  have s: "same_off {} m m'" by (simp add: same_off_def m'(3))
  have p: "set (x # ps) \<inter> insert (ks p) (owned m (dir p)) = {}" if "p \<in> I" for p
    using D(4) [OF that] owned_pages [OF D(2) [OF that]] by auto
  have xX: "x \<notin> X" "set ps \<inter> X = {}" using D(9) by auto
  have q: "set ps \<inter> insert (ks p) (owned m (dir p)) = {}" if "p \<in> I" for p using p [OF that] by auto
  note c = mem_cong [OF ok s _ _ m'(2) q xX(2)]
  have "set ps \<union> (\<Union>p \<in> I. insert (ks p) (owned m (dir p))) \<union> X = U - {x}"
    using x(2) xX(1) p unfolding D(12) by auto
  then have "mem_ok kend m' ps I dir ks sz X (U - {x})" using c(1) by simp
  moreover have "x \<in> U" unfolding D(12) by simp
  ultimately show thesis using that [OF m'(1) _ x(1,3) _ m'(3)] c(2,3) by simp
qed

text \<open>A page that belongs to nobody becomes free.\<close>

lemma mem_kfree:
  assumes ok: "mem_ok kend m ps I dir ks sz X U" and x: "page_ok kend x" "x \<notin> U"
  obtains m' where "kfree kend x m = Inr m'" "mem_ok kend m' (x # ps) I dir ks sz X (insert x U)" "same_off {x} m m'"
    "\<And>p. p \<in> I \<Longrightarrow> owned m' (dir p) = owned m (dir p)" "\<And>p. p \<in> I \<Longrightarrow> pte_of m' (dir p) = pte_of m (dir p)"
proof -
  note D = mem_ok_D [OF ok]
  have nx: "x \<notin> set ps" "x \<notin> X" "p \<in> I \<Longrightarrow> x \<notin> insert (ks p) (owned m (dir p))" for p using x(2) unfolding D(12) by auto
  obtain m' where m': "kfree kend x m = Inr m'" "free_pages kend m' (x # ps)" "same_off {x} m m'"
    using kfree_off [OF D(1) x(1) nx(1)] .
  have dis: "{x} \<inter> tables m (dir p) = {}" if "p \<in> I" for p using nx(3) [OF that] by (auto simp: owned_def)
  have q: "set (x # ps) \<inter> insert (ks p) (owned m (dir p)) = {}" if "p \<in> I" for p
    using nx(3) [OF that] D(4) [OF that] owned_pages [OF D(2) [OF that]] by auto
  have X: "set (x # ps) \<inter> X = {}" using nx(2) D(9) by auto
  have "\<forall>q \<in> {x}. page_ok kend q" using x(1) by simp
  note c = mem_cong [OF ok m'(3) this dis m'(2) q X]
  have "set (x # ps) \<union> (\<Union>p \<in> I. insert (ks p) (owned m (dir p))) \<union> X = insert x U" unfolding D(12) by auto
  then show thesis using that [OF m'(1) _ m'(3)] c by simp
qed

text \<open>Stores to pages that are neither tables nor free.\<close>

lemma mem_store:
  assumes ok: "mem_ok kend m ps I dir ks sz X U" and s: "same_off Q m m'" "k_freelist m' = k_freelist m"
    and Q: "\<forall>q \<in> Q. page_ok kend q \<and> q \<notin> set ps" and dis: "\<And>p. p \<in> I \<Longrightarrow> Q \<inter> tables m (dir p) = {}"
  shows "mem_ok kend m' ps I dir ks sz X U"
    "\<And>p. p \<in> I \<Longrightarrow> owned m' (dir p) = owned m (dir p)" "\<And>p. p \<in> I \<Longrightarrow> pte_of m' (dir p) = pte_of m (dir p)"
proof -
  note D = mem_ok_D [OF ok]
  have Q': "\<forall>q \<in> Q. page_ok kend q" "set ps \<inter> Q = {}" using Q by auto
  have fp: "free_pages kend m' ps" by (rule free_pages_off [OF D(1) s(1) Q' s(2)])
  have q: "set ps \<inter> insert (ks p) (owned m (dir p)) = {}" if "p \<in> I" for p
    using D(4) [OF that] owned_pages [OF D(2) [OF that]] by auto
  have X: "set ps \<inter> X = {}" using D(9) by auto
  note c = mem_cong [OF ok s(1) Q'(1) dis fp q X]
  show "mem_ok kend m' ps I dir ks sz X U" unfolding D(12) using c(1) by simp
  show "\<And>p. p \<in> I \<Longrightarrow> owned m' (dir p) = owned m (dir p)" "\<And>p. p \<in> I \<Longrightarrow> pte_of m' (dir p) = pte_of m (dir p)" using c(2,3) by auto
qed

section \<open>Copying, freeing and resizing\<close>

lemma mem_copy:
  fixes m :: "'z kmem_scheme"
  assumes ok: "mem_ok kend m ps I dir ks sz X U" and c: "c \<in> I" and k: "kend > KERNBASE" "kdata_ok kdata"
  obtains (copied) d m' qs where "copyuvm kend kdata (dir c) (sz c) m = Inr (d, m')" "d \<noteq> 0"
      "mem_ok kend m' qs I dir ks sz X (U - owned m' d)" "vm_own kend m' d qs" "owned m' d \<subseteq> set ps" "sz_ok m' d (sz c)"
      "\<forall>v < (sz c + 4095) div 4096. page_copied m (dir c) m' d v" "same_off (set ps) m m'"
      "\<And>p. p \<in> I \<Longrightarrow> owned m' (dir p) = owned m (dir p)" "\<And>p. p \<in> I \<Longrightarrow> pte_of m' (dir p) = pte_of m (dir p)"
  | (full) m' qs where "copyuvm kend kdata (dir c) (sz c) m = Inr (0, m')" "mem_ok kend m' qs I dir ks sz X U"
      "set qs = set ps" "same_off (set ps) m m'" "length ps \<le> 1026 + (sz c + 4095) div 4096"
      "\<And>p. p \<in> I \<Longrightarrow> owned m' (dir p) = owned m (dir p)" "\<And>p. p \<in> I \<Longrightarrow> pte_of m' (dir p) = pte_of m (dir p)"
proof -
  note D = mem_ok_D [OF ok]
  have s: "sz c < KERNBASE" "\<forall>v < (sz c + 4095) div 4096. v \<in> upages m (dir c)" using D(6) [OF c] by (auto simp: sz_ok_def)
  have Q: "\<forall>q \<in> set ps. page_ok kend q" using D(1) by (simp add: free_pages_def)
  have free: "set ps \<inter> insert (ks p) (owned m (dir p)) = {}" if "p \<in> I" for p
    using D(4) [OF that] owned_pages [OF D(2) [OF that]] by auto
  have dis: "set ps \<inter> tables m (dir p) = {}" if "p \<in> I" for p using free [OF that] by (auto simp: owned_def)
  have X: "set ps \<inter> X = {}" using D(9) by auto
  have s': "sz c \<le> KERNBASE" using s(1) by simp
  show thesis
  proof (cases rule: copyuvm_ok [OF k D(2) [OF c] s' refl s(2), case_names copied full])
    case (full m' qs)
    have fp: "free_pages kend m' qs" using full(2) by (simp add: vm_own_def pt_wf_def)
    note r = mem_cong [OF ok full(5) Q dis fp]
    have "mem_ok kend m' qs I dir ks sz X U" using r(1) free X unfolding full(4) D(12) by simp
    then show thesis using that(2) [OF full(1) _ full(4-6)] r(2,3) free X unfolding full(4) by simp
  next
    case (copied d m' qs)
    have own: "vm_own kend m' d qs" using copied(3) by (simp add: two_spaces_def)
    have qs: "set qs \<subseteq> set ps" "owned m' d \<subseteq> set ps" "set qs \<inter> owned m' d = {}"
      using copied(6) owned_pages [OF own] by auto
    have fp: "free_pages kend m' qs" using own by (simp add: vm_own_def pt_wf_def)
    have free': "set qs \<inter> insert (ks p) (owned m (dir p)) = {}" if "p \<in> I" for p using free [OF that] qs(1) by auto
    have X': "set qs \<inter> X = {}" using X qs(1) by auto
    note r = mem_cong [OF ok copied(7) Q dis fp free' X']
    have "set qs \<union> (\<Union>p \<in> I. insert (ks p) (owned m (dir p))) \<union> X = U - owned m' d"
      using copied(6) qs free X unfolding D(12) by fastforce
    then have ok': "mem_ok kend m' qs I dir ks sz X (U - owned m' d)" using r(1) by simp
    have "v \<in> upages m' d" if "v < (sz c + 4095) div 4096" for v
    proof -
      have "PTE_FLAGS (pte_of m' d v) = PTE_FLAGS (pte_of m (dir c) v)" using copied(8) that by (simp add: page_copied_def)
      moreover have "v \<in> upages m (dir c)" using s(2) that by blast
      ultimately show ?thesis using odd_flags [of "pte_of m' d v"] odd_flags [of "pte_of m (dir c) v"] by (simp add: upages_def)
    qed
    moreover have "pte_of m' d v = 0" if "(sz c + 4095) div 4096 \<le> v" "v < 0x80000" for v
      using copied(9) that regions_low [OF kmap_regions [OF k(2)] that(2)] by simp
    ultimately have "sz_ok m' d (sz c)" using s(1) by (simp add: sz_ok_def)
    then show thesis using that(1) [OF copied(1,2) ok' own qs(2) _ copied(8,7)] r(2,3) by simp
  qed
qed

text \<open>What \<open>wait\<close> does with a zombie: the stack and the address space become free.\<close>

lemma mem_reap:
  fixes m :: "'z kmem_scheme"
  assumes ok: "mem_ok kend m ps I dir ks sz X U" and p: "p \<in> I" and k: "kend > KERNBASE"
  obtains m1 m2 qs where "kfree kend (ks p) m = Inr m1" "freevm kend (dir p) m1 = Inr m2"
    "mem_ok kend m2 qs (I - {p}) dir ks sz X U" "set qs = set ps \<union> insert (ks p) (owned m (dir p))"
    "\<And>q. q \<in> I - {p} \<Longrightarrow> pte_of m2 (dir q) = pte_of m (dir q)"
proof -
  note D = mem_ok_D [OF ok]
  note R = mem_remove [OF ok p]
  note DR = mem_ok_D [OF R]
  let ?d = "dir p" and ?I = "I - {p}"
  obtain m1 where m1: "kfree kend (ks p) m = Inr m1" "vm_own kend m1 ?d (ks p # ps)" "owned m1 ?d = owned m ?d"
    "pte_of m1 ?d = pte_of m ?d" "tables m1 ?d = tables m ?d" "same_off {ks p} m m1"
    by (rule own_kfree [OF D(2-5) [OF p]])
  have ap: "insert (ks p) (owned m ?d) \<inter> insert (ks q) (owned m (dir q)) = {}" if "q \<in> ?I" for q using D(7) [OF p] that by auto
  have apX: "insert (ks p) (owned m ?d) \<inter> X = {}" using D(10,11) [OF _ p] by auto
  have free: "set ps \<inter> insert (ks q) (owned m (dir q)) = {}" if "q \<in> I" for q
    using D(4) [OF that] owned_pages [OF D(2) [OF that]] by auto
  have X: "set ps \<inter> X = {}" using D(9) by auto
  have t: "{ks p} \<inter> tables m (dir q) = {}" if "q \<in> ?I" for q using ap [OF that] by (auto simp: owned_def)
  have f1: "set (ks p # ps) \<inter> insert (ks q) (owned m (dir q)) = {}" if "q \<in> ?I" for q using ap [OF that] free that by auto
  have x1: "set (ks p # ps) \<inter> X = {}" using apX X by auto
  have k1: "\<forall>q \<in> {ks p}. page_ok kend q" using D(3) [OF p] by simp
  have fp1: "free_pages kend m1 (ks p # ps)" using m1(2) by (simp add: vm_own_def pt_wf_def)
  have ok1: "mem_ok kend m1 (ks p # ps) ?I dir ks sz X (set (ks p # ps) \<union> (\<Union>q \<in> ?I. insert (ks q) (owned m (dir q))) \<union> X)"
    and c1: "\<And>q. q \<in> ?I \<Longrightarrow> owned m1 (dir q) = owned m (dir q)" "\<And>q. q \<in> ?I \<Longrightarrow> pte_of m1 (dir q) = pte_of m (dir q)"
    using mem_cong [OF R m1(6) k1 t fp1 f1 x1] by blast+
  obtain m2 qs where m2: "freevm kend ?d m1 = Inr m2" "free_pages kend m2 qs" "set qs = set (ks p # ps) \<union> owned m1 ?d"
    "same_off (owned m1 ?d) m1 m2" using freevm_ok [OF m1(2) k] by blast
  have k2: "\<forall>q \<in> owned m1 ?d. page_ok kend q" using owned_pages [OF m1(2)] by blast
  have t2: "owned m1 ?d \<inter> tables m1 (dir q) = {}" if "q \<in> ?I" for q
    using ap [OF that] c1(1) [OF that] m1(3) by (auto simp: owned_def)
  have f2: "set qs \<inter> insert (ks q) (owned m1 (dir q)) = {}" if "q \<in> ?I" for q
    using ap [OF that] free that c1(1) [OF that] m1(3) m2(3) by auto
  have x2: "set qs \<inter> X = {}" using apX X m1(3) m2(3) by auto
  note c2 = mem_cong [OF ok1 m2(4) k2 t2 m2(2) f2 x2]
  have "set qs \<union> (\<Union>q \<in> ?I. insert (ks q) (owned m1 (dir q))) \<union> X = U"
    using c1(1) m1(3) m2(3) p unfolding D(12) by auto
  then have "mem_ok kend m2 qs ?I dir ks sz X U" using c2(1) by simp
  moreover have "set qs = set ps \<union> insert (ks p) (owned m ?d)" using m2(3) m1(3) by auto
  ultimately show thesis using that [OF m1(1) m2(1)] c1(2) c2(3) by simp
qed

text \<open>One address space changes within its own pages and the free ones.\<close>

lemma mem_resize:
  fixes m :: "'z kmem_scheme"
  assumes ok: "mem_ok kend m ps I dir ks sz X U" and p: "p \<in> I"
    and own: "vm_own kend m' (dir p) qs" "set qs \<union> owned m' (dir p) = set ps \<union> owned m (dir p)"
      "same_off (set ps \<union> owned m (dir p)) m m'" "sz_ok m' (dir p) n"
  shows "mem_ok kend m' qs I dir ks (sz(p := n)) X U"
    "\<And>q. q \<in> I - {p} \<Longrightarrow> pte_of m' (dir q) = pte_of m (dir q)" "\<And>q. q \<in> I - {p} \<Longrightarrow> owned m' (dir q) = owned m (dir q)"
proof -
  note D = mem_ok_D [OF ok]
  note R = mem_remove [OF ok p]
  let ?d = "dir p" and ?I = "I - {p}" and ?P = "\<lambda>m p. insert (ks p) (owned m (dir p))"
  have ap: "?P m p \<inter> ?P m q = {}" if "q \<in> ?I" for q using D(7) [OF p] that by auto
  have apX: "?P m p \<inter> X = {}" using D(10,11) [OF _ p] by auto
  have free: "set ps \<inter> ?P m q = {}" if "q \<in> I" for q
    using D(4) [OF that] owned_pages [OF D(2) [OF that]] by auto
  have X: "set ps \<inter> X = {}" using D(9) by auto
  have Q: "\<forall>q \<in> set ps \<union> owned m ?d. page_ok kend q"
    using D(1) owned_pages [OF D(2) [OF p]] by (auto simp: free_pages_def)
  have t: "(set ps \<union> owned m ?d) \<inter> tables m (dir q) = {}" if "q \<in> ?I" for q
    using ap [OF that] free that by (auto simp: owned_def)
  have fp: "free_pages kend m' qs" using own(1) by (simp add: vm_own_def pt_wf_def)
  have f1: "set qs \<inter> ?P m q = {}" if "q \<in> ?I" for q using ap [OF that] free that own(2) by auto
  have x1: "set qs \<inter> X = {}" using apX X own(2) by auto
  have ok1: "mem_ok kend m' qs ?I dir ks sz X (set qs \<union> (\<Union>q \<in> ?I. ?P m q) \<union> X)"
    and c1: "\<And>q. q \<in> ?I \<Longrightarrow> owned m' (dir q) = owned m (dir q)" "\<And>q. q \<in> ?I \<Longrightarrow> pte_of m' (dir q) = pte_of m (dir q)"
    using mem_cong [OF R own(3) Q t fp f1 x1] by blast+
  show "\<And>q. q \<in> ?I \<Longrightarrow> pte_of m' (dir q) = pte_of m (dir q)" "\<And>q. q \<in> ?I \<Longrightarrow> owned m' (dir q) = owned m (dir q)" by (fact c1)+
  have kp: "ks p \<notin> set qs" "ks p \<notin> owned m' ?d" using own(2) D(4,5) [OF p] by auto
  have dq: "set qs \<inter> owned m' ?d = {}" using owned_pages [OF own(1)] by auto
  have new: "?P m' p \<inter> (set qs \<union> (\<Union>q \<in> ?I. ?P m q) \<union> X) = {}"
  proof -
    have "owned m' ?d \<inter> (\<Union>q \<in> ?I. ?P m q) = {}" using own(2) ap free by fastforce
    moreover have "ks p \<notin> (\<Union>q \<in> ?I. ?P m q)" using ap by fastforce
    moreover have "?P m' p \<inter> X = {}" using own(2) apX X by auto
    ultimately show ?thesis using kp dq by auto
  qed
  have ok2: "mem_ok kend m' qs ?I dir ks (sz(p := n)) X (set qs \<union> (\<Union>q \<in> ?I. ?P m q) \<union> X)"
    by (rule mem_ok_eq [OF ok1]) auto
  have szn: "sz_ok m' ?d ((sz(p := n)) p)" using own(4) by simp
  have "mem_ok kend m' qs (insert p ?I) dir ks (sz(p := n)) X (set qs \<union> (\<Union>q \<in> ?I. ?P m q) \<union> X \<union> ?P m' p)"
    by (rule mem_insert [OF ok2 _ own(1) D(3) [OF p] kp szn new]) simp
  moreover have "insert p ?I = I" using p by auto
  moreover have "set qs \<union> (\<Union>q \<in> ?I. ?P m q) \<union> X \<union> ?P m' p = U" using own(2) p unfolding D(12) by blast
  ultimately show "mem_ok kend m' qs I dir ks (sz(p := n)) X U" by simp
qed

lemma mem_grow:
  assumes ok: "mem_ok kend m ps I dir ks sz X U" and p: "p \<in> I" and k: "kend > KERNBASE" and n: "sz p \<le> n"
  obtains r m' qs where "allocuvm kend (dir p) (sz p) n m = Inr (r, m')" "r = n \<or> r = 0"
    "mem_ok kend m' qs I dir ks (sz(p := if r = 0 then sz p else r)) X U"
proof (cases "n < KERNBASE")
  case False
  have "sz(p := sz p) = sz" by simp
  then show thesis using that [of 0 m ps] False ok by (simp add: allocuvm_def)
next
  case True
  note D = mem_ok_D [OF ok]
  let ?y = "\<lambda>n. (n + 4095) div (4096 :: nat)"
  have s: "\<forall>v < ?y (sz p). v \<in> upages m (dir p)" "\<forall>v. ?y (sz p) \<le> v \<and> v < 0x80000 \<longrightarrow> pte_of m (dir p) v = 0"
    using D(6) [OF p] by (auto simp: sz_ok_def)
  have yn: "?y n \<le> 0x80000" using True by (simp add: KERNBASE_def)
  then have e: "\<forall>v. ?y (sz p) \<le> v \<and> v < ?y n \<longrightarrow> pte_of m (dir p) v = 0" using s(2) by auto
  obtain r m' qs where r: "allocuvm kend (dir p) (sz p) n m = Inr (r, m')" "vm_own kend m' (dir p) qs"
    "set qs \<union> owned m' (dir p) = set ps \<union> owned m (dir p)" "same_off (set ps \<union> tables m (dir p)) m m'"
    "r = n \<and> (\<forall>v. v < ?y (sz p) \<or> ?y n \<le> v \<longrightarrow> pte_of m' (dir p) v = pte_of m (dir p) v) \<and>
       (\<forall>v. ?y (sz p) \<le> v \<and> v < ?y n \<longrightarrow> zeroed m' (dir p) v) \<or> r = 0 \<and> pte_of m' (dir p) = pte_of m (dir p)"
    using allocuvm_ok [OF k D(2) [OF p] n True e] by blast
  have off: "same_off (set ps \<union> owned m (dir p)) m m'" by (rule same_off_mono [OF r(4)]) (auto simp: owned_def)
  have "sz_ok m' (dir p) (if r = 0 then sz p else r)"
  proof (cases "pte_of m' (dir p) = pte_of m (dir p) \<and> r = 0")
    case True
    then show ?thesis using D(6) [OF p] by (simp add: sz_ok_def upages_def)
  next
    case False
    then have g: "r = n" "\<forall>v. v < ?y (sz p) \<or> ?y n \<le> v \<longrightarrow> pte_of m' (dir p) v = pte_of m (dir p) v"
      "\<forall>v. ?y (sz p) \<le> v \<and> v < ?y n \<longrightarrow> zeroed m' (dir p) v" using r(5) by auto
    have "n \<noteq> 0"
    proof
      assume "n = 0"
      then have "?y (sz p) = 0" "?y n = 0" using n by simp_all
      then have "pte_of m' (dir p) = pte_of m (dir p)" using g(2) by auto
      then show False using False g(1) \<open>n = 0\<close> by simp
    qed
    have "v \<in> upages m' (dir p)" if "v < ?y n" for v
    proof (cases "v < ?y (sz p)")
      case True
      then show ?thesis using s(1) g(2) by (simp add: upages_def)
    next
      case F: False
      then have "PTE_FLAGS (pte_of m' (dir p) v) = 7" using g(3) that by (simp add: zeroed_def PTE_P_def PTE_W_def PTE_U_def)
      then show ?thesis using odd_flags [of "pte_of m' (dir p) v"] that yn by (simp add: upages_def)
    qed
    moreover have "?y (sz p) \<le> ?y n" using n by (intro div_le_mono) simp
    ultimately show ?thesis using g(1,2) s(2) True \<open>n \<noteq> 0\<close> by (auto simp: sz_ok_def)
  qed
  from mem_resize(1) [OF ok p r(2,3) off this] show thesis using that [OF r(1)] r(5) by blast
qed

lemma mem_shrink:
  assumes ok: "mem_ok kend m ps I dir ks sz X U" and p: "p \<in> I" and k: "kend > KERNBASE" and n: "n < sz p"
  obtains m' qs where "deallocuvm kend (dir p) (sz p) n m = Inr (n, m')" "mem_ok kend m' qs I dir ks (sz(p := n)) X U"
proof -
  note D = mem_ok_D [OF ok]
  let ?y = "\<lambda>n. (n + 4095) div (4096 :: nat)"
  have s: "sz p < KERNBASE" "\<forall>v < ?y (sz p). v \<in> upages m (dir p)" "\<forall>v. ?y (sz p) \<le> v \<and> v < 0x80000 \<longrightarrow> pte_of m (dir p) v = 0"
    using D(6) [OF p] by (auto simp: sz_ok_def)
  have "sz p \<le> 0x80000000" using s(1) by (simp add: KERNBASE_def)
  from deallocuvm_ok [OF D(2) [OF p] k n this] obtain m' qs where
    m': "deallocuvm kend (dir p) (sz p) n m = Inr (n, m')" "vm_own kend m' (dir p) qs"
      "pte_of m' (dir p) = unmap_pages (pte_of m (dir p)) (?y n) (?y (sz p))"
      "set qs \<union> owned m' (dir p) = set ps \<union> owned m (dir p)"
      "same_off (owned m (dir p) - owned m' (dir p) \<union> tables m (dir p)) m m'" by blast
  have off: "same_off (set ps \<union> owned m (dir p)) m m'" by (rule same_off_mono [OF m'(5)]) (auto simp: owned_def)
  have le: "?y n \<le> ?y (sz p)" using n by (intro div_le_mono) simp
  have "pte_of m' (dir p) v = 0" if "?y n \<le> v" "v < 0x80000" for v
    using s(2,3) that by (cases "v < ?y (sz p)") (auto simp: m'(3) unmap_pages_def upages_def)
  moreover have "v \<in> upages m' (dir p)" if "v < ?y n" for v
    using s(2) that le by (auto simp: m'(3) unmap_pages_def upages_def)
  ultimately have "sz_ok m' (dir p) n" using s(1) n by (auto simp: sz_ok_def)
  from mem_resize(1) [OF ok p m'(2,4) off this] show thesis using that [OF m'(1)] by blast
qed

text \<open>The page of a pipe stops being one.\<close>

lemma mem_drop_pipe:
  assumes "mem_ok kend m ps I dir ks sz X U" and "x \<in> X"
  shows "mem_ok kend m ps I dir ks sz (X - {x}) (U - {x})" "page_ok kend x"
proof -
  note D = mem_ok_D [OF assms(1)]
  have "x \<notin> set ps" "x \<notin> (\<Union>p \<in> I. insert (ks p) (owned m (dir p)))" using D(9-11) [OF assms(2)] by auto
  then have "U - {x} = set ps \<union> (\<Union>p \<in> I. insert (ks p) (owned m (dir p))) \<union> (X - {x})" unfolding D(12) by blast
  then show "mem_ok kend m ps I dir ks sz (X - {x}) (U - {x})" using assms(1) unfolding mem_ok_def by simp
  show "page_ok kend x" by (rule D(8) [OF assms(2)])
qed

end
