(* ===== verification/Frame.thy ===== *)
theory Frame
  imports Sysfile
begin

text \<open>
  What the file systems leave alone. The state of the file systems is a part of the state of the
  kernel; every routine of the layers below the system calls changes its own part only, so that
  the open files, the descriptors and the memory of the process are untouched by it. The device
  functions are the one exception, and \<open>dev_keeps\<close> is what is asked of them.
\<close>

named_theorems more_keeps \<open>routines that keep what is beyond the file systems\<close>

section \<open>Disk, buffer cache and log\<close>

lemma set_keeps [simp]:
  fixes s :: "'z fsys_scheme"
  shows "fsys.more (set_buf b f s) = fsys.more s" "fsys.more (set_data b d s) = fsys.more s"
    "fsys.more (set_dirty b s) = fsys.more s" "fsys.more (outsl p d s) = fsys.more s"
    "fsys.more (set_inode ip g s) = fsys.more s" "fsys.more (set_xaddrs k h s) = fsys.more s"
    "fsys.more (set_eaddrs k h s) = fsys.more s"
  by (simp_all add: set_buf_def set_data_def set_dirty_def outsl_def set_inode_def set_xaddrs_def
      set_eaddrs_def Let_def)

lemma idestart_keeps [more_keeps]:
  fixes s :: "'z fsys_scheme"
  shows "idestart p s = Inr t \<Longrightarrow> fsys.more t = fsys.more s"
  by (auto simp: idestart_def Let_def split: option.splits if_splits)

lemma ideintr_keeps [more_keeps]:
  fixes s :: "'z fsys_scheme"
  shows "ideintr flag s = Inr t \<Longrightarrow> fsys.more t = fsys.more s"
  by (auto simp: ideintr_def Let_def dest!: more_keeps split: list.splits if_splits)

lemma ide_sleep_keeps [more_keeps]:
  fixes s :: "'z fsys_scheme"
  shows "ide_sleep fuel b s = Inr t \<Longrightarrow> fsys.more t = fsys.more s"
proof (induction fuel arbitrary: s)
  case (Suc fuel)
  from Suc.prems show ?case
    by (subst (asm) ide_sleep.simps)
      (auto simp: rbind_eq_Inr dest!: Suc.IH more_keeps split: list.splits if_splits)
qed (subst (asm) ide_sleep.simps, auto split: if_splits)

lemma iderw_keeps [more_keeps]:
  fixes s :: "'z fsys_scheme"
  shows "iderw b s = Inr t \<Longrightarrow> fsys.more t = fsys.more s"
  by (auto simp: iderw_def Let_def rbind_eq_Inr dest!: more_keeps split: if_splits)

lemma lock_buf_keeps [more_keeps]:
  fixes s :: "'z fsys_scheme"
  shows "lock_buf b s = Inr (c, t) \<Longrightarrow> fsys.more t = fsys.more s"
  by (auto simp: lock_buf_def rbind_eq_Inr)

lemma bread_keeps [more_keeps]:
  fixes s :: "'z fsys_scheme"
  shows "bread dev n s = Inr (b, t) \<Longrightarrow> fsys.more t = fsys.more s"
  by (auto simp: bread_def bget_def rbind_eq_Inr dest!: more_keeps split: option.splits if_splits)

lemma bwrite_keeps [more_keeps]:
  fixes s :: "'z fsys_scheme"
  shows "bwrite b s = Inr t \<Longrightarrow> fsys.more t = fsys.more s"
  by (auto simp: bwrite_def dest!: more_keeps split: if_splits)

lemma brelse_keeps [more_keeps]:
  fixes s :: "'z fsys_scheme"
  shows "brelse b s = Inr t \<Longrightarrow> fsys.more t = fsys.more s"
  by (auto simp: brelse_def Let_def split: if_splits)

text \<open>Loops.\<close>

lemma rfor_keeps:
  fixes s :: "'z fsys_scheme"
  assumes "rfor xs body s = Inr t" and "\<And>i t t'. body i t = Inr t' \<Longrightarrow> fsys.more t' = fsys.more t"
  shows "fsys.more t = fsys.more s"
  using assms by (induction xs arbitrary: s) (auto simp: rbind_eq_Inr)

lemma rfirst_keeps:
  fixes s :: "'z fsys_scheme"
  assumes "rfirst body xs s = Inr (r, t)" and "\<And>i t r t'. body i t = Inr (r, t') \<Longrightarrow> fsys.more t' = fsys.more t"
  shows "fsys.more t = fsys.more s"
  using assms by (induction xs arbitrary: s) (fastforce simp: rbind_eq_Inr split: option.splits)+

lemma alloc_keeps:
  fixes s :: "'z fsys_scheme"
  assumes "rbind (rfirst body xs s) (\<lambda>(r, s1). case r of None \<Rightarrow> Inl e | Some v \<Rightarrow> Inr (v, s1)) = Inr (v, t)"
    and "\<And>i t r t'. body i t = Inr (r, t') \<Longrightarrow> fsys.more t' = fsys.more t"
  shows "fsys.more t = fsys.more s"
proof -
  from assms(1) have "rfirst body xs s = Inr (Some v, t)"
    by (simp add: rbind_eq_Inr split: prod.splits option.splits) blast
  then show ?thesis by (rule rfirst_keeps) (rule assms(2))
qed

text \<open>The same by cases on the code, for the routines whose branches end in the same state.\<close>

lemma rbind_all: "(\<And>x. m = Inr x \<Longrightarrow> \<forall>t. f x = Inr t \<longrightarrow> P t) \<Longrightarrow> \<forall>t. rbind m f = Inr t \<longrightarrow> P t"
  by (auto simp: rbind_eq_Inr)

lemma if_all: "(c \<Longrightarrow> \<forall>t. a = Inr t \<longrightarrow> P t) \<Longrightarrow> (\<not> c \<Longrightarrow> \<forall>t. b = Inr t \<longrightarrow> P t) \<Longrightarrow>
    \<forall>t. (if c then a else b) = Inr t \<longrightarrow> P t"
  by simp

lemma pair_all: "(\<And>a b. x = (a, b) \<Longrightarrow> \<forall>t. f a b = Inr t \<longrightarrow> P t) \<Longrightarrow> \<forall>t. (case x of (a, b) \<Rightarrow> f a b) = Inr t \<longrightarrow> P t"
  by (cases x) simp

lemma pair_all_app: "(\<And>a b. x = (a, b) \<Longrightarrow> \<forall>t. f a b z = Inr t \<longrightarrow> P t) \<Longrightarrow> \<forall>t. (case x of (a, b) \<Rightarrow> f a b) z = Inr t \<longrightarrow> P t"
  by (cases x) simp

lemma option_all: "(o' = None \<Longrightarrow> \<forall>t. a = Inr t \<longrightarrow> P t) \<Longrightarrow> (\<And>x. o' = Some x \<Longrightarrow> \<forall>t. b x = Inr t \<longrightarrow> P t) \<Longrightarrow>
    \<forall>t. (case o' of None \<Rightarrow> a | Some x \<Rightarrow> b x) = Inr t \<longrightarrow> P t"
  by (cases o') simp_all

lemmas all_intros = rbind_all if_all pair_all pair_all_app option_all

lemma install_one_keeps [more_keeps]:
  fixes s :: "'z fsys_scheme"
  shows "install_one i s = Inr t \<Longrightarrow> fsys.more t = fsys.more s"
  by (auto simp: install_one_def Let_def rbind_eq_Inr dest!: more_keeps split: option.splits if_splits prod.splits)

lemma install_trans_keeps [more_keeps]:
  fixes s :: "'z fsys_scheme"
  shows "install_trans s = Inr t \<Longrightarrow> fsys.more t = fsys.more s"
  unfolding install_trans_def by (erule rfor_keeps) (rule install_one_keeps)

lemma write_head_keeps [more_keeps]:
  fixes s :: "'z fsys_scheme"
  shows "write_head s = Inr t \<Longrightarrow> fsys.more t = fsys.more s"
  by (auto simp: write_head_def Let_def rbind_eq_Inr dest!: more_keeps split: option.splits if_splits prod.splits)

lemma write_log_one_keeps [more_keeps]:
  fixes s :: "'z fsys_scheme"
  shows "write_log_one i s = Inr t \<Longrightarrow> fsys.more t = fsys.more s"
  by (auto simp: write_log_one_def Let_def rbind_eq_Inr dest!: more_keeps split: option.splits if_splits prod.splits)

lemma write_log_keeps [more_keeps]:
  fixes s :: "'z fsys_scheme"
  shows "write_log s = Inr t \<Longrightarrow> fsys.more t = fsys.more s"
  unfolding write_log_def by (erule rfor_keeps) (rule write_log_one_keeps)

lemma commit_keeps [more_keeps]:
  fixes s :: "'z fsys_scheme"
  shows "commit s = Inr t \<Longrightarrow> fsys.more t = fsys.more s"
  by (auto simp: commit_def Let_def rbind_eq_Inr dest!: more_keeps split: option.splits if_splits prod.splits)

lemma begin_op_keeps [more_keeps]:
  fixes s :: "'z fsys_scheme"
  shows "begin_op s = Inr t \<Longrightarrow> fsys.more t = fsys.more s"
  by (auto simp: begin_op_def Let_def rbind_eq_Inr dest!: more_keeps split: option.splits if_splits prod.splits)

lemma end_op_keeps [more_keeps]:
  fixes s :: "'z fsys_scheme"
  shows "end_op s = Inr t \<Longrightarrow> fsys.more t = fsys.more s"
  by (auto simp: end_op_def Let_def rbind_eq_Inr dest!: more_keeps split: option.splits if_splits prod.splits)

lemma log_write_keeps [more_keeps]:
  fixes s :: "'z fsys_scheme"
  shows "log_write b s = Inr t \<Longrightarrow> fsys.more t = fsys.more s"
  by (auto simp: log_write_def Let_def rbind_eq_Inr dest!: more_keeps split: option.splits if_splits prod.splits)

section \<open>The xv6 file system\<close>

lemma iget_keeps [more_keeps]:
  fixes s :: "'z fsys_scheme"
  shows "iget dev inum s = Inr (ip, t) \<Longrightarrow> fsys.more t = fsys.more s"
  by (auto simp: iget_def Let_def rbind_eq_Inr dest!: more_keeps split: option.splits if_splits prod.splits)

lemma xv6fs_bzero_keeps [more_keeps]:
  fixes s :: "'z fsys_scheme"
  shows "xv6fs_bzero dev b s = Inr t \<Longrightarrow> fsys.more t = fsys.more s"
  by (auto simp: xv6fs_bzero_def Let_def rbind_eq_Inr dest!: more_keeps split: option.splits if_splits prod.splits)

lemma balloc_group_keeps [more_keeps]:
  fixes s :: "'z fsys_scheme"
  shows "balloc_group dev b s = Inr (r, t) \<Longrightarrow> fsys.more t = fsys.more s"
  by (auto simp: balloc_group_def Let_def rbind_eq_Inr dest!: more_keeps split: option.splits if_splits prod.splits)

lemma xv6fs_balloc_keeps [more_keeps]:
  fixes s :: "'z fsys_scheme"
  shows "xv6fs_balloc dev s = Inr (b, t) \<Longrightarrow> fsys.more t = fsys.more s"
  unfolding xv6fs_balloc_def by (erule alloc_keeps) (rule balloc_group_keeps)

lemma xv6fs_bfree_keeps [more_keeps]:
  fixes s :: "'z fsys_scheme"
  shows "xv6fs_bfree dev b s = Inr t \<Longrightarrow> fsys.more t = fsys.more s"
  by (auto simp: xv6fs_bfree_def Let_def rbind_eq_Inr dest!: more_keeps split: option.splits if_splits prod.splits)

lemma ialloc_try_keeps [more_keeps]:
  fixes s :: "'z fsys_scheme"
  shows "ialloc_try dev type i s = Inr (r, t) \<Longrightarrow> fsys.more t = fsys.more s"
  by (auto simp: ialloc_try_def Let_def rbind_eq_Inr dest!: more_keeps split: option.splits if_splits prod.splits)

lemma xv6fs_ialloc_keeps [more_keeps]:
  fixes s :: "'z fsys_scheme"
  shows "xv6fs_ialloc dev type s = Inr (ip, t) \<Longrightarrow> fsys.more t = fsys.more s"
  unfolding xv6fs_ialloc_def by (erule alloc_keeps) (rule ialloc_try_keeps)

lemma xv6fs_iupdate_keeps [more_keeps]:
  fixes s :: "'z fsys_scheme"
  shows "xv6fs_iupdate ip s = Inr t \<Longrightarrow> fsys.more t = fsys.more s"
  by (auto simp: xv6fs_iupdate_def Let_def rbind_eq_Inr dest!: more_keeps split: option.splits if_splits prod.splits)

lemma xv6fs_ilock_keeps [more_keeps]:
  fixes s :: "'z fsys_scheme"
  shows "xv6fs_ilock ip s = Inr t \<Longrightarrow> fsys.more t = fsys.more s"
proof -
  have "\<forall>t. xv6fs_ilock ip s = Inr t \<longrightarrow> fsys.more t = fsys.more s"
    unfolding xv6fs_ilock_def Let_def by (intro all_intros) (auto dest!: more_keeps)
  then show "xv6fs_ilock ip s = Inr t \<Longrightarrow> fsys.more t = fsys.more s" by simp
qed

lemma xv6fs_iunlock_keeps [more_keeps]:
  fixes s :: "'z fsys_scheme"
  shows "xv6fs_iunlock ip s = Inr t \<Longrightarrow> fsys.more t = fsys.more s"
  by (auto simp: xv6fs_iunlock_def Let_def rbind_eq_Inr dest!: more_keeps split: option.splits if_splits prod.splits)

lemma bmap_slot_keeps [more_keeps]:
  fixes s :: "'z fsys_scheme"
  shows "bmap_slot dev k j s = Inr (b, t) \<Longrightarrow> fsys.more t = fsys.more s"
  by (auto simp: bmap_slot_def Let_def rbind_eq_Inr dest!: more_keeps split: option.splits if_splits prod.splits)

lemma bmap_entry_keeps [more_keeps]:
  fixes s :: "'z fsys_scheme"
  shows "bmap_entry dev a j s = Inr (b, t) \<Longrightarrow> fsys.more t = fsys.more s"
  by (auto simp: bmap_entry_def Let_def rbind_eq_Inr dest!: more_keeps split: option.splits if_splits prod.splits)

lemma xv6fs_bmap_keeps [more_keeps]:
  fixes s :: "'z fsys_scheme"
  shows "xv6fs_bmap ip j s = Inr (b, t) \<Longrightarrow> fsys.more t = fsys.more s"
  by (auto simp: xv6fs_bmap_def Let_def rbind_eq_Inr dest!: more_keeps split: option.splits if_splits prod.splits)

lemma xv6fs_itrunc_keeps [more_keeps]:
  fixes s :: "'z fsys_scheme"
  shows "xv6fs_itrunc ip s = Inr t \<Longrightarrow> fsys.more t = fsys.more s"
  by (auto simp: xv6fs_itrunc_def Let_def rbind_eq_Inr dest!: more_keeps split: if_splits dest!: rfor_keeps)

lemma xv6fs_iput_keeps [more_keeps]:
  fixes s :: "'z fsys_scheme"
  shows "xv6fs_iput ip s = Inr t \<Longrightarrow> fsys.more t = fsys.more s"
  by (auto simp: xv6fs_iput_def Let_def rbind_eq_Inr dest!: more_keeps split: option.splits if_splits addrs_ptr.splits)

lemma xv6fs_iunlockput_keeps [more_keeps]:
  fixes s :: "'z fsys_scheme"
  shows "xv6fs_iunlockput ip s = Inr t \<Longrightarrow> fsys.more t = fsys.more s"
  by (auto simp: xv6fs_iunlockput_def Let_def rbind_eq_Inr dest!: more_keeps split: option.splits if_splits prod.splits)

text \<open>What is asked of the device functions.\<close>

definition dev_keeps :: "'z fsys_scheme devsw \<Rightarrow> bool" where
  "dev_keeps devsw \<longleftrightarrow>
     (\<forall>m f ip n s r t. dev_read devsw m = Some f \<longrightarrow> f ip n s = Inr (r, t) \<longrightarrow> fsys.more t = fsys.more s) \<and>
     (\<forall>m f ip src n s r t. dev_write devsw m = Some f \<longrightarrow> f ip src n s = Inr (r, t) \<longrightarrow> fsys.more t = fsys.more s)"

lemma xv6fs_readi_loop_keeps [more_keeps]:
  fixes s :: "'z fsys_scheme"
  shows "xv6fs_readi_loop ip off n tot dst s = Inr (r, t) \<Longrightarrow> fsys.more t = fsys.more s"
proof (induction "n - tot" arbitrary: off tot dst s rule: less_induct)
  case less
  from less(2) show ?case
    by (subst (asm) xv6fs_readi_loop.simps)
      (auto simp: rbind_eq_Inr Let_def BSIZE_def dest!: less(1) [rotated] more_keeps split: if_splits)
qed

lemma xv6fs_writei_loop_keeps [more_keeps]:
  fixes s :: "'z fsys_scheme"
  shows "xv6fs_writei_loop ip src off n tot s = Inr t \<Longrightarrow> fsys.more t = fsys.more s"
proof (induction "n - tot" arbitrary: off tot s rule: less_induct)
  case less
  from less(2) show ?case
    by (subst (asm) xv6fs_writei_loop.simps)
      (auto simp: rbind_eq_Inr Let_def BSIZE_def dest!: less(1) [rotated] more_keeps split: if_splits)
qed

lemma xv6fs_readi_keeps:
  fixes s :: "'z fsys_scheme"
  assumes "dev_keeps devsw" and "xv6fs_readi devsw ip off n s = Inr (r, t)"
  shows "fsys.more t = fsys.more s"
  using assms by (cases r) (auto simp: xv6fs_readi_def Let_def rbind_eq_Inr dev_keeps_def dest!: more_keeps split: option.splits if_splits prod.splits)

lemma xv6fs_writei_keeps:
  fixes s :: "'z fsys_scheme"
  assumes "dev_keeps devsw" and "xv6fs_writei devsw ip src off n s = Inr (r, t)"
  shows "fsys.more t = fsys.more s"
  using assms by (auto simp: xv6fs_writei_def Let_def rbind_eq_Inr dev_keeps_def dest!: more_keeps split: option.splits if_splits prod.splits)

lemma dirlookup_at_keeps:
  fixes s :: "'z fsys_scheme"
  assumes d: "dev_keeps devsw" and "dirlookup_at devsw dp name off s = Inr (r, t)"
  shows "fsys.more t = fsys.more s"
  using assms(2) by (auto simp: dirlookup_at_def Let_def rbind_eq_Inr dest!: more_keeps xv6fs_readi_keeps [OF d]
    split: option.splits if_splits prod.splits)

lemma xv6fs_dirlookup_keeps:
  fixes s :: "'z fsys_scheme"
  assumes d: "dev_keeps devsw" and "xv6fs_dirlookup devsw dp name s = Inr (r, t)"
  shows "fsys.more t = fsys.more s"
  using assms(2) unfolding xv6fs_dirlookup_def
  by (simp split: if_splits) (erule rfirst_keeps, rule dirlookup_at_keeps [OF d])

lemma dirlink_at_keeps:
  fixes s :: "'z fsys_scheme"
  assumes d: "dev_keeps devsw" and "dirlink_at devsw dp off s = Inr (r, t)"
  shows "fsys.more t = fsys.more s"
  using assms(2) by (auto simp: dirlink_at_def Let_def rbind_eq_Inr dest!: more_keeps xv6fs_readi_keeps [OF d]
    split: option.splits if_splits prod.splits)

lemma rfirst_dirlink_keeps:
  fixes s :: "'z fsys_scheme"
  assumes d: "dev_keeps devsw" and "rfirst (dirlink_at devsw dp) offs s = Inr (r, t)"
  shows "fsys.more t = fsys.more s"
  using assms(2) by (rule rfirst_keeps) (rule dirlink_at_keeps [OF d])

lemma xv6fs_dirlink_keeps:
  fixes s :: "'z fsys_scheme"
  assumes d: "dev_keeps devsw" and "xv6fs_dirlink devsw dp name inum s = Inr (r, t)"
  shows "fsys.more t = fsys.more s"
  using assms(2) by (auto simp: xv6fs_dirlink_def Let_def rbind_eq_Inr dest!: more_keeps xv6fs_dirlookup_keeps [OF d] rfirst_dirlink_keeps [OF d] xv6fs_writei_keeps [OF d]
    split: option.splits if_splits prod.splits)

section \<open>The ext2 file system\<close>

lemma read_bgdesc_keeps [more_keeps]:
  fixes s :: "'z fsys_scheme"
  shows "read_bgdesc dev g s = Inr (r, t) \<Longrightarrow> fsys.more t = fsys.more s"
  by (auto simp: read_bgdesc_def Let_def rbind_eq_Inr dest!: more_keeps split: option.splits if_splits prod.splits)

lemma ext2fs_bzero_keeps [more_keeps]:
  fixes s :: "'z fsys_scheme"
  shows "ext2fs_bzero dev b s = Inr t \<Longrightarrow> fsys.more t = fsys.more s"
  by (auto simp: ext2fs_bzero_def Let_def rbind_eq_Inr dest!: more_keeps split: option.splits if_splits prod.splits)

lemma ext2fs_balloc_keeps [more_keeps]:
  fixes s :: "'z fsys_scheme"
  shows "ext2fs_balloc dev i s = Inr (r, t) \<Longrightarrow> fsys.more t = fsys.more s"
  by (auto simp: ext2fs_balloc_def Let_def rbind_eq_Inr dest!: more_keeps split: option.splits if_splits prod.splits)

lemma ext2fs_bfree_keeps [more_keeps]:
  fixes s :: "'z fsys_scheme"
  shows "ext2fs_bfree dev b s = Inr t \<Longrightarrow> fsys.more t = fsys.more s"
  by (auto simp: ext2fs_bfree_def Let_def rbind_eq_Inr dest!: more_keeps split: option.splits if_splits prod.splits)

lemma ext2_ialloc_group_keeps [more_keeps]:
  fixes s :: "'z fsys_scheme"
  shows "ext2_ialloc_group dev type i s = Inr (r, t) \<Longrightarrow> fsys.more t = fsys.more s"
  by (auto simp: ext2_ialloc_group_def Let_def rbind_eq_Inr dest!: more_keeps split: option.splits if_splits prod.splits)

lemma ext2fs_ialloc_keeps [more_keeps]:
  fixes s :: "'z fsys_scheme"
  shows "ext2fs_ialloc dev type s = Inr (ip, t) \<Longrightarrow> fsys.more t = fsys.more s"
  unfolding ext2fs_ialloc_def Let_def
  by (simp split: if_splits) (erule alloc_keeps, rule ext2_ialloc_group_keeps)

lemma ext2_get_inode_keeps [more_keeps]:
  fixes s :: "'z fsys_scheme"
  shows "ext2_get_inode dev i s = Inr (r, t) \<Longrightarrow> fsys.more t = fsys.more s"
  by (auto simp: ext2_get_inode_def Let_def rbind_eq_Inr dest!: more_keeps split: option.splits if_splits prod.splits)

lemma ext2fs_iupdate_keeps [more_keeps]:
  fixes s :: "'z fsys_scheme"
  shows "ext2fs_iupdate ip s = Inr t \<Longrightarrow> fsys.more t = fsys.more s"
  by (auto simp: ext2fs_iupdate_def Let_def rbind_eq_Inr dest!: more_keeps split: option.splits if_splits prod.splits)

lemma ext2fs_ilock_keeps [more_keeps]:
  fixes s :: "'z fsys_scheme"
  shows "ext2fs_ilock ip s = Inr t \<Longrightarrow> fsys.more t = fsys.more s"
proof -
  have "\<forall>t. ext2fs_ilock ip s = Inr t \<longrightarrow> fsys.more t = fsys.more s"
    unfolding ext2fs_ilock_def Let_def by (intro all_intros) (auto dest!: more_keeps)
  then show "ext2fs_ilock ip s = Inr t \<Longrightarrow> fsys.more t = fsys.more s" by simp
qed

lemma ext2fs_iunlock_keeps [more_keeps]:
  fixes s :: "'z fsys_scheme"
  shows "ext2fs_iunlock ip s = Inr t \<Longrightarrow> fsys.more t = fsys.more s"
  by (auto simp: ext2fs_iunlock_def Let_def rbind_eq_Inr dest!: more_keeps split: option.splits if_splits prod.splits)

lemma ext2fs_ifree_keeps [more_keeps]:
  fixes s :: "'z fsys_scheme"
  shows "ext2fs_ifree ip s = Inr t \<Longrightarrow> fsys.more t = fsys.more s"
  by (auto simp: ext2fs_ifree_def Let_def rbind_eq_Inr dest!: more_keeps split: option.splits if_splits prod.splits)

lemma ext2_trunc_keeps [more_keeps]:
  fixes s :: "'z fsys_scheme"
  shows "ext2_trunc l dev b s = Inr t \<Longrightarrow> fsys.more t = fsys.more s"
proof (induction l arbitrary: b s t)
  case (Suc l)
  from Suc(2) show ?case
    by (auto simp: rbind_eq_Inr dest!: more_keeps rfor_keeps)
      (auto simp: rbind_eq_Inr dest!: more_keeps Suc(1) split: if_splits)
qed simp

lemma ext2_free_keeps:
  fixes s :: "'z fsys_scheme"
  assumes "(if c then rbind (ext2_trunc l dev x s) (\<lambda>s1.
      rbind (ext2fs_bfree dev (y s1) s1) (\<lambda>s2. Inr (set_eaddrs k h s2))) else Inr s) = Inr t"
  shows "fsys.more t = fsys.more s"
  using assms by (auto simp: rbind_eq_Inr dest!: more_keeps split: if_splits)

lemma ext2fs_itrunc_keeps [more_keeps]:
  fixes s :: "'z fsys_scheme"
  assumes "ext2fs_itrunc ip s = Inr t"
  shows "fsys.more t = fsys.more s"
proof -
  obtain k s1 s2 s3 s4 where "ext2fs_ad ip s = Inr k" and
    m: "fsys.more s1 = fsys.more s" "fsys.more s2 = fsys.more s1" "fsys.more s3 = fsys.more s2" "fsys.more s4 = fsys.more s3"
      "ext2fs_iupdate ip (set_inode ip (\<lambda>x. x\<lparr>i_size := 0\<rparr>) s4) = Inr t"
    using assms unfolding ext2fs_itrunc_def Let_def rbind_eq_Inr
    by (elim exE conjE) (rule that, assumption, erule rfor_keeps, erule ext2_free_keeps, (erule ext2_free_keeps)+)
  then show ?thesis using ext2fs_iupdate_keeps [OF m(5)] by simp
qed

lemma ext2fs_iput_keeps [more_keeps]:
  fixes s :: "'z fsys_scheme"
  shows "ext2fs_iput ip s = Inr t \<Longrightarrow> fsys.more t = fsys.more s"
  by (auto simp: ext2fs_iput_def Let_def rbind_eq_Inr dest!: more_keeps split: option.splits if_splits addrs_ptr.splits)

lemma ext2fs_iunlockput_keeps [more_keeps]:
  fixes s :: "'z fsys_scheme"
  shows "ext2fs_iunlockput ip s = Inr t \<Longrightarrow> fsys.more t = fsys.more s"
  by (auto simp: ext2fs_iunlockput_def Let_def rbind_eq_Inr dest!: more_keeps split: option.splits if_splits prod.splits)

lemma ext2_slot_keeps [more_keeps]:
  fixes s :: "'z fsys_scheme"
  shows "ext2_slot dev i k j s = Inr (r, t) \<Longrightarrow> fsys.more t = fsys.more s"
  by (auto simp: ext2_slot_def Let_def rbind_eq_Inr dest!: more_keeps split: option.splits if_splits prod.splits)

lemma ext2_entry_keeps [more_keeps]:
  fixes s :: "'z fsys_scheme"
  shows "ext2_entry dev i a j s = Inr (r, t) \<Longrightarrow> fsys.more t = fsys.more s"
  by (auto simp: ext2_entry_def Let_def rbind_eq_Inr dest!: more_keeps split: option.splits if_splits prod.splits)

lemma ext2fs_bmap_keeps [more_keeps]:
  fixes s :: "'z fsys_scheme"
  shows "ext2fs_bmap ip bn s = Inr (r, t) \<Longrightarrow> fsys.more t = fsys.more s"
  by (auto simp: ext2fs_bmap_def Let_def rbind_eq_Inr dest!: more_keeps split: option.splits if_splits prod.splits)

lemma ext2fs_readi_loop_keeps [more_keeps]:
  fixes s :: "'z fsys_scheme"
  shows "ext2fs_readi_loop ip off n tot dst s = Inr (r, t) \<Longrightarrow> fsys.more t = fsys.more s"
proof (induction "n - tot" arbitrary: off tot dst s rule: less_induct)
  case less
  from less(2) show ?case
    by (subst (asm) ext2fs_readi_loop.simps)
      (auto simp: rbind_eq_Inr Let_def EXT2_BSIZE_def dest!: less(1) [rotated] more_keeps split: if_splits)
qed

lemma ext2fs_writei_loop_keeps [more_keeps]:
  fixes s :: "'z fsys_scheme"
  shows "ext2fs_writei_loop ip src off n tot s = Inr t \<Longrightarrow> fsys.more t = fsys.more s"
proof (induction "n - tot" arbitrary: off tot s rule: less_induct)
  case less
  from less(2) show ?case
    by (subst (asm) ext2fs_writei_loop.simps)
      (auto simp: rbind_eq_Inr Let_def EXT2_BSIZE_def dest!: less(1) [rotated] more_keeps split: if_splits)
qed

lemma ext2fs_readi_keeps:
  fixes s :: "'z fsys_scheme"
  assumes "dev_keeps devsw" and "ext2fs_readi devsw ip off n s = Inr (r, t)"
  shows "fsys.more t = fsys.more s"
  using assms by (cases r) (auto simp: ext2fs_readi_def Let_def rbind_eq_Inr dev_keeps_def dest!: more_keeps
    split: option.splits if_splits prod.splits)

lemma ext2fs_writei_keeps:
  fixes s :: "'z fsys_scheme"
  assumes "dev_keeps devsw" and "ext2fs_writei devsw ip src off n s = Inr (r, t)"
  shows "fsys.more t = fsys.more s"
  using assms by (auto simp: ext2fs_writei_def Let_def rbind_eq_Inr dev_keeps_def dest!: more_keeps
    split: option.splits if_splits prod.splits)

lemma ext2_dirlookup_loop_keeps:
  fixes s :: "'z fsys_scheme"
  assumes d: "dev_keeps devsw"
  shows "ext2_dirlookup_loop devsw dp name fuel off s = Inr (r, t) \<Longrightarrow> fsys.more t = fsys.more s"
proof (induction fuel arbitrary: off s)
  case 0
  then show ?case by (subst (asm) ext2_dirlookup_loop.simps) (simp split: if_splits)
next
  case (Suc fuel)
  from Suc(2) show ?case
    by (subst (asm) ext2_dirlookup_loop.simps)
      (auto simp: rbind_eq_Inr Let_def dest!: ext2fs_readi_keeps [OF d] more_keeps Suc(1) split: if_splits)
qed

lemma ext2fs_dirlookup_keeps:
  fixes s :: "'z fsys_scheme"
  assumes "dev_keeps devsw" and "ext2fs_dirlookup devsw dp name s = Inr (r, t)"
  shows "fsys.more t = fsys.more s"
  using assms(2) unfolding ext2fs_dirlookup_def by (rule ext2_dirlookup_loop_keeps [OF assms(1)])

lemma ext2_dirlink_loop_keeps:
  fixes s :: "'z fsys_scheme"
  assumes d: "dev_keeps devsw"
  shows "ext2_dirlink_loop devsw dp off de s = Inr (r, t) \<Longrightarrow> fsys.more t = fsys.more s"
proof (induction "2 ^ 31 - off" arbitrary: off de s rule: less_induct)
  case less
  from less(2) show ?case
    by (subst (asm) ext2_dirlink_loop.simps)
      (auto simp: rbind_eq_Inr Let_def ext2_dir_entry_bytes_def dest!: ext2fs_readi_keeps [OF d] less(1) [rotated]
        split: if_splits)
qed

lemma ext2fs_dirlink_keeps:
  fixes s :: "'z fsys_scheme"
  assumes d: "dev_keeps devsw" and "ext2fs_dirlink devsw stk dp name inum s = Inr (r, t)"
  shows "fsys.more t = fsys.more s"
  using assms(2) by (auto simp: ext2fs_dirlink_def Let_def rbind_eq_Inr dest!: more_keeps ext2fs_dirlookup_keeps [OF d] ext2_dirlink_loop_keeps [OF d] ext2fs_writei_keeps [OF d]
    split: option.splits if_splits prod.splits)

section \<open>Path names\<close>

lemma vop_cases:
  assumes "rbind (vop ip s) (\<lambda>v. case v of Xv6fs_inode_ops \<Rightarrow> a | Ext2fs_inode_ops \<Rightarrow> b) = Inr r"
  shows "a = Inr r \<or> b = Inr r"
proof (cases "vop ip s")
  case (Inr v)
  then show ?thesis using assms by (cases v) simp_all
qed (use assms in simp)

lemma vop_ilock_keeps [more_keeps]:
  fixes s :: "'z fsys_scheme"
  shows "vop_ilock ip s = Inr t \<Longrightarrow> fsys.more t = fsys.more s"
  unfolding vop_ilock_def by (drule vop_cases) (elim disjE xv6fs_ilock_keeps ext2fs_ilock_keeps)

lemma vop_iunlock_keeps [more_keeps]:
  fixes s :: "'z fsys_scheme"
  shows "vop_iunlock ip s = Inr t \<Longrightarrow> fsys.more t = fsys.more s"
  unfolding vop_iunlock_def by (drule vop_cases) (elim disjE xv6fs_iunlock_keeps ext2fs_iunlock_keeps)

lemma vop_iput_keeps [more_keeps]:
  fixes s :: "'z fsys_scheme"
  shows "vop_iput ip s = Inr t \<Longrightarrow> fsys.more t = fsys.more s"
  unfolding vop_iput_def by (drule vop_cases) (elim disjE xv6fs_iput_keeps ext2fs_iput_keeps)

lemma vop_iunlockput_keeps [more_keeps]:
  fixes s :: "'z fsys_scheme"
  shows "vop_iunlockput ip s = Inr t \<Longrightarrow> fsys.more t = fsys.more s"
  unfolding vop_iunlockput_def by (drule vop_cases) (elim disjE xv6fs_iunlockput_keeps ext2fs_iunlockput_keeps)

lemma vop_iupdate_keeps [more_keeps]:
  fixes s :: "'z fsys_scheme"
  shows "vop_iupdate ip s = Inr t \<Longrightarrow> fsys.more t = fsys.more s"
  unfolding vop_iupdate_def by (drule vop_cases) (elim disjE xv6fs_iupdate_keeps ext2fs_iupdate_keeps)

lemma vop_ialloc_keeps [more_keeps]:
  fixes s :: "'z fsys_scheme"
  shows "vop_ialloc dp dev type s = Inr (r, t) \<Longrightarrow> fsys.more t = fsys.more s"
  unfolding vop_ialloc_def by (drule vop_cases) (elim disjE xv6fs_ialloc_keeps ext2fs_ialloc_keeps)

lemma vop_readi_keeps:
  fixes s :: "'z fsys_scheme"
  assumes d: "dev_keeps devsw" and "vop_readi devsw ip off n s = Inr (r, t)"
  shows "fsys.more t = fsys.more s"
  using vop_cases [OF assms(2) [unfolded vop_readi_def]]
  by (elim disjE xv6fs_readi_keeps [OF d] ext2fs_readi_keeps [OF d])

lemma vop_writei_keeps:
  fixes s :: "'z fsys_scheme"
  assumes d: "dev_keeps devsw" and "vop_writei devsw ip src off n s = Inr (r, t)"
  shows "fsys.more t = fsys.more s"
  using vop_cases [OF assms(2) [unfolded vop_writei_def]]
  by (elim disjE xv6fs_writei_keeps [OF d] ext2fs_writei_keeps [OF d])

lemma vop_dirlookup_keeps:
  fixes s :: "'z fsys_scheme"
  assumes d: "dev_keeps devsw" and "vop_dirlookup devsw dp name s = Inr (r, t)"
  shows "fsys.more t = fsys.more s"
  using vop_cases [OF assms(2) [unfolded vop_dirlookup_def]]
  by (elim disjE xv6fs_dirlookup_keeps [OF d] ext2fs_dirlookup_keeps [OF d])

lemma vop_dirlink_keeps:
  fixes s :: "'z fsys_scheme"
  assumes d: "dev_keeps devsw" and "vop_dirlink devsw stk dp name inum s = Inr (r, t)"
  shows "fsys.more t = fsys.more s"
  using vop_cases [OF assms(2) [unfolded vop_dirlink_def]]
  by (elim disjE xv6fs_dirlink_keeps [OF d] ext2fs_dirlink_keeps [OF d])

lemma namex_loop_keeps:
  fixes s :: "'z fsys_scheme"
  assumes d: "dev_keeps devsw"
  shows "namex_loop devsw nsz par path name ip s = Inr (r, t) \<Longrightarrow> fsys.more t = fsys.more s"
proof (induction "length path" arbitrary: path name ip s r t rule: less_induct)
  case less
  show ?case
  proof (cases "skipelem nsz path name (i_dev (icache s ip))")
    case (Inr e)
    have "\<forall>rt. namex_loop devsw nsz par path name ip s = Inr rt \<longrightarrow> fsys.more (snd rt) = fsys.more s"
    proof (cases e)
      case (Some pn)
      obtain path' name' where pn: "pn = (path', name')" by (cases pn)
      have "length path' < length path" using Inr Some pn by (auto intro: skipelem_shorter)
      then have IH: "\<forall>ip u rt. namex_loop devsw nsz par path' name' ip u = Inr rt \<longrightarrow> fsys.more (snd rt) = fsys.more u"
        using less(1) by force
      show ?thesis
        unfolding namex_loop.simps [of devsw nsz par path] Inr Some pn sum.case option.case prod.case
        by (intro all_intros) (auto dest!: more_keeps vop_dirlookup_keeps [OF d] IH [rule_format])
    qed (subst namex_loop.simps, auto simp: Inr rbind_eq_Inr dest!: more_keeps)
    then show ?thesis using less(2) by force
  qed (use less(2) namex_loop.simps [of devsw nsz par path name ip s] in simp)
qed

lemma namex_keeps:
  fixes s :: "'z fsys_scheme"
  assumes d: "dev_keeps devsw" and "namex devsw nsz path par name s = Inr (r, t)"
  shows "fsys.more t = fsys.more s"
  using assms(2) by (auto simp: namex_def rbind_eq_Inr idup_def dest!: namex_loop_keeps [OF d] more_keeps split: if_splits)

lemma namei_keeps:
  fixes s :: "'z fsys_scheme"
  assumes d: "dev_keeps devsw" and "namei devsw path s = Inr (r, t)"
  shows "fsys.more t = fsys.more s"
  using assms(2) by (auto simp: namei_def rbind_eq_Inr dest!: namex_keeps [OF d])

lemma nameiparent_keeps:
  fixes s :: "'z fsys_scheme"
  assumes d: "dev_keeps devsw" and "nameiparent devsw nsz path name s = Inr (r, t)"
  shows "fsys.more t = fsys.more s"
  using assms(2) unfolding nameiparent_def by (rule namex_keeps [OF d])

end
