(* ===== verification/Sysfile_Props.thy ===== *)
theory Sysfile_Props
  imports Frame
begin

text \<open>
  The reference counts of open files. \<open>files_ok oth s\<close> says that the count of every open file is the
  number of descriptors of the running process that hold it plus the references \<open>oth\<close> held
  elsewhere: by other processes, or by a system call in progress. Each operation moves references
  between the three; the system calls are steps that leave \<open>oth\<close> as it was.
\<close>

section \<open>Ownership\<close>

definition fds :: "nat \<Rightarrow> 'z ksys_scheme \<Rightarrow> nat set" where
  "fds f s = {fd. fd < NOFILE \<and> ofile s fd = Some f}"

definition files_ok :: "(nat \<Rightarrow> nat) \<Rightarrow> 'z ksys_scheme \<Rightarrow> bool" where
  "files_ok oth s \<longleftrightarrow>
     (\<forall>f. f_ref (ftable s f) = int (oth f + card (fds f s))) \<and>
     (\<forall>f. f_ref (ftable s f) = 0 \<longrightarrow> f_type (ftable s f) = FD_NONE)"

text \<open>Between system calls every file in use has a type.\<close>

definition files_typed :: "'z ksys_scheme \<Rightarrow> bool" where
  "files_typed s \<longleftrightarrow> (\<forall>f. f_ref (ftable s f) \<noteq> 0 \<longrightarrow> f_type (ftable s f) \<noteq> FD_NONE)"

lemma finite_fds [simp]: "finite (fds f s)"
  by (simp add: fds_def)

lemma ksys_more:
  fixes s t :: "'z ksys_scheme"
  assumes "fsys.more t = fsys.more s"
  shows "ftable t = ftable s" "ofile t = ofile s" "umem t = umem s" "uesp t = uesp s" "usz t = usz s"
    "pipes t = pipes s" "km t = km s" "kend t = kend s" "killed t = killed s"
  using assms by (cases s; cases t; simp)+

lemma files_ok_cong: "ftable t = ftable s \<Longrightarrow> ofile t = ofile s \<Longrightarrow> files_ok oth t = files_ok oth s"
  by (simp add: files_ok_def fds_def)

lemma files_typed_cong: "ftable t = ftable s \<Longrightarrow> files_typed t = files_typed s"
  by (simp add: files_typed_def)

lemma files_ok_held:
  assumes "files_ok oth s" and "ofile s fd = Some f" and "fd < NOFILE"
  shows "f_ref (ftable s f) \<ge> 1"
proof -
  have "fd \<in> fds f s" using assms by (simp add: fds_def)
  then have "card (fds f s) > 0" by (auto simp: card_gt_0_iff)
  then show ?thesis using assms(1) by (simp add: files_ok_def)
qed

lemma filealloc_ok:
  assumes "files_ok oth s" and "filealloc s = (Some f, t)"
  shows "files_ok (oth(f := oth f + 1)) t" "f < NFILE" "f_ref (ftable s f) = 0"
    "ftable t = (ftable s)(f := (ftable s f)\<lparr>f_ref := 1\<rparr>)" "f_type (ftable t f) = FD_NONE"
proof -
  from assms(2) obtain *: "f < NFILE" "f_ref (ftable s f) = 0" "t = set_file f (\<lambda>x. x\<lparr>f_ref := 1\<rparr>) s"
    by (auto simp: filealloc_def find_upt_Some split: option.splits)
  then show "f < NFILE" "f_ref (ftable s f) = 0" "ftable t = (ftable s)(f := (ftable s f)\<lparr>f_ref := 1\<rparr>)" by simp_all
  show "f_type (ftable t f) = FD_NONE" using * assms(1) by (simp add: files_ok_def)
  have "oth f = 0" "card (fds f s) = 0" using * assms(1) unfolding files_ok_def by (smt (verit) add_is_0 of_nat_0_eq_iff)+
  moreover have "fds g t = fds g s" for g using * by (simp add: fds_def)
  ultimately show "files_ok (oth(f := oth f + 1)) t"
    using assms(1) *(3) by (auto simp: files_ok_def)
qed

lemma fdalloc_ok:
  assumes "files_ok (oth(f := oth f + 1)) s" and "fdalloc f s = (Some fd, t)"
  shows "files_ok oth t" "fd < NOFILE" "ofile s fd = None" "ofile t = (ofile s)(fd \<mapsto> f)" "ftable t = ftable s"
proof -
  from assms(2) obtain *: "fd < NOFILE" "ofile s fd = None" "t = s\<lparr>ofile := (ofile s)(fd \<mapsto> f)\<rparr>"
    by (auto simp: fdalloc_def find_upt_Some split: option.splits)
  then show "fd < NOFILE" "ofile s fd = None" "ofile t = (ofile s)(fd \<mapsto> f)" "ftable t = ftable s" by simp_all
  have "fds f t = insert fd (fds f s)" "fd \<notin> fds f s" using * by (auto simp: fds_def)
  moreover have "fds g t = fds g s" if "g \<noteq> f" for g using * that by (auto simp: fds_def)
  ultimately show "files_ok oth t"
    using assms(1) *(3) by (auto simp: files_ok_def split: if_splits)
qed

lemma filedup_ok:
  assumes "files_ok oth s" and "filedup f s = Inr (g, t)"
  shows "files_ok (oth(f := oth f + 1)) t" "ofile t = ofile s" "files_typed s \<Longrightarrow> files_typed t"
proof -
  from assms(2) have *: "f_ref (ftable s f) \<ge> 1" "t = set_file f (\<lambda>x. x\<lparr>f_ref := f_ref x + 1\<rparr>) s"
    by (auto simp: filedup_def split: if_splits)
  then show "ofile t = ofile s" by simp
  have "fds h t = fds h s" for h using * by (simp add: fds_def)
  then show "files_ok (oth(f := oth f + 1)) t" using assms(1) * by (auto simp: files_ok_def)
  show "files_typed t" if "files_typed s" using that * by (auto simp: files_typed_def)
qed

lemma close_fd_ok:
  assumes "files_ok oth s" and "ofile s fd = Some f" and "fd < NOFILE"
  shows "files_ok (oth(f := oth f + 1)) (s\<lparr>ofile := (ofile s)(fd := None)\<rparr>)"
proof -
  let ?t = "s\<lparr>ofile := (ofile s)(fd := None)\<rparr>"
  have "fds f s = insert fd (fds f ?t)" "fd \<notin> fds f ?t" using assms(2,3) by (auto simp: fds_def)
  then have "card (fds f s) = Suc (card (fds f ?t))" by simp
  moreover have "fds g ?t = fds g s" if "g \<noteq> f" for g using that assms(2) by (auto simp: fds_def)
  ultimately show ?thesis using assms(1) by (auto simp: files_ok_def)
qed

lemma drop_ref_ok:
  assumes "files_ok (oth(f := oth f + 1)) s"
  shows "f_ref (ftable s f) \<ge> 1"
    "f_ref (ftable s f) \<noteq> 1 \<Longrightarrow> files_ok oth (set_file f (\<lambda>x. x\<lparr>f_ref := f_ref x - 1\<rparr>) s)"
    "f_ref (ftable s f) = 1 \<Longrightarrow> files_ok oth (set_file f (\<lambda>x. x\<lparr>f_ref := 0, f_type := FD_NONE\<rparr>) s)"
proof -
  have r: "f_ref (ftable s f) = int (oth f + 1 + card (fds f s))" using assms by (simp add: files_ok_def)
  then show "f_ref (ftable s f) \<ge> 1" by simp
  have "fds h (set_file f u s) = fds h s" for h u by (simp add: fds_def)
  then show "f_ref (ftable s f) \<noteq> 1 \<Longrightarrow> files_ok oth (set_file f (\<lambda>x. x\<lparr>f_ref := f_ref x - 1\<rparr>) s)"
    "f_ref (ftable s f) = 1 \<Longrightarrow> files_ok oth (set_file f (\<lambda>x. x\<lparr>f_ref := 0, f_type := FD_NONE\<rparr>) s)"
    using assms r by (auto simp: files_ok_def split: if_splits)
qed

lemma pipeclose_at_files:
  assumes "pipeclose_at p w s = Inr t"
  shows "ftable t = ftable s" "ofile t = ofile s"
  using assms by (auto simp: pipeclose_at_def Let_def rbind_eq_Inr split: prod.splits if_splits)

text \<open>
  \<open>fileclose\<close> gives back one reference. It does not panic, and only the entry of the file changes.
\<close>

lemma fileclose_ok:
  assumes ok: "files_ok (oth(f := oth f + 1)) s" and t: "fileclose f s = Inr t"
  shows "files_ok oth t" "ofile t = ofile s" "\<forall>g. g \<noteq> f \<longrightarrow> ftable t g = ftable s g"
    "f_ref (ftable t f) \<noteq> 0 \<Longrightarrow> f_type (ftable t f) = f_type (ftable s f)"
proof -
  let ?dec = "set_file f (\<lambda>x. x\<lparr>f_ref := f_ref x - 1\<rparr>) s"
  let ?clr = "set_file f (\<lambda>x. x\<lparr>f_ref := 0, f_type := FD_NONE\<rparr>) ?dec"
  have clr: "files_ok oth ?clr = files_ok oth (set_file f (\<lambda>x. x\<lparr>f_ref := 0, f_type := FD_NONE\<rparr>) s)"
    by (rule files_ok_cong) simp_all
  note r = drop_ref_ok [OF ok]
  have "files_ok oth t \<and> ofile t = ofile s \<and> (\<forall>g. g \<noteq> f \<longrightarrow> ftable t g = ftable s g) \<and>
      (f_ref (ftable t f) \<noteq> 0 \<longrightarrow> f_type (ftable t f) = f_type (ftable s f))"
  proof (cases "f_ref (ftable s f) = 1")
    case False
    then have "t = ?dec" using t r(1) by (simp add: fileclose_def)
    then show ?thesis using r(2) False by simp
  next
    case True
    note c = r(3) [OF True, folded clr]
    have eq: "ftable t = ftable ?clr \<and> ofile t = ofile ?clr"
    proof (cases "f_type (ftable s f)")
      case FD_NONE
      then show ?thesis using t True by (simp add: fileclose_def)
    next
      case FD_PIPE
      then have "pipeclose_at (f_pipe (ftable s f)) (f_writable (ftable s f)) ?clr = Inr t"
        using t True by (simp add: fileclose_def)
      then show ?thesis by (simp add: pipeclose_at_files)
    next
      case FD_INODE
      then obtain s3 s4 where
        o: "begin_op ?clr = Inr s3" "vop_iput (f_ip (ftable s f)) s3 = Inr s4" "end_op s4 = Inr t"
        using t True by (auto simp: fileclose_def rbind_eq_Inr)
      have "fsys.more t = fsys.more ?clr"
        using end_op_keeps [OF o(3)] vop_iput_keeps [OF o(2)] begin_op_keeps [OF o(1)] by argo
      then show ?thesis using ksys_more(1,2) by blast
    qed
    then have "files_ok oth t" using c files_ok_cong [of t ?clr oth] by simp
    then show ?thesis using eq by simp
  qed
  then show "files_ok oth t" "ofile t = ofile s" "\<forall>g. g \<noteq> f \<longrightarrow> ftable t g = ftable s g"
    "f_ref (ftable t f) \<noteq> 0 \<Longrightarrow> f_type (ftable t f) = f_type (ftable s f)" by blast+
qed

lemma fileclose_typed:
  assumes "files_ok (oth(f := oth f + 1)) s" and "fileclose f s = Inr t"
    and "\<forall>g. g \<noteq> f \<longrightarrow> f_ref (ftable s g) \<noteq> 0 \<longrightarrow> f_type (ftable s g) \<noteq> FD_NONE"
    and "f_type (ftable s f) \<noteq> FD_NONE \<or> f_ref (ftable s f) = 1"
  shows "files_typed t"
proof -
  note c = fileclose_ok [OF assms(1,2)]
  have "f_ref (ftable t f) = f_ref (ftable s f) - 1"
    using c(1) assms(1) c(2) by (simp add: files_ok_def fds_def)
  then have "f_ref (ftable t f) \<noteq> 0 \<longrightarrow> f_type (ftable t f) \<noteq> FD_NONE" using c(4) assms(4) by auto
  then show ?thesis using c(3) assms(3) by (metis files_typed_def)
qed

section \<open>Calls that keep the table\<close>

text \<open>
  \<open>same_files s t\<close>: the descriptors are the same, and so are the files up to their offsets.
\<close>

definition same_files :: "'z ksys_scheme \<Rightarrow> 'z ksys_scheme \<Rightarrow> bool" where
  "same_files s t \<longleftrightarrow> ofile t = ofile s \<and>
     (\<forall>f. f_ref (ftable t f) = f_ref (ftable s f) \<and> f_type (ftable t f) = f_type (ftable s f))"

lemma same_files_refl [simp]: "same_files s s"
  by (simp add: same_files_def)

lemma same_files_trans: "same_files s t \<Longrightarrow> same_files t u \<Longrightarrow> same_files s u"
  by (simp add: same_files_def)

lemma same_files_more:
  assumes "fsys.more t = fsys.more s"
  shows "same_files s t"
  using ksys_more(1,2) [OF assms] by (simp add: same_files_def)

lemma same_files_upd [simp]:
  "same_files s (t\<lparr>umem := m\<rparr>) = same_files s t" "same_files s (set_pipe p x t) = same_files s t"
  "same_files s (set_file f (\<lambda>y. y\<lparr>f_off := g y\<rparr>) t) = same_files s t"
  by (auto simp: same_files_def)

lemma same_files_ok:
  assumes "same_files s t"
  shows "files_ok oth t = files_ok oth s" "files_typed t = files_typed s"
  using assms by (simp_all add: same_files_def files_ok_def files_typed_def fds_def)

text \<open>
  \<open>same_open s t\<close>: files differ in their offsets only and pipes in their contents only, and everything
  beyond the file system calls is the same.
\<close>

definition same_open :: "'z ksys_scheme \<Rightarrow> 'z ksys_scheme \<Rightarrow> bool" where
  "same_open s t \<longleftrightarrow> ofile t = ofile s \<and> (\<forall>f. (ftable t f)\<lparr>f_off := 0\<rparr> = (ftable s f)\<lparr>f_off := 0\<rparr>) \<and>
     (\<forall>x. p_readopen (pipes t x) = p_readopen (pipes s x) \<and> p_writeopen (pipes t x) = p_writeopen (pipes s x)) \<and>
     km t = km s \<and> kend t = kend s \<and> ksys.more t = ksys.more s"

lemma same_open_refl [simp]: "same_open s s"
  by (simp add: same_open_def)

lemma same_open_trans: "same_open s t \<Longrightarrow> same_open t u \<Longrightarrow> same_open s u"
  by (simp add: same_open_def)

lemma same_open_more:
  fixes s t :: "'z ksys_scheme"
  assumes "fsys.more t = fsys.more s"
  shows "same_open s t"
  using assms by (cases s; cases t) (simp add: same_open_def)

lemma same_open_upd [simp]:
  "same_open s (t\<lparr>umem := m\<rparr>) = same_open s t" "same_open s (set_file f (\<lambda>y. y\<lparr>f_off := g y\<rparr>) t) = same_open s t"
  by (auto simp: same_open_def set_file_def)

lemma same_open_pipe:
  "p_readopen x = p_readopen (pipes s p) \<and> p_writeopen x = p_writeopen (pipes s p) \<Longrightarrow> same_open s (set_pipe p x s)"
  by (auto simp: same_open_def set_pipe_def)

lemma same_open_file:
  assumes "same_open s t"
  shows "f_ref (ftable t f) = f_ref (ftable s f)" "f_type (ftable t f) = f_type (ftable s f)" "f_pipe (ftable t f) = f_pipe (ftable s f)"
    "f_writable (ftable t f) = f_writable (ftable s f)"
proof -
  have "(ftable t f)\<lparr>f_off := 0\<rparr> = (ftable s f)\<lparr>f_off := 0\<rparr>" using assms by (simp add: same_open_def)
  then show "f_ref (ftable t f) = f_ref (ftable s f)" "f_type (ftable t f) = f_type (ftable s f)" "f_pipe (ftable t f) = f_pipe (ftable s f)"
    "f_writable (ftable t f) = f_writable (ftable s f)" by (cases "ftable t f"; cases "ftable s f"; simp)+
qed

lemma same_open_files: "same_open s t \<Longrightarrow> same_files s t"
  using same_open_file(1,2) [of s t] by (simp add: same_files_def same_open_def)

lemma piperead_ends: "piperead k n p = (out, bs, p', wk) \<Longrightarrow> p_readopen p' = p_readopen p \<and> p_writeopen p' = p_writeopen p"
  using piperead_copy_ends [of n 0 p] by (auto simp: piperead_def Let_def case_prod_unfold split: if_splits)

lemma filestat_same: "filestat f s = Inr (r, t) \<Longrightarrow> same_open s t"
  by (auto simp: filestat_def Let_def rbind_eq_Inr dest!: vop_ilock_keeps vop_iunlock_keeps split: if_splits
      intro: same_open_more)

lemma fileread_same:
  assumes d: "dev_keeps devsw" and t: "fileread devsw f n s = Inr (r, t)"
  shows "same_open s t"
proof (cases "f_readable (ftable s f) \<and> f_type (ftable s f) = FD_INODE")
  case False
  then show ?thesis using t
    by (auto simp: fileread_def Let_def same_open_pipe piperead_ends split: file_type.splits prod.splits pipe_out.splits if_splits)
next
  case True
  let ?ip = "f_ip (ftable s f)"
  obtain s1 v bs s2 s3 where
    o: "vop_ilock ?ip s = Inr s1" "vop_readi devsw ?ip (f_off (ftable s1 f)) (pat32 n) s1 = Inr ((v, bs), s2)"
      "vop_iunlock ?ip s3 = Inr t"
    and s3: "s3 = (if v > 0 then set_file f (\<lambda>y. y\<lparr>f_off := uadd (f_off y) (nat v)\<rparr>) s2 else s2)"
    using t True by (auto simp: fileread_def Let_def rbind_eq_Inr)
  have "fsys.more s2 = fsys.more s" using vop_readi_keeps [OF d o(2)] vop_ilock_keeps [OF o(1)] by argo
  then have "same_open s s3" unfolding s3 by (simp add: same_open_more)
  then show ?thesis using same_open_more [OF vop_iunlock_keeps [OF o(3)]] by (rule same_open_trans)
qed

lemma filewrite_turn:
  assumes d: "dev_keeps devsw" and "begin_op s = Inr s1" and "vop_ilock ip s1 = Inr s2"
    and "vop_writei devsw ip src off m s2 = Inr (v, s3)"
    and "vop_iunlock ip (if v > 0 then set_file f (\<lambda>y. y\<lparr>f_off := g y\<rparr>) s3 else s3) = Inr s5" and "end_op s5 = Inr s6"
  shows "same_open s s6"
proof -
  let ?s4 = "if v > 0 then set_file f (\<lambda>y. y\<lparr>f_off := g y\<rparr>) s3 else s3"
  have "fsys.more s3 = fsys.more s"
    using vop_writei_keeps [OF d assms(4)] vop_ilock_keeps [OF assms(3)] begin_op_keeps [OF assms(2)] by argo
  then have "same_open s ?s4" by (simp add: same_open_more)
  moreover have "fsys.more s6 = fsys.more ?s4"
    using end_op_keeps [OF assms(6)] vop_iunlock_keeps [OF assms(5)] by argo
  ultimately show ?thesis using same_open_more same_open_trans by blast
qed

lemma filewrite_loop_same:
  assumes d: "dev_keeps devsw"
  shows "filewrite_loop devsw f addr n i s = Inr (r, t) \<Longrightarrow> same_open s t"
proof (induction "nat (n - i)" arbitrary: i s r t rule: less_induct)
  case less
  show ?case
  proof (cases "i < n")
    case True
    define n1 where "n1 = (if n - i > max_write then max_write else n - i)"
    have n1: "nat (n - (i + n1)) < nat (n - i)" using True by (auto simp: n1_def max_write_def MAXOPBLOCKS_def)
    have IH: "\<forall>rt. filewrite_loop devsw f addr n (i + n1) s6 = Inr rt \<longrightarrow> same_open s (snd rt)"
      if "same_open s s6" for s6
      using less(1) [OF n1] that same_open_trans by fastforce
    have "\<forall>rt. filewrite_loop devsw f addr n i s = Inr rt \<longrightarrow> same_open s (snd rt)"
      unfolding filewrite_loop.simps [of devsw f addr n i s] Let_def n1_def [symmetric] if_P [OF True]
      by (intro rbind_all pair_all if_all IH) (auto intro: filewrite_turn [OF d])
    then show ?thesis using less(2) by force
  qed (use less(2) filewrite_loop.simps [of devsw f addr n i s] in simp)
qed

lemma filewrite_same:
  assumes d: "dev_keeps devsw" and t: "filewrite devsw f addr n s = Inr (r, t)"
  shows "same_open s t"
  using t filewrite_loop_same [OF d]
  by (auto simp: filewrite_def Let_def rbind_eq_Inr same_open_pipe pipewrite_ends pipewrite_def split: file_type.splits prod.splits pipe_out.splits if_splits)

text \<open>The calls on names change nothing beyond the file systems.\<close>

lemmas dev_keeps_dests =
  vop_readi_keeps vop_writei_keeps vop_dirlookup_keeps vop_dirlink_keeps namei_keeps nameiparent_keeps

lemma link_bad_keeps: "\<forall>rt. link_bad ip s = Inr rt \<longrightarrow> fsys.more (snd rt) = fsys.more s"
  unfolding link_bad_def by (intro all_intros) (auto dest!: more_keeps)

lemma unlink_bad_keeps: "\<forall>rt. unlink_bad ip s = Inr rt \<longrightarrow> fsys.more (snd rt) = fsys.more s"
  unfolding unlink_bad_def by (intro all_intros) (auto dest!: more_keeps)

lemma isdirempty_from_keeps:
  assumes d: "dev_keeps devsw"
  shows "isdirempty_from devsw dp off s = Inr rt \<Longrightarrow> fsys.more (snd rt) = fsys.more s"
proof (induction "2 ^ 31 - off" arbitrary: off s rt rule: less_induct)
  case less
  from less(2) show ?case
    by (subst (asm) isdirempty_from.simps)
      (auto simp: rbind_eq_Inr dest!: vop_readi_keeps [OF d] less(1) [rotated] split: if_splits)
qed

lemma create_keeps:
  assumes d: "dev_keeps devsw"
  shows "\<forall>rt. create devsw stk path type major minor s = Inr rt \<longrightarrow> fsys.more (snd rt) = fsys.more s"
  unfolding create_def Let_def
  by (intro all_intros) (auto simp: rbind_eq_Inr dest!: more_keeps dev_keeps_dests [OF d] split: if_splits)

lemma sys_link_keeps:
  assumes d: "dev_keeps devsw"
  shows "\<forall>rt. sys_link devsw stk s = Inr rt \<longrightarrow> fsys.more (snd rt) = fsys.more s"
  unfolding sys_link_def Let_def
  by (intro all_intros) (auto simp: rbind_eq_Inr dest!: more_keeps dev_keeps_dests [OF d] link_bad_keeps [rule_format] split: if_splits)

lemma sys_unlink_keeps:
  assumes d: "dev_keeps devsw"
  shows "\<forall>rt. sys_unlink devsw stk s = Inr rt \<longrightarrow> fsys.more (snd rt) = fsys.more s"
  unfolding sys_unlink_def isdirempty_def Let_def
  by (intro all_intros) (auto simp: rbind_eq_Inr dest!: more_keeps dev_keeps_dests [OF d] unlink_bad_keeps [rule_format] isdirempty_from_keeps [OF d]
    split: if_splits option.splits)

lemma sys_mkdir_keeps:
  assumes d: "dev_keeps devsw"
  shows "\<forall>rt. sys_mkdir devsw stk s = Inr rt \<longrightarrow> fsys.more (snd rt) = fsys.more s"
  unfolding sys_mkdir_def Let_def
  by (intro all_intros) (auto simp: rbind_eq_Inr dest!: more_keeps dev_keeps_dests [OF d] create_keeps [OF d, rule_format]
    split: if_splits option.splits)

lemma sys_mknod_keeps:
  assumes d: "dev_keeps devsw"
  shows "\<forall>rt. sys_mknod devsw stk s = Inr rt \<longrightarrow> fsys.more (snd rt) = fsys.more s"
  unfolding sys_mknod_def Let_def
  by (intro all_intros) (auto simp: rbind_eq_Inr dest!: more_keeps dev_keeps_dests [OF d] create_keeps [OF d, rule_format]
    split: if_splits option.splits)

lemma sys_chdir_keeps:
  assumes d: "dev_keeps devsw"
  shows "\<forall>rt. sys_chdir devsw s = Inr rt \<longrightarrow> fsys.more (snd rt) = fsys.more s"
  unfolding sys_chdir_def Let_def
  by (intro all_intros) (auto simp: rbind_eq_Inr dest!: more_keeps dev_keeps_dests [OF d]
    split: if_splits option.splits)

section \<open>Calls that change the table\<close>

definition files_inv :: "(nat \<Rightarrow> nat) \<Rightarrow> 'z ksys_scheme \<Rightarrow> bool" where
  "files_inv oth s \<longleftrightarrow> files_ok oth s \<and> files_typed s"

lemma files_inv_same: "files_inv oth s \<Longrightarrow> same_files s t \<Longrightarrow> files_inv oth t"
  by (simp add: files_inv_def same_files_ok)

lemma files_inv_more: "files_inv oth s \<Longrightarrow> fsys.more t = fsys.more s \<Longrightarrow> files_inv oth t"
  using files_inv_same same_files_more by blast

lemma files_ok_retype:
  assumes "files_ok oth s" and "f_ref (ftable s f) \<noteq> 0" and "\<And>x. f_ref (g x) = f_ref x"
  shows "files_ok oth (set_file f g s)"
proof -
  have "fds h (set_file f g s) = fds h s" for h by (simp add: fds_def)
  then show ?thesis using assms by (simp add: files_ok_def)
qed

lemma argfd_held:
  assumes "argfd n s = Some (fd, f)"
  shows "fd < NOFILE" "ofile s fd = Some f"
  using assms by (auto simp: argfd_def split: option.splits if_splits)

lemma sys_dup_inv:
  assumes "files_inv oth s" and "sys_dup s = Inr (r, t)"
  shows "files_inv oth t"
proof (cases "argfd 0 s")
  case (Some a)
  obtain fd f where a: "a = (fd, f)" by (cases a)
  show ?thesis
  proof (cases "fdalloc f s")
    case (Pair nfd s1)
    show ?thesis
    proof (cases nfd)
      case None
      then have "t = s" using assms(2) Some a Pair by (auto simp: sys_dup_def fdalloc_def split: option.splits)
      then show ?thesis using assms(1) by simp
    next
      case (Some n)
      then obtain g where g: "filedup f s1 = Inr (g, t)"
        using assms(2) \<open>argfd 0 s = Some a\<close> a Pair by (auto simp: sys_dup_def rbind_eq_Inr)
      have s1: "n < NOFILE" "ofile s n = None" "s1 = s\<lparr>ofile := (ofile s)(n \<mapsto> f)\<rparr>"
        using Pair Some by (auto simp: fdalloc_def find_upt_Some split: option.splits)
      have t: "t = set_file f (\<lambda>x. x\<lparr>f_ref := f_ref x + 1\<rparr>) s1" "f_ref (ftable s f) \<ge> 1"
        using g s1 by (auto simp: filedup_def split: if_splits)
      have "fds f t = insert n (fds f s)" "n \<notin> fds f s" "\<forall>h. h \<noteq> f \<longrightarrow> fds h t = fds h s"
        using s1 t by (auto simp: fds_def)
      then show ?thesis using assms(1) t s1 by (auto simp: files_inv_def files_ok_def files_typed_def)
    qed
  qed
qed (use assms in \<open>simp add: sys_dup_def\<close>)

lemma sys_close_inv:
  assumes "files_inv oth s" and "sys_close s = Inr (r, t)"
  shows "files_inv oth t"
proof (cases "argfd 0 s")
  case (Some a)
  obtain fd f where a: "a = (fd, f)" by (cases a)
  note h = argfd_held [OF Some [unfolded a]]
  let ?s1 = "s\<lparr>ofile := (ofile s)(fd := None)\<rparr>"
  have c: "fileclose f ?s1 = Inr t" using assms(2) Some a by (auto simp: sys_close_def rbind_eq_Inr)
  have ok: "files_ok (oth(f := oth f + 1)) ?s1"
    using close_fd_ok [OF _ h(2,1)] assms(1) by (simp add: files_inv_def)
  have "f_ref (ftable s f) \<ge> 1" using files_ok_held [of oth s, OF _ h(2,1)] assms(1) by (simp add: files_inv_def)
  then have "files_typed t"
    using fileclose_typed [OF ok c] assms(1) by (auto simp: files_inv_def files_typed_def)
  then show ?thesis using fileclose_ok(1) [OF ok c] by (simp add: files_inv_def)
qed (use assms in \<open>simp add: sys_close_def\<close>)

lemma open_inode_keeps:
  assumes d: "dev_keeps devsw"
  shows "\<forall>rt. open_inode devsw stk path omode s = Inr rt \<longrightarrow> fsys.more (snd rt) = fsys.more s"
  unfolding open_inode_def
  by (intro all_intros) (auto simp: rbind_eq_Inr dest!: more_keeps dev_keeps_dests [OF d] create_keeps [OF d, rule_format]
    split: if_splits)

lemma open_fd_inv:
  assumes inv: "files_inv oth s" and t: "open_fd ip omode s = Inr (r, t)"
  shows "files_inv oth t"
proof (cases "filealloc s")
  case fa: (Pair fo s1)
  show ?thesis
  proof (cases fo)
    case None
    then have "s1 = s" using fa by (auto simp: filealloc_def split: option.splits)
    then obtain s4 where o: "vop_iunlockput ip s = Inr s4" "end_op s4 = Inr t"
      using t fa None by (auto simp: open_fd_def rbind_eq_Inr)
    then show ?thesis
      using vop_iunlockput_keeps [OF o(1)] end_op_keeps [OF o(2)] by (intro files_inv_more [OF inv]) argo
  next
    case (Some f)
    note a = filealloc_ok [OF inv [unfolded files_inv_def, THEN conjunct1] fa [unfolded Some]]
    show ?thesis
    proof (cases "fdalloc f s1")
      case fd: (Pair fdo s2)
      show ?thesis
      proof (cases fdo)
        case None
        then have "s2 = s1" using fd by (auto simp: fdalloc_def split: option.splits)
        then obtain s3 s4 where o: "fileclose f s1 = Inr s3" "vop_iunlockput ip s3 = Inr s4" "end_op s4 = Inr t"
          using t fa Some fd None by (auto simp: open_fd_def rbind_eq_Inr)
        have "files_typed s3"
          using fileclose_typed [OF a(1) o(1)] inv a(4) by (auto simp: files_inv_def files_typed_def)
        then have "files_inv oth s3" using fileclose_ok(1) [OF a(1) o(1)] by (simp add: files_inv_def)
        then show ?thesis
          using vop_iunlockput_keeps [OF o(2)] end_op_keeps [OF o(3)] by (elim files_inv_more) argo
      next
        case fdn: (Some n)
        note b = fdalloc_ok [OF a(1) fd [unfolded fdn]]
        obtain s3 s4 where o: "vop_iunlock ip s2 = Inr s3" "end_op s3 = Inr s4"
          and t': "t = set_file f (\<lambda>x. x\<lparr>f_type := FD_INODE, f_ip := ip, f_off := 0,
              f_readable := omode AND O_WRONLY = 0,
              f_writable := omode AND O_WRONLY \<noteq> 0 \<or> omode AND O_RDWR \<noteq> 0\<rparr>) s4"
          using t fa Some fd fdn by (auto simp: open_fd_def rbind_eq_Inr)
        have "fsys.more s4 = fsys.more s2" using vop_iunlock_keeps [OF o(1)] end_op_keeps [OF o(2)] by argo
        note m = ksys_more(1,2) [OF this]
        have "files_ok oth s4" using b(1) m files_ok_cong by blast
        then have "files_ok oth t" unfolding t' by (rule files_ok_retype) (simp_all add: m a(4) b(5))
        moreover have "files_typed t"
          using inv m a(4) b(5) unfolding t' by (auto simp: files_inv_def files_typed_def)
        ultimately show ?thesis by (simp add: files_inv_def)
      qed
    qed
  qed
qed

lemma sys_open_inv:
  assumes d: "dev_keeps devsw" and inv: "files_inv oth s" and t: "sys_open devsw stk s = Inr (r, t)"
  shows "files_inv oth t"
proof (cases "arg_path 0 s = None \<or> argint 1 s = None")
  case False
  then obtain path omode where "arg_path 0 s = Some path" "argint 1 s = Some omode" by auto
  then obtain s1 ro s2 where o: "begin_op s = Inr s1" "open_inode devsw stk path omode s1 = Inr (ro, s2)"
    and e: "case ro of None \<Rightarrow> end_op s2 = Inr t | Some ip \<Rightarrow> open_fd ip omode s2 = Inr (r, t)"
    using t by (auto simp: sys_open_def rbind_eq_Inr split: option.splits)
  have "fsys.more s2 = fsys.more s"
    using open_inode_keeps [OF d, rule_format, OF o(2)] begin_op_keeps [OF o(1)] by simp
  then have i: "files_inv oth s2" by (rule files_inv_more [OF inv])
  show ?thesis
  proof (cases ro)
    case None
    then show ?thesis using files_inv_more [OF i end_op_keeps] e by simp
  next
    case (Some ip)
    then show ?thesis using open_fd_inv [OF i] e by simp
  qed
qed (use t inv in \<open>auto simp: sys_open_def split: option.splits\<close>)

lemma kalloc_files [simp]: "ftable (s\<lparr>km := m\<rparr>) = ftable s" "ofile (s\<lparr>km := m\<rparr>) = ofile s"
  by simp_all

lemma files_ok_km [simp]: "files_ok oth (s\<lparr>km := m\<rparr>) = files_ok oth s" "files_typed (s\<lparr>km := m\<rparr>) = files_typed s"
  "files_ok oth (set_pipe p x s) = files_ok oth s" "files_typed (set_pipe p x s) = files_typed s"
  by (simp_all add: files_ok_def files_typed_def fds_def)

text \<open>
  \<open>pipealloc\<close> returns two different files that nobody else refers to, or leaves the table as it was.
\<close>

lemma filealloc_None: "filealloc s = (None, t) \<Longrightarrow> t = s"
  by (auto simp: filealloc_def split: option.splits)

lemma fresh_close:
  assumes "files_ok (oth(f := oth f + 1)) s" and "fileclose f s = Inr t" and "f_type (ftable s f) = FD_NONE"
  shows "files_ok oth t" "ofile t = ofile s" "\<forall>g. g \<noteq> f \<longrightarrow> ftable t g = ftable s g"
    "km t = km s" "pipes t = pipes s" "f_type (ftable t f) = FD_NONE"
  using fileclose_ok [OF assms(1,2)] assms(2,3) by (auto simp: fileclose_def Let_def split: if_splits)

lemma same_filesI:
  assumes "files_ok oth s" and "files_ok oth t" and "ofile t = ofile s"
    and "\<forall>f. f_ref (ftable s f) \<noteq> 0 \<longrightarrow> f_type (ftable t f) = f_type (ftable s f)"
  shows "same_files s t"
proof -
  have r: "f_ref (ftable t f) = f_ref (ftable s f)" for f using assms(1-3) by (simp add: files_ok_def fds_def)
  then have "f_type (ftable t f) = f_type (ftable s f)" for f
    using assms(1,2,4) by (cases "f_ref (ftable s f) = 0") (simp_all add: files_ok_def)
  then show ?thesis using r assms(3) by (simp add: same_files_def)
qed

lemma filealloc_ofile: "filealloc s = (r, t) \<Longrightarrow> ofile t = ofile s"
  by (auto simp: filealloc_def split: option.splits)

lemma pipealloc_fail:
  assumes inv: "files_inv oth s" and t: "pipealloc s = Inr (None, t)"
  shows "same_files s t"
proof -
  note ok = inv [unfolded files_inv_def, THEN conjunct1]
  obtain f0 s1 where a0: "filealloc s = (f0, s1)" by fastforce
  show ?thesis
  proof (cases f0)
    case None
    then show ?thesis using t a0 filealloc_None [of s s1] by (auto simp: pipealloc_def same_files_def)
  next
    case (Some f)
    note a = filealloc_ok [OF ok a0 [unfolded Some]]
    obtain f1 s2 where a1: "filealloc s1 = (f1, s2)" by fastforce
    show ?thesis
    proof (cases f1)
      case None
      then have "s2 = s1" using a1 filealloc_None by blast
      then have c: "fileclose f s1 = Inr t"
        using t a0 a1 Some None by (auto simp: pipealloc_def rbind_eq_Inr)
      note k = fresh_close [of oth, OF a(1) c a(5)]
      show ?thesis
        by (rule same_filesI [OF ok k(1)]) (use k(2,3) a(3,4) filealloc_ofile [OF a0] in auto)
    next
      case g: (Some g)
      note b = filealloc_ok [of "oth(f := oth f + 1)", OF a(1) a1 [unfolded g]]
      have ne: "g \<noteq> f" using b(3) a(4) by auto
      let ?s3 = "s2\<lparr>km := snd (kalloc (km s2))\<rparr>"
      obtain s4 where c: "fileclose f ?s3 = Inr s4" "fileclose g s4 = Inr t"
        using t a0 a1 Some g by (auto simp: pipealloc_def rbind_eq_Inr Let_def split: prod.splits if_splits)
      have "files_ok ((oth(g := oth g + 1))(f := (oth(g := oth g + 1)) f + 1)) ?s3"
        using b(1) ne by (simp add: fun_upd_twist)
      note k = fresh_close [of "oth(g := oth g + 1)", OF this c(1)]
      have "f_type (ftable ?s3 f) = FD_NONE" using a(5) b(4) ne by simp
      note k = k [OF this]
      have "f_type (ftable s4 g) = FD_NONE" using k(3) ne b(5) by simp
      note l = fresh_close [of oth, OF k(1) c(2) this]
      show ?thesis
      proof (rule same_filesI [OF ok l(1)])
        show "ofile t = ofile s" using l(2) k(2) filealloc_ofile [OF a0] filealloc_ofile [OF a1] by simp
        show "\<forall>h. f_ref (ftable s h) \<noteq> 0 \<longrightarrow> f_type (ftable t h) = f_type (ftable s h)"
        proof (intro allI impI)
          fix h
          assume h: "f_ref (ftable s h) \<noteq> 0"
          then have "h \<noteq> f" "h \<noteq> g" using a(3,4) b(3) ne by (auto split: if_splits)
          then have "ftable t h = ftable s h" using l(3) k(3) a(4) b(4) by simp
          then show "f_type (ftable t h) = f_type (ftable s h)" by simp
        qed
      qed
    qed
  qed
qed

lemma pipealloc_ok:
  assumes inv: "files_inv oth s" and t: "pipealloc s = Inr (Some (f, g), t)"
  shows "f \<noteq> g" "files_ok ((oth(g := oth g + 1))(f := oth f + 1)) t" "files_typed t" "ofile t = ofile s"
proof -
  note ok = inv [unfolded files_inv_def, THEN conjunct1]
  obtain f0 s1 where a0: "filealloc s = (f0, s1)" by fastforce
  obtain f1 s2 where a1: "filealloc s1 = (f1, s2)" by fastforce
  obtain p m where k: "kalloc (km s2) = (p, m)" by fastforce
  have ne: "f0 = Some f" "f1 = Some g" "p \<noteq> 0"
    using t a0 a1 k by (auto simp: pipealloc_def rbind_eq_Inr Let_def split: prod.splits if_splits)
  note a = filealloc_ok [OF ok a0 [unfolded ne]]
  note b = filealloc_ok [of "oth(f := oth f + 1)", OF a(1) a1 [unfolded ne]]
  show fg: "f \<noteq> g" using b(3) a(4) by auto
  let ?s4 = "set_pipe p (pipe_init (\<lambda>i. k_mem m (p + 52 + i))) (s2\<lparr>km := m\<rparr>)"
  let ?u0 = "\<lambda>x. x\<lparr>f_type := FD_PIPE, f_readable := True, f_writable := False, f_pipe := p\<rparr>"
  let ?u1 = "\<lambda>x. x\<lparr>f_type := FD_PIPE, f_readable := False, f_writable := True, f_pipe := p\<rparr>"
  have t': "t = set_file g ?u1 (set_file f ?u0 ?s4)"
    using t a0 a1 k ne by (simp add: pipealloc_def Let_def)
  have "files_ok ((oth(g := oth g + 1))(f := oth f + 1)) ?s4" using b(1) fg by (simp add: fun_upd_twist)
  then show "files_ok ((oth(g := oth g + 1))(f := oth f + 1)) t"
    unfolding t' by (intro files_ok_retype) (use a(4) b(4) fg in simp_all)
  show "ofile t = ofile s" unfolding t' using filealloc_ofile [OF a0] filealloc_ofile [OF a1] by simp
  show "files_typed t" unfolding files_typed_def
  proof (intro allI impI)
    fix h
    assume h: "f_ref (ftable t h) \<noteq> 0"
    show "f_type (ftable t h) \<noteq> FD_NONE"
    proof (cases "h = f \<or> h = g")
      case False
      then have "ftable t h = ftable s h" unfolding t' using a(4) b(4) by simp
      then show ?thesis using h inv by (simp add: files_inv_def files_typed_def)
    qed (unfold t', auto)
  qed
qed

lemma close_both:
  assumes "files_ok ((oth(g := oth g + 1))(f := oth f + 1)) s" and "f \<noteq> g" and "files_typed s"
    and "fileclose f s = Inr s1" and "fileclose g s1 = Inr t"
  shows "files_inv oth t"
proof -
  have ok: "files_ok ((oth(g := oth g + 1))(f := (oth(g := oth g + 1)) f + 1)) s" using assms(1,2) by simp
  note a = fileclose_ok [of "oth(g := oth g + 1)", OF ok assms(4)]
  have "f_ref (ftable s f) \<noteq> 0" using drop_ref_ok(1) [of "oth(g := oth g + 1)", OF ok] by simp
  then have ty: "files_typed s1"
    using fileclose_typed [of "oth(g := oth g + 1)", OF ok assms(4)] assms(3) by (simp add: files_typed_def)
  note b = fileclose_ok [of oth, OF a(1) assms(5)]
  have "f_ref (ftable s1 g) \<noteq> 0" using drop_ref_ok(1) [of oth, OF a(1)] by simp
  then have "files_typed t"
    using fileclose_typed [of oth, OF a(1) assms(5)] ty by (simp add: files_typed_def)
  then show ?thesis using b(1) by (simp add: files_inv_def)
qed

lemma sys_pipe_inv:
  assumes inv: "files_inv oth s" and t: "sys_pipe s = Inr (r, t)"
  shows "files_inv oth t"
proof (cases "argptr 0 8 s")
  case (Some p)
  obtain q s1 where a: "pipealloc s = Inr (q, s1)" using t Some by (auto simp: sys_pipe_def rbind_eq_Inr)
  show ?thesis
  proof (cases q)
    case None
    then have "t = s1" using t Some a by (simp add: sys_pipe_def)
    then show ?thesis using files_inv_same [OF inv pipealloc_fail [OF inv]] a None by simp
  next
    case (Some fg)
    obtain f g where fg: "fg = (f, g)" by (cases fg)
    note k = pipealloc_ok [OF inv a [unfolded Some fg]]
    have ok: "files_ok ((oth(g := oth g + 1))(f := (oth(g := oth g + 1)) f + 1)) s1" using k(1,2) by simp
    obtain fd0 s2 where d0: "fdalloc f s1 = (fd0, s2)" by fastforce
    show ?thesis
    proof (cases fd0)
      case None
      then have "s2 = s1" using d0 by (auto simp: fdalloc_def split: option.splits)
      then obtain s5 where "fileclose f s1 = Inr s5" "fileclose g s5 = Inr t"
        using t \<open>argptr 0 8 s = Some p\<close> a Some fg d0 None by (auto simp: sys_pipe_def rbind_eq_Inr)
      then show ?thesis by (rule close_both [OF k(2,1,3)])
    next
      case n: (Some n)
      note d = fdalloc_ok [of "oth(g := oth g + 1)", OF ok d0 [unfolded n]]
      obtain fd1 s3 where d1: "fdalloc g s2 = (fd1, s3)" by fastforce
      show ?thesis
      proof (cases fd1)
        case None
        then have "s3 = s2" using d1 by (auto simp: fdalloc_def split: option.splits)
        let ?s4 = "s2\<lparr>ofile := (ofile s2)(n := None)\<rparr>"
        obtain s5 where c: "fileclose f ?s4 = Inr s5" "fileclose g s5 = Inr t"
          using t \<open>argptr 0 8 s = Some p\<close> a Some fg d0 n d1 None \<open>s3 = s2\<close>
          by (auto simp: sys_pipe_def rbind_eq_Inr)
        have "files_ok ((oth(g := oth g + 1))(f := oth f + 1)) ?s4"
          using close_fd_ok [OF d(1), of n f] d(2,4) k(1) by simp
        moreover have "files_typed ?s4" using k(3) d(5) by (simp add: files_typed_def)
        ultimately show ?thesis using close_both k(1) c by blast
      next
        case m: (Some m)
        note e = fdalloc_ok [of oth, OF d(1) d1 [unfolded m]]
        have "t = s3\<lparr>umem := put32 (put32 (umem s3) p n) (p + 4) m\<rparr>"
          using t \<open>argptr 0 8 s = Some p\<close> a Some fg d0 n d1 m by (simp add: sys_pipe_def)
        moreover have "files_inv oth s3"
          using e(1) k(3) d(5) e(5) by (simp add: files_inv_def files_typed_def)
        ultimately show ?thesis using files_inv_same [of oth s3 t] by simp
      qed
    qed
  qed
qed (use t inv in \<open>simp add: sys_pipe_def\<close>)

section \<open>Runs\<close>

text \<open>
  The steps of a process as the kernel sees them: user code that changes its memory and its stack
  pointer, and the file system calls with whatever the stack then holds.
\<close>

inductive sys_step :: "'z ksys_scheme devsw \<Rightarrow> 'z ksys_scheme \<Rightarrow> 'z ksys_scheme \<Rightarrow> bool" for devsw where
  user: "sys_step devsw s (s\<lparr>umem := m, uesp := e\<rparr>)"
| dups: "sys_dup s = Inr (r, t) \<Longrightarrow> sys_step devsw s t"
| reads: "sys_read devsw s = Inr (r, t) \<Longrightarrow> sys_step devsw s t"
| writes: "sys_write devsw s = Inr (r, t) \<Longrightarrow> sys_step devsw s t"
| closes: "sys_close s = Inr (r, t) \<Longrightarrow> sys_step devsw s t"
| fstats: "sys_fstat s = Inr (r, t) \<Longrightarrow> sys_step devsw s t"
| links: "sys_link devsw stk s = Inr (r, t) \<Longrightarrow> sys_step devsw s t"
| unlinks: "sys_unlink devsw stk s = Inr (r, t) \<Longrightarrow> sys_step devsw s t"
| opens: "sys_open devsw stk s = Inr (r, t) \<Longrightarrow> sys_step devsw s t"
| mkdirs: "sys_mkdir devsw stk s = Inr (r, t) \<Longrightarrow> sys_step devsw s t"
| mknods: "sys_mknod devsw stk s = Inr (r, t) \<Longrightarrow> sys_step devsw s t"
| chdirs: "sys_chdir devsw s = Inr (r, t) \<Longrightarrow> sys_step devsw s t"
| pipes: "sys_pipe s = Inr (r, t) \<Longrightarrow> sys_step devsw s t"

lemma sys_read_same: "dev_keeps devsw \<Longrightarrow> sys_read devsw s = Inr (r, t) \<Longrightarrow> same_open s t"
  by (auto simp: sys_read_def rbind_eq_Inr dest!: fileread_same split: option.splits prod.splits)

lemma sys_write_same: "dev_keeps devsw \<Longrightarrow> sys_write devsw s = Inr (r, t) \<Longrightarrow> same_open s t"
  by (auto simp: sys_write_def dest!: filewrite_same split: option.splits prod.splits)

lemma sys_fstat_same: "sys_fstat s = Inr (r, t) \<Longrightarrow> same_open s t"
  by (auto simp: sys_fstat_def rbind_eq_Inr dest!: filestat_same split: option.splits prod.splits)

lemma sys_step_inv:
  assumes "sys_step devsw s t" and d: "dev_keeps devsw" and inv: "files_inv oth s"
  shows "files_inv oth t"
proof -
  note keeps = sys_link_keeps [OF d] sys_unlink_keeps [OF d] sys_mkdir_keeps [OF d] sys_mknod_keeps [OF d]
    sys_chdir_keeps [OF d]
  note same = sys_read_same [OF d, THEN same_open_files] sys_write_same [OF d, THEN same_open_files] sys_fstat_same [THEN same_open_files]
  note invs = sys_dup_inv [OF inv] sys_close_inv [OF inv] sys_open_inv [OF d inv] sys_pipe_inv [OF inv]
  from assms(1) show ?thesis
  proof cases
    case (user m e)
    then show ?thesis using inv by (simp add: files_inv_def files_ok_def files_typed_def fds_def)
  qed (use same [THEN files_inv_same [OF inv]] invs keeps [rule_format, THEN files_inv_more [OF inv]] in force)+
qed

text \<open>
  C34: Reference counts of open files are exact. After any sequence of file system calls, successful
  or not, with any arguments, the count of every open file is the number of descriptors of the
  process that hold it plus the references held elsewhere; every open descriptor refers to a file
  in use that has a type, so that no call on it panics in \<open>filedup\<close>, \<open>fileclose\<close>, \<open>fileread\<close> or
  \<open>filewrite\<close>; and a file that nobody refers to is free.
\<close>

theorem file_references:
  assumes "(sys_step devsw)\<^sup>*\<^sup>* s t" and "dev_keeps devsw" and "files_inv oth s"
  shows "(\<forall>f. f_ref (ftable t f) = int (oth f + card {fd. fd < NOFILE \<and> ofile t fd = Some f})) \<and>
    (\<forall>fd f. fd < NOFILE \<and> ofile t fd = Some f \<longrightarrow> f_ref (ftable t f) \<ge> 1 \<and> f_type (ftable t f) \<noteq> FD_NONE) \<and>
    (\<forall>f. f_ref (ftable t f) = 0 \<longrightarrow> f_type (ftable t f) = FD_NONE)"
proof -
  have inv: "files_inv oth t"
    using assms(1) by (induction rule: rtranclp_induct) (use assms(2,3) sys_step_inv in blast)+
  then have "f_ref (ftable t f) \<ge> 1 \<and> f_type (ftable t f) \<noteq> FD_NONE" if "fd < NOFILE" "ofile t fd = Some f" for fd f
    using files_ok_held [of oth t fd f] that unfolding files_inv_def files_typed_def by fastforce
  then show ?thesis using inv unfolding files_inv_def files_ok_def fds_def by blast
qed

text \<open>A process that calls \<open>pipe\<close>.\<close>

definition no_devsw :: "ksys devsw" where
  "no_devsw = \<lparr>dev_read = (\<lambda>_. None), dev_write = (\<lambda>_. None)\<rparr>"

definition demo_ksys :: ksys where
  "demo_ksys = boot_ksys 8192 8000 demo_stack demo_kmem"

lemma demo_ksys_inv: "files_inv (\<lambda>_. 0) demo_ksys" "dev_keeps no_devsw"
  by (simp_all add: files_inv_def files_ok_def files_typed_def fds_def demo_ksys_def boot_file_def
      dev_keeps_def no_devsw_def)

lemma demo_argptr: "argptr 0 8 demo_ksys = Some 4096"
  by (simp add: argptr_def argint_def fetchint_def demo_ksys_def uadd_def demo_stack_args pat32_def sint32_def)

lemma demo_pipe_call: "\<exists>t. sys_pipe demo_ksys = Inr (0, t) \<and> ofile t 0 = Some 0 \<and> ofile t 1 = Some 1"
proof -
  have u: "[0..<NFILE] = 0 # 1 # [2..<NFILE]" "[0..<NOFILE] = 0 # 1 # [2..<NOFILE]"
    by (simp_all add: NFILE_def NOFILE_def upt_conv_Cons)
  have "filealloc demo_ksys = (Some 0, set_file 0 (\<lambda>x. x\<lparr>f_ref := 1\<rparr>) demo_ksys)"
    by (simp add: filealloc_def u demo_ksys_def boot_file_def)
  moreover have "filealloc (set_file 0 (\<lambda>x. x\<lparr>f_ref := 1\<rparr>) demo_ksys) =
      (Some 1, set_file 1 (\<lambda>x. x\<lparr>f_ref := 1\<rparr>) (set_file 0 (\<lambda>x. x\<lparr>f_ref := 1\<rparr>) demo_ksys))"
    by (simp add: filealloc_def u demo_ksys_def boot_file_def)
  moreover have "kalloc (km demo_ksys) = (0x80400000, demo_kmem\<lparr>k_freelist := 0\<rparr>)"
    by (simp add: demo_ksys_def kalloc_def demo_kmem_def get32_def)
  ultimately have "\<exists>t. pipealloc demo_ksys = Inr (Some (0, 1), t) \<and> ofile t = (\<lambda>_. None)"
    by (simp add: pipealloc_def Let_def demo_ksys_def fun_eq_iff)
  then obtain t where "pipealloc demo_ksys = Inr (Some (0, 1), t)" "ofile t = (\<lambda>_. None)" by blast
  then show ?thesis by (simp add: sys_pipe_def demo_argptr fdalloc_def u)
qed

theorem file_references_witness:
  "\<exists>t. sys_pipe demo_ksys = Inr (0, t) \<and> ofile t 0 = Some 0 \<and> f_type (ftable t 0) \<noteq> FD_NONE \<and>
    (\<forall>f. f_ref (ftable t f) = int (card {fd. fd < NOFILE \<and> ofile t fd = Some f}))"
proof -
  obtain t where t: "sys_pipe demo_ksys = Inr (0, t)" "ofile t 0 = Some 0" using demo_pipe_call by blast
  have "(sys_step no_devsw)\<^sup>*\<^sup>* demo_ksys t" using sys_step.pipes [OF t(1)] by blast
  note r = file_references [OF this demo_ksys_inv(2,1)]
  have "0 < NOFILE" by (simp add: NOFILE_def)
  with r t have "f_type (ftable t 0) \<noteq> FD_NONE" by blast
  then show ?thesis using conjunct1 [OF r] t by (intro exI [of _ t]) simp
qed

end
