(* ===== verification/Proc_Files.thy ===== *)
theory Proc_Files
  imports Proc Proc_Mem Sysfile_Props
begin

text \<open>
  The files of all processes. The reference count of every open file is the number of descriptors in
  the process table that name it, every end of a pipe is one open file, and the page of a pipe
  has no other owner. \<open>fork\<close> adds descriptors and \<open>exit\<close> closes them one at a time; closing the last
  end of a pipe gives its page back.
\<close>

section \<open>Projections\<close>

lemma psys_more:
  fixes s t :: "'z psys_scheme"
  assumes "fsys.more t = fsys.more s"
  shows "ptable t = ptable s" "nextpid t = nextpid s" "initproc t = initproc s" "proc_of t = proc_of s" "kdata t = kdata s"
    "km t = km s" "kend t = kend s" "ftable t = ftable s" "pipes t = pipes s" "ofile t = ofile s"
  using assms by (cases s; cases t; simp)+

lemma set_file_psys [simp]:
  fixes s :: "'z psys_scheme"
  shows "ptable (set_file f g s) = ptable s" "nextpid (set_file f g s) = nextpid s" "initproc (set_file f g s) = initproc s"
    "proc_of (set_file f g s) = proc_of s" "kdata (set_file f g s) = kdata s"
    "ptable (set_pipe p x s) = ptable s" "nextpid (set_pipe p x s) = nextpid s" "initproc (set_pipe p x s) = initproc s"
    "proc_of (set_pipe p x s) = proc_of s" "kdata (set_pipe p x s) = kdata s"
    "ofile (set_proc q h s) = ofile s" "ofile (poke u s) = ofile s"
  by (simp_all add: set_file_def set_pipe_def set_proc_def poke_def)

section \<open>References\<close>

definition holders :: "'z psys_scheme \<Rightarrow> nat \<Rightarrow> (nat \<times> nat) set" where
  "holders s f = {(p, fd). p < NPROC \<and> fd < NOFILE \<and> p_ofile (ptable s p) fd = Some f}"

definition refs :: "'z psys_scheme \<Rightarrow> nat \<Rightarrow> nat" where
  "refs s f = card (holders s f)"

text \<open>The descriptors of the running process are those in the table, so the other field is unused.\<close>

definition refs_inv :: "'z psys_scheme \<Rightarrow> bool" where
  "refs_inv s \<longleftrightarrow> files_ok (refs s) s \<and> files_typed s \<and> ofile s = (\<lambda>_. None)"

lemma finite_holders [simp]: "finite (holders s f)"
  by (rule finite_subset [of _ "{..<NPROC} \<times> {..<NOFILE}"]) (auto simp: holders_def)

lemma refs_cong: "(\<And>p fd. p < NPROC \<Longrightarrow> fd < NOFILE \<Longrightarrow> p_ofile (ptable t p) fd = p_ofile (ptable s p) fd) \<Longrightarrow> refs t = refs s"
  by (auto simp: refs_def holders_def fun_eq_iff intro!: arg_cong [where f = card])

lemma refs_inv_cong:
  assumes "refs_inv s" and "ftable t = ftable s" and "ofile t = ofile s"
    and "\<And>p fd. p < NPROC \<Longrightarrow> fd < NOFILE \<Longrightarrow> p_ofile (ptable t p) fd = p_ofile (ptable s p) fd"
  shows "refs_inv t"
  using assms refs_cong [OF assms(4)] files_ok_cong [OF assms(2,3)] files_typed_cong [OF assms(2)]
  by (simp add: refs_inv_def)

lemma refs_add:
  assumes "p < NPROC" and "fd < NOFILE" and "p_ofile (ptable s p) fd = None"
    and t: "ptable t = (ptable s)(p := (ptable s p)\<lparr>p_ofile := (p_ofile (ptable s p))(fd := Some f)\<rparr>)"
  shows "refs t = (refs s)(f := refs s f + 1)"
proof
  fix g
  have "holders t f = insert (p, fd) (holders s f)" "(p, fd) \<notin> holders s f"
    using assms by (auto simp: holders_def split: if_splits)
  moreover have "holders t g = holders s g" if "g \<noteq> f" using assms that by (auto simp: holders_def split: if_splits)
  ultimately show "refs t g = ((refs s)(f := refs s f + 1)) g" by (simp add: refs_def)
qed

lemma refs_del:
  assumes "p < NPROC" and "fd < NOFILE" and "p_ofile (ptable s p) fd = Some f"
    and t: "ptable t = (ptable s)(p := (ptable s p)\<lparr>p_ofile := (p_ofile (ptable s p))(fd := None)\<rparr>)"
  shows "refs s = (refs t)(f := refs t f + 1)"
proof
  fix g
  have "holders s f = insert (p, fd) (holders t f)" "(p, fd) \<notin> holders t f"
    using assms by (auto simp: holders_def split: if_splits)
  moreover have "holders t g = holders s g" if "g \<noteq> f" using assms that by (auto simp: holders_def split: if_splits)
  ultimately show "refs s g = ((refs t)(f := refs t f + 1)) g" by (simp add: refs_def)
qed

lemma refs_held:
  assumes "refs_inv s" and "p < NPROC" and "fd < NOFILE" and "p_ofile (ptable s p) fd = Some f"
  shows "f_ref (ftable s f) \<ge> 1" "f_type (ftable s f) \<noteq> FD_NONE"
proof -
  have "(p, fd) \<in> holders s f" using assms by (simp add: holders_def)
  then have "refs s f > 0" unfolding refs_def by (auto simp: card_gt_0_iff)
  then show "f_ref (ftable s f) \<ge> 1" using assms(1) by (simp add: refs_inv_def files_ok_def)
  then show "f_type (ftable s f) \<noteq> FD_NONE" using assms(1) by (auto simp: refs_inv_def files_typed_def)
qed

text \<open>\<open>fork\<close> copies one descriptor.\<close>

lemma fork_file_ok:
  assumes inv: "refs_inv s" and p: "cur < NPROC" "np < NPROC" "i < NOFILE"
    and f: "p_ofile (ptable s cur) i = Some f" "p_ofile (ptable s np) i = None"
  obtains s1 where "filedup f s = Inr (f, s1)" "s1 = set_file f (\<lambda>x. x\<lparr>f_ref := f_ref x + 1\<rparr>) s"
    "refs_inv (set_proc np (\<lambda>x. x\<lparr>p_ofile := (p_ofile x)(i := Some f)\<rparr>) s1)"
proof -
  let ?s1 = "set_file f (\<lambda>x. x\<lparr>f_ref := f_ref x + 1\<rparr>) s"
  let ?t = "set_proc np (\<lambda>x. x\<lparr>p_ofile := (p_ofile x)(i := Some f)\<rparr>) ?s1"
  have dup: "filedup f s = Inr (f, ?s1)" using refs_held(1) [OF inv p(1,3) f(1)] by (simp add: filedup_def)
  have ok: "files_ok (refs s) s" "files_typed s" "ofile s = (\<lambda>_. None)" using inv by (simp_all add: refs_inv_def)
  have "refs ?t = (refs s)(f := refs s f + 1)" by (rule refs_add [OF p(2,3) f(2)]) simp
  moreover have "files_ok ((refs s)(f := refs s f + 1)) ?t = files_ok ((refs s)(f := refs s f + 1)) ?s1" "files_typed ?t = files_typed ?s1"
    by (rule files_ok_cong, simp_all, rule files_typed_cong, simp)
  ultimately have "refs_inv ?t" using filedup_ok(1,3) [OF ok(1) dup] ok(2,3) by (simp add: refs_inv_def)
  then show thesis by (rule that [OF dup refl])
qed

section \<open>Pipes and pages\<close>

definition used :: "'z psys_scheme \<Rightarrow> nat set" where
  "used s = {p. p < NPROC \<and> p_state (ptable s p) \<noteq> UNUSED}"

definition pipe_pages :: "'z psys_scheme \<Rightarrow> nat set" where
  "pipe_pages s = (\<lambda>f. f_pipe (ftable s f)) ` {f. f_type (ftable s f) = FD_PIPE}"

definition pages_inv :: "'z psys_scheme \<Rightarrow> nat list \<Rightarrow> nat set \<Rightarrow> bool" where
  "pages_inv s ps U \<longleftrightarrow> mem_ok (kend s) (km s) ps (used s) (\<lambda>p. p_pgdir (ptable s p)) (\<lambda>p. p_kstack (ptable s p))
     (\<lambda>p. p_sz (ptable s p)) (pipe_pages s) U"

lemma pages_inv_cong:
  assumes "pages_inv s ps U" and "kend t = kend s" and "km t = km s" and "pipe_pages t = pipe_pages s" and "used t = used s"
    and "\<And>p. p \<in> used s \<Longrightarrow> p_pgdir (ptable t p) = p_pgdir (ptable s p) \<and> p_kstack (ptable t p) = p_kstack (ptable s p) \<and>
      p_sz (ptable t p) = p_sz (ptable s p)"
  shows "pages_inv t ps U"
  unfolding pages_inv_def assms(2-5) by (rule mem_ok_eq [OF assms(1) [unfolded pages_inv_def] assms(6)])

text \<open>Each end of a pipe is one open file, and the pipe knows which of its ends are open.\<close>

definition pipe_end :: "'z psys_scheme \<Rightarrow> nat \<Rightarrow> nat \<Rightarrow> bool \<Rightarrow> bool" where
  "pipe_end s f x w \<longleftrightarrow> f_type (ftable s f) = FD_PIPE \<and> f_pipe (ftable s f) = x \<and> f_writable (ftable s f) = w"

definition pipes_inv :: "'z psys_scheme \<Rightarrow> bool" where
  "pipes_inv s \<longleftrightarrow> (\<forall>f g x w. pipe_end s f x w \<and> pipe_end s g x w \<longrightarrow> f = g) \<and>
     (\<forall>x \<in> pipe_pages s. (p_writeopen (pipes s x) \<longleftrightarrow> (\<exists>f. pipe_end s f x True)) \<and>
       (p_readopen (pipes s x) \<longleftrightarrow> (\<exists>f. pipe_end s f x False)))"

lemma pipe_pages_end: "x \<in> pipe_pages s \<longleftrightarrow> (\<exists>f w. pipe_end s f x w)"
  by (auto simp: pipe_pages_def pipe_end_def)

definition same_ends :: "'z psys_scheme \<Rightarrow> 'z psys_scheme \<Rightarrow> bool" where
  "same_ends s t \<longleftrightarrow> (\<forall>f. f_type (ftable t f) = f_type (ftable s f) \<and> f_pipe (ftable t f) = f_pipe (ftable s f) \<and>
     f_writable (ftable t f) = f_writable (ftable s f))"

lemma same_ends_D:
  assumes "same_ends s t"
  shows "pipe_pages t = pipe_pages s" "pipe_end t = pipe_end s"
  using assms by (auto simp: same_ends_def pipe_pages_def pipe_end_def fun_eq_iff)

lemma pipes_inv_cong: "pipes_inv s \<Longrightarrow> same_ends s t \<Longrightarrow> pipes t = pipes s \<Longrightarrow> pipes_inv t"
  using same_ends_D [of s t] by (simp add: pipes_inv_def)

text \<open>Parts of the state that file operations leave alone.\<close>

definition same_kernel :: "'z psys_scheme \<Rightarrow> 'z psys_scheme \<Rightarrow> bool" where
  "same_kernel s t \<longleftrightarrow> kend t = kend s \<and> kdata t = kdata s \<and> nextpid t = nextpid s \<and> initproc t = initproc s \<and> proc_of t = proc_of s"

lemma same_kernel_trans: "same_kernel s t \<Longrightarrow> same_kernel t u \<Longrightarrow> same_kernel s u"
  by (simp add: same_kernel_def)

section \<open>Closing\<close>

lemma fileclose_cases:
  fixes s :: "'z psys_scheme"
  assumes t: "fileclose f s = Inr t" and r: "f_ref (ftable s f) \<ge> 1"
  obtains (shared) "t = set_file f (\<lambda>x. x\<lparr>f_ref := f_ref x - 1\<rparr>) s" "f_ref (ftable s f) > 1"
  | (closed) "f_ref (ftable s f) = 1" "f_type (ftable s f) \<noteq> FD_PIPE" "ptable t = ptable s" "same_kernel s t" "km t = km s"
      "pipes t = pipes s" "ftable t = (ftable s)(f := (ftable s f)\<lparr>f_ref := 0, f_type := FD_NONE\<rparr>)"
  | (pipe) "f_ref (ftable s f) = 1" "f_type (ftable s f) = FD_PIPE"
      "pipeclose_at (f_pipe (ftable s f)) (f_writable (ftable s f)) (set_file f (\<lambda>x. x\<lparr>f_ref := 0, f_type := FD_NONE\<rparr>) s) = Inr t"
proof -
  let ?dec = "set_file f (\<lambda>x. x\<lparr>f_ref := f_ref x - 1\<rparr>) s"
  let ?clr = "set_file f (\<lambda>x. x\<lparr>f_ref := 0, f_type := FD_NONE\<rparr>) ?dec"
  have clr: "?clr = set_file f (\<lambda>x. x\<lparr>f_ref := 0, f_type := FD_NONE\<rparr>) s" by (simp add: set_file_def)
  show thesis
  proof (cases "f_ref (ftable s f) = 1")
    case False
    then show thesis using t r that(1) by (simp add: fileclose_def)
  next
    case True
    show thesis
    proof (cases "f_type (ftable s f)")
      case FD_NONE
      then have "t = ?clr" using t True by (simp add: fileclose_def)
      then show thesis using that(2) True FD_NONE by (simp add: same_kernel_def clr)
    next
      case FD_PIPE
      then have "pipeclose_at (f_pipe (ftable s f)) (f_writable (ftable s f)) ?clr = Inr t"
        using t True by (simp add: fileclose_def)
      then show thesis using that(3) True FD_PIPE by (simp add: clr)
    next
      case FD_INODE
      then obtain s3 s4 where
        o: "begin_op ?clr = Inr s3" "vop_iput (f_ip (ftable s f)) s3 = Inr s4" "end_op s4 = Inr t"
        using t True by (auto simp: fileclose_def rbind_eq_Inr)
      have "fsys.more t = fsys.more ?clr"
        using end_op_keeps [OF o(3)] vop_iput_keeps [OF o(2)] begin_op_keeps [OF o(1)] by argo
      note m = psys_more [OF this]
      show thesis using that(2) True FD_INODE m by (simp add: same_kernel_def clr)
    qed
  qed
qed

text \<open>One end of a pipe is closed.\<close>

lemma pipeclose_ok:
  fixes s :: "'z psys_scheme"
  assumes inv: "pipes_inv s" and pg: "pages_inv s ps U" and f: "pipe_end s f x w"
    and t: "pipeclose_at x w (set_file f (\<lambda>y. y\<lparr>f_ref := 0, f_type := FD_NONE\<rparr>) s) = Inr t"
  shows "pipes_inv t" "\<exists>qs. pages_inv t qs U" "ptable t = ptable s" "same_kernel s t"
proof -
  let ?c = "set_file f (\<lambda>y. y\<lparr>f_ref := 0, f_type := FD_NONE\<rparr>) s"
  have ends: "pipe_end ?c g = (if g = f then (\<lambda>_ _. False) else pipe_end s g)" for g by (auto simp: pipe_end_def fun_eq_iff)
  have one: "pipe_end s g x w \<longleftrightarrow> g = f" for g using inv f by (auto simp: pipes_inv_def)
  have x: "x \<in> pipe_pages s" using f by (auto simp: pipe_pages_end)
  have op: "p_writeopen (pipes s y) = (\<exists>g. pipe_end s g y True)" "p_readopen (pipes s y) = (\<exists>g. pipe_end s g y False)"
    if "y \<in> pipe_pages s" for y using inv that by (auto simp: pipes_inv_def)
  let ?p = "if w then (pipes s x)\<lparr>p_writeopen := False\<rparr> else (pipes s x)\<lparr>p_readopen := False\<rparr>"
  let ?s1 = "set_pipe x ?p ?c"
  have fin: "(\<not> p_readopen ?p \<and> \<not> p_writeopen ?p) = (\<not> (\<exists>g. pipe_end s g x (\<not> w)))" using op [OF x] by (cases w) auto
  have pp: "pipe_pages ?c = (if \<exists>g. pipe_end s g x (\<not> w) then pipe_pages s else pipe_pages s - {x})"
  proof (rule set_eqI)
    fix y
    have fx: "pipe_end s f y v \<Longrightarrow> y = x" for v using f by (simp add: pipe_end_def)
    have "y \<in> pipe_pages ?c \<longleftrightarrow> (\<exists>g v. g \<noteq> f \<and> pipe_end s g y v)" by (auto simp: pipe_pages_end ends)
    also have "\<dots> \<longleftrightarrow> (if y = x then \<exists>g. pipe_end s g x (\<not> w) else y \<in> pipe_pages s)"
    proof (cases "y = x")
      case True
      have "(\<exists>g v. g \<noteq> f \<and> pipe_end s g x v) \<longleftrightarrow> (\<exists>g. pipe_end s g x (\<not> w))"
        using one f by (metis pipe_end_def)
      then show ?thesis using True by simp
    next
      case False
      then have "g \<noteq> f" if "pipe_end s g y v" for g v using fx that by blast
      then show ?thesis using False by (auto simp: pipe_pages_end)
    qed
    finally show "y \<in> pipe_pages ?c \<longleftrightarrow> y \<in> (if \<exists>g. pipe_end s g x (\<not> w) then pipe_pages s else pipe_pages s - {x})"
      using x by auto
  qed
  have inv1: "pipes_inv ?s1"
  proof -
    have e1: "pipe_end ?s1 = pipe_end ?c" "pipe_pages ?s1 = pipe_pages ?c" by (auto simp: pipe_end_def pipe_pages_def fun_eq_iff)
    have u: "\<forall>g h y v. pipe_end ?c g y v \<and> pipe_end ?c h y v \<longrightarrow> g = h" using inv by (auto simp: pipes_inv_def ends)
    have "(p_writeopen (pipes ?s1 y) \<longleftrightarrow> (\<exists>g. pipe_end ?c g y True)) \<and> (p_readopen (pipes ?s1 y) \<longleftrightarrow> (\<exists>g. pipe_end ?c g y False))"
      if y: "y \<in> pipe_pages ?c" for y
    proof -
      have ys: "y \<in> pipe_pages s" using y pp by (auto split: if_splits)
      have of: "(\<exists>g. pipe_end ?c g y v) \<longleftrightarrow> (\<exists>g. pipe_end s g y v) \<and> \<not> (y = x \<and> v = w)" for v
      proof
        assume "\<exists>g. pipe_end ?c g y v"
        then obtain g where g: "g \<noteq> f" "pipe_end s g y v" by (auto simp: ends split: if_splits)
        then show "(\<exists>g. pipe_end s g y v) \<and> \<not> (y = x \<and> v = w)" using one [of g] by blast
      next
        assume a: "(\<exists>g. pipe_end s g y v) \<and> \<not> (y = x \<and> v = w)"
        then obtain g where g: "pipe_end s g y v" by auto
        have "g \<noteq> f" using a g f by (auto simp: pipe_end_def)
        then show "\<exists>g. pipe_end ?c g y v" using g by (auto simp: ends)
      qed
      show ?thesis using op [OF ys] of [of True] of [of False] by auto
    qed
    then show ?thesis using u unfolding pipes_inv_def e1 by blast
  qed
  have pg1: "mem_ok (kend s) (km s) ps (used s) (\<lambda>p. p_pgdir (ptable s p)) (\<lambda>p. p_kstack (ptable s p)) (\<lambda>p. p_sz (ptable s p)) (pipe_pages s) U"
    using pg by (simp add: pages_inv_def)
  have us: "used ?s1 = used s" by (simp add: used_def)
  have ps1: "pipe_pages ?s1 = pipe_pages ?c" by (simp add: pipe_pages_def)
  have "pipes_inv t \<and> (\<exists>qs. pages_inv t qs U) \<and> ptable t = ptable s \<and> same_kernel s t"
  proof (cases "\<exists>g. pipe_end s g x (\<not> w)")
    case True
    then have "t = ?s1" using t fin by (auto simp: pipeclose_at_def pipeclose_def split: if_splits)
    moreover have "pages_inv ?s1 ps U" by (rule pages_inv_cong [OF pg]) (simp_all add: us ps1 pp True)
    ultimately show ?thesis using inv1 by (auto simp: same_kernel_def)
  next
    case False
    note dr = mem_drop_pipe [OF pg1 x]
    obtain m' where m': "kfree (kend s) x (km s) = Inr m'" "mem_ok (kend s) m' (x # ps) (used s) (\<lambda>p. p_pgdir (ptable s p))
      (\<lambda>p. p_kstack (ptable s p)) (\<lambda>p. p_sz (ptable s p)) (pipe_pages s - {x}) (insert x (U - {x}))"
      by (rule mem_kfree [OF dr]) auto
    have "x \<in> U" using pg1 x by (auto simp: mem_ok_def)
    then have U: "insert x (U - {x}) = U" by auto
    have t': "t = ?s1\<lparr>km := m'\<rparr>" using t fin False m'(1) by (auto simp: pipeclose_at_def pipeclose_def split: if_splits)
    have "pages_inv t (x # ps) U" using m'(2) us ps1 pp False unfolding U pages_inv_def t' by (simp add: used_def pipe_pages_def)
    moreover have "pipes_inv t" by (rule pipes_inv_cong [OF inv1]) (simp_all add: t' same_ends_def)
    ultimately show ?thesis by (auto simp: t' same_kernel_def)
  qed
  then show "pipes_inv t" "\<exists>qs. pages_inv t qs U" "ptable t = ptable s" "same_kernel s t" by blast+
qed

lemma fileclose_keeps:
  fixes s :: "'z psys_scheme"
  assumes inv: "pipes_inv s" and pg: "pages_inv s ps U" and c: "fileclose f s = Inr s1" and r: "f_ref (ftable s f) \<ge> 1"
  shows "pipes_inv s1 \<and> (\<exists>qs. pages_inv s1 qs U) \<and> ptable s1 = ptable s \<and> same_kernel s s1"
proof (cases rule: fileclose_cases [OF c r, case_names shared closed pipe])
  case shared
  have e: "same_ends s s1" by (simp add: shared(1) same_ends_def)
  have u: "used s1 = used s" by (simp add: used_def shared(1))
  have "pages_inv s1 ps U" by (rule pages_inv_cong [OF pg _ _ same_ends_D(1) [OF e] u]) (simp_all add: shared(1))
  moreover have "pipes_inv s1" by (rule pipes_inv_cong [OF inv e]) (simp add: shared(1))
  ultimately show ?thesis by (auto simp: shared(1) same_kernel_def)
next
  case closed
  have e: "pipe_end s1 = pipe_end s" "pipe_pages s1 = pipe_pages s"
    using closed(2) by (auto simp: pipe_end_def pipe_pages_def closed(7) fun_eq_iff split: if_splits)
  have u: "used s1 = used s" by (simp add: used_def closed(3))
  have k: "kend s1 = kend s" using closed(4) by (simp add: same_kernel_def)
  have "pages_inv s1 ps U" by (rule pages_inv_cong [OF pg k closed(5) e(2) u]) (simp add: closed(3))
  moreover have "pipes_inv s1" using inv by (simp add: pipes_inv_def e closed(6))
  ultimately show ?thesis using closed(3,4) by auto
next
  case pipe
  have "pipe_end s f (f_pipe (ftable s f)) (f_writable (ftable s f))" using pipe(2) by (simp add: pipe_end_def)
  from pipeclose_ok [OF inv pg this pipe(3)] show ?thesis by blast
qed

text \<open>\<open>exit\<close> closes one descriptor.\<close>

lemma exit_file_ok:
  fixes s :: "'z psys_scheme"
  assumes inv: "refs_inv s" "pipes_inv s" "pages_inv s ps U" and p: "cur < NPROC" "fd < NOFILE"
    and f: "p_ofile (ptable s cur) fd = Some f" and c: "fileclose f s = Inr s1"
    and t: "t = set_proc cur (\<lambda>x. x\<lparr>p_ofile := (p_ofile x)(fd := None)\<rparr>) s1"
  shows "refs_inv t" "pipes_inv t" "\<exists>qs. pages_inv t qs U" "same_kernel s t"
    "ptable t = (ptable s)(cur := (ptable s cur)\<lparr>p_ofile := (p_ofile (ptable s cur))(fd := None)\<rparr>)"
proof -
  have r: "f_ref (ftable s f) \<ge> 1" "f_type (ftable s f) \<noteq> FD_NONE" using refs_held [OF inv(1) p f] by auto
  obtain qs where s1: "pipes_inv s1" "pages_inv s1 qs U" "ptable s1 = ptable s" "same_kernel s s1"
    using fileclose_keeps [OF inv(2,3) c r(1)] by blast
  show pt: "ptable t = (ptable s)(cur := (ptable s cur)\<lparr>p_ofile := (p_ofile (ptable s cur))(fd := None)\<rparr>)" by (simp add: t s1(3))
  have e: "same_ends s1 t" by (simp add: t same_ends_def)
  have "used t = used s1" by (auto simp: t used_def)
  then have "pages_inv t qs U" by (intro pages_inv_cong [OF s1(2) _ _ same_ends_D(1) [OF e]]) (auto simp: t)
  then show "\<exists>qs. pages_inv t qs U" ..
  show "pipes_inv t" by (rule pipes_inv_cong [OF s1(1) e]) (simp add: t)
  show "same_kernel s t" using s1(4) by (simp add: t same_kernel_def)
  have "refs s = (refs t)(f := refs t f + 1)" by (rule refs_del [OF p f pt])
  then have ok: "files_ok ((refs t)(f := refs t f + 1)) s" and ty: "files_typed s" "ofile s = (\<lambda>_. None)"
    using inv(1) by (simp_all add: refs_inv_def)
  note fc = fileclose_ok [OF ok c]
  have "files_typed s1" by (rule fileclose_typed [OF ok c]) (use ty(1) r(2) in \<open>auto simp: files_typed_def\<close>)
  moreover have "files_ok (refs t) t = files_ok (refs t) s1" "files_typed t = files_typed s1"
    by (rule files_ok_cong, simp_all add: t, rule files_typed_cong, simp)
  ultimately show "refs_inv t" using fc(1,2) ty(2) by (simp add: refs_inv_def t)
qed

definition files_state :: "nat set \<Rightarrow> 'z psys_scheme \<Rightarrow> bool" where
  "files_state U s \<longleftrightarrow> refs_inv s \<and> pipes_inv s \<and> (\<exists>ps. pages_inv s ps U)"

lemma exit_files_ok:
  fixes s :: "'z psys_scheme"
  assumes inv: "files_state U s" and p: "cur < NPROC" and t: "exit_files cur s = Inr t"
  shows "files_state U t" "same_kernel s t" "\<exists>g. ptable t = (ptable s)(cur := (ptable s cur)\<lparr>p_ofile := g\<rparr>) \<and> (\<forall>fd < NOFILE. g fd = None)"
proof -
  let ?P = "\<lambda>t. files_state U t \<and> same_kernel s t \<and> (\<exists>g. ptable t = (ptable s)(cur := (ptable s cur)\<lparr>p_ofile := g\<rparr>))"
  let ?body = "\<lambda>fd s. case p_ofile (ptable s cur) fd of None \<Rightarrow> Inr s
    | Some f \<Rightarrow> rbind (fileclose f s) (\<lambda>s1. Inr (set_proc cur (\<lambda>x. x\<lparr>p_ofile := (p_ofile x)(fd := None)\<rparr>) s1))"
  have step: "?P t' \<and> p_ofile (ptable t' cur) fd = None \<and> (\<forall>k. p_ofile (ptable u cur) k = None \<longrightarrow> p_ofile (ptable t' cur) k = None)"
    if fd: "fd < NOFILE" and u: "?P u" and b: "?body fd u = Inr t'" for fd u t'
  proof (cases "p_ofile (ptable u cur) fd")
    case None
    then show ?thesis using u b by auto
  next
    case (Some f)
    then obtain s1 where s1: "fileclose f u = Inr s1" "t' = set_proc cur (\<lambda>x. x\<lparr>p_ofile := (p_ofile x)(fd := None)\<rparr>) s1"
      using b by (auto simp: rbind_eq_Inr)
    from u obtain qs where qs: "refs_inv u" "pipes_inv u" "pages_inv u qs U" by (auto simp: files_state_def)
    note e = exit_file_ok [OF qs p fd Some s1]
    show ?thesis using e u by (auto simp: files_state_def intro: same_kernel_trans)
  qed
  have run: "?P t \<and> (\<forall>fd < n. p_ofile (ptable t cur) fd = None)"
    if "rfor [0..<n] ?body s = Inr t" "n \<le> NOFILE" for n t
    using that
  proof (induction n arbitrary: t)
    case 0
    then have "t = s" by simp
    moreover have "ptable s = (ptable s)(cur := (ptable s cur)\<lparr>p_ofile := p_ofile (ptable s cur)\<rparr>)" by simp
    ultimately show ?case using inv by (auto simp only: same_kernel_def not_less_zero)
  next
    case (Suc n)
    then obtain u where u: "rfor [0..<n] ?body s = Inr u" "?body n u = Inr t" by (auto simp: rfor_append rbind_eq_Inr)
    have "n \<le> NOFILE" and n: "n < NOFILE" using Suc.prems(2) by simp_all
    from Suc.IH [OF u(1) this(1)] have Pu: "?P u" and z: "\<forall>fd < n. p_ofile (ptable u cur) fd = None" by blast+
    from step [OF n Pu u(2)] have st: "?P t" "p_ofile (ptable t cur) n = None"
      "\<forall>k. p_ofile (ptable u cur) k = None \<longrightarrow> p_ofile (ptable t cur) k = None" by blast+
    then have "\<forall>fd < Suc n. p_ofile (ptable t cur) fd = None" using z less_Suc_eq by metis
    then show ?case using st(1) by blast
  qed
  from run [OF t [unfolded exit_files_def]] have r: "?P t" "\<forall>fd < NOFILE. p_ofile (ptable t cur) fd = None" by blast+
  then show "files_state U t" "same_kernel s t" by blast+
  from r obtain g where "ptable t = (ptable s)(cur := (ptable s cur)\<lparr>p_ofile := g\<rparr>)" "\<forall>fd < NOFILE. g fd = None" by auto
  then show "\<exists>g. ptable t = (ptable s)(cur := (ptable s cur)\<lparr>p_ofile := g\<rparr>) \<and> (\<forall>fd < NOFILE. g fd = None)" by blast
qed

text \<open>\<open>fork\<close> copies all descriptors, to a process that has none.\<close>

lemma fork_files_ok:
  fixes s :: "'z psys_scheme"
  assumes inv: "refs_inv s" and p: "cur < NPROC" "np < NPROC" "cur \<noteq> np" and none: "\<forall>fd < NOFILE. p_ofile (ptable s np) fd = None"
  obtains t where "fork_files cur np s = Inr t" "refs_inv t" "same_ends s t" "same_kernel s t" "km t = km s" "pipes t = pipes s"
    "ptable t = (ptable s)(np := (ptable s np)\<lparr>p_ofile :=
       (\<lambda>fd. if fd < NOFILE then p_ofile (ptable s cur) fd else p_ofile (ptable s np) fd)\<rparr>)"
proof -
  let ?g = "\<lambda>i fd. if fd < i then p_ofile (ptable s cur) fd else p_ofile (ptable s np) fd"
  let ?P = "\<lambda>i t. refs_inv t \<and> same_ends s t \<and> same_kernel s t \<and> km t = km s \<and> pipes t = pipes s \<and>
    ptable t = (ptable s)(np := (ptable s np)\<lparr>p_ofile := ?g i\<rparr>)"
  have "\<exists>t. fork_files cur np s = Inr t \<and> ?P NOFILE t"
    unfolding fork_files_def
  proof (rule rfor_total)
    show "?P 0 s" using inv by (simp add: same_ends_def same_kernel_def)
    fix i t
    assume i: "i < NOFILE" and t: "?P i t"
    have tc: "ptable t cur = ptable s cur" and tn: "p_ofile (ptable t np) = ?g i" using t p(3) by auto
    show "\<exists>t'. (case p_ofile (ptable t cur) i of None \<Rightarrow> Inr t
        | Some f \<Rightarrow> rbind (filedup f t) (\<lambda>(g, s1). Inr (set_proc np (\<lambda>x. x\<lparr>p_ofile := (p_ofile x)(i := Some g)\<rparr>) s1))) = Inr t' \<and> ?P (Suc i) t'"
    proof (cases "p_ofile (ptable s cur) i")
      case None
      then have "?g (Suc i) = ?g i" using none i by (auto simp: fun_eq_iff less_Suc_eq)
      then show ?thesis using None t tc by simp
    next
      case (Some f)
      then have gS: "(?g i)(i := Some f) = ?g (Suc i)" by (auto simp: fun_eq_iff less_Suc_eq)
      have ft: "p_ofile (ptable t cur) i = Some f" "p_ofile (ptable t np) i = None" using Some tc tn none i by simp_all
      have rt: "refs_inv t" using t by simp
      obtain s1 where s1: "filedup f t = Inr (f, s1)" "s1 = set_file f (\<lambda>x. x\<lparr>f_ref := f_ref x + 1\<rparr>) t"
        "refs_inv (set_proc np (\<lambda>x. x\<lparr>p_ofile := (p_ofile x)(i := Some f)\<rparr>) s1)"
        by (rule fork_file_ok [OF rt p(1,2) i ft])
      let ?t = "set_proc np (\<lambda>x. x\<lparr>p_ofile := (p_ofile x)(i := Some f)\<rparr>) s1"
      have "ptable ?t = (ptable s)(np := (ptable s np)\<lparr>p_ofile := ?g (Suc i)\<rparr>)"
        unfolding gS [symmetric] using t by (simp add: s1(2))
      moreover have "same_ends s ?t" "same_kernel s ?t" "km ?t = km s" "pipes ?t = pipes s"
        using t by (simp_all add: s1(2) same_ends_def same_kernel_def)
      ultimately show ?thesis using s1(1,3) ft(1) by simp
    qed
  qed
  then show thesis using that by blast
qed

end
