(* ===== verification/Proc_Locks.thy ===== *)
theory Proc_Locks
  imports Proc
begin

text \<open>
  The locks under the operations of \<open>src/proc.c\<close> that switch to the scheduler. \<open>sched\<close> lets a process pass
  exactly when its CPU holds \<open>ptable.lock\<close> and nothing else; the lemmas show which calls get there, and
  that the code after the switch can release the lock again.
\<close>

section \<open>One CPU\<close>

lemma lock_eq: "k\<lparr>lk_locked := a, lk_cpu := b\<rparr> = \<lparr>lk_locked = a, lk_cpu = b\<rparr>" "k\<lparr>lk_cpu := b, lk_locked := a\<rparr> = \<lparr>lk_locked = a, lk_cpu = b\<rparr>"
  by (cases k, simp)+

lemma set_proc_kmach: "(set_proc p f s)\<lparr>kmach := m\<rparr> = set_proc p f (s\<lparr>kmach := m\<rparr>)"
  by (simp add: set_proc_def)

lemma acquire_free:
  assumes "cli_ok (cpus m c)" and "\<not> lk_locked (locks m l)"
  obtains m' where "acquire c l m = Inr m'" "locks m' = (locks m)(l := \<lparr>lk_locked = True, lk_cpu = Some c\<rparr>)"
    "c_ncli (cpus m' c) = c_ncli (cpus m c) + 1" "\<not> c_if (cpus m' c)"
    "c_intena (cpus m' c) = (if c_ncli (cpus m c) = 0 then c_if (cpus m c) else c_intena (cpus m c))"
  using assms by (auto simp: acquire_def acquire_enter_def holding_def popcli_def pushcli_cpu cli_ok_def Let_def acquire_xchg_def
    acquire_record_def lock_eq)

lemma acquire_D:
  assumes "acquire c l m = Inr m'"
  shows "\<not> lk_locked (locks m l)" "locks m' = (locks m)(l := \<lparr>lk_locked = True, lk_cpu = Some c\<rparr>)"
    "c_ncli (cpus m' c) = c_ncli (cpus m c) + 1" "\<not> c_if (cpus m' c)"
  using assms by (auto simp: acquire_def acquire_enter_def holding_def popcli_def pushcli_cpu Let_def acquire_xchg_def
    acquire_record_def lock_eq rbind_eq_Inr split: if_splits)

lemma release_held:
  assumes "\<not> c_if (cpus m c)" and "c_ncli (cpus m c) \<ge> 1" and "lk_locked (locks m l)" "lk_cpu (locks m l) = Some c"
  obtains m' where "release c l m = Inr m'" "locks m' = (locks m)(l := \<lparr>lk_locked = False, lk_cpu = None\<rparr>)"
    "c_ncli (cpus m' c) = c_ncli (cpus m c) - 1" "c_if (cpus m' c) \<longleftrightarrow> c_ncli (cpus m c) = 1 \<and> c_intena (cpus m c)"
  using assms by (cases "c_ncli (cpus m c) = 1 \<and> c_intena (cpus m c)")
    (auto simp: release_def release_begin_def release_end_def holding_def popcli_def pushcli_cpu Let_def lock_eq)

section \<open>At the switch\<close>

lemma kmach_self: "\<exists>m. s = s\<lparr>kmach := m\<rparr>"
  by (rule exI [of _ "kmach s"]) simp

text \<open>The CPU holds \<open>ptable.lock\<close> and no other lock, with interrupts off.\<close>

definition at_sched :: "nat \<Rightarrow> mach \<Rightarrow> bool" where
  "at_sched c m \<longleftrightarrow> \<not> c_if (cpus m c) \<and> c_ncli (cpus m c) = 1 \<and>
     lk_locked (locks m ptable_lock) \<and> lk_cpu (locks m ptable_lock) = Some c"

lemma acq_D: "acq c l s = Inr t \<Longrightarrow> \<exists>m. t = s\<lparr>kmach := m\<rparr>"
  by (auto simp: acq_def rbind_eq_Inr)

lemma rel_D: "rel c l s = Inr t \<Longrightarrow> \<exists>m. t = s\<lparr>kmach := m\<rparr>"
  by (auto simp: rel_def rbind_eq_Inr)

lemma sched_D:
  assumes "sched c p s = Inr t"
  shows "\<exists>m. t = s\<lparr>kmach := m\<rparr> \<and> at_sched c m"
  using assms by (auto simp: sched_def rbind_eq_Inr holding_def popcli_def pushcli_cpu at_sched_def Let_def split: if_splits)

lemma sched_passes:
  assumes "at_sched c (kmach s)" and "p_state (ptable s p) \<noteq> RUNNING"
  obtains m where "sched c p s = Inr (s\<lparr>kmach := m\<rparr>)" "at_sched c m" "c_intena (cpus m c) = c_intena (cpus (kmach s) c)"
  using assms by (auto simp: sched_def holding_def popcli_def pushcli_cpu at_sched_def Let_def)

lemma acq_ptable:
  assumes "c_ncli (cpus (kmach s) c) = 0" and "\<not> lk_locked (locks (kmach s) ptable_lock)"
  obtains m where "acq c ptable_lock s = Inr (s\<lparr>kmach := m\<rparr>)" "at_sched c m" "c_intena (cpus m c) = c_if (cpus (kmach s) c)"
proof -
  have "cli_ok (cpus (kmach s) c)" using assms(1) by (simp add: cli_ok_def)
  from acquire_free [OF this assms(2)] obtain m where "acquire c ptable_lock (kmach s) = Inr m"
    "locks m = (locks (kmach s))(ptable_lock := \<lparr>lk_locked = True, lk_cpu = Some c\<rparr>)"
    "c_ncli (cpus m c) = c_ncli (cpus (kmach s) c) + 1" "\<not> c_if (cpus m c)"
    "c_intena (cpus m c) = (if c_ncli (cpus (kmach s) c) = 0 then c_if (cpus (kmach s) c) else c_intena (cpus (kmach s) c))" .
  then show thesis using that [of m] assms(1) by (simp add: acq_def at_sched_def)
qed

lemma rel_ptable:
  assumes "at_sched c (kmach s)"
  obtains m where "rel c ptable_lock s = Inr (s\<lparr>kmach := m\<rparr>)" "c_ncli (cpus m c) = 0" "\<not> lk_locked (locks m ptable_lock)"
    "c_if (cpus m c) = c_intena (cpus (kmach s) c)"
proof -
  have "\<not> c_if (cpus (kmach s) c)" "c_ncli (cpus (kmach s) c) \<ge> 1" "lk_locked (locks (kmach s) ptable_lock)"
    "lk_cpu (locks (kmach s) ptable_lock) = Some c" using assms by (simp_all add: at_sched_def)
  from release_held [OF this] obtain m where "release c ptable_lock (kmach s) = Inr m"
    "locks m = (locks (kmach s))(ptable_lock := \<lparr>lk_locked = False, lk_cpu = None\<rparr>)"
    "c_ncli (cpus m c) = c_ncli (cpus (kmach s) c) - 1"
    "c_if (cpus m c) \<longleftrightarrow> c_ncli (cpus (kmach s) c) = 1 \<and> c_intena (cpus (kmach s) c)" .
  then show thesis using that [of m] assms by (simp add: rel_def at_sched_def)
qed

text \<open>A process that holds one lock sleeps on it: the lock is exchanged for \<open>ptable.lock\<close>.\<close>

lemma exchange_lock:
  assumes "\<not> c_if (cpus (kmach s) c)" "c_ncli (cpus (kmach s) c) = 1" "lk_locked (locks (kmach s) l)" "lk_cpu (locks (kmach s) l) = Some c"
    and "l \<noteq> ptable_lock" "\<not> lk_locked (locks (kmach s) ptable_lock)"
  obtains m where "rbind (acq c ptable_lock s) (rel c l) = Inr (s\<lparr>kmach := m\<rparr>)" "at_sched c m"
    "\<not> lk_locked (locks m l)"
proof -
  have "cli_ok (cpus (kmach s) c)" using assms(1,2) by (simp add: cli_ok_def)
  from acquire_free [OF this assms(6)] obtain m1 where a: "acquire c ptable_lock (kmach s) = Inr m1"
    "locks m1 = (locks (kmach s))(ptable_lock := \<lparr>lk_locked = True, lk_cpu = Some c\<rparr>)"
    "c_ncli (cpus m1 c) = c_ncli (cpus (kmach s) c) + 1" "\<not> c_if (cpus m1 c)" .
  have "c_ncli (cpus m1 c) \<ge> 1" "lk_locked (locks m1 l)" "lk_cpu (locks m1 l) = Some c" using a assms by simp_all
  from release_held [OF a(4) this] obtain m where "release c l m1 = Inr m" "locks m = (locks m1)(l := \<lparr>lk_locked = False, lk_cpu = None\<rparr>)"
    "c_ncli (cpus m c) = c_ncli (cpus m1 c) - 1" "c_if (cpus m c) \<longleftrightarrow> c_ncli (cpus m1 c) = 1 \<and> c_intena (cpus m1 c)" .
  then show thesis using that [of m] a assms by (simp add: acq_def rel_def at_sched_def)
qed

section \<open>The calls\<close>

lemma yield_D:
  assumes "yield c p s = Inr t"
  shows "\<exists>m. t = set_proc p (\<lambda>x. x\<lparr>p_state := RUNNABLE\<rparr>) (s\<lparr>kmach := m\<rparr>) \<and> at_sched c m"
proof -
  obtain s1 where s1: "acq c ptable_lock s = Inr s1" "sched c p (set_proc p (\<lambda>x. x\<lparr>p_state := RUNNABLE\<rparr>) s1) = Inr t"
    using assms by (auto simp: yield_def rbind_eq_Inr)
  show ?thesis using acq_D [OF s1(1)] sched_D [OF s1(2)] by (auto simp: set_proc_kmach)
qed

lemma sleep_begin_D:
  assumes "sleep_begin c chan lk p s = Inr t"
  shows "\<exists>q m. p = Some q \<and> t = set_proc q (\<lambda>x. x\<lparr>p_chan := chan, p_state := SLEEPING\<rparr>) (s\<lparr>kmach := m\<rparr>) \<and> at_sched c m"
proof -
  obtain q l s1 where s1: "p = Some q" "(if l \<noteq> ptable_lock then rbind (acq c ptable_lock s) (rel c l) else Inr s) = Inr s1"
    "sched c q (set_proc q (\<lambda>x. x\<lparr>p_chan := chan, p_state := SLEEPING\<rparr>) s1) = Inr t"
    using assms by (auto simp: sleep_begin_def rbind_eq_Inr split: option.splits simp del: if_split)
  have "\<exists>m. s1 = s\<lparr>kmach := m\<rparr>" using s1(2) kmach_self [of s] by (auto simp: rbind_eq_Inr split: if_splits dest!: acq_D rel_D)
  then show ?thesis using s1(1) sched_D [OF s1(3)] by (auto simp: set_proc_kmach)
qed

lemma yield_returns:
  assumes "c_ncli (cpus (kmach s) c) = 0" and "\<not> lk_locked (locks (kmach s) ptable_lock)"
  obtains t where "yield c p s = Inr t" "at_sched c (kmach t)" "c_intena (cpus (kmach t) c) = c_if (cpus (kmach s) c)"
proof -
  obtain m where m: "acq c ptable_lock s = Inr (s\<lparr>kmach := m\<rparr>)" "at_sched c m" "c_intena (cpus m c) = c_if (cpus (kmach s) c)"
    by (rule acq_ptable [OF assms])
  let ?s = "set_proc p (\<lambda>x. x\<lparr>p_state := RUNNABLE\<rparr>) (s\<lparr>kmach := m\<rparr>)"
  obtain m' where "sched c p ?s = Inr (?s\<lparr>kmach := m'\<rparr>)" "at_sched c m'" "c_intena (cpus m' c) = c_intena (cpus (kmach ?s) c)"
    by (rule sched_passes [of c ?s p]) (use m in simp_all)
  then show thesis using that m by (simp add: yield_def)
qed

lemma sleep_returns:
  assumes "acquire c l (kmach s) = Inr m" and "c_ncli (cpus (kmach s) c) = 0" and "\<not> lk_locked (locks (kmach s) ptable_lock)"
  obtains t where "sleep_begin c chan (Some l) (Some p) (s\<lparr>kmach := m\<rparr>) = Inr t" "at_sched c (kmach t)"
    "l \<noteq> ptable_lock \<longrightarrow> \<not> lk_locked (locks (kmach t) l)"
proof -
  note a = acquire_D [OF assms(1)]
  let ?s = "s\<lparr>kmach := m\<rparr>"
  obtain m1 where m1: "(if l \<noteq> ptable_lock then rbind (acq c ptable_lock ?s) (rel c l) else Inr ?s) = Inr (s\<lparr>kmach := m1\<rparr>)"
    "at_sched c m1" "l \<noteq> ptable_lock \<longrightarrow> \<not> lk_locked (locks m1 l)"
  proof (cases "l = ptable_lock")
    case True
    then show thesis using that [of m] a assms(2) by (simp add: at_sched_def)
  next
    case False
    obtain m2 where "rbind (acq c ptable_lock ?s) (rel c l) = Inr (?s\<lparr>kmach := m2\<rparr>)" "at_sched c m2" "\<not> lk_locked (locks m2 l)"
      by (rule exchange_lock [of ?s c l]) (use a assms False in simp_all)
    then show thesis using that [of m2] False by simp
  qed
  let ?u = "set_proc p (\<lambda>x. x\<lparr>p_chan := chan, p_state := SLEEPING\<rparr>) (s\<lparr>kmach := m1\<rparr>)"
  have "holding c ptable_lock m1 = Inr x \<Longrightarrow> locks (snd x) = locks m1" for x
    by (auto simp: holding_def popcli_def pushcli_cpu Let_def rbind_eq_Inr split: if_splits)
  then have "locks (kmach t) = locks m1" if "sched c p ?u = Inr t" for t
    using that by (auto simp: sched_def rbind_eq_Inr split: if_splits)
  moreover obtain m' where "sched c p ?u = Inr (?u\<lparr>kmach := m'\<rparr>)" "at_sched c m'"
    by (rule sched_passes [of c ?u p]) (use m1 in simp_all)
  ultimately show thesis using that [of "?u\<lparr>kmach := m'\<rparr>"] m1 by (simp add: sleep_begin_def)
qed

lemma yield_end_returns:
  assumes "at_sched c (kmach s)"
  shows "\<exists>m. yield_end c intena s = Inr (s\<lparr>kmach := m\<rparr>) \<and> c_ncli (cpus m c) = 0 \<and> c_if (cpus m c) = intena \<and>
    \<not> lk_locked (locks m ptable_lock)"
proof -
  have "at_sched c (kmach (sched_end c intena s))" using assms by (simp add: sched_end_def at_sched_def)
  from rel_ptable [OF this] obtain m where "rel c ptable_lock (sched_end c intena s) = Inr ((sched_end c intena s)\<lparr>kmach := m\<rparr>)"
    "c_ncli (cpus m c) = 0" "\<not> lk_locked (locks m ptable_lock)" "c_if (cpus m c) = c_intena (cpus (kmach (sched_end c intena s)) c)" .
  then show ?thesis by (intro exI [of _ m]) (simp add: yield_end_def sched_end_def)
qed

end
