(* ===== verification/Proc_Inv.thy ===== *)
theory Proc_Inv
  imports Proc_Files Proc_Locks
begin

text \<open>
  The invariant of the process table and of the memory behind it, and that every operation of
  \<open>src/proc.c\<close> keeps it. Processes have different identifiers, every process but the first has a
  parent that has not exited, a free slot holds nothing, a CPU runs the process it says it runs,
  and every page has one owner.
\<close>

section \<open>The invariant\<close>

definition pids_ok :: "'z psys_scheme \<Rightarrow> bool" where
  "pids_ok s \<longleftrightarrow> 0 < nextpid s \<and> (\<forall>p \<in> used s. 0 < p_pid (ptable s p) \<and> p_pid (ptable s p) < nextpid s) \<and>
     inj_on (\<lambda>p. p_pid (ptable s p)) (used s)"

definition tree_ok :: "'z psys_scheme \<Rightarrow> bool" where
  "tree_ok s \<longleftrightarrow> (\<exists>i \<in> used s. initproc s = Some i \<and> p_state (ptable s i) \<noteq> ZOMBIE \<and> p_parent (ptable s i) = None \<and>
     (\<forall>p \<in> used s - {i}. \<exists>q \<in> used s. p_parent (ptable s p) = Some q \<and> p_state (ptable s q) \<noteq> ZOMBIE))"

definition slots_ok :: "'z psys_scheme \<Rightarrow> bool" where
  "slots_ok s \<longleftrightarrow> (\<forall>p < NPROC.
     (p_state (ptable s p) = UNUSED \<longrightarrow> p_parent (ptable s p) = None) \<and>
     (p_state (ptable s p) \<in> {UNUSED, ZOMBIE} \<longrightarrow> (\<forall>fd < NOFILE. p_ofile (ptable s p) fd = None)) \<and>
     (p_state (ptable s p) \<notin> {UNUSED, ZOMBIE} \<longrightarrow> p_cwd (ptable s p) \<noteq> None) \<and>
     (p_state (ptable s p) \<noteq> UNUSED \<longrightarrow> p_tf (ptable s p) = p_kstack (ptable s p) + KSTACKSIZE - trapframe_bytes) \<and>
     p_state (ptable s p) \<noteq> EMBRYO)"

definition cpus_ok :: "'z psys_scheme \<Rightarrow> bool" where
  "cpus_ok s \<longleftrightarrow> (\<forall>c p. proc_of s c = Some p \<longrightarrow> p < NPROC \<and> p_state (ptable s p) = RUNNING) \<and>
     (\<forall>c c' p. proc_of s c = Some p \<and> proc_of s c' = Some p \<longrightarrow> c = c') \<and>
     (\<forall>p < NPROC. p_state (ptable s p) = RUNNING \<longrightarrow> (\<exists>c. proc_of s c = Some p))"

definition kernel_ok :: "nat set \<Rightarrow> 'z psys_scheme \<Rightarrow> bool" where
  "kernel_ok U s \<longleftrightarrow> kend s > KERNBASE \<and> kdata_ok (kdata s) \<and> pids_ok s \<and> tree_ok s \<and> slots_ok s \<and> cpus_ok s \<and> files_state U s"

section \<open>Changes of states\<close>

text \<open>The fields that scheduling does not touch.\<close>

definition same_proc :: "proc \<Rightarrow> proc \<Rightarrow> bool" where
  "same_proc x y \<longleftrightarrow> p_pid y = p_pid x \<and> p_parent y = p_parent x \<and> p_ofile y = p_ofile x \<and> p_cwd y = p_cwd x \<and>
     p_pgdir y = p_pgdir x \<and> p_kstack y = p_kstack x \<and> p_sz y = p_sz x \<and> p_tf y = p_tf x \<and>
     (p_state y = UNUSED \<longleftrightarrow> p_state x = UNUSED) \<and> (p_state y = ZOMBIE \<longleftrightarrow> p_state x = ZOMBIE) \<and>
     (p_state y = EMBRYO \<longleftrightarrow> p_state x = EMBRYO)"

lemma same_proc_refl [simp]: "same_proc x x"
  by (simp add: same_proc_def)

text \<open>Nothing but the states changes.\<close>

definition same_sys :: "'z psys_scheme \<Rightarrow> 'z psys_scheme \<Rightarrow> bool" where
  "same_sys s t \<longleftrightarrow> (\<forall>p. same_proc (ptable s p) (ptable t p)) \<and> kend t = kend s \<and> kdata t = kdata s \<and> nextpid t = nextpid s \<and>
     initproc t = initproc s \<and> km t = km s \<and> ftable t = ftable s \<and> pipes t = pipes s \<and> ofile t = ofile s"

lemma files_state_cong:
  fixes s t :: "'z psys_scheme"
  assumes inv: "files_state U s" and p: "\<forall>p. same_proc (ptable s p) (ptable t p)"
    and k: "kend t = kend s" "km t = km s" "ftable t = ftable s" "pipes t = pipes s" "ofile t = ofile s"
  shows "files_state U t"
proof -
  from inv obtain ps where ps: "refs_inv s" "pipes_inv s" "pages_inv s ps U" by (auto simp: files_state_def)
  have e: "same_ends s t" by (simp add: same_ends_def k)
  have "used t = used s" using p by (auto simp: used_def same_proc_def)
  then have "pages_inv t ps U" using p by (intro pages_inv_cong [OF ps(3) k(1,2) same_ends_D(1) [OF e]]) (auto simp: same_proc_def)
  moreover have "refs_inv t" by (rule refs_inv_cong [OF ps(1) k(3,5)]) (use p in \<open>auto simp: same_proc_def\<close>)
  ultimately show ?thesis using pipes_inv_cong [OF ps(2) e k(4)] by (auto simp: files_state_def)
qed

lemma kernel_states:
  assumes ok: "kernel_ok U s" and same: "same_sys s t" and c: "cpus_ok t"
  shows "kernel_ok U t"
proof -
  have p: "\<forall>p. same_proc (ptable s p) (ptable t p)" using same by (simp add: same_sys_def)
  have f: "p_pid (ptable t p) = p_pid (ptable s p)" "p_parent (ptable t p) = p_parent (ptable s p)"
    "p_ofile (ptable t p) = p_ofile (ptable s p)" "p_cwd (ptable t p) = p_cwd (ptable s p)"
    "(p_state (ptable t p) = UNUSED) = (p_state (ptable s p) = UNUSED)" "(p_state (ptable t p) = ZOMBIE) = (p_state (ptable s p) = ZOMBIE)"
    "(p_state (ptable t p) = EMBRYO) = (p_state (ptable s p) = EMBRYO)"
    "p_tf (ptable t p) = p_tf (ptable s p)" "p_kstack (ptable t p) = p_kstack (ptable s p)" for p
    using p by (auto simp: same_proc_def)
  have u: "used t = used s" by (simp add: used_def f)
  have g: "kend t = kend s" "kdata t = kdata s" "nextpid t = nextpid s" "initproc t = initproc s" using same by (simp_all add: same_sys_def)
  have "files_state U t" using ok same by (intro files_state_cong [OF _ p]) (simp_all add: kernel_ok_def same_sys_def)
  moreover have "pids_ok t" using ok by (simp add: kernel_ok_def pids_ok_def u f g)
  moreover have "tree_ok t" using ok by (simp add: kernel_ok_def tree_ok_def u f g)
  moreover have "slots_ok t" using ok by (simp add: kernel_ok_def slots_ok_def f)
  ultimately show ?thesis using ok c by (simp add: kernel_ok_def g)
qed

text \<open>The process that runs on a CPU.\<close>

lemma running_D:
  assumes "kernel_ok U s" and "proc_of s c = Some p"
  shows "p < NPROC" "p \<in> used s" "p_state (ptable s p) = RUNNING" "p_cwd (ptable s p) \<noteq> None"
proof -
  show p: "p < NPROC" "p_state (ptable s p) = RUNNING" using assms by (auto simp: kernel_ok_def cpus_ok_def)
  then show "p \<in> used s" "p_cwd (ptable s p) \<noteq> None" using assms(1) by (auto simp: used_def kernel_ok_def slots_ok_def)
qed

section \<open>Scheduling\<close>

lemma wakeup1_ok:
  assumes "kernel_ok U s"
  shows "kernel_ok U (wakeup1 chan s)"
proof (rule kernel_states [OF assms])
  show "same_sys s (wakeup1 chan s)" by (auto simp: same_sys_def wakeup1_def same_proc_def)
  have "cpus_ok s" using assms by (simp add: kernel_ok_def)
  then show "cpus_ok (wakeup1 chan s)" by (auto simp: cpus_ok_def wakeup1_def split: if_splits)
qed

lemma kill_ok:
  assumes ok: "kernel_ok U s" and t: "kill pid s = (r, t)"
  shows "kernel_ok U t"
proof (rule kernel_states [OF ok])
  show "same_sys s t" using t by (auto simp: kill_def same_sys_def same_proc_def split: option.splits if_splits)
  have "cpus_ok s" using ok by (simp add: kernel_ok_def)
  then show "cpus_ok t" using t by (auto simp: kill_def cpus_ok_def split: option.splits if_splits)
qed

text \<open>A running process gives up its CPU.\<close>

lemma leave_cpu:
  assumes ok: "kernel_ok U s" and c: "proc_of s c = Some p" and st: "st \<in> {SLEEPING, RUNNABLE}"
  shows "kernel_ok U (scheduler_back c (set_proc p (\<lambda>x. x\<lparr>p_chan := ch x, p_state := st\<rparr>) s))" (is "kernel_ok U ?t")
proof (rule kernel_states [OF ok])
  have "p_state (ptable s p) = RUNNING" using running_D [OF ok c] by simp
  then show "same_sys s ?t" using st by (auto simp: same_sys_def same_proc_def scheduler_back_def split: if_splits)
  have "cpus_ok s" using ok by (simp add: kernel_ok_def)
  then show "cpus_ok ?t" using c st by (auto simp: cpus_ok_def scheduler_back_def split: if_splits) (metis option.inject)+
qed

text \<open>The locks are not part of the invariant.\<close>

lemma kernel_mach [simp]: "kernel_ok U (s\<lparr>kmach := m\<rparr>) = kernel_ok U s"
proof -
  have "kernel_ok U (t\<lparr>kmach := k\<rparr>)" if "kernel_ok U t" for t :: "'a psys_scheme" and k
    by (rule kernel_states [OF that]) (use that in \<open>simp_all add: same_sys_def kernel_ok_def cpus_ok_def\<close>)
  from this [of s m] this [of "s\<lparr>kmach := m\<rparr>" "kmach s"] show ?thesis by auto
qed

lemma lock_steps_ok:
  assumes "kernel_ok U s"
  shows "acq c l s = Inr t \<Longrightarrow> kernel_ok U t" "rel c l s = Inr t \<Longrightarrow> kernel_ok U t"
  using assms by (auto dest!: acq_D rel_D)

lemma yield_ok:
  assumes "kernel_ok U s" and "proc_of s c = Some p" and "yield c p s = Inr t"
  shows "kernel_ok U (scheduler_back c t)"
proof -
  obtain m where t: "t = set_proc p (\<lambda>x. x\<lparr>p_state := RUNNABLE\<rparr>) (s\<lparr>kmach := m\<rparr>)" using yield_D [OF assms(3)] by blast
  show ?thesis using leave_cpu [of U "s\<lparr>kmach := m\<rparr>" c p RUNNABLE p_chan] assms(1,2) by (simp add: t)
qed

lemma sleep_ok:
  assumes "kernel_ok U s" and "proc_of s c = Some p" and "sleep_begin c chan lk (Some p) s = Inr t"
  shows "kernel_ok U (scheduler_back c t)"
proof -
  obtain m where t: "t = set_proc p (\<lambda>x. x\<lparr>p_chan := chan, p_state := SLEEPING\<rparr>) (s\<lparr>kmach := m\<rparr>)"
    using sleep_begin_D [OF assms(3)] by blast
  show ?thesis using leave_cpu [of U "s\<lparr>kmach := m\<rparr>" c p SLEEPING "\<lambda>_. chan"] assms(1,2) by (simp add: t)
qed

lemma resume_ok:
  assumes ok: "kernel_ok U s"
  shows "yield_end c intena s = Inr t \<Longrightarrow> kernel_ok U t" "sleep_end c intena l p s = Inr t \<Longrightarrow> kernel_ok U t"
proof -
  have e: "kernel_ok U (sched_end c intena s)" using ok by (simp add: sched_end_def)
  show "yield_end c intena s = Inr t \<Longrightarrow> kernel_ok U t" unfolding yield_end_def by (rule lock_steps_ok(2) [OF e])
  let ?u = "set_proc p (\<lambda>x. x\<lparr>p_chan := Null_chan\<rparr>) (sched_end c intena s)"
  have u: "kernel_ok U ?u"
  proof (rule kernel_states [OF e])
    show "same_sys (sched_end c intena s) ?u" by (simp add: same_sys_def same_proc_def)
    have "cpus_ok (sched_end c intena s)" using e by (simp add: kernel_ok_def)
    then show "cpus_ok ?u" by (auto simp: cpus_ok_def split: if_splits)
  qed
  assume "sleep_end c intena l p s = Inr t"
  then show "kernel_ok U t" using u lock_steps_ok(1) [OF lock_steps_ok(2) [OF u]]
    by (auto simp: sleep_end_def Let_def rbind_eq_Inr split: if_splits)
qed

lemma pages_used:
  assumes "kernel_ok U s" and "p \<in> used s"
  shows "p_kstack (ptable s p) \<noteq> 0" "p_pgdir (ptable s p) \<noteq> 0"
proof -
  obtain ps where "pages_inv s ps U" using assms(1) by (auto simp: kernel_ok_def files_state_def)
  note D = mem_ok_D(2,3) [OF this [unfolded pages_inv_def] assms(2)]
  show "p_kstack (ptable s p) \<noteq> 0" using D(2) by (simp add: page_ok_def)
  show "p_pgdir (ptable s p) \<noteq> 0" using pt_wf_D(1) [OF vm_own_wf [OF D(1)]] by (simp add: page_ok_def)
qed

lemma scheduler_picks:
  assumes ok: "kernel_ok U s" and c: "proc_of s c = None" and f: "find (\<lambda>p. p_state (ptable s p) = RUNNABLE) [i..<NPROC] = Some p"
    and t: "t = set_proc p (\<lambda>x. x\<lparr>p_state := RUNNING\<rparr>) (s\<lparr>proc_of := (proc_of s)(c := Some p)\<rparr>)"
  shows "scheduler_scan c i s = Inr (Some p, t)" "kernel_ok U t"
proof -
  have p: "p < NPROC" "p_state (ptable s p) = RUNNABLE" using f by (auto simp: find_Some_iff)
  then have u: "p \<in> used s" by (simp add: used_def)
  show "scheduler_scan c i s = Inr (Some p, t)" using f pages_used [OF ok u] by (simp add: scheduler_scan_def switchuvm_def t)
  show "kernel_ok U t"
  proof (rule kernel_states [OF ok])
    show "same_sys s t" using p by (auto simp: same_sys_def same_proc_def set_proc_def t split: if_splits)
    have "cpus_ok s" using ok by (simp add: kernel_ok_def)
    then show "cpus_ok t" using c p by (auto simp: cpus_ok_def set_proc_def t split: if_splits) force+
  qed
qed

lemma scheduler_ok:
  assumes "kernel_ok U s" and "proc_of s c = None" and "scheduler_scan c i s = Inr (r, t)"
  shows "kernel_ok U t"
proof (cases "find (\<lambda>p. p_state (ptable s p) = RUNNABLE) [i..<NPROC]")
  case None
  then show ?thesis using assms(3) lock_steps_ok(2) [OF assms(1)] by (auto simp: scheduler_scan_def rbind_eq_Inr)
next
  case (Some p)
  then show ?thesis using scheduler_picks [OF assms(1,2) Some refl] assms(3) by simp
qed

section \<open>Resizing\<close>

lemma kernel_resize:
  fixes s :: "'z psys_scheme"
  assumes ok: "kernel_ok U s" and p: "p \<in> used s"
    and m: "mem_ok (kend s) m' qs (used s) (\<lambda>p. p_pgdir (ptable s p)) (\<lambda>p. p_kstack (ptable s p))
      ((\<lambda>p. p_sz (ptable s p))(p := n)) (pipe_pages s) U"
    and t: "t = set_proc p (\<lambda>x. x\<lparr>p_sz := n\<rparr>) (s\<lparr>km := m'\<rparr>)"
  shows "kernel_ok U t"
proof -
  have pt: "ptable t = (ptable s)(p := (ptable s p)\<lparr>p_sz := n\<rparr>)" by (simp add: t set_proc_def)
  have g: "kend t = kend s" "kdata t = kdata s" "nextpid t = nextpid s" "initproc t = initproc s" "proc_of t = proc_of s"
    "ftable t = ftable s" "pipes t = pipes s" "ofile t = ofile s" "km t = m'" by (simp_all add: t set_proc_def)
  have u: "used t = used s" by (auto simp: used_def pt)
  have e: "same_ends s t" by (simp add: same_ends_def g)
  have "mem_ok (kend t) (km t) qs (used t) (\<lambda>p. p_pgdir (ptable t p)) (\<lambda>p. p_kstack (ptable t p)) (\<lambda>p. p_sz (ptable t p)) (pipe_pages t) U"
    unfolding g u same_ends_D(1) [OF e] by (rule mem_ok_eq [OF m]) (auto simp: pt)
  then have "pages_inv t qs U" by (simp add: pages_inv_def)
  moreover have "refs_inv s" using ok by (simp add: kernel_ok_def files_state_def)
  then have "refs_inv t" by (rule refs_inv_cong [OF _ g(6,8)]) (simp add: pt)
  moreover have "pipes_inv t" using ok by (intro pipes_inv_cong [OF _ e]) (simp_all add: kernel_ok_def files_state_def g)
  ultimately have "files_state U t" by (auto simp: files_state_def)
  moreover have f: "p_pid (ptable t q) = p_pid (ptable s q)" "p_parent (ptable t q) = p_parent (ptable s q)"
    "p_ofile (ptable t q) = p_ofile (ptable s q)" "p_cwd (ptable t q) = p_cwd (ptable s q)" "p_tf (ptable t q) = p_tf (ptable s q)"
    "p_kstack (ptable t q) = p_kstack (ptable s q)" "p_state (ptable t q) = p_state (ptable s q)" for q by (simp_all add: pt)
  then have "pids_ok t = pids_ok s" "tree_ok t = tree_ok s" "slots_ok t = slots_ok s" "cpus_ok t = cpus_ok s"
    by (simp_all add: pids_ok_def tree_ok_def slots_ok_def cpus_ok_def u g)
  ultimately show ?thesis using ok by (simp add: kernel_ok_def g)
qed

lemma uadd_pat32:
  assumes "a < 2147483648" and "-2147483648 \<le> n" "n < 2147483648" and "0 \<le> int a + n"
  shows "uadd a (pat32 n) = nat (int a + n)"
proof -
  have "int (uadd a (pat32 n)) = (int a + n mod 4294967296) mod 4294967296" by (simp add: uadd_def pat32_def zmod_int)
  also have "\<dots> = (int a + n) mod 4294967296" by (simp add: mod_add_right_eq)
  also have "\<dots> = int a + n" using assms by simp
  finally show ?thesis by simp
qed

lemma uadd_pat32_wrap:
  assumes "a < 2147483648" and "-2147483648 \<le> n" and "int a + n < 0"
  shows "uadd a (pat32 n) \<ge> 2147483648"
proof -
  have "int (uadd a (pat32 n)) = (int a + n mod 4294967296) mod 4294967296" by (simp add: uadd_def pat32_def zmod_int)
  also have "\<dots> = (int a + n) mod 4294967296" by (simp add: mod_add_right_eq)
  also have "\<dots> = (int a + n + 4294967296) mod 4294967296" by simp
  also have "\<dots> = int a + n + 4294967296" using assms by (intro mod_pos_pos_trivial) simp_all
  finally show ?thesis using assms by linarith
qed

text \<open>The exception is a request that shrinks a process to nothing.\<close>

lemma growproc_ok:
  fixes s :: "'z psys_scheme"
  assumes ok: "kernel_ok U s" and c: "proc_of s c = Some p" and n: "-2147483648 \<le> n" "n < 2147483648"
    and nz: "n < 0 \<longrightarrow> int (p_sz (ptable s p)) + n \<noteq> 0"
  shows "\<exists>r t. growproc p n s = Inr (r, t) \<and> kernel_ok U t"
proof -
  have p: "p \<in> used s" by (rule running_D(2) [OF ok c])
  let ?sz = "p_sz (ptable s p)" and ?d = "p_pgdir (ptable s p)"
  obtain ps where ps: "mem_ok (kend s) (km s) ps (used s) (\<lambda>p. p_pgdir (ptable s p)) (\<lambda>p. p_kstack (ptable s p))
      (\<lambda>p. p_sz (ptable s p)) (pipe_pages s) U" using ok by (auto simp: kernel_ok_def files_state_def pages_inv_def)
  have k: "kend s > KERNBASE" using ok by (simp add: kernel_ok_def)
  have sz: "?sz < 2147483648" using mem_ok_D(6) [OF ps p] by (simp add: sz_ok_def KERNBASE_def)
  have sw: "switchuvm (Some p) t = Inr t" if "ptable t p = (ptable s p)\<lparr>p_sz := x\<rparr>" for t :: "'z psys_scheme" and x
    using pages_used [OF ok p] that by (simp add: switchuvm_def)
  have upd: "(\<lambda>p. p_sz (ptable s p))(p := ?sz) = (\<lambda>p. p_sz (ptable s p))" by auto
  have same: "set_proc p (\<lambda>x. x\<lparr>p_sz := ?sz\<rparr>) (s\<lparr>km := m\<rparr>) = s\<lparr>km := m\<rparr>" for m by (simp add: set_proc_def)
  consider (grow) "n > 0" | (shrink) "n < 0" "int ?sz + n > 0" | (wrap) "n < 0" "int ?sz + n < 0" | (none) "n = 0"
    using nz by linarith
  then show ?thesis
  proof cases
    case grow
    have un: "uadd ?sz (pat32 n) = ?sz + nat n" using uadd_pat32 [OF sz n] grow by simp
    obtain r m' qs where r: "allocuvm (kend s) ?d ?sz (?sz + nat n) (km s) = Inr (r, m')" "r = ?sz + nat n \<or> r = 0"
      "mem_ok (kend s) m' qs (used s) (\<lambda>p. p_pgdir (ptable s p)) (\<lambda>p. p_kstack (ptable s p))
        ((\<lambda>p. p_sz (ptable s p))(p := if r = 0 then ?sz else r)) (pipe_pages s) U"
      by (rule mem_grow [OF ps p k, of "?sz + nat n"]) simp_all
    let ?t = "set_proc p (\<lambda>x. x\<lparr>p_sz := if r = 0 then ?sz else r\<rparr>) (s\<lparr>km := m'\<rparr>)"
    have "kernel_ok U ?t" by (rule kernel_resize [OF ok p r(3) refl])
    moreover have "growproc p n s = Inr (if r = 0 then -1 else 0, ?t)"
      using grow r(1) same un sw [of ?t r] by (simp add: growproc_def Let_def set_proc_def)
    ultimately show ?thesis by blast
  next
    case shrink
    let ?n = "nat (int ?sz + n)"
    have un: "uadd ?sz (pat32 n) = ?n" using shrink n sz by (intro uadd_pat32) simp_all
    obtain m' qs where r: "deallocuvm (kend s) ?d ?sz ?n (km s) = Inr (?n, m')"
      "mem_ok (kend s) m' qs (used s) (\<lambda>p. p_pgdir (ptable s p)) (\<lambda>p. p_kstack (ptable s p))
        ((\<lambda>p. p_sz (ptable s p))(p := ?n)) (pipe_pages s) U"
      by (rule mem_shrink [OF ps p k, of ?n]) (use shrink in simp_all)
    let ?t = "set_proc p (\<lambda>x. x\<lparr>p_sz := ?n\<rparr>) (s\<lparr>km := m'\<rparr>)"
    have "kernel_ok U ?t" by (rule kernel_resize [OF ok p r(2) refl])
    moreover have "growproc p n s = Inr (0, ?t)"
      using shrink r(1) un sw [of ?t ?n] by (simp add: growproc_def Let_def set_proc_def)
    ultimately show ?thesis by blast
  next
    case wrap
    have "uadd ?sz (pat32 n) \<ge> ?sz" using uadd_pat32_wrap [OF sz n(1) wrap(2)] sz by simp
    then have "growproc p n s = Inr (if ?sz = 0 then -1 else 0, s)"
      using wrap same sw [of s ?sz] sz by (simp add: growproc_def Let_def set_proc_def deallocuvm_def)
    then show ?thesis using ok by blast
  next
    case none
    then have "growproc p n s = Inr (0, s)" using sw [of s ?sz] by (simp add: growproc_def Let_def set_proc_def)
    then show ?thesis using ok by blast
  qed
qed

section \<open>Reaping\<close>

lemma wait_reaps_ok:
  fixes s :: "'z psys_scheme"
  assumes ok: "kernel_ok U s" and q: "q < NPROC" "p_state (ptable s q) = ZOMBIE"
  obtains m1 m2 where "kfree (kend s) (p_kstack (ptable s q)) (km s) = Inr m1" "freevm (kend s) (p_pgdir (ptable s q)) m1 = Inr m2"
    "kernel_ok U (set_proc q (\<lambda>x. x\<lparr>p_kstack := 0, p_pid := 0, p_parent := None, p_name := (p_name x)(0 := 0),
       p_killed := False, p_state := UNUSED\<rparr>) (s\<lparr>km := m2\<rparr>))"
proof -
  have qu: "q \<in> used s" using q by (simp add: used_def)
  obtain ps where ps: "mem_ok (kend s) (km s) ps (used s) (\<lambda>p. p_pgdir (ptable s p)) (\<lambda>p. p_kstack (ptable s p))
      (\<lambda>p. p_sz (ptable s p)) (pipe_pages s) U" using ok by (auto simp: kernel_ok_def files_state_def pages_inv_def)
  have inv: "kend s > KERNBASE" "pids_ok s" "tree_ok s" "slots_ok s" "cpus_ok s" "refs_inv s" "pipes_inv s"
    using ok by (simp_all add: kernel_ok_def files_state_def)
  obtain m1 m2 qs where m: "kfree (kend s) (p_kstack (ptable s q)) (km s) = Inr m1" "freevm (kend s) (p_pgdir (ptable s q)) m1 = Inr m2"
    "mem_ok (kend s) m2 qs (used s - {q}) (\<lambda>p. p_pgdir (ptable s p)) (\<lambda>p. p_kstack (ptable s p)) (\<lambda>p. p_sz (ptable s p)) (pipe_pages s) U"
    by (rule mem_reap [OF ps qu inv(1)])
  let ?x = "(ptable s q)\<lparr>p_kstack := 0, p_pid := 0, p_parent := None, p_name := (p_name (ptable s q))(0 := 0),
    p_killed := False, p_state := UNUSED\<rparr>"
  let ?t = "set_proc q (\<lambda>x. x\<lparr>p_kstack := 0, p_pid := 0, p_parent := None, p_name := (p_name x)(0 := 0),
    p_killed := False, p_state := UNUSED\<rparr>) (s\<lparr>km := m2\<rparr>)"
  have pt: "ptable ?t = (ptable s)(q := ?x)" by (simp add: set_proc_def)
  have g: "kend ?t = kend s" "kdata ?t = kdata s" "nextpid ?t = nextpid s" "initproc ?t = initproc s" "proc_of ?t = proc_of s"
    "ftable ?t = ftable s" "pipes ?t = pipes s" "ofile ?t = ofile s" "km ?t = m2" by (simp_all add: set_proc_def)
  have u: "used ?t = used s - {q}" by (auto simp: used_def pt)
  have oth: "ptable ?t p = ptable s p" if "p \<noteq> q" for p using that by (simp add: pt)
  have e: "same_ends s ?t" by (simp add: same_ends_def g)
  have "mem_ok (kend ?t) (km ?t) qs (used ?t) (\<lambda>p. p_pgdir (ptable ?t p)) (\<lambda>p. p_kstack (ptable ?t p)) (\<lambda>p. p_sz (ptable ?t p)) (pipe_pages ?t) U"
    unfolding g u same_ends_D(1) [OF e] by (rule mem_ok_eq [OF m(3)]) (auto simp: oth)
  then have "pages_inv ?t qs U" by (simp add: pages_inv_def)
  moreover have "refs_inv ?t" by (rule refs_inv_cong [OF inv(6) g(6,8)]) (simp add: pt)
  moreover have "pipes_inv ?t" by (rule pipes_inv_cong [OF inv(7) e g(7)])
  ultimately have "files_state U ?t" by (auto simp: files_state_def)
  moreover have "pids_ok ?t"
    using inv(2) by (auto simp: pids_ok_def u g oth inj_on_def)
  moreover have "tree_ok ?t"
  proof -
    from inv(3) obtain i where i: "i \<in> used s" "initproc s = Some i" "p_state (ptable s i) \<noteq> ZOMBIE" "p_parent (ptable s i) = None"
      "\<forall>p \<in> used s - {i}. \<exists>r \<in> used s. p_parent (ptable s p) = Some r \<and> p_state (ptable s r) \<noteq> ZOMBIE"
      by (auto simp: tree_ok_def)
    then have iq: "i \<noteq> q" using q(2) by auto
    have "\<exists>r \<in> used s - {q}. p_parent (ptable ?t p) = Some r \<and> p_state (ptable ?t r) \<noteq> ZOMBIE" if "p \<in> used s - {q} - {i}" for p
    proof -
      from i(5) that obtain r where r: "r \<in> used s" "p_parent (ptable s p) = Some r" "p_state (ptable s r) \<noteq> ZOMBIE" by auto
      then have "r \<noteq> q" using q(2) by auto
      then show ?thesis using r that oth by (intro bexI [of _ r]) auto
    qed
    then show ?thesis unfolding tree_ok_def u g using i iq oth by (intro bexI [of _ i]) auto
  qed
  moreover have "slots_ok ?t"
    using inv(4) q by (auto simp: slots_ok_def pt)
  moreover have "cpus_ok ?t"
    using inv(5) q(2) by (auto simp: cpus_ok_def g pt split: if_splits)
  ultimately have "kernel_ok U ?t" using ok by (simp add: kernel_ok_def g)
  then show thesis by (rule that [OF m(1,2)])
qed

lemma wait_turn_ok:
  fixes s :: "'z psys_scheme"
  assumes ok: "kernel_ok U s" and c: "proc_of s c = Some p" and t: "wait_turn c p s = Inr (r, t)"
  shows "kernel_ok U (if r = None then scheduler_back c t else t)"
proof (cases "find (\<lambda>q. p_parent (ptable s q) = Some p \<and> p_state (ptable s q) = ZOMBIE) [0..<NPROC]")
  case None
  then show ?thesis using t sleep_ok [OF ok c] lock_steps_ok(2) [OF ok]
    by (auto simp: wait_turn_def rbind_eq_Inr split: if_splits)
next
  case (Some q)
  then have q: "q < NPROC" "p_state (ptable s q) = ZOMBIE" by (auto simp: find_upt_Some)
  obtain m1 m2 where m: "kfree (kend s) (p_kstack (ptable s q)) (km s) = Inr m1" "freevm (kend s) (p_pgdir (ptable s q)) m1 = Inr m2"
    "kernel_ok U (set_proc q (\<lambda>x. x\<lparr>p_kstack := 0, p_pid := 0, p_parent := None, p_name := (p_name x)(0 := 0),
       p_killed := False, p_state := UNUSED\<rparr>) (s\<lparr>km := m2\<rparr>))"
    by (rule wait_reaps_ok [OF ok q])
  then show ?thesis using Some t lock_steps_ok(2) [OF m(3)] by (auto simp: wait_turn_def rbind_eq_Inr Let_def)
qed

lemma wait_ok:
  assumes "kernel_ok U s" and "proc_of s c = Some p" and "wait c p s = Inr (r, t)"
  shows "kernel_ok U (if r = None then scheduler_back c t else t)"
proof -
  obtain m where "wait_turn c p (s\<lparr>kmach := m\<rparr>) = Inr (r, t)" using assms(3) by (auto simp: wait_def rbind_eq_Inr dest!: acq_D)
  then show ?thesis using wait_turn_ok [of U "s\<lparr>kmach := m\<rparr>" c p r t] assms(1,2) by simp
qed

section \<open>Exiting\<close>

text \<open>The loop over the children: parents change from \<open>cur\<close> to init, and init may be woken.\<close>

definition reparented :: "nat set \<Rightarrow> nat \<Rightarrow> nat \<Rightarrow> 'z psys_scheme \<Rightarrow> 'z psys_scheme \<Rightarrow> bool" where
  "reparented P cur i s t \<longleftrightarrow> (\<forall>p.
     ptable t p = (ptable s p)\<lparr>p_parent := (if p \<in> P \<and> p_parent (ptable s p) = Some cur then Some i else p_parent (ptable s p)),
       p_state := p_state (ptable t p)\<rparr> \<and>
     (p_state (ptable t p) = p_state (ptable s p) \<or> p_state (ptable s p) = SLEEPING \<and> p_state (ptable t p) = RUNNABLE)) \<and>
   kend t = kend s \<and> kdata t = kdata s \<and> nextpid t = nextpid s \<and> initproc t = initproc s \<and> proc_of t = proc_of s \<and> km t = km s \<and>
   ftable t = ftable s \<and> pipes t = pipes s \<and> ofile t = ofile s"

lemma reparent_one_ok:
  assumes "initproc s = Some i" and "i \<noteq> cur"
  shows "reparented {p} cur i s (reparent_one cur p s)"
  using assms by (auto simp: reparented_def reparent_one_def wakeup1_def Let_def)

lemma reparented_trans:
  assumes "reparented P cur i s t" and "reparented Q cur i t u" and "i \<noteq> cur"
  shows "reparented (P \<union> Q) cur i s u"
proof -
  have "ptable u p = (ptable s p)\<lparr>p_parent := (if p \<in> P \<union> Q \<and> p_parent (ptable s p) = Some cur then Some i else p_parent (ptable s p)),
       p_state := p_state (ptable u p)\<rparr> \<and>
     (p_state (ptable u p) = p_state (ptable s p) \<or> p_state (ptable s p) = SLEEPING \<and> p_state (ptable u p) = RUNNABLE)" for p
  proof -
    let ?x = "ptable s p" and ?y = "ptable t p" and ?z = "ptable u p"
    have t: "?y = ?x\<lparr>p_parent := (if p \<in> P \<and> p_parent ?x = Some cur then Some i else p_parent ?x), p_state := p_state ?y\<rparr>"
      "p_state ?y = p_state ?x \<or> p_state ?x = SLEEPING \<and> p_state ?y = RUNNABLE" using assms(1) by (auto simp: reparented_def)
    have u: "?z = ?y\<lparr>p_parent := (if p \<in> Q \<and> p_parent ?y = Some cur then Some i else p_parent ?y), p_state := p_state ?z\<rparr>"
      "p_state ?z = p_state ?y \<or> p_state ?y = SLEEPING \<and> p_state ?z = RUNNABLE" using assms(2) by (auto simp: reparented_def)
    have py: "p_parent ?y = (if p \<in> P \<and> p_parent ?x = Some cur then Some i else p_parent ?x)" by (subst t(1)) simp
    have "?z = ?x\<lparr>p_parent := (if p \<in> Q \<and> p_parent ?y = Some cur then Some i else p_parent ?y), p_state := p_state ?z\<rparr>"
      by (subst u(1), subst t(1)) simp
    moreover have "(if p \<in> Q \<and> p_parent ?y = Some cur then Some i else p_parent ?y) =
        (if p \<in> P \<union> Q \<and> p_parent ?x = Some cur then Some i else p_parent ?x)"
      unfolding py using assms(3) by auto
    ultimately show ?thesis using t(2) u(2) by auto
  qed
  then show ?thesis using assms(1,2) unfolding reparented_def by auto
qed

lemma reparent_ok:
  assumes "initproc s = Some i" and "i \<noteq> cur"
  shows "reparented (set ps) cur i s (fold (reparent_one cur) ps s)"
  using assms(1)
proof (induction ps arbitrary: s)
  case Nil
  then show ?case by (simp add: reparented_def)
next
  case (Cons p ps)
  note r = reparent_one_ok [OF Cons.prems assms(2), of p]
  then have "initproc (reparent_one cur p s) = Some i" using Cons.prems by (simp add: reparented_def)
  from reparented_trans [OF r Cons.IH [OF this] assms(2)] show ?case by simp
qed

text \<open>The table after \<open>exit\<close>.\<close>

lemma exit_state:
  fixes s :: "'z psys_scheme"
  assumes ok: "kernel_ok U s" and p: "p < NPROC" and i: "initproc s = Some i" and t: "exit c p s = Inr t"
  obtains s1 g where "i \<noteq> p" "files_state U s1" "same_kernel s s1" "same_kernel s t"
    "ptable s1 = (ptable s)(p := (ptable s p)\<lparr>p_ofile := g\<rparr>)" "\<forall>fd < NOFILE. g fd = None"
    "km t = km s1" "ftable t = ftable s1" "pipes t = pipes s1" "ofile t = ofile s1"
    "\<forall>q. ptable t q = (ptable s1 q)\<lparr>p_parent := (if q < NPROC \<and> p_parent (ptable s q) = Some p then Some i else p_parent (ptable s q)),
      p_cwd := (if q = p then None else p_cwd (ptable s q)), p_state := p_state (ptable t q)\<rparr>"
    "\<forall>q. q \<noteq> p \<longrightarrow> p_state (ptable t q) = p_state (ptable s q) \<or> p_state (ptable s q) = SLEEPING \<and> p_state (ptable t q) = RUNNABLE"
    "p_state (ptable t p) = ZOMBIE"
    "\<forall>q < NPROC. p_state (ptable t q) = SLEEPING \<longrightarrow> p_chan (ptable t q) \<noteq> parent_chan (p_parent (ptable s p))"
    "at_sched c (kmach t)"
proof -
  have ip: "i \<noteq> p" using t i by (auto simp: exit_def)
  let ?cut = "set_proc p (\<lambda>x. x\<lparr>p_cwd := None\<rparr>)"
  obtain s1 s2 s3 s4 s5' ip' where st: "exit_files p s = Inr s1" "begin_op s1 = Inr s2" "vop_iput ip' s2 = Inr s3" "end_op s3 = Inr s4"
    and a: "acq c ptable_lock (?cut s4) = Inr s5'"
    and t1: "sched c p (set_proc p (\<lambda>x. x\<lparr>p_state := ZOMBIE\<rparr>) (fold (reparent_one p) [0..<NPROC]
      (wakeup1 (parent_chan (p_parent (ptable s5' p))) s5'))) = Inr t"
    using t ip i by (auto simp: exit_def rbind_eq_Inr Let_def split: option.splits)
  obtain k where k: "s5' = (?cut s4)\<lparr>kmach := k\<rparr>" using acq_D [OF a] by blast
  have fs: "files_state U s" using ok by (simp add: kernel_ok_def)
  note e = exit_files_ok [OF fs p st(1)]
  obtain g where g: "ptable s1 = (ptable s)(p := (ptable s p)\<lparr>p_ofile := g\<rparr>)" "\<forall>fd < NOFILE. g fd = None" using e(3) by blast
  have "fsys.more s4 = fsys.more s1" using end_op_keeps [OF st(4)] vop_iput_keeps [OF st(3)] begin_op_keeps [OF st(2)] by argo
  note m = psys_more [OF this]
  define s5 where "s5 = (?cut s4)\<lparr>kmach := k\<rparr>"
  define s6 where "s6 = wakeup1 (parent_chan (p_parent (ptable s5 p))) s5"
  define s7 where "s7 = fold (reparent_one p) [0..<NPROC] s6"
  have i6: "initproc s6 = Some i" using i e(2) by (simp add: s6_def s5_def wakeup1_def m same_kernel_def)
  note r = reparent_ok [OF i6 ip, of "[0..<NPROC]", folded s7_def]
  obtain k' where t'': "t = (set_proc p (\<lambda>x. x\<lparr>p_state := ZOMBIE\<rparr>) s7)\<lparr>kmach := k'\<rparr>" "at_sched c k'"
    using sched_D [OF t1 [unfolded k, folded s5_def, folded s6_def, folded s7_def]] by blast
  then have t': "t = set_proc p (\<lambda>x. x\<lparr>p_state := ZOMBIE\<rparr>) (s7\<lparr>kmach := k'\<rparr>)" by (simp add: set_proc_kmach)
  have p5: "ptable s5 q = (ptable s1 q)\<lparr>p_cwd := (if q = p then None else p_cwd (ptable s q))\<rparr>" for q by (simp add: s5_def m g)
  have p6: "ptable s6 q = (ptable s5 q)\<lparr>p_state := p_state (ptable s6 q)\<rparr>"
    "p_state (ptable s6 q) = p_state (ptable s q) \<or> p_state (ptable s q) = SLEEPING \<and> p_state (ptable s6 q) = RUNNABLE" for q
    by (auto simp: s6_def wakeup1_def p5 g(1))
  have p7: "ptable s7 q = (ptable s6 q)\<lparr>p_parent := (if q < NPROC \<and> p_parent (ptable s6 q) = Some p then Some i else p_parent (ptable s6 q)),
      p_state := p_state (ptable s7 q)\<rparr>"
    "p_state (ptable s7 q) = p_state (ptable s6 q) \<or> p_state (ptable s6 q) = SLEEPING \<and> p_state (ptable s7 q) = RUNNABLE" for q
    using r unfolding reparented_def by auto
  have par: "p_parent (ptable s6 q) = p_parent (ptable s q)" for q by (subst p6(1)) (simp add: p5 g(1))
  have tq: "ptable t q = (ptable s1 q)\<lparr>p_parent := (if q < NPROC \<and> p_parent (ptable s q) = Some p then Some i else p_parent (ptable s q)),
      p_cwd := (if q = p then None else p_cwd (ptable s q)), p_state := p_state (ptable t q)\<rparr>" for q
  proof -
    have E: "ptable s7 q = (ptable s1 q)\<lparr>p_parent := (if q < NPROC \<and> p_parent (ptable s q) = Some p then Some i else p_parent (ptable s q)),
      p_cwd := (if q = p then None else p_cwd (ptable s q)), p_state := p_state (ptable s7 q)\<rparr>"
      by (subst p7(1), subst p6(1)) (simp add: p5 par)
    have "(ptable s7 q)\<lparr>p_state := st\<rparr> = (ptable s1 q)\<lparr>p_parent := (if q < NPROC \<and> p_parent (ptable s q) = Some p then Some i
        else p_parent (ptable s q)), p_cwd := (if q = p then None else p_cwd (ptable s q)), p_state := st\<rparr>" for st
      by (subst E) simp
    moreover have "ptable t q = (ptable s7 q)\<lparr>p_state := p_state (ptable t q)\<rparr>" by (simp add: t')
    ultimately show ?thesis by metis
  qed
  have rest: "km s7 = km s1" "ftable s7 = ftable s1" "pipes s7 = pipes s1" "ofile s7 = ofile s1" "same_kernel s1 s7"
    using r by (simp_all add: reparented_def s6_def s5_def wakeup1_def m same_kernel_def)
  have "same_kernel s t" using same_kernel_trans [OF e(2) rest(5)] by (simp add: t' same_kernel_def)
  moreover have "q \<noteq> p \<Longrightarrow> p_state (ptable t q) = p_state (ptable s q) \<or> p_state (ptable s q) = SLEEPING \<and> p_state (ptable t q) = RUNNABLE" for q
    using p6(2) [of q] p7(2) [of q] by (auto simp: t')
  moreover have "\<forall>q. ptable t q = (ptable s1 q)\<lparr>p_parent := (if q < NPROC \<and> p_parent (ptable s q) = Some p then Some i else p_parent (ptable s q)),
      p_cwd := (if q = p then None else p_cwd (ptable s q)), p_state := p_state (ptable t q)\<rparr>" using tq by blast
  moreover have "km t = km s1" "ftable t = ftable s1" "pipes t = pipes s1" "ofile t = ofile s1" "p_state (ptable t p) = ZOMBIE"
    using rest by (simp_all add: t')
  moreover have "p_chan (ptable t q) \<noteq> parent_chan (p_parent (ptable s p))" if "q < NPROC" "p_state (ptable t q) = SLEEPING" for q
  proof -
    have "p_state (ptable s6 q) = SLEEPING" using p7(2) [of q] that(2) by (auto simp: t' split: if_splits)
    then have "p_chan (ptable s5 q) \<noteq> parent_chan (p_parent (ptable s5 p))" using that(1) by (auto simp: s6_def wakeup1_def split: if_splits)
    moreover have "p_chan (ptable t q) = p_chan (ptable s1 q)" by (subst tq) simp
    ultimately show ?thesis by (simp add: p5 g(1))
  qed
  moreover have "at_sched c (kmach t)" using t'' by simp
  ultimately show thesis using that [OF ip e(1,2) _ g] by blast
qed

lemma tree_exit:
  assumes tr: "tree_ok s" and i: "initproc s = Some i" "i \<noteq> p" "initproc t = initproc s" and u: "used t = used s"
    and par: "\<And>q. q < NPROC \<Longrightarrow> p_parent (ptable t q) = (if p_parent (ptable s q) = Some p then Some i else p_parent (ptable s q))"
    and st: "\<And>q. q \<noteq> p \<Longrightarrow> (p_state (ptable t q) = ZOMBIE) = (p_state (ptable s q) = ZOMBIE)"
  shows "tree_ok t"
proof -
  from tr i have a: "i \<in> used s" "p_state (ptable s i) \<noteq> ZOMBIE" "p_parent (ptable s i) = None"
    "\<forall>q \<in> used s - {i}. \<exists>r \<in> used s. p_parent (ptable s q) = Some r \<and> p_state (ptable s r) \<noteq> ZOMBIE"
    by (auto simp: tree_ok_def)
  have lt: "q < NPROC" if "q \<in> used s" for q using that by (simp add: used_def)
  have iz: "p_state (ptable t i) \<noteq> ZOMBIE" using st [of i] i(2) a(2) by simp
  have "\<exists>r \<in> used s. p_parent (ptable t q) = Some r \<and> p_state (ptable t r) \<noteq> ZOMBIE" if "q \<in> used s - {i}" for q
  proof -
    from a(4) that obtain r where r: "r \<in> used s" "p_parent (ptable s q) = Some r" "p_state (ptable s r) \<noteq> ZOMBIE" by blast
    show ?thesis
    proof (cases "r = p")
      case True
      then show ?thesis using par [of q] that r(2) lt a(1) iz by (intro bexI [of _ i]) auto
    next
      case False
      then show ?thesis using par [of q] st [OF False] that r lt by (intro bexI [of _ r]) auto
    qed
  qed
  moreover have "p_parent (ptable t i) = None" using par [of i] a(1,3) lt by simp
  ultimately show ?thesis unfolding tree_ok_def u using a(1) iz i by (intro bexI [of _ i]) auto
qed

lemma exit_ok:
  fixes s :: "'z psys_scheme"
  assumes ok: "kernel_ok U s" and c: "proc_of s c = Some p" and t: "exit c p s = Inr t"
  shows "kernel_ok U (scheduler_back c t)"
proof -
  note run = running_D [OF ok c]
  have inv: "pids_ok s" "tree_ok s" "slots_ok s" "cpus_ok s" using ok by (simp_all add: kernel_ok_def)
  from inv(2) obtain i where i: "initproc s = Some i" by (auto simp: tree_ok_def)
  obtain s1 g where e: "i \<noteq> p" "files_state U s1" "same_kernel s s1" "same_kernel s t"
    "ptable s1 = (ptable s)(p := (ptable s p)\<lparr>p_ofile := g\<rparr>)" "\<forall>fd < NOFILE. g fd = None"
    "km t = km s1" "ftable t = ftable s1" "pipes t = pipes s1" "ofile t = ofile s1"
    and tq: "\<forall>q. ptable t q = (ptable s1 q)\<lparr>p_parent := (if q < NPROC \<and> p_parent (ptable s q) = Some p then Some i else p_parent (ptable s q)),
      p_cwd := (if q = p then None else p_cwd (ptable s q)), p_state := p_state (ptable t q)\<rparr>"
    and st': "\<forall>q. q \<noteq> p \<longrightarrow> p_state (ptable t q) = p_state (ptable s q) \<or> p_state (ptable s q) = SLEEPING \<and> p_state (ptable t q) = RUNNABLE"
      "p_state (ptable t p) = ZOMBIE"
    using that by (rule exit_state [OF ok run(1) i t])
  have st: "q \<noteq> p \<Longrightarrow> p_state (ptable t q) = p_state (ptable s q) \<or> p_state (ptable s q) = SLEEPING \<and> p_state (ptable t q) = RUNNABLE"
    "p_state (ptable t p) = ZOMBIE" for q using st' by blast+
  have f: "p_pid (ptable t q) = p_pid (ptable s q)" "p_kstack (ptable t q) = p_kstack (ptable s q)"
    "p_pgdir (ptable t q) = p_pgdir (ptable s q)" "p_sz (ptable t q) = p_sz (ptable s q)" "p_tf (ptable t q) = p_tf (ptable s q)"
    "p_ofile (ptable t q) = (if q = p then g else p_ofile (ptable s q))" "p_cwd (ptable t q) = (if q = p then None else p_cwd (ptable s q))"
    "p_parent (ptable t q) = (if q < NPROC \<and> p_parent (ptable s q) = Some p then Some i else p_parent (ptable s q))" for q
    by (subst tq [rule_format], simp add: e(5))+
  have un: "(p_state (ptable t q) = UNUSED) = (p_state (ptable s q) = UNUSED)" for q using st run(3) by (cases "q = p") force+
  have u: "used t = used s" "used s1 = used s" by (auto simp: used_def un e(5))
  have k: "kend t = kend s" "kdata t = kdata s" "nextpid t = nextpid s" "initproc t = initproc s" "proc_of t = proc_of s" "kend s1 = kend s"
    using e(3,4) by (simp_all add: same_kernel_def)
  let ?t = "scheduler_back c t"
  have b: "ptable ?t = ptable t" "used ?t = used t" "kend ?t = kend t" "kdata ?t = kdata t" "nextpid ?t = nextpid t" "initproc ?t = initproc t"
    "km ?t = km t" "ftable ?t = ftable t" "pipes ?t = pipes t" "ofile ?t = ofile t" "proc_of ?t = (proc_of t)(c := None)"
    by (simp_all add: scheduler_back_def used_def)
  from e(2) obtain ps where ps: "refs_inv s1" "pipes_inv s1" "pages_inv s1 ps U" by (auto simp: files_state_def)
  have ends: "same_ends s1 ?t" by (simp add: same_ends_def b e(8))
  have "pages_inv ?t ps U"
    by (rule pages_inv_cong [OF ps(3) _ _ same_ends_D(1) [OF ends]]) (auto simp: b k e u f)
  moreover have "refs_inv ?t" by (rule refs_inv_cong [OF ps(1)]) (auto simp: b e f)
  moreover have "pipes_inv ?t" by (rule pipes_inv_cong [OF ps(2) ends]) (simp add: b e)
  ultimately have "files_state U ?t" by (auto simp: files_state_def)
  moreover have "pids_ok ?t" using inv(1) by (simp add: pids_ok_def b u k f)
  moreover have "tree_ok ?t"
  proof (rule tree_exit [OF inv(2) i e(1)])
    show "p_parent (ptable ?t q) = (if p_parent (ptable s q) = Some p then Some i else p_parent (ptable s q))" if "q < NPROC" for q
      using that by (simp add: b f)
    show "(p_state (ptable ?t q) = ZOMBIE) = (p_state (ptable s q) = ZOMBIE)" if "q \<noteq> p" for q using st(1) [OF that] by (auto simp: b)
  qed (simp_all add: b k u)
  moreover have "slots_ok ?t"
  proof -
    have "(p_state (ptable t q) = UNUSED \<longrightarrow> p_parent (ptable t q) = None) \<and>
        (p_state (ptable t q) \<in> {UNUSED, ZOMBIE} \<longrightarrow> (\<forall>fd < NOFILE. p_ofile (ptable t q) fd = None)) \<and>
        (p_state (ptable t q) \<notin> {UNUSED, ZOMBIE} \<longrightarrow> p_cwd (ptable t q) \<noteq> None) \<and>
        (p_state (ptable t q) \<noteq> UNUSED \<longrightarrow> p_tf (ptable t q) = p_kstack (ptable t q) + KSTACKSIZE - trapframe_bytes) \<and>
        p_state (ptable t q) \<noteq> EMBRYO" if q: "q < NPROC" for q
    proof (cases "q = p")
      case True
      then show ?thesis using inv(3) q st(2) e(6) run(3) by (auto simp: slots_ok_def f)
    next
      case False
      then show ?thesis using inv(3) q st(1) [OF False] by (auto simp: slots_ok_def f)
    qed
    then show ?thesis by (simp add: slots_ok_def b)
  qed
  moreover have "cpus_ok ?t"
  proof -
    have "p_state (ptable t q) = RUNNING \<longleftrightarrow> q \<noteq> p \<and> p_state (ptable s q) = RUNNING" for q
      using st by (cases "q = p") force+
    then show ?thesis using inv(4) c unfolding cpus_ok_def b k by (auto split: if_splits) (metis option.inject)+
  qed
  ultimately show ?thesis using ok by (simp add: kernel_ok_def b k)
qed

end
