(* ===== verification/Proc_Fork.thy ===== *)
theory Proc_Fork
  imports Proc_Inv
begin

text \<open>
  \<open>fork\<close> keeps the invariant of the kernel, and what the child is. The memory comes first: a page for
  the kernel stack, a copy of the parent's address space, and stores to the new stack; then
  \<open>allocproc\<close>, and then the whole call.
\<close>

section \<open>Memory\<close>

lemma page_copied_off:
  assumes pc: "page_copied m1 d m2 e v" and pte: "pte_of m1 d = pte_of m d" "pte_of m3 e = pte_of m2 e"
    and s: "same_off {x} m m1" "same_off {x} m2 m3" and x: "page_ok ke x"
    and f: "page_ok ke (frame_of (pte_of m d v))" "frame_of (pte_of m d v) \<noteq> x"
      "page_ok ke (frame_of (pte_of m2 e v))" "frame_of (pte_of m2 e v) \<noteq> x"
  shows "page_copied m d m3 e v"
proof -
  have Q: "\<forall>q \<in> {x}. page_ok ke q" using x by simp
  have "same_page m (frame_of (pte_of m d v)) m1 (frame_of (pte_of m d v))" by (rule same_off_page [OF s(1) Q f(1)]) (use f in simp)
  moreover have "same_page m2 (frame_of (pte_of m2 e v)) m3 (frame_of (pte_of m2 e v))"
    by (rule same_off_page [OF s(2) Q f(3)]) (use f in simp)
  ultimately show ?thesis using pc by (auto simp: page_copied_def pte intro: same_page_trans)
qed

lemma user_frame: "v \<in> upages m d \<Longrightarrow> frame_of (pte_of m d v) \<in> owned m d"
  by (auto simp: owned_def uframes_def)

text \<open>A new process gets page \<open>x\<close> for its stack and the space \<open>d\<close>; the stack may still be written.\<close>

lemma mem_adopt:
  fixes m :: "'z kmem_scheme"
  assumes ok: "mem_ok ke m qs I dir ks sz X (V - owned m d)" and n: "n \<notin> I" and x: "page_ok ke x" "x \<notin> V"
    and d: "vm_own ke m d qs" "owned m d \<subseteq> V" "sz_ok m d z"
    and w: "same_off {x} m m'" "k_freelist m' = k_freelist m"
  shows "mem_ok ke m' qs (insert n I) (dir(n := d)) (ks(n := x)) (sz(n := z)) X (insert x V)" "pte_of m' d = pte_of m d"
proof -
  note D = mem_ok_D [OF ok]
  have xq: "x \<notin> set qs" using D(12) x(2) by auto
  have xd: "x \<notin> owned m d" using d(2) x(2) by auto
  have xo: "x \<notin> owned m (dir p)" if "p \<in> I" for p using that x(2) D(12) by blast
  have Q: "\<forall>q \<in> {x}. page_ok ke q \<and> q \<notin> set qs" using x(1) xq by simp
  have st: "mem_ok ke m' qs I dir ks sz X (V - owned m d)" by (rule mem_store(1) [OF ok w Q]) (use xo in \<open>auto simp: owned_def\<close>)
  have fp: "free_pages ke m' qs" using st by (simp add: mem_ok_def)
  have t: "{x} \<inter> tables m d = {}" "set qs \<inter> owned m d = {}" using xd owned_pages [OF d(1)] by (auto simp: owned_def)
  have Q1: "\<forall>q \<in> {x}. page_ok ke q" using x(1) by simp
  note c = own_cong [OF d(1) w(1) Q1 t(1) fp t(2)]
  show pte: "pte_of m' d = pte_of m d" by (rule c(3))
  let ?dir = "dir(n := d)" and ?ks = "ks(n := x)" and ?sz = "sz(n := z)"
  have e: "mem_ok ke m' qs I ?dir ?ks ?sz X (V - owned m d)" by (rule mem_ok_eq [OF st]) (use n in auto)
  have "sz_ok m' d z" using d(3) by (simp add: sz_ok_def upages_def pte)
  then have "mem_ok ke m' qs (insert n I) ?dir ?ks ?sz X (V - owned m d \<union> insert (?ks n) (owned m' (?dir n)))"
    using mem_insert [OF e n] c(1,2) x xq xd by simp
  moreover have "V - owned m d \<union> insert (?ks n) (owned m' (?dir n)) = insert x V" using c(2) d(2) by auto
  ultimately show "mem_ok ke m' qs (insert n I) ?dir ?ks ?sz X (insert x V)" by simp
qed

lemma mem_fork:
  fixes m :: "'z kmem_scheme"
  assumes ok: "mem_ok ke m (x # ps) I dir ks sz X U" and c: "c \<in> I" and n: "n \<notin> I" and k: "ke > KERNBASE" "kdata_ok kd"
    and a: "kalloc m = (x, m0)" and w: "same_off {x} m0 m1" "k_freelist m1 = k_freelist m0"
  obtains (copied) d m2 qs where "copyuvm ke kd (dir c) (sz c) m1 = Inr (d, m2)" "d \<noteq> 0" "same_off (insert x (set ps)) m m2"
      "\<forall>m3. same_off {x} m2 m3 \<and> k_freelist m3 = k_freelist m2 \<longrightarrow>
         mem_ok ke m3 qs (insert n I) (dir(n := d)) (ks(n := x)) (sz(n := sz c)) X U \<and>
         (\<forall>v < (sz c + 4095) div 4096. page_copied m (dir c) m3 d v)"
  | (full) m2 m3 qs where "copyuvm ke kd (dir c) (sz c) m1 = Inr (0, m2)" "kfree ke x m2 = Inr m3"
      "mem_ok ke m3 qs I dir ks sz X U" "length ps \<le> 1026 + (sz c + 4095) div 4096"
      "same_off (insert x (set ps)) m m3"
proof -
  obtain m0' where m0': "kalloc m = (x, m0')" "mem_ok ke m0' ps I dir ks sz X (U - {x})" "page_ok ke x" "x \<in> U" "k_mem m0' = k_mem m"
    "\<forall>p \<in> I. pte_of m0' (dir p) = pte_of m (dir p)"
    by (rule mem_kalloc [OF ok]) auto
  have e: "m0' = m0" using m0'(1) a by simp
  note A = m0'(2-) [unfolded e]
  note D = mem_ok_D [OF A(1)]
  have xq: "x \<notin> set ps" using D(12) by auto
  have xo: "x \<notin> owned m0 (dir p)" if "p \<in> I" for p using that D(12) by blast
  have Q: "\<forall>q \<in> {x}. page_ok ke q \<and> q \<notin> set ps" using A(2) xq by simp
  have B: "mem_ok ke m1 ps I dir ks sz X (U - {x})" "p \<in> I \<Longrightarrow> pte_of m1 (dir p) = pte_of m0 (dir p)" for p
    using mem_store [OF A(1) w Q] xo by (auto simp: owned_def)
  have off1: "same_off {x} m m1" using w(1) A(4) by (simp add: same_off_def)
  have U: "insert x (U - {x}) = U" using A(3) by auto
  show thesis
  proof (cases rule: mem_copy [OF B(1) c k, case_names copied full])
    case (full m2 qs)
    obtain m3 where m3: "kfree ke x m2 = Inr m3" "mem_ok ke m3 (x # qs) I dir ks sz X (insert x (U - {x}))" "same_off {x} m2 m3"
      by (rule mem_kfree [OF full(2) A(2)]) auto
    have "same_off (insert x (set ps)) m m2"
      by (rule same_off_trans [OF same_off_mono [OF off1] same_off_mono [OF full(4)]]) auto
    then have "same_off (insert x (set ps)) m m3" by (rule same_off_trans [OF _ same_off_mono [OF m3(3)]]) auto
    then show thesis using that(2) [OF full(1) m3(1) m3(2) [unfolded U] full(5)] by blast
  next
    case (copied d m2 qs)
    have sub: "owned m2 d \<subseteq> U - {x}" using copied(5) D(12) by auto
    have s: "same_off (insert x (set ps)) m m2"
      by (rule same_off_trans [OF same_off_mono [OF off1] same_off_mono [OF copied(8)]]) auto
    have pc: "page_copied m (dir c) m3 d v" if w3: "same_off {x} m2 m3" "pte_of m3 d = pte_of m2 d" and v: "v < (sz c + 4095) div 4096" for m3 v
    proof (rule page_copied_off [OF copied(7) [rule_format, OF v] _ w3(2) off1 w3(1) A(2)])
      have u: "v \<in> upages m0 (dir c)" "v \<in> upages m2 d"
        using mem_ok_D(6) [OF A(1) c] copied(6) v by (auto simp: sz_ok_def)
      have "pte_of m0 (dir c) = pte_of m (dir c)" using A(5) c by simp
      then have "frame_of (pte_of m (dir c) v) \<in> owned m0 (dir c)" using user_frame [OF u(1)] by simp
      then show "page_ok ke (frame_of (pte_of m (dir c) v))" "frame_of (pte_of m (dir c) v) \<noteq> x"
        using owned_pages [OF D(2) [OF c]] xo [OF c] by auto
      show "page_ok ke (frame_of (pte_of m2 d v))" "frame_of (pte_of m2 d v) \<noteq> x"
        using user_frame [OF u(2)] owned_pages [OF copied(4)] sub by auto
      show "pte_of m1 (dir c) = pte_of m (dir c)" using B(2) [OF c] A(5) c by simp
    qed
    have new: "mem_ok ke m3 qs (insert n I) (dir(n := d)) (ks(n := x)) (sz(n := sz c)) X U" "pte_of m3 d = pte_of m2 d"
      if "same_off {x} m2 m3" "k_freelist m3 = k_freelist m2" for m3
      using mem_adopt [OF copied(3) n A(2) _ copied(4) sub copied(6) that] U by auto
    show thesis using that(1) [OF copied(1,2) s, of qs] new pc by blast
  qed
qed

section \<open>A slot and a stack\<close>

lemma poke_off:
  assumes "\<And>a. a < x \<or> x + 4096 \<le> a \<Longrightarrow> f (k_mem m) a = k_mem m a"
  shows "same_off {x} m (m\<lparr>k_mem := f (k_mem m)\<rparr>)" "k_freelist (m\<lparr>k_mem := f (k_mem m)\<rparr>) = k_freelist m"
  using assms by (auto simp: same_off_def off_pages_def)

definition new_slot :: "int \<Rightarrow> nat \<Rightarrow> proc \<Rightarrow> proc" where
  "new_slot pid k x = x\<lparr>p_state := EMBRYO, p_pid := pid, p_kstack := k, p_tf := k + KSTACKSIZE - trapframe_bytes,
     p_context := k + KSTACKSIZE - trapframe_bytes - 4 - context_bytes\<rparr>"

lemma allocproc_ok:
  fixes s :: "'z psys_scheme"
  assumes pg: "pages_inv s ps U" and pid: "0 \<le> nextpid s" "nextpid s < 2147483647"
  obtains (none) "allocproc s = (None, s)" "\<forall>q < NPROC. p_state (ptable s q) \<noteq> UNUSED"
  | (full) np where "np < NPROC" "p_state (ptable s np) = UNUSED" "ps = []"
      "allocproc s = (None, set_proc np (\<lambda>x. x\<lparr>p_pid := nextpid s, p_kstack := 0, p_state := UNUSED\<rparr>) (s\<lparr>nextpid := nextpid s + 1\<rparr>))"
  | (found) np k qs m0 m1 where "np < NPROC" "p_state (ptable s np) = UNUSED" "ps = k # qs" "kalloc (km s) = (k, m0)"
      "same_off {k} m0 m1" "k_freelist m1 = k_freelist m0"
      "allocproc s = (Some np, set_proc np (new_slot (nextpid s) k) (s\<lparr>nextpid := nextpid s + 1, km := m1\<rparr>))"
      "find (\<lambda>q. p_state (ptable s q) = UNUSED) [0..<NPROC] = Some np"
proof -
  have fp: "free_pages (kend s) (km s) ps" using pg by (simp add: pages_inv_def mem_ok_def)
  have nx: "sint32 (pat32 (nextpid s + 1)) = nextpid s + 1" using pid by (simp add: sint32_def pat32_def)
  show thesis
  proof (cases "find (\<lambda>q. p_state (ptable s q) = UNUSED) [0..<NPROC]")
    case None
    then have "allocproc s = (None, s)" "\<forall>q < NPROC. p_state (ptable s q) \<noteq> UNUSED"
      by (simp add: allocproc_def) (use None in \<open>simp add: find_None_iff\<close>)
    then show thesis by (rule that(1))
  next
    case (Some np)
    then have np: "np < NPROC" "p_state (ptable s np) = UNUSED" by (auto simp: find_upt_Some)
    show thesis
    proof (cases ps)
      case Nil
      then have "kalloc (km s) = (0, km s)" using kalloc_ok(1) [OF fp] by simp
      then have "allocproc s = (None, set_proc np (\<lambda>x. x\<lparr>p_pid := nextpid s, p_kstack := 0, p_state := UNUSED\<rparr>) (s\<lparr>nextpid := nextpid s + 1\<rparr>))"
        using Some np(2) nx by (simp add: allocproc_def set_proc_def)
      then show thesis using that(2) np Nil by blast
    next
      case (Cons k qs)
      then obtain m0 where m0: "kalloc (km s) = (k, m0)" using kalloc_ok(2) [OF fp] by blast
      have k: "k > 0" using fp by (auto simp: Cons free_pages_def page_ok_def)
      let ?tf = "k + KSTACKSIZE - trapframe_bytes"
      let ?ctx = "?tf - 4 - context_bytes"
      let ?f = "\<lambda>d. put32 (memset (put32 d (?tf - 4) (trapret s)) ?ctx 0 context_bytes) (?ctx + ctx_eip) (forkret_addr s)"
      have off: "?f d a = d a" if "a < k \<or> k + 4096 \<le> a" for d a
        using that by (auto simp: put32_out memset_eq KSTACKSIZE_def trapframe_bytes_def context_bytes_def ctx_eip_def)
      have "allocproc s = (Some np, set_proc np (new_slot (nextpid s) k) (s\<lparr>nextpid := nextpid s + 1, km := m0\<lparr>k_mem := ?f (k_mem m0)\<rparr>\<rparr>))"
        using Some m0 k nx by (simp add: allocproc_def set_proc_def poke_def new_slot_def Let_def add.assoc)
      then show thesis using that(3) [OF np Cons m0 poke_off [of k ?f m0] _ Some] off by blast
    qed
  qed
qed

section \<open>The table\<close>

lemma kernel_add:
  assumes ok: "kernel_ok U s" and np: "np < NPROC" "p_state (ptable s np) = UNUSED" and p: "p \<in> used s" "p_state (ptable s p) \<noteq> ZOMBIE"
    and t: "ptable t = (ptable s)(np := x)" "same_kernel s (t\<lparr>nextpid := nextpid s\<rparr>)" "nextpid t = nextpid s + 1" "files_state U t"
    and x: "p_state x = RUNNABLE" "p_pid x = nextpid s" "p_parent x = Some p" "p_cwd x \<noteq> None"
      "p_tf x = p_kstack x + KSTACKSIZE - trapframe_bytes"
  shows "kernel_ok U t"
proof -
  have g: "kend t = kend s" "kdata t = kdata s" "initproc t = initproc s" "proc_of t = proc_of s"
    using t(2) by (simp_all add: same_kernel_def)
  have u: "used t = insert np (used s)" using np x by (auto simp: used_def t(1))
  have nu: "np \<notin> used s" using np by (simp add: used_def)
  have oth: "ptable t q = ptable s q" if "q \<in> used s" for q using that nu by (auto simp: t(1))
  have inv: "pids_ok s" "tree_ok s" "slots_ok s" "cpus_ok s" using ok by (simp_all add: kernel_ok_def)
  have pp: "p_pid (ptable s q) \<noteq> nextpid s" if "q \<in> used s" for q using inv(1) that by (auto simp: pids_ok_def)
  have "pids_ok t"
  proof -
    have "inj_on (\<lambda>q. p_pid (ptable t q)) (used s)" using inv(1) oth by (auto simp: pids_ok_def inj_on_def)
    moreover have "p_pid (ptable t np) \<notin> (\<lambda>q. p_pid (ptable t q)) ` used s" using pp oth x(2) by (fastforce simp: t(1))
    ultimately have "inj_on (\<lambda>q. p_pid (ptable t q)) (used t)" using nu by (simp add: u)
    moreover have "\<forall>q \<in> used t. 0 < p_pid (ptable t q) \<and> p_pid (ptable t q) < nextpid t"
      using inv(1) oth x(2) unfolding u t(3) by (fastforce simp: pids_ok_def t(1))
    ultimately show ?thesis using inv(1) by (simp add: pids_ok_def t(3))
  qed
  moreover have "tree_ok t"
  proof -
    from inv(2) obtain i where i: "i \<in> used s" "initproc s = Some i" "p_state (ptable s i) \<noteq> ZOMBIE" "p_parent (ptable s i) = None"
      "\<forall>q \<in> used s - {i}. \<exists>r \<in> used s. p_parent (ptable s q) = Some r \<and> p_state (ptable s r) \<noteq> ZOMBIE"
      by (auto simp: tree_ok_def)
    have "\<exists>r \<in> used t. p_parent (ptable t q) = Some r \<and> p_state (ptable t r) \<noteq> ZOMBIE" if "q \<in> used t - {i}" for q
    proof (cases "q = np")
      case True
      then show ?thesis using x(3) p oth [OF p(1)] u by (auto simp: t(1))
    next
      case False
      then have q: "q \<in> used s - {i}" using that u by auto
      then obtain r where "r \<in> used s" "p_parent (ptable s q) = Some r" "p_state (ptable s r) \<noteq> ZOMBIE" using i(5) by blast
      then show ?thesis using oth q u by (intro bexI [of _ r]) auto
    qed
    then show ?thesis unfolding tree_ok_def using i oth u g(3) by (intro bexI [of _ i]) auto
  qed
  moreover have "slots_ok t" using inv(3) x by (auto simp: slots_ok_def t(1))
  moreover have "cpus_ok t" using inv(4) np(2) x(1) by (auto simp: cpus_ok_def g t(1) split: if_splits)
  ultimately show ?thesis using ok t(4) by (simp add: kernel_ok_def g)
qed

text \<open>A free slot and the next identifier may change.\<close>

lemma kernel_unused:
  fixes s :: "'z psys_scheme"
  assumes ok: "kernel_ok U s" and np: "p_state (ptable s np) = UNUSED"
    and t: "ptable t = (ptable s)(np := x)" "same_kernel s (t\<lparr>nextpid := nextpid s\<rparr>)" "nextpid t = nextpid s + 1"
    and f: "ftable t = ftable s" "pipes t = pipes s" "ofile t = ofile s"
    and m: "mem_ok (kend s) (km t) qs (used s) (\<lambda>p. p_pgdir (ptable s p)) (\<lambda>p. p_kstack (ptable s p)) (\<lambda>p. p_sz (ptable s p)) (pipe_pages s) U"
    and x: "p_state x = UNUSED" "p_parent x = p_parent (ptable s np)" "p_ofile x = p_ofile (ptable s np)"
  shows "kernel_ok U t" "used t = used s"
proof -
  have g: "kend t = kend s" "kdata t = kdata s" "initproc t = initproc s" "proc_of t = proc_of s"
    using t(2) by (simp_all add: same_kernel_def)
  show u: "used t = used s" using np x by (auto simp: used_def t(1))
  have oth: "ptable t q = ptable s q" if "q \<in> used s" for q using that np by (auto simp: t(1) used_def)
  have inv: "pids_ok s" "tree_ok s" "slots_ok s" "cpus_ok s" "refs_inv s" "pipes_inv s" using ok by (simp_all add: kernel_ok_def files_state_def)
  have e: "same_ends s t" by (simp add: same_ends_def f)
  have "mem_ok (kend t) (km t) qs (used t) (\<lambda>p. p_pgdir (ptable t p)) (\<lambda>p. p_kstack (ptable t p)) (\<lambda>p. p_sz (ptable t p)) (pipe_pages t) U"
    unfolding g u same_ends_D(1) [OF e] by (rule mem_ok_eq [OF m]) (simp add: oth)
  then have "pages_inv t qs U" by (simp add: pages_inv_def)
  moreover have "refs_inv t" by (rule refs_inv_cong [OF inv(5) f(1,3)]) (simp add: t(1) x)
  moreover have "pipes_inv t" by (rule pipes_inv_cong [OF inv(6) e f(2)])
  ultimately have "files_state U t" by (auto simp: files_state_def)
  moreover have "pids_ok t"
  proof -
    have "inj_on (\<lambda>q. p_pid (ptable t q)) (used s)" using inv(1) oth by (auto simp: pids_ok_def inj_on_def)
    then show ?thesis using inv(1) oth by (fastforce simp: pids_ok_def u t(3))
  qed
  moreover have "tree_ok t"
  proof -
    from inv(2) obtain i where i: "i \<in> used s" "initproc s = Some i" "p_state (ptable s i) \<noteq> ZOMBIE" "p_parent (ptable s i) = None"
      "\<forall>q \<in> used s - {i}. \<exists>r \<in> used s. p_parent (ptable s q) = Some r \<and> p_state (ptable s r) \<noteq> ZOMBIE"
      by (auto simp: tree_ok_def)
    then have "\<forall>q \<in> used s - {i}. \<exists>r \<in> used s. p_parent (ptable t q) = Some r \<and> p_state (ptable t r) \<noteq> ZOMBIE" using oth by (metis Diff_iff)
    then show ?thesis unfolding tree_ok_def u using i oth g(3) by (intro bexI [of _ i]) auto
  qed
  moreover have "slots_ok t" using inv(3) x np by (auto simp: slots_ok_def t(1))
  moreover have "cpus_ok t" using inv(4) np x(1) by (auto simp: cpus_ok_def g t(1) split: if_splits)
  ultimately show "kernel_ok U t" using ok by (simp add: kernel_ok_def g)
qed

section \<open>The call\<close>

text \<open>
  What the child is: a copy of the parent's memory and descriptors, and a trap frame that differs in
  the returned value.
\<close>

definition child_of :: "'z psys_scheme \<Rightarrow> nat \<Rightarrow> 'z psys_scheme \<Rightarrow> nat \<Rightarrow> bool" where
  "child_of s p t np \<longleftrightarrow> (let x = ptable s p; y = ptable t np in
     p_state y = RUNNABLE \<and> p_pid y = nextpid s \<and> p_parent y = Some p \<and> p_sz y = p_sz x \<and> p_cwd y = p_cwd x \<and>
     (\<forall>fd < NOFILE. p_ofile y fd = p_ofile x fd) \<and>
     (\<forall>v < (p_sz x + 4095) div 4096. page_copied (km s) (p_pgdir x) (km t) (p_pgdir y) v) \<and>
     (\<forall>i < trapframe_bytes. k_mem (km t) (p_tf y + i) =
       (if tf_eax \<le> i \<and> i < tf_eax + 4 then 0 else k_mem (km s) (p_tf x + i))))"

text \<open>The stores to the child's trap frame.\<close>

lemma frame_off:
  assumes "tf = k + KSTACKSIZE - trapframe_bytes"
  shows "same_off {k} m (m\<lparr>k_mem := put32 (memmove (k_mem m) tf tf' trapframe_bytes) (tf + tf_eax) 0\<rparr>)"
    "i < trapframe_bytes \<Longrightarrow> put32 (memmove d tf tf' trapframe_bytes) (tf + tf_eax) 0 (tf + i) =
       (if tf_eax \<le> i \<and> i < tf_eax + 4 then 0 else d (tf' + i))"
  using assms by (auto simp: same_off_def off_pages_def memmove_eq put32_out KSTACKSIZE_def trapframe_bytes_def tf_eax_def)
    (auto simp: put32_def)

lemma fork_copied:
  fixes s :: "'z psys_scheme"
  assumes ok: "kernel_ok U s" and c: "proc_of s c = Some p" and np: "np < NPROC" "p_state (ptable s np) = UNUSED"
    and al: "allocproc s = (Some np, set_proc np (new_slot (nextpid s) k) (s\<lparr>nextpid := nextpid s + 1, km := m1\<rparr>))"
    and cp: "copyuvm (kend s) (kdata s) (p_pgdir (ptable s p)) (p_sz (ptable s p)) m1 = Inr (d, m2)" "d \<noteq> 0"
    and off: "\<forall>i < 4096. k_mem m2 (p_kstack (ptable s p) + i) = k_mem (km s) (p_kstack (ptable s p) + i)"
    and new: "\<forall>m3. same_off {k} m2 m3 \<and> k_freelist m3 = k_freelist m2 \<longrightarrow>
        mem_ok (kend s) m3 qs (insert np (used s)) ((\<lambda>q. p_pgdir (ptable s q))(np := d)) ((\<lambda>q. p_kstack (ptable s q))(np := k))
          ((\<lambda>q. p_sz (ptable s q))(np := p_sz (ptable s p))) (pipe_pages s) U \<and>
        (\<forall>v < (p_sz (ptable s p) + 4095) div 4096. page_copied (km s) (p_pgdir (ptable s p)) m3 d v)"
  obtains t where "fork p s = Inr (nextpid s, t)" "kernel_ok U t" "child_of s p t np" "\<forall>q. q \<noteq> np \<longrightarrow> ptable t q = ptable s q"
    "p_killed (ptable t np) = p_killed (ptable s np)" "same_off {k} m2 (km t)"
proof -
  note run = running_D [OF ok c]
  have pn: "p \<noteq> np" using run(3) np(2) by auto
  have inv: "refs_inv s" "pipes_inv s" "slots_ok s" using ok by (simp_all add: kernel_ok_def files_state_def)
  let ?x = "ptable s p"
  obtain ip where ip: "p_cwd ?x = Some ip" using run(4) by auto
  define tf where "tf = k + KSTACKSIZE - trapframe_bytes"
  define m3 where "m3 = m2\<lparr>k_mem := put32 (memmove (k_mem m2) tf (p_tf ?x) trapframe_bytes) (tf + tf_eax) 0\<rparr>"
  define y where "y = (new_slot (nextpid s) k (ptable s np))\<lparr>p_pgdir := d, p_sz := p_sz ?x, p_parent := Some p\<rparr>"
  define s4 where "s4 = s\<lparr>nextpid := nextpid s + 1, ptable := (ptable s)(np := y), km := m3\<rparr>"
  have s4: "ftable s4 = ftable s" "pipes s4 = pipes s" "ofile s4 = ofile s" "ptable s4 = (ptable s)(np := y)" "km s4 = m3"
    "nextpid s4 = nextpid s + 1" "same_kernel s (s4\<lparr>nextpid := nextpid s\<rparr>)" by (simp_all add: s4_def same_kernel_def)
  have r4: "refs_inv s4" by (rule refs_inv_cong [OF inv(1) s4(1,3)]) (simp add: s4(4) y_def new_slot_def)
  have none: "\<forall>fd < NOFILE. p_ofile (ptable s4 np) fd = None" using inv(3) np by (simp add: s4(4) y_def new_slot_def slots_ok_def)
  obtain s5 where s5: "fork_files p np s4 = Inr s5" "refs_inv s5" "same_ends s4 s5" "same_kernel s4 s5" "km s5 = km s4" "pipes s5 = pipes s4"
    "ptable s5 = (ptable s4)(np := (ptable s4 np)\<lparr>p_ofile := (\<lambda>fd. if fd < NOFILE then p_ofile (ptable s4 p) fd else p_ofile (ptable s4 np) fd)\<rparr>)"
    by (rule fork_files_ok [OF r4 run(1) np(1) pn none])
  define s6 where "s6 = set_inode ip (\<lambda>x. x\<lparr>i_ref := i_ref x + 1\<rparr>) s5"
  have "fsys.more s6 = fsys.more s5" by (simp add: s6_def set_inode_def)
  note m6 = psys_more [OF this]
  define z where "z = (ptable s5 np)\<lparr>p_cwd := Some ip, p_name := safestrcpy (p_name (ptable s5 np)) (p_name (ptable s5 p)) 16, p_state := RUNNABLE\<rparr>"
  define t where "t = s6\<lparr>ptable := (ptable s6)(np := z)\<rparr>"
  have zf: "p_state z = RUNNABLE" "p_pid z = nextpid s" "p_parent z = Some p" "p_cwd z = Some ip" "p_kstack z = k" "p_tf z = tf"
    "p_pgdir z = d" "p_sz z = p_sz ?x" "\<forall>fd < NOFILE. p_ofile z fd = p_ofile ?x fd"
    using pn by (simp_all add: z_def s5(7) s4(4) y_def new_slot_def tf_def)
  have f: "fork p s = Inr (nextpid s, t)"
  proof -
    have "poke (\<lambda>m. put32 (memmove m tf (p_tf ?x) trapframe_bytes) (tf + tf_eax) 0)
        (set_proc np (\<lambda>x. x\<lparr>p_sz := p_sz ?x, p_parent := Some p\<rparr>) (set_proc np (\<lambda>x. x\<lparr>p_pgdir := d\<rparr>)
          ((set_proc np (new_slot (nextpid s) k) (s\<lparr>nextpid := nextpid s + 1, km := m1\<rparr>))\<lparr>km := m2\<rparr>))) = s4"
      by (simp add: s4_def set_proc_def poke_def m3_def y_def)
    moreover have "kend (set_proc np g (s\<lparr>nextpid := n, km := m1\<rparr>)) = kend s" "kdata (set_proc np g (s\<lparr>nextpid := n, km := m1\<rparr>)) = kdata s"
      "km (set_proc np g (s\<lparr>nextpid := n, km := m1\<rparr>)) = m1" for g n by simp_all
    moreover have "p_cwd (ptable s5 p) = Some ip" using pn ip by (simp add: s5(7) s4(4))
    ultimately show ?thesis
      using cp pn s5(1) zf(2) unfolding fork_def al
      by (simp add: Let_def new_slot_def tf_def [symmetric] idup_def s6_def [symmetric] t_def z_def m6 set_proc_def)
  qed
  have tt: "ptable t = (ptable s)(np := z)" "km t = m3" "nextpid t = nextpid s + 1" "ftable t = ftable s5" "pipes t = pipes s" "ofile t = ofile s5"
    "same_kernel s (t\<lparr>nextpid := nextpid s\<rparr>)"
    using s4 s5(4-7) by (simp_all add: t_def m6 same_kernel_def)
  have e: "same_ends s t" using s5(3) by (simp add: same_ends_def s4(1) tt(4))
  have m3: "same_off {k} m2 m3" "k_freelist m3 = k_freelist m2" unfolding m3_def by (rule frame_off(1) [OF tf_def]) simp
  have M: "mem_ok (kend s) m3 qs (insert np (used s)) ((\<lambda>q. p_pgdir (ptable s q))(np := d)) ((\<lambda>q. p_kstack (ptable s q))(np := k))
          ((\<lambda>q. p_sz (ptable s q))(np := p_sz ?x)) (pipe_pages s) U"
    and pc: "\<forall>v < (p_sz ?x + 4095) div 4096. page_copied (km s) (p_pgdir ?x) m3 d v" using new m3 by blast+
  have u: "used t = insert np (used s)" using np zf(1) by (auto simp: used_def tt(1))
  have k: "kend t = kend s" using tt(7) by (simp add: same_kernel_def)
  have "mem_ok (kend t) (km t) qs (used t) (\<lambda>p. p_pgdir (ptable t p)) (\<lambda>p. p_kstack (ptable t p)) (\<lambda>p. p_sz (ptable t p)) (pipe_pages t) U"
    unfolding k u same_ends_D(1) [OF e] tt(2) by (rule mem_ok_eq [OF M]) (simp add: tt(1) zf)
  then have "pages_inv t qs U" by (simp add: pages_inv_def)
  moreover have "refs_inv t"
    by (rule refs_inv_cong [OF s5(2) tt(4,6)]) (simp add: tt(1) z_def s5(7) s4(4))
  moreover have "pipes_inv t" by (rule pipes_inv_cong [OF inv(2) e tt(5)])
  ultimately have "files_state U t" by (auto simp: files_state_def)
  then have "kernel_ok U t"
    using kernel_add [OF ok np run(2) _ tt(1,7,3)] run(3) zf by (simp add: tf_def)
  moreover have "child_of s p t np"
  proof -
    have ptf: "p_tf ?x = p_kstack ?x + KSTACKSIZE - trapframe_bytes" using inv(3) run by (simp add: slots_ok_def)
    have "k_mem m3 (tf + i) = (if tf_eax \<le> i \<and> i < tf_eax + 4 then 0 else k_mem (km s) (p_tf ?x + i))" if "i < trapframe_bytes" for i
    proof -
      have "k_mem m2 (p_tf ?x + i) = k_mem (km s) (p_tf ?x + i)"
        using off [rule_format, of "KSTACKSIZE - trapframe_bytes + i"] that
        by (simp add: ptf KSTACKSIZE_def trapframe_bytes_def ac_simps)
      then show ?thesis unfolding m3_def using frame_off(2) [OF tf_def that, of "k_mem m2" "p_tf ?x"] by simp
    qed
    then show ?thesis using zf pc ip by (simp add: child_of_def Let_def tt(1,2))
  qed
  moreover have "p_killed z = p_killed (ptable s np)" by (simp add: z_def s5(7) s4(4) y_def new_slot_def)
  ultimately show thesis using that [OF f] m3(1) by (simp add: tt(1,2))
qed

lemma fork_ok:
  fixes s :: "'z psys_scheme"
  assumes ok: "kernel_ok U s" and c: "proc_of s c = Some p" and pid: "nextpid s < 2147483647"
  obtains (forked) np t ps where "fork p s = Inr (nextpid s, t)" "kernel_ok U t" "np < NPROC" "p_state (ptable s np) = UNUSED"
      "child_of s p t np" "\<forall>q. q \<noteq> np \<longrightarrow> ptable t q = ptable s q" "p_killed (ptable t np) = p_killed (ptable s np)"
      "find (\<lambda>q. p_state (ptable s q) = UNUSED) [0..<NPROC] = Some np" "pages_inv s ps U" "same_off (set ps) (km s) (km t)"
  | (failed) t ps where "fork p s = Inr (-1, t)" "kernel_ok U t" "used t = used s" "\<forall>q \<in> used s. ptable t q = ptable s q" "pages_inv s ps U"
      "used s = {..<NPROC} \<or> length ps \<le> 1027 + (p_sz (ptable s p) + 4095) div 4096" "same_off (set ps) (km s) (km t)"
      "\<exists>np x n m. np \<notin> used s \<and> t = s\<lparr>nextpid := n, km := m, ptable := (ptable s)(np := x)\<rparr>"
proof -
  note run = running_D [OF ok c]
  obtain ps where ps: "pages_inv s ps U" using ok by (auto simp: kernel_ok_def files_state_def)
  note M = ps [unfolded pages_inv_def]
  have np0: "0 \<le> nextpid s" using ok by (simp add: kernel_ok_def pids_ok_def)
  have kk: "kend s > KERNBASE" "kdata_ok (kdata s)" using ok by (simp_all add: kernel_ok_def)
  show thesis
  proof (cases rule: allocproc_ok [OF ps np0 pid, case_names none full found])
    case none
    have f: "fork p s = Inr (-1, s)" using none by (simp add: fork_def)
    have e: "\<exists>np x n m. np \<notin> used s \<and> s = s\<lparr>nextpid := n, km := m, ptable := (ptable s)(np := x)\<rparr>"
      by (intro exI [of _ NPROC] exI [of _ "ptable s NPROC"] exI [of _ "nextpid s"] exI [of _ "km s"]) (simp add: used_def)
    have "used s = {..<NPROC}" using none(2) by (auto simp: used_def)
    then show thesis by (intro that(2) [OF f ok refl _ ps _ same_off_refl e]) simp_all
  next
    case (full np)
    let ?t = "set_proc np (\<lambda>x. x\<lparr>p_pid := nextpid s, p_kstack := 0, p_state := UNUSED\<rparr>) (s\<lparr>nextpid := nextpid s + 1\<rparr>)"
    have f: "fork p s = Inr (-1, ?t)" using full(4) by (simp add: fork_def)
    have ok': "kernel_ok U ?t" "used ?t = used s"
      using kernel_unused [OF ok full(2), of ?t "(ptable s np)\<lparr>p_pid := nextpid s, p_kstack := 0, p_state := UNUSED\<rparr>" ps] M
      by (simp_all add: same_kernel_def set_proc_def)
    have o: "\<forall>q \<in> used s. ptable ?t q = ptable s q" using full(2) by (auto simp: used_def)
    have "np \<notin> used s" "?t = s\<lparr>nextpid := nextpid s + 1, km := km s, ptable := (ptable s)(np := ptable ?t np)\<rparr>"
      using full(2) by (simp_all add: used_def set_proc_def)
    then have "\<exists>np x n m. np \<notin> used s \<and> ?t = s\<lparr>nextpid := n, km := m, ptable := (ptable s)(np := x)\<rparr>" by blast
    then show thesis by (intro that(2) [OF f ok' o ps]) (use full(3) in simp_all)
  next
    case (found np k qs m0 m1)
    have pn: "np \<notin> used s" "np \<noteq> p" using found(2) run(2) by (auto simp: used_def)
    show thesis
    proof (cases rule: mem_fork [OF M [unfolded found(3)] run(2) pn(1) kk found(4-6), case_names copied full])
      case (copied d m2 rs)
      have "\<forall>q \<in> insert k (set qs). page_ok (kend s) q" using mem_ok_D(1) [OF M] found(3) by (simp add: free_pages_def)
      from same_off_page [OF copied(3) this mem_ok_D(3) [OF M run(2)]]
      have "same_page (km s) (p_kstack (ptable s p)) m2 (p_kstack (ptable s p))"
        using mem_ok_D(4) [OF M run(2)] found(3) by simp
      then have "\<forall>i < 4096. k_mem m2 (p_kstack (ptable s p) + i) = k_mem (km s) (p_kstack (ptable s p) + i)" by (simp add: same_page_def)
      from fork_copied [OF ok c found(1,2,7) copied(1,2) this copied(4)]
      obtain t where t: "fork p s = Inr (nextpid s, t)" "kernel_ok U t" "child_of s p t np" "\<forall>q. q \<noteq> np \<longrightarrow> ptable t q = ptable s q"
        "p_killed (ptable t np) = p_killed (ptable s np)" "same_off {k} m2 (km t)" .
      have "same_off (set ps) (km s) (km t)"
        unfolding found(3) list.set by (rule same_off_trans [OF copied(3) same_off_mono [OF t(6)]]) auto
      then show thesis by (rule that(1) [OF t(1,2) found(1,2) t(3-5) found(8) ps])
    next
      case (full m2 m3 rs)
      let ?t = "set_proc np (\<lambda>x. (new_slot (nextpid s) k x)\<lparr>p_pgdir := 0, p_kstack := 0, p_state := UNUSED\<rparr>)
        (s\<lparr>nextpid := nextpid s + 1, km := m3\<rparr>)"
      have "fork p s = Inr (-1, ?t)" using full(1,2) pn(2) unfolding fork_def found(7) by (simp add: new_slot_def set_proc_def)
      moreover have "kernel_ok U ?t" "used ?t = used s"
        using kernel_unused [OF ok found(2), of ?t "(new_slot (nextpid s) k (ptable s np))\<lparr>p_pgdir := 0, p_kstack := 0, p_state := UNUSED\<rparr>" rs] full(3)
        by (simp_all add: same_kernel_def set_proc_def new_slot_def)
      moreover have "\<forall>q \<in> used s. ptable ?t q = ptable s q" using pn(1) by auto
      moreover have "length ps \<le> 1027 + (p_sz (ptable s p) + 4095) div 4096" using full(4) found(3) by simp
      moreover have "same_off (set ps) (km s) (km ?t)" using full(5) found(3) by simp
      moreover have "?t = s\<lparr>nextpid := nextpid s + 1, km := m3, ptable := (ptable s)(np := ptable ?t np)\<rparr>" by (simp add: set_proc_def)
      ultimately show thesis using pn(1) by (intro that(2) [of ?t ps]) (assumption | rule ps disjI2 | blast)+
    qed
  qed
qed

end
