(* ===== verification/Proc_Boot.thy ===== *)
theory Proc_Boot
  imports Proc_Fork
begin

text \<open>
  The first process: \<open>userinit\<close> of \<open>src/proc.c\<close> and \<open>inituvm\<close> of \<open>src/vm.c\<close> bring a machine whose tables
  are empty into a state that satisfies the invariant of the kernel.
\<close>

section \<open>The first program\<close>

lemma inituvm_ok:
  fixes m :: "'z kmem_scheme"
  assumes own: "vm_own ke m d ps" and low: "\<forall>v < 0x80000. pte_of m d v = 0" and n: "length ps > 1026" and sz: "sz < PGSIZE"
  obtains m' qs where "inituvm d init sz m = Inr m'" "vm_own ke m' d qs" "set qs \<union> owned m' d = set ps \<union> owned m d"
    "sz_ok m' d PGSIZE" "\<forall>i < sz. k_mem m' (frame_of (pte_of m' d 0) + i) = init i" "upages m' d = {0}"
proof -
  obtain p rs where ps: "ps = p # rs" using n by (cases ps) auto
  have fp: "free_pages ke m (p # rs)" using own by (simp add: ps vm_own_def pt_wf_def)
  obtain m1 where m1: "kalloc m = (p, m1)" using kalloc_ok(2) [OF fp refl] by blast
  have z: "k_freelist (zero_page p m1) = k_freelist m1" by (simp add: zero_page_def)
  note a = own_kalloc [OF own [unfolded ps] m1 zero_page_off z]
  have x0: "(0 :: nat) < 0x80000" by simp
  have fl: "PTE_W OR PTE_U < 4096" "even (pte_of (zero_page p m1) d 0)" using low a(7) by (simp_all add: PTE_W_def PTE_U_def)
  have dn: "distinct rs" using fp by (simp add: free_pages_def)
  show thesis
  proof (cases rule: own_map [OF a(5) a(1,3,4) x0 fl(2,1), case_names mapped full])
    case (full m2)
    have "upages m2 d \<subseteq> {..<0}" using full(3) a(7) low by (simp add: upages_def)
    from space_bound [OF this, of "[]"] have "card (set rs \<union> owned (zero_page p m1) d) \<le> 1025" using full(4) by simp
    moreover have "finite (owned (zero_page p m1) d)" using a(7) low by (simp add: owned_def finite_tables uframes_def upages_def)
    ultimately have "length rs \<le> 1025" using card_mono [of "set rs \<union> owned (zero_page p m1) d" "set rs"] distinct_card [OF dn] by simp
    then show thesis using n ps by simp
  next
    case (mapped m2 qs)
    let ?m = "m2\<lparr>k_mem := put_bytes (k_mem m2) p init sz\<rparr>"
    have pte: "pte_of m2 d = (pte_of m d)(0 := V2P p OR (PTE_W OR PTE_U) OR PTE_P)" using mapped(3) a(7) by simp
    note nf = new_frame [OF a(1) fl(1)]
    have off: "same_off {p} m2 ?m" "k_freelist ?m = k_freelist m2"
      using sz by (auto simp: same_off_def off_pages_def put_bytes_def PGSIZE_def)
    have fp2: "free_pages ke m2 qs" using mapped(2) by (simp add: vm_own_def pt_wf_def)
    have Q: "\<forall>q \<in> {p}. page_ok ke q" "set qs \<inter> {p} = {}" using a(1,3) mapped(7) by auto
    note fp3 = free_pages_off [OF fp2 off(1) Q off(2)]
    have dis: "{p} \<inter> tables m2 d = {}" "set qs \<inter> owned m2 d = {}" using mapped(5) owned_pages [OF mapped(2)] by auto
    note c = own_cong [OF mapped(2) off(1) Q(1) dis(1) fp3 dis(2)]
    have u: "upages ?m d = {0}" using low nf(2) by (auto simp: upages_def c(3) pte)
    moreover have "sz_ok ?m d PGSIZE" using u low by (auto simp: sz_ok_def c(3) pte KERNBASE_def PGSIZE_def upages_def)
    moreover have "\<forall>i < sz. k_mem ?m (frame_of (pte_of ?m d 0) + i) = init i" unfolding c(3) pte by (simp add: nf(1) put_bytes_def)
    moreover have "set qs \<union> owned ?m d = set ps \<union> owned m d" using mapped(4) a(6) c(2) ps by auto
    moreover have "inituvm d init sz m = Inr ?m" using sz m1 a(2) mapped(1) by (simp add: inituvm_def)
    ultimately show thesis using that [OF _ c(1)] by blast
  qed
qed

text \<open>The root directory, when no inode is in use.\<close>

lemma namei_root:
  assumes "\<forall>i. i_ref (icache s i) = 0 \<and> ad_busy (xv6fs_addrs s i) = 0 \<and> ad_busy (ext2fs_addrs s i) = 0"
  obtains ip t where "namei devsw [slash] s = Inr (Some ip, t)" "fsys.more t = fsys.more s"
proof -
  have "find P [0..<NINODE] = Some 0" if "P 0" for P using that by (simp add: NINODE_def upt_rec)
  moreover have "find P [0..<NINODE] = None" if "\<And>i. \<not> P i" for P using that by (simp add: find_None_iff)
  ultimately obtain t where t: "iget ROOTDEV ROOTINO s = Inr (0, t)" "fsys.more t = fsys.more s"
    using assms by (simp add: iget_def Let_def NINODE_def set_xaddrs_def set_inode_def)
  have "strncmp (bytes_at [slash]) (bytes_at mnt) 4 \<noteq> 0" 
  proof -
    have four: "(4 :: nat) = Suc (Suc (Suc (Suc 0)))" by simp
    show ?thesis unfolding four by (simp add: bytes_at_def mnt_def slash_def)
  qed
  then show thesis using that t by (simp add: namei_def namex_def namex_loop.simps skipelem_def)
qed

section \<open>The first process\<close>

text \<open>The state that \<open>main\<close> has built when it calls \<open>userinit\<close>: empty tables and free memory.\<close>

definition fresh :: "nat set \<Rightarrow> 'z psys_scheme \<Rightarrow> bool" where
  "fresh U s \<longleftrightarrow> kend s > KERNBASE \<and> kdata_ok (kdata s) \<and> nextpid s = 1 \<and> proc_of s = (\<lambda>_. None) \<and> ofile s = (\<lambda>_. None) \<and>
     (\<forall>p. p_state (ptable s p) = UNUSED \<and> p_parent (ptable s p) = None \<and> p_ofile (ptable s p) = (\<lambda>_. None)) \<and>
     (\<forall>f. f_ref (ftable s f) = 0 \<and> f_type (ftable s f) = FD_NONE) \<and>
     (\<forall>i. i_ref (icache s i) = 0 \<and> ad_busy (xv6fs_addrs s i) = 0 \<and> ad_busy (ext2fs_addrs s i) = 0) \<and>
     (\<exists>ps. free_pages (kend s) (km s) ps \<and> set ps = U \<and> length ps > 2100)"

text \<open>The stores to the first trap frame.\<close>

definition first_frame :: "nat \<Rightarrow> mem \<Rightarrow> mem" where
  "first_frame tf m = (let uds = SEG_UDATA * 8 + DPL_USER in
     put32 (put32 (put32 (put16 (put16 (put16 (put16 (memset m tf 0 trapframe_bytes) (tf + tf_cs) (SEG_UCODE * 8 + DPL_USER))
       (tf + tf_ds) uds) (tf + tf_es) uds) (tf + tf_ss) uds) (tf + tf_eflags) FL_IF) (tf + tf_esp) PGSIZE) (tf + tf_eip) 0)"

lemmas tf_offsets = KSTACKSIZE_def trapframe_bytes_def tf_eax_def tf_es_def tf_ds_def tf_eip_def tf_cs_def tf_eflags_def tf_esp_def tf_ss_def

lemma first_frame_off:
  assumes "tf = k + KSTACKSIZE - trapframe_bytes"
  shows "a < k \<or> k + 4096 \<le> a \<Longrightarrow> first_frame tf m a = m a"
  using assms by (auto simp: first_frame_def Let_def put32_out put16_out memset_eq tf_offsets)

lemma first_frame_regs:
  "get32 (first_frame tf m) (tf + tf_eip) = 0" "get32 (first_frame tf m) (tf + tf_esp) = PGSIZE"
  "get32 (first_frame tf m) (tf + tf_eflags) = FL_IF" "get16 (first_frame tf m) (tf + tf_cs) = SEG_UCODE * 8 + DPL_USER"
  by (simp_all add: first_frame_def Let_def le_simps tf_offsets PGSIZE_def FL_IF_def SEG_UCODE_def DPL_USER_def)

text \<open>Memory for the first process: a stack \<open>k\<close>, an address space and its program.\<close>

lemma boot_mem:
  fixes m :: "'z kmem_scheme"
  assumes fp: "free_pages ke m (k # ps)" and n: "length ps > 2099" and c: "ke > KERNBASE" "kdata_ok kd" and sz: "isz < PGSIZE"
    and a: "kalloc m = (k, m0)" and w: "same_off {k} m0 m1" "k_freelist m1 = k_freelist m0"
  obtains d m2 m3 qs where "setupkvm ke kd m1 = Inr (d, m2)" "d \<noteq> 0" "inituvm d init isz m2 = Inr m3"
    "\<forall>m4. same_off {k} m3 m4 \<and> k_freelist m4 = k_freelist m3 \<longrightarrow>
       mem_ok ke m4 qs {n} ((\<lambda>_. 0)(n := d)) ((\<lambda>_. 0)(n := k)) ((\<lambda>_. 0)(n := PGSIZE)) {} (insert k (set ps)) \<and>
       (\<forall>i < isz. k_mem m4 (frame_of (pte_of m4 d 0) + i) = init i)"
proof -
  have k: "page_ok ke k" "k \<notin> set ps" "distinct ps" using fp by (simp_all add: free_pages_def)
  have "free_pages ke m0 ps" using kalloc_ok(2) [OF fp refl] a by auto
  then have f1: "free_pages ke m1 ps" by (rule free_pages_off [OF _ w(1) _ _ w(2)]) (use k in auto)
  show thesis
  proof (cases rule: setupkvm_ok [OF f1 c, case_names built full])
    case (full m2 qs)
    then show thesis using n by simp
  next
    case (built d m2 qs)
    have low: "\<forall>v < 0x80000. pte_of m2 d v = 0" unfolding built(5) using regions_low [OF kmap_regions [OF c(2)]] by simp
    have "card (set ps) \<le> length qs + 1025" using space_bound [of m2 d 0 qs] built(4,6) by simp
    then have "length qs > 1026" using n distinct_card [OF k(3)] by simp
    from inituvm_ok [OF built(3) low this sz] obtain m3 rs where m3: "inituvm d init isz m2 = Inr m3" "vm_own ke m3 d rs"
      "set rs \<union> owned m3 d = set qs \<union> owned m2 d" "sz_ok m3 d PGSIZE" "\<forall>i < isz. k_mem m3 (frame_of (pte_of m3 d 0) + i) = init i"
      "upages m3 d = {0}" by metis
    have V: "set rs \<union> owned m3 d = set ps" using m3(3) built(4) by simp
    have dis: "set rs \<inter> owned m3 d = {}" using owned_pages [OF m3(2)] by auto
    have "mem_ok ke m3 rs {} (\<lambda>_. 0) (\<lambda>_. 0) (\<lambda>_. 0) {} (set ps - owned m3 d)"
      using m3(2) V dis by (auto simp: mem_ok_def vm_own_def pt_wf_def)
    note ad = mem_adopt [OF this _ k(1,2) m3(2) _ m3(4), of n]
    have user: "k_mem m4 (frame_of (pte_of m3 d 0) + i) = init i" if "same_off {k} m3 m4" "i < isz" for m4 i
    proof -
      have "frame_of (pte_of m3 d 0) \<in> owned m3 d" using user_frame m3(6) by blast
      then have "page_ok ke (frame_of (pte_of m3 d 0))" "frame_of (pte_of m3 d 0) \<notin> {k}" using owned_pages [OF m3(2)] V k(2) by auto
      from same_off_page [OF that(1) _ this] have "same_page m3 (frame_of (pte_of m3 d 0)) m4 (frame_of (pte_of m3 d 0))" using k(1) by simp
      then show ?thesis using m3(5) that(2) sz by (simp add: same_page_def PGSIZE_def)
    qed
    have sub: "owned m3 d \<subseteq> set ps" using V by auto
    have "mem_ok ke m4 rs {n} ((\<lambda>_. 0)(n := d)) ((\<lambda>_. 0)(n := k)) ((\<lambda>_. 0)(n := PGSIZE)) {} (insert k (set ps)) \<and>
       (\<forall>i < isz. k_mem m4 (frame_of (pte_of m4 d 0) + i) = init i)" if "same_off {k} m3 m4" "k_freelist m4 = k_freelist m3" for m4
      using ad [OF _ sub that] user [OF that(1)] by simp
    then show thesis using that [OF built(1,2) m3(1), of rs] by blast
  qed
qed

lemma userinit_ok:
  fixes s :: "'z psys_scheme"
  assumes fr: "fresh U s" and sz: "isz < PGSIZE"
  obtains p t where "userinit devsw init isz s = Inr t" "kernel_ok U t" "initproc t = Some p" "used t = {p}" "p_state (ptable t p) = RUNNABLE"
    "\<forall>i < isz. k_mem (km t) (frame_of (pte_of (km t) (p_pgdir (ptable t p)) 0) + i) = init i"
    "get32 (k_mem (km t)) (p_tf (ptable t p) + tf_eip) = 0" "get32 (k_mem (km t)) (p_tf (ptable t p) + tf_esp) = PGSIZE"
    "p_sz (ptable t p) = PGSIZE" "p_ofile (ptable t p) = (\<lambda>_. None)" "p_parent (ptable t p) = None"
    "\<forall>q. q \<noteq> p \<longrightarrow> ptable t q = ptable s q" "nextpid t = 2" "proc_of t = (\<lambda>_. None)" "pipe_pages t = {}"
proof -
  obtain ps where ps: "free_pages (kend s) (km s) ps" "set ps = U" "length ps > 2100" using fr by (auto simp: fresh_def)
  have c: "kend s > KERNBASE" "kdata_ok (kdata s)" "nextpid s = 1" "proc_of s = (\<lambda>_. None)" "ofile s = (\<lambda>_. None)"
    and pt: "\<And>p. p_state (ptable s p) = UNUSED \<and> p_parent (ptable s p) = None \<and> p_ofile (ptable s p) = (\<lambda>_. None)"
    and ft: "\<And>f. f_ref (ftable s f) = 0 \<and> f_type (ftable s f) = FD_NONE"
    and ic: "\<forall>i. i_ref (icache s i) = 0 \<and> ad_busy (xv6fs_addrs s i) = 0 \<and> ad_busy (ext2fs_addrs s i) = 0"
    using fr by (auto simp: fresh_def)
  have us: "used s = {}" "pipe_pages s = {}" using pt ft by (auto simp: used_def pipe_pages_def)
  have pg: "pages_inv s ps U" using ps(1,2) by (simp add: pages_inv_def us mem_ok_def)
  have pid: "0 \<le> nextpid s" "nextpid s < 2147483647" using c(3) by simp_all
  show thesis
  proof (cases rule: allocproc_ok [OF pg pid, case_names none full found])
    case none
    show thesis using none(2) [rule_format, of 0] pt [of 0] by (simp add: NPROC_def)
  next
    case (full np)
    then show thesis using ps(3) by simp
  next
    case (found np k qs m0 m1)
    have n: "length qs > 2099" using ps(3) found(3) by simp
    obtain d m2 m3 rs where b: "setupkvm (kend s) (kdata s) m1 = Inr (d, m2)" "d \<noteq> 0" "inituvm d init isz m2 = Inr m3"
      "\<forall>m4. same_off {k} m3 m4 \<and> k_freelist m4 = k_freelist m3 \<longrightarrow>
       mem_ok (kend s) m4 rs {np} ((\<lambda>_. 0)(np := d)) ((\<lambda>_. 0)(np := k)) ((\<lambda>_. 0)(np := PGSIZE)) {} (insert k (set qs)) \<and>
       (\<forall>i < isz. k_mem m4 (frame_of (pte_of m4 d 0) + i) = init i)"
      by (rule boot_mem [OF ps(1) [unfolded found(3)] n c(1,2) sz found(4-6)])
    define tf where "tf = k + KSTACKSIZE - trapframe_bytes"
    define m4 where "m4 = m3\<lparr>k_mem := first_frame tf (k_mem m3)\<rparr>"
    define y where "y = (new_slot (nextpid s) k (ptable s np))\<lparr>p_pgdir := d, p_sz := PGSIZE,
      p_name := safestrcpy (p_name (ptable s np)) (bytes_at [105, 110, 105, 116, 99, 111, 100, 101]) 16\<rparr>"
    define s7 where "s7 = s\<lparr>nextpid := 2, initproc := Some np, ptable := (ptable s)(np := y), km := m4\<rparr>"
    have "\<forall>i. i_ref (icache s7 i) = 0 \<and> ad_busy (xv6fs_addrs s7 i) = 0 \<and> ad_busy (ext2fs_addrs s7 i) = 0" using ic by (simp add: s7_def)
    then obtain ip s8 where s8: "namei devsw [slash] s7 = Inr (Some ip, s8)" "fsys.more s8 = fsys.more s7" by (rule namei_root)
    note m8 = psys_more [OF s8(2)]
    define z where "z = y\<lparr>p_cwd := Some ip, p_state := RUNNABLE\<rparr>"
    define t where "t = s8\<lparr>ptable := (ptable s8)(np := z)\<rparr>"
    have zf: "p_state z = RUNNABLE" "p_pid z = 1" "p_parent z = None" "p_cwd z = Some ip" "p_kstack z = k" "p_tf z = tf"
      "p_pgdir z = d" "p_sz z = PGSIZE" "p_ofile z = (\<lambda>_. None)"
      using pt [of np] c(3) by (simp_all add: z_def y_def new_slot_def tf_def)
    have run: "userinit devsw init isz s = Inr t"
    proof -
      have "set_proc np (\<lambda>x. x\<lparr>p_name := safestrcpy (p_name x) (bytes_at [105, 110, 105, 116, 99, 111, 100, 101]) 16\<rparr>)
          (poke (\<lambda>m. put32 (put32 (put32 m (tf + tf_eflags) FL_IF) (tf + tf_esp) PGSIZE) (tf + tf_eip) 0)
          (poke (\<lambda>m. put16 (put16 (put16 m (tf + tf_ds) (SEG_UDATA * 8 + DPL_USER)) (tf + tf_es) (SEG_UDATA * 8 + DPL_USER)) (tf + tf_ss) (SEG_UDATA * 8 + DPL_USER))
          (poke (\<lambda>m. put16 m (tf + tf_cs) (SEG_UCODE * 8 + DPL_USER)) (poke (\<lambda>m. memset m tf 0 trapframe_bytes)
          (set_proc np (\<lambda>x. x\<lparr>p_pgdir := d, p_sz := PGSIZE\<rparr>)
            ((set_proc np (new_slot (nextpid s) k) (s\<lparr>nextpid := nextpid s + 1, km := m1\<rparr>))\<lparr>initproc := Some np, km := m3\<rparr>)))))) = s7"
        using c(3) by (simp add: s7_def set_proc_def poke_def m4_def first_frame_def Let_def y_def new_slot_def)
      then show ?thesis using b(1-3) s8(1) unfolding userinit_def found(7)
        by (simp add: Let_def new_slot_def tf_def [symmetric] t_def z_def m8 s7_def set_proc_def)
    qed
    have tt: "ptable t = (ptable s)(np := z)" "km t = m4" "nextpid t = 2" "ftable t = ftable s" "pipes t = pipes s" "ofile t = (\<lambda>_. None)"
      "kend t = kend s" "kdata t = kdata s" "initproc t = Some np" "proc_of t = (\<lambda>_. None)"
      using c(4,5) by (simp_all add: t_def m8 s7_def)
    have ut: "used t = {np}" using pt found(1) zf(1) by (auto simp: used_def tt(1))
    have pp: "pipe_pages t = {}" using ft by (auto simp: pipe_pages_def tt(4))
    have "same_off {k} m3 m4" "k_freelist m4 = k_freelist m3"
      unfolding m4_def by (rule poke_off(1), rule first_frame_off [OF tf_def], simp, simp)
    then have M: "mem_ok (kend s) m4 rs {np} ((\<lambda>_. 0)(np := d)) ((\<lambda>_. 0)(np := k)) ((\<lambda>_. 0)(np := PGSIZE)) {} (insert k (set qs))"
      and user: "\<forall>i < isz. k_mem m4 (frame_of (pte_of m4 d 0) + i) = init i" using b(4) by blast+
    have "U = insert k (set qs)" using ps(2) found(3) by simp
    then have "mem_ok (kend t) (km t) rs (used t) (\<lambda>p. p_pgdir (ptable t p)) (\<lambda>p. p_kstack (ptable t p)) (\<lambda>p. p_sz (ptable t p)) (pipe_pages t) U"
      using mem_ok_eq [OF M, of "\<lambda>p. p_pgdir (ptable t p)" "\<lambda>p. p_kstack (ptable t p)" "\<lambda>p. p_sz (ptable t p)"] zf
      by (simp add: ut pp tt)
    then have "pages_inv t rs U" by (simp add: pages_inv_def)
    moreover have "holders t f = {}" "fds f t = {}" for f using pt zf(9) by (auto simp: holders_def fds_def tt)
    then have "refs_inv t" using ft by (simp add: refs_inv_def files_ok_def files_typed_def refs_def tt)
    moreover have "pipes_inv t" using ft by (simp add: pipes_inv_def pipe_end_def pp tt(4))
    ultimately have "files_state U t" by (auto simp: files_state_def)
    moreover have "pids_ok t" "tree_ok t" "cpus_ok t" "slots_ok t"
      using zf pt by (auto simp: pids_ok_def tree_ok_def cpus_ok_def slots_ok_def ut tt tf_def)
    ultimately have "kernel_ok U t" using c(1,2) by (simp add: kernel_ok_def tt)
    then show thesis
      using that [OF run _ tt(9) ut] pp user first_frame_regs(1,2) [of tf "k_mem m3"] zf by (simp add: tt(1,2,3,10)) (simp add: m4_def)
  qed
qed

end
