(* ===== verification/Proc_Calls.thy ===== *)
theory Proc_Calls
  imports Proc_Inv
begin

text \<open>
  The file system calls among the processes. A process that runs on a CPU calls one of the functions
  of \<open>src/sysfile.c\<close>, which see its descriptors, its directory and its memory through \<open>myproc()\<close>. The lemmas
  show that every call keeps the invariant of the kernel: descriptors and reference counts agree
  over all processes, each end of a pipe is one open file, and the page of a pipe has one owner.
\<close>

section \<open>Pipes and pages\<close>

definition pipes_state :: "nat set \<Rightarrow> 'z psys_scheme \<Rightarrow> bool" where
  "pipes_state U s \<longleftrightarrow> pipes_inv s \<and> (\<exists>ps. pages_inv s ps U)"

definition call_ok :: "nat set \<Rightarrow> 'z psys_scheme \<Rightarrow> 'z psys_scheme \<Rightarrow> bool" where
  "call_ok U s t \<longleftrightarrow> pipes_state U t \<and> ptable t = ptable s \<and> same_kernel s t"

lemma call_ok_trans: "call_ok U s t \<Longrightarrow> call_ok U t u \<Longrightarrow> call_ok U s u"
  by (auto simp: call_ok_def intro: same_kernel_trans)

lemma call_ok_state: "call_ok U s t \<Longrightarrow> pipes_state U t"
  by (simp add: call_ok_def)

text \<open>A call that changes no end of a pipe.\<close>

lemma quiet_ok:
  fixes s t :: "'z psys_scheme"
  assumes inv: "pipes_state U s" and e: "pipe_end t = pipe_end s"
    and o: "\<And>x. p_readopen (pipes t x) = p_readopen (pipes s x) \<and> p_writeopen (pipes t x) = p_writeopen (pipes s x)"
    and k: "km t = km s" "ptable t = ptable s" "same_kernel s t"
  shows "call_ok U s t"
proof -
  obtain ps where ps: "pages_inv s ps U" using inv by (auto simp: pipes_state_def)
  have p: "pipe_pages t = pipe_pages s" by (rule set_eqI) (simp add: pipe_pages_end e)
  have u: "used t = used s" by (simp add: used_def k(2))
  have "kend t = kend s" using k(3) by (simp add: same_kernel_def)
  then have "pages_inv t ps U" by (rule pages_inv_cong [OF ps _ k(1) p u]) (simp add: k(2))
  moreover have "pipes_inv t" using inv o by (simp add: pipes_state_def pipes_inv_def e p)
  ultimately show ?thesis using k by (auto simp: call_ok_def pipes_state_def)
qed

lemma open_ok:
  fixes s t :: "'z psys_scheme"
  assumes "pipes_state U s" and "same_open s t"
  shows "call_ok U s t"
proof (rule quiet_ok [OF assms(1)])
  show "pipe_end t = pipe_end s" using same_open_file [OF assms(2)] by (simp add: pipe_end_def fun_eq_iff)
  have "ksys.more t = ksys.more s" "kend t = kend s" using assms(2) by (simp_all add: same_open_def)
  then show "ptable t = ptable s" "same_kernel s t" unfolding same_kernel_def by (cases s; cases t; simp)+
qed (use assms(2) in \<open>simp_all add: same_open_def\<close>)

lemma more_ok:
  fixes s t :: "'z psys_scheme"
  assumes "pipes_state U s" and "fsys.more t = fsys.more s"
  shows "call_ok U s t"
  by (rule open_ok [OF assms(1) same_open_more [OF assms(2)]])

lemma close_ok:
  fixes s t :: "'z psys_scheme"
  assumes "pipes_state U s" and "fileclose f s = Inr t" and "f_ref (ftable s f) \<ge> 1"
  shows "call_ok U s t"
  using assms fileclose_keeps [OF _ _ assms(2,3)] by (auto simp: call_ok_def pipes_state_def)

lemma refl_ok: "pipes_state U s \<Longrightarrow> call_ok U s s"
  by (rule quiet_ok) (simp_all add: same_kernel_def)

text \<open>Changes of descriptors, and of counts, offsets and types of files that are not ends of pipes.\<close>

lemma descr_ok [simp]: "call_ok U s (t\<lparr>ofile := g\<rparr>) = call_ok U s t" "call_ok U s (t\<lparr>umem := m\<rparr>) = call_ok U s t"
  "pipes_state U (t\<lparr>ofile := g\<rparr>) = pipes_state U t"
  by (simp_all add: call_ok_def pipes_state_def pipes_inv_def pages_inv_def pipe_end_def pipe_pages_def used_def same_kernel_def)

lemma set_file_ok:
  fixes s :: "'z psys_scheme"
  assumes "pipes_state U s" and "\<And>x. pipe_end (set_file f g s) f x = pipe_end s f x"
  shows "call_ok U s (set_file f g s)"
proof (rule quiet_ok [OF assms(1)])
  show "pipe_end (set_file f g s) = pipe_end s"
  proof
    fix h
    show "pipe_end (set_file f g s) h = pipe_end s h"
      using assms(2) by (cases "h = f") (auto simp: pipe_end_def fun_eq_iff)
  qed
qed (simp_all add: same_kernel_def)

lemma set_ref_ok: "pipes_state U s \<Longrightarrow> call_ok U s (set_file f (\<lambda>x. x\<lparr>f_ref := g x\<rparr>) s)"
  by (rule set_file_ok) (simp_all add: pipe_end_def fun_eq_iff)

lemma filealloc_call:
  assumes "pipes_state U s" and "filealloc s = (r, t)"
  shows "call_ok U s t"
  using assms set_ref_ok [OF assms(1), of _ "\<lambda>_. 1"] refl_ok [OF assms(1)]
  by (auto simp: filealloc_def split: option.splits)

lemma fdalloc_call:
  assumes "pipes_state U s" and "fdalloc f s = (r, t)"
  shows "call_ok U s t"
  using assms refl_ok [OF assms(1)] by (auto simp: fdalloc_def split: option.splits)

section \<open>Calls\<close>

lemma sys_dup_call:
  assumes inv: "pipes_state U s" and t: "sys_dup s = Inr (r, t)"
  shows "call_ok U s t"
proof (cases "argfd 0 s")
  case (Some a)
  obtain fd f where a: "a = (fd, f)" by (cases a)
  obtain nfd s1 where d: "fdalloc f s = (nfd, s1)" by fastforce
  note s1 = fdalloc_call [OF inv d]
  show ?thesis
  proof (cases nfd)
    case None
    then show ?thesis using t Some a d s1 by (simp add: sys_dup_def)
  next
    case (Some n)
    then obtain g where "filedup f s1 = Inr (g, t)" using t \<open>argfd 0 s = Some a\<close> a d by (auto simp: sys_dup_def rbind_eq_Inr)
    then have "t = set_file f (\<lambda>x. x\<lparr>f_ref := f_ref x + 1\<rparr>) s1" by (auto simp: filedup_def split: if_splits)
    then show ?thesis using call_ok_trans [OF s1 set_ref_ok [OF call_ok_state [OF s1], of f "\<lambda>x. f_ref x + 1"]] by simp
  qed
qed (use t refl_ok [OF inv] in \<open>simp add: sys_dup_def\<close>)

lemma sys_close_call:
  assumes inv: "pipes_state U s" and fi: "files_inv oth s" and t: "sys_close s = Inr (r, t)"
  shows "call_ok U s t"
proof (cases "argfd 0 s")
  case (Some a)
  obtain fd f where a: "a = (fd, f)" by (cases a)
  note h = argfd_held [OF Some [unfolded a]]
  let ?s1 = "s\<lparr>ofile := (ofile s)(fd := None)\<rparr>"
  have c: "fileclose f ?s1 = Inr t" using t Some a by (auto simp: sys_close_def rbind_eq_Inr)
  have "f_ref (ftable ?s1 f) \<ge> 1" using files_ok_held [of oth s, OF _ h(2,1)] fi by (simp add: files_inv_def)
  from close_ok [OF _ c this] have "call_ok U ?s1 t" using inv by simp
  then show ?thesis by (rule call_ok_trans [rotated]) (simp add: refl_ok inv)
qed (use t refl_ok [OF inv] in \<open>simp add: sys_close_def\<close>)

lemma open_fd_call:
  fixes s :: "'z psys_scheme"
  assumes inv: "pipes_state U s" and fi: "files_inv oth s" and t: "open_fd ip omode s = Inr (r, t)"
  shows "call_ok U s t"
proof (cases "filealloc s")
  case fa: (Pair fo s1)
  note a1 = filealloc_call [OF inv fa]
  note i1 = call_ok_state [OF a1]
  show ?thesis
  proof (cases fo)
    case None
    then obtain s4 where o: "vop_iunlockput ip s1 = Inr s4" "end_op s4 = Inr t"
      using t fa by (auto simp: open_fd_def rbind_eq_Inr)
    have "fsys.more t = fsys.more s1" using vop_iunlockput_keeps [OF o(1)] end_op_keeps [OF o(2)] by argo
    then show ?thesis by (rule call_ok_trans [OF a1 more_ok [OF i1]])
  next
    case (Some f)
    note a = filealloc_ok [OF fi [unfolded files_inv_def, THEN conjunct1] fa [unfolded Some]]
    obtain fdo s2 where fd: "fdalloc f s1 = (fdo, s2)" by fastforce
    note a2 = fdalloc_call [OF i1 fd]
    note i2 = call_ok_state [OF a2]
    have f2: "ftable s2 = ftable s1" using fd by (auto simp: fdalloc_def split: option.splits)
    note a12 = call_ok_trans [OF a1 a2]
    show ?thesis
    proof (cases fdo)
      case None
      then obtain s3 s4 where o: "fileclose f s2 = Inr s3" "vop_iunlockput ip s3 = Inr s4" "end_op s4 = Inr t"
        using t fa Some fd by (auto simp: open_fd_def rbind_eq_Inr)
      have c: "call_ok U s2 s3" by (rule close_ok [OF i2 o(1)]) (simp add: f2 a(4))
      have "fsys.more t = fsys.more s3" using vop_iunlockput_keeps [OF o(2)] end_op_keeps [OF o(3)] by argo
      then have "call_ok U s3 t" by (rule more_ok [OF call_ok_state [OF c]])
      then show ?thesis using call_ok_trans [OF a12 call_ok_trans [OF c]] by blast
    next
      case fdn: (Some n)
      let ?g = "\<lambda>x. x\<lparr>f_type := FD_INODE, f_ip := ip, f_off := 0, f_readable := omode AND O_WRONLY = 0,
            f_writable := omode AND O_WRONLY \<noteq> 0 \<or> omode AND O_RDWR \<noteq> 0\<rparr>"
      obtain s3 s4 where o: "vop_iunlock ip s2 = Inr s3" "end_op s3 = Inr s4" and t': "t = set_file f ?g s4"
        using t fa Some fd fdn by (auto simp: open_fd_def rbind_eq_Inr)
      have m: "fsys.more s4 = fsys.more s2" using vop_iunlock_keeps [OF o(1)] end_op_keeps [OF o(2)] by argo
      note c = more_ok [OF i2 m]
      have "f_type (ftable s4 f) = FD_NONE" using psys_more(8) [OF m] f2 a(5) by simp
      then have "call_ok U s4 t" unfolding t' by (intro set_file_ok [OF call_ok_state [OF c]]) (simp add: pipe_end_def fun_eq_iff)
      then show ?thesis using call_ok_trans [OF a12 call_ok_trans [OF c]] by blast
    qed
  qed
qed

lemma sys_open_call:
  fixes s :: "'z psys_scheme"
  assumes d: "dev_keeps devsw" and inv: "pipes_state U s" and fi: "files_inv oth s" and t: "sys_open devsw stk s = Inr (r, t)"
  shows "call_ok U s t"
proof (cases "arg_path 0 s = None \<or> argint 1 s = None")
  case False
  then obtain path omode where "arg_path 0 s = Some path" "argint 1 s = Some omode" by auto
  then obtain s1 ro s2 where o: "begin_op s = Inr s1" "open_inode devsw stk path omode s1 = Inr (ro, s2)"
    and e: "case ro of None \<Rightarrow> end_op s2 = Inr t | Some ip \<Rightarrow> open_fd ip omode s2 = Inr (r, t)"
    using t by (auto simp: sys_open_def rbind_eq_Inr split: option.splits)
  have m: "fsys.more s2 = fsys.more s"
    using open_inode_keeps [OF d, rule_format, OF o(2)] begin_op_keeps [OF o(1)] by simp
  note c = more_ok [OF inv m] and i = files_inv_more [OF fi m]
  show ?thesis
  proof (cases ro)
    case None
    then have "call_ok U s2 t" using e by (intro more_ok [OF call_ok_state [OF c] end_op_keeps]) simp
    then show ?thesis by (rule call_ok_trans [OF c])
  next
    case (Some ip)
    then have "call_ok U s2 t" using open_fd_call [OF call_ok_state [OF c] i] e by simp
    then show ?thesis by (rule call_ok_trans [OF c])
  qed
qed (use t refl_ok [OF inv] in \<open>auto simp: sys_open_def split: option.splits\<close>)

text \<open>\<open>pipealloc\<close>: the page comes from the free list, and its two ends are files that were free.\<close>

lemma mem_add_pipe:
  assumes "mem_ok ke m ps I dir ks sz X U" and "page_ok ke x" and "x \<notin> U"
  shows "mem_ok ke m ps I dir ks sz (insert x X) (insert x U)"
proof -
  note D = mem_ok_D [OF assms(1)]
  have "x \<notin> set ps" "\<forall>p \<in> I. x \<notin> insert (ks p) (owned m (dir p))" using assms(3) unfolding D(12) by auto
  moreover have "insert x U = set ps \<union> (\<Union>p \<in> I. insert (ks p) (owned m (dir p))) \<union> insert x X" unfolding D(12) by auto
  ultimately show ?thesis using assms(1,2) unfolding mem_ok_def by blast
qed

lemma new_pipe_ok:
  fixes s :: "'z psys_scheme"
  assumes inv: "pipes_state U s" and k: "kalloc (km s) = (x, m)" "x \<noteq> 0"
    and f: "f_type (ftable s f) = FD_NONE" "f_type (ftable s g) = FD_NONE" "f \<noteq> g"
    and t: "t = set_file g (\<lambda>y. y\<lparr>f_type := FD_PIPE, f_readable := False, f_writable := True, f_pipe := x\<rparr>)
      (set_file f (\<lambda>y. y\<lparr>f_type := FD_PIPE, f_readable := True, f_writable := False, f_pipe := x\<rparr>)
        (set_pipe x (pipe_init junk) (s\<lparr>km := m\<rparr>)))"
  shows "call_ok U s t"
proof -
  obtain ps where pi: "pipes_inv s" and ps: "pages_inv s ps U" using inv by (auto simp: pipes_state_def)
  note M = ps [unfolded pages_inv_def]
  have fp: "free_pages (kend s) (km s) ps" by (rule mem_ok_D(1) [OF M])
  obtain y qs where qs: "ps = y # qs" using kalloc_ok(1) [OF fp] k by (cases ps) auto
  obtain m' where m': "kalloc (km s) = (y, m')" "page_ok (kend s) y" "y \<in> U"
    "mem_ok (kend s) m' qs (used s) (\<lambda>p. p_pgdir (ptable s p)) (\<lambda>p. p_kstack (ptable s p)) (\<lambda>p. p_sz (ptable s p)) (pipe_pages s) (U - {y})"
    by (rule mem_kalloc [OF M [unfolded qs]])
  have e: "y = x" "m' = m" using m'(1) k(1) by simp_all
  have "y \<in> set ps" using qs by simp
  then have nx: "x \<notin> pipe_pages s" using mem_ok_D(9) [OF M] e(1) by blast
  have ends: "pipe_end t h z w \<longleftrightarrow> (if h = f then z = x \<and> \<not> w else if h = g then z = x \<and> w else pipe_end s h z w)" for h z w
    using f(3) by (auto simp: t pipe_end_def)
  have old: "pipe_end s h z w \<Longrightarrow> h \<noteq> f \<and> h \<noteq> g \<and> z \<noteq> x" for h z w
    using f(1,2) nx by (auto simp: pipe_end_def pipe_pages_def)
  have pp: "pipe_pages t = insert x (pipe_pages s)"
  proof (rule set_eqI)
    fix z
    have "(\<exists>h w. pipe_end t h z w) \<longleftrightarrow> z = x \<or> (\<exists>h w. pipe_end s h z w)" unfolding ends using old by metis
    then show "z \<in> pipe_pages t \<longleftrightarrow> z \<in> insert x (pipe_pages s)" by (simp add: pipe_pages_end)
  qed
  have "mem_ok (kend s) m qs (used s) (\<lambda>p. p_pgdir (ptable s p)) (\<lambda>p. p_kstack (ptable s p)) (\<lambda>p. p_sz (ptable s p))
      (insert x (pipe_pages s)) (insert x (U - {x}))"
    by (rule mem_add_pipe) (use m'(2,4) e in simp_all)
  moreover have "insert x (U - {x}) = U" using m'(3) e by auto
  moreover have tt: "kend t = kend s" "km t = m" "ptable t = ptable s" "used t = used s" "pipes t = (pipes s)(x := pipe_init junk)"
    "same_kernel s t" by (simp_all add: t used_def same_kernel_def)
  ultimately have "pages_inv t qs U" by (simp add: pages_inv_def pp)
  moreover have "pipes_inv t"
  proof -
    have "pipe_end s h z w \<Longrightarrow> pipe_end s h' z w \<Longrightarrow> h = h'" for h h' z w using pi unfolding pipes_inv_def by blast
    then have one: "h = h'" if "pipe_end t h z w" "pipe_end t h' z w" for h h' z w
      using that old unfolding ends by (auto split: if_splits)
    have "(p_writeopen (pipes t z) \<longleftrightarrow> (\<exists>h. pipe_end t h z True)) \<and> (p_readopen (pipes t z) \<longleftrightarrow> (\<exists>h. pipe_end t h z False))"
      if z: "z \<in> pipe_pages t" for z
    proof (cases "z = x")
      case True
      then show ?thesis using f(3) unfolding ends by (auto simp: tt(5) pipe_init_def)
    next
      case False
      then have "z \<in> pipe_pages s" using z pp by simp
      moreover have "pipe_end t h z w = pipe_end s h z w" for h w using False old unfolding ends by auto
      ultimately show ?thesis using pi False by (simp add: pipes_inv_def tt(5))
    qed
    then show ?thesis using one unfolding pipes_inv_def by blast
  qed
  ultimately show ?thesis using tt by (auto simp: call_ok_def pipes_state_def)
qed

lemma pipealloc_call:
  fixes s :: "'z psys_scheme"
  assumes inv: "pipes_state U s" and fi: "files_inv oth s" and t: "pipealloc s = Inr (r, t)"
  shows "call_ok U s t"
proof -
  note ok = fi [unfolded files_inv_def, THEN conjunct1]
  obtain f0 s1 where a0: "filealloc s = (f0, s1)" by fastforce
  note c1 = filealloc_call [OF inv a0]
  show ?thesis
  proof (cases f0)
    case None
    then show ?thesis using t a0 c1 by (auto simp: pipealloc_def)
  next
    case (Some f)
    note a = filealloc_ok [OF ok a0 [unfolded Some]]
    obtain f1 s2 where a1: "filealloc s1 = (f1, s2)" by fastforce
    note c2 = call_ok_trans [OF c1 filealloc_call [OF call_ok_state [OF c1] a1]]
    show ?thesis
    proof (cases f1)
      case None
      then have "s2 = s1" using a1 filealloc_None by blast
      then have c: "fileclose f s1 = Inr t" using t a0 a1 Some None by (auto simp: pipealloc_def rbind_eq_Inr)
      show ?thesis by (rule call_ok_trans [OF c1 close_ok [OF call_ok_state [OF c1] c]]) (simp add: a(4))
    next
      case g: (Some g)
      note b = filealloc_ok [of "oth(f := oth f + 1)", OF a(1) a1 [unfolded g]]
      have ne: "f \<noteq> g" using b(3) a(4) by auto
      have ty: "f_type (ftable s2 f) = FD_NONE" "f_type (ftable s2 g) = FD_NONE" using a(5) b(4,5) ne by simp_all
      obtain x m where k: "kalloc (km s2) = (x, m)" by fastforce
      show ?thesis
      proof (cases "x = 0")
        case False
        have "t = set_file g (\<lambda>y. y\<lparr>f_type := FD_PIPE, f_readable := False, f_writable := True, f_pipe := x\<rparr>)
          (set_file f (\<lambda>y. y\<lparr>f_type := FD_PIPE, f_readable := True, f_writable := False, f_pipe := x\<rparr>)
            (set_pipe x (pipe_init (\<lambda>i. k_mem m (x + 52 + i))) (s2\<lparr>km := m\<rparr>)))"
          using t a0 a1 Some g k False by (simp add: pipealloc_def Let_def)
        from new_pipe_ok [OF call_ok_state [OF c2] k False ty ne this] show ?thesis by (rule call_ok_trans [OF c2])
      next
        case True
        have "pipes_state U s2" by (rule call_ok_state [OF c2])
        then obtain ps where "free_pages (kend s2) (km s2) ps" by (auto simp: pipes_state_def pages_inv_def mem_ok_def)
        then have "m = km s2" using k True kalloc_ok [of "kend s2" "km s2" ps] by (cases ps) (auto simp: free_pages_def page_ok_def)
        then have m: "s2\<lparr>km := m\<rparr> = s2" by simp
        obtain s4 where c: "fileclose f s2 = Inr s4" "fileclose g s4 = Inr t"
          using t a0 a1 Some g k True m by (auto simp: pipealloc_def rbind_eq_Inr)
        have r: "f_ref (ftable s2 f) \<ge> 1" "f_ref (ftable s2 g) \<ge> 1" using a(4) b(4) ne by simp_all
        note c4 = close_ok [OF call_ok_state [OF c2] c(1) r(1)]
        have "files_ok ((oth(g := oth g + 1))(f := (oth(g := oth g + 1)) f + 1)) s2" using b(1) ne by (simp add: fun_upd_twist)
        from fresh_close(3) [of "oth(g := oth g + 1)", OF this c(1) ty(1)] have "ftable s4 g = ftable s2 g" using ne by simp
        then have "call_ok U s4 t" by (intro close_ok [OF call_ok_state [OF c4] c(2)]) (use r in simp)
        then show ?thesis using call_ok_trans [OF c2 call_ok_trans [OF c4]] by blast
      qed
    qed
  qed
qed

lemma close_both_call:
  fixes s :: "'z psys_scheme"
  assumes inv: "pipes_state U s" and ok: "files_ok ((oth(g := oth g + 1))(f := oth f + 1)) s" and ne: "f \<noteq> g"
    and c: "fileclose f s = Inr s1" "fileclose g s1 = Inr t"
  shows "call_ok U s t"
proof -
  have ok': "files_ok ((oth(g := oth g + 1))(f := (oth(g := oth g + 1)) f + 1)) s" using ok ne by simp
  have a: "call_ok U s s1" by (rule close_ok [OF inv c(1) drop_ref_ok(1) [OF ok']])
  have "f_ref (ftable s1 g) \<ge> 1" by (rule drop_ref_ok(1) [OF fileclose_ok(1) [OF ok' c(1)]])
  then show ?thesis by (rule call_ok_trans [OF a close_ok [OF call_ok_state [OF a] c(2)]])
qed

lemma sys_pipe_call:
  fixes s :: "'z psys_scheme"
  assumes inv: "pipes_state U s" and fi: "files_inv oth s" and t: "sys_pipe s = Inr (r, t)"
  shows "call_ok U s t"
proof (cases "argptr 0 8 s")
  case (Some p)
  obtain q s1 where a: "pipealloc s = Inr (q, s1)" using t Some by (auto simp: sys_pipe_def rbind_eq_Inr)
  note c1 = pipealloc_call [OF inv fi a]
  note i1 = call_ok_state [OF c1]
  show ?thesis
  proof (cases q)
    case None
    then show ?thesis using t Some a c1 by (simp add: sys_pipe_def)
  next
    case (Some fg)
    obtain f g where fg: "fg = (f, g)" by (cases fg)
    note k = pipealloc_ok [OF fi a [unfolded Some fg]]
    have ok: "files_ok ((oth(g := oth g + 1))(f := (oth(g := oth g + 1)) f + 1)) s1" using k(1,2) by simp
    obtain fd0 s2 where d0: "fdalloc f s1 = (fd0, s2)" by fastforce
    note c2 = fdalloc_call [OF i1 d0]
    show ?thesis
    proof (cases fd0)
      case None
      then have "s2 = s1" using d0 by (auto simp: fdalloc_def split: option.splits)
      then obtain s5 where "fileclose f s1 = Inr s5" "fileclose g s5 = Inr t"
        using t \<open>argptr 0 8 s = Some p\<close> a Some fg d0 None by (auto simp: sys_pipe_def rbind_eq_Inr)
      then show ?thesis by (rule call_ok_trans [OF c1 close_both_call [OF i1 k(2,1)]])
    next
      case n: (Some n)
      note d = fdalloc_ok [of "oth(g := oth g + 1)", OF ok d0 [unfolded n]]
      obtain fd1 s3 where d1: "fdalloc g s2 = (fd1, s3)" by fastforce
      note c3 = fdalloc_call [OF call_ok_state [OF c2] d1]
      show ?thesis
      proof (cases fd1)
        case None
        then have "s3 = s2" using d1 by (auto simp: fdalloc_def split: option.splits)
        let ?s4 = "s2\<lparr>ofile := (ofile s2)(n := None)\<rparr>"
        obtain s5 where c: "fileclose f ?s4 = Inr s5" "fileclose g s5 = Inr t"
          using t \<open>argptr 0 8 s = Some p\<close> a Some fg d0 n d1 None \<open>s3 = s2\<close>
          by (auto simp: sys_pipe_def rbind_eq_Inr)
        have o4: "files_ok ((oth(g := oth g + 1))(f := oth f + 1)) ?s4"
          using close_fd_ok [OF d(1), of n f] d(2,4) k(1) by simp
        have c4: "call_ok U s1 ?s4" using c2 by simp
        show ?thesis by (rule call_ok_trans [OF c1 call_ok_trans [OF c4 close_both_call [OF call_ok_state [OF c4] o4 k(1) c]]])
      next
        case m: (Some m)
        have "t = s3\<lparr>umem := put32 (put32 (umem s3) p n) (p + 4) m\<rparr>"
          using t \<open>argptr 0 8 s = Some p\<close> a Some fg d0 n d1 m by (simp add: sys_pipe_def)
        then show ?thesis using call_ok_trans [OF c1 call_ok_trans [OF c2 c3]] by simp
      qed
    qed
  qed
qed (use t refl_ok [OF inv] in \<open>simp add: sys_pipe_def\<close>)

lemma sys_step_call:
  fixes s t :: "'z psys_scheme"
  assumes "sys_step devsw s t" and d: "dev_keeps devsw" and inv: "pipes_state U s" and fi: "files_inv oth s"
  shows "call_ok U s t"
proof -
  note keeps = sys_link_keeps [OF d] sys_unlink_keeps [OF d] sys_mkdir_keeps [OF d] sys_mknod_keeps [OF d] sys_chdir_keeps [OF d]
  note same = sys_read_same [OF d] sys_write_same [OF d] sys_fstat_same
  note calls = sys_dup_call [OF inv] sys_close_call [OF inv fi] sys_open_call [OF d inv fi] sys_pipe_call [OF inv fi]
  from assms(1) show ?thesis
  proof cases
    case (user m e)
    show ?thesis unfolding user by (rule quiet_ok [OF inv]) (simp_all add: pipe_end_def fun_eq_iff same_kernel_def)
  qed (use same [THEN open_ok [OF inv]] calls keeps [rule_format, THEN more_ok [OF inv]] in force)+
qed

section \<open>Among the processes\<close>

text \<open>
  What a call of process \<open>p\<close> sees of it, with any stack pointer and any contents of its memory, and
  what remains of it in the table. The bytes that a call stores in the memory of the process are
  dropped: nothing in the invariant depends on them.
\<close>

definition proc_view :: "nat \<Rightarrow> nat \<Rightarrow> mem \<Rightarrow> 'z psys_scheme \<Rightarrow> 'z psys_scheme" where
  "proc_view p sp um s = s\<lparr>ofile := p_ofile (ptable s p), cwd := the (p_cwd (ptable s p)), killed := p_killed (ptable s p),
     usz := p_sz (ptable s p), uesp := sp, umem := um\<rparr>"

definition keep_view :: "nat \<Rightarrow> 'z psys_scheme \<Rightarrow> 'z psys_scheme" where
  "keep_view p s = set_proc p (\<lambda>x. x\<lparr>p_ofile := ofile s, p_cwd := Some (cwd s)\<rparr>) (s\<lparr>ofile := (\<lambda>_. None)\<rparr>)"

definition held_elsewhere :: "nat \<Rightarrow> 'z psys_scheme \<Rightarrow> nat \<Rightarrow> nat" where
  "held_elsewhere p s f = card {(q, fd). (q, fd) \<in> holders s f \<and> q \<noteq> p}"

lemma refs_split:
  assumes "p < NPROC" and "ptable t = (ptable s)(p := x)" and "p_ofile x = ofile u"
  shows "refs t f = held_elsewhere p s f + card (fds f u)"
proof -
  let ?A = "{(q, fd). (q, fd) \<in> holders s f \<and> q \<noteq> p}"
  have "holders t f = ?A \<union> Pair p ` fds f u" using assms by (auto simp: holders_def fds_def split: if_splits)
  moreover have "finite ?A" by (rule finite_subset [OF _ finite_holders [of s f]]) auto
  moreover have "?A \<inter> Pair p ` fds f u = {}" by auto
  ultimately show ?thesis by (simp add: refs_def held_elsewhere_def card_Un_disjoint card_image inj_on_def)
qed

lemma kernel_view:
  fixes s :: "'z psys_scheme"
  assumes ok: "kernel_ok U s" and c: "proc_of s c = Some p"
  shows "files_inv (held_elsewhere p s) (proc_view p sp um s)" "call_ok U s (proc_view p sp um s)" "pipes_state U (proc_view p sp um s)"
proof -
  note run = running_D [OF ok c]
  let ?v = "proc_view p sp um s"
  have inv: "files_ok (refs s) s" "files_typed s" "ofile s = (\<lambda>_. None)" "pipes_state U s"
    using ok by (auto simp: kernel_ok_def files_state_def refs_inv_def pipes_state_def)
  have v: "ftable ?v = ftable s" "ptable ?v = ptable s" "ofile ?v = p_ofile (ptable s p)" by (simp_all add: proc_view_def)
  have "ptable s = (ptable s)(p := ptable s p)" by simp
  from refs_split [OF run(1) this, of ?v] have r: "refs s f = held_elsewhere p s f + card (fds f ?v)" for f by (simp add: v)
  have "fds f s = {}" for f by (simp add: fds_def inv(3))
  then show "files_inv (held_elsewhere p s) ?v" using inv(1,2) r by (simp add: files_inv_def files_ok_def files_typed_def v)
  show "call_ok U s ?v" by (rule quiet_ok [OF inv(4)]) (simp_all add: proc_view_def pipe_end_def same_kernel_def fun_eq_iff)
  then show "pipes_state U ?v" by (rule call_ok_state)
qed

lemma kernel_call:
  fixes s :: "'z psys_scheme"
  assumes ok: "kernel_ok U s" and c: "proc_of s c = Some p" and d: "dev_keeps devsw" and u: "sys_step devsw (proc_view p sp um s) u"
  shows "kernel_ok U (keep_view p u)"
proof -
  note run = running_D [OF ok c]
  note view = kernel_view [OF ok c, of sp um]
  let ?t = "keep_view p u" and ?oth = "held_elsewhere p s"
  have fu: "files_inv ?oth u" and cu: "call_ok U s u"
    using sys_step_inv [OF u d view(1)] sys_step_call [OF u d view(3,1)] call_ok_trans [OF view(2)] by blast+
  have pu: "ptable u = ptable s" and k: "same_kernel s u" and pi: "pipes_state U u" using cu by (simp_all add: call_ok_def)
  have pt: "ptable ?t = (ptable s)(p := (ptable s p)\<lparr>p_ofile := ofile u, p_cwd := Some (cwd u)\<rparr>)" by (simp add: keep_view_def pu)
  have tt: "ftable ?t = ftable u" "pipes ?t = pipes u" "km ?t = km u" "ofile ?t = (\<lambda>_. None)" "same_kernel s ?t" "kend ?t = kend u"
    using k by (simp_all add: keep_view_def same_kernel_def)
  have us: "used ?t = used s" by (auto simp: used_def pt)
  have "refs_inv ?t"
  proof -
    have "refs ?t f = ?oth f + card (fds f u)" for f by (rule refs_split [OF run(1) pt]) simp
    moreover have "fds f ?t = {}" for f by (simp add: fds_def tt(4))
    ultimately show ?thesis using fu by (simp add: refs_inv_def files_inv_def files_ok_def files_typed_def tt)
  qed
  moreover have e: "pipe_end ?t = pipe_end u" "pipe_pages ?t = pipe_pages u" by (auto simp: pipe_end_def pipe_pages_def tt fun_eq_iff)
  have "pipes_inv ?t" using pi by (simp add: pipes_state_def pipes_inv_def e tt)
  moreover obtain ps where ps: "pages_inv u ps U" using pi by (auto simp: pipes_state_def)
  have "pages_inv ?t ps U" by (rule pages_inv_cong [OF ps tt(6,3) e(2)]) (auto simp: us used_def pu pt)
  ultimately have "files_state U ?t" by (auto simp: files_state_def)
  moreover have g: "kend ?t = kend s" "kdata ?t = kdata s" "nextpid ?t = nextpid s" "initproc ?t = initproc s" "proc_of ?t = proc_of s"
    using tt(5) by (simp_all add: same_kernel_def)
  have q: "p_pid (ptable ?t q) = p_pid (ptable s q)" "p_parent (ptable ?t q) = p_parent (ptable s q)" "p_state (ptable ?t q) = p_state (ptable s q)"
    "p_tf (ptable ?t q) = p_tf (ptable s q)" "p_kstack (ptable ?t q) = p_kstack (ptable s q)"
    "q \<noteq> p \<Longrightarrow> ptable ?t q = ptable s q" "p_cwd (ptable ?t p) \<noteq> None" for q by (simp_all add: pt)
  moreover have "pids_ok ?t" "tree_ok ?t" "cpus_ok ?t"
    using ok by (simp_all add: kernel_ok_def pids_ok_def tree_ok_def cpus_ok_def us q g)
  moreover have "slots_ok ?t" unfolding slots_ok_def
  proof (intro allI impI)
    fix x
    assume x: "x < NPROC"
    have "slots_ok s" using ok by (simp add: kernel_ok_def)
    then show "(p_state (ptable ?t x) = UNUSED \<longrightarrow> p_parent (ptable ?t x) = None) \<and>
        (p_state (ptable ?t x) \<in> {UNUSED, ZOMBIE} \<longrightarrow> (\<forall>fd < NOFILE. p_ofile (ptable ?t x) fd = None)) \<and>
        (p_state (ptable ?t x) \<notin> {UNUSED, ZOMBIE} \<longrightarrow> p_cwd (ptable ?t x) \<noteq> None) \<and>
        (p_state (ptable ?t x) \<noteq> UNUSED \<longrightarrow> p_tf (ptable ?t x) = p_kstack (ptable ?t x) + KSTACKSIZE - trapframe_bytes) \<and>
        p_state (ptable ?t x) \<noteq> EMBRYO"
      using x run(3) q(7) by (cases "x = p") (simp_all add: slots_ok_def q)
  qed
  ultimately show ?thesis using ok by (simp add: kernel_ok_def g)
qed

end
