(* ===== verification/Vm_Props.thy ===== *)
theory Vm_Props
  imports Vm_Fork
begin

text \<open>
  What the kernel relies on from \<open>src/vm.c\<close>: a range is mapped where it should be, \<open>fork\<close> gets a
  copy of the address space in pages of its own, growing adds zeroed pages or nothing, freeing
  returns every page, and \<open>copyout\<close> writes what the process then reads.
\<close>

section \<open>User addresses\<close>

text \<open>The byte that a process reads at the user address \<open>a\<close>.\<close>

definition ubyte :: "'z kmem_scheme \<Rightarrow> nat \<Rightarrow> nat \<Rightarrow> byte" where
  "ubyte m d a = k_mem m (frame_of (pte_of m d (a div 4096)) + a mod 4096)"

lemma uva2ka_ok:
  assumes "x \<in> upages m d" and "pte_of m d x AND PTE_U \<noteq> 0"
  shows "uva2ka d (4096 * x) m = Inr (Some (frame_of (pte_of m d x)))"
proof -
  obtain pte where "walkpgdir d (4096 * x) False m = (Some pte, m)" "word_at m pte = pte_of m d x"
    using upage_walk [OF assms(1)] .
  then show ?thesis using assms by (simp add: uva2ka_def and_PTE_P upages_def frame_of_def)
qed

text \<open>Storing bytes in one page of the process.\<close>

lemma put_upage:
  assumes own: "vm_own kend m d ps" and x: "x \<in> upages m d" and n: "off + n \<le> 4096"
    and m': "m' = m\<lparr>k_mem := put_bytes (k_mem m) (frame_of (pte_of m d x) + off) buf n\<rparr>"
  shows "vm_own kend m' d ps" "pte_of m' d = pte_of m d" "same_off (uframes m d) m m'"
    "a div 4096 \<in> upages m d \<Longrightarrow>
      ubyte m' d a = (if 4096 * x + off \<le> a \<and> a < 4096 * x + off + n then buf (a - (4096 * x + off)) else ubyte m d a)"
proof -
  let ?q = "frame_of (pte_of m d x)"
  have q: "?q \<in> uframes m d" using x by (simp add: uframes_def)
  have pg: "page_ok kend ?q" "?q \<notin> set ps" "?q \<notin> tables m d" using own q by (auto simp: vm_own_def)
  have s: "same_off {?q} m m'" using n by (auto simp: m' same_off_def off_pages_def put_bytes_def)
  then show "same_off (uframes m d) m m'" by (rule same_off_mono) (simp add: q)
  have fp: "free_pages kend m ps" "set ps \<inter> owned m d = {}" using own owned_pages [OF own] by (auto simp: vm_own_def pt_wf_def)
  have fp': "free_pages kend m' ps" by (rule free_pages_off [OF fp(1) s]) (use pg in \<open>auto simp: m'\<close>)
  have dis: "{?q} \<inter> tables m d = {}" using pg(3) by simp
  note c = own_cong [OF own s _ dis fp' fp(2)]
  show "vm_own kend m' d ps" and pte: "pte_of m' d = pte_of m d" using c pg(1) by auto
  have km: "k_mem m' = put_bytes (k_mem m) (?q + off) buf n" by (simp add: m')
  assume a: "a div 4096 \<in> upages m d"
  let ?b = "frame_of (pte_of m d (a div 4096))"
  obtain y r where a': "a = 4096 * y + r" "r < 4096" "a div 4096 = y" "a mod 4096 = r"
    using that [of "a div 4096" "a mod 4096"] by simp
  show "ubyte m' d a = (if 4096 * x + off \<le> a \<and> a < 4096 * x + off + n then buf (a - (4096 * x + off)) else ubyte m d a)"
  proof (cases "a div 4096 = x")
    case True
    then show ?thesis unfolding ubyte_def pte km a'(3,4) using a'(1,3) by (auto simp: put_bytes_def)
  next
    case False
    have "inj_on (\<lambda>v. frame_of (pte_of m d v)) (upages m d)" using own by (simp add: vm_own_def)
    then have "?b \<noteq> ?q" using False a x by (auto dest: inj_onD)
    moreover have "page_ok kend ?b" using own a by (auto simp: vm_own_def uframes_def)
    ultimately have "?b + a mod 4096 < ?q \<or> ?q + 4096 \<le> ?b + a mod 4096" by (intro off_page [OF _ pg(1)]) auto
    moreover have "a < 4096 * x \<or> 4096 * x + 4096 \<le> a" using False a'(1-3) by auto
    ultimately show ?thesis using n unfolding ubyte_def pte km by (auto simp: put_bytes_def)
  qed
qed

lemma copyout_ok:
  assumes "vm_own kend m d ps" and "va + len \<le> KERNBASE"
    and "\<forall>v. va div 4096 \<le> v \<and> 4096 * v < va + len \<longrightarrow> v \<in> upages m d \<and> pte_of m d v AND PTE_U \<noteq> 0"
  shows "\<exists>m'. copyout d va buf len m = Inr (0, m') \<and> vm_own kend m' d ps \<and> pte_of m' d = pte_of m d \<and>
    same_off (uframes m d) m m' \<and>
    (\<forall>a. a div 4096 \<in> upages m d \<longrightarrow> ubyte m' d a = (if va \<le> a \<and> a < va + len then buf (a - va) else ubyte m d a))"
  using assms
proof (induction len arbitrary: va buf m rule: less_induct)
  case (less len)
  show ?case
  proof (cases "len = 0")
    case True
    then show ?thesis using less.prems(1) by (intro exI [of _ m]) (auto simp: copyout.simps)
  next
    case False
    obtain x off where va: "va = 4096 * x + off" "off < 4096" "va div 4096 = x" "va mod 4096 = off"
      using that [of "va div 4096" "va mod 4096"] by simp
    let ?n = "min (4096 - off) len"
    let ?m = "m\<lparr>k_mem := put_bytes (k_mem m) (frame_of (pte_of m d x) + off) buf ?n\<rparr>"
    have n: "0 < ?n" "off + ?n \<le> 4096" using False va(2) by simp_all
    have x: "x \<in> upages m d" "pte_of m d x AND PTE_U \<noteq> 0" using less.prems(3) False va(1,3) by simp_all
    note p = put_upage [OF less.prems(1) x(1) n(2) refl, where buf = buf]
    have x8: "x < 0x80000" using x(1) by (simp add: upages_def)
    have up: "upages ?m d = upages m d" by (simp add: upages_def p(2))
    have pr: "uadd (4096 * x) PGSIZE = 4096 * (x + 1)" using x8 by (simp add: uadd_small PGSIZE_def)
    have nxt: "4096 * (x + 1) + (len - ?n) = va + len" if "len > ?n" using that va(1,2) by auto
    have "\<forall>v. 4096 * (x + 1) div 4096 \<le> v \<and> 4096 * v < 4096 * (x + 1) + (len - ?n) \<longrightarrow>
        v \<in> upages ?m d \<and> pte_of ?m d v AND PTE_U \<noteq> 0"
      using less.prems(3) va(3) nxt unfolding up p(2) by (cases "len > ?n") auto
    moreover have "4096 * (x + 1) + (len - ?n) \<le> KERNBASE"
      using nxt less.prems(2) x8 by (cases "len > ?n") (auto simp: KERNBASE_def)
    moreover have "len - ?n < len" using n False by simp
    ultimately obtain m' where m': "copyout d (4096 * (x + 1)) (\<lambda>i. buf (?n + i)) (len - ?n) ?m = Inr (0, m')"
      "vm_own kend m' d ps" "pte_of m' d = pte_of ?m d" "same_off (uframes ?m d) ?m m'"
      "\<forall>a. a div 4096 \<in> upages ?m d \<longrightarrow> ubyte m' d a =
        (if 4096 * (x + 1) \<le> a \<and> a < 4096 * (x + 1) + (len - ?n) then buf (?n + (a - 4096 * (x + 1))) else ubyte ?m d a)"
      using less.IH [OF _ p(1)] by blast
    have "copyout d va buf len m = Inr (0, m')"
      by (subst copyout.simps)
        (use False uva2ka_ok [OF x] m'(1) pr va in \<open>simp add: Let_def PGROUNDDOWN_def PGSIZE_def mult.commute\<close>)
    moreover have "same_off (uframes m d) m m'"
      using same_off_trans [OF p(3) m'(4) [unfolded uframes_cong [OF p(2)]]] .
    moreover have "ubyte m' d a = (if va \<le> a \<and> a < va + len then buf (a - va) else ubyte m d a)" if "a div 4096 \<in> upages m d" for a
      using m'(5) p(4) [OF that] that nxt va(1,2) n unfolding up by (cases "len > ?n") (auto simp: add.commute)
    ultimately show ?thesis using m'(2,3) p(2) by auto
  qed
qed

section \<open>Properties\<close>

text \<open>
  C36: \<open>mappages\<close> implements the map it is named after. In a well-formed page table whose entries for
  a range of addresses are not present, it maps the first \<open>n\<close> pages of the range to consecutive
  physical pages with the permissions asked for and changes no other entry; \<open>n\<close> is the whole range
  and the result 0, or the result is \<open>-1\<close> and the free list is empty. It does not panic, the pages that leave the
  free list are exactly the new page tables, and memory outside the tables is unchanged.
\<close>

theorem mappages_maps:
  assumes "pt_wf kend m d ps" and "0 < sz" "va + sz \<le> 2 ^ 32" and "pa mod PGSIZE = 0" "pa < 2 ^ 32" "perm < PGSIZE"
    and "\<forall>v. va div PGSIZE \<le> v \<and> v < va div PGSIZE + npages va sz \<longrightarrow> even (pte_of m d v)"
  shows "\<exists>n m' qs. mappages d va sz pa perm m = Inr (if n = npages va sz then 0 else -1, m') \<and>
    n \<le> npages va sz \<and> (n < npages va sz \<longrightarrow> qs = []) \<and> pte_of m' d = map_pages (pte_of m d) (va div PGSIZE) n pa perm \<and>
    pt_wf kend m' d qs \<and> set ps = set qs \<union> (tables m' d - tables m d) \<and> tables m d \<subseteq> tables m' d \<and>
    same_off (tables m' d) m m'"
proof -
  have "pa mod 4096 = 0" "pa < 4294967296" "perm < 4096" using assms(4-6) by (simp_all add: PGSIZE_def)
  from mappages_ok [OF assms(1-3) this assms(7) [unfolded PGSIZE_def]] show ?thesis unfolding PGSIZE_def by blast
qed

text \<open>
  C35: \<open>copyuvm\<close> gives a child process a copy of the parent's memory. When the parent's pages below
  \<open>sz\<close> are present, the call never panics and leaves the parent's pages, tables and contents as
  they were. If it succeeds, every page below \<open>sz\<close> has the parent's flags and contents in the child,
  the rest of the child's table is the kernel's mapping, and parent and child have no page in
  common. If it fails, all pages it took are free again, and there were at most as many free pages
  as the copy could need.
\<close>

theorem copyuvm_copies:
  assumes "kend > KERNBASE" and "kdata_ok kdata" and "vm_own kend m pgdir ps" and "sz \<le> KERNBASE"
    and "\<forall>v < (sz + 4095) div PGSIZE. v \<in> upages m pgdir"
  shows "\<exists>d m' qs. copyuvm kend kdata pgdir sz m = Inr (d, m') \<and> same_off (set ps) m m' \<and> vm_own kend m' pgdir qs \<and>
    pte_of m' pgdir = pte_of m pgdir \<and>
    (if d = 0 then set qs = set ps \<and> length ps \<le> 1026 + (sz + 4095) div PGSIZE
     else vm_own kend m' d qs \<and> owned m' pgdir \<inter> owned m' d = {} \<and> set qs \<union> owned m' d = set ps \<and>
       (\<forall>v < (sz + 4095) div PGSIZE. page_copied m pgdir m' d v) \<and>
       (\<forall>v \<ge> (sz + 4095) div PGSIZE. pte_of m' d v = regions_map (\<lambda>_. 0) (kmap kdata) v))"
proof (cases rule: copyuvm_ok [OF assms(1-4) refl assms(5) [unfolded PGSIZE_def], case_names copied full])
  case (copied d m' qs)
  then show ?thesis
    by (intro exI [of _ d] exI [of _ m'] exI [of _ qs]) (simp add: two_spaces_def PGSIZE_def)
next
  case (full m' qs)
  then show ?thesis by (intro exI [of _ 0] exI [of _ m'] exI [of _ qs]) (simp add: PGSIZE_def)
qed

text \<open>
  C37: \<open>allocuvm\<close> grows a process from \<open>oldsz\<close> to \<open>newsz\<close> or leaves its memory as it was. On success
  every page between the two sizes is a zeroed page that the process may write and all other entries
  are unchanged. On failure, which needs a free list too short for the new pages and the tables they can
  take, every entry is what it was; the pages that the call took are back on the free list except
  those that became page tables of the directory, which it keeps. In both cases memory outside the
  tables and the free pages is untouched, and no page is lost.
\<close>

theorem allocuvm_grows:
  assumes "kend > KERNBASE" and "vm_own kend m d ps" and "oldsz \<le> newsz" and "newsz < KERNBASE"
    and "\<forall>v. (oldsz + 4095) div PGSIZE \<le> v \<and> v < (newsz + 4095) div PGSIZE \<longrightarrow> pte_of m d v = 0"
  shows "\<exists>r m' qs. allocuvm kend d oldsz newsz m = Inr (r, m') \<and> vm_own kend m' d qs \<and>
    set qs \<union> owned m' d = set ps \<union> owned m d \<and> same_off (set ps \<union> tables m d) m m' \<and>
    (r = newsz \<and> (\<forall>v. v < (oldsz + 4095) div PGSIZE \<or> (newsz + 4095) div PGSIZE \<le> v \<longrightarrow> pte_of m' d v = pte_of m d v) \<and>
       (\<forall>v. (oldsz + 4095) div PGSIZE \<le> v \<and> v < (newsz + 4095) div PGSIZE \<longrightarrow> zeroed m' d v) \<or>
     r = 0 \<and> pte_of m' d = pte_of m d \<and> tables m d \<subseteq> tables m' d \<and> set qs \<union> tables m' d = set ps \<union> tables m d \<and>
       length ps \<le> 1025 + ((newsz + 4095) div PGSIZE - (oldsz + 4095) div PGSIZE))"
  using allocuvm_ok [OF assms(1-4) assms(5) [unfolded PGSIZE_def]] unfolding PGSIZE_def .

text \<open>
  C38: \<open>freevm\<close> gives every page of an address space back. The call does not panic, the free list
  afterwards is the free list before together with the directory, all page tables and all user
  pages, each once, and other memory is untouched.
\<close>

theorem freevm_returns_all:
  assumes "vm_own kend m d ps" and "kend > KERNBASE"
  shows "\<exists>m' qs. freevm kend d m = Inr m' \<and> free_pages kend m' qs \<and> set qs = set ps \<union> owned m d \<and> same_off (owned m d) m m'"
  by (rule freevm_ok [OF assms])

text \<open>
  C39: What \<open>copyout\<close> writes the process reads. Copying \<open>len\<close> bytes to the user address \<open>va\<close>, where
  every page touched is present and accessible to the user, returns 0, and reading any mapped user
  address afterwards gives the copied byte inside the range and the old byte outside it; the page
  table is unchanged, and only the process's own pages are written.
\<close>

theorem copyout_reads:
  assumes "vm_own kend m d ps" and "va + len \<le> KERNBASE"
    and "\<forall>v. va div PGSIZE \<le> v \<and> PGSIZE * v < va + len \<longrightarrow> v \<in> upages m d \<and> pte_of m d v AND PTE_U \<noteq> 0"
  shows "\<exists>m'. copyout d va buf len m = Inr (0, m') \<and> vm_own kend m' d ps \<and> pte_of m' d = pte_of m d \<and>
    same_off (uframes m d) m m' \<and>
    (\<forall>a. a div PGSIZE \<in> upages m d \<longrightarrow> ubyte m' d a = (if va \<le> a \<and> a < va + len then buf (a - va) else ubyte m d a))"
  using copyout_ok [of kend m d ps va len buf] assms by (simp add: PGSIZE_def)

section \<open>A run\<close>

text \<open>
  The kernel's end at \<open>0x80115000\<close>, its data at \<open>0x80108000\<close>, the pages above 4 MB freed, and a
  process of one page: what the properties ask for holds after \<open>kinit2\<close>, \<open>setupkvm\<close> and
  \<open>allocuvm\<close>.
\<close>

definition boot_pages :: kmem where
  "boot_pages = \<lparr>k_mem = (\<lambda>_. 0), k_use_lock = False, k_freelist = 0\<rparr>"

lemma booted: "\<exists>m ps. kinit2 0x80115000 0x80400000 0x8E000000 boot_pages = Inr m \<and> free_pages 0x80115000 m ps \<and> length ps = 0xDC00"
proof -
  have fp: "free_pages 0x80115000 boot_pages []" by (simp add: free_pages_def boot_pages_def)
  obtain s where "freerange_from 0x80115000 0x80400000 0x8E000000 boot_pages = Inr s"
    "free_pages 0x80115000 s (rev (map (\<lambda>k. 0x80400000 + k * PGSIZE) [0..<0xDC00]))"
    using freerange_from_ok [OF fp, where p = "0x80400000" and vend = "0x8E000000"] by (auto simp: page_consts)
  moreover have "PGROUNDUP 0x80400000 = 0x80400000" by (simp add: PGROUNDUP_def uadd_def PGSIZE_def)
  ultimately show ?thesis
    by (intro exI [of _ "s\<lparr>k_use_lock := True\<rparr>"] exI [of _ "rev (map (\<lambda>k. 0x80400000 + k * PGSIZE) [0..<0xDC00])"])
      (simp add: kinit2_def freerange_def free_pages_def)
qed

lemma demo_consts: "(0x80115000 :: nat) > KERNBASE" "kdata_ok 0x80108000"
  by (simp_all add: kdata_ok_def KERNLINK_def EXTMEM_def page_consts)

lemma pte_user: "PTE_FLAGS e = 7 \<Longrightarrow> e AND PTE_U \<noteq> 0"
proof -
  assume "PTE_FLAGS e = 7"
  then have "take_bit 12 e = 7" by (simp add: PTE_FLAGS_def take_bit_eq_mod)
  moreover have "bit (7 :: nat) 2" by (simp add: bit_iff_odd)
  ultimately have "bit e 2" by (metis bit_take_bit_iff)
  then show ?thesis by (simp add: bit_iff_and_push_bit_not_eq_0 push_bit_eq_mult PTE_U_def)
qed

lemma demo_space:
  obtains m :: kmem and d ps where "vm_own 0x80115000 m d ps" "length ps > 2000" "upages m d = {0}"
    "\<forall>v. 0 < v \<and> v < 0x80000 \<longrightarrow> pte_of m d v = 0" "pte_of m d 0 AND PTE_U \<noteq> 0"
proof -
  obtain m0 ps where m0: "free_pages 0x80115000 (m0 :: kmem) ps" "length ps = 0xDC00" using booted by blast
  obtain d qs and m1 :: kmem where m1: "vm_own 0x80115000 m1 d qs" "set qs \<union> owned m1 d = set ps" "upages m1 d = {}"
    "pte_of m1 d = regions_map (\<lambda>_. 0) (kmap 0x80108000)"
    by (rule setupkvm_ok [OF m0(1) demo_consts]) (use m0(2) in auto)
  have low: "\<forall>v < 0x80000. pte_of m1 d v = 0"
    unfolding m1(4) using regions_low [OF kmap_regions [OF demo_consts(2)]] by simp
  have "length ps = card (set ps)" using m0(1) distinct_card [of ps] by (simp add: free_pages_def)
  then have l1: "length qs \<ge> 50000" using space_bound [of m1 d 0 qs] m1(2,3) m0(2) by simp
  have "growing (pte_of m1 d) 0 1 0 m1 d" using low by (simp add: growing_def)
  from allocuvm_from_ok [OF demo_consts(1) _ _ _ m1(1) this, of 4096 0] obtain r m2 rs where m2: "conserved 0x80115000 m1 d qs m2 rs"
    "r = 4096 \<and> grown 0 1 m1 d qs m2 \<or> r = 0 \<and> undone (pte_of m1 d) 0 1 0 m1 d qs m2"
    by (auto simp: KERNBASE_def)
  have cqs: "length qs = card (set qs)"
    using m1(1) distinct_card [of qs] by (simp add: vm_own_def pt_wf_def free_pages_def)
  have "\<not> undone (pte_of m1 d) 0 1 0 m1 d qs m2"
    using card_mono [of "(set qs - tables m2 d) \<union> tables m2 d" "set qs"] card_Un_le [of "set qs - tables m2 d" "tables m2 d"]
      card_tables [of m2 d] finite_tables [of m2 d] l1 cqs by (auto simp: undone_def)
  then have g: "\<forall>v. 1 \<le> v \<longrightarrow> pte_of m2 d v = pte_of m1 d v" "zeroed m2 d 0" using m2(2) by (auto simp: grown_def)
  then have e: "PTE_FLAGS (pte_of m2 d 0) = 7" by (simp add: zeroed_def PTE_P_def PTE_W_def PTE_U_def)
  have z: "\<forall>v. 0 < v \<and> v < 0x80000 \<longrightarrow> pte_of m2 d v = 0" using g(1) low by simp
  have "odd (pte_of m2 d 0)" using odd_flags [of "pte_of m2 d 0"] e by simp
  then have u: "upages m2 d = {0}" using z by (auto simp: upages_def)
  have own: "vm_own 0x80115000 m2 d rs" "set qs \<subseteq> set rs \<union> owned m2 d" using m2(1) by (auto simp: conserved_def)
  have "card (set qs) \<le> card (set rs \<union> owned m2 d)"
    by (rule card_mono [OF _ own(2)]) (simp add: owned_def finite_tables uframes_def u)
  then have "length rs > 2000" using space_bound [of m2 d 1 rs] u l1 cqs by simp
  then show thesis using that [OF own(1) _ u z pte_user [OF e]] by blast
qed

theorem mappages_maps_witness:
  "\<exists>(m :: kmem) d ps m'. pt_wf 0x80115000 m d ps \<and> mappages d 0x1234 0x2000 0x400000 PTE_W m = Inr (0, m') \<and>
    pte_of m' d 2 = 0x401003"
proof -
  obtain m :: kmem and d ps where m: "vm_own 0x80115000 m d ps" "length ps > 2000" "upages m d = {0}"
    "\<forall>v. 0 < v \<and> v < 0x80000 \<longrightarrow> pte_of m d v = 0" by (rule demo_space)
  note wf = vm_own_wf [OF m(1)]
  have n: "npages 0x1234 0x2000 = 3" by (simp add: npages_def)
  have "\<forall>v. 0x1234 div PGSIZE \<le> v \<and> v < 0x1234 div PGSIZE + npages 0x1234 0x2000 \<longrightarrow> even (pte_of m d v)"
    using m(4) by (simp add: n PGSIZE_def)
  with mappages_maps [OF wf, of "0x2000" "0x1234" "0x400000" PTE_W] obtain k m' qs where
    r: "mappages d 0x1234 0x2000 0x400000 PTE_W m = Inr (if k = 3 then 0 else -1, m')" "k < 3 \<longrightarrow> qs = []" "k \<le> 3"
      "pte_of m' d = map_pages (pte_of m d) 1 k 0x400000 PTE_W" "set ps = set qs \<union> (tables m' d - tables m d)"
    unfolding n by (auto simp: PGSIZE_def PTE_W_def)
  have "\<not> k < 3"
  proof
    assume "k < 3"
    then have "set ps \<subseteq> tables m' d" using r(2,5) by auto
    then have "card (set ps) \<le> 1025" using card_mono [OF finite_tables] card_tables le_trans by blast
    moreover have "card (set ps) = length ps" using wf distinct_card [of ps] by (simp add: pt_wf_def free_pages_def)
    ultimately show False using m(2) by simp
  qed
  then have "k = 3" using r(3) by simp
  then have "mappages d 0x1234 0x2000 0x400000 PTE_W m = Inr (0, m')" "pte_of m' d 2 = 0x401003"
    using r(1,4) by (simp_all add: map_pages_def PTE_W_def PTE_P_def)
  then show ?thesis using wf by blast
qed

theorem copyuvm_copies_witness:
  "\<exists>(m :: kmem) d ps c m'. vm_own 0x80115000 m d ps \<and> upages m d = {0} \<and>
    copyuvm 0x80115000 0x80108000 d 0x1000 m = Inr (c, m') \<and> c \<noteq> 0 \<and> page_copied m d m' c 0"
proof -
  obtain m :: kmem and d ps where m: "vm_own 0x80115000 m d ps" "length ps > 2000" "upages m d = {0}" by (rule demo_space)
  have "\<forall>v < (0x1000 + 4095) div PGSIZE. v \<in> upages m d" using m(3) by (simp add: PGSIZE_def)
  moreover have "0x1000 \<le> KERNBASE" by (simp add: KERNBASE_def)
  ultimately obtain c m' where "copyuvm 0x80115000 0x80108000 d 0x1000 m = Inr (c, m')"
    "c \<noteq> 0" "page_copied m d m' c 0"
    using copyuvm_copies [OF demo_consts m(1), of "0x1000"] m(2) by (auto simp: PGSIZE_def split: if_splits)
  then show ?thesis using m by blast
qed

theorem allocuvm_grows_witness:
  "\<exists>(m :: kmem) d ps m'. vm_own 0x80115000 m d ps \<and> allocuvm 0x80115000 d 0x1000 0x2abc m = Inr (0x2abc, m') \<and>
    zeroed m' d 1 \<and> zeroed m' d 2"
proof -
  obtain m :: kmem and d ps where m: "vm_own 0x80115000 m d ps" "length ps > 2000" "upages m d = {0}"
    "\<forall>v. 0 < v \<and> v < 0x80000 \<longrightarrow> pte_of m d v = 0" by (rule demo_space)
  have "\<forall>v. (0x1000 + 4095) div PGSIZE \<le> v \<and> v < (0x2abc + 4095) div PGSIZE \<longrightarrow> pte_of m d v = 0"
    using m(4) by (simp add: PGSIZE_def)
  then obtain m' where "allocuvm 0x80115000 d 0x1000 0x2abc m = Inr (0x2abc, m')"
    "\<forall>v. 1 \<le> v \<and> v < 3 \<longrightarrow> zeroed m' d v"
    using allocuvm_grows [OF demo_consts(1) m(1), of "0x1000" "0x2abc"] m(2) by (auto simp: PGSIZE_def KERNBASE_def)
  then show ?thesis using m(1) by (intro exI [of _ m] exI [of _ d] exI [of _ ps] exI [of _ m']) simp
qed

theorem freevm_returns_all_witness:
  "\<exists>(m :: kmem) d ps m' qs. vm_own 0x80115000 m d ps \<and> upages m d = {0} \<and> freevm 0x80115000 d m = Inr m' \<and>
    free_pages 0x80115000 m' qs \<and> set qs = set ps \<union> owned m d"
proof -
  obtain m :: kmem and d ps where m: "vm_own 0x80115000 m d ps" "upages m d = {0}" by (rule demo_space)
  from freevm_returns_all [OF m(1) demo_consts(1)] m show ?thesis by blast
qed

theorem copyout_reads_witness:
  "\<exists>(m :: kmem) d m'. copyout d 0x10 (\<lambda>i. of_nat i) 5 m = Inr (0, m') \<and> ubyte m' d 0x12 = 2 \<and> ubyte m' d 0x15 = ubyte m d 0x15"
proof -
  obtain m :: kmem and d ps where m: "vm_own 0x80115000 m d ps" "upages m d = {0}" "pte_of m d 0 AND PTE_U \<noteq> 0"
    by (rule demo_space)
  have "v = 0" if "PGSIZE * v < 0x10 + 5" for v using that by (cases v) (simp_all add: PGSIZE_def)
  then have "\<forall>v. 0x10 div PGSIZE \<le> v \<and> PGSIZE * v < 0x10 + 5 \<longrightarrow> v \<in> upages m d \<and> pte_of m d v AND PTE_U \<noteq> 0"
    using m(2,3) by blast
  then obtain m' where r: "copyout d 0x10 (\<lambda>i. of_nat i) 5 m = Inr (0, m')"
    "\<forall>a. a div PGSIZE \<in> upages m d \<longrightarrow> ubyte m' d a = (if 0x10 \<le> a \<and> a < 0x10 + 5 then of_nat (a - 0x10) else ubyte m d a)"
    using copyout_reads [OF m(1), of "0x10" 5 "\<lambda>i. of_nat i"] by (auto simp: KERNBASE_def)
  then have "ubyte m' d 0x12 = 2" "ubyte m' d 0x15 = ubyte m d 0x15" using m(2) by (simp_all add: PGSIZE_def)
  then show ?thesis using r(1) by blast
qed

end
