(* ===== verification/Proc_Props.thy ===== *)
theory Proc_Props
  imports Proc_Boot Proc_Calls Vm_Props
begin

text \<open>
  What users of \<open>src/proc.c\<close> rely on: the invariant of the kernel holds in every state that the process
  operations and the file system calls reach from the first process on, the operations
  that switch do not panic when they are called with the locks that the code holds, \<open>fork\<close> makes the copy that
  it promises, and \<open>wait\<close> sees every \<open>exit\<close>. The last section runs a machine from boot.
\<close>

section \<open>Steps\<close>

text \<open>
  A step is one operation of one CPU, or one file system call of the process that it runs. An operation
  that gives up the CPU ends when the scheduler of that CPU has taken over, and what follows the
  switch is a step of its own. The locks restrict which steps are possible: where an operation would spin for
  a lock or panic there is no step.
\<close>

inductive kstep :: "'z psys_scheme devsw \<Rightarrow> 'z psys_scheme \<Rightarrow> 'z psys_scheme \<Rightarrow> bool" for devsw where
  forks: "kstep devsw s t" if "proc_of s c = Some p" "nextpid s < 2147483647" "fork p s = Inr (r, t)"
| grows: "kstep devsw s t" if "proc_of s c = Some p" "-2147483648 \<le> n" "n < 2147483648" "n < 0 \<longrightarrow> int (p_sz (ptable s p)) + n \<noteq> 0"
    "growproc p n s = Inr (r, t)"
| calls: "kstep devsw s (keep_view p u)" if "proc_of s c = Some p" "sys_step devsw (proc_view p sp um s) u"
| exits: "kstep devsw s (scheduler_back c t)" if "proc_of s c = Some p" "exit c p s = Inr t"
| waits: "kstep devsw s (if r = None then scheduler_back c t else t)" if "proc_of s c = Some p" "wait c p s = Inr (r, t)"
| rescans: "kstep devsw s (if r = None then scheduler_back c t else t)" if "proc_of s c = Some p" "wait_turn c p s = Inr (r, t)"
| yields: "kstep devsw s (scheduler_back c t)" if "proc_of s c = Some p" "yield c p s = Inr t"
| returns: "kstep devsw s t" if "proc_of s c = Some p" "yield_end c intena s = Inr t"
| starts: "kstep devsw s t" if "proc_of s c = Some p" "forkret c s = Inr t"
| sleeps: "kstep devsw s (scheduler_back c t)" if "proc_of s c = Some p" "sleep_begin c chan lk (Some p) s = Inr t"
| resumes: "kstep devsw s t" if "proc_of s c = Some p" "sleep_end c intena l p s = Inr t"
| acquires: "kstep devsw s t" if "acq c l s = Inr t"
| releases: "kstep devsw s t" if "rel c l s = Inr t"
| wakes: "kstep devsw s (wakeup chan s)"
| kills: "kstep devsw s t" if "kill pid s = (r, t)"
| turns: "kstep devsw s t" if "proc_of s c = None" "scheduler_start c s = Inr t"
| schedules: "kstep devsw s t" if "proc_of s c = None" "scheduler_scan c i s = Inr (r, t)"

lemma kstep_ok:
  assumes "kstep devsw s t" and ok: "kernel_ok U s" and d: "dev_keeps devsw"
  shows "kernel_ok U t"
  using assms(1)
proof (cases rule: kstep.cases)
  case (forks c p r)
  then show ?thesis by (cases rule: fork_ok [OF ok forks(1,2)]) auto
next
  case (grows c p n r)
  then show ?thesis using growproc_ok [OF ok grows(1-4)] by auto
next
  case (calls c p sp um u)
  then show ?thesis using kernel_call [OF ok _ d] by simp
next
  case (exits c p t')
  then show ?thesis using exit_ok [OF ok] by simp
next
  case (waits c p r t')
  show ?thesis unfolding waits(1) by (rule wait_ok [OF ok waits(2,3)])
next
  case (rescans c p r t')
  show ?thesis unfolding rescans(1) by (rule wait_turn_ok [OF ok rescans(2,3)])
next
  case (yields c p t')
  show ?thesis unfolding yields(1) by (rule yield_ok [OF ok yields(2,3)])
next
  case (returns c p intena)
  then show ?thesis using resume_ok(1) [OF ok] by blast
next
  case (starts c p)
  then show ?thesis using lock_steps_ok(2) [OF ok] by (simp add: forkret_def)
next
  case (sleeps c p chan lk t')
  show ?thesis unfolding sleeps(1) by (rule sleep_ok [OF ok sleeps(2,3)])
next
  case (resumes c p intena l)
  then show ?thesis using resume_ok(2) [OF ok] by blast
next
  case (acquires c l)
  then show ?thesis by (rule lock_steps_ok(1) [OF ok])
next
  case (releases c l)
  then show ?thesis by (rule lock_steps_ok(2) [OF ok])
next
  case (wakes chan)
  then show ?thesis using wakeup1_ok [OF ok] by (simp add: wakeup_def)
next
  case (kills pid r)
  then show ?thesis using kill_ok [OF ok] by blast
next
  case (turns c)
  then show ?thesis using ok by (auto simp: scheduler_start_def dest!: acq_D)
next
  case (schedules c i r)
  then show ?thesis using scheduler_ok [OF ok] by blast
qed

lemma ksteps_ok: "(kstep devsw)\<^sup>*\<^sup>* s t \<Longrightarrow> kernel_ok U s \<Longrightarrow> dev_keeps devsw \<Longrightarrow> kernel_ok U t"
  by (induction rule: rtranclp_induct) (auto intro: kstep_ok)

text \<open>What the invariant says about pages and CPUs.\<close>

lemma kernel_owners:
  assumes "kernel_ok U s"
  shows "p \<in> used s \<Longrightarrow> q \<in> used s \<Longrightarrow> p \<noteq> q \<Longrightarrow>
      insert (p_kstack (ptable s p)) (owned (km s) (p_pgdir (ptable s p))) \<inter> insert (p_kstack (ptable s q)) (owned (km s) (p_pgdir (ptable s q))) = {}"
    "\<exists>ps. free_pages (kend s) (km s) ps \<and> U = set ps \<union> (\<Union>p \<in> used s. insert (p_kstack (ptable s p)) (owned (km s) (p_pgdir (ptable s p)))) \<union> pipe_pages s"
proof -
  obtain ps where "pages_inv s ps U" using assms by (auto simp: kernel_ok_def files_state_def)
  note D = mem_ok_D [OF this [unfolded pages_inv_def]]
  show "p \<in> used s \<Longrightarrow> q \<in> used s \<Longrightarrow> p \<noteq> q \<Longrightarrow>
      insert (p_kstack (ptable s p)) (owned (km s) (p_pgdir (ptable s p))) \<inter> insert (p_kstack (ptable s q)) (owned (km s) (p_pgdir (ptable s q))) = {}"
    by (rule D(7))
  show "\<exists>ps. free_pages (kend s) (km s) ps \<and> U = set ps \<union> (\<Union>p \<in> used s. insert (p_kstack (ptable s p)) (owned (km s) (p_pgdir (ptable s p)))) \<union> pipe_pages s"
    using D(1,12) by blast
qed

text \<open>A request to shrink a process to nothing frees its pages and keeps its size.\<close>

lemma growproc_to_zero:
  fixes s :: "'z psys_scheme"
  assumes ok: "kernel_ok U s" and c: "proc_of s c = Some p" and n: "0 < p_sz (ptable s p)"
  shows "\<exists>m. growproc p (- int (p_sz (ptable s p))) s = Inr (-1, s\<lparr>km := m\<rparr>) \<and> upages m (p_pgdir (ptable s p)) = {}"
proof -
  have p: "p \<in> used s" by (rule running_D(2) [OF ok c])
  let ?sz = "p_sz (ptable s p)" and ?d = "p_pgdir (ptable s p)"
  obtain ps where ps: "mem_ok (kend s) (km s) ps (used s) (\<lambda>p. p_pgdir (ptable s p)) (\<lambda>p. p_kstack (ptable s p))
      (\<lambda>p. p_sz (ptable s p)) (pipe_pages s) U" using ok by (auto simp: kernel_ok_def files_state_def pages_inv_def)
  have k: "kend s > KERNBASE" using ok by (simp add: kernel_ok_def)
  have sz: "?sz < 2147483648" using mem_ok_D(6) [OF ps p] by (simp add: sz_ok_def KERNBASE_def)
  have un: "uadd ?sz (pat32 (- int ?sz)) = 0" using uadd_pat32 [OF sz, of "- int ?sz"] sz by simp
  obtain m qs where m: "deallocuvm (kend s) ?d ?sz 0 (km s) = Inr (0, m)"
    "mem_ok (kend s) m qs (used s) (\<lambda>p. p_pgdir (ptable s p)) (\<lambda>p. p_kstack (ptable s p)) ((\<lambda>p. p_sz (ptable s p))(p := 0)) (pipe_pages s) U"
    by (rule mem_shrink [OF ps p k n])
  have "sz_ok m ?d 0" using mem_ok_D(6) [OF m(2) p] by simp
  then have "upages m ?d = {}" by (auto simp: sz_ok_def upages_def)
  moreover have "growproc p (- int ?sz) s = Inr (-1, s\<lparr>km := m\<rparr>)" using n m(1) un by (simp add: growproc_def Let_def)
  ultimately show ?thesis by blast
qed

text \<open>What it says about open files.\<close>

lemma kernel_refs:
  assumes "kernel_ok U s"
  shows "f_ref (ftable s f) = int (card {(p, fd). p < NPROC \<and> fd < NOFILE \<and> p_ofile (ptable s p) fd = Some f})"
proof -
  have "files_ok (refs s) s" "ofile s = (\<lambda>_. None)" using assms by (auto simp: kernel_ok_def files_state_def refs_inv_def)
  then show ?thesis by (simp add: files_ok_def fds_def refs_def holders_def)
qed

text \<open>A turn of \<open>wait\<close> and a turn of the scheduler end.\<close>

lemma scheduler_runs:
  fixes s :: "'z psys_scheme"
  assumes ok: "kernel_ok U s" and c: "proc_of s c = None" and l: "c_ncli (cpus (kmach s) c) = 0" "\<not> lk_locked (locks (kmach s) ptable_lock)"
  obtains s1 r t where "scheduler_start c s = Inr s1" "scheduler_scan c 0 s1 = Inr (r, t)"
    "case r of None \<Rightarrow> ptable t = ptable s \<and> (\<forall>q < NPROC. p_state (ptable s q) \<noteq> RUNNABLE) \<and> \<not> lk_locked (locks (kmach t) ptable_lock)
     | Some q \<Rightarrow> q < NPROC \<and> p_state (ptable s q) = RUNNABLE \<and> proc_of t c = Some q \<and> p_state (ptable t q) = RUNNING \<and> at_sched c (kmach t)"
proof -
  let ?s = "s\<lparr>kmach := set_cpu c (\<lambda>x. x\<lparr>c_if := True\<rparr>) (kmach s)\<rparr>"
  obtain m where m: "acq c ptable_lock ?s = Inr (?s\<lparr>kmach := m\<rparr>)" "at_sched c m" by (rule acq_ptable [of ?s c]) (use l in simp_all)
  let ?s1 = "s\<lparr>kmach := m\<rparr>"
  have st: "scheduler_start c s = Inr ?s1" using m(1) by (simp add: scheduler_start_def)
  have ok1: "kernel_ok U ?s1" and c1: "proc_of ?s1 c = None" using ok c by simp_all
  show thesis
  proof (cases "find (\<lambda>p. p_state (ptable ?s1 p) = RUNNABLE) [0..<NPROC]")
    case None
    have "at_sched c (kmach ?s1)" using m(2) by simp
    then obtain m' where "rel c ptable_lock ?s1 = Inr (?s1\<lparr>kmach := m'\<rparr>)" "\<not> lk_locked (locks m' ptable_lock)" by (rule rel_ptable)
    then have "scheduler_scan c 0 ?s1 = Inr (None, s\<lparr>kmach := m'\<rparr>)" "\<not> lk_locked (locks m' ptable_lock)"
      using None by (simp_all add: scheduler_scan_def)
    then show thesis using that [OF st] None by (auto simp: find_None_iff)
  next
    case (Some q)
    note k = scheduler_picks [OF ok1 c1 Some refl]
    show thesis by (rule that [OF st k(1)]) (use Some m(2) in \<open>auto simp: find_upt_Some\<close>)
  qed
qed

lemma wait_turn_returns:
  fixes s :: "'z psys_scheme"
  assumes ok: "kernel_ok U s" and l: "at_sched c (kmach s)"
  shows "\<exists>r. wait_turn c p s = Inr r"
proof (cases "find (\<lambda>q. p_parent (ptable s q) = Some p \<and> p_state (ptable s q) = ZOMBIE) [0..<NPROC]")
  case None
  obtain m where m: "rel c ptable_lock s = Inr (s\<lparr>kmach := m\<rparr>)" by (rule rel_ptable [OF l])
  let ?u = "set_proc p (\<lambda>x. x\<lparr>p_chan := Proc_chan p, p_state := SLEEPING\<rparr>) s"
  obtain m' where "sched c p ?u = Inr (?u\<lparr>kmach := m'\<rparr>)" by (rule sched_passes [of c ?u p]) (use l in simp_all)
  then show ?thesis using None m by (simp add: wait_turn_def sleep_begin_def)
next
  case (Some q)
  then have q: "q < NPROC" "p_state (ptable s q) = ZOMBIE" by (auto simp: find_upt_Some)
  obtain m1 m2 where m: "kfree (kend s) (p_kstack (ptable s q)) (km s) = Inr m1" "freevm (kend s) (p_pgdir (ptable s q)) m1 = Inr m2"
    by (rule wait_reaps_ok [OF ok q])
  let ?u = "set_proc q (\<lambda>x. x\<lparr>p_kstack := 0, p_pid := 0, p_parent := None, p_name := (p_name x)(0 := 0),
       p_killed := False, p_state := UNUSED\<rparr>) (s\<lparr>km := m2\<rparr>)"
  have "at_sched c (kmach ?u)" using l by simp
  then obtain m' where "rel c ptable_lock ?u = Inr (?u\<lparr>kmach := m'\<rparr>)" by (rule rel_ptable)
  then show ?thesis using Some m by (simp add: wait_turn_def)
qed

section \<open>Properties\<close>

text \<open>
  C12: The invariant of the kernel. From a machine with empty tables, \<open>userinit\<close> and then any sequence
  of \<open>fork\<close>, \<open>growproc\<close>, \<open>exit\<close>, \<open>wait\<close>, \<open>yield\<close>, \<open>sleep\<close>, \<open>wakeup\<close>, \<open>kill\<close>, scheduling, and file system calls
  (\<open>open\<close>, \<open>pipe\<close>, \<open>dup\<close>, \<open>close\<close>, \<open>read\<close>, \<open>write\<close> and the others) of any processes on any CPUs leads to
  states where processes have different positive identifiers, every process but init has a parent that has not
  exited, free slots hold no files, every CPU runs a process that is marked as running and no two CPUs run
  the same; the reference count of every open file is the number of descriptors for it in the whole
  process table; and every page of memory is free or has exactly one owner, so that processes share no page
  and none is lost. Two calls are left out of the sequences: a \<open>growproc\<close> that shrinks a process to exactly
  zero bytes, which frees its pages and keeps its size, and a \<open>fork\<close> with \<open>nextpid\<close> at its maximum, which
  overflows. The device functions are asked to leave the state beyond the file systems alone.
\<close>

theorem kernel_invariant:
  assumes "fresh U s0" and "isz < PGSIZE" and "userinit devsw init isz s0 = Inr s" and "(kstep devsw)\<^sup>*\<^sup>* s t" and "dev_keeps devsw"
  shows "kernel_ok U t \<and>
    (\<forall>f. f_ref (ftable t f) = int (card {(p, fd). p < NPROC \<and> fd < NOFILE \<and> p_ofile (ptable t p) fd = Some f})) \<and>
    (\<forall>p \<in> used t. \<forall>q \<in> used t. p \<noteq> q \<longrightarrow> owned (km t) (p_pgdir (ptable t p)) \<inter> owned (km t) (p_pgdir (ptable t q)) = {} \<and>
       p_kstack (ptable t p) \<noteq> p_kstack (ptable t q)) \<and>
    (\<exists>ps. free_pages (kend t) (km t) ps \<and>
       U = set ps \<union> (\<Union>p \<in> used t. insert (p_kstack (ptable t p)) (owned (km t) (p_pgdir (ptable t p)))) \<union> pipe_pages t)"
proof -
  have "kernel_ok U s" by (rule userinit_ok [OF assms(1,2), where devsw = devsw and init = init]) (use assms(3) in auto)
  then have ok: "kernel_ok U t" by (rule ksteps_ok [OF assms(4) _ assms(5)])
  have "owned (km t) (p_pgdir (ptable t p)) \<inter> owned (km t) (p_pgdir (ptable t q)) = {} \<and> p_kstack (ptable t p) \<noteq> p_kstack (ptable t q)"
    if "p \<in> used t" "q \<in> used t" "p \<noteq> q" for p q using kernel_owners(1) [OF ok that] by auto
  then show ?thesis using ok kernel_refs [OF ok] kernel_owners(2) [OF ok] by blast
qed

text \<open>
  C13: \<open>fork\<close> does what it promises, as long as \<open>nextpid\<close> is below its maximum. In every state of the
  invariant the call returns, no entry of a process in use changes, and all memory but the free pages keeps
  its contents. It returns a new identifier and there is one new process, ready to run: its parent is the caller, it
  has the caller's size, descriptors and directory, each of its pages is a copy of the caller's, and
  its trap frame is the caller's except that the returned value is 0. Or it returns \<open>-1\<close>, for want of a
  free slot or of pages; then \<open>nextpid\<close>, one slot that is not in use, the list of free pages and their
  contents are all that may differ. The invariant holds again in both cases.
\<close>

theorem fork_clones:
  fixes s :: "'z psys_scheme"
  assumes "kernel_ok U s" and "proc_of s c = Some p" and "nextpid s < 2147483647"
  shows "\<exists>r t ps. fork p s = Inr (r, t) \<and> kernel_ok U t \<and> (\<forall>q \<in> used s. ptable t q = ptable s q) \<and>
    free_pages (kend s) (km s) ps \<and> same_off (set ps) (km s) (km t) \<and>
    (if r = -1 then
       (\<exists>np x n m. np \<notin> used s \<and> t = s\<lparr>nextpid := n, km := m, ptable := (ptable s)(np := x)\<rparr>) \<and> used t = used s \<and>
       (used s = {..<NPROC} \<or> length ps \<le> 1027 + (p_sz (ptable s p) + 4095) div PGSIZE)
     else r = nextpid s \<and> (\<exists>np. np < NPROC \<and> np \<notin> used s \<and> used t = insert np (used s) \<and> child_of s p t np))"
proof (cases rule: fork_ok [OF assms, case_names forked failed])
  case (forked np t ps)
  have "nextpid s > 0" using assms(1) by (simp add: kernel_ok_def pids_ok_def)
  moreover have "np \<notin> used s" "\<forall>q \<in> used s. ptable t q = ptable s q" using forked(4,6) by (auto simp: used_def)
  moreover have "p_state (ptable t np) = RUNNABLE" using forked(5) by (simp add: child_of_def Let_def)
  then have "q \<in> used t \<longleftrightarrow> q \<in> insert np (used s)" for q using forked(3,6) by (cases "q = np") (auto simp: used_def)
  then have "used t = insert np (used s)" by blast
  moreover have "free_pages (kend s) (km s) ps" using forked(9) by (simp add: pages_inv_def mem_ok_def)
  ultimately show ?thesis using forked(1,2,3,5,10) by (intro exI [of _ "nextpid s"] exI [of _ t] exI [of _ ps]) auto
next
  case (failed t ps)
  have fp: "free_pages (kend s) (km s) ps" using failed(5) by (simp add: pages_inv_def mem_ok_def)
  show ?thesis unfolding PGSIZE_def
    by (intro exI [of _ "-1"] exI [of _ t] exI [of _ ps] conjI failed(1,2,4,7) fp) (simp only: if_True simp_thms failed(3,6,8))
qed

text \<open>
  C15: The process operations do not panic when they are called as the code calls them. In every
  state of the invariant, let CPU \<open>c\<close> run process \<open>p\<close> and CPU \<open>c'\<close> run none, both holding no lock, and let
  \<open>ptable.lock\<close> be free. Then \<open>growproc\<close> with any argument and \<open>wait\<close> return, without a panic
  of \<open>kalloc\<close>, \<open>kfree\<close>, \<open>mappages\<close>, \<open>sched\<close>, \<open>switchuvm\<close> or the locks below them. \<open>yield\<close> reaches its switch with
  exactly \<open>ptable.lock\<close> held, and when a CPU that holds exactly this lock resumes it, it returns with no lock and
  with the interrupt flag that it was called with. A process that acquires any lock and sleeps on
  it reaches the switch. The scheduler of \<open>c'\<close> switches to a process that is ready, holding
  \<open>ptable.lock\<close>, or none is ready and it releases the lock.
\<close>

theorem kernel_no_panic:
  fixes s :: "'z psys_scheme"
  assumes "kernel_ok U s" and "proc_of s c = Some p" and "-2147483648 \<le> n" "n < 2147483648" and "proc_of s c' = None"
    and "c_ncli (cpus (kmach s) c) = 0" "c_ncli (cpus (kmach s) c') = 0" "\<not> lk_locked (locks (kmach s) ptable_lock)"
  shows "(\<exists>r. growproc p n s = Inr r) \<and> (\<exists>r. wait c p s = Inr r) \<and>
    (\<exists>t. yield c p s = Inr t \<and> at_sched c (kmach t) \<and>
      (\<forall>d m. at_sched d m \<longrightarrow> (\<exists>u. yield_end d (c_intena (cpus (kmach t) c)) (t\<lparr>kmach := m\<rparr>) = Inr u \<and>
         c_ncli (cpus (kmach u) d) = 0 \<and> c_if (cpus (kmach u) d) = c_if (cpus (kmach s) c)))) \<and>
    (\<forall>l m. acquire c l (kmach s) = Inr m \<longrightarrow>
      (\<exists>t. sleep_begin c chan (Some l) (Some p) (s\<lparr>kmach := m\<rparr>) = Inr t \<and> at_sched c (kmach t))) \<and>
    (\<exists>s1 r t. scheduler_start c' s = Inr s1 \<and> scheduler_scan c' 0 s1 = Inr (r, t) \<and>
      (case r of None \<Rightarrow> ptable t = ptable s \<and> (\<forall>q < NPROC. p_state (ptable s q) \<noteq> RUNNABLE) \<and> \<not> lk_locked (locks (kmach t) ptable_lock)
       | Some q \<Rightarrow> q < NPROC \<and> p_state (ptable s q) = RUNNABLE \<and> proc_of t c' = Some q \<and> p_state (ptable t q) = RUNNING \<and>
           at_sched c' (kmach t)))"
proof -
  have g: "\<exists>r. growproc p n s = Inr r"
  proof (cases "n < 0 \<and> int (p_sz (ptable s p)) + n = 0")
    case True
    then have "n = - int (p_sz (ptable s p))" "0 < p_sz (ptable s p)" by linarith+
    then show ?thesis using growproc_to_zero [OF assms(1,2)] by auto
  next
    case False
    then show ?thesis using growproc_ok [OF assms(1-4)] by auto
  qed
  obtain m where m: "acq c ptable_lock s = Inr (s\<lparr>kmach := m\<rparr>)" "at_sched c m" by (rule acq_ptable [OF assms(6,8)])
  have "\<exists>r. wait_turn c p (s\<lparr>kmach := m\<rparr>) = Inr r" by (rule wait_turn_returns) (use assms(1) m(2) in simp_all)
  then have w: "\<exists>r. wait c p s = Inr r" using m(1) by (simp add: wait_def)
  obtain t where t: "yield c p s = Inr t" "at_sched c (kmach t)" "c_intena (cpus (kmach t) c) = c_if (cpus (kmach s) c)"
    by (rule yield_returns [OF assms(6,8)])
  have e: "\<exists>u. yield_end d (c_intena (cpus (kmach t) c)) (t\<lparr>kmach := m\<rparr>) = Inr u \<and>
      c_ncli (cpus (kmach u) d) = 0 \<and> c_if (cpus (kmach u) d) = c_if (cpus (kmach s) c)" if "at_sched d m" for d m
    using yield_end_returns [of d "t\<lparr>kmach := m\<rparr>" "c_intena (cpus (kmach t) c)"] that t(3) by auto
  have l: "\<exists>t. sleep_begin c chan (Some l) (Some p) (s\<lparr>kmach := m\<rparr>) = Inr t \<and> at_sched c (kmach t)"
    if "acquire c l (kmach s) = Inr m" for l m
    by (rule sleep_returns [OF that assms(6,8), of chan p]) blast
  let ?P = "\<lambda>r t. case r of None \<Rightarrow> ptable t = ptable s \<and> (\<forall>q < NPROC. p_state (ptable s q) \<noteq> RUNNABLE) \<and> \<not> lk_locked (locks (kmach t) ptable_lock)
       | Some q \<Rightarrow> q < NPROC \<and> p_state (ptable s q) = RUNNABLE \<and> proc_of t c' = Some q \<and> p_state (ptable t q) = RUNNING \<and> at_sched c' (kmach t)"
  have "\<exists>s1 r t. scheduler_start c' s = Inr s1 \<and> scheduler_scan c' 0 s1 = Inr (r, t) \<and> ?P r t"
    by (rule scheduler_runs [OF assms(1,5,7,8)]) blast
  then show ?thesis using g w t(1,2) e l by blast
qed

text \<open>
  C14: \<open>wait\<close> sees every \<open>exit\<close>. When a process \<open>p\<close> with parent \<open>q\<close> exits, \<open>q\<close> is not left asleep in \<open>wait\<close>, and the
  CPU of \<open>p\<close> goes to the scheduler with \<open>ptable.lock\<close> held. The next turn of \<open>q\<close> in the loop of \<open>wait\<close>, on any CPU
  that holds the lock, returns the identifier of a child of \<open>q\<close> that has exited instead of sleeping, its slot is free
  afterwards, no other process has changed, and all its pages are back on the free list.
\<close>

theorem exit_seen_by_wait:
  fixes s :: "'z psys_scheme"
  assumes "kernel_ok U s" and "proc_of s c = Some p" and "p_parent (ptable s p) = Some q" "p \<noteq> q" and "exit c p s = Inr t"
  shows "\<not> (p_state (ptable t q) = SLEEPING \<and> p_chan (ptable t q) = Proc_chan q) \<and> at_sched c (kmach t) \<and>
    (\<exists>z. z < NPROC \<and> p_state (ptable t z) = ZOMBIE \<and> p_parent (ptable t z) = Some q \<and>
      (\<forall>d m. at_sched d m \<longrightarrow> (\<exists>u. wait_turn d q ((scheduler_back c t)\<lparr>kmach := m\<rparr>) = Inr (Some (p_pid (ptable t z)), u) \<and>
        used u = used t - {z} \<and> (\<forall>y. y \<noteq> z \<longrightarrow> ptable u y = ptable t y) \<and> kernel_ok U u)))"
proof -
  note run = running_D [OF assms(1,2)]
  have tr: "tree_ok s" using assms(1) by (simp add: kernel_ok_def)
  then obtain i where i: "initproc s = Some i" by (auto simp: tree_ok_def)
  have q: "q \<in> used s" using tr run(2) assms(3) by (auto simp: tree_ok_def) (metis DiffI option.discI option.inject singletonD)
  obtain s1 :: "'z psys_scheme" where e: "i \<noteq> p"
    "\<forall>q. ptable t q = (ptable s1 q)\<lparr>p_parent := (if q < NPROC \<and> p_parent (ptable s q) = Some p then Some i else p_parent (ptable s q)),
      p_cwd := (if q = p then None else p_cwd (ptable s q)), p_state := p_state (ptable t q)\<rparr>"
    "p_state (ptable t p) = ZOMBIE"
    "\<forall>q < NPROC. p_state (ptable t q) = SLEEPING \<longrightarrow> p_chan (ptable t q) \<noteq> parent_chan (p_parent (ptable s p))"
    "at_sched c (kmach t)"
    by (rule exit_state [OF assms(1) run(1) i assms(5)]) blast
  have par: "p_parent (ptable t p) = Some q" using assms(3,4) by (subst e(2) [rule_format]) simp
  have awake: "\<not> (p_state (ptable t q) = SLEEPING \<and> p_chan (ptable t q) = Proc_chan q)"
    using e(4) q assms(3) by (auto simp: parent_chan_def used_def)
  have ok: "kernel_ok U (scheduler_back c t)" by (rule exit_ok [OF assms(1,2,5)])
  have "find (\<lambda>x. p_parent (ptable t x) = Some q \<and> p_state (ptable t x) = ZOMBIE) [0..<NPROC] \<noteq> None"
    using par e(3) run(1) by (auto simp: find_None_iff)
  then obtain z where f: "find (\<lambda>x. p_parent (ptable t x) = Some q \<and> p_state (ptable t x) = ZOMBIE) [0..<NPROC] = Some z" by blast
  then have z: "z < NPROC" "p_parent (ptable t z) = Some q" "p_state (ptable t z) = ZOMBIE" by (auto simp: find_upt_Some)
  have "\<exists>u. wait_turn d q ((scheduler_back c t)\<lparr>kmach := m\<rparr>) = Inr (Some (p_pid (ptable t z)), u) \<and>
        used u = used t - {z} \<and> (\<forall>y. y \<noteq> z \<longrightarrow> ptable u y = ptable t y) \<and> kernel_ok U u" if l: "at_sched d m" for d m
  proof -
    let ?t = "(scheduler_back c t)\<lparr>kmach := m\<rparr>"
    have b: "ptable ?t = ptable t" "kend ?t = kend t" "km ?t = km t" "kmach ?t = m" by (simp_all add: scheduler_back_def)
    have okt: "kernel_ok U ?t" using ok by simp
    have zs: "p_state (ptable ?t z) = ZOMBIE" using z(3) by (simp add: b)
    let ?u = "\<lambda>m2. set_proc z (\<lambda>x. x\<lparr>p_kstack := 0, p_pid := 0, p_parent := None, p_name := (p_name x)(0 := 0),
         p_killed := False, p_state := UNUSED\<rparr>) (?t\<lparr>km := m2\<rparr>)"
    obtain m1 m2 where m: "kfree (kend ?t) (p_kstack (ptable ?t z)) (km ?t) = Inr m1" "freevm (kend ?t) (p_pgdir (ptable ?t z)) m1 = Inr m2"
      "kernel_ok U (?u m2)" by (rule wait_reaps_ok [OF okt z(1) zs])
    have "at_sched d (kmach (?u m2))" using l by simp
    then obtain m' where m': "rel d ptable_lock (?u m2) = Inr ((?u m2)\<lparr>kmach := m'\<rparr>)" by (rule rel_ptable)
    have "wait_turn d q ?t = Inr (Some (p_pid (ptable t z)), (?u m2)\<lparr>kmach := m'\<rparr>)"
      unfolding wait_turn_def b(1) f using m(1,2) m' by (simp add: b Let_def)
    moreover have "used ((?u m2)\<lparr>kmach := m'\<rparr>) = used t - {z}" "\<forall>y. y \<noteq> z \<longrightarrow> ptable ((?u m2)\<lparr>kmach := m'\<rparr>) y = ptable t y"
      by (auto simp: used_def scheduler_back_def split: if_splits)
    moreover have "kernel_ok U ((?u m2)\<lparr>kmach := m'\<rparr>)" using m(3) by simp
    ultimately show ?thesis by blast
  qed
  then show ?thesis using awake z e(5) by blast
qed

text \<open>
  C40: \<open>kill(0)\<close> dooms the next process. No process has identifier 0, yet \<open>kill\<close> compares identifiers
  without looking at states: it finds a free slot, marks it as killed and reports success. \<open>allocproc\<close> does not clear
  the mark, so the next child that \<open>fork\<close> puts there is killed before it runs.
\<close>

theorem kill_zero_dooms_child:
  fixes s :: "'z psys_scheme"
  assumes "kernel_ok U s" and "proc_of s c = Some p" and "nextpid s < 2147483647"
    and "find (\<lambda>q. p_state (ptable s q) = UNUSED) [0..<NPROC] = Some np" "p_pid (ptable s np) = 0"
    and "kill 0 s = (r, t)" and "fork p t = Inr (pid, u)" "pid \<noteq> -1"
  shows "r = 0 \<and> (\<forall>q \<in> used s. p_pid (ptable s q) \<noteq> 0) \<and> p_state (ptable u np) = RUNNABLE \<and> p_pid (ptable u np) = pid \<and> p_killed (ptable u np)"
proof -
  have pids: "\<forall>q \<in> used s. p_pid (ptable s q) \<noteq> 0" using assms(1) by (auto simp: kernel_ok_def pids_ok_def)
  have np: "np < NPROC" "p_state (ptable s np) = UNUSED" "\<forall>q < np. p_state (ptable s q) \<noteq> UNUSED"
    using assms(4) by (auto simp: find_upt_Some)
  have "find (\<lambda>q. p_pid (ptable s q) = 0) [0..<NPROC] = Some np"
    using np assms(5) pids by (simp add: find_upt_Some used_def)
  then have t: "r = 0" "t = set_proc np (\<lambda>x. x\<lparr>p_killed := True, p_state := UNUSED\<rparr>) s"
    using assms(6) np(2) by (simp_all add: kill_def set_proc_def fun_upd_def)
  have ok: "kernel_ok U t" by (rule kill_ok [OF assms(1,6)])
  have run: "proc_of t c = Some p" "nextpid t < 2147483647" using assms(2,3) by (simp_all add: t(2))
  show ?thesis
  proof (cases rule: fork_ok [OF ok run, case_names forked failed])
    case (forked n v)
    have "(\<lambda>q. p_state (ptable t q) = UNUSED) = (\<lambda>q. p_state (ptable s q) = UNUSED)" using np(2) by (auto simp: t(2))
    then have "n = np" using forked(8) assms(4) by simp
    then show ?thesis using forked(1,5,7) assms(7) t pids by (simp add: child_of_def Let_def)
  next
    case (failed v ps)
    then show ?thesis using assms(7,8) by simp
  qed
qed

section \<open>A machine\<close>

text \<open>The state before \<open>userinit\<close>, on a machine with memory up to \<open>PHYSTOP\<close>.\<close>

definition boot_proc :: proc where
  "boot_proc = \<lparr>p_sz = 0, p_pgdir = 0, p_kstack = 0, p_state = UNUSED, p_pid = 0, p_parent = None, p_tf = 0, p_context = 0,
     p_chan = Null_chan, p_killed = False, p_ofile = (\<lambda>_. None), p_cwd = None, p_name = (\<lambda>_. 0)\<rparr>"

definition boot_mach :: mach where
  "boot_mach = \<lparr>cpus = (\<lambda>_. \<lparr>c_ncli = 0, c_intena = False, c_if = True\<rparr>), locks = (\<lambda>_. \<lparr>lk_locked = False, lk_cpu = None\<rparr>)\<rparr>"

definition boot_psys :: "kmem \<Rightarrow> psys" where
  "boot_psys k = ksys.extend ((boot_ksys 0 0 (\<lambda>_. 0) k)\<lparr>kend := 0x80115000\<rparr>)
     (psys.fields (\<lambda>_. boot_proc) 1 None (\<lambda>_. None) 0x80108000 0x80105000 0x80104000 boot_mach)"

lemma boot_psys_fields [simp]:
  "kend (boot_psys k) = 0x80115000" "kdata (boot_psys k) = 0x80108000" "nextpid (boot_psys k) = 1" "proc_of (boot_psys k) = (\<lambda>_. None)"
  "ofile (boot_psys k) = (\<lambda>_. None)" "ptable (boot_psys k) = (\<lambda>_. boot_proc)" "ftable (boot_psys k) = (\<lambda>_. boot_file)"
  "icache (boot_psys k) = (\<lambda>_. boot_inode)" "xv6fs_addrs (boot_psys k) = (\<lambda>_. \<lparr>ad_busy = 0, ad_addrs = (\<lambda>_. 0)\<rparr>)"
  "ext2fs_addrs (boot_psys k) = (\<lambda>_. \<lparr>ad_busy = 0, ad_addrs = (\<lambda>_. 0)\<rparr>)" "km (boot_psys k) = k"
  by (simp_all add: boot_psys_def ksys.extend_def psys.fields_def boot_ksys_def fsys.extend_def ksys.fields_def
    boot_fsys_def logst.extend_def fsys.fields_def)

lemma demo_fresh: obtains k U where "fresh U (boot_psys k)" "card U = 0xDC00"
proof -
  obtain m ps where m: "free_pages 0x80115000 (m :: kmem) ps" "length ps = 0xDC00" using booted by blast
  have "fresh (set ps) (boot_psys m)"
    using m demo_consts by (auto simp: fresh_def boot_proc_def boot_file_def boot_inode_def)
  moreover have "card (set ps) = 0xDC00" using m distinct_card [of ps] by (simp add: free_pages_def)
  ultimately show thesis using that by blast
qed

lemma free_many:
  assumes ok: "kernel_ok U s" and u: "used s = {p}" "pipe_pages s = {}" "p_sz (ptable s p) = PGSIZE" and U: "card U = 0xDC00"
    and ps: "free_pages (kend s) (km s) ps"
  shows "length ps > 50000"
proof -
  let ?d = "p_pgdir (ptable s p)" and ?k = "p_kstack (ptable s p)"
  obtain qs where qs: "pages_inv s qs U" using ok by (auto simp: kernel_ok_def files_state_def)
  note D = mem_ok_D [OF qs [unfolded pages_inv_def]]
  have "qs = ps" using D(1) ps by (metis free_pages_unique)
  have "sz_ok (km s) ?d PGSIZE" using D(6) [of p] u by simp
  then have z: "\<forall>v. 1 \<le> v \<and> v < 0x80000 \<longrightarrow> pte_of (km s) ?d v = 0" by (simp add: sz_ok_def PGSIZE_def)
  have "upages (km s) ?d \<subseteq> {..<1}"
  proof
    fix v assume "v \<in> upages (km s) ?d"
    then have "v < 0x80000" "pte_of (km s) ?d v \<noteq> 0" by (auto simp: upages_def intro: ccontr)
    then show "v \<in> {..<1}" using z by (metis lessThan_iff not_le)
  qed
  from space_bound [OF this] have b: "card (set ps \<union> owned (km s) ?d) \<le> length ps + 1026" by simp
  have "U = insert ?k (set ps \<union> owned (km s) ?d)" using D(12) u \<open>qs = ps\<close> by auto
  then have "card U \<le> card (set ps \<union> owned (km s) ?d) + 1" by (simp add: card_insert_le_m1 card_insert_if)
  then show ?thesis using b U by simp
qed

definition boot_devsw :: "psys devsw" where
  "boot_devsw = \<lparr>dev_read = (\<lambda>_. None), dev_write = (\<lambda>_. None)\<rparr>"

lemma boot_devsw_keeps: "dev_keeps boot_devsw"
  by (simp add: dev_keeps_def boot_devsw_def)

text \<open>The first process runs on CPU 0.\<close>

lemma demo_init:
  obtains U k s p t where "fresh U (boot_psys k)" "userinit boot_devsw (\<lambda>_. 0) 4 (boot_psys k) = Inr s" "(kstep boot_devsw)\<^sup>*\<^sup>* s t"
    "kernel_ok U t" "proc_of t = (\<lambda>_. None)(0 := Some p)" "nextpid t = 2" "used t = {p}" "p_ofile (ptable t p) = (\<lambda>_. None)"
    "p_sz (ptable t p) = PGSIZE" "\<forall>q. q \<noteq> p \<longrightarrow> ptable t q = boot_proc" "\<forall>ps. free_pages (kend t) (km t) ps \<longrightarrow> length ps > 50000"
    "p < NPROC" "p_state (ptable t p) = RUNNING" "initproc t = Some p"
proof -
  obtain k U where k: "fresh U (boot_psys k)" "card U = 0xDC00" by (rule demo_fresh)
  have "(4 :: nat) < PGSIZE" by (simp add: PGSIZE_def)
  then obtain p s where s: "userinit boot_devsw (\<lambda>_. 0) 4 (boot_psys k) = Inr s" "kernel_ok U s" "initproc s = Some p" "used s = {p}"
    "p_state (ptable s p) = RUNNABLE" "p_sz (ptable s p) = PGSIZE" "p_ofile (ptable s p) = (\<lambda>_. None)"
    "\<forall>q. q \<noteq> p \<longrightarrow> ptable s q = ptable (boot_psys k) q" "nextpid s = 2" "proc_of s = (\<lambda>_. None)" "pipe_pages s = {}"
    by (rule userinit_ok [OF k(1)])
  define t where "t = set_proc p (\<lambda>x. x\<lparr>p_state := RUNNING\<rparr>) (s\<lparr>proc_of := (proc_of s)(0 := Some p)\<rparr>)"
  have p: "p < NPROC" using s(4) by (auto simp: used_def)
  have "find (\<lambda>q. p_state (ptable s q) = RUNNABLE) [0..<NPROC] = Some p"
    using p s(5,8) by (auto simp: find_upt_Some boot_proc_def)
  moreover have "p_kstack (ptable s p) \<noteq> 0" "p_pgdir (ptable s p) \<noteq> 0" using pages_used [OF s(2)] s(4) by auto
  ultimately have "scheduler_scan 0 0 s = Inr (Some p, t)" by (simp add: scheduler_scan_def switchuvm_def t_def)
  moreover have "proc_of s 0 = None" using s(10) by simp
  ultimately have st: "kstep boot_devsw s t" by (rule kstep.schedules [rotated])
  have ok: "kernel_ok U t" by (rule kstep_ok [OF st s(2) boot_devsw_keeps])
  have tt: "used t = {p}" "pipe_pages t = {}" "p_sz (ptable t p) = PGSIZE"
    using s(4,6,11) p by (auto simp: t_def used_def pipe_pages_def)
  have "\<forall>ps. free_pages (kend t) (km t) ps \<longrightarrow> length ps > 50000" using free_many [OF ok tt k(2)] by blast
  then show thesis
    using that [OF k(1) s(1) _ ok, of p] st tt s p by (auto simp: t_def set_proc_def)
qed

text \<open>It makes a pipe.\<close>

lemma demo_pipe:
  fixes t :: psys
  assumes ok: "kernel_ok U t" and t: "proc_of t = (\<lambda>_. None)(0 := Some p)" "used t = {p}" "p_ofile (ptable t p) = (\<lambda>_. None)"
    "p_sz (ptable t p) = PGSIZE" "\<forall>q. q \<noteq> p \<longrightarrow> ptable t q = boot_proc" "\<forall>ps. free_pages (kend t) (km t) ps \<longrightarrow> length ps > 50000"
  obtains u where "kstep boot_devsw t u" "kernel_ok U u" "proc_of u = proc_of t" "nextpid u = nextpid t" "used u = {p}"
    "p_sz (ptable u p) = PGSIZE" "p_ofile (ptable u p) 0 = Some 0" "\<forall>ps. free_pages (kend u) (km u) ps \<longrightarrow> length ps > 2000"
proof -
  define v where "v = proc_view p 0 (\<lambda>_. 0) t"
  have v: "usz v = PGSIZE" "uesp v = 0" "umem v = (\<lambda>_. 0)" "km v = km t" "kend v = kend t" "ofile v = (\<lambda>_. None)" "ftable v = ftable t"
    using t(3,4) by (simp_all add: v_def proc_view_def)
  have a: "argptr 0 8 v = Some 0"
    by (simp add: argptr_def argint_def fetchint_def v uadd_def get32_def pat32_def sint32_def PGSIZE_def)
  have "p_ofile (ptable t q) fd = None" for q fd using t(3,5) by (cases "q = p") (simp_all add: boot_proc_def)
  then have r: "f_ref (ftable v f) = 0" for f using kernel_refs [OF ok, of f] by (simp add: v)
  obtain ps where ps: "free_pages (kend t) (km t) ps" using kernel_owners(2) [OF ok] by blast
  then have "length ps > 50000" using t(6) by blast
  then obtain x qs where qs: "ps = x # qs" "length qs > 2000" by (cases ps) auto
  obtain m where m: "kalloc (km t) = (x, m)" "free_pages (kend t) m qs" using kalloc_ok(2) [OF ps qs(1)] by blast
  have x: "x \<noteq> 0" using ps qs(1) by (auto simp: free_pages_def page_ok_def)
  have n: "[0..<NFILE] = 0 # 1 # [2..<NFILE]" "[0..<NOFILE] = 0 # 1 # [2..<NOFILE]" by (simp_all add: NFILE_def NOFILE_def upt_conv_Cons)
  let ?v1 = "set_file 0 (\<lambda>x. x\<lparr>f_ref := 1\<rparr>) v"
  have fa: "filealloc v = (Some 0, ?v1)" "filealloc ?v1 = (Some 1, set_file 1 (\<lambda>x. x\<lparr>f_ref := 1\<rparr>) ?v1)"
    by (simp_all add: filealloc_def n r)
  obtain w where w: "pipealloc v = Inr (Some (0, 1), w)" "ofile w = (\<lambda>_. None)" "km w = m" "kend w = kend t"
    using m(1) x by (simp add: pipealloc_def fa Let_def v)
  obtain u where u: "sys_pipe v = Inr (0, u)" "ofile u 0 = Some 0" "km u = m" "kend u = kend t"
    using w by (simp add: sys_pipe_def a fdalloc_def n)
  have c: "proc_of t 0 = Some p" using t(1) by simp
  have st: "sys_step boot_devsw (proc_view p 0 (\<lambda>_. 0) t) u" using sys_step.pipes [OF u(1)] by (simp add: v_def)
  have k: "kstep boot_devsw t (keep_view p u)" by (rule kstep.calls [OF c st])
  have okk: "kernel_ok U (keep_view p u)" by (rule kstep_ok [OF k ok boot_devsw_keeps])
  have inv: "pipes_state U v" "files_inv (held_elsewhere p t) v"
    using kernel_view [OF ok c, of 0 "\<lambda>_. 0"] by (simp_all add: v_def)
  have "call_ok U v u" using sys_step_call [OF st boot_devsw_keeps] inv by (simp add: v_def)
  then have pu: "ptable u = ptable t" "same_kernel t u" by (simp_all add: call_ok_def v_def proc_view_def same_kernel_def)
  have "free_pages (kend t) m qs' \<Longrightarrow> qs' = qs" for qs' using m(2) free_pages_unique by blast
  then have "\<forall>ps. free_pages (kend t) m ps \<longrightarrow> length ps > 2000" using qs(2) by blast
  then have "\<forall>ps. free_pages (kend (keep_view p u)) (km (keep_view p u)) ps \<longrightarrow> length ps > 2000" using u(3,4) by (simp add: keep_view_def)
  moreover have "used (keep_view p u) = used t" by (auto simp: keep_view_def used_def pu(1))
  ultimately show thesis using that [OF k okk] pu u(2) t(2,4) by (simp add: keep_view_def same_kernel_def)
qed

text \<open>It forks, and the child runs on CPU 1.\<close>

lemma demo_forked:
  fixes t :: psys
  assumes ok: "kernel_ok U t" and t: "proc_of t = (\<lambda>_. None)(0 := Some p)" "nextpid t = 2" "used t = {p}"
    "p_sz (ptable t p) = PGSIZE" "p < NPROC" "\<forall>ps. free_pages (kend t) (km t) ps \<longrightarrow> length ps > 2000"
  obtains np u where "fork p t = Inr (2, u)" "child_of t p u np" "kernel_ok U u" "used u = {p, np}" "np \<noteq> p" "ptable u p = ptable t p"
    "np < NPROC"
proof -
  have c: "proc_of t 0 = Some p" using t(1) by simp
  have pid: "nextpid t < 2147483647" using t(2) by simp
  show thesis
  proof (cases rule: fork_ok [OF ok c pid, case_names forked failed])
    case (forked np u)
    have "p_state (ptable u np) = RUNNABLE" using forked(5) by (simp add: child_of_def Let_def)
    then have "q \<in> used u \<longleftrightarrow> q \<in> insert np (used t)" for q using forked(3,6) by (cases "q = np") (auto simp: used_def)
    then have "used u = {p, np}" using t(3) by blast
    moreover have "np \<noteq> p" using forked(4) t(3) by (auto simp: used_def)
    ultimately show thesis using that forked(1,2,3,5,6) t(2) by simp
  next
    case (failed u ps)
    have "free_pages (kend t) (km t) ps" using failed(5) by (simp add: pages_inv_def mem_ok_def)
    then have "length ps > 2000" using t(6) by blast
    moreover have "used t \<noteq> {..<NPROC}"
    proof
      assume "used t = {..<NPROC}"
      then have "card {p} = card {..<NPROC}" using t(3) by simp
      then show False by (simp add: NPROC_def)
    qed
    ultimately show thesis using failed(6) t(4) by (simp add: PGSIZE_def)
  qed
qed

text \<open>The child runs, and exits.\<close>

lemma kernel_fs:
  assumes "kernel_ok U s"
  shows "kernel_ok U (s\<lparr>log_outstanding := a, log_committing := b, lh_n := n, icache := d, kmach := k\<rparr>)" (is "kernel_ok U ?t")
proof (rule kernel_states [OF assms])
  show "same_sys s ?t" by (simp add: same_sys_def)
  have "cpus_ok s" using assms by (simp add: kernel_ok_def)
  then show "cpus_ok ?t" by (simp add: cpus_ok_def)
qed

lemma kmach_reparent: "kmach (fold (reparent_one p) ps s) = kmach s"
  by (induction ps arbitrary: s) (simp_all add: reparent_one_def wakeup1_def Let_def)

lemma exit_switches:
  fixes s :: "'z psys_scheme"
  assumes "initproc s \<noteq> Some p" and "exit_files p s = Inr s1" and "begin_op s1 = Inr s2" and "p_cwd (ptable s2 p) = Some ip"
    and "vop_iput ip s2 = Inr s3" and "end_op s3 = Inr s4"
    and "c_ncli (cpus (kmach s4) c) = 0" and "\<not> lk_locked (locks (kmach s4) ptable_lock)"
  shows "\<exists>t. exit c p s = Inr t"
proof -
  let ?s = "set_proc p (\<lambda>x. x\<lparr>p_cwd := None\<rparr>) s4"
  obtain m where m: "acq c ptable_lock ?s = Inr (?s\<lparr>kmach := m\<rparr>)" "at_sched c m" by (rule acq_ptable [of ?s c]) (use assms(7,8) in simp_all)
  let ?s5 = "?s\<lparr>kmach := m\<rparr>"
  let ?u = "set_proc p (\<lambda>x. x\<lparr>p_state := ZOMBIE\<rparr>) (fold (reparent_one p) [0..<NPROC] (wakeup1 (parent_chan (p_parent (ptable ?s5 p))) ?s5))"
  have "at_sched c (kmach ?u)" using m(2) by (simp add: kmach_reparent wakeup1_def)
  then obtain m' where "sched c p ?u = Inr (?u\<lparr>kmach := m'\<rparr>)" by (rule sched_passes [of c ?u p]) simp_all
  then show ?thesis using assms(1-6) m(1) by (simp add: exit_def Let_def)
qed

lemma demo_child:
  obtains U c q p and s t :: psys where "kernel_ok U s" "proc_of s c = Some p" "p_parent (ptable s p) = Some q" "p \<noteq> q" "exit c p s = Inr t"
proof -
  obtain U q and t :: psys where t: "kernel_ok U t" "proc_of t = (\<lambda>_. None)(0 := Some q)" "nextpid t = 2" "used t = {q}"
    "p_ofile (ptable t q) = (\<lambda>_. None)" "p_sz (ptable t q) = PGSIZE" "q < NPROC" "\<forall>ps. free_pages (kend t) (km t) ps \<longrightarrow> length ps > 50000"
    "p_state (ptable t q) = RUNNING"
    by (rule demo_init)
  obtain p u where u: "child_of t q u p" "kernel_ok U u" "used u = {q, p}" "p \<noteq> q" "ptable u q = ptable t q"
    by (rule demo_forked [OF t(1-4,6,7)]) (use t(8) in force)+
  have p: "p < NPROC" "p_state (ptable u p) = RUNNABLE" "p_parent (ptable u p) = Some q" "\<forall>fd < NOFILE. p_ofile (ptable u p) fd = None"
    using u(1,3) t(5) by (auto simp: child_of_def Let_def used_def)
  have cp: "cpus_ok u" and tr: "tree_ok u" using u(2) by (simp_all add: kernel_ok_def)
  have "\<forall>x < NPROC. p_state (ptable u x) = RUNNING \<longrightarrow> (\<exists>c. proc_of u c = Some x)" using cp unfolding cpus_ok_def by blast
  then obtain c where c: "proc_of u c = Some q" using t(7,9) u(5) by force
  have run: "x = q" if "x < NPROC" "p_state (ptable u x) = RUNNING" for x
  proof -
    have "x \<in> used u" using that by (simp add: used_def)
    then show ?thesis using u(3) p(2) that(2) by auto
  qed
  have idle: "proc_of u (c + 1) = None"
  proof (rule ccontr)
    assume "proc_of u (c + 1) \<noteq> None"
    then obtain x where x: "proc_of u (c + 1) = Some x" by auto
    then have "x < NPROC" "p_state (ptable u x) = RUNNING" using cp unfolding cpus_ok_def by blast+
    then have "x = q" by (rule run)
    then have "c + 1 = c" using cp x c unfolding cpus_ok_def by blast
    then show False by simp
  qed
  define v where "v = set_proc p (\<lambda>x. x\<lparr>p_state := RUNNING\<rparr>) (u\<lparr>proc_of := (proc_of u)(c + 1 := Some p)\<rparr>)"
  have "p_state (ptable u x) \<noteq> RUNNABLE" if "x < p" for x
  proof (cases "x \<in> used u")
    case True
    then show ?thesis using that u(3,5) t(9) by auto
  next
    case False
    then show ?thesis using that p(1) by (auto simp: used_def)
  qed
  then have "find (\<lambda>x. p_state (ptable u x) = RUNNABLE) [0..<NPROC] = Some p" using p by (simp add: find_upt_Some)
  moreover have "p_kstack (ptable u p) \<noteq> 0" "p_pgdir (ptable u p) \<noteq> 0" using pages_used [OF u(2)] u(3) by auto
  ultimately have "scheduler_scan (c + 1) 0 u = Inr (Some p, v)" by (simp add: scheduler_scan_def switchuvm_def v_def)
  then have okv: "kernel_ok U v" by (rule scheduler_ok [OF u(2) idle])
  define x where "x = boot_inode\<lparr>i_ref := 2, i_iops := Some Xv6fs_inode_ops\<rparr>"
  define w where "w = v\<lparr>log_outstanding := 0, log_committing := False, lh_n := 0, icache := (\<lambda>_. x), kmach := boot_mach\<rparr>"
  have okw: "kernel_ok U w" unfolding w_def by (rule kernel_fs [OF okv])
  have pw: "proc_of w (c + 1) = Some p" "p_parent (ptable w p) = Some q" using p(3) by (simp_all add: w_def v_def)
  obtain ip where ip: "p_cwd (ptable w p) = Some ip" using running_D(4) [OF okw pw(1)] by auto
  have "tree_ok w" using okw by (simp add: kernel_ok_def)
  then have ni: "initproc w \<noteq> Some p" using pw(2) by (auto simp: tree_ok_def)
  have "rfor xs (\<lambda>fd s. case p_ofile (ptable s p) fd of None \<Rightarrow> Inr s
       | Some f \<Rightarrow> rbind (fileclose f s) (\<lambda>s1. Inr (set_proc p (\<lambda>x. x\<lparr>p_ofile := (p_ofile x)(fd := None)\<rparr>) s1))) w = Inr w"
    if "\<forall>fd \<in> set xs. p_ofile (ptable w p) fd = None" for xs using that by (induction xs) auto
  then have ef: "exit_files p w = Inr w" using p(4) unfolding exit_files_def by (simp add: w_def v_def)
  have "\<exists>t. rbind (begin_op w) (\<lambda>s2. rbind (vop_iput ip s2) (\<lambda>s3. end_op s3)) = Inr t \<and> kmach t = boot_mach"
    by (simp add: begin_op_def vop_iput_def vop_def xv6fs_iput_def x_def acquiresleep_def boot_inode_def w_def end_op_def commit_def
      Let_def set_inode_def releasesleep_def LOGSIZE_def MAXOPBLOCKS_def)
  then obtain s2 s3 s4 where st: "begin_op w = Inr s2" "vop_iput ip s2 = Inr s3" "end_op s3 = Inr s4" and k4: "kmach s4 = boot_mach"
    by (auto simp: rbind_eq_Inr)
  have "p_cwd (ptable s2 p) = Some ip" using psys_more(1) [OF begin_op_keeps [OF st(1)]] ip by simp
  from exit_switches [OF ni ef st(1) this st(2,3), of "c + 1"] have "\<exists>t. exit (c + 1) p w = Inr t" by (simp add: k4 boot_mach_def)
  then show thesis using that [OF okw pw u(4)] by blast
qed

theorem kernel_invariant_witness:
  "\<exists>U k s t. fresh U (boot_psys k) \<and> userinit boot_devsw (\<lambda>_. 0) 4 (boot_psys k) = Inr s \<and> (kstep boot_devsw)\<^sup>*\<^sup>* s t \<and>
    kernel_ok U t \<and> card (used t) = 2 \<and> f_ref (ftable t 0) \<ge> 2"
proof -
  obtain U k p and s t :: psys where t: "fresh U (boot_psys k)" "userinit boot_devsw (\<lambda>_. 0) 4 (boot_psys k) = Inr s" "(kstep boot_devsw)\<^sup>*\<^sup>* s t"
    "kernel_ok U t" "proc_of t = (\<lambda>_. None)(0 := Some p)" "nextpid t = 2" "used t = {p}" "p_ofile (ptable t p) = (\<lambda>_. None)"
    "p_sz (ptable t p) = PGSIZE" "\<forall>q. q \<noteq> p \<longrightarrow> ptable t q = boot_proc" "\<forall>ps. free_pages (kend t) (km t) ps \<longrightarrow> length ps > 50000" "p < NPROC"
    by (rule demo_init)
  obtain v where v: "kstep boot_devsw t v" "kernel_ok U v" "proc_of v = proc_of t" "nextpid v = nextpid t" "used v = {p}"
    "p_sz (ptable v p) = PGSIZE" "p_ofile (ptable v p) 0 = Some 0" "\<forall>ps. free_pages (kend v) (km v) ps \<longrightarrow> length ps > 2000"
    by (rule demo_pipe [OF t(4,5,7-11)])
  obtain np u where u: "fork p v = Inr (2, u)" "child_of v p u np" "used u = {p, np}" "np \<noteq> p" "ptable u p = ptable v p" "np < NPROC"
    by (rule demo_forked [OF v(2) v(3) [unfolded t(5)] v(4) [unfolded t(6)] v(5,6) t(12) v(8)])
  have "kstep boot_devsw v u" by (rule kstep.forks [OF _ _ u(1), of 0]) (simp_all add: v(3,4) t(5,6))
  then have run: "(kstep boot_devsw)\<^sup>*\<^sup>* s u" using t(3) v(1) by (meson rtranclp.rtrancl_into_rtrancl)
  have "(4 :: nat) < PGSIZE" by (simp add: PGSIZE_def)
  note inv = kernel_invariant [OF t(1) this t(2) run boot_devsw_keeps]
  let ?H = "{(p, fd). p < NPROC \<and> fd < NOFILE \<and> p_ofile (ptable u p) fd = Some 0}"
  have "p_ofile (ptable u np) 0 = Some 0" using u(2) v(7) by (simp add: child_of_def Let_def NOFILE_def)
  then have "{(p, 0), (np, 0)} \<subseteq> ?H" using u(5,6) v(7) t(12) by (simp add: NOFILE_def)
  moreover have "finite ?H" by (rule finite_subset [of _ "{..<NPROC} \<times> {..<NOFILE}"]) auto
  ultimately have "card {(p, 0 :: nat), (np, 0)} \<le> card ?H" using card_mono by blast
  moreover have "f_ref (ftable u 0) = int (card ?H)" using inv by blast
  ultimately have "f_ref (ftable u 0) \<ge> 2" using u(4) by simp
  moreover have "kernel_ok U u" using inv ..
  moreover have "card (used u) = 2" using u(3,4) by simp
  ultimately show ?thesis using t(1,2) run by blast
qed

theorem fork_clones_witness:
  "\<exists>U (s :: psys) p np t. kernel_ok U s \<and> proc_of s 0 = Some p \<and> fork p s = Inr (2, t) \<and> child_of s p t np"
proof -
  obtain U p and t :: psys where t: "kernel_ok U t" "proc_of t = (\<lambda>_. None)(0 := Some p)" "nextpid t = 2" "used t = {p}"
    "p_sz (ptable t p) = PGSIZE" "p < NPROC" "\<forall>ps. free_pages (kend t) (km t) ps \<longrightarrow> length ps > 50000"
    by (rule demo_init)
  obtain np u where u: "fork p t = Inr (2, u)" by (rule demo_forked [OF t(1-6)]) (use t(7) in force)+
  have c: "proc_of t 0 = Some p" "nextpid t < 2147483647" using t(2,3) by simp_all
  from fork_clones [OF t(1) c] u obtain np where "child_of t p u np" by auto
  then show ?thesis using t(1) c(1) u by blast
qed

theorem kernel_no_panic_witness:
  "\<exists>U (s :: psys) p t. kernel_ok U s \<and> proc_of s 0 = Some p \<and> kmach s = boot_mach \<and> (\<exists>r. growproc p 100000 s = Inr r) \<and>
    (\<exists>r. wait 0 p s = Inr r) \<and> yield 0 p s = Inr t \<and> at_sched 0 (kmach t)"
proof -
  obtain U p and t :: psys where t: "kernel_ok U t" "proc_of t = (\<lambda>_. None)(0 := Some p)" by (rule demo_init)
  let ?s = "t\<lparr>kmach := boot_mach\<rparr>"
  have s: "kernel_ok U ?s" "proc_of ?s 0 = Some p" "proc_of ?s 1 = None" "c_ncli (cpus (kmach ?s) 0) = 0" "c_ncli (cpus (kmach ?s) 1) = 0"
    "\<not> lk_locked (locks (kmach ?s) ptable_lock)" using t by (simp_all add: boot_mach_def)
  have n: "-2147483648 \<le> (100000 :: int)" "(100000 :: int) < 2147483648" by simp_all
  note k = kernel_no_panic [OF s(1,2) n s(3-6)]
  then obtain u where "yield 0 p ?s = Inr u" "at_sched 0 (kmach u)" by blast
  moreover have "\<exists>r. growproc p 100000 ?s = Inr r" "\<exists>r. wait 0 p ?s = Inr r" using k by blast+
  moreover have "kmach ?s = boot_mach" by simp
  ultimately show ?thesis using s(1,2) by blast
qed

theorem exit_seen_by_wait_witness:
  "\<exists>U (s :: psys) c p q t z u. kernel_ok U s \<and> proc_of s c = Some p \<and> exit c p s = Inr t \<and> p_state (ptable t z) = ZOMBIE \<and>
    wait_turn c q (scheduler_back c t) = Inr (Some (p_pid (ptable t z)), u)"
proof -
  obtain U c q p and s t :: psys where s: "kernel_ok U s" "proc_of s c = Some p" "p_parent (ptable s p) = Some q" "p \<noteq> q" "exit c p s = Inr t"
    by (rule demo_child)
  note e = exit_seen_by_wait [OF s]
  have b: "(scheduler_back c t)\<lparr>kmach := kmach t\<rparr> = scheduler_back c t" by (simp add: scheduler_back_def)
  from e [THEN conjunct2, THEN conjunct2] obtain z where z: "z < NPROC \<and> p_state (ptable t z) = ZOMBIE \<and> p_parent (ptable t z) = Some q \<and>
      (\<forall>d m. at_sched d m \<longrightarrow> (\<exists>u. wait_turn d q ((scheduler_back c t)\<lparr>kmach := m\<rparr>) = Inr (Some (p_pid (ptable t z)), u) \<and>
        used u = used t - {z} \<and> (\<forall>y. y \<noteq> z \<longrightarrow> ptable u y = ptable t y) \<and> kernel_ok U u))" by (rule exE)
  have l: "at_sched c (kmach t)" by (rule e [THEN conjunct2, THEN conjunct1])
  have "\<exists>u. wait_turn c q (scheduler_back c t) = Inr (Some (p_pid (ptable t z)), u) \<and>
      used u = used t - {z} \<and> (\<forall>y. y \<noteq> z \<longrightarrow> ptable u y = ptable t y) \<and> kernel_ok U u"
    by (rule z [THEN conjunct2, THEN conjunct2, THEN conjunct2, rule_format, OF l, unfolded b])
  then obtain u where "wait_turn c q (scheduler_back c t) = Inr (Some (p_pid (ptable t z)), u)" by (elim exE conjE)
  moreover have "p_state (ptable t z) = ZOMBIE" using z by (elim conjE)
  ultimately show ?thesis using s(1,2,5)
    by (intro exI [of _ U] exI [of _ s] exI [of _ c] exI [of _ p] exI [of _ q] exI [of _ t] exI [of _ z] exI [of _ u]) simp
qed

theorem kill_zero_dooms_child_witness:
  "\<exists>U (s :: psys) p np t u. kernel_ok U s \<and> proc_of s 0 = Some p \<and> kill 0 s = (0, t) \<and> fork p t = Inr (2, u) \<and> p_killed (ptable u np)"
proof -
  obtain U p and s :: psys where s: "kernel_ok U s" "proc_of s = (\<lambda>_. None)(0 := Some p)" "nextpid s = 2" "used s = {p}"
    "p_ofile (ptable s p) = (\<lambda>_. None)" "p_sz (ptable s p) = PGSIZE" "p < NPROC" "\<forall>ps. free_pages (kend s) (km s) ps \<longrightarrow> length ps > 50000"
    "\<forall>q. q \<noteq> p \<longrightarrow> ptable s q = boot_proc" "p_state (ptable s p) = RUNNING"
    by (rule demo_init)
  have "find (\<lambda>q. p_state (ptable s q) = UNUSED) [0..<NPROC] \<noteq> None"
    using s(9) by (auto simp: find_None_iff boot_proc_def NPROC_def intro!: exI [of _ "if p = 0 then 1 else 0"])
  then obtain np where np: "find (\<lambda>q. p_state (ptable s q) = UNUSED) [0..<NPROC] = Some np" by blast
  then have "np \<noteq> p" using s(10) by (auto simp: find_upt_Some)
  then have pid: "p_pid (ptable s np) = 0" using s(9) by (simp add: boot_proc_def)
  obtain r t where t: "kill 0 s = (r, t)" by fastforce
  have ok: "kernel_ok U t" by (rule kill_ok [OF s(1) t])
  have st: "proc_of t = proc_of s" "nextpid t = nextpid s" "used t = used s" "ptable t p = ptable s p" "km t = km s" "kend t = kend s"
  proof -
    have "p \<in> used s" using s(4) by simp
    then have "p_pid (ptable s p) \<noteq> 0" using s(1) by (auto simp: kernel_ok_def pids_ok_def)
    then show "proc_of t = proc_of s" "nextpid t = nextpid s" "used t = used s" "ptable t p = ptable s p" "km t = km s" "kend t = kend s"
      using t by (auto simp: kill_def used_def find_upt_Some split: option.splits if_splits)
  qed
  have many: "\<forall>ps. free_pages (kend t) (km t) ps \<longrightarrow> length ps > 2000" using s(8) st(5,6) by force
  obtain u where u: "fork p t = Inr (2, u)"
    by (rule demo_forked [OF ok s(2) [folded st(1)] s(3) [folded st(2)] s(4) [folded st(3)] s(6) [folded st(4)] s(7) many])
  have c: "proc_of s 0 = Some p" "nextpid s < 2147483647" using s(2,3) by simp_all
  from kill_zero_dooms_child [OF s(1) c np pid t u] have "r = 0" "p_killed (ptable u np)" by auto
  then show ?thesis using s(1) c(1) t u by blast
qed

end
