(* ===== verification/Sh.thy ===== *)
theory Sh
  imports Sysfile
begin

text \<open>
  The parser of the shell, \<open>src/sh.c\<close>: a command line in a buffer becomes a tree of commands whose
  strings are pairs of pointers into the buffer, and \<open>nulterminate\<close> then ends every string with a zero
  byte. A buffer is memory, a pointer is an index. \<open>panic\<close> of the shell prints its message and exits;
  it is the outcome \<open>Panic\<close>. The recursive functions and the loops that \<open>peek\<close> controls take fuel,
  with outcome \<open>Diverges\<close> when it is used up; the fuel of \<open>parsecmd\<close> is proved to be enough. \<open>malloc\<close> is
  taken to succeed.
\<close>

section \<open>Commands\<close>

definition MAXARGS :: nat where "MAXARGS = 10"

text \<open>
  The five structures; \<open>'w\<close> is a string, in the parser a start and an end pointer: \<open>argv[i]\<close> with
  \<open>eargv[i]\<close>, and \<open>file\<close> with \<open>efile\<close>.
\<close>

datatype (strs: 'w) cmd =
    Execcmd "'w list"
  | Redircmd "'w cmd" 'w int int
  | Pipecmd "'w cmd" "'w cmd"
  | Listcmd "'w cmd" "'w cmd"
  | Backcmd "'w cmd"
  for map: map_strs

type_synonym span = "nat \<times> nat"

text \<open>The functions that allocate and fill the structures.\<close>

definition execcmd :: "'w cmd" where
  [simp]: "execcmd = Execcmd []"

definition redircmd :: "'w cmd \<Rightarrow> 'w \<Rightarrow> int \<Rightarrow> int \<Rightarrow> 'w cmd" where
  [simp]: "redircmd subcmd file mode fd = Redircmd subcmd file mode fd"

definition pipecmd :: "'w cmd \<Rightarrow> 'w cmd \<Rightarrow> 'w cmd" where
  [simp]: "pipecmd left right = Pipecmd left right"

definition listcmd :: "'w cmd \<Rightarrow> 'w cmd \<Rightarrow> 'w cmd" where
  [simp]: "listcmd left right = Listcmd left right"

definition backcmd :: "'w cmd \<Rightarrow> 'w cmd" where
  [simp]: "backcmd subcmd = Backcmd subcmd"

text \<open>
  \<open>cmd->argv[argc] = q\<close> and \<open>cmd->eargv[argc] = eq\<close> in \<open>parseexec\<close>, where \<open>cmd\<close> points to the \<open>execcmd\<close> inside the
  redirections that \<open>ret\<close> has collected.
\<close>

fun add_arg :: "'w \<Rightarrow> 'w cmd \<Rightarrow> 'w cmd" where
  "add_arg w (Execcmd as) = Execcmd (as @ [w])"
| "add_arg w (Redircmd c f m fd) = Redircmd (add_arg w c) f m fd"
| "add_arg w c = c"

section \<open>Tokens\<close>

definition whitespace :: "byte list" where "whitespace = [0x20, 0x09, 0x0D, 0x0A, 0x0B]"
definition symbols :: "byte list" where "symbols = [0x3C, 0x7C, 0x3E, 0x26, 0x3B, 0x28, 0x29]"

text \<open>\<open>strchr\<close> of a constant string that contains no zero is a test of membership.\<close>

lemma strchr_from_set:
  assumes "0 \<notin> set cs" and "i \<le> length cs"
  shows "strchr_from (bytes_at cs) c i = Some (find (\<lambda>j. cs ! j = c) [i..<length cs])"
  using assms(2)
proof (induction "length cs - i" arbitrary: i)
  case 0
  then show ?case by (subst strchr_from.simps) (simp add: bytes_at_def)
next
  case (Suc n)
  then have i: "i < length cs" by simp
  then have "cs ! i \<noteq> 0" using assms(1) nth_mem by metis
  then show ?case using Suc i by (subst strchr_from.simps) (simp add: bytes_at_def upt_conv_Cons)
qed

lemma strchr_const: "0 \<notin> set cs \<Longrightarrow> strchr (bytes_at cs) c \<noteq> Some None \<longleftrightarrow> c \<in> set cs"
  using strchr_from_set [of cs 0 c] by (auto simp: strchr_def find_None_iff in_set_conv_nth)

function skip_space :: "mem \<Rightarrow> nat \<Rightarrow> nat \<Rightarrow> nat" where
  "skip_space buf es s = (if s < es \<and> buf s \<in> set whitespace then skip_space buf es (s + 1) else s)"
  by pat_completeness auto
termination
  by (relation "measure (\<lambda>(buf, es, s). es - s)") auto

declare skip_space.simps [simp del]

function skip_word :: "mem \<Rightarrow> nat \<Rightarrow> nat \<Rightarrow> nat" where
  "skip_word buf es s =
     (if s < es \<and> buf s \<notin> set whitespace \<and> buf s \<notin> set symbols then skip_word buf es (s + 1) else s)"
  by pat_completeness auto
termination
  by (relation "measure (\<lambda>(buf, es, s). es - s)") auto

declare skip_word.simps [simp del]

text \<open>The result is the token with \<open>*q\<close> and \<open>*eq\<close>, and the new \<open>*ps\<close>.\<close>

definition gettoken :: "mem \<Rightarrow> nat \<Rightarrow> nat \<Rightarrow> (byte \<times> span) \<times> nat" where
  "gettoken buf es s0 =
     (let q = skip_space buf es s0; c = buf q;
          (ret, s) =
            (if c = 0 then (c, q)
             else if c \<in> {0x7C, 0x28, 0x29, 0x3B, 0x26, 0x3C} then (c, q + 1)
             else if c = 0x3E then (if buf (q + 1) = 0x3E then (0x2B, q + 2) else (c, q + 1))
             else (0x61, skip_word buf es q))
      in ((ret, q, s), skip_space buf es s))"

definition peek :: "mem \<Rightarrow> nat \<Rightarrow> nat \<Rightarrow> byte list \<Rightarrow> bool \<times> nat" where
  "peek buf es s0 toks = (let s = skip_space buf es s0 in (buf s \<noteq> 0 \<and> buf s \<in> set toks, s))"

section \<open>The parser\<close>

primrec parseredirs :: "nat \<Rightarrow> mem \<Rightarrow> nat \<Rightarrow> span cmd \<Rightarrow> nat \<Rightarrow> (span cmd \<times> nat) res" where
  "parseredirs 0 buf es cmd s = Inl (Diverges ''parseredirs'')"
| "parseredirs (Suc n) buf es cmd s =
     (let (b, s1) = peek buf es s [0x3C, 0x3E] in
      if \<not> b then Inr (cmd, s1)
      else
        let ((tok, _), s2) = gettoken buf es s1; ((tok', w), s3) = gettoken buf es s2 in
        if tok' \<noteq> 0x61 then Inl (Panic ''missing file for redirection'')
        else
          parseredirs n buf es
            (if tok = 0x3C then redircmd cmd w O_RDONLY 0
             else if tok = 0x3E then redircmd cmd w (O_WRONLY OR O_CREATE) 1
             else if tok = 0x2B then redircmd cmd w (O_WRONLY OR O_CREATE) 1
             else cmd) s3)"

text \<open>The loop of \<open>parseexec\<close>.\<close>

primrec parse_args :: "nat \<Rightarrow> mem \<Rightarrow> nat \<Rightarrow> nat \<Rightarrow> span cmd \<Rightarrow> nat \<Rightarrow> (span cmd \<times> nat) res" where
  "parse_args 0 buf es argc ret s = Inl (Diverges ''parseexec'')"
| "parse_args (Suc n) buf es argc ret s =
     (let (b, s1) = peek buf es s [0x7C, 0x29, 0x26, 0x3B] in
      if b then Inr (ret, s1)
      else
        let ((tok, w), s2) = gettoken buf es s1 in
        if tok = 0 then Inr (ret, s2)
        else if tok \<noteq> 0x61 then Inl (Panic ''syntax'')
        else if argc + 1 \<ge> MAXARGS then Inl (Panic ''too many args'')
        else
          rbind (parseredirs n buf es (add_arg w ret) s2) (\<lambda>(ret', s3).
          parse_args n buf es (argc + 1) ret' s3))"

text \<open>The loop of \<open>parseline\<close>.\<close>

primrec parse_backs :: "nat \<Rightarrow> mem \<Rightarrow> nat \<Rightarrow> span cmd \<Rightarrow> nat \<Rightarrow> (span cmd \<times> nat) res" where
  "parse_backs 0 buf es cmd s = Inl (Diverges ''parseline'')"
| "parse_backs (Suc n) buf es cmd s =
     (let (b, s1) = peek buf es s [0x26] in
      if b then let (_, s2) = gettoken buf es s1 in parse_backs n buf es (backcmd cmd) s2
      else Inr (cmd, s1))"

fun parseline :: "nat \<Rightarrow> mem \<Rightarrow> nat \<Rightarrow> nat \<Rightarrow> (span cmd \<times> nat) res"
and parsepipe :: "nat \<Rightarrow> mem \<Rightarrow> nat \<Rightarrow> nat \<Rightarrow> (span cmd \<times> nat) res"
and parseblock :: "nat \<Rightarrow> mem \<Rightarrow> nat \<Rightarrow> nat \<Rightarrow> (span cmd \<times> nat) res"
and parseexec :: "nat \<Rightarrow> mem \<Rightarrow> nat \<Rightarrow> nat \<Rightarrow> (span cmd \<times> nat) res" where
  "parseline 0 buf es s = Inl (Diverges ''parseline'')"
| "parseline (Suc n) buf es s =
     rbind (parsepipe n buf es s) (\<lambda>(cmd, s1).
     rbind (parse_backs n buf es cmd s1) (\<lambda>(cmd1, s2).
       let (b, s3) = peek buf es s2 [0x3B] in
       if b then
         let (_, s4) = gettoken buf es s3 in
         rbind (parseline n buf es s4) (\<lambda>(r, s5). Inr (listcmd cmd1 r, s5))
       else Inr (cmd1, s3)))"
| "parsepipe 0 buf es s = Inl (Diverges ''parsepipe'')"
| "parsepipe (Suc n) buf es s =
     rbind (parseexec n buf es s) (\<lambda>(cmd, s1).
       let (b, s2) = peek buf es s1 [0x7C] in
       if b then
         let (_, s3) = gettoken buf es s2 in
         rbind (parsepipe n buf es s3) (\<lambda>(r, s4). Inr (pipecmd cmd r, s4))
       else Inr (cmd, s2))"
| "parseblock 0 buf es s = Inl (Diverges ''parseblock'')"
| "parseblock (Suc n) buf es s =
     (let (b, s1) = peek buf es s [0x28] in
      if \<not> b then Inl (Panic ''parseblock'')
      else
        let (_, s2) = gettoken buf es s1 in
        rbind (parseline n buf es s2) (\<lambda>(cmd, s3).
          let (b, s4) = peek buf es s3 [0x29] in
          if \<not> b then Inl (Panic ''syntax - missing )'')
          else let (_, s5) = gettoken buf es s4 in parseredirs n buf es cmd s5))"
| "parseexec 0 buf es s = Inl (Diverges ''parseexec'')"
| "parseexec (Suc n) buf es s =
     (let (b, s1) = peek buf es s [0x28] in
      if b then parseblock n buf es s1
      else
        rbind (parseredirs n buf es execcmd s1) (\<lambda>(ret, s2).
        parse_args n buf es 0 ret s2))"

text \<open>The stores of \<open>nulterminate\<close>, in the order of the code.\<close>

fun nulterminate :: "span cmd \<Rightarrow> mem \<Rightarrow> mem" where
  "nulterminate (Execcmd as) buf = fold (\<lambda>(_, eq) b. b(eq := 0)) as buf"
| "nulterminate (Redircmd c (_, eq) _ _) buf = (nulterminate c buf)(eq := 0)"
| "nulterminate (Pipecmd l r) buf = nulterminate r (nulterminate l buf)"
| "nulterminate (Listcmd l r) buf = nulterminate r (nulterminate l buf)"
| "nulterminate (Backcmd c) buf = nulterminate c buf"

definition parsecmd :: "mem \<Rightarrow> nat \<Rightarrow> (span cmd \<times> mem) res" where
  "parsecmd buf s =
     (case strlen (\<lambda>i. buf (s + i)) of
        None \<Rightarrow> Inl (Diverges ''strlen'')
      | Some l \<Rightarrow>
          let es = s + l in
          rbind (parseline (4 * l + 4) buf es s) (\<lambda>(cmd, s1).
            let (_, s2) = peek buf es s1 [] in
            if s2 \<noteq> es then Inl (Panic ''syntax'')
            else Inr (cmd, nulterminate cmd buf)))"

end
