(* ===== verification/Sh_Parse.thy ===== *)
theory Sh_Parse
  imports Sh
begin

text \<open>
  The parser of the shell ends on every command line, and what it returns is well formed: pointers
  stay within the line, \<open>argv\<close> does not overflow, and after \<open>nulterminate\<close> every string reads as the word it
  was in the line.
\<close>

section \<open>Pointers only move forward\<close>

lemma skip_space_ge: "s \<le> skip_space buf es s"
  by (induction buf es s rule: skip_space.induct) (subst skip_space.simps, auto)

lemma skip_space_le: "s \<le> es \<Longrightarrow> skip_space buf es s \<le> es"
  by (induction buf es s rule: skip_space.induct) (subst skip_space.simps, auto)

lemma skip_space_stop: "skip_space buf es s < es \<Longrightarrow> buf (skip_space buf es s) \<notin> set whitespace"
  by (induction buf es s rule: skip_space.induct) (subst (asm) (2) skip_space.simps, subst skip_space.simps, auto split: if_splits)

lemma skip_word_ge: "s \<le> skip_word buf es s"
  by (induction buf es s rule: skip_word.induct) (subst skip_word.simps, auto)

lemma skip_word_le: "s \<le> es \<Longrightarrow> skip_word buf es s \<le> es"
  by (induction buf es s rule: skip_word.induct) (subst skip_word.simps, auto)

definition wordchar :: "byte \<Rightarrow> bool" where
  "wordchar c \<longleftrightarrow> c \<notin> set whitespace \<and> c \<notin> set symbols"

lemma skip_word_chars: "s \<le> i \<Longrightarrow> i < skip_word buf es s \<Longrightarrow> wordchar (buf i)"
proof (induction buf es s rule: skip_word.induct)
  case (1 buf es s)
  show ?case
  proof (cases "s < es \<and> buf s \<notin> set whitespace \<and> buf s \<notin> set symbols")
    case True
    then show ?thesis using 1 by (cases "i = s") (auto simp: wordchar_def skip_word.simps [of buf es s])
  next
    case False
    then have "skip_word buf es s = s" by (subst skip_word.simps) auto
    then show ?thesis using "1.prems" by simp
  qed
qed

lemma skip_word_stop: "skip_word buf es s < es \<Longrightarrow> \<not> wordchar (buf (skip_word buf es s))"
proof (induction buf es s rule: skip_word.induct)
  case (1 buf es s)
  show ?case
  proof (cases "s < es \<and> buf s \<notin> set whitespace \<and> buf s \<notin> set symbols")
    case True
    then show ?thesis using 1 by (simp add: skip_word.simps [of buf es s])
  next
    case False
    then have "skip_word buf es s = s" by (subst skip_word.simps) auto
    then show ?thesis using "1.prems" False by (auto simp: wordchar_def)
  qed
qed

text \<open>The end of the line is its first zero byte.\<close>

definition line :: "mem \<Rightarrow> nat \<Rightarrow> nat \<Rightarrow> bool" where
  "line buf s es \<longleftrightarrow> s \<le> es \<and> buf es = 0 \<and> (\<forall>i. s \<le> i \<and> i < es \<longrightarrow> buf i \<noteq> 0)"

lemma line_mono: "line buf s es \<Longrightarrow> s \<le> s' \<Longrightarrow> s' \<le> es \<Longrightarrow> line buf s' es"
  by (auto simp: line_def)

lemma line_zero: "line buf s es \<Longrightarrow> s \<le> i \<Longrightarrow> i \<le> es \<Longrightarrow> buf i = 0 \<longleftrightarrow> i = es"
  by (auto simp: line_def)

lemma line_skip:
  assumes "line buf s es"
  shows "line buf (skip_space buf es s) es" "s \<le> skip_space buf es s" "skip_space buf es s \<le> es"
    "buf (skip_space buf es s) \<notin> set whitespace"
proof -
  have s: "s \<le> es" using assms by (simp add: line_def)
  show "s \<le> skip_space buf es s" "skip_space buf es s \<le> es" by (rule skip_space_ge, rule skip_space_le [OF s])
  then show "line buf (skip_space buf es s) es" by (rule line_mono [OF assms])
  have "buf es = 0" "0 \<notin> set whitespace" using assms by (simp_all add: line_def whitespace_def)
  then show "buf (skip_space buf es s) \<notin> set whitespace"
    using skip_space_stop [of buf es s] skip_space_le [OF s, of buf] by (cases "skip_space buf es s = es") auto
qed

lemma peek_line:
  assumes l: "line buf s es" and p: "peek buf es s toks = (b, s1)"
  shows "line buf s1 es" "s \<le> s1" "b \<longleftrightarrow> s1 < es \<and> buf s1 \<in> set toks" "buf s1 \<notin> set whitespace"
  using line_skip [OF l] line_zero [OF line_skip(1) [OF l] order_refl line_skip(3) [OF l]] p
  by (auto simp: peek_def Let_def)

text \<open>A word of the line.\<close>

definition word_at_span :: "mem \<Rightarrow> nat \<Rightarrow> nat \<Rightarrow> span \<Rightarrow> bool" where
  "word_at_span buf s es w \<longleftrightarrow> s \<le> fst w \<and> fst w < snd w \<and> snd w \<le> es \<and> (\<forall>i. fst w \<le> i \<and> i < snd w \<longrightarrow> wordchar (buf i)) \<and>
     (snd w < es \<longrightarrow> \<not> wordchar (buf (snd w)))"

lemma gettoken_line:
  assumes l: "line buf s es" and g: "gettoken buf es s = ((tok, w), s1)"
  shows "line buf s1 es" "s \<le> s1" "tok \<noteq> 0 \<Longrightarrow> s < s1" "tok = 0 \<longleftrightarrow> skip_space buf es s = es" "tok = 0x61 \<Longrightarrow> word_at_span buf s es w"
proof -
  let ?q = "skip_space buf es s" and ?c = "buf (skip_space buf es s)"
  note q = line_skip [OF l]
  have z: "?c = 0 \<longleftrightarrow> ?q = es" using line_zero [OF q(1) order_refl q(3)] .
  have z1: "buf (?q + 1) = 0x3E \<Longrightarrow> ?q < es \<Longrightarrow> ?q + 2 \<le> es"
    using line_zero [OF q(1), of "?q + 1"] by (cases "?q + 1 = es") auto
  define t where "t = snd w"
  have t: "w = (?q, t)" "s1 = skip_space buf es t" "?q \<le> t" "t \<le> es" "tok = 0 \<longleftrightarrow> ?q = es" "tok \<noteq> 0 \<longrightarrow> ?q < t"
    "tok = 0x61 \<longrightarrow> t = skip_word buf es ?q \<and> wordchar ?c"
  proof -
    have wc: "wordchar ?c" if "?c \<notin> {0, 0x7C, 0x28, 0x29, 0x3B, 0x26, 0x3C, 0x3E}"
      using that q(4) by (simp add: wordchar_def symbols_def)
    have adv: "?q < skip_word buf es ?q" if "wordchar ?c" "?c \<noteq> 0"
    proof -
      have "?q < es" using z that(2) q(3) by auto
      then have "skip_word buf es ?q = skip_word buf es (?q + 1)" using that(1) by (subst skip_word.simps) (simp add: wordchar_def)
      then show ?thesis using skip_word_ge [of "?q + 1" buf es] by simp
    qed
    show "w = (?q, t)" "s1 = skip_space buf es t" "?q \<le> t" "t \<le> es" "tok = 0 \<longleftrightarrow> ?q = es" "tok \<noteq> 0 \<longrightarrow> ?q < t"
      "tok = 0x61 \<longrightarrow> t = skip_word buf es ?q \<and> wordchar ?c"
      using g z z1 q(3) wc adv skip_word_le [OF q(3), of buf] skip_word_ge [of ?q buf es]
      by (auto simp: gettoken_def Let_def t_def split: if_splits)
  qed
  have s: "s \<le> t" using t(3) q(2) by simp
  have lt: "line buf t es" by (rule line_mono [OF l s t(4)])
  show "line buf s1 es" unfolding t(2) by (rule line_skip(1) [OF lt])
  show "s \<le> s1" unfolding t(2) using line_skip(2) [OF lt] s by simp
  show "tok \<noteq> 0 \<Longrightarrow> s < s1" unfolding t(2) using line_skip(2) [OF lt] t(6) q(2) by simp
  show "tok = 0 \<longleftrightarrow> skip_space buf es s = es" by (rule t(5))
  show "word_at_span buf s es w" if "tok = 0x61"
    using that t q(2) skip_word_chars [of ?q _ buf es] skip_word_stop [of buf es ?q] by (auto simp: word_at_span_def)
qed

lemma peek_gettoken:
  assumes l: "line buf s es" and p: "peek buf es s toks = (True, s1)" and g: "gettoken buf es s1 = (x, s2)"
  shows "line buf s2 es" "s < s2"
proof -
  obtain tok w where x: "x = (tok, w)" by (metis surj_pair)
  note l1 = peek_line [OF l p]
  note l2 = gettoken_line [OF l1(1) g [unfolded x]]
  show "line buf s2 es" by (rule l2(1))
  have "buf s1 \<noteq> 0" using l1(3) line_zero [OF l1(1), of s1] by auto
  then have "skip_space buf es s1 = s1" using l1(4) by (subst skip_space.simps) simp
  then show "s < s2" using l2(3,4) l1(2,3) by auto
qed

section \<open>Well-formed commands\<close>

text \<open>\<open>argv\<close> has room for its null pointer, and a redirection has one of the two modes.\<close>

primrec args_ok :: "'w cmd \<Rightarrow> bool" where
  "args_ok (Execcmd as) \<longleftrightarrow> length as < MAXARGS"
| "args_ok (Redircmd c f m fd) \<longleftrightarrow> args_ok c \<and> (m = O_RDONLY \<and> fd = 0 \<or> m = O_WRONLY OR O_CREATE \<and> fd = 1)"
| "args_ok (Pipecmd l r) \<longleftrightarrow> args_ok l \<and> args_ok r"
| "args_ok (Listcmd l r) \<longleftrightarrow> args_ok l \<and> args_ok r"
| "args_ok (Backcmd c) \<longleftrightarrow> args_ok c"

fun argcount :: "'w cmd \<Rightarrow> nat option" where
  "argcount (Execcmd as) = Some (length as)"
| "argcount (Redircmd c f m fd) = argcount c"
| "argcount c = None"

lemma add_arg_ok:
  assumes "argcount c = Some n"
  shows "argcount (add_arg w c) = Some (n + 1)" "strs (add_arg w c) = insert w (strs c)"
    "args_ok c \<Longrightarrow> n + 1 < MAXARGS \<Longrightarrow> args_ok (add_arg w c)"
  using assms by (induction c) auto

definition words_ok :: "mem \<Rightarrow> nat \<Rightarrow> nat \<Rightarrow> span cmd \<Rightarrow> bool" where
  "words_ok buf s es c \<longleftrightarrow> args_ok c \<and> (\<forall>w \<in> strs c. word_at_span buf s es w)"

lemma word_mono: "word_at_span buf s' es w \<Longrightarrow> s \<le> s' \<Longrightarrow> word_at_span buf s es w"
  by (auto simp: word_at_span_def)

definition messages :: "string set" where
  "messages = {''syntax'', ''syntax - missing )'', ''missing file for redirection'', ''too many args''}"

text \<open>A parser that starts at \<open>s\<close> returns a command and a pointer, or the shell panics.\<close>

definition good :: "mem \<Rightarrow> nat \<Rightarrow> nat \<Rightarrow> nat \<Rightarrow> (span cmd \<times> nat) res \<Rightarrow> bool" where
  "good buf s0 s es r \<longleftrightarrow> (case r of
     Inr (c, s') \<Rightarrow> s \<le> s' \<and> line buf s' es \<and> words_ok buf s0 es c
   | Inl (Panic m) \<Rightarrow> m \<in> messages
   | _ \<Rightarrow> False)"

lemma good_Inr [simp]: "good buf s0 s es (Inr (c, s')) \<longleftrightarrow> s \<le> s' \<and> line buf s' es \<and> words_ok buf s0 es c"
  by (simp add: good_def)

lemma good_Panic [simp]: "good buf s0 s es (Inl (Panic m)) \<longleftrightarrow> m \<in> messages"
  by (simp add: good_def)

lemma good_later: "good buf s0 s' es r \<Longrightarrow> s \<le> s' \<Longrightarrow> good buf s0 s es r"
  by (auto simp: good_def split: sum.splits fault.splits)

lemma good_bind:
  assumes "good buf s0 s es r" and "\<And>c s'. r = Inr (c, s') \<Longrightarrow> s \<le> s' \<Longrightarrow> line buf s' es \<Longrightarrow> words_ok buf s0 es c \<Longrightarrow> good buf s0 s es (f (c, s'))"
  shows "good buf s0 s es (rbind r f)"
proof (cases r)
  case (Inl e)
  then show ?thesis using assms(1) by (cases e) simp_all
next
  case (Inr x)
  then show ?thesis using assms by (cases x) simp
qed

lemma parseredirs_good:
  assumes "line buf s es" and "s0 \<le> s" and "words_ok buf s0 es c" and "es - s < n"
  shows "good buf s0 s es (parseredirs n buf es c s) \<and> (\<forall>c' s'. parseredirs n buf es c s = Inr (c', s') \<longrightarrow> argcount c' = argcount c)"
  using assms
proof (induction n arbitrary: c s)
  case (Suc n)
  obtain b s1 where p: "peek buf es s [0x3C, 0x3E] = (b, s1)" by fastforce
  obtain tok w0 s2 where g: "gettoken buf es s1 = ((tok, w0), s2)" by (metis surj_pair)
  obtain tok' w s3 where g': "gettoken buf es s2 = ((tok', w), s3)" by (metis surj_pair)
  note l1 = peek_line [OF Suc.prems(1) p]
  note l2 = gettoken_line [OF l1(1) g]
  note l3 = gettoken_line [OF l2(1) g']
  show ?case
  proof (cases "b \<and> tok' = 0x61")
    case False
    then show ?thesis using Suc.prems(3) l1 p g g' by (auto simp: messages_def)
  next
    case True
    have lt: "s < s3" using l1(2) l2(2) l3(3) True by auto
    have e: "s3 \<le> es" using l3(1) by (simp add: line_def)
    have w: "word_at_span buf s0 es w" using word_mono [OF l3(5)] True l1(2) l2(2) Suc.prems(2) by auto
    define d where "d = (if tok = 0x3C then Redircmd c w O_RDONLY 0 else if tok = 0x3E then Redircmd c w (O_WRONLY OR O_CREATE) 1
      else if tok = 0x2B then Redircmd c w (O_WRONLY OR O_CREATE) 1 else c)"
    have d: "words_ok buf s0 es d" "argcount d = argcount c" using Suc.prems(3) w by (auto simp: d_def words_ok_def)
    have "es - s3 < n" using lt e Suc.prems(4) by simp
    from Suc.IH [OF l3(1) _ d(1) this] have IH: "good buf s0 s3 es (parseredirs n buf es d s3)"
      "\<forall>c' s'. parseredirs n buf es d s3 = Inr (c', s') \<longrightarrow> argcount c' = argcount c" using lt Suc.prems(2) d(2) by auto
    have "parseredirs (Suc n) buf es c s = parseredirs n buf es d s3" using True p g g' by (simp add: d_def)
    then show ?thesis using IH good_later [OF IH(1)] lt by simp
  qed
qed simp

lemma parse_args_good:
  assumes "line buf s es" and "s0 \<le> s" and "words_ok buf s0 es c" and "argcount c = Some argc" and "es - s < n"
  shows "good buf s0 s es (parse_args n buf es argc c s)"
  using assms
proof (induction n arbitrary: c s argc)
  case (Suc n)
  obtain b s1 where p: "peek buf es s [0x7C, 0x29, 0x26, 0x3B] = (b, s1)" by fastforce
  obtain tok w s2 where g: "gettoken buf es s1 = ((tok, w), s2)" by (metis surj_pair)
  note l1 = peek_line [OF Suc.prems(1) p]
  note l2 = gettoken_line [OF l1(1) g]
  show ?case
  proof (cases "\<not> b \<and> tok = 0x61 \<and> argc + 1 < MAXARGS")
    case False
    then show ?thesis using Suc.prems(3) l1 l2 p g by (auto simp: messages_def)
  next
    case True
    have lt: "s < s2" using l1(2) l2(3) True by auto
    have e: "s2 \<le> es" using l2(1) by (simp add: line_def)
    have w: "word_at_span buf s0 es w" using word_mono [OF l2(5)] True l1(2) Suc.prems(2) by auto
    have d: "words_ok buf s0 es (add_arg w c)" using Suc.prems(3) w add_arg_ok [OF Suc.prems(4)] True by (auto simp: words_ok_def)
    have n: "es - s2 < n" using lt e Suc.prems(5) by simp
    have s0: "s0 \<le> s2" using lt Suc.prems(2) by simp
    note r = parseredirs_good [OF l2(1) s0 d n]
    have "good buf s0 s2 es (rbind (parseredirs n buf es (add_arg w c) s2) (\<lambda>(ret', s3). parse_args n buf es (argc + 1) ret' s3))"
    proof (rule good_bind [OF conjunct1 [OF r]])
      fix c' s'
      assume r': "parseredirs n buf es (add_arg w c) s2 = Inr (c', s')" "s2 \<le> s'" "line buf s' es" "words_ok buf s0 es c'"
      then have a: "argcount c' = Some (argc + 1)" using r add_arg_ok(1) [OF Suc.prems(4)] by auto
      have "good buf s0 s' es (parse_args n buf es (argc + 1) c' s')"
        by (rule Suc.IH [OF r'(3) _ r'(4) a]) (use r'(2) s0 n in auto)
      then show "good buf s0 s2 es (case (c', s') of (ret', s3) \<Rightarrow> parse_args n buf es (argc + 1) ret' s3)"
        using good_later r'(2) by simp
    qed
    then show ?thesis using True p g good_later lt by simp
  qed
qed simp

lemma parse_backs_good:
  assumes "line buf s es" and "words_ok buf s0 es c" and "es - s < n"
  shows "good buf s0 s es (parse_backs n buf es c s)"
  using assms
proof (induction n arbitrary: c s)
  case (Suc n)
  obtain b s1 where p: "peek buf es s [0x26] = (b, s1)" by fastforce
  obtain x s2 where g: "gettoken buf es s1 = (x, s2)" by (metis surj_pair)
  note l1 = peek_line [OF Suc.prems(1) p]
  show ?case
  proof (cases b)
    case False
    then show ?thesis using Suc.prems(2) l1(1,2) p by simp
  next
    case True
    have "peek buf es s [0x26] = (True, s1)" using p True by simp
    note l2 = peek_gettoken [OF Suc.prems(1) this g]
    have "good buf s0 s2 es (parse_backs n buf es (Backcmd c) s2)"
      by (rule Suc.IH) (use l2 Suc.prems in \<open>auto simp: words_ok_def line_def\<close>)
    then show ?thesis using True p g good_later l2(2) by simp
  qed
qed simp

lemma words_ok_simps [simp]:
  "words_ok buf s es (Execcmd [])"
  "words_ok buf s es (Pipecmd l r) \<longleftrightarrow> words_ok buf s es l \<and> words_ok buf s es r"
  "words_ok buf s es (Listcmd l r) \<longleftrightarrow> words_ok buf s es l \<and> words_ok buf s es r"
  by (auto simp: words_ok_def MAXARGS_def)

lemma good_bind2:
  assumes "good buf s0 s es r"
    and "\<And>c s'. r = Inr (c, s') \<Longrightarrow> s \<le> s' \<Longrightarrow> line buf s' es \<Longrightarrow> words_ok buf s0 es c \<Longrightarrow> good buf s0 s es (g c s')"
  shows "good buf s0 s es (rbind r (\<lambda>(c, s'). g c s'))"
  using good_bind [OF assms(1), of "\<lambda>(c, s'). g c s'"] assms(2) by simp

text \<open>One step of each function, when the calls that it makes are good.\<close>

lemma parseline_step:
  assumes l: "line buf s es" "s0 \<le> s" and n: "es - s < n"
    and pipe: "good buf s0 s es (parsepipe n buf es s)" and rec: "\<And>s'. line buf s' es \<Longrightarrow> s < s' \<Longrightarrow> good buf s0 s' es (parseline n buf es s')"
  shows "good buf s0 s es (parseline (Suc n) buf es s)"
  unfolding parseline.simps
proof (rule good_bind2 [OF pipe], rule good_bind2)
  fix c s1 assume c: "s \<le> s1" "line buf s1 es" "words_ok buf s0 es c"
  show "good buf s0 s es (parse_backs n buf es c s1)"
    by (rule good_later [OF parse_backs_good [OF c(2,3)] c(1)]) (use c(1) n in simp)
  fix d s2 assume d: "s \<le> s2" "line buf s2 es" "words_ok buf s0 es d"
  obtain b s3 where p: "peek buf es s2 [0x3B] = (b, s3)" by fastforce
  obtain x s4 where g: "gettoken buf es s3 = (x, s4)" by (metis surj_pair)
  have "good buf s0 s es (rbind (parseline n buf es s4) (\<lambda>(r, s5). Inr (Listcmd d r, s5)))" if b
  proof -
    have p': "peek buf es s2 [0x3B] = (True, s3)" using p that by simp
    note t = peek_gettoken [OF d(2) p' g]
    have "good buf s0 s es (parseline n buf es s4)" by (rule good_later [OF rec [OF t(1)]]) (use t(2) d(1) in auto)
    then show ?thesis by (rule good_bind2) (use d in auto)
  qed
  then show "good buf s0 s es (let (b, s3) = peek buf es s2 [0x3B] in
      if b then let (_, s4) = gettoken buf es s3 in rbind (parseline n buf es s4) (\<lambda>(r, s5). Inr (listcmd d r, s5)) else Inr (d, s3))"
    using peek_line [OF d(2) p] d p g by auto
qed

lemma parsepipe_step:
  assumes l: "line buf s es" "s0 \<le> s" and n: "es - s < n"
    and exe: "good buf s0 s es (parseexec n buf es s)" and rec: "\<And>s'. line buf s' es \<Longrightarrow> s < s' \<Longrightarrow> good buf s0 s' es (parsepipe n buf es s')"
  shows "good buf s0 s es (parsepipe (Suc n) buf es s)"
  unfolding parsepipe.simps
proof (rule good_bind2 [OF exe])
  fix d s2 assume d: "s \<le> s2" "line buf s2 es" "words_ok buf s0 es d"
  obtain b s3 where p: "peek buf es s2 [0x7C] = (b, s3)" by fastforce
  obtain x s4 where g: "gettoken buf es s3 = (x, s4)" by (metis surj_pair)
  have "good buf s0 s es (rbind (parsepipe n buf es s4) (\<lambda>(r, s5). Inr (Pipecmd d r, s5)))" if b
  proof -
    have p': "peek buf es s2 [0x7C] = (True, s3)" using p that by simp
    note t = peek_gettoken [OF d(2) p' g]
    have "good buf s0 s es (parsepipe n buf es s4)" by (rule good_later [OF rec [OF t(1)]]) (use t(2) d(1) in auto)
    then show ?thesis by (rule good_bind2) (use d in auto)
  qed
  then show "good buf s0 s es (let (b, s2) = peek buf es s2 [0x7C] in
      if b then let (_, s3) = gettoken buf es s2 in rbind (parsepipe n buf es s3) (\<lambda>(r, s4). Inr (pipecmd d r, s4)) else Inr (d, s2))"
    using peek_line [OF d(2) p] d p g by auto
qed

lemma parseblock_step:
  assumes l: "line buf s es" "s0 \<le> s" and n: "es - s < n"
    and b: "fst (peek buf es s [0x28])" and rec: "\<And>s'. line buf s' es \<Longrightarrow> s < s' \<Longrightarrow> good buf s0 s' es (parseline n buf es s')"
  shows "good buf s0 s es (parseblock (Suc n) buf es s)"
proof -
  obtain s1 where p: "peek buf es s [0x28] = (True, s1)" using b by (cases "peek buf es s [0x28]") auto
  obtain x s2 where g: "gettoken buf es s1 = (x, s2)" by (metis surj_pair)
  note t = peek_gettoken [OF l(1) p g]
  have "good buf s0 s es (rbind (parseline n buf es s2) (\<lambda>(cmd, s3).
      let (b, s4) = peek buf es s3 [0x29] in
      if \<not> b then Inl (Panic ''syntax - missing )'')
      else let (_, s5) = gettoken buf es s4 in parseredirs n buf es cmd s5))"
  proof (rule good_bind2 [OF good_later [OF rec [OF t]]])
    show "s \<le> s2" using t(2) by simp
    fix d s3 assume d: "s \<le> s3" "line buf s3 es" "words_ok buf s0 es d"
    obtain b' s4 where p': "peek buf es s3 [0x29] = (b', s4)" by fastforce
    obtain x' s5 where g': "gettoken buf es s4 = (x', s5)" by (metis surj_pair)
    have "good buf s0 s es (parseredirs n buf es d s5)" if b'
    proof -
      have "peek buf es s3 [0x29] = (True, s4)" using p' that by simp
      note t' = peek_gettoken [OF d(2) this g']
      have "good buf s0 s5 es (parseredirs n buf es d s5)"
        by (rule conjunct1 [OF parseredirs_good [OF t'(1) _ d(3)]]) (use t'(2) d(1) l n in auto)
      then show ?thesis by (rule good_later) (use t'(2) d(1) in simp)
    qed
    then show "good buf s0 s es (let (b, s4) = peek buf es s3 [0x29] in
      if \<not> b then Inl (Panic ''syntax - missing )'')
      else let (_, s5) = gettoken buf es s4 in parseredirs n buf es d s5)"
      using p' g' by (auto simp: messages_def)
  qed
  then show ?thesis using p g by simp
qed

lemma parseexec_step:
  assumes l: "line buf s es" "s0 \<le> s" and n: "es - s < n"
    and block: "\<And>s'. line buf s' es \<Longrightarrow> s \<le> s' \<Longrightarrow> fst (peek buf es s' [0x28]) \<Longrightarrow> good buf s0 s' es (parseblock n buf es s')"
  shows "good buf s0 s es (parseexec (Suc n) buf es s)"
proof -
  obtain b s1 where p: "peek buf es s [0x28] = (b, s1)" by fastforce
  note l1 = peek_line [OF l(1) p]
  have s1: "s0 \<le> s1" "es - s1 < n" using l1(2) l(2) n by auto
  have "good buf s0 s es (parseblock n buf es s1)" if b
  proof -
    have "skip_space buf es s1 = s1" using l1(4) by (subst skip_space.simps) simp
    then have "fst (peek buf es s1 [0x28])" using that p by (auto simp: peek_def Let_def)
    from good_later [OF block [OF l1(1,2) this] l1(2)] show ?thesis .
  qed
  moreover have "good buf s0 s1 es (rbind (parseredirs n buf es (Execcmd []) s1) (\<lambda>(ret, s2). parse_args n buf es 0 ret s2))"
  proof (rule good_bind2)
    note r = parseredirs_good [OF l1(1) s1(1) words_ok_simps(1) s1(2)]
    show "good buf s0 s1 es (parseredirs n buf es (Execcmd []) s1)" using r by blast
    fix c s2 assume c: "parseredirs n buf es (Execcmd []) s1 = Inr (c, s2)" "s1 \<le> s2" "line buf s2 es" "words_ok buf s0 es c"
    have "argcount c = Some 0" using r c(1) by auto
    then show "good buf s0 s1 es (parse_args n buf es 0 c s2)"
      by (intro good_later [OF parse_args_good [OF c(3) _ c(4)]]) (use c(2) s1 in auto)
  qed
  ultimately show ?thesis using p good_later [OF _ l1(2)] by simp
qed

text \<open>The fuel that each function needs: it decreases with every call, and by 4 with every byte.\<close>

lemma line_shorter: "line buf s' es \<Longrightarrow> s < s' \<Longrightarrow> 4 * (es - s') + 4 \<le> 4 * (es - s)"
  by (auto simp: line_def)

lemma parser_good:
  assumes "line buf s es" and "s0 \<le> s"
  shows "4 * (es - s) + 3 < n \<Longrightarrow> good buf s0 s es (parseline n buf es s)"
    "4 * (es - s) + 2 < n \<Longrightarrow> good buf s0 s es (parsepipe n buf es s)"
    "4 * (es - s) < n \<Longrightarrow> fst (peek buf es s [0x28]) \<Longrightarrow> good buf s0 s es (parseblock n buf es s)"
    "4 * (es - s) + 1 < n \<Longrightarrow> good buf s0 s es (parseexec n buf es s)"
  using assms
proof (induction n arbitrary: s)
  case (Suc n)
  {
    case 1
    then have l: "line buf s es" "s0 \<le> s" and n: "4 * (es - s) + 2 < n" by auto
    show ?case
    proof (rule parseline_step [OF l])
      show "good buf s0 s es (parsepipe n buf es s)" by (rule Suc.IH(2)) (use l n in auto)
      show "good buf s0 s' es (parseline n buf es s')" if "line buf s' es" "s < s'" for s'
        by (rule Suc.IH(1)) (use that line_shorter [OF that] l n in auto)
    qed (use n in simp)
  next
    case 2
    then have l: "line buf s es" "s0 \<le> s" and n: "4 * (es - s) + 1 < n" by auto
    show ?case
    proof (rule parsepipe_step [OF l])
      show "good buf s0 s es (parseexec n buf es s)" by (rule Suc.IH(4)) (use l n in auto)
      show "good buf s0 s' es (parsepipe n buf es s')" if "line buf s' es" "s < s'" for s'
        by (rule Suc.IH(2)) (use that line_shorter [OF that] l n in auto)
    qed (use n in simp)
  next
    case 3
    then have l: "line buf s es" "s0 \<le> s" "fst (peek buf es s [0x28])" and n: "4 * (es - s) \<le> n" by auto
    obtain s1 where "peek buf es s [0x28] = (True, s1)" using l(3) by (cases "peek buf es s [0x28]") auto
    from peek_line [OF l(1) this] have "s < es" by auto
    show ?case
    proof (rule parseblock_step [OF l(1,2) _ l(3)])
      show "good buf s0 s' es (parseline n buf es s')" if "line buf s' es" "s < s'" for s'
        by (rule Suc.IH(1)) (use that line_shorter [OF that] l n in auto)
    qed (use n \<open>s < es\<close> in simp)
  next
    case 4
    then have l: "line buf s es" "s0 \<le> s" and n: "4 * (es - s) < n" by auto
    show ?case
    proof (rule parseexec_step [OF l])
      show "good buf s0 s' es (parseblock n buf es s')" if "line buf s' es" "s \<le> s'" "fst (peek buf es s' [0x28])" for s'
        by (rule Suc.IH(3)) (use that l n in auto)
    qed (use n in simp)
  }
qed simp_all

section \<open>More fuel\<close>

definition fuel_le :: "'a res \<Rightarrow> 'a res \<Rightarrow> bool" where
  "fuel_le r r' \<longleftrightarrow> r' = r \<or> (\<exists>m. r = Inl (Diverges m))"

lemma fuel_le_refl [simp, intro]: "fuel_le r r"
  by (simp add: fuel_le_def)

lemma fuel_le_Diverges [simp, intro]: "fuel_le (Inl (Diverges m)) r"
  by (simp add: fuel_le_def)

lemma fuel_le_trans: "fuel_le a b \<Longrightarrow> fuel_le b c \<Longrightarrow> fuel_le a c"
  by (auto simp: fuel_le_def)

lemma fuel_le_bind:
  assumes "fuel_le r r'" and "\<And>c s. fuel_le (f c s) (g c s)"
  shows "fuel_le (rbind r (\<lambda>(c, s). f c s)) (rbind r' (\<lambda>(c, s). g c s))"
proof (cases r)
  case (Inr x)
  then show ?thesis using assms by (cases x) (auto simp: fuel_le_def)
qed (use assms(1) in \<open>auto simp: fuel_le_def\<close>)

lemma parseredirs_le: "fuel_le (parseredirs n buf es c s) (parseredirs (Suc n) buf es c s)"
proof (induction n arbitrary: c s)
  case (Suc n)
  show ?case by (subst (1 2) parseredirs.simps) (auto simp: Let_def Suc simp del: parseredirs.simps split: prod.splits)
qed simp

lemma parse_args_le: "fuel_le (parse_args n buf es a c s) (parse_args (Suc n) buf es a c s)"
proof (induction n arbitrary: a c s)
  case (Suc n)
  show ?case
    by (subst (1 2) parse_args.simps)
      (auto simp: Let_def simp del: parse_args.simps parseredirs.simps split: prod.splits intro!: fuel_le_bind parseredirs_le Suc)
qed simp

lemma parse_backs_le: "fuel_le (parse_backs n buf es c s) (parse_backs (Suc n) buf es c s)"
proof (induction n arbitrary: c s)
  case (Suc n)
  show ?case by (subst (1 2) parse_backs.simps) (auto simp: Let_def Suc simp del: parse_backs.simps split: prod.splits)
qed simp

lemma parser_le:
  "fuel_le (parseline n buf es s) (parseline (Suc n) buf es s) \<and> fuel_le (parsepipe n buf es s) (parsepipe (Suc n) buf es s) \<and>
   fuel_le (parseblock n buf es s) (parseblock (Suc n) buf es s) \<and> fuel_le (parseexec n buf es s) (parseexec (Suc n) buf es s)"
proof (induction n arbitrary: s)
  case (Suc n)
  note D = parseline.simps parsepipe.simps parseblock.simps parseexec.simps parseredirs.simps parse_args.simps parse_backs.simps
  show ?case
  proof (intro conjI)
    show "fuel_le (parseline (Suc n) buf es s) (parseline (Suc (Suc n)) buf es s)"
      by (subst (1 2) parseline.simps)
        (auto simp: Let_def simp del: D split: prod.splits intro!: fuel_le_bind parse_backs_le Suc [THEN conjunct1] Suc [THEN conjunct2, THEN conjunct1])
    show "fuel_le (parsepipe (Suc n) buf es s) (parsepipe (Suc (Suc n)) buf es s)"
      by (subst (1 2) parsepipe.simps)
        (use Suc in \<open>auto simp: Let_def simp del: D split: prod.splits intro!: fuel_le_bind\<close>)
    show "fuel_le (parseblock (Suc n) buf es s) (parseblock (Suc (Suc n)) buf es s)"
      by (subst (1 2) parseblock.simps)
        (use Suc in \<open>auto simp: Let_def simp del: D split: prod.splits intro!: fuel_le_bind parseredirs_le\<close>)
    show "fuel_le (parseexec (Suc n) buf es s) (parseexec (Suc (Suc n)) buf es s)"
      by (subst (1 2) parseexec.simps)
        (use Suc in \<open>auto simp: Let_def simp del: D split: prod.splits intro!: fuel_le_bind parseredirs_le parse_args_le\<close>)
  qed
qed simp

lemma fuel_mono:
  assumes "\<And>n. fuel_le (f n) (f (Suc n))" and "n \<le> m"
  shows "fuel_le (f n) (f m)"
  using assms(2) by (induction rule: dec_induct) (auto intro: fuel_le_trans assms(1))

lemma good_enough:
  assumes "good buf s0 s es (f n)" and "fuel_le (f n) (f m)"
  shows "f m = f n"
  using assms by (auto simp: fuel_le_def good_def)

section \<open>Strings\<close>

text \<open>The ends of the words become zero, and nothing else changes.\<close>

lemma nulterminate_eq: "nulterminate c buf = (\<lambda>i. if i \<in> snd ` strs c then 0 else buf i)"
proof (induction c arbitrary: buf)
  case (Execcmd as)
  show ?case by (induction as arbitrary: buf) (auto simp: fun_eq_iff)
next
  case (Redircmd c f m fd)
  then show ?case by (cases f) (auto simp: fun_eq_iff)
qed (auto simp: fun_eq_iff)

lemma nulterminate_words:
  assumes "\<forall>w \<in> strs c. word_at_span buf s es w" and w: "w \<in> strs c" and l: "line buf s es"
  shows "has_str (\<lambda>i. nulterminate c buf (fst w + i)) (map buf [fst w..<snd w])"
proof -
  have ww: "word_at_span buf s es w" using assms by blast
  have "nulterminate c buf i = buf i" if i: "fst w \<le> i" "i < snd w" for i
  proof -
    have wc: "wordchar (buf i)" "i < es" using ww i by (auto simp: word_at_span_def)
    have "i \<noteq> snd v" if "v \<in> strs c" for v using assms(1) that wc by (auto simp: word_at_span_def)
    then show ?thesis by (auto simp: nulterminate_eq)
  qed
  moreover have "nulterminate c buf (snd w) = 0" using w by (auto simp: nulterminate_eq)
  moreover have "buf i \<noteq> 0" if "fst w \<le> i" "i < snd w" for i using l ww that by (auto simp: line_def word_at_span_def)
  ultimately show ?thesis using ww by (auto simp: has_str_def word_at_span_def)
qed

end
