(* ===== verification/Sh_Props.thy ===== *)
theory Sh_Props
  imports Sh_Parse
begin

text \<open>
  What the shell relies on from its parser: it ends, it returns well-formed commands, and every command
  can be written: printing a command and parsing the text gives the command back.
\<close>

section \<open>Text\<close>

text \<open>
  The tokens of a text. A pointer into the line stands for the tokens of the rest of the line, and
  \<open>peek\<close> and \<open>gettoken\<close> look at and take the first of them.
\<close>

datatype token = Sym byte | App | Word "byte list"

function tokens :: "byte list \<Rightarrow> token list" where
  "tokens xs =
     (case dropWhile (\<lambda>c. c \<in> set whitespace) xs of
        [] \<Rightarrow> []
      | c # cs \<Rightarrow>
          if c \<in> set symbols then
            if c = 0x3E \<and> cs \<noteq> [] \<and> hd cs = 0x3E then App # tokens (tl cs) else Sym c # tokens cs
          else Word (c # takeWhile wordchar cs) # tokens (dropWhile wordchar cs))"
  by pat_completeness auto
termination
proof (relation "measure length")
  fix xs :: "byte list" and c cs
  assume a: "dropWhile (\<lambda>c. c \<in> set whitespace) xs = c # cs"
  have le: "length cs < length xs" using length_dropWhile_le [of "\<lambda>c. c \<in> set whitespace" xs] by (simp add: a)
  show "(dropWhile wordchar cs, xs) \<in> measure length" using le length_dropWhile_le [of wordchar cs] by simp
  show "(cs, xs) \<in> measure length" "(tl cs, xs) \<in> measure length" using le by simp_all
qed simp

declare tokens.simps [simp del]

lemma tokens_Nil [simp]: "tokens [] = []"
  by (simp add: tokens.simps)

lemma tokens_space: "c \<in> set whitespace \<Longrightarrow> tokens (c # cs) = tokens cs"
  by (subst (1 2) tokens.simps) simp

definition rest :: "mem \<Rightarrow> nat \<Rightarrow> nat \<Rightarrow> token list" where
  "rest buf es s = tokens (map buf [s..<es])"

lemma rest_end [simp]: "rest buf es es = []"
  by (simp add: rest_def)

lemma rest_skip: "rest buf es (skip_space buf es s) = rest buf es s"
proof (induction buf es s rule: skip_space.induct)
  case (1 buf es s)
  show ?case
  proof (cases "s < es \<and> buf s \<in> set whitespace")
    case True
    then have "rest buf es s = rest buf es (s + 1)" by (simp add: rest_def upt_conv_Cons tokens_space)
    then show ?thesis using 1 True by (subst skip_space.simps) simp
  next
    case False
    then have "skip_space buf es s = s" by (subst skip_space.simps) auto
    then show ?thesis by simp
  qed
qed

lemma skip_word_text:
  "s \<le> es \<Longrightarrow> takeWhile wordchar (map buf [s..<es]) = map buf [s..<skip_word buf es s] \<and>
    dropWhile wordchar (map buf [s..<es]) = map buf [skip_word buf es s..<es]"
proof (induction buf es s rule: skip_word.induct)
  case (1 buf es s)
  show ?case
  proof (cases "s < es \<and> wordchar (buf s)")
    case True
    then have e: "skip_word buf es s = skip_word buf es (s + 1)" by (subst skip_word.simps) (simp add: wordchar_def)
    have "s < skip_word buf es (s + 1)" using skip_word_ge [of "s + 1" buf es] by simp
    then show ?thesis using 1 True by (simp add: e upt_conv_Cons wordchar_def)
  next
    case False
    then have "skip_word buf es s = s" by (subst skip_word.simps) (auto simp: wordchar_def)
    then show ?thesis using False "1.prems" by (cases "s < es") (simp_all add: upt_conv_Cons)
  qed
qed

text \<open>The first byte of a token, and what \<open>gettoken\<close> returns for it.\<close>

fun first_byte :: "token \<Rightarrow> byte" where
  "first_byte (Sym c) = c"
| "first_byte App = 0x3E"
| "first_byte (Word w) = hd w"

fun code_of :: "token \<Rightarrow> byte" where
  "code_of (Sym c) = c"
| "code_of App = 0x2B"
| "code_of (Word w) = 0x61"

lemma rest_cases:
  assumes l: "line buf s es"
  defines "q \<equiv> skip_space buf es s"
  obtains (end_of) "q = es" "rest buf es s = []"
  | (sym) c where "q < es" "buf q = c" "c \<in> set symbols" "\<not> (c = 0x3E \<and> buf (q + 1) = 0x3E)" "rest buf es s = Sym c # rest buf es (q + 1)"
  | (app) "q < es" "buf q = 0x3E" "buf (q + 1) = 0x3E" "rest buf es s = App # rest buf es (q + 2)"
  | (word) "q < es" "wordchar (buf q)" "rest buf es s = Word (map buf [q..<skip_word buf es q]) # rest buf es (skip_word buf es q)"
proof -
  note q = line_skip [OF l, folded q_def]
  have r: "rest buf es s = tokens (map buf [q..<es])" using rest_skip [of buf es s] by (simp add: rest_def q_def)
  show thesis
  proof (cases "q < es")
    case False
    then show thesis using that(1) q(3) r by simp
  next
    case True
    then have m: "map buf [q..<es] = buf q # map buf [q + 1..<es]" by (simp add: upt_conv_Cons)
    have nxt: "map buf [q + 1..<es] \<noteq> [] \<and> hd (map buf [q + 1..<es]) = 0x3E \<longleftrightarrow> buf (q + 1) = 0x3E"
      using line_zero [OF q(1), of "q + 1"] True by (cases "q + 1 < es") (auto simp: upt_conv_Cons)
    have lx: "rest buf es s = (if buf q \<in> set symbols then
        if buf q = 0x3E \<and> buf (q + 1) = 0x3E then App # tokens (tl (map buf [q + 1..<es])) else Sym (buf q) # tokens (map buf [q + 1..<es])
      else Word (buf q # takeWhile wordchar (map buf [q + 1..<es])) # tokens (dropWhile wordchar (map buf [q + 1..<es])))"
      unfolding r m nxt [symmetric] using q(4) by (subst tokens.simps) simp
    consider (a) "buf q \<in> set symbols" "buf q = 0x3E" "buf (q + 1) = 0x3E" | (b) "buf q \<in> set symbols" "\<not> (buf q = 0x3E \<and> buf (q + 1) = 0x3E)"
      | (c) "buf q \<notin> set symbols" by blast
    then show thesis
    proof cases
      case a
      then have "q + 1 < es" using line_zero [OF q(1), of "q + 1"] True by (cases "q + 1 = es") auto
      then have "tl (map buf [q + 1..<es]) = map buf [q + 2..<es]" by (simp add: upt_conv_Cons)
      then show thesis using that(3) True a lx by (simp add: rest_def)
    next
      case b
      then show thesis using that(2) True lx by (auto simp: rest_def)
    next
      case c
      then have wc: "wordchar (buf q)" using q(4) by (simp add: wordchar_def)
      have e: "skip_word buf es q = skip_word buf es (q + 1)" using wc True by (subst skip_word.simps) (simp add: wordchar_def)
      have "q < skip_word buf es (q + 1)" using skip_word_ge [of "q + 1" buf es] by simp
      then have m': "map buf [q..<skip_word buf es q] = buf q # map buf [q + 1..<skip_word buf es (q + 1)]" by (simp add: e upt_conv_Cons)
      have "q + 1 \<le> es" using True by simp
      note t = skip_word_text [OF this, of buf]
      show thesis using that(4) True wc c lx t unfolding m' by (simp add: rest_def e)
    qed
  qed
qed

lemma peek_rest:
  assumes l: "line buf s es" and p: "peek buf es s toks = (b, s1)"
  shows "b \<longleftrightarrow> rest buf es s \<noteq> [] \<and> first_byte (hd (rest buf es s)) \<in> set toks" "rest buf es s1 = rest buf es s"
proof -
  have s1: "s1 = skip_space buf es s" using p by (auto simp: peek_def Let_def)
  then show "rest buf es s1 = rest buf es s" by (simp add: rest_skip)
  have b: "b \<longleftrightarrow> s1 < es \<and> buf s1 \<in> set toks" by (rule peek_line(3) [OF l p])
  show "b \<longleftrightarrow> rest buf es s \<noteq> [] \<and> first_byte (hd (rest buf es s)) \<in> set toks"
  proof (cases rule: rest_cases [OF l, folded s1, case_names end_of sym app word])
    case word
    have "skip_word buf es s1 = skip_word buf es (s1 + 1)" using word by (subst skip_word.simps) (simp add: wordchar_def)
    then have "s1 < skip_word buf es s1" using skip_word_ge [of "s1 + 1" buf es] by simp
    then have "hd (map buf [s1..<skip_word buf es s1]) = buf s1" by (simp add: upt_conv_Cons)
    then show ?thesis using b word by simp
  qed (use b in auto)
qed

lemma gettoken_rest:
  assumes l: "line buf s es" and g: "gettoken buf es s = ((tok, w), s1)"
  shows "rest buf es s = [] \<Longrightarrow> tok = 0 \<and> rest buf es s1 = []"
    "rest buf es s = t # ts \<Longrightarrow> tok = code_of t \<and> rest buf es s1 = ts \<and> (\<forall>x. t = Word x \<longrightarrow> map buf [fst w..<snd w] = x)"
proof -
  let ?q = "skip_space buf es s"
  have z: "buf es = 0" using l by (simp add: line_def)
  have nz: "?q < es \<Longrightarrow> buf ?q \<noteq> 0" using line_zero [OF line_skip(1) [OF l] order_refl line_skip(3) [OF l]] by simp
  have *: "(rest buf es s = [] \<longrightarrow> tok = 0 \<and> rest buf es s1 = []) \<and>
    (\<forall>t ts. rest buf es s = t # ts \<longrightarrow> tok = code_of t \<and> rest buf es s1 = ts \<and> (\<forall>x. t = Word x \<longrightarrow> map buf [fst w..<snd w] = x))"
  proof (cases rule: rest_cases [OF l, case_names end_of sym app word])
    case end_of
    then show ?thesis using g z by (auto simp: gettoken_def Let_def rest_skip)
  next
    case (sym c)
    then show ?thesis using g nz by (auto simp: gettoken_def Let_def rest_skip symbols_def split: if_splits)
  next
    case app
    then show ?thesis using g nz by (auto simp: gettoken_def Let_def rest_skip split: if_splits)
  next
    case word
    then have "buf ?q \<notin> {0, 0x7C, 0x28, 0x29, 0x3B, 0x26, 0x3C, 0x3E}" using nz by (auto simp: wordchar_def symbols_def)
    then have "((tok, w), s1) = ((0x61, ?q, skip_word buf es ?q), skip_space buf es (skip_word buf es ?q))"
      using g by (simp add: gettoken_def Let_def)
    then show ?thesis using word(3) by (simp add: rest_skip)
  qed
  show "rest buf es s = [] \<Longrightarrow> tok = 0 \<and> rest buf es s1 = []"
    "rest buf es s = t # ts \<Longrightarrow> tok = code_of t \<and> rest buf es s1 = ts \<and> (\<forall>x. t = Word x \<longrightarrow> map buf [fst w..<snd w] = x)" using * by blast+
qed

section \<open>Printing\<close>

text \<open>
  A command as text. The level says where it stands: 0 a line, 1 before \<open>&\<close> or \<open>;\<close>, 2 after a bar and 3 before a
  bar or a redirection; a command that the grammar does not allow there is put in parentheses.
\<close>

primrec show_cmd :: "byte list cmd \<Rightarrow> nat \<Rightarrow> byte list" where
  "show_cmd (Execcmd as) k = concat (map (\<lambda>w. 0x20 # w) as)"
| "show_cmd (Redircmd c f m fd) k = show_cmd c 3 @ (if m = O_RDONLY then 0x3C else 0x3E) # f"
| "show_cmd (Pipecmd l r) k = (let x = show_cmd l 3 @ 0x7C # show_cmd r 2 in if k > 2 then 0x28 # x @ [0x29] else x)"
| "show_cmd (Listcmd l r) k = (let x = show_cmd l 1 @ 0x3B # show_cmd r 0 in if k > 0 then 0x28 # x @ [0x29] else x)"
| "show_cmd (Backcmd c) k = (let x = show_cmd c 1 @ [0x26] in if k > 1 then 0x28 # x @ [0x29] else x)"

primrec toks_cmd :: "byte list cmd \<Rightarrow> nat \<Rightarrow> token list" where
  "toks_cmd (Execcmd as) k = map Word as"
| "toks_cmd (Redircmd c f m fd) k = toks_cmd c 3 @ [Sym (if m = O_RDONLY then 0x3C else 0x3E), Word f]"
| "toks_cmd (Pipecmd l r) k = (let x = toks_cmd l 3 @ Sym 0x7C # toks_cmd r 2 in if k > 2 then Sym 0x28 # x @ [Sym 0x29] else x)"
| "toks_cmd (Listcmd l r) k = (let x = toks_cmd l 1 @ Sym 0x3B # toks_cmd r 0 in if k > 0 then Sym 0x28 # x @ [Sym 0x29] else x)"
| "toks_cmd (Backcmd c) k = (let x = toks_cmd c 1 @ [Sym 0x26] in if k > 1 then Sym 0x28 # x @ [Sym 0x29] else x)"

definition plain :: "byte list \<Rightarrow> bool" where
  "plain w \<longleftrightarrow> w \<noteq> [] \<and> (\<forall>c \<in> set w. wordchar c \<and> c \<noteq> 0)"

text \<open>Commands that the shell can represent.\<close>

definition sayable :: "byte list cmd \<Rightarrow> bool" where
  "sayable c \<longleftrightarrow> args_ok c \<and> (\<forall>w \<in> strs c. plain w)"

lemma tokens_sym:
  assumes "c \<in> set symbols" and "c \<noteq> 0x3E \<or> xs = [] \<or> hd xs \<noteq> 0x3E"
  shows "tokens (c # xs) = Sym c # tokens xs"
  using assms by (subst tokens.simps) (auto simp: symbols_def whitespace_def)

lemma tokens_word:
  assumes "plain w" and "xs = [] \<or> \<not> wordchar (hd xs)"
  shows "tokens (w @ xs) = Word w # tokens xs"
proof -
  obtain c cs where w: "w = c # cs" using assms(1) by (cases w) (auto simp: plain_def)
  have c: "wordchar c" "\<forall>d \<in> set cs. wordchar d" using assms(1) by (auto simp: plain_def w)
  have "takeWhile wordchar (cs @ xs) = cs" "dropWhile wordchar (cs @ xs) = xs"
    using c(2) assms(2) by (induction cs) (auto simp: takeWhile_eq_Nil_iff dropWhile_eq_self_iff)
  then show ?thesis unfolding w using c(1) by (subst tokens.simps) (simp add: wordchar_def)
qed

lemma symbols_not_word: "c \<in> set symbols \<Longrightarrow> \<not> wordchar c" "\<not> wordchar 0x20"
  by (auto simp: wordchar_def whitespace_def)

lemma tokens_show:
  assumes "\<forall>w \<in> strs c. plain w" and "xs = [] \<or> \<not> wordchar (hd xs)"
  shows "tokens (show_cmd c k @ xs) = toks_cmd c k @ tokens xs"
  using assms
proof (induction c arbitrary: k xs)
  case (Execcmd as)
  then show ?case
  proof (induction as)
    case (Cons w as)
    have h: "concat (map (\<lambda>w. 0x20 # w) as) @ xs = [] \<or> \<not> wordchar (hd (concat (map (\<lambda>w. 0x20 # w) as) @ xs))"
      using Cons.prems(2) symbols_not_word(2) by (cases as) auto
    have "tokens (0x20 # w @ concat (map (\<lambda>w. 0x20 # w) as) @ xs) = tokens (w @ concat (map (\<lambda>w. 0x20 # w) as) @ xs)"
      by (rule tokens_space) (simp add: whitespace_def)
    also have "\<dots> = Word w # tokens (concat (map (\<lambda>w. 0x20 # w) as) @ xs)"
      by (rule tokens_word [OF _ h]) (use Cons.prems in simp)
    finally show ?case using Cons by simp
  qed simp
next
  case (Redircmd c f m fd)
  let ?d = "if m = O_RDONLY then 0x3C else 0x3E :: byte"
  have d: "?d \<in> set symbols" by (simp add: symbols_def)
  have f: "plain f" using Redircmd.prems(1) by simp
  have "hd (f @ xs) \<noteq> 0x3E" using f symbols_not_word(1) [of "0x3E"] by (cases f) (auto simp: plain_def symbols_def)
  then have "tokens (?d # f @ xs) = Sym ?d # Word f # tokens xs" using tokens_sym [OF d] tokens_word [OF f Redircmd.prems(2)] by simp
  then show ?case using Redircmd.IH [of "?d # f @ xs" 3] Redircmd.prems symbols_not_word(1) [OF d] by simp
next
  case (Pipecmd l r)
  have s: "0x7C \<in> set symbols" "0x28 \<in> set symbols" "0x29 \<in> set symbols" by (simp_all add: symbols_def)
  have x: "tokens (show_cmd l 3 @ 0x7C # show_cmd r 2 @ ys) = toks_cmd l 3 @ Sym 0x7C # toks_cmd r 2 @ tokens ys"
    if "ys = [] \<or> \<not> wordchar (hd ys)" for ys
    using Pipecmd.IH(1) [of "0x7C # show_cmd r 2 @ ys" 3] Pipecmd.IH(2) [of ys 2] Pipecmd.prems that symbols_not_word(1) s tokens_sym by simp
  show ?case using x [OF Pipecmd.prems(2)] x [of "0x29 # xs"] symbols_not_word(1) s tokens_sym by (auto simp: Let_def)
next
  case (Listcmd l r)
  have s: "0x3B \<in> set symbols" "0x28 \<in> set symbols" "0x29 \<in> set symbols" by (simp_all add: symbols_def)
  have x: "tokens (show_cmd l 1 @ 0x3B # show_cmd r 0 @ ys) = toks_cmd l 1 @ Sym 0x3B # toks_cmd r 0 @ tokens ys"
    if "ys = [] \<or> \<not> wordchar (hd ys)" for ys
    using Listcmd.IH(1) [of "0x3B # show_cmd r 0 @ ys" 1] Listcmd.IH(2) [of ys 0] Listcmd.prems that symbols_not_word(1) s tokens_sym by simp
  show ?case using x [OF Listcmd.prems(2)] x [of "0x29 # xs"] symbols_not_word(1) s tokens_sym by (auto simp: Let_def)
next
  case (Backcmd c)
  have s: "0x26 \<in> set symbols" "0x28 \<in> set symbols" "0x29 \<in> set symbols" by (simp_all add: symbols_def)
  have x: "tokens (show_cmd c 1 @ 0x26 # ys) = toks_cmd c 1 @ Sym 0x26 # tokens ys"
    if "ys = [] \<or> \<not> wordchar (hd ys)" for ys
    using Backcmd.IH [of "0x26 # ys" 1] Backcmd.prems that symbols_not_word(1) s tokens_sym by simp
  show ?case using x [OF Backcmd.prems(2)] x [of "0x29 # xs"] symbols_not_word(1) s tokens_sym by (auto simp: Let_def)
qed

section \<open>Parsing what was printed\<close>

text \<open>With enough fuel the result is \<open>r\<close>.\<close>

definition ends_with :: "(nat \<Rightarrow> 'a) \<Rightarrow> 'a \<Rightarrow> bool" where
  "ends_with f r \<longleftrightarrow> (\<exists>N. \<forall>n \<ge> N. f n = r)"

lemma ends_const [simp, intro]: "ends_with (\<lambda>_. r) r"
  by (simp add: ends_with_def)

lemma ends_Suc: "ends_with (\<lambda>n. f (Suc n)) r \<Longrightarrow> ends_with f r"
  unfolding ends_with_def by (metis Suc_le_D Suc_le_mono)

lemma ends_bind:
  assumes "ends_with f (Inr (c, s))" and "ends_with (\<lambda>n. g n c s) r"
  shows "ends_with (\<lambda>n. rbind (f n) (\<lambda>(c, s). g n c s)) r"
proof -
  from assms obtain N M where "\<forall>n \<ge> N. f n = Inr (c, s)" "\<forall>n \<ge> M. g n c s = r" by (auto simp: ends_with_def)
  then have "\<forall>n \<ge> max N M. rbind (f n) (\<lambda>(c, s). g n c s) = r" by simp
  then show ?thesis unfolding ends_with_def by blast
qed

definition view_cmd :: "mem \<Rightarrow> span cmd \<Rightarrow> byte list cmd" where
  "view_cmd buf = map_strs (\<lambda>w. map buf [fst w..<snd w])"

lemma view_simps [simp]:
  "view_cmd buf (Execcmd as) = Execcmd (map (\<lambda>w. map buf [fst w..<snd w]) as)"
  "view_cmd buf (Redircmd c f m fd) = Redircmd (view_cmd buf c) (map buf [fst f..<snd f]) m fd"
  "view_cmd buf (Pipecmd l r) = Pipecmd (view_cmd buf l) (view_cmd buf r)"
  "view_cmd buf (Listcmd l r) = Listcmd (view_cmd buf l) (view_cmd buf r)"
  "view_cmd buf (Backcmd c) = Backcmd (view_cmd buf c)"
  by (simp_all add: view_cmd_def)

lemma view_add_arg: "view_cmd buf (add_arg w c) = add_arg (map buf [fst w..<snd w]) (view_cmd buf c)"
  by (induction w c rule: add_arg.induct) simp_all

text \<open>A pointer that stands for the tokens \<open>ts\<close>.\<close>

definition at :: "mem \<Rightarrow> nat \<Rightarrow> nat \<Rightarrow> token list \<Rightarrow> bool" where
  "at buf es s ts \<longleftrightarrow> line buf s es \<and> rest buf es s = ts"

lemma at_peek:
  assumes "at buf es s ts"
  obtains s1 where "peek buf es s toks = (ts \<noteq> [] \<and> first_byte (hd ts) \<in> set toks, s1)" "at buf es s1 ts"
proof -
  obtain b s1 where p: "peek buf es s toks = (b, s1)" by fastforce
  have l: "line buf s es" using assms by (simp add: at_def)
  show thesis using that [of s1] peek_rest [OF l p] peek_line(1) [OF l p] assms p by (simp add: at_def)
qed

lemma at_no_peek:
  assumes "at buf es s ts" and "ts = [] \<or> first_byte (hd ts) \<notin> set toks"
  obtains s1 where "peek buf es s toks = (False, s1)" "at buf es s1 ts"
proof -
  obtain s1 where p: "peek buf es s toks = (ts \<noteq> [] \<and> first_byte (hd ts) \<in> set toks, s1)" "at buf es s1 ts" by (rule at_peek [OF assms(1)])
  have "(ts \<noteq> [] \<and> first_byte (hd ts) \<in> set toks) = False" using assms(2) by blast
  then show thesis using that p by simp
qed

lemma at_token:
  assumes "at buf es s (t # ts)"
  obtains w s1 where "gettoken buf es s = ((code_of t, w), s1)" "at buf es s1 ts" "\<And>x. t = Word x \<Longrightarrow> map buf [fst w..<snd w] = x"
proof -
  obtain tok w s1 where g: "gettoken buf es s = ((tok, w), s1)" by (metis surj_pair)
  have l: "line buf s es" using assms by (simp add: at_def)
  show thesis using that [of w s1] gettoken_rest(2) [OF l g, of t ts] gettoken_line(1) [OF l g] assms g by (simp add: at_def)
qed

lemma at_end:
  assumes "at buf es s []"
  obtains w s1 where "gettoken buf es s = ((0, w), s1)" "at buf es s1 []"
proof -
  obtain tok w s1 where g: "gettoken buf es s = ((tok, w), s1)" by (metis surj_pair)
  have l: "line buf s es" using assms by (simp add: at_def)
  show thesis using that [of w s1] gettoken_rest(1) [OF l g] gettoken_line(1) [OF l g] assms g by (simp add: at_def)
qed

text \<open>Redirections around a command, the innermost first.\<close>

definition wrap :: "('w \<times> int \<times> int) list \<Rightarrow> 'w cmd \<Rightarrow> 'w cmd" where
  "wrap rs c = fold (\<lambda>(f, m, fd) c. Redircmd c f m fd) rs c"

definition toks_redirs :: "(byte list \<times> int \<times> int) list \<Rightarrow> token list" where
  "toks_redirs rs = concat (map (\<lambda>(f, m, fd). [Sym (if m = O_RDONLY then 0x3C else 0x3E), Word f]) rs)"

definition redirs_ok :: "('w \<times> int \<times> int) list \<Rightarrow> bool" where
  "redirs_ok rs \<longleftrightarrow> (\<forall>(f, m, fd) \<in> set rs. m = O_RDONLY \<and> fd = 0 \<or> m = O_WRONLY OR O_CREATE \<and> fd = 1)"

lemma modes: "O_WRONLY OR O_CREATE \<noteq> O_RDONLY"
  by (simp add: O_WRONLY_def O_CREATE_def O_RDONLY_def)

definition follow :: "byte set \<Rightarrow> token list \<Rightarrow> bool" where
  "follow A ts \<longleftrightarrow> ts = [] \<or> (\<exists>c \<in> A. hd ts = Sym c)"

lemma redirs_parse:
  assumes "at buf es s (toks_redirs rs @ ts)" and "ts = [] \<or> first_byte (hd ts) \<notin> {0x3C, 0x3E}" and "redirs_ok rs"
  shows "\<exists>c' s'. ends_with (\<lambda>n. parseredirs n buf es c s) (Inr (c', s')) \<and> view_cmd buf c' = wrap rs (view_cmd buf c) \<and> at buf es s' ts \<and>
    (rs = [] \<longrightarrow> c' = c)"
  using assms
proof (induction rs arbitrary: c s)
  case Nil
  then have a: "at buf es s ts" by (simp add: toks_redirs_def)
  obtain s1 where p: "peek buf es s [0x3C, 0x3E] = (ts \<noteq> [] \<and> first_byte (hd ts) \<in> set [0x3C, 0x3E], s1)" "at buf es s1 ts" by (rule at_peek [OF a])
  then have "parseredirs (Suc n) buf es c s = Inr (c, s1)" for n using Nil.prems(2) by auto
  then have "ends_with (\<lambda>n. parseredirs n buf es c s) (Inr (c, s1))" by - (rule ends_Suc, simp)
  then show ?case using p(2) by (auto simp: wrap_def)
next
  case (Cons r rs)
  obtain f m fd where r: "r = (f, m, fd)" by (cases r)
  let ?d = "if m = O_RDONLY then 0x3C else 0x3E :: byte"
  have a: "at buf es s (Sym ?d # Word f # toks_redirs rs @ ts)" using Cons.prems(1) by (simp add: r toks_redirs_def)
  obtain s1 where p: "peek buf es s [0x3C, 0x3E] = (Sym ?d # Word f # toks_redirs rs @ ts \<noteq> [] \<and> first_byte (hd (Sym ?d # Word f # toks_redirs rs @ ts)) \<in> set [0x3C, 0x3E], s1)"
    "at buf es s1 (Sym ?d # Word f # toks_redirs rs @ ts)" by (rule at_peek [OF a])
  obtain w0 s2 where g: "gettoken buf es s1 = ((code_of (Sym ?d), w0), s2)" "at buf es s2 (Word f # toks_redirs rs @ ts)" by (rule at_token [OF p(2)])
  obtain w s3 where g': "gettoken buf es s2 = ((code_of (Word f), w), s3)" "at buf es s3 (toks_redirs rs @ ts)" "map buf [fst w..<snd w] = f"
    by (rule at_token [OF g(2)]) blast
  have m: "m = O_RDONLY \<and> fd = 0 \<or> m = O_WRONLY OR O_CREATE \<and> fd = 1" "redirs_ok rs" using Cons.prems(3) by (auto simp: redirs_ok_def r)
  obtain c' s' where IH: "ends_with (\<lambda>n. parseredirs n buf es (Redircmd c w m fd) s3) (Inr (c', s'))"
    "view_cmd buf c' = wrap rs (view_cmd buf (Redircmd c w m fd))" "at buf es s' ts"
    using Cons.IH [OF g'(2) Cons.prems(2) m(2)] by blast
  have "parseredirs (Suc n) buf es c s = parseredirs n buf es (Redircmd c w m fd) s3" for n
    using p(1) g(1) g'(1) m(1) modes by auto
  then have "ends_with (\<lambda>n. parseredirs n buf es c s) (Inr (c', s'))" using IH(1) by - (rule ends_Suc, simp)
  then show ?case using IH(2,3) g'(3) by (auto simp: wrap_def r)
qed

text \<open>The words of a simple command.\<close>

lemma args_end:
  assumes "at buf es s ts" and "follow {0x7C, 0x29, 0x26, 0x3B} ts"
  shows "\<exists>s'. ends_with (\<lambda>n. parse_args n buf es argc c s) (Inr (c, s')) \<and> at buf es s' ts"
proof -
  let ?T = "[0x7C, 0x29, 0x26, 0x3B]"
  obtain s1 where p: "peek buf es s ?T = (ts \<noteq> [] \<and> first_byte (hd ts) \<in> set ?T, s1)" "at buf es s1 ts" by (rule at_peek [OF assms(1)])
  show ?thesis
  proof (cases ts)
    case Nil
    obtain w s2 where g: "gettoken buf es s1 = ((0, w), s2)" "at buf es s2 []" using at_end p(2) Nil by metis
    have "parse_args (Suc n) buf es argc c s = Inr (c, s2)" for n using p(1) g(1) Nil by simp
    then have "ends_with (\<lambda>n. parse_args n buf es argc c s) (Inr (c, s2))" by - (rule ends_Suc, simp)
    then show ?thesis using g(2) Nil by blast
  next
    case (Cons t ts')
    have "parse_args (Suc n) buf es argc c s = Inr (c, s1)" for n using p(1) assms(2) Cons by (auto simp: follow_def)
    then have "ends_with (\<lambda>n. parse_args n buf es argc c s) (Inr (c, s1))" by - (rule ends_Suc, simp)
    then show ?thesis using p(2) by blast
  qed
qed

lemma args_parse:
  assumes "at buf es s (map Word as @ toks_redirs rs @ ts)" and "as = [] \<longrightarrow> rs = []" and "follow {0x7C, 0x29, 0x26, 0x3B} ts"
    and "argc + length as < MAXARGS" and "redirs_ok rs" and "\<forall>w \<in> set as. plain w"
  shows "\<exists>c' s'. ends_with (\<lambda>n. parse_args n buf es argc (Execcmd cs) s) (Inr (c', s')) \<and>
    view_cmd buf c' = wrap rs (Execcmd (map (\<lambda>w. map buf [fst w..<snd w]) cs @ as)) \<and> at buf es s' ts"
  using assms
proof (induction as arbitrary: s cs argc)
  case Nil
  then have "at buf es s ts" by (simp add: toks_redirs_def)
  from args_end [OF this assms(3)] Nil show ?case by (fastforce simp: wrap_def)
next
  case (Cons w as)
  let ?T = "[0x7C, 0x29, 0x26, 0x3B]" and ?ts = "map Word as @ toks_redirs rs @ ts"
  have a: "at buf es s (Word w # ?ts)" using Cons.prems(1) by simp
  obtain s1 where p: "peek buf es s ?T = (Word w # ?ts \<noteq> [] \<and> first_byte (hd (Word w # ?ts)) \<in> set ?T, s1)" "at buf es s1 (Word w # ?ts)"
    by (rule at_peek [OF a])
  have "wordchar (hd w)" using Cons.prems(6) by (cases w) (auto simp: plain_def)
  then have nb: "\<not> (Word w # ?ts \<noteq> [] \<and> first_byte (hd (Word w # ?ts)) \<in> set ?T)" by (auto simp: wordchar_def symbols_def)
  obtain x s2 where g: "gettoken buf es s1 = ((code_of (Word w), x), s2)" "at buf es s2 ?ts" "map buf [fst x..<snd x] = w"
    by (rule at_token [OF p(2)]) blast
  let ?d = "Execcmd (cs @ [x])"
  have nf: "ts = [] \<or> first_byte (hd ts) \<notin> {0x3C, 0x3E}" using assms(3) by (auto simp: follow_def)
  have ex: "parse_args (Suc n) buf es argc (Execcmd cs) s =
      rbind (parseredirs n buf es ?d s2) (\<lambda>(ret', s3). parse_args n buf es (argc + 1) ret' s3)" for n
    using p(1) g(1) nb Cons.prems(4) by simp
  show ?case
  proof (cases "as = []")
    case True
    obtain c' s3 where r: "ends_with (\<lambda>n. parseredirs n buf es ?d s2) (Inr (c', s3))" "view_cmd buf c' = wrap rs (view_cmd buf ?d)" "at buf es s3 ts"
      using redirs_parse [of buf es s2 rs ts ?d] g(2) nf Cons.prems(5) True by auto
    obtain s' where e: "ends_with (\<lambda>n. parse_args n buf es (argc + 1) c' s3) (Inr (c', s'))" "at buf es s' ts" using args_end [OF r(3) assms(3)] by blast
    have "ends_with (\<lambda>n. parse_args n buf es argc (Execcmd cs) s) (Inr (c', s'))" by (rule ends_Suc, unfold ex, rule ends_bind [OF r(1)], rule e(1))
    then show ?thesis using r(2) e(2) g(3) True by auto
  next
    case False
    then have ne: "?ts \<noteq> []" "hd ?ts = Word (hd as)" by (cases as; simp)+
    have "wordchar (hd (hd as))" using Cons.prems(6) False by (cases as; cases "hd as") (auto simp: plain_def)
    then have f: "?ts = [] \<or> first_byte (hd ?ts) \<notin> {0x3C, 0x3E}" using ne by (auto simp: wordchar_def symbols_def)
    have "at buf es s2 (toks_redirs [] @ ?ts)" using g(2) by (simp add: toks_redirs_def)
    from redirs_parse [OF this f, of ?d] obtain s3 where r: "ends_with (\<lambda>n. parseredirs n buf es ?d s2) (Inr (?d, s3))" "at buf es s3 ?ts"
      by (auto simp: redirs_ok_def)
    obtain c' s' where e: "ends_with (\<lambda>n. parse_args n buf es (argc + 1) ?d s3) (Inr (c', s'))"
      "view_cmd buf c' = wrap rs (Execcmd (map (\<lambda>w. map buf [fst w..<snd w]) (cs @ [x]) @ as))" "at buf es s' ts"
      using Cons.IH [OF r(2) _ _ _ _ _, of "argc + 1" "cs @ [x]"] False Cons.prems by auto
    have "ends_with (\<lambda>n. parse_args n buf es argc (Execcmd cs) s) (Inr (c', s'))" by (rule ends_Suc, unfold ex, rule ends_bind [OF r(1)], rule e(1))
    then show ?thesis using e(2,3) g(3) by auto
  qed
qed

text \<open>The command under the redirections, and these.\<close>

fun core :: "'w cmd \<Rightarrow> 'w cmd" where
  "core (Redircmd c f m fd) = core c"
| "core c = c"

fun redirs_of :: "'w cmd \<Rightarrow> ('w \<times> int \<times> int) list" where
  "redirs_of (Redircmd c f m fd) = redirs_of c @ [(f, m, fd)]"
| "redirs_of c = []"

lemma wrap_core: "wrap (redirs_of c) (core c) = c"
  by (induction c rule: core.induct) (simp_all add: wrap_def)

definition toks_base :: "byte list cmd \<Rightarrow> token list" where
  "toks_base c = (case c of Execcmd as \<Rightarrow> map Word as | _ \<Rightarrow> Sym 0x28 # toks_cmd c 0 @ [Sym 0x29])"

lemma toks_core: "toks_cmd c 3 = toks_base (core c) @ toks_redirs (redirs_of c)"
  by (induction c rule: core.induct) (simp_all add: toks_redirs_def toks_base_def Let_def)

lemma sayable_core: "sayable c \<Longrightarrow> sayable (core c) \<and> redirs_ok (redirs_of c)"
  by (induction c rule: core.induct) (auto simp: sayable_def redirs_ok_def)

text \<open>\<open>parse\<close> reads the command \<open>c\<close> printed at a level when a token of \<open>A\<close> or the end follows.\<close>

definition reads :: "mem \<Rightarrow> nat \<Rightarrow> (nat \<Rightarrow> mem \<Rightarrow> nat \<Rightarrow> nat \<Rightarrow> (span cmd \<times> nat) res) \<Rightarrow> nat \<Rightarrow> byte set \<Rightarrow> byte list cmd \<Rightarrow> bool" where
  "reads buf es parse k A c \<longleftrightarrow> (\<forall>s ts. at buf es s (toks_cmd c k @ ts) \<and> follow A ts \<longrightarrow>
     (\<exists>c' s'. ends_with (\<lambda>n. parse n buf es s) (Inr (c', s')) \<and> view_cmd buf c' = c \<and> at buf es s' ts))"

lemma readsD:
  assumes "reads buf es parse k A c" and "at buf es s (toks_cmd c k @ ts)" and "follow A ts"
  obtains c' s' where "ends_with (\<lambda>n. parse n buf es s) (Inr (c', s'))" "view_cmd buf c' = c" "at buf es s' ts"
  using assms unfolding reads_def by blast

lemma exec_simple:
  assumes c: "core c = Execcmd as" and ok: "sayable c"
  shows "reads buf es parseexec 3 {0x7C, 0x29, 0x26, 0x3B} c"
  unfolding reads_def
proof (intro allI impI, elim conjE)
  fix s ts assume a: "at buf es s (toks_cmd c 3 @ ts)" and f: "follow {0x7C, 0x29, 0x26, 0x3B} ts"
  let ?rs = "redirs_of c"
  have ok': "length as < MAXARGS" "\<forall>w \<in> set as. plain w" "redirs_ok ?rs" using sayable_core [OF ok] by (auto simp: c sayable_def)
  have a': "at buf es s (map Word as @ toks_redirs ?rs @ ts)" using a toks_core [of c] by (simp add: c toks_base_def)
  have nf: "ts = [] \<or> first_byte (hd ts) \<notin> {0x3C, 0x3E}" using f by (auto simp: follow_def)
  have wc: "wordchar (hd (hd as))" if "as \<noteq> []" using ok'(2) that by (cases as; cases "hd as") (auto simp: plain_def)
  have nb: "map Word as @ toks_redirs ?rs @ ts = [] \<or> first_byte (hd (map Word as @ toks_redirs ?rs @ ts)) \<notin> set [0x28]"
  proof (cases as)
    case Nil
    then show ?thesis using f by (cases ?rs) (auto simp: toks_redirs_def follow_def split: if_splits)
  next
    case (Cons w as')
    then show ?thesis using wc by (auto simp: wordchar_def symbols_def)
  qed
  obtain s1 where p: "peek buf es s [0x28] = (False, s1)" "at buf es s1 (map Word as @ toks_redirs ?rs @ ts)" by (rule at_no_peek [OF a' nb])
  have ex: "parseexec (Suc n) buf es s = rbind (parseredirs n buf es (Execcmd []) s1) (\<lambda>(ret, s2). parse_args n buf es 0 ret s2)" for n
    using p(1) by simp
  have fin: "\<exists>c' s'. ends_with (\<lambda>n. parseexec n buf es s) (Inr (c', s')) \<and> view_cmd buf c' = c \<and> at buf es s' ts"
    if "ends_with (\<lambda>n. parseredirs n buf es (Execcmd []) s1) (Inr (d, s2))" "ends_with (\<lambda>n. parse_args n buf es 0 d s2) (Inr (c', s'))"
      "view_cmd buf c' = wrap ?rs (Execcmd as)" "at buf es s' ts" for d s2 c' s'
  proof -
    have "ends_with (\<lambda>n. parseexec n buf es s) (Inr (c', s'))" by (rule ends_Suc, unfold ex, rule ends_bind [OF that(1)], rule that(2))
    then show ?thesis using that(3,4) wrap_core [of c] c by auto
  qed
  show "\<exists>c' s'. ends_with (\<lambda>n. parseexec n buf es s) (Inr (c', s')) \<and> view_cmd buf c' = c \<and> at buf es s' ts"
  proof (cases "as = []")
    case True
    obtain d s2 where d: "ends_with (\<lambda>n. parseredirs n buf es (Execcmd []) s1) (Inr (d, s2))" "view_cmd buf d = wrap ?rs (Execcmd [])" "at buf es s2 ts"
      using redirs_parse [of buf es s1 ?rs ts "Execcmd []"] p(2) True nf ok'(3) by auto
    obtain s' where "ends_with (\<lambda>n. parse_args n buf es 0 d s2) (Inr (d, s'))" "at buf es s' ts" using args_end [OF d(3) f] by blast
    then show ?thesis using fin d True by auto
  next
    case False
    let ?ts = "map Word as @ toks_redirs ?rs @ ts"
    have "?ts = [] \<or> first_byte (hd ?ts) \<notin> {0x3C, 0x3E}" using wc False by (cases as) (auto simp: wordchar_def symbols_def)
    moreover have "at buf es s1 (toks_redirs [] @ ?ts)" using p(2) by (simp add: toks_redirs_def)
    ultimately obtain s2 where r: "ends_with (\<lambda>n. parseredirs n buf es (Execcmd []) s1) (Inr (Execcmd [], s2))" "at buf es s2 ?ts"
      using redirs_parse [of buf es s1 "[]" ?ts "Execcmd []"] by (auto simp: redirs_ok_def)
    obtain c' s' where "ends_with (\<lambda>n. parse_args n buf es 0 (Execcmd []) s2) (Inr (c', s'))" "view_cmd buf c' = wrap ?rs (Execcmd as)" "at buf es s' ts"
      using args_parse [OF r(2) _ f _ ok'(3,2), of 0 "[]"] False ok'(1) by auto
    then show ?thesis by (rule fin [OF r(1)])
  qed
qed

lemma exec_block:
  assumes c: "\<And>as. core c \<noteq> Execcmd as" and ok: "sayable c" and line: "reads buf es parseline 0 {0x29} (core c)"
  shows "reads buf es parseexec 3 {0x7C, 0x29, 0x26, 0x3B} c"
  unfolding reads_def
proof (intro allI impI, elim conjE)
  fix s ts assume a: "at buf es s (toks_cmd c 3 @ ts)" and f: "follow {0x7C, 0x29, 0x26, 0x3B} ts"
  let ?rs = "redirs_of c"
  have a': "at buf es s (Sym 0x28 # toks_cmd (core c) 0 @ Sym 0x29 # toks_redirs ?rs @ ts)"
    using a toks_core [of c] c by (cases "core c") (auto simp: toks_base_def)
  obtain s1 where p: "peek buf es s [0x28] = (True, s1)" "at buf es s1 (Sym 0x28 # toks_cmd (core c) 0 @ Sym 0x29 # toks_redirs ?rs @ ts)"
    by (rule at_peek [OF a', of "[0x28]"]) simp
  obtain s1' where p1: "peek buf es s1 [0x28] = (True, s1')" "at buf es s1' (Sym 0x28 # toks_cmd (core c) 0 @ Sym 0x29 # toks_redirs ?rs @ ts)"
    by (rule at_peek [OF p(2), of "[0x28]"]) simp
  obtain w s2 where g: "gettoken buf es s1' = ((0x28, w), s2)" "at buf es s2 (toks_cmd (core c) 0 @ Sym 0x29 # toks_redirs ?rs @ ts)"
    by (rule at_token [OF p1(2)]) simp
  have "follow {0x29} (Sym 0x29 # toks_redirs ?rs @ ts)" by (simp add: follow_def)
  then obtain d s3 where d: "ends_with (\<lambda>n. parseline n buf es s2) (Inr (d, s3))" "view_cmd buf d = core c" "at buf es s3 (Sym 0x29 # toks_redirs ?rs @ ts)"
    by (rule readsD [OF line g(2)])
  obtain s4 where p4: "peek buf es s3 [0x29] = (True, s4)" "at buf es s4 (Sym 0x29 # toks_redirs ?rs @ ts)"
    by (rule at_peek [OF d(3), of "[0x29]"]) simp
  obtain w' s5 where g5: "gettoken buf es s4 = ((0x29, w'), s5)" "at buf es s5 (toks_redirs ?rs @ ts)" by (rule at_token [OF p4(2)]) simp
  have nf: "ts = [] \<or> first_byte (hd ts) \<notin> {0x3C, 0x3E}" using f by (auto simp: follow_def)
  obtain c' s' where r: "ends_with (\<lambda>n. parseredirs n buf es d s5) (Inr (c', s'))" "view_cmd buf c' = wrap ?rs (view_cmd buf d)" "at buf es s' ts"
    using redirs_parse [OF g5(2) nf] sayable_core [OF ok] by blast
  have "ends_with (\<lambda>n. rbind (parseline n buf es s2) (\<lambda>(cmd, s3). let (b, s4) = peek buf es s3 [0x29] in
      if \<not> b then Inl (Panic ''syntax - missing )'') else let (_, s5) = gettoken buf es s4 in parseredirs n buf es cmd s5)) (Inr (c', s'))"
    by (rule ends_bind [OF d(1)]) (simp add: p4(1) g5(1) r(1))
  then have "ends_with (\<lambda>n. parseblock n buf es s1) (Inr (c', s'))" by - (rule ends_Suc, simp add: p1(1) g(1))
  then have "ends_with (\<lambda>n. parseexec n buf es s) (Inr (c', s'))" by - (rule ends_Suc, simp add: p(1))
  then show "\<exists>c' s'. ends_with (\<lambda>n. parseexec n buf es s) (Inr (c', s')) \<and> view_cmd buf c' = c \<and> at buf es s' ts"
    using r(2,3) d(2) wrap_core [of c] by auto
qed

lemma pipe_exec:
  assumes "reads buf es parseexec 3 {0x7C, 0x29, 0x26, 0x3B} c" and k: "toks_cmd c 2 = toks_cmd c 3"
  shows "reads buf es parsepipe 2 {0x29, 0x26, 0x3B} c"
  unfolding reads_def
proof (intro allI impI, elim conjE)
  fix s ts assume a: "at buf es s (toks_cmd c 2 @ ts)" and f: "follow {0x29, 0x26, 0x3B} ts"
  have f': "follow {0x7C, 0x29, 0x26, 0x3B} ts" using f by (auto simp: follow_def)
  obtain c' s1 where c: "ends_with (\<lambda>n. parseexec n buf es s) (Inr (c', s1))" "view_cmd buf c' = c" "at buf es s1 ts"
    by (rule readsD [OF assms(1) a [unfolded k] f'])
  obtain s2 where p: "peek buf es s1 [0x7C] = (ts \<noteq> [] \<and> first_byte (hd ts) \<in> set [0x7C], s2)" "at buf es s2 ts" by (rule at_peek [OF c(3)])
  have nb: "\<not> (ts \<noteq> [] \<and> first_byte (hd ts) \<in> set [0x7C])" using f by (auto simp: follow_def)
  have "ends_with (\<lambda>n. parsepipe n buf es s) (Inr (c', s2))"
    by (rule ends_Suc, unfold parsepipe.simps, rule ends_bind [OF c(1)]) (use p(1) nb in auto)
  then show "\<exists>c' s'. ends_with (\<lambda>n. parsepipe n buf es s) (Inr (c', s')) \<and> view_cmd buf c' = c \<and> at buf es s' ts" using c(2) p(2) by blast
qed

lemma pipe_pipe:
  assumes l: "reads buf es parseexec 3 {0x7C, 0x29, 0x26, 0x3B} l" and r: "reads buf es parsepipe 2 {0x29, 0x26, 0x3B} r"
  shows "reads buf es parsepipe 2 {0x29, 0x26, 0x3B} (Pipecmd l r)"
  unfolding reads_def
proof (intro allI impI, elim conjE)
  fix s ts assume a: "at buf es s (toks_cmd (Pipecmd l r) 2 @ ts)" and f: "follow {0x29, 0x26, 0x3B} ts"
  have a': "at buf es s (toks_cmd l 3 @ Sym 0x7C # toks_cmd r 2 @ ts)" using a by simp
  have f': "follow {0x7C, 0x29, 0x26, 0x3B} (Sym 0x7C # toks_cmd r 2 @ ts)" by (simp add: follow_def)
  obtain c1 s1 where c: "ends_with (\<lambda>n. parseexec n buf es s) (Inr (c1, s1))" "view_cmd buf c1 = l" "at buf es s1 (Sym 0x7C # toks_cmd r 2 @ ts)"
    by (rule readsD [OF l a' f'])
  obtain s2 where p: "peek buf es s1 [0x7C] = (True, s2)" "at buf es s2 (Sym 0x7C # toks_cmd r 2 @ ts)" by (rule at_peek [OF c(3), of "[0x7C]"]) simp
  obtain w s3 where g: "gettoken buf es s2 = ((0x7C, w), s3)" "at buf es s3 (toks_cmd r 2 @ ts)" by (rule at_token [OF p(2)]) simp
  obtain c2 s4 where d: "ends_with (\<lambda>n. parsepipe n buf es s3) (Inr (c2, s4))" "view_cmd buf c2 = r" "at buf es s4 ts" by (rule readsD [OF r g(2) f])
  have "ends_with (\<lambda>n. rbind (parsepipe n buf es s3) (\<lambda>(r, s4). Inr (Pipecmd c1 r, s4))) (Inr (Pipecmd c1 c2, s4))" by (rule ends_bind [OF d(1)]) simp
  then have "ends_with (\<lambda>n. parsepipe n buf es s) (Inr (Pipecmd c1 c2, s4))"
    by - (rule ends_Suc, unfold parsepipe.simps, rule ends_bind [OF c(1)], simp add: p(1) g(1))
  then show "\<exists>c' s'. ends_with (\<lambda>n. parsepipe n buf es s) (Inr (c', s')) \<and> view_cmd buf c' = Pipecmd l r \<and> at buf es s' ts"
    using c(2) d(2,3) by (intro exI [of _ "Pipecmd c1 c2"] exI [of _ s4]) simp
qed

text \<open>Before \<open>&\<close>: the pipe is read, and then the loop goes on as from the command \<open>c\<close>.\<close>

definition reads_back :: "mem \<Rightarrow> nat \<Rightarrow> byte list cmd \<Rightarrow> bool" where
  "reads_back buf es c \<longleftrightarrow> (\<forall>s ts. at buf es s (toks_cmd c 1 @ ts) \<and> follow {0x29, 0x26, 0x3B} ts \<longrightarrow>
     (\<exists>c' s'. view_cmd buf c' = c \<and> at buf es s' ts \<and> (\<forall>r. ends_with (\<lambda>n. parse_backs n buf es c' s') r \<longrightarrow>
        ends_with (\<lambda>n. rbind (parsepipe n buf es s) (\<lambda>(c, s). parse_backs n buf es c s)) r)))"

lemma back_pipe:
  assumes p: "reads buf es parsepipe 2 {0x29, 0x26, 0x3B} c" and k: "toks_cmd c 1 = toks_cmd c 2"
  shows "reads_back buf es c"
  unfolding reads_back_def
proof (intro allI impI, elim conjE)
  fix s ts assume a: "at buf es s (toks_cmd c 1 @ ts)" and f: "follow {0x29, 0x26, 0x3B} ts"
  obtain c' s' where c: "ends_with (\<lambda>n. parsepipe n buf es s) (Inr (c', s'))" "view_cmd buf c' = c" "at buf es s' ts" by (rule readsD [OF p a [unfolded k] f])
  have "ends_with (\<lambda>n. rbind (parsepipe n buf es s) (\<lambda>(c, s). parse_backs n buf es c s)) r" if "ends_with (\<lambda>n. parse_backs n buf es c' s') r" for r
    by (rule ends_bind [OF c(1)]) (rule that)
  then show "\<exists>c' s'. view_cmd buf c' = c \<and> at buf es s' ts \<and> (\<forall>r. ends_with (\<lambda>n. parse_backs n buf es c' s') r \<longrightarrow>
        ends_with (\<lambda>n. rbind (parsepipe n buf es s) (\<lambda>(c, s). parse_backs n buf es c s)) r)" using c(2,3) by blast
qed

lemma back_back:
  assumes b: "reads_back buf es c"
  shows "reads_back buf es (Backcmd c)"
  unfolding reads_back_def
proof (intro allI impI, elim conjE)
  fix s ts assume a: "at buf es s (toks_cmd (Backcmd c) 1 @ ts)" and f: "follow {0x29, 0x26, 0x3B} ts"
  have a': "at buf es s (toks_cmd c 1 @ Sym 0x26 # ts)" using a by simp
  have "follow {0x29, 0x26, 0x3B} (Sym 0x26 # ts)" by (simp add: follow_def)
  with b a' obtain c' s' where c: "view_cmd buf c' = c" "at buf es s' (Sym 0x26 # ts)"
    "\<forall>r. ends_with (\<lambda>n. parse_backs n buf es c' s') r \<longrightarrow> ends_with (\<lambda>n. rbind (parsepipe n buf es s) (\<lambda>(c, s). parse_backs n buf es c s)) r"
    unfolding reads_back_def by blast
  obtain s1 where p: "peek buf es s' [0x26] = (True, s1)" "at buf es s1 (Sym 0x26 # ts)" by (rule at_peek [OF c(2), of "[0x26]"]) simp
  obtain w s2 where g: "gettoken buf es s1 = ((0x26, w), s2)" "at buf es s2 ts" by (rule at_token [OF p(2)]) simp
  have "ends_with (\<lambda>n. parse_backs n buf es c' s') r" if "ends_with (\<lambda>n. parse_backs n buf es (Backcmd c') s2) r" for r
    by (rule ends_Suc) (use p(1) g(1) that in simp)
  then show "\<exists>c' s'. view_cmd buf c' = Backcmd c \<and> at buf es s' ts \<and> (\<forall>r. ends_with (\<lambda>n. parse_backs n buf es c' s') r \<longrightarrow>
        ends_with (\<lambda>n. rbind (parsepipe n buf es s) (\<lambda>(c, s). parse_backs n buf es c s)) r)"
    using c(1,3) g(2) by (intro exI [of _ "Backcmd c'"] exI [of _ s2]) simp
qed

text \<open>The loop ends before \<open>;\<close>, a closing parenthesis and the end.\<close>

lemma backs_end:
  assumes "reads_back buf es c" and a: "at buf es s (toks_cmd c 1 @ ts)" and f: "follow {0x29, 0x3B} ts"
  obtains c' s' where "view_cmd buf c' = c" "at buf es s' ts"
    "\<forall>(g :: nat \<Rightarrow> span cmd \<Rightarrow> nat \<Rightarrow> (span cmd \<times> nat) res) r. ends_with (\<lambda>n. g n c' s') r \<longrightarrow>
       ends_with (\<lambda>n. rbind (parsepipe n buf es s) (\<lambda>(c, s). rbind (parse_backs n buf es c s) (\<lambda>(c, s). g n c s))) r"
proof -
  have "follow {0x29, 0x26, 0x3B} ts" using f by (auto simp: follow_def)
  with assms(1) a obtain c' s1 where c: "view_cmd buf c' = c" "at buf es s1 ts"
    "\<forall>r. ends_with (\<lambda>n. parse_backs n buf es c' s1) r \<longrightarrow> ends_with (\<lambda>n. rbind (parsepipe n buf es s) (\<lambda>(c, s). parse_backs n buf es c s)) r"
    unfolding reads_back_def by blast
  obtain s2 where p: "peek buf es s1 [0x26] = (ts \<noteq> [] \<and> first_byte (hd ts) \<in> set [0x26], s2)" "at buf es s2 ts" by (rule at_peek [OF c(2)])
  have nb: "\<not> (ts \<noteq> [] \<and> first_byte (hd ts) \<in> set [0x26])" using f by (auto simp: follow_def)
  have "ends_with (\<lambda>n. parse_backs n buf es c' s1) (Inr (c', s2))" by (rule ends_Suc) (use p(1) nb in auto)
  with c(3) have e: "ends_with (\<lambda>n. rbind (parsepipe n buf es s) (\<lambda>(c, s). parse_backs n buf es c s)) (Inr (c', s2))" by blast
  have eq: "rbind (parsepipe n buf es s) (\<lambda>(c, s). rbind (parse_backs n buf es c s) h) =
      rbind (rbind (parsepipe n buf es s) (\<lambda>(c, s). parse_backs n buf es c s)) h" for n and h :: "span cmd \<times> nat \<Rightarrow> (span cmd \<times> nat) res"
    by (simp add: rbind_assoc split_def)
  show thesis
    by (rule that [OF c(1) p(2)], intro allI impI, unfold eq, rule ends_bind [OF e])
qed

lemma line_back:
  assumes b: "reads_back buf es c" and k: "toks_cmd c 0 = toks_cmd c 1"
  shows "reads buf es parseline 0 {0x29} c"
  unfolding reads_def
proof (intro allI impI, elim conjE)
  fix s ts assume a: "at buf es s (toks_cmd c 0 @ ts)" and f: "follow {0x29} ts"
  have f': "follow {0x29, 0x3B} ts" using f by (auto simp: follow_def)
  obtain c' s1 where c: "view_cmd buf c' = c" "at buf es s1 ts"
    "\<forall>(g :: nat \<Rightarrow> span cmd \<Rightarrow> nat \<Rightarrow> (span cmd \<times> nat) res) r. ends_with (\<lambda>n. g n c' s1) r \<longrightarrow>
       ends_with (\<lambda>n. rbind (parsepipe n buf es s) (\<lambda>(c, s). rbind (parse_backs n buf es c s) (\<lambda>(c, s). g n c s))) r"
    by (rule backs_end [OF b a [unfolded k] f'])
  obtain s2 where p: "peek buf es s1 [0x3B] = (ts \<noteq> [] \<and> first_byte (hd ts) \<in> set [0x3B], s2)" "at buf es s2 ts" by (rule at_peek [OF c(2)])
  have nb: "\<not> (ts \<noteq> [] \<and> first_byte (hd ts) \<in> set [0x3B])" using f by (auto simp: follow_def)
  have "ends_with (\<lambda>n. parseline n buf es s) (Inr (c', s2))"
    by (rule ends_Suc, unfold parseline.simps, rule c(3) [rule_format]) (use p(1) nb in auto)
  then show "\<exists>c' s'. ends_with (\<lambda>n. parseline n buf es s) (Inr (c', s')) \<and> view_cmd buf c' = c \<and> at buf es s' ts" using c(1) p(2) by blast
qed

lemma line_list:
  assumes l: "reads_back buf es l" and r: "reads buf es parseline 0 {0x29} r"
  shows "reads buf es parseline 0 {0x29} (Listcmd l r)"
  unfolding reads_def
proof (intro allI impI, elim conjE)
  fix s ts assume a: "at buf es s (toks_cmd (Listcmd l r) 0 @ ts)" and f: "follow {0x29} ts"
  have a': "at buf es s (toks_cmd l 1 @ Sym 0x3B # toks_cmd r 0 @ ts)" using a by simp
  have f': "follow {0x29, 0x3B} (Sym 0x3B # toks_cmd r 0 @ ts)" by (simp add: follow_def)
  obtain c1 s1 where c: "view_cmd buf c1 = l" "at buf es s1 (Sym 0x3B # toks_cmd r 0 @ ts)"
    "\<forall>(g :: nat \<Rightarrow> span cmd \<Rightarrow> nat \<Rightarrow> (span cmd \<times> nat) res) r. ends_with (\<lambda>n. g n c1 s1) r \<longrightarrow>
       ends_with (\<lambda>n. rbind (parsepipe n buf es s) (\<lambda>(c, s). rbind (parse_backs n buf es c s) (\<lambda>(c, s). g n c s))) r"
    by (rule backs_end [OF l a' f'])
  obtain s2 where p: "peek buf es s1 [0x3B] = (True, s2)" "at buf es s2 (Sym 0x3B # toks_cmd r 0 @ ts)" by (rule at_peek [OF c(2), of "[0x3B]"]) simp
  obtain w s3 where g: "gettoken buf es s2 = ((0x3B, w), s3)" "at buf es s3 (toks_cmd r 0 @ ts)" by (rule at_token [OF p(2)]) simp
  obtain c2 s4 where d: "ends_with (\<lambda>n. parseline n buf es s3) (Inr (c2, s4))" "view_cmd buf c2 = r" "at buf es s4 ts" by (rule readsD [OF r g(2) f])
  have "ends_with (\<lambda>n. rbind (parseline n buf es s3) (\<lambda>(r, s5). Inr (Listcmd c1 r, s5))) (Inr (Listcmd c1 c2, s4))" by (rule ends_bind [OF d(1)]) simp
  then have "ends_with (\<lambda>n. parseline n buf es s) (Inr (Listcmd c1 c2, s4))"
    by - (rule ends_Suc, unfold parseline.simps, rule c(3) [rule_format], simp add: p(1) g(1))
  then show "\<exists>c' s'. ends_with (\<lambda>n. parseline n buf es s) (Inr (c', s')) \<and> view_cmd buf c' = Listcmd l r \<and> at buf es s' ts"
    using c(1) d(2,3) by (intro exI [of _ "Listcmd c1 c2"] exI [of _ s4]) simp
qed

lemma parse_printed:
  assumes "sayable c"
  shows "reads buf es parseline 0 {0x29} c \<and> reads_back buf es c \<and> reads buf es parsepipe 2 {0x29, 0x26, 0x3B} c \<and>
    reads buf es parseexec 3 {0x7C, 0x29, 0x26, 0x3B} c \<and>
    ((\<forall>as. core c \<noteq> Execcmd as) \<longrightarrow> reads buf es parseline 0 {0x29} (core c))"
  using assms
proof (induction c)
  case (Execcmd as)
  have e: "reads buf es parseexec 3 {0x7C, 0x29, 0x26, 0x3B} (Execcmd as)" by (rule exec_simple [OF _ Execcmd]) simp
  have p: "reads buf es parsepipe 2 {0x29, 0x26, 0x3B} (Execcmd as)" by (rule pipe_exec [OF e]) simp
  have b: "reads_back buf es (Execcmd as)" by (rule back_pipe [OF p]) simp
  show ?case using line_back [OF b] b p e by simp
next
  case (Redircmd c f m fd)
  have ok: "sayable c" using Redircmd.prems by (simp add: sayable_def)
  note IH = Redircmd.IH [OF ok]
  let ?c = "Redircmd c f m fd"
  have e: "reads buf es parseexec 3 {0x7C, 0x29, 0x26, 0x3B} ?c"
  proof (cases "\<exists>as. core c = Execcmd as")
    case True
    then show ?thesis using exec_simple [OF _ Redircmd.prems] by auto
  next
    case False
    then show ?thesis using exec_block [OF _ Redircmd.prems] IH by auto
  qed
  have p: "reads buf es parsepipe 2 {0x29, 0x26, 0x3B} ?c" by (rule pipe_exec [OF e]) simp
  have b: "reads_back buf es ?c" by (rule back_pipe [OF p]) simp
  show ?case using line_back [OF b] b p e IH by simp
next
  case (Pipecmd l r)
  have ok: "sayable l" "sayable r" using Pipecmd.prems by (auto simp: sayable_def)
  have p: "reads buf es parsepipe 2 {0x29, 0x26, 0x3B} (Pipecmd l r)"
    by (rule pipe_pipe) (use Pipecmd.IH(1) [OF ok(1)] Pipecmd.IH(2) [OF ok(2)] in auto)
  have b: "reads_back buf es (Pipecmd l r)" by (rule back_pipe [OF p]) simp
  have l: "reads buf es parseline 0 {0x29} (Pipecmd l r)" by (rule line_back [OF b]) simp
  have "reads buf es parseexec 3 {0x7C, 0x29, 0x26, 0x3B} (Pipecmd l r)" by (rule exec_block [OF _ Pipecmd.prems]) (use l in auto)
  then show ?case using p b l by simp
next
  case (Listcmd l r)
  have ok: "sayable l" "sayable r" using Listcmd.prems by (auto simp: sayable_def)
  have l: "reads buf es parseline 0 {0x29} (Listcmd l r)"
    by (rule line_list) (use Listcmd.IH(1) [OF ok(1)] Listcmd.IH(2) [OF ok(2)] in auto)
  have e: "reads buf es parseexec 3 {0x7C, 0x29, 0x26, 0x3B} (Listcmd l r)" by (rule exec_block [OF _ Listcmd.prems]) (use l in auto)
  have p: "reads buf es parsepipe 2 {0x29, 0x26, 0x3B} (Listcmd l r)" by (rule pipe_exec [OF e]) simp
  have "reads_back buf es (Listcmd l r)" by (rule back_pipe [OF p]) simp
  then show ?case using p e l by simp
next
  case (Backcmd c)
  have ok: "sayable c" using Backcmd.prems by (auto simp: sayable_def)
  have b: "reads_back buf es (Backcmd c)" by (rule back_back) (use Backcmd.IH [OF ok] in auto)
  have l: "reads buf es parseline 0 {0x29} (Backcmd c)" by (rule line_back [OF b]) simp
  have e: "reads buf es parseexec 3 {0x7C, 0x29, 0x26, 0x3B} (Backcmd c)" by (rule exec_block [OF _ Backcmd.prems]) (use l in auto)
  have "reads buf es parsepipe 2 {0x29, 0x26, 0x3B} (Backcmd c)" by (rule pipe_exec [OF e]) simp
  then show ?case using b e l by simp
qed

section \<open>Properties\<close>

lemma line_str: "has_str (\<lambda>i. buf (s + i)) cs \<Longrightarrow> line buf s (s + length cs)"
  by (auto simp: has_str_def line_def) (metis add_diff_inverse_nat add_less_cancel_left not_less)

lemma cstr_has_str:
  assumes "has_str p cs" and "length cs \<le> n"
  shows "cstr n p = cs"
proof -
  have "[0..<n] = [0..<length cs] @ [length cs..<n]" using assms(2) by (metis le0 le_add_diff_inverse upt_add_eq_append)
  then have "map p [0..<n] = map p [0..<length cs] @ map p [length cs..<n]" by simp
  moreover have m: "map p [0..<length cs] = cs" using assms(1) by (intro nth_equalityI) (auto simp: has_str_def)
  moreover have "\<forall>c \<in> set cs. c \<noteq> 0" using assms(1) by (auto simp: has_str_def in_set_conv_nth)
  moreover have "takeWhile (\<lambda>c. c \<noteq> 0) (map p [length cs..<n]) = []"
    using assms(1) by (cases "length cs < n") (auto simp: has_str_def upt_conv_Cons)
  ultimately show ?thesis by (simp add: cstr_def takeWhile_append2)
qed

lemma str_text: "has_str (\<lambda>i. buf (s + i)) cs \<Longrightarrow> map buf [s..<s + length cs] = cs"
  by (rule nth_equalityI) (simp_all add: has_str_def)

text \<open>What \<open>parsecmd\<close> does with a line, from the result of \<open>parseline\<close>.\<close>

lemma parsecmd_line:
  assumes "has_str (\<lambda>i. buf (s + i)) cs"
  shows "parsecmd buf s = rbind (parseline (4 * length cs + 4) buf (s + length cs) s) (\<lambda>(cmd, s1).
    if skip_space buf (s + length cs) s1 \<noteq> s + length cs then Inl (Panic ''syntax'') else Inr (cmd, nulterminate cmd buf))"
  using strlen_str [OF assms] by (simp add: parsecmd_def peek_def Let_def)

lemma parseline_enough:
  assumes "line buf s es" and "4 * (es - s) + 4 \<le> n"
  shows "good buf s s es (parseline (4 * (es - s) + 4) buf es s)" "parseline n buf es s = parseline (4 * (es - s) + 4) buf es s"
proof -
  show g: "good buf s s es (parseline (4 * (es - s) + 4) buf es s)" by (rule parser_good(1) [OF assms(1)]) simp_all
  have "fuel_le (parseline (4 * (es - s) + 4) buf es s) (parseline n buf es s)"
    by (rule fuel_mono [where f = "\<lambda>n. parseline n buf es s", OF _ assms(2)]) (use parser_le in blast)
  then show "parseline n buf es s = parseline (4 * (es - s) + 4) buf es s"
    by (rule good_enough [where f = "\<lambda>n. parseline n buf es s", OF g])
qed

lemma parse_show_ok:
  assumes "sayable c" and "has_str (\<lambda>i. buf (s + i)) (show_cmd c 0)"
  shows "\<exists>c' b. parsecmd buf s = Inr (c', b) \<and> map_strs (\<lambda>w. cstr (length (show_cmd c 0)) (\<lambda>i. b (fst w + i))) c' = c"
proof -
  let ?l = "length (show_cmd c 0)" and ?es = "s + length (show_cmd c 0)"
  note l = line_str [OF assms(2)]
  have "rest buf ?es s = tokens (show_cmd c 0 @ [])" by (simp add: rest_def str_text [OF assms(2)])
  also have "\<dots> = toks_cmd c 0 @ []" by (subst tokens_show) (use assms(1) in \<open>auto simp: sayable_def\<close>)
  finally have "at buf ?es s (toks_cmd c 0 @ [])" using l by (simp add: at_def)
  moreover have "follow {0x29} []" by (simp add: follow_def)
  ultimately obtain c' s' where c: "ends_with (\<lambda>n. parseline n buf ?es s) (Inr (c', s'))" "view_cmd buf c' = c" "at buf ?es s' []"
    using readsD [OF conjunct1 [OF parse_printed [OF assms(1), of buf ?es]]] by blast
  then obtain N where N: "\<forall>n \<ge> N. parseline n buf ?es s = Inr (c', s')" by (auto simp: ends_with_def)
  have "parseline (max N (4 * ?l + 4)) buf ?es s = parseline (4 * ?l + 4) buf ?es s" using parseline_enough(2) [OF l, of "max N (4 * ?l + 4)"] by simp
  then have p: "parseline (4 * ?l + 4) buf ?es s = Inr (c', s')" using N by simp
  have l': "line buf s' ?es" "rest buf ?es s' = []" using c(3) by (simp_all add: at_def)
  have "skip_space buf ?es s' = ?es" by (cases rule: rest_cases [OF l'(1), case_names e s a w]) (use l'(2) in auto)
  then have pc: "parsecmd buf s = Inr (c', nulterminate c' buf)" using parsecmd_line [OF assms(2)] p by simp
  have g: "\<forall>w \<in> strs c'. word_at_span buf s ?es w" using parseline_enough(1) [OF l order_refl] p by (simp add: words_ok_def)
  have "cstr ?l (\<lambda>i. nulterminate c' buf (fst w + i)) = map buf [fst w..<snd w]" if "w \<in> strs c'" for w
    by (rule cstr_has_str [OF nulterminate_words [OF g that l]]) (use g that in \<open>auto simp: word_at_span_def\<close>)
  then have "map_strs (\<lambda>w. cstr ?l (\<lambda>i. nulterminate c' buf (fst w + i))) c' = map_strs (\<lambda>w. map buf [fst w..<snd w]) c'"
    by (intro cmd.map_cong0) blast
  then show ?thesis using pc c(2) by (auto simp: view_cmd_def)
qed

text \<open>
  C23: The parser ends on every line. For any string in the buffer \<open>parsecmd\<close> returns a command, or the
  shell exits with one of four messages; it never loops and the panic of \<open>parseblock\<close> is never
  reached. The fuel of the model plays no part in this: with more than four times the length of the line
  the result is always the same.
\<close>

theorem parsecmd_total:
  assumes "has_str (\<lambda>i. buf (s + i)) cs"
  shows "((\<exists>c b. parsecmd buf s = Inr (c, b)) \<or>
     (\<exists>m. parsecmd buf s = Inl (Panic m) \<and> m \<in> {''syntax'', ''syntax - missing )'', ''missing file for redirection'', ''too many args''})) \<and>
    (\<forall>n \<ge> 4 * length cs + 4. parseline n buf (s + length cs) s = parseline (4 * length cs + 4) buf (s + length cs) s)"
proof -
  note l = line_str [OF assms]
  have g: "good buf s s (s + length cs) (parseline (4 * length cs + 4) buf (s + length cs) s)" using parseline_enough(1) [OF l order_refl] by simp
  have "(\<exists>c b. parsecmd buf s = Inr (c, b)) \<or> (\<exists>m. parsecmd buf s = Inl (Panic m) \<and> m \<in> messages)"
  proof (cases "parseline (4 * length cs + 4) buf (s + length cs) s")
    case (Inl e)
    then show ?thesis using g parsecmd_line [OF assms] by (cases e) (simp_all add: good_def)
  next
    case (Inr x)
    then show ?thesis using parsecmd_line [OF assms] by (cases x) (auto simp: messages_def)
  qed
  moreover have "parseline n buf (s + length cs) s = parseline (4 * length cs + 4) buf (s + length cs) s" if "n \<ge> 4 * length cs + 4" for n
    using parseline_enough(2) [OF l, of n] that by simp
  ultimately show ?thesis unfolding messages_def by blast
qed

text \<open>
  C24: What \<open>parsecmd\<close> returns is a command. Every \<open>argv\<close> has room for its null pointer, redirections open
  their file for reading as descriptor 0 or for writing as descriptor 1, and every string of the command is a nonempty word
  of the line, without blanks and symbols, that in the returned buffer ends with a zero byte. The
  stores of \<open>nulterminate\<close> hit only blanks and symbols of the line.
\<close>

theorem parsecmd_types:
  assumes "has_str (\<lambda>i. buf (s + i)) cs" and "parsecmd buf s = Inr (c, b)"
  shows "args_ok c \<and>
    (\<forall>w \<in> strs c. s \<le> fst w \<and> fst w < snd w \<and> snd w \<le> s + length cs \<and> (\<forall>i \<in> {fst w..<snd w}. wordchar (buf i)) \<and>
      has_str (\<lambda>i. b (fst w + i)) (map buf [fst w..<snd w])) \<and>
    (\<forall>i. b i \<noteq> buf i \<longrightarrow> s < i \<and> i < s + length cs \<and> \<not> wordchar (buf i))"
proof -
  let ?es = "s + length cs"
  note l = line_str [OF assms(1)]
  have g: "good buf s s ?es (parseline (4 * length cs + 4) buf ?es s)" using parseline_enough(1) [OF l order_refl] by simp
  obtain s1 where p: "parseline (4 * length cs + 4) buf ?es s = Inr (c, s1)" and b: "b = nulterminate c buf"
    using assms(2) parsecmd_line [OF assms(1)] by (auto simp: rbind_eq_Inr split: if_splits)
  have w: "args_ok c" "\<forall>w \<in> strs c. word_at_span buf s ?es w" using g p by (simp_all add: words_ok_def)
  have "has_str (\<lambda>i. b (fst w + i)) (map buf [fst w..<snd w])" if "w \<in> strs c" for w
    unfolding b by (rule nulterminate_words [OF w(2) that l])
  moreover have "s < i \<and> i < ?es \<and> \<not> wordchar (buf i)" if "b i \<noteq> buf i" for i
  proof -
    from that obtain v where v: "v \<in> strs c" "i = snd v" "buf i \<noteq> 0" by (auto simp: b nulterminate_eq split: if_splits)
    moreover have "buf ?es = 0" using l by (simp add: line_def)
    ultimately show ?thesis using w(2) by (auto simp: word_at_span_def order_le_less)
  qed
  ultimately show ?thesis using w by (auto simp: word_at_span_def)
qed

text \<open>
  C22: Every command can be written, and the parser reads it. Printing any command whose words are
  nonempty and free of blanks and symbols, with parentheses where the grammar needs them, and parsing the text gives a
  command of the same shape whose C strings in the returned buffer are the words. In particular pipes and lists associate to the
  right, \<open>&\<close> binds looser than a pipe and tighter than \<open>;\<close>, and later redirections are outermost.
\<close>

theorem parse_show:
  assumes "sayable c" and "has_str (\<lambda>i. buf (s + i)) (show_cmd c 0)"
  shows "\<exists>c' b. parsecmd buf s = Inr (c', b) \<and> map_strs (\<lambda>w. cstr (length (show_cmd c 0)) (\<lambda>i. b (fst w + i))) c' = c"
  by (rule parse_show_ok [OF assms])

section \<open>A line\<close>

text \<open>The command \<open>ls|wc&;cat<f\<close>.\<close>

definition demo_cmd :: "byte list cmd" where
  "demo_cmd = Listcmd (Backcmd (Pipecmd (Execcmd [[108, 115]]) (Execcmd [[119, 99]]))) (Redircmd (Execcmd [[99, 97, 116]]) [102] O_RDONLY 0)"

lemma demo_sayable: "sayable demo_cmd"
  by (simp add: sayable_def demo_cmd_def plain_def wordchar_def whitespace_def symbols_def MAXARGS_def)

lemma demo_text: "show_cmd demo_cmd 0 = [32, 108, 115, 124, 32, 119, 99, 38, 59, 32, 99, 97, 116, 60, 102]"
  by (simp add: demo_cmd_def)

lemma demo_str: "has_str (\<lambda>i. bytes_at (show_cmd demo_cmd 0) (0 + i)) (show_cmd demo_cmd 0)"
  unfolding demo_text by (simp add: has_str_def bytes_at_def nth_Cons' split: if_splits)

theorem parsecmd_total_witness:
  "has_str (\<lambda>i. bytes_at (show_cmd demo_cmd 0) (0 + i)) (show_cmd demo_cmd 0) \<and>
   ((\<exists>c b. parsecmd (bytes_at (show_cmd demo_cmd 0)) 0 = Inr (c, b)) \<or> (\<exists>m. parsecmd (bytes_at (show_cmd demo_cmd 0)) 0 = Inl (Panic m)))"
  using parsecmd_total [OF demo_str] demo_str by blast

theorem parsecmd_types_witness:
  "\<exists>c b. parsecmd (bytes_at (show_cmd demo_cmd 0)) 0 = Inr (c, b) \<and> args_ok c \<and> (\<forall>i. b i \<noteq> bytes_at (show_cmd demo_cmd 0) i \<longrightarrow> i < 15)"
proof -
  obtain c b where c: "parsecmd (bytes_at (show_cmd demo_cmd 0)) 0 = Inr (c, b)" using parse_show_ok [OF demo_sayable demo_str] by blast
  from parsecmd_types [OF demo_str c] have "args_ok c" "\<forall>i. b i \<noteq> bytes_at (show_cmd demo_cmd 0) i \<longrightarrow> i < 0 + length (show_cmd demo_cmd 0)" by blast+
  moreover have "0 + length (show_cmd demo_cmd 0) = 15" by (simp add: demo_text)
  ultimately have "args_ok c" "\<forall>i. b i \<noteq> bytes_at (show_cmd demo_cmd 0) i \<longrightarrow> i < 15" by simp_all
  then show ?thesis using c by blast
qed

theorem parse_show_witness:
  "\<exists>c b. parsecmd (bytes_at [32, 108, 115, 124, 32, 119, 99, 38, 59, 32, 99, 97, 116, 60, 102]) 0 = Inr (c, b) \<and>
     map_strs (\<lambda>w. cstr 15 (\<lambda>i. b (fst w + i))) c = demo_cmd"
proof -
  have len: "length (show_cmd demo_cmd 0) = 15" by (simp add: demo_text)
  from parse_show [OF demo_sayable demo_str, unfolded len] show ?thesis unfolding demo_text .
qed

end
