(* ===== verification/Grep.thy ===== *)
theory Grep
  imports CString
begin

text \<open>
  The pattern matcher and the line loop of \<open>src/grep.c\<close>. A C string is the list of its bytes before
  the terminator. The matcher is compared with the language of the pattern, defined by its
  pieces; the line loop with the list of matching lines of the whole input. What \<open>read\<close> returns,
  one list of bytes per call, is the input of the loop.
\<close>

section \<open>The program\<close>

function (sequential) matchhere :: "byte list \<Rightarrow> byte list \<Rightarrow> bool"
  and matchstar :: "byte \<Rightarrow> byte list \<Rightarrow> byte list \<Rightarrow> bool" where
  "matchhere re str =
     (case re of [] \<Rightarrow> True
      | c # re1 \<Rightarrow>
        if re1 \<noteq> [] \<and> hd re1 = 0x2A then matchstar c (tl re1) str
        else if c = 0x24 \<and> re1 = [] then str = []
        else if str \<noteq> [] \<and> (c = 0x2E \<or> c = hd str) then matchhere re1 (tl str) else False)"
| "matchstar c re str =
     (if matchhere re str then True
      else if str \<noteq> [] \<and> (hd str = c \<or> c = 0x2E) then matchstar c re (tl str) else False)"
  by pat_completeness auto
termination
  by (relation "measures [\<lambda>x. case x of Inl (re, t) \<Rightarrow> 2 * length re | Inr (c, re, t) \<Rightarrow> 2 * length re + 1,
      \<lambda>x. case x of Inl (re, t) \<Rightarrow> length t | Inr (c, re, t) \<Rightarrow> length t]")
    (auto split: list.splits)

declare matchhere.simps [simp del] matchstar.simps [simp del]

text \<open>The loop of \<open>match\<close> looks at every suffix of the text, the empty one included.\<close>

fun match_from :: "byte list \<Rightarrow> byte list \<Rightarrow> bool" where
  "match_from re str = (matchhere re str \<or> (case str of [] \<Rightarrow> False | _ # t \<Rightarrow> match_from re t))"

declare match_from.simps [simp del]

definition match :: "byte list \<Rightarrow> byte list \<Rightarrow> bool" where
  "match re str = (if re \<noteq> [] \<and> hd re = 0x5E then matchhere (tl re) str else match_from re str)"

text \<open>
  The inner loop of \<open>grep\<close> on the texting at \<open>p\<close>: \<open>strchr(p, '\n')\<close> stops at a zero byte. The result is
  what is written to the output, and the bytes from the final \<open>p\<close> on.
\<close>

function grep_lines :: "byte list \<Rightarrow> byte list \<Rightarrow> byte list \<times> byte list" where
  "grep_lines pattern b =
     (let line = takeWhile (\<lambda>c. c \<noteq> 10 \<and> c \<noteq> 0) b; rest = drop (length line) b in
      if rest \<noteq> [] \<and> hd rest = 10 then
        let (out, p) = grep_lines pattern (tl rest)
        in ((if match pattern line then line @ [10] else []) @ out, p)
      else ([], b))"
  by pat_completeness auto
termination
  by (relation "measure (\<lambda>(pattern, b). length b)") (auto simp: Let_def)

declare grep_lines.simps [simp del]

text \<open>
  The loop over \<open>read\<close>; \<open>pend\<close> is \<open>buf[0..m-1]\<close>. A call asks for \<open>sizeof(buf) - m - 1\<close> bytes and the loop
  ends when it gets none. If no line was completed, \<open>p == buf\<close>, the buffer is emptied.
\<close>

fun grep_from :: "byte list \<Rightarrow> byte list \<Rightarrow> byte list list \<Rightarrow> byte list" where
  "grep_from pattern pend [] = []"
| "grep_from pattern pend (chunk # chunks) =
     (let chunk = take (1024 - length pend - 1) chunk in
      if chunk = [] then []
      else
        let buf = pend @ chunk; (out, p) = grep_lines pattern buf
        in out @ grep_from pattern (if length p = length buf then [] else p) chunks)"

definition grep :: "byte list \<Rightarrow> byte list list \<Rightarrow> byte list" where
  "grep pattern chunks = grep_from pattern [] chunks"

section \<open>The language of a pattern\<close>

text \<open>A pattern is a list of pieces, one character class or any number of it, and an end anchor.\<close>

datatype piece = One byte | Many byte

definition in_class :: "byte \<Rightarrow> byte \<Rightarrow> bool" where
  "in_class c x \<longleftrightarrow> c = 0x2E \<or> x = c"

fun pieces :: "byte list \<Rightarrow> piece list \<times> bool" where
  "pieces [] = ([], False)"
| "pieces [c] = (if c = 0x24 then ([], True) else ([One c], False))"
| "pieces (c # d # re) =
     (if d = 0x2A then let (ps, e) = pieces re in (Many c # ps, e)
      else let (ps, e) = pieces (d # re) in (One c # ps, e))"

fun language :: "piece list \<Rightarrow> byte list set" where
  "language [] = {[]}"
| "language (One c # ps) = {x # w | x w. in_class c x \<and> w \<in> language ps}"
| "language (Many c # ps) = {u @ w | u w. (\<forall>x \<in> set u. in_class c x) \<and> w \<in> language ps}"

text \<open>
  The text starts with a word of the pieces, and ends there if \<open>e\<close> is set; the pattern matches at the
  beginning of the text.
\<close>

definition starts :: "piece list \<Rightarrow> bool \<Rightarrow> byte list \<Rightarrow> bool" where
  "starts ps e str \<longleftrightarrow> (\<exists>u v. str = u @ v \<and> u \<in> language ps \<and> (e \<longrightarrow> v = []))"

definition prefix_matches :: "byte list \<Rightarrow> byte list \<Rightarrow> bool" where
  "prefix_matches re str \<longleftrightarrow> starts (fst (pieces re)) (snd (pieces re)) str"

lemma starts_Nil: "starts [] e str \<longleftrightarrow> (e \<longrightarrow> str = [])"
  by (simp add: starts_def)

lemma starts_One:
  "starts (One c # ps) e str \<longleftrightarrow> str \<noteq> [] \<and> in_class c (hd str) \<and> starts ps e (tl str)"
  by (cases str) (auto simp: starts_def Cons_eq_append_conv)

lemma language_Many:
  "\<forall>x \<in> set u. in_class c x \<Longrightarrow> w \<in> language ps \<Longrightarrow> u @ w \<in> language (Many c # ps)"
  by auto

lemma starts_Many:
  "starts (Many c # ps) e str \<longleftrightarrow>
    starts ps e str \<or> str \<noteq> [] \<and> in_class c (hd str) \<and> starts (Many c # ps) e (tl str)"
proof
  assume "starts (Many c # ps) e str"
  then obtain u v where u: "str = u @ v" "u \<in> language (Many c # ps)" "e \<longrightarrow> v = []"
    unfolding starts_def by blast
  then obtain a w where t: "u = a @ w" "\<forall>x \<in> set a. in_class c x" "w \<in> language ps" by auto
  show "starts ps e str \<or> str \<noteq> [] \<and> in_class c (hd str) \<and> starts (Many c # ps) e (tl str)"
  proof (cases a)
    case Nil
    then have "starts ps e str" unfolding starts_def using u t by auto
    then show ?thesis ..
  next
    case (Cons x a')
    then have "a' @ w \<in> language (Many c # ps)" using t by auto
    moreover have "tl str = (a' @ w) @ v" using Cons u t by simp
    ultimately have "starts (Many c # ps) e (tl str)" unfolding starts_def using u(3) by blast
    then show ?thesis using Cons u t by simp
  qed
next
  assume "starts ps e str \<or> str \<noteq> [] \<and> in_class c (hd str) \<and> starts (Many c # ps) e (tl str)"
  then show "starts (Many c # ps) e str"
  proof
    assume "starts ps e str"
    then obtain u v where u: "str = u @ v" "u \<in> language ps" "e \<longrightarrow> v = []" unfolding starts_def by blast
    have "[] @ u \<in> language (Many c # ps)" using u(2) by (intro language_Many) simp_all
    then show ?thesis unfolding starts_def using u by auto
  next
    assume a: "str \<noteq> [] \<and> in_class c (hd str) \<and> starts (Many c # ps) e (tl str)"
    then obtain u v where u: "tl str = u @ v" "u \<in> language (Many c # ps)" "e \<longrightarrow> v = []"
      unfolding starts_def by blast
    then obtain a' w where t: "u = a' @ w" "\<forall>x \<in> set a'. in_class c x" "w \<in> language ps" by auto
    have "(hd str # a') @ w \<in> language (Many c # ps)" using t a by (intro language_Many) simp_all
    moreover have "str = ((hd str # a') @ w) @ v" using a u t by (cases str) auto
    ultimately show ?thesis unfolding starts_def using u(3) by blast
  qed
qed

lemma matcher_correct:
  "matchhere re str \<longleftrightarrow> prefix_matches re str"
  "matchstar c re str \<longleftrightarrow> starts (Many c # fst (pieces re)) (snd (pieces re)) str"
proof (induction re str and c re str rule: matchhere_matchstar.induct)
  case (1 re str)
  show ?case
  proof (cases re)
    case Nil
    then show ?thesis unfolding matchhere.simps [of re str] by (simp add: prefix_matches_def starts_Nil)
  next
    case (Cons c re1)
    note re = Cons
    show ?thesis
    proof (cases re1)
      case Nil
      then show ?thesis unfolding matchhere.simps [of re str] using re 1(2) [OF re]
        by (auto simp: prefix_matches_def starts_Nil starts_One in_class_def)
    next
      case (Cons d re2)
      show ?thesis
      proof (cases "d = 0x2A")
        case True
        have "matchstar c re2 str \<longleftrightarrow> starts (Many c # fst (pieces re2)) (snd (pieces re2)) str"
          using 1(1) [OF re] Cons True by simp
        then show ?thesis unfolding matchhere.simps [of re str] using re Cons True
          by (simp add: prefix_matches_def case_prod_unfold Let_def)
      next
        case False
        have p: "prefix_matches re str \<longleftrightarrow> str \<noteq> [] \<and> in_class c (hd str) \<and> prefix_matches re1 (tl str)"
          using re Cons False by (simp add: prefix_matches_def case_prod_unfold Let_def starts_One)
        have ih: "matchhere re1 (tl str) \<longleftrightarrow> prefix_matches re1 (tl str)" if "str \<noteq> []" "in_class c (hd str)"
          using 1(2) [OF re] Cons False that by (auto simp: in_class_def)
        have "matchhere re str \<longleftrightarrow> str \<noteq> [] \<and> in_class c (hd str) \<and> matchhere re1 (tl str)"
          unfolding matchhere.simps [of re str] using re Cons False by (auto simp: in_class_def)
        then show ?thesis unfolding p using ih by blast
      qed
    qed
  qed
next
  case (2 c re str)
  have s: "starts (Many c # fst (pieces re)) (snd (pieces re)) str \<longleftrightarrow> prefix_matches re str \<or>
      str \<noteq> [] \<and> in_class c (hd str) \<and> starts (Many c # fst (pieces re)) (snd (pieces re)) (tl str)"
    unfolding prefix_matches_def by (rule starts_Many)
  have m: "matchstar c re str \<longleftrightarrow> matchhere re str \<or> str \<noteq> [] \<and> in_class c (hd str) \<and> matchstar c re (tl str)"
    unfolding matchstar.simps [of c re str] by (auto simp: in_class_def)
  have ih: "matchstar c re (tl str) \<longleftrightarrow> starts (Many c # fst (pieces re)) (snd (pieces re)) (tl str)"
    if "\<not> matchhere re str" "str \<noteq> []" "in_class c (hd str)"
    using 2(2) that by (auto simp: in_class_def)
  show ?case unfolding s m using 2(1) ih by blast
qed

lemma match_from_suffix: "match_from re str \<longleftrightarrow> (\<exists>a b. str = a @ b \<and> matchhere re b)"
proof (induction str)
  case Nil
  then show ?case by (simp add: match_from.simps)
next
  case (Cons x str)
  have "(\<exists>a b. x # str = a @ b \<and> matchhere re b) \<longleftrightarrow> matchhere re (x # str) \<or> (\<exists>a b. str = a @ b \<and> matchhere re b)"
    by (auto simp: Cons_eq_append_conv)
  then show ?case using Cons by (simp add: match_from.simps [of re "x # str"])
qed

text \<open>
  C25: The matcher of \<open>grep\<close> decides the language of the pattern. \<open>match\<close> accepts a line exactly if some
  part of it is a word of the pattern's pieces, at the beginning of the line if the pattern starts
  with \<open>^\<close>, and up to its end if the pattern ends with \<open>$\<close>.
\<close>

theorem match_language:
  "match re str \<longleftrightarrow>
    (if re \<noteq> [] \<and> hd re = 0x5E then prefix_matches (tl re) str
     else (\<exists>a b. str = a @ b \<and> prefix_matches re b))"
  by (simp add: match_def match_from_suffix matcher_correct)

section \<open>Lines\<close>

text \<open>The complete lines of the input, and what is written for them.\<close>

function complete_lines :: "byte list \<Rightarrow> byte list list \<times> byte list" where
  "complete_lines b =
     (if 10 \<in> set b then
        let line = takeWhile (\<lambda>c. c \<noteq> 10) b; (ls, r) = complete_lines (tl (dropWhile (\<lambda>c. c \<noteq> 10) b))
        in (line # ls, r)
      else ([], b))"
  by pat_completeness auto
termination
proof (relation "measure length")
  fix b :: "byte list"
  assume "10 \<in> set b"
  then have "dropWhile (\<lambda>c. c \<noteq> 10) b \<noteq> []" by (auto simp: dropWhile_eq_Nil_conv)
  moreover have "length (dropWhile (\<lambda>c. c \<noteq> 10) b) \<le> length b" by (rule length_dropWhile_le)
  ultimately have "length (tl (dropWhile (\<lambda>c. c \<noteq> 10) b)) < length b"
    by (cases "dropWhile (\<lambda>c. c \<noteq> 10) b") auto
  then show "(tl (dropWhile (\<lambda>c. c \<noteq> 10) b), b) \<in> measure length" by simp
qed simp

declare complete_lines.simps [simp del]

definition matching :: "byte list \<Rightarrow> byte list list \<Rightarrow> byte list" where
  "matching pattern ls = concat (map (\<lambda>l. l @ [10]) (filter (match pattern) ls))"

lemma complete_lines_append:
  "complete_lines (b @ c) =
    (let (ls, r) = complete_lines b; (ls', r') = complete_lines (r @ c) in (ls @ ls', r'))"
proof (induction b rule: complete_lines.induct)
  case (1 b)
  show ?case
  proof (cases "10 \<in> set b")
    case True
    let ?d = "dropWhile (\<lambda>c. c \<noteq> 10) b"
    have ne: "?d \<noteq> []" using True by (auto simp: dropWhile_eq_Nil_conv)
    have e: "takeWhile (\<lambda>c. c \<noteq> 10) (b @ c) = takeWhile (\<lambda>c. c \<noteq> 10) b"
      "tl (dropWhile (\<lambda>c. c \<noteq> 10) (b @ c)) = tl ?d @ c"
      using True ne by (auto simp: takeWhile_append dropWhile_append)
    show ?thesis
      using True 1 [OF True refl]
      by (simp add: complete_lines.simps [of "b @ c"] complete_lines.simps [of b] e case_prod_unfold Let_def)
  next
    case False
    then show ?thesis by (simp add: complete_lines.simps [of b] case_prod_unfold Let_def)
  qed
qed

lemma complete_lines_rest: "10 \<notin> set (snd (complete_lines b))"
proof (induction b rule: complete_lines.induct)
  case (1 b)
  then show ?case by (subst complete_lines.simps) (simp add: case_prod_unfold Let_def)
qed

lemma set_tl_dropWhile: "set (tl (dropWhile P b)) \<subseteq> set b"
proof -
  have "set (tl xs) \<subseteq> set xs" for xs :: "'a list" by (cases xs) auto
  then show ?thesis using set_dropWhileD by fast
qed

lemma grep_lines_spec:
  "0 \<notin> set b \<Longrightarrow> grep_lines pattern b = (matching pattern (fst (complete_lines b)), snd (complete_lines b))"
proof (induction pattern b rule: grep_lines.induct)
  case (1 pattern b)
  have tw: "takeWhile (\<lambda>c. c \<noteq> 10 \<and> c \<noteq> 0) b = takeWhile (\<lambda>c. c \<noteq> 10) b"
    using "1.prems" by (intro takeWhile_cong) auto
  have dr: "drop (length (takeWhile (\<lambda>c. c \<noteq> 10) b)) b = dropWhile (\<lambda>c. c \<noteq> 10) b"
    by (simp add: dropWhile_eq_drop)
  show ?case
  proof (cases "10 \<in> set b")
    case True
    let ?d = "dropWhile (\<lambda>c. c \<noteq> 10) b"
    have d: "?d \<noteq> []" using True by (auto simp: dropWhile_eq_Nil_conv)
    then have h: "hd ?d = 10" using hd_dropWhile [OF d] by simp
    have "set (tl ?d) \<subseteq> set b" by (rule set_tl_dropWhile)
    then have "0 \<notin> set (tl ?d)" using "1.prems" by blast
    then have "grep_lines pattern (tl ?d) =
        (matching pattern (fst (complete_lines (tl ?d))), snd (complete_lines (tl ?d)))"
      using "1.IH" [OF refl refl] d h unfolding tw dr by simp
    then show ?thesis using True d h
      unfolding grep_lines.simps [of pattern b] complete_lines.simps [of b] Let_def tw dr
      by (simp add: matching_def case_prod_unfold)
  next
    case False
    then have "dropWhile (\<lambda>c. c \<noteq> 10) b = []" by (auto simp: dropWhile_eq_Nil_conv)
    then show ?thesis using False
      unfolding grep_lines.simps [of pattern b] complete_lines.simps [of b] Let_def tw dr
      by (simp add: matching_def)
  qed
qed

lemma complete_lines_some: "10 \<in> set b \<Longrightarrow> length (snd (complete_lines b)) < length b"
proof (induction b rule: complete_lines.induct)
  case (1 b)
  let ?d = "dropWhile (\<lambda>c. c \<noteq> 10) b"
  have d: "?d \<noteq> []" using "1.prems" by (auto simp: dropWhile_eq_Nil_conv)
  have l: "length (tl ?d) < length b"
    using d length_dropWhile_le [of "\<lambda>c. c \<noteq> 10" b] by (cases ?d) auto
  have "length (snd (complete_lines (tl ?d))) \<le> length (tl ?d)"
    using "1.IH" [OF "1.prems" refl] complete_lines.simps [of "tl ?d"] by (cases "10 \<in> set (tl ?d)") auto
  then show ?case using l "1.prems" by (subst complete_lines.simps) (simp add: case_prod_unfold Let_def)
qed

lemma complete_lines_sub: "set (snd (complete_lines b)) \<subseteq> set b"
proof (induction b rule: complete_lines.induct)
  case (1 b)
  let ?d = "dropWhile (\<lambda>c. c \<noteq> 10) b"
  have "set (tl ?d) \<subseteq> set b" by (rule set_tl_dropWhile)
  then show ?case using 1 by (subst complete_lines.simps) (auto simp: case_prod_unfold Let_def)
qed

lemma complete_lines_none: "10 \<notin> set b \<Longrightarrow> complete_lines b = ([], b)"
  by (subst complete_lines.simps) simp

lemma grep_from_spec:
  assumes "\<forall>chunk \<in> set chunks. 10 \<in> set chunk \<and> 0 \<notin> set chunk" and "10 \<notin> set pend" and "0 \<notin> set pend"
    and "\<forall>k < length chunks. length (snd (complete_lines (pend @ concat (take k chunks)))) + length (chunks ! k) < 1024"
  shows "grep_from pattern pend (chunks @ more) = matching pattern (fst (complete_lines (pend @ concat chunks))) @
    grep_from pattern (snd (complete_lines (pend @ concat chunks))) more"
  using assms
proof (induction chunks arbitrary: pend)
  case Nil
  then show ?case by (simp add: complete_lines_none matching_def)
next
  case (Cons ch chunks)
  let ?b = "pend @ ch"
  have "length pend + length ch < 1024"
    using Cons.prems(4) [rule_format, of 0] complete_lines_none [OF Cons.prems(2)] by simp
  then have t: "take (1024 - length pend - 1) ch = ch" by simp
  have ne: "ch \<noteq> []" and nl: "10 \<in> set ?b" and z: "0 \<notin> set ?b" using Cons.prems(1,3) by auto
  note g = grep_lines_spec [OF z, of pattern]
  let ?r = "snd (complete_lines ?b)"
  have sz: "length ?r \<noteq> length ?b" using complete_lines_some [OF nl] by simp
  have app: "complete_lines (?b @ c) = (fst (complete_lines ?b) @ fst (complete_lines (?r @ c)), snd (complete_lines (?r @ c)))" for c
    using complete_lines_append [of ?b c] by (simp add: case_prod_unfold Let_def)
  have sub: "set ?r \<subseteq> set ?b"
    by (rule complete_lines_sub)
  have "grep_from pattern ?r (chunks @ more) = matching pattern (fst (complete_lines (?r @ concat chunks))) @
      grep_from pattern (snd (complete_lines (?r @ concat chunks))) more"
  proof (rule Cons.IH)
    show "\<forall>chunk \<in> set chunks. 10 \<in> set chunk \<and> 0 \<notin> set chunk" using Cons.prems(1) by simp
    show "10 \<notin> set ?r" by (rule complete_lines_rest)
    show "0 \<notin> set ?r" using sub z by blast
    show "\<forall>k < length chunks. length (snd (complete_lines (?r @ concat (take k chunks)))) + length (chunks ! k) < 1024"
    proof (intro allI impI)
      fix k assume "k < length chunks"
      then show "length (snd (complete_lines (?r @ concat (take k chunks)))) + length (chunks ! k) < 1024"
        using Cons.prems(4) [rule_format, of "Suc k"] app [of "concat (take k chunks)"] by simp
    qed
  qed
  then show ?case using ne sz app [of "concat chunks"] t
    by (simp add: g Let_def matching_def)
qed

text \<open>
  C26: \<open>grep\<close> prints the matching lines. If the input has no zero bytes, every \<open>read\<close> brings the end of
  at least one line, and no line overfills the buffer, then the output is exactly the complete lines
  of the input that match, in order.
\<close>

theorem grep_matching_lines:
  assumes "\<forall>chunk \<in> set chunks. 10 \<in> set chunk \<and> 0 \<notin> set chunk"
    and "\<forall>k < length chunks. length (snd (complete_lines (concat (take k chunks)))) + length (chunks ! k) < 1024"
  shows "grep pattern chunks = matching pattern (fst (complete_lines (concat chunks)))"
  using grep_from_spec [of chunks "[]" pattern "[]"] assms by (simp add: grep_def)

lemma grep_from_partial:
  assumes "a \<noteq> []" "10 \<notin> set (r @ a)" "0 \<notin> set (r @ a)" "length (r @ a) < 1024"
  shows "grep_from pattern r (a # more) = grep_from pattern [] more"
proof -
  have "take (1024 - length r - 1) a = a" using assms(4) by simp
  moreover have "grep_lines pattern (r @ a) = ([], r @ a)"
    using grep_lines_spec [OF assms(3)] complete_lines_none [OF assms(2)] by (simp add: matching_def)
  ultimately show ?thesis using assms(1) by (simp add: Let_def)
qed

lemma complete_lines_one: "10 \<notin> set b \<Longrightarrow> complete_lines (b @ [10]) = ([b], [])"
  using complete_lines.simps [of "b @ [10]"] complete_lines_none [of "[]"]
  by (simp add: takeWhile_append dropWhile_append Let_def)

text \<open>
  \<open>grep\<close> loses the beginning of a line when a \<open>read\<close> ends within it and brings no end of a line. After any reads as in
  the theorem before, let the end of the last one be the start \<open>r\<close> of a line, let the next \<open>read\<close> bring only a further
  part \<open>a\<close> of it and the one after that its rest \<open>b\<close>. The line of the input is \<open>r @ a @ b\<close>; \<open>grep\<close> prints what it
  would print if the line were \<open>b\<close>, so a line that matches is lost when its rest alone does not match.
\<close>

lemma grep_drops_split_line:
  assumes "\<forall>chunk \<in> set chunks. 10 \<in> set chunk \<and> 0 \<notin> set chunk"
    and "\<forall>k < length chunks. length (snd (complete_lines (concat (take k chunks)))) + length (chunks ! k) < 1024"
    and "r = snd (complete_lines (concat chunks))" and "a \<noteq> []" and "10 \<notin> set (a @ b)" and "0 \<notin> set (a @ b)"
    and "length (r @ a) < 1024" and "length b < 1023"
  shows "fst (complete_lines (concat (chunks @ [a, b @ [10]]))) = fst (complete_lines (concat chunks)) @ [r @ a @ b] \<and>
    grep pattern (chunks @ [a, b @ [10]]) = matching pattern (fst (complete_lines (concat chunks)) @ [b])"
proof
  have r10: "10 \<notin> set r" unfolding assms(3) by (rule complete_lines_rest)
  have "set r \<subseteq> set (concat chunks)" unfolding assms(3) by (rule complete_lines_sub)
  then have r0: "0 \<notin> set r" using assms(1) by auto
  have "complete_lines (r @ a @ b @ [10]) = ([r @ a @ b], [])"
    using complete_lines_one [of "r @ a @ b"] r10 assms(5) by simp
  then show "fst (complete_lines (concat (chunks @ [a, b @ [10]]))) = fst (complete_lines (concat chunks)) @ [r @ a @ b]"
    using complete_lines_append [of "concat chunks" "a @ b @ [10]"] by (simp add: assms(3) case_prod_unfold Let_def)
  have "grep pattern (chunks @ [a, b @ [10]]) =
      matching pattern (fst (complete_lines (concat chunks))) @ grep_from pattern r [a, b @ [10]]"
    using grep_from_spec [of chunks "[]" pattern "[a, b @ [10]]"] assms(1-3) by (simp add: grep_def)
  also have "grep_from pattern r [a, b @ [10]] = grep_from pattern [] [b @ [10]]"
    by (rule grep_from_partial) (use assms(4-7) r10 r0 in auto)
  also have "\<dots> = matching pattern [b]"
    using grep_from_spec [of "[b @ [10]]" "[]" pattern "[]"] complete_lines_one [of b] complete_lines_none [of "[]"] assms(5,6,8)
    by simp
  finally show "grep pattern (chunks @ [a, b @ [10]]) = matching pattern (fst (complete_lines (concat chunks)) @ [b])"
    by (simp add: matching_def)
qed

lemma split_line_lost:
  "fst (complete_lines (concat [[0x61], [0x62] @ [10]])) = [[0x61, 0x62]] \<and> match [0x61, 0x62] [0x61, 0x62] \<and>
    grep [0x61, 0x62] [[0x61], [0x62] @ [10]] = []"
proof -
  have e: "complete_lines [] = ([], [])" by (rule complete_lines_none) simp
  have "\<not> match [0x61, 0x62] [0x62]" "match [0x61, 0x62] [0x61, 0x62]" by code_simp+
  then show ?thesis
    using grep_drops_split_line [of "[]" "[]" "[0x61]" "[0x62]" "[0x61, 0x62]"] by (simp add: e matching_def)
qed

theorem grep_matching_lines_witness:
  "grep [0x61, 0x62] [[0x61, 0x62, 10, 0x63], [0x64, 10]] = [0x61, 0x62, 10]"
proof -
  have "\<forall>chunk \<in> set [[0x61, 0x62, 10, 0x63], [0x64, 10 :: byte]]. 10 \<in> set chunk \<and> 0 \<notin> set chunk"
    by code_simp
  moreover have "\<forall>k < length [[0x61, 0x62, 10, 0x63], [0x64, 10 :: byte]].
      length (snd (complete_lines (concat (take k [[0x61, 0x62, 10, 0x63], [0x64, 10]])))) +
      length ([[0x61, 0x62, 10, 0x63], [0x64, 10 :: byte]] ! k) < 1024"
    by code_simp
  ultimately have "grep [0x61, 0x62] [[0x61, 0x62, 10, 0x63], [0x64, 10]] =
      matching [0x61, 0x62] (fst (complete_lines (concat [[0x61, 0x62, 10, 0x63], [0x64, 10]])))"
    by (rule grep_matching_lines)
  also have "\<dots> = [0x61, 0x62, 10]" by code_simp
  finally show ?thesis .
qed

end
