(* ===== verification/Print.thy ===== *)
theory Print
  imports CString
begin

text \<open>
  Formatted output: \<open>printint\<close> and \<open>cprintf\<close> of the kernel (\<open>src/console.c\<close>), \<open>printint\<close> and \<open>printf\<close> of the
  user library (\<open>src/printf.c\<close>). The result is the sequence of characters passed to \<open>consputc\<close> or
  \<open>putc\<close>. \<open>ap k\<close> is the \<open>k\<close>-th word after the format on the stack; \<open>m\<close> is the memory that a \<open>%s\<close>
  argument points into, and \<open>None\<close> is the result of a string that has no end. The theorems show that
  \<open>atoi\<close> reads back what \<open>printint\<close> wrote, that its buffer is large enough, and that the two
  formatters agree.
\<close>

section \<open>Integers\<close>

text \<open>The loop that fills \<open>buf\<close>, the lowest digit first; \<open>base\<close> is 10 or 16.\<close>

function print_digits :: "(nat \<Rightarrow> byte) \<Rightarrow> nat \<Rightarrow> nat \<Rightarrow> byte list" where
  "print_digits digits base x =
     digits (x mod base) # (if base > 1 \<and> x div base \<noteq> 0 then print_digits digits base (x div base) else [])"
  by pat_completeness auto
termination
  by (relation "measure (\<lambda>(digits, base, x). x)") (auto simp: div_greater_zero_iff intro!: div_less_dividend)

declare print_digits.simps [simp del]

definition lower_digits :: "nat \<Rightarrow> byte" where
  "lower_digits d = word_of_nat (if d < 10 then 48 + d else 87 + d)"

definition upper_digits :: "nat \<Rightarrow> byte" where
  "upper_digits d = word_of_nat (if d < 10 then 48 + d else 55 + d)"

text \<open>
  \<open>printint(xx, base, sign)\<close> of the kernel and \<open>printint(fd, xx, base, sgn)\<close> of the library: the
  contents of \<open>buf\<close>, and the characters printed, from its end.
\<close>

definition printint_buf :: "32 word \<Rightarrow> nat \<Rightarrow> bool \<Rightarrow> byte list" where
  "printint_buf xx base sign =
     (let neg = sign \<and> sint xx < 0; x = (if neg then - xx else xx) in
      print_digits lower_digits base (unat x) @ (if neg then [0x2D] else []))"

definition printint :: "32 word \<Rightarrow> nat \<Rightarrow> bool \<Rightarrow> byte list" where
  "printint xx base sign = rev (printint_buf xx base sign)"

definition uprintint_buf :: "32 word \<Rightarrow> nat \<Rightarrow> bool \<Rightarrow> byte list" where
  "uprintint_buf xx base sgnd =
     (let neg = sgnd \<and> sint xx < 0; x = (if neg then - xx else xx) in
      print_digits upper_digits base (unat x) @ (if neg then [0x2D] else []))"

definition uprintint :: "32 word \<Rightarrow> nat \<Rightarrow> bool \<Rightarrow> byte list" where
  "uprintint xx base sgnd = rev (uprintint_buf xx base sgnd)"

section \<open>Formats\<close>

definition null_str :: "byte list" where
  "null_str = [0x28, 0x6E, 0x75, 0x6C, 0x6C, 0x29]"

text \<open>The characters that \<open>%s\<close> prints for the pointer \<open>p\<close>.\<close>

definition print_str :: "mem \<Rightarrow> 32 word \<Rightarrow> byte list option" where
  "print_str m p =
     (if p = 0 then Some null_str
      else map_option (\<lambda>n. map (\<lambda>i. m (unat p + i)) [0..<n]) (strlen (\<lambda>i. m (unat p + i))))"

fun cprintf_from :: "mem \<Rightarrow> (nat \<Rightarrow> 32 word) \<Rightarrow> nat \<Rightarrow> byte list \<Rightarrow> byte list option" where
  "cprintf_from m ap k [] = Some []"
| "cprintf_from m ap k (c # fmt) =
     (if c \<noteq> 0x25 then map_option (\<lambda>out. c # out) (cprintf_from m ap k fmt)
      else case fmt of [] \<Rightarrow> Some []
      | c # fmt \<Rightarrow>
        if c = 0x64 then map_option (\<lambda>out. printint (ap k) 10 True @ out) (cprintf_from m ap (k + 1) fmt)
        else if c = 0x78 \<or> c = 0x70
          then map_option (\<lambda>out. printint (ap k) 16 False @ out) (cprintf_from m ap (k + 1) fmt)
        else if c = 0x73
          then (case print_str m (ap k) of None \<Rightarrow> None
                | Some s \<Rightarrow> map_option (\<lambda>out. s @ out) (cprintf_from m ap (k + 1) fmt))
        else if c = 0x25 then map_option (\<lambda>out. 0x25 # out) (cprintf_from m ap k fmt)
        else map_option (\<lambda>out. 0x25 # c # out) (cprintf_from m ap k fmt))"

definition cprintf :: "mem \<Rightarrow> (nat \<Rightarrow> 32 word) \<Rightarrow> byte list \<Rightarrow> byte list option" where
  "cprintf m ap fmt = cprintf_from m ap 0 fmt"

text \<open>\<open>printf\<close> remembers a \<open>%\<close> in \<open>state\<close>.\<close>

fun printf_from :: "mem \<Rightarrow> (nat \<Rightarrow> 32 word) \<Rightarrow> nat \<Rightarrow> bool \<Rightarrow> byte list \<Rightarrow> byte list option" where
  "printf_from m ap k state [] = Some []"
| "printf_from m ap k state (c # fmt) =
     (if \<not> state then
        if c = 0x25 then printf_from m ap k True fmt
        else map_option (\<lambda>out. c # out) (printf_from m ap k False fmt)
      else
        if c = 0x64 then map_option (\<lambda>out. uprintint (ap k) 10 True @ out) (printf_from m ap (k + 1) False fmt)
        else if c = 0x78 \<or> c = 0x70
          then map_option (\<lambda>out. uprintint (ap k) 16 False @ out) (printf_from m ap (k + 1) False fmt)
        else if c = 0x73
          then (case print_str m (ap k) of None \<Rightarrow> None
                | Some s \<Rightarrow> map_option (\<lambda>out. s @ out) (printf_from m ap (k + 1) False fmt))
        else if c = 0x63
          then map_option (\<lambda>out. ucast (ap k) # out) (printf_from m ap (k + 1) False fmt)
        else if c = 0x25 then map_option (\<lambda>out. c # out) (printf_from m ap k False fmt)
        else map_option (\<lambda>out. 0x25 # c # out) (printf_from m ap k False fmt))"

definition printf :: "mem \<Rightarrow> (nat \<Rightarrow> 32 word) \<Rightarrow> byte list \<Rightarrow> byte list option" where
  "printf m ap fmt = printf_from m ap 0 False fmt"

section \<open>Digits\<close>

lemma print_digits_length:
  "1 < base \<Longrightarrow> x < base ^ n \<Longrightarrow> 0 < n \<Longrightarrow> length (print_digits digits base x) \<le> n"
proof (induction n arbitrary: x)
  case (Suc n)
  show ?case
  proof (cases "x div base = 0")
    case True
    then show ?thesis by (simp add: print_digits.simps [of digits base x])
  next
    case False
    have "x div base < base ^ n" using Suc.prems by (simp add: less_mult_imp_div_less mult.commute)
    moreover have "0 < n" using False \<open>x div base < base ^ n\<close> by (cases n) auto
    ultimately show ?thesis using Suc.IH [of "x div base"] Suc.prems(1) False
      by (simp add: print_digits.simps [of digits base x])
  qed
qed simp

text \<open>
  The 16-byte buffer of \<open>printint\<close> is large enough for every integer in base 10 with a sign and in
  base 16.
\<close>

theorem printint_fits:
  "length (printint_buf xx 10 sign) \<le> 11 \<and> length (printint_buf xx 16 False) \<le> 8 \<and>
    length (uprintint_buf xx 10 sign) \<le> 11 \<and> length (uprintint_buf xx 16 False) \<le> 8"
proof -
  have lt: "unat x < 4294967296" for x :: "32 word" using unsigned_less [of x, where 'a = nat] by simp
  then have "unat x < 10 ^ 10" for x :: "32 word" by (rule less_le_trans) simp
  then have d: "length (print_digits f 10 (unat x)) \<le> 10" for f and x :: "32 word"
    by (intro print_digits_length) simp_all
  have "unat x < 16 ^ 8" for x :: "32 word" using lt [of x] by simp
  then have h: "length (print_digits f 16 (unat x)) \<le> 8" for f and x :: "32 word"
    by (intro print_digits_length) simp_all
  show ?thesis
    using d [of lower_digits xx] d [of lower_digits "- xx"] d [of upper_digits xx] d [of upper_digits "- xx"]
      h [of lower_digits xx] h [of upper_digits xx]
    by (simp add: printint_buf_def uprintint_buf_def Let_def)
qed

text \<open>The value of a list of decimal digits, the lowest first.\<close>

lemma digit_byte:
  assumes "d < 10"
  shows "uint (lower_digits d) = 48 + int d"
proof -
  have "48 + d < 256" using assms by simp
  then have "unat (word_of_nat (48 + d) :: byte) = 48 + d" by (simp only: unat_of_nat_byte mod_less)
  moreover have "lower_digits d = word_of_nat (48 + d)" using assms by (simp add: lower_digits_def)
  ultimately show ?thesis by (simp only: uint_nat)
qed

lemma upper_lower: "d < 10 \<Longrightarrow> upper_digits d = lower_digits d"
  by (simp add: upper_digits_def lower_digits_def)

lemma print_digits_upper: "print_digits upper_digits 10 x = print_digits lower_digits 10 x"
proof (induction x rule: less_induct)
  case (less x)
  show ?case
  proof (cases "x div 10 = 0")
    case True
    then show ?thesis by (simp add: print_digits.simps [of _ 10 x] upper_lower)
  next
    case False
    then have "x div 10 < x" by simp
    then show ?thesis using less by (simp add: print_digits.simps [of _ 10 x] upper_lower)
  qed
qed

lemma print_digits_digit: "c \<in> set (print_digits lower_digits 10 x) \<Longrightarrow> 48 \<le> uint c \<and> uint c \<le> 57"
proof (induction x rule: less_induct)
  case (less x)
  have "48 \<le> uint (lower_digits (x mod 10)) \<and> uint (lower_digits (x mod 10)) \<le> 57"
    using digit_byte [of "x mod 10"] by simp
  moreover have "48 \<le> uint c \<and> uint c \<le> 57" if "x div 10 \<noteq> 0" "c \<in> set (print_digits lower_digits 10 (x div 10))"
    using that by (intro less.IH [of "x div 10"]) simp_all
  ultimately show ?case using less.prems
    by (auto simp: print_digits.simps [of _ 10 x] split: if_splits)
qed

definition atoi_step :: "byte \<Rightarrow> 32 word \<Rightarrow> 32 word" where
  "atoi_step c n = n * 10 + word_of_int (uint c) - 48"

lemma atoi_from_digits:
  assumes "\<forall>c \<in> set ds. 48 \<le> uint c \<and> uint c \<le> 57" and "\<forall>k < length ds. s (i + k) = ds ! k"
    and "uint (s (i + length ds)) < 48"
  shows "atoi_from s i n = Some (fold atoi_step ds n)"
  using assms
proof (induction ds arbitrary: i n)
  case Nil
  then show ?case by (subst atoi_from.simps) simp
next
  case (Cons d ds)
  have "s i = d" using Cons.prems(2) [rule_format, of 0] by simp
  moreover have "\<forall>k < length ds. s (Suc i + k) = ds ! k"
    using Cons.prems(2) by (metis Suc_less_eq add_Suc_right add_Suc_shift length_Cons nth_Cons_Suc)
  then have "atoi_from s (Suc i) (atoi_step d n) = Some (fold atoi_step ds (atoi_step d n))"
    using Cons.prems by (intro Cons.IH) auto
  ultimately show ?case using Cons.prems(1) by (subst atoi_from.simps) (simp add: atoi_step_def)
qed

lemma fold_digits: "fold atoi_step (rev (print_digits lower_digits 10 x)) 0 = word_of_nat x"
proof (induction x rule: less_induct)
  case (less x)
  have d: "word_of_int (uint (lower_digits (x mod 10))) = (48 + word_of_nat (x mod 10) :: 32 word)"
    using digit_byte [of "x mod 10"] by (simp del: of_nat_mod zmod_int)
  have x: "(word_of_nat x :: 32 word) = word_of_nat (x div 10) * 10 + word_of_nat (x mod 10)"
    by (metis div_mult_mod_eq of_nat_add of_nat_mult of_nat_numeral)
  have st: "atoi_step (lower_digits (x mod 10)) n = n * 10 + word_of_nat (x mod 10)" for n
    unfolding atoi_step_def d by simp
  show ?case
  proof (cases "x div 10 = 0")
    case True
    then have "fold atoi_step (rev (print_digits lower_digits 10 x)) 0 = atoi_step (lower_digits (x mod 10)) 0"
      by (simp add: print_digits.simps [of _ 10 x])
    then show ?thesis unfolding st x using True by simp
  next
    case False
    then have "x div 10 < x" by simp
    then have "fold atoi_step (rev (print_digits lower_digits 10 (x div 10))) 0 = word_of_nat (x div 10)"
      by (rule less)
    then show ?thesis using False x by (simp add: print_digits.simps [of _ 10 x] st)
  qed
qed

lemma atoi_digits: "atoi (bytes_at (rev (print_digits lower_digits 10 x))) = Some (word_of_nat x)"
  unfolding atoi_def using fold_digits [of x] print_digits_digit [of _ x]
  by (subst atoi_from_digits [of "rev (print_digits lower_digits 10 x)"]) (auto simp: bytes_at_def)

text \<open>
  C28: \<open>atoi\<close> reads back what \<open>printint\<close> writes in base 10, for every 32-bit value printed as unsigned and
  every nonnegative one printed as signed; a negative number is written with a minus sign, which
  \<open>atoi\<close> does not understand: it answers 0.
\<close>

theorem atoi_printint:
  "atoi (bytes_at (printint xx 10 False)) = Some xx \<and>
    (0 \<le> sint xx \<longrightarrow> atoi (bytes_at (printint xx 10 True)) = Some xx) \<and>
    (sint xx < 0 \<longrightarrow> atoi (bytes_at (printint xx 10 True)) = Some 0)"
proof -
  have "atoi (bytes_at (0x2D # cs)) = Some 0" for cs
    unfolding atoi_def by (subst atoi_from.simps) (simp add: bytes_at_def)
  then show ?thesis
    using atoi_digits [of "unat xx"] by (simp add: printint_def printint_buf_def Let_def)
qed

theorem atoi_printint_witness:
  "atoi (bytes_at (printint 42 10 True)) = Some 42 \<and> atoi (bytes_at (printint (- 7) 10 True)) = Some 0"
proof -
  have "0 \<le> sint (42 :: 32 word)" "sint (- 7 :: 32 word) < 0" by code_simp+
  then show ?thesis using atoi_printint [of 42] atoi_printint [of "- 7"] by simp
qed

section \<open>The two formatters\<close>

text \<open>The directives of a format, \<open>d\<close> for \<open>%d\<close>.\<close>

fun directives :: "byte list \<Rightarrow> byte set" where
  "directives [] = {}"
| "directives [c] = {}"
| "directives (c # d # fmt) = (if c = 0x25 then insert d (directives fmt) else directives (d # fmt))"

lemma printf_cprintf_from:
  "directives fmt \<inter> {0x78, 0x70, 0x63} = {} \<Longrightarrow> printf_from m ap k False fmt = cprintf_from m ap k fmt"
proof (induction fmt arbitrary: k rule: directives.induct)
  case (3 c d fmt)
  show ?case
  proof (cases "c = 0x25")
    case True
    then have "printf_from m ap k' False fmt = cprintf_from m ap k' fmt" for k' using 3 by auto
    then show ?thesis using True "3.prems"
      by (simp add: printint_def uprintint_def printint_buf_def uprintint_buf_def print_digits_upper Let_def
          split: option.split)
  next
    case False
    then show ?thesis using 3 by simp
  qed
qed simp_all

text \<open>
  C29: The formatter of the kernel and that of the user library print the same characters for every
  format without \<open>%x\<close>, \<open>%p\<close> (whose digits differ in case) and \<open>%c\<close> (which only the library knows),
  including formats that end in a lone \<open>%\<close> and unknown directives.
\<close>

theorem printf_agrees:
  assumes "directives fmt \<inter> {0x78, 0x70, 0x63} = {}"
  shows "printf m ap fmt = cprintf m ap fmt"
  using printf_cprintf_from [OF assms] by (simp add: printf_def cprintf_def)

theorem printf_agrees_witness:
  "printf (\<lambda>_. 0) (\<lambda>_. 42) [0x61, 0x25, 0x64, 0x25] = Some [0x61, 0x34, 0x32]"
proof -
  have d: "directives [0x61, 0x25, 0x64, 0x25] \<inter> {0x78, 0x70, 0x63} = {}" by code_simp
  have p: "printint 42 10 True = [0x34, 0x32]" by code_simp
  have "cprintf (\<lambda>_. 0) (\<lambda>_. 42) [0x61, 0x25, 0x64, 0x25] = Some [0x61, 0x34, 0x32]"
    unfolding cprintf_def by (simp add: p)
  then show ?thesis unfolding printf_agrees [OF d] .
qed

end
