(* ===== verification/Console.thy ===== *)
theory Console
  imports Ring Print
begin

text \<open>
  The console, \<open>src/console.c\<close>: the text screen (\<open>cgaputc\<close>), the characters it and the serial line
  receive (\<open>consputc\<close>), the line editor run by the interrupt handler (\<open>consoleintr\<close>) and the loop of
  \<open>consoleread\<close>. The theorems show that the cursor never leaves the screen, that the ring buffer of
  the editor implements a pair of lists (what readers may take, and the line being edited), and
  what a read of a line returns.
\<close>

section \<open>The screen\<close>

record cga =
  crt :: "nat \<Rightarrow> 16 word"
  pos :: nat

definition BACKSPACE :: nat where "BACKSPACE = 0x100"

definition cgaputc :: "nat \<Rightarrow> cga \<Rightarrow> cga res" where
  "cgaputc c s =
     (let p0 = pos s;
          p = (if c = 10 then p0 + (80 - p0 mod 80)
               else if c = BACKSPACE then (if p0 > 0 then p0 - 1 else p0)
               else p0 + 1);
          t = (if c \<noteq> 10 \<and> c \<noteq> BACKSPACE then (crt s)(p0 := (word_of_nat c AND 0xFF) OR 0x0700) else crt s)
      in if p > 25 * 80 then Inl (Panic ''pos under/overflow'')
         else
           let (p', t') =
             (if p div 80 \<ge> 24 then
                let t1 = (\<lambda>i. if i < 23 * 80 then t (i + 80) else t i); q = p - 80
                in (q, \<lambda>i. if q \<le> i \<and> i < 24 * 80 then 0 else t1 i)
              else (p, t))
           in Inr \<lparr>crt = t'(p' := 0x20 OR 0x0700), pos = p'\<rparr>)"

text \<open>What \<open>consputc\<close> sends to the serial line.\<close>

definition consputc_uart :: "nat \<Rightarrow> byte list" where
  "consputc_uart c = (if c = BACKSPACE then [8, 0x20, 8] else [word_of_nat c])"

definition consputc :: "nat \<Rightarrow> cga \<Rightarrow> (byte list \<times> cga) res" where
  "consputc c s = rbind (cgaputc c s) (\<lambda>s1. Inr (consputc_uart c, s1))"

section \<open>Input\<close>

definition INPUT_BUF :: nat where "INPUT_BUF = 128"

record input =
  in_buf :: "nat \<Rightarrow> byte"
  in_r :: "32 word"
  in_w :: "32 word"
  in_e :: "32 word"

text \<open>The loop that kills a line; the result counts the backspaces echoed.\<close>

function kill_line :: "input \<Rightarrow> nat \<times> input" where
  "kill_line s =
     (if in_e s \<noteq> in_w s \<and> in_buf s (unat (in_e s - 1) mod INPUT_BUF) \<noteq> 10 then
        let (n, s') = kill_line (s\<lparr>in_e := in_e s - 1\<rparr>) in (n + 1, s')
      else (0, s))"
  by pat_completeness auto
termination
proof (relation "measure (\<lambda>s. unat (in_e s - in_w s))")
  fix s :: input
  assume "in_e s \<noteq> in_w s \<and> in_buf s (unat (in_e s - 1) mod INPUT_BUF) \<noteq> 10"
  then have "in_w s \<noteq> in_e s" by auto
  then have "unat (in_e s - 1 - in_w s) = unat (in_e s - in_w s) - 1" "0 < unat (in_e s - in_w s)"
    by (auto simp: unat_pred_diff(2) unat_gt_0)
  then show "(s\<lparr>in_e := in_e s - 1\<rparr>, s) \<in> measure (\<lambda>s. unat (in_e s - in_w s))" by simp
qed simp

declare kill_line.simps [simp del]

text \<open>
  One character of \<open>consoleintr\<close>: the new state, the characters echoed with \<open>consputc\<close>, whether readers
  are woken, and whether a process listing is asked for.
\<close>

definition consoleintr_char :: "nat \<Rightarrow> input \<Rightarrow> input \<times> nat list \<times> bool \<times> bool" where
  "consoleintr_char c s =
     (if c = 16 then (s, [], False, True)
      else if c = 21 then let (n, s') = kill_line s in (s', replicate n BACKSPACE, False, False)
      else if c = 8 \<or> c = 0x7F then
        (if in_e s \<noteq> in_w s then (s\<lparr>in_e := in_e s - 1\<rparr>, [BACKSPACE], False, False) else (s, [], False, False))
      else if c \<noteq> 0 \<and> unat (in_e s - in_r s) < INPUT_BUF then
        let c = (if c = 13 then 10 else c);
            s1 = s\<lparr>in_buf := (in_buf s)(unat (in_e s) mod INPUT_BUF := word_of_nat c), in_e := in_e s + 1\<rparr>
        in if c = 10 \<or> c = 4 \<or> in_e s1 = in_r s1 + word_of_nat INPUT_BUF
           then (s1\<lparr>in_w := in_e s1\<rparr>, [c], True, False)
           else (s1, [c], False, False)
      else (s, [], False, False))"

fun consoleintr :: "nat list \<Rightarrow> input \<Rightarrow> input \<times> nat list \<times> bool \<times> bool" where
  "consoleintr [] s = (s, [], False, False)"
| "consoleintr (c # cs) s =
     (let (s1, e1, w1, d1) = consoleintr_char c s; (s2, e2, w2, d2) = consoleintr cs s1
      in (s2, e1 @ e2, w1 \<or> w2, d1 \<or> d2))"

text \<open>
  The loop of \<open>consoleread\<close> from one sleep to the next; \<open>n\<close> bytes are still wanted of \<open>target\<close>. The
  result is \<open>None\<close> when the reader sleeps, the return value otherwise; the bytes stored; the count
  left, and the state.
\<close>

fun consoleread_from :: "bool \<Rightarrow> nat \<Rightarrow> nat \<Rightarrow> input \<Rightarrow> int option \<times> byte list \<times> nat \<times> input" where
  "consoleread_from killed target 0 s = (Some (int target), [], 0, s)"
| "consoleread_from killed target (Suc n) s =
     (if in_r s = in_w s then
        if killed then (Some (-1), [], Suc n, s) else (None, [], Suc n, s)
      else
        let c = in_buf s (unat (in_r s) mod INPUT_BUF); s1 = s\<lparr>in_r := in_r s + 1\<rparr> in
        if c = 4 then
          (Some (int target - int (Suc n)), [], Suc n, if Suc n < target then s else s1)
        else if c = 10 then (Some (int target - int n), [c], n, s1)
        else let (out, bs, m, s2) = consoleread_from killed target n s1 in (out, c # bs, m, s2))"

definition consoleread_chars :: "bool \<Rightarrow> nat \<Rightarrow> input \<Rightarrow> int option \<times> byte list \<times> nat \<times> input" where
  "consoleread_chars killed n s = consoleread_from killed n n s"

section \<open>The cursor stays on the screen\<close>

lemma next_line: "p + (80 - p mod 80) = 80 * (p div 80 + 1)" for p :: nat
proof -
  have "p = a * 80 + b \<Longrightarrow> b < 80 \<Longrightarrow> p + (80 - b) = 80 * (a + 1)" for a b by simp
  from this [of "p div 80" "p mod 80"] show ?thesis by simp
qed

text \<open>
  C30: Whatever is printed, the cursor stays within the 24 lines above the last one and \<open>cgaputc\<close> never
  reaches its panic. A newline on the last of them scrolls the text up by one line.
\<close>

theorem cgaputc_bounds:
  assumes "pos s < 24 * 80"
  shows "\<exists>s'. cgaputc c s = Inr s' \<and> pos s' < 24 * 80 \<and>
    (c = 10 \<and> 23 * 80 \<le> pos s \<longrightarrow> pos s' = 23 * 80 \<and> (\<forall>i < 23 * 80. crt s' i = crt s (i + 80)))"
proof (cases "c = 10 \<and> 23 * 80 \<le> pos s")
  case True
  define q where "q = pos s - 1840"
  then have q: "pos s = 1840 + q" "q < 80" using True assms by auto
  then have "pos s div 80 = 23" by (intro div_nat_eqI) simp_all
  then have "pos s + (80 - pos s mod 80) = 1920" unfolding next_line by simp
  then show ?thesis using True by (simp add: cgaputc_def Let_def)
next
  case False
  have "pos s + (80 - pos s mod 80) \<le> 1840" if "c = 10"
  proof -
    have "pos s div 80 < 23" using False that by (simp add: less_mult_imp_div_less)
    then show ?thesis unfolding next_line by simp
  qed
  moreover have "\<exists>s'. cgaputc c s = Inr s' \<and> pos s' < 24 * 80" if "c \<noteq> 10"
    using assms that by (auto simp: cgaputc_def Let_def BACKSPACE_def)
  ultimately show ?thesis using False by (cases "c = 10") (auto simp: cgaputc_def Let_def)
qed

section \<open>The editor\<close>

text \<open>What readers may take, and the line being edited.\<close>

definition committed :: "input \<Rightarrow> byte list" where
  "committed s = ring_list INPUT_BUF (in_buf s) (in_r s) (in_w s)"

definition editing :: "input \<Rightarrow> byte list" where
  "editing s = ring_list INPUT_BUF (in_buf s) (in_w s) (in_e s)"

definition input_ok :: "input \<Rightarrow> bool" where
  "input_ok s \<longleftrightarrow> unat (in_w s - in_r s) + unat (in_e s - in_w s) \<le> INPUT_BUF \<and> 10 \<notin> set (editing s)"

text \<open>The editor on lists.\<close>

definition edit_char :: "nat \<Rightarrow> byte list \<times> byte list \<Rightarrow> byte list \<times> byte list" where
  "edit_char c st =
     (let (done, line) = st; x = (if c = 13 then 10 else word_of_nat c) in
      if c = 16 then (done, line)
      else if c = 21 then (done, [])
      else if c = 8 \<or> c = 0x7F then (done, butlast line)
      else if c \<noteq> 0 \<and> length done + length line < INPUT_BUF then
        if c \<in> {4, 10, 13} \<or> length done + length line + 1 = INPUT_BUF then (done @ line @ [x], [])
        else (done, line @ [x])
      else (done, line))"

interpretation in_ring: ring INPUT_BUF
proof
  show "INPUT_BUF dvd 2 ^ 32" unfolding INPUT_BUF_def by (rule dvdI [of _ _ 33554432]) simp
qed (simp_all add: INPUT_BUF_def)

lemma input_len:
  assumes "input_ok s"
  shows "unat (in_e s - in_r s) = length (committed s) + length (editing s)"
    "length (committed s) + length (editing s) \<le> INPUT_BUF"
  using assms unat_sum_diff [of "in_w s" "in_r s" "in_e s"]
  by (simp_all add: input_ok_def committed_def editing_def INPUT_BUF_def)

lemma editing_Nil: "editing s = [] \<longleftrightarrow> in_e s = in_w s"
  using ring_list_Nil_iff [of INPUT_BUF "in_buf s" "in_w s" "in_e s"] by (auto simp: editing_def)

lemma committed_Nil: "committed s = [] \<longleftrightarrow> in_r s = in_w s"
  by (simp add: committed_def ring_list_Nil_iff)

text \<open>A byte stored at the edit index is appended to the line and leaves the rest alone.\<close>

lemma store_char:
  fixes s :: input and x :: byte
  assumes "input_ok s" and "length (committed s) + length (editing s) < INPUT_BUF"
  defines "t \<equiv> s\<lparr>in_buf := (in_buf s)(unat (in_e s) mod INPUT_BUF := x), in_e := in_e s + 1\<rparr>"
  shows "committed t = committed s" "editing t = editing s @ [x]"
    "committed (t\<lparr>in_w := in_e t\<rparr>) = committed s @ editing s @ [x]"
proof -
  note len = input_len [OF assms(1)]
  have er: "unat (in_e s - in_r s) < INPUT_BUF" using len assms(2) by simp
  have ew: "unat (in_e s - in_w s) < INPUT_BUF" using assms(2) by (simp add: editing_def)
  show e: "editing t = editing s @ [x]"
    using in_ring.push [OF ew] by (simp add: editing_def t_def)
  have one: "ring_list INPUT_BUF (in_buf t) (in_r s) (in_e s + 1) = ring_list INPUT_BUF (in_buf s) (in_r s) (in_e s) @ [x]"
    using in_ring.push [OF er] by (simp add: t_def)
  have l1: "unat (in_w s - in_r s) + unat (in_e s - in_w s) < 2 ^ 32"
    using assms(2) by (simp add: committed_def editing_def INPUT_BUF_def)
  have l2: "unat (in_w s - in_r s) + unat (in_e t - in_w s) < 2 ^ 32"
    using arg_cong [OF e, of length] assms(2) by (simp add: committed_def editing_def INPUT_BUF_def t_def)
  have "ring_list INPUT_BUF (in_buf t) (in_r s) (in_w s) @ editing t = committed s @ editing s @ [x]"
    using ring_list_split [OF l2, of _ "in_buf t"] ring_list_split [OF l1, of _ "in_buf s"] one
    by (simp add: t_def committed_def editing_def)
  then have c: "ring_list INPUT_BUF (in_buf t) (in_r s) (in_w s) = committed s" unfolding e by simp
  then show "committed t = committed s" by (simp add: committed_def t_def)
  show "committed (t\<lparr>in_w := in_e t\<rparr>) = committed s @ editing s @ [x]"
    using ring_list_split [OF l1, of _ "in_buf s"] one by (simp add: t_def committed_def editing_def)
qed

lemma kill_line_ok:
  "10 \<notin> set (editing s) \<Longrightarrow> snd (kill_line s) = s\<lparr>in_e := in_w s\<rparr>"
proof (induction s rule: kill_line.induct)
  case (1 s)
  show ?case
  proof (cases "in_e s = in_w s")
    case True
    then show ?thesis by (simp add: kill_line.simps [of s])
  next
    case False
    let ?t = "s\<lparr>in_e := in_e s - 1\<rparr>"
    have e: "editing s = editing ?t @ [in_buf s (unat (in_e s - 1) mod INPUT_BUF)]"
      using in_ring.unpush [of "in_w s" "in_e s"] False by (simp add: editing_def)
    then have "in_buf s (unat (in_e s - 1) mod INPUT_BUF) \<noteq> 10" "10 \<notin> set (editing ?t)" using "1.prems" by auto
    then show ?thesis using "1.IH" False by (simp add: kill_line.simps [of s] case_prod_unfold)
  qed
qed

lemma back_ok:
  assumes "in_e s \<noteq> in_w s"
  shows "editing (s\<lparr>in_e := in_e s - 1\<rparr>) = butlast (editing s)"
  using in_ring.unpush [of "in_w s" "in_e s" "in_buf s"] assms by (simp add: editing_def butlast_append)

lemma store_full:
  assumes "input_ok s" and "length (committed s) + length (editing s) < INPUT_BUF"
  shows "in_e s + 1 = in_r s + word_of_nat INPUT_BUF \<longleftrightarrow> length (committed s) + length (editing s) + 1 = INPUT_BUF"
proof -
  have "unat (in_e s - in_r s) < 2 ^ 32 - 1"
    using input_len(1) [OF assms(1)] assms(2) by (simp add: INPUT_BUF_def)
  then have u: "unat (in_e s + 1 - in_r s) = length (committed s) + length (editing s) + 1"
    using unat_succ_diff [of "in_e s" "in_r s"] input_len(1) [OF assms(1)] by simp
  then show ?thesis using in_ring.full_iff [of "in_e s + 1" "in_r s"] assms(2) by simp
qed

lemma consoleintr_char_ok:
  assumes "input_ok s" and "c < 256"
  shows "input_ok (fst (consoleintr_char c s)) \<and>
    (committed (fst (consoleintr_char c s)), editing (fst (consoleintr_char c s))) =
      edit_char c (committed s, editing s)"
proof -
  note len = input_len [OF assms(1)]
  have nl: "10 \<notin> set (editing s)" using assms(1) by (simp add: input_ok_def)
  have bound: "input_ok t \<longleftrightarrow> length (committed t) + length (editing t) \<le> INPUT_BUF \<and> 10 \<notin> set (editing t)" for t
    by (simp add: input_ok_def committed_def editing_def)
  consider (list) "c = 16" | (kill) "c = 21" | (del) "c = 8 \<or> c = 0x7F"
    | (store) "c \<notin> {16, 21, 8, 0x7F}" "c \<noteq> 0" "length (committed s) + length (editing s) < INPUT_BUF"
    | (skip) "c \<notin> {16, 21, 8, 0x7F}" "c = 0 \<or> \<not> length (committed s) + length (editing s) < INPUT_BUF" by (auto 4 0)
  then show ?thesis
  proof cases
    case list
    then show ?thesis using assms(1) by (simp add: consoleintr_char_def edit_char_def)
  next
    case kill
    have "committed (s\<lparr>in_e := in_w s\<rparr>) = committed s" "editing (s\<lparr>in_e := in_w s\<rparr>) = []"
      by (simp_all add: committed_def editing_def)
    then show ?thesis using kill kill_line_ok [OF nl] len(2) unfolding bound
      by (simp add: consoleintr_char_def edit_char_def case_prod_unfold)
  next
    case del
    have "committed (s\<lparr>in_e := x\<rparr>) = committed s" for x by (simp add: committed_def)
    moreover have "10 \<notin> set (butlast (editing s))" using nl by (auto dest: in_set_butlastD)
    ultimately show ?thesis using del len(2) nl back_ok [of s] editing_Nil [of s] unfolding bound
      by (auto simp: consoleintr_char_def edit_char_def)
  next
    case store
    let ?c = "if c = 13 then 10 else c"
    let ?t = "s\<lparr>in_buf := (in_buf s)(unat (in_e s) mod INPUT_BUF := word_of_nat ?c), in_e := in_e s + 1\<rparr>"
    note st = store_char [OF assms(1) store(3), of "word_of_nat ?c"]
    have full: "in_e ?t = in_r ?t + word_of_nat INPUT_BUF \<longleftrightarrow> length (committed s) + length (editing s) + 1 = INPUT_BUF"
      using store_full [OF assms(1) store(3)] by simp
    have x: "(word_of_nat ?c :: byte) = (if c = 13 then 10 else word_of_nat c)" by simp
    have "unat (word_of_nat ?c :: byte) = ?c" using assms(2) by (simp add: unat_of_nat_byte)
    then have ne: "?c \<noteq> 10 \<Longrightarrow> word_of_nat ?c \<noteq> (10 :: byte)" by force
    have e0: "editing (?t\<lparr>in_w := in_e ?t\<rparr>) = []" by (simp add: editing_def)
    show ?thesis
    proof (cases "?c = 10 \<or> ?c = 4 \<or> in_e ?t = in_r ?t + word_of_nat INPUT_BUF")
      case True
      then have f: "fst (consoleintr_char c s) = ?t\<lparr>in_w := in_e ?t\<rparr>"
        using store len(1) unfolding consoleintr_char_def Let_def by auto
      have "edit_char c (committed s, editing s) = (committed s @ editing s @ [word_of_nat ?c], [])"
        using store True unfolding full by (auto simp: edit_char_def Let_def split: if_splits)
      then show ?thesis unfolding f bound using st(3) e0 store(3) by simp
    next
      case False
      then have f: "fst (consoleintr_char c s) = ?t"
        using store len(1) unfolding consoleintr_char_def Let_def by auto
      have "edit_char c (committed s, editing s) = (committed s, editing s @ [word_of_nat ?c])"
        using store False unfolding full by (auto simp: edit_char_def Let_def split: if_splits)
      then show ?thesis unfolding f bound using st(1,2) store(3) nl ne False by auto
    qed
  next
    case skip
    then show ?thesis using assms(1) len(1) by (auto simp: consoleintr_char_def edit_char_def)
  qed
qed

lemma consoleintr_ok:
  assumes "input_ok s" and "\<forall>c \<in> set cs. c < 256"
  shows "input_ok (fst (consoleintr cs s)) \<and>
    (committed (fst (consoleintr cs s)), editing (fst (consoleintr cs s))) =
      fold edit_char cs (committed s, editing s)"
  using assms
proof (induction cs arbitrary: s)
  case (Cons c cs)
  have "fst (consoleintr (c # cs) s) = fst (consoleintr cs (fst (consoleintr_char c s)))"
    by (simp add: case_prod_unfold Let_def)
  then show ?case using Cons.IH [of "fst (consoleintr_char c s)"] consoleintr_char_ok [of s c] Cons.prems by simp
qed simp

text \<open>
  C31: The ring buffer of the console with its three wrapping indices implements a line editor on two
  lists. For every sequence of input bytes, typed characters extend the edited line, backspace and
  kill-line edit only it, a newline, an end-of-file mark or a full buffer hand it to the readers, and
  bytes that do not fit are dropped; the indices always delimit at most \<open>INPUT_BUF\<close> bytes.
\<close>

theorem console_editor:
  assumes "input_ok s" and "\<forall>c \<in> set cs. c < 256"
  shows "input_ok (fst (consoleintr cs s)) \<and>
    (committed (fst (consoleintr cs s)), editing (fst (consoleintr cs s))) =
      fold edit_char cs (committed s, editing s)"
  using assms by (rule consoleintr_ok)

section \<open>Reading a line\<close>

lemma committed_pop:
  assumes "input_ok s" and "committed s = x # xs"
  shows "in_r s \<noteq> in_w s" "in_buf s (unat (in_r s) mod INPUT_BUF) = x"
    "committed (s\<lparr>in_r := in_r s + 1\<rparr>) = xs" "input_ok (s\<lparr>in_r := in_r s + 1\<rparr>)"
proof -
  show ne: "in_r s \<noteq> in_w s" using assms(2) committed_Nil [of s] by auto
  note p = in_ring.pop [OF ne, of "in_buf s"]
  then show "in_buf s (unat (in_r s) mod INPUT_BUF) = x" and c: "committed (s\<lparr>in_r := in_r s + 1\<rparr>) = xs"
    using assms(2) by (simp_all add: committed_def)
  have "unat (in_w s - (in_r s + 1)) \<le> unat (in_w s - in_r s)" using unat_pred_diff(1) [OF ne] by simp
  then show "input_ok (s\<lparr>in_r := in_r s + 1\<rparr>)" using assms(1) by (simp add: input_ok_def editing_def)
qed

lemma consoleread_prefix:
  assumes "input_ok s" and "committed s = l @ rest" and "10 \<notin> set l" and "4 \<notin> set l" and "length l \<le> n"
  shows "\<exists>t. input_ok t \<and> committed t = rest \<and> editing t = editing s \<and>
    consoleread_from killed target n s =
      (let (out, bs, m, u) = consoleread_from killed target (n - length l) t in (out, l @ bs, m, u))"
  using assms
proof (induction l arbitrary: n s)
  case Nil
  then show ?case by (intro exI [of _ s]) simp
next
  case (Cons x l)
  obtain k where n: "n = Suc k" using Cons.prems(5) by (cases n) auto
  let ?s = "s\<lparr>in_r := in_r s + 1\<rparr>"
  have c: "committed s = x # (l @ rest)" using Cons.prems(2) by simp
  note p = committed_pop [OF Cons.prems(1) c]
  have l: "10 \<notin> set l" "4 \<notin> set l" "length l \<le> k" using Cons.prems n by simp_all
  obtain t where t: "input_ok t" "committed t = rest" "editing t = editing ?s"
    "consoleread_from killed target k ?s =
      (let (out, bs, m, u) = consoleread_from killed target (k - length l) t in (out, l @ bs, m, u))"
    using Cons.IH [OF p(4,3) l] by blast
  then show ?case using p n Cons.prems
    by (intro exI [of _ t]) (simp add: editing_def case_prod_unfold Let_def)
qed

text \<open>
  C32: What a read from the console returns. Given a line in the buffer, a read of enough bytes returns
  the line with its newline and leaves what follows; an end-of-file mark ends the read before it and
  stays for the next one, unless it comes first: then the read returns 0 bytes and removes it.
\<close>

theorem consoleread_line:
  assumes "input_ok s" and "10 \<notin> set l" and "4 \<notin> set l" and "length l < n"
  shows "(committed s = l @ 10 # rest \<longrightarrow> (\<exists>m t. committed t = rest \<and>
      consoleread_chars killed n s = (Some (int (length l) + 1), l @ [10], m, t))) \<and>
    (committed s = l @ 4 # rest \<longrightarrow> (\<exists>m t. committed t = (if l = [] then rest else 4 # rest) \<and>
      consoleread_chars killed n s = (Some (int (length l)), l, m, t)))"
proof -
  obtain k where k: "n - length l = Suc k" using assms(4) by (metis Suc_diff_Suc)
  have pre: "\<exists>t. input_ok t \<and> committed t = x # rest \<and>
      consoleread_chars killed n s = (let (out, bs, m, u) = consoleread_from killed n (Suc k) t in (out, l @ bs, m, u))"
    if "committed s = l @ x # rest" for x
    using consoleread_prefix [OF assms(1) that assms(2,3), of n killed n] assms(4)
    unfolding consoleread_chars_def k by auto
  have e: "int n - int k = int (length l) + 1" "l = [] \<longleftrightarrow> \<not> Suc k < n"
    using k assms(4) by (linarith, cases l) auto
  show ?thesis
  proof (intro conjI impI)
    assume "committed s = l @ 10 # rest"
    then obtain t where t: "input_ok t" "committed t = 10 # rest"
      "consoleread_chars killed n s = (let (out, bs, m, u) = consoleread_from killed n (Suc k) t in (out, l @ bs, m, u))"
      using pre by blast
    note p = committed_pop [OF t(1,2)]
    have "consoleread_chars killed n s = (Some (int (length l) + 1), l @ [10], k, t\<lparr>in_r := in_r t + 1\<rparr>)"
      unfolding t(3) using p e(1) by simp
    then show "\<exists>m t. committed t = rest \<and> consoleread_chars killed n s = (Some (int (length l) + 1), l @ [10], m, t)"
      using p(3) by blast
  next
    assume "committed s = l @ 4 # rest"
    then obtain t where t: "input_ok t" "committed t = 4 # rest"
      "consoleread_chars killed n s = (let (out, bs, m, u) = consoleread_from killed n (Suc k) t in (out, l @ bs, m, u))"
      using pre by blast
    note p = committed_pop [OF t(1,2)]
    have "consoleread_chars killed n s =
        (Some (int (length l)), l, Suc k, if l = [] then t\<lparr>in_r := in_r t + 1\<rparr> else t)"
      unfolding t(3) e(2) using p e(1) by simp
    moreover have "committed (if l = [] then t\<lparr>in_r := in_r t + 1\<rparr> else t) = (if l = [] then rest else 4 # rest)"
      using p(3) t(2) by simp
    ultimately show "\<exists>m t. committed t = (if l = [] then rest else 4 # rest) \<and>
        consoleread_chars killed n s = (Some (int (length l)), l, m, t)" by blast
  qed
qed

section \<open>Examples\<close>

definition demo_input :: input where
  "demo_input = \<lparr>in_buf = (\<lambda>_. 0), in_r = - 2, in_w = - 2, in_e = - 2\<rparr>"

lemma demo_input_ok: "input_ok demo_input"
  by (simp add: input_ok_def editing_def demo_input_def)

theorem cgaputc_bounds_witness:
  "\<exists>s'. cgaputc 10 \<lparr>crt = (\<lambda>_. 0), pos = 23 * 80 + 5\<rparr> = Inr s' \<and> pos s' = 23 * 80"
  using cgaputc_bounds [of "\<lparr>crt = (\<lambda>_. 0), pos = 23 * 80 + 5\<rparr>" 10] by auto

theorem console_editor_witness:
  "committed (fst (consoleintr [97, 98, 8, 99, 13, 100] demo_input)) = [97, 99, 10] \<and>
    editing (fst (consoleintr [97, 98, 8, 99, 13, 100] demo_input)) = [100]"
proof -
  have "\<forall>c \<in> set [97, 98, 8, 99, 13, 100]. c < (256 :: nat)" by simp
  note e = console_editor [OF demo_input_ok this]
  have c: "committed demo_input = []" "editing demo_input = []" by (simp_all add: committed_def editing_def demo_input_def)
  have f: "fold edit_char [97, 98, 8, 99, 13, 100] ([], []) = ([97, 99, 10], [100])" by code_simp
  from conjunct2 [OF e] show ?thesis unfolding c f prod.inject .
qed

theorem consoleread_line_witness:
  "\<exists>m t. committed t = [] \<and>
    consoleread_chars False 10 (fst (consoleintr [97, 10] demo_input)) = (Some 2, [97, 10], m, t)"
proof -
  let ?s = "fst (consoleintr [97, 10] demo_input)"
  have l: "\<forall>c \<in> set [97, 10]. c < (256 :: nat)" by simp
  have f: "fold edit_char [97, 10] ([], []) = ([97, 10], [])" by code_simp
  have d: "committed demo_input = []" "editing demo_input = []" by (simp_all add: committed_def editing_def demo_input_def)
  have o: "input_ok ?s" and c: "committed ?s = [97, 10]"
    using consoleintr_ok [OF demo_input_ok l] unfolding d f prod.inject by blast+
  have "committed ?s = [97] @ 10 # []" unfolding c by simp
  with consoleread_line [OF o, of "[97]" 10 "[]" False] show ?thesis by (simp del: consoleintr.simps)
qed

end
