(* ===== verification/Umalloc.thy ===== *)
theory Umalloc
  imports Kalloc
begin

text \<open>
  The memory allocator of user programs, \<open>src/umalloc.c\<close>: \<open>malloc\<close> and \<open>free\<close> over \<open>sbrk\<close>. The free blocks form
  a circular list through the headers at their starts, in the order of their addresses, with the static
  header \<open>base\<close> among them; a block's size is in units of a header, 8 bytes. \<open>base\<close> is an address that
  the linker fixes. The memory is that of the process, and a header is its eight bytes: \<open>ptr\<close>, then \<open>size\<close>.
  \<open>Umalloc_Props\<close> shows that blocks in use never overlap, that their contents are left alone, that the
  searches end, and that memory given back is used again.
\<close>

section \<open>The allocator\<close>

record heap =
  u_mem :: block
  u_freep :: nat
  u_brk :: nat

abbreviation hptr :: "block \<Rightarrow> nat \<Rightarrow> nat" where
  "hptr m p \<equiv> get32 m p"

abbreviation hsize :: "block \<Rightarrow> nat \<Rightarrow> nat" where
  "hsize m p \<equiv> get32 m (p + 4)"

text \<open>
  \<open>sbrk\<close> as the process sees it (\<open>sys_sbrk\<close>, \<open>growproc\<close>): \<open>room sz\<close> says whether the kernel has the pages to
  grow the process to \<open>sz\<close> bytes. New pages are filled with zeros. A shrink to nothing is answered with \<open>-1\<close>; that
  its pages are gone nevertheless is not followed here.
\<close>

definition sbrk :: "(nat \<Rightarrow> bool) \<Rightarrow> int \<Rightarrow> 'z heap_scheme \<Rightarrow> nat \<times> 'z heap_scheme" where
  "sbrk room n s =
     (let addr = u_brk s;
          newsz = uadd addr (pat32 n);
          sz = (if n > 0 then
                  if newsz \<ge> KERNBASE then 0 else if newsz < addr then addr
                  else if room newsz then newsz else 0
                else if n < 0 then if newsz \<ge> addr then addr else newsz
                else addr)
      in if n \<noteq> 0 \<and> sz = 0 then (0xffffffff, s)
         else (addr, s\<lparr>u_brk := sz,
           u_mem := (\<lambda>a. if PGROUNDUP addr \<le> a \<and> a < PGROUNDUP sz then 0 else u_mem s a)\<rparr>))"

text \<open>The loop of \<open>free\<close>: the node after which \<open>bp\<close> belongs.\<close>

partial_function (option) free_find :: "block \<Rightarrow> nat \<Rightarrow> nat \<Rightarrow> nat option" where
  [code]: "free_find m bp p =
     (if bp > p \<and> bp < hptr m p then Some p
      else if p \<ge> hptr m p \<and> (bp > p \<or> bp < hptr m p) then Some p
      else free_find m bp (hptr m p))"

definition free_upper :: "nat \<Rightarrow> nat \<Rightarrow> block \<Rightarrow> block" where
  "free_upper bp p m =
     (if uadd bp (umul 8 (hsize m bp)) = hptr m p then
        let m0 = put32 m (bp + 4) (uadd (hsize m bp) (hsize m (hptr m p)))
        in put32 m0 bp (hptr m0 (hptr m0 p))
      else put32 m bp (hptr m p))"

definition free_lower :: "nat \<Rightarrow> nat \<Rightarrow> block \<Rightarrow> block" where
  "free_lower bp p m =
     (if uadd p (umul 8 (hsize m p)) = bp then
        let m0 = put32 m (p + 4) (uadd (hsize m p) (hsize m bp))
        in put32 m0 p (hptr m0 bp)
      else put32 m p bp)"

definition free :: "nat \<Rightarrow> 'z heap_scheme \<Rightarrow> 'z heap_scheme option" where
  "free ap s =
     (let bp = usub ap 8 in
      case free_find (u_mem s) bp (u_freep s) of
        None \<Rightarrow> None
      | Some p \<Rightarrow> Some (s\<lparr>u_mem := free_lower bp p (free_upper bp p (u_mem s)), u_freep := p\<rparr>))"

definition morecore :: "(nat \<Rightarrow> bool) \<Rightarrow> nat \<Rightarrow> 'z heap_scheme \<Rightarrow> (nat \<times> 'z heap_scheme) option" where
  "morecore room nu s =
     (let nu = (if nu < 4096 then 4096 else nu);
          (p, s1) = sbrk room (sint32 (umul nu 8)) s
      in if p = 0xffffffff then Some (0, s1)
         else case free (uadd p 8) (s1\<lparr>u_mem := put32 (u_mem s1) (p + 4) nu\<rparr>) of
                None \<Rightarrow> None
              | Some s2 \<Rightarrow> Some (u_freep s2, s2))"

text \<open>What \<open>malloc\<close> does with a block \<open>p\<close> that is large enough.\<close>

definition malloc_take :: "nat \<Rightarrow> nat \<Rightarrow> nat \<Rightarrow> 'z heap_scheme \<Rightarrow> nat \<times> 'z heap_scheme" where
  "malloc_take nunits p prevp s =
     (let m = u_mem s in
      if hsize m p = nunits then (uadd p 8, s\<lparr>u_mem := put32 m prevp (hptr m p), u_freep := prevp\<rparr>)
      else
        let m1 = put32 m (p + 4) (usub (hsize m p) nunits);
            p1 = uadd p (umul 8 (hsize m1 p));
            m2 = put32 m1 (p1 + 4) nunits
        in (uadd p1 8, s\<lparr>u_mem := m2, u_freep := prevp\<rparr>))"

partial_function (option) malloc_loop ::
  "(nat \<Rightarrow> bool) \<Rightarrow> nat \<Rightarrow> nat \<Rightarrow> nat \<Rightarrow> 'z heap_scheme \<Rightarrow> (nat \<times> 'z heap_scheme) option" where
  [code]: "malloc_loop room nunits p prevp s =
     (if hsize (u_mem s) p \<ge> nunits then Some (malloc_take nunits p prevp s)
      else if p = u_freep s then
        Option.bind (morecore room nunits s) (\<lambda>r.
          if fst r = 0 then Some (0, snd r)
          else malloc_loop room nunits (hptr (u_mem (snd r)) (fst r)) (fst r) (snd r))
      else malloc_loop room nunits (hptr (u_mem s) p) p s)"

definition nunits_of :: "nat \<Rightarrow> nat" where
  "nunits_of nbytes = uadd (usub (uadd nbytes 8) 1 div 8) 1"

definition malloc :: "nat \<Rightarrow> (nat \<Rightarrow> bool) \<Rightarrow> nat \<Rightarrow> 'z heap_scheme \<Rightarrow> (nat \<times> 'z heap_scheme) option" where
  "malloc base room nbytes s =
     (let s1 = (if u_freep s = 0
                then s\<lparr>u_mem := put32 (put32 (u_mem s) base base) (base + 4) 0, u_freep := base\<rparr>
                else s);
          prevp = u_freep s1
      in malloc_loop room (nunits_of nbytes) (hptr (u_mem s1) prevp) prevp s1)"

section \<open>The layout of the blocks\<close>

text \<open>
  \<open>layout base bs al nx sz hi\<close>: \<open>bs\<close> are the free blocks in the order of the list, which is that of their
  addresses with a gap between any two (neighbours are always joined); \<open>al\<close> are the blocks in use. \<open>nx\<close>
  and \<open>sz\<close> are the fields of the headers. No two blocks overlap and all lie between \<open>base\<close> and \<open>hi\<close>.
\<close>

definition layout :: "nat \<Rightarrow> nat list \<Rightarrow> nat set \<Rightarrow> (nat \<Rightarrow> nat) \<Rightarrow> (nat \<Rightarrow> nat) \<Rightarrow> nat \<Rightarrow> bool" where
  "layout base bs al nx sz hi \<longleftrightarrow>
     ptr_path nx base bs base \<and> sz base = 0 \<and>
     sorted_wrt (\<lambda>a b. a + 8 * sz a < b) bs \<and>
     (\<forall>a \<in> set bs \<union> al. 0 < sz a \<and> base + 8 \<le> a \<and> a + 8 * sz a \<le> hi) \<and>
     (\<forall>a \<in> al. \<forall>b \<in> set bs \<union> al. a \<noteq> b \<longrightarrow> a + 8 * sz a \<le> b \<or> b + 8 * sz b \<le> a) \<and>
     al \<inter> set bs = {}"

definition area :: "(nat \<Rightarrow> nat) \<Rightarrow> nat set \<Rightarrow> nat set" where
  "area sz A = (\<Union>a \<in> A. {a ..< a + 8 * sz a})"

lemma area_Un: "area sz (A \<union> B) = area sz A \<union> area sz B"
  by (auto simp: area_def)

lemma area_insert: "area sz (insert a A) = {a ..< a + 8 * sz a} \<union> area sz A"
  by (auto simp: area_def)

lemma area_cong: "(\<And>a. a \<in> A \<Longrightarrow> sz a = sz' a) \<Longrightarrow> area sz A = area sz' A"
  by (auto simp: area_def)

lemma area_merge:
  assumes "a \<notin> B" "b = a + 8 * sz a"
  shows "area (sz(a := sz a + sz b)) (insert a B) = area sz (insert a (insert b B))"
proof -
  have "area (sz(a := sz a + sz b)) B = area sz B" by (rule area_cong) (use assms(1) in auto)
  then show ?thesis using assms(2) by (auto simp: area_insert)
qed

lemma layout_sorted: "layout base bs al nx sz hi \<Longrightarrow> sorted_wrt (<) (base # bs)"
proof -
  assume l: "layout base bs al nx sz hi"
  then have "sorted_wrt (\<lambda>a b. a + 8 * sz a < b) bs" by (simp add: layout_def)
  then have "sorted_wrt (<) bs" by (rule sorted_wrt_mono_rel [rotated]) simp
  moreover have "base < x" if "x \<in> set bs" for x
  proof -
    have "base + 8 \<le> x" using l that by (simp add: layout_def)
    then show ?thesis by simp
  qed
  ultimately show ?thesis by simp
qed

lemma layout_distinct: "layout base bs al nx sz hi \<Longrightarrow> distinct (base # bs)"
  using layout_sorted strict_sorted_iff by blast

lemma layout_cong:
  assumes "layout base bs al nx sz hi"
    and "\<And>a. a \<in> set (base # bs) \<Longrightarrow> nx' a = nx a"
    and "\<And>a. a \<in> set (base # bs) \<union> al \<Longrightarrow> sz' a = sz a"
  shows "layout base bs al nx' sz' hi"
proof -
  have "sorted_wrt (\<lambda>a b. a + 8 * sz' a < b) bs"
    using assms(1,3) by (auto simp: layout_def elim!: sorted_wrt_mono_rel [rotated])
  moreover have "ptr_path nx' base bs base"
    using assms(1) path_cong [of base bs nx' nx base] assms(2) by (simp add: layout_def)
  ultimately show ?thesis using assms(1,3) by (simp add: layout_def)
qed

text \<open>\<open>free\<close> between its two halves: \<open>bp\<close> is joined to what follows it, and not yet linked.\<close>

definition pending ::
  "nat \<Rightarrow> nat list \<Rightarrow> nat \<Rightarrow> nat list \<Rightarrow> nat set \<Rightarrow> (nat \<Rightarrow> nat) \<Rightarrow> (nat \<Rightarrow> nat) \<Rightarrow> nat \<Rightarrow> bool" where
  "pending base us bp vs al nx sz hi \<longleftrightarrow>
     (\<exists>z. ptr_path nx base us z) \<and> ptr_path nx bp vs base \<and> sz base = 0 \<and>
     sorted_wrt (\<lambda>a b. a + 8 * sz a < b) us \<and> sorted_wrt (\<lambda>a b. a + 8 * sz a < b) (bp # vs) \<and>
     (\<forall>u \<in> set us. u + 8 * sz u \<le> bp) \<and>
     (\<forall>a \<in> set us \<union> set (bp # vs) \<union> al. 0 < sz a \<and> base + 8 \<le> a \<and> a + 8 * sz a \<le> hi) \<and>
     (\<forall>a \<in> al. \<forall>b \<in> set us \<union> set (bp # vs) \<union> al. a \<noteq> b \<longrightarrow> a + 8 * sz a \<le> b \<or> b + 8 * sz b \<le> a) \<and>
     al \<inter> (set us \<union> set (bp # vs)) = {}"

lemma pending_upper:
  assumes l: "layout base (us @ vs) (insert bp al) nx sz hi" and n: "bp \<notin> al"
    and us: "\<forall>u \<in> set us. u < bp" and vs: "\<forall>v \<in> set vs. bp < v"
    and q: "q = hd (vs @ [base])"
  shows "bp + 8 * sz bp = q \<Longrightarrow> vs \<noteq> [] \<and>
      pending base us bp (tl vs) al (nx(bp := nx q)) (sz(bp := sz bp + sz q)) hi \<and>
      area (sz(bp := sz bp + sz q)) (set us \<union> set (bp # tl vs) \<union> al) = area sz (set (us @ vs) \<union> insert bp al)"
    and "bp + 8 * sz bp \<noteq> q \<Longrightarrow> pending base us bp vs al (nx(bp := q)) sz hi"
proof -
  have p: "ptr_path nx base (us @ vs) base" "sz base = 0"
    and so: "sorted_wrt (\<lambda>a b. a + 8 * sz a < b) us" "sorted_wrt (\<lambda>a b. a + 8 * sz a < b) vs"
      "\<forall>u \<in> set us. \<forall>v \<in> set vs. u + 8 * sz u < v"
    and b: "\<forall>a \<in> set us \<union> set vs \<union> insert bp al. 0 < sz a \<and> base + 8 \<le> a \<and> a + 8 * sz a \<le> hi"
    and d: "\<forall>a \<in> insert bp al. \<forall>b \<in> set us \<union> set vs \<union> insert bp al.
      a \<noteq> b \<longrightarrow> a + 8 * sz a \<le> b \<or> b + 8 * sz b \<le> a"
    and al: "insert bp al \<inter> (set us \<union> set vs) = {}"
    using l by (auto simp: layout_def sorted_wrt_append)
  have bpn: "bp \<notin> set (base # us)" "bp \<notin> set vs" using b al by auto
  have bu: "u + 8 * sz u \<le> bp" if "u \<in> set us" for u
    using d [rule_format, of bp u] us that b by fastforce
  have bv: "bp + 8 * sz bp \<le> v" if "v \<in> set vs" for v
    using d [rule_format, of bp v] vs that b by fastforce
  have pu: "ptr_path nx base us q"
    using p(1) q by (cases vs) (simp_all add: path_append)
  { assume "bp + 8 * sz bp \<noteq> q"
    then have "bp + 8 * sz bp < v" if "v \<in> set vs" for v
      using that bv [of v] bv [of q] so(2) b q by (cases vs) fastforce+
    moreover have "ptr_path (nx(bp := q)) bp vs base"
      using p(1) q bpn by (cases vs) (auto simp: path_append path_other)
    moreover have "ptr_path (nx(bp := q)) base us q" using pu bpn(1) by (simp add: path_other)
    ultimately show "pending base us bp vs al (nx(bp := q)) sz hi"
      unfolding pending_def using p(2) so b d al bu n by auto }
  { assume e: "bp + 8 * sz bp = q"
    then have "vs \<noteq> []" using b q by (cases vs) auto
    then obtain ws where w: "vs = q # ws" using q by (cases vs) auto
    let ?sz = "sz(bp := sz bp + sz q)" and ?nx = "nx(bp := nx q)"
    have ne: "bp \<noteq> q" "bp \<notin> set ws" using bpn w by auto
    have "ptr_path ?nx bp ws base"
      using p(1) w ne by (auto simp: path_append intro: path_start [of nx q ws base])
    moreover have "ptr_path ?nx base us q" using pu bpn(1) by (simp add: path_other)
    moreover have "sorted_wrt (\<lambda>a b. a + 8 * ?sz a < b) us"
      by (rule sorted_wrt_mono_rel [OF _ so(1)]) (use bpn in auto)
    moreover have "sorted_wrt (\<lambda>a b. a + 8 * ?sz a < b) (bp # ws)"
      using so(2) w e ne by (auto elim!: sorted_wrt_mono_rel [rotated])
    moreover have "\<forall>a \<in> al. \<forall>b \<in> set us \<union> set (bp # ws) \<union> al.
        a \<noteq> b \<longrightarrow> a + 8 * ?sz a \<le> b \<or> b + 8 * ?sz b \<le> a"
    proof (intro ballI impI)
      fix a c assume a: "a \<in> al" and c: "c \<in> set us \<union> set (bp # ws) \<union> al" "a \<noteq> c"
      have ab: "a \<noteq> bp" "a \<noteq> q" "0 < sz a" using a n al w b by auto
      show "a + 8 * ?sz a \<le> c \<or> c + 8 * ?sz c \<le> a"
      proof (cases "c = bp")
        case True
        have "a + 8 * sz a \<le> bp \<or> bp + 8 * sz bp \<le> a" "a + 8 * sz a \<le> q \<or> q + 8 * sz q \<le> a"
          using d a ab w by auto
        then show ?thesis using True ab e by auto
      next
        case False
        then have "a + 8 * sz a \<le> c \<or> c + 8 * sz c \<le> a" using d a c w by auto
        then show ?thesis using False ab by simp
      qed
    qed
    ultimately have "pending base us bp ws al ?nx ?sz hi"
      unfolding pending_def using p(2) b al w bu bpn e n by auto
    moreover have "area ?sz (set us \<union> set (bp # ws) \<union> al) = area sz (set (us @ vs) \<union> insert bp al)"
    proof -
      have s: "set us \<union> set (bp # ws) \<union> al = insert bp (set us \<union> set ws \<union> al)"
        "set (us @ vs) \<union> insert bp al = insert bp (insert q (set us \<union> set ws \<union> al))"
        using w by auto
      show ?thesis unfolding s by (rule area_merge) (use e n bpn ne in auto)
    qed
    ultimately show "vs \<noteq> [] \<and> pending base us bp (tl vs) al ?nx ?sz hi \<and>
      area ?sz (set us \<union> set (bp # tl vs) \<union> al) = area sz (set (us @ vs) \<union> insert bp al)"
      using w by simp }
qed

lemma pending_lower:
  assumes l: "pending base us bp vs al nx sz hi" and p: "p = last (base # us)"
  shows "p + 8 * sz p = bp \<Longrightarrow>
      layout base (us @ vs) al (nx(p := nx bp)) (sz(p := sz p + sz bp)) hi \<and> p \<in> set us \<and>
      area (sz(p := sz p + sz bp)) (set (us @ vs) \<union> al) = area sz (set us \<union> set (bp # vs) \<union> al)"
    and "p + 8 * sz p \<noteq> bp \<Longrightarrow> layout base (us @ bp # vs) al (nx(p := bp)) sz hi"
proof -
  obtain z where pu: "ptr_path nx base us z" and pv: "ptr_path nx bp vs base" and s0: "sz base = 0"
    and so: "sorted_wrt (\<lambda>a b. a + 8 * sz a < b) us" "sorted_wrt (\<lambda>a b. a + 8 * sz a < b) (bp # vs)"
    and bu: "\<forall>u \<in> set us. u + 8 * sz u \<le> bp"
    and b: "\<forall>a \<in> set us \<union> set (bp # vs) \<union> al. 0 < sz a \<and> base + 8 \<le> a \<and> a + 8 * sz a \<le> hi"
    and d: "\<forall>a \<in> al. \<forall>b \<in> set us \<union> set (bp # vs) \<union> al. a \<noteq> b \<longrightarrow> a + 8 * sz a \<le> b \<or> b + 8 * sz b \<le> a"
    and al: "al \<inter> (set us \<union> set (bp # vs)) = {}"
    using l unfolding pending_def by blast
  have "sorted_wrt (<) us" using so(1) by (rule sorted_wrt_mono_rel [rotated]) simp
  then have du: "distinct us" by (simp add: strict_sorted_iff)
  have lt: "u < bp" if "u \<in> set us" for u
  proof -
    have "u + 8 * sz u \<le> bp" "0 < sz u" using bu b that by auto
    then show ?thesis by simp
  qed
  have gt: "bp + 8 * sz bp < v" "bp < v" if "v \<in> set vs" for v
  proof -
    show "bp + 8 * sz bp < v" using so(2) that by simp
    then show "bp < v" by simp
  qed
  have "base < a" if "a \<in> set us \<union> set (bp # vs)" for a
  proof -
    have "base + 8 \<le> a" using b that by blast
    then show ?thesis by simp
  qed
  then have base: "base \<notin> set us \<union> set (bp # vs)" by blast
  have dist: "distinct (base # us)" "last (base # us) \<notin> set (bp # vs)"
    using du base lt gt last_in_set [of "base # us"] by (auto simp del: last.simps dest: less_asym)
  { assume ne: "p + 8 * sz p \<noteq> bp"
    have "ptr_path (nx(p := bp)) base us bp" using path_redirect [OF pu dist(1)] p by simp
    moreover have "ptr_path (nx(p := bp)) bp vs base" using pv dist(2) p by (simp add: path_other)
    moreover have "u + 8 * sz u < bp" if u: "u \<in> set us" for u
    proof (cases "u = p")
      case True
      then show ?thesis using ne bu u by fastforce
    next
      case False
      then obtain us' where "us = us' @ [p]" "u \<in> set us'"
        using u p by (cases us rule: rev_cases) auto
      then have "u + 8 * sz u < p" "p < bp" using so(1) lt [of p] by (auto simp: sorted_wrt_append)
      then show ?thesis by simp
    qed
    moreover from this have "u + 8 * sz u < v" if "u \<in> set us" "v \<in> set (bp # vs)" for u v
      using that gt(2) [of v] by (cases "v = bp") (auto intro: less_trans)
    ultimately have "ptr_path (nx(p := bp)) base (us @ bp # vs) base"
      "sorted_wrt (\<lambda>a b. a + 8 * sz a < b) (us @ bp # vs)"
      using so by (simp_all add: path_append sorted_wrt_append del: sorted_wrt.simps)
    then show "layout base (us @ bp # vs) al (nx(p := bp)) sz hi"
      unfolding layout_def using s0 b d al by simp }
  { assume e: "p + 8 * sz p = bp"
    let ?sz = "sz(p := sz p + sz bp)"
    have "us \<noteq> []" using e p s0 base by (cases us) auto
    then obtain ws where w: "us = ws @ [p]" using p by (cases us rule: rev_cases) auto
    have ne: "p \<notin> set ws" "p \<noteq> bp" "p \<notin> set vs" "p \<noteq> base" "p \<notin> al" "bp \<notin> al"
      using du w dist(2) [folded p] base al by auto
    have "ptr_path (nx(p := nx bp)) base (us @ vs) base"
      using path_splice [OF pu pv dist(1)] dist(2) unfolding p by simp
    moreover have "sorted_wrt (\<lambda>a b. a + 8 * ?sz a < b) (us @ vs)"
    proof -
      have "sorted_wrt (\<lambda>a b. a + 8 * ?sz a < b) ws"
        by (rule sorted_wrt_mono_rel [of _ "\<lambda>a b. a + 8 * sz a < b"]) (use so(1) w ne in \<open>auto simp: sorted_wrt_append\<close>)
      moreover have "sorted_wrt (\<lambda>a b. a + 8 * ?sz a < b) vs"
        by (rule sorted_wrt_mono_rel [of _ "\<lambda>a b. a + 8 * sz a < b"]) (use so(2) ne in auto)
      moreover have "x + 8 * ?sz x < p" if "x \<in> set ws" for x
        using so(1) w ne that by (auto simp: sorted_wrt_append)
      moreover have "p + 8 * ?sz p < v" if "v \<in> set vs" for v
        using gt(1) [OF that] e by simp
      moreover from calculation have "x + 8 * ?sz x < v" if "x \<in> set ws" "v \<in> set vs" for x v
        using that by (meson add_lessD1 less_trans)
      ultimately show ?thesis unfolding w by (simp add: sorted_wrt_append)
    qed
    moreover have "\<forall>a \<in> al. \<forall>c \<in> set (us @ vs) \<union> al. a \<noteq> c \<longrightarrow> a + 8 * ?sz a \<le> c \<or> c + 8 * ?sz c \<le> a"
    proof (intro ballI impI)
      fix a c assume a: "a \<in> al" and c: "c \<in> set (us @ vs) \<union> al" "a \<noteq> c"
      have ab: "a \<noteq> bp" "a \<noteq> p" "0 < sz a" using a ne b by auto
      show "a + 8 * ?sz a \<le> c \<or> c + 8 * ?sz c \<le> a"
      proof (cases "c = p")
        case True
        have "a + 8 * sz a \<le> bp \<or> bp + 8 * sz bp \<le> a" "a + 8 * sz a \<le> p \<or> p + 8 * sz p \<le> a"
          using d a ab w by auto
        then show ?thesis using True ab e by auto
      next
        case False
        then have "a + 8 * sz a \<le> c \<or> c + 8 * sz c \<le> a" using d a c by auto
        then show ?thesis using False ab by simp
      qed
    qed
    moreover have "\<forall>a \<in> set (us @ vs) \<union> al. 0 < ?sz a \<and> base + 8 \<le> a \<and> a + 8 * ?sz a \<le> hi"
      using b e w by fastforce
    ultimately have "layout base (us @ vs) al (nx(p := nx bp)) ?sz hi"
      unfolding layout_def using s0 al ne by auto
    moreover have "area ?sz (set (us @ vs) \<union> al) = area sz (set us \<union> set (bp # vs) \<union> al)"
    proof -
      have s: "set (us @ vs) \<union> al = insert p (set ws \<union> set vs \<union> al)"
        "set us \<union> set (bp # vs) \<union> al = insert p (insert bp (set ws \<union> set vs \<union> al))"
        using w by auto
      show ?thesis unfolding s by (rule area_merge) (use e ne in auto)
    qed
    ultimately show "layout base (us @ vs) al (nx(p := nx bp)) ?sz hi \<and> p \<in> set us \<and>
      area ?sz (set (us @ vs) \<union> al) = area sz (set us \<union> set (bp # vs) \<union> al)"
      using w by simp }
qed

section \<open>Headers in memory\<close>

text \<open>Headers at addresses of a set do not overlap, so that a store to one is an update of a function.\<close>

definition apart :: "nat set \<Rightarrow> bool" where
  "apart N \<longleftrightarrow> (\<forall>a \<in> N. \<forall>b \<in> N. a \<noteq> b \<longrightarrow> a + 8 \<le> b \<or> b + 8 \<le> a)"

lemma put_hdr:
  assumes "apart N" "p \<in> N" "a \<in> N" "v < 4294967296"
  shows "hptr (put32 m p v) a = ((hptr m)(p := v)) a" "hsize (put32 m p v) a = hsize m a"
    "hsize (put32 m (p + 4) v) a = ((hsize m)(p := v)) a" "hptr (put32 m (p + 4) v) a = hptr m a"
proof -
  have "a = p \<or> p + 8 \<le> a \<or> a + 8 \<le> p" using assms(1-3) by (auto simp: apart_def)
  then show "hptr (put32 m p v) a = ((hptr m)(p := v)) a" "hsize (put32 m p v) a = hsize m a"
    "hsize (put32 m (p + 4) v) a = ((hsize m)(p := v)) a" "hptr (put32 m (p + 4) v) a = hptr m a"
    using assms(4) by (auto simp: get32_put32_other)
qed

lemma layout_bound:
  assumes "layout base bs al nx sz hi" "a \<in> set bs \<union> al"
  shows "0 < sz a" "base + 8 \<le> a" "a + 8 * sz a \<le> hi"
proof -
  have "\<forall>a \<in> set bs \<union> al. 0 < sz a \<and> base + 8 \<le> a \<and> a + 8 * sz a \<le> hi"
    using assms(1) unfolding layout_def by (elim conjE)
  from bspec [OF this assms(2)] show "0 < sz a" "base + 8 \<le> a" "a + 8 * sz a \<le> hi" by simp_all
qed

lemma layout_disjoint:
  assumes l: "layout base bs al nx sz hi" and a: "a \<in> set bs \<union> al" "c \<in> set bs \<union> al" "a \<noteq> c"
  shows "a + 8 * sz a \<le> c \<or> c + 8 * sz c \<le> a"
proof -
  have so: "sorted_wrt (\<lambda>a b. a + 8 * sz a < b) bs"
    and d: "\<forall>a \<in> al. \<forall>b \<in> set bs \<union> al. a \<noteq> b \<longrightarrow> a + 8 * sz a \<le> b \<or> b + 8 * sz b \<le> a"
    using l unfolding layout_def by simp_all
  consider "a \<in> al" | "c \<in> al" | "a \<in> set bs" "c \<in> set bs" using a(1,2) by auto
  then show ?thesis
  proof cases
    case 1
    then show ?thesis using bspec [OF bspec [OF d], of a c] a by simp
  next
    case 2
    then show ?thesis using bspec [OF bspec [OF d], of c a] a by auto
  next
    case 3
    then obtain i j where "a = bs ! i" "c = bs ! j" "i < length bs" "j < length bs" "i \<noteq> j"
      using a(3) by (metis in_set_conv_nth)
    then show ?thesis using sorted_wrt_nth_less [OF so, of i j] sorted_wrt_nth_less [OF so, of j i]
      by (cases "i < j") auto
  qed
qed

lemma layout_apart:
  assumes "layout base bs al nx sz hi"
  shows "apart (set (base # bs) \<union> al)"
  unfolding apart_def
proof (intro ballI impI)
  fix a c assume ac: "a \<in> set (base # bs) \<union> al" "c \<in> set (base # bs) \<union> al" "a \<noteq> c"
  consider "a = base" "c \<in> set bs \<union> al" | "c = base" "a \<in> set bs \<union> al" | "a \<in> set bs \<union> al" "c \<in> set bs \<union> al"
    using ac by auto
  then show "a + 8 \<le> c \<or> c + 8 \<le> a"
  proof cases
    case 3
    then show ?thesis
      using layout_disjoint [OF assms 3 ac(3)] layout_bound(1) [OF assms 3(1)] layout_bound(1) [OF assms 3(2)]
      by linarith
  qed (use layout_bound(2) [OF assms] in auto)
qed

text \<open>The two halves of \<open>free\<close> are the updates of the layout.\<close>

lemma free_upper_hdr:
  assumes N: "apart N" "bp \<in> N" "p \<in> N" "hptr m p \<in> N" "p \<noteq> bp" "hptr m p \<noteq> bp" and a: "a \<in> N"
    and small: "bp + 8 * hsize m bp < 4294967296" "hsize m bp + hsize m (hptr m p) < 4294967296"
  defines "q \<equiv> hptr m p"
  shows "bp + 8 * hsize m bp = q \<Longrightarrow> hptr (free_upper bp p m) a = ((hptr m)(bp := hptr m q)) a"
    and "bp + 8 * hsize m bp = q \<Longrightarrow> hsize (free_upper bp p m) a = ((hsize m)(bp := hsize m bp + hsize m q)) a"
    and "bp + 8 * hsize m bp \<noteq> q \<Longrightarrow> hptr (free_upper bp p m) a = ((hptr m)(bp := q)) a"
    and "bp + 8 * hsize m bp \<noteq> q \<Longrightarrow> hsize (free_upper bp p m) a = hsize m a"
proof -
  have u: "uadd bp (umul 8 (hsize m bp)) = bp + 8 * hsize m bp" using small by (simp add: uadd_def umul_def)
  note h = put_hdr [OF N(1)]
  { assume e: "bp + 8 * hsize m bp = q"
    let ?m0 = "put32 m (bp + 4) (hsize m bp + hsize m q)"
    have "hptr ?m0 p = q" "hptr ?m0 q = hptr m q"
      using h(4) [OF N(2)] N(3,4) small(2) by (simp_all add: q_def)
    then have f: "free_upper bp p m = put32 ?m0 bp (hptr m q)"
      using e u small(2) by (simp add: free_upper_def q_def [symmetric] uadd_small Let_def)
    show "hptr (free_upper bp p m) a = ((hptr m)(bp := hptr m q)) a"
      "hsize (free_upper bp p m) a = ((hsize m)(bp := hsize m bp + hsize m q)) a"
      unfolding f using h [OF N(2) a] small(2) by (simp_all add: q_def) }
  { assume "bp + 8 * hsize m bp \<noteq> q"
    then have f: "free_upper bp p m = put32 m bp q" using u by (simp add: free_upper_def q_def)
    show "hptr (free_upper bp p m) a = ((hptr m)(bp := q)) a" "hsize (free_upper bp p m) a = hsize m a"
      unfolding f using h [OF N(2) a] by (simp_all add: q_def) }
qed

lemma free_lower_hdr:
  assumes N: "apart N" "bp \<in> N" "p \<in> N" "p \<noteq> bp" and a: "a \<in> N"
    and small: "p + 8 * hsize m p < 4294967296" "hsize m p + hsize m bp < 4294967296" "bp < 4294967296"
  shows "p + 8 * hsize m p = bp \<Longrightarrow> hptr (free_lower bp p m) a = ((hptr m)(p := hptr m bp)) a"
    and "p + 8 * hsize m p = bp \<Longrightarrow> hsize (free_lower bp p m) a = ((hsize m)(p := hsize m p + hsize m bp)) a"
    and "p + 8 * hsize m p \<noteq> bp \<Longrightarrow> hptr (free_lower bp p m) a = ((hptr m)(p := bp)) a"
    and "p + 8 * hsize m p \<noteq> bp \<Longrightarrow> hsize (free_lower bp p m) a = hsize m a"
proof -
  have u: "uadd p (umul 8 (hsize m p)) = p + 8 * hsize m p" using small by (simp add: uadd_def umul_def)
  note h = put_hdr [OF N(1)]
  { assume e: "p + 8 * hsize m p = bp"
    let ?m0 = "put32 m (p + 4) (hsize m p + hsize m bp)"
    have "hptr ?m0 bp = hptr m bp" using h(4) [OF N(3,2)] small(2) by simp
    then have f: "free_lower bp p m = put32 ?m0 p (hptr m bp)"
      using e u small(2) by (simp add: free_lower_def uadd_small Let_def)
    show "hptr (free_lower bp p m) a = ((hptr m)(p := hptr m bp)) a"
      "hsize (free_lower bp p m) a = ((hsize m)(p := hsize m p + hsize m bp)) a"
      unfolding f using h [OF N(3) a] small(2) by simp_all }
  { assume "p + 8 * hsize m p \<noteq> bp"
    then have f: "free_lower bp p m = put32 m p bp" using u by (simp add: free_lower_def)
    show "hptr (free_lower bp p m) a = ((hptr m)(p := bp)) a" "hsize (free_lower bp p m) a = hsize m a"
      unfolding f using h [OF N(3) a] small(3) by simp_all }
qed

lemma free_upper_out: "x < bp \<or> bp + 8 \<le> x \<Longrightarrow> free_upper bp p m x = m x"
  by (auto simp: free_upper_def Let_def put32_out)

lemma free_lower_out: "x < p \<or> p + 8 \<le> x \<Longrightarrow> free_lower bp p m x = m x"
  by (auto simp: free_lower_def Let_def put32_out)

section \<open>The loop of \<open>free\<close>\<close>

lemma free_find_below:
  "ptr_path (hptr m) f ys z \<Longrightarrow> sorted_wrt (<) (f # ys) \<Longrightarrow> \<forall>x \<in> set (f # ys). x < bp \<Longrightarrow>
   bp < z \<or> z \<le> f \<Longrightarrow> free_find m bp f = Some (last (f # ys))"
proof (induction ys arbitrary: f)
  case Nil
  then show ?case by (auto simp: free_find.simps [of m bp f])
next
  case (Cons y ys)
  then have "free_find m bp f = free_find m bp y" by (auto simp: free_find.simps [of m bp f])
  then show ?case using Cons.IH [of y] Cons.prems by auto
qed

lemma free_find_above:
  "ptr_path (hptr m) f ys z \<Longrightarrow> sorted_wrt (<) (f # ys) \<Longrightarrow> \<forall>x \<in> set (f # ys). bp < x \<Longrightarrow> z < bp \<Longrightarrow>
   free_find m bp f = free_find m bp z"
proof (induction ys arbitrary: f)
  case Nil
  then show ?case by (auto simp: free_find.simps [of m bp f])
next
  case (Cons y ys)
  then have "free_find m bp f = free_find m bp y" by (auto simp: free_find.simps [of m bp f])
  then show ?case using Cons.IH [of y] Cons.prems by auto
qed

lemma sorted_split:
  assumes "sorted_wrt (<) bs" "b \<notin> set bs"
  obtains us vs where "bs = us @ vs" "\<forall>u \<in> set us. u < (b :: nat)" "\<forall>v \<in> set vs. b < v"
proof -
  have "\<exists>us vs. bs = us @ vs \<and> (\<forall>u \<in> set us. u < b) \<and> (\<forall>v \<in> set vs. b < v)"
    using assms
  proof (induction bs)
    case (Cons c bs)
    show ?case
    proof (cases "c < b")
      case True
      from Cons obtain us vs where "bs = us @ vs" "\<forall>u \<in> set us. u < b" "\<forall>v \<in> set vs. b < v" by auto
      then show ?thesis using True by (intro exI [of _ "c # us"] exI [of _ vs]) simp
    next
      case False
      then have "\<forall>v \<in> set (c # bs). b < v" using Cons.prems by auto
      then show ?thesis by (intro exI [of _ "[]"] exI [of _ "c # bs"]) simp
    qed
  qed simp
  then show ?thesis using that by blast
qed

lemma free_find_at:
  assumes l: "layout base (us @ vs) al (hptr m) sz hi" and bp: "base < bp"
    and us: "\<forall>u \<in> set us. u < bp" and vs: "\<forall>v \<in> set vs. bp < v" and f: "f \<in> set (base # us @ vs)"
  shows "free_find m bp f = Some (last (base # us))"
proof -
  have so: "sorted_wrt (<) (base # us @ vs)" by (rule layout_sorted [OF l])
  have p: "ptr_path (hptr m) base (us @ vs) base" using l by (simp add: layout_def)
  define q where "q = hd (vs @ [base])"
  have pu: "ptr_path (hptr m) base us q" using p by (cases vs) (simp_all add: path_append q_def)
  have q: "bp < q \<or> q \<le> base" using vs by (cases vs) (simp_all add: q_def)
  have low: "free_find m bp g = Some (last (base # us))" if g: "g \<in> set (base # us)" for g
  proof -
    obtain xs ys where x: "base # us = xs @ g # ys" using split_list [OF g] by blast
    have "ptr_path (hptr m) g ys q"
      using pu x by (cases xs) (auto simp: path_append)
    moreover have "sorted_wrt (<) (g # ys)" using so x by (metis append_Cons sorted_wrt_append)
    moreover have "\<forall>y \<in> set (g # ys). y < bp"
    proof -
      have "set (g # ys) \<subseteq> set (base # us)" unfolding x by auto
      then show ?thesis using us bp by auto
    qed
    moreover have "base \<le> g" using so g by (auto intro: less_imp_le)
    then have "bp < q \<or> q \<le> g" using q by linarith
    ultimately have "free_find m bp g = Some (last (g # ys))" by (rule free_find_below)
    then show ?thesis using x by simp
  qed
  show ?thesis
  proof (cases "f \<in> set (base # us)")
    case False
    then obtain xs ys where x: "vs = xs @ f # ys" using f split_list [of f vs] by auto
    have "ptr_path (hptr m) f ys base"
      using p path_append [of "hptr m" base "us @ xs" f ys base] unfolding x by simp
    then have "free_find m bp f = free_find m bp base"
      by (rule free_find_above) (use x so vs bp in \<open>auto simp: path_append sorted_wrt_append\<close>)
    then show ?thesis using low [of base] by simp
  qed (rule low)
qed

section \<open>\<open>free\<close>\<close>

definition heap_ok :: "nat \<Rightarrow> nat list \<Rightarrow> nat set \<Rightarrow> 'z heap_scheme \<Rightarrow> bool" where
  "heap_ok base bs al s \<longleftrightarrow>
     layout base bs al (hptr (u_mem s)) (hsize (u_mem s)) (u_brk s) \<and>
     u_freep s \<in> set (base # bs) \<and> 0 < base \<and> base + 8 \<le> u_brk s \<and> u_brk s \<le> KERNBASE"

text \<open>What an operation leaves alone: the sizes and the contents of the blocks in use.\<close>

definition kept :: "nat set \<Rightarrow> 'z heap_scheme \<Rightarrow> 'z heap_scheme \<Rightarrow> bool" where
  "kept al s s' \<longleftrightarrow> (\<forall>a \<in> al. hsize (u_mem s') a = hsize (u_mem s) a \<and>
     (\<forall>x. a + 8 \<le> x \<and> x < a + 8 * hsize (u_mem s) a \<longrightarrow> u_mem s' x = u_mem s x))"

lemma kept_trans: "kept al s t \<Longrightarrow> kept al t u \<Longrightarrow> kept al s u"
  by (simp add: kept_def)

lemma keptI:
  assumes l: "layout base bs (al \<union> F) nx (hsize (u_mem s)) hi" and F: "F \<inter> al = {}"
    and sz: "\<And>a. a \<in> al \<Longrightarrow> hsize (u_mem s') a = hsize (u_mem s) a"
    and out: "\<And>x. x \<notin> {base ..< base + 8} \<union> area (hsize (u_mem s)) (F \<union> set bs) \<Longrightarrow> u_mem s' x = u_mem s x"
  shows "kept al s s'"
  unfolding kept_def
proof (intro ballI conjI allI impI)
  fix a assume a: "a \<in> al"
  then show "hsize (u_mem s') a = hsize (u_mem s) a" by (rule sz)
  fix x assume x: "a + 8 \<le> x \<and> x < a + 8 * hsize (u_mem s) a"
  show "u_mem s' x = u_mem s x"
  proof (rule out)
    have "base + 8 \<le> a" using layout_bound(2) [OF l] a by blast
    then have "x \<notin> {base ..< base + 8}" using x by simp
    moreover have "x \<notin> area (hsize (u_mem s)) (F \<union> set bs)"
    proof
      assume "x \<in> area (hsize (u_mem s)) (F \<union> set bs)"
      then obtain c where c: "c \<in> F \<union> set bs" "c \<le> x" "x < c + 8 * hsize (u_mem s) c" by (auto simp: area_def)
      have "al \<inter> set bs = {}" using l by (auto simp: layout_def)
      then have "a \<noteq> c" using a c(1) F by auto
      then have "a + 8 * hsize (u_mem s) a \<le> c \<or> c + 8 * hsize (u_mem s) c \<le> a"
        using layout_disjoint [OF l, of a c] a c(1) by auto
      then show False using x c by linarith
    qed
    ultimately show "x \<notin> {base ..< base + 8} \<union> area (hsize (u_mem s)) (F \<union> set bs)" by simp
  qed
qed

lemma area_hdr: "a \<in> A \<Longrightarrow> 0 < sz a \<Longrightarrow> a \<le> x \<Longrightarrow> x < a + 8 \<Longrightarrow> x \<in> area sz A"
  unfolding area_def by (rule UN_I) auto

lemma pending_cong:
  assumes "pending base us bp vs al nx sz hi"
    and "\<And>a. a \<in> set (base # us) \<union> set (bp # vs) \<Longrightarrow> nx' a = nx a"
    and "\<And>a. a \<in> set (base # us) \<union> set (bp # vs) \<union> al \<Longrightarrow> sz' a = sz a"
  shows "pending base us bp vs al nx' sz' hi"
proof -
  have "sorted_wrt (\<lambda>a b. a + 8 * sz' a < b) us"
    by (rule sorted_wrt_mono_rel [of _ "\<lambda>a b. a + 8 * sz a < b"]) (use assms(1,3) in \<open>auto simp: pending_def\<close>)
  moreover have "sorted_wrt (\<lambda>a b. a + 8 * sz' a < b) (bp # vs)"
    by (rule sorted_wrt_mono_rel [of _ "\<lambda>a b. a + 8 * sz a < b"]) (use assms(1,3) in \<open>auto simp: pending_def\<close>)
  moreover have "ptr_path nx' base us = ptr_path nx base us" "ptr_path nx' bp vs = ptr_path nx bp vs"
    by (rule ext, rule path_cong, use assms(2) in auto)+
  ultimately show ?thesis using assms(1,3) unfolding pending_def by simp
qed

lemma pending_bound:
  assumes "pending base us bp vs al nx sz hi" "a \<in> set us \<union> set (bp # vs) \<union> al"
  shows "0 < sz a" "base + 8 \<le> a" "a + 8 * sz a \<le> hi"
proof -
  have "\<forall>a \<in> set us \<union> set (bp # vs) \<union> al. 0 < sz a \<and> base + 8 \<le> a \<and> a + 8 * sz a \<le> hi"
    using assms(1) unfolding pending_def by (elim conjE)
  from bspec [OF this assms(2)] show "0 < sz a" "base + 8 \<le> a" "a + 8 * sz a \<le> hi" by simp_all
qed

end
