(* ===== verification/Umalloc_Props.thy ===== *)
theory Umalloc_Props
  imports Umalloc
begin

text \<open>
  \<open>malloc\<close> and \<open>free\<close> of \<open>src/umalloc.c\<close> keep the layout of the blocks, and what that means for a program: the
  blocks that it holds are disjoint and keep their contents, both functions return, and a block
  given back satisfies the next request of its size.
\<close>

section \<open>\<open>free\<close> keeps the layout\<close>

lemma free_upper_ok:
  assumes l: "layout base (us @ vs) (insert bp al) (hptr m) (hsize m) hi" and n: "bp \<notin> al"
    and us: "\<forall>u \<in> set us. u < bp" and vs: "\<forall>v \<in> set vs. bp < v" and hi: "hi \<le> KERNBASE"
  defines "m1 \<equiv> free_upper bp (last (base # us)) m"
  obtains ws where "pending base us bp ws al (hptr m1) (hsize m1) hi" "set ws \<subseteq> set vs"
    "area (hsize m1) (set us \<union> set (bp # ws) \<union> al) = area (hsize m) (set (us @ vs) \<union> insert bp al)"
    "hsize m bp \<le> hsize m1 bp" "\<forall>a \<in> set (base # us @ vs) \<union> al. hsize m1 a = hsize m a"
proof -
  define p q N where "p = last (base # us)" and "q = hd (vs @ [base])"
    and "N = set (base # us @ vs) \<union> insert bp al"
  have bnd: "0 < hsize m a" "base + 8 \<le> a" "a + 8 * hsize m a \<le> 2147483648" if "a \<in> set (us @ vs) \<union> insert bp al" for a
    using layout_bound [OF l that] hi by (simp_all add: KERNBASE_def)
  have sb: "hsize m base = 0" and dj: "insert bp al \<inter> set (us @ vs) = {}" using l by (simp_all add: layout_def)
  have bb: "base < bp" using bnd(2) [of bp] by simp
  have q: "hptr m p = q" using l path_last by (fastforce simp: layout_def p_def q_def)
  have "p \<in> set (base # us)" unfolding p_def by (rule last_in_set) simp
  then have pN: "p \<in> N" "p \<noteq> bp" using dj bb by (auto simp: N_def)
  have qN: "q \<in> N" "q \<noteq> bp" using dj bb by (cases vs; auto simp: N_def q_def)+
  have "hsize m q \<le> 2147483648" using qN(1) sb bnd(3) [of q] by (auto simp: N_def)
  then have small: "bp + 8 * hsize m bp < 4294967296" "hsize m bp + hsize m (hptr m p) < 4294967296"
    using bnd(3) [of bp] q by simp_all
  have ap: "apart N" using layout_apart [OF l] by (simp add: N_def)
  have m1: "m1 = free_upper bp p m" by (simp only: m1_def p_def)
  have bpN: "bp \<in> N" by (simp add: N_def)
  have h: "hptr m1 a = ((hptr m)(bp := if bp + 8 * hsize m bp = q then hptr m q else q)) a"
    "hsize m1 a = (if bp + 8 * hsize m bp = q then ((hsize m)(bp := hsize m bp + hsize m q)) a else hsize m a)"
    if "a \<in> N" for a
    using free_upper_hdr [OF ap bpN pN(1) _ pN(2) _ that small] qN by (auto simp: q m1 split: if_splits)
  show ?thesis
  proof (cases "bp + 8 * hsize m bp = q")
    case True
    note u = pending_upper(1) [OF l n us vs q_def True]
    have sub: "set (tl vs) \<subseteq> set vs" using u by (cases vs) auto
    have "pending base us bp (tl vs) al (hptr m1) (hsize m1) hi"
      by (rule pending_cong [OF conjunct1 [OF conjunct2 [OF u]]]) (use h sub True in \<open>auto simp: N_def\<close>)
    moreover have "area (hsize m1) (set us \<union> set (bp # tl vs) \<union> al) = area (hsize m) (set (us @ vs) \<union> insert bp al)"
      using u by (subst area_cong [of _ _ "(hsize m)(bp := hsize m bp + hsize m q)"])
        (use h(2) sub True in \<open>auto simp: N_def\<close>)
    ultimately show ?thesis using that sub h(2) True n dj bb by (auto simp: N_def)
  next
    case False
    note u = pending_upper(2) [OF l n us vs q_def False]
    have "pending base us bp vs al (hptr m1) (hsize m1) hi"
      by (rule pending_cong [OF u]) (use h False in \<open>auto simp: N_def\<close>)
    moreover have "area (hsize m1) (set us \<union> set (bp # vs) \<union> al) = area (hsize m) (set us \<union> set (bp # vs) \<union> al)"
      by (rule area_cong) (use h(2) False in \<open>auto simp: N_def\<close>)
    moreover have "set us \<union> set (bp # vs) \<union> al = set (us @ vs) \<union> insert bp al" by auto
    ultimately show ?thesis using that [of vs] h(2) False by (auto simp: N_def)
  qed
qed

lemma free_lower_ok:
  assumes l: "pending base us bp vs al (hptr m) (hsize m) hi" and hi: "hi \<le> KERNBASE"
    and ap: "apart (set (base # us) \<union> set (bp # vs) \<union> al)"
  defines "p \<equiv> last (base # us)"
  defines "m2 \<equiv> free_lower bp p m"
  obtains bs where "layout base bs al (hptr m2) (hsize m2) hi" "p \<in> set (base # bs)"
    "area (hsize m2) (set bs \<union> al) = area (hsize m) (set us \<union> set (bp # vs) \<union> al)"
    "\<exists>b \<in> set bs. hsize m bp \<le> hsize m2 b" "\<forall>a \<in> al. hsize m2 a = hsize m a"
proof -
  define N where "N = set (base # us) \<union> set (bp # vs) \<union> al"
  have bnd: "0 < hsize m a \<and> base + 8 \<le> a \<and> a + 8 * hsize m a \<le> 2147483648"
    if "a \<in> set us \<union> set (bp # vs) \<union> al" for a
    using pending_bound [OF l that] hi by (simp add: KERNBASE_def)
  have sb: "hsize m base = 0" and al: "al \<inter> (set us \<union> set (bp # vs)) = {}"
    and ub: "\<forall>u \<in> set us. u + 8 * hsize m u \<le> bp"
    using l by (auto simp: pending_def)
  have bb: "base + 8 \<le> bp" "bp + 8 * hsize m bp \<le> 2147483648" using bnd [of bp] by simp_all
  have pu: "p \<in> set (base # us)" unfolding p_def by (rule last_in_set) simp
  have pN: "p \<in> N" "p \<noteq> bp"
  proof -
    show "p \<in> N" using pu by (auto simp: N_def)
    show "p \<noteq> bp"
    proof (cases "p = base")
      case False
      then have "p + 8 * hsize m p \<le> bp" "0 < hsize m p" using pu ub bnd [of p] by auto
      then show ?thesis by linarith
    qed (use bb in simp)
  qed
  have pal: "p \<notin> al" using pu al bnd [of p] by auto
  have small: "p + 8 * hsize m p < 4294967296" "hsize m p + hsize m bp < 4294967296" "bp < 4294967296"
  proof -
    have "p + 8 * hsize m p \<le> 2147483648" using pu sb bb bnd [of p] by auto
    then show "p + 8 * hsize m p < 4294967296" "hsize m p + hsize m bp < 4294967296" "bp < 4294967296"
      using bb(2) by simp_all
  qed
  note h = free_lower_hdr [OF ap [folded N_def] _ pN(1) pN(2) _ small, folded m2_def]
  have bpN: "bp \<in> N" by (simp add: N_def)
  show ?thesis
  proof (cases "p + 8 * hsize m p = bp")
    case True
    note u = pending_lower(1) [OF l p_def [THEN meta_eq_to_obj_eq] True]
    have "layout base (us @ vs) al (hptr m2) (hsize m2) hi"
      by (rule layout_cong [OF conjunct1 [OF u]]) (use h(1,2) [OF bpN _ True] in \<open>auto simp: N_def\<close>)
    moreover have "area (hsize m2) (set (us @ vs) \<union> al) = area ((hsize m)(p := hsize m p + hsize m bp)) (set (us @ vs) \<union> al)"
      by (rule area_cong) (use h(2) [OF bpN _ True] in \<open>auto simp: N_def\<close>)
    moreover have "hsize m bp \<le> hsize m2 p" using h(2) [OF bpN pN(1) True] by simp
    moreover have "\<forall>a \<in> al. hsize m2 a = hsize m a" using h(2) [OF bpN _ True] pal by (auto simp: N_def)
    ultimately show ?thesis using that [of "us @ vs"] u by auto
  next
    case False
    note u = pending_lower(2) [OF l p_def [THEN meta_eq_to_obj_eq] False]
    have "layout base (us @ bp # vs) al (hptr m2) (hsize m2) hi"
      by (rule layout_cong [OF u]) (use h(3,4) [OF bpN _ False] in \<open>auto simp: N_def\<close>)
    moreover have "area (hsize m2) (set (us @ bp # vs) \<union> al) = area (hsize m) (set us \<union> set (bp # vs) \<union> al)"
      by (simp only: set_append) (rule area_cong, use h(4) [OF bpN _ False] in \<open>auto simp: N_def\<close>)
    moreover have "hsize m bp \<le> hsize m2 bp" using h(4) [OF bpN bpN False] by simp
    moreover have "\<forall>a \<in> al. hsize m2 a = hsize m a" using h(4) [OF bpN _ False] by (auto simp: N_def)
    ultimately show ?thesis using that [of "us @ bp # vs"] pu by auto
  qed
qed

lemma apart_subset: "apart N \<Longrightarrow> M \<subseteq> N \<Longrightarrow> apart M"
  unfolding apart_def by (meson subsetD)

lemma free_ok:
  assumes h: "heap_ok base bs (insert bp al) s" and n: "bp \<notin> al"
  obtains bs' s' where "free (bp + 8) s = Some s'" "heap_ok base bs' al s'" "u_brk s' = u_brk s"
    "area (hsize (u_mem s')) (set bs' \<union> al) = area (hsize (u_mem s)) (set bs \<union> insert bp al)"
    "\<exists>b \<in> set bs'. hsize (u_mem s) bp \<le> hsize (u_mem s') b"
    "kept al s s'"
proof -
  let ?m = "u_mem s"
  have l: "layout base bs (insert bp al) (hptr ?m) (hsize ?m) (u_brk s)"
    and b0: "0 < base" "base + 8 \<le> u_brk s" "u_brk s \<le> KERNBASE" and f: "u_freep s \<in> set (base # bs)"
    using h by (auto simp: heap_ok_def)
  have nbs: "bp \<notin> set bs" using l by (simp add: layout_def)
  have bpb: "base < bp" "bp + 8 * hsize ?m bp \<le> KERNBASE"
    using layout_bound [OF l, of bp] b0(3) by auto
  obtain us vs where sp: "bs = us @ vs" "\<forall>u \<in> set us. u < bp" "\<forall>v \<in> set vs. bp < v"
    using sorted_split [of bs bp] layout_sorted [OF l] nbs by auto
  define p where "p = last (base # us)"
  have fnd: "free_find ?m bp (u_freep s) = Some p"
    using free_find_at [OF l [unfolded sp(1)] bpb(1) sp(2,3)] f unfolding sp(1) p_def by simp
  obtain ws where w: "pending base us bp ws al (hptr (free_upper bp p ?m)) (hsize (free_upper bp p ?m)) (u_brk s)"
    "set ws \<subseteq> set vs"
    "area (hsize (free_upper bp p ?m)) (set us \<union> set (bp # ws) \<union> al) = area (hsize ?m) (set (us @ vs) \<union> insert bp al)"
    "hsize ?m bp \<le> hsize (free_upper bp p ?m) bp"
    "\<forall>a \<in> set (base # us @ vs) \<union> al. hsize (free_upper bp p ?m) a = hsize ?m a"
    by (rule free_upper_ok [OF l [unfolded sp(1)] n sp(2,3) b0(3), folded p_def])
  let ?m1 = "free_upper bp p ?m" and ?m2 = "free_lower bp p (free_upper bp p ?m)"
  have ap: "apart (set (base # us) \<union> set (bp # ws) \<union> al)"
    by (rule apart_subset [OF layout_apart [OF l]]) (use w(2) sp(1) in auto)
  obtain bs' where v: "layout base bs' al (hptr ?m2) (hsize ?m2) (u_brk s)" "p \<in> set (base # bs')"
    "area (hsize ?m2) (set bs' \<union> al) = area (hsize ?m1) (set us \<union> set (bp # ws) \<union> al)"
    "\<exists>b \<in> set bs'. hsize ?m1 bp \<le> hsize ?m2 b" "\<forall>a \<in> al. hsize ?m2 a = hsize ?m1 a"
    by (rule free_lower_ok [OF w(1) b0(3) ap, folded p_def])
  let ?s = "s\<lparr>u_mem := ?m2, u_freep := p\<rparr>"
  have pin: "p \<in> set (base # us)" unfolding p_def by (rule last_in_set) simp
  have out: "?m2 x = ?m x" if x: "x \<notin> {base ..< base + 8} \<union> area (hsize ?m) (insert bp (set bs))" for x
  proof -
    have hdr: "x < a \<or> a + 8 \<le> x" if a: "a \<in> insert bp (set bs)" for a
    proof (rule ccontr)
      assume "\<not> (x < a \<or> a + 8 \<le> x)"
      moreover have "0 < hsize ?m a" using layout_bound(1) [OF l, of a] a by auto
      ultimately have "x \<in> area (hsize ?m) (insert bp (set bs))" using area_hdr [OF a] by simp
      then show False using x by simp
    qed
    have "x < p \<or> p + 8 \<le> x" using pin x hdr [of p] unfolding sp(1) by auto
    then show ?thesis using hdr [of bp] by (simp add: free_lower_out free_upper_out)
  qed
  have "usub (bp + 8) 8 = bp" using bpb(2) by (simp add: usub_small KERNBASE_def)
  then have "free (bp + 8) s = Some ?s" using fnd by (simp add: free_def Let_def)
  moreover have "heap_ok base bs' al ?s" using v(1,2) b0 by (simp add: heap_ok_def)
  moreover have "\<exists>b \<in> set bs'. hsize ?m bp \<le> hsize (u_mem ?s) b" using v(4) w(4) by (auto intro: order_trans)
  moreover have "kept al s ?s"
    by (rule keptI [of base bs al "{bp}"]) (use l n out v(5) w(5) in auto)
  moreover have "area (hsize (u_mem ?s)) (set bs' \<union> al) = area (hsize ?m) (set bs \<union> insert bp al)"
    using v(3) w(3) sp(1) by simp
  ultimately show ?thesis using that by simp
qed

section \<open>\<open>malloc\<close> keeps the layout\<close>

text \<open>Taking a block off the list, and cutting the end off a block.\<close>

lemma layout_take:
  assumes l: "layout base bs al nx sz hi" and b: "b \<in> set bs" and p: "p \<in> set (base # bs)" "nx p = b"
  obtains bs' where "layout base bs' (insert b al) (nx(p := nx b)) sz hi" "p \<in> set (base # bs')"
    "set bs = insert b (set bs')"
proof -
  obtain us vs where s: "bs = us @ b # vs" using b split_list by fast
  have d: "distinct (base # us @ b # vs)" using layout_distinct [OF l] s by simp
  have pt: "ptr_path nx base (us @ b # vs) base" using l s by (simp add: layout_def)
  have "nx (last (base # us)) = b" using path_last [OF pt] by simp
  moreover have "last (base # us) \<in> set (base # us)" by (rule last_in_set) simp
  moreover have "distinct ((us @ b # vs) @ [base])" using d by auto
  ultimately have pe: "p = last (base # us)"
    using path_inj [OF pt, of p "last (base # us)"] p s by auto
  have "last (base # us) \<notin> set vs" using d \<open>last (base # us) \<in> set (base # us)\<close> by auto
  then have np: "ptr_path (nx(p := nx b)) base (us @ vs) base"
    using path_splice [of nx base us b b vs base] pt d unfolding pe by (simp add: path_append)
  have so: "sorted_wrt (\<lambda>a b. a + 8 * sz a < b) (us @ b # vs)" using l s by (simp add: layout_def)
  have "layout base (us @ vs) (insert b al) (nx(p := nx b)) sz hi"
    unfolding layout_def
  proof (intro conjI)
    show "sorted_wrt (\<lambda>a b. a + 8 * sz a < b) (us @ vs)" using so by (simp add: sorted_wrt_append)
    show "insert b al \<inter> set (us @ vs) = {}" using d l s by (auto simp: layout_def)
    show "\<forall>a \<in> set (us @ vs) \<union> insert b al. 0 < sz a \<and> base + 8 \<le> a \<and> a + 8 * sz a \<le> hi"
      using layout_bound [OF l] s by auto
    show "\<forall>a \<in> insert b al. \<forall>c \<in> set (us @ vs) \<union> insert b al. a \<noteq> c \<longrightarrow> a + 8 * sz a \<le> c \<or> c + 8 * sz c \<le> a"
      using layout_disjoint [OF l] s by simp
    show "sz base = 0" using l by (simp add: layout_def)
  qed (rule np)
  moreover have "p \<in> set (base # us @ vs)" unfolding pe using \<open>last (base # us) \<in> set (base # us)\<close> by auto
  moreover have "set bs = insert b (set (us @ vs))" using s by auto
  ultimately show ?thesis by (rule that)
qed

lemma layout_cut:
  assumes l: "layout base bs al nx sz hi" and b: "b \<in> set bs" and n: "0 < n" "n < sz b"
  defines "c \<equiv> b + 8 * (sz b - n)"
  shows "layout base bs (insert c al) nx (sz(b := sz b - n, c := n)) hi"
    and "c \<notin> set (base # bs) \<union> al"
    and "area (sz(b := sz b - n, c := n)) (set bs \<union> insert c al) = area sz (set bs \<union> al)"
proof -
  let ?sz = "sz(b := sz b - n, c := n)"
  have e: "c + 8 * n = b + 8 * sz b" "b < c" using n by (simp_all add: c_def algebra_simps)
  have bb: "base + 8 \<le> b" "b + 8 * sz b \<le> hi" using layout_bound [OF l, of b] b by auto
  have oth: "a + 8 * sz a \<le> b \<or> b + 8 * sz b \<le> a" if "a \<in> set bs \<union> al" "a \<noteq> b" for a
    using layout_disjoint [OF l that(1) _ that(2)] b by simp
  have c: "c \<notin> set bs \<union> al"
  proof
    assume a: "c \<in> set bs \<union> al"
    then have "c + 8 * sz c \<le> b \<or> b + 8 * sz b \<le> c" using e(2) by (intro oth) simp_all
    then show False using e n by linarith
  qed
  then show cn: "c \<notin> set (base # bs) \<union> al" using bb e by simp
  have sz: "?sz a = (if a = b then sz b - n else sz a)" if "a \<in> set (base # bs) \<union> al" for a
    using cn that by auto
  have le: "?sz a \<le> sz a" if "a \<in> set (base # bs) \<union> al" for a using sz [OF that] by simp
  show "layout base bs (insert c al) nx ?sz hi"
    unfolding layout_def
  proof (intro conjI)
    show "ptr_path nx base bs base" using l by (simp add: layout_def)
    show "?sz base = 0" using l bb e by (simp add: layout_def)
    have "sorted_wrt (\<lambda>a b. a + 8 * sz a < b) bs" using l by (simp add: layout_def)
    then show "sorted_wrt (\<lambda>a b. a + 8 * ?sz a < b) bs"
    proof (rule sorted_wrt_mono_rel [rotated])
      fix x y assume "x \<in> set bs" "y \<in> set bs" "x + 8 * sz x < y"
      then show "x + 8 * ?sz x < y" using le [of x] by simp
    qed
    show "\<forall>a \<in> set bs \<union> insert c al. 0 < ?sz a \<and> base + 8 \<le> a \<and> a + 8 * ?sz a \<le> hi"
    proof
      fix a assume a: "a \<in> set bs \<union> insert c al"
      show "0 < ?sz a \<and> base + 8 \<le> a \<and> a + 8 * ?sz a \<le> hi"
      proof (cases "a = c")
        case True
        then show ?thesis using e bb n by simp
      next
        case False
        then show ?thesis using layout_bound [OF l, of a] sz [of a] le [of a] n a by auto
      qed
    qed
    show "insert c al \<inter> set bs = {}" using c l by (simp add: layout_def)
    show "\<forall>a \<in> insert c al. \<forall>d \<in> set bs \<union> insert c al. a \<noteq> d \<longrightarrow> a + 8 * ?sz a \<le> d \<or> d + 8 * ?sz d \<le> a"
    proof (intro ballI impI)
      fix a d assume a: "a \<in> insert c al" "d \<in> set bs \<union> insert c al" "a \<noteq> d"
      have cut: "x + 8 * ?sz x \<le> c \<or> c + 8 * ?sz c \<le> x" if x: "x \<in> set bs \<union> al" for x
      proof (cases "x = b")
        case True
        then show ?thesis using e by (simp add: c_def)
      next
        case False
        then show ?thesis using oth [OF x False] sz [of x] x e by auto
      qed
      show "a + 8 * ?sz a \<le> d \<or> d + 8 * ?sz d \<le> a"
      proof (cases "a = c \<or> d = c")
        case True
        then show ?thesis using cut [of a] cut [of d] a by auto
      next
        case False
        then have "a + 8 * sz a \<le> d \<or> d + 8 * sz d \<le> a" using layout_disjoint [OF l, of a d] a by auto
        then show ?thesis using le [of a] le [of d] a False by auto
      qed
    qed
  qed
  have "area ?sz (set bs \<union> insert c al) = {b ..< b + 8 * (sz b - n)} \<union> ({c ..< c + 8 * n} \<union> area sz (set bs \<union> al - {b}))"
  proof -
    have s: "set bs \<union> insert c al = insert b (insert c (set bs \<union> al - {b}))" using b by auto
    have "area ?sz (set bs \<union> al - {b}) = area sz (set bs \<union> al - {b})" by (rule area_cong) (use c in auto)
    then show ?thesis unfolding s area_insert using e by simp
  qed
  also have "\<dots> = {b ..< b + 8 * sz b} \<union> area sz (set bs \<union> al - {b})"
    using e by (auto simp: c_def)
  also have "\<dots> = area sz (set bs \<union> al)"
    using b by (simp add: area_insert [symmetric] insert_absorb)
  finally show "area ?sz (set bs \<union> insert c al) = area sz (set bs \<union> al)" .
qed

lemma malloc_take_ok:
  assumes h: "heap_ok base bs al s" and b: "b \<in> set (base # bs)" and p: "p \<in> set (base # bs)" "hptr (u_mem s) p = b"
    and n: "0 < n" "n \<le> hsize (u_mem s) b"
  obtains a bs' s' where "malloc_take n b p s = (a + 8, s')" "a \<notin> al" "heap_ok base bs' (insert a al) s'"
    "hsize (u_mem s') a = n" "u_brk s' = u_brk s"
    "area (hsize (u_mem s')) (set bs' \<union> insert a al) = area (hsize (u_mem s)) (set bs \<union> al)"
    "kept al s s'"
proof -
  let ?m = "u_mem s"
  have l: "layout base bs al (hptr ?m) (hsize ?m) (u_brk s)" and b0: "0 < base" "base + 8 \<le> u_brk s" "u_brk s \<le> KERNBASE"
    using h by (auto simp: heap_ok_def)
  have "hsize ?m base = 0" using l by (simp add: layout_def)
  then have bs: "b \<in> set bs" using b n by auto
  note bb = layout_bound [OF l UnI1 [OF bs]]
  have bhi: "b + 8 * hsize ?m b \<le> 2147483648" using bb(3) b0(3) by (simp add: KERNBASE_def)
  have bal: "b \<notin> al" using l bs by (auto simp: layout_def)
  have hdr: "x < a \<or> a + 8 \<le> x" if x: "x \<notin> {base ..< base + 8} \<union> area (hsize ?m) (set bs)" and a: "a \<in> set (base # bs)" for x a
  proof (rule ccontr)
    assume c: "\<not> (x < a \<or> a + 8 \<le> x)"
    show False
    proof (cases "a = base")
      case False
      then have "a \<in> set bs" "0 < hsize ?m a" using a layout_bound(1) [OF l, of a] by auto
      then show ?thesis using area_hdr [of a "set bs" "hsize ?m" x] c x by auto
    qed (use c x in auto)
  qed
  show ?thesis
  proof (cases "hsize ?m b = n")
    case True
    let ?s = "s\<lparr>u_mem := put32 ?m p (hptr ?m b), u_freep := p\<rparr>"
    obtain bs' where t: "layout base bs' (insert b al) ((hptr ?m)(p := hptr ?m b)) (hsize ?m) (u_brk s)"
      "p \<in> set (base # bs')" "set bs = insert b (set bs')"
      using layout_take [OF l bs p] by metis
    note hd = put_hdr [OF layout_apart [OF l] UnI1 [OF p(1)]]
    have "layout base bs' (insert b al) (hptr (u_mem ?s)) (hsize (u_mem ?s)) (u_brk s)"
      by (rule layout_cong [OF t(1)]) (use hd t(3) in auto)
    then have "heap_ok base bs' (insert b al) ?s" using t(2) b0 by (simp add: heap_ok_def)
    moreover have "malloc_take n b p s = (b + 8, ?s)"
      using True bhi n by (simp add: malloc_take_def uadd_small Let_def)
    moreover have "area (hsize (u_mem ?s)) (set bs' \<union> insert b al) = area (hsize ?m) (set bs \<union> al)"
      using hd(2) t(3) by (subst area_cong [of _ _ "hsize ?m"]) auto
    moreover have "kept al s ?s"
    proof -
      have "put32 ?m p (hptr ?m b) x = ?m x" if "x \<notin> {base ..< base + 8} \<union> area (hsize ?m) (set bs)" for x
        using hdr [OF that p(1)] by (intro put32_out) linarith
      then show ?thesis by (intro keptI [of base bs al "{}"]) (use l hd(2) in auto)
    qed
    moreover have "hsize (u_mem ?s) b = n" using True hd(2) [of b] bs by simp
    ultimately show ?thesis using that bal by simp
  next
    case False
    then have n': "n < hsize ?m b" using n(2) by simp
    define c where "c = b + 8 * (hsize ?m b - n)"
    define sz where "sz = (hsize ?m)(b := hsize ?m b - n, c := n)"
    define m2 where "m2 = put32 (put32 ?m (b + 4) (hsize ?m b - n)) (c + 4) n"
    let ?s = "s\<lparr>u_mem := m2, u_freep := p\<rparr>"
    note t = layout_cut [OF l bs n(1) n', folded c_def, folded sz_def]
    note ap = layout_apart [OF t(1)]
    have bN: "b \<in> set (base # bs) \<union> insert c al" "c \<in> set (base # bs) \<union> insert c al" using bs by auto
    have sml: "hsize ?m b - n < 4294967296" "n < 4294967296" using bhi n' by simp_all
    note h1 = put_hdr [OF ap bN(1) _ sml(1)] and h2 = put_hdr [OF ap bN(2) _ sml(2)]
    have nx: "hptr m2 a = hptr ?m a" and szm: "hsize m2 a = sz a" if "a \<in> set (base # bs) \<union> insert c al" for a
      using h1 [OF that] h2 [OF that] by (simp_all add: m2_def sz_def)
    have "layout base bs (insert c al) (hptr m2) (hsize m2) (u_brk s)"
      by (rule layout_cong [OF t(1)]) (use nx szm in auto)
    then have "heap_ok base bs (insert c al) ?s" using p(1) b0 by (simp add: heap_ok_def)
    moreover have "malloc_take n b p s = (c + 8, ?s)"
    proof -
      have u: "usub (hsize ?m b) n = hsize ?m b - n" using n' bhi by (intro usub_small) simp_all
      have "hsize (put32 ?m (b + 4) (hsize ?m b - n)) b = hsize ?m b - n" using sml(1) by simp
      moreover have "uadd b (umul 8 (hsize ?m b - n)) = c" "uadd c 8 = c + 8"
        using bhi n n' by (simp_all add: c_def uadd_def umul_def)
      ultimately show ?thesis using False u by (simp add: malloc_take_def Let_def m2_def)
    qed
    moreover have "area (hsize (u_mem ?s)) (set bs \<union> insert c al) = area (hsize ?m) (set bs \<union> al)"
    proof -
      have "area (hsize m2) (set bs \<union> insert c al) = area sz (set bs \<union> insert c al)"
        by (rule area_cong) (use szm in auto)
      then show ?thesis using t(3) by simp
    qed
    moreover have "kept al s ?s"
    proof -
      have "m2 x = ?m x" if x: "x \<notin> area (hsize ?m) (set bs)" for x
      proof -
        have "x < b \<or> b + 8 * hsize ?m b \<le> x" using x bs by (auto simp: area_def)
        moreover have "b + 8 \<le> b + 8 * hsize ?m b" "c + 8 \<le> b + 8 * hsize ?m b" "b \<le> c"
          using n n' by (simp_all add: c_def)
        ultimately have "x < b + 4 \<or> b + 4 + 4 \<le> x" "x < c + 4 \<or> c + 4 + 4 \<le> x" by linarith+
        then show ?thesis unfolding m2_def by (simp only: put32_out)
      qed
      moreover have "sz a = hsize ?m a" if "a \<in> al" for a using that t(2) bal by (auto simp: sz_def)
      ultimately show ?thesis by (intro keptI [of base bs al "{}"]) (use l szm in auto)
    qed
    moreover have "hsize (u_mem ?s) c = n" using szm [OF bN(2)] by (simp add: sz_def)
    ultimately show ?thesis using that t(2) by simp
  qed
qed

text \<open>The search, from the node after \<open>freep\<close> around the circle.\<close>

lemma malloc_skip:
  "ptr_path (hptr (u_mem s)) f xs z \<Longrightarrow> \<forall>x \<in> set xs. hsize (u_mem s) x < n \<and> x \<noteq> u_freep s \<Longrightarrow>
   malloc_loop room n (hptr (u_mem s) f) f s = malloc_loop room n z (last (f # xs)) s"
proof (induction xs arbitrary: f)
  case (Cons x xs)
  then have "malloc_loop room n (hptr (u_mem s) f) f s = malloc_loop room n (hptr (u_mem s) x) x s"
    by (simp add: malloc_loop.simps [of room n x f s])
  then show ?case using Cons.IH [of x] Cons.prems by simp
qed simp

lemma heap_circle:
  assumes "heap_ok base bs al s"
  obtains ys where "ptr_path (hptr (u_mem s)) (u_freep s) ys (u_freep s)" "distinct (u_freep s # ys)"
    "set (u_freep s # ys) = set (base # bs)"
proof -
  have l: "layout base bs al (hptr (u_mem s)) (hsize (u_mem s)) (u_brk s)" and f: "u_freep s \<in> set (base # bs)"
    using assms by (auto simp: heap_ok_def)
  have "ptr_path (hptr (u_mem s)) base bs base" using l by (simp add: layout_def)
  from path_rotate [OF this layout_distinct [OF l] f] that show ?thesis by metis
qed

lemma malloc_found:
  assumes h: "heap_ok base bs al s" and b: "\<exists>b \<in> set bs. n \<le> hsize (u_mem s) b"
  obtains b p where "b \<in> set (base # bs)" "p \<in> set (base # bs)" "hptr (u_mem s) p = b" "n \<le> hsize (u_mem s) b"
    "malloc_loop room n (hptr (u_mem s) (u_freep s)) (u_freep s) s = Some (malloc_take n b p s)"
proof -
  let ?f = "u_freep s" and ?m = "u_mem s"
  obtain ys where y: "ptr_path (hptr ?m) ?f ys ?f" "distinct (?f # ys)" "set (?f # ys) = set (base # bs)"
    using h by (rule heap_circle)
  have "\<exists>x \<in> set (ys @ [?f]). n \<le> hsize ?m x" using b y(3) by auto
  then obtain us c vs where u: "ys @ [?f] = us @ c # vs" "n \<le> hsize ?m c" "\<forall>x \<in> set us. \<not> n \<le> hsize ?m x"
    by (rule split_list_first_propE)
  have us: "ptr_path (hptr ?m) ?f us c \<and> set us \<subseteq> set ys"
  proof (cases vs rule: rev_cases)
    case Nil
    then show ?thesis using u(1) y(1) by simp
  next
    case (snoc ws w)
    then have "ys = us @ c # ws" using u(1) by simp
    then show ?thesis using y(1) by (auto simp: path_append)
  qed
  have "c \<in> set (ys @ [?f])" unfolding u(1) by simp
  then have c: "c \<in> set (base # bs)" using y(3) by auto
  have p: "last (?f # us) \<in> set (base # bs)"
    using last_in_set [of "?f # us"] us y(3) by (auto simp del: last.simps)
  have "\<forall>x \<in> set us. hsize ?m x < n \<and> x \<noteq> ?f" using u(3) us y(2) by auto
  from malloc_skip [OF conjunct1 [OF us] this]
  have "malloc_loop room n (hptr ?m ?f) ?f s = Some (malloc_take n c (last (?f # us)) s)"
    using u(2) by (simp add: malloc_loop.simps [of room n c] del: last.simps)
  moreover have "hptr ?m (last (?f # us)) = c" using path_last [of "hptr ?m" ?f us "[]" c] us by simp
  ultimately show ?thesis using that c p u(2) by blast
qed

lemma malloc_none:
  assumes h: "heap_ok base bs al s" and b: "\<forall>b \<in> set bs. hsize (u_mem s) b < n" and n: "0 < n"
  shows "malloc_loop room n (hptr (u_mem s) (u_freep s)) (u_freep s) s =
    Option.bind (morecore room n s) (\<lambda>r. if fst r = 0 then Some (0, snd r)
      else malloc_loop room n (hptr (u_mem (snd r)) (fst r)) (fst r) (snd r))"
proof -
  let ?f = "u_freep s" and ?m = "u_mem s"
  obtain ys where y: "ptr_path (hptr ?m) ?f ys ?f" "distinct (?f # ys)" "set (?f # ys) = set (base # bs)"
    using h by (rule heap_circle)
  have "hsize ?m base = 0" using h by (simp add: heap_ok_def layout_def)
  then have a: "hsize ?m x < n" if "x \<in> set (?f # ys)" for x using that b n unfolding y(3) by auto
  then have "\<forall>x \<in> set ys. hsize ?m x < n \<and> x \<noteq> ?f" using y(2) by auto
  from malloc_skip [OF y(1) this] show ?thesis
    using a [of ?f] by (simp add: malloc_loop.simps [of room n ?f] del: last.simps)
qed

lemma PGROUNDUP_ge: "a \<le> KERNBASE \<Longrightarrow> a \<le> PGROUNDUP a"
  by (simp add: PGROUNDUP_def uadd_def PGSIZE_def KERNBASE_def)

lemma sbrk_more:
  assumes "0 < n" "8 * n < 2147483648" "u_brk s \<le> KERNBASE" "0 < u_brk s"
  shows "sbrk room (sint32 (umul n 8)) s =
    (if u_brk s + 8 * n < KERNBASE \<and> room (u_brk s + 8 * n)
     then (u_brk s, s\<lparr>u_brk := u_brk s + 8 * n, u_mem := (\<lambda>a.
       if PGROUNDUP (u_brk s) \<le> a \<and> a < PGROUNDUP (u_brk s + 8 * n) then 0 else u_mem s a)\<rparr>)
     else (0xffffffff, s))"
proof -
  have "sint32 (umul n 8) = int (8 * n)" using assms(2) by (simp add: sint32_def umul_def mult.commute)
  moreover have "pat32 (int (8 * n)) = 8 * n" using assms(2) by (simp add: pat32_def flip: zmod_int)
  moreover have "uadd (u_brk s) (8 * n) = u_brk s + 8 * n" using assms(2,3) by (simp add: uadd_def KERNBASE_def)
  ultimately show ?thesis using assms(1,4) by (simp add: sbrk_def Let_def)
qed

lemma layout_grow:
  assumes l: "layout base bs al nx sz hi" and hi: "base + 8 \<le> hi" and n: "0 < n"
  shows "layout base bs (insert hi al) nx (sz(hi := n)) (hi + 8 * n)" "hi \<notin> set (base # bs) \<union> al"
proof -
  note b = layout_bound [OF l]
  have lt: "a + 8 * sz a \<le> hi" "a < hi" if "a \<in> set bs \<union> al" for a using b [OF that] by auto
  then show h: "hi \<notin> set (base # bs) \<union> al" using hi by auto
  show "layout base bs (insert hi al) nx (sz(hi := n)) (hi + 8 * n)"
    unfolding layout_def
  proof (intro conjI)
    have "sorted_wrt (\<lambda>a b. a + 8 * sz a < b) bs" using l by (simp add: layout_def)
    then show "sorted_wrt (\<lambda>a b. a + 8 * (sz(hi := n)) a < b) bs"
      by (rule sorted_wrt_mono_rel [rotated]) (use h in auto)
    show "\<forall>a \<in> set bs \<union> insert hi al. 0 < (sz(hi := n)) a \<and> base + 8 \<le> a \<and> a + 8 * (sz(hi := n)) a \<le> hi + 8 * n"
    proof
      fix a assume a: "a \<in> set bs \<union> insert hi al"
      show "0 < (sz(hi := n)) a \<and> base + 8 \<le> a \<and> a + 8 * (sz(hi := n)) a \<le> hi + 8 * n"
      proof (cases "a = hi")
        case False
        then show ?thesis using b [of a] a by auto
      qed (use n hi in simp)
    qed
    show "\<forall>a \<in> insert hi al. \<forall>c \<in> set bs \<union> insert hi al. a \<noteq> c \<longrightarrow>
        a + 8 * (sz(hi := n)) a \<le> c \<or> c + 8 * (sz(hi := n)) c \<le> a"
    proof (intro ballI impI)
      fix a c assume a: "a \<in> insert hi al" "c \<in> set bs \<union> insert hi al" "a \<noteq> c"
      show "a + 8 * (sz(hi := n)) a \<le> c \<or> c + 8 * (sz(hi := n)) c \<le> a"
      proof (cases "a = hi \<or> c = hi")
        case True
        then show ?thesis using lt(1) [of a] lt(1) [of c] a by auto
      next
        case False
        then show ?thesis using layout_disjoint [OF l, of a c] a by auto
      qed
    qed
  qed (use l h in \<open>auto simp: layout_def\<close>)
qed

lemma get32_cong: "(\<And>x. p \<le> x \<Longrightarrow> x < p + 4 \<Longrightarrow> m x = m' x) \<Longrightarrow> get32 m p = get32 m' p"
  by (simp add: get32_def)

text \<open>Growing the process: the new memory is a block of its own, which is then given to \<open>free\<close>.\<close>

lemma grow_ok:
  assumes h: "heap_ok base bs al s" and n: "0 < n" "u_brk s + 8 * n \<le> KERNBASE"
    and m: "\<And>x. x < u_brk s \<Longrightarrow> m x = u_mem s x" "hsize m (u_brk s) = n"
  defines "s1 \<equiv> s\<lparr>u_brk := u_brk s + 8 * n, u_mem := m\<rparr>"
  shows "heap_ok base bs (insert (u_brk s) al) s1" "u_brk s \<notin> al" "kept al s s1"
    "area (hsize m) (set bs \<union> insert (u_brk s) al) = area (hsize (u_mem s)) (set bs \<union> al) \<union> {u_brk s ..< u_brk s1}"
proof -
  let ?b = "u_brk s"
  have l: "layout base bs al (hptr (u_mem s)) (hsize (u_mem s)) ?b" and b0: "0 < base" "base + 8 \<le> ?b"
    and f: "u_freep s \<in> set (base # bs)"
    using h by (auto simp: heap_ok_def)
  note g = layout_grow [OF l b0(2) n(1)]
  have lo: "a + 8 \<le> ?b" if "a \<in> set (base # bs) \<union> al" for a
  proof (cases "a = base")
    case False
    then show ?thesis using layout_bound [OF l, of a] that by auto
  qed (use b0 in simp)
  have eq: "hptr m a = hptr (u_mem s) a" "hsize m a = hsize (u_mem s) a" if "a \<in> set (base # bs) \<union> al" for a
    using lo [OF that] m(1) by (auto intro!: get32_cong)
  have "layout base bs (insert ?b al) (hptr m) (hsize m) (?b + 8 * n)"
    by (rule layout_cong [OF g(1)]) (use eq m(2) g(2) in auto)
  then show "heap_ok base bs (insert ?b al) s1" using f b0 n(2) by (simp add: heap_ok_def s1_def)
  show "?b \<notin> al" using g(2) by simp
  show "kept al s s1"
    unfolding kept_def
  proof (intro ballI conjI allI impI)
    fix a x assume a: "a \<in> al"
    show "hsize (u_mem s1) a = hsize (u_mem s) a" using eq(2) [of a] a by (simp add: s1_def)
    assume "a + 8 \<le> x \<and> x < a + 8 * hsize (u_mem s) a"
    moreover have "a + 8 * hsize (u_mem s) a \<le> ?b" using layout_bound(3) [OF l, of a] a by simp
    ultimately show "u_mem s1 x = u_mem s x" using m(1) [of x] by (simp add: s1_def)
  qed
  have "area (hsize m) (set bs \<union> al) = area (hsize (u_mem s)) (set bs \<union> al)" by (rule area_cong) (use eq in auto)
  then show "area (hsize m) (set bs \<union> insert ?b al) = area (hsize (u_mem s)) (set bs \<union> al) \<union> {?b ..< u_brk s1}"
    using m(2) by (simp add: area_insert s1_def Un_commute)
qed

text \<open>The kernel does not give the memory that a request of \<open>n\<close> units needs.\<close>

definition refused :: "(nat \<Rightarrow> bool) \<Rightarrow> nat \<Rightarrow> 'z heap_scheme \<Rightarrow> bool" where
  "refused room n s \<longleftrightarrow>
     \<not> (u_brk s + 8 * (if n < 4096 then 4096 else n) < KERNBASE \<and> room (u_brk s + 8 * (if n < 4096 then 4096 else n)))"

lemma morecore_ok:
  assumes h: "heap_ok base bs al s" and n: "0 < n" "8 * n < 2147483648"
  shows "morecore room n s = Some (0, s) \<and> refused room n s \<or>
    (\<exists>bs' s'. morecore room n s = Some (u_freep s', s') \<and> u_freep s' \<noteq> 0 \<and> heap_ok base bs' al s' \<and>
      (\<exists>b \<in> set bs'. n \<le> hsize (u_mem s') b) \<and> u_brk s \<le> u_brk s' \<and> kept al s s' \<and>
      area (hsize (u_mem s')) (set bs' \<union> al) = area (hsize (u_mem s)) (set bs \<union> al) \<union> {u_brk s ..< u_brk s'})"
proof -
  define nu where "nu = (if n < 4096 then 4096 else n)"
  have nu: "0 < nu" "8 * nu < 2147483648" "n \<le> nu" using n by (auto simp: nu_def)
  have b: "0 < u_brk s" "u_brk s \<le> KERNBASE" using h by (auto simp: heap_ok_def)
  note sb = sbrk_more [OF nu(1,2) b(2,1), of room]
  show ?thesis
  proof (cases "u_brk s + 8 * nu < KERNBASE \<and> room (u_brk s + 8 * nu)")
    case False
    then have "sbrk room (sint32 (umul nu 8)) s = (0xffffffff, s)" using sb by auto
    then show ?thesis using False by (simp add: morecore_def refused_def nu_def [symmetric] Let_def)
  next
    case True
    define m where "m = put32 (\<lambda>a. if PGROUNDUP (u_brk s) \<le> a \<and> a < PGROUNDUP (u_brk s + 8 * nu) then 0 else u_mem s a)
      (u_brk s + 4) nu"
    let ?s1 = "s\<lparr>u_brk := u_brk s + 8 * nu, u_mem := m\<rparr>"
    have "m x = u_mem s x" if "x < u_brk s" for x
      using PGROUNDUP_ge [OF b(2)] that by (simp add: m_def put32_out)
    moreover have "hsize m (u_brk s) = nu" using nu(2) by (simp add: m_def)
    ultimately have g: "heap_ok base bs (insert (u_brk s) al) ?s1" "u_brk s \<notin> al" "kept al s ?s1"
      "area (hsize m) (set bs \<union> insert (u_brk s) al) =
        area (hsize (u_mem s)) (set bs \<union> al) \<union> {u_brk s ..< u_brk s + 8 * nu}" "hsize m (u_brk s) = nu"
      using grow_ok [OF h nu(1), of m] True by simp_all
    obtain bs' s' where f: "free (u_brk s + 8) ?s1 = Some s'" "heap_ok base bs' al s'" "u_brk s' = u_brk ?s1"
      "area (hsize (u_mem s')) (set bs' \<union> al) = area (hsize (u_mem ?s1)) (set bs \<union> insert (u_brk s) al)"
      "\<exists>b \<in> set bs'. hsize (u_mem ?s1) (u_brk s) \<le> hsize (u_mem s') b" "kept al ?s1 s'"
      by (rule free_ok [OF g(1,2)])
    have "uadd (u_brk s) 8 = u_brk s + 8" "u_brk s \<noteq> 0xffffffff" using b(2) by (auto simp: uadd_def KERNBASE_def)
    then have "morecore room n s = Some (u_freep s', s')"
      using True sb f(1) by (simp add: morecore_def nu_def [symmetric] Let_def m_def)
    moreover have "u_freep s' \<noteq> 0" using f(2) layout_bound(2) by (fastforce simp: heap_ok_def)
    moreover have "\<exists>b \<in> set bs'. n \<le> hsize (u_mem s') b" using f(5) g(5) nu(3) by (auto intro: order_trans)
    moreover have "kept al s s'" using g(3) f(6) by (rule kept_trans)
    ultimately show ?thesis using f(2,3,4) g(4) by auto
  qed
qed

text \<open>What a call of \<open>malloc\<close> may end with: a block of \<open>n\<close> units, or 0 when the kernel has no more memory.\<close>

definition allocated ::
  "nat \<Rightarrow> nat list \<Rightarrow> nat set \<Rightarrow> 'z heap_scheme \<Rightarrow> nat \<Rightarrow> nat \<Rightarrow> 'z heap_scheme \<Rightarrow> bool" where
  "allocated base bs al s n r s' \<longleftrightarrow>
     (\<exists>a bs'. r = a + 8 \<and> a \<notin> al \<and> heap_ok base bs' (insert a al) s' \<and> hsize (u_mem s') a = n \<and>
        u_brk s \<le> u_brk s' \<and> kept al s s' \<and>
        area (hsize (u_mem s')) (set bs' \<union> insert a al) =
          area (hsize (u_mem s)) (set bs \<union> al) \<union> {u_brk s ..< u_brk s'})"

lemma malloc_reuses:
  assumes h: "heap_ok base bs al s" and n: "0 < n" and b: "\<exists>b \<in> set bs. n \<le> hsize (u_mem s) b"
  shows "\<exists>r s'. malloc_loop room n (hptr (u_mem s) (u_freep s)) (u_freep s) s = Some (r, s') \<and>
    allocated base bs al s n r s' \<and> u_brk s' = u_brk s"
proof -
  obtain c p where c: "c \<in> set (base # bs)" "p \<in> set (base # bs)" "hptr (u_mem s) p = c" "n \<le> hsize (u_mem s) c"
    "malloc_loop room n (hptr (u_mem s) (u_freep s)) (u_freep s) s = Some (malloc_take n c p s)"
    by (rule malloc_found [OF h b])
  obtain a bs' s' where "malloc_take n c p s = (a + 8, s')" "a \<notin> al" "heap_ok base bs' (insert a al) s'"
    "hsize (u_mem s') a = n" "u_brk s' = u_brk s"
    "area (hsize (u_mem s')) (set bs' \<union> insert a al) = area (hsize (u_mem s)) (set bs \<union> al)" "kept al s s'"
    by (rule malloc_take_ok [OF h c(1,2,3) n c(4)])
  then show ?thesis using c(5) by (auto simp: allocated_def)
qed

lemma malloc_loop_ok:
  assumes h: "heap_ok base bs al s" and n: "0 < n" "8 * n < 2147483648"
  shows "\<exists>r s'. malloc_loop room n (hptr (u_mem s) (u_freep s)) (u_freep s) s = Some (r, s') \<and>
    (r = 0 \<and> s' = s \<and> refused room n s \<or> allocated base bs al s n r s')"
proof (cases "\<exists>b \<in> set bs. n \<le> hsize (u_mem s) b")
  case True
  then show ?thesis using malloc_reuses [OF h n(1)] by blast
next
  case False
  then have "\<forall>b \<in> set bs. hsize (u_mem s) b < n" by auto
  note e = malloc_none [OF h this n(1), of room]
  from morecore_ok [OF h n, of room] show ?thesis
  proof (elim disjE exE conjE)
    assume "morecore room n s = Some (0, s)" "refused room n s"
    then show ?thesis by (simp add: e)
  next
    fix bs1 s1
    assume m: "morecore room n s = Some (u_freep s1, s1)" "u_freep s1 \<noteq> 0" "heap_ok base bs1 al s1"
      "\<exists>b \<in> set bs1. n \<le> hsize (u_mem s1) b" "u_brk s \<le> u_brk s1" "kept al s s1"
      "area (hsize (u_mem s1)) (set bs1 \<union> al) = area (hsize (u_mem s)) (set bs \<union> al) \<union> {u_brk s ..< u_brk s1}"
    obtain r s' where r: "malloc_loop room n (hptr (u_mem s1) (u_freep s1)) (u_freep s1) s1 = Some (r, s')"
      "allocated base bs1 al s1 n r s'" "u_brk s' = u_brk s1"
      using malloc_reuses [OF m(3) n(1) m(4)] by blast
    have "allocated base bs al s n r s'"
      using r(2,3) m(5,6,7) kept_trans [OF m(6)] by (fastforce simp: allocated_def)
    then show ?thesis using m(1,2) r(1) by (simp add: e)
  qed
qed

lemma nunits_small:
  assumes "n \<le> 2147483632"
  shows "nunits_of n = (n + 7) div 8 + 1" "0 < nunits_of n" "8 * nunits_of n < 2147483648" "n + 8 \<le> 8 * nunits_of n"
proof -
  have "uadd n 8 = n + 8" "usub (n + 8) 1 = n + 7" using assms by (simp_all add: uadd_small usub_small)
  then show e: "nunits_of n = (n + 7) div 8 + 1" using assms by (simp add: nunits_of_def uadd_def)
  show "0 < nunits_of n" "8 * nunits_of n < 2147483648" "n + 8 \<le> 8 * nunits_of n" unfolding e using assms by simp_all
qed

section \<open>Programs that use the allocator\<close>

text \<open>
  \<open>heap_run base live core s\<close>: a program has called \<open>malloc\<close> and \<open>free\<close> in some order and holds the blocks \<open>live\<close>,
  by the pointers it got with the sizes it asked for; it stores only into them, may call \<open>sbrk\<close> on its own, and
  \<open>core\<close> are the addresses that \<open>malloc\<close> got from \<open>sbrk\<close>. Requests are below \<open>2^31 - 15\<close> bytes.
\<close>

inductive heap_run :: "nat \<Rightarrow> (nat \<rightharpoonup> nat) \<Rightarrow> nat set \<Rightarrow> heap \<Rightarrow> bool" for base where
  run_start: "u_freep s = 0 \<Longrightarrow> 0 < base \<Longrightarrow> base + 8 \<le> u_brk s \<Longrightarrow> u_brk s \<le> KERNBASE \<Longrightarrow>
    heap_run base Map.empty {} s"
| run_malloc: "heap_run base live core s \<Longrightarrow> n \<le> 2147483632 \<Longrightarrow> malloc base room n s = Some (r, s') \<Longrightarrow>
    heap_run base (if r = 0 then live else live(r \<mapsto> n)) (core \<union> {u_brk s ..< u_brk s'}) s'"
| run_free: "heap_run base live core s \<Longrightarrow> live r = Some n \<Longrightarrow> free r s = Some s' \<Longrightarrow>
    heap_run base (live(r := None)) core s'"
| run_store: "heap_run base live core s \<Longrightarrow> live r = Some n \<Longrightarrow> (\<And>x. x < r \<or> r + n \<le> x \<Longrightarrow> m x = u_mem s x) \<Longrightarrow>
    heap_run base live core (s\<lparr>u_mem := m\<rparr>)"
| run_sbrk: "heap_run base live core s \<Longrightarrow> k < 2147483648 \<Longrightarrow> sbrk room (int k) s = (p, s') \<Longrightarrow>
    heap_run base live core s'"

definition in_use :: "(nat \<rightharpoonup> nat) \<Rightarrow> nat set" where
  "in_use live = {a. live (a + 8) \<noteq> None}"

definition recorded :: "(nat \<rightharpoonup> nat) \<Rightarrow> heap \<Rightarrow> bool" where
  "recorded live s \<longleftrightarrow> (\<forall>r n. live r = Some n \<longrightarrow> n \<le> 2147483632 \<and> (\<exists>a. r = a + 8 \<and> hsize (u_mem s) a = nunits_of n))"

definition heap_inv :: "nat \<Rightarrow> (nat \<rightharpoonup> nat) \<Rightarrow> nat set \<Rightarrow> heap \<Rightarrow> bool" where
  "heap_inv base live core s \<longleftrightarrow>
     (if u_freep s = 0 then live = Map.empty \<and> core = {} \<and> 0 < base \<and> base + 8 \<le> u_brk s \<and> u_brk s \<le> KERNBASE
      else (\<exists>bs. heap_ok base bs (in_use live) s \<and> area (hsize (u_mem s)) (set bs \<union> in_use live) = core) \<and>
        recorded live s)"

definition same_contents :: "(nat \<rightharpoonup> nat) \<Rightarrow> heap \<Rightarrow> heap \<Rightarrow> bool" where
  "same_contents live s s' \<longleftrightarrow> (\<forall>r n x. live r = Some n \<longrightarrow> r \<le> x \<longrightarrow> x < r + n \<longrightarrow> u_mem s' x = u_mem s x)"

lemma heap_ok_freep: "heap_ok base bs al s \<Longrightarrow> u_freep s \<noteq> 0"
  using layout_bound(2) by (fastforce simp: heap_ok_def)

lemma in_use_upd: "in_use (live(a + 8 \<mapsto> n)) = insert a (in_use live)" "in_use (live(a + 8 := None)) = in_use live - {a}"
  by (auto simp: in_use_def)

text \<open>The first call sets up \<open>base\<close> as an empty list.\<close>

definition started :: "nat \<Rightarrow> heap \<Rightarrow> heap" where
  "started base s = (if u_freep s = 0
     then s\<lparr>u_mem := put32 (put32 (u_mem s) base base) (base + 4) 0, u_freep := base\<rparr> else s)"

lemma malloc_started:
  "malloc base room n s =
   malloc_loop room (nunits_of n) (hptr (u_mem (started base s)) (u_freep (started base s))) (u_freep (started base s)) (started base s)"
  by (simp add: malloc_def started_def Let_def)

lemma started_ok:
  assumes "heap_inv base live core s"
  shows "\<exists>bs. heap_ok base bs (in_use live) (started base s) \<and>
      area (hsize (u_mem (started base s))) (set bs \<union> in_use live) = core"
    and "recorded live (started base s)"
    and "u_brk (started base s) = u_brk s" "same_contents live s (started base s)"
proof -
  show "u_brk (started base s) = u_brk s" by (simp add: started_def)
  have "(\<exists>bs. heap_ok base bs (in_use live) (started base s) \<and>
      area (hsize (u_mem (started base s))) (set bs \<union> in_use live) = core) \<and>
    recorded live (started base s) \<and>
    same_contents live s (started base s)"
  proof (cases "u_freep s = 0")
    case True
    then have i: "live = Map.empty" "core = {}" "0 < base" "base + 8 \<le> u_brk s" "u_brk s \<le> KERNBASE"
      using assms by (simp_all add: heap_inv_def)
    have "base < 4294967296" using i(4,5) by (simp add: KERNBASE_def)
    then have "layout base [] {} (hptr (u_mem (started base s))) (hsize (u_mem (started base s))) (u_brk s)"
      using True by (simp add: layout_def started_def get32_put32_other)
    then have "heap_ok base [] (in_use live) (started base s)"
      using True i by (simp add: heap_ok_def started_def in_use_def)
    then show ?thesis using i by (auto simp: in_use_def area_def same_contents_def recorded_def)
  next
    case False
    then have st: "started base s = s" by (simp add: started_def)
    have "(\<exists>bs. heap_ok base bs (in_use live) s \<and> area (hsize (u_mem s)) (set bs \<union> in_use live) = core) \<and>
        recorded live s"
      using assms unfolding heap_inv_def if_not_P [OF False] .
    then show ?thesis unfolding st same_contents_def by blast
  qed
  then show "\<exists>bs. heap_ok base bs (in_use live) (started base s) \<and>
      area (hsize (u_mem (started base s))) (set bs \<union> in_use live) = core"
    "recorded live (started base s)"
    "same_contents live s (started base s)" by blast+
qed

text \<open>Contents of blocks as the program knows them.\<close>

lemma kept_contents:
  assumes "kept (in_use live) s s'"
    and "recorded live s"
  shows "same_contents live s s'"
    and "recorded live s'"
proof -
  have k: "hsize (u_mem s') a = hsize (u_mem s) a"
    "\<And>x. a + 8 \<le> x \<Longrightarrow> x < a + 8 * hsize (u_mem s) a \<Longrightarrow> u_mem s' x = u_mem s x" if "live (a + 8) = Some n" for a n
    using assms(1) that by (auto simp: kept_def in_use_def)
  show "same_contents live s s'"
    unfolding same_contents_def
  proof (intro allI impI)
    fix r n x assume r: "live r = Some n" "r \<le> x" "x < r + n"
    then obtain a where a: "r = a + 8" "hsize (u_mem s) a = nunits_of n" "n \<le> 2147483632"
      using assms(2) by (auto simp: recorded_def)
    have "n + 8 \<le> 8 * nunits_of n" by (rule nunits_small(4) [OF a(3)])
    then show "u_mem s' x = u_mem s x" using k(2) [of a n x] r a by simp
  qed
  show "recorded live s'"
    using assms(2) k(1) unfolding recorded_def by metis
qed

lemma heap_inv_started:
  "heap_ok base bs (in_use live) s \<Longrightarrow> area (hsize (u_mem s)) (set bs \<union> in_use live) = core \<Longrightarrow>
   recorded live s \<Longrightarrow> heap_inv base live core s"
  by (frule heap_ok_freep) (auto simp: heap_inv_def)

lemma heap_inv_live:
  assumes "heap_inv base live core s" "live r = Some n"
  obtains bs where "heap_ok base bs (in_use live) s" "area (hsize (u_mem s)) (set bs \<union> in_use live) = core"
    "recorded live s"
  using assms by (auto simp: heap_inv_def split: if_splits)

lemma same_contents_trans: "same_contents live s t \<Longrightarrow> same_contents live t u \<Longrightarrow> same_contents live s u"
  by (simp add: same_contents_def)

lemma recorded_0: "recorded live s \<Longrightarrow> live 0 = None"
proof (cases "live 0")
  case (Some n)
  assume "recorded live s"
  with Some have "\<exists>a. 0 = a + 8 \<and> hsize (u_mem s) a = nunits_of n" unfolding recorded_def by blast
  then show ?thesis by simp
qed

lemma malloc_step:
  assumes i: "heap_inv base live core s" and n: "n \<le> 2147483632"
  obtains r s' where "malloc base room n s = Some (r, s')" "live r = None" "same_contents live s s'"
    "r = 0 \<Longrightarrow> refused room (nunits_of n) s"
    "heap_inv base (if r = 0 then live else live(r \<mapsto> n)) (core \<union> {u_brk s ..< u_brk s'}) s'"
proof -
  let ?s = "started base s" and ?al = "in_use live"
  obtain bs where b: "heap_ok base bs ?al ?s" "area (hsize (u_mem ?s)) (set bs \<union> ?al) = core"
    using started_ok(1) [OF i] by blast
  note st = started_ok(2-4) [OF i]
  obtain r s' where r: "malloc base room n s = Some (r, s')" "r = 0 \<and> s' = ?s \<and> refused room (nunits_of n) ?s \<or> allocated base bs ?al ?s (nunits_of n) r s'"
    using malloc_loop_ok [OF b(1) nunits_small(2,3) [OF n], of room] by (auto simp: malloc_started)
  from r(2) show ?thesis
  proof
    assume z: "r = 0 \<and> s' = ?s \<and> refused room (nunits_of n) ?s"
    then have "refused room (nunits_of n) s" using st(2) by (simp add: refused_def)
    moreover have "live 0 = None" by (rule recorded_0 [OF st(1)])
    moreover have "heap_inv base live core ?s" using b st(1) by (rule heap_inv_started)
    ultimately show ?thesis using that [of r s'] r(1) st z by simp
  next
    assume "allocated base bs ?al ?s (nunits_of n) r s'"
    then obtain a bs' where a: "r = a + 8" "a \<notin> ?al" "heap_ok base bs' (insert a ?al) s'"
      "hsize (u_mem s') a = nunits_of n" "u_brk ?s \<le> u_brk s'" "kept ?al ?s s'"
      "area (hsize (u_mem s')) (set bs' \<union> insert a ?al) = core \<union> {u_brk ?s ..< u_brk s'}"
      using b(2) by (auto simp: allocated_def)
    note k = kept_contents [OF a(6) st(1)]
    have "live r = None" using a(1,2) by (simp add: in_use_def)
    moreover have "recorded (live(r \<mapsto> n)) s'" using k(2) a(1,4) n by (auto simp: recorded_def)
    ultimately show ?thesis
      using that [of r s'] r(1) a(1,3,7) st(2) same_contents_trans [OF st(3) k(1)]
        heap_inv_started [of base bs' "live(r \<mapsto> n)" s'] by (simp add: in_use_upd)
  qed
qed

lemma free_step:
  assumes i: "heap_inv base live core s" and r: "live r = Some n"
  obtains s' where "free r s = Some s'" "u_brk s' = u_brk s" "same_contents (live(r := None)) s s'"
    "heap_inv base (live(r := None)) core s'"
    "\<forall>k \<le> n. \<exists>r' s''. malloc base room k s' = Some (r', s'') \<and> r' \<noteq> 0 \<and> u_brk s'' = u_brk s'"
proof -
  obtain bs where b: "heap_ok base bs (in_use live) s" "area (hsize (u_mem s)) (set bs \<union> in_use live) = core"
    and rec: "recorded live s"
    by (rule heap_inv_live [OF i r])
  obtain a where a: "r = a + 8" "hsize (u_mem s) a = nunits_of n" "n \<le> 2147483632"
    using rec r by (auto simp: recorded_def)
  let ?al = "in_use (live(r := None))"
  have al: "in_use live = insert a ?al" "a \<notin> ?al" using r a(1) by (auto simp: in_use_def)
  obtain bs' s' where f: "free (a + 8) s = Some s'" "heap_ok base bs' ?al s'" "u_brk s' = u_brk s"
    "area (hsize (u_mem s')) (set bs' \<union> ?al) = area (hsize (u_mem s)) (set bs \<union> insert a ?al)"
    "\<exists>b \<in> set bs'. hsize (u_mem s) a \<le> hsize (u_mem s') b" "kept ?al s s'"
    by (rule free_ok [OF b(1) [unfolded al(1)] al(2)])
  have rec': "recorded (live(r := None)) s" using rec by (simp add: recorded_def)
  note k = kept_contents [OF f(6) rec']
  have re: "\<exists>r' s''. malloc base room k s' = Some (r', s'') \<and> r' \<noteq> 0 \<and> u_brk s'' = u_brk s'" if "k \<le> n" for k
  proof -
    have kn: "k \<le> 2147483632" using that a(3) by simp
    have "nunits_of k \<le> nunits_of n" using that nunits_small(1) [OF kn] nunits_small(1) [OF a(3)] by (simp add: div_le_mono)
    then have "\<exists>b \<in> set bs'. nunits_of k \<le> hsize (u_mem s') b" using f(5) a(2) by (auto intro: order_trans)
    moreover have "started base s' = s'" using heap_ok_freep [OF f(2)] by (simp add: started_def)
    ultimately show ?thesis
      using malloc_reuses [OF f(2) nunits_small(2) [OF kn], of room] by (auto simp: malloc_started allocated_def)
  qed
  have "heap_inv base (live(r := None)) core s'"
    using f(2) _ k(2) by (rule heap_inv_started) (use f(4) b(2) al(1) in simp)
  then show ?thesis using that f(1,3) k(1) re a(1) by simp
qed

lemma store_step:
  assumes i: "heap_inv base live core s" and r: "live r = Some n" and m: "\<And>x. x < r \<or> r + n \<le> x \<Longrightarrow> m x = u_mem s x"
  shows "heap_inv base live core (s\<lparr>u_mem := m\<rparr>)"
proof -
  obtain bs where b: "heap_ok base bs (in_use live) s" "area (hsize (u_mem s)) (set bs \<union> in_use live) = core"
    and rec: "recorded live s"
    by (rule heap_inv_live [OF i r])
  then have l: "layout base bs (in_use live) (hptr (u_mem s)) (hsize (u_mem s)) (u_brk s)" by (simp add: heap_ok_def)
  obtain a where a: "r = a + 8" "hsize (u_mem s) a = nunits_of n" "n \<le> 2147483632"
    using rec r by (auto simp: recorded_def)
  have au: "a \<in> in_use live" using r a(1) by (simp add: in_use_def)
  have e: "n + 8 \<le> 8 * hsize (u_mem s) a" using nunits_small(4) [OF a(3)] a(2) by simp
  have out: "c + 8 \<le> r \<or> r + n \<le> c" if c: "c \<in> set (base # bs) \<union> in_use live" for c
  proof (cases "c = a \<or> c = base")
    case True
    then show ?thesis using layout_bound(2) [OF l, of a] au a(1) by auto
  next
    case False
    then have "c \<in> set bs \<union> in_use live" using c by auto
    then show ?thesis using layout_disjoint [OF l, of a c] layout_bound(1) [OF l, of c] au False a(1) e by auto
  qed
  have eq: "hptr m c = hptr (u_mem s) c" "hsize m c = hsize (u_mem s) c" if "c \<in> set (base # bs) \<union> in_use live" for c
    using out [OF that] m by (auto intro!: get32_cong)
  have "layout base bs (in_use live) (hptr m) (hsize m) (u_brk s)"
    by (rule layout_cong [OF l]) (use eq in auto)
  moreover have "area (hsize m) (set bs \<union> in_use live) = core"
    using area_cong [of "set bs \<union> in_use live" "hsize m" "hsize (u_mem s)"] eq(2) b(2) by auto
  moreover have "recorded live (s\<lparr>u_mem := m\<rparr>)"
    unfolding recorded_def
  proof (intro allI impI)
    fix q k assume q: "live q = Some k"
    then obtain c where c: "q = c + 8" "hsize (u_mem s) c = nunits_of k" "k \<le> 2147483632"
      using rec by (auto simp: recorded_def)
    then have "c \<in> in_use live" using q by (simp add: in_use_def)
    then show "k \<le> 2147483632 \<and> (\<exists>a. q = a + 8 \<and> hsize (u_mem (s\<lparr>u_mem := m\<rparr>)) a = nunits_of k)"
      using c eq(2) [of c] by auto
  qed
  ultimately show ?thesis using b(1) by (intro heap_inv_started) (auto simp: heap_ok_def)
qed

lemma sbrk_grows:
  assumes "k < 2147483648" "u_brk s \<le> KERNBASE" "0 < u_brk s" "sbrk room (int k) s = (p, s')"
  shows "u_brk s \<le> u_brk s'" "u_brk s' \<le> KERNBASE" "u_freep s' = u_freep s" "\<And>x. x < u_brk s \<Longrightarrow> u_mem s' x = u_mem s x"
proof -
  have "pat32 (int k) = k" using assms(1) by (simp add: pat32_def flip: zmod_int)
  moreover have "uadd (u_brk s) k = u_brk s + k" using assms(1,2) by (simp add: uadd_def KERNBASE_def)
  ultimately have s: "u_brk s \<le> u_brk s' \<and> u_brk s' \<le> KERNBASE \<and> u_freep s' = u_freep s \<and>
      (\<forall>x. x < PGROUNDUP (u_brk s) \<longrightarrow> u_mem s' x = u_mem s x)"
    using assms(2,3,4) by (auto simp: sbrk_def Let_def split: if_splits)
  then show "u_brk s \<le> u_brk s'" "u_brk s' \<le> KERNBASE" "u_freep s' = u_freep s" by simp_all
  show "u_mem s' x = u_mem s x" if "x < u_brk s" for x
    using s PGROUNDUP_ge [OF assms(2)] that by simp
qed

lemma layout_mono:
  assumes l: "layout base bs al nx sz hi" and "hi \<le> hi'"
  shows "layout base bs al nx sz hi'"
proof -
  have "\<forall>a \<in> set bs \<union> al. 0 < sz a \<and> base + 8 \<le> a \<and> a + 8 * sz a \<le> hi'"
    using layout_bound [OF l] assms(2) by (blast intro: order_trans)
  then show ?thesis using l unfolding layout_def by simp
qed

lemma sbrk_step:
  assumes i: "heap_inv base live core s"
    and g: "u_brk s \<le> u_brk s'" "u_brk s' \<le> KERNBASE" "u_freep s' = u_freep s" "\<And>x. x < u_brk s \<Longrightarrow> u_mem s' x = u_mem s x"
  shows "heap_inv base live core s'"
proof (cases "u_freep s = 0")
  case True
  then show ?thesis using i g by (simp add: heap_inv_def)
next
  case False
  then obtain bs where b: "heap_ok base bs (in_use live) s" "area (hsize (u_mem s)) (set bs \<union> in_use live) = core"
    and rec: "recorded live s"
    using i by (auto simp: heap_inv_def)
  then have l: "layout base bs (in_use live) (hptr (u_mem s)) (hsize (u_mem s)) (u_brk s)" and b0: "base + 8 \<le> u_brk s"
    by (simp_all add: heap_ok_def)
  have lo: "c + 8 \<le> u_brk s" if "c \<in> set (base # bs) \<union> in_use live" for c
  proof (cases "c = base")
    case False
    then show ?thesis using layout_bound [OF l, of c] that by auto
  qed (use b0 in simp)
  have eq: "hptr (u_mem s') c = hptr (u_mem s) c" "hsize (u_mem s') c = hsize (u_mem s) c"
    if "c \<in> set (base # bs) \<union> in_use live" for c
    using lo [OF that] g(4) by (auto intro!: get32_cong)
  have "layout base bs (in_use live) (hptr (u_mem s)) (hsize (u_mem s)) (u_brk s')"
    using l g(1) by (rule layout_mono)
  then have "layout base bs (in_use live) (hptr (u_mem s')) (hsize (u_mem s')) (u_brk s')"
    by (rule layout_cong) (use eq in auto)
  then have "heap_ok base bs (in_use live) s'" using b(1) g by (simp add: heap_ok_def)
  moreover have "area (hsize (u_mem s')) (set bs \<union> in_use live) = core"
    using area_cong [of "set bs \<union> in_use live" "hsize (u_mem s')" "hsize (u_mem s)"] eq(2) b(2) by auto
  moreover have "recorded live s'"
    unfolding recorded_def
  proof (intro allI impI)
    fix q k assume q: "live q = Some k"
    then obtain c where c: "q = c + 8" "hsize (u_mem s) c = nunits_of k" "k \<le> 2147483632"
      using rec by (auto simp: recorded_def)
    then have "c \<in> in_use live" using q by (simp add: in_use_def)
    then show "k \<le> 2147483632 \<and> (\<exists>a. q = a + 8 \<and> hsize (u_mem s') a = nunits_of k)"
      using c eq(2) [of c] by auto
  qed
  ultimately show ?thesis by (rule heap_inv_started)
qed

lemma heap_inv_brk: "heap_inv base live core s \<Longrightarrow> 0 < u_brk s \<and> u_brk s \<le> KERNBASE"
  by (auto simp: heap_inv_def heap_ok_def split: if_splits)

lemma heap_run_inv: "heap_run base live core s \<Longrightarrow> heap_inv base live core s"
proof (induction rule: heap_run.induct)
  case (run_start s)
  then show ?case by (simp add: heap_inv_def)
next
  case (run_malloc live core s n room r s')
  obtain q t where "malloc base room n s = Some (q, t)"
    "heap_inv base (if q = 0 then live else live(q \<mapsto> n)) (core \<union> {u_brk s ..< u_brk t}) t"
    by (rule malloc_step [OF run_malloc.IH run_malloc.hyps(2), of room])
  then show ?case using run_malloc.hyps(3) by (cases "q = 0") (auto simp: fun_upd_def)
next
  case (run_free live core s r n s')
  obtain t where "free r s = Some t" "heap_inv base (live(r := None)) core t"
    by (rule free_step [OF run_free.IH run_free.hyps(2)])
  then show ?case using run_free.hyps(3) by (simp add: fun_upd_def)
next
  case (run_store live core s r n m)
  then show ?case using store_step by blast
next
  case (run_sbrk live core s k room p s')
  have "0 < u_brk s" "u_brk s \<le> KERNBASE" using heap_inv_brk [OF run_sbrk.IH] by simp_all
  from sbrk_grows [OF run_sbrk.hyps(2) this(2,1) run_sbrk.hyps(3)] show ?case by (rule sbrk_step [OF run_sbrk.IH])
qed

text \<open>
  C27: For every program that calls \<open>malloc\<close> and \<open>free\<close> as it should, in any order, with requests below \<open>2^31 - 15\<close>
  bytes: the blocks it holds lie within the process and do not overlap; every byte that the
  allocator got from \<open>sbrk\<close> is in a block that is in use or free; a further \<open>malloc\<close> returns, with a new block or with
  0, which happens only if the kernel refuses \<open>sbrk\<close>, and a \<open>free\<close> of a block it holds returns, and neither changes the contents of
  another block; and after a \<open>free\<close> a request of no more bytes is satisfied without \<open>sbrk\<close>.
\<close>

theorem malloc_free_safe:
  assumes "heap_run base live core s"
  shows "(\<forall>r n. live r = Some n \<longrightarrow> base + 16 \<le> r \<and> r + n \<le> u_brk s \<and>
      (\<forall>r' n'. live r' = Some n' \<longrightarrow> r \<noteq> r' \<longrightarrow> r + n \<le> r' \<or> r' + n' \<le> r)) \<and>
    (u_freep s \<noteq> 0 \<longrightarrow> (\<exists>bs. heap_ok base bs (in_use live) s \<and> area (hsize (u_mem s)) (set bs \<union> in_use live) = core)) \<and>
    (\<forall>n \<le> 2147483632. \<exists>r s'. malloc base room n s = Some (r, s') \<and> live r = None \<and> same_contents live s s' \<and>
      (r = 0 \<longrightarrow> refused room (nunits_of n) s)) \<and>
    (\<forall>r n. live r = Some n \<longrightarrow> (\<exists>s'. free r s = Some s' \<and> u_brk s' = u_brk s \<and>
      same_contents (live(r := None)) s s' \<and>
      (\<forall>k \<le> n. \<exists>r' s''. malloc base room k s' = Some (r', s'') \<and> r' \<noteq> 0 \<and> u_brk s'' = u_brk s')))"
proof -
  have i: "heap_inv base live core s" using assms by (rule heap_run_inv)
  have blk: "\<exists>a bs. r = a + 8 \<and> heap_ok base bs (in_use live) s \<and> a \<in> in_use live \<and> n + 8 \<le> 8 * hsize (u_mem s) a"
    if r: "live r = Some n" for r n
  proof -
    obtain bs where b: "heap_ok base bs (in_use live) s" "recorded live s" by (rule heap_inv_live [OF i r])
    then obtain a where "r = a + 8" "hsize (u_mem s) a = nunits_of n" "n \<le> 2147483632"
      using r by (auto simp: recorded_def)
    then show ?thesis using b(1) r nunits_small(4) [of n] by (auto simp: in_use_def)
  qed
  show ?thesis
  proof (intro conjI allI impI)
    fix r n assume r: "live r = Some n"
    obtain a bs where a: "r = a + 8" "heap_ok base bs (in_use live) s" "a \<in> in_use live" "n + 8 \<le> 8 * hsize (u_mem s) a"
      using blk [OF r] by blast
    then have l: "layout base bs (in_use live) (hptr (u_mem s)) (hsize (u_mem s)) (u_brk s)" by (simp add: heap_ok_def)
    show "base + 16 \<le> r" "r + n \<le> u_brk s" using layout_bound(2,3) [OF l UnI2 [OF a(3)]] a(1,4) by simp_all
    fix r' n' assume r': "live r' = Some n'" "r \<noteq> r'"
    obtain c where c: "r' = c + 8" "c \<in> in_use live" "n' + 8 \<le> 8 * hsize (u_mem s) c" using blk [OF r'(1)] by blast
    have "a + 8 * hsize (u_mem s) a \<le> c \<or> c + 8 * hsize (u_mem s) c \<le> a"
      by (rule layout_disjoint [OF l UnI2 [OF a(3)] UnI2 [OF c(2)]]) (use a(1) c(1) r'(2) in simp)
    then show "r + n \<le> r' \<or> r' + n' \<le> r" using a(1,4) c(1,3) by linarith
  next
    assume "u_freep s \<noteq> 0"
    then show "\<exists>bs. heap_ok base bs (in_use live) s \<and> area (hsize (u_mem s)) (set bs \<union> in_use live) = core"
      using i by (simp add: heap_inv_def)
  next
    fix n :: nat assume "n \<le> 2147483632"
    then show "\<exists>r s'. malloc base room n s = Some (r, s') \<and> live r = None \<and> same_contents live s s' \<and>
        (r = 0 \<longrightarrow> refused room (nunits_of n) s)"
      by (rule malloc_step [OF i, of _ room]) auto
  next
    fix r n assume "live r = Some n"
    then show "\<exists>s'. free r s = Some s' \<and> u_brk s' = u_brk s \<and> same_contents (live(r := None)) s s' \<and>
        (\<forall>k \<le> n. \<exists>r' s''. malloc base room k s' = Some (r', s'') \<and> r' \<noteq> 0 \<and> u_brk s'' = u_brk s')"
      by (rule free_step [OF i, of _ _ room]) auto
  qed
qed

definition demo_heap :: heap where
  "demo_heap = \<lparr>u_mem = zero_block, u_freep = 0, u_brk = 0x3000\<rparr>"

lemma malloc_free_safe_witness:
  "\<exists>r s. malloc 0x1000 (\<lambda>_. True) 100 demo_heap = Some (r, s) \<and> r \<noteq> 0 \<and> r + 100 \<le> u_brk s \<and>
     (\<exists>t. free r s = Some t \<and>
       (\<exists>q u. malloc 0x1000 (\<lambda>_. False) 100 t = Some (q, u) \<and> q \<noteq> 0 \<and> u_brk u = u_brk t))"
proof -
  have d: "heap_run 0x1000 Map.empty {} demo_heap"
    by (rule run_start) (simp_all add: demo_heap_def KERNBASE_def)
  have "\<not> refused (\<lambda>_. True) (nunits_of 100) demo_heap"
    by (simp add: refused_def demo_heap_def nunits_small KERNBASE_def)
  moreover have "\<forall>n \<le> 2147483632. \<exists>r s'. malloc 0x1000 (\<lambda>_. True) n demo_heap = Some (r, s') \<and>
      (r = 0 \<longrightarrow> refused (\<lambda>_. True) (nunits_of n) demo_heap)"
    using malloc_free_safe [OF d, of "\<lambda>_. True"] by meson
  then have "\<exists>r s'. malloc 0x1000 (\<lambda>_. True) 100 demo_heap = Some (r, s') \<and>
      (r = 0 \<longrightarrow> refused (\<lambda>_. True) (nunits_of 100) demo_heap)" by simp
  ultimately obtain r s where s: "malloc 0x1000 (\<lambda>_. True) 100 demo_heap = Some (r, s)" "r \<noteq> 0" by blast
  from run_malloc [OF d _ s(1)]
  have run: "heap_run 0x1000 [r \<mapsto> 100] ({} \<union> {u_brk demo_heap ..< u_brk s}) s" using s(2) by simp
  note p = malloc_free_safe [OF run, of "\<lambda>_. False"]
  have l: "[r \<mapsto> 100] r = Some (100 :: nat)" by simp
  have "r + 100 \<le> u_brk s" using p l by blast
  moreover have "\<exists>t. free r s = Some t \<and>
      (\<forall>k \<le> 100. \<exists>r' s''. malloc 0x1000 (\<lambda>_. False) k t = Some (r', s'') \<and> r' \<noteq> 0 \<and> u_brk s'' = u_brk t)"
    using p l by meson
  ultimately show ?thesis using s by (meson order_refl)
qed

text \<open>
  A request just below \<open>2^32\<close> bytes wraps around in the computation of the number of units: \<open>malloc\<close> then returns a
  block without a single byte for the caller.
\<close>

lemma malloc_wraps:
  assumes "heap_ok base bs al s" "bs \<noteq> []"
  shows "\<exists>a s'. malloc base room 4294967295 s = Some (a + 8, s') \<and> hsize (u_mem s') a = 1"
proof -
  have n: "nunits_of 4294967295 = 1" by (simp add: nunits_of_def uadd_def usub_def)
  obtain b where b: "b \<in> set bs" using assms(2) by (cases bs) auto
  have "1 \<le> hsize (u_mem s) b"
    using assms(1) layout_bound(1) [of base bs al _ _ _ b] b by (fastforce simp: heap_ok_def)
  then obtain r s' where
    "malloc_loop room 1 (hptr (u_mem s) (u_freep s)) (u_freep s) s = Some (r, s')" "allocated base bs al s 1 r s'"
    using malloc_reuses [OF assms(1), of 1 room] b by auto
  then show ?thesis using heap_ok_freep [OF assms(1)] by (auto simp: malloc_def n Let_def allocated_def)
qed

end
