(* ===== verification/Spec2Isabelle.thy ===== *)
theory Spec2Isabelle
  imports Lru Fs_Props Proc_Props Sh_Props Spinlock Grep Console Umalloc_Props
begin

text \<open>
  This development models the xv6 kernel with an ext2 file system whose C sources are in \<open>src/\<close>, and
  the parts of its user programs that compute, and proves what each part promises to the others.

  \<^bold>\<open>The program.\<close> At the bottom is the disk driver (\<open>ide.c\<close>, or \<open>memide.c\<close> in its place), above it the
  buffer cache (\<open>bio.c\<close>), the write-ahead log (\<open>log.c\<close>), and two file systems: the xv6 file system
  (\<open>fs.c\<close>), whose changes go through the log, and the ext2 file system (\<open>ext2fs.c\<close>) on the second disk,
  which writes its blocks directly. Both share one inode cache and are reached through the function table
  \<open>ip->iops\<close>; a path walk crosses from one to the other at \<open>/mnt\<close>. Open files (\<open>file.c\<close>) are inodes or
  pipes (\<open>pipe.c\<close>), and the file system calls (\<open>sysfile.c\<close>) work on the descriptors of a process, with
  arguments taken from user memory by \<open>syscall.c\<close>. Physical pages come from \<open>kalloc.c\<close>, address
  spaces are built from them by \<open>vm.c\<close>, and processes (\<open>proc.c\<close>) own an address space, a kernel
  stack, descriptors and a directory. Spin locks (\<open>spinlock.c\<close>) protect the tables. The console
  (\<open>console.c\<close>) edits lines and formats output. Of the user programs, the shell's parser (\<open>sh.c\<close>),
  \<open>grep.c\<close>, \<open>printf.c\<close>, \<open>ulib.c\<close> and the allocator \<open>umalloc.c\<close> are here.

  \<^bold>\<open>How it is modelled.\<close> A routine is a function on an explicit state that returns its result and the new
  state, or the way it fails to return (\<open>fault\<close> of \<open>Prelude\<close>: a panic with its message, a process asleep
  for ever, a loop that does not end, an undefined access). The states are records that extend each other
  as the layers do: \<open>io\<close> (disks and buffers, \<open>Ide\<close>), \<open>bio\<close> (the cache), \<open>logst\<close> (the log),
  \<open>fsys\<close> (inodes and both file systems), \<open>ksys\<close> (open files, pipes, the running process), \<open>psys\<close> (the
  process table and the spin locks of the CPUs). A routine of a lower layer is polymorphic in the rest of the record, so it runs
  unchanged inside every higher layer. \<open>uint\<close> is \<open>nat\<close> with the reduction modulo \<open>2^32\<close> written out (\<open>uadd\<close>,
  \<open>usub\<close>), \<open>int\<close> is \<open>int\<close> read from 32 bits by \<open>sint32\<close>, a byte is an \<open>8 word\<close>, memory is a function from
  addresses to bytes, and the on-disk structures are read and written as their bytes.

  \<^bold>\<open>Theories.\<close>
  \<^item> \<open>Prelude\<close>: outcomes, unsigned arithmetic, blocks of bytes, little-endian fields and their round trips.
  \<^item> \<open>Ide\<close> (\<open>ide.c\<close>, \<open>memide.c\<close>, \<open>buf.h\<close>, \<open>sleeplock.c\<close>): the request queue, the registers and the
    interrupt. \<open>Bio\<close> (\<open>bio.c\<close>): lookup and recycling of buffers; the locale \<open>block_cache\<close> is the contract
    of a cache (what is written is read, nothing else changes) and \<open>bread\<close>, \<open>bwrite\<close>, \<open>brelse\<close> are
    shown to satisfy it over the driver. \<open>Lru\<close>: the list of buffers through its pointers implements the
    list that \<open>Bio\<close> uses.
  \<^item> \<open>Fs_Layout\<close> (\<open>fs.h\<close>) and \<open>Log\<close> (\<open>log.c\<close>): transactions as a step relation, commit and recovery. The
    result is atomicity at every crash point, durability, and the space that a transaction may use (the
    relation \<open>block_run\<close> records the different blocks of each operation); the locale \<open>journal\<close> is what the file system relies on.
  \<^item> \<open>Inode\<close>, \<open>Fs\<close>, \<open>Fs_Blocks\<close>, \<open>Fs_Map\<close>, \<open>Fs_File\<close>, \<open>Fs_Read\<close>, \<open>Fs_Write\<close>, \<open>Fs_Props\<close> (\<open>fs.c\<close>, \<open>icache.h\<close>, \<open>file.h\<close>):
    the block allocator against the free map, the block map of a file, and that \<open>readi\<close> and \<open>writei\<close>
    read and write exactly the bytes they should. \<open>Ext2fs\<close> (\<open>ext2fs.c\<close>) is the model of the second file
    system, and \<open>Namei\<close> that of path names over both.
  \<^item> \<open>Kalloc\<close> (\<open>kalloc.c\<close>): no page has two owners; locale \<open>page_allocator\<close>. \<open>Vm\<close>, \<open>Vm_Map\<close>, \<open>Vm_Own\<close>,
    \<open>Vm_Fork\<close>, \<open>Vm_Props\<close> (\<open>vm.c\<close>): page tables as functions from virtual pages to entries, and that
    every operation moves pages between the free list and the address space without loss.
  \<^item> \<open>Ring\<close>, \<open>Pipe\<close> (\<open>pipe.c\<close>): ring buffers with wrapping counters are queues, under every interleaving
    of readers, writers and closes; locales \<open>ring\<close> and \<open>bounded_fifo\<close>.
  \<^item> \<open>File\<close>, \<open>Syscall\<close>, \<open>Sysfile\<close>, \<open>Frame\<close>, \<open>Sysfile_Props\<close> (\<open>file.c\<close>, \<open>syscall.c\<close>, \<open>sysfile.c\<close>): every
    system call on files, what the layers below leave alone, that arguments stay inside the
    process, and that reference counts are exact.
  \<^item> \<open>Proc\<close>, \<open>Proc_Locks\<close>, \<open>Proc_Mem\<close>, \<open>Proc_Files\<close>, \<open>Proc_Inv\<close>, \<open>Proc_Calls\<close>, \<open>Proc_Fork\<close>, \<open>Proc_Boot\<close>, \<open>Proc_Props\<close> (\<open>proc.c\<close>):
    the invariant of the whole kernel (\<open>kernel_ok\<close>: processes, page ownership, open files) and that
    it holds in every state reached from \<open>userinit\<close> by the steps \<open>kstep\<close>, which are the operations of
    \<open>proc.c\<close> and the file system calls of the running processes. \<open>Proc_Locks\<close> has the locks: the state in which
    \<open>sched\<close> lets a process pass, and how the operations that switch reach it.
  \<^item> \<open>Spinlock\<close> (\<open>spinlock.c\<close>): mutual exclusion over the interleavings of the CPUs.
  \<^item> \<open>CString\<close> (\<open>string.c\<close>, \<open>ulib.c\<close>), \<open>Print\<close> (\<open>printf.c\<close> and the formatting of \<open>console.c\<close>), \<open>Console\<close>
    (\<open>console.c\<close>), \<open>Grep\<close> (\<open>grep.c\<close>), \<open>Umalloc\<close> and \<open>Umalloc_Props\<close> (\<open>umalloc.c\<close>: blocks in use are
    disjoint and keep their contents, and both functions return), and \<open>Sh\<close>, \<open>Sh_Parse\<close>, \<open>Sh_Props\<close> (the parser of \<open>sh.c\<close>).

  \<^bold>\<open>Atomicity.\<close> A stretch of code under a spin lock is one step, which \<open>mutual_exclusion\<close> justifies. Where a
  process sleeps, the step ends; the pipe, the lock, the log and the process table have step
  relations over such steps. In the relation \<open>kstep\<close> a file system call, \<open>fork\<close>, \<open>growproc\<close> and the part of \<open>exit\<close> before
  \<open>ptable.lock\<close> are one step as well, although the code runs them without a lock around the whole: what
  other CPUs do in the middle of them is not covered. A routine of the file systems runs as one process sees it: the sleep
  locks it takes are free, or the outcome is \<open>Sleeps\<close>.

  \<^bold>\<open>Bounds and fuel.\<close> Most loops are structural recursions over a counter. The page loops of \<open>vm.c\<close> run over
  addresses modulo \<open>2^32\<close>: after \<open>2^20\<close> pages an address repeats, so that is their fuel and running out
  is \<open>Diverges\<close>, which is exact. Loops without a bound of their own (\<open>strlen\<close>, \<open>atoi\<close>, the searches of \<open>malloc\<close> and \<open>free\<close>)
  are partial functions whose \<open>None\<close> is non-termination. The shell's parser has fuel \<open>4 * n + 4\<close> for a line
  of \<open>n\<close> bytes, which \<open>parsecmd_total\<close> proves to be enough.

  \<^bold>\<open>Not modelled.\<close>
  \<^item> Booting and the hardware: \<open>bootasm.S\<close>, \<open>bootmain.c\<close>, \<open>entry.S\<close>, \<open>entryother.S\<close>, \<open>main.c\<close>, \<open>mp.c\<close>,
    \<open>lapic.c\<close>, \<open>ioapic.c\<close>, \<open>picirq.c\<close>, \<open>uart.c\<close>: sequences of port and register accesses whose meaning is
    that of devices outside the sources.
  \<^item> Code that changes the machine context: \<open>swtch.S\<close>, \<open>trapasm.S\<close>, \<open>initcode.S\<close>, \<open>usys.S\<close>, \<open>seginit\<close>,
    \<open>switchkvm\<close>, and the registers that \<open>switchuvm\<close> loads (its checks are in \<open>Proc\<close>). A switch is the end of a
    step here.
  \<^item> \<open>exec.c\<close>, \<open>trap.c\<close> and \<open>sysproc.c\<close>: they connect parts that are modelled; the collection of the
    arguments of \<open>exec\<close> is in \<open>Sysfile\<close>, and \<open>sbrk\<close> as a program sees it in \<open>Umalloc\<close>. The model of the shell's
    parser takes \<open>malloc\<close> to succeed. \<open>mkfs.c\<close> runs on the host; the layout that it writes is that of \<open>Fs_Layout\<close>.
  \<^item> Test programs (\<open>usertests.c\<close>, \<open>ext2fstest.c\<close>, \<open>forktest.c\<close>, \<open>stressfs.c\<close>) and user programs that only
    issue system calls.
\<close>

end
